(* ===== verification/Casprix_Prelude.thy ===== *)
theory Casprix_Prelude
  imports Main "HOL-Library.Word" "HOL-Library.Signed_Division"
begin

text \<open>
  Shared material of the development: the names of the machine types, the generic
  helpers that stand for C idioms used all over the sources (the linear scan that
  returns the first matching index, the bit-mask rounding to an alignment, the
  eight-byte \<open>memcpy\<close> of a 64-bit value) and the lemmas about them.  The collections
  declared here gather the unfolding and preservation facts of the components.
\<close>

unbundle bit_operations_syntax

named_theorems mir_simps \<open>unfolding facts of the MIR operations\<close>
named_theorems cvm_simps \<open>unfolding facts of the VM operations\<close>
named_theorems opt_simps \<open>unfolding facts of the optimiser passes\<close>
named_theorems frame_simps \<open>what an operation leaves unchanged\<close>

type_synonym u8 = "8 word"
type_synonym u32 = "32 word"
type_synonym u64 = "64 word"

section \<open>The first index that satisfies a test\<close>

text \<open>The loop \<^verbatim>\<open>for (i = 0; i < n; i++) if (p(a[i])) return i;\<close>\<close>

fun find_index :: "('a \<Rightarrow> bool) \<Rightarrow> 'a list \<Rightarrow> nat option" where
  "find_index p [] = None"
| "find_index p (x # xs) = (if p x then Some 0 else map_option Suc (find_index p xs))"

lemma find_index_Some:
  "find_index p xs = Some i \<Longrightarrow> i < length xs \<and> p (xs ! i) \<and> (\<forall>j < i. \<not> p (xs ! j))"
proof (induction xs arbitrary: i)
  case (Cons x xs)
  show ?case
  proof (cases "p x")
    case False
    with Cons.prems obtain k where k: "find_index p xs = Some k" "i = Suc k" by auto
    with Cons.IH[OF k(1)] False show ?thesis by (auto simp: less_Suc_eq_0_disj)
  qed (use Cons.prems in auto)
qed simp

lemma find_index_None: "find_index p xs = None \<longleftrightarrow> (\<forall>x \<in> set xs. \<not> p x)"
  by (induction xs) auto

lemma find_index_append_left:
  "find_index p xs = Some i \<Longrightarrow> find_index p (xs @ ys) = Some i"
  by (induction xs arbitrary: i) (auto split: if_splits)

lemma find_index_append_right:
  "find_index p xs = None \<Longrightarrow> find_index p (xs @ ys) = map_option (\<lambda>i. i + length xs) (find_index p ys)"
  by (induction xs) (auto simp: option.map_comp comp_def option.map_ident split: if_splits)

lemma find_index_less: "find_index p xs = Some i \<Longrightarrow> i < length xs"
  using find_index_Some by blast

section \<open>Rounding up to an alignment with a bit mask\<close>

text \<open>\<^verbatim>\<open>(size + align - 1) & ~(align - 1)\<close> on a C \<^verbatim>\<open>int\<close>.\<close>

definition c_align_up :: "int \<Rightarrow> int \<Rightarrow> int" where
  "c_align_up x a = (x + a - 1) AND NOT (a - 1)"

lemma and_not_mask_eq: "(x :: int) AND NOT (2 ^ n - 1) = x - x mod 2 ^ n"
proof -
  have "NOT x AND take_bit n x = 0" by (rule bit_eqI) (auto simp: bit_simps)
  then have "x - take_bit n x = x AND NOT (take_bit n x)" by (rule disjunctive_diff_eq_and_not)
  also have "\<dots> = x AND NOT (mask n)" by (rule bit_eqI) (auto simp: bit_simps)
  finally show ?thesis by (simp add: mask_eq_exp_minus_1 take_bit_eq_mod)
qed

lemma c_align_up_pow2:
  assumes "a = 2 ^ n"
  shows "c_align_up x a = (x + a - 1) div a * a"
  using assms and_not_mask_eq[of "x + a - 1" n]
  by (simp add: c_align_up_def minus_mod_eq_div_mult)

lemma c_align_up_props:
  assumes "a = 2 ^ n"
  shows "a dvd c_align_up x a" and "x \<le> c_align_up x a" and "c_align_up x a < x + a"
proof -
  have pos: "0 < a" using assms by simp
  have eq: "c_align_up x a = (x + a - 1) - (x + a - 1) mod a"
    using c_align_up_pow2[OF assms, of x] by (simp add: minus_mod_eq_div_mult)
  show "a dvd c_align_up x a" using c_align_up_pow2[OF assms, of x] by simp
  have "0 \<le> (x + a - 1) mod a" "(x + a - 1) mod a < a" using pos by simp_all
  then show "x \<le> c_align_up x a" "c_align_up x a < x + a" unfolding eq by linarith+
qed

section \<open>Eight bytes of a 64-bit value, least significant first\<close>

definition le_bytes :: "u64 \<Rightarrow> u8 list" where
  "le_bytes w = map (\<lambda>i. ucast (drop_bit (8 * i) w)) [0..<8]"

definition le_word :: "u8 list \<Rightarrow> u64" where
  "le_word bs = foldr (\<lambda>b acc. ucast b OR push_bit 8 acc) bs 0"

lemma length_le_bytes [simp]: "length (le_bytes w) = 8"
  by (simp add: le_bytes_def)

lemma low_byte_or_rest:
  "(ucast (ucast (w :: u64) :: u8) :: u64) OR push_bit 8 (drop_bit 8 w) = w"
proof (rule bit_word_eqI)
  fix n assume "n < LENGTH(64)"
  then show "bit ((ucast (ucast w :: u8) :: u64) OR push_bit 8 (drop_bit 8 w)) n = bit w n"
    by (cases "n < 8") (auto simp: bit_simps)
qed

lemma le_word_le_bytes [simp]: "le_word (le_bytes w) = w"
proof -
  have "le_word (map (\<lambda>i. ucast (drop_bit (8 * i) w)) [8 - k..<8]) = drop_bit (8 * (8 - k)) w"
    if "k \<le> 8" for k
    using that
  proof (induction k)
    case 0
    have "drop_bit 64 w = 0" by (rule bit_word_eqI) (simp add: bit_simps)
    then show ?case by (simp add: le_word_def)
  next
    case (Suc k)
    let ?j = "8 - Suc k"
    have "Suc ?j = 8 - k" "?j < 8" using Suc.prems by simp_all
    then have j: "[?j..<8] = ?j # [8 - k..<8]" by (simp only: upt_conv_Cons)
    have d: "drop_bit (8 * (8 - k)) w = drop_bit 8 (drop_bit (8 * ?j) w)"
      using Suc.prems by (simp add: drop_bit_drop_bit algebra_simps Suc_diff_Suc)
    have IH: "le_word (map (\<lambda>i. ucast (drop_bit (8 * i) w)) [8 - k..<8]) = drop_bit (8 * (8 - k)) w"
      using Suc by simp
    have "le_word (map (\<lambda>i. ucast (drop_bit (8 * i) w)) [?j..<8]) =
        ucast (ucast (drop_bit (8 * ?j) w) :: u8) OR
        push_bit 8 (le_word (map (\<lambda>i. ucast (drop_bit (8 * i) w)) [8 - k..<8]))"
      unfolding j by (simp add: le_word_def)
    also have "\<dots> = drop_bit (8 * ?j) w"
      unfolding IH d by (rule low_byte_or_rest)
    finally show ?case .
  qed
  from this[of 8] show ?thesis by (simp add: le_bytes_def)
qed

section \<open>Unsigned ids read as C ints\<close>

lemma sint_small:
  assumes "unat (x :: u32) < 2 ^ 31"
  shows "sint x = uint x"
proof -
  have "int (unat x) < int (2 ^ 31)" using assms by (simp only: of_nat_less_iff)
  then have "uint x < 2 ^ 31" by simp
  moreover have "- (2 ^ 31) \<le> uint x" by (rule order_trans[OF _ uint_ge_0]) simp
  ultimately have "signed_take_bit 31 (uint x) = uint x" by (intro signed_take_bit_int_eq_self)
  then show ?thesis by (simp add: sint_uint)
qed

lemma le_sint_small: "unat (x :: u32) < 2 ^ 31 \<Longrightarrow> int n \<le> sint x \<longleftrightarrow> n \<le> unat x"
  using sint_small[of x] of_nat_le_iff[of n "unat x", where ?'a = int] by simp

lemma unat_Suc32: "unat (x :: u32) < 2 ^ 31 \<Longrightarrow> unat (x + 1) = Suc (unat x)"
  by (simp add: unat_word_ariths)

section \<open>Two readings of a 64-bit value\<close>

lemma uint_sint64: "uint (v :: u64) = sint v mod 2 ^ 64"
  using uint_word_of_int[of "sint v", where ?'a = 64] by simp

lemma sint_range64: "- (2 ^ 63) \<le> sint (v :: u64)" "sint (v :: u64) < 2 ^ 63"
  using sint_ge[of v] sint_less[of v] by simp_all

lemma unat_less64: "unat (v :: u64) < 2 ^ 64"
  using unsigned_less[where w = v and ?'a = nat] by simp

lemma unat_sint_nonneg: "0 \<le> sint (v :: u64) \<Longrightarrow> unat v = nat (sint v)"
  using uint_sint64[of v] sint_range64[of v] by (simp add: unat_eq_nat_uint)

lemma unat_uminus_sint:
  assumes "sint (v :: u64) < 0"
  shows "unat (- v) = nat (- sint v)"
proof -
  have "uint (- v) = (- sint v) mod 2 ^ 64"
    using uint_word_of_int[of "- sint v", where ?'a = 64] by simp
  also have "\<dots> = - sint v" using assms sint_range64[of v] by (intro mod_pos_pos_trivial) auto
  finally show ?thesis by (simp add: unat_eq_nat_uint)
qed

section \<open>Powers of two and masks\<close>

text \<open>The test \<^verbatim>\<open>v != 0 && (v & (v - 1)) == 0\<close>.\<close>

lemma nat_and_pred_zero:
  assumes "0 < (m :: nat)" and "m AND (m - 1) = 0"
  shows "\<exists>k. m = 2 ^ k"
  using assms
proof (induction m rule: less_induct)
  case (less m)
  show ?case
  proof (cases "even m")
    case True
    then obtain q where m: "m = 2 * q" by blast
    then have q: "0 < q" "q < m" using less.prems by simp_all
    then have "(m - 1) div 2 = q - 1" using m by simp
    then have "m AND (m - 1) = 2 * (q AND (q - 1))" using m by (subst and_rec) simp
    with less.prems have "q AND (q - 1) = 0" by simp
    with less.IH[OF q(2,1)] m show ?thesis by (metis power_Suc)
  next
    case False
    then obtain t where m: "m = 2 * t + 1" by (elim oddE)
    then have "m AND (m - 1) = 2 * t" by (subst and_rec) simp
    with less.prems m have "m = 2 ^ 0" by simp
    then show ?thesis ..
  qed
qed

lemma word_and_pred_zero:
  assumes "(c :: u64) \<noteq> 0" and "c AND (c - 1) = 0"
  shows "\<exists>k < 64. c = 2 ^ k \<and> unat c = 2 ^ k"
proof -
  have "unat c AND (unat c - 1) = 0"
    using arg_cong[OF assms(2), of unat] by (simp only: unsigned_and_eq unat_minus_one[OF assms(1)] unsigned_0)
  moreover have "0 < unat c" using assms(1) by (simp add: unat_gt_0)
  ultimately obtain k where k: "unat c = 2 ^ k" using nat_and_pred_zero by blast
  have "(2 :: nat) ^ k < 2 ^ 64" using k unat_less64[of c] by simp
  then have "k < 64" by (rule power_less_imp_less_exp[rotated]) simp
  moreover have "c = 2 ^ k" using arg_cong[OF k, of "of_nat :: nat \<Rightarrow> u64"] by simp
  ultimately show ?thesis using k by blast
qed

lemma unat_and_mask: "unat ((x :: u64) AND (2 ^ k - 1)) = unat x mod 2 ^ k"
proof -
  have "x AND (2 ^ k - 1) = take_bit k x" by (simp add: take_bit_eq_mask mask_eq_exp_minus_1)
  then have "unat (x AND (2 ^ k - 1)) = take_bit k (unat x)" by (simp only: unsigned_take_bit_eq)
  then show ?thesis by (simp add: take_bit_eq_mod)
qed

text \<open>Adding to a counter, read modulo a power of two, even where the counter wraps.\<close>

lemma unat_add_mod:
  assumes "k \<le> 64"
  shows "unat ((x :: u64) + of_nat n) mod 2 ^ k = (unat x + n) mod 2 ^ k"
proof -
  have d: "(2 :: nat) ^ k dvd 2 ^ 64" using assms by (rule le_imp_power_dvd)
  have "unat (x + of_nat n) = (unat x + n mod 2 ^ 64) mod 2 ^ 64"
    by (simp add: unat_word_ariths unsigned_of_nat take_bit_eq_mod)
  also have "\<dots> = (unat x + n) mod 2 ^ 64" by (simp add: mod_simps)
  finally show ?thesis using d by (simp add: mod_mod_cancel)
qed

end
