(* ===== verification/Mir.thy ===== *)
theory Mir
  imports Casprix_Prelude
begin

text \<open>
  The mid-level IR: the data of \<^verbatim>\<open>src/compiler/ir/mir.h\<close> and the core operations of
  \<^verbatim>\<open>src/compiler/ir/mir.c\<close> (arena, interned types, module tables, functions, blocks).

  Pointers are handles.  A \<^verbatim>\<open>MirType*\<close> is an index into the module's \<^verbatim>\<open>type_cache\<close>
  (every type the API allocates is appended there and never removed), a \<^verbatim>\<open>MirBlock*\<close> is an
  index into the function's block arena \<open>blocks\<close>; \<^verbatim>\<open>NULL\<close> is \<open>None\<close>.  The linked
  list of blocks is \<open>block_list\<close>, the linked list of instructions of a block is \<open>insts\<close>.
  Dynamic arrays with a separate capacity are lists, except for the value-type table, whose
  capacity the code compares with value ids.  Process memory is never exhausted in this
  theory (\<^verbatim>\<open>mir.c\<close> does not check its allocations).
\<close>

section \<open>Data (mir.h)\<close>

type_synonym MirValueId = u32
type_synonym tref = nat
type_synonym MirTypeP = "tref option"
type_synonym bref = nat
type_synonym MirBlockP = "bref option"

abbreviation MIR_VALUE_NONE :: MirValueId where
  "MIR_VALUE_NONE \<equiv> 0"

datatype MirTypeKind =
    MIR_TYPE_VOID | MIR_TYPE_BOOL
  | MIR_TYPE_I8 | MIR_TYPE_I16 | MIR_TYPE_I32 | MIR_TYPE_I64
  | MIR_TYPE_U8 | MIR_TYPE_U16 | MIR_TYPE_U32 | MIR_TYPE_U64
  | MIR_TYPE_F32 | MIR_TYPE_F64
  | MIR_TYPE_PTR | MIR_TYPE_REF | MIR_TYPE_MUT_REF | MIR_TYPE_FUNC
  | MIR_TYPE_STRUCT | MIR_TYPE_ARRAY | MIR_TYPE_SLICE | MIR_TYPE_AGGREGATE

text \<open>The tagged union \<^verbatim>\<open>MirType\<close>: the kinds without a payload share one constructor.\<close>

datatype MirType =
    TyPlain MirTypeKind
  | TyPtr MirTypeP
  | TyRef MirTypeP bool
  | TyFunc MirTypeP "MirTypeP list"
  | TyStruct "string option" "MirTypeP list" int int
  | TyArray MirTypeP int

fun ty_kind :: "MirType \<Rightarrow> MirTypeKind" where
  "ty_kind (TyPlain k) = k"
| "ty_kind (TyPtr p) = MIR_TYPE_PTR"
| "ty_kind (TyRef p m) = (if m then MIR_TYPE_MUT_REF else MIR_TYPE_REF)"
| "ty_kind (TyFunc r ps) = MIR_TYPE_FUNC"
| "ty_kind (TyStruct n fs s a) = MIR_TYPE_STRUCT"
| "ty_kind (TyArray e c) = MIR_TYPE_ARRAY"

text \<open>
  The opcodes, grouped by the member of the operand union they use.
\<close>

datatype MirBinOp =
    MIR_ADD | MIR_SUB | MIR_MUL | MIR_DIV | MIR_MOD
  | MIR_FADD | MIR_FSUB | MIR_FMUL | MIR_FDIV
  | MIR_BAND | MIR_BOR | MIR_BXOR | MIR_SHL | MIR_SHR | MIR_USHR
  | MIR_CMP_EQ | MIR_CMP_NE | MIR_CMP_LT | MIR_CMP_LE | MIR_CMP_GT | MIR_CMP_GE
  | MIR_LOGIC_AND | MIR_LOGIC_OR

datatype MirUnOp =
    MIR_NEG | MIR_FNEG | MIR_BNOT | MIR_LOGIC_NOT
  | MIR_CAST | MIR_BITCAST | MIR_TRUNC | MIR_ZEXT | MIR_SEXT | MIR_SITOFP | MIR_FPTOSI

datatype MirTransferOp = MIR_COPY | MIR_BORROW | MIR_BORROW_MUT | MIR_MOVE

datatype MirRefOp = MIR_ARC_RETAIN | MIR_ARC_RELEASE | MIR_DROP

datatype MirVecOpcode =
    MIR_VEC_LOAD | MIR_VEC_LOAD_UNALIGNED | MIR_VEC_STORE | MIR_VEC_STORE_UNALIGNED
  | MIR_VEC_BROADCAST | MIR_VEC_ADD | MIR_VEC_SUB | MIR_VEC_MUL | MIR_VEC_DIV
  | MIR_VEC_MIN | MIR_VEC_MAX | MIR_VEC_AND | MIR_VEC_OR | MIR_VEC_XOR | MIR_VEC_FMA
  | MIR_VEC_REDUCE_SUM | MIR_VEC_DOT | MIR_VEC_CMP_EQ | MIR_VEC_CMP_LT | MIR_VEC_CMP_GT
  | MIR_VEC_SELECT

text \<open>
  \<^verbatim>\<open>opcode\<close> together with the member of the union \<^verbatim>\<open>as\<close> it selects.  A float
  immediate is its 64 bits; a string immediate is its address (\<^verbatim>\<open>const char*\<close>); the
  name of a call is \<open>None\<close> for an indirect call, whose \<^verbatim>\<open>func_name\<close> is \<^verbatim>\<open>NULL\<close>.
\<close>

datatype MirOp =
    CONST_INT u64
  | CONST_FLOAT u64
  | CONST_BOOL bool
  | CONST_STRING u64
  | CONST_FUNC string
  | CONST_NULL
  | GLOBAL_ADDR string
  | BINARY MirBinOp MirValueId MirValueId
  | UNARY MirUnOp MirValueId MirTypeP
  | ALLOCA MirTypeP int
  | LOAD MirValueId
  | STORE MirValueId MirValueId
  | GET_FIELD_PTR MirValueId int MirValueId
  | GET_ELEM_PTR MirValueId int MirValueId
  | BR MirBlockP
  | CONDBR MirValueId MirBlockP MirBlockP
  | SWITCH MirValueId "(u64 \<times> MirBlockP) list" MirBlockP
  | RET MirValueId
  | RET_VOID
  | UNREACHABLE
  | CALL "string option" "MirValueId list" MirValueId
  | CALL_INDIRECT "string option" "MirValueId list" MirValueId
  | CALL_VIRTUAL MirValueId int "MirValueId list"
  | PHI "(MirBlockP \<times> MirValueId) list"
  | TRANSFER MirTransferOp MirValueId
  | REFOP MirRefOp MirValueId
  | OBJ_ALLOC "string option" int
  | STRUCT_INIT "MirValueId list"
  | EXTRACT MirValueId int
  | INSERT MirValueId int MirValueId
  | VEC MirVecOpcode MirValueId MirValueId MirValueId int MirTypeP
  | NOP
  | UNDEF
  | SUSPEND MirBlockP MirValueId
  | DEBUGLOC int int

record MirInst =
  iop :: MirOp
  result :: MirValueId
  itype :: MirTypeP

record MirBlock =
  bb_id :: nat
  label :: string
  insts :: "MirInst list"
  inst_count :: int
  predecessors :: "bref list"
  successors :: "bref list"

record MirParam =
  pname :: string
  ptype :: MirTypeP
  value_id :: MirValueId

record MirFunction =
  fname :: string
  return_type :: MirTypeP
  params :: "MirParam list"
  entry_block :: MirBlockP
  block_list :: "bref list"
  blocks :: "MirBlock list"
  block_count :: nat
  next_value_id :: MirValueId
  value_types :: "MirTypeP list"
  is_constexpr :: bool
  is_extern :: bool
  is_async :: bool

record MirGlobal =
  gname :: string
  gtype :: MirTypeP
  initializer :: MirValueId
  is_const :: bool

record MirModule =
  mname :: string
  func_list :: "MirFunction list"
  func_count :: nat
  globals :: "MirGlobal list"
  type_cache :: "MirType list"
  string_literals :: "string list"

section \<open>Arena\<close>

text \<open>
  Blocks are kept newest first (the head is \<^verbatim>\<open>current\<close>); an allocation is named by the
  number of its block and its offset there.  Block sizes are natural numbers: a request near
  \<^verbatim>\<open>SIZE_MAX\<close>, for which \<^verbatim>\<open>size + 7\<close> would wrap, is outside the model.
\<close>

definition MIR_ARENA_BLOCK_SIZE :: nat where
  "MIR_ARENA_BLOCK_SIZE = 64 * 1024"

record MirArenaBlock =
  capacity :: nat
  used :: nat

record MirArena =
  arena_blocks :: "MirArenaBlock list"
  total_allocated :: nat

definition mir_arena_block_create :: "nat \<Rightarrow> MirArenaBlock" where
  "mir_arena_block_create cap = \<lparr>capacity = cap, used = 0\<rparr>"

definition mir_arena_create :: MirArena where
  "mir_arena_create =
     \<lparr>arena_blocks = [mir_arena_block_create MIR_ARENA_BLOCK_SIZE], total_allocated = 0\<rparr>"

definition arena_round :: "nat \<Rightarrow> nat" where
  "arena_round n = nat ((int n + 7) AND NOT 7)"

definition mir_arena_alloc :: "MirArena \<Rightarrow> nat \<Rightarrow> MirArena \<times> (nat \<times> nat)" where
  "mir_arena_alloc ar request =
     (let n = arena_round request;
          bs = (case arena_blocks ar of
                  [] \<Rightarrow> []
                | cur # rest \<Rightarrow>
                    if used cur + n > capacity cur
                    then mir_arena_block_create
                           (if n > MIR_ARENA_BLOCK_SIZE then n * 2 else MIR_ARENA_BLOCK_SIZE)
                         # cur # rest
                    else cur # rest)
      in case bs of
           [] \<Rightarrow> (ar, (0, 0))
         | cur # rest \<Rightarrow>
             (ar\<lparr>arena_blocks := cur\<lparr>used := used cur + n\<rparr> # rest,
                 total_allocated := total_allocated ar + n\<rparr>,
              (length rest, used cur)))"

section \<open>Types\<close>

definition ty_is_compound :: "MirTypeKind \<Rightarrow> bool" where
  "ty_is_compound k \<longleftrightarrow>
     k \<in> {MIR_TYPE_PTR, MIR_TYPE_REF, MIR_TYPE_MUT_REF, MIR_TYPE_FUNC,
          MIR_TYPE_STRUCT, MIR_TYPE_ARRAY, MIR_TYPE_SLICE, MIR_TYPE_AGGREGATE}"

text \<open>The tail shared by all constructors: append to the cache, return the new pointer.\<close>

definition type_cache_add :: "MirModule \<Rightarrow> MirType \<Rightarrow> MirModule \<times> tref" where
  "type_cache_add m t = (m\<lparr>type_cache := type_cache m @ [t]\<rparr>, length (type_cache m))"

definition type_intern :: "MirModule \<Rightarrow> (MirType \<Rightarrow> bool) \<Rightarrow> MirType \<Rightarrow> MirModule \<times> tref" where
  "type_intern m p t =
     (case find_index p (type_cache m) of Some i \<Rightarrow> (m, i) | None \<Rightarrow> type_cache_add m t)"

definition mir_intern_primitive :: "MirModule \<Rightarrow> MirTypeKind \<Rightarrow> MirModule \<times> tref" where
  "mir_intern_primitive m kind =
     type_intern m (\<lambda>t. ty_kind t = kind \<and> \<not> ty_is_compound kind) (TyPlain kind)"

definition mir_type_ptr :: "MirModule \<Rightarrow> MirTypeP \<Rightarrow> MirModule \<times> tref" where
  "mir_type_ptr m pointee =
     type_intern m (\<lambda>t. case t of TyPtr p \<Rightarrow> p = pointee | _ \<Rightarrow> False) (TyPtr pointee)"

definition mir_type_ref :: "MirModule \<Rightarrow> MirTypeP \<Rightarrow> bool \<Rightarrow> MirModule \<times> tref" where
  "mir_type_ref m pointee is_mut =
     type_intern m (\<lambda>t. case t of TyRef p mu \<Rightarrow> mu = is_mut \<and> p = pointee | _ \<Rightarrow> False)
       (TyRef pointee is_mut)"

definition mir_type_array :: "MirModule \<Rightarrow> MirTypeP \<Rightarrow> int \<Rightarrow> MirModule \<times> tref" where
  "mir_type_array m elem count =
     type_intern m (\<lambda>t. case t of TyArray e c \<Rightarrow> e = elem \<and> c = count | _ \<Rightarrow> False)
       (TyArray elem count)"

definition mir_type_func :: "MirModule \<Rightarrow> MirTypeP \<Rightarrow> MirTypeP list \<Rightarrow> MirModule \<times> tref" where
  "mir_type_func m ret ps = type_cache_add m (TyFunc ret ps)"

text \<open>
  \<^verbatim>\<open>mir_type_size\<close> and \<^verbatim>\<open>mir_type_align\<close> follow the element type of an array.  An
  element is created before its array, so the recursion descends in the cache; the model
  spends one unit of fuel per level and starts with more than the pointer's index.
\<close>

fun plain_size :: "MirTypeKind \<Rightarrow> int" where
  "plain_size MIR_TYPE_VOID = 0"
| "plain_size MIR_TYPE_BOOL = 1"
| "plain_size MIR_TYPE_I8 = 1"
| "plain_size MIR_TYPE_U8 = 1"
| "plain_size MIR_TYPE_I16 = 2"
| "plain_size MIR_TYPE_U16 = 2"
| "plain_size MIR_TYPE_I32 = 4"
| "plain_size MIR_TYPE_U32 = 4"
| "plain_size MIR_TYPE_I64 = 8"
| "plain_size MIR_TYPE_U64 = 8"
| "plain_size MIR_TYPE_F32 = 4"
| "plain_size MIR_TYPE_F64 = 8"
| "plain_size MIR_TYPE_SLICE = 16"
| "plain_size MIR_TYPE_AGGREGATE = 0"
| "plain_size _ = 8"

fun plain_align :: "MirTypeKind \<Rightarrow> int" where
  "plain_align MIR_TYPE_VOID = 1"
| "plain_align MIR_TYPE_BOOL = 1"
| "plain_align MIR_TYPE_I8 = 1"
| "plain_align MIR_TYPE_U8 = 1"
| "plain_align MIR_TYPE_I16 = 2"
| "plain_align MIR_TYPE_U16 = 2"
| "plain_align MIR_TYPE_I32 = 4"
| "plain_align MIR_TYPE_U32 = 4"
| "plain_align MIR_TYPE_F32 = 4"
| "plain_align _ = 8"

fun type_size_fuel :: "nat \<Rightarrow> MirType list \<Rightarrow> MirTypeP \<Rightarrow> int" where
  "type_size_fuel n c None = 0"
| "type_size_fuel 0 c (Some t) = 0"
| "type_size_fuel (Suc n) c (Some t) =
     (if t < length c then
        (case c ! t of
           TyPlain k \<Rightarrow> plain_size k
         | TyStruct nm fs sz al \<Rightarrow> sz
         | TyArray e cnt \<Rightarrow> type_size_fuel n c e * cnt
         | _ \<Rightarrow> 8)
      else 0)"

fun type_align_fuel :: "nat \<Rightarrow> MirType list \<Rightarrow> MirTypeP \<Rightarrow> int" where
  "type_align_fuel n c None = 1"
| "type_align_fuel 0 c (Some t) = 1"
| "type_align_fuel (Suc n) c (Some t) =
     (if t < length c then
        (case c ! t of
           TyPlain k \<Rightarrow> plain_align k
         | TyStruct nm fs sz al \<Rightarrow> al
         | TyArray e cnt \<Rightarrow> type_align_fuel n c e
         | _ \<Rightarrow> 8)
      else 1)"

definition mir_type_size :: "MirType list \<Rightarrow> MirTypeP \<Rightarrow> int" where
  "mir_type_size c t = type_size_fuel (Suc (length c)) c t"

definition mir_type_align :: "MirType list \<Rightarrow> MirTypeP \<Rightarrow> int" where
  "mir_type_align c t = type_align_fuel (Suc (length c)) c t"

fun struct_layout :: "MirType list \<Rightarrow> MirTypeP list \<Rightarrow> int \<Rightarrow> int \<Rightarrow> int \<times> int" where
  "struct_layout c [] sz align = (c_align_up sz align, align)"
| "struct_layout c (f # fs) sz align =
     (let fa = mir_type_align c f;
          al1 = (if fa > align then fa else align);
          sz1 = c_align_up sz fa + mir_type_size c f
      in struct_layout c fs sz1 al1)"

definition mir_type_struct ::
    "MirModule \<Rightarrow> string option \<Rightarrow> MirTypeP list \<Rightarrow> MirModule \<times> tref" where
  "mir_type_struct m name fs =
     type_intern m
       (\<lambda>t. case t of TyStruct (Some n) _ _ _ \<Rightarrow> name = Some n | _ \<Rightarrow> False)
       (let (sz, align) = struct_layout (type_cache m) fs 0 1
        in TyStruct name fs sz align)"

definition mir_type_kind_in :: "MirType list \<Rightarrow> MirTypeP \<Rightarrow> MirTypeKind set \<Rightarrow> bool" where
  "mir_type_kind_in c t ks = (case t of None \<Rightarrow> False | Some i \<Rightarrow> i < length c \<and> ty_kind (c ! i) \<in> ks)"

definition mir_type_is_integer :: "MirType list \<Rightarrow> MirTypeP \<Rightarrow> bool" where
  "mir_type_is_integer c t = mir_type_kind_in c t
     {MIR_TYPE_I8, MIR_TYPE_I16, MIR_TYPE_I32, MIR_TYPE_I64,
      MIR_TYPE_U8, MIR_TYPE_U16, MIR_TYPE_U32, MIR_TYPE_U64}"

definition mir_type_is_float :: "MirType list \<Rightarrow> MirTypeP \<Rightarrow> bool" where
  "mir_type_is_float c t = mir_type_kind_in c t {MIR_TYPE_F32, MIR_TYPE_F64}"

definition mir_type_is_pointer :: "MirType list \<Rightarrow> MirTypeP \<Rightarrow> bool" where
  "mir_type_is_pointer c t =
     mir_type_kind_in c t {MIR_TYPE_PTR, MIR_TYPE_REF, MIR_TYPE_MUT_REF}"

section \<open>Functions, blocks and modules\<close>

definition mir_function_new_value :: "MirFunction \<Rightarrow> MirTypeP \<Rightarrow> MirFunction \<times> MirValueId" where
  "mir_function_new_value f ty =
     (let vid = next_value_id f;
          cap = length (value_types f);
          tbl = (if sint vid \<ge> int cap then value_types f @ replicate cap None
                 else value_types f)
      in (f\<lparr>next_value_id := vid + 1, value_types := tbl[unat vid := ty]\<rparr>, vid))"

definition mir_function_value_type :: "MirFunction \<Rightarrow> MirValueId \<Rightarrow> MirTypeP" where
  "mir_function_value_type f vid =
     (if vid = MIR_VALUE_NONE \<or> sint vid \<ge> int (length (value_types f)) then None
      else value_types f ! unat vid)"

fun add_params :: "MirFunction \<Rightarrow> (string \<times> MirTypeP) list \<Rightarrow> MirFunction" where
  "add_params f [] = f"
| "add_params f ((n, t) # ps) =
     (let (f', vid) = mir_function_new_value f t
      in add_params (f'\<lparr>params := params f' @ [\<lparr>pname = n, ptype = t, value_id = vid\<rparr>]\<rparr>) ps)"

definition mir_module_add_function ::
    "MirModule \<Rightarrow> string \<Rightarrow> MirTypeP \<Rightarrow> (string \<times> MirTypeP) list \<Rightarrow> MirModule \<times> MirFunction" where
  "mir_module_add_function m name ret ps =
     (let f0 = \<lparr>fname = name, return_type = ret, params = [], entry_block = None,
                block_list = [], blocks = [], block_count = 0, next_value_id = 1,
                value_types = replicate 64 None, is_constexpr = False, is_extern = False,
                is_async = False\<rparr>;
          f = add_params f0 ps
      in (m\<lparr>func_list := f # func_list m, func_count := func_count m + 1\<rparr>, f))"

definition mir_module_find_function :: "MirModule \<Rightarrow> string \<Rightarrow> MirFunction option" where
  "mir_module_find_function m name = find (\<lambda>f. fname f = name) (func_list m)"

definition mir_module_create :: "string \<Rightarrow> MirModule" where
  "mir_module_create name =
     \<lparr>mname = name, func_list = [], func_count = 0, globals = [], type_cache = [],
      string_literals = []\<rparr>"

text \<open>\<open>None\<close> stands for the result \<^verbatim>\<open>-1\<close>.\<close>

definition mir_module_find_global :: "MirModule \<Rightarrow> string \<Rightarrow> nat option" where
  "mir_module_find_global m name = find_index (\<lambda>g. gname g = name) (globals m)"

definition mir_module_add_global ::
    "MirModule \<Rightarrow> string \<Rightarrow> MirTypeP \<Rightarrow> bool \<Rightarrow> MirModule \<times> nat" where
  "mir_module_add_global m name ty isc =
     (case mir_module_find_global m name of
        Some i \<Rightarrow>
          (let g = globals m ! i;
               g' = g\<lparr>gtype := (case gtype g of None \<Rightarrow> ty | Some t \<Rightarrow> Some t),
                      is_const := is_const g \<or> isc\<rparr>
           in (m\<lparr>globals := (globals m)[i := g']\<rparr>, i))
      | None \<Rightarrow>
          (m\<lparr>globals := globals m @
               [\<lparr>gname = name, gtype = ty, initializer = MIR_VALUE_NONE, is_const = isc\<rparr>]\<rparr>,
           length (globals m)))"

definition mir_module_add_string :: "MirModule \<Rightarrow> string \<Rightarrow> MirModule \<times> nat" where
  "mir_module_add_string m s =
     (case find_index (\<lambda>x. x = s) (string_literals m) of
        Some i \<Rightarrow> (m, i)
      | None \<Rightarrow> (m\<lparr>string_literals := string_literals m @ [s]\<rparr>, length (string_literals m)))"

definition mir_function_add_block :: "MirFunction \<Rightarrow> string \<Rightarrow> MirFunction \<times> bref" where
  "mir_function_add_block f lbl =
     (let b = length (blocks f);
          blk = \<lparr>bb_id = block_count f, label = lbl, insts = [], inst_count = 0,
                 predecessors = [], successors = []\<rparr>
      in (f\<lparr>block_count := block_count f + 1,
            blocks := blocks f @ [blk],
            block_list := block_list f @ [b],
            entry_block := (if block_list f = [] then Some b else entry_block f)\<rparr>, b))"

definition mir_block_append :: "MirBlock \<Rightarrow> MirInst \<Rightarrow> MirBlock" where
  "mir_block_append blk i = blk\<lparr>insts := insts blk @ [i], inst_count := inst_count blk + 1\<rparr>"

definition mir_block_add_predecessor :: "MirBlock \<Rightarrow> bref \<Rightarrow> MirBlock" where
  "mir_block_add_predecessor blk p =
     (if p \<in> set (predecessors blk) then blk
      else blk\<lparr>predecessors := predecessors blk @ [p]\<rparr>)"

definition mir_block_add_successor :: "MirBlock \<Rightarrow> bref \<Rightarrow> MirBlock" where
  "mir_block_add_successor blk s =
     (if s \<in> set (successors blk) then blk
      else blk\<lparr>successors := successors blk @ [s]\<rparr>)"

fun is_terminator :: "MirOp \<Rightarrow> bool" where
  "is_terminator (BR t) = True"
| "is_terminator (CONDBR c t f) = True"
| "is_terminator (SWITCH d cs df) = True"
| "is_terminator (RET v) = True"
| "is_terminator RET_VOID = True"
| "is_terminator UNREACHABLE = True"
| "is_terminator _ = False"

definition mir_block_is_terminated :: "MirBlock \<Rightarrow> bool" where
  "mir_block_is_terminated blk \<longleftrightarrow> insts blk \<noteq> [] \<and> is_terminator (iop (last (insts blk)))"

text \<open>Block handles: reading and writing the block arena.\<close>

definition upd_block :: "MirFunction \<Rightarrow> bref \<Rightarrow> (MirBlock \<Rightarrow> MirBlock) \<Rightarrow> MirFunction" where
  "upd_block f b g = f\<lparr>blocks := (blocks f)[b := g (blocks f ! b)]\<rparr>"

text \<open>\<^verbatim>\<open>bb->next_block\<close>: the block after \<open>b\<close> in the function's list.\<close>

fun next_in :: "bref list \<Rightarrow> bref \<Rightarrow> MirBlockP" where
  "next_in [] b = None"
| "next_in [x] b = None"
| "next_in (x # y # xs) b = (if x = b then Some y else next_in (y # xs) b)"

definition next_block :: "MirFunction \<Rightarrow> bref \<Rightarrow> MirBlockP" where
  "next_block f b = next_in (block_list f) b"

section \<open>The arena hands out disjoint, aligned regions\<close>

definition arena_wf :: "MirArena \<Rightarrow> bool" where
  "arena_wf ar \<longleftrightarrow> arena_blocks ar \<noteq> [] \<and>
     (\<forall>b \<in> set (arena_blocks ar). used b \<le> capacity b \<and> 8 dvd used b)"

text \<open>How far block number \<open>k\<close> (counted from the oldest) is filled.\<close>

definition arena_fill :: "MirArena \<Rightarrow> nat \<Rightarrow> nat" where
  "arena_fill ar k = (if k < length (arena_blocks ar) then used (rev (arena_blocks ar) ! k) else 0)"

text \<open>A sequence of requests; each region is (block, offset, rounded size).\<close>

fun arena_run :: "MirArena \<Rightarrow> nat list \<Rightarrow> MirArena \<times> (nat \<times> nat \<times> nat) list" where
  "arena_run ar [] = (ar, [])"
| "arena_run ar (n # ns) =
     (let (ar1, (k, off)) = mir_arena_alloc ar n; (ar2, rs) = arena_run ar1 ns
      in (ar2, (k, off, arena_round n) # rs))"

definition regions_disjoint :: "nat \<times> nat \<times> nat \<Rightarrow> nat \<times> nat \<times> nat \<Rightarrow> bool" where
  "regions_disjoint r1 r2 \<longleftrightarrow>
     (case (r1, r2) of ((k1, o1, n1), (k2, o2, n2)) \<Rightarrow> k1 \<noteq> k2 \<or> o1 + n1 \<le> o2 \<or> o2 + n2 \<le> o1)"

lemma arena_round_props: "8 dvd arena_round n" "n \<le> arena_round n" "arena_round n < n + 8"
proof -
  have c: "int n + 7 AND NOT 7 = c_align_up (int n) 8" by (simp add: c_align_up_def add.commute)
  have e: "(8::int) = 2 ^ 3" by simp
  note pr = c_align_up_props[OF e, of "int n"]
  have eq: "int (arena_round n) = c_align_up (int n) 8"
    using pr(2) unfolding arena_round_def c by simp
  show "8 dvd arena_round n" using pr(1) unfolding eq[symmetric] by presburger
  show "n \<le> arena_round n" "arena_round n < n + 8" using pr(2,3) unfolding eq[symmetric] by simp_all
qed

lemma mir_arena_create_wf [simp]: "arena_wf mir_arena_create"
  by (simp add: arena_wf_def mir_arena_create_def mir_arena_block_create_def)

lemma mir_arena_alloc_wf:
  assumes wf: "arena_wf ar" and al: "mir_arena_alloc ar n = (ar', (k, off))"
  shows "arena_wf ar'" "8 dvd off" "off = arena_fill ar k"
    "arena_fill ar' = (arena_fill ar)(k := off + arena_round n)"
    "k < length (arena_blocks ar')"
    "off + arena_round n \<le> capacity (rev (arena_blocks ar') ! k)"
proof -
  obtain cur rest where ab: "arena_blocks ar = cur # rest"
    using wf by (cases "arena_blocks ar") (auto simp: arena_wf_def)
  have w: "used cur \<le> capacity cur" "8 dvd used cur"
    "\<And>b. b \<in> set rest \<Longrightarrow> used b \<le> capacity b \<and> 8 dvd used b"
    using wf ab by (auto simp: arena_wf_def)
  define new where "new = mir_arena_block_create
    (if arena_round n > MIR_ARENA_BLOCK_SIZE then arena_round n * 2 else MIR_ARENA_BLOCK_SIZE)"
  define fits where "fits \<longleftrightarrow> used cur + arena_round n \<le> capacity cur"
  have new: "used new = 0" "arena_round n \<le> capacity new"
    by (auto simp: new_def mir_arena_block_create_def)
  have r: "8 dvd arena_round n" by (rule arena_round_props)
  have "ar' = ar\<lparr>arena_blocks := (if fits then cur\<lparr>used := used cur + arena_round n\<rparr> # rest
                  else new\<lparr>used := arena_round n\<rparr> # cur # rest),
              total_allocated := total_allocated ar + arena_round n\<rparr>"
    and k: "k = (if fits then length rest else Suc (length rest))"
    and off: "off = (if fits then used cur else 0)"
    using al new by (auto simp: mir_arena_alloc_def ab Let_def new_def fits_def not_le
        split: if_splits)
  then have ar': "arena_blocks ar' = (if fits then cur\<lparr>used := used cur + arena_round n\<rparr> # rest
                  else new\<lparr>used := arena_round n\<rparr> # cur # rest)" by simp
  show "arena_wf ar'" using w new r by (auto simp: arena_wf_def ar' fits_def)
  show "8 dvd off" using w off by simp
  show "off = arena_fill ar k" using k off by (auto simp: arena_fill_def ab nth_append)
  show "k < length (arena_blocks ar')" using k by (simp add: ar')
  show "off + arena_round n \<le> capacity (rev (arena_blocks ar') ! k)"
    using k off new by (auto simp: ar' nth_append fits_def)
  show "arena_fill ar' = (arena_fill ar)(k := off + arena_round n)"
    using k off by (auto simp: fun_eq_iff arena_fill_def ar' ab nth_append less_Suc_eq)
qed

lemma arena_run_above_fill:
  assumes "arena_wf ar" and "(k, off, n) \<in> set (snd (arena_run ar ns))"
  shows "arena_fill ar k \<le> off"
  using assms
proof (induction ns arbitrary: ar)
  case (Cons m ns)
  obtain ar1 k1 o1 where al: "mir_arena_alloc ar m = (ar1, (k1, o1))" by (metis prod_cases3)
  note wf = mir_arena_alloc_wf[OF Cons.prems(1) al]
  from Cons.prems(2) consider "(k, off) = (k1, o1)" | "(k, off, n) \<in> set (snd (arena_run ar1 ns))"
    by (auto simp: al split: prod.splits)
  then show ?case
  proof cases
    case 1
    then show ?thesis using wf(3) by simp
  next
    case 2
    then have "arena_fill ar1 k \<le> off" using Cons.IH wf(1) by blast
    then show ?thesis using wf(3,4) by (cases "k = k1") auto
  qed
qed simp

text \<open>
  Any sequence of requests to a fresh MIR arena gets regions that are 8-byte aligned, at
  least as large as requested, and pairwise disjoint: no two MIR nodes ever overlap, whether
  they share an arena block or not, and oversized requests get a block of their own.
\<close>

theorem mir_arena_regions:
  assumes "arena_run mir_arena_create ns = (ar, rs)"
  shows "arena_wf ar \<and> length rs = length ns
    \<and> (\<forall>i < length rs. case rs ! i of (k, off, n) \<Rightarrow> 8 dvd off \<and> ns ! i \<le> n)
    \<and> (\<forall>j < length rs. \<forall>i < j. regions_disjoint (rs ! i) (rs ! j))"
proof -
  have gen: "arena_wf a \<Longrightarrow> arena_run a ns = (ar, rs) \<Longrightarrow> ?thesis" for a
  proof (induction ns arbitrary: a rs)
    case (Cons m ns)
    obtain a1 k1 o1 where al: "mir_arena_alloc a m = (a1, (k1, o1))" by (metis prod_cases3)
    obtain rs1 where run: "arena_run a1 ns = (ar, rs1)" and rs: "rs = (k1, o1, arena_round m) # rs1"
      using Cons.prems(2) by (auto simp: al split: prod.splits)
    note wf = mir_arena_alloc_wf[OF Cons.prems(1) al]
    note IH = Cons.IH[OF wf(1) run]
    have later: "regions_disjoint (k1, o1, arena_round m) (rs1 ! j)" if "j < length rs1" for j
    proof -
      obtain k off n where r: "rs1 ! j = (k, off, n)" by (metis prod_cases3)
      then have "(k, off, n) \<in> set (snd (arena_run a1 ns))" using that run by (metis nth_mem snd_conv)
      then have "arena_fill a1 k \<le> off" using arena_run_above_fill wf(1) by blast
      then show ?thesis using wf(4) r by (auto simp: regions_disjoint_def split: if_splits)
    qed
    show ?case
      using IH later wf(2) arena_round_props(2)[of m]
      by (auto simp: rs nth_Cons less_Suc_eq_0_disj split: nat.splits)
  qed simp
  show ?thesis by (rule gen[OF mir_arena_create_wf assms])
qed

theorem mir_arena_regions_witness:
  "snd (arena_run mir_arena_create [5, 24, 70000]) = [(0, 0, 8), (0, 8, 24), (1, 0, 70000)]
   \<and> arena_wf (fst (arena_run mir_arena_create [5, 24, 70000]))"
proof -
  have ev: "snd (arena_run mir_arena_create [5, 24, 70000]) = [(0, 0, 8), (0, 8, 24), (1, 0, 70000)]"
    by (simp add: mir_arena_create_def mir_arena_block_create_def mir_arena_alloc_def
        MIR_ARENA_BLOCK_SIZE_def arena_round_def)
  have "arena_run mir_arena_create [5, 24, 70000] =
      (fst (arena_run mir_arena_create [5, 24, 70000]), snd (arena_run mir_arena_create [5, 24, 70000]))"
    by simp
  from mir_arena_regions[OF this] ev show ?thesis by simp
qed

section \<open>Interning tables\<close>

text \<open>
  The string table, the global table and the cache of derived types follow one contract:
  a key already present is found and nothing changes, a new key is appended.
\<close>

locale intern_table =
  fixes intern :: "'s \<Rightarrow> 'k \<Rightarrow> 's \<times> nat"
    and entries :: "'s \<Rightarrow> 'e list"
    and mk :: "'k \<Rightarrow> 'e"
  assumes intern_eq: "intern s k = (s', i) \<Longrightarrow>
      (case find_index (\<lambda>e. e = mk k) (entries s) of
         Some j \<Rightarrow> i = j \<and> entries s' = entries s
       | None \<Rightarrow> i = length (entries s) \<and> entries s' = entries s @ [mk k])"
begin

lemma intern_index:
  assumes "intern s k = (s', i)"
  shows "i < length (entries s') \<and> entries s' ! i = mk k"
  using intern_eq[OF assms] by (auto dest: find_index_Some split: option.splits)

lemma intern_prefix:
  assumes "intern s k = (s', i)"
  shows "take (length (entries s)) (entries s') = entries s"
  using intern_eq[OF assms(1)] by (auto split: option.splits)

lemma intern_stable:
  assumes "intern s k = (s', i)" and "j < length (entries s)"
  shows "j < length (entries s') \<and> entries s' ! j = entries s ! j"
  using intern_eq[OF assms(1)] assms(2) by (auto simp: nth_append split: option.splits)

lemma intern_distinct:
  assumes "intern s k = (s', i)" and "distinct (entries s)"
  shows "distinct (entries s')"
  using intern_eq[OF assms(1)] assms(2)
  by (auto simp: find_index_None split: option.splits)

lemma intern_again:
  assumes "intern s k = (s', i)" and "intern s' k = (s'', j)"
  shows "j = i \<and> entries s'' = entries s'"
proof (cases "find_index (\<lambda>e. e = mk k) (entries s)")
  case None
  then have "find_index (\<lambda>e. e = mk k) (entries s') = Some i"
    using intern_eq[OF assms(1)] by (simp add: find_index_append_right)
  then show ?thesis using intern_eq[OF assms(2)] by simp
next
  case (Some l)
  then show ?thesis using intern_eq[OF assms(1)] intern_eq[OF assms(2)] by simp
qed

lemma intern_law:
  "case intern s k of (s1, i) \<Rightarrow>
     i < length (entries s1) \<and> entries s1 ! i = mk k
     \<and> take (length (entries s)) (entries s1) = entries s
     \<and> (case intern s1 k of (s2, j) \<Rightarrow> j = i \<and> entries s2 = entries s1)"
proof -
  obtain s1 i where a: "intern s k = (s1, i)" by fastforce
  obtain s2 j where b: "intern s1 k = (s2, j)" by fastforce
  show ?thesis using intern_index[OF a] intern_prefix[OF a] intern_again[OF a b] by (simp add: a b)
qed

end

interpretation strings: intern_table mir_module_add_string string_literals "\<lambda>s. s"
  by unfold_locales (auto simp: mir_module_add_string_def split: option.splits)

interpretation globals_tab: intern_table
    "\<lambda>m n. mir_module_add_global m n ty isc" "\<lambda>m. map gname (globals m)" "\<lambda>n. n" for ty isc
proof unfold_locales
  fix m k m' i
  assume a: "mir_module_add_global m k ty isc = (m', i)"
  have fi: "find_index (\<lambda>e. e = k) (map gname gs) = find_index (\<lambda>g. gname g = k) gs" for gs
    by (induction gs) auto
  have upd: "map gname (gs[j := g]) = map gname gs" if "gname g = gname (gs ! j)" for gs j g
    using that by (metis list_update_id map_update)
  show "case find_index (\<lambda>e. e = k) (map gname (globals m)) of
      None \<Rightarrow> i = length (map gname (globals m)) \<and>
        map gname (globals m') = map gname (globals m) @ [k]
    | Some j \<Rightarrow> i = j \<and> map gname (globals m') = map gname (globals m)"
    using a by (auto simp: mir_module_add_global_def mir_module_find_global_def fi upd Let_def
        split: option.splits)
qed

lemma type_intern_eq:
  assumes "type_intern m (\<lambda>e. e = t) t = (m', i)"
  shows "case find_index (\<lambda>e. e = t) (type_cache m) of
      None \<Rightarrow> i = length (type_cache m) \<and> type_cache m' = type_cache m @ [t]
    | Some j \<Rightarrow> i = j \<and> type_cache m' = type_cache m"
  using assms by (auto simp: type_intern_def type_cache_add_def split: option.splits)

lemma type_tests:
  "(\<lambda>t. case t of TyPtr p \<Rightarrow> p = q | _ \<Rightarrow> False) = (\<lambda>t. t = TyPtr q)"
  "(\<lambda>t. case t of TyRef p mu \<Rightarrow> mu = b \<and> p = q | _ \<Rightarrow> False) = (\<lambda>t. t = TyRef q b)"
  "(\<lambda>t. case t of TyArray e c \<Rightarrow> e = q \<and> c = n | _ \<Rightarrow> False) = (\<lambda>t. t = TyArray q n)"
  by (auto simp: fun_eq_iff split: MirType.splits)

interpretation ptr_types: intern_table mir_type_ptr type_cache TyPtr
  by unfold_locales (simp add: mir_type_ptr_def type_tests type_intern_eq)

interpretation ref_types: intern_table
    "\<lambda>m (p, mu). mir_type_ref m p mu" type_cache "\<lambda>(p, mu). TyRef p mu"
  by unfold_locales (auto simp: mir_type_ref_def type_tests dest: type_intern_eq)

interpretation array_types: intern_table
    "\<lambda>m (e, c). mir_type_array m e c" type_cache "\<lambda>(e, c). TyArray e c"
  by unfold_locales (auto simp: mir_type_array_def type_tests dest: type_intern_eq)

section \<open>Well-formed type caches and the layout of structs\<close>

definition is_align :: "int \<Rightarrow> bool" where
  "is_align a \<longleftrightarrow> a = 1 \<or> a = 2 \<or> a = 4 \<or> a = 8"

text \<open>Array elements are older than the array; recorded struct layouts are legal.\<close>

definition type_ok :: "nat \<Rightarrow> MirType \<Rightarrow> bool" where
  "type_ok i t = (case t of
      TyArray (Some e) c \<Rightarrow> e < i
    | TyStruct n fs sz al \<Rightarrow> is_align al \<and> al dvd sz
    | _ \<Rightarrow> True)"

definition cache_wf :: "MirType list \<Rightarrow> bool" where
  "cache_wf c \<longleftrightarrow> (\<forall>i < length c. type_ok i (c ! i))"

lemma cache_wf_append: "cache_wf c \<Longrightarrow> type_ok (length c) t \<Longrightarrow> cache_wf (c @ [t])"
  by (auto simp: cache_wf_def nth_append less_Suc_eq)

lemma type_intern_wf:
  "cache_wf (type_cache m) \<Longrightarrow> type_ok (length (type_cache m)) t \<Longrightarrow>
   cache_wf (type_cache (fst (type_intern m p t)))"
  by (auto simp: type_intern_def type_cache_add_def cache_wf_append split: option.splits)

lemma is_align_simps [simp]: "is_align 1" "is_align 2" "is_align 4" "is_align 8"
  by (simp_all add: is_align_def)

lemma is_align_pow2: "is_align a \<Longrightarrow> \<exists>n. a = 2 ^ n"
  unfolding is_align_def by (metis power_0 power_one_right power2_eq_square mult_2_right
      numeral_Bit0 numeral_plus_numeral one_add_one power3_eq_cube numeral_times_numeral
      semiring_norm(2,6,13))

lemma plain_align_ok: "is_align (plain_align k)"
  by (cases k) auto

lemma type_align_fuel_ok: "cache_wf c \<Longrightarrow> is_align (type_align_fuel n c t)"
proof (induction n c t rule: type_align_fuel.induct)
  case (3 n c t)
  then show ?case
    by (auto simp: cache_wf_def type_ok_def plain_align_ok split: MirType.splits)
qed auto

lemma fuel_any:
  assumes "cache_wf c"
  shows "t < n \<Longrightarrow> t < m \<Longrightarrow> type_size_fuel n c (Some t) = type_size_fuel m c (Some t) \<and>
      type_align_fuel n c (Some t) = type_align_fuel m c (Some t)"
proof (induction t arbitrary: n m rule: less_induct)
  case (less t)
  then obtain n' m' where nm: "n = Suc n'" "m = Suc m'" by (metis less_imp_Suc_add)
  show ?case
  proof (cases "t < length c \<and> (\<exists>e k. c ! t = TyArray (Some e) k)")
    case True
    then obtain e k where e: "c ! t = TyArray (Some e) k" by blast
    then have "e < t" using assms(1) True by (auto simp: cache_wf_def type_ok_def)
    then show ?thesis using less.IH[of e n' m'] less.prems nm e by simp
  next
    case False
    then have "c ! t = TyArray e k \<Longrightarrow> t < length c \<Longrightarrow> e = None" for e k by (cases e) auto
    then show ?thesis using nm by (auto split: MirType.splits)
  qed
qed

lemma fuel_enough:
  assumes "cache_wf c" and "t < length c"
  shows "type_size_fuel (length c) c (Some t) = mir_type_size c (Some t)"
    and "type_align_fuel (length c) c (Some t) = mir_type_align c (Some t)"
  using fuel_any[OF assms(1), of t "length c" "Suc (length c)"] assms(2)
  by (simp_all only: mir_type_size_def mir_type_align_def)

lemma is_align_type [simp]: "cache_wf c \<Longrightarrow> is_align (mir_type_align c t)"
  by (simp add: mir_type_align_def type_align_fuel_ok)

text \<open>
  On every well-formed cache the queries satisfy the recursion the C functions are written as,
  whatever the nesting depth of the arrays: the fuel is always enough.
\<close>

lemma mir_type_size_rec:
  assumes "cache_wf c" and "t < length c"
  shows "mir_type_size c (Some t) =
      (case c ! t of
         TyPlain k \<Rightarrow> plain_size k
       | TyStruct n fs sz al \<Rightarrow> sz
       | TyArray e k \<Rightarrow> mir_type_size c e * k
       | _ \<Rightarrow> 8)"
    and "mir_type_align c (Some t) =
      (case c ! t of
         TyPlain k \<Rightarrow> plain_align k
       | TyStruct n fs sz al \<Rightarrow> al
       | TyArray e k \<Rightarrow> mir_type_align c e
       | _ \<Rightarrow> 8)"
proof -
  have e: "e < t" if "c ! t = TyArray (Some e) k" for e k
    using assms that by (auto simp: cache_wf_def type_ok_def)
  have sz: "type_size_fuel (length c) c e = mir_type_size c e"
    "type_align_fuel (length c) c e = mir_type_align c e" if "c ! t = TyArray e k" for e k
    using fuel_enough[OF assms(1)] e[of _ k] assms(2) that
    by (cases e; simp add: mir_type_size_def mir_type_align_def del: type_size_fuel.simps(3) type_align_fuel.simps(3))+
  show "mir_type_size c (Some t) =
      (case c ! t of
         TyPlain k \<Rightarrow> plain_size k
       | TyStruct n fs sz al \<Rightarrow> sz
       | TyArray e k \<Rightarrow> mir_type_size c e * k
       | _ \<Rightarrow> 8)"
    and "mir_type_align c (Some t) =
      (case c ! t of
         TyPlain k \<Rightarrow> plain_align k
       | TyStruct n fs sz al \<Rightarrow> al
       | TyArray e k \<Rightarrow> mir_type_align c e
       | _ \<Rightarrow> 8)"
    using assms(2) sz by (auto simp: mir_type_size_def mir_type_align_def split: MirType.splits)
qed

text \<open>The offsets the layout loop passes through, one per field.\<close>

fun field_offsets :: "MirType list \<Rightarrow> MirTypeP list \<Rightarrow> int \<Rightarrow> int list" where
  "field_offsets c [] sz = []"
| "field_offsets c (f # fs) sz =
     (let off = c_align_up sz (mir_type_align c f)
      in off # field_offsets c fs (off + mir_type_size c f))"

lemma length_field_offsets [simp]: "length (field_offsets c fs sz) = length fs"
  by (induction fs arbitrary: sz) (auto simp: Let_def)

lemma align_up_type:
  assumes "cache_wf c"
  shows "mir_type_align c f dvd c_align_up sz (mir_type_align c f)"
    and "sz \<le> c_align_up sz (mir_type_align c f)"
  using is_align_pow2[OF is_align_type[OF assms]] c_align_up_props by metis+

lemma struct_layout_gen:
  assumes "cache_wf c" and "\<And>f. f \<in> set fs \<Longrightarrow> 0 \<le> mir_type_size c f"
    and "struct_layout c fs sz0 al0 = (sz, al)" and "is_align al0"
  shows "is_align al \<and> al dvd sz \<and> sz0 \<le> sz \<and> al0 dvd al
    \<and> (\<forall>f \<in> set fs. mir_type_align c f dvd al)
    \<and> (\<forall>off \<in> set (field_offsets c fs sz0). sz0 \<le> off)
    \<and> (\<forall>j < length fs. mir_type_align c (fs ! j) dvd field_offsets c fs sz0 ! j
         \<and> field_offsets c fs sz0 ! j + mir_type_size c (fs ! j) \<le> sz
         \<and> (\<forall>i < j. field_offsets c fs sz0 ! i + mir_type_size c (fs ! i) \<le> field_offsets c fs sz0 ! j))"
  using assms(2,3,4)
proof (induction fs arbitrary: sz0 al0)
  case Nil
  then show ?case using is_align_pow2[of al0] c_align_up_props[of al0 _ sz0] by auto
next
  case (Cons f fs)
  define fa where "fa = mir_type_align c f"
  define off where "off = c_align_up sz0 fa"
  define al1 where "al1 = (if fa > al0 then fa else al0)"
  have fa: "is_align fa" using assms(1) by (simp add: fa_def)
  have al1: "is_align al1" "al0 dvd al1" "fa dvd al1"
    using fa Cons.prems(3) by (auto simp: al1_def is_align_def)
  have off: "fa dvd off" "sz0 \<le> off" using align_up_type[OF assms(1), where f = f and sz = sz0] by (auto simp: off_def fa_def)
  have nonneg: "0 \<le> mir_type_size c f" using Cons.prems(1) by simp
  have "struct_layout c fs (off + mir_type_size c f) al1 = (sz, al)"
    using Cons.prems(2) by (auto simp: Let_def fa_def off_def al1_def split: if_splits)
  then have IH: "is_align al \<and> al dvd sz \<and> off + mir_type_size c f \<le> sz \<and> al1 dvd al
    \<and> (\<forall>f \<in> set fs. mir_type_align c f dvd al)
    \<and> (\<forall>x \<in> set (field_offsets c fs (off + mir_type_size c f)). off + mir_type_size c f \<le> x)
    \<and> (\<forall>j < length fs. mir_type_align c (fs ! j) dvd field_offsets c fs (off + mir_type_size c f) ! j
         \<and> field_offsets c fs (off + mir_type_size c f) ! j + mir_type_size c (fs ! j) \<le> sz
         \<and> (\<forall>i < j. field_offsets c fs (off + mir_type_size c f) ! i + mir_type_size c (fs ! i)
               \<le> field_offsets c fs (off + mir_type_size c f) ! j))"
    using Cons.IH Cons.prems(1) al1(1) by simp
  have later: "off + mir_type_size c f \<le> field_offsets c fs (off + mir_type_size c f) ! j"
    if "j < length fs" for j using IH that by (simp add: nth_mem)
  have fo: "field_offsets c (f # fs) sz0 = off # field_offsets c fs (off + mir_type_size c f)"
    by (simp add: Let_def fa_def off_def)
  show ?case
    using IH later off nonneg al1 unfolding fo
    by (auto simp: fa_def[symmetric] nth_Cons less_Suc_eq_0_disj split: nat.splits
        intro: dvd_trans order_trans)
qed

text \<open>
  The struct layout loop places every field at an offset that its alignment divides, after
  the end of every earlier field and inside the struct, and pads the struct to a multiple of an
  alignment that every field's alignment divides.
\<close>

theorem mir_struct_layout:
  assumes "cache_wf c" and "\<And>f. f \<in> set fs \<Longrightarrow> 0 \<le> mir_type_size c f"
    and "struct_layout c fs 0 1 = (sz, al)"
  shows "is_align al \<and> al dvd sz
    \<and> (\<forall>f \<in> set fs. mir_type_align c f dvd al)
    \<and> (\<forall>j < length fs. mir_type_align c (fs ! j) dvd field_offsets c fs 0 ! j
         \<and> field_offsets c fs 0 ! j + mir_type_size c (fs ! j) \<le> sz
         \<and> (\<forall>i < j. field_offsets c fs 0 ! i + mir_type_size c (fs ! i) \<le> field_offsets c fs 0 ! j))"
  using struct_layout_gen[OF assms] by simp

theorem mir_struct_layout_witness:
  "let c = [TyPlain MIR_TYPE_I8, TyPlain MIR_TYPE_I32, TyPlain MIR_TYPE_I16] in
   struct_layout c [Some 0, Some 1, Some 2] 0 1 = (12, 4)
   \<and> field_offsets c [Some 0, Some 1, Some 2] 0 = [0, 4, 8] \<and> (4::int) dvd 12"
proof -
  define c where "c = [TyPlain MIR_TYPE_I8, TyPlain MIR_TYPE_I32, TyPlain MIR_TYPE_I16]"
  have wf: "cache_wf c" by (auto simp: c_def cache_wf_def type_ok_def less_Suc_eq)
  have sizes: "mir_type_size c (Some 0) = 1" "mir_type_size c (Some (Suc 0)) = 4" "mir_type_size c (Some 2) = 2"
    "mir_type_align c (Some 0) = 1" "mir_type_align c (Some (Suc 0)) = 4" "mir_type_align c (Some 2) = 2"
    by (simp_all add: c_def mir_type_size_def mir_type_align_def)
  have lay: "struct_layout c [Some 0, Some 1, Some 2] 0 1 = (12, 4)"
    by (simp add: sizes c_align_up_def)
  have offs: "field_offsets c [Some 0, Some 1, Some 2] 0 = [0, 4, 8]"
    by (simp add: sizes c_align_up_def)
  have nn: "0 \<le> mir_type_size c f" if "f \<in> set [Some 0, Some 1, Some 2]" for f
    using that sizes by auto
  have "(4::int) dvd 12" using mir_struct_layout[OF wf nn lay] by blast
  with lay offs show ?thesis unfolding Let_def c_def[symmetric] by (intro conjI)
qed

lemma mir_type_struct_wf:
  assumes "cache_wf (type_cache m)"
  shows "cache_wf (type_cache (fst (mir_type_struct m name fs)))"
proof -
  obtain sz al where l: "struct_layout (type_cache m) fs 0 1 = (sz, al)" by fastforce
  have gen: "struct_layout c gs s0 a0 = (sz, al) \<Longrightarrow> cache_wf c \<Longrightarrow> is_align a0 \<Longrightarrow> is_align al \<and> al dvd sz"
    for c gs s0 a0
  proof (induction gs arbitrary: s0 a0)
    case Nil
    then show ?case using is_align_pow2[of a0] c_align_up_props(1)[of a0 _ s0] by auto
  next
    case (Cons g gs)
    then show ?case by (auto simp: Let_def split: if_splits)
  qed
  from gen[OF l assms] have "is_align al \<and> al dvd sz" by simp
  then show ?thesis unfolding mir_type_struct_def l
    by (intro type_intern_wf[OF assms]) (simp add: type_ok_def)
qed

lemma mir_type_array_wf:
  assumes "cache_wf (type_cache m)" and "\<And>e. elem = Some e \<Longrightarrow> e < length (type_cache m)"
  shows "cache_wf (type_cache (fst (mir_type_array m elem n)))"
  unfolding mir_type_array_def
  by (intro type_intern_wf[OF assms(1)]) (auto simp: type_ok_def assms(2) split: option.splits)

lemma mir_type_simple_wf:
  assumes "cache_wf (type_cache m)"
  shows "cache_wf (type_cache (fst (mir_intern_primitive m k)))"
    and "cache_wf (type_cache (fst (mir_type_ptr m p)))"
    and "cache_wf (type_cache (fst (mir_type_ref m p mu)))"
    and "cache_wf (type_cache (fst (mir_type_func m p ps)))"
  using assms
  by (auto simp: mir_intern_primitive_def mir_type_ptr_def mir_type_ref_def mir_type_func_def
      type_cache_add_def type_ok_def intro!: type_intern_wf cache_wf_append)

text \<open>
  Interning derived types: building a pointer, a reference or an array type returns a pointer
  to a cache entry with exactly that structure, leaves every type built before valid and
  unchanged, and building it again returns the same pointer without growing the cache, so that
  pointer equality of interned types is structural equality.
\<close>

theorem mir_type_interning:
  "(case mir_type_ptr m p of (m1, t1) \<Rightarrow>
      t1 < length (type_cache m1) \<and> type_cache m1 ! t1 = TyPtr p
      \<and> take (length (type_cache m)) (type_cache m1) = type_cache m
      \<and> (case mir_type_ptr m1 p of (m2, t2) \<Rightarrow> t2 = t1 \<and> type_cache m2 = type_cache m1))
   \<and> (case mir_type_ref m p mu of (m1, t1) \<Rightarrow>
      t1 < length (type_cache m1) \<and> type_cache m1 ! t1 = TyRef p mu
      \<and> take (length (type_cache m)) (type_cache m1) = type_cache m
      \<and> (case mir_type_ref m1 p mu of (m2, t2) \<Rightarrow> t2 = t1 \<and> type_cache m2 = type_cache m1))
   \<and> (case mir_type_array m p n of (m1, t1) \<Rightarrow>
      t1 < length (type_cache m1) \<and> type_cache m1 ! t1 = TyArray p n
      \<and> take (length (type_cache m)) (type_cache m1) = type_cache m
      \<and> (case mir_type_array m1 p n of (m2, t2) \<Rightarrow> t2 = t1 \<and> type_cache m2 = type_cache m1))"
  using ptr_types.intern_law[where s = m and k = p] ref_types.intern_law[where s = m and k = "(p, mu)"]
    array_types.intern_law[where s = m and k = "(p, n)"]
  by simp

section \<open>Value ids and the type table\<close>

text \<open>
  The counter stays inside the table or points just past its end, so that one doubling always
  makes room; ids are positive \<^verbatim>\<open>int\<close>s below \<open>2 ^ 31\<close>.
\<close>

definition values_wf :: "MirFunction \<Rightarrow> bool" where
  "values_wf f \<longleftrightarrow> 0 < unat (next_value_id f) \<and> unat (next_value_id f) \<le> length (value_types f)
     \<and> unat (next_value_id f) < 2 ^ 31"

lemma new_value_spec:
  assumes "values_wf f" and "mir_function_new_value f ty = (f', vid)"
  shows "vid = next_value_id f \<and> vid \<noteq> MIR_VALUE_NONE
    \<and> mir_function_value_type f' vid = ty
    \<and> (\<forall>v. unat v < unat vid \<longrightarrow> mir_function_value_type f' v = mir_function_value_type f v)
    \<and> (unat vid < 2 ^ 31 - 1 \<longrightarrow> values_wf f')"
proof -
  let ?n = "unat (next_value_id f)"
  have n: "0 < ?n" "?n \<le> length (value_types f)" "?n < 2 ^ 31"
    using assms(1) by (auto simp: values_wf_def)
  note s = le_sint_small[OF n(3)]
  define tbl where "tbl = (if ?n \<ge> length (value_types f)
    then value_types f @ replicate (length (value_types f)) None else value_types f)"
  have f': "f' = f\<lparr>next_value_id := next_value_id f + 1, value_types := tbl[?n := ty]\<rparr>"
    and vid: "vid = next_value_id f"
    using assms(2) by (auto simp: mir_function_new_value_def Let_def s tbl_def)
  have tl: "?n < length tbl" using n by (auto simp: tbl_def)
  have small: "int k \<le> sint v \<longleftrightarrow> k \<le> unat v" if "unat v < ?n" for v :: MirValueId and k
    using le_sint_small[OF less_trans[OF that n(3)]] .
  have read: "mir_function_value_type f' v = mir_function_value_type f v" if "unat v < ?n" for v
    using that tl n small[OF that]
    by (auto simp: mir_function_value_type_def f' tbl_def nth_append split: if_splits)
  have "mir_function_value_type f' vid = ty"
    using tl n s by (auto simp: mir_function_value_type_def f' vid)
  moreover have "values_wf f'" if "unat vid < 2 ^ 31 - 1"
    using that tl n unat_Suc32[of "next_value_id f"] by (auto simp: values_wf_def f' vid)
  ultimately show ?thesis using read vid n by auto
qed

text \<open>
  A new SSA value gets an id no earlier value has, its type is read back from the table even
  when the table had to grow, and the types of all earlier values are unchanged.
\<close>

theorem mir_function_new_value_spec:
  assumes "values_wf f" and "mir_function_new_value f ty = (f', vid)"
  shows "vid = next_value_id f \<and> vid \<noteq> MIR_VALUE_NONE
    \<and> mir_function_value_type f' vid = ty
    \<and> (\<forall>v. unat v < unat vid \<longrightarrow> mir_function_value_type f' v = mir_function_value_type f v)
    \<and> (unat vid < 2 ^ 31 - 1 \<longrightarrow> values_wf f')"
  by (rule new_value_spec[OF assms])

theorem mir_function_new_value_spec_witness:
  "let f = snd (mir_module_add_function (mir_module_create ''m'') ''f'' None []);
       (f', v) = mir_function_new_value f (Some 3)
   in v = 1 \<and> mir_function_value_type f' v = Some 3"
proof -
  define f where "f = snd (mir_module_add_function (mir_module_create ''m'') ''f'' None [])"
  have wf: "values_wf f"
    by (simp add: f_def mir_module_add_function_def values_wf_def Let_def)
  obtain f' v where fv: "mir_function_new_value f (Some 3) = (f', v)" by fastforce
  have "next_value_id f = 1" by (simp add: f_def mir_module_add_function_def Let_def)
  with mir_function_new_value_spec[OF wf fv] have "v = 1 \<and> mir_function_value_type f' v = Some 3"
    by metis
  then show ?thesis unfolding f_def[symmetric] Let_def fv by auto
qed

lemma new_value_frame [frame_simps]:
  assumes "mir_function_new_value f ty = (f', vid)"
  shows "params f' = params f" "fname f' = fname f" "next_value_id f' = next_value_id f + 1"
  using assms by (auto simp: mir_function_new_value_def Let_def)

lemma value_type_params [simp]:
  "mir_function_value_type (f\<lparr>params := ps\<rparr>) v = mir_function_value_type f v"
  "values_wf (f\<lparr>params := ps\<rparr>) = values_wf f"
  by (simp_all add: mir_function_value_type_def values_wf_def)

lemma add_params_spec:
  assumes "values_wf g" and "unat (next_value_id g) + length ps < 2 ^ 31"
  shows "values_wf (add_params g ps) \<and> fname (add_params g ps) = fname g
     \<and> (\<forall>v. unat v < unat (next_value_id g) \<longrightarrow>
            mir_function_value_type (add_params g ps) v = mir_function_value_type g v)
     \<and> (\<exists>new. params (add_params g ps) = params g @ new \<and> length new = length ps
          \<and> (\<forall>i < length ps. unat (value_id (new ! i)) = unat (next_value_id g) + i
               \<and> mir_function_value_type (add_params g ps) (value_id (new ! i)) = snd (ps ! i)))"
  using assms
proof (induction ps arbitrary: g)
  case (Cons p ps)
  obtain n t where p: "p = (n, t)" by fastforce
  obtain g1 vid where nv: "mir_function_new_value g t = (g1, vid)" by fastforce
  define q where "q = \<lparr>pname = n, ptype = t, value_id = vid\<rparr>"
  define g2 where "g2 = g1\<lparr>params := params g1 @ [q]\<rparr>"
  define h where "h = add_params g2 ps"
  note sp = new_value_spec[OF Cons.prems(1) nv] and fr = new_value_frame[OF nv]
  have vid: "vid = next_value_id g" and ty: "mir_function_value_type g2 vid = t"
    and old: "\<And>v. unat v < unat (next_value_id g) \<Longrightarrow>
      mir_function_value_type g2 v = mir_function_value_type g v"
    and wf2: "values_wf g2"
    using sp Cons.prems(2) by (auto simp: g2_def)
  have g2: "fname g2 = fname g" "params g2 = params g @ [q]" by (simp_all add: g2_def fr)
  have nx: "unat (next_value_id g2) = Suc (unat (next_value_id g))"
    using Cons.prems(2) unat_Suc32[of "next_value_id g"] by (simp add: g2_def fr)
  have step: "add_params g (p # ps) = h" by (simp add: p nv g2_def q_def h_def)
  have IH: "values_wf h" "fname h = fname g2"
    "\<And>v. unat v < Suc (unat (next_value_id g)) \<Longrightarrow>
       mir_function_value_type h v = mir_function_value_type g2 v"
    using Cons.IH[OF wf2] Cons.prems(2) by (simp_all add: nx h_def)
  obtain new where new: "params h = params g2 @ new" "length new = length ps"
    "\<And>i. i < length ps \<Longrightarrow> unat (value_id (new ! i)) = Suc (unat (next_value_id g)) + i
       \<and> mir_function_value_type h (value_id (new ! i)) = snd (ps ! i)"
    using Cons.IH[OF wf2] Cons.prems(2) by (auto simp: nx h_def)
  have "mir_function_value_type h vid = t" using IH(3)[of vid] ty vid by simp
  then have "\<forall>i < length (p # ps). unat (value_id ((q # new) ! i)) = unat (next_value_id g) + i
               \<and> mir_function_value_type h (value_id ((q # new) ! i)) = snd ((p # ps) ! i)"
    using new(3) vid by (auto simp: q_def p less_Suc_eq_0_disj)
  then have "\<exists>new'. params h = params g @ new' \<and> length new' = length (p # ps)
      \<and> (\<forall>i < length (p # ps). unat (value_id (new' ! i)) = unat (next_value_id g) + i
           \<and> mir_function_value_type h (value_id (new' ! i)) = snd ((p # ps) ! i))"
    using new(1,2) g2 by (intro exI[of _ "q # new"]) simp
  then show ?case unfolding step using IH old g2 by simp
qed auto

text \<open>
  Every function the module creates starts with consistent value ids: one fresh id per
  parameter, numbered from 1 in order, with the parameter's type recorded, whatever the number of
  parameters (below \<open>2 ^ 31\<close>); the new function is the one its name now resolves to.
\<close>

theorem mir_module_add_function_params:
  assumes "mir_module_add_function m name ret ps = (m', f)" and "length ps < 2 ^ 31 - 1"
  shows "values_wf f \<and> length (params f) = length ps
    \<and> (\<forall>i < length ps. unat (value_id (params f ! i)) = Suc i
         \<and> mir_function_value_type f (value_id (params f ! i)) = snd (ps ! i))
    \<and> mir_module_find_function m' name = Some f"
proof -
  define f0 where "f0 = \<lparr>fname = name, return_type = ret, params = [], entry_block = None,
                block_list = [], blocks = [], block_count = 0, next_value_id = 1,
                value_types = replicate 64 None, is_constexpr = False, is_extern = False,
                is_async = False\<rparr>"
  have f: "f = add_params f0 ps" and m': "func_list m' = f # func_list m"
    using assms(1) by (auto simp: mir_module_add_function_def Let_def f0_def)
  have "values_wf f0" by (simp add: f0_def values_wf_def)
  from add_params_spec[OF this] assms(2) show ?thesis
    by (auto simp: f0_def f mir_module_find_function_def m')
qed

theorem mir_module_add_function_params_witness:
  "let (m', f) = mir_module_add_function (mir_module_create ''m'') ''f'' None [(''a'', Some 0), (''b'', Some 1)]
   in length (params f) = 2 \<and> unat (value_id (params f ! 1)) = 2 \<and> values_wf f"
proof -
  obtain m' f where mf: "mir_module_add_function (mir_module_create ''m'') ''f'' None
      [(''a'', Some 0), (''b'', Some 1)] = (m', f)" by fastforce
  from mir_module_add_function_params[OF mf] show ?thesis unfolding mf Let_def by simp
qed

end
