(* ===== verification/Mir_Cfg.thy ===== *)
theory Mir_Cfg
  imports Mir
begin

text \<open>
  The breadth-first walk over basic blocks that \<^verbatim>\<open>mir_verify_cfg_reachable\<close> (mir.c) and
  \<^verbatim>\<open>mir_remove_unreachable_blocks\<close> (mir_opt.c) share: a queue, and an array \<^verbatim>\<open>seen\<close> indexed by
  block id.  The two differ in the successor function and in the size of the array, which are
  parameters here.  The walk marks exactly the ids of the blocks reachable from the entry.
\<close>

text \<open>One pass of the inner loop: mark and enqueue the successors not seen before.\<close>

fun bfs_visit :: "(bref \<Rightarrow> nat) \<Rightarrow> bref list \<Rightarrow> bref list \<Rightarrow> bool list \<Rightarrow> bref list \<times> bool list" where
  "bfs_visit ident [] q seen = (q, seen)"
| "bfs_visit ident (s # ss) q seen =
     (if ident s < length seen \<and> \<not> seen ! ident s
      then bfs_visit ident ss (q @ [s]) (seen[ident s := True])
      else bfs_visit ident ss q seen)"

lemma count_mark:
  "i < length bs \<Longrightarrow> \<not> bs ! i \<Longrightarrow>
   length (filter Not bs) = Suc (length (filter Not (bs[i := True])))"
  by (induction bs arbitrary: i) (auto simp: nth_Cons split: nat.splits)

lemma bfs_visit_measure:
  "bfs_visit ident ss q seen = (q', seen') \<Longrightarrow>
   length q' + length (filter Not seen') = length q + length (filter Not seen)
   \<and> length (filter Not seen') \<le> length (filter Not seen)"
proof (induction ident ss q seen rule: bfs_visit.induct)
  case (2 ident s ss q seen)
  then show ?case
    by (cases "ident s < length seen \<and> \<not> seen ! ident s") (auto dest: count_mark)
qed simp

function bfs :: "(bref \<Rightarrow> nat) \<Rightarrow> (bref \<Rightarrow> bref list) \<Rightarrow> bref list \<Rightarrow> bool list \<Rightarrow> bool list" where
  "bfs ident succ [] seen = seen"
| "bfs ident succ (b # q) seen =
     (let (q', seen') = bfs_visit ident (succ b) q seen in bfs ident succ q' seen')"
  by pat_completeness auto
termination
proof (relation "measure (\<lambda>(ident, succ, q, seen). length q + 2 * length (filter Not seen))")
  fix ident :: "bref \<Rightarrow> nat" and succ :: "bref \<Rightarrow> bref list" and b q seen v q' seen'
  assume "v = bfs_visit ident (succ b) q seen" and "(q', seen') = v"
  then have "bfs_visit ident (succ b) q seen = (q', seen')" by simp
  from bfs_visit_measure[OF this]
  show "((ident, succ, q', seen'), (ident, succ, b # q, seen))
    \<in> measure (\<lambda>(ident, succ, q, seen). length q + 2 * length (filter Not seen))"
    by simp
qed simp

text \<open>The edges the walk follows.\<close>

definition succ_rel :: "(bref \<Rightarrow> bref list) \<Rightarrow> (bref \<times> bref) set" where
  "succ_rel succ = {(a, b). b \<in> set (succ a)}"

text \<open>
  Invariant: everything queued is marked; everything marked was a root or is an id of something
  reachable; a marked id whose block is not queued has all its successors marked.
\<close>

lemma bfs_visit_props:
  assumes "bfs_visit ident ss q seen = (q', seen')"
  shows "length seen' = length seen"
    and "set q \<subseteq> set q'" and "set q' \<subseteq> set q \<union> set ss"
    and "i < length seen \<Longrightarrow> seen ! i \<Longrightarrow> seen' ! i"
    and "i < length seen \<Longrightarrow> seen' ! i \<Longrightarrow> \<not> seen ! i \<Longrightarrow> \<exists>s \<in> set ss. ident s = i \<and> s \<in> set q'"
    and "s \<in> set ss \<Longrightarrow> ident s < length seen \<Longrightarrow> seen' ! ident s"
proof -
  have *: "length seen' = length seen \<and> set q \<subseteq> set q' \<and> set q' \<subseteq> set q \<union> set ss
    \<and> (\<forall>i < length seen. seen ! i \<longrightarrow> seen' ! i)
    \<and> (\<forall>i < length seen. seen' ! i \<longrightarrow> seen ! i \<or> (\<exists>s \<in> set ss. ident s = i \<and> s \<in> set q'))
    \<and> (\<forall>s \<in> set ss. ident s < length seen \<longrightarrow> seen' ! ident s)"
    using assms
  proof (induction ident ss q seen rule: bfs_visit.induct)
    case (2 ident s ss q seen)
    show ?case
    proof (cases "ident s < length seen \<and> \<not> seen ! ident s")
      case True
      with 2 have IH: "length seen' = length seen \<and> set (q @ [s]) \<subseteq> set q' \<and> set q' \<subseteq> set (q @ [s]) \<union> set ss
        \<and> (\<forall>i < length seen. seen[ident s := True] ! i \<longrightarrow> seen' ! i)
        \<and> (\<forall>i < length seen. seen' ! i \<longrightarrow> seen[ident s := True] ! i \<or> (\<exists>s \<in> set ss. ident s = i \<and> s \<in> set q'))
        \<and> (\<forall>s \<in> set ss. ident s < length seen \<longrightarrow> seen' ! ident s)" by simp
      then show ?thesis using True by (auto simp: nth_list_update split: if_splits)
    next
      case False
      with 2 show ?thesis by auto
    qed
  qed auto
  then show "length seen' = length seen"
    and "set q \<subseteq> set q'" and "set q' \<subseteq> set q \<union> set ss"
    and "i < length seen \<Longrightarrow> seen ! i \<Longrightarrow> seen' ! i"
    and "i < length seen \<Longrightarrow> seen' ! i \<Longrightarrow> \<not> seen ! i \<Longrightarrow> \<exists>s \<in> set ss. ident s = i \<and> s \<in> set q'"
    and "s \<in> set ss \<Longrightarrow> ident s < length seen \<Longrightarrow> seen' ! ident s"
    by blast+
qed

lemma bfs_length: "length (bfs ident succ q seen) = length seen"
proof (induction ident succ q seen rule: bfs.induct)
  case (2 ident succ b q seen)
  obtain q' seen' where v: "bfs_visit ident (succ b) q seen = (q', seen')" by fastforce
  with 2[OF v[symmetric] refl] bfs_visit_props(1)[OF v] show ?case by simp
qed simp

text \<open>Only ids of reachable blocks are marked.\<close>

lemma bfs_sound:
  assumes "i < length seen" and "bfs ident succ q seen ! i"
    and "set q \<subseteq> R" and "\<And>a b. a \<in> R \<Longrightarrow> b \<in> set (succ a) \<Longrightarrow> b \<in> R"
    and "\<And>j. j < length seen \<Longrightarrow> seen ! j \<Longrightarrow> \<exists>b \<in> R. ident b = j"
  shows "\<exists>b \<in> R. ident b = i"
  using assms
proof (induction ident succ q seen rule: bfs.induct)
  case (2 ident succ b q seen)
  obtain q' seen' where v: "bfs_visit ident (succ b) q seen = (q', seen')" by fastforce
  note pr = bfs_visit_props[OF v]
  have b: "b \<in> R" "set (succ b) \<subseteq> R" using "2.prems"(3,4) by auto
  have marked: "\<exists>b \<in> R. ident b = j" if j: "j < length seen'" "seen' ! j" for j
  proof (cases "seen ! j")
    case False
    then obtain s where "s \<in> set (succ b)" "ident s = j" using pr(1) pr(5)[of j] j by auto
    then show ?thesis using b(2) by auto
  qed (use "2.prems"(5) j pr(1) in auto)
  show ?case
  proof (rule "2.IH"[OF v[symmetric] refl])
    show "i < length seen'" using "2.prems"(1) pr(1) by simp
    show "bfs ident succ q' seen' ! i" using "2.prems"(2) v by simp
    show "set q' \<subseteq> R" using pr(3) "2.prems"(3) b by auto
  qed (use "2.prems"(4) marked in auto)
qed auto

text \<open>Every reachable block is marked, provided ids are in range and name blocks uniquely.\<close>

lemma bfs_complete:
  assumes inj: "inj_on ident D" and rng: "\<And>b. b \<in> D \<Longrightarrow> ident b < length seen"
    and clD: "\<And>a b. a \<in> D \<Longrightarrow> b \<in> set (succ a) \<Longrightarrow> b \<in> D"
    and q: "set q \<subseteq> D" "\<And>b. b \<in> set q \<Longrightarrow> seen ! ident b"
    and closed: "\<And>a b. a \<in> D \<Longrightarrow> seen ! ident a \<Longrightarrow> a \<notin> set q \<Longrightarrow> b \<in> set (succ a) \<Longrightarrow> seen ! ident b"
  shows "(\<forall>a \<in> D. seen ! ident a \<longrightarrow> bfs ident succ q seen ! ident a) \<and>
    (\<forall>a b. a \<in> D \<longrightarrow> bfs ident succ q seen ! ident a \<longrightarrow> b \<in> set (succ a) \<longrightarrow>
       bfs ident succ q seen ! ident b)"
  using assms
proof (induction ident succ q seen rule: bfs.induct)
  case (2 ident succ b q seen)
  obtain q' seen' where v: "bfs_visit ident (succ b) q seen = (q', seen')" by fastforce
  note pr = bfs_visit_props[OF v]
  have bD: "b \<in> D" using "2.prems"(4) by simp
  have sD: "\<And>s. s \<in> set (succ b) \<Longrightarrow> s \<in> D" using "2.prems"(3) bD by blast
  have IH: "(\<forall>a \<in> D. seen' ! ident a \<longrightarrow> bfs ident succ q' seen' ! ident a) \<and>
    (\<forall>a b. a \<in> D \<longrightarrow> bfs ident succ q' seen' ! ident a \<longrightarrow> b \<in> set (succ a) \<longrightarrow>
       bfs ident succ q' seen' ! ident b)"
  proof (rule "2.IH"[OF v[symmetric] refl "2.prems"(1)])
    show "\<And>a. a \<in> D \<Longrightarrow> ident a < length seen'" using "2.prems"(2) pr(1) by simp
    show "\<And>a c. a \<in> D \<Longrightarrow> c \<in> set (succ a) \<Longrightarrow> c \<in> D" using "2.prems"(3) by blast
    show "set q' \<subseteq> D" using pr(3) "2.prems"(4) sD by auto
    show "seen' ! ident a" if "a \<in> set q'" for a
      using that pr(3,4,6) "2.prems"(2,4,5) sD by (metis Un_iff in_mono list.set_intros(2))
    show "seen' ! ident c" if a: "a \<in> D" "seen' ! ident a" "a \<notin> set q'" and c: "c \<in> set (succ a)" for a c
    proof (cases "a = b")
      case True
      then show ?thesis using pr(6) c "2.prems"(2) sD by blast
    next
      case False
      have "seen ! ident a"
      proof (rule ccontr)
        assume "\<not> seen ! ident a"
        then obtain s where "s \<in> set (succ b)" "ident s = ident a" "s \<in> set q'"
          using pr(5)[of "ident a"] a "2.prems"(2) pr(1) by auto
        then show False using a sD inj_onD[OF "2.prems"(1)] by blast
      qed
      moreover have "a \<notin> set (b # q)" using False a(3) pr(2) by auto
      ultimately show ?thesis
        using "2.prems"(2,3,6) a(1) c pr(4) by blast
    qed
  qed
  then show ?case using pr(4) "2.prems"(2) v by auto
qed auto

text \<open>
  The walk from one root \<open>e\<close> marks exactly the reachable blocks.
\<close>

lemma bfs_reachable:
  assumes inj: "inj_on ident D" and rng: "\<And>b. b \<in> D \<Longrightarrow> ident b < n"
    and clD: "\<And>a b. a \<in> D \<Longrightarrow> b \<in> set (succ a) \<Longrightarrow> b \<in> D" and e: "e \<in> D" and b: "b \<in> D"
  shows "bfs ident succ [e] ((replicate n False)[ident e := True]) ! ident b \<longleftrightarrow>
    (e, b) \<in> (succ_rel succ)\<^sup>*"
proof
  let ?s0 = "(replicate n False)[ident e := True]" and ?R = "(succ_rel succ)\<^sup>* `` {e}"
  have RD: "?R \<subseteq> D"
  proof
    fix x assume "x \<in> ?R"
    then have "(e, x) \<in> (succ_rel succ)\<^sup>*" by simp
    then show "x \<in> D" by (induction rule: rtrancl_induct) (auto simp: e succ_rel_def clD)
  qed
  { assume m: "bfs ident succ [e] ?s0 ! ident b"
    have "\<exists>a \<in> ?R. ident a = ident b"
    proof (rule bfs_sound[OF _ m])
      show "ident b < length ?s0" using rng[OF b] by simp
      show "\<And>x y. x \<in> ?R \<Longrightarrow> y \<in> set (succ x) \<Longrightarrow> y \<in> ?R"
        by (auto simp: succ_rel_def intro: rtrancl_into_rtrancl)
      show "\<And>j. j < length ?s0 \<Longrightarrow> ?s0 ! j \<Longrightarrow> \<exists>a \<in> ?R. ident a = j"
        by (metis Image_singleton_iff length_list_update length_replicate nth_list_update_neq
            nth_replicate rtrancl.rtrancl_refl)
    qed simp
    then show "(e, b) \<in> (succ_rel succ)\<^sup>*"
      using RD b inj_onD[OF inj] by fastforce }
  have all: "(\<forall>a \<in> D. ?s0 ! ident a \<longrightarrow> bfs ident succ [e] ?s0 ! ident a) \<and>
    (\<forall>a b. a \<in> D \<longrightarrow> bfs ident succ [e] ?s0 ! ident a \<longrightarrow> b \<in> set (succ a) \<longrightarrow>
       bfs ident succ [e] ?s0 ! ident b)"
  proof (rule bfs_complete[OF inj])
    show "?s0 ! ident c" if "a \<in> D" "?s0 ! ident a" "a \<notin> set [e]" "c \<in> set (succ a)" for a c
      using that rng e inj_onD[OF inj] by (auto simp: nth_list_update split: if_splits)
  qed (use rng e clD in auto)
  assume "(e, b) \<in> (succ_rel succ)\<^sup>*"
  then have "b \<in> D \<and> bfs ident succ [e] ?s0 ! ident b"
  proof (induction rule: rtrancl_induct)
    case base
    then show ?case using all e rng by simp
  next
    case (step y z)
    then show ?case using all clD by (auto simp: succ_rel_def)
  qed
  then show "bfs ident succ [e] ?s0 ! ident b" by simp
qed

end
