(* ===== verification/Mir_Verify.thy ===== *)
theory Mir_Verify
  imports Mir_Cfg
begin

text \<open>
  The MIR verifier of \<^verbatim>\<open>src/compiler/ir/mir.c\<close>: value ids, operand types, block shape,
  reachability of every block, and the in-block ownership check.  Each function returns the number
  of diagnostics, as the code does; the text of the diagnostics is not modelled.
  What acceptance means is stated here for the control-flow graph and in \<open>Cvm_Facts\<close> for
  execution.
\<close>

section \<open>Value ids\<close>

definition mir_vid_defined :: "MirFunction \<Rightarrow> MirValueId \<Rightarrow> bool" where
  "mir_vid_defined f vid \<longleftrightarrow>
     vid = MIR_VALUE_NONE \<or> (0 \<le> sint vid \<and> sint vid < sint (next_value_id f))"

definition mir_verify_value_ids_operand :: "MirFunction \<Rightarrow> MirValueId \<Rightarrow> nat" where
  "mir_verify_value_ids_operand f vid =
     (if vid = MIR_VALUE_NONE then 0
      else if \<not> mir_vid_defined f vid then 1
      else if mir_function_value_type f vid = None then 1
      else 0)"

text \<open>The operands the switch of \<^verbatim>\<open>mir_verify_inst_value_ids\<close> visits, in its order.\<close>

fun verify_operands :: "MirOp \<Rightarrow> MirValueId list" where
  "verify_operands (BINARY p l r) = [l, r]"
| "verify_operands (UNARY p x t) = [x]"
| "verify_operands (LOAD p) = [p]"
| "verify_operands (STORE p v) = [p, v]"
| "verify_operands (GET_FIELD_PTR b i x) = [b, x]"
| "verify_operands (GET_ELEM_PTR b i x) = [b, x]"
| "verify_operands (CONDBR c t f) = [c]"
| "verify_operands (RET v) = [v]"
| "verify_operands (SWITCH d cs df) = [d]"
| "verify_operands (CALL n as c) = c # as"
| "verify_operands (CALL_INDIRECT n as c) = c # as"
| "verify_operands (CALL_VIRTUAL s k as) = s # as"
| "verify_operands (PHI es) = map snd es"
| "verify_operands (TRANSFER p s) = [s]"
| "verify_operands (REFOP p x) = [x]"
| "verify_operands (STRUCT_INIT fs) = fs"
| "verify_operands (EXTRACT a i) = [a]"
| "verify_operands (INSERT a i v) = [a, v]"
| "verify_operands (SUSPEND b x) = [x]"
| "verify_operands (VEC p a b c w t) = [a, b, c]"
| "verify_operands _ = []"

definition mir_verify_inst_value_ids :: "MirFunction \<Rightarrow> MirInst \<Rightarrow> nat" where
  "mir_verify_inst_value_ids f i =
     sum_list (map (mir_verify_value_ids_operand f) (verify_operands (iop i)))"

section \<open>Operand types\<close>

definition int_binops :: "MirBinOp set" where
  "int_binops = {MIR_ADD, MIR_SUB, MIR_MUL, MIR_DIV, MIR_MOD,
                 MIR_BAND, MIR_BOR, MIR_BXOR, MIR_SHL, MIR_SHR, MIR_USHR}"

definition float_binops :: "MirBinOp set" where
  "float_binops = {MIR_FADD, MIR_FSUB, MIR_FMUL, MIR_FDIV}"

definition mir_verify_inst_types :: "MirType list \<Rightarrow> MirFunction \<Rightarrow> MirInst \<Rightarrow> nat" where
  "mir_verify_inst_types c f i =
     (case iop i of
        BINARY p l r \<Rightarrow>
          (let a = mir_function_value_type f l; b = mir_function_value_type f r
           in if p \<in> int_binops then
                (if a \<noteq> None \<and> b \<noteq> None \<and> (\<not> mir_type_is_integer c a \<or> \<not> mir_type_is_integer c b)
                 then 1 else 0)
              else if p \<in> float_binops then
                (if a \<noteq> None \<and> b \<noteq> None \<and> (\<not> mir_type_is_float c a \<or> \<not> mir_type_is_float c b)
                 then 1 else 0)
              else 0)
      | VEC p x y z w lt \<Rightarrow>
          (if lt = None \<or> w < 0 then 1
           else if \<not> mir_type_is_integer c lt \<and> \<not> mir_type_is_float c lt then 1
           else 0)
      | _ \<Rightarrow> 0)"

section \<open>Control flow\<close>

definition somes :: "'a option list \<Rightarrow> 'a list" where
  "somes xs = List.map_filter (\<lambda>x. x) xs"

text \<open>The successor buffer holds 64 blocks.\<close>

fun mir_collect_term_succs :: "MirOp \<Rightarrow> bref list" where
  "mir_collect_term_succs (BR t) = somes [t]"
| "mir_collect_term_succs (CONDBR c t f) = somes [t, f]"
| "mir_collect_term_succs (SWITCH d cs df) = take 64 (somes (map snd cs @ [df]))"
| "mir_collect_term_succs _ = []"

definition term_succs :: "MirFunction \<Rightarrow> bref \<Rightarrow> bref list" where
  "term_succs f b =
     (case insts (blocks f ! b) of
        [] \<Rightarrow> []
      | i # is \<Rightarrow> mir_collect_term_succs (iop (last (i # is))))"

definition block_ident :: "MirFunction \<Rightarrow> bref \<Rightarrow> nat" where
  "block_ident f b = bb_id (blocks f ! b)"

definition mir_verify_cfg_reachable :: "MirFunction \<Rightarrow> nat" where
  "mir_verify_cfg_reachable f =
     (let nbl = block_count f in
      if nbl = 0 then 0
      else
        (let seen0 = replicate nbl False;
             seen = (case entry_block f of
                       None \<Rightarrow> seen0
                     | Some e \<Rightarrow> bfs (block_ident f) (term_succs f) [e]
                                   (seen0[block_ident f e := True]))
         in length (filter (\<lambda>b. block_ident f b < nbl \<and> \<not> seen ! block_ident f b) (block_list f))))"

text \<open>The first loop of \<^verbatim>\<open>mir_verify_block_shape\<close>; the flag is \<^verbatim>\<open>past_phis\<close>.\<close>

fun is_phi :: "MirOp \<Rightarrow> bool" where
  "is_phi (PHI es) = True"
| "is_phi _ = False"

fun shape_errors :: "bool \<Rightarrow> MirInst list \<Rightarrow> nat" where
  "shape_errors past [] = 0"
| "shape_errors past (i # is) =
     (if is_phi (iop i) \<and> past then 1 else 0)
     + (if is_terminator (iop i) \<and> is \<noteq> [] then 1 else 0)
     + shape_errors (past \<or> \<not> is_phi (iop i)) is"

text \<open>The second loop: leading phis have one edge per predecessor.\<close>

fun phi_edge_errors :: "nat \<Rightarrow> MirInst list \<Rightarrow> nat" where
  "phi_edge_errors preds [] = 0"
| "phi_edge_errors preds (i # is) =
     (case iop i of
        PHI es \<Rightarrow> (if length es \<noteq> preds then 1 else 0) + phi_edge_errors preds is
      | _ \<Rightarrow> 0)"

definition mir_verify_block_shape :: "MirBlock \<Rightarrow> nat" where
  "mir_verify_block_shape blk =
     (if mir_block_is_terminated blk then 0 else 1)
     + shape_errors False (insts blk)
     + phi_edge_errors (length (predecessors blk)) (insts blk)"

definition mir_verify_function :: "MirType list \<Rightarrow> MirFunction \<Rightarrow> nat" where
  "mir_verify_function c f =
     (if is_extern f then 0
      else case entry_block f of
        None \<Rightarrow> 1
      | Some e \<Rightarrow>
          (if predecessors (blocks f ! e) \<noteq> [] then 1 else 0)
          + sum_list (map (\<lambda>b. mir_verify_block_shape (blocks f ! b)
               + sum_list (map (\<lambda>i. mir_verify_inst_value_ids f i + mir_verify_inst_types c f i)
                   (insts (blocks f ! b)))) (block_list f))
          + mir_verify_cfg_reachable f)"

section \<open>In-block ownership linearity\<close>

fun consumed_by :: "MirOp \<Rightarrow> MirValueId" where
  "consumed_by (REFOP MIR_ARC_RELEASE x) = x"
| "consumed_by (TRANSFER MIR_MOVE x) = x"
| "consumed_by (REFOP MIR_DROP x) = x"
| "consumed_by _ = MIR_VALUE_NONE"

fun ownership_block_errors :: "MirInst list \<Rightarrow> nat" where
  "ownership_block_errors [] = 0"
| "ownership_block_errors (a # rest) =
     (let x = consumed_by (iop a)
      in if x \<noteq> MIR_VALUE_NONE \<and> (\<exists>b \<in> set rest. consumed_by (iop b) = x) then 1 else 0)
     + ownership_block_errors rest"

definition mir_check_ownership_function :: "MirFunction \<Rightarrow> nat" where
  "mir_check_ownership_function f =
     (if is_extern f then 0
      else sum_list (map (\<lambda>b. ownership_block_errors (insts (blocks f ! b))) (block_list f)))"

section \<open>What acceptance means\<close>

text \<open>The facts \<^verbatim>\<open>mir_function_add_block\<close> keeps about block handles and ids.\<close>

definition blocks_wf :: "MirFunction \<Rightarrow> bool" where
  "blocks_wf f \<longleftrightarrow>
     (\<forall>b \<in> set (block_list f). b < length (blocks f)) \<and>
     inj_on (block_ident f) (set (block_list f)) \<and>
     (\<forall>b \<in> set (block_list f). block_ident f b < block_count f) \<and>
     (\<forall>e. entry_block f = Some e \<longrightarrow> e \<in> set (block_list f)) \<and>
     (\<forall>b \<in> set (block_list f). set (term_succs f b) \<subseteq> set (block_list f))"

lemma sum_list_zero [simp]: "(sum_list (map g xs) = (0::nat)) \<longleftrightarrow> (\<forall>x \<in> set xs. g x = 0)"
  by (induction xs) auto

lemma verify_zeroD:
  assumes "mir_verify_function c f = 0" and "\<not> is_extern f"
  shows "\<exists>e. entry_block f = Some e \<and> predecessors (blocks f ! e) = []"
    and "b \<in> set (block_list f) \<Longrightarrow> mir_verify_block_shape (blocks f ! b) = 0"
    and "b \<in> set (block_list f) \<Longrightarrow> i \<in> set (insts (blocks f ! b)) \<Longrightarrow>
           mir_verify_inst_value_ids f i = 0 \<and> mir_verify_inst_types c f i = 0"
    and "mir_verify_cfg_reachable f = 0"
  using assms by (auto simp: mir_verify_function_def split: option.splits if_splits)

lemma shape_zeroD:
  "shape_errors past (xs @ i # ys) = 0 \<Longrightarrow> is_terminator (iop i) \<Longrightarrow> ys = []"
  by (induction xs arbitrary: past) (auto split: if_splits)

lemma shape_phi_zeroD:
  "shape_errors past (xs @ i # ys) = 0 \<Longrightarrow> is_phi (iop i) \<Longrightarrow>
   \<not> past \<and> (\<forall>x \<in> set xs. is_phi (iop x))"
  by (induction xs arbitrary: past) (auto split: if_splits)

lemma phi_edges_zeroD:
  "phi_edge_errors n (xs @ i # ys) = 0 \<Longrightarrow> (\<forall>x \<in> set xs. is_phi (iop x)) \<Longrightarrow> iop i = PHI es \<Longrightarrow>
   length es = n"
proof (induction xs)
  case (Cons x xs)
  then show ?case by (cases "iop x") (auto split: if_splits)
qed (auto split: if_splits)

text \<open>
  C3: A function the verifier accepts has a sound control-flow graph: the entry block exists and has
  no predecessors; every block ends in a terminator and has no other one; phis stand at the start of
  their block with one edge per predecessor; and every block is reachable from the entry along
  terminator edges.
\<close>

theorem mir_verify_function_cfg:
  assumes ok: "mir_verify_function c f = 0" and ne: "\<not> is_extern f" and wf: "blocks_wf f"
  shows "\<exists>e. entry_block f = Some e \<and> predecessors (blocks f ! e) = []
    \<and> (\<forall>b \<in> set (block_list f).
         (e, b) \<in> (succ_rel (term_succs f))\<^sup>*
         \<and> (\<exists>body t. insts (blocks f ! b) = body @ [t] \<and> is_terminator (iop t)
              \<and> (\<forall>i \<in> set body. \<not> is_terminator (iop i)))
         \<and> (\<forall>xs i ys es. insts (blocks f ! b) = xs @ i # ys \<longrightarrow> iop i = PHI es \<longrightarrow>
              (\<forall>x \<in> set xs. is_phi (iop x)) \<and> length es = length (predecessors (blocks f ! b))))"
proof -
  note shape = verify_zeroD(2)[OF ok ne] and cfg = verify_zeroD(4)[OF ok ne]
  obtain e where e: "entry_block f = Some e" "predecessors (blocks f ! e) = []"
    using verify_zeroD(1)[OF ok ne] by blast
  have D: "inj_on (block_ident f) (set (block_list f))"
    "\<And>b. b \<in> set (block_list f) \<Longrightarrow> block_ident f b < block_count f"
    "e \<in> set (block_list f)"
    "\<And>a b. a \<in> set (block_list f) \<Longrightarrow> b \<in> set (term_succs f a) \<Longrightarrow> b \<in> set (block_list f)"
    using wf e by (auto simp: blocks_wf_def)
  have "(e, b) \<in> (succ_rel (term_succs f))\<^sup>*" if b: "b \<in> set (block_list f)" for b
  proof -
    have "bfs (block_ident f) (term_succs f) [e]
        ((replicate (block_count f) False)[block_ident f e := True]) ! block_ident f b"
      using cfg b D(2)[OF b] e
      by (auto simp: mir_verify_cfg_reachable_def Let_def filter_empty_conv split: if_splits)
    moreover have "bfs (block_ident f) (term_succs f) [e]
        ((replicate (block_count f) False)[block_ident f e := True]) ! block_ident f b \<longleftrightarrow>
        (e, b) \<in> (succ_rel (term_succs f))\<^sup>*"
      by (rule bfs_reachable[where D = "set (block_list f)"]) (use D b in auto)
    ultimately show ?thesis by simp
  qed
  moreover have "\<exists>body t. insts (blocks f ! b) = body @ [t] \<and> is_terminator (iop t)
              \<and> (\<forall>i \<in> set body. \<not> is_terminator (iop i))" if b: "b \<in> set (block_list f)" for b
  proof -
    let ?is = "insts (blocks f ! b)"
    have t: "?is \<noteq> []" "is_terminator (iop (last ?is))" "shape_errors False ?is = 0"
      using shape[OF b]
      by (auto simp: mir_verify_block_shape_def mir_block_is_terminated_def split: if_splits)
    have "\<not> is_terminator (iop i)" if i: "i \<in> set (butlast ?is)" for i
    proof
      assume ti: "is_terminator (iop i)"
      obtain xs ys where "butlast ?is = xs @ i # ys" using split_list[OF i] by blast
      then have "?is = xs @ i # (ys @ [last ?is])" using t(1) by (metis append_Cons append_assoc append_butlast_last_id)
      then show False using shape_zeroD[of False xs i "ys @ [last ?is]"] t(3) ti by simp
    qed
    then show ?thesis using t by (intro exI[of _ "butlast ?is"] exI[of _ "last ?is"]) simp
  qed
  moreover have "(\<forall>x \<in> set xs. is_phi (iop x)) \<and> length es = length (predecessors (blocks f ! b))"
    if b: "b \<in> set (block_list f)" and "insts (blocks f ! b) = xs @ i # ys" "iop i = PHI es"
    for b xs i ys es
    using shape[OF b] that shape_phi_zeroD[of False xs i ys] phi_edges_zeroD[of _ xs i ys es]
    by (auto simp: mir_verify_block_shape_def split: if_splits)
  ultimately show ?thesis using e by blast
qed

text \<open>
  When the in-block ownership check reports nothing, no value is released, moved or dropped
  twice within one basic block.
\<close>

theorem mir_check_ownership_linear:
  assumes "mir_check_ownership_function f = 0" and "\<not> is_extern f"
    and "b \<in> set (block_list f)" and "insts (blocks f ! b) = xs @ i # ys @ j # zs"
    and "consumed_by (iop i) \<noteq> MIR_VALUE_NONE"
  shows "consumed_by (iop j) \<noteq> consumed_by (iop i)"
proof -
  have "ownership_block_errors (xs @ i # ys @ j # zs) = 0"
    using assms(1-4) by (auto simp: mir_check_ownership_function_def)
  then have "ownership_block_errors (i # ys @ j # zs) = 0"
    by (induction xs) auto
  then show ?thesis using assms(5) by (auto simp: Let_def split: if_splits)
qed

text \<open>A two-block function used by the witnesses of this theory.\<close>

definition demo_function :: MirFunction where
  "demo_function =
     \<lparr>fname = ''f'', return_type = None, params = [], entry_block = Some 0,
      block_list = [0, 1],
      blocks = [\<lparr>bb_id = 0, label = ''entry'',
                 insts = [\<lparr>iop = CONST_INT 7, result = 1, itype = Some 0\<rparr>,
                          \<lparr>iop = REFOP MIR_DROP 1, result = 0, itype = None\<rparr>,
                          \<lparr>iop = BR (Some 1), result = 0, itype = None\<rparr>],
                 inst_count = 3, predecessors = [], successors = [1]\<rparr>,
                \<lparr>bb_id = 1, label = ''exit'',
                 insts = [\<lparr>iop = RET 1, result = 0, itype = None\<rparr>],
                 inst_count = 1, predecessors = [0], successors = []\<rparr>],
      block_count = 2, next_value_id = 2, value_types = [None, Some 0],
      is_constexpr = False, is_extern = False, is_async = False\<rparr>"

lemma demo_function_fields:
  "block_list demo_function = [0, 1]" "block_ident demo_function 0 = 0"
  "block_ident demo_function (Suc 0) = 1" "length (blocks demo_function) = 2"
  "block_count demo_function = 2" "entry_block demo_function = Some 0"
  "term_succs demo_function 0 = [1]" "term_succs demo_function (Suc 0) = []"
  by (simp_all add: demo_function_def block_ident_def term_succs_def somes_def map_filter_def)

lemma demo_function_wf: "blocks_wf demo_function"
  by (simp add: blocks_wf_def demo_function_fields)

lemma demo_function_ok: "mir_verify_function [TyPlain MIR_TYPE_I64] demo_function = 0"
proof -
  have "mir_verify_cfg_reachable demo_function = 0"
    by (simp add: mir_verify_cfg_reachable_def Let_def demo_function_fields numeral_2_eq_2)
  then show ?thesis
    by (simp add: mir_verify_function_def demo_function_fields)
      (simp add: demo_function_def mir_verify_block_shape_def mir_block_is_terminated_def
        mir_verify_inst_value_ids_def mir_verify_inst_types_def mir_verify_value_ids_operand_def
        mir_vid_defined_def mir_function_value_type_def)
qed

theorem mir_verify_function_cfg_witness:
  "mir_verify_function [TyPlain MIR_TYPE_I64] demo_function = 0 \<and>
   (0, 1) \<in> (succ_rel (term_succs demo_function))\<^sup>*"
proof -
  have "\<not> is_extern demo_function" "entry_block demo_function = Some 0" "1 \<in> set (block_list demo_function)"
    by (simp_all add: demo_function_def)
  with mir_verify_function_cfg[OF demo_function_ok _ demo_function_wf] demo_function_ok
  show ?thesis by auto
qed

theorem mir_check_ownership_linear_witness:
  "mir_check_ownership_function demo_function = 0 \<and>
   consumed_by (BR (Some 1)) \<noteq> consumed_by (REFOP MIR_DROP 1)"
proof -
  have ok: "mir_check_ownership_function demo_function = 0"
    by (simp add: mir_check_ownership_function_def demo_function_def)
  have ne: "\<not> is_extern demo_function" and b: "0 \<in> set (block_list demo_function)"
    by (simp_all add: demo_function_def)
  have "insts (blocks demo_function ! 0) =
      [\<lparr>iop = CONST_INT 7, result = 1, itype = Some 0\<rparr>] @
      \<lparr>iop = REFOP MIR_DROP 1, result = 0, itype = None\<rparr> # [] @
      \<lparr>iop = BR (Some 1), result = 0, itype = None\<rparr> # []"
    by (simp add: demo_function_def)
  from mir_check_ownership_linear[OF ok ne b this] ok show ?thesis by simp
qed

end
