(* ===== verification/Mir_Builder.thy ===== *)
theory Mir_Builder
  imports Mir_Verify
begin

text \<open>
  The instruction emission API of \<^verbatim>\<open>src/compiler/ir/mir_builder.c\<close>, which lowering uses to
  construct functions.  The builder holds the module, the function under construction and the
  current block; an operation returns the new builder and the id of the emitted value, or \<open>None\<close>
  where the code fails an assertion or follows a null or out-of-range pointer.  The instruction and
  its operands are one value here, so \<^verbatim>\<open>alloc_inst\<close> takes the opcode with its operands; source
  positions are not kept.  The function is the builder's own copy: no operation reads it through
  the module's list.

  The second half states what a client gets: an invariant of functions that the four primitive
  changes keep is kept by every sequence of builder calls, and two such invariants give the facts
  that the verifier, the optimiser and the VM rely on.
\<close>

section \<open>Builder state and internal helpers\<close>

record MirBuilder =
  bmodule :: MirModule
  bfunc :: MirFunction
  current_block :: MirBlockP

type_synonym emitted = "(MirBuilder \<times> MirValueId) option"

definition alloc_inst :: "MirOp \<Rightarrow> MirTypeP \<Rightarrow> MirInst" where
  "alloc_inst opc ty = \<lparr>iop = opc, result = MIR_VALUE_NONE, itype = ty\<rparr>"

text \<open>The condition \<^verbatim>\<open>inst->type && inst->type->kind != MIR_TYPE_VOID\<close>.\<close>

definition has_value :: "MirType list \<Rightarrow> MirTypeP \<Rightarrow> bool" where
  "has_value c ty = (case ty of None \<Rightarrow> False | Some t \<Rightarrow> t < length c \<and> ty_kind (c ! t) \<noteq> MIR_TYPE_VOID)"

definition emit :: "MirBuilder \<Rightarrow> MirInst \<Rightarrow> emitted" where
  "emit b i =
     (case current_block b of
        None \<Rightarrow> None
      | Some cb \<Rightarrow>
          (let (f, v) = (if has_value (type_cache (bmodule b)) (itype i)
                         then mir_function_new_value (bfunc b) (itype i)
                         else (bfunc b, result i))
           in Some (b\<lparr>bfunc := upd_block f cb (\<lambda>blk. mir_block_append blk (i\<lparr>result := v\<rparr>))\<rparr>, v)))"

definition emit_void :: "MirBuilder \<Rightarrow> MirInst \<Rightarrow> MirBuilder option" where
  "emit_void b i =
     (case current_block b of
        None \<Rightarrow> None
      | Some cb \<Rightarrow>
          Some (b\<lparr>bfunc := upd_block (bfunc b) cb
                    (\<lambda>blk. mir_block_append blk (i\<lparr>result := MIR_VALUE_NONE\<rparr>))\<rparr>))"

definition link_cfg :: "MirFunction \<Rightarrow> bref \<Rightarrow> MirBlockP \<Rightarrow> MirFunction option" where
  "link_cfg f from to =
     (case to of
        None \<Rightarrow> None
      | Some t \<Rightarrow>
          if t < length (blocks f)
          then Some (upd_block (upd_block f from (\<lambda>blk. mir_block_add_successor blk t)) t
                       (\<lambda>blk. mir_block_add_predecessor blk from))
          else None)"

text \<open>\<^verbatim>\<open>link_cfg(b->current_block, target)\<close>\<close>

definition link_current :: "MirBuilder \<Rightarrow> MirBlockP \<Rightarrow> MirBuilder option" where
  "link_current b target =
     (case current_block b of
        None \<Rightarrow> None
      | Some cb \<Rightarrow> map_option (\<lambda>f. b\<lparr>bfunc := f\<rparr>) (link_cfg (bfunc b) cb target))"

text \<open>A type constructor called with \<^verbatim>\<open>b->module\<close>.\<close>

definition intern_in :: "MirBuilder \<Rightarrow> (MirModule \<Rightarrow> MirModule \<times> tref) \<Rightarrow> MirBuilder \<times> MirTypeP" where
  "intern_in b mk = (let (m, t) = mk (bmodule b) in (b\<lparr>bmodule := m\<rparr>, Some t))"

definition mir_type_void :: "MirModule \<Rightarrow> MirModule \<times> tref" where
  "mir_type_void m = mir_intern_primitive m MIR_TYPE_VOID"

definition mir_type_bool :: "MirModule \<Rightarrow> MirModule \<times> tref" where
  "mir_type_bool m = mir_intern_primitive m MIR_TYPE_BOOL"

definition mir_type_i8 :: "MirModule \<Rightarrow> MirModule \<times> tref" where
  "mir_type_i8 m = mir_intern_primitive m MIR_TYPE_I8"

definition ptr_to_i8 :: "MirModule \<Rightarrow> MirModule \<times> tref" where
  "ptr_to_i8 m = (let (m1, t) = mir_type_i8 m in mir_type_ptr m1 (Some t))"

definition mir_builder_init :: "MirModule \<Rightarrow> MirFunction \<Rightarrow> MirBuilder" where
  "mir_builder_init m f = \<lparr>bmodule = m, bfunc = f, current_block = None\<rparr>"

definition mir_builder_set_block :: "MirBuilder \<Rightarrow> MirBlockP \<Rightarrow> MirBuilder" where
  "mir_builder_set_block b blk = b\<lparr>current_block := blk\<rparr>"

section \<open>Constants\<close>

definition mir_build_const_int :: "MirBuilder \<Rightarrow> u64 \<Rightarrow> MirTypeP \<Rightarrow> emitted" where
  "mir_build_const_int b val ty = emit b (alloc_inst (CONST_INT val) ty)"

definition mir_build_const_float :: "MirBuilder \<Rightarrow> u64 \<Rightarrow> MirTypeP \<Rightarrow> emitted" where
  "mir_build_const_float b val ty = emit b (alloc_inst (CONST_FLOAT val) ty)"

definition mir_build_const_bool :: "MirBuilder \<Rightarrow> bool \<Rightarrow> emitted" where
  "mir_build_const_bool b val =
     (let (b1, ty) = intern_in b mir_type_bool in emit b1 (alloc_inst (CONST_BOOL val) ty))"

text \<open>
  \<open>addr\<close> gives the address at which the arena placed a string literal, by its index.
\<close>

definition mir_build_const_string :: "(nat \<Rightarrow> u64) \<Rightarrow> MirBuilder \<Rightarrow> string \<Rightarrow> emitted" where
  "mir_build_const_string addr b str =
     (let (b1, ty) = intern_in b ptr_to_i8;
          (m, idx) = mir_module_add_string (bmodule b1) str
      in emit (b1\<lparr>bmodule := m\<rparr>) (alloc_inst (CONST_STRING (addr idx)) ty))"

definition mir_build_const_func :: "MirBuilder \<Rightarrow> string \<Rightarrow> MirTypeP \<Rightarrow> emitted" where
  "mir_build_const_func b name ty = emit b (alloc_inst (CONST_FUNC name) ty)"

definition mir_build_const_null :: "MirBuilder \<Rightarrow> MirTypeP \<Rightarrow> emitted" where
  "mir_build_const_null b ty = emit b (alloc_inst CONST_NULL ty)"

definition mir_build_global_addr :: "MirBuilder \<Rightarrow> string \<Rightarrow> MirTypeP \<Rightarrow> emitted" where
  "mir_build_global_addr b name value_type =
     (let (b1, ty) = intern_in b (\<lambda>m. mir_type_ptr m value_type)
      in emit b1 (alloc_inst (GLOBAL_ADDR name) ty))"

section \<open>Arithmetic, comparison, bitwise\<close>

definition build_binary :: "MirBuilder \<Rightarrow> MirBinOp \<Rightarrow> MirValueId \<Rightarrow> MirValueId \<Rightarrow> emitted" where
  "build_binary b opc lhs rhs =
     emit b (alloc_inst (BINARY opc lhs rhs) (mir_function_value_type (bfunc b) lhs))"

definition mir_build_add :: "MirBuilder \<Rightarrow> MirValueId \<Rightarrow> MirValueId \<Rightarrow> emitted" where
  "mir_build_add b lhs rhs = build_binary b MIR_ADD lhs rhs"

definition mir_build_sub :: "MirBuilder \<Rightarrow> MirValueId \<Rightarrow> MirValueId \<Rightarrow> emitted" where
  "mir_build_sub b lhs rhs = build_binary b MIR_SUB lhs rhs"

definition mir_build_mul :: "MirBuilder \<Rightarrow> MirValueId \<Rightarrow> MirValueId \<Rightarrow> emitted" where
  "mir_build_mul b lhs rhs = build_binary b MIR_MUL lhs rhs"

definition mir_build_div :: "MirBuilder \<Rightarrow> MirValueId \<Rightarrow> MirValueId \<Rightarrow> emitted" where
  "mir_build_div b lhs rhs = build_binary b MIR_DIV lhs rhs"

definition mir_build_mod :: "MirBuilder \<Rightarrow> MirValueId \<Rightarrow> MirValueId \<Rightarrow> emitted" where
  "mir_build_mod b lhs rhs = build_binary b MIR_MOD lhs rhs"

definition mir_build_fadd :: "MirBuilder \<Rightarrow> MirValueId \<Rightarrow> MirValueId \<Rightarrow> emitted" where
  "mir_build_fadd b lhs rhs = build_binary b MIR_FADD lhs rhs"

definition mir_build_fsub :: "MirBuilder \<Rightarrow> MirValueId \<Rightarrow> MirValueId \<Rightarrow> emitted" where
  "mir_build_fsub b lhs rhs = build_binary b MIR_FSUB lhs rhs"

definition mir_build_fmul :: "MirBuilder \<Rightarrow> MirValueId \<Rightarrow> MirValueId \<Rightarrow> emitted" where
  "mir_build_fmul b lhs rhs = build_binary b MIR_FMUL lhs rhs"

definition mir_build_fdiv :: "MirBuilder \<Rightarrow> MirValueId \<Rightarrow> MirValueId \<Rightarrow> emitted" where
  "mir_build_fdiv b lhs rhs = build_binary b MIR_FDIV lhs rhs"

definition mir_build_neg :: "MirBuilder \<Rightarrow> MirValueId \<Rightarrow> emitted" where
  "mir_build_neg b x = emit b (alloc_inst (UNARY MIR_NEG x None) (mir_function_value_type (bfunc b) x))"

definition mir_build_fneg :: "MirBuilder \<Rightarrow> MirValueId \<Rightarrow> emitted" where
  "mir_build_fneg b x = emit b (alloc_inst (UNARY MIR_FNEG x None) (mir_function_value_type (bfunc b) x))"

definition build_cmp :: "MirBuilder \<Rightarrow> MirBinOp \<Rightarrow> MirValueId \<Rightarrow> MirValueId \<Rightarrow> emitted" where
  "build_cmp b opc lhs rhs =
     (let (b1, ty) = intern_in b mir_type_bool in emit b1 (alloc_inst (BINARY opc lhs rhs) ty))"

definition mir_build_cmp_eq :: "MirBuilder \<Rightarrow> MirValueId \<Rightarrow> MirValueId \<Rightarrow> emitted" where
  "mir_build_cmp_eq b lhs rhs = build_cmp b MIR_CMP_EQ lhs rhs"

definition mir_build_cmp_ne :: "MirBuilder \<Rightarrow> MirValueId \<Rightarrow> MirValueId \<Rightarrow> emitted" where
  "mir_build_cmp_ne b lhs rhs = build_cmp b MIR_CMP_NE lhs rhs"

definition mir_build_cmp_lt :: "MirBuilder \<Rightarrow> MirValueId \<Rightarrow> MirValueId \<Rightarrow> emitted" where
  "mir_build_cmp_lt b lhs rhs = build_cmp b MIR_CMP_LT lhs rhs"

definition mir_build_cmp_le :: "MirBuilder \<Rightarrow> MirValueId \<Rightarrow> MirValueId \<Rightarrow> emitted" where
  "mir_build_cmp_le b lhs rhs = build_cmp b MIR_CMP_LE lhs rhs"

definition mir_build_cmp_gt :: "MirBuilder \<Rightarrow> MirValueId \<Rightarrow> MirValueId \<Rightarrow> emitted" where
  "mir_build_cmp_gt b lhs rhs = build_cmp b MIR_CMP_GT lhs rhs"

definition mir_build_cmp_ge :: "MirBuilder \<Rightarrow> MirValueId \<Rightarrow> MirValueId \<Rightarrow> emitted" where
  "mir_build_cmp_ge b lhs rhs = build_cmp b MIR_CMP_GE lhs rhs"

definition mir_build_and :: "MirBuilder \<Rightarrow> MirValueId \<Rightarrow> MirValueId \<Rightarrow> emitted" where
  "mir_build_and b lhs rhs = build_binary b MIR_BAND lhs rhs"

definition mir_build_or :: "MirBuilder \<Rightarrow> MirValueId \<Rightarrow> MirValueId \<Rightarrow> emitted" where
  "mir_build_or b lhs rhs = build_binary b MIR_BOR lhs rhs"

definition mir_build_xor :: "MirBuilder \<Rightarrow> MirValueId \<Rightarrow> MirValueId \<Rightarrow> emitted" where
  "mir_build_xor b lhs rhs = build_binary b MIR_BXOR lhs rhs"

definition mir_build_shl :: "MirBuilder \<Rightarrow> MirValueId \<Rightarrow> MirValueId \<Rightarrow> emitted" where
  "mir_build_shl b lhs rhs = build_binary b MIR_SHL lhs rhs"

definition mir_build_shr :: "MirBuilder \<Rightarrow> MirValueId \<Rightarrow> MirValueId \<Rightarrow> emitted" where
  "mir_build_shr b lhs rhs = build_binary b MIR_SHR lhs rhs"

definition mir_build_not :: "MirBuilder \<Rightarrow> MirValueId \<Rightarrow> emitted" where
  "mir_build_not b x = emit b (alloc_inst (UNARY MIR_BNOT x None) (mir_function_value_type (bfunc b) x))"

section \<open>Memory\<close>

definition mir_build_alloca :: "MirBuilder \<Rightarrow> MirTypeP \<Rightarrow> emitted" where
  "mir_build_alloca b ty =
     (let (b1, pty) = intern_in b (\<lambda>m. mir_type_ptr m ty) in emit b1 (alloc_inst (ALLOCA ty 1) pty))"

definition mir_build_load :: "MirBuilder \<Rightarrow> MirValueId \<Rightarrow> MirTypeP \<Rightarrow> emitted" where
  "mir_build_load b ptr ty = emit b (alloc_inst (LOAD ptr) ty)"

definition mir_build_store :: "MirBuilder \<Rightarrow> MirValueId \<Rightarrow> MirValueId \<Rightarrow> MirBuilder option" where
  "mir_build_store b ptr value =
     (let (b1, ty) = intern_in b mir_type_void in emit_void b1 (alloc_inst (STORE ptr value) ty))"

text \<open>The field types of the struct that a type points to.\<close>

definition pointed_struct :: "MirType list \<Rightarrow> MirTypeP \<Rightarrow> MirTypeP list option" where
  "pointed_struct c ty =
     (case ty of
        None \<Rightarrow> None
      | Some t \<Rightarrow>
          (case c ! t of
             TyPtr (Some p) \<Rightarrow> (case c ! p of TyStruct nm fs sz al \<Rightarrow> Some fs | _ \<Rightarrow> None)
           | _ \<Rightarrow> None))"

definition mir_build_get_field_ptr :: "MirBuilder \<Rightarrow> MirValueId \<Rightarrow> int \<Rightarrow> emitted" where
  "mir_build_get_field_ptr b base field_idx =
     (let base_type = mir_function_value_type (bfunc b) base;
          opc = GET_FIELD_PTR base field_idx MIR_VALUE_NONE
      in case pointed_struct (type_cache (bmodule b)) base_type of
           Some fs \<Rightarrow>
             if field_idx < int (length fs)
             then if field_idx < 0 then None
                  else (let (b1, ty) = intern_in b (\<lambda>m. mir_type_ptr m (fs ! nat field_idx))
                        in emit b1 (alloc_inst opc ty))
             else emit b (alloc_inst opc base_type)
         | None \<Rightarrow> emit b (alloc_inst opc base_type))"

definition mir_build_get_elem_ptr :: "MirBuilder \<Rightarrow> MirValueId \<Rightarrow> MirValueId \<Rightarrow> emitted" where
  "mir_build_get_elem_ptr b base idx =
     emit b (alloc_inst (GET_ELEM_PTR base (- 1) idx) (mir_function_value_type (bfunc b) base))"

section \<open>Control flow\<close>

definition mir_build_br :: "MirBuilder \<Rightarrow> MirBlockP \<Rightarrow> MirBuilder option" where
  "mir_build_br b target =
     (let (b1, ty) = intern_in b mir_type_void
      in Option.bind (emit_void b1 (alloc_inst (BR target) ty)) (\<lambda>b2. link_current b2 target))"

definition mir_build_condbr ::
    "MirBuilder \<Rightarrow> MirValueId \<Rightarrow> MirBlockP \<Rightarrow> MirBlockP \<Rightarrow> MirBuilder option" where
  "mir_build_condbr b cond true_bb false_bb =
     (let (b1, ty) = intern_in b mir_type_void
      in Option.bind (emit_void b1 (alloc_inst (CONDBR cond true_bb false_bb) ty)) (\<lambda>b2.
           Option.bind (link_current b2 true_bb) (\<lambda>b3. link_current b3 false_bb)))"

definition mir_build_ret :: "MirBuilder \<Rightarrow> MirValueId \<Rightarrow> MirBuilder option" where
  "mir_build_ret b value =
     (let (b1, ty) = intern_in b mir_type_void in emit_void b1 (alloc_inst (RET value) ty))"

definition mir_build_ret_void :: "MirBuilder \<Rightarrow> MirBuilder option" where
  "mir_build_ret_void b =
     (let (b1, ty) = intern_in b mir_type_void in emit_void b1 (alloc_inst RET_VOID ty))"

definition mir_build_suspend :: "MirBuilder \<Rightarrow> MirBlockP \<Rightarrow> MirValueId \<Rightarrow> emitted" where
  "mir_build_suspend b resume_bb future =
     Option.bind
       (emit b (alloc_inst (SUSPEND resume_bb future) (mir_function_value_type (bfunc b) future)))
       (\<lambda>(b1, v). map_option (\<lambda>b2. (b2, v)) (link_current b1 resume_bb))"

section \<open>Calls\<close>

definition mir_build_call :: "MirBuilder \<Rightarrow> string \<Rightarrow> MirValueId list \<Rightarrow> MirTypeP \<Rightarrow> emitted" where
  "mir_build_call b name as ret_type =
     emit b (alloc_inst (CALL (Some name) as MIR_VALUE_NONE) ret_type)"

definition mir_build_call_indirect ::
    "MirBuilder \<Rightarrow> MirValueId \<Rightarrow> MirValueId list \<Rightarrow> MirTypeP \<Rightarrow> emitted" where
  "mir_build_call_indirect b callee as ret_type =
     emit b (alloc_inst (CALL_INDIRECT None as callee) ret_type)"

definition mir_build_call_virtual ::
    "MirBuilder \<Rightarrow> MirValueId \<Rightarrow> int \<Rightarrow> MirValueId list \<Rightarrow> MirTypeP \<Rightarrow> emitted" where
  "mir_build_call_virtual b self vtable_idx as ret_type =
     emit b (alloc_inst (CALL_VIRTUAL self vtable_idx as) ret_type)"

section \<open>Phis\<close>

definition mir_build_phi :: "MirBuilder \<Rightarrow> MirTypeP \<Rightarrow> emitted" where
  "mir_build_phi b ty = emit b (alloc_inst (PHI []) ty)"

definition mir_phi_add_edge :: "MirInst \<Rightarrow> bref \<Rightarrow> MirValueId \<Rightarrow> MirInst option" where
  "mir_phi_add_edge phi_inst block value =
     (case iop phi_inst of
        PHI es \<Rightarrow> Some (phi_inst\<lparr>iop := PHI (es @ [(Some block, value)])\<rparr>)
      | _ \<Rightarrow> None)"

section \<open>Conversions\<close>

definition build_convert :: "MirBuilder \<Rightarrow> MirUnOp \<Rightarrow> MirValueId \<Rightarrow> MirTypeP \<Rightarrow> emitted" where
  "build_convert b opc val target = emit b (alloc_inst (UNARY opc val target) target)"

definition mir_build_cast :: "MirBuilder \<Rightarrow> MirValueId \<Rightarrow> MirTypeP \<Rightarrow> emitted" where
  "mir_build_cast b val target = build_convert b MIR_CAST val target"

definition mir_build_zext :: "MirBuilder \<Rightarrow> MirValueId \<Rightarrow> MirTypeP \<Rightarrow> emitted" where
  "mir_build_zext b val target = build_convert b MIR_ZEXT val target"

definition mir_build_sext :: "MirBuilder \<Rightarrow> MirValueId \<Rightarrow> MirTypeP \<Rightarrow> emitted" where
  "mir_build_sext b val target = build_convert b MIR_SEXT val target"

definition mir_build_trunc :: "MirBuilder \<Rightarrow> MirValueId \<Rightarrow> MirTypeP \<Rightarrow> emitted" where
  "mir_build_trunc b val target = build_convert b MIR_TRUNC val target"

definition mir_build_sitofp :: "MirBuilder \<Rightarrow> MirValueId \<Rightarrow> MirTypeP \<Rightarrow> emitted" where
  "mir_build_sitofp b val target = build_convert b MIR_SITOFP val target"

definition mir_build_fptosi :: "MirBuilder \<Rightarrow> MirValueId \<Rightarrow> MirTypeP \<Rightarrow> emitted" where
  "mir_build_fptosi b val target = build_convert b MIR_FPTOSI val target"

section \<open>Ownership and reference counting\<close>

definition mir_build_borrow :: "MirBuilder \<Rightarrow> MirValueId \<Rightarrow> emitted" where
  "mir_build_borrow b source =
     (let (b1, ty) = intern_in b (\<lambda>m. mir_type_ref m (mir_function_value_type (bfunc b) source) False)
      in emit b1 (alloc_inst (TRANSFER MIR_BORROW source) ty))"

definition mir_build_borrow_mut :: "MirBuilder \<Rightarrow> MirValueId \<Rightarrow> emitted" where
  "mir_build_borrow_mut b source =
     (let (b1, ty) = intern_in b (\<lambda>m. mir_type_ref m (mir_function_value_type (bfunc b) source) True)
      in emit b1 (alloc_inst (TRANSFER MIR_BORROW_MUT source) ty))"

definition mir_build_move :: "MirBuilder \<Rightarrow> MirValueId \<Rightarrow> emitted" where
  "mir_build_move b source =
     emit b (alloc_inst (TRANSFER MIR_MOVE source) (mir_function_value_type (bfunc b) source))"

definition mir_build_drop :: "MirBuilder \<Rightarrow> MirValueId \<Rightarrow> MirBuilder option" where
  "mir_build_drop b value =
     (let (b1, ty) = intern_in b mir_type_void in emit_void b1 (alloc_inst (REFOP MIR_DROP value) ty))"

definition mir_build_arc_retain :: "MirBuilder \<Rightarrow> MirValueId \<Rightarrow> MirBuilder option" where
  "mir_build_arc_retain b ptr =
     (let (b1, ty) = intern_in b mir_type_void in emit_void b1 (alloc_inst (REFOP MIR_ARC_RETAIN ptr) ty))"

definition mir_build_arc_release :: "MirBuilder \<Rightarrow> MirValueId \<Rightarrow> MirBuilder option" where
  "mir_build_arc_release b ptr =
     (let (b1, ty) = intern_in b mir_type_void in emit_void b1 (alloc_inst (REFOP MIR_ARC_RELEASE ptr) ty))"

definition mir_build_obj_alloc :: "MirBuilder \<Rightarrow> string \<Rightarrow> int \<Rightarrow> emitted" where
  "mir_build_obj_alloc b class_name sz =
     (let (b1, ty) = intern_in b ptr_to_i8 in emit b1 (alloc_inst (OBJ_ALLOC (Some class_name) sz) ty))"

section \<open>Aggregates\<close>

definition mir_build_struct_init :: "MirBuilder \<Rightarrow> MirTypeP \<Rightarrow> MirValueId list \<Rightarrow> emitted" where
  "mir_build_struct_init b ty fs = emit b (alloc_inst (STRUCT_INIT fs) ty)"

definition mir_build_extract :: "MirBuilder \<Rightarrow> MirValueId \<Rightarrow> int \<Rightarrow> emitted" where
  "mir_build_extract b agg field_idx =
     (let agg_type = mir_function_value_type (bfunc b) agg;
          fs = (case agg_type of
                  None \<Rightarrow> None
                | Some t \<Rightarrow>
                    (case type_cache (bmodule b) ! t of TyStruct nm fs sz al \<Rightarrow> Some fs | _ \<Rightarrow> None))
      in case fs of
           Some fs \<Rightarrow>
             if field_idx < int (length fs)
             then if field_idx < 0 then None
                  else emit b (alloc_inst (EXTRACT agg field_idx) (fs ! nat field_idx))
             else emit b (alloc_inst (EXTRACT agg field_idx) agg_type)
         | None \<Rightarrow> emit b (alloc_inst (EXTRACT agg field_idx) agg_type))"

definition mir_build_insert :: "MirBuilder \<Rightarrow> MirValueId \<Rightarrow> int \<Rightarrow> MirValueId \<Rightarrow> emitted" where
  "mir_build_insert b agg field_idx val =
     emit b (alloc_inst (INSERT agg field_idx val) (mir_function_value_type (bfunc b) agg))"

section \<open>Vector instructions\<close>

definition alloc_vec_inst ::
    "MirVecOpcode \<Rightarrow> MirTypeP \<Rightarrow> int \<Rightarrow> MirValueId \<Rightarrow> MirValueId \<Rightarrow> MirValueId \<Rightarrow> MirInst" where
  "alloc_vec_inst opc lane_type width a bsrc c =
     alloc_inst (VEC opc a bsrc c width lane_type) lane_type"

definition mir_build_vec_load ::
    "MirBuilder \<Rightarrow> MirValueId \<Rightarrow> MirTypeP \<Rightarrow> int \<Rightarrow> bool \<Rightarrow> emitted" where
  "mir_build_vec_load b ptr lane_type width aligned =
     emit b (alloc_vec_inst (if aligned then MIR_VEC_LOAD else MIR_VEC_LOAD_UNALIGNED) lane_type width
               ptr MIR_VALUE_NONE MIR_VALUE_NONE)"

definition mir_build_vec_store ::
    "MirBuilder \<Rightarrow> MirValueId \<Rightarrow> MirValueId \<Rightarrow> MirTypeP \<Rightarrow> int \<Rightarrow> bool \<Rightarrow> MirBuilder option" where
  "mir_build_vec_store b ptr value lane_type width aligned =
     (let (b1, ty) = intern_in b mir_type_void
      in emit_void b1 (alloc_inst (VEC (if aligned then MIR_VEC_STORE else MIR_VEC_STORE_UNALIGNED)
                                    ptr value MIR_VALUE_NONE width lane_type) ty))"

definition mir_build_vec_broadcast ::
    "MirBuilder \<Rightarrow> MirValueId \<Rightarrow> MirTypeP \<Rightarrow> int \<Rightarrow> emitted" where
  "mir_build_vec_broadcast b scalar lane_type width =
     emit b (alloc_vec_inst MIR_VEC_BROADCAST lane_type width scalar MIR_VALUE_NONE MIR_VALUE_NONE)"

definition vec_binops :: "MirVecOpcode list" where
  "vec_binops = [MIR_VEC_ADD, MIR_VEC_SUB, MIR_VEC_MUL, MIR_VEC_DIV, MIR_VEC_MIN, MIR_VEC_MAX,
     MIR_VEC_AND, MIR_VEC_OR, MIR_VEC_XOR]"

definition mir_build_vec_binop ::
    "MirBuilder \<Rightarrow> MirVecOpcode \<Rightarrow> MirValueId \<Rightarrow> MirValueId \<Rightarrow> MirTypeP \<Rightarrow> int \<Rightarrow> emitted" where
  "mir_build_vec_binop b opc a bsrc lane_type width =
     (if opc \<in> set vec_binops
      then emit b (alloc_vec_inst opc lane_type width a bsrc MIR_VALUE_NONE)
      else None)"

definition mir_build_vec_fma ::
    "MirBuilder \<Rightarrow> MirValueId \<Rightarrow> MirValueId \<Rightarrow> MirValueId \<Rightarrow> MirTypeP \<Rightarrow> int \<Rightarrow> emitted" where
  "mir_build_vec_fma b a bsrc c lane_type width =
     emit b (alloc_vec_inst MIR_VEC_FMA lane_type width a bsrc c)"

definition mir_build_vec_reduce_sum ::
    "MirBuilder \<Rightarrow> MirValueId \<Rightarrow> MirTypeP \<Rightarrow> int \<Rightarrow> emitted" where
  "mir_build_vec_reduce_sum b v lane_type width =
     emit b (alloc_vec_inst MIR_VEC_REDUCE_SUM lane_type width v MIR_VALUE_NONE MIR_VALUE_NONE)"

definition mir_build_vec_dot ::
    "MirBuilder \<Rightarrow> MirValueId \<Rightarrow> MirValueId \<Rightarrow> MirTypeP \<Rightarrow> int \<Rightarrow> emitted" where
  "mir_build_vec_dot b a bsrc lane_type width =
     emit b (alloc_vec_inst MIR_VEC_DOT lane_type width a bsrc MIR_VALUE_NONE)"

definition mir_build_vec_cmp ::
    "MirBuilder \<Rightarrow> MirVecOpcode \<Rightarrow> MirValueId \<Rightarrow> MirValueId \<Rightarrow> MirTypeP \<Rightarrow> int \<Rightarrow> emitted" where
  "mir_build_vec_cmp b opc a bsrc lane_type width =
     (if opc \<in> {MIR_VEC_CMP_EQ, MIR_VEC_CMP_LT, MIR_VEC_CMP_GT}
      then emit b (alloc_vec_inst opc lane_type width a bsrc MIR_VALUE_NONE)
      else None)"

definition mir_build_vec_select ::
    "MirBuilder \<Rightarrow> MirValueId \<Rightarrow> MirValueId \<Rightarrow> MirValueId \<Rightarrow> MirTypeP \<Rightarrow> int \<Rightarrow> emitted" where
  "mir_build_vec_select b mask_v a bsrc lane_type width =
     emit b (alloc_vec_inst MIR_VEC_SELECT lane_type width mask_v a bsrc)"

fun mir_opcode_is_vec :: "MirOp \<Rightarrow> bool" where
  "mir_opcode_is_vec (VEC p a b c w t) = True"
| "mir_opcode_is_vec _ = False"

primrec vec_opcode_name :: "MirVecOpcode \<Rightarrow> string" where
  "vec_opcode_name MIR_VEC_LOAD = ''vec.load''"
| "vec_opcode_name MIR_VEC_LOAD_UNALIGNED = ''vec.load.u''"
| "vec_opcode_name MIR_VEC_STORE = ''vec.store''"
| "vec_opcode_name MIR_VEC_STORE_UNALIGNED = ''vec.store.u''"
| "vec_opcode_name MIR_VEC_BROADCAST = ''vec.broadcast''"
| "vec_opcode_name MIR_VEC_ADD = ''vec.add''"
| "vec_opcode_name MIR_VEC_SUB = ''vec.sub''"
| "vec_opcode_name MIR_VEC_MUL = ''vec.mul''"
| "vec_opcode_name MIR_VEC_DIV = ''vec.div''"
| "vec_opcode_name MIR_VEC_MIN = ''vec.min''"
| "vec_opcode_name MIR_VEC_MAX = ''vec.max''"
| "vec_opcode_name MIR_VEC_AND = ''vec.and''"
| "vec_opcode_name MIR_VEC_OR = ''vec.or''"
| "vec_opcode_name MIR_VEC_XOR = ''vec.xor''"
| "vec_opcode_name MIR_VEC_FMA = ''vec.fma''"
| "vec_opcode_name MIR_VEC_REDUCE_SUM = ''vec.reduce_sum''"
| "vec_opcode_name MIR_VEC_DOT = ''vec.dot''"
| "vec_opcode_name MIR_VEC_CMP_EQ = ''vec.cmp.eq''"
| "vec_opcode_name MIR_VEC_CMP_LT = ''vec.cmp.lt''"
| "vec_opcode_name MIR_VEC_CMP_GT = ''vec.cmp.gt''"
| "vec_opcode_name MIR_VEC_SELECT = ''vec.select''"

definition mir_opcode_name :: "MirOp \<Rightarrow> string" where
  "mir_opcode_name opc = (case opc of VEC p a b c w t \<Rightarrow> vec_opcode_name p | _ \<Rightarrow> ''?'')"

end
