(* ===== verification/Builder_Facts.thy ===== *)
theory Builder_Facts
  imports Mir_Builder
begin

text \<open>
  What the builder guarantees to the code that uses it.  A client performs calls in any order
  (\<open>builder_step\<close>), with operands that are values of the function and targets that are its
  blocks.  The locale \<open>mir_invariant\<close> reduces an invariant of every such sequence to the four
  primitive changes of a function; it is interpreted twice: for value ids (every operand and result
  passes the verifier's id checks) and for the control-flow graph (the edge lists agree exactly with
  the branches in the code).
\<close>

section \<open>Operands, targets and the primitive changes\<close>

definition operand_ok :: "MirFunction \<Rightarrow> MirValueId \<Rightarrow> bool" where
  "operand_ok f v \<longleftrightarrow> mir_verify_value_ids_operand f v = 0"

definition operands_ok :: "MirFunction \<Rightarrow> MirOp \<Rightarrow> bool" where
  "operands_ok f opc \<longleftrightarrow> (\<forall>v \<in> set (verify_operands opc). operand_ok f v)"

definition ids_left :: "MirFunction \<Rightarrow> bool" where
  "ids_left f \<longleftrightarrow> unat (next_value_id f) < 2 ^ 31 - 1"

fun branch_targets :: "MirOp \<Rightarrow> bref list" where
  "branch_targets (SUSPEND r x) = somes [r]"
| "branch_targets opc = mir_collect_term_succs opc"

fun link_all :: "MirFunction \<Rightarrow> bref \<Rightarrow> bref list \<Rightarrow> MirFunction option" where
  "link_all f from [] = Some f"
| "link_all f from (t # ts) = Option.bind (link_cfg f from (Some t)) (\<lambda>g. link_all g from ts)"

definition inst_ok :: "MirFunction \<Rightarrow> MirInst \<Rightarrow> bool" where
  "inst_ok f i \<longleftrightarrow> operands_ok f (iop i) \<and> mir_vid_defined f (result i)"

definition append_inst :: "MirFunction \<Rightarrow> bref \<Rightarrow> MirInst \<Rightarrow> MirFunction" where
  "append_inst f cb i = upd_block f cb (\<lambda>blk. mir_block_append blk i)"

definition set_inst :: "MirFunction \<Rightarrow> bref \<Rightarrow> nat \<Rightarrow> MirInst \<Rightarrow> MirFunction" where
  "set_inst f blk k i = upd_block f blk (\<lambda>B. B\<lparr>insts := (insts B)[k := i]\<rparr>)"

lemma operand_none [simp]: "operand_ok f MIR_VALUE_NONE"
  by (simp add: operand_ok_def mir_verify_value_ids_operand_def)

lemma upd_block_fields [simp]:
  "next_value_id (upd_block f b g) = next_value_id f" "value_types (upd_block f b g) = value_types f"
  "length (blocks (upd_block f b g)) = length (blocks f)" "block_list (upd_block f b g) = block_list f"
  "entry_block (upd_block f b g) = entry_block f" "block_count (upd_block f b g) = block_count f"
  "is_extern (upd_block f b g) = is_extern f"
  by (simp_all add: upd_block_def)

lemma value_facts_cong:
  assumes "next_value_id g = next_value_id f" and "value_types g = value_types f"
  shows "operand_ok g v = operand_ok f v" and "operands_ok g opc = operands_ok f opc"
    and "mir_vid_defined g v = mir_vid_defined f v" and "values_wf g = values_wf f"
    and "inst_ok g i = inst_ok f i"
  using assms
  by (simp_all add: operand_ok_def operands_ok_def inst_ok_def mir_verify_value_ids_operand_def mir_vid_defined_def
      mir_function_value_type_def values_wf_def)

lemma link_all_fields:
  "link_all f from ts = Some g \<Longrightarrow>
   next_value_id g = next_value_id f \<and> value_types g = value_types f
   \<and> length (blocks g) = length (blocks f) \<and> block_list g = block_list f
   \<and> entry_block g = entry_block f \<and> block_count g = block_count f \<and> is_extern g = is_extern f"
proof (induction ts arbitrary: f)
  case (Cons t ts)
  then obtain h where "link_cfg f from (Some t) = Some h" "link_all h from ts = Some g"
    by (auto simp: bind_eq_Some_conv)
  with Cons.IH[of h] show ?case by (auto simp: link_cfg_def split: if_splits)
qed simp

lemma vid_defined_less:
  assumes "values_wf f" and "mir_vid_defined f v" and "v \<noteq> MIR_VALUE_NONE"
  shows "unat v < unat (next_value_id f)"
proof -
  have n: "sint (next_value_id f) = int (unat (next_value_id f))"
    using assms(1) by (simp add: values_wf_def sint_small)
  have "0 \<le> sint v" "sint v < sint (next_value_id f)" using assms by (auto simp: mir_vid_defined_def)
  moreover have "sint v = int (unat v)" if "0 \<le> sint v"
  proof -
    have "uint v = take_bit 32 (sint v)" by (simp add: uint_sint)
    also have "\<dots> = sint v"
      using that sint_less[of v] by (intro take_bit_int_eq_self) simp_all
    finally show ?thesis by simp
  qed
  ultimately have "int (unat v) < int (unat (next_value_id f))" using n by linarith
  then show ?thesis by linarith
qed

text \<open>A new value keeps every operand that was good, and is good itself.\<close>

lemma new_value_mono:
  assumes wf: "values_wf f" and l: "ids_left f" and nv: "mir_function_new_value f ty = (f', v)"
  shows "values_wf f'" and "operand_ok f x \<Longrightarrow> operand_ok f' x"
    and "mir_vid_defined f x \<Longrightarrow> mir_vid_defined f' x" and "mir_vid_defined f' v"
    and "blocks f' = blocks f" "block_list f' = block_list f" "entry_block f' = entry_block f"
      "block_count f' = block_count f" "is_extern f' = is_extern f"
proof -
  note sp = new_value_spec[OF wf nv] and fr = new_value_frame[OF nv]
  let ?n = "unat (next_value_id f)"
  have n: "?n < 2 ^ 31 - 1" using l by (simp add: ids_left_def)
  have s: "sint (next_value_id f) = int ?n" using n by (intro sint_small[THEN trans]) simp_all
  have s': "sint (next_value_id f') = int ?n + 1"
  proof -
    have u: "unat (next_value_id f + 1) = Suc ?n" using n by (intro unat_Suc32) simp
    then have "sint (next_value_id f + 1) = uint (next_value_id f + 1)" using n by (intro sint_small) simp
    also have "\<dots> = int (Suc ?n)" using u by (simp only: uint_nat)
    finally show ?thesis by (simp add: fr)
  qed
  show "values_wf f'" using sp n by auto
  show d: "mir_vid_defined f x \<Longrightarrow> mir_vid_defined f' x" for x
    using s s' by (auto simp: mir_vid_defined_def)
  show "mir_vid_defined f' v" using sp s s' by (auto simp: mir_vid_defined_def)
  show "operand_ok f x \<Longrightarrow> operand_ok f' x"
  proof (cases "x = MIR_VALUE_NONE")
    case False
    assume x: "operand_ok f x"
    with False have "mir_vid_defined f x" "mir_function_value_type f x \<noteq> None"
      by (auto simp: operand_ok_def mir_verify_value_ids_operand_def split: if_splits)
    with vid_defined_less[OF wf _ False] sp d show ?thesis
      by (auto simp: operand_ok_def mir_verify_value_ids_operand_def)
  qed simp
  show "blocks f' = blocks f" "block_list f' = block_list f" "entry_block f' = entry_block f"
    "block_count f' = block_count f" "is_extern f' = is_extern f"
    using nv by (auto simp: mir_function_new_value_def Let_def)
qed

section \<open>Sequences of builder calls\<close>

text \<open>
  One call of the API.  The guards are the caller's obligations: ids are not exhausted, operands
  satisfy \<open>ok\<close>, the block that becomes current is one of the function's blocks.  The
  wrappers of \<^verbatim>\<open>build_binary\<close>, \<^verbatim>\<open>build_cmp\<close> and \<^verbatim>\<open>build_convert\<close> are covered by their helper
  at an arbitrary opcode.
\<close>

inductive builder_step :: "(MirFunction \<Rightarrow> MirValueId \<Rightarrow> bool) \<Rightarrow> MirBuilder \<Rightarrow> MirBuilder \<Rightarrow> bool" for ok where
  b_set_block: "blk < length (blocks (bfunc b)) \<Longrightarrow>
     builder_step ok b (mir_builder_set_block b (Some blk))"
| b_add_block: "mir_function_add_block (bfunc b) lbl = (f', blk) \<Longrightarrow> builder_step ok b (b\<lparr>bfunc := f'\<rparr>)"
| b_phi_add_edge: "blk < length (blocks (bfunc b)) \<Longrightarrow> k < length (insts (blocks (bfunc b) ! blk)) \<Longrightarrow>
     ok (bfunc b) x \<Longrightarrow> mir_phi_add_edge (insts (blocks (bfunc b) ! blk) ! k) src x = Some i' \<Longrightarrow>
     builder_step ok b (b\<lparr>bfunc := set_inst (bfunc b) blk k i'\<rparr>)"
| b_const_int: "ids_left (bfunc b) \<Longrightarrow> 
     mir_build_const_int b n ty = Some (b', v) \<Longrightarrow> builder_step ok b b'"
| b_const_float: "ids_left (bfunc b) \<Longrightarrow> 
     mir_build_const_float b n ty = Some (b', v) \<Longrightarrow> builder_step ok b b'"
| b_const_bool: "ids_left (bfunc b) \<Longrightarrow> 
     mir_build_const_bool b q = Some (b', v) \<Longrightarrow> builder_step ok b b'"
| b_const_string: "ids_left (bfunc b) \<Longrightarrow> 
     mir_build_const_string addr b str = Some (b', v) \<Longrightarrow> builder_step ok b b'"
| b_const_func: "ids_left (bfunc b) \<Longrightarrow> 
     mir_build_const_func b str ty = Some (b', v) \<Longrightarrow> builder_step ok b b'"
| b_const_null: "ids_left (bfunc b) \<Longrightarrow> 
     mir_build_const_null b ty = Some (b', v) \<Longrightarrow> builder_step ok b b'"
| b_global_addr: "ids_left (bfunc b) \<Longrightarrow> 
     mir_build_global_addr b str ty = Some (b', v) \<Longrightarrow> builder_step ok b b'"
| b_binary: "ids_left (bfunc b) \<Longrightarrow> ok (bfunc b) l \<Longrightarrow> ok (bfunc b) rr \<Longrightarrow> 
     build_binary b binop l rr = Some (b', v) \<Longrightarrow> builder_step ok b b'"
| b_neg: "ids_left (bfunc b) \<Longrightarrow> ok (bfunc b) x \<Longrightarrow> 
     mir_build_neg b x = Some (b', v) \<Longrightarrow> builder_step ok b b'"
| b_fneg: "ids_left (bfunc b) \<Longrightarrow> ok (bfunc b) x \<Longrightarrow> 
     mir_build_fneg b x = Some (b', v) \<Longrightarrow> builder_step ok b b'"
| b_bnot: "ids_left (bfunc b) \<Longrightarrow> ok (bfunc b) x \<Longrightarrow> 
     mir_build_not b x = Some (b', v) \<Longrightarrow> builder_step ok b b'"
| b_cmp: "ids_left (bfunc b) \<Longrightarrow> ok (bfunc b) l \<Longrightarrow> ok (bfunc b) rr \<Longrightarrow> 
     build_cmp b binop l rr = Some (b', v) \<Longrightarrow> builder_step ok b b'"
| b_alloca: "ids_left (bfunc b) \<Longrightarrow> 
     mir_build_alloca b ty = Some (b', v) \<Longrightarrow> builder_step ok b b'"
| b_load: "ids_left (bfunc b) \<Longrightarrow> ok (bfunc b) x \<Longrightarrow> 
     mir_build_load b x ty = Some (b', v) \<Longrightarrow> builder_step ok b b'"
| b_store: "ids_left (bfunc b) \<Longrightarrow> ok (bfunc b) x \<Longrightarrow> ok (bfunc b) y \<Longrightarrow> 
     mir_build_store b x y = Some b' \<Longrightarrow> builder_step ok b b'"
| b_get_field_ptr: "ids_left (bfunc b) \<Longrightarrow> ok (bfunc b) x \<Longrightarrow> 
     mir_build_get_field_ptr b x k = Some (b', v) \<Longrightarrow> builder_step ok b b'"
| b_get_elem_ptr: "ids_left (bfunc b) \<Longrightarrow> ok (bfunc b) x \<Longrightarrow> ok (bfunc b) y \<Longrightarrow> 
     mir_build_get_elem_ptr b x y = Some (b', v) \<Longrightarrow> builder_step ok b b'"
| b_br: "ids_left (bfunc b) \<Longrightarrow> 
     mir_build_br b tgt = Some b' \<Longrightarrow> builder_step ok b b'"
| b_condbr: "ids_left (bfunc b) \<Longrightarrow> ok (bfunc b) x \<Longrightarrow> 
     mir_build_condbr b x t1 t2 = Some b' \<Longrightarrow> builder_step ok b b'"
| b_ret: "ids_left (bfunc b) \<Longrightarrow> ok (bfunc b) x \<Longrightarrow> 
     mir_build_ret b x = Some b' \<Longrightarrow> builder_step ok b b'"
| b_ret_void: "ids_left (bfunc b) \<Longrightarrow> 
     mir_build_ret_void b = Some b' \<Longrightarrow> builder_step ok b b'"
| b_suspend: "ids_left (bfunc b) \<Longrightarrow> ok (bfunc b) x \<Longrightarrow> 
     mir_build_suspend b tgt x = Some (b', v) \<Longrightarrow> builder_step ok b b'"
| b_call: "ids_left (bfunc b) \<Longrightarrow> list_all (ok (bfunc b)) as \<Longrightarrow> 
     mir_build_call b str as ty = Some (b', v) \<Longrightarrow> builder_step ok b b'"
| b_call_indirect: "ids_left (bfunc b) \<Longrightarrow> ok (bfunc b) x \<Longrightarrow> list_all (ok (bfunc b)) as \<Longrightarrow> 
     mir_build_call_indirect b x as ty = Some (b', v) \<Longrightarrow> builder_step ok b b'"
| b_call_virtual: "ids_left (bfunc b) \<Longrightarrow> ok (bfunc b) x \<Longrightarrow> list_all (ok (bfunc b)) as \<Longrightarrow> 
     mir_build_call_virtual b x k as ty = Some (b', v) \<Longrightarrow> builder_step ok b b'"
| b_phi: "ids_left (bfunc b) \<Longrightarrow> 
     mir_build_phi b ty = Some (b', v) \<Longrightarrow> builder_step ok b b'"
| b_convert: "ids_left (bfunc b) \<Longrightarrow> ok (bfunc b) x \<Longrightarrow> 
     build_convert b unop x ty = Some (b', v) \<Longrightarrow> builder_step ok b b'"
| b_borrow: "ids_left (bfunc b) \<Longrightarrow> ok (bfunc b) x \<Longrightarrow> 
     mir_build_borrow b x = Some (b', v) \<Longrightarrow> builder_step ok b b'"
| b_borrow_mut: "ids_left (bfunc b) \<Longrightarrow> ok (bfunc b) x \<Longrightarrow> 
     mir_build_borrow_mut b x = Some (b', v) \<Longrightarrow> builder_step ok b b'"
| b_move: "ids_left (bfunc b) \<Longrightarrow> ok (bfunc b) x \<Longrightarrow> 
     mir_build_move b x = Some (b', v) \<Longrightarrow> builder_step ok b b'"
| b_drop: "ids_left (bfunc b) \<Longrightarrow> ok (bfunc b) x \<Longrightarrow> 
     mir_build_drop b x = Some b' \<Longrightarrow> builder_step ok b b'"
| b_retain: "ids_left (bfunc b) \<Longrightarrow> ok (bfunc b) x \<Longrightarrow> 
     mir_build_arc_retain b x = Some b' \<Longrightarrow> builder_step ok b b'"
| b_release: "ids_left (bfunc b) \<Longrightarrow> ok (bfunc b) x \<Longrightarrow> 
     mir_build_arc_release b x = Some b' \<Longrightarrow> builder_step ok b b'"
| b_obj_alloc: "ids_left (bfunc b) \<Longrightarrow> 
     mir_build_obj_alloc b str k = Some (b', v) \<Longrightarrow> builder_step ok b b'"
| b_struct_init: "ids_left (bfunc b) \<Longrightarrow> list_all (ok (bfunc b)) as \<Longrightarrow> 
     mir_build_struct_init b ty as = Some (b', v) \<Longrightarrow> builder_step ok b b'"
| b_extract: "ids_left (bfunc b) \<Longrightarrow> ok (bfunc b) x \<Longrightarrow> 
     mir_build_extract b x k = Some (b', v) \<Longrightarrow> builder_step ok b b'"
| b_insert: "ids_left (bfunc b) \<Longrightarrow> ok (bfunc b) x \<Longrightarrow> ok (bfunc b) y \<Longrightarrow> 
     mir_build_insert b x k y = Some (b', v) \<Longrightarrow> builder_step ok b b'"
| b_vec_load: "ids_left (bfunc b) \<Longrightarrow> ok (bfunc b) x \<Longrightarrow> 
     mir_build_vec_load b x ty w q = Some (b', v) \<Longrightarrow> builder_step ok b b'"
| b_vec_store: "ids_left (bfunc b) \<Longrightarrow> ok (bfunc b) x \<Longrightarrow> ok (bfunc b) y \<Longrightarrow> 
     mir_build_vec_store b x y ty w q = Some b' \<Longrightarrow> builder_step ok b b'"
| b_vec_broadcast: "ids_left (bfunc b) \<Longrightarrow> ok (bfunc b) x \<Longrightarrow> 
     mir_build_vec_broadcast b x ty w = Some (b', v) \<Longrightarrow> builder_step ok b b'"
| b_vec_binop: "ids_left (bfunc b) \<Longrightarrow> ok (bfunc b) x \<Longrightarrow> ok (bfunc b) y \<Longrightarrow> 
     mir_build_vec_binop b vop x y ty w = Some (b', v) \<Longrightarrow> builder_step ok b b'"
| b_vec_fma: "ids_left (bfunc b) \<Longrightarrow> ok (bfunc b) x \<Longrightarrow> ok (bfunc b) y \<Longrightarrow> ok (bfunc b) z \<Longrightarrow> 
     mir_build_vec_fma b x y z ty w = Some (b', v) \<Longrightarrow> builder_step ok b b'"
| b_vec_reduce_sum: "ids_left (bfunc b) \<Longrightarrow> ok (bfunc b) x \<Longrightarrow> 
     mir_build_vec_reduce_sum b x ty w = Some (b', v) \<Longrightarrow> builder_step ok b b'"
| b_vec_dot: "ids_left (bfunc b) \<Longrightarrow> ok (bfunc b) x \<Longrightarrow> ok (bfunc b) y \<Longrightarrow> 
     mir_build_vec_dot b x y ty w = Some (b', v) \<Longrightarrow> builder_step ok b b'"
| b_vec_cmp: "ids_left (bfunc b) \<Longrightarrow> ok (bfunc b) x \<Longrightarrow> ok (bfunc b) y \<Longrightarrow> 
     mir_build_vec_cmp b vop x y ty w = Some (b', v) \<Longrightarrow> builder_step ok b b'"
| b_vec_select: "ids_left (bfunc b) \<Longrightarrow> ok (bfunc b) x \<Longrightarrow> ok (bfunc b) y \<Longrightarrow> ok (bfunc b) z \<Longrightarrow> 
     mir_build_vec_select b x y z ty w = Some (b', v) \<Longrightarrow> builder_step ok b b'"

lemmas emit_simps =
  mir_build_const_int_def mir_build_const_float_def mir_build_const_bool_def mir_build_const_string_def
  mir_build_const_func_def mir_build_const_null_def mir_build_global_addr_def build_binary_def
  mir_build_neg_def mir_build_fneg_def mir_build_not_def build_cmp_def mir_build_alloca_def
  mir_build_load_def mir_build_store_def mir_build_get_field_ptr_def mir_build_get_elem_ptr_def
  mir_build_ret_def mir_build_ret_void_def mir_build_call_def mir_build_call_indirect_def
  mir_build_call_virtual_def mir_build_phi_def build_convert_def mir_build_borrow_def
  mir_build_borrow_mut_def mir_build_move_def mir_build_drop_def mir_build_arc_retain_def
  mir_build_arc_release_def mir_build_obj_alloc_def mir_build_struct_init_def mir_build_extract_def
  mir_build_insert_def mir_build_vec_load_def mir_build_vec_store_def mir_build_vec_broadcast_def
  mir_build_vec_binop_def mir_build_vec_fma_def mir_build_vec_reduce_sum_def mir_build_vec_dot_def
  mir_build_vec_cmp_def mir_build_vec_select_def alloc_vec_inst_def

lemma alloc_inst_sel [simp]:
  "iop (alloc_inst opc ty) = opc" "result (alloc_inst opc ty) = MIR_VALUE_NONE" "itype (alloc_inst opc ty) = ty"
  by (simp_all add: alloc_inst_def)

lemma intern_in_eq:
  "intern_in b mk = (b\<lparr>bmodule := fst (mk (bmodule b))\<rparr>, Some (snd (mk (bmodule b))))"
  by (simp add: intern_in_def split_beta)

section \<open>Invariants of construction\<close>

text \<open>The result of an emission is no value, or a new one.\<close>

definition fresh_or_none :: "MirFunction \<Rightarrow> MirTypeP \<Rightarrow> MirFunction \<Rightarrow> MirValueId \<Rightarrow> bool" where
  "fresh_or_none f ty f1 v \<longleftrightarrow> (f1, v) = (f, MIR_VALUE_NONE) \<or> mir_function_new_value f ty = (f1, v)"

lemma fresh_or_none_facts:
  assumes "fresh_or_none f ty f1 v" and "values_wf f" and "ids_left f"
  shows "values_wf f1" and "operand_ok f x \<Longrightarrow> operand_ok f1 x"
    and "mir_vid_defined f x \<Longrightarrow> mir_vid_defined f1 x" and "mir_vid_defined f1 v"
    and "inst_ok f i \<Longrightarrow> inst_ok f1 i"
    and "blocks f1 = blocks f" "block_list f1 = block_list f" "entry_block f1 = entry_block f"
      "block_count f1 = block_count f" "is_extern f1 = is_extern f"
  using assms new_value_mono[of f ty f1 v]
  by (auto simp: fresh_or_none_def inst_ok_def operands_ok_def mir_vid_defined_def[of f 0])

text \<open>The operands of an emission satisfy the guard of the call, apart from those left empty.\<close>

definition uses_ok :: "(MirFunction \<Rightarrow> MirValueId \<Rightarrow> bool) \<Rightarrow> MirFunction \<Rightarrow> MirOp \<Rightarrow> bool" where
  "uses_ok ok f opc \<longleftrightarrow> (\<forall>v \<in> set (verify_operands opc). v = MIR_VALUE_NONE \<or> ok f v)"

lemma uses_operand_ok [simp]: "uses_ok operand_ok = operands_ok"
  by (auto simp: fun_eq_iff uses_ok_def operands_ok_def)

locale mir_invariant =
  fixes Inv :: "MirFunction \<Rightarrow> bool" and ok :: "MirFunction \<Rightarrow> MirValueId \<Rightarrow> bool"
  assumes ids: "Inv f \<Longrightarrow> values_wf f"
    and add_block: "Inv f \<Longrightarrow> mir_function_add_block f lbl = (f', blk) \<Longrightarrow> Inv f'"
    and emission:
      "Inv f \<Longrightarrow> cb < length (blocks f) \<Longrightarrow> ids_left f \<Longrightarrow> uses_ok ok f (iop i) \<Longrightarrow>
       fresh_or_none f ty f1 v \<Longrightarrow>
       link_all (append_inst f1 cb (i\<lparr>result := v\<rparr>)) cb (branch_targets (iop i)) = Some f' \<Longrightarrow> Inv f'"
    and phi_edge:
      "Inv f \<Longrightarrow> blk < length (blocks f) \<Longrightarrow> k < length (insts (blocks f ! blk)) \<Longrightarrow>
       mir_phi_add_edge (insts (blocks f ! blk) ! k) src x = Some i' \<Longrightarrow> ok f x \<Longrightarrow>
       Inv (set_inst f blk k i')"
begin

definition good :: "MirBuilder \<Rightarrow> bool" where
  "good b \<longleftrightarrow> Inv (bfunc b) \<and> (\<forall>cb. current_block b = Some cb \<longrightarrow> cb < length (blocks (bfunc b)))"

lemma good_module [simp]: "good (b\<lparr>bmodule := m\<rparr>) = good b"
  by (simp add: good_def)

text \<open>The branches of the builder: emit, then link the current block to each target.\<close>

lemma emitted_linked:
  assumes g: "good b" and cb: "current_block b = Some cb"
    and l: "ids_left (bfunc b)" and ops: "uses_ok ok (bfunc b) (iop i)"
    and f: "fresh_or_none (bfunc b) ty f v"
    and link: "link_all (append_inst f cb (i\<lparr>result := v\<rparr>)) cb (branch_targets (iop i)) = Some f'"
  shows "good (b\<lparr>bfunc := f'\<rparr>)"
proof -
  have I: "Inv (bfunc b)" "cb < length (blocks (bfunc b))" using g cb by (auto simp: good_def)
  have "Inv f'" by (rule emission[OF I l ops f link])
  moreover have "length (blocks f') = length (blocks (bfunc b))"
    using link_all_fields[OF link] fresh_or_none_facts(6)[OF f ids[OF I(1)] l] by (simp add: append_inst_def)
  ultimately show ?thesis using I cb by (simp add: good_def)
qed

lemma emit_keeps:
  assumes "emit b i = Some (b', v)" and "good b" and "ids_left (bfunc b)" and "uses_ok ok (bfunc b) (iop i)"
    and "result i = MIR_VALUE_NONE" and "branch_targets (iop i) = []"
  shows "good b'"
proof -
  obtain cb f w where cb: "current_block b = Some cb"
    and fw: "fresh_or_none (bfunc b) (itype i) f w"
    and b': "b' = b\<lparr>bfunc := append_inst f cb (i\<lparr>result := w\<rparr>)\<rparr>"
    using assms(1,5)
    by (auto simp: emit_def append_inst_def fresh_or_none_def split: option.splits prod.splits if_splits)
  show ?thesis unfolding b' by (rule emitted_linked[OF assms(2) cb assms(3,4) fw]) (simp add: assms(6))
qed

lemma emit_void_keeps:
  assumes "emit_void b i = Some b'" and "good b" and "ids_left (bfunc b)" and "uses_ok ok (bfunc b) (iop i)"
    and "branch_targets (iop i) = []"
  shows "good b'"
proof -
  obtain cb where cb: "current_block b = Some cb"
    and b': "b' = b\<lparr>bfunc := append_inst (bfunc b) cb (i\<lparr>result := MIR_VALUE_NONE\<rparr>)\<rparr>"
    using assms(1) by (auto simp: emit_void_def append_inst_def split: option.splits)
  show ?thesis unfolding b'
    by (rule emitted_linked[OF assms(2) cb assms(3,4), of None "bfunc b" MIR_VALUE_NONE])
      (simp_all add: assms(5) fresh_or_none_def)
qed

text \<open>The branching calls: emission followed by the links to their targets.\<close>

lemma link_current_all:
  assumes "current_block b = Some cb"
  shows "link_current b (Some t) = map_option (\<lambda>f. b\<lparr>bfunc := f\<rparr>) (link_all (bfunc b) cb [t])"
  using assms by (simp add: link_current_def)

lemma emit_linked_keeps:
  assumes e: "emit b i = Some (b1, v)" and g: "good b" and l: "ids_left (bfunc b)"
    and ops: "uses_ok ok (bfunc b) (iop i)" and r: "result i = MIR_VALUE_NONE"
    and link: "current_block b = Some cb" "link_all (bfunc b1) cb (branch_targets (iop i)) = Some f'"
  shows "good (b1\<lparr>bfunc := f'\<rparr>)"
proof -
  obtain f w where fw: "fresh_or_none (bfunc b) (itype i) f w"
    and b1: "b1 = b\<lparr>bfunc := append_inst f cb (i\<lparr>result := w\<rparr>)\<rparr>"
    using e r link(1) by (auto simp: emit_def append_inst_def fresh_or_none_def split: option.splits prod.splits if_splits)
  have "good (b\<lparr>bfunc := f'\<rparr>)" by (rule emitted_linked[OF g link(1) l ops fw]) (use link(2) b1 in simp)
  then show ?thesis by (simp add: b1)
qed

lemma emit_void_linked_keeps:
  assumes e: "emit_void b i = Some b1" and g: "good b" and l: "ids_left (bfunc b)"
    and ops: "uses_ok ok (bfunc b) (iop i)"
    and link: "current_block b = Some cb" "link_all (bfunc b1) cb (branch_targets (iop i)) = Some f'"
  shows "good (b1\<lparr>bfunc := f'\<rparr>)"
proof -
  have b1: "b1 = b\<lparr>bfunc := append_inst (bfunc b) cb (i\<lparr>result := MIR_VALUE_NONE\<rparr>)\<rparr>"
    using e link(1) by (auto simp: emit_void_def append_inst_def)
  have "good (b\<lparr>bfunc := f'\<rparr>)"
    by (rule emitted_linked[OF g link(1) l ops, of None "bfunc b" MIR_VALUE_NONE])
      (use link(2) b1 in \<open>simp_all add: fresh_or_none_def\<close>)
  then show ?thesis by (simp add: b1)
qed

lemma br_keeps:
  assumes "mir_build_br b tgt = Some b'" and "good b" and "ids_left (bfunc b)"
  shows "good b'"
proof -
  define b1 where "b1 = b\<lparr>bmodule := fst (mir_type_void (bmodule b))\<rparr>"
  have g: "good b1" "ids_left (bfunc b1)" using assms by (simp_all add: b1_def)
  obtain ty b2 where e: "emit_void b1 (alloc_inst (BR tgt) ty) = Some b2" and l: "link_current b2 tgt = Some b'"
    using assms(1) by (auto simp: mir_build_br_def intern_in_eq Let_def bind_eq_Some_conv b1_def)
  note b = g e
  obtain cb t where t: "tgt = Some t" "current_block b2 = Some cb" "current_block b1 = Some cb"
    using l b(3) by (auto simp: link_current_def link_cfg_def emit_void_def split: option.splits)
  with l obtain f' where f': "link_all (bfunc b2) cb [t] = Some f'" "b' = b2\<lparr>bfunc := f'\<rparr>"
    by (auto simp: link_current_all simp del: link_all.simps)
  show ?thesis unfolding f'(2)
    by (rule emit_void_linked_keeps[OF b(3,1,2) _ t(3)]) (use f'(1) t(1) in \<open>simp_all add: uses_ok_def somes_def map_filter_simps\<close>)
qed

lemma condbr_keeps:
  assumes "mir_build_condbr b x t1 t2 = Some b'" and "good b" and "ids_left (bfunc b)"
    and "ok (bfunc b) x"
  shows "good b'"
proof -
  define b1 where "b1 = b\<lparr>bmodule := fst (mir_type_void (bmodule b))\<rparr>"
  have g: "good b1" "ids_left (bfunc b1)" "ok (bfunc b1) x" using assms by (simp_all add: b1_def)
  obtain ty b2 b3 where e: "emit_void b1 (alloc_inst (CONDBR x t1 t2) ty) = Some b2"
    and l: "link_current b2 t1 = Some b3" "link_current b3 t2 = Some b'"
    using assms(1) by (auto simp: mir_build_condbr_def intern_in_eq Let_def bind_eq_Some_conv b1_def)
  note b = g e
  obtain cb u1 u2 where t: "t1 = Some u1" "t2 = Some u2" "current_block b2 = Some cb" "current_block b1 = Some cb"
    using l b(4) by (auto simp: link_current_def link_cfg_def emit_void_def split: option.splits)
  with l have "\<exists>f'. link_all (bfunc b2) cb [u1, u2] = Some f' \<and> b' = b2\<lparr>bfunc := f'\<rparr>"
    by (auto simp: link_current_def)
  then obtain f' where f': "link_all (bfunc b2) cb [u1, u2] = Some f'" "b' = b2\<lparr>bfunc := f'\<rparr>" by blast
  show ?thesis unfolding f'(2)
    by (rule emit_void_linked_keeps[OF b(4,1,2) _ t(4)])
      (use f'(1) t(1,2) b(3) in \<open>simp_all add: uses_ok_def somes_def map_filter_simps\<close>)
qed

lemma suspend_keeps:
  assumes "mir_build_suspend b tgt x = Some (b', v)" and "good b" and "ids_left (bfunc b)"
    and "ok (bfunc b) x"
  shows "good b'"
proof -
  obtain ty b1 where e: "emit b (alloc_inst (SUSPEND tgt x) ty) = Some (b1, v)" and l: "link_current b1 tgt = Some b'"
    using assms(1) by (auto simp: mir_build_suspend_def bind_eq_Some_conv)
  obtain cb t where t: "tgt = Some t" "current_block b1 = Some cb" "current_block b = Some cb"
    using l e by (auto simp: link_current_def link_cfg_def emit_def split: option.splits prod.splits)
  with l obtain f' where f': "link_all (bfunc b1) cb [t] = Some f'" "b' = b1\<lparr>bfunc := f'\<rparr>"
    by (auto simp: link_current_all simp del: link_all.simps)
  show ?thesis unfolding f'(2)
    by (rule emit_linked_keeps[OF e assms(2,3) _ _ t(3)])
      (use f'(1) t(1) assms(4) in \<open>simp_all add: uses_ok_def somes_def map_filter_simps\<close>)
qed

lemma step_keeps:
  assumes "builder_step ok b b'" and "good b"
  shows "good b'"
  using assms
proof (induction rule: builder_step.induct)
  case (b_set_block blk b)
  then show ?case by (simp add: good_def mir_builder_set_block_def)
next
  case (b_add_block b lbl f' blk)
  then have "length (blocks (bfunc b)) < length (blocks f')" by (auto simp: mir_function_add_block_def Let_def)
  with b_add_block show ?case using add_block by (fastforce simp: good_def)
next
  case (b_phi_add_edge blk b k x src i')
  then show ?case using phi_edge by (simp add: good_def set_inst_def)
next
  case (b_br b tgt b')
  then show ?case using br_keeps by blast
next
  case (b_condbr b x t1 t2 b')
  then show ?case using condbr_keeps by blast
next
  case (b_suspend b x tgt b' v)
  then show ?case using suspend_keeps by blast
qed (auto simp: emit_simps intern_in_eq Let_def uses_ok_def list_all_iff
      split: option.splits if_splits prod.splits dest!: emit_keeps emit_void_keeps)

lemma run_keeps: "(builder_step ok)\<^sup>*\<^sup>* b b' \<Longrightarrow> good b \<Longrightarrow> good b'"
  by (induction rule: rtranclp_induct) (auto intro: step_keeps)

end

section \<open>The effect of linking\<close>

definition same_code :: "MirFunction \<Rightarrow> MirFunction \<Rightarrow> bool" where
  "same_code f g \<longleftrightarrow> length (blocks g) = length (blocks f) \<and> (\<forall>a < length (blocks f).
     insts (blocks g ! a) = insts (blocks f ! a) \<and> bb_id (blocks g ! a) = bb_id (blocks f ! a))"

definition edges_added :: "MirFunction \<Rightarrow> MirFunction \<Rightarrow> bref \<Rightarrow> bref list \<Rightarrow> bool" where
  "edges_added f g cb ts \<longleftrightarrow> (\<forall>a < length (blocks f).
     set (successors (blocks g ! a)) = set (successors (blocks f ! a)) \<union> (if a = cb then set ts else {})
     \<and> set (predecessors (blocks g ! a)) = set (predecessors (blocks f ! a)) \<union> (if a \<in> set ts then {cb} else {})
     \<and> (distinct (successors (blocks f ! a)) \<longrightarrow> distinct (successors (blocks g ! a)))
     \<and> (distinct (predecessors (blocks f ! a)) \<longrightarrow> distinct (predecessors (blocks g ! a))))"

lemma link_cfg_effect:
  assumes "link_cfg f cb (Some t) = Some g" and "cb < length (blocks f)"
  shows "t < length (blocks f) \<and> same_code f g \<and> edges_added f g cb [t]"
proof -
  have t: "t < length (blocks f)"
    and g: "g = upd_block (upd_block f cb (\<lambda>blk. mir_block_add_successor blk t)) t
                 (\<lambda>blk. mir_block_add_predecessor blk cb)"
    using assms(1) by (auto simp: link_cfg_def split: if_splits)
  have b: "blocks g ! a =
      (let s = (if a = cb then mir_block_add_successor (blocks f ! a) t else blocks f ! a)
       in if a = t then mir_block_add_predecessor s cb else s)" if "a < length (blocks f)" for a
    using assms(2) t that by (simp add: g upd_block_def nth_list_update Let_def)
  have len: "length (blocks g) = length (blocks f)" by (simp add: g)
  have "same_code f g"
    unfolding same_code_def using len
    by (simp add: b Let_def mir_block_add_successor_def mir_block_add_predecessor_def)
  moreover have "edges_added f g cb [t]"
    unfolding edges_added_def
    by (simp add: b Let_def mir_block_add_successor_def mir_block_add_predecessor_def insert_absorb)
  ultimately show ?thesis using t by simp
qed

lemma link_all_effect:
  "link_all f cb ts = Some g \<Longrightarrow> cb < length (blocks f) \<Longrightarrow>
   set ts \<subseteq> {..<length (blocks f)} \<and> same_code f g \<and> edges_added f g cb ts"
proof (induction ts arbitrary: f)
  case Nil
  then show ?case by (simp add: same_code_def edges_added_def)
next
  case (Cons t ts)
  then obtain h where h: "link_cfg f cb (Some t) = Some h" "link_all h cb ts = Some g"
    by (auto simp: bind_eq_Some_conv)
  note one = link_cfg_effect[OF h(1) Cons.prems(2)]
  then have len: "length (blocks h) = length (blocks f)" by (simp add: same_code_def)
  have "set ts \<subseteq> {..<length (blocks h)} \<and> same_code h g \<and> edges_added h g cb ts"
    by (rule Cons.IH[OF h(2)]) (use len Cons.prems(2) in simp)
  with one show ?case unfolding same_code_def edges_added_def by auto
qed

lemma add_block_fields:
  assumes "mir_function_add_block f lbl = (f', blk)"
  shows "blk = length (blocks f)" "next_value_id f' = next_value_id f" "value_types f' = value_types f"
    "blocks f' = blocks f @ [\<lparr>bb_id = block_count f, label = lbl, insts = [], inst_count = 0,
       predecessors = [], successors = []\<rparr>]"
    "block_list f' = block_list f @ [length (blocks f)]" "block_count f' = Suc (block_count f)"
    "entry_block f' = (if block_list f = [] then Some (length (blocks f)) else entry_block f)"
  using assms by (auto simp: mir_function_add_block_def Let_def)

section \<open>Value ids: every instruction passes the verifier's id checks\<close>

definition ids_verified :: "MirFunction \<Rightarrow> bool" where
  "ids_verified f \<longleftrightarrow> values_wf f \<and> (\<forall>a < length (blocks f). \<forall>i \<in> set (insts (blocks f ! a)). inst_ok f i)"

lemma phi_edge_ok:
  assumes "mir_phi_add_edge i src x = Some i'" and "inst_ok f i" and "operand_ok f x"
  shows "inst_ok f i'"
  using assms by (auto simp: mir_phi_add_edge_def inst_ok_def operands_ok_def split: MirOp.splits)

lemma phi_edge_targets:
  "mir_phi_add_edge i src x = Some i' \<Longrightarrow> branch_targets (iop i') = branch_targets (iop i)"
  by (auto simp: mir_phi_add_edge_def split: MirOp.splits)

interpretation value_ids: mir_invariant ids_verified operand_ok
proof (unfold_locales, unfold uses_operand_ok)
  fix f f' lbl blk assume a: "ids_verified f" "mir_function_add_block f lbl = (f', blk)"
  have "inst_ok f' i = inst_ok f i" "values_wf f' = values_wf f" for i
    using value_facts_cong(4,5)[OF add_block_fields(2,3)[OF a(2)]] by blast+
  with a add_block_fields[OF a(2)] show "ids_verified f'"
    by (auto simp: ids_verified_def nth_append less_Suc_eq)
next
  fix f cb i ty f1 v f'
  assume a: "ids_verified f" "cb < length (blocks f)" "ids_left f" "operands_ok f (iop i)" "fresh_or_none f ty f1 v"
    and l: "link_all (append_inst f1 cb (i\<lparr>result := v\<rparr>)) cb (branch_targets (iop i)) = Some f'"
  have wf: "values_wf f" using a(1) by (simp add: ids_verified_def)
  note fr = fresh_or_none_facts[OF a(5) wf a(3)]
  have new: "inst_ok f1 (i\<lparr>result := v\<rparr>)" using fr a(4) by (auto simp: inst_ok_def operands_ok_def)
  have c: "same_code (append_inst f1 cb (i\<lparr>result := v\<rparr>)) f'"
    using link_all_effect[OF l] a(2) fr(6) by (simp add: append_inst_def)
  have "inst_ok f' j = inst_ok f1 j" "values_wf f' = values_wf f1" for j
    using link_all_fields[OF l] value_facts_cong[of f' f1] by (simp_all add: append_inst_def)
  then show "ids_verified f'"
    using a c new fr by (auto simp: ids_verified_def same_code_def append_inst_def upd_block_def nth_list_update
        mir_block_append_def)
next
  fix f blk k src x i'
  assume a: "ids_verified f" "blk < length (blocks f)" "k < length (insts (blocks f ! blk))"
    "mir_phi_add_edge (insts (blocks f ! blk) ! k) src x = Some i'" "operand_ok f x"
  then have "inst_ok f i'" using phi_edge_ok by (auto simp: ids_verified_def)
  moreover have "inst_ok (set_inst f blk k i') j = inst_ok f j" "values_wf (set_inst f blk k i') = values_wf f" for j
    using value_facts_cong[of "set_inst f blk k i'" f] by (simp_all add: set_inst_def)
  ultimately show "ids_verified (set_inst f blk k i')"
    using a(1,2) by (auto simp: ids_verified_def set_inst_def upd_block_def nth_list_update
        dest!: set_update_subset_insert[THEN subsetD])
qed (simp add: ids_verified_def)

section \<open>Control flow: the edge lists agree with the code\<close>

definition code_targets :: "MirFunction \<Rightarrow> bref \<Rightarrow> bref set" where
  "code_targets f a = (\<Union>i \<in> set (insts (blocks f ! a)). set (branch_targets (iop i)))"

definition cfg_exact :: "MirFunction \<Rightarrow> bool" where
  "cfg_exact f \<longleftrightarrow>
     block_list f = [0..<length (blocks f)] \<and> block_count f = length (blocks f)
     \<and> entry_block f = (if blocks f = [] then None else Some 0)
     \<and> (\<forall>a < length (blocks f). bb_id (blocks f ! a) = a
          \<and> distinct (successors (blocks f ! a)) \<and> distinct (predecessors (blocks f ! a))
          \<and> code_targets f a \<subseteq> {..<length (blocks f)}
          \<and> set (successors (blocks f ! a)) = code_targets f a
          \<and> set (predecessors (blocks f ! a)) = {b. b < length (blocks f) \<and> a \<in> code_targets f b})"

definition cfg_inv :: "MirFunction \<Rightarrow> bool" where
  "cfg_inv f \<longleftrightarrow> values_wf f \<and> cfg_exact f"

lemma cfg_exact_add_block:
  assumes c: "cfg_exact f" and a: "mir_function_add_block f lbl = (f', blk)"
  shows "cfg_exact f'"
proof -
  note fl = add_block_fields[OF a]
  let ?n = "length (blocks f)"
  have t: "code_targets f' a = (if a < ?n then code_targets f a else {})" if "a \<le> ?n" for a
    using that by (auto simp: code_targets_def fl(4) nth_append)
  have in_n: "code_targets f a \<subseteq> {..<?n}" if "a < ?n" for a using c that by (simp add: cfg_exact_def)
  then have "\<forall>a \<le> ?n. {b. b < Suc ?n \<and> a \<in> code_targets f' b} =
      (if a < ?n then {b. b < ?n \<and> a \<in> code_targets f b} else {})"
    by (auto simp: t less_Suc_eq_le split: if_splits)
  then show ?thesis using c fl(4,5,6,7) t in_n unfolding cfg_exact_def
    by (auto simp: less_Suc_eq nth_append lessThan_Suc split: if_splits)
qed

lemma cfg_exact_cong:
  assumes "blocks g = blocks f" "block_list g = block_list f" "entry_block g = entry_block f"
    "block_count g = block_count f"
  shows "cfg_exact g = cfg_exact f"
  using assms by (simp add: cfg_exact_def code_targets_def)

lemma cfg_exact_append:
  assumes c: "cfg_exact f" and cb: "cb < length (blocks f)"
    and l: "link_all (append_inst f cb i) cb (branch_targets (iop i)) = Some f'"
  shows "cfg_exact f'"
proof -
  let ?n = "length (blocks f)" and ?ts = "branch_targets (iop i)"
  define g where "g = append_inst f cb i"
  have g: "length (blocks g) = ?n"
    "\<And>a. a < ?n \<Longrightarrow> blocks g ! a = (if a = cb then mir_block_append (blocks f ! a) i else blocks f ! a)"
    by (auto simp: g_def append_inst_def upd_block_def nth_list_update)
  have e: "set ?ts \<subseteq> {..<?n}" "same_code g f'" "edges_added g f' cb ?ts"
    using link_all_effect[OF l] cb g(1) by (simp_all add: g_def)
  have t: "code_targets f' a = code_targets f a \<union> (if a = cb then set ?ts else {})" if "a < ?n" for a
    using e(2) that g by (auto simp: code_targets_def same_code_def mir_block_append_def)
  have n: "length (blocks f') = ?n" using e(2) g by (simp add: same_code_def)
  have keep: "block_list f' = block_list f" "block_count f' = block_count f" "entry_block f' = entry_block f"
    using link_all_fields[OF l] by (simp_all add: append_inst_def)
  have blk: "bb_id (blocks f' ! a) = a" "distinct (successors (blocks f' ! a))" "distinct (predecessors (blocks f' ! a))"
    "set (successors (blocks f' ! a)) = code_targets f a \<union> (if a = cb then set ?ts else {})"
    "set (predecessors (blocks f' ! a)) = {b. b < ?n \<and> a \<in> code_targets f b} \<union> (if a \<in> set ?ts then {cb} else {})"
    if a: "a < ?n" for a
    using e(2,3) c a g by (simp_all add: same_code_def edges_added_def cfg_exact_def mir_block_append_def)
  have "blocks f' = [] \<longleftrightarrow> blocks f = []" using n by (metis length_0_conv)
  moreover have "code_targets f a \<subseteq> {..<?n}" if "a < ?n" for a using c that by (simp add: cfg_exact_def)
  ultimately show ?thesis
    using c cb e(1) unfolding cfg_exact_def n keep by (auto simp: t blk split: if_splits)
qed

lemma cfg_exact_set_inst:
  assumes c: "cfg_exact f" and k: "blk < length (blocks f)" "k < length (insts (blocks f ! blk))"
    and i: "branch_targets (iop i') = branch_targets (iop (insts (blocks f ! blk) ! k))"
  shows "cfg_exact (set_inst f blk k i')"
proof -
  have b: "(\<Union>i \<in> set ((insts (blocks f ! blk))[k := i']). set (branch_targets (iop i))) = code_targets f blk"
  proof -
    have "map (\<lambda>i. branch_targets (iop i)) ((insts (blocks f ! blk))[k := i']) = map (\<lambda>i. branch_targets (iop i)) (insts (blocks f ! blk))"
      using k i by (simp add: map_update list_update_same_conv)
    then have "set ` set (map (\<lambda>i. branch_targets (iop i)) ((insts (blocks f ! blk))[k := i'])) =
      set ` set (map (\<lambda>i. branch_targets (iop i)) (insts (blocks f ! blk)))" by simp
    then show ?thesis unfolding code_targets_def by (simp add: image_image)
  qed
  have t: "code_targets (set_inst f blk k i') a = code_targets f a" for a
    using k(1) b unfolding set_inst_def upd_block_def code_targets_def by (cases "a = blk") auto
  have s: "bb_id (blocks (set_inst f blk k i') ! a) = bb_id (blocks f ! a)"
    "successors (blocks (set_inst f blk k i') ! a) = successors (blocks f ! a)"
    "predecessors (blocks (set_inst f blk k i') ! a) = predecessors (blocks f ! a)" for a
    using k(1) by (cases "a = blk"; simp add: set_inst_def upd_block_def)+
  have n: "length (blocks (set_inst f blk k i')) = length (blocks f)"
    "(blocks (set_inst f blk k i') = []) = (blocks f = [])"
    by (simp_all add: set_inst_def upd_block_def)
  show ?thesis using c unfolding cfg_exact_def t s n by (simp add: set_inst_def)
qed

interpretation cfg: mir_invariant cfg_inv ok for ok
proof unfold_locales
  fix f f' lbl blk assume a: "cfg_inv f" "mir_function_add_block f lbl = (f', blk)"
  then show "cfg_inv f'"
    using cfg_exact_add_block[OF _ a(2)] value_facts_cong(4)[OF add_block_fields(2,3)[OF a(2)]]
    by (simp add: cfg_inv_def)
next
  fix f cb i ty f1 v f'
  assume a: "cfg_inv f" "cb < length (blocks f)" "ids_left f" "uses_ok ok f (iop i)" "fresh_or_none f ty f1 v"
    and l: "link_all (append_inst f1 cb (i\<lparr>result := v\<rparr>)) cb (branch_targets (iop i)) = Some f'"
  have wf: "values_wf f" using a(1) by (simp add: cfg_inv_def)
  note fr = fresh_or_none_facts[OF a(5) wf a(3)]
  have "cfg_exact f1" using cfg_exact_cong[of f1 f] a(1) fr by (simp add: cfg_inv_def)
  then have "cfg_exact f'"
    by (rule cfg_exact_append[of _ cb "i\<lparr>result := v\<rparr>"]) (use a(2) fr(6) l in simp_all)
  moreover have "values_wf f' = values_wf f1"
    using link_all_fields[OF l] value_facts_cong(4)[of f' f1] by (simp add: append_inst_def)
  ultimately show "cfg_inv f'" using fr(1) by (simp add: cfg_inv_def)
next
  fix f blk k src x i'
  assume a: "cfg_inv f" "blk < length (blocks f)" "k < length (insts (blocks f ! blk))"
    and p: "mir_phi_add_edge (insts (blocks f ! blk) ! k) src x = Some i'"
  have "values_wf (set_inst f blk k i') = values_wf f"
    by (rule value_facts_cong) (simp_all add: set_inst_def)
  with a cfg_exact_set_inst[OF _ a(2,3) phi_edge_targets[OF p]] show "cfg_inv (set_inst f blk k i')"
    by (simp add: cfg_inv_def)
qed (simp add: cfg_inv_def)

section \<open>Static single assignment\<close>

definition def_at :: "MirFunction \<Rightarrow> MirValueId \<Rightarrow> bref \<Rightarrow> nat \<Rightarrow> bool" where
  "def_at f v a k \<longleftrightarrow> a < length (blocks f) \<and> k < length (insts (blocks f ! a))
     \<and> result (insts (blocks f ! a) ! k) = v"

definition single_assignment :: "MirFunction \<Rightarrow> bool" where
  "single_assignment f \<longleftrightarrow> (\<forall>v. v \<noteq> MIR_VALUE_NONE \<longrightarrow>
     (\<forall>a k. def_at f v a k \<longrightarrow>
        (\<forall>a' k'. def_at f v a' k' \<longrightarrow> a' = a \<and> k' = k) \<and> v \<notin> value_id ` set (params f)))"

definition ids_below :: "MirFunction \<Rightarrow> bool" where
  "ids_below f \<longleftrightarrow> (\<forall>v \<in> value_id ` set (params f). unat v < unat (next_value_id f))
     \<and> (\<forall>v a k. def_at f v a k \<longrightarrow> unat v < unat (next_value_id f))"

definition ssa_inv :: "MirFunction \<Rightarrow> bool" where
  "ssa_inv f \<longleftrightarrow> values_wf f \<and> ids_below f \<and> single_assignment f"

lemma ssa_cong:
  assumes "values_wf g" "\<And>v a k. def_at g v a k = def_at f v a k" "params g = params f"
    "next_value_id g = next_value_id f" "ssa_inv f"
  shows "ssa_inv g"
  using assms by (simp add: ssa_inv_def ids_below_def single_assignment_def)

lemma link_all_params: "link_all f from ts = Some g \<Longrightarrow> params g = params f"
proof (induction ts arbitrary: f)
  case (Cons t ts)
  then obtain h where "link_cfg f from (Some t) = Some h" "link_all h from ts = Some g"
    by (auto simp: bind_eq_Some_conv)
  with Cons.IH[of h] show ?case by (auto simp: link_cfg_def upd_block_def split: if_splits)
qed simp

lemma ssa_emission:
  assumes s: "ssa_inv f" and cb: "cb < length (blocks f)" and l: "ids_left f" and fr: "fresh_or_none f ty f1 v"
    and link: "link_all (append_inst f1 cb (i\<lparr>result := v\<rparr>)) cb (branch_targets (iop i)) = Some f'"
  shows "ssa_inv f'"
proof -
  have wf: "values_wf f" using s by (simp add: ssa_inv_def)
  note ff = fresh_or_none_facts[OF fr wf l]
  have fl: "next_value_id f' = next_value_id f1" "value_types f' = value_types f1" "params f' = params f1"
    using link_all_fields[OF link] link_all_params[OF link] by (simp_all add: append_inst_def upd_block_def)
  have c: "same_code (append_inst f1 cb (i\<lparr>result := v\<rparr>)) f'"
    using link_all_effect[OF link] cb ff(6) by (simp add: append_inst_def)
  have d: "def_at f' x a k \<longleftrightarrow> def_at f x a k \<or> a = cb \<and> k = length (insts (blocks f ! cb)) \<and> x = v" for x a k
  proof -
    have "insts (blocks f' ! a) = insts (blocks f ! a) @ (if a = cb then [i\<lparr>result := v\<rparr>] else [])"
      if "a < length (blocks f)"
      using c cb that by (auto simp: same_code_def append_inst_def upd_block_def mir_block_append_def ff(6)
          nth_list_update)
    moreover have "length (blocks f') = length (blocks f)"
      using c by (simp add: same_code_def append_inst_def ff(6))
    ultimately show ?thesis using cb by (cases "a = cb") (auto simp: def_at_def nth_append less_Suc_eq)
  qed
  have n: "v = MIR_VALUE_NONE \<and> next_value_id f1 = next_value_id f
      \<or> v = next_value_id f \<and> unat (next_value_id f1) = Suc (unat (next_value_id f))"
    and pf: "params f1 = params f"
    using fr new_value_frame[of f ty f1 v] new_value_spec[OF wf, of ty f1 v] l unat_Suc32[of "next_value_id f"]
    by (auto simp: fresh_or_none_def ids_left_def)
  have pos: "0 < unat (next_value_id f)" using wf by (simp add: values_wf_def)
  have low: "\<And>p. p \<in> set (params f) \<Longrightarrow> unat (value_id p) < unat (next_value_id f)"
    "\<And>x a k. def_at f x a k \<Longrightarrow> unat x < unat (next_value_id f)"
    using s by (auto simp: ssa_inv_def ids_below_def)
  have "unat x < unat (next_value_id f')" if "x = v \<or> unat x < unat (next_value_id f)" for x
    using that n pos by (auto simp: fl)
  then have "ids_below f'" unfolding ids_below_def d by (auto simp: fl(3) pf low)
  moreover have "single_assignment f'"
  proof -
    have old: "x \<noteq> v" if "x \<noteq> MIR_VALUE_NONE" "unat x < unat (next_value_id f)" for x using n that by auto
    have "single_assignment f" using s by (simp add: ssa_inv_def)
    then show ?thesis
      unfolding single_assignment_def fl(3) pf d using old low by (metis (no_types, lifting) imageE)
  qed
  moreover have "values_wf f'" using ff(1) value_facts_cong(4)[of f' f1] fl by simp
  ultimately show ?thesis by (simp add: ssa_inv_def)
qed

lemma ssa_add_block:
  assumes "ssa_inv f" and a: "mir_function_add_block f lbl = (f', blk)"
  shows "ssa_inv f'"
proof (rule ssa_cong[OF _ _ _ _ assms(1)])
  show "params f' = params f" using a by (auto simp: mir_function_add_block_def Let_def)
  show "def_at f' v b k = def_at f v b k" for v b k
    by (auto simp: def_at_def add_block_fields(4)[OF a] nth_append less_Suc_eq)
  show "values_wf f'"
    using value_facts_cong(4)[OF add_block_fields(2,3)[OF a]] assms(1) by (simp add: ssa_inv_def)
  show "next_value_id f' = next_value_id f" by (rule add_block_fields(2)[OF a])
qed

lemma ssa_set_inst:
  assumes "ssa_inv f" and k: "blk < length (blocks f)" "k < length (insts (blocks f ! blk))"
    and i: "result i' = result (insts (blocks f ! blk) ! k)"
  shows "ssa_inv (set_inst f blk k i')"
proof (rule ssa_cong[OF _ _ _ _ assms(1)])
  show "def_at (set_inst f blk k i') v b m = def_at f v b m" for v b m
    using k i by (cases "b = blk"; cases "m = k") (simp_all add: def_at_def set_inst_def upd_block_def)
  have "values_wf (set_inst f blk k i') = values_wf f"
    by (rule value_facts_cong) (simp_all add: set_inst_def)
  then show "values_wf (set_inst f blk k i')" using assms(1) by (simp add: ssa_inv_def)
qed (simp_all add: set_inst_def upd_block_def)

interpretation ssa: mir_invariant ssa_inv ok for ok
proof unfold_locales
  fix f blk k src x i'
  assume a: "ssa_inv f" "blk < length (blocks f)" "k < length (insts (blocks f ! blk))"
    and p: "mir_phi_add_edge (insts (blocks f ! blk) ! k) src x = Some i'"
  have "result i' = result (insts (blocks f ! blk) ! k)"
    using p by (auto simp: mir_phi_add_edge_def split: MirOp.splits)
  then show "ssa_inv (set_inst f blk k i')" by (rule ssa_set_inst[OF a])
next
  fix f cb i ty f1 v f'
  assume "ssa_inv f" "cb < length (blocks f)" "ids_left f" "fresh_or_none f ty f1 v"
    "link_all (append_inst f1 cb (i\<lparr>result := v\<rparr>)) cb (branch_targets (iop i)) = Some f'"
  then show "ssa_inv f'" by (rule ssa_emission)
next
  show "ssa_inv f \<Longrightarrow> values_wf f" for f by (simp add: ssa_inv_def)
next
  show "ssa_inv f \<Longrightarrow> mir_function_add_block f lbl = (f', blk) \<Longrightarrow> ssa_inv f'" for f lbl f' blk
    by (rule ssa_add_block)
qed

section \<open>What a finished function satisfies\<close>

lemma add_params_fields:
  "blocks (add_params f ps) = blocks f \<and> block_list (add_params f ps) = block_list f
   \<and> block_count (add_params f ps) = block_count f \<and> entry_block (add_params f ps) = entry_block f
   \<and> is_extern (add_params f ps) = is_extern f"
proof (induction ps arbitrary: f)
  case (Cons p ps)
  obtain n t where p: "p = (n, t)" by fastforce
  obtain g v where g: "mir_function_new_value f t = (g, v)" by fastforce
  then have "blocks g = blocks f" "block_list g = block_list f" "block_count g = block_count f"
    "entry_block g = entry_block f" "is_extern g = is_extern f"
    by (auto simp: mir_function_new_value_def Let_def)
  then show ?case by (simp add: p g Cons.IH)
qed simp

lemma add_params_next:
  "unat (next_value_id f) + length ps < 2 ^ 31 \<Longrightarrow>
   unat (next_value_id (add_params f ps)) = unat (next_value_id f) + length ps"
proof (induction ps arbitrary: f)
  case (Cons p ps)
  obtain n t where p: "p = (n, t)" by fastforce
  obtain g v where g: "mir_function_new_value f t = (g, v)" by fastforce
  have "unat (next_value_id g) = Suc (unat (next_value_id f))"
    using new_value_frame(3)[OF g] unat_Suc32[of "next_value_id f"] Cons.prems by simp
  then show ?case using Cons.IH[of "g\<lparr>params := params g @ [\<lparr>pname = n, ptype = t, value_id = v\<rparr>]\<rparr>"] Cons.prems
    by (simp add: p g)
qed simp

text \<open>A function under construction: made by the module, then changed by builder calls only.\<close>

definition built :: "MirModule \<Rightarrow> string \<Rightarrow> MirTypeP \<Rightarrow> (string \<times> MirTypeP) list \<Rightarrow> MirBuilder \<Rightarrow> bool" where
  "built m name ret ps b \<longleftrightarrow> length ps < 2 ^ 31 - 1
     \<and> (case mir_module_add_function m name ret ps of (m', f) \<Rightarrow> (builder_step operand_ok)\<^sup>*\<^sup>* (mir_builder_init m' f) b)"

lemma built_invs:
  assumes "built m name ret ps b"
  shows "ids_verified (bfunc b)" and "cfg_inv (bfunc b)" and "ssa_inv (bfunc b)"
proof -
  obtain m' f where mf: "mir_module_add_function m name ret ps = (m', f)"
    and run: "(builder_step operand_ok)\<^sup>*\<^sup>* (mir_builder_init m' f) b" and len: "length ps < 2 ^ 31 - 1"
    using assms by (auto simp: built_def)
  define f0 where "f0 = \<lparr>fname = name, return_type = ret, params = [], entry_block = None,
                block_list = [], blocks = [], block_count = 0, next_value_id = 1,
                value_types = replicate 64 None, is_constexpr = False, is_extern = False,
                is_async = False\<rparr>"
  have f: "f = add_params f0 ps" using mf by (auto simp: mir_module_add_function_def Let_def f0_def)
  have "values_wf f0" by (simp add: f0_def values_wf_def)
  note sp = add_params_spec[OF this, of ps]
  have wf: "values_wf f" using sp len by (simp add: f f0_def)
  obtain new where new: "params f = new" "length new = length ps" "\<forall>i < length ps. unat (value_id (new ! i)) = Suc i"
    using sp len by (auto simp: f f0_def)
  have nx: "unat (next_value_id f) = Suc (length ps)" using add_params_next[of f0 ps] len by (simp add: f f0_def)
  have none: "blocks f = []" "block_list f = []" "block_count f = 0" "entry_block f = None"
    using add_params_fields[of f0 ps] by (simp_all add: f f0_def)
  have iv: "ids_verified f" using wf none by (simp add: ids_verified_def)
  have cf: "cfg_inv f" using wf none by (simp add: cfg_inv_def cfg_exact_def)
  have sa: "ssa_inv f"
    using wf none new nx by (auto simp: ssa_inv_def ids_below_def single_assignment_def def_at_def in_set_conv_nth)
  have init: "bfunc (mir_builder_init m' f) = f" "current_block (mir_builder_init m' f) = None"
    by (simp_all add: mir_builder_init_def)
  show "ids_verified (bfunc b)"
    using value_ids.run_keeps[OF run] iv by (simp add: value_ids.good_def init)
  show "cfg_inv (bfunc b)" using cfg.run_keeps[OF run] cf by (simp add: cfg.good_def init)
  show "ssa_inv (bfunc b)" using ssa.run_keeps[OF run] sa by (simp add: ssa.good_def init)
qed

section \<open>Clients that pass on what the builder returned\<close>

text \<open>
  A client that follows the protocol uses as operands only parameters and the values that earlier
  calls returned, and as types only types of the module.
\<close>

definition known :: "MirFunction \<Rightarrow> MirValueId \<Rightarrow> bool" where
  "known f x \<longleftrightarrow> x \<noteq> MIR_VALUE_NONE
     \<and> (x \<in> value_id ` set (params f) \<or> (\<exists>a < length (blocks f). \<exists>i \<in> set (insts (blocks f ! a)). result i = x))"

text \<open>Every operand of the code is known.\<close>

definition uses_known :: "MirFunction \<Rightarrow> bool" where
  "uses_known f \<longleftrightarrow> values_wf f \<and> (\<forall>a < length (blocks f). \<forall>i \<in> set (insts (blocks f ! a)). uses_ok known f (iop i))"

lemma known_mono:
  assumes "params g = params f" and "length (blocks f) \<le> length (blocks g)"
    and "\<And>a. a < length (blocks f) \<Longrightarrow> result ` set (insts (blocks f ! a)) \<subseteq> result ` set (insts (blocks g ! a))"
  shows "known f x \<Longrightarrow> known g x" and "uses_ok known f p \<Longrightarrow> uses_ok known g p"
proof -
  show k: "known g x" if x: "known f x" for x
  proof (cases "x \<in> value_id ` set (params f)")
    case False
    then obtain a i where a: "a < length (blocks f)" "i \<in> set (insts (blocks f ! a))" "result i = x" using x by (auto simp: known_def)
    then have "x \<in> result ` set (insts (blocks g ! a))" using assms(3)[OF a(1)] by blast
    then obtain i' where "i' \<in> set (insts (blocks g ! a))" "result i' = x" by blast
    moreover have "a < length (blocks g)" "x \<noteq> MIR_VALUE_NONE" using a(1) assms(2) x by (simp_all add: known_def)
    ultimately show ?thesis unfolding known_def by blast
  qed (use x assms(1) in \<open>simp add: known_def\<close>)
  show "uses_ok known f p \<Longrightarrow> uses_ok known g p" using k by (auto simp: uses_ok_def)
qed

interpretation client: mir_invariant uses_known known
proof unfold_locales
  fix f f' lbl blk assume a: "uses_known f" "mir_function_add_block f lbl = (f', blk)"
  have p: "params f' = params f" using a(2) by (auto simp: mir_function_add_block_def Let_def)
  have u: "uses_ok known f q \<Longrightarrow> uses_ok known f' q" for q
    by (rule known_mono(2)[OF p]) (auto simp: add_block_fields(4)[OF a(2)] nth_append)
  show "uses_known f'"
    using a(1) u value_facts_cong(4)[OF add_block_fields(2,3)[OF a(2)]]
    by (auto simp: uses_known_def add_block_fields(4)[OF a(2)] nth_append less_Suc_eq)
next
  fix f cb i ty f1 v f'
  assume a: "uses_known f" "cb < length (blocks f)" "ids_left f" "uses_ok known f (iop i)" "fresh_or_none f ty f1 v"
    and l: "link_all (append_inst f1 cb (i\<lparr>result := v\<rparr>)) cb (branch_targets (iop i)) = Some f'"
  have wf: "values_wf f" using a(1) by (simp add: uses_known_def)
  note fr = fresh_or_none_facts[OF a(5) wf a(3)]
  have c: "same_code (append_inst f1 cb (i\<lparr>result := v\<rparr>)) f'"
    using link_all_effect[OF l] a(2) fr(6) by (simp add: append_inst_def)
  have ins: "insts (blocks f' ! b) = insts (blocks f ! b) @ (if b = cb then [i\<lparr>result := v\<rparr>] else [])"
    if "b < length (blocks f)" for b
    using c a(2) that fr(6) by (auto simp: same_code_def append_inst_def upd_block_def nth_list_update mir_block_append_def)
  have len: "length (blocks f') = length (blocks f)" using c fr(6) by (simp add: same_code_def append_inst_def)
  have "params f1 = params f" using a(5) new_value_frame(1)[of f ty f1 v] by (auto simp: fresh_or_none_def)
  then have p: "params f' = params f" using link_all_params[OF l] by (simp add: append_inst_def upd_block_def)
  have u: "uses_ok known f q \<Longrightarrow> uses_ok known f' q" for q
    by (rule known_mono(2)[OF p]) (auto simp: ins len)
  have "values_wf f'" using fr(1) link_all_fields[OF l] value_facts_cong(4)[of f' f1] by (simp add: append_inst_def)
  then show "uses_known f'" using a(1,4) u by (auto simp: uses_known_def ins len split: if_splits)
next
  fix f blk k src x i'
  assume a: "uses_known f" "blk < length (blocks f)" "k < length (insts (blocks f ! blk))"
    and e: "mir_phi_add_edge (insts (blocks f ! blk) ! k) src x = Some i'" and x: "known f x"
  let ?g = "set_inst f blk k i'"
  have old: "uses_ok known f (iop (insts (blocks f ! blk) ! k))" using a by (simp add: uses_known_def)
  have i': "uses_ok known f (iop i')" "result i' = result (insts (blocks f ! blk) ! k)"
    using e old x by (auto simp: mir_phi_add_edge_def uses_ok_def split: MirOp.splits)
  have ins: "insts (blocks ?g ! b) = (if b = blk then (insts (blocks f ! b))[k := i'] else insts (blocks f ! b))" for b
    using a(2) by (cases "b = blk") (simp_all add: set_inst_def upd_block_def)
  have "map result ((insts (blocks f ! blk))[k := i']) = map result (insts (blocks f ! blk))"
    using i'(2) a(3) by (simp add: map_update list_update_same_conv)
  then have "result ` set ((insts (blocks f ! blk))[k := i']) = result ` set (insts (blocks f ! blk))" by (metis set_map)
  then have r: "result ` set (insts (blocks f ! b)) \<subseteq> result ` set (insts (blocks ?g ! b))" for b by (simp add: ins)
  have f: "params ?g = params f" "length (blocks ?g) = length (blocks f)" "values_wf ?g = values_wf f"
    using value_facts_cong(4)[of ?g f] by (simp_all add: set_inst_def upd_block_def)
  have u: "uses_ok known f q \<Longrightarrow> uses_ok known ?g q" for q by (rule known_mono(2)) (use f r in simp_all)
  have "uses_ok known f (iop j)" if "b < length (blocks f)" "j \<in> set (insts (blocks ?g ! b))" for b j
    using that a(1,2) i'(1) by (auto simp: ins uses_known_def dest!: set_update_subset_insert[THEN subsetD] split: if_splits)
  then show "uses_known ?g" using a(1) u f by (simp add: uses_known_def)
qed (simp add: uses_known_def)

definition types_in_cache :: "MirBuilder \<Rightarrow> bool" where
  "types_in_cache b \<longleftrightarrow> (\<forall>a < length (blocks (bfunc b)). \<forall>i \<in> set (insts (blocks (bfunc b) ! a)).
     \<forall>t. itype i = Some t \<longrightarrow> t < length (type_cache (bmodule b)))"

lemma types_in_cache_eq:
  "types_in_cache b \<longleftrightarrow> (\<forall>a < length (blocks (bfunc b)). \<forall>i \<in> set (insts (blocks (bfunc b) ! a)).
     case itype i of None \<Rightarrow> True | Some t \<Rightarrow> t < length (type_cache (bmodule b)))"
  unfolding types_in_cache_def by (simp split: option.splits)

definition client_step :: "MirBuilder \<Rightarrow> MirBuilder \<Rightarrow> bool" where
  "client_step b b' \<longleftrightarrow> builder_step known b b' \<and> types_in_cache b'"

definition client_built :: "MirModule \<Rightarrow> string \<Rightarrow> MirTypeP \<Rightarrow> (string \<times> MirTypeP) list \<Rightarrow> MirBuilder \<Rightarrow> bool" where
  "client_built m name ret ps b \<longleftrightarrow> length ps < 2 ^ 31 - 1 \<and> (\<forall>p \<in> set ps. snd p \<noteq> None)
     \<and> (case mir_module_add_function m name ret ps of (m', f) \<Rightarrow> client_step\<^sup>*\<^sup>* (mir_builder_init m' f) b)"

text \<open>
  The values: an instruction has a result exactly when its type is not void, and the value table gives
  the result that type; parameters have a type.
\<close>

definition inst_typed :: "MirType list \<Rightarrow> MirFunction \<Rightarrow> MirInst \<Rightarrow> bool" where
  "inst_typed c f i \<longleftrightarrow> (result i \<noteq> MIR_VALUE_NONE \<longleftrightarrow> has_value c (itype i))
     \<and> (result i \<noteq> MIR_VALUE_NONE \<longrightarrow> unat (result i) < unat (next_value_id f) \<and> mir_function_value_type f (result i) = itype i)"

definition client_inv :: "MirBuilder \<Rightarrow> bool" where
  "client_inv b \<longleftrightarrow> values_wf (bfunc b) \<and> types_in_cache b
     \<and> (\<forall>p \<in> set (params (bfunc b)). unat (value_id p) < unat (next_value_id (bfunc b))
          \<and> mir_function_value_type (bfunc b) (value_id p) \<noteq> None)
     \<and> (\<forall>a < length (blocks (bfunc b)). \<forall>i \<in> set (insts (blocks (bfunc b) ! a)). inst_typed (type_cache (bmodule b)) (bfunc b) i)"

lemma known_operand:
  assumes "client_inv b" and "known (bfunc b) x"
  shows "operand_ok (bfunc b) x"
proof -
  have wf: "values_wf (bfunc b)" using assms(1) by (simp add: client_inv_def)
  have x: "unat x < unat (next_value_id (bfunc b)) \<and> mir_function_value_type (bfunc b) x \<noteq> None"
  proof (cases "x \<in> value_id ` set (params (bfunc b))")
    case True
    then show ?thesis using assms(1) by (auto simp: client_inv_def)
  next
    case False
    then obtain a i where i: "a < length (blocks (bfunc b))" "i \<in> set (insts (blocks (bfunc b) ! a))" "result i = x"
      "x \<noteq> MIR_VALUE_NONE" using assms(2) by (auto simp: known_def)
    then have "inst_typed (type_cache (bmodule b)) (bfunc b) i" using assms(1) by (simp add: client_inv_def)
    then show ?thesis using i by (auto simp: inst_typed_def has_value_def split: option.splits)
  qed
  have "sint x = int (unat x)" "sint (next_value_id (bfunc b)) = int (unat (next_value_id (bfunc b)))"
    using wf x by (simp_all add: values_wf_def sint_small)
  then show ?thesis
    using x by (auto simp: operand_ok_def mir_verify_value_ids_operand_def mir_vid_defined_def simp del: of_nat_unat)
qed

subsection \<open>Interning types keeps the values\<close>

definition cache_grows :: "MirModule \<Rightarrow> MirModule \<Rightarrow> bool" where
  "cache_grows m m' \<longleftrightarrow> (\<exists>ts. type_cache m' = type_cache m @ ts)"

lemma intern_grows [simp]:
  "cache_grows m (fst (type_intern m p t))" "cache_grows m (fst (mir_intern_primitive m k))"
  "cache_grows m (fst (mir_type_ptr m ty))" "cache_grows m (fst (mir_type_ref m ty mu))"
  "cache_grows m (fst (mir_type_void m))" "cache_grows m (fst (mir_type_bool m))" "cache_grows m (fst (ptr_to_i8 m))"
proof -
  show i: "cache_grows m (fst (type_intern m p t))" for m p t
    by (auto simp: cache_grows_def type_intern_def type_cache_add_def split: option.splits)
  show p: "cache_grows m (fst (mir_intern_primitive m k))" "cache_grows m (fst (mir_type_ptr m ty))"
    "cache_grows m (fst (mir_type_ref m ty mu))" for m k ty mu
    by (simp_all only: mir_intern_primitive_def mir_type_ptr_def mir_type_ref_def i)
  show "cache_grows m (fst (mir_type_void m))" "cache_grows m (fst (mir_type_bool m))"
    by (simp_all only: mir_type_void_def mir_type_bool_def p)
  have "cache_grows m (fst (mir_type_ptr (fst (mir_intern_primitive m k)) ty))" for k ty
    using p(1)[of m k] p(2)[of "fst (mir_intern_primitive m k)" ty] by (auto simp: cache_grows_def)
  then show "cache_grows m (fst (ptr_to_i8 m))"
    by (simp add: ptr_to_i8_def mir_type_i8_def split_beta)
qed

lemma cache_grows_trans: "cache_grows m m' \<Longrightarrow> cache_grows m' m'' \<Longrightarrow> cache_grows m m''"
  by (auto simp: cache_grows_def)

lemma add_string_grows [simp]: "cache_grows m (fst (mir_module_add_string m str))"
  by (auto simp: cache_grows_def mir_module_add_string_def split: option.splits)

lemma has_value_grows: "t < length c \<Longrightarrow> has_value (c @ ts) (Some t) = has_value c (Some t)"
  by (simp add: has_value_def nth_append)

lemma client_inv_module:
  assumes "client_inv b" and "cache_grows (bmodule b) m"
  shows "client_inv (b\<lparr>bmodule := m\<rparr>)"
proof -
  obtain ts where ts: "type_cache m = type_cache (bmodule b) @ ts" using assms(2) by (auto simp: cache_grows_def)
  have "inst_typed (type_cache m) (bfunc b) i"
    if "a < length (blocks (bfunc b))" "i \<in> set (insts (blocks (bfunc b) ! a))" for a i
  proof -
    have "has_value (type_cache m) (itype i) = has_value (type_cache (bmodule b)) (itype i)"
    proof (cases "itype i")
      case (Some t)
      then have "t < length (type_cache (bmodule b))" using assms(1) that by (auto simp: client_inv_def types_in_cache_def)
      then show ?thesis using Some ts by (simp add: has_value_grows)
    qed (simp add: has_value_def)
    then show ?thesis using assms(1) that by (auto simp: client_inv_def inst_typed_def)
  qed
  moreover have "types_in_cache (b\<lparr>bmodule := m\<rparr>)"
    using assms(1) ts by (fastforce simp: client_inv_def types_in_cache_def)
  ultimately show ?thesis using assms(1) by (simp add: client_inv_def)
qed

lemma void_type: "has_value (type_cache (fst (mir_type_void m))) (Some (snd (mir_type_void m))) = False"
proof (cases "find_index (\<lambda>t. ty_kind t = MIR_TYPE_VOID \<and> \<not> ty_is_compound MIR_TYPE_VOID) (type_cache m)")
  case None
  then show ?thesis by (simp add: mir_type_void_def mir_intern_primitive_def type_intern_def type_cache_add_def has_value_def)
next
  case (Some k)
  then have "ty_kind (type_cache m ! k) = MIR_TYPE_VOID" using find_index_Some by fastforce
  with Some show ?thesis by (simp add: mir_type_void_def mir_intern_primitive_def type_intern_def has_value_def)
qed

subsection \<open>Emission\<close>

lemma client_inv_append:
  assumes b: "client_inv b" and f: "values_wf f" "blocks f = blocks (bfunc b)" "params f = params (bfunc b)"
    and old: "unat (next_value_id (bfunc b)) \<le> unat (next_value_id f)"
      "\<And>v. unat v < unat (next_value_id (bfunc b)) \<Longrightarrow> mir_function_value_type f v = mir_function_value_type (bfunc b) v"
    and i: "inst_typed (type_cache (bmodule b)) f i" and t: "types_in_cache (b\<lparr>bfunc := append_inst f cb i\<rparr>)"
  shows "client_inv (b\<lparr>bfunc := append_inst f cb i\<rparr>)"
proof -
  let ?g = "append_inst f cb i"
  have g: "next_value_id ?g = next_value_id f" "mir_function_value_type ?g v = mir_function_value_type f v" "params ?g = params f" for v
    by (simp_all add: append_inst_def upd_block_def mir_function_value_type_def)
  have wf: "values_wf ?g" using f(1) value_facts_cong(4)[of ?g f] by (simp add: append_inst_def)
  have new: "j = i \<or> j \<in> set (insts (blocks (bfunc b) ! a))" if "a < length (blocks ?g)" "j \<in> set (insts (blocks ?g ! a))" for a j
    using that f(2) by (cases "a = cb") (auto simp: append_inst_def upd_block_def mir_block_append_def)
  have len: "length (blocks ?g) = length (blocks (bfunc b))" using f(2) by (simp add: append_inst_def)
  have keep: "inst_typed (type_cache (bmodule b)) ?g j" if "inst_typed (type_cache (bmodule b)) (bfunc b) j" for j
    using that old by (auto simp: inst_typed_def g)
  have "inst_typed (type_cache (bmodule b)) ?g j" if "a < length (blocks ?g)" "j \<in> set (insts (blocks ?g ! a))" for a j
  proof (cases "j = i")
    case True
    then show ?thesis using i by (simp add: inst_typed_def g)
  next
    case False
    then show ?thesis using new[OF that] keep b that(1) len by (simp add: client_inv_def)
  qed
  moreover have "unat (value_id p) < unat (next_value_id ?g) \<and> mir_function_value_type ?g (value_id p) \<noteq> None"
    if "p \<in> set (params ?g)" for p
  proof -
    have "p \<in> set (params (bfunc b))" using that f(3) g(3) by simp
    then have "unat (value_id p) < unat (next_value_id (bfunc b))" "mir_function_value_type (bfunc b) (value_id p) \<noteq> None"
      using b by (auto simp: client_inv_def)
    then show ?thesis using old by (simp add: g)
  qed
  ultimately show ?thesis using wf t by (simp add: client_inv_def)
qed

lemma client_emit:
  assumes e: "emit b i = Some (b', v)" and b: "client_inv b" and l: "ids_left (bfunc b)" and r: "result i = MIR_VALUE_NONE"
    and t: "types_in_cache b'"
  shows "client_inv b'"
proof -
  let ?c = "type_cache (bmodule b)"
  have wf: "values_wf (bfunc b)" using b by (simp add: client_inv_def)
  obtain cb where cb: "current_block b = Some cb" using e by (auto simp: emit_def split: option.splits)
  show ?thesis
  proof (cases "has_value ?c (itype i)")
    case False
    then have b': "b' = b\<lparr>bfunc := append_inst (bfunc b) cb (i\<lparr>result := MIR_VALUE_NONE\<rparr>)\<rparr>"
      using e cb r by (simp add: emit_def append_inst_def)
    show ?thesis unfolding b'
      by (rule client_inv_append[OF b wf]) (use False t b' in \<open>simp_all add: inst_typed_def\<close>)
  next
    case True
    obtain f w where f: "mir_function_new_value (bfunc b) (itype i) = (f, w)" by fastforce
    have b': "b' = b\<lparr>bfunc := append_inst f cb (i\<lparr>result := w\<rparr>)\<rparr>"
      using e cb True f by (auto simp: emit_def append_inst_def)
    note sp = new_value_spec[OF wf f]
    have n: "unat (next_value_id (bfunc b)) < 2 ^ 31 - 1" using l by (simp add: ids_left_def)
    then have nx: "unat (next_value_id f) = Suc (unat (next_value_id (bfunc b)))"
      using new_value_frame(3)[OF f] unat_Suc32[of "next_value_id (bfunc b)"] by simp
    show ?thesis unfolding b'
    proof (rule client_inv_append[OF b])
      show "values_wf f" using sp n by auto
      show "blocks f = blocks (bfunc b)" by (rule new_value_mono(5)[OF wf l f])
      show "params f = params (bfunc b)" by (rule new_value_frame(1)[OF f])
      show "mir_function_value_type f v = mir_function_value_type (bfunc b) v" if "unat v < unat (next_value_id (bfunc b))" for v
        using sp that by simp
      show "inst_typed ?c f (i\<lparr>result := w\<rparr>)" using sp nx True by (auto simp: inst_typed_def)
    qed (use t b' nx in simp_all)
  qed
qed

lemma client_emit_void:
  assumes e: "emit_void (b\<lparr>bmodule := fst (mir_type_void (bmodule b))\<rparr>) i = Some b'" and b: "client_inv b"
    and ty: "itype i = Some (snd (mir_type_void (bmodule b)))" and t: "types_in_cache b'"
  shows "client_inv b'"
proof -
  let ?b = "b\<lparr>bmodule := fst (mir_type_void (bmodule b))\<rparr>"
  have c: "client_inv ?b" by (rule client_inv_module[OF b]) simp
  obtain cb where b': "b' = ?b\<lparr>bfunc := append_inst (bfunc ?b) cb (i\<lparr>result := MIR_VALUE_NONE\<rparr>)\<rparr>"
    using e by (auto simp: emit_void_def append_inst_def split: option.splits)
  show ?thesis unfolding b'
    by (rule client_inv_append[OF c])
      (use c t b' void_type[of "bmodule b"] ty in \<open>simp_all add: client_inv_def inst_typed_def\<close>)
qed

lemma client_link:
  assumes "link_current b tgt = Some b'"
  shows "client_inv b' = client_inv b" and "types_in_cache b' = types_in_cache b"
proof -
  obtain cb where "link_cfg (bfunc b) cb tgt = Some (bfunc b')" and m: "bmodule b' = bmodule b"
    using assms by (auto simp: link_current_def split: option.splits)
  moreover from this obtain t where "tgt = Some t" by (auto simp: link_cfg_def split: option.splits)
  ultimately have l: "link_cfg (bfunc b) cb (Some t) = Some (bfunc b')" "bmodule b' = bmodule b" by simp_all
  then have g: "bfunc b' = upd_block (upd_block (bfunc b) cb (\<lambda>blk. mir_block_add_successor blk t)) t
      (\<lambda>blk. mir_block_add_predecessor blk cb)" by (auto simp: link_cfg_def split: if_splits)
  have u: "insts (blocks (upd_block f c h) ! a) = insts (blocks f ! a)" if "\<And>x. insts (h x) = insts x" for f c h a
    using that by (cases "a = c"; cases "c < length (blocks f)") (auto simp: upd_block_def list_update_beyond)
  have i: "insts (blocks (bfunc b') ! a) = insts (blocks (bfunc b) ! a)" for a
    unfolding g by (subst u, simp add: mir_block_add_predecessor_def, rule u, simp add: mir_block_add_successor_def)
  have len: "length (blocks (bfunc b')) = length (blocks (bfunc b))" "params (bfunc b') = params (bfunc b)"
    "next_value_id (bfunc b') = next_value_id (bfunc b)" "value_types (bfunc b') = value_types (bfunc b)"
    by (simp_all add: g upd_block_def)
  then have "values_wf (bfunc b') = values_wf (bfunc b)" "mir_function_value_type (bfunc b') v = mir_function_value_type (bfunc b) v" for v
    by (simp_all add: values_wf_def mir_function_value_type_def)
  then show "types_in_cache b' = types_in_cache b" "client_inv b' = client_inv b"
    using i len l(2) by (simp_all add: types_in_cache_def client_inv_def inst_typed_def)
qed

lemma client_inv_cong:
  assumes "client_inv b" and "type_cache (bmodule b') = type_cache (bmodule b)" "value_types (bfunc b') = value_types (bfunc b)"
    "next_value_id (bfunc b') = next_value_id (bfunc b)" "params (bfunc b') = params (bfunc b)"
    and "\<And>a j. a < length (blocks (bfunc b')) \<Longrightarrow> j \<in> set (insts (blocks (bfunc b') ! a)) \<Longrightarrow>
      \<exists>c < length (blocks (bfunc b)). \<exists>i \<in> set (insts (blocks (bfunc b) ! c)). result j = result i \<and> itype j = itype i"
  shows "client_inv b'"
proof -
  have "values_wf (bfunc b') = values_wf (bfunc b)" "mir_function_value_type (bfunc b') v = mir_function_value_type (bfunc b) v" for v
    using assms(3,4) by (simp_all add: values_wf_def mir_function_value_type_def)
  note v = this
  have same: "inst_typed (type_cache (bmodule b)) (bfunc b') j" "itype j = Some t \<Longrightarrow> t < length (type_cache (bmodule b))"
    if a: "a < length (blocks (bfunc b'))" "j \<in> set (insts (blocks (bfunc b') ! a))" for a j t
  proof -
    obtain c i where c: "c < length (blocks (bfunc b))" "i \<in> set (insts (blocks (bfunc b) ! c))" "result j = result i" "itype j = itype i"
      using assms(6)[OF a] by blast
    then have "inst_typed (type_cache (bmodule b)) (bfunc b) i" "itype i = Some t \<Longrightarrow> t < length (type_cache (bmodule b))"
      using assms(1) by (auto simp: client_inv_def types_in_cache_def)
    then show "inst_typed (type_cache (bmodule b)) (bfunc b') j" "itype j = Some t \<Longrightarrow> t < length (type_cache (bmodule b))"
      using c(3,4) v assms(4) by (simp_all add: inst_typed_def)
  qed
  then show ?thesis using assms(1-5) v by (simp add: client_inv_def types_in_cache_def)
qed

lemma phi_edge_same: "mir_phi_add_edge i src x = Some i' \<Longrightarrow> result i' = result i \<and> itype i' = itype i"
  by (auto simp: mir_phi_add_edge_def split: MirOp.splits)

lemma client_step_inv:
  assumes "builder_step ok b b'" and "client_inv b" and "types_in_cache b'"
  shows "client_inv b'"
  using assms
proof (induction rule: builder_step.induct)
  case (b_set_block blk b)
  then show ?case by (simp add: client_inv_def types_in_cache_def mir_builder_set_block_def)
next
  case (b_add_block b lbl f' blk)
  show ?case
  proof (rule client_inv_cong[OF b_add_block(2)])
    show "params (bfunc (b\<lparr>bfunc := f'\<rparr>)) = params (bfunc b)"
      using b_add_block(1) by (auto simp: mir_function_add_block_def Let_def)
    fix a j assume "a < length (blocks (bfunc (b\<lparr>bfunc := f'\<rparr>)))" "j \<in> set (insts (blocks (bfunc (b\<lparr>bfunc := f'\<rparr>)) ! a))"
    then have "a < length (blocks (bfunc b))" "j \<in> set (insts (blocks (bfunc b) ! a))"
      using add_block_fields(4)[OF b_add_block(1)] by (auto simp: nth_append less_Suc_eq split: if_splits)
    then show "\<exists>c < length (blocks (bfunc b)). \<exists>i \<in> set (insts (blocks (bfunc b) ! c)). result j = result i \<and> itype j = itype i" by blast
  qed (use add_block_fields(2,3)[OF b_add_block(1)] in simp_all)
next
  case (b_phi_add_edge blk b k x src i')
  show ?case
  proof (rule client_inv_cong[OF b_phi_add_edge(5)])
    fix a j assume a: "a < length (blocks (bfunc (b\<lparr>bfunc := set_inst (bfunc b) blk k i'\<rparr>)))"
      "j \<in> set (insts (blocks (bfunc (b\<lparr>bfunc := set_inst (bfunc b) blk k i'\<rparr>)) ! a))"
    then have "j = i' \<and> a = blk \<or> j \<in> set (insts (blocks (bfunc b) ! a))"
      by (cases "a = blk") (auto simp: set_inst_def upd_block_def dest: set_update_subset_insert[THEN subsetD])
    then show "\<exists>c < length (blocks (bfunc b)). \<exists>i \<in> set (insts (blocks (bfunc b) ! c)). result j = result i \<and> itype j = itype i"
      using phi_edge_same[OF b_phi_add_edge(4)] nth_mem[OF b_phi_add_edge(2)] b_phi_add_edge(1) a(1) by (auto simp: set_inst_def)
  qed (simp_all add: set_inst_def upd_block_def)
next
  case (b_const_string b addr str b' v)
  let ?m1 = "fst (ptr_to_i8 (bmodule b))"
  have "cache_grows (bmodule b) (fst (mir_module_add_string ?m1 str))"
    by (rule cache_grows_trans[of _ ?m1]) simp_all
  then show ?case
    using client_emit[OF _ client_inv_module[OF b_const_string(3)], of "fst (mir_module_add_string ?m1 str)" _ b' v] b_const_string
    by (simp add: mir_build_const_string_def intern_in_eq Let_def split_beta)
next
  case (b_br b tgt b')
  then obtain y where y: "emit_void (b\<lparr>bmodule := fst (mir_type_void (bmodule b))\<rparr>)
      (alloc_inst (BR tgt) (Some (snd (mir_type_void (bmodule b))))) = Some y" "link_current y tgt = Some b'"
    by (auto simp: mir_build_br_def intern_in_eq Let_def bind_eq_Some_conv)
  show ?case using client_emit_void[OF y(1) b_br(3)] b_br(4) client_link[OF y(2)] by simp
next
  case (b_condbr b x t1 t2 b')
  then obtain y z where y: "emit_void (b\<lparr>bmodule := fst (mir_type_void (bmodule b))\<rparr>)
      (alloc_inst (CONDBR x t1 t2) (Some (snd (mir_type_void (bmodule b))))) = Some y" "link_current y t1 = Some z" "link_current z t2 = Some b'"
    by (auto simp: mir_build_condbr_def intern_in_eq Let_def bind_eq_Some_conv)
  show ?case using client_emit_void[OF y(1) b_condbr(4)] b_condbr(5) client_link[OF y(2)] client_link[OF y(3)] by simp
next
  case (b_suspend b x tgt b' v)
  then obtain y where y: "emit b (alloc_inst (SUSPEND tgt x) (mir_function_value_type (bfunc b) x)) = Some (y, v)" "link_current y tgt = Some b'"
    by (auto simp: mir_build_suspend_def bind_eq_Some_conv)
  show ?case using client_emit[OF y(1) b_suspend(4,1)] b_suspend(5) client_link[OF y(2)] by simp
qed (auto simp: emit_simps intern_in_eq Let_def
      split: option.splits if_splits prod.splits
      intro: client_emit[OF _ client_inv_module] client_emit client_emit_void)

lemma client_built_facts:
  assumes "client_built m name ret ps b"
  shows "client_inv b" "uses_known (bfunc b)" "ssa_inv (bfunc b)"
proof -
  obtain m' f where mf: "mir_module_add_function m name ret ps = (m', f)" and len: "length ps < 2 ^ 31 - 1"
    and typed: "\<forall>p \<in> set ps. snd p \<noteq> None" and run: "client_step\<^sup>*\<^sup>* (mir_builder_init m' f) b"
    using assms by (auto simp: client_built_def)
  let ?b0 = "mir_builder_init m' f"
  have "built m name ret ps ?b0" using len mf by (simp add: built_def)
  note b0 = built_invs[OF this]
  have f0: "bfunc ?b0 = f" "current_block ?b0 = None" by (simp_all add: mir_builder_init_def)
  define f1 where "f1 = \<lparr>fname = name, return_type = ret, params = [], entry_block = None,
                block_list = [], blocks = [], block_count = 0, next_value_id = 1,
                value_types = replicate 64 None, is_constexpr = False, is_extern = False,
                is_async = False\<rparr>"
  have f: "f = add_params f1 ps" using mf by (auto simp: mir_module_add_function_def Let_def f1_def)
  have "values_wf f1" by (simp add: f1_def values_wf_def)
  note sp = add_params_spec[OF this, of ps]
  have "unat (value_id p) < unat (next_value_id f) \<and> mir_function_value_type f (value_id p) \<noteq> None" if p: "p \<in> set (params f)" for p
  proof -
    obtain k where k: "k < length ps" "p = params f ! k" using p sp len by (auto simp: f f1_def in_set_conv_nth)
    then have "mir_function_value_type f (value_id p) = snd (ps ! k)" using sp len by (auto simp: f f1_def)
    moreover have "unat (value_id p) < unat (next_value_id f)" using b0(3) p by (auto simp: f0 ssa_inv_def ids_below_def)
    ultimately show ?thesis using typed k(1) by simp
  qed
  moreover have "blocks f = []" using add_params_fields[of f1 ps] by (simp add: f f1_def)
  ultimately have c0: "client_inv ?b0" using b0(3) by (simp add: client_inv_def types_in_cache_def f0 ssa_inv_def)
  have u0: "uses_known f" using b0(3) \<open>blocks f = []\<close> by (simp add: uses_known_def ssa_inv_def f0)
  have "client_inv b \<and> (builder_step known)\<^sup>*\<^sup>* ?b0 b"
    using run
  proof (induction rule: rtranclp_induct)
    case (step b b')
    then have s: "builder_step known b b'" "types_in_cache b'" by (simp_all add: client_step_def)
    show ?case using client_step_inv[OF s(1) _ s(2)] step.IH rtranclp.rtrancl_into_rtrancl[of "builder_step known" ?b0 b b'] s(1) by blast
  qed (simp add: c0)
  then have inv: "client_inv b" and run': "(builder_step known)\<^sup>*\<^sup>* ?b0 b" by blast+
  show "client_inv b" by (rule inv)
  show "uses_known (bfunc b)" using client.run_keeps[OF run'] u0 by (simp add: client.good_def f0)
  show "ssa_inv (bfunc b)" using ssa.run_keeps[OF run'] b0(3) by (simp add: ssa.good_def f0)
qed

lemma term_succs_targets:
  assumes "a < length (blocks f)"
  shows "set (term_succs f a) \<subseteq> code_targets f a"
proof (cases "insts (blocks f ! a)")
  case (Cons i rest)
  have "set (mir_collect_term_succs opc) \<subseteq> set (branch_targets opc)" for opc by (cases opc) auto
  moreover have "last (i # rest) \<in> set (i # rest)" by (rule last_in_set) simp
  ultimately show ?thesis
    using Cons by (fastforce simp: term_succs_def code_targets_def simp del: last.simps)
qed (simp add: term_succs_def)

lemma cfg_exact_blocks_wf:
  assumes "cfg_exact f"
  shows "blocks_wf f"
proof -
  have "block_ident f a = a" if "a < length (blocks f)" for a
    using assms that by (simp add: cfg_exact_def block_ident_def)
  moreover have "set (term_succs f a) \<subseteq> {..<length (blocks f)}" if "a < length (blocks f)" for a
  proof -
    have "code_targets f a \<subseteq> {..<length (blocks f)}" using assms that by (simp add: cfg_exact_def)
    then show ?thesis using term_succs_targets[OF that] by (rule subset_trans[rotated])
  qed
  moreover have "block_list f = [0..<length (blocks f)]" "block_count f = length (blocks f)"
    "entry_block f = (if blocks f = [] then None else Some 0)"
    using assms by (simp_all add: cfg_exact_def)
  ultimately show ?thesis by (auto simp: blocks_wf_def inj_on_def subset_iff split: if_splits)
qed

text \<open>A small construction, used to instantiate the properties below.\<close>

definition demo_b0 :: MirBuilder where
  "demo_b0 = (case mir_module_add_function (fst (mir_intern_primitive (mir_module_create ''m'') MIR_TYPE_I64))
                     ''f'' (Some 0) [(''x'', Some 0)]
              of (m, f) \<Rightarrow> mir_builder_init m f)"

definition demo_b1 :: MirBuilder where
  "demo_b1 = demo_b0\<lparr>bfunc := fst (mir_function_add_block (fst (mir_function_add_block (bfunc demo_b0) ''entry'')) ''exit'')\<rparr>"

definition demo_b2 :: MirBuilder where
  "demo_b2 = mir_builder_set_block demo_b1 (Some 0)"

definition demo_b3 :: MirBuilder where
  "demo_b3 = fst (the (mir_build_add demo_b2 1 1))"

definition demo_b4 :: MirBuilder where
  "demo_b4 = the (mir_build_br demo_b3 (Some 1))"

definition demo_b5 :: MirBuilder where
  "demo_b5 = mir_builder_set_block demo_b4 (Some 1)"

definition demo_b6 :: MirBuilder where
  "demo_b6 = the (mir_build_ret demo_b5 2)"

lemma demo_next:
  "next_value_id (bfunc demo_b2) = 2" "next_value_id (bfunc demo_b3) = 3" "next_value_id (bfunc demo_b5) = 3"
  by code_simp+

lemma demo_ids_left: "ids_left (bfunc demo_b2)" "ids_left (bfunc demo_b3)" "ids_left (bfunc demo_b5)"
  by (simp_all add: ids_left_def demo_next)

lemma demo_facts:
  "operand_ok (bfunc demo_b2) 1" "operand_ok (bfunc demo_b5) 2"
  "length (blocks (bfunc demo_b1)) = 2" "length (blocks (bfunc demo_b4)) = 2"
  by code_simp+

lemma demo_emits:
  "mir_build_add demo_b2 1 1 \<noteq> None" "mir_build_br demo_b3 (Some 1) \<noteq> None" "mir_build_ret demo_b5 2 \<noteq> None"
  by code_simp+

lemma demo_steps:
  assumes "ok (bfunc demo_b2) 1" and "ok (bfunc demo_b5) 2"
  defines "f \<equiv> fst (mir_function_add_block (bfunc demo_b0) ''entry'')"
  shows "builder_step ok demo_b0 (demo_b0\<lparr>bfunc := f\<rparr>)" "builder_step ok (demo_b0\<lparr>bfunc := f\<rparr>) demo_b1"
    "builder_step ok demo_b1 demo_b2" "builder_step ok demo_b2 demo_b3" "builder_step ok demo_b3 demo_b4"
    "builder_step ok demo_b4 demo_b5" "builder_step ok demo_b5 demo_b6"
proof -
  obtain g blk' where g: "mir_function_add_block f ''exit'' = (g, blk')" by (rule prod.exhaust)
  show "builder_step ok demo_b0 (demo_b0\<lparr>bfunc := f\<rparr>)"
    by (rule b_add_block[of _ "''entry''" _ "snd (mir_function_add_block (bfunc demo_b0) ''entry'')"]) (simp add: f_def)
  have "builder_step ok (demo_b0\<lparr>bfunc := f\<rparr>) ((demo_b0\<lparr>bfunc := f\<rparr>)\<lparr>bfunc := g\<rparr>)"
    using g by (intro b_add_block) simp
  then show "builder_step ok (demo_b0\<lparr>bfunc := f\<rparr>) demo_b1" unfolding demo_b1_def f_def[symmetric] g by simp
  show "builder_step ok demo_b1 demo_b2" unfolding demo_b2_def by (rule b_set_block) (simp add: demo_facts)
  obtain b v where b: "mir_build_add demo_b2 1 1 = Some (b, v)" using demo_emits(1) by (metis option.exhaust surj_pair)
  then show "builder_step ok demo_b2 demo_b3"
    using b_binary[where ok = ok, OF demo_ids_left(1) assms(1) assms(1), of MIR_ADD]
    by (simp add: demo_b3_def mir_build_add_def)
  obtain c where c: "mir_build_br demo_b3 (Some 1) = Some c" using demo_emits(2) by (metis option.exhaust)
  then show "builder_step ok demo_b3 demo_b4" using b_br[OF demo_ids_left(2)] by (simp add: demo_b4_def)
  show "builder_step ok demo_b4 demo_b5" unfolding demo_b5_def by (rule b_set_block) (simp add: demo_facts)
  obtain d where d: "mir_build_ret demo_b5 2 = Some d" using demo_emits(3) by (metis option.exhaust)
  then show "builder_step ok demo_b5 demo_b6"
    using b_ret[where ok = ok, OF demo_ids_left(3) assms(2)] by (simp add: demo_b6_def)
qed

lemma seven_steps:
  assumes "R a b" "R b c" "R c d" "R d e" "R e f" "R f g" "R g h"
  shows "R\<^sup>*\<^sup>* a h"
  using assms by (meson rtranclp.rtrancl_into_rtrancl rtranclp.rtrancl_refl)

lemma demo_start:
  assumes "R\<^sup>*\<^sup>* demo_b0 b"
  shows "case mir_module_add_function (fst (mir_intern_primitive (mir_module_create ''m'') MIR_TYPE_I64)) ''f'' (Some 0) [(''x'', Some 0)]
    of (m', f) \<Rightarrow> R\<^sup>*\<^sup>* (mir_builder_init m' f) b"
  using assms by (simp add: demo_b0_def split_beta)

lemma demo_built:
  "built (fst (mir_intern_primitive (mir_module_create ''m'') MIR_TYPE_I64)) ''f'' (Some 0) [(''x'', Some 0)] demo_b6"
proof -
  note s = demo_steps[where ok = operand_ok, OF demo_facts(1,2)]
  have "(builder_step operand_ok)\<^sup>*\<^sup>* demo_b0 demo_b6" by (rule seven_steps[where R = "builder_step operand_ok", OF s])
  then show ?thesis using demo_start by (simp add: built_def)
qed

lemma demo_client:
  "client_built (fst (mir_intern_primitive (mir_module_create ''m'') MIR_TYPE_I64)) ''f'' (Some 0) [(''x'', Some 0)] demo_b6"
proof -
  have k: "known (bfunc demo_b2) 1" "known (bfunc demo_b5) 2" by code_simp+
  note s = demo_steps[where ok = known, OF k]
  have t: "types_in_cache (demo_b0\<lparr>bfunc := fst (mir_function_add_block (bfunc demo_b0) ''entry'')\<rparr>)" "types_in_cache demo_b1"
    "types_in_cache demo_b2" "types_in_cache demo_b3" "types_in_cache demo_b4" "types_in_cache demo_b5" "types_in_cache demo_b6"
    unfolding types_in_cache_eq by code_simp+
  have c: "client_step demo_b0 (demo_b0\<lparr>bfunc := fst (mir_function_add_block (bfunc demo_b0) ''entry'')\<rparr>)"
    "client_step (demo_b0\<lparr>bfunc := fst (mir_function_add_block (bfunc demo_b0) ''entry'')\<rparr>) demo_b1"
    "client_step demo_b1 demo_b2" "client_step demo_b2 demo_b3" "client_step demo_b3 demo_b4" "client_step demo_b4 demo_b5"
    "client_step demo_b5 demo_b6"
    using s t by (simp_all add: client_step_def)
  have "client_step\<^sup>*\<^sup>* demo_b0 demo_b6" by (rule seven_steps[where R = client_step, OF c])
  then show ?thesis using demo_start by (simp add: client_built_def)
qed

text \<open>
  C14: The control-flow graph the builder maintains is exact.  In a function made by the module and
  changed only by builder calls, every block's successor list holds, without repetition, exactly the
  blocks its branches name, every predecessor list holds exactly the blocks that branch to it, block
  ids are positions in the block list and every branch stays inside the function.
\<close>

theorem builder_cfg_is_exact:
  assumes "built m name ret ps b"
  shows "cfg_exact (bfunc b) \<and> blocks_wf (bfunc b)"
  using built_invs(2)[OF assms] cfg_exact_blocks_wf by (simp add: cfg_inv_def)

theorem builder_cfg_is_exact_witness:
  "successors (blocks (bfunc demo_b6) ! 0) = [1] \<and> predecessors (blocks (bfunc demo_b6) ! 1) = [0]
   \<and> cfg_exact (bfunc demo_b6)"
proof -
  have "successors (blocks (bfunc demo_b6) ! 0) = [1] \<and> predecessors (blocks (bfunc demo_b6) ! 1) = [0]"
    by code_simp
  with builder_cfg_is_exact[OF demo_built] show ?thesis by simp
qed

text \<open>
  C16: A client that passes on only parameters and values that earlier calls returned gets verified code.
  Every operand of every instruction is a parameter or the result of exactly one instruction of the
  function, with a type in the value table, so the verifier's value-id check reports nothing; and an
  instruction defines a value exactly when its type is not void.
\<close>

theorem builder_values_verified:
  assumes "client_built m name ret ps b" and "blk < length (blocks (bfunc b))" and "i \<in> set (insts (blocks (bfunc b) ! blk))"
  shows "mir_verify_inst_value_ids (bfunc b) i = 0
    \<and> (\<forall>x \<in> set (verify_operands (iop i)). x \<noteq> MIR_VALUE_NONE \<longrightarrow>
         x \<in> value_id ` set (params (bfunc b)) \<or> (\<exists>!(a, k). def_at (bfunc b) x a k))
    \<and> (result i \<noteq> MIR_VALUE_NONE \<longleftrightarrow> has_value (type_cache (bmodule b)) (itype i))"
proof -
  note F = client_built_facts[OF assms(1)]
  have one: "x \<in> value_id ` set (params (bfunc b)) \<or> (\<exists>!(a, k). def_at (bfunc b) x a k)" "operand_ok (bfunc b) x"
    if "x \<in> set (verify_operands (iop i))" "x \<noteq> MIR_VALUE_NONE" for x
  proof -
    have k: "known (bfunc b) x" using F(2) assms(2,3) that by (auto simp: uses_known_def uses_ok_def)
    then show "operand_ok (bfunc b) x" by (rule known_operand[OF F(1)])
    have "\<exists>!(a, k). def_at (bfunc b) x a k" if np: "x \<notin> value_id ` set (params (bfunc b))"
    proof -
      obtain a i' where "a < length (blocks (bfunc b))" "i' \<in> set (insts (blocks (bfunc b) ! a))" "result i' = x"
        using k np unfolding known_def by blast
      then obtain k where d: "def_at (bfunc b) x a k" unfolding def_at_def by (metis in_set_conv_nth)
      have "single_assignment (bfunc b)" using F(3) by (simp add: ssa_inv_def)
      note unique = this[unfolded single_assignment_def, rule_format, OF \<open>x \<noteq> MIR_VALUE_NONE\<close> d, THEN conjunct1, rule_format]
      show ?thesis
      proof (rule ex1I[of _ "(a, k)"])
        show "(case (a, k) of (a, k) \<Rightarrow> def_at (bfunc b) x a k)" using d by simp
        fix p assume "case p of (a, k) \<Rightarrow> def_at (bfunc b) x a k"
        then show "p = (a, k)" using unique[of "fst p" "snd p"] by (simp add: split_beta prod_eq_iff)
      qed
    qed
    then show "x \<in> value_id ` set (params (bfunc b)) \<or> (\<exists>!(a, k). def_at (bfunc b) x a k)" by blast
  qed
  have "operand_ok (bfunc b) x" if "x \<in> set (verify_operands (iop i))" for x
    using one(2)[OF that] by (cases "x = MIR_VALUE_NONE") auto
  then have "mir_verify_inst_value_ids (bfunc b) i = 0" by (simp add: mir_verify_inst_value_ids_def operand_ok_def)
  moreover have "inst_typed (type_cache (bmodule b)) (bfunc b) i" using F(1) assms(2,3) by (simp add: client_inv_def)
  ultimately show ?thesis using one(1) by (simp add: inst_typed_def)
qed

theorem builder_values_verified_witness:
  "mir_verify_inst_value_ids (bfunc demo_b6) (insts (blocks (bfunc demo_b6) ! 1) ! 0) = 0
   \<and> (2 \<in> value_id ` set (params (bfunc demo_b6)) \<or> (\<exists>!(a, k). def_at (bfunc demo_b6) 2 a k))"
proof -
  have i: "1 < length (blocks (bfunc demo_b6))" "insts (blocks (bfunc demo_b6) ! 1) ! 0 \<in> set (insts (blocks (bfunc demo_b6) ! 1))"
    "2 \<in> set (verify_operands (iop (insts (blocks (bfunc demo_b6) ! 1) ! 0)))"
    by code_simp+
  have "(2 :: MirValueId) \<noteq> MIR_VALUE_NONE" by simp
  with builder_values_verified[OF demo_client i(1,2)] i(3) show ?thesis by blast
qed

text \<open>
  C15: Builder output is in static single assignment form: no value id is the result of two
  instructions, and none is both a parameter and the result of an instruction.
\<close>

theorem builder_output_is_ssa:
  assumes "built m name ret ps b"
  shows "single_assignment (bfunc b)"
  using built_invs(3)[OF assms] by (simp add: ssa_inv_def)

theorem builder_output_is_ssa_witness:
  "single_assignment (bfunc demo_b6) \<and> def_at (bfunc demo_b6) 2 0 0 \<and> \<not> def_at (bfunc demo_b6) 2 1 0"
proof -
  have d: "def_at (bfunc demo_b6) 2 0 0" by code_simp
  have "(2 :: MirValueId) \<noteq> MIR_VALUE_NONE" by simp
  with d builder_output_is_ssa[OF demo_built] have "\<not> def_at (bfunc demo_b6) 2 1 0"
    unfolding single_assignment_def by fastforce
  with d builder_output_is_ssa[OF demo_built] show ?thesis by blast
qed

end
