(* ===== verification/Mir_Opt.thy ===== *)
theory Mir_Opt
  imports Mir_Verify
begin

text \<open>
  The MIR optimiser of \<^verbatim>\<open>src/compiler/ir/mir_opt.c\<close>: the six passes, the pipeline that
  iterates them, and the removal of unreachable blocks.  The passes rewrite the function in place
  while they walk it, so each model walks the same positions in the same order and every lookup
  (\<^verbatim>\<open>find_def\<close>, \<^verbatim>\<open>count_uses\<close>) reads the function as rewritten so far.  Signed overflow of
  \<^verbatim>\<open>+\<close>, \<^verbatim>\<open>-\<close> and \<^verbatim>\<open>*\<close> wraps; the quotient \<^verbatim>\<open>INT64_MIN / -1\<close> and a \<^verbatim>\<open>NULL\<close> block pointer
  that the code follows stop the process, which is \<open>None\<close>.  The debug-build assertions between the
  passes are compiled out (\<^verbatim>\<open>NDEBUG\<close>).
\<close>

section \<open>Helpers\<close>

definition all_insts :: "MirFunction \<Rightarrow> MirInst list" where
  "all_insts f = concat (map (\<lambda>b. insts (blocks f ! b)) (block_list f))"

definition find_def :: "MirFunction \<Rightarrow> MirValueId \<Rightarrow> MirInst option" where
  "find_def f v = find (\<lambda>i. result i = v) (all_insts f)"

fun used_operands :: "MirOp \<Rightarrow> MirValueId list" where
  "used_operands (BINARY p l r) = [l, r]"
| "used_operands (UNARY p x t) = [x]"
| "used_operands (LOAD p) = [p]"
| "used_operands (STORE p v) = [p, v]"
| "used_operands (GET_FIELD_PTR b i x) = [b, x]"
| "used_operands (GET_ELEM_PTR b i x) = [b, x]"
| "used_operands (CONDBR c t f) = [c]"
| "used_operands (RET v) = [v]"
| "used_operands (SWITCH d cs df) = [d]"
| "used_operands (CALL n as c) = c # as"
| "used_operands (CALL_INDIRECT n as c) = c # as"
| "used_operands (CALL_VIRTUAL s k as) = s # as"
| "used_operands (PHI es) = map snd es"
| "used_operands (TRANSFER p s) = [s]"
| "used_operands (REFOP p x) = [x]"
| "used_operands (STRUCT_INIT fs) = fs"
| "used_operands (EXTRACT a i) = [a]"
| "used_operands (INSERT a i v) = [a, v]"
| "used_operands (VEC p a b c w t) = [a, b, c]"
| "used_operands _ = []"

definition value_used_in_inst :: "MirInst \<Rightarrow> MirValueId \<Rightarrow> bool" where
  "value_used_in_inst i v \<longleftrightarrow> v \<in> set (used_operands (iop i))"

definition count_uses :: "MirFunction \<Rightarrow> MirValueId \<Rightarrow> nat" where
  "count_uses f v = length (filter (\<lambda>i. value_used_in_inst i v) (all_insts f))"

definition subst_id :: "MirValueId \<Rightarrow> MirValueId \<Rightarrow> MirValueId \<Rightarrow> MirValueId" where
  "subst_id old new x = (if x = old then new else x)"

fun replace_value_in_op :: "MirValueId \<Rightarrow> MirValueId \<Rightarrow> MirOp \<Rightarrow> MirOp" where
  "replace_value_in_op o' n (BINARY p l r) = BINARY p (subst_id o' n l) (subst_id o' n r)"
| "replace_value_in_op o' n (UNARY p x t) = UNARY p (subst_id o' n x) t"
| "replace_value_in_op o' n (LOAD p) = LOAD (subst_id o' n p)"
| "replace_value_in_op o' n (STORE p v) = STORE (subst_id o' n p) (subst_id o' n v)"
| "replace_value_in_op o' n (GET_FIELD_PTR b i x) = GET_FIELD_PTR (subst_id o' n b) i (subst_id o' n x)"
| "replace_value_in_op o' n (GET_ELEM_PTR b i x) = GET_ELEM_PTR (subst_id o' n b) i (subst_id o' n x)"
| "replace_value_in_op o' n (CONDBR c t f) = CONDBR (subst_id o' n c) t f"
| "replace_value_in_op o' n (RET v) = RET (subst_id o' n v)"
| "replace_value_in_op o' n (CALL nm as c) = CALL nm (map (subst_id o' n) as) (subst_id o' n c)"
| "replace_value_in_op o' n (CALL_INDIRECT nm as c) =
     CALL_INDIRECT nm (map (subst_id o' n) as) (subst_id o' n c)"
| "replace_value_in_op o' n (PHI es) = PHI (map (\<lambda>(b, v). (b, subst_id o' n v)) es)"
| "replace_value_in_op o' n (TRANSFER p s) = TRANSFER p (subst_id o' n s)"
| "replace_value_in_op o' n (REFOP p x) = REFOP p (subst_id o' n x)"
| "replace_value_in_op o' n (VEC p a b c w t) =
     VEC p (subst_id o' n a) (subst_id o' n b) (subst_id o' n c) w t"
| "replace_value_in_op o' n p = p"

definition replace_value_in_inst :: "MirValueId \<Rightarrow> MirValueId \<Rightarrow> MirInst \<Rightarrow> MirInst" where
  "replace_value_in_inst old new i = i\<lparr>iop := replace_value_in_op old new (iop i)\<rparr>"

definition map_insts :: "(MirInst \<Rightarrow> MirInst) \<Rightarrow> MirBlock \<Rightarrow> MirBlock" where
  "map_insts g blk = blk\<lparr>insts := map g (insts blk)\<rparr>"

definition replace_all_uses :: "MirFunction \<Rightarrow> MirValueId \<Rightarrow> MirValueId \<Rightarrow> MirFunction" where
  "replace_all_uses f old new =
     foldl (\<lambda>g b. upd_block g b (map_insts (replace_value_in_inst old new))) f (block_list f)"

definition remove_inst :: "MirBlock \<Rightarrow> nat \<Rightarrow> MirBlock" where
  "remove_inst blk k =
     blk\<lparr>insts := take k (insts blk) @ drop (Suc k) (insts blk), inst_count := inst_count blk - 1\<rparr>"

text \<open>The positions a pass visits, and reading and writing one.\<close>

definition positions :: "MirFunction \<Rightarrow> (bref \<times> nat) list" where
  "positions f = concat (map (\<lambda>b. map (Pair b) [0..<length (insts (blocks f ! b))]) (block_list f))"

definition inst_at :: "MirFunction \<Rightarrow> bref \<Rightarrow> nat \<Rightarrow> MirInst" where
  "inst_at f b k = insts (blocks f ! b) ! k"

definition set_op :: "MirFunction \<Rightarrow> bref \<Rightarrow> nat \<Rightarrow> MirOp \<Rightarrow> MirFunction" where
  "set_op f b k p =
     upd_block f b (\<lambda>blk. blk\<lparr>insts := (insts blk)[k := (insts blk ! k)\<lparr>iop := p\<rparr>]\<rparr>)"

text \<open>A pass step returns the function and the number of changes it made.\<close>

fun run_steps ::
    "(MirFunction \<Rightarrow> bref \<Rightarrow> nat \<Rightarrow> (MirFunction \<times> nat) option) \<Rightarrow> MirFunction \<Rightarrow> (bref \<times> nat) list \<Rightarrow>
     nat \<Rightarrow> (MirFunction \<times> nat) option" where
  "run_steps st f [] n = Some (f, n)"
| "run_steps st f ((b, k) # ps) n =
     (case st f b k of None \<Rightarrow> None | Some (f', d) \<Rightarrow> run_steps st f' ps (n + d))"

section \<open>Pass 1: constant folding\<close>

definition const_int_def :: "MirFunction \<Rightarrow> MirValueId \<Rightarrow> u64 option" where
  "const_int_def f v =
     (case find_def f v of
        None \<Rightarrow> None
      | Some i \<Rightarrow> (case iop i of CONST_INT w \<Rightarrow> Some w | _ \<Rightarrow> None))"

datatype FoldResult = FoldFault | FoldInvalid | FoldValue u64

fun fold_int :: "MirBinOp \<Rightarrow> u64 \<Rightarrow> u64 \<Rightarrow> FoldResult" where
  "fold_int MIR_ADD l r = FoldValue (l + r)"
| "fold_int MIR_SUB l r = FoldValue (l - r)"
| "fold_int MIR_MUL l r = FoldValue (l * r)"
| "fold_int MIR_DIV l r =
     (if r = 0 then FoldInvalid
      else if sint l = - (2 ^ 63) \<and> sint r = - 1 then FoldFault
      else FoldValue (word_of_int (sint l sdiv sint r)))"
| "fold_int MIR_MOD l r =
     (if r = 0 then FoldInvalid
      else if sint l = - (2 ^ 63) \<and> sint r = - 1 then FoldFault
      else FoldValue (word_of_int (sint l smod sint r)))"
| "fold_int p l r = FoldInvalid"

fun fold_cmp :: "MirBinOp \<Rightarrow> u64 \<Rightarrow> u64 \<Rightarrow> bool option" where
  "fold_cmp MIR_CMP_EQ l r = Some (l = r)"
| "fold_cmp MIR_CMP_NE l r = Some (l \<noteq> r)"
| "fold_cmp MIR_CMP_LT l r = Some (sint l < sint r)"
| "fold_cmp MIR_CMP_LE l r = Some (sint l \<le> sint r)"
| "fold_cmp MIR_CMP_GT l r = Some (sint l > sint r)"
| "fold_cmp MIR_CMP_GE l r = Some (sint l \<ge> sint r)"
| "fold_cmp p l r = None"

definition cf_arith :: "MirFunction \<Rightarrow> bref \<Rightarrow> nat \<Rightarrow> (MirFunction \<times> nat) option" where
  "cf_arith f b k =
     (case iop (inst_at f b k) of
        BINARY p x y \<Rightarrow>
          (case (const_int_def f x, const_int_def f y) of
             (Some l, Some r) \<Rightarrow>
               (case fold_int p l r of
                  FoldFault \<Rightarrow> None
                | FoldInvalid \<Rightarrow> Some (f, 0)
                | FoldValue v \<Rightarrow> Some (set_op f b k (CONST_INT v), 1))
           | _ \<Rightarrow> Some (f, 0))
      | _ \<Rightarrow> Some (f, 0))"

definition cf_cmp :: "MirFunction \<Rightarrow> bref \<Rightarrow> nat \<Rightarrow> (MirFunction \<times> nat) option" where
  "cf_cmp f b k =
     (case iop (inst_at f b k) of
        BINARY p x y \<Rightarrow>
          (case (const_int_def f x, const_int_def f y) of
             (Some l, Some r) \<Rightarrow>
               (case fold_cmp p l r of
                  None \<Rightarrow> Some (f, 0)
                | Some v \<Rightarrow> Some (set_op f b k (CONST_BOOL v), 1))
           | _ \<Rightarrow> Some (f, 0))
      | _ \<Rightarrow> Some (f, 0))"

definition cf_add_zero :: "MirFunction \<Rightarrow> bref \<Rightarrow> nat \<Rightarrow> (MirFunction \<times> nat) option" where
  "cf_add_zero f b k =
     (case iop (inst_at f b k) of
        BINARY p x y \<Rightarrow>
          if (p = MIR_ADD \<or> p = MIR_SUB) \<and> const_int_def f y = Some 0
          then Some (set_op (replace_all_uses f (result (inst_at f b k)) x) b k NOP, 1)
          else Some (f, 0)
      | _ \<Rightarrow> Some (f, 0))"

definition cf_mul :: "MirFunction \<Rightarrow> bref \<Rightarrow> nat \<Rightarrow> (MirFunction \<times> nat) option" where
  "cf_mul f b k =
     (case iop (inst_at f b k) of
        BINARY p x y \<Rightarrow>
          if p = MIR_MUL then
            (case const_int_def f y of
               Some c \<Rightarrow>
                 if c = 1 then Some (set_op (replace_all_uses f (result (inst_at f b k)) x) b k NOP, 1)
                 else if c = 0 then Some (set_op f b k (CONST_INT 0), 1)
                 else Some (f, 0)
             | None \<Rightarrow> Some (f, 0))
          else Some (f, 0)
      | _ \<Rightarrow> Some (f, 0))"

definition then_step ::
    "(MirFunction \<Rightarrow> bref \<Rightarrow> nat \<Rightarrow> (MirFunction \<times> nat) option) \<Rightarrow>
     (MirFunction \<Rightarrow> bref \<Rightarrow> nat \<Rightarrow> (MirFunction \<times> nat) option) \<Rightarrow>
     MirFunction \<Rightarrow> bref \<Rightarrow> nat \<Rightarrow> (MirFunction \<times> nat) option" where
  "then_step s t f b k =
     (case s f b k of
        None \<Rightarrow> None
      | Some (f1, d1) \<Rightarrow> (case t f1 b k of None \<Rightarrow> None | Some (f2, d2) \<Rightarrow> Some (f2, d1 + d2)))"

definition cf_step :: "MirFunction \<Rightarrow> bref \<Rightarrow> nat \<Rightarrow> (MirFunction \<times> nat) option" where
  "cf_step = then_step (then_step (then_step cf_arith cf_cmp) cf_add_zero) cf_mul"

definition mir_pass_constant_fold :: "MirFunction \<Rightarrow> (MirFunction \<times> nat) option" where
  "mir_pass_constant_fold f = run_steps cf_step f (positions f) 0"

section \<open>Pass 2: copy propagation\<close>

definition cp_copy :: "MirFunction \<Rightarrow> bref \<Rightarrow> nat \<Rightarrow> (MirFunction \<times> nat) option" where
  "cp_copy f b k =
     (let i = inst_at f b k
      in case iop i of
           TRANSFER MIR_COPY s \<Rightarrow>
             if result i \<noteq> MIR_VALUE_NONE then Some (replace_all_uses f (result i) s, 1) else Some (f, 0)
         | _ \<Rightarrow> Some (f, 0))"

definition cp_phi :: "MirFunction \<Rightarrow> bref \<Rightarrow> nat \<Rightarrow> (MirFunction \<times> nat) option" where
  "cp_phi f b k =
     (let i = inst_at f b k
      in case iop i of
           PHI ((b0, first) # es) \<Rightarrow>
             if (\<forall>e \<in> set es. snd e = first) \<and> first \<noteq> result i
             then Some (set_op (replace_all_uses f (result i) first) b k NOP, 1)
             else Some (f, 0)
         | _ \<Rightarrow> Some (f, 0))"

definition mir_pass_copy_propagate :: "MirFunction \<Rightarrow> (MirFunction \<times> nat) option" where
  "mir_pass_copy_propagate f = run_steps (then_step cp_copy cp_phi) f (positions f) 0"

section \<open>Pass 3: dead code elimination\<close>

fun has_side_effects :: "MirOp \<Rightarrow> bool" where
  "has_side_effects (STORE p v) = True"
| "has_side_effects (CALL n as c) = True"
| "has_side_effects (CALL_INDIRECT n as c) = True"
| "has_side_effects (CALL_VIRTUAL s k as) = True"
| "has_side_effects (BR t) = True"
| "has_side_effects (CONDBR c t f) = True"
| "has_side_effects (SWITCH d cs df) = True"
| "has_side_effects (RET v) = True"
| "has_side_effects RET_VOID = True"
| "has_side_effects UNREACHABLE = True"
| "has_side_effects (REFOP p x) = True"
| "has_side_effects (OBJ_ALLOC n k) = True"
| "has_side_effects (DEBUGLOC l c) = True"
| "has_side_effects _ = False"

definition is_dead :: "MirFunction \<Rightarrow> MirInst \<Rightarrow> bool" where
  "is_dead f i \<longleftrightarrow> iop i = NOP \<or>
     (result i \<noteq> MIR_VALUE_NONE \<and> \<not> has_side_effects (iop i) \<and> count_uses f (result i) = 0)"

text \<open>
  The inner loop at instruction number \<open>k\<close> with \<open>n\<close> instructions still to visit: a removal leaves
  the next instruction at \<open>k\<close>.
\<close>

fun dce_block :: "MirFunction \<Rightarrow> bref \<Rightarrow> nat \<Rightarrow> nat \<Rightarrow> nat \<Rightarrow> MirFunction \<times> nat" where
  "dce_block f b k 0 ch = (f, ch)"
| "dce_block f b k (Suc n) ch =
     (if is_dead f (inst_at f b k)
      then dce_block (upd_block f b (\<lambda>blk. remove_inst blk k)) b k n (ch + 1)
      else dce_block f b (Suc k) n ch)"

definition mir_pass_dead_code_eliminate :: "MirFunction \<Rightarrow> MirFunction \<times> nat" where
  "mir_pass_dead_code_eliminate f =
     foldl (\<lambda>(g, ch) b. dce_block g b 0 (length (insts (blocks g ! b))) ch) (f, 0) (block_list f)"

section \<open>Pass 4: strength reduction\<close>

definition is_power_of_two :: "u64 \<Rightarrow> bool" where
  "is_power_of_two v \<longleftrightarrow> sint v > 0 \<and> v AND (v - 1) = 0"

fun log2_int :: "nat \<Rightarrow> nat" where
  "log2_int v = (if v > 1 then Suc (log2_int (v div 2)) else 0)"

declare log2_int.simps [simp del]

definition inst_insert_before :: "MirBlock \<Rightarrow> nat \<Rightarrow> MirInst \<Rightarrow> MirBlock" where
  "inst_insert_before blk k i =
     blk\<lparr>insts := take k (insts blk) @ i # drop k (insts blk), inst_count := inst_count blk + 1\<rparr>"

text \<open>The new constant goes before position \<open>k\<close>, which moves the rewritten instruction to \<open>k + 1\<close>.\<close>

definition sr_rewrite ::
    "MirFunction \<Rightarrow> bref \<Rightarrow> nat \<Rightarrow> MirBinOp \<Rightarrow> MirValueId \<Rightarrow> MirTypeP \<Rightarrow> u64 \<Rightarrow> MirFunction" where
  "sr_rewrite f b k p x ty c =
     (let (f1, vid) = mir_function_new_value f ty;
          f2 = upd_block f1 b (\<lambda>blk. inst_insert_before blk k \<lparr>iop = CONST_INT c, result = vid, itype = ty\<rparr>)
      in set_op f2 b (Suc k) (BINARY p x vid))"

definition sr_inst :: "MirFunction \<Rightarrow> bref \<Rightarrow> nat \<Rightarrow> (MirFunction \<times> bool)" where
  "sr_inst f b k =
     (case iop (inst_at f b k) of
        BINARY p x y \<Rightarrow>
          (case find_def f y of
             None \<Rightarrow> (f, False)
           | Some d \<Rightarrow>
               (case iop d of
                  CONST_INT c \<Rightarrow>
                    if p = MIR_MUL \<and> is_power_of_two c
                    then (sr_rewrite f b k MIR_SHL x (itype d) (of_nat (log2_int (unat c))), True)
                    else if p = MIR_MOD \<and> is_power_of_two c
                    then (sr_rewrite f b k MIR_BAND x (itype d) (c - 1), True)
                    else (f, False)
                | _ \<Rightarrow> (f, False)))
      | _ \<Rightarrow> (f, False))"

fun sr_block :: "MirFunction \<Rightarrow> bref \<Rightarrow> nat \<Rightarrow> nat \<Rightarrow> nat \<Rightarrow> MirFunction \<times> nat" where
  "sr_block f b k 0 ch = (f, ch)"
| "sr_block f b k (Suc n) ch =
     (let r = sr_inst f b k
      in if snd r then sr_block (fst r) b (Suc (Suc k)) n (ch + 1)
         else sr_block (fst r) b (Suc k) n ch)"

definition mir_pass_strength_reduce :: "MirFunction \<Rightarrow> MirFunction \<times> nat" where
  "mir_pass_strength_reduce f =
     foldl (\<lambda>(g, ch) b. sr_block g b 0 (length (insts (blocks g ! b))) ch) (f, 0) (block_list f)"

section \<open>Pass 5: control flow simplification\<close>

text \<open>Overwrite the first match with the last element and drop the last element.\<close>

definition swap_remove :: "('a \<Rightarrow> bool) \<Rightarrow> 'a list \<Rightarrow> 'a list" where
  "swap_remove p xs = (case find_index p xs of None \<Rightarrow> xs | Some i \<Rightarrow> butlast (xs[i := last xs]))"

fun patch_phis :: "bref \<Rightarrow> MirInst list \<Rightarrow> MirInst list" where
  "patch_phis dead [] = []"
| "patch_phis dead (i # is) =
     (case iop i of
        PHI es \<Rightarrow> i\<lparr>iop := PHI (swap_remove (\<lambda>e. fst e = Some dead) es)\<rparr> # patch_phis dead is
      | _ \<Rightarrow> i # is)"

definition cfg_remove_pred :: "MirBlock \<Rightarrow> bref \<Rightarrow> MirBlock" where
  "cfg_remove_pred live dead =
     live\<lparr>predecessors := swap_remove (\<lambda>x. x = dead) (predecessors live),
          insts := patch_phis dead (insts live)\<rparr>"

definition cfg_remove_succ :: "MirBlock \<Rightarrow> bref \<Rightarrow> MirBlock" where
  "cfg_remove_succ pred succ = pred\<lparr>successors := swap_remove (\<lambda>x. x = succ) (successors pred)\<rparr>"

definition const_bool_def :: "MirFunction \<Rightarrow> MirValueId \<Rightarrow> bool option" where
  "const_bool_def f v =
     (case find_def f v of
        None \<Rightarrow> None
      | Some i \<Rightarrow> (case iop i of CONST_BOOL w \<Rightarrow> Some w | _ \<Rightarrow> None))"

definition sc_condbr :: "MirFunction \<Rightarrow> bref \<Rightarrow> (MirFunction \<times> nat) option" where
  "sc_condbr f b =
     (let is = insts (blocks f ! b) in
      case iop (last is) of
        CONDBR c t e \<Rightarrow>
          (case const_bool_def f c of
             None \<Rightarrow> Some (f, 0)
           | Some v \<Rightarrow>
               (case (if v then e else t) of
                  None \<Rightarrow> None
                | Some dead \<Rightarrow>
                    (let f1 = set_op f b (length is - 1) (BR (if v then t else e));
                         f2 = upd_block f1 b (\<lambda>blk. cfg_remove_succ blk dead);
                         f3 = upd_block f2 dead (\<lambda>blk. cfg_remove_pred blk b)
                     in Some (f3, 1))))
      | _ \<Rightarrow> Some (f, 0))"

fun redirect :: "bref \<Rightarrow> bref \<Rightarrow> MirOp \<Rightarrow> MirOp" where
  "redirect bb tgt (BR t) = BR (if t = Some bb then Some tgt else t)"
| "redirect bb tgt (CONDBR c t e) =
     CONDBR c (if t = Some bb then Some tgt else t) (if e = Some bb then Some tgt else e)"
| "redirect bb tgt p = p"

definition thread_pred :: "bref \<Rightarrow> bref \<Rightarrow> MirFunction \<Rightarrow> bref \<Rightarrow> MirFunction" where
  "thread_pred bb tgt f pred =
     (let f1 = upd_block f pred (map_insts (\<lambda>i. i\<lparr>iop := redirect bb tgt (iop i)\<rparr>));
          f2 = upd_block f1 pred (\<lambda>blk. cfg_remove_succ blk bb)
      in if tgt \<noteq> bb
         then upd_block (upd_block f2 pred (\<lambda>blk. mir_block_add_successor blk tgt))
                tgt (\<lambda>blk. mir_block_add_predecessor blk pred)
         else f2)"

definition sc_forward :: "MirFunction \<Rightarrow> bref \<Rightarrow> (MirFunction \<times> nat) option" where
  "sc_forward f b =
     (case insts (blocks f ! b) of
        [i] \<Rightarrow>
          (case iop i of
             BR t \<Rightarrow>
               if Some b = entry_block f then Some (f, 0)
               else
                 (case t of
                    None \<Rightarrow> None
                  | Some tgt \<Rightarrow>
                      if insts (blocks f ! tgt) \<noteq> [] \<and> is_phi (iop (hd (insts (blocks f ! tgt))))
                      then Some (f, 0)
                      else
                        (let f1 = foldl (thread_pred b tgt) f (predecessors (blocks f ! b));
                             f2 = upd_block f1 tgt (\<lambda>blk. cfg_remove_pred blk b)
                         in Some (upd_block f2 b (\<lambda>blk. blk\<lparr>predecessors := []\<rparr>), 1)))
           | _ \<Rightarrow> Some (f, 0))
      | _ \<Rightarrow> Some (f, 0))"

definition sc_block :: "MirFunction \<Rightarrow> bref \<Rightarrow> (MirFunction \<times> nat) option" where
  "sc_block f b =
     (if insts (blocks f ! b) = [] then Some (f, 0)
      else case sc_condbr f b of
             None \<Rightarrow> None
           | Some (f1, d1) \<Rightarrow>
               (case sc_forward f1 b of None \<Rightarrow> None | Some (f2, d2) \<Rightarrow> Some (f2, d1 + d2)))"

fun sc_blocks :: "MirFunction \<Rightarrow> bref list \<Rightarrow> nat \<Rightarrow> (MirFunction \<times> nat) option" where
  "sc_blocks f [] n = Some (f, n)"
| "sc_blocks f (b # bs) n =
     (case sc_block f b of None \<Rightarrow> None | Some (f', d) \<Rightarrow> sc_blocks f' bs (n + d))"

definition mir_pass_simplify_cfg :: "MirFunction \<Rightarrow> (MirFunction \<times> nat) option" where
  "mir_pass_simplify_cfg f = sc_blocks f (block_list f) 0"

section \<open>Pass 6: ARC elision\<close>

text \<open>The search from a retain: \<open>mids\<close> are the instructions passed, \<open>rs\<close> those ahead.\<close>

fun arc_search :: "MirValueId \<Rightarrow> MirInst list \<Rightarrow> MirInst list \<Rightarrow> nat option" where
  "arc_search ptr mids [] = None"
| "arc_search ptr mids (r # rs) =
     (if iop r = REFOP MIR_ARC_RELEASE ptr
      then (if \<exists>m \<in> set mids. value_used_in_inst m ptr then None else Some (length mids))
      else if value_used_in_inst r ptr then None
      else arc_search ptr (mids @ [r]) rs)"

definition arc_step :: "MirFunction \<Rightarrow> bref \<Rightarrow> nat \<Rightarrow> (MirFunction \<times> nat) option" where
  "arc_step f b k =
     (case iop (inst_at f b k) of
        REFOP MIR_ARC_RETAIN ptr \<Rightarrow>
          (case arc_search ptr [] (drop (Suc k) (insts (blocks f ! b))) of
             None \<Rightarrow> Some (f, 0)
           | Some j \<Rightarrow> Some (set_op (set_op f b k NOP) b (Suc k + j) NOP, 1))
      | _ \<Rightarrow> Some (f, 0))"

definition mir_pass_arc_elision :: "MirFunction \<Rightarrow> (MirFunction \<times> nat) option" where
  "mir_pass_arc_elision f = run_steps arc_step f (positions f) 0"

section \<open>The pipeline\<close>

datatype MirOptLevel = MIR_OPT_NONE | MIR_OPT_BASIC | MIR_OPT_STANDARD | MIR_OPT_AGGRESSIVE

definition at_least_standard :: "MirOptLevel \<Rightarrow> bool" where
  "at_least_standard l \<longleftrightarrow> l = MIR_OPT_STANDARD \<or> l = MIR_OPT_AGGRESSIVE"

record MirOptStats =
  constants_folded :: nat
  copies_propagated :: nat
  dead_insts_eliminated :: nat
  branches_simplified :: nat
  strength_reductions :: nat
  arc_pairs_elided :: nat
  blocks_merged :: nat
  total_passes :: nat

definition opt_guard :: "bool \<Rightarrow> (MirFunction \<Rightarrow> (MirFunction \<times> nat) option) \<Rightarrow> MirFunction \<Rightarrow> (MirFunction \<times> nat) option" where
  "opt_guard c pass f = (if c then pass f else Some (f, 0))"

text \<open>One iteration of the loop: the passes in order, their counts, and the total.\<close>

definition opt_iteration ::
    "MirOptLevel \<Rightarrow> MirFunction \<Rightarrow> MirOptStats \<Rightarrow> (MirFunction \<times> MirOptStats \<times> nat) option" where
  "opt_iteration level f st =
     (let std = at_least_standard level in
      Option.bind (mir_pass_constant_fold f) (\<lambda>(f1, c1).
      Option.bind (opt_guard std mir_pass_copy_propagate f1) (\<lambda>(f2, c2).
      Option.bind (Some (mir_pass_dead_code_eliminate f2)) (\<lambda>(f3, c3).
      Option.bind (opt_guard std (\<lambda>g. Some (mir_pass_strength_reduce g)) f3) (\<lambda>(f4, c4).
      Option.bind (opt_guard std mir_pass_simplify_cfg f4) (\<lambda>(f5, c5).
      Option.bind (mir_pass_arc_elision f5) (\<lambda>(f6, c6).
        Some (f6,
          st\<lparr>constants_folded := constants_folded st + c1,
             copies_propagated := copies_propagated st + c2,
             dead_insts_eliminated := dead_insts_eliminated st + c3,
             strength_reductions := strength_reductions st + c4,
             branches_simplified := branches_simplified st + c5,
             arc_pairs_elided := arc_pairs_elided st + c6,
             total_passes := total_passes st + 1\<rparr>,
          c1 + c2 + c3 + c4 + c5 + c6))))))))"

fun opt_iterate ::
    "nat \<Rightarrow> MirOptLevel \<Rightarrow> MirFunction \<Rightarrow> MirOptStats \<Rightarrow> (MirFunction \<times> MirOptStats) option" where
  "opt_iterate 0 level f st = Some (f, st)"
| "opt_iterate (Suc n) level f st =
     (case opt_iteration level f st of
        None \<Rightarrow> None
      | Some (f', st', changes) \<Rightarrow> if changes = 0 then Some (f', st') else opt_iterate n level f' st')"

definition mir_optimize_function ::
    "MirFunction \<Rightarrow> MirOptLevel \<Rightarrow> MirOptStats \<Rightarrow> (MirFunction \<times> MirOptStats) option" where
  "mir_optimize_function f level st =
     (if level = MIR_OPT_NONE \<or> is_extern f then Some (f, st) else opt_iterate 10 level f st)"

section \<open>Removal of unreachable blocks\<close>

definition max_block_id :: "MirFunction \<Rightarrow> nat" where
  "max_block_id f = foldl (\<lambda>m b. if block_ident f b > m then block_ident f b else m) 0 (block_list f)"

definition unlink_block :: "MirFunction \<Rightarrow> bref \<Rightarrow> MirFunction" where
  "unlink_block f b =
     foldl (\<lambda>g s. upd_block g s (\<lambda>blk. cfg_remove_pred blk b)) f (successors (blocks f ! b))"

definition unlink_dead :: "bool list \<Rightarrow> MirFunction \<Rightarrow> MirFunction" where
  "unlink_dead seen f =
     (let dead = (\<lambda>b. Some b \<noteq> entry_block f \<and> \<not> seen ! block_ident f b);
          f1 = foldl unlink_block f (filter dead (block_list f))
      in f1\<lparr>block_list := filter (\<lambda>b. \<not> dead b) (block_list f)\<rparr>)"

fun renumber :: "MirFunction \<Rightarrow> bref list \<Rightarrow> nat \<Rightarrow> MirFunction" where
  "renumber f [] n = f\<lparr>block_count := n\<rparr>"
| "renumber f (b # bs) n = renumber (upd_block f b (\<lambda>blk. blk\<lparr>bb_id := n\<rparr>)) bs (n + 1)"

definition reach_marks :: "MirFunction \<Rightarrow> bref \<Rightarrow> bool list" where
  "reach_marks f e =
     bfs (block_ident f) (\<lambda>b. successors (blocks f ! b)) [e]
       ((replicate (max_block_id f + 1) False)[block_ident f e := True])"

definition mir_remove_unreachable_blocks :: "MirFunction \<Rightarrow> MirFunction" where
  "mir_remove_unreachable_blocks f =
     (case entry_block f of
        None \<Rightarrow> f
      | Some e \<Rightarrow>
          if is_extern f \<or> length (block_list f) \<le> 1 then f
          else
            (let f1 = unlink_dead (reach_marks f e) f
             in renumber f1 (block_list f1) 0))"

fun optimize_functions ::
    "MirFunction list \<Rightarrow> MirOptLevel \<Rightarrow> MirOptStats \<Rightarrow> (MirFunction list \<times> MirOptStats) option" where
  "optimize_functions [] level st = Some ([], st)"
| "optimize_functions (f # fs) level st =
     (case mir_optimize_function f level st of
        None \<Rightarrow> None
      | Some (f', st') \<Rightarrow>
          map_option (\<lambda>(gs, st2). (mir_remove_unreachable_blocks f' # gs, st2))
            (optimize_functions fs level st'))"

definition mir_optimize_module ::
    "MirModule \<Rightarrow> MirOptLevel \<Rightarrow> (MirModule \<times> MirOptStats) option" where
  "mir_optimize_module m level =
     map_option (\<lambda>(fs, st). (m\<lparr>func_list := fs\<rparr>, st))
       (optimize_functions (func_list m) level
          \<lparr>constants_folded = 0, copies_propagated = 0, dead_insts_eliminated = 0,
           branches_simplified = 0, strength_reductions = 0, arc_pairs_elided = 0,
           blocks_merged = 0, total_passes = 0\<rparr>)"

end
