(* ===== verification/Opt_Facts.thy ===== *)
theory Opt_Facts
  imports Mir_Opt "HOL-Library.Sublist"
begin

text \<open>
  What the optimiser passes guarantee.  The contract every pass has with the pipeline is the locale
  \<open>opt_pass\<close>: it keeps the skeleton of the function (name, signature, entry, block list, block ids) and
  reports zero changes only when it changed nothing.  Passes that walk positions satisfy it because
  their steps do (\<open>opt_step\<close>).  On top of that: the pipeline stops at a fixed point or after ten
  rounds, dead code elimination removes only values nobody uses, ARC elision removes matched pairs,
  and the removal of unreachable blocks keeps exactly the reachable ones.
\<close>

section \<open>The contract of a pass\<close>

definition same_skeleton :: "MirFunction \<Rightarrow> MirFunction \<Rightarrow> bool" where
  "same_skeleton f f' \<longleftrightarrow>
     fname f' = fname f \<and> return_type f' = return_type f \<and> params f' = params f
     \<and> entry_block f' = entry_block f \<and> block_list f' = block_list f \<and> block_count f' = block_count f
     \<and> is_constexpr f' = is_constexpr f \<and> is_extern f' = is_extern f \<and> is_async f' = is_async f
     \<and> map bb_id (blocks f') = map bb_id (blocks f)"

lemma same_skeleton_refl [simp]: "same_skeleton f f"
  by (simp add: same_skeleton_def)

lemma same_skeleton_trans: "same_skeleton f g \<Longrightarrow> same_skeleton g h \<Longrightarrow> same_skeleton f h"
  by (simp add: same_skeleton_def)

lemma upd_block_skeleton:
  assumes "\<And>blk. bb_id (g blk) = bb_id blk"
  shows "same_skeleton f (upd_block f b g)"
proof -
  have "map bb_id ((blocks f)[b := g (blocks f ! b)]) = map bb_id (blocks f)"
    by (cases "b < length (blocks f)") (auto intro!: nth_equalityI simp: nth_list_update assms)
  then show ?thesis by (simp add: same_skeleton_def upd_block_def)
qed

lemma foldl_skeleton:
  assumes "\<And>g x. same_skeleton g (h g x)"
  shows "same_skeleton f (foldl h f xs)"
  by (induction xs arbitrary: f) (auto intro: same_skeleton_trans assms)

lemma set_op_skeleton [simp]: "same_skeleton f (set_op f b k p)"
  unfolding set_op_def by (rule upd_block_skeleton) simp

lemma replace_skeleton [simp]: "same_skeleton f (replace_all_uses f x y)"
  unfolding replace_all_uses_def by (intro foldl_skeleton upd_block_skeleton) (simp add: map_insts_def)

lemma cfg_edit_skeleton [simp]:
  "same_skeleton f (upd_block f b (\<lambda>blk. cfg_remove_pred blk x))"
  "same_skeleton f (upd_block f b (\<lambda>blk. cfg_remove_succ blk x))"
  "same_skeleton f (upd_block f b (\<lambda>blk. blk\<lparr>predecessors := ps\<rparr>))"
  by (intro upd_block_skeleton; simp add: cfg_remove_pred_def cfg_remove_succ_def)+

lemma new_value_skeleton: "mir_function_new_value f ty = (f', v) \<Longrightarrow> same_skeleton f f'"
  by (auto simp: mir_function_new_value_def same_skeleton_def Let_def)

locale opt_pass =
  fixes pass :: "MirFunction \<Rightarrow> (MirFunction \<times> nat) option"
  assumes skeleton: "pass f = Some (f', n) \<Longrightarrow> same_skeleton f f'"
    and idle: "pass f = Some (f', 0) \<Longrightarrow> f' = f"
begin

lemma guarded_skeleton: "opt_guard c pass f = Some (f', n) \<Longrightarrow> same_skeleton f f'"
  using skeleton by (auto simp: opt_guard_def split: if_splits)

lemma guarded_idle: "opt_guard c pass f = Some (f', 0) \<Longrightarrow> f' = f"
  using idle by (auto simp: opt_guard_def split: if_splits)

end

locale opt_step =
  fixes st :: "MirFunction \<Rightarrow> bref \<Rightarrow> nat \<Rightarrow> (MirFunction \<times> nat) option"
  assumes step_skeleton: "st f b k = Some (f', d) \<Longrightarrow> same_skeleton f f'"
    and step_idle: "st f b k = Some (f', 0) \<Longrightarrow> f' = f"
begin

lemma run_skeleton: "run_steps st f ps n = Some (f', m) \<Longrightarrow> same_skeleton f f' \<and> n \<le> m"
proof (induction ps arbitrary: f n)
  case (Cons p ps)
  then show ?case
    by (cases p) (fastforce split: option.splits dest: step_skeleton intro: same_skeleton_trans)
qed simp

lemma run_idle: "run_steps st f ps n = Some (f', n) \<Longrightarrow> f' = f"
proof (induction ps arbitrary: f n)
  case (Cons p ps)
  obtain b k where p: "p = (b, k)" by fastforce
  with Cons.prems obtain f1 d where s: "st f b k = Some (f1, d)"
    and r: "run_steps st f1 ps (n + d) = Some (f', n)" by (auto split: option.splits)
  with run_skeleton[OF r] have "d = 0" by simp
  with s r Cons.IH[of f1 n] step_idle show ?case by auto
qed simp

end

sublocale opt_step \<subseteq> opt_pass "\<lambda>f. run_steps st f (positions f) 0"
  by unfold_locales (use run_skeleton run_idle in blast)+

lemma then_step_contract:
  assumes "opt_step s" and "opt_step t"
  shows "opt_step (then_step s t)"
proof
  fix f b k f' d
  show "then_step s t f b k = Some (f', d) \<Longrightarrow> same_skeleton f f'"
    using opt_step.step_skeleton[OF assms(1)] opt_step.step_skeleton[OF assms(2)]
    by (fastforce simp: then_step_def split: option.splits intro: same_skeleton_trans)
  show "then_step s t f b k = Some (f', 0) \<Longrightarrow> f' = f"
    using opt_step.step_idle[OF assms(1)] opt_step.step_idle[OF assms(2)]
    by (fastforce simp: then_step_def split: option.splits)
qed

lemma cf_steps:
  "opt_step cf_arith" "opt_step cf_cmp" "opt_step cf_add_zero" "opt_step cf_mul"
  by (unfold_locales; auto simp: cf_arith_def cf_cmp_def cf_add_zero_def cf_mul_def
      split: MirOp.splits option.splits FoldResult.splits if_splits
      intro: same_skeleton_trans[OF replace_skeleton set_op_skeleton])+

interpretation constant_fold: opt_step cf_step
  unfolding cf_step_def by (intro then_step_contract cf_steps)

lemma cp_steps: "opt_step cp_copy" "opt_step cp_phi"
  by (unfold_locales; auto simp: cp_copy_def cp_phi_def Let_def
      split: MirOp.splits MirTransferOp.splits list.splits if_splits
      intro: same_skeleton_trans[OF replace_skeleton set_op_skeleton])+

interpretation copy_propagate: opt_step "then_step cp_copy cp_phi"
  by (intro then_step_contract cp_steps)

interpretation arc_elision: opt_step arc_step
  by unfold_locales
    (auto simp: arc_step_def split: MirOp.splits MirRefOp.splits option.splits
      intro: same_skeleton_trans[OF set_op_skeleton set_op_skeleton])

lemma dce_block_contract:
  "dce_block f b k n ch = (f', ch') \<Longrightarrow> same_skeleton f f' \<and> ch \<le> ch' \<and> (ch' = ch \<longrightarrow> f' = f)"
proof (induction n arbitrary: f k ch)
  case (Suc n)
  have rm: "same_skeleton f (upd_block f b (\<lambda>blk. remove_inst blk k))"
    by (rule upd_block_skeleton) (simp add: remove_inst_def)
  show ?case
  proof (cases "is_dead f (inst_at f b k)")
    case True
    with Suc.IH[of "upd_block f b (\<lambda>blk. remove_inst blk k)" k "ch + 1"] Suc.prems rm
    show ?thesis by (auto intro: same_skeleton_trans)
  qed (use Suc in auto)
qed simp

lemma sr_rewrite_skeleton: "same_skeleton f (sr_rewrite f b k p x ty c)"
proof -
  obtain f1 v where nv: "mir_function_new_value f ty = (f1, v)" by fastforce
  have "same_skeleton f1 (upd_block f1 b (\<lambda>blk. inst_insert_before blk k i))" for i
    by (rule upd_block_skeleton) (simp add: inst_insert_before_def)
  then show ?thesis unfolding sr_rewrite_def nv Let_def prod.case
    by (intro same_skeleton_trans[OF same_skeleton_trans[OF new_value_skeleton[OF nv]] set_op_skeleton])
qed

lemma sr_inst_contract: "sr_inst f b k = (f', c) \<Longrightarrow> same_skeleton f f' \<and> (\<not> c \<longrightarrow> f' = f)"
  by (auto simp: sr_inst_def sr_rewrite_skeleton split: MirOp.splits option.splits if_splits)

lemma sr_block_contract:
  "sr_block f b k n ch = (f', ch') \<Longrightarrow> same_skeleton f f' \<and> ch \<le> ch' \<and> (ch' = ch \<longrightarrow> f' = f)"
proof (induction n arbitrary: f k ch)
  case (Suc n)
  obtain g c where g: "sr_inst f b k = (g, c)" by fastforce
  note sg = sr_inst_contract[OF g]
  show ?case
  proof (cases c)
    case True
    with Suc.IH[of g "Suc (Suc k)" "ch + 1"] Suc.prems sg g show ?thesis
      by (auto simp: Let_def intro: same_skeleton_trans)
  next
    case False
    with Suc.IH[of g "Suc k" ch] Suc.prems sg g show ?thesis by (auto simp: Let_def)
  qed
qed simp

text \<open>A pass that folds a block function over the block list inherits the contract from it.\<close>

lemma fold_blocks_contract:
  fixes n m :: nat
  assumes "\<And>f b ch f' ch'. blk f b ch = (f', ch') \<Longrightarrow>
      same_skeleton f f' \<and> ch \<le> ch' \<and> (ch' = ch \<longrightarrow> f' = f)"
    and "foldl (\<lambda>(g, ch) b. blk g b ch) (f, n) bs = (f', m)"
  shows "same_skeleton f f' \<and> n \<le> m \<and> (m = n \<longrightarrow> f' = f)"
  using assms(2)
proof (induction bs arbitrary: f n)
  case (Cons b bs)
  obtain g c where g: "blk f b n = (g, c)" by fastforce
  from Cons.prems g have "foldl (\<lambda>(g, ch) b. blk g b ch) (g, c) bs = (f', m)" by simp
  from Cons.IH[OF this] assms(1)[OF g] show ?case by (auto intro: same_skeleton_trans)
qed simp

interpretation dead_code: opt_pass "\<lambda>f. Some (mir_pass_dead_code_eliminate f)"
proof
  fix f f' n
  note c = fold_blocks_contract[of "\<lambda>g b ch. dce_block g b 0 (length (insts (blocks g ! b))) ch" f 0 "block_list f",
      OF dce_block_contract, folded mir_pass_dead_code_eliminate_def]
  show "Some (mir_pass_dead_code_eliminate f) = Some (f', n) \<Longrightarrow> same_skeleton f f'" using c by simp
  show "Some (mir_pass_dead_code_eliminate f) = Some (f', 0) \<Longrightarrow> f' = f" using c by fastforce
qed

interpretation strength_reduce: opt_pass "\<lambda>f. Some (mir_pass_strength_reduce f)"
proof
  fix f f' n
  note c = fold_blocks_contract[of "\<lambda>g b ch. sr_block g b 0 (length (insts (blocks g ! b))) ch" f 0 "block_list f",
      OF sr_block_contract, folded mir_pass_strength_reduce_def]
  show "Some (mir_pass_strength_reduce f) = Some (f', n) \<Longrightarrow> same_skeleton f f'" using c by simp
  show "Some (mir_pass_strength_reduce f) = Some (f', 0) \<Longrightarrow> f' = f" using c by fastforce
qed

lemma thread_pred_skeleton: "same_skeleton f (thread_pred bb t f p)"
proof -
  have m: "same_skeleton g (upd_block g x (map_insts h))"
    and a: "same_skeleton g (upd_block g x (\<lambda>blk. mir_block_add_successor blk y))"
      "same_skeleton g (upd_block g x (\<lambda>blk. mir_block_add_predecessor blk y))" for g x h y
    by (intro upd_block_skeleton; simp add: map_insts_def mir_block_add_successor_def mir_block_add_predecessor_def)+
  note f2 = same_skeleton_trans[OF m cfg_edit_skeleton(2)]
  show ?thesis unfolding thread_pred_def Let_def
    by (cases "t = bb") (simp_all add: f2 same_skeleton_trans[OF same_skeleton_trans[OF f2 a(1)] a(2)])
qed

lemma sc_block_contract:
  assumes "sc_block f b = Some (f', d)"
  shows "same_skeleton f f' \<and> (d = 0 \<longrightarrow> f' = f)"
proof -
  have a: "same_skeleton g g' \<and> (n = 0 \<longrightarrow> g' = g)" if "sc_condbr g b = Some (g', n)" for g g' n
    using that by (auto simp: sc_condbr_def Let_def split: MirOp.splits option.splits
        intro: same_skeleton_trans[OF same_skeleton_trans[OF set_op_skeleton cfg_edit_skeleton(2)] cfg_edit_skeleton(1)])
  have t: "same_skeleton g (foldl (thread_pred b x) g xs)" for g x xs
    by (intro foldl_skeleton thread_pred_skeleton)
  have c: "same_skeleton g g' \<and> (n = 0 \<longrightarrow> g' = g)" if "sc_forward g b = Some (g', n)" for g g' n
    using that by (auto simp: sc_forward_def Let_def split: MirOp.splits option.splits list.splits if_splits
        intro: same_skeleton_trans[OF same_skeleton_trans[OF t cfg_edit_skeleton(1)] cfg_edit_skeleton(3)])
  from assms show ?thesis
    by (fastforce simp: sc_block_def split: if_splits option.splits dest!: a c intro: same_skeleton_trans)
qed

interpretation simplify_cfg: opt_pass mir_pass_simplify_cfg
proof -
  have "same_skeleton f f' \<and> n \<le> m \<and> (m = n \<longrightarrow> f' = f)" if "sc_blocks f bs n = Some (f', m)" for f bs n f' m
    using that
  proof (induction bs arbitrary: f n)
    case (Cons b bs)
    then obtain g d where g: "sc_block f b = Some (g, d)" "sc_blocks g bs (n + d) = Some (f', m)"
      by (auto split: option.splits)
    from Cons.IH[OF g(2)] sc_block_contract[OF g(1)] show ?case by (auto intro: same_skeleton_trans)
  qed simp
  then show "opt_pass mir_pass_simplify_cfg"
    by unfold_locales (fastforce simp: mir_pass_simplify_cfg_def)+
qed

section \<open>The pipeline\<close>

lemmas pass_skeletons =
  constant_fold.skeleton[folded mir_pass_constant_fold_def]
  copy_propagate.guarded_skeleton[folded mir_pass_copy_propagate_def]
  dead_code.skeleton strength_reduce.guarded_skeleton simplify_cfg.guarded_skeleton
  arc_elision.skeleton[folded mir_pass_arc_elision_def]

lemmas pass_idles =
  constant_fold.idle[folded mir_pass_constant_fold_def]
  copy_propagate.guarded_idle[folded mir_pass_copy_propagate_def]
  dead_code.idle strength_reduce.guarded_idle simplify_cfg.guarded_idle
  arc_elision.idle[folded mir_pass_arc_elision_def]

lemma opt_iteration_contract:
  assumes "opt_iteration level f st = Some (f', st', c)"
  shows "same_skeleton f f'" and "c = 0 \<Longrightarrow> f' = f" and "total_passes st' = total_passes st + 1"
    and "\<exists>s'. opt_iteration level f s = Some (f', s', c)"
proof -
  let ?std = "at_least_standard level"
  note bind = bind_eq_Some_conv case_prod_unfold
  obtain f1 c1 f2 c2 where
    p1: "mir_pass_constant_fold f = Some (f1, c1)" and
    p2: "opt_guard ?std mir_pass_copy_propagate f1 = Some (f2, c2)"
    using assms unfolding opt_iteration_def Let_def by (auto simp: bind)
  obtain f3 c3 where p3: "Some (mir_pass_dead_code_eliminate f2) = Some (f3, c3)" by fastforce
  obtain f4 c4 f5 c5 f6 c6 where
    p4: "opt_guard ?std (\<lambda>g. Some (mir_pass_strength_reduce g)) f3 = Some (f4, c4)" and
    p5: "opt_guard ?std mir_pass_simplify_cfg f4 = Some (f5, c5)" and
    p6: "mir_pass_arc_elision f5 = Some (f6, c6)" and
    res: "f' = f6" "c = c1 + c2 + c3 + c4 + c5 + c6" "total_passes st' = total_passes st + 1"
    using assms p1 p2 p3 unfolding opt_iteration_def Let_def by (auto simp: bind)
  show "same_skeleton f f'" unfolding res
    using pass_skeletons(1)[OF p1] pass_skeletons(2)[OF p2] pass_skeletons(3)[OF p3]
      pass_skeletons(4)[OF p4] pass_skeletons(5)[OF p5] pass_skeletons(6)[OF p6]
    by (blast intro: same_skeleton_trans)
  show "c = 0 \<Longrightarrow> f' = f" unfolding res
    using pass_idles(1)[of f f1] pass_idles(2)[of ?std f1 f2] pass_idles(3)[of f2 f3]
      pass_idles(4)[of ?std f3 f4] pass_idles(5)[of ?std f4 f5] pass_idles(6)[of f5 f6] p1 p2 p3 p4 p5 p6
    by simp
  show "total_passes st' = total_passes st + 1" by (rule res)
  show "\<exists>s'. opt_iteration level f s = Some (f', s', c)"
    using p1 p2 p3 p4 p5 p6 by (simp add: opt_iteration_def Let_def res)
qed

lemma opt_iterate_contract:
  assumes "opt_iterate n level f st = Some (f', st')"
  shows "same_skeleton f f' \<and> total_passes st \<le> total_passes st' \<and> total_passes st' \<le> total_passes st + n
    \<and> (total_passes st' < total_passes st + n \<longrightarrow> (\<forall>s. \<exists>s'. opt_iteration level f' s = Some (f', s', 0)))"
  using assms
proof (induction n arbitrary: f st)
  case (Suc n)
  then obtain g s1 c where it: "opt_iteration level f st = Some (g, s1, c)"
    and rest: "if c = 0 then f' = g \<and> st' = s1 else opt_iterate n level g s1 = Some (f', st')"
    by (auto split: option.splits if_splits)
  note ct = opt_iteration_contract[OF it]
  show ?case
  proof (cases "c = 0")
    case True
    then show ?thesis using rest ct(2,3) ct(4) by auto
  next
    case False
    then show ?thesis using rest ct(1,3) Suc.IH[of g s1] by (auto intro: same_skeleton_trans)
  qed
qed simp


section \<open>Dead code elimination\<close>

definition handles_ok :: "MirFunction \<Rightarrow> bool" where
  "handles_ok f \<longleftrightarrow> distinct (block_list f) \<and> (\<forall>b \<in> set (block_list f). b < length (blocks f))"

lemma skeleton_handles: "same_skeleton f f' \<Longrightarrow> handles_ok f \<Longrightarrow> handles_ok f'"
  by (auto simp: same_skeleton_def handles_ok_def dest: map_eq_imp_length_eq)

lemma all_insts_upd:
  assumes "handles_ok f" and "b \<in> set (block_list f)"
  shows "\<exists>pre post. all_insts f = pre @ insts (blocks f ! b) @ post \<and>
    (\<forall>g. all_insts (upd_block f b g) = pre @ insts (g (blocks f ! b)) @ post)"
proof -
  obtain xs ys where l: "block_list f = xs @ b # ys" using split_list[OF assms(2)] by blast
  have "b \<notin> set xs" "b \<notin> set ys" "b < length (blocks f)" using assms l by (auto simp: handles_ok_def)
  note b = this
  have other: "map (\<lambda>c. insts ((blocks f)[b := y] ! c)) zs = map (\<lambda>c. insts (blocks f ! c)) zs"
    if "b \<notin> set zs" for y zs using that by (intro map_cong) (auto, metis nth_list_update_neq)
  have "all_insts (upd_block f b g) = concat (map (\<lambda>c. insts (blocks f ! c)) xs) @
      insts (g (blocks f ! b)) @ concat (map (\<lambda>c. insts (blocks f ! c)) ys)" for g
    using b by (simp add: all_insts_def upd_block_def l other[OF b(1)] other[OF b(2)] del: map_eq_conv)
  then show ?thesis by (auto simp: all_insts_def l)
qed

definition deletable :: "MirInst \<Rightarrow> bool" where
  "deletable i \<longleftrightarrow> iop i = NOP \<or> result i \<noteq> MIR_VALUE_NONE \<and> \<not> has_side_effects (iop i)"

definition dce_rel :: "MirFunction \<Rightarrow> MirFunction \<Rightarrow> bool" where
  "dce_rel f f' \<longleftrightarrow> subseq (all_insts f') (all_insts f)
     \<and> filter (\<lambda>i. \<not> deletable i) (all_insts f') = filter (\<lambda>i. \<not> deletable i) (all_insts f)
     \<and> (\<forall>i \<in> set (all_insts f). i \<in> set (all_insts f') \<or> iop i = NOP
          \<or> result i \<noteq> MIR_VALUE_NONE \<and> \<not> has_side_effects (iop i) \<and> count_uses f' (result i) = 0)"

lemma count_uses_subseq: "subseq (all_insts f') (all_insts f) \<Longrightarrow> count_uses f' v \<le> count_uses f v"
  unfolding count_uses_def by (rule list_emb_length[OF subseq_filter])

lemma dce_rel_refl: "dce_rel f f"
  by (simp add: dce_rel_def)

lemma dce_rel_trans:
  assumes "dce_rel f g" and "dce_rel g h"
  shows "dce_rel f h"
proof -
  have s: "subseq (all_insts h) (all_insts f)" using assms subseq_order.trans by (auto simp: dce_rel_def)
  have "i \<in> set (all_insts h) \<or> iop i = NOP
      \<or> result i \<noteq> MIR_VALUE_NONE \<and> \<not> has_side_effects (iop i) \<and> count_uses h (result i) = 0" if "i \<in> set (all_insts f)" for i
  proof (cases "i \<in> set (all_insts g)")
    case True
    then show ?thesis using assms(2) by (auto simp: dce_rel_def)
  next
    case False
    then have "iop i = NOP \<or> result i \<noteq> MIR_VALUE_NONE \<and> \<not> has_side_effects (iop i) \<and> count_uses g (result i) = 0"
      using assms(1) that by (auto simp: dce_rel_def)
    moreover have "count_uses h (result i) \<le> count_uses g (result i)"
      using assms(2) by (intro count_uses_subseq) (simp add: dce_rel_def)
    ultimately show ?thesis by auto
  qed
  with s assms show ?thesis by (simp add: dce_rel_def)
qed

lemma dce_remove_rel:
  assumes f: "handles_ok f" "b \<in> set (block_list f)" and k: "k < length (insts (blocks f ! b))"
    and dead: "is_dead f (inst_at f b k)"
  shows "dce_rel f (upd_block f b (\<lambda>blk. remove_inst blk k))"
proof -
  let ?f' = "upd_block f b (\<lambda>blk. remove_inst blk k)" and ?is = "insts (blocks f ! b)" and ?i = "inst_at f b k"
  obtain pre post where p: "all_insts f = pre @ ?is @ post"
    "all_insts ?f' = pre @ (take k ?is @ drop (Suc k) ?is) @ post"
    using all_insts_upd[OF f] by (auto simp: remove_inst_def)
  have spl: "?is = take k ?is @ ?i # drop (Suc k) ?is" using k by (simp add: inst_at_def id_take_nth_drop)
  define xs ys where "xs = pre @ take k ?is" and "ys = drop (Suc k) ?is @ post"
  have a: "all_insts f = xs @ ?i # ys" "all_insts ?f' = xs @ ys"
    using p spl by (metis (no_types, lifting) append.assoc append_Cons xs_def ys_def)
      (use p in \<open>simp add: xs_def ys_def\<close>)
  have s: "subseq (all_insts ?f') (all_insts f)" unfolding a by (intro list_emb_append_mono) auto
  have "deletable ?i" using dead by (auto simp: is_dead_def deletable_def)
  moreover have "iop ?i = NOP
      \<or> result ?i \<noteq> MIR_VALUE_NONE \<and> \<not> has_side_effects (iop ?i) \<and> count_uses ?f' (result ?i) = 0"
    using dead count_uses_subseq[OF s, of "result ?i"] by (auto simp: is_dead_def)
  ultimately show ?thesis using s by (auto simp: dce_rel_def a)
qed

lemma dce_block_rel:
  assumes "handles_ok f" "b \<in> set (block_list f)" and "k + n = length (insts (blocks f ! b))"
    and "dce_block f b k n ch = (f', ch')"
  shows "dce_rel f f'"
  using assms
proof (induction n arbitrary: f k ch)
  case (Suc n)
  let ?g = "upd_block f b (\<lambda>blk. remove_inst blk k)"
  have blt: "b < length (blocks f)" using Suc.prems(1,2) by (simp add: handles_ok_def)
  show ?case
  proof (cases "is_dead f (inst_at f b k)")
    case True
    have sk: "same_skeleton f ?g" by (rule upd_block_skeleton) (simp add: remove_inst_def)
    have "dce_rel ?g f'"
    proof (rule Suc.IH)
      show "handles_ok ?g" by (rule skeleton_handles[OF sk Suc.prems(1)])
      show "b \<in> set (block_list ?g)" using Suc.prems(2) by (simp add: upd_block_def)
      show "k + n = length (insts (blocks ?g ! b))"
        using Suc.prems(3) blt by (simp add: upd_block_def remove_inst_def)
      show "dce_block ?g b k n (ch + 1) = (f', ch')" using Suc.prems(4) True by simp
    qed
    moreover have "dce_rel f ?g" using Suc.prems by (intro dce_remove_rel True) auto
    ultimately show ?thesis by (rule dce_rel_trans[rotated])
  next
    case False
    then show ?thesis using Suc.prems Suc.IH[of f "Suc k" ch] by simp
  qed
qed (simp add: dce_rel_refl)

lemma dce_blocks_rel:
  assumes "handles_ok f" and "set bs \<subseteq> set (block_list f)"
    and "foldl (\<lambda>(g, ch) b. dce_block g b 0 (length (insts (blocks g ! b))) ch) (f, n) bs = (f', m)"
  shows "dce_rel f f'"
  using assms
proof (induction bs arbitrary: f n)
  case (Cons b bs)
  obtain g c where g: "dce_block f b 0 (length (insts (blocks f ! b))) n = (g, c)" by fastforce
  have sk: "same_skeleton f g" using dce_block_contract[OF g] by simp
  have "dce_rel g f'"
  proof (rule Cons.IH)
    show "handles_ok g" by (rule skeleton_handles[OF sk Cons.prems(1)])
    show "set bs \<subseteq> set (block_list g)" using Cons.prems(2) sk by (simp add: same_skeleton_def)
    show "foldl (\<lambda>(g, ch) b. dce_block g b 0 (length (insts (blocks g ! b))) ch) (g, c) bs = (f', m)"
      using Cons.prems(3) g by simp
  qed
  moreover have "dce_rel f g" by (rule dce_block_rel[OF Cons.prems(1) _ _ g]) (use Cons.prems(2) in auto)
  ultimately show ?case by (rule dce_rel_trans[rotated])
qed (simp add: dce_rel_refl)

lemma dead_code_eliminate_rel:
  assumes "handles_ok f" and "mir_pass_dead_code_eliminate f = (f', n)"
  shows "dce_rel f f'"
  using dce_blocks_rel[OF assms(1) subset_refl] assms(2) unfolding mir_pass_dead_code_eliminate_def by blast

section \<open>ARC elision\<close>

fun arc_weight :: "MirValueId \<Rightarrow> MirOp \<Rightarrow> int" where
  "arc_weight x (REFOP MIR_ARC_RETAIN y) = (if y = x then 1 else 0)"
| "arc_weight x (REFOP MIR_ARC_RELEASE y) = (if y = x then - 1 else 0)"
| "arc_weight x _ = 0"

definition arc_balance :: "MirValueId \<Rightarrow> MirInst list \<Rightarrow> int" where
  "arc_balance x is = sum_list (map (\<lambda>i. arc_weight x (iop i)) is)"

definition is_arc :: "MirOp \<Rightarrow> bool" where
  "is_arc p \<longleftrightarrow> (\<exists>x. p = REFOP MIR_ARC_RETAIN x \<or> p = REFOP MIR_ARC_RELEASE x)"

definition noped :: "MirInst \<Rightarrow> MirInst \<Rightarrow> bool" where
  "noped i i' \<longleftrightarrow> i' = i \<or> is_arc (iop i) \<and> i' = i\<lparr>iop := NOP\<rparr>"

definition arc_rel :: "MirInst list \<Rightarrow> MirInst list \<Rightarrow> bool" where
  "arc_rel is is' \<longleftrightarrow>
     list_all2 noped is is' \<and> (\<forall>x. arc_balance x is' = arc_balance x is)"

lemma sum_list_update_int:
  "k < length xs \<Longrightarrow> sum_list (xs[k := y]) = sum_list xs + y - (xs ! k :: int)"
  by (induction xs arbitrary: k) (auto split: nat.splits)

lemma arc_balance_update:
  "k < length is \<Longrightarrow> arc_balance x (is[k := i]) = arc_balance x is + arc_weight x (iop i) - arc_weight x (iop (is ! k))"
  by (simp add: arc_balance_def map_update sum_list_update_int)

lemma arc_rel_refl: "arc_rel is is"
  by (simp add: arc_rel_def list_all2_refl noped_def)

lemma noped_trans: "noped i j \<Longrightarrow> noped j k \<Longrightarrow> noped i k"
  by (auto simp: noped_def is_arc_def)

lemma arc_rel_trans: "arc_rel xs ys \<Longrightarrow> arc_rel ys zs \<Longrightarrow> arc_rel xs zs"
  unfolding arc_rel_def using list_all2_trans[of noped noped noped, OF noped_trans] by auto

lemma arc_search_found:
  "arc_search ptr mids rs = Some j \<Longrightarrow>
   \<exists>m < length rs. j = length mids + m \<and> iop (rs ! m) = REFOP MIR_ARC_RELEASE ptr
     \<and> (\<forall>i \<in> set mids \<union> set (take m rs). \<not> value_used_in_inst i ptr)"
proof (induction ptr mids rs rule: arc_search.induct)
  case (2 ptr mids r rs)
  show ?case
  proof (cases "iop r = REFOP MIR_ARC_RELEASE ptr")
    case True
    then show ?thesis using "2.prems" by (auto split: if_splits)
  next
    case False
    with "2.prems" have s: "arc_search ptr (mids @ [r]) rs = Some j" "\<not> value_used_in_inst r ptr"
      by (auto split: if_splits)
    from "2.IH"[OF False s(2) s(1)] obtain m where
      "m < length rs" "j = length (mids @ [r]) + m" "iop (rs ! m) = REFOP MIR_ARC_RELEASE ptr"
      "\<forall>i \<in> set (mids @ [r]) \<union> set (take m rs). \<not> value_used_in_inst i ptr" by blast
    then show ?thesis by (intro exI[of _ "Suc m"]) auto
  qed
qed simp

lemma noped_update:
  "k < length is \<Longrightarrow> is_arc (iop (is ! k)) \<Longrightarrow> list_all2 noped is (is[k := (is ! k)\<lparr>iop := NOP\<rparr>])"
  by (auto simp: list_all2_conv_all_nth nth_list_update noped_def)

lemma arc_pair_rel:
  assumes k: "k < length is" and l: "l < length is" "l \<noteq> k"
    and ops: "iop (is ! k) = REFOP MIR_ARC_RETAIN ptr" "iop (is ! l) = REFOP MIR_ARC_RELEASE ptr"
  shows "arc_rel is (is[k := (is ! k)\<lparr>iop := NOP\<rparr>, l := (is ! l)\<lparr>iop := NOP\<rparr>])"
proof -
  let ?js = "is[k := (is ! k)\<lparr>iop := NOP\<rparr>]"
  have "arc_balance x (?js[l := (is ! l)\<lparr>iop := NOP\<rparr>]) = arc_balance x is" for x
    using k l ops by (simp add: arc_balance_update)
  moreover have "list_all2 noped is ?js" "list_all2 noped ?js (?js[l := (?js ! l)\<lparr>iop := NOP\<rparr>])"
    by (rule noped_update; use k l ops in \<open>auto simp: is_arc_def\<close>)+
  then have "list_all2 noped is (?js[l := (is ! l)\<lparr>iop := NOP\<rparr>])"
    using l list_all2_trans[of noped noped noped, OF noped_trans] by auto
  ultimately show ?thesis by (simp add: arc_rel_def)
qed

text \<open>The relation between all blocks of two functions, used to carry a block property through a pass.\<close>

definition blocks_rel :: "(MirInst list \<Rightarrow> MirInst list \<Rightarrow> bool) \<Rightarrow> MirFunction \<Rightarrow> MirFunction \<Rightarrow> bool" where
  "blocks_rel R f f' \<longleftrightarrow> length (blocks f') = length (blocks f) \<and>
     (\<forall>b < length (blocks f). R (insts (blocks f ! b)) (insts (blocks f' ! b)))"

lemma arc_step_rel:
  assumes "arc_step f b k = Some (f', d)" and "b < length (blocks f)" and "k < length (insts (blocks f ! b))"
  shows "blocks_rel arc_rel f f'"
proof (cases "f' = f")
  case True
  then show ?thesis by (simp add: blocks_rel_def arc_rel_refl)
next
  case False
  let ?is = "insts (blocks f ! b)"
  obtain ptr j where p: "iop (inst_at f b k) = REFOP MIR_ARC_RETAIN ptr"
    "arc_search ptr [] (drop (Suc k) ?is) = Some j"
    "f' = set_op (set_op f b k NOP) b (Suc k + j) NOP"
    using assms(1) False by (auto simp: arc_step_def split: MirOp.splits MirRefOp.splits option.splits)
  have j: "Suc k + j < length ?is" "iop (?is ! (Suc k + j)) = REFOP MIR_ARC_RELEASE ptr"
    using arc_search_found[OF p(2)] by auto
  have "insts (blocks f' ! b) = ?is[k := (?is ! k)\<lparr>iop := NOP\<rparr>, Suc k + j := (?is ! (Suc k + j))\<lparr>iop := NOP\<rparr>]"
    using assms(2) by (simp add: p(3) set_op_def upd_block_def)
  then have "arc_rel ?is (insts (blocks f' ! b))"
    using arc_pair_rel[of k ?is "Suc k + j" ptr] assms(3) j p(1) by (simp add: inst_at_def)
  moreover have "blocks f' ! c = blocks f ! c" if "c \<noteq> b" for c
    using that by (simp add: p(3) set_op_def upd_block_def)
  moreover have "length (blocks f') = length (blocks f)" by (simp add: p(3) set_op_def upd_block_def)
  ultimately show ?thesis unfolding blocks_rel_def using arc_rel_refl by metis
qed

text \<open>
  The pairs \<open>P\<close> of a retain and a release that were made no-ops.  An instruction reads the operands
  the verifier checks; that a suspension reads the value it waits for is not seen by the pass.
\<close>

definition reads :: "MirInst \<Rightarrow> MirValueId \<Rightarrow> bool" where
  "reads i x \<longleftrightarrow> x \<in> set (verify_operands (iop i)) \<and> \<not> (\<exists>t. iop i = SUSPEND t x)"

definition arc_pair :: "MirInst list \<Rightarrow> nat \<Rightarrow> nat \<Rightarrow> bool" where
  "arc_pair is k j \<longleftrightarrow> k < j \<and> j < length is
     \<and> (\<exists>x. iop (is ! k) = REFOP MIR_ARC_RETAIN x \<and> iop (is ! j) = REFOP MIR_ARC_RELEASE x
            \<and> (\<forall>l. k < l \<and> l < j \<longrightarrow> \<not> reads (is ! l) x))"

definition elided :: "(nat \<times> nat) set \<Rightarrow> MirInst list \<Rightarrow> MirInst list \<Rightarrow> bool" where
  "elided P is is' \<longleftrightarrow> length is' = length is \<and> (\<forall>(k, j) \<in> P. arc_pair is k j)
     \<and> (\<forall>(k, j) \<in> P. \<forall>(k', j') \<in> P. (k, j) = (k', j') \<or> {k, j} \<inter> {k', j'} = {})
     \<and> (\<forall>l < length is. is' ! l = (if l \<in> fst ` P \<union> snd ` P then (is ! l)\<lparr>iop := NOP\<rparr> else is ! l))"

lemma reads_iff: "reads i x \<longleftrightarrow> value_used_in_inst i x"
  by (cases "iop i") (auto simp: reads_def value_used_in_inst_def)

lemma elidedD:
  assumes "elided P is js"
  shows "length js = length is" "(k, j) \<in> P \<Longrightarrow> arc_pair is k j"
    "(k, j) \<in> P \<Longrightarrow> (k', j') \<in> P \<Longrightarrow> (k, j) = (k', j') \<or> {k, j} \<inter> {k', j'} = {}"
    "l < length is \<Longrightarrow> js ! l = (if l \<in> fst ` P \<union> snd ` P then (is ! l)\<lparr>iop := NOP\<rparr> else is ! l)"
  using assms unfolding elided_def by blast+

lemma elidedI:
  assumes "length js = length is" "\<And>k j. (k, j) \<in> P \<Longrightarrow> arc_pair is k j"
    "\<And>k j k' j'. (k, j) \<in> P \<Longrightarrow> (k', j') \<in> P \<Longrightarrow> (k, j) = (k', j') \<or> {k, j} \<inter> {k', j'} = {}"
    "\<And>l. l < length is \<Longrightarrow> js ! l = (if l \<in> fst ` P \<union> snd ` P then (is ! l)\<lparr>iop := NOP\<rparr> else is ! l)"
  shows "elided P is js"
  using assms unfolding elided_def by (intro conjI; blast)

lemma elided_pair:
  assumes e: "elided P is js" and before: "\<And>k' j'. (k', j') \<in> P \<Longrightarrow> k' < k"
    and kj: "k < j" "j < length js" and ops: "iop (js ! k) = REFOP MIR_ARC_RETAIN x" "iop (js ! j) = REFOP MIR_ARC_RELEASE x"
    and gap: "\<And>l. k < l \<Longrightarrow> l < j \<Longrightarrow> \<not> reads (js ! l) x"
  shows "elided (insert (k, j) P) is (js[k := (js ! k)\<lparr>iop := NOP\<rparr>, j := (js ! j)\<lparr>iop := NOP\<rparr>])"
proof -
  note D = elidedD[OF e]
  have new: "k \<notin> fst ` P \<union> snd ` P" "j \<notin> fst ` P \<union> snd ` P"
    using D(4)[of k] D(4)[of j] D(1) kj ops by (auto split: if_splits)
  then have same: "js ! k = is ! k" "js ! j = is ! j" using D(4)[of k] D(4)[of j] D(1) kj by simp_all
  have "\<not> reads (is ! l) x" if l: "k < l" "l < j" for l
  proof (cases "l \<in> fst ` P \<union> snd ` P")
    case True
    then obtain k' j' where p: "(k', j') \<in> P" "l = k' \<or> l = j'" by force
    then have l': "l = j'" "k' < k" using before[OF p(1)] l by auto
    obtain y where y: "iop (is ! k') = REFOP MIR_ARC_RETAIN y" "iop (is ! j') = REFOP MIR_ARC_RELEASE y"
      "\<And>m. k' < m \<Longrightarrow> m < j' \<Longrightarrow> \<not> reads (is ! m) y" using D(2)[OF p(1)] unfolding arc_pair_def by blast
    have "x \<noteq> y" using y(3)[of k] l l' ops(1) same by (auto simp: reads_def)
    then show ?thesis using y(2) l'(1) by (auto simp: reads_def)
  qed (use gap[OF l] D(4)[of l] D(1) l kj in simp)
  then have new_pair: "arc_pair is k j" unfolding arc_pair_def using kj D(1) ops same by auto
  have apart: "{k, j} \<inter> {k', j'} = {}" if "(k', j') \<in> P" for k' j' using new rev_image_eqI[OF that, of _ fst] rev_image_eqI[OF that, of _ snd] by auto
  show ?thesis
  proof (rule elidedI)
    show "arc_pair is k1 j1" if "(k1, j1) \<in> insert (k, j) P" for k1 j1 using that new_pair D(2) by blast
    show "(k1, j1) = (k2, j2) \<or> {k1, j1} \<inter> {k2, j2} = {}"
      if "(k1, j1) \<in> insert (k, j) P" "(k2, j2) \<in> insert (k, j) P" for k1 j1 k2 j2
      using that D(3)[of k1 j1 k2 j2] apart[of k1 j1] apart[of k2 j2]
      by (cases "(k1, j1) \<in> P"; cases "(k2, j2) \<in> P") (auto 0 0)
    show "(js[k := (js ! k)\<lparr>iop := NOP\<rparr>, j := (js ! j)\<lparr>iop := NOP\<rparr>]) ! l =
        (if l \<in> fst ` insert (k, j) P \<union> snd ` insert (k, j) P then (is ! l)\<lparr>iop := NOP\<rparr> else is ! l)" if "l < length is" for l
      using D(1) D(4)[OF that] kj same that by (auto simp: nth_list_update)
  qed (use D(1) in simp)
qed

text \<open>The positions are visited in order, so the retains of the pairs made so far are behind.\<close>

definition elided_run :: "MirFunction \<Rightarrow> MirFunction \<Rightarrow> (bref \<times> nat) list \<Rightarrow> bool" where
  "elided_run f0 f ps \<longleftrightarrow> length (blocks f) = length (blocks f0) \<and> sorted_wrt (\<lambda>(b, k) (c, l). b = c \<longrightarrow> k < l) ps
     \<and> (\<forall>c < length (blocks f0). \<exists>P. elided P (insts (blocks f0 ! c)) (insts (blocks f ! c))
          \<and> (\<forall>(k', j') \<in> P. \<forall>k. (c, k) \<in> set ps \<longrightarrow> k' < k))"

lemma arc_step_elided:
  assumes r: "elided_run f0 f ((b, k) # ps)" and st: "arc_step f b k = Some (f', d)"
    and b: "b < length (blocks f)" "k < length (insts (blocks f ! b))"
  shows "elided_run f0 f' ps"
proof (cases "f' = f")
  case True
  have "(c, l) \<in> set ps \<Longrightarrow> (c, l) \<in> set ((b, k) # ps)" for c l by simp
  then show ?thesis using r True unfolding elided_run_def by (auto 0 4 simp del: set_simps)
next
  case False
  let ?is = "insts (blocks f ! b)"
  obtain ptr j where p: "iop (inst_at f b k) = REFOP MIR_ARC_RETAIN ptr"
    "arc_search ptr [] (drop (Suc k) ?is) = Some j"
    "f' = set_op (set_op f b k NOP) b (Suc k + j) NOP"
    using st False by (auto simp: arc_step_def split: MirOp.splits MirRefOp.splits option.splits)
  have j: "Suc k + j < length ?is" "iop (?is ! (Suc k + j)) = REFOP MIR_ARC_RELEASE ptr"
    and gap: "\<And>i. i \<in> set (take j (drop (Suc k) ?is)) \<Longrightarrow> \<not> reads i ptr"
    using arc_search_found[OF p(2)] by (auto simp: reads_iff)
  have quiet: "\<not> reads (?is ! l) ptr" if "k < l" "l < Suc k + j" for l
  proof -
    have "take j (drop (Suc k) ?is) ! (l - Suc k) = ?is ! l" "l - Suc k < length (take j (drop (Suc k) ?is))"
      using that j(1) by simp_all
    then show ?thesis using gap nth_mem by metis
  qed
  have bl: "insts (blocks f' ! b) = ?is[k := (?is ! k)\<lparr>iop := NOP\<rparr>, Suc k + j := (?is ! (Suc k + j))\<lparr>iop := NOP\<rparr>]"
    "\<And>c. c \<noteq> b \<Longrightarrow> blocks f' ! c = blocks f ! c" "length (blocks f') = length (blocks f)"
    using b(1) by (simp_all add: p(3) set_op_def upd_block_def)
  have ord: "sorted_wrt (\<lambda>(b, k) (c, l). b = c \<longrightarrow> k < l) ps" "\<And>l. (b, l) \<in> set ps \<Longrightarrow> k < l"
    using r by (auto simp: elided_run_def)
  have len: "length (blocks f) = length (blocks f0)" using r by (simp add: elided_run_def)
  have "\<exists>P. elided P (insts (blocks f0 ! c)) (insts (blocks f' ! c)) \<and> (\<forall>(k', j') \<in> P. \<forall>l. (c, l) \<in> set ps \<longrightarrow> k' < l)"
    if c: "c < length (blocks f0)" for c
  proof -
    obtain P where P: "elided P (insts (blocks f0 ! c)) (insts (blocks f ! c))"
      "\<And>k' j' l. (k', j') \<in> P \<Longrightarrow> (c, l) \<in> set ((b, k) # ps) \<Longrightarrow> k' < l"
      using r c unfolding elided_run_def by blast
    show ?thesis
    proof (cases "c = b")
      case True
      have "elided (insert (k, Suc k + j) P) (insts (blocks f0 ! b)) (insts (blocks f' ! b))"
        unfolding bl(1)
      proof (rule elided_pair)
        show "elided P (insts (blocks f0 ! b)) ?is" using P(1) True by simp
        show "iop (?is ! k) = REFOP MIR_ARC_RETAIN ptr" using p(1) by (simp add: inst_at_def)
      qed (use P(2) True j quiet in auto)
      then show ?thesis using P(2) ord(2) True by (intro exI[of _ "insert (k, Suc k + j) P"]) auto
    qed (use P bl(2) in \<open>auto intro!: exI[of _ P]\<close>)
  qed
  then show ?thesis using ord(1) bl(3) len by (simp add: elided_run_def)
qed

lemma positions_sorted: "distinct (block_list f) \<Longrightarrow> sorted_wrt (\<lambda>(b, k) (c, l). b = c \<longrightarrow> k < l) (positions f)"
proof -
  have "distinct bs \<Longrightarrow> sorted_wrt (\<lambda>(b, k) (c, l). b = c \<longrightarrow> k < l) (concat (map (\<lambda>b. map (Pair b) [0..<len b]) bs))" for bs :: "bref list" and len
    by (induction bs) (auto simp: sorted_wrt_append sorted_wrt_map)
  then show "distinct (block_list f) \<Longrightarrow> ?thesis" by (simp add: positions_def)
qed

text \<open>
  C20: ARC elision cancels a retain against the next release of the same value, and nothing else.  In
  each block the instructions that changed are disjoint pairs of a retain and a later release of one
  value, both made no-ops, with no instruction between them in the original block that reads the
  value (a suspension that waits for it apart); so for every value the number of retains minus the
  number of releases in the block is the same as before.
\<close>

theorem mir_pass_arc_elision_sound:
  assumes "handles_ok f" and "mir_pass_arc_elision f = Some (f', n)"
    and "b \<in> set (block_list f)"
  shows "(\<exists>P. elided P (insts (blocks f ! b)) (insts (blocks f' ! b)))
    \<and> (\<forall>x. arc_balance x (insts (blocks f' ! b)) = arc_balance x (insts (blocks f ! b)))"
proof -
  have run: "blocks_rel arc_rel f f'"
    if "run_steps arc_step f ps m = Some (f', n)"
      "\<And>c k. (c, k) \<in> set ps \<Longrightarrow> c < length (blocks f) \<and> k < length (insts (blocks f ! c))" for f ps m
    using that
  proof (induction ps arbitrary: f m)
    case (Cons p ps)
    obtain c k where p: "p = (c, k)" by fastforce
    with Cons.prems(1) obtain g d where g: "arc_step f c k = Some (g, d)" "run_steps arc_step g ps (m + d) = Some (f', n)"
      by (auto split: option.splits)
    have fg: "blocks_rel arc_rel f g" by (rule arc_step_rel[OF g(1)]) (use Cons.prems(2) p in auto)
    have "blocks_rel arc_rel g f'"
    proof (rule Cons.IH[OF g(2)])
      fix c' k' assume "(c', k') \<in> set ps"
      then have "c' < length (blocks f)" "k' < length (insts (blocks f ! c'))" using Cons.prems(2) by auto
      moreover from this have "list_all2 noped (insts (blocks f ! c')) (insts (blocks g ! c'))"
        using fg by (simp add: blocks_rel_def arc_rel_def)
      ultimately show "c' < length (blocks g) \<and> k' < length (insts (blocks g ! c'))"
        using fg by (simp add: blocks_rel_def list_all2_lengthD)
    qed
    with fg show ?case by (auto simp: blocks_rel_def intro: arc_rel_trans)
  qed (simp add: blocks_rel_def arc_rel_refl)
  have pairs: "elided_run f0 f' []"
    if "run_steps arc_step f ps m = Some (f', n)" "elided_run f0 f ps"
      "\<And>c k. (c, k) \<in> set ps \<Longrightarrow> c < length (blocks f) \<and> k < length (insts (blocks f ! c))" for f0 f ps m
    using that
  proof (induction ps arbitrary: f m)
    case (Cons p ps)
    obtain c k where p: "p = (c, k)" by fastforce
    with Cons.prems(1) obtain g d where g: "arc_step f c k = Some (g, d)" "run_steps arc_step g ps (m + d) = Some (f', n)"
      by (auto split: option.splits)
    have fg: "blocks_rel arc_rel f g" by (rule arc_step_rel[OF g(1)]) (use Cons.prems(3) p in auto)
    show ?case
    proof (rule Cons.IH[OF g(2)])
      show "elided_run f0 g ps" by (rule arc_step_elided[OF _ g(1)]) (use Cons.prems(2,3) p in auto)
      fix c' k' assume "(c', k') \<in> set ps"
      then have "c' < length (blocks f)" "k' < length (insts (blocks f ! c'))" using Cons.prems(3) by auto
      moreover from this have "list_all2 noped (insts (blocks f ! c')) (insts (blocks g ! c'))"
        using fg by (simp add: blocks_rel_def arc_rel_def)
      ultimately show "c' < length (blocks g) \<and> k' < length (insts (blocks g ! c'))"
        using fg by (simp add: blocks_rel_def list_all2_lengthD)
    qed
  qed simp
  have "blocks_rel arc_rel f f'"
    by (rule run[OF assms(2)[unfolded mir_pass_arc_elision_def]])
      (use assms(1) in \<open>auto simp: positions_def handles_ok_def\<close>)
  moreover have "elided_run f f' []"
  proof (rule pairs[OF assms(2)[unfolded mir_pass_arc_elision_def]])
    show "elided_run f f (positions f)"
      using assms(1) positions_sorted by (auto simp: elided_run_def elided_def handles_ok_def intro!: exI[of _ "{}"])
  qed (use assms(1) in \<open>auto simp: positions_def handles_ok_def\<close>)
  ultimately show ?thesis using assms(1,3) by (auto simp: blocks_rel_def arc_rel_def handles_ok_def elided_run_def)
qed

section \<open>Unreachable blocks\<close>

definition succs_of :: "MirFunction \<Rightarrow> bref \<Rightarrow> bref list" where
  "succs_of f b = successors (blocks f ! b)"

text \<open>What the builder maintains about block ids and edge lists.\<close>

definition edges_wf :: "MirFunction \<Rightarrow> bool" where
  "edges_wf f \<longleftrightarrow> handles_ok f \<and> inj_on (block_ident f) (set (block_list f))
     \<and> (\<forall>b \<in> set (block_list f). set (succs_of f b) \<subseteq> set (block_list f))
     \<and> (\<forall>b \<in> set (block_list f). distinct (predecessors (blocks f ! b)))
     \<and> (\<forall>a \<in> set (block_list f). \<forall>b \<in> set (block_list f).
          a \<in> set (predecessors (blocks f ! b)) \<longrightarrow> b \<in> set (succs_of f a))"

lemma swap_remove_distinct:
  assumes "distinct xs"
  shows "set (swap_remove (\<lambda>x. x = d) xs) = set xs - {d}" and "distinct (swap_remove (\<lambda>x. x = d) xs)"
proof -
  have "set (swap_remove (\<lambda>x. x = d) xs) = set xs - {d} \<and> distinct (swap_remove (\<lambda>x. x = d) xs)"
  proof (cases "find_index (\<lambda>x. x = d) xs")
    case None
    then have "d \<notin> set xs" by (auto simp: find_index_None)
    then show ?thesis using assms by (simp add: swap_remove_def None)
  next
    case (Some i)
    then have i: "i < length xs" "xs ! i = d" using find_index_Some[OF Some] by auto
    have eq: "swap_remove (\<lambda>x. x = d) xs = butlast (xs[i := last xs])" by (simp add: swap_remove_def Some)
    from i obtain ys z where xs: "xs = ys @ [z]" by (cases xs rule: rev_cases) auto
    show ?thesis
    proof (cases "i = length ys")
      case True
      then show ?thesis unfolding eq using i assms by (auto simp: xs)
    next
      case False
      then have l: "i < length ys" "ys ! i = d" using i by (auto simp: xs nth_append)
      then obtain as bs where ys: "ys = as @ d # bs" "length as = i" by (metis id_take_nth_drop length_take min.absorb4)
      then show ?thesis unfolding eq using assms by (auto simp: xs list_update_append butlast_append)
    qed
  qed
  then show "set (swap_remove (\<lambda>x. x = d) xs) = set xs - {d}" "distinct (swap_remove (\<lambda>x. x = d) xs)" by auto
qed

text \<open>\<open>g\<close> is \<open>f\<close> with the blocks \<open>D b\<close> taken out of the predecessor list of each block \<open>b\<close>.\<close>

definition drops :: "(bref \<Rightarrow> bref set) \<Rightarrow> MirFunction \<Rightarrow> MirFunction \<Rightarrow> bool" where
  "drops D f g \<longleftrightarrow> length (blocks g) = length (blocks f) \<and> block_list g = block_list f
     \<and> entry_block g = entry_block f
     \<and> (\<forall>b < length (blocks f). successors (blocks g ! b) = successors (blocks f ! b)
          \<and> bb_id (blocks g ! b) = bb_id (blocks f ! b)
          \<and> (distinct (predecessors (blocks f ! b)) \<longrightarrow> distinct (predecessors (blocks g ! b))
               \<and> set (predecessors (blocks g ! b)) = set (predecessors (blocks f ! b)) - D b))"

lemma drops_refl: "drops (\<lambda>b. {}) f f"
  by (simp add: drops_def)

lemma drops_trans: "drops D f g \<Longrightarrow> drops E g h \<Longrightarrow> drops (\<lambda>b. D b \<union> E b) f h"
  by (auto simp: drops_def)

lemma drops_one:
  "s < length (blocks f) \<Longrightarrow>
   drops (\<lambda>b. if b = s then {d} else {}) f (upd_block f s (\<lambda>blk. cfg_remove_pred blk d))"
  using swap_remove_distinct[of "predecessors (blocks f ! s)" d]
  by (auto simp: drops_def upd_block_def nth_list_update cfg_remove_pred_def)

lemma drops_fold:
  assumes "\<And>g x. length (blocks g) = length (blocks f) \<Longrightarrow>
      (\<forall>b < length (blocks f). successors (blocks g ! b) = successors (blocks f ! b)) \<Longrightarrow>
      x \<in> set xs \<Longrightarrow> drops (D x) g (h g x)"
  shows "drops (\<lambda>b. \<Union>x \<in> set xs. D x b) f (foldl h f xs)"
proof -
  have "drops (\<lambda>b. \<Union>x \<in> set xs. D x b) g (foldl h g xs)"
    if "length (blocks g) = length (blocks f)" "\<forall>b < length (blocks f). successors (blocks g ! b) = successors (blocks f ! b)"
    for g
    using that assms
  proof (induction xs arbitrary: g)
    case (Cons x xs)
    have 1: "drops (D x) g (h g x)" using Cons.prems by simp
    have "drops (\<lambda>b. \<Union>x \<in> set xs. D x b) (h g x) (foldl h (h g x) xs)"
    proof (rule Cons.IH)
      show "length (blocks (h g x)) = length (blocks f)" using 1 Cons.prems(1) by (simp add: drops_def)
      show "\<forall>b < length (blocks f). successors (blocks (h g x) ! b) = successors (blocks f ! b)"
        using 1 Cons.prems(1,2) by (simp add: drops_def)
    qed (use Cons.prems(3) in simp)
    from drops_trans[OF 1 this] show ?case by simp
  qed (simp add: drops_refl)
  then show ?thesis by simp
qed

lemma unlink_block_drops:
  assumes "set (successors (blocks f ! d)) \<subseteq> {..< length (blocks f)}"
  shows "drops (\<lambda>b. if b \<in> set (successors (blocks f ! d)) then {d} else {}) f (unlink_block f d)"
proof -
  have "drops (\<lambda>b. \<Union>s \<in> set (successors (blocks f ! d)). if b = s then {d} else {}) f (unlink_block f d)"
    unfolding unlink_block_def by (rule drops_fold) (use assms in \<open>auto intro!: drops_one\<close>)
  moreover have "(\<lambda>b. \<Union>s \<in> set (successors (blocks f ! d)). if b = s then {d} else {})
      = (\<lambda>b. if b \<in> set (successors (blocks f ! d)) then {d} else {})" by (intro ext) auto
  ultimately show ?thesis by simp
qed

lemma unlink_blocks_drops:
  assumes "\<And>d. d \<in> set ds \<Longrightarrow> d < length (blocks f) \<and> set (successors (blocks f ! d)) \<subseteq> {..< length (blocks f)}"
  shows "drops (\<lambda>b. \<Union>d \<in> set ds. if b \<in> set (successors (blocks f ! d)) then {d} else {}) f (foldl unlink_block f ds)"
proof (rule drops_fold)
  fix g :: MirFunction and d
  assume g: "length (blocks g) = length (blocks f)" "\<forall>b < length (blocks f). successors (blocks g ! b) = successors (blocks f ! b)"
    and d: "d \<in> set ds"
  then have "successors (blocks g ! d) = successors (blocks f ! d)" using assms by blast
  then show "drops (\<lambda>b. if b \<in> set (successors (blocks f ! d)) then {d} else {}) g (unlink_block g d)"
    using unlink_block_drops[of g d] assms[OF d] g(1) by simp
qed

lemma renumber_effect:
  assumes "distinct bs" and "\<And>b. b \<in> set bs \<Longrightarrow> b < length (blocks f)"
  shows "block_list (renumber f bs n) = block_list f \<and> block_count (renumber f bs n) = n + length bs
    \<and> entry_block (renumber f bs n) = entry_block f
    \<and> (\<forall>j < length bs. bb_id (blocks (renumber f bs n) ! (bs ! j)) = n + j)
    \<and> (\<forall>b. predecessors (blocks (renumber f bs n) ! b) = predecessors (blocks f ! b))
    \<and> (\<forall>b. b \<notin> set bs \<longrightarrow> blocks (renumber f bs n) ! b = blocks f ! b)"
  using assms
proof (induction bs arbitrary: f n)
  case (Cons b bs)
  let ?g = "upd_block f b (\<lambda>blk. blk\<lparr>bb_id := n\<rparr>)"
  have g: "block_list ?g = block_list f" "entry_block ?g = entry_block f" "length (blocks ?g) = length (blocks f)"
    by (simp_all add: upd_block_def)
  have gp: "predecessors (blocks ?g ! c) = predecessors (blocks f ! c)" for c
    using Cons.prems(2)[of b] by (cases "c = b") (auto simp: upd_block_def)
  have gb: "bb_id (blocks ?g ! b) = n" using Cons.prems(2)[of b] by (simp add: upd_block_def)
  have go: "blocks ?g ! c = blocks f ! c" if "c \<noteq> b" for c using that by (simp add: upd_block_def)
  note IH = Cons.IH[of ?g "n + 1"]
  from Cons.prems IH g gp gb go show ?case
    by (auto simp: less_Suc_eq_0_disj)
qed auto

lemma max_block_id_ge: "b \<in> set (block_list f) \<Longrightarrow> block_ident f b \<le> max_block_id f"
proof -
  have "m \<le> foldl (\<lambda>m b. if block_ident f b > m then block_ident f b else m) m bs
      \<and> (\<forall>b \<in> set bs. block_ident f b \<le> foldl (\<lambda>m b. if block_ident f b > m then block_ident f b else m) m bs)" for m bs
    by (induction bs arbitrary: m) (auto intro: order_trans, (meson le_cases order_trans not_less)+)
  then show "b \<in> set (block_list f) \<Longrightarrow> block_ident f b \<le> max_block_id f" by (simp add: max_block_id_def)
qed

lemma remove_unreachable_exact:
  assumes wf: "edges_wf f" and e: "entry_block f = Some e" "e \<in> set (block_list f)"
    and n: "\<not> is_extern f" "1 < length (block_list f)"
  defines "f' \<equiv> mir_remove_unreachable_blocks f"
  shows "block_list f' = filter (\<lambda>b. (e, b) \<in> (succ_rel (succs_of f))\<^sup>*) (block_list f)
    \<and> block_count f' = length (block_list f')
    \<and> (\<forall>j < length (block_list f'). bb_id (blocks f' ! (block_list f' ! j)) = j)
    \<and> (\<forall>b \<in> set (block_list f'). \<forall>p \<in> set (predecessors (blocks f' ! b)). p \<in> set (block_list f) \<longrightarrow> p \<in> set (block_list f'))"
proof -
  let ?D = "set (block_list f)"
  have h: "distinct (block_list f)" "\<And>b. b \<in> ?D \<Longrightarrow> b < length (blocks f)" "inj_on (block_ident f) ?D"
    "\<And>a b. a \<in> ?D \<Longrightarrow> b \<in> set (succs_of f a) \<Longrightarrow> b \<in> ?D"
    using wf by (auto simp: edges_wf_def handles_ok_def)
  define dead where "dead b \<longleftrightarrow> Some b \<noteq> entry_block f \<and> \<not> reach_marks f e ! block_ident f b" for b
  have marks: "reach_marks f e ! block_ident f b \<longleftrightarrow> (e, b) \<in> (succ_rel (succs_of f))\<^sup>*" if "b \<in> ?D" for b
    unfolding reach_marks_def succs_of_def[symmetric, abs_def]
    by (rule bfs_reachable[OF h(3) _ h(4) e(2) that]) (use max_block_id_ge in \<open>auto simp: less_Suc_eq_le\<close>)
  have alive: "\<not> dead b \<longleftrightarrow> (e, b) \<in> (succ_rel (succs_of f))\<^sup>*" if "b \<in> ?D" for b
    using marks[OF that] e(1) by (auto simp: dead_def)
  have dd: "dead = (\<lambda>b. b \<noteq> e \<and> \<not> reach_marks f e ! block_ident f b)"
    using e(1) by (intro ext) (simp add: dead_def)
  define g where "g = foldl unlink_block f (filter dead (block_list f))"
  define f1 where "f1 = g\<lparr>block_list := filter (\<lambda>b. \<not> dead b) (block_list f)\<rparr>"
  have f': "f' = renumber f1 (block_list f1) 0"
    using e n by (simp add: f'_def mir_remove_unreachable_blocks_def unlink_dead_def Let_def f1_def g_def dd)
  have dr: "drops (\<lambda>b. \<Union>d \<in> set (filter dead (block_list f)). if b \<in> set (successors (blocks f ! d)) then {d} else {}) f g"
    unfolding g_def by (rule unlink_blocks_drops) (use h(2,4) in \<open>auto simp: succs_of_def\<close>)
  have rn: "block_list f' = block_list f1" "block_count f' = length (block_list f1)"
    "\<forall>j < length (block_list f1). bb_id (blocks f' ! (block_list f1 ! j)) = j"
    "\<And>b. predecessors (blocks f' ! b) = predecessors (blocks g ! b)"
    using renumber_effect[of "block_list f1" f1 0] h(1,2) dr
    by (auto simp: f' f1_def drops_def)
  have bl: "block_list f1 = filter (\<lambda>b. (e, b) \<in> (succ_rel (succs_of f))\<^sup>*) (block_list f)"
    using alive by (auto simp: f1_def intro: filter_cong)
  have "p \<in> set (block_list f1)"
    if b: "b \<in> set (block_list f1)" and p: "p \<in> set (predecessors (blocks g ! b))" "p \<in> ?D" for b p
  proof (rule ccontr)
    assume "p \<notin> set (block_list f1)"
    then have "dead p" using p(2) by (simp add: f1_def)
    have bD: "b \<in> ?D" using b by (simp add: f1_def)
    have "distinct (predecessors (blocks f ! b))" using wf bD by (simp add: edges_wf_def)
    with dr h(2)[OF bD] p(1) have "p \<in> set (predecessors (blocks f ! b))"
      and nd: "\<not> (b \<in> set (successors (blocks f ! p)) \<and> p \<in> set (filter dead (block_list f)))"
      by (auto simp: drops_def)
    with wf bD p(2) \<open>dead p\<close> show False by (auto simp: edges_wf_def succs_of_def)
  qed
  with rn bl show ?thesis by simp
qed

text \<open>
  C19: Removing unreachable blocks keeps exactly the blocks reachable from the entry along successor
  edges, in their order; renumbers them from zero without gaps; and leaves no predecessor entry that
  names a removed block.
\<close>

theorem mir_remove_unreachable_blocks_exact:
  assumes wf: "edges_wf f" and e: "entry_block f = Some e" "e \<in> set (block_list f)"
    and n: "\<not> is_extern f" "1 < length (block_list f)"
  defines "f' \<equiv> mir_remove_unreachable_blocks f"
  shows "block_list f' = filter (\<lambda>b. (e, b) \<in> (succ_rel (succs_of f))\<^sup>*) (block_list f)
    \<and> block_count f' = length (block_list f')
    \<and> (\<forall>j < length (block_list f'). bb_id (blocks f' ! (block_list f' ! j)) = j)
    \<and> (\<forall>b \<in> set (block_list f'). \<forall>p \<in> set (predecessors (blocks f' ! b)). p \<in> set (block_list f) \<longrightarrow> p \<in> set (block_list f'))"
  unfolding f'_def by (rule remove_unreachable_exact[OF wf e n])

section \<open>A concrete function\<close>

definition demo_opt :: MirFunction where
  "demo_opt =
     \<lparr>fname = ''f'', return_type = Some 0, params = [], entry_block = Some 0, block_list = [0, 1, 2],
      blocks = [\<lparr>bb_id = 0, label = ''entry'',
                 insts = [\<lparr>iop = CONST_INT 6, result = 1, itype = Some 0\<rparr>,
                          \<lparr>iop = CONST_INT 7, result = 2, itype = Some 0\<rparr>,
                          \<lparr>iop = BINARY MIR_MUL 1 2, result = 3, itype = Some 0\<rparr>,
                          \<lparr>iop = CONST_INT 9, result = 4, itype = Some 0\<rparr>,
                          \<lparr>iop = REFOP MIR_ARC_RETAIN 3, result = 0, itype = None\<rparr>,
                          \<lparr>iop = REFOP MIR_ARC_RELEASE 3, result = 0, itype = None\<rparr>,
                          \<lparr>iop = BR (Some 1), result = 0, itype = None\<rparr>],
                 inst_count = 7, predecessors = [], successors = [1]\<rparr>,
                \<lparr>bb_id = 1, label = ''exit'',
                 insts = [\<lparr>iop = RET 3, result = 0, itype = None\<rparr>],
                 inst_count = 1, predecessors = [0, 2], successors = []\<rparr>,
                \<lparr>bb_id = 2, label = ''lost'',
                 insts = [\<lparr>iop = DEBUGLOC 1 1, result = 0, itype = None\<rparr>, \<lparr>iop = BR (Some 1), result = 0, itype = None\<rparr>],
                 inst_count = 2, predecessors = [], successors = [1]\<rparr>],
      block_count = 3, next_value_id = 5, value_types = [None, Some 0, Some 0, Some 0, Some 0],
      is_constexpr = False, is_extern = False, is_async = False\<rparr>"

definition no_stats :: MirOptStats where
  "no_stats =
     \<lparr>constants_folded = 0, copies_propagated = 0, dead_insts_eliminated = 0, branches_simplified = 0,
      strength_reductions = 0, arc_pairs_elided = 0, blocks_merged = 0, total_passes = 0\<rparr>"

lemma demo_opt_handles: "handles_ok demo_opt"
  by (simp add: handles_ok_def demo_opt_def)


theorem mir_pass_arc_elision_sound_witness:
  "\<exists>f'. mir_pass_arc_elision demo_opt = Some (f', 1) \<and> iop (insts (blocks f' ! 0) ! 4) = NOP \<and> arc_pair (insts (blocks demo_opt ! 0)) 4 5"
proof -
  have c: "map_option (\<lambda>(f', n). (iop (insts (blocks f' ! 0) ! 4), n)) (mir_pass_arc_elision demo_opt) = Some (NOP, 1)" by code_simp
  then obtain f' where r: "mir_pass_arc_elision demo_opt = Some (f', 1)" "iop (insts (blocks f' ! 0) ! 4) = NOP" by auto
  have "0 \<in> set (block_list demo_opt)" by (simp add: demo_opt_def)
  from mir_pass_arc_elision_sound[OF demo_opt_handles r(1) this]
  obtain P where e: "elided P (insts (blocks demo_opt ! 0)) (insts (blocks f' ! 0))" by blast
  have i: "length (insts (blocks demo_opt ! 0)) = 7"
    "map iop (insts (blocks demo_opt ! 0)) = [CONST_INT 6, CONST_INT 7, BINARY MIR_MUL 1 2, CONST_INT 9,
       REFOP MIR_ARC_RETAIN 3, REFOP MIR_ARC_RELEASE 3, BR (Some 1)]" by (simp_all add: demo_opt_def)
  have ops: "iop (insts (blocks demo_opt ! 0) ! l) = [CONST_INT 6, CONST_INT 7, BINARY MIR_MUL 1 2, CONST_INT 9,
       REFOP MIR_ARC_RETAIN 3, REFOP MIR_ARC_RELEASE 3, BR (Some 1)] ! l" if "l < 7" for l
    using that i(1) arg_cong[OF i(2), of "\<lambda>xs. xs ! l"] by simp
  have "4 \<in> fst ` P \<union> snd ` P" using elidedD(4)[OF e, of 4] r(2) ops[of 4] i(1) by (auto split: if_splits)
  then obtain k j where p: "(k, j) \<in> P" "k = 4 \<or> j = 4" by force
  note a = elidedD(2)[OF e p(1), unfolded arc_pair_def i(1)]
  have "k < 7" "j < 7" using a by auto
  then have "k = 4" "j = 5" using a ops[of k] ops[of j] p(2) by (auto simp: less_Suc_eq eval_nat_numeral)
  then show ?thesis using elidedD(2)[OF e p(1)] r by blast
qed

text \<open>
  A suspension is not a use for the optimiser: the definition of the value it waits for is deleted, and
  a retain before it is cancelled against the release behind it.
\<close>

definition awaiting :: "MirInst list \<Rightarrow> MirFunction" where
  "awaiting is = demo_opt\<lparr>block_list := [0], blocks := [\<lparr>bb_id = 0, label = ''entry'', insts = is, inst_count = int (length is),
     predecessors = [], successors = []\<rparr>]\<rparr>"

theorem suspended_value_lost:
  "map iop (all_insts (fst (mir_pass_dead_code_eliminate (awaiting
     [\<lparr>iop = GLOBAL_ADDR ''job'', result = 1, itype = Some 0\<rparr>, \<lparr>iop = SUSPEND None 1, result = 2, itype = Some 0\<rparr>,
      \<lparr>iop = RET 2, result = 0, itype = None\<rparr>])))) = [SUSPEND None 1, RET 2]"
  "map_option (\<lambda>r. map iop (all_insts (fst r))) (mir_pass_arc_elision (awaiting
     [\<lparr>iop = REFOP MIR_ARC_RETAIN 1, result = 0, itype = None\<rparr>, \<lparr>iop = SUSPEND None 1, result = 2, itype = Some 0\<rparr>,
      \<lparr>iop = REFOP MIR_ARC_RELEASE 1, result = 0, itype = None\<rparr>])) = Some [NOP, SUSPEND None 1, NOP]"
  by code_simp+

lemma demo_opt_edges: "edges_wf demo_opt"
proof -
  have "block_list demo_opt = [0, 1, 2]" "block_ident demo_opt 0 = 0" "block_ident demo_opt (Suc 0) = 1"
    "block_ident demo_opt 2 = 2" "succs_of demo_opt 0 = [1]" "succs_of demo_opt (Suc 0) = []" "succs_of demo_opt 2 = [1]"
    "predecessors (blocks demo_opt ! 0) = []" "predecessors (blocks demo_opt ! Suc 0) = [0, 2]"
    "predecessors (blocks demo_opt ! 2) = []"
    by (simp_all add: demo_opt_def block_ident_def succs_of_def numeral_2_eq_2)
  then show ?thesis using demo_opt_handles by (auto simp: edges_wf_def inj_on_def)
qed

theorem mir_remove_unreachable_blocks_exact_witness:
  "block_count (mir_remove_unreachable_blocks demo_opt) = length (block_list (mir_remove_unreachable_blocks demo_opt))
   \<and> block_list (mir_remove_unreachable_blocks demo_opt) = [0, 1]"
proof -
  have "entry_block demo_opt = Some 0" "0 \<in> set (block_list demo_opt)" "\<not> is_extern demo_opt" "1 < length (block_list demo_opt)"
    by (simp_all add: demo_opt_def)
  from mir_remove_unreachable_blocks_exact[OF demo_opt_edges this]
  have "block_count (mir_remove_unreachable_blocks demo_opt) = length (block_list (mir_remove_unreachable_blocks demo_opt))"
    by blast
  moreover have "block_list (mir_remove_unreachable_blocks demo_opt) = [0, 1]" by code_simp
  ultimately show ?thesis by blast
qed

end
