(* ===== verification/Fast_Format.thy ===== *)
theory Fast_Format
  imports Casprix_Prelude
begin

text \<open>
  The formatting buffer of \<^verbatim>\<open>runtime/io/fast_format.c\<close>, which the VM and its diagnostics print
  through.  The storage is a list of \<open>cap\<close> characters, written in place; \<^verbatim>\<open>size_t\<close> values are
  natural numbers (lengths are bounded by the storage).  Floating-point output
  (\<^verbatim>\<open>cpx_fmt_append_f64_6\<close>) is not modelled.
\<close>

section \<open>The buffer\<close>

abbreviation NUL :: char where "NUL \<equiv> CHR 0x00"

record CpxFmtBuffer =
  fdata :: string
  fcap :: nat
  flen :: nat
  truncated :: bool

definition cpx_fmt_init :: "string \<Rightarrow> nat \<Rightarrow> CpxFmtBuffer" where
  "cpx_fmt_init storage c =
     \<lparr>fdata = (if c > 0 then storage[0 := NUL] else storage), fcap = c, flen = 0, truncated = False\<rparr>"

definition cpx_fmt_putc :: "CpxFmtBuffer \<Rightarrow> char \<Rightarrow> CpxFmtBuffer" where
  "cpx_fmt_putc b c =
     (if flen b + 1 < fcap b
      then b\<lparr>fdata := (fdata b)[flen b := c, flen b + 1 := NUL], flen := flen b + 1\<rparr>
      else b\<lparr>truncated := True\<rparr>)"

text \<open>\<^verbatim>\<open>memcpy(data + off, s, n)\<close>\<close>

definition mem_copy :: "string \<Rightarrow> nat \<Rightarrow> string \<Rightarrow> string" where
  "mem_copy d off s = take off d @ s @ drop (off + length s) d"

definition cpx_fmt_append_mem :: "CpxFmtBuffer \<Rightarrow> string \<Rightarrow> CpxFmtBuffer" where
  "cpx_fmt_append_mem b s =
     (if s = [] then b
      else
        (let avail = (if fcap b > flen b + 1 then fcap b - flen b - 1 else 0);
             n = (if length s < avail then length s else avail);
             b1 = (if n > 0
                   then b\<lparr>fdata := (mem_copy (fdata b) (flen b) (take n s))[flen b + n := NUL],
                          flen := flen b + n\<rparr>
                   else b)
         in if n \<noteq> length s then b1\<lparr>truncated := True\<rparr> else b1))"

definition cpx_fmt_append_cstr :: "CpxFmtBuffer \<Rightarrow> string option \<Rightarrow> CpxFmtBuffer" where
  "cpx_fmt_append_cstr b s =
     (case s of None \<Rightarrow> cpx_fmt_append_mem b ''(null)'' | Some t \<Rightarrow> cpx_fmt_append_mem b t)"

section \<open>Numbers\<close>

definition kDigits2 :: string where
  "kDigits2 =
    ''00010203040506070809'' @
    ''10111213141516171819'' @
    ''20212223242526272829'' @
    ''30313233343536373839'' @
    ''40414243444546474849'' @
    ''50515253545556575859'' @
    ''60616263646566676869'' @
    ''70717273747576777879'' @
    ''80818283848586878889'' @
    ''90919293949596979899''"

definition kHexDigits :: string where
  "kHexDigits = ''0123456789abcdef''"

text \<open>The quotient by 100, by a multiplication and a shift when the value fits 32 bits.\<close>

definition quot100 :: "u64 \<Rightarrow> u64" where
  "quot100 v =
     (if v \<le> 0xFFFFFFFF then drop_bit 37 (ucast (ucast v :: u32) * 0x51EB851F) else v div 100)"

lemma magic_100:
  assumes "(v::nat) < 2 ^ 32"
  shows "v * 0x51EB851F div 2 ^ 37 = v div 100"
proof -
  define a b where "a = v div 100" and "b = v mod 100"
  have v: "v = 100 * a + b" "b < 100" by (simp_all add: a_def b_def)
  have "v * 0x51EB851F div 2 ^ 37 = a"
    by (rule div_nat_eqI) (use assms v in simp_all)
  then show ?thesis by (simp add: a_def)
qed

lemma ucast_ucast32:
  assumes "unat (v :: u64) < 2 ^ 32"
  shows "(ucast (ucast v :: u32) :: u64) = v"
proof -
  have "unat (ucast (ucast v :: u32) :: u64) = unat v"
    using assms take_bit_nat_eq_self[of "unat v" 32] unsigned_ucast_eq[of v, where ?'a = nat and ?'c = 32]
      unsigned_ucast_eq[of "ucast v :: u32", where ?'a = nat and ?'c = 64]
    by (simp add: take_bit_nat_eq_self del: unsigned_ucast_eq)
  then show ?thesis by (rule unsigned_word_eqI)
qed

lemma quot100_div: "quot100 v = v div 100"
proof (cases "v \<le> 0xFFFFFFFF")
  case True
  then have n: "unat v < 2 ^ 32" by (simp add: word_le_nat_alt)
  note c = ucast_ucast32[OF n]
  have "unat (drop_bit 37 (v * 0x51EB851F)) = unat v * 0x51EB851F div 2 ^ 37"
    using n by (simp add: unat_drop_bit_eq drop_bit_eq_div unat_word_ariths)
  also have "\<dots> = unat (v div 100)" using magic_100[OF n] by (simp add: unat_div)
  finally show ?thesis using True by (auto simp: quot100_def c intro: unsigned_word_eqI)
qed (simp add: quot100_def)

text \<open>
  The digit loop: \<^verbatim>\<open>tmp\<close> is filled from its end, so the part written so far is the accumulator
  and each \<^verbatim>\<open>tmp[--p] = c\<close> adds a character in front.
\<close>

function fmt_u64_digits :: "u64 \<Rightarrow> string \<Rightarrow> string" where
  "fmt_u64_digits v acc =
     (if v \<ge> 100 then
        (let q = quot100 v; r = (ucast (v - q * 100) :: u32)
         in fmt_u64_digits q (kDigits2 ! (unat r * 2) # kDigits2 ! (unat r * 2 + 1) # acc))
      else if v < 10 then char_of (48 + unat v) # acc
      else (let r = (ucast v :: u32)
            in kDigits2 ! (unat r * 2) # kDigits2 ! (unat r * 2 + 1) # acc))"
  by pat_completeness auto
termination
proof (relation "measure (\<lambda>(v, acc). unat v)")
  fix v q :: u64 and acc :: string and r :: u32
  assume "100 \<le> v" and "q = quot100 v"
  then show "((q, kDigits2 ! (unat r * 2) # kDigits2 ! (unat r * 2 + 1) # acc), v, acc)
      \<in> measure (\<lambda>(v, acc). unat v)"
    by (simp add: quot100_div unat_div word_le_nat_alt)
qed simp

declare fmt_u64_digits.simps [simp del]

definition cpx_fmt_append_u64 :: "CpxFmtBuffer \<Rightarrow> u64 \<Rightarrow> CpxFmtBuffer" where
  "cpx_fmt_append_u64 b v = cpx_fmt_append_mem b (fmt_u64_digits v [])"

definition cpx_fmt_append_i64 :: "CpxFmtBuffer \<Rightarrow> u64 \<Rightarrow> CpxFmtBuffer" where
  "cpx_fmt_append_i64 b v =
     (if sint v < 0 then
        (let b1 = cpx_fmt_putc b (CHR ''-'')
         in if sint v = - (2 ^ 63) then cpx_fmt_append_mem b1 ''9223372036854775808''
            else cpx_fmt_append_u64 b1 (- v))
      else cpx_fmt_append_u64 b v)"

function fmt_hex_digits :: "u64 \<Rightarrow> string \<Rightarrow> string" where
  "fmt_hex_digits v acc =
     (let acc1 = kHexDigits ! unat (v AND 0xF) # acc; v1 = drop_bit 4 v
      in if v1 \<noteq> 0 then fmt_hex_digits v1 acc1 else acc1)"
  by pat_completeness auto
termination
proof (relation "measure (\<lambda>(v, acc). unat v)")
  fix v v1 :: u64 and acc acc1 :: string
  assume "v1 = drop_bit 4 v" and "v1 \<noteq> 0"
  then have "0 < unat v div 16" and "unat v1 = unat v div 16"
    using unat_drop_bit_eq[of 4 v] unat_gt_0[of v1] by (auto simp: drop_bit_eq_div)
  then show "((v1, acc1), v, acc) \<in> measure (\<lambda>(v, acc). unat v)" by simp
qed simp

declare fmt_hex_digits.simps [simp del]

definition cpx_fmt_append_hex_u64 :: "CpxFmtBuffer \<Rightarrow> u64 \<Rightarrow> bool \<Rightarrow> CpxFmtBuffer" where
  "cpx_fmt_append_hex_u64 b v with_prefix =
     cpx_fmt_append_mem (if with_prefix then cpx_fmt_append_mem b ''0x'' else b) (fmt_hex_digits v [])"

section \<open>Formatted output\<close>

text \<open>
  The variadic arguments still to be read, tagged with the type the caller passed: fetching one
  with another type, or past the end, is undefined in C and \<open>None\<close> here.  An \<^verbatim>\<open>int\<close>
  and an \<^verbatim>\<open>unsigned int\<close> share a constructor, as do the two 64-bit types.
\<close>

datatype FmtArg = ArgI32 u32 | ArgI64 u64 | ArgStr "string option" | ArgPtr u64

fun va_i32 :: "FmtArg list \<Rightarrow> (u32 \<times> FmtArg list) option" where
  "va_i32 (ArgI32 w # ap) = Some (w, ap)"
| "va_i32 _ = None"

fun va_i64 :: "FmtArg list \<Rightarrow> (u64 \<times> FmtArg list) option" where
  "va_i64 (ArgI64 w # ap) = Some (w, ap)"
| "va_i64 _ = None"

fun va_str :: "FmtArg list \<Rightarrow> (string option \<times> FmtArg list) option" where
  "va_str (ArgStr s # ap) = Some (s, ap)"
| "va_str _ = None"

fun va_ptr :: "FmtArg list \<Rightarrow> (u64 \<times> FmtArg list) option" where
  "va_ptr (ArgPtr w # ap) = Some (w, ap)"
| "va_ptr _ = None"

fun fmt_loop :: "CpxFmtBuffer \<Rightarrow> string \<Rightarrow> FmtArg list \<Rightarrow> CpxFmtBuffer option" where
  "fmt_loop b [] ap = Some b"
| "fmt_loop b [c] ap = (if c \<noteq> CHR ''%'' then Some (cpx_fmt_putc b c) else Some b)"
| "fmt_loop b (c # d # p) ap =
     (if c \<noteq> CHR ''%'' then fmt_loop (cpx_fmt_putc b c) (d # p) ap
      else if d = CHR ''%'' then fmt_loop (cpx_fmt_putc b (CHR ''%'')) p ap
      else if d = CHR ''s'' then
        (case va_str ap of None \<Rightarrow> None | Some (s, ap') \<Rightarrow> fmt_loop (cpx_fmt_append_cstr b s) p ap')
      else if d = CHR ''d'' \<or> d = CHR ''i'' then
        (case va_i32 ap of None \<Rightarrow> None
         | Some (w, ap') \<Rightarrow> fmt_loop (cpx_fmt_append_i64 b (scast w)) p ap')
      else if d = CHR ''u'' then
        (case va_i32 ap of None \<Rightarrow> None
         | Some (w, ap') \<Rightarrow> fmt_loop (cpx_fmt_append_u64 b (ucast w)) p ap')
      else if d = CHR ''l'' then
        (case p of
           n # conv # p' \<Rightarrow>
             if n = CHR ''l'' \<and> (conv = CHR ''d'' \<or> conv = CHR ''i'') then
               (case va_i64 ap of None \<Rightarrow> None
                | Some (w, ap') \<Rightarrow> fmt_loop (cpx_fmt_append_i64 b w) p' ap')
             else if n = CHR ''l'' \<and> conv = CHR ''u'' then
               (case va_i64 ap of None \<Rightarrow> None
                | Some (w, ap') \<Rightarrow> fmt_loop (cpx_fmt_append_u64 b w) p' ap')
             else fmt_loop (cpx_fmt_putc (cpx_fmt_putc b (CHR ''%'')) (CHR ''l'')) p ap
         | _ \<Rightarrow> fmt_loop (cpx_fmt_putc (cpx_fmt_putc b (CHR ''%'')) (CHR ''l'')) p ap)
      else if d = CHR ''x'' then
        (case va_i32 ap of None \<Rightarrow> None
         | Some (w, ap') \<Rightarrow> fmt_loop (cpx_fmt_append_hex_u64 b (ucast w) False) p ap')
      else if d = CHR ''p'' then
        (case va_ptr ap of None \<Rightarrow> None
         | Some (w, ap') \<Rightarrow> fmt_loop (cpx_fmt_append_hex_u64 b w True) p ap')
      else fmt_loop (cpx_fmt_putc (cpx_fmt_putc b (CHR ''%'')) d) p ap)"

text \<open>The storage after the call and the returned length.\<close>

definition cpx_fmt_vsnprintf ::
    "string \<Rightarrow> nat \<Rightarrow> string option \<Rightarrow> FmtArg list \<Rightarrow> (string \<times> nat) option" where
  "cpx_fmt_vsnprintf out out_cap fmt ap =
     (let b = cpx_fmt_init out out_cap
      in case fmt of
           None \<Rightarrow> Some (fdata b, 0)
         | Some f \<Rightarrow>
             (case fmt_loop b f ap of None \<Rightarrow> None | Some b' \<Rightarrow> Some (fdata b', flen b')))"

section \<open>Decimal and hexadecimal numerals\<close>

definition digit :: "nat \<Rightarrow> char" where
  "digit n = char_of (48 + n)"

fun dec_digits :: "nat \<Rightarrow> string" where
  "dec_digits n = (if n < 10 then [digit n] else dec_digits (n div 10) @ [digit (n mod 10)])"

declare dec_digits.simps [simp del]

definition dec_value :: "string \<Rightarrow> nat" where
  "dec_value s = foldl (\<lambda>n c. 10 * n + (of_char c - 48)) 0 s"

fun hex_digits :: "nat \<Rightarrow> string" where
  "hex_digits n =
     (if n < 16 then [kHexDigits ! n] else hex_digits (n div 16) @ [kHexDigits ! (n mod 16)])"

declare hex_digits.simps [simp del]

definition int_text :: "int \<Rightarrow> string" where
  "int_text i = (if i < 0 then CHR ''-'' # dec_digits (nat (- i)) else dec_digits (nat i))"

definition int_value :: "string \<Rightarrow> int" where
  "int_value s =
     (case s of c # cs \<Rightarrow> if c = CHR ''-'' then - int (dec_value cs) else int (dec_value s) | [] \<Rightarrow> 0)"

lemma of_char_digit: "n < 10 \<Longrightarrow> (of_char (digit n) :: nat) = 48 + n"
  by (simp add: digit_def of_char_of)

lemma dec_value_digits [simp]: "dec_value (dec_digits n) = n"
proof (induction n rule: dec_digits.induct)
  case (1 n)
  then show ?case
    by (subst dec_digits.simps) (auto simp: dec_value_def of_char_digit)
qed

lemma dec_digits_hd: "\<exists>k cs. dec_digits n = digit k # cs \<and> k < 10 \<and> (0 < n \<longrightarrow> 0 < k)"
proof (induction n rule: dec_digits.induct)
  case (1 n)
  show ?case
  proof (cases "n < 10")
    case True
    then show ?thesis by (subst dec_digits.simps) auto
  next
    case False
    with 1 obtain k cs where "dec_digits (n div 10) = digit k # cs" "k < 10" "0 < k" by auto
    with False show ?thesis by (subst dec_digits.simps) auto
  qed
qed

lemma digit_not_minus: "k < 10 \<Longrightarrow> digit k \<noteq> CHR ''-''"
  using of_char_digit[of k] by auto

lemma int_value_text [simp]: "int_value (int_text i) = i"
proof -
  obtain k cs where k: "dec_digits (nat i) = digit k # cs" "k < 10" using dec_digits_hd[of "nat i"] by auto
  with dec_value_digits[of "nat i"] digit_not_minus[OF k(2)] show ?thesis
    by (auto simp: int_text_def int_value_def)
qed

lemma kDigits2_nth:
  assumes "r < 100"
  shows "kDigits2 ! (r * 2) = digit (r div 10)" "kDigits2 ! (r * 2 + 1) = digit (r mod 10)"
proof -
  have "\<forall>r \<in> set [0..<100]. kDigits2 ! (r * 2) = digit (r div 10) \<and> kDigits2 ! (r * 2 + 1) = digit (r mod 10)"
    by code_simp
  with assms show "kDigits2 ! (r * 2) = digit (r div 10)" "kDigits2 ! (r * 2 + 1) = digit (r mod 10)"
    by simp_all
qed

lemma dec_digits_100:
  assumes "100 \<le> n"
  shows "dec_digits n = dec_digits (n div 100) @ [digit (n mod 100 div 10), digit (n mod 10)]"
proof -
  have "\<not> n < 10" "\<not> n div 10 < 10" using assms by simp_all
  then show ?thesis
    by (subst dec_digits.simps, subst dec_digits.simps) (simp add: div_mult2_eq[symmetric] mod_mult2_eq[of n 10 10, simplified])
qed

lemma dec_digits_two: "10 \<le> n \<Longrightarrow> n < 100 \<Longrightarrow> dec_digits n = [digit (n div 10), digit (n mod 10)]"
  by (subst dec_digits.simps, subst dec_digits.simps) auto

lemma fmt_u64_digits_dec: "fmt_u64_digits v acc = dec_digits (unat v) @ acc"
proof (induction v acc rule: fmt_u64_digits.induct)
  case (1 v acc)
  consider "100 \<le> v" | "v < 10" | "10 \<le> v" "v < 100" by (metis linorder_not_less)
  then show ?case
  proof cases
    case 1
    let ?n = "unat v" and ?r = "ucast (v - quot100 v * 100) :: u32"
    have n: "100 \<le> ?n" using 1 by (simp add: word_le_nat_alt)
    have q: "unat (quot100 v) = ?n div 100" by (simp add: quot100_div unat_div)
    have "v - quot100 v * 100 = v mod 100"
      by (simp add: quot100_div minus_div_mult_eq_mod)
    then have r: "unat ?r = ?n mod 100"
      by (simp add: unsigned_ucast_eq unat_mod take_bit_nat_eq_self)
    have "fmt_u64_digits v acc = dec_digits (?n div 100) @ kDigits2 ! (?n mod 100 * 2) # kDigits2 ! (?n mod 100 * 2 + 1) # acc"
      using 1 "1.IH"[OF 1 refl refl] by (subst fmt_u64_digits.simps) (simp add: Let_def q r)
    also have "\<dots> = dec_digits ?n @ acc"
      using dec_digits_100[OF n] kDigits2_nth[of "?n mod 100"] by (simp add: mod_mod_cancel)
    finally show ?thesis .
  next
    case 2
    then show ?thesis
      by (subst fmt_u64_digits.simps, subst dec_digits.simps)
        (auto simp: word_less_nat_alt word_le_nat_alt digit_def)
  next
    case 3
    then have n: "10 \<le> unat v" "unat v < 100" by (simp_all add: word_less_nat_alt word_le_nat_alt)
    have "unat (ucast v :: u32) = unat v" using n by (simp add: unsigned_ucast_eq take_bit_nat_eq_self)
    then show ?thesis
      using 3 dec_digits_two[OF n] kDigits2_nth[OF n(2)]
      by (subst fmt_u64_digits.simps) (auto simp: Let_def not_le not_less)
  qed
qed

lemma unat_low4: "unat (v AND 0xF :: u64) = unat v mod 16"
proof -
  have "v AND 0xF = take_bit 4 v" by (simp add: take_bit_eq_mask mask_eq_exp_minus_1)
  then show ?thesis by (simp add: unat_mod take_bit_eq_mod)
qed

lemma fmt_hex_digits_hex: "fmt_hex_digits v acc = hex_digits (unat v) @ acc"
proof (induction v acc rule: fmt_hex_digits.induct)
  case (1 v acc)
  note low = unat_low4[of v]
  have high: "unat (drop_bit 4 v) = unat v div 16" by (simp add: unat_drop_bit_eq drop_bit_eq_div unat_div)
  have zero: "drop_bit 4 v = 0 \<longleftrightarrow> unat v < 16" using unat_gt_0[of "drop_bit 4 v"] high by auto
  show ?case
  proof (cases "unat v < 16")
    case True
    then show ?thesis
      using low zero by (subst fmt_hex_digits.simps, subst hex_digits.simps) (simp add: Let_def)
  next
    case False
    then show ?thesis
      using low zero "1.IH"[OF refl refl] unfolding high
      by (subst fmt_hex_digits.simps, subst hex_digits.simps) (simp add: Let_def)
  qed
qed

section \<open>Every append is a bounded append\<close>

definition fmt_wf :: "CpxFmtBuffer \<Rightarrow> bool" where
  "fmt_wf b \<longleftrightarrow> length (fdata b) = fcap b
     \<and> (if fcap b = 0 then flen b = 0 else flen b < fcap b \<and> fdata b ! flen b = NUL)"

definition fmt_text :: "CpxFmtBuffer \<Rightarrow> string" where
  "fmt_text b = take (flen b) (fdata b)"

text \<open>
  \<open>fmt_adds b s b'\<close>: the step from \<open>b\<close> to \<open>b'\<close> writes \<open>s\<close>, cut at the capacity, keeps the
  buffer terminated, and sets \<open>truncated\<close> exactly when something was cut.
\<close>

definition fmt_adds :: "CpxFmtBuffer \<Rightarrow> string \<Rightarrow> CpxFmtBuffer \<Rightarrow> bool" where
  "fmt_adds b s b' \<longleftrightarrow> (fmt_wf b \<longrightarrow>
     fmt_wf b' \<and> fcap b' = fcap b
     \<and> fmt_text b' = take (fcap b - 1) (fmt_text b @ s)
     \<and> (truncated b' \<longleftrightarrow> truncated b \<or> fcap b - 1 < length (fmt_text b) + length s))"

lemma fmt_text_len: "fmt_wf b \<Longrightarrow> length (fmt_text b) = flen b \<and> flen b \<le> fcap b - 1"
  by (auto simp: fmt_wf_def fmt_text_def split: if_splits)

lemma take_take_append: "take c (take c xs @ ys) = take c (xs @ ys)"
  by (cases "c \<le> length xs") simp_all

lemma fmt_adds_trans:
  assumes "fmt_adds b s b1" and "fmt_adds b1 t b2"
  shows "fmt_adds b (s @ t) b2"
proof (unfold fmt_adds_def, intro impI)
  let ?c = "fcap b - 1"
  assume wf: "fmt_wf b"
  then have 1: "fmt_wf b1" "fcap b1 = fcap b" "fmt_text b1 = take ?c (fmt_text b @ s)"
    "truncated b1 \<longleftrightarrow> truncated b \<or> ?c < length (fmt_text b) + length s"
    using assms(1) by (simp_all only: fmt_adds_def simp_thms)
  then have 2: "fmt_wf b2" "fcap b2 = fcap b" "fmt_text b2 = take ?c (fmt_text b1 @ t)"
    "truncated b2 \<longleftrightarrow> truncated b1 \<or> ?c < length (fmt_text b1) + length t"
    using assms(2) by (simp_all only: fmt_adds_def simp_thms)
  have "take ?c (take ?c (fmt_text b @ s) @ t) = take ?c (fmt_text b @ s @ t)"
    using take_take_append[of ?c "fmt_text b @ s" t] by (simp only: append_assoc)
  then have "fmt_text b2 = take ?c (fmt_text b @ s @ t)" unfolding 2 1 .
  moreover have "truncated b2 \<longleftrightarrow> truncated b \<or> ?c < length (fmt_text b) + length (s @ t)"
    unfolding 2 1 by (auto simp: min_def)
  ultimately show "fmt_wf b2 \<and> fcap b2 = fcap b \<and> fmt_text b2 = take ?c (fmt_text b @ s @ t)
     \<and> (truncated b2 \<longleftrightarrow> truncated b \<or> ?c < length (fmt_text b) + length (s @ t))"
    using 2 by simp
qed

lemma fmt_adds_refl [simp]: "fmt_adds b [] b"
  using fmt_text_len[of b] by (auto simp: fmt_adds_def)

locale fmt_appender =
  fixes app :: "CpxFmtBuffer \<Rightarrow> 'a \<Rightarrow> CpxFmtBuffer" and shown :: "'a \<Rightarrow> string"
  assumes adds: "fmt_adds b (shown x) (app b x)"
begin

lemma adds_foldl: "fmt_adds b (concat (map shown xs)) (foldl app b xs)"
  by (induction xs arbitrary: b) (auto intro: fmt_adds_trans[OF adds])

lemma adds_then: "fmt_adds b0 s b \<Longrightarrow> fmt_adds b0 (s @ shown x) (app b x)"
  by (rule fmt_adds_trans[OF _ adds])

end

lemma fmt_wf_putc: "fmt_wf b \<Longrightarrow> fmt_wf (cpx_fmt_putc b c)"
  by (auto simp: fmt_wf_def cpx_fmt_putc_def split: if_splits)

interpretation putc: fmt_appender cpx_fmt_putc "\<lambda>c. [c]"
proof
  fix b x
  show "fmt_adds b [x] (cpx_fmt_putc b x)"
    unfolding fmt_adds_def
  proof (intro impI)
    assume wf: "fmt_wf b"
    show "fmt_wf (cpx_fmt_putc b x) \<and> fcap (cpx_fmt_putc b x) = fcap b
      \<and> fmt_text (cpx_fmt_putc b x) = take (fcap b - 1) (fmt_text b @ [x])
      \<and> (truncated (cpx_fmt_putc b x) \<longleftrightarrow> truncated b \<or> fcap b - 1 < length (fmt_text b) + length [x])"
    proof (cases "flen b + 1 < fcap b")
      case True
      then have "fmt_text (cpx_fmt_putc b x) = fmt_text b @ [x]"
        using wf by (simp add: fmt_wf_def fmt_text_def cpx_fmt_putc_def take_Suc_conv_app_nth)
      then show ?thesis using True fmt_wf_putc[OF wf, of x] fmt_text_len[OF wf]
        by (auto simp: cpx_fmt_putc_def)
    next
      case False
      then have "flen b = fcap b - 1" using fmt_text_len[OF wf] by linarith
      then show ?thesis using False fmt_wf_putc[OF wf, of x] fmt_text_len[OF wf]
        by (simp add: cpx_fmt_putc_def) (simp add: fmt_text_def)
    qed
  qed
qed

lemma append_mem_takes:
  assumes "fmt_wf b" and "s \<noteq> []"
  defines "n \<equiv> min (length s) (fcap b - 1 - flen b)"
  shows "cpx_fmt_append_mem b s =
    b\<lparr>fdata := (if n > 0 then (mem_copy (fdata b) (flen b) (take n s))[flen b + n := NUL] else fdata b),
      flen := flen b + n, truncated := truncated b \<or> n \<noteq> length s\<rparr>"
proof -
  have "(if length s < (if fcap b > flen b + 1 then fcap b - flen b - 1 else 0) then length s
       else (if fcap b > flen b + 1 then fcap b - flen b - 1 else 0)) = n"
    by (auto simp: n_def)
  then show ?thesis using assms(2) unfolding cpx_fmt_append_mem_def Let_def by (simp only:) simp
qed

interpretation mem: fmt_appender cpx_fmt_append_mem "\<lambda>s. s"
proof
  fix b and s :: string
  show "fmt_adds b s (cpx_fmt_append_mem b s)"
  proof (cases "s = []")
    case True
    then show ?thesis by (simp add: cpx_fmt_append_mem_def)
  next
    case False
    show ?thesis unfolding fmt_adds_def
    proof (intro impI)
      assume wf: "fmt_wf b"
      define n where "n = min (length s) (fcap b - 1 - flen b)"
      note eq = append_mem_takes[OF wf False, folded n_def]
      have l: "flen b + n \<le> fcap b - 1" "n \<le> length s" "length (fdata b) = fcap b"
        using wf fmt_text_len[OF wf] by (auto simp: n_def fmt_wf_def)
      have mc: "length (mem_copy (fdata b) (flen b) (take n s)) = fcap b" if "0 < n"
        using l that by (simp add: mem_copy_def)
      have shown: "fmt_text (cpx_fmt_append_mem b s) = fmt_text b @ take n s"
        using l by (auto simp: eq fmt_text_def mem_copy_def)
      have "fmt_wf (cpx_fmt_append_mem b s)"
        using wf l mc by (auto simp: eq fmt_wf_def split: if_splits)
      moreover have "take (fcap b - 1) (fmt_text b @ s) = fmt_text b @ take n s"
        using fmt_text_len[OF wf] by (auto simp: n_def min_def)
      ultimately show "fmt_wf (cpx_fmt_append_mem b s) \<and> fcap (cpx_fmt_append_mem b s) = fcap b
        \<and> fmt_text (cpx_fmt_append_mem b s) = take (fcap b - 1) (fmt_text b @ s)
        \<and> (truncated (cpx_fmt_append_mem b s) \<longleftrightarrow> truncated b \<or> fcap b - 1 < length (fmt_text b) + length s)"
        using shown fmt_text_len[OF wf] by (auto simp: eq n_def min_def)
    qed
  qed
qed

interpretation cstr: fmt_appender cpx_fmt_append_cstr "\<lambda>s. case s of None \<Rightarrow> ''(null)'' | Some t \<Rightarrow> t"
  by unfold_locales (auto simp: cpx_fmt_append_cstr_def split: option.splits intro: mem.adds)

interpretation u64: fmt_appender cpx_fmt_append_u64 "\<lambda>v. dec_digits (unat v)"
  by unfold_locales (auto simp: cpx_fmt_append_u64_def fmt_u64_digits_dec intro: mem.adds)

lemma int_text_min: "int_text (- (2 ^ 63)) = CHR ''-'' # ''9223372036854775808''"
  by (simp add: int_text_def dec_digits.simps[of "numeral k" for k] digit_def char_of_def bit_numeral_rec bit_Suc_0_iff)

interpretation i64: fmt_appender cpx_fmt_append_i64 "\<lambda>v. int_text (sint v)"
proof
  fix b and v :: u64
  have dash: "fmt_adds b (CHR ''-'' # s) b'" if "fmt_adds (cpx_fmt_putc b (CHR ''-'')) s b'" for s b'
    using fmt_adds_trans[OF putc.adds that] by simp
  have nn: "unat v = nat (sint v)" if "0 \<le> sint v"
    using that by (rule unat_sint_nonneg)
  consider "sint v = - (2 ^ 63)" | "sint v < 0" "sint v \<noteq> - (2 ^ 63)" | "0 \<le> sint v" by linarith
  then show "fmt_adds b (int_text (sint v)) (cpx_fmt_append_i64 b v)"
  proof cases
    case 1
    then show ?thesis unfolding 1 int_text_min
      by (auto simp: cpx_fmt_append_i64_def Let_def 1 intro!: dash mem.adds)
  next
    case 2
    then show ?thesis using u64.adds[of "cpx_fmt_putc b (CHR ''-'')" "- v"] unat_uminus_sint[OF 2(1)]
      by (auto simp: cpx_fmt_append_i64_def Let_def int_text_def intro!: dash)
  next
    case 3
    then show ?thesis using u64.adds[of b v] by (simp add: cpx_fmt_append_i64_def int_text_def nn)
  qed
qed

interpretation hex: fmt_appender "\<lambda>b (v, pre). cpx_fmt_append_hex_u64 b v pre"
    "\<lambda>(v, pre). (if pre then ''0x'' else []) @ hex_digits (unat v)"
proof
  fix b and x :: "u64 \<times> bool"
  obtain v pre where x: "x = (v, pre)" by fastforce
  show "fmt_adds b (case x of (v, pre) \<Rightarrow> (if pre then ''0x'' else []) @ hex_digits (unat v))
      (case x of (v, pre) \<Rightarrow> cpx_fmt_append_hex_u64 b v pre)"
    using fmt_adds_trans[OF mem.adds mem.adds, of b "''0x''" "hex_digits (unat v)"] mem.adds
    by (simp add: x cpx_fmt_append_hex_u64_def fmt_hex_digits_hex)
qed

section \<open>What a format string denotes\<close>

text \<open>The text a format and its arguments stand for, with no buffer and no length limit.\<close>

definition arg_then :: "('a \<times> FmtArg list) option \<Rightarrow> ('a \<Rightarrow> string) \<Rightarrow> (FmtArg list \<Rightarrow> string option) \<Rightarrow> string option" where
  "arg_then a shown rest =
     (case a of None \<Rightarrow> None | Some (x, ap) \<Rightarrow> map_option (\<lambda>t. shown x @ t) (rest ap))"

fun fmt_expand :: "string \<Rightarrow> FmtArg list \<Rightarrow> string option" where
  "fmt_expand [] ap = Some []"
| "fmt_expand [c] ap = Some (if c = CHR ''%'' then [] else [c])"
| "fmt_expand (c # d # p) ap =
     (if c \<noteq> CHR ''%'' then map_option (Cons c) (fmt_expand (d # p) ap)
      else if d = CHR ''%'' then map_option (Cons (CHR ''%'')) (fmt_expand p ap)
      else if d = CHR ''s'' then arg_then (va_str ap) (case_option ''(null)'' (\<lambda>t. t)) (fmt_expand p)
      else if d = CHR ''d'' \<or> d = CHR ''i'' then
        arg_then (va_i32 ap) (\<lambda>w. int_text (sint w)) (fmt_expand p)
      else if d = CHR ''u'' then arg_then (va_i32 ap) (\<lambda>w. dec_digits (unat w)) (fmt_expand p)
      else if d = CHR ''l'' then
        (case p of
           n # conv # p' \<Rightarrow>
             if n = CHR ''l'' \<and> (conv = CHR ''d'' \<or> conv = CHR ''i'') then
               arg_then (va_i64 ap) (\<lambda>w. int_text (sint w)) (fmt_expand p')
             else if n = CHR ''l'' \<and> conv = CHR ''u'' then
               arg_then (va_i64 ap) (\<lambda>w. dec_digits (unat w)) (fmt_expand p')
             else map_option (append ''%l'') (fmt_expand p ap)
         | _ \<Rightarrow> map_option (append ''%l'') (fmt_expand p ap))
      else if d = CHR ''x'' then arg_then (va_i32 ap) (\<lambda>w. hex_digits (unat w)) (fmt_expand p)
      else if d = CHR ''p'' then
        arg_then (va_ptr ap) (\<lambda>w. ''0x'' @ hex_digits (unat w)) (fmt_expand p)
      else map_option (append [CHR ''%'', d]) (fmt_expand p ap))"

text \<open>\<open>fmt_rel b s r\<close>: the loop started at \<open>b\<close> ends as the reference \<open>s\<close> says.\<close>

definition fmt_rel :: "CpxFmtBuffer \<Rightarrow> string option \<Rightarrow> CpxFmtBuffer option \<Rightarrow> bool" where
  "fmt_rel b s r \<longleftrightarrow> rel_option (fmt_adds b) s r"

lemma fmt_rel_step:
  assumes "fmt_adds b s b1" and "fmt_rel b1 t r"
  shows "fmt_rel b (map_option (append s) t) r"
  using assms by (auto simp: fmt_rel_def option_rel_Some1 option_rel_Some2 intro: fmt_adds_trans elim!: option.rel_cases)

lemma fmt_rel_arg:
  assumes "\<And>x. fmt_adds b (shown x) (app x)" and "\<And>x ap'. a = Some (x, ap') \<Longrightarrow> fmt_rel (app x) (rest ap') (r x ap')"
  shows "fmt_rel b (arg_then a shown rest) (case a of None \<Rightarrow> None | Some (x, ap') \<Rightarrow> r x ap')"
  using assms fmt_rel_step[OF assms(1)]
  by (auto simp: arg_then_def fmt_rel_def split: option.splits)

lemma scast_sint: "sint (scast (w :: u32) :: u64) = sint w"
proof -
  have "- (2 ^ 31) \<le> sint w" "sint w < 2 ^ 31" using sint_ge[of w] sint_less[of w] by simp_all
  then have "signed_take_bit 63 (sint w) = sint w" by (intro signed_take_bit_int_eq_self) simp_all
  then show ?thesis by (simp add: signed_scast_eq)
qed

lemma unat_ucast64: "unat (ucast (w :: u32) :: u64) = unat w"
proof -
  have "unat w < 2 ^ 64" using unsigned_less[of w, where ?'a = nat] by simp
  then show ?thesis using unsigned_ucast_eq[of w, where ?'a = nat and ?'c = 64] by (simp add: take_bit_nat_eq_self)
qed

lemmas fmt_args =
  fmt_rel_arg[where shown = "case_option ''(null)'' (\<lambda>t. t)" and app = "cpx_fmt_append_cstr b" for b,
    OF cstr.adds]
  fmt_rel_arg[where shown = "\<lambda>w. int_text (sint w)" and app = "\<lambda>w. cpx_fmt_append_i64 b (scast w)" for b,
    OF i64.adds[of _ "scast w" for w :: u32, unfolded scast_sint]]
  fmt_rel_arg[where shown = "\<lambda>w. dec_digits (unat w)" and app = "\<lambda>w. cpx_fmt_append_u64 b (ucast w)" for b,
    OF u64.adds[of _ "ucast w" for w :: u32, unfolded unat_ucast64]]
  fmt_rel_arg[where shown = "\<lambda>w. int_text (sint w)" and app = "cpx_fmt_append_i64 b" for b, OF i64.adds]
  fmt_rel_arg[where shown = "\<lambda>w. dec_digits (unat w)" and app = "cpx_fmt_append_u64 b" for b, OF u64.adds]
  fmt_rel_arg[where shown = "\<lambda>w. hex_digits (unat w)" and app = "\<lambda>w. cpx_fmt_append_hex_u64 b (ucast w) False" for b,
    OF hex.adds[of _ "(ucast w, False)" for w :: u32, simplified, unfolded unat_ucast64]]
  fmt_rel_arg[where shown = "\<lambda>w. CHR ''0'' # CHR ''x'' # hex_digits (unat w)" and app = "\<lambda>w. cpx_fmt_append_hex_u64 b w True" for b,
    OF hex.adds[of _ "(w, True)" for w, simplified]]

lemma putc_step: "fmt_rel (cpx_fmt_putc b c) t r \<Longrightarrow> fmt_rel b (map_option (Cons c) t) r"
  using fmt_rel_step[OF putc.adds, of b c t r] by (simp add: append_Cons[abs_def])

lemma putc2_step:
  "fmt_rel (cpx_fmt_putc (cpx_fmt_putc b c) d) t r \<Longrightarrow> fmt_rel b (map_option (append [c, d]) t) r"
  using fmt_rel_step[OF putc.adds_then[OF putc.adds], of b c d t r] by simp

lemma fmt_loop_expand: "fmt_rel b (fmt_expand f ap) (fmt_loop b f ap)"
proof (induction "length f" arbitrary: b f ap rule: less_induct)
  case less
  show ?case
  proof (cases "(b, f, ap)" rule: fmt_loop.cases)
    case 1
    then show ?thesis by (simp add: fmt_rel_def)
  next
    case (2 b' c ap')
    then show ?thesis using putc.adds[of b c] by (simp add: fmt_rel_def)
  next
    case (3 b' c d p ap')
    then have f: "f = c # d # p" by simp
    have IH: "fmt_rel b1 (fmt_expand (d # p) ap1) (fmt_loop b1 (d # p) ap1)"
      "fmt_rel b1 (fmt_expand p ap1) (fmt_loop b1 p ap1)"
      "fmt_rel b1 (fmt_expand (drop 2 p) ap1) (fmt_loop b1 (drop 2 p) ap1)" for b1 ap1
      by (auto intro: less simp: f)
    show ?thesis
    proof (cases "c = CHR ''%''")
      case False
      show ?thesis unfolding f using putc_step[OF IH(1)] False by simp
    next
      case c: True
      consider "d = CHR ''%''" | "d = CHR ''s''" | "d \<in> {CHR ''d'', CHR ''i''}" | "d = CHR ''u''"
        | "d = CHR ''l''" | "d = CHR ''x''" | "d = CHR ''p''"
        | "d \<notin> {CHR ''%'', CHR ''s'', CHR ''d'', CHR ''i'', CHR ''u'', CHR ''l'', CHR ''x'', CHR ''p''}"
        by blast
      then show ?thesis
      proof cases
        case 1
        show ?thesis unfolding f c 1 using putc_step[OF IH(2)] by simp
      next
        case 2
        show ?thesis unfolding f c 2 by (auto intro!: fmt_args(1) IH(2))
      next
        case 3
        then show ?thesis unfolding f c by (auto intro!: fmt_args(2) IH(2))
      next
        case 4
        show ?thesis unfolding f c 4 by (auto intro!: fmt_args(3) IH(2))
      next
        case 5
        show ?thesis
        proof (cases "\<exists>p'. p = CHR ''l'' # CHR ''d'' # p' \<or> p = CHR ''l'' # CHR ''i'' # p' \<or> p = CHR ''l'' # CHR ''u'' # p'")
          case True
          then obtain k p' where p: "p = CHR ''l'' # k # p'" "k \<in> {CHR ''d'', CHR ''i'', CHR ''u''}" by blast
          show ?thesis unfolding f c 5 using p IH(3) by (auto intro!: fmt_args(4,5))
        next
          case False
          then have "fmt_loop b f ap = fmt_loop (cpx_fmt_putc (cpx_fmt_putc b (CHR ''%'')) (CHR ''l'')) p ap"
            and "fmt_expand f ap = map_option (append ''%l'') (fmt_expand p ap)"
            unfolding f c 5 by (auto split: list.splits)
          then show ?thesis using putc2_step[OF IH(2)] by simp
        qed
      next
        case 6
        show ?thesis unfolding f c 6 by (auto intro!: fmt_args(6) IH(2))
      next
        case 7
        show ?thesis unfolding f c 7 by (auto intro!: fmt_args(7) IH(2))
      next
        case 8
        then show ?thesis unfolding f c using putc2_step[OF IH(2)] by simp
      qed
    qed
  qed
qed

section \<open>Properties\<close>

text \<open>
  Printing a signed 64-bit value appends, up to the capacity, a text that reads back as exactly
  that value (the most negative one and the two-digit table with its multiplicative inverse of 100
  included), leaves the buffer NUL-terminated inside its storage, and reports truncation exactly
  when the text did not fit.
\<close>

theorem cpx_fmt_append_i64_prints:
  assumes "fmt_wf b"
  shows "\<exists>s. int_value s = sint v
    \<and> fmt_text (cpx_fmt_append_i64 b v) = take (fcap b - 1) (fmt_text b @ s)
    \<and> fmt_wf (cpx_fmt_append_i64 b v) \<and> fcap (cpx_fmt_append_i64 b v) = fcap b
    \<and> (truncated (cpx_fmt_append_i64 b v) \<longleftrightarrow> truncated b \<or> fcap b - 1 < length (fmt_text b) + length s)"
  using i64.adds[of b v] assms
  by (intro exI[of _ "int_text (sint v)"]) (simp add: fmt_adds_def)

theorem cpx_fmt_append_i64_prints_witness:
  "let b = cpx_fmt_init (replicate 32 NUL) 32 in
   fmt_wf b \<and> fmt_wf (cpx_fmt_append_i64 b (- 9223372036854775808))
   \<and> fcap (cpx_fmt_append_i64 b (- 9223372036854775808)) = 32"
proof -
  define b where "b = cpx_fmt_init (replicate 32 NUL) 32"
  have wf: "fmt_wf b" by (simp add: b_def cpx_fmt_init_def fmt_wf_def)
  have "fcap b = 32" by (simp add: b_def cpx_fmt_init_def)
  with wf cpx_fmt_append_i64_prints[OF wf, of "- 9223372036854775808"] show ?thesis
    unfolding b_def[symmetric] Let_def by metis
qed

text \<open>
  C21: \<^verbatim>\<open>cpx_fmt_vsnprintf\<close> writes the text the format and its arguments denote, cut to
  the capacity less one, followed by a terminator inside the storage, and returns the number of
  characters written; it never writes outside the storage, for any capacity down to one.
\<close>

theorem cpx_fmt_vsnprintf_writes:
  assumes "length out = cap" and "0 < cap" and "fmt_expand f ap = Some s"
  shows "\<exists>out'. cpx_fmt_vsnprintf out cap (Some f) ap = Some (out', min (length s) (cap - 1))
    \<and> length out' = cap \<and> take (min (length s) (cap - 1)) out' = take (cap - 1) s
    \<and> out' ! min (length s) (cap - 1) = NUL"
proof -
  define b where "b = cpx_fmt_init out cap"
  have wf: "fmt_wf b" and b: "fmt_text b = []" "fcap b = cap"
    using assms by (auto simp: b_def cpx_fmt_init_def fmt_wf_def fmt_text_def)
  obtain b' where b': "fmt_loop b f ap = Some b'" and ad: "fmt_adds b s b'"
    using fmt_loop_expand[of b f ap] assms(3) by (auto simp: fmt_rel_def option_rel_Some1)
  have 1: "fmt_wf b'" "fcap b' = cap" "fmt_text b' = take (cap - 1) s"
    using ad wf b by (auto simp: fmt_adds_def)
  have len: "flen b' = min (length s) (cap - 1)" using fmt_text_len[OF 1(1)] 1(3) by simp
  have "cpx_fmt_vsnprintf out cap (Some f) ap = Some (fdata b', flen b')"
    by (simp add: cpx_fmt_vsnprintf_def b_def[symmetric] Let_def b')
  then show ?thesis using 1 assms(2) len by (auto simp: fmt_wf_def fmt_text_def)
qed

theorem cpx_fmt_vsnprintf_writes_witness:
  "fst (the (cpx_fmt_vsnprintf (replicate 8 NUL) 8 (Some ''n=%d %s!'') [ArgI32 (- 42), ArgStr None])) ! 7 = NUL
   \<and> snd (the (cpx_fmt_vsnprintf (replicate 8 NUL) 8 (Some ''n=%d %s!'') [ArgI32 (- 42), ArgStr None])) = 7"
proof -
  have "fmt_expand ''n=%d %s!'' [ArgI32 (- 42), ArgStr None] = Some (''n='' @ int_text (- 42) @ '' (null)!'')"
    by (simp add: arg_then_def)
  moreover have "length (''n='' @ int_text (- 42) @ '' (null)!'') = 13"
    by (simp add: int_text_def dec_digits.simps[of "numeral k" for k])
  ultimately show ?thesis
    using cpx_fmt_vsnprintf_writes[of "replicate 8 NUL" 8 "''n=%d %s!''" "[ArgI32 (- 42), ArgStr None]"]
    by fastforce
qed

end
