(* ===== verification/Cvm.thy ===== *)
theory Cvm
  imports Mir Fast_Format
begin

text \<open>
  The register-based MIR interpreter of \<^verbatim>\<open>runtime/vm/cvm_engine.c\<close>, in its computed-goto
  form (lines 254 to 756), with the profile table, the host intrinsics, the call dispatcher and
  the public entry points.

  What the interpreter takes from outside is the record \<open>CvmEnv\<close>: the address \<^verbatim>\<open>calloc\<close> picks, or
  that it fails; whether an internal allocation of so many bytes succeeds; double-precision
  arithmetic on bit patterns; the text of a double; and the JIT bridge (compilation and native
  code).  The C heap is a list of live regions; reading or writing outside them, a jump through
  an instruction that was never threaded, and a \<^verbatim>\<open>NULL\<close> the code dereferences are \<open>Fault\<close>.
  Diagnostics on stderr and the frame list kept for the garbage collector are left out.
  Recursion is bounded by fuel: \<open>OutOfFuel\<close> says that the run needs more.
\<close>

section \<open>Results\<close>

datatype 'a cres = Ok 'a | Fault | OutOfFuel

definition cbind :: "'a cres \<Rightarrow> ('a \<Rightarrow> 'b cres) \<Rightarrow> 'b cres" where
  "cbind m k = (case m of Ok x \<Rightarrow> k x | Fault \<Rightarrow> Fault | OutOfFuel \<Rightarrow> OutOfFuel)"

lemma cbind_simps [simp]:
  "cbind (Ok x) k = k x" "cbind Fault k = Fault" "cbind OutOfFuel k = OutOfFuel"
  by (simp_all add: cbind_def)

lemma cbind_Ok: "cbind m k = Ok y \<longleftrightarrow> (\<exists>x. m = Ok x \<and> k x = Ok y)"
  by (cases m) simp_all

section \<open>State\<close>

definition CVM_JIT_THRESHOLD :: u32 where "CVM_JIT_THRESHOLD = 1000"
definition CVM_MAX_REGS :: int where "CVM_MAX_REGS = 4096"
definition CVM_MAX_CALL_DEPTH :: int where "CVM_MAX_CALL_DEPTH = 512"

datatype CvmTier = CVM_TIER_INTERPRET | CVM_TIER_JIT_PENDING | CVM_TIER_NATIVE | CVM_TIER_JIT_DENIED

record CvmProfile =
  p_func_name :: string
  call_count :: u32
  tier :: CvmTier
  native_fn :: "nat option"

record MemRegion =
  rbase :: u64
  rbytes :: "u8 list"

record CvmFrame =
  regs :: "u64 list"
  allocas :: "u64 list"
  alloca_cap :: nat

record CvmState =
  vmodule :: MirModule
  profiles :: "CvmProfile list"
  profile_cap :: nat
  frame_depth :: int
  frame_depth_peak :: int
  jit :: bool
  heap_objs :: "u64 list"
  heap_obj_cap :: nat
  trap_code :: nat
  inst_executed :: u64
  jit_calls :: u64
  mem :: "MemRegion list"
  stdout :: string

record CvmEnv =
  e_calloc :: "CvmState \<Rightarrow> nat \<Rightarrow> u64 option"
  e_alloc_ok :: "CvmState \<Rightarrow> nat \<Rightarrow> bool"
  e_fbin :: "MirBinOp \<Rightarrow> u64 \<Rightarrow> u64 \<Rightarrow> u64"
  e_sitofp :: "u64 \<Rightarrow> u64"
  e_fptosi :: "u64 \<Rightarrow> u64"
  e_fmt_f64 :: "u64 \<Rightarrow> string"
  e_compile :: "CvmState \<Rightarrow> MirFunction \<Rightarrow> CvmProfile \<Rightarrow> CvmProfile \<times> bool"
  e_native :: "nat \<Rightarrow> u64 list \<Rightarrow> u64 list"

definition cvm_state_create :: "MirModule \<Rightarrow> bool \<Rightarrow> CvmState" where
  "cvm_state_create m j =
     \<lparr>vmodule = m, profiles = [], profile_cap = 0, frame_depth = 0, frame_depth_peak = 0, jit = j,
      heap_objs = [], heap_obj_cap = 0, trap_code = 0, inst_executed = 0, jit_calls = 0, mem = [],
      stdout = []\<rparr>"

section \<open>The C heap\<close>

definition region_at :: "MemRegion list \<Rightarrow> u64 \<Rightarrow> nat \<Rightarrow> nat option" where
  "region_at h a n =
     find_index (\<lambda>r. unat (rbase r) \<le> unat a \<and> unat a + n \<le> unat (rbase r) + length (rbytes r)) h"

definition mem_load64 :: "MemRegion list \<Rightarrow> u64 \<Rightarrow> u64 option" where
  "mem_load64 h a =
     (case region_at h a 8 of
        None \<Rightarrow> None
      | Some k \<Rightarrow> Some (le_word (take 8 (drop (unat a - unat (rbase (h ! k))) (rbytes (h ! k))))))"

definition mem_store64 :: "MemRegion list \<Rightarrow> u64 \<Rightarrow> u64 \<Rightarrow> MemRegion list option" where
  "mem_store64 h a v =
     (case region_at h a 8 of
        None \<Rightarrow> None
      | Some k \<Rightarrow>
          (let r = h ! k; off = unat a - unat (rbase r)
           in Some (h[k := r\<lparr>rbytes := take off (rbytes r) @ le_bytes v @ drop (off + 8) (rbytes r)\<rparr>])))"

text \<open>\<^verbatim>\<open>strlen\<close> and the bytes before the terminator.\<close>

definition mem_cstr :: "MemRegion list \<Rightarrow> u64 \<Rightarrow> string option" where
  "mem_cstr h a =
     (case region_at h a 1 of
        None \<Rightarrow> None
      | Some k \<Rightarrow>
          (let bs = drop (unat a - unat (rbase (h ! k))) (rbytes (h ! k))
           in if 0 \<in> set bs then Some (map (\<lambda>b. char_of (unat b)) (takeWhile (\<lambda>b. b \<noteq> 0) bs)) else None))"

definition mem_free :: "MemRegion list \<Rightarrow> u64 \<Rightarrow> MemRegion list" where
  "mem_free h a = filter (\<lambda>r. rbase r \<noteq> a) h"

section \<open>Arithmetic helpers\<close>

definition cvm_safe_div_i64 :: "u64 \<Rightarrow> u64 \<Rightarrow> u64" where
  "cvm_safe_div_i64 lhs_u rhs_u =
     (let lhs = sint lhs_u; rhs = sint rhs_u
      in if rhs = 0 then 0
         else if lhs = - (2 ^ 63) \<and> rhs = - 1 then word_of_int (- (2 ^ 63))
         else word_of_int (lhs sdiv rhs))"

definition cvm_safe_mod_i64 :: "u64 \<Rightarrow> u64 \<Rightarrow> u64" where
  "cvm_safe_mod_i64 lhs_u rhs_u =
     (let lhs = sint lhs_u; rhs = sint rhs_u
      in if rhs = 0 then 0
         else if lhs = - (2 ^ 63) \<and> rhs = - 1 then 0
         else word_of_int (lhs smod rhs))"

definition of_flag :: "bool \<Rightarrow> u64" where
  "of_flag b = (if b then 1 else 0)"

fun cvm_binop :: "CvmEnv \<Rightarrow> MirBinOp \<Rightarrow> u64 \<Rightarrow> u64 \<Rightarrow> u64" where
  "cvm_binop env MIR_ADD x y = x + y"
| "cvm_binop env MIR_SUB x y = x - y"
| "cvm_binop env MIR_MUL x y = x * y"
| "cvm_binop env MIR_DIV x y = cvm_safe_div_i64 x y"
| "cvm_binop env MIR_MOD x y = cvm_safe_mod_i64 x y"
| "cvm_binop env MIR_BAND x y = x AND y"
| "cvm_binop env MIR_BOR x y = x OR y"
| "cvm_binop env MIR_BXOR x y = x XOR y"
| "cvm_binop env MIR_SHL x y = push_bit (unat (y AND 63)) x"
| "cvm_binop env MIR_SHR x y = signed_drop_bit (unat (y AND 63)) x"
| "cvm_binop env MIR_USHR x y = drop_bit (unat (y AND 63)) x"
| "cvm_binop env MIR_CMP_EQ x y = of_flag (x = y)"
| "cvm_binop env MIR_CMP_NE x y = of_flag (x \<noteq> y)"
| "cvm_binop env MIR_CMP_LT x y = of_flag (sint x < sint y)"
| "cvm_binop env MIR_CMP_LE x y = of_flag (sint x \<le> sint y)"
| "cvm_binop env MIR_CMP_GT x y = of_flag (sint x > sint y)"
| "cvm_binop env MIR_CMP_GE x y = of_flag (sint x \<ge> sint y)"
| "cvm_binop env MIR_LOGIC_AND x y = of_flag (x \<noteq> 0 \<and> y \<noteq> 0)"
| "cvm_binop env MIR_LOGIC_OR x y = of_flag (x \<noteq> 0 \<or> y \<noteq> 0)"
| "cvm_binop env p x y = e_fbin env p x y"

text \<open>Negating a double flips its sign bit.\<close>

fun cvm_unop :: "CvmEnv \<Rightarrow> MirType list \<Rightarrow> MirUnOp \<Rightarrow> MirTypeP \<Rightarrow> u64 \<Rightarrow> u64" where
  "cvm_unop env c MIR_NEG t x = - x"
| "cvm_unop env c MIR_FNEG t x = x XOR 0x8000000000000000"
| "cvm_unop env c MIR_BNOT t x = NOT x"
| "cvm_unop env c MIR_LOGIC_NOT t x = of_flag (x = 0)"
| "cvm_unop env c MIR_CAST t x = (if mir_type_is_float c t then e_sitofp env x else x)"
| "cvm_unop env c MIR_BITCAST t x = x"
| "cvm_unop env c MIR_TRUNC t x = x AND 0xFFFFFFFF"
| "cvm_unop env c MIR_ZEXT t x = x"
| "cvm_unop env c MIR_SEXT t x = scast (ucast x :: u32)"
| "cvm_unop env c MIR_SITOFP t x = e_sitofp env x"
| "cvm_unop env c MIR_FPTOSI t x = e_fptosi env x"

section \<open>Profiles\<close>

text \<open>The index of the profile, or \<open>None\<close> when the table could not grow.\<close>

definition cvm_get_profile :: "CvmEnv \<Rightarrow> CvmState \<Rightarrow> MirFunction \<Rightarrow> CvmState \<times> nat option" where
  "cvm_get_profile env vm f =
     (case find_index (\<lambda>p. p_func_name p = fname f) (profiles vm) of
        Some i \<Rightarrow> (vm, Some i)
      | None \<Rightarrow>
          (let grow = length (profiles vm) \<ge> profile_cap vm;
               new_cap = (if profile_cap vm \<noteq> 0 then profile_cap vm * 2 else 16)
           in if grow \<and> \<not> e_alloc_ok env vm (new_cap * 48) then (vm\<lparr>trap_code := 1\<rparr>, None)
              else (vm\<lparr>profile_cap := (if grow then new_cap else profile_cap vm),
                       profiles := profiles vm @
                         [\<lparr>p_func_name = fname f, call_count = 0, tier = CVM_TIER_INTERPRET,
                           native_fn = None\<rparr>]\<rparr>,
                    Some (length (profiles vm)))))"

section \<open>Registers and frames\<close>

definition cvm_reg_get :: "CvmState \<Rightarrow> CvmFrame \<Rightarrow> MirValueId \<Rightarrow> (CvmState \<times> u64) cres" where
  "cvm_reg_get vm fr vid =
     (if vid = MIR_VALUE_NONE then Ok (vm, 0)
      else if sint vid \<ge> int (length (regs fr)) then Ok (vm\<lparr>trap_code := 5\<rparr>, 0)
      else if sint vid < 0 then Fault
      else Ok (vm, regs fr ! unat vid))"

definition cvm_reg_set ::
    "CvmState \<Rightarrow> CvmFrame \<Rightarrow> MirValueId \<Rightarrow> u64 \<Rightarrow> (CvmState \<times> CvmFrame) cres" where
  "cvm_reg_set vm fr vid v =
     (if vid = MIR_VALUE_NONE then Ok (vm, fr)
      else if sint vid \<ge> int (length (regs fr)) then Ok (vm\<lparr>trap_code := 5\<rparr>, fr)
      else if sint vid < 0 then Fault
      else Ok (vm, fr\<lparr>regs := (regs fr)[unat vid := v]\<rparr>))"

definition cvm_frame_track_alloca :: "CvmEnv \<Rightarrow> CvmState \<Rightarrow> CvmFrame \<Rightarrow> u64 \<Rightarrow> CvmFrame option" where
  "cvm_frame_track_alloca env vm fr a =
     (let grow = length (allocas fr) \<ge> alloca_cap fr;
          new_cap = (if alloca_cap fr \<noteq> 0 then alloca_cap fr * 2 else 16)
      in if grow \<and> \<not> e_alloc_ok env vm (new_cap * 8) then None
         else Some (fr\<lparr>alloca_cap := (if grow then new_cap else alloca_cap fr),
                       allocas := allocas fr @ [a]\<rparr>))"

definition cvm_frame_free_allocas :: "CvmState \<Rightarrow> CvmFrame \<Rightarrow> CvmState" where
  "cvm_frame_free_allocas vm fr = vm\<lparr>mem := foldl mem_free (mem vm) (rev (allocas fr))\<rparr>"

definition c_calloc :: "CvmEnv \<Rightarrow> CvmState \<Rightarrow> nat \<Rightarrow> (CvmState \<times> u64) option" where
  "c_calloc env vm n =
     (case e_calloc env vm n of
        None \<Rightarrow> None
      | Some a \<Rightarrow> Some (vm\<lparr>mem := \<lparr>rbase = a, rbytes = replicate n 0\<rparr> # mem vm\<rparr>, a))"

definition cvm_heap_object_alloc :: "CvmEnv \<Rightarrow> CvmState \<Rightarrow> nat \<Rightarrow> (CvmState \<times> u64) option" where
  "cvm_heap_object_alloc env vm n =
     (case c_calloc env vm (if n < 16 then 16 else n) of
        None \<Rightarrow> None
      | Some (vm1, a) \<Rightarrow>
          (let grow = length (heap_objs vm1) \<ge> heap_obj_cap vm1;
               new_cap = (if heap_obj_cap vm1 \<noteq> 0 then heap_obj_cap vm1 * 2 else 16)
           in if grow \<and> \<not> e_alloc_ok env vm1 (new_cap * 8) then None
              else Some (vm1\<lparr>heap_obj_cap := (if grow then new_cap else heap_obj_cap vm1),
                             heap_objs := heap_objs vm1 @ [a]\<rparr>, a)))"

section \<open>Instruction handlers\<close>

text \<open>
  Where a handler leaves control: \<^verbatim>\<open>NEXT_INST()\<close>, \<^verbatim>\<open>goto block_start\<close> with a new
  \<^verbatim>\<open>cur_block\<close>, or \<^verbatim>\<open>goto done\<close> with \<^verbatim>\<open>retval\<close>.
\<close>

datatype CvmCtl =
    CtlNext CvmState CvmFrame
  | CtlJump CvmState CvmFrame MirBlockP
  | CtlDone CvmState CvmFrame u64

definition set_next :: "CvmState \<Rightarrow> CvmFrame \<Rightarrow> MirValueId \<Rightarrow> u64 \<Rightarrow> CvmCtl cres" where
  "set_next vm fr res v = cbind (cvm_reg_set vm fr res v) (\<lambda>(vm', fr'). Ok (CtlNext vm' fr'))"

definition op_binary ::
    "CvmEnv \<Rightarrow> CvmState \<Rightarrow> CvmFrame \<Rightarrow> MirBinOp \<Rightarrow> MirValueId \<Rightarrow> MirValueId \<Rightarrow> MirValueId \<Rightarrow> CvmCtl cres" where
  "op_binary env vm fr p l r res =
     cbind (cvm_reg_get vm fr l) (\<lambda>(vm1, x).
       if (p = MIR_LOGIC_AND \<and> x = 0) \<or> (p = MIR_LOGIC_OR \<and> x \<noteq> 0)
       then set_next vm1 fr res (of_flag (p = MIR_LOGIC_OR))
       else cbind (cvm_reg_get vm1 fr r) (\<lambda>(vm2, y). set_next vm2 fr res (cvm_binop env p x y)))"

definition op_unary ::
    "CvmEnv \<Rightarrow> CvmState \<Rightarrow> CvmFrame \<Rightarrow> MirUnOp \<Rightarrow> MirValueId \<Rightarrow> MirTypeP \<Rightarrow> MirValueId \<Rightarrow> CvmCtl cres" where
  "op_unary env vm fr p x t res =
     cbind (cvm_reg_get vm fr x) (\<lambda>(vm1, v).
       set_next vm1 fr res (cvm_unop env (type_cache (vmodule vm)) p t v))"

definition op_alloca :: "CvmEnv \<Rightarrow> CvmState \<Rightarrow> CvmFrame \<Rightarrow> int \<Rightarrow> MirValueId \<Rightarrow> CvmCtl cres" where
  "op_alloca env vm fr count res =
     (let sz = (if count > 0 then count else 1)
      in case c_calloc env vm (nat sz * 8) of
           None \<Rightarrow> Ok (CtlDone (vm\<lparr>trap_code := 1\<rparr>) fr 0)
         | Some (vm1, a) \<Rightarrow>
             (case cvm_frame_track_alloca env vm1 fr a of
                None \<Rightarrow> Ok (CtlDone (vm\<lparr>trap_code := 1\<rparr>) fr 0)
              | Some fr1 \<Rightarrow> set_next vm1 fr1 res a))"

definition op_load :: "CvmState \<Rightarrow> CvmFrame \<Rightarrow> MirValueId \<Rightarrow> MirValueId \<Rightarrow> CvmCtl cres" where
  "op_load vm fr p res =
     cbind (cvm_reg_get vm fr p) (\<lambda>(vm1, a).
       if a \<noteq> 0
       then (case mem_load64 (mem vm1) a of None \<Rightarrow> Fault | Some v \<Rightarrow> set_next vm1 fr res v)
       else Ok (CtlDone (vm1\<lparr>trap_code := 3\<rparr>) fr 0))"

definition op_store :: "CvmState \<Rightarrow> CvmFrame \<Rightarrow> MirValueId \<Rightarrow> MirValueId \<Rightarrow> CvmCtl cres" where
  "op_store vm fr p v =
     cbind (cvm_reg_get vm fr p) (\<lambda>(vm1, a).
       if a \<noteq> 0
       then cbind (cvm_reg_get vm1 fr v) (\<lambda>(vm2, x).
              case mem_store64 (mem vm2) a x of
                None \<Rightarrow> Fault
              | Some h \<Rightarrow> Ok (CtlNext (vm2\<lparr>mem := h\<rparr>) fr))
       else Ok (CtlNext vm1 fr))"

definition op_obj_alloc :: "CvmEnv \<Rightarrow> CvmState \<Rightarrow> CvmFrame \<Rightarrow> int \<Rightarrow> MirValueId \<Rightarrow> CvmCtl cres" where
  "op_obj_alloc env vm fr size_i res =
     (case cvm_heap_object_alloc env vm (nat (if size_i > 0 then size_i else 64)) of
        None \<Rightarrow> Ok (CtlDone (vm\<lparr>trap_code := 1\<rparr>) fr 0)
      | Some (vm1, a) \<Rightarrow> set_next vm1 fr res a)"

definition op_get_field_ptr ::
    "CvmState \<Rightarrow> CvmFrame \<Rightarrow> MirValueId \<Rightarrow> int \<Rightarrow> MirValueId \<Rightarrow> CvmCtl cres" where
  "op_get_field_ptr vm fr b fi res =
     cbind (cvm_reg_get vm fr b) (\<lambda>(vm1, a).
       if fi < 0 then Ok (CtlDone (vm1\<lparr>trap_code := 6\<rparr>) fr 0)
       else set_next vm1 fr res (a + ucast (word_of_int fi :: u32) * 8))"

definition op_get_elem_ptr ::
    "CvmState \<Rightarrow> CvmFrame \<Rightarrow> MirValueId \<Rightarrow> MirValueId \<Rightarrow> MirValueId \<Rightarrow> CvmCtl cres" where
  "op_get_elem_ptr vm fr b x res =
     cbind (cvm_reg_get vm fr b) (\<lambda>(vm1, a).
       cbind (cvm_reg_get vm1 fr x) (\<lambda>(vm2, idx). set_next vm2 fr res (a + idx * 8)))"

definition op_switch ::
    "CvmState \<Rightarrow> CvmFrame \<Rightarrow> MirValueId \<Rightarrow> (u64 \<times> MirBlockP) list \<Rightarrow> MirBlockP \<Rightarrow> CvmCtl cres" where
  "op_switch vm fr d cs df =
     cbind (cvm_reg_get vm fr d) (\<lambda>(vm1, disc).
       Ok (CtlJump vm1 fr (case find (\<lambda>(v, t). v = disc) cs of None \<Rightarrow> df | Some (v, t) \<Rightarrow> t)))"

text \<open>The incoming value of a phi: the edge from \<^verbatim>\<open>prev_block\<close>, else the first usable edge.\<close>

definition phi_source :: "MirBlockP \<Rightarrow> (MirBlockP \<times> MirValueId) list \<Rightarrow> MirValueId" where
  "phi_source prev es =
     (case find (\<lambda>(b, v). b = prev) es of
        Some (b, v) \<Rightarrow> v
      | None \<Rightarrow>
          (case find (\<lambda>(b, v). v \<noteq> MIR_VALUE_NONE) es of
             Some (b, v) \<Rightarrow> v
           | None \<Rightarrow> MIR_VALUE_NONE))"

definition op_phi ::
    "CvmState \<Rightarrow> CvmFrame \<Rightarrow> MirBlockP \<Rightarrow> (MirBlockP \<times> MirValueId) list \<Rightarrow> MirValueId \<Rightarrow> CvmCtl cres" where
  "op_phi vm fr prev es res =
     cbind (cvm_reg_get vm fr (phi_source prev es)) (\<lambda>(vm1, v). set_next vm1 fr res v)"

definition op_transfer ::
    "CvmState \<Rightarrow> CvmFrame \<Rightarrow> MirTransferOp \<Rightarrow> MirValueId \<Rightarrow> MirValueId \<Rightarrow> CvmCtl cres" where
  "op_transfer vm fr p s res =
     cbind (cvm_reg_get vm fr s) (\<lambda>(vm1, v).
       cbind (cvm_reg_set vm1 fr res v) (\<lambda>(vm2, fr2).
         Ok (CtlNext vm2
           (if p = MIR_MOVE \<and> s \<noteq> MIR_VALUE_NONE \<and> sint s < int (length (regs fr2))
            then fr2\<lparr>regs := (regs fr2)[unat s := 0]\<rparr> else fr2))))"

definition op_extract ::
    "CvmState \<Rightarrow> CvmFrame \<Rightarrow> MirValueId \<Rightarrow> int \<Rightarrow> MirValueId \<Rightarrow> CvmCtl cres" where
  "op_extract vm fr ag k res =
     cbind (cvm_reg_get vm fr ag) (\<lambda>(vm1, a).
       if a \<noteq> 0
       then (case mem_load64 (mem vm1) (a + word_of_int k * 8) of
               None \<Rightarrow> Fault
             | Some v \<Rightarrow> set_next vm1 fr res v)
       else set_next vm1 fr res 0)"

section \<open>Host intrinsics\<close>

definition arg0 :: "u64 list \<Rightarrow> u64" where
  "arg0 as = (case as of [] \<Rightarrow> 0 | a # _ \<Rightarrow> a)"

definition cvm_intrin_print_int :: "CvmState \<Rightarrow> u64 list \<Rightarrow> CvmState cres" where
  "cvm_intrin_print_int vm as =
     (let out = cpx_fmt_putc (cpx_fmt_append_i64 (cpx_fmt_init (replicate 48 NUL) 48) (arg0 as)) (CHR 0x0A)
      in Ok (vm\<lparr>stdout := stdout vm @ take (flen out) (fdata out)\<rparr>))"

definition cvm_intrin_print_float :: "CvmEnv \<Rightarrow> CvmState \<Rightarrow> u64 list \<Rightarrow> CvmState cres" where
  "cvm_intrin_print_float env vm as =
     (let out = cpx_fmt_putc (cpx_fmt_append_mem (cpx_fmt_init (replicate 64 NUL) 64)
                  (e_fmt_f64 env (arg0 as))) (CHR 0x0A)
      in Ok (vm\<lparr>stdout := stdout vm @ take (flen out) (fdata out)\<rparr>))"

definition cvm_intrin_print_bool :: "CvmState \<Rightarrow> u64 list \<Rightarrow> CvmState cres" where
  "cvm_intrin_print_bool vm as =
     Ok (vm\<lparr>stdout := stdout vm @ (if arg0 as \<noteq> 0 then ''true'' else ''false'') @ [CHR 0x0A]\<rparr>)"

definition cvm_intrin_print_str :: "CvmState \<Rightarrow> u64 list \<Rightarrow> CvmState cres" where
  "cvm_intrin_print_str vm as =
     (if arg0 as \<noteq> 0
      then (case mem_cstr (mem vm) (arg0 as) of
              None \<Rightarrow> Fault
            | Some s \<Rightarrow> Ok (vm\<lparr>stdout := stdout vm @ s @ [CHR 0x0A]\<rparr>))
      else Ok (vm\<lparr>stdout := stdout vm @ [CHR 0x0A]\<rparr>))"

definition cvm_find_intrinsic ::
    "CvmEnv \<Rightarrow> string option \<Rightarrow> (CvmState \<Rightarrow> u64 list \<Rightarrow> CvmState cres) option" where
  "cvm_find_intrinsic env name =
     (case name of
        None \<Rightarrow> None
      | Some n \<Rightarrow>
          map_of [(''nuwan_print_int'', cvm_intrin_print_int),
                  (''nuwan_print_float'', cvm_intrin_print_float env),
                  (''nuwan_print_bool'', cvm_intrin_print_bool),
                  (''nuwan_print_str'', cvm_intrin_print_str)] n)"

section \<open>Calls\<close>

text \<open>The argument loop: \<open>None\<close> when an id is past the register file (trap 5).\<close>

fun collect_args :: "CvmFrame \<Rightarrow> MirValueId list \<Rightarrow> u64 list option cres" where
  "collect_args fr [] = Ok (Some [])"
| "collect_args fr (a # as) =
     (if a = MIR_VALUE_NONE
      then cbind (collect_args fr as) (\<lambda>r. Ok (map_option (Cons 0) r))
      else if sint a \<ge> int (length (regs fr)) then Ok None
      else if sint a < 0 then Fault
      else cbind (collect_args fr as) (\<lambda>r. Ok (map_option (Cons (regs fr ! unat a)) r)))"

text \<open>The tiering step both callers of the interpreter share; it returns native code to run instead.\<close>

definition cvm_tier_up :: "CvmEnv \<Rightarrow> CvmState \<Rightarrow> MirFunction \<Rightarrow> nat \<Rightarrow> CvmState" where
  "cvm_tier_up env vm f k =
     (let prof = profiles vm ! k
      in if tier prof = CVM_TIER_INTERPRET \<and> jit vm \<and>
            (call_count prof = CVM_JIT_THRESHOLD \<or>
             (sint (call_count prof) > sint CVM_JIT_THRESHOLD \<and> call_count prof AND 63 = 0))
         then
           (let pending = prof\<lparr>tier := CVM_TIER_JIT_PENDING\<rparr>;
                vm1 = vm\<lparr>profiles := (profiles vm)[k := pending]\<rparr>;
                (prof', ok) = e_compile env vm1 f pending
            in vm1\<lparr>profiles := (profiles vm1)[k :=
                 (if ok then prof' else prof'\<lparr>tier := CVM_TIER_JIT_DENIED\<rparr>)]\<rparr>)
         else vm)"

definition cvm_enter ::
    "CvmEnv \<Rightarrow> (CvmState \<Rightarrow> MirFunction \<Rightarrow> u64 list \<Rightarrow> (CvmState \<times> u64) cres) \<Rightarrow>
     CvmState \<Rightarrow> MirFunction \<Rightarrow> u64 list \<Rightarrow> (CvmState \<times> u64) cres" where
  "cvm_enter env exec vm f as =
     (case cvm_get_profile env vm f of
        (vm1, None) \<Rightarrow> Ok (vm1, 0)
      | (vm1, Some k) \<Rightarrow>
          (let prof = profiles vm1 ! k;
               prof1 = prof\<lparr>call_count := call_count prof + 1\<rparr>;
               vm2 = vm1\<lparr>profiles := (profiles vm1)[k := prof1]\<rparr>
           in case (tier prof1, native_fn prof1) of
                (CVM_TIER_NATIVE, Some nf) \<Rightarrow>
                  Ok (vm2\<lparr>jit_calls := jit_calls vm2 + 1\<rparr>, arg0 (e_native env nf as))
              | _ \<Rightarrow> exec (cvm_tier_up env vm2 f k) f as))"

definition cvm_dispatch_call ::
    "CvmEnv \<Rightarrow> (CvmState \<Rightarrow> MirFunction \<Rightarrow> u64 list \<Rightarrow> (CvmState \<times> u64) cres) \<Rightarrow>
     CvmState \<Rightarrow> CvmFrame \<Rightarrow> string option \<Rightarrow> MirValueId list \<Rightarrow> (CvmState \<times> u64) cres" where
  "cvm_dispatch_call env exec vm fr name arg_ids =
     (if trap_code vm \<noteq> 0 then Ok (vm, 0)
      else cbind (collect_args fr (take 64 arg_ids)) (\<lambda>r.
        case r of
          None \<Rightarrow> Ok (vm\<lparr>trap_code := 5\<rparr>, 0)
        | Some as \<Rightarrow>
            (case cvm_find_intrinsic env name of
               Some fn \<Rightarrow> cbind (fn vm as) (\<lambda>vm1. Ok (vm1, 0))
             | None \<Rightarrow>
                 (case name of
                    None \<Rightarrow> if func_list (vmodule vm) = [] then Ok (vm, 0) else Fault
                  | Some n \<Rightarrow>
                      (case mir_module_find_function (vmodule vm) n of
                         None \<Rightarrow> Ok (vm, 0)
                       | Some callee \<Rightarrow> cvm_enter env exec vm callee as)))))"

definition op_call ::
    "CvmEnv \<Rightarrow> (CvmState \<Rightarrow> MirFunction \<Rightarrow> u64 list \<Rightarrow> (CvmState \<times> u64) cres) \<Rightarrow>
     CvmState \<Rightarrow> CvmFrame \<Rightarrow> string option \<Rightarrow> MirValueId list \<Rightarrow> MirValueId \<Rightarrow> CvmCtl cres" where
  "op_call env exec vm fr name arg_ids res =
     cbind (cvm_dispatch_call env exec vm fr name arg_ids) (\<lambda>(vm1, v). set_next vm1 fr res v)"

section \<open>The interpreter loop\<close>

fun cvm_step ::
    "CvmEnv \<Rightarrow> (CvmState \<Rightarrow> MirFunction \<Rightarrow> u64 list \<Rightarrow> (CvmState \<times> u64) cres) \<Rightarrow>
     CvmState \<Rightarrow> CvmFrame \<Rightarrow> MirBlockP \<Rightarrow> MirOp \<Rightarrow> MirValueId \<Rightarrow> CvmCtl cres" where
  "cvm_step env exec vm fr prev (CONST_INT w) res = set_next vm fr res w"
| "cvm_step env exec vm fr prev (CONST_FLOAT w) res = set_next vm fr res w"
| "cvm_step env exec vm fr prev (CONST_BOOL b) res = set_next vm fr res (of_flag b)"
| "cvm_step env exec vm fr prev (CONST_STRING a) res = set_next vm fr res a"
| "cvm_step env exec vm fr prev CONST_NULL res = set_next vm fr res 0"
| "cvm_step env exec vm fr prev (BINARY p l r) res = op_binary env vm fr p l r res"
| "cvm_step env exec vm fr prev (UNARY p x t) res = op_unary env vm fr p x t res"
| "cvm_step env exec vm fr prev (ALLOCA t n) res = op_alloca env vm fr n res"
| "cvm_step env exec vm fr prev (LOAD p) res = op_load vm fr p res"
| "cvm_step env exec vm fr prev (STORE p v) res = op_store vm fr p v"
| "cvm_step env exec vm fr prev (GET_FIELD_PTR b k x) res = op_get_field_ptr vm fr b k res"
| "cvm_step env exec vm fr prev (GET_ELEM_PTR b k x) res = op_get_elem_ptr vm fr b x res"
| "cvm_step env exec vm fr prev (BR t) res = Ok (CtlJump vm fr t)"
| "cvm_step env exec vm fr prev (CONDBR c t e) res =
     cbind (cvm_reg_get vm fr c) (\<lambda>(vm1, v). Ok (CtlJump vm1 fr (if v \<noteq> 0 then t else e)))"
| "cvm_step env exec vm fr prev (SWITCH d cs df) res = op_switch vm fr d cs df"
| "cvm_step env exec vm fr prev (RET v) res =
     cbind (cvm_reg_get vm fr v) (\<lambda>(vm1, x). Ok (CtlDone vm1 fr x))"
| "cvm_step env exec vm fr prev RET_VOID res = Ok (CtlDone vm fr 0)"
| "cvm_step env exec vm fr prev UNREACHABLE res = Ok (CtlDone (vm\<lparr>trap_code := 4\<rparr>) fr 0)"
| "cvm_step env exec vm fr prev (CALL n as c) res = op_call env exec vm fr n as res"
| "cvm_step env exec vm fr prev (CALL_INDIRECT n as c) res = op_call env exec vm fr n as res"
| "cvm_step env exec vm fr prev (CALL_VIRTUAL s k as) res = set_next vm fr res 0"
| "cvm_step env exec vm fr prev (PHI es) res = op_phi vm fr prev es res"
| "cvm_step env exec vm fr prev (TRANSFER p s) res = op_transfer vm fr p s res"
| "cvm_step env exec vm fr prev (OBJ_ALLOC n k) res = op_obj_alloc env vm fr k res"
| "cvm_step env exec vm fr prev (EXTRACT a k) res = op_extract vm fr a k res"
| "cvm_step env exec vm fr prev _ res = Ok (CtlNext vm fr)"

text \<open>
  The instructions of a block carry handler addresses only if the block is on the list that starts
  at the entry block (\<^verbatim>\<open>cvm_prepare_dispatch\<close>); jumping into any other block is a fault, unless
  it is empty.
\<close>

definition threaded :: "MirFunction \<Rightarrow> bref \<Rightarrow> bool" where
  "threaded f b \<longleftrightarrow>
     b < length (blocks f) \<and> b \<in> set (dropWhile (\<lambda>x. Some x \<noteq> entry_block f) (block_list f))"

text \<open>
  \<^verbatim>\<open>block_start\<close> with an instruction at hand (\<open>i # rest\<close>), or \<^verbatim>\<open>block_end\<close> (no
  instruction left).  One unit of fuel per instruction or block end.
\<close>

definition enter_block ::
    "MirFunction \<Rightarrow> (bref \<Rightarrow> MirInst list \<Rightarrow> (CvmState \<times> CvmFrame \<times> u64) cres) \<Rightarrow>
     CvmState \<Rightarrow> CvmFrame \<Rightarrow> MirBlockP \<Rightarrow> (CvmState \<times> CvmFrame \<times> u64) cres" where
  "enter_block f go vm fr tgt =
     (case tgt of
        None \<Rightarrow> Ok (vm, fr, 0)
      | Some b \<Rightarrow>
          if b < length (blocks f) \<and> insts (blocks f ! b) = [] then go b []
          else if threaded f b then go b (insts (blocks f ! b))
          else Fault)"

fun cvm_loop ::
    "CvmEnv \<Rightarrow> (CvmState \<Rightarrow> MirFunction \<Rightarrow> u64 list \<Rightarrow> (CvmState \<times> u64) cres) \<Rightarrow> MirFunction \<Rightarrow> nat \<Rightarrow>
     CvmState \<Rightarrow> CvmFrame \<Rightarrow> bref \<Rightarrow> MirBlockP \<Rightarrow> MirInst list \<Rightarrow> (CvmState \<times> CvmFrame \<times> u64) cres" where
  "cvm_loop env exec f 0 vm fr cur prev is = OutOfFuel"
| "cvm_loop env exec f (Suc n) vm fr cur prev [] =
     enter_block f (\<lambda>b. cvm_loop env exec f n vm fr b (Some cur)) vm fr (next_block f cur)"
| "cvm_loop env exec f (Suc n) vm fr cur prev (i # rest) =
     cbind (cvm_step env exec (vm\<lparr>inst_executed := inst_executed vm + 1\<rparr>) fr prev (iop i) (result i))
       (\<lambda>ctl. case ctl of
          CtlNext vm1 fr1 \<Rightarrow>
            if trap_code vm1 \<noteq> 0 then Ok (vm1, fr1, 0)
            else cvm_loop env exec f n vm1 fr1 cur prev rest
        | CtlJump vm1 fr1 tgt \<Rightarrow>
            enter_block f (\<lambda>b. cvm_loop env exec f n vm1 fr1 b (Some cur)) vm1 fr1 tgt
        | CtlDone vm1 fr1 v \<Rightarrow> Ok (vm1, fr1, v))"

definition reg_count_of :: "MirFunction \<Rightarrow> int" where
  "reg_count_of f =
     (let rc = (if next_value_id f > 0 then sint (next_value_id f) else 1)
      in if rc > CVM_MAX_REGS then CVM_MAX_REGS else rc)"

fun copy_args :: "u64 list \<Rightarrow> MirParam list \<Rightarrow> u64 list \<Rightarrow> u64 list" where
  "copy_args rs (p # ps) (a # as) =
     copy_args (if value_id p \<noteq> 0 \<and> unat (value_id p) < length rs then rs[unat (value_id p) := a] else rs)
       ps as"
| "copy_args rs _ _ = rs"

text \<open>
  A register file of a negative size (an id counter past \<open>2 ^ 31\<close>) cannot be allocated.  The
  first instruction of the entry block is read before any check.
\<close>

fun cvm_exec_function ::
    "CvmEnv \<Rightarrow> nat \<Rightarrow> CvmState \<Rightarrow> MirFunction \<Rightarrow> u64 list \<Rightarrow> (CvmState \<times> u64) cres" where
  "cvm_exec_function env 0 vm f as = OutOfFuel"
| "cvm_exec_function env (Suc n) vm f as =
     (let rc = reg_count_of f
      in if rc < 0 \<or> \<not> e_alloc_ok env vm (nat rc * 8) then Ok (vm\<lparr>trap_code := 1\<rparr>, 0)
         else
           (let fr = \<lparr>regs = copy_args (replicate (nat rc) 0) (params f) as, allocas = [], alloca_cap = 0\<rparr>;
                d = frame_depth vm + 1;
                vm1 = vm\<lparr>frame_depth := d,
                         frame_depth_peak := (if d > frame_depth_peak vm then d else frame_depth_peak vm)\<rparr>
            in if d > CVM_MAX_CALL_DEPTH
               then Ok (vm1\<lparr>trap_code := 2, frame_depth := frame_depth vm1 - 1\<rparr>, 0)
               else case entry_block f of
                      None \<Rightarrow> Fault
                    | Some e \<Rightarrow>
                        if e < length (blocks f) \<and> insts (blocks f ! e) \<noteq> []
                        then cbind (enter_block f (\<lambda>b. cvm_loop env (cvm_exec_function env n) f n vm1 fr b None)
                                      vm1 fr (Some e))
                               (\<lambda>(vm2, fr2, v).
                                  Ok (cvm_frame_free_allocas (vm2\<lparr>frame_depth := frame_depth vm2 - 1\<rparr>) fr2, v))
                        else Fault))"

section \<open>Public entry points\<close>

definition cvm_run ::
    "CvmEnv \<Rightarrow> nat \<Rightarrow> CvmState \<Rightarrow> string \<Rightarrow> u64 list \<Rightarrow> (CvmState \<times> u64) cres" where
  "cvm_run env n vm entry as =
     (case mir_module_find_function (vmodule vm) entry of
        None \<Rightarrow> Ok (vm, - 1)
      | Some f \<Rightarrow> cvm_enter env (cvm_exec_function env n) vm f (take 64 as))"

definition cvm_call_function ::
    "CvmEnv \<Rightarrow> nat \<Rightarrow> CvmState \<Rightarrow> MirFunction \<Rightarrow> u64 list \<Rightarrow> (CvmState \<times> u64) cres" where
  "cvm_call_function env n vm f as =
     (case cvm_get_profile env vm f of
        (vm1, None) \<Rightarrow> Ok (vm1, 0)
      | (vm1, Some k) \<Rightarrow>
          (let prof = profiles vm1 ! k
           in cvm_exec_function env n
                (vm1\<lparr>profiles := (profiles vm1)[k := prof\<lparr>call_count := call_count prof + 1\<rparr>]\<rparr>) f as))"

end
