(* ===== verification/Cvm_Facts.thy ===== *)
theory Cvm_Facts
  imports Cvm Mir_Verify "HOL-Library.Sublist"
begin

text \<open>
  Facts about the interpreter that hold for every program: more fuel never changes a result; every
  run keeps the frame discipline and only extends the output, the profile table and the list of
  heap objects; the JIT tier of a function only moves forward; the C heap returns what was stored.
  What a run may do to the VM is proved once, for an arbitrary relation closed under the
  interpreter's primitive state changes (the locale \<open>vm_relation\<close>).
\<close>

section \<open>Fuel\<close>

definition res_le :: "'a cres \<Rightarrow> 'a cres \<Rightarrow> bool" where
  "res_le r r' \<longleftrightarrow> r = OutOfFuel \<or> r' = r"

lemma res_le_refl [simp]: "res_le r r" by (simp add: res_le_def)

lemma res_le_fuel [simp]: "res_le OutOfFuel r" by (simp add: res_le_def)

lemma res_le_cbind:
  assumes "res_le m m'" and "\<And>x. m = Ok x \<Longrightarrow> res_le (k x) (k' x)"
  shows "res_le (cbind m k) (cbind m' k')"
  using assms by (cases m) (auto simp: res_le_def)

lemma step_mono:
  assumes "\<And>vm f as. res_le (exec vm f as) (exec' vm f as)"
  shows "res_le (cvm_step env exec vm fr prev p res) (cvm_step env exec' vm fr prev p res)"
proof -
  have "res_le (cvm_enter env exec vm f as) (cvm_enter env exec' vm f as)" for vm f as
    using assms by (auto simp: cvm_enter_def Let_def split: prod.splits option.splits CvmTier.splits)
  then have "res_le (cvm_dispatch_call env exec vm fr n as) (cvm_dispatch_call env exec' vm fr n as)"
    for vm fr n as
    by (auto simp: cvm_dispatch_call_def intro!: res_le_cbind split: option.splits)
  then have "res_le (op_call env exec vm fr n as r) (op_call env exec' vm fr n as r)" for vm fr n as r
    by (auto simp: op_call_def intro!: res_le_cbind)
  then show ?thesis by (cases p) simp_all
qed

lemma enter_block_mono:
  assumes "\<And>b is. res_le (go b is) (go' b is)"
  shows "res_le (enter_block f go vm fr t) (enter_block f go' vm fr t)"
  using assms by (auto simp: enter_block_def split: option.splits)

lemma loop_mono:
  assumes ex: "\<And>vm f as. res_le (exec vm f as) (exec' vm f as)"
  shows "n \<le> n' \<Longrightarrow> res_le (cvm_loop env exec f n vm fr cur prev is) (cvm_loop env exec' f n' vm fr cur prev is)"
proof (induction n arbitrary: n' vm fr cur prev "is")
  case (Suc n)
  then obtain m where n': "n' = Suc m" and m: "n \<le> m" by (cases n') auto
  note IH = Suc.IH[OF m]
  show ?case
  proof (cases "is")
    case Nil
    then show ?thesis by (auto simp: n' intro!: enter_block_mono IH)
  next
    case (Cons i rest)
    then show ?thesis
      by (auto simp: n' intro!: enter_block_mono IH res_le_cbind step_mono ex split: CvmCtl.splits)
  qed
qed simp

lemma exec_mono: "n \<le> n' \<Longrightarrow> res_le (cvm_exec_function env n vm f as) (cvm_exec_function env n' vm f as)"
proof (induction n arbitrary: n' vm f as)
  case (Suc n)
  then obtain m where n': "n' = Suc m" and m: "n \<le> m" by (cases n') auto
  show ?case
    unfolding n' cvm_exec_function.simps Let_def
    by (auto intro!: res_le_cbind enter_block_mono loop_mono m Suc.IH[OF m] split: option.splits)
qed simp

lemma enter_mono: "n \<le> n' \<Longrightarrow>
    res_le (cvm_enter env (cvm_exec_function env n) vm f as) (cvm_enter env (cvm_exec_function env n') vm f as)"
  by (auto simp: cvm_enter_def Let_def intro!: exec_mono split: prod.splits option.splits CvmTier.splits)

text \<open>
  The fuel only bounds how long a run is followed: once a run of the VM has an outcome (a result
  or a fault), every larger amount of fuel gives the same outcome.
\<close>

theorem cvm_run_fuel:
  assumes "n \<le> n'" and "cvm_run env n vm entry as \<noteq> OutOfFuel"
  shows "cvm_run env n' vm entry as = cvm_run env n vm entry as"
proof -
  have "res_le (cvm_run env n vm entry as) (cvm_run env n' vm entry as)"
    by (auto simp: cvm_run_def intro!: enter_mono assms(1) split: option.splits)
  with assms(2) show ?thesis by (auto simp: res_le_def)
qed

section \<open>Relations every run respects\<close>

fun ctl_state :: "CvmCtl \<Rightarrow> CvmState" where
  "ctl_state (CtlNext vm fr) = vm"
| "ctl_state (CtlJump vm fr t) = vm"
| "ctl_state (CtlDone vm fr v) = vm"

definition pushed :: "CvmState \<Rightarrow> CvmState" where
  "pushed vm = vm\<lparr>frame_depth := frame_depth vm + 1,
                  frame_depth_peak := (if frame_depth vm + 1 > frame_depth_peak vm then frame_depth vm + 1
                                       else frame_depth_peak vm)\<rparr>"

lemma get_profile_index:
  assumes "cvm_get_profile env vm f = (vm', Some k)"
  shows "k < length (profiles vm')" "p_func_name (profiles vm' ! k) = fname f"
  using assms find_index_Some[of "\<lambda>p. p_func_name p = fname f" "profiles vm" k]
  by (auto simp: cvm_get_profile_def Let_def split: option.splits if_splits)

text \<open>An id the register file of \<open>n\<close> slots answers without trap 5.\<close>

definition in_file :: "nat \<Rightarrow> MirValueId \<Rightarrow> bool" where
  "in_file n x \<longleftrightarrow> x = MIR_VALUE_NONE \<or> (0 \<le> sint x \<and> sint x < int n)"

definition inst_ids_ok :: "nat \<Rightarrow> MirInst \<Rightarrow> bool" where
  "inst_ids_ok n i \<longleftrightarrow> in_file n (result i) \<and> (\<forall>x \<in> set (verify_operands (iop i)). in_file n x)"

definition ids_ok :: "MirFunction \<Rightarrow> bool" where
  "ids_ok f \<longleftrightarrow> (\<forall>b \<in> set (block_list f). \<forall>i \<in> set (insts (blocks f ! b)).
     inst_ids_ok (nat (reg_count_of f)) i)"

definition module_ids_ok :: "CvmState \<Rightarrow> bool" where
  "module_ids_ok vm \<longleftrightarrow> (\<forall>f \<in> set (func_list (vmodule vm)). ids_ok f)"

definition runs_ok ::
    "bool \<Rightarrow> (CvmState \<Rightarrow> CvmState \<Rightarrow> bool) \<Rightarrow>
     (CvmState \<Rightarrow> MirFunction \<Rightarrow> u64 list \<Rightarrow> (CvmState \<times> u64) cres) \<Rightarrow> bool" where
  "runs_ok safe R exec \<longleftrightarrow> (\<forall>vm f as vm' v. exec vm f as = Ok (vm', v) \<longrightarrow>
     (safe \<longrightarrow> ids_ok f \<and> module_ids_ok vm) \<longrightarrow> R vm vm')"

fun ctl_frame :: "CvmCtl \<Rightarrow> CvmFrame" where
  "ctl_frame (CtlNext vm fr) = fr"
| "ctl_frame (CtlJump vm fr t) = fr"
| "ctl_frame (CtlDone vm fr v) = fr"

lemma reg_set_length: "cvm_reg_set vm fr x v = Ok (vm', fr') \<Longrightarrow> length (regs fr') = length (regs fr)"
  by (auto simp: cvm_reg_set_def split: if_splits)

lemma set_next_length: "set_next vm fr x v = Ok ctl \<Longrightarrow> length (regs (ctl_frame ctl)) = length (regs fr)"
  by (auto simp: set_next_def cbind_Ok dest: reg_set_length)

lemma track_length: "cvm_frame_track_alloca env vm fr a = Some fr' \<Longrightarrow> regs fr' = regs fr"
  unfolding cvm_frame_track_alloca_def Let_def by (auto split: if_splits)

lemma step_length:
  "cvm_step env exec vm fr prev p res = Ok ctl \<Longrightarrow> length (regs (ctl_frame ctl)) = length (regs fr)"
  by (cases p)
    (auto simp: op_binary_def op_unary_def op_alloca_def op_load_def op_store_def op_get_field_ptr_def
      op_get_elem_ptr_def op_switch_def op_call_def op_phi_def op_transfer_def op_obj_alloc_def op_extract_def
      Let_def cbind_Ok dest!: set_next_length reg_set_length track_length split: if_splits option.splits)

lemma copy_args_length [simp]: "length (copy_args rs ps as) = length rs"
  by (induction rs ps as rule: copy_args.induct) auto

lemma if_pairD: "(if X then (u, a) else (w, b)) = (y, k) \<Longrightarrow> y = u \<or> y = w"
  by (simp split: if_splits)

lemma if_SomeD: "(if X then None else Some (y, b)) = Some (y', a) \<Longrightarrow> y' = y"
  by (simp split: if_splits)

locale vm_relation =
  fixes env :: CvmEnv and safe :: bool and R :: "CvmState \<Rightarrow> CvmState \<Rightarrow> bool"
  assumes refl: "R vm vm"
    and trans: "R vm vm1 \<Longrightarrow> R vm1 vm2 \<Longrightarrow> R vm vm2"
    and same_module: "safe \<Longrightarrow> R vm vm1 \<Longrightarrow> vmodule vm1 = vmodule vm"
    and trap: "\<not> safe \<or> c \<noteq> 5 \<Longrightarrow> R vm (vm\<lparr>trap_code := c\<rparr>)"
    and counter: "R vm (vm\<lparr>inst_executed := w\<rparr>)"
    and memory: "R vm (vm\<lparr>mem := h\<rparr>)"
    and printed: "R vm (vm\<lparr>stdout := stdout vm @ s\<rparr>)"
    and object: "R vm (vm\<lparr>heap_obj_cap := nc, heap_objs := heap_objs vm @ [a]\<rparr>)"
    and profile: "cvm_get_profile env vm f = (vm1, k) \<Longrightarrow> R vm vm1"
    and called: "i < length (profiles vm) \<Longrightarrow>
      R vm (vm\<lparr>profiles := (profiles vm)[i := (profiles vm ! i)\<lparr>call_count := w32\<rparr>]\<rparr>)"
    and tiering: "i < length (profiles vm) \<Longrightarrow> R vm (cvm_tier_up env vm f i)"
    and native: "R vm (vm\<lparr>jit_calls := w\<rparr>)"
    and framed: "frame_depth vm + 1 \<le> CVM_MAX_CALL_DEPTH \<Longrightarrow> R (pushed vm) vm2 \<Longrightarrow>
      R vm (vm2\<lparr>frame_depth := frame_depth vm2 - 1\<rparr>)"
    and overflow: "frame_depth vm + 1 > CVM_MAX_CALL_DEPTH \<Longrightarrow>
      R vm ((pushed vm)\<lparr>trap_code := 2, frame_depth := frame_depth (pushed vm) - 1\<rparr>)"
begin

lemma keeps_module: "R vm vm1 \<Longrightarrow> safe \<longrightarrow> module_ids_ok vm \<Longrightarrow> safe \<longrightarrow> module_ids_ok vm1"
  using same_module by (auto simp: module_ids_ok_def)

lemma reg_get:
  "cvm_reg_get vm fr x = Ok (vm', v) \<Longrightarrow> safe \<longrightarrow> in_file (length (regs fr)) x \<Longrightarrow> R vm vm'"
  by (auto simp: cvm_reg_get_def in_file_def refl trap split: if_splits)

lemma reg_set:
  "cvm_reg_set vm fr x v = Ok (vm', fr') \<Longrightarrow> safe \<longrightarrow> in_file (length (regs fr)) x \<Longrightarrow> R vm vm'"
  by (auto simp: cvm_reg_set_def in_file_def refl trap split: if_splits)

lemma set_next:
  "set_next vm fr x v = Ok ctl \<Longrightarrow> safe \<longrightarrow> in_file (length (regs fr)) x \<Longrightarrow> R vm (ctl_state ctl)"
  by (auto simp: set_next_def cbind_Ok dest: reg_set)

lemma calloc: "c_calloc env vm n = Some (vm', a) \<Longrightarrow> R vm vm'"
  by (auto simp: c_calloc_def memory split: option.splits)

lemma after:
  "R vm vm1 \<Longrightarrow> c \<noteq> 5 \<Longrightarrow> R vm (vm1\<lparr>trap_code := c\<rparr>)"
  "R vm vm1 \<Longrightarrow> R vm (vm1\<lparr>mem := h\<rparr>)"
  "R vm vm1 \<Longrightarrow> R vm (vm1\<lparr>heap_obj_cap := k, heap_objs := heap_objs vm1 @ [a]\<rparr>)"
  using trans trap memory object by blast+

lemma heap_object:
  assumes "cvm_heap_object_alloc env vm n = Some (vm', a)"
  shows "R vm vm'"
proof -
  obtain vm1 b where c: "c_calloc env vm (if n < 16 then 16 else n) = Some (vm1, b)"
    using assms by (auto simp: cvm_heap_object_alloc_def split: option.splits)
  obtain k where "vm' = vm1\<lparr>heap_obj_cap := k, heap_objs := heap_objs vm1 @ [b]\<rparr>"
    using if_SomeD[OF assms[unfolded cvm_heap_object_alloc_def c Let_def option.case prod.case]] by blast
  then show ?thesis using after(3)[OF calloc[OF c]] by simp
qed

lemma intrinsic:
  assumes "cvm_find_intrinsic env nm = Some fn" and "fn vm as = Ok vm'"
  shows "R vm vm'"
  using assms
  by (auto simp: cvm_find_intrinsic_def cvm_intrin_print_int_def cvm_intrin_print_float_def
      cvm_intrin_print_bool_def cvm_intrin_print_str_def Let_def printed split: option.splits if_splits)

lemma enter:
  assumes ex: "runs_ok safe R exec" and run: "cvm_enter env exec vm f as = Ok (vm', v)"
    and ok: "safe \<longrightarrow> ids_ok f \<and> module_ids_ok vm"
  shows "R vm vm'"
proof -
  obtain vm1 ko where g: "cvm_get_profile env vm f = (vm1, ko)" by fastforce
  note R1 = profile[OF g]
  show ?thesis
  proof (cases ko)
    case None
    then show ?thesis using run R1 by (simp add: cvm_enter_def g)
  next
    case (Some k)
    have k: "k < length (profiles vm1)" using get_profile_index(1) g Some by simp
    define vm2 where "vm2 = vm1\<lparr>profiles := (profiles vm1)[k := (profiles vm1 ! k)\<lparr>call_count := call_count (profiles vm1 ! k) + 1\<rparr>]\<rparr>"
    have R2: "R vm vm2" using trans[OF R1 called[OF k]] by (simp add: vm2_def)
    have k2: "k < length (profiles vm2)" using k by (simp add: vm2_def)
    have R3: "R vm (cvm_tier_up env vm2 f k)" by (rule trans[OF R2 tiering[OF k2]])
    from run have "(\<exists>w. vm' = vm2\<lparr>jit_calls := w\<rparr>) \<or> exec (cvm_tier_up env vm2 f k) f as = Ok (vm', v)"
      by (auto simp: cvm_enter_def g Some Let_def vm2_def split: CvmTier.splits option.splits)
    then show ?thesis
    proof
      assume "\<exists>w. vm' = vm2\<lparr>jit_calls := w\<rparr>"
      then show ?thesis using R2 native trans by blast
    next
      assume "exec (cvm_tier_up env vm2 f k) f as = Ok (vm', v)"
      then have "R (cvm_tier_up env vm2 f k) vm'"
        using ex ok keeps_module[OF R3] unfolding runs_ok_def by blast
      then show ?thesis by (rule trans[OF R3])
    qed
  qed
qed

lemma args_in_file:
  "collect_args fr as = Ok None \<Longrightarrow> \<exists>x \<in> set as. \<not> in_file (length (regs fr)) x"
proof (induction as)
  case (Cons a as)
  then show ?case by (auto simp: cbind_Ok in_file_def split: if_splits)
qed simp

lemma dispatch:
  assumes ex: "runs_ok safe R exec" and run: "cvm_dispatch_call env exec vm fr nm as = Ok (vm', v)"
    and ok: "safe \<longrightarrow> module_ids_ok vm" and args: "safe \<longrightarrow> (\<forall>x \<in> set as. in_file (length (regs fr)) x)"
  shows "R vm vm'"
proof (cases "trap_code vm = 0")
  case False
  then show ?thesis using run refl by (simp add: cvm_dispatch_call_def)
next
  case True
  then obtain r where c: "collect_args fr (take 64 as) = Ok r"
    using run by (auto simp: cvm_dispatch_call_def cbind_Ok)
  have callee: "safe \<longrightarrow> ids_ok f \<and> module_ids_ok vm" if "mir_module_find_function (vmodule vm) n = Some f" for n f
    using ok that by (auto simp: module_ids_ok_def mir_module_find_function_def find_Some_iff)
  show ?thesis
  proof (cases "\<exists>x fn. r = Some x \<and> cvm_find_intrinsic env nm = Some fn")
    case True
    then show ?thesis using run refl
      by (auto simp: cvm_dispatch_call_def c cbind_Ok dest: intrinsic split: if_splits)
  next
    case False
    have "r \<noteq> None" if safe using args_in_file[of fr "take 64 as"] c args that by (auto dest: in_set_takeD)
    then show ?thesis using run refl trap enter[OF ex] callee False True
      by (auto simp: cvm_dispatch_call_def c split: if_splits option.splits)
  qed
qed

lemma phi_source_in:
  "phi_source prev es \<noteq> MIR_VALUE_NONE \<Longrightarrow> phi_source prev es \<in> snd ` set es"
proof -
  have "x \<in> set es" if "find q es = Some x" for q x
    using that by (induction es) (auto split: if_splits)
  then show "phi_source prev es \<noteq> MIR_VALUE_NONE \<Longrightarrow> phi_source prev es \<in> snd ` set es"
    by (force simp: phi_source_def split: option.splits prod.splits)
qed

lemma step:
  assumes ex: "runs_ok safe R exec" and st: "cvm_step env exec vm fr prev p res = Ok ctl"
    and m: "safe \<longrightarrow> module_ids_ok vm" and res: "safe \<longrightarrow> in_file (length (regs fr)) res"
    and opn: "safe \<longrightarrow> (\<forall>x \<in> set (verify_operands p). in_file (length (regs fr)) x)"
  shows "R vm (ctl_state ctl)"
proof (cases p)
  case (BINARY b l r)
  then show ?thesis using st opn res
    by (auto simp: op_binary_def cbind_Ok split: if_splits dest!: reg_get set_next intro: trans)
next
  case (UNARY u x t)
  then show ?thesis using st opn res by (auto simp: op_unary_def cbind_Ok dest!: reg_get set_next intro: trans)
next
  case (ALLOCA t n)
  then show ?thesis using st res
    by (auto simp: op_alloca_def Let_def trap split: option.splits if_splits
        dest!: calloc set_next track_length)
      (blast intro: trans)+
next
  case (LOAD x)
  then show ?thesis using st opn res
    by (auto simp: op_load_def cbind_Ok split: option.splits if_splits dest!: reg_get set_next intro!: after intro: trans)
next
  case (STORE x y)
  then show ?thesis using st opn
    by (auto simp: op_store_def cbind_Ok split: option.splits if_splits dest!: reg_get intro!: after(2))
      (blast intro: trans)+
next
  case (GET_FIELD_PTR b k x)
  then show ?thesis using st opn res
    by (auto simp: op_get_field_ptr_def cbind_Ok split: if_splits dest!: reg_get set_next intro!: after intro: trans)
next
  case (GET_ELEM_PTR b k x)
  then show ?thesis using st opn res
    by (auto simp: op_get_elem_ptr_def cbind_Ok dest!: reg_get set_next intro: trans)
next
  case (CONDBR c t e)
  then show ?thesis using st opn by (auto simp: cbind_Ok dest!: reg_get)
next
  case (SWITCH d cs df)
  then show ?thesis using st opn by (auto simp: op_switch_def cbind_Ok dest!: reg_get)
next
  case (RET x)
  then show ?thesis using st opn by (auto simp: cbind_Ok dest!: reg_get)
next
  case (CALL n as c)
  then show ?thesis using st opn res m
    by (auto simp: op_call_def cbind_Ok dest!: dispatch[OF ex] set_next intro: trans)
next
  case (CALL_INDIRECT n as c)
  then show ?thesis using st opn res m
    by (auto simp: op_call_def cbind_Ok dest!: dispatch[OF ex] set_next intro: trans)
next
  case (PHI es)
  have "safe \<longrightarrow> in_file (length (regs fr)) (phi_source prev es)"
    using opn phi_source_in[of prev es] PHI by (cases "phi_source prev es = MIR_VALUE_NONE") (auto simp: in_file_def)
  then show ?thesis using st res PHI by (auto simp: op_phi_def cbind_Ok dest!: reg_get set_next intro: trans)
next
  case (TRANSFER tr x)
  then show ?thesis using st opn res by (auto simp: op_transfer_def cbind_Ok dest!: reg_get reg_set intro: trans)
next
  case (OBJ_ALLOC n k)
  then show ?thesis using st res
    by (auto simp: op_obj_alloc_def trap split: option.splits dest!: heap_object set_next intro: trans)
next
  case (EXTRACT a k)
  then show ?thesis using st opn res
    by (auto simp: op_extract_def cbind_Ok split: option.splits if_splits dest!: reg_get set_next intro: trans)
qed (use st res in \<open>auto simp: refl trap dest!: set_next\<close>)

lemma loop:
  assumes ex: "runs_ok safe R exec" and f: "safe \<longrightarrow> ids_ok f"
  shows "cvm_loop env exec f n vm fr cur prev is = Ok (vm', fr', v) \<Longrightarrow> safe \<longrightarrow> module_ids_ok vm \<Longrightarrow>
    safe \<longrightarrow> length (regs fr) = nat (reg_count_of f) \<and> (\<forall>i \<in> set is. inst_ids_ok (length (regs fr)) i) \<Longrightarrow> R vm vm'"
proof (induction n arbitrary: vm fr cur prev "is")
  case (Suc n)
  have ent: "R vm1 vm'" if "enter_block f (\<lambda>b. cvm_loop env exec f n vm1 fr1 b p) vm1 fr1 t = Ok (vm', fr', v)"
    and "safe \<longrightarrow> module_ids_ok vm1" and "safe \<longrightarrow> length (regs fr1) = nat (reg_count_of f)" for vm1 fr1 p t
  proof (cases t)
    case (Some b)
    have "b \<in> set (block_list f)" if "threaded f b" using that by (auto simp: threaded_def dest: set_dropWhileD)
    then show ?thesis using Suc.IH that Some f by (auto simp: enter_block_def ids_ok_def split: if_splits)
  qed (use that in \<open>simp add: enter_block_def refl\<close>)
  show ?case
  proof (cases "is")
    case Nil
    then show ?thesis using Suc.prems ent by simp
  next
    case (Cons i rest)
    let ?vm = "vm\<lparr>inst_executed := inst_executed vm + 1\<rparr>"
    from Cons obtain ctl where st: "cvm_step env exec ?vm fr prev (iop i) (result i) = Ok ctl"
      and k: "(case ctl of
          CtlNext vm1 fr1 \<Rightarrow>
            if trap_code vm1 \<noteq> 0 then Ok (vm1, fr1, 0)
            else cvm_loop env exec f n vm1 fr1 cur prev rest
        | CtlJump vm1 fr1 tgt \<Rightarrow>
            enter_block f (\<lambda>b. cvm_loop env exec f n vm1 fr1 b (Some cur)) vm1 fr1 tgt
        | CtlDone vm1 fr1 v \<Rightarrow> Ok (vm1, fr1, v)) = Ok (vm', fr', v)"
      using Suc.prems unfolding Cons cvm_loop.simps cbind_Ok by blast
    have R1: "R vm (ctl_state ctl)"
      by (rule trans[OF counter step[OF ex st]])
        (use Suc.prems(2,3) Cons in \<open>auto simp: module_ids_ok_def inst_ids_ok_def\<close>)
    note m1 = keeps_module[OF R1 Suc.prems(2)] and len = step_length[OF st]
    have "R (ctl_state ctl) vm'"
    proof (cases ctl)
      case (CtlNext vm1 fr1)
      then show ?thesis using k m1 len Suc.prems(3) Cons Suc.IH[of vm1 fr1 cur prev rest] by (auto simp: refl split: if_splits)
    next
      case (CtlJump vm1 fr1 t)
      then show ?thesis using k m1 len Suc.prems(3) ent by auto
    next
      case (CtlDone vm1 fr1 w)
      then show ?thesis using k refl by simp
    qed
    then show ?thesis by (rule trans[OF R1])
  qed
qed simp

lemma exec: "runs_ok safe R (cvm_exec_function env n)"
proof (induction n)
  case (Suc n)
  show ?case unfolding runs_ok_def
  proof (intro allI impI)
    fix vm f as vm' v
    assume run: "cvm_exec_function env (Suc n) vm f as = Ok (vm', v)" and ok: "safe \<longrightarrow> ids_ok f \<and> module_ids_ok vm"
    let ?oom = "reg_count_of f < 0 \<or> \<not> e_alloc_ok env vm (nat (reg_count_of f) * 8)"
    consider "?oom" | "\<not> ?oom" "frame_depth vm + 1 > CVM_MAX_CALL_DEPTH"
      | "\<not> ?oom" "\<not> frame_depth vm + 1 > CVM_MAX_CALL_DEPTH" by blast
    then show "R vm vm'"
    proof cases
      case 1
      then have "vm' = vm\<lparr>trap_code := 1\<rparr>" using run by (simp add: Let_def split: if_splits)
      then show ?thesis using trap by simp
    next
      case 2
      then have "vm' = (pushed vm)\<lparr>trap_code := 2, frame_depth := frame_depth (pushed vm) - 1\<rparr>"
        using run unfolding cvm_exec_function.simps Let_def pushed_def[symmetric] by simp
      then show ?thesis using overflow 2 by simp
    next
      case 3
      define fr0 where "fr0 = \<lparr>regs = copy_args (replicate (nat (reg_count_of f)) 0) (params f) as, allocas = [], alloca_cap = 0\<rparr>"
      obtain vm2 fr2 e where e: "entry_block f = Some e" "insts (blocks f ! e) \<noteq> []" "e < length (blocks f)"
        and lp: "enter_block f (\<lambda>b. cvm_loop env (cvm_exec_function env n) f n (pushed vm) fr0 b None)
            (pushed vm) fr0 (Some e) = Ok (vm2, fr2, v)"
        and vm': "vm' = cvm_frame_free_allocas (vm2\<lparr>frame_depth := frame_depth vm2 - 1\<rparr>) fr2"
        using run 3 unfolding cvm_exec_function.simps Let_def pushed_def[symmetric] fr0_def[symmetric]
        by (auto simp: cbind_Ok split: if_splits option.splits)
      have t: "threaded f e" and lp': "cvm_loop env (cvm_exec_function env n) f n (pushed vm) fr0 e None (insts (blocks f ! e)) = Ok (vm2, fr2, v)"
        using lp e by (auto simp: enter_block_def split: if_splits)
      have "R (pushed vm) vm2"
      proof (rule loop[OF Suc.IH _ lp'])
        show "safe \<longrightarrow> module_ids_ok (pushed vm)" using ok by (simp add: module_ids_ok_def pushed_def)
        have "e \<in> set (block_list f)" using t by (auto simp: threaded_def dest: set_dropWhileD)
        then show "safe \<longrightarrow> length (regs fr0) = nat (reg_count_of f) \<and>
            (\<forall>i \<in> set (insts (blocks f ! e)). inst_ids_ok (length (regs fr0)) i)"
          using ok by (simp add: ids_ok_def fr0_def)
      qed (use ok in simp)
      then have "R vm (vm2\<lparr>frame_depth := frame_depth vm2 - 1\<rparr>)" using framed 3 by simp
      then show ?thesis using after(2) by (simp add: vm' cvm_frame_free_allocas_def)
    qed
  qed
qed (simp add: runs_ok_def)

lemma run:
  assumes "cvm_run env n vm entry as = Ok (vm', v)" and "safe \<longrightarrow> module_ids_ok vm"
  shows "R vm vm'"
proof (cases "mir_module_find_function (vmodule vm) entry")
  case (Some f)
  then have "safe \<longrightarrow> ids_ok f \<and> module_ids_ok vm"
    using assms(2) by (auto simp: module_ids_ok_def mir_module_find_function_def find_Some_iff)
  then show ?thesis using assms(1) enter[OF exec] by (auto simp: cvm_run_def Some)
qed (use assms in \<open>simp add: cvm_run_def refl\<close>)

lemma call:
  "cvm_exec_function env n vm f as = Ok (vm', v) \<Longrightarrow> safe \<longrightarrow> ids_ok f \<and> module_ids_ok vm \<Longrightarrow> R vm vm'"
  using exec[of n] unfolding runs_ok_def by blast

end

section \<open>Frame discipline\<close>

text \<open>
  What a run leaves fixed (the module, whether a JIT is attached, the depth of the frame stack) and
  what it only extends.
\<close>

definition vm_extends :: "CvmState \<Rightarrow> CvmState \<Rightarrow> bool" where
  "vm_extends vm vm' \<longleftrightarrow>
     vmodule vm' = vmodule vm \<and> jit vm' = jit vm \<and> frame_depth vm' = frame_depth vm
     \<and> frame_depth_peak vm \<le> frame_depth_peak vm'
     \<and> frame_depth_peak vm' \<le> max (frame_depth_peak vm) (max (frame_depth vm) CVM_MAX_CALL_DEPTH + 1)
     \<and> prefix (stdout vm) (stdout vm') \<and> prefix (heap_objs vm) (heap_objs vm')
     \<and> prefix (map p_func_name (profiles vm)) (map p_func_name (profiles vm'))"

lemma tier_up_frame [frame_simps]:
  "vmodule (cvm_tier_up env vm f k) = vmodule vm" "jit (cvm_tier_up env vm f k) = jit vm"
  "frame_depth (cvm_tier_up env vm f k) = frame_depth vm"
  "frame_depth_peak (cvm_tier_up env vm f k) = frame_depth_peak vm"
  "stdout (cvm_tier_up env vm f k) = stdout vm" "heap_objs (cvm_tier_up env vm f k) = heap_objs vm"
  "trap_code (cvm_tier_up env vm f k) = trap_code vm" "mem (cvm_tier_up env vm f k) = mem vm"
  "length (profiles (cvm_tier_up env vm f k)) = length (profiles vm)"
  by (auto simp: cvm_tier_up_def Let_def split: prod.splits)

text \<open>
  What the interpreter relies on in \<^verbatim>\<open>cjb_compile_function\<close>: it keeps the profile's name and
  count, and marks the profile native when it reports success.
\<close>

definition compile_ok :: "CvmEnv \<Rightarrow> bool" where
  "compile_ok env \<longleftrightarrow> (\<forall>vm f p p' ok. e_compile env vm f p = (p', ok) \<longrightarrow>
     p_func_name p' = p_func_name p \<and> call_count p' = call_count p \<and>
     (ok \<longrightarrow> tier p' = CVM_TIER_NATIVE \<and> native_fn p' \<noteq> None))"

lemma tier_up_profile:
  assumes "compile_ok env" and "k < length (profiles vm)"
  shows "map p_func_name (profiles (cvm_tier_up env vm f k)) = map p_func_name (profiles vm)"
    and "i < length (profiles vm) \<Longrightarrow> i \<noteq> k \<Longrightarrow> profiles (cvm_tier_up env vm f k) ! i = profiles vm ! i"
    and "tier (profiles (cvm_tier_up env vm f k) ! k) \<in>
      (if tier (profiles vm ! k) = CVM_TIER_INTERPRET \<and> jit vm
       then {CVM_TIER_INTERPRET, CVM_TIER_NATIVE, CVM_TIER_JIT_DENIED} else {tier (profiles vm ! k)})"
proof -
  obtain p' ok where c: "e_compile env (vm\<lparr>profiles := (profiles vm)[k := (profiles vm ! k)\<lparr>tier := CVM_TIER_JIT_PENDING\<rparr>]\<rparr>) f
      ((profiles vm ! k)\<lparr>tier := CVM_TIER_JIT_PENDING\<rparr>) = (p', ok)" by fastforce
  have p': "p_func_name p' = p_func_name (profiles vm ! k)" "ok \<longrightarrow> tier p' = CVM_TIER_NATIVE"
    using assms(1) c unfolding compile_ok_def by fastforce+
  have nm: "map p_func_name ((profiles vm)[k := q]) = map p_func_name (profiles vm)"
    if "p_func_name q = p_func_name (profiles vm ! k)" for q
    using assms(2) that by (intro nth_equalityI) (auto simp: nth_list_update)
  show "map p_func_name (profiles (cvm_tier_up env vm f k)) = map p_func_name (profiles vm)"
    using p' nm by (simp add: cvm_tier_up_def Let_def c)
  show "i < length (profiles vm) \<Longrightarrow> i \<noteq> k \<Longrightarrow> profiles (cvm_tier_up env vm f k) ! i = profiles vm ! i"
    by (simp add: cvm_tier_up_def Let_def c)
  show "tier (profiles (cvm_tier_up env vm f k) ! k) \<in>
      (if tier (profiles vm ! k) = CVM_TIER_INTERPRET \<and> jit vm
       then {CVM_TIER_INTERPRET, CVM_TIER_NATIVE, CVM_TIER_JIT_DENIED} else {tier (profiles vm ! k)})"
    using p' assms(2) by (auto simp: cvm_tier_up_def Let_def c)
qed

lemma get_profile_cases:
  assumes "cvm_get_profile env vm f = (vm', k)"
  shows "vm' = vm \<or> vm' = vm\<lparr>trap_code := 1\<rparr> \<or>
    (\<exists>c p. vm' = vm\<lparr>profile_cap := c, profiles := profiles vm @ [p]\<rparr> \<and> tier p = CVM_TIER_INTERPRET)"
proof (cases "find_index (\<lambda>p. p_func_name p = fname f) (profiles vm)")
  case None
  let ?grow = "profile_cap vm \<le> length (profiles vm)"
    and ?nc = "if profile_cap vm \<noteq> 0 then profile_cap vm * 2 else 16"
    and ?p = "\<lparr>p_func_name = fname f, call_count = 0, tier = CVM_TIER_INTERPRET, native_fn = None\<rparr>"
  have "vm' = vm\<lparr>trap_code := 1\<rparr> \<or>
      vm' = vm\<lparr>profile_cap := (if ?grow then ?nc else profile_cap vm), profiles := profiles vm @ [?p]\<rparr>"
    using if_pairD[OF assms[unfolded cvm_get_profile_def Let_def None option.case]] .
  moreover have "tier ?p = CVM_TIER_INTERPRET" by simp
  ultimately show ?thesis by blast
qed (use assms in \<open>simp add: cvm_get_profile_def\<close>)

lemma call_count_names:
  "i < length (profiles vm) \<Longrightarrow>
   map p_func_name ((profiles vm)[i := (profiles vm ! i)\<lparr>call_count := w\<rparr>]) = map p_func_name (profiles vm)"
  by (intro nth_equalityI) (auto simp: nth_list_update)

interpretation frames: vm_relation env False "\<lambda>vm vm'. compile_ok env \<longrightarrow> vm_extends vm vm'" for env
proof
  fix vm f vm1 k
  assume "cvm_get_profile env vm f = (vm1, k)"
  from get_profile_cases[OF this] show "compile_ok env \<longrightarrow> vm_extends vm vm1" by (auto simp: vm_extends_def)
next
  fix vm :: CvmState and i f
  assume "i < length (profiles vm)"
  then show "compile_ok env \<longrightarrow> vm_extends vm (cvm_tier_up env vm f i)"
    using tier_up_profile(1)[of env i vm f] by (simp add: vm_extends_def frame_simps)
next
  fix vm vm1 vm2
  assume "compile_ok env \<longrightarrow> vm_extends vm vm1" "compile_ok env \<longrightarrow> vm_extends vm1 vm2"
  then show "compile_ok env \<longrightarrow> vm_extends vm vm2" unfolding vm_extends_def
    by (auto intro: prefix_order.trans)
next
  fix vm vm2 :: CvmState
  assume "frame_depth vm + 1 \<le> CVM_MAX_CALL_DEPTH" and "compile_ok env \<longrightarrow> vm_extends (pushed vm) vm2"
  then show "compile_ok env \<longrightarrow> vm_extends vm (vm2\<lparr>frame_depth := frame_depth vm2 - 1\<rparr>)"
    by (auto simp: vm_extends_def pushed_def max_def split: if_splits)
next
  fix vm :: CvmState
  assume "frame_depth vm + 1 > CVM_MAX_CALL_DEPTH"
  then show "compile_ok env \<longrightarrow> vm_extends vm ((pushed vm)\<lparr>trap_code := 2, frame_depth := frame_depth (pushed vm) - 1\<rparr>)"
    by (auto simp: vm_extends_def pushed_def)
qed (auto simp: vm_extends_def call_count_names)

text \<open>
  C4: Frame discipline: a run of the interpreter, whatever the program and however it ends (return,
  trap, stack overflow), leaves the frame stack at the depth it found, never goes more than one
  frame past the limit of 512, keeps the module, and only appends to standard output, to the profile
  table and to the list of heap objects.
\<close>

theorem cvm_exec_frame_discipline:
  assumes "compile_ok env" and "cvm_exec_function env n vm f as = Ok (vm', v)"
  shows "vm_extends vm vm'"
  using frames.call[OF assms(2)] assms(1) by simp

section \<open>Tiering\<close>

text \<open>The moves of a tier that a run may cause.\<close>

fun tier_le :: "CvmTier \<Rightarrow> CvmTier \<Rightarrow> bool" where
  "tier_le CVM_TIER_INTERPRET t = (t \<noteq> CVM_TIER_JIT_PENDING)"
| "tier_le s t = (t = s)"

definition tiers_forward :: "CvmState \<Rightarrow> CvmState \<Rightarrow> bool" where
  "tiers_forward vm vm' \<longleftrightarrow> jit vm' = jit vm \<and> length (profiles vm) \<le> length (profiles vm') \<and>
     (\<forall>i < length (profiles vm). tier_le (tier (profiles vm ! i)) (tier (profiles vm' ! i))
        \<and> (\<not> jit vm \<longrightarrow> tier (profiles vm' ! i) = tier (profiles vm ! i)))"

lemma tier_le_refl [simp]: "tier_le t t" by (cases t) simp_all

lemma tier_le_trans: "tier_le s t \<Longrightarrow> tier_le t u \<Longrightarrow> tier_le s u"
  by (cases s; cases t) simp_all

interpretation tiers: vm_relation env False "\<lambda>vm vm'. compile_ok env \<longrightarrow> tiers_forward vm vm'" for env
proof
  fix vm f vm1 k
  assume "cvm_get_profile env vm f = (vm1, k)"
  from get_profile_cases[OF this] show "compile_ok env \<longrightarrow> tiers_forward vm vm1"
    by (auto simp: tiers_forward_def nth_append)
next
  fix vm :: CvmState and i f
  assume i: "i < length (profiles vm)"
  show "compile_ok env \<longrightarrow> tiers_forward vm (cvm_tier_up env vm f i)"
  proof
    assume c: "compile_ok env"
    have "tier_le (tier (profiles vm ! j)) (tier (profiles (cvm_tier_up env vm f i) ! j))
        \<and> (\<not> jit vm \<longrightarrow> tier (profiles (cvm_tier_up env vm f i) ! j) = tier (profiles vm ! j))"
      if "j < length (profiles vm)" for j
    proof (cases "j = i")
      case True
      then show ?thesis using tier_up_profile(3)[OF c i, of f] by (auto split: if_splits)
    next
      case False
      then show ?thesis using tier_up_profile(2)[OF c i that, of f] by simp
    qed
    then show "tiers_forward vm (cvm_tier_up env vm f i)" by (simp add: tiers_forward_def frame_simps)
  qed
next
  fix vm vm1 vm2
  assume "compile_ok env \<longrightarrow> tiers_forward vm vm1" "compile_ok env \<longrightarrow> tiers_forward vm1 vm2"
  then show "compile_ok env \<longrightarrow> tiers_forward vm vm2" unfolding tiers_forward_def
    by (auto intro: tier_le_trans)
qed (auto simp: tiers_forward_def pushed_def nth_list_update)

text \<open>
  JIT tiering is a one-way state machine: during any run the tier of a profiled function moves
  from interpreted to native or to denied, and never again; in particular a function whose
  compilation failed once stays denied, and without a JIT no tier changes at all.
\<close>

theorem cvm_run_tiers_forward:
  assumes "compile_ok env" and "cvm_run env n vm entry as = Ok (vm', v)"
    and "i < length (profiles vm)"
  shows "tier_le (tier (profiles vm ! i)) (tier (profiles vm' ! i))
    \<and> (\<not> jit vm \<longrightarrow> tier (profiles vm' ! i) = tier (profiles vm ! i))"
  using tiers.run[OF assms(2)] assms(1,3) by (simp add: tiers_forward_def)

section \<open>Verified modules never leave the register file\<close>

definition reg_safe :: "CvmState \<Rightarrow> CvmState \<Rightarrow> bool" where
  "reg_safe vm vm' \<longleftrightarrow> vmodule vm' = vmodule vm \<and> (trap_code vm \<noteq> 5 \<longrightarrow> trap_code vm' \<noteq> 5)"

interpretation reg_file: vm_relation env True reg_safe for env
proof
  fix vm f vm1 k
  assume "cvm_get_profile env vm f = (vm1, k)"
  from get_profile_cases[OF this] show "reg_safe vm vm1" by (auto simp: reg_safe_def)
qed (auto simp: reg_safe_def pushed_def frame_simps)

text \<open>
  What the verifier is told about a function before it runs: it accepts the function, the results
  are ids the function allocated, and the ids fit the VM's register file.
\<close>

definition vm_accepts :: "MirType list \<Rightarrow> MirFunction \<Rightarrow> bool" where
  "vm_accepts c f \<longleftrightarrow> is_extern f \<and> block_list f = [] \<or>
     \<not> is_extern f \<and> mir_verify_function c f = 0 \<and> 0 < next_value_id f \<and> unat (next_value_id f) \<le> 4096
     \<and> (\<forall>b \<in> set (block_list f). \<forall>i \<in> set (insts (blocks f ! b)). mir_vid_defined f (result i))"

lemma accepted_reg_count:
  assumes "0 < next_value_id f" and "unat (next_value_id f) \<le> 4096"
  shows "reg_count_of f = sint (next_value_id f)"
proof -
  have "int (unat (next_value_id f)) \<le> 4096" using assms(2) by linarith
  then show ?thesis
    using assms sint_small[of "next_value_id f"] by (simp add: reg_count_of_def CVM_MAX_REGS_def Let_def)
qed

lemma operand_zeroD: "mir_verify_value_ids_operand f x = 0 \<Longrightarrow> mir_vid_defined f x"
  by (cases "x = MIR_VALUE_NONE")
    (simp_all add: mir_verify_value_ids_operand_def mir_vid_defined_def split: if_splits)

lemma vm_accepts_ids_ok:
  assumes "vm_accepts c f"
  shows "ids_ok f"
proof (cases "is_extern f")
  case True
  then show ?thesis using assms by (simp add: vm_accepts_def ids_ok_def)
next
  case False
  with assms have ok: "mir_verify_function c f = 0" "0 < next_value_id f" "unat (next_value_id f) \<le> 4096"
    and res: "\<And>b i. b \<in> set (block_list f) \<Longrightarrow> i \<in> set (insts (blocks f ! b)) \<Longrightarrow> mir_vid_defined f (result i)"
    by (auto simp: vm_accepts_def)
  note rc = accepted_reg_count[OF ok(2,3)]
  have inside: "in_file (nat (reg_count_of f)) x" if "mir_vid_defined f x" for x
    using that by (auto simp: in_file_def mir_vid_defined_def rc)
  have "mir_vid_defined f x" if "b \<in> set (block_list f)" "i \<in> set (insts (blocks f ! b))"
    "x \<in> set (verify_operands (iop i))" for b i x
    using verify_zeroD(3)[OF ok(1) False that(1,2)] that(3) operand_zeroD
    by (simp add: mir_verify_inst_value_ids_def)
  then show ?thesis using res inside unfolding ids_ok_def inst_ids_ok_def by blast
qed

text \<open>
  C1: The verifier is enough for the VM's register file: when every function of the module passes
  \<^verbatim>\<open>mir_verify_function\<close>, results are allocated ids and no function needs more than 4096
  registers, no run, through any depth of calls, ends with the register-index trap 5.
\<close>

theorem cvm_run_verified_no_trap5:
  assumes "\<And>f. f \<in> set (func_list (vmodule vm)) \<Longrightarrow> vm_accepts (type_cache (vmodule vm)) f"
    and "trap_code vm \<noteq> 5" and "cvm_run env n vm entry as = Ok (vm', v)"
  shows "trap_code vm' \<noteq> 5"
proof -
  have "module_ids_ok vm" using assms(1) vm_accepts_ids_ok by (auto simp: module_ids_ok_def)
  with reg_file.run[OF assms(3)] assms(2) show ?thesis by (simp add: reg_safe_def)
qed

section \<open>The C heap\<close>

lemma region_at_some:
  assumes "region_at h a n = Some k"
  shows "k < length h" "unat (rbase (h ! k)) \<le> unat a" "unat a + n \<le> unat (rbase (h ! k)) + length (rbytes (h ! k))"
  using find_index_Some[OF assms[unfolded region_at_def]] by simp_all

lemma region_at_update:
  assumes "k < length h" and "length bs = length (rbytes (h ! k))"
  shows "region_at (h[k := (h ! k)\<lparr>rbytes := bs\<rparr>]) a n = region_at h a n"
proof -
  have "find_index p (xs[k := y]) = find_index p xs" if "k < length xs" "p y = p (xs ! k)"
    for p and xs :: "MemRegion list" and y k
    using that by (induction xs arbitrary: k) (auto split: nat.splits simp: nth_Cons)
  from this[OF assms(1)] show ?thesis unfolding region_at_def using assms(2) by simp
qed

text \<open>
  A 64-bit store to the VM's heap is read back by a load from the same address, and a load from
  any range that does not overlap it is unchanged; a load or store succeeds exactly inside a live
  region.
\<close>

theorem cvm_store_load:
  assumes "mem_store64 h a v = Some h'"
  shows "mem_load64 h' a = Some v
    \<and> (\<forall>b. unat b + 8 \<le> unat a \<or> unat a + 8 \<le> unat b \<longrightarrow> mem_load64 h' b = mem_load64 h b)"
proof -
  obtain k where k: "region_at h a 8 = Some k" using assms by (auto simp: mem_store64_def split: option.splits)
  note kr = region_at_some[OF k]
  define off where "off = unat a - unat (rbase (h ! k))"
  define bs where "bs = rbytes (h ! k)"
  define bs' where "bs' = take off bs @ le_bytes v @ drop (off + 8) bs"
  have h': "h' = h[k := (h ! k)\<lparr>rbytes := bs'\<rparr>]"
    using assms by (simp add: mem_store64_def k Let_def off_def bs_def bs'_def)
  have off: "off + 8 \<le> length bs" using kr by (simp add: off_def bs_def)
  then have len: "length bs' = length (rbytes (h ! k))" by (simp add: bs'_def bs_def)
  note same = region_at_update[OF kr(1) len]
  have "take 8 (drop off bs') = le_bytes v" using off by (simp add: bs'_def)
  then have "mem_load64 h' a = Some v"
    by (simp add: mem_load64_def h' same k kr(1) off_def[symmetric])
  moreover have "mem_load64 h' b = mem_load64 h b" if d: "unat b + 8 \<le> unat a \<or> unat a + 8 \<le> unat b" for b
  proof (cases "region_at h b 8")
    case None
    then show ?thesis by (simp add: mem_load64_def h' same)
  next
    case (Some j)
    note jr = region_at_some[OF Some]
    show ?thesis
    proof (cases "j = k")
      case True
      define q where "q = unat b - unat (rbase (h ! k))"
      have "q + 8 \<le> off \<or> off + 8 \<le> q" "q + 8 \<le> length bs"
        using d kr jr True by (auto simp: q_def off_def bs_def)
      then have "take 8 (drop q bs') = take 8 (drop q bs)" using off by (auto simp: bs'_def drop_take)
      then show ?thesis using True kr(1) by (simp add: mem_load64_def h' same Some q_def bs_def)
    qed (simp add: mem_load64_def h' same Some)
  qed
  ultimately show ?thesis by blast
qed

section \<open>A concrete run\<close>

text \<open>
  A bump allocator that never reuses addresses below the end of a live region, with no JIT and
  floating point left at zero: an instance of the environment for the examples.
\<close>

definition demo_env :: CvmEnv where
  "demo_env =
     \<lparr>e_calloc = (\<lambda>vm n.
        let a = fold (\<lambda>r m. max m (unat (rbase r) + length (rbytes r))) (mem vm) 4096
        in if a + n < 2 ^ 63 then Some (of_nat a) else None),
      e_alloc_ok = (\<lambda>vm n. n < 2 ^ 31), e_fbin = (\<lambda>p x y. 0), e_sitofp = (\<lambda>x. 0), e_fptosi = (\<lambda>x. 0),
      e_fmt_f64 = (\<lambda>x. ''0.000000''), e_compile = (\<lambda>vm f p. (p, False)), e_native = (\<lambda>k as. as)\<rparr>"

definition demo_main :: MirFunction where
  "demo_main =
     \<lparr>fname = ''main'', return_type = Some 0, params = [], entry_block = Some 0, block_list = [0],
      blocks = [\<lparr>bb_id = 0, label = ''entry'',
                 insts = [\<lparr>iop = CONST_INT 6, result = 1, itype = Some 0\<rparr>,
                          \<lparr>iop = CONST_INT 7, result = 2, itype = Some 0\<rparr>,
                          \<lparr>iop = BINARY MIR_MUL 1 2, result = 3, itype = Some 0\<rparr>,
                          \<lparr>iop = RET 3, result = 0, itype = None\<rparr>],
                 inst_count = 4, predecessors = [], successors = []\<rparr>],
      block_count = 1, next_value_id = 4, value_types = [None, Some 0, Some 0, Some 0],
      is_constexpr = False, is_extern = False, is_async = False\<rparr>"

definition demo_vm :: CvmState where
  "demo_vm =
     (cvm_state_create
       \<lparr>mname = ''m'', func_list = [demo_main], func_count = 1, globals = [],
        type_cache = [TyPlain MIR_TYPE_I64], string_literals = []\<rparr> False)
     \<lparr>profiles := [\<lparr>p_func_name = ''main'', call_count = 4, tier = CVM_TIER_JIT_DENIED, native_fn = None\<rparr>],
      profile_cap := 16\<rparr>"

lemma demo_env_ok: "compile_ok demo_env"
  by (simp add: compile_ok_def demo_env_def)

lemma demo_main_fields [simp]:
  "params demo_main = []" "entry_block demo_main = Some 0" "fname demo_main = ''main''"
  "insts (blocks demo_main ! 0) =
     [\<lparr>iop = CONST_INT 6, result = 1, itype = Some 0\<rparr>,
      \<lparr>iop = CONST_INT 7, result = 2, itype = Some 0\<rparr>,
      \<lparr>iop = BINARY MIR_MUL 1 2, result = 3, itype = Some 0\<rparr>,
      \<lparr>iop = RET 3, result = 0, itype = None\<rparr>]"
  "length (blocks demo_main) = 1" "threaded demo_main 0" "reg_count_of demo_main = 4"
  by (simp_all add: demo_main_def threaded_def reg_count_of_def CVM_MAX_REGS_def)

lemma demo_exec:
  "cvm_exec_function demo_env (Suc (Suc (Suc (Suc (Suc n))))) demo_vm demo_main [] =
     Ok (demo_vm\<lparr>frame_depth_peak := 1, inst_executed := 4\<rparr>, 42)"
proof -
  have "e_alloc_ok demo_env demo_vm 32" "frame_depth demo_vm = 0" "frame_depth_peak demo_vm = 0"
    "inst_executed demo_vm = 0" "trap_code demo_vm = 0" "mem demo_vm = []"
    by (simp_all add: demo_env_def demo_vm_def cvm_state_create_def)
  then show ?thesis
    by (simp add: Let_def CVM_MAX_CALL_DEPTH_def enter_block_def set_next_def cvm_reg_set_def
        cvm_reg_get_def op_binary_def cvm_frame_free_allocas_def)
qed

lemma demo_run:
  "\<exists>vm'. cvm_run demo_env (Suc (Suc (Suc (Suc (Suc n))))) demo_vm ''main'' [] = Ok (vm', 42)
     \<and> tier (profiles vm' ! 0) = CVM_TIER_JIT_DENIED"
proof -
  define vm1 where "vm1 = demo_vm\<lparr>profiles := [\<lparr>p_func_name = ''main'', call_count = 5,
    tier = CVM_TIER_JIT_DENIED, native_fn = None\<rparr>]\<rparr>"
  have f: "mir_module_find_function (vmodule demo_vm) ''main'' = Some demo_main"
    by (simp add: demo_vm_def cvm_state_create_def mir_module_find_function_def)
  have g: "cvm_get_profile demo_env demo_vm demo_main = (demo_vm, Some 0)"
    by (simp add: cvm_get_profile_def demo_vm_def cvm_state_create_def)
  have p: "profiles demo_vm = [\<lparr>p_func_name = ''main'', call_count = 4, tier = CVM_TIER_JIT_DENIED, native_fn = None\<rparr>]"
    by (simp add: demo_vm_def)
  have fields: "e_alloc_ok demo_env vm1 32" "frame_depth vm1 = 0" "frame_depth_peak vm1 = 0"
    "inst_executed vm1 = 0" "trap_code vm1 = 0" "mem vm1 = []"
    by (simp_all add: vm1_def demo_env_def demo_vm_def cvm_state_create_def)
  have "cvm_exec_function demo_env (Suc (Suc (Suc (Suc (Suc n))))) vm1 demo_main [] =
     Ok (vm1\<lparr>frame_depth_peak := 1, inst_executed := 4\<rparr>, 42)"
    using fields
    by (simp add: Let_def CVM_MAX_CALL_DEPTH_def enter_block_def set_next_def cvm_reg_set_def
        cvm_reg_get_def op_binary_def cvm_frame_free_allocas_def)
  then have "cvm_run demo_env (Suc (Suc (Suc (Suc (Suc n))))) demo_vm ''main'' [] =
     Ok (vm1\<lparr>frame_depth_peak := 1, inst_executed := 4\<rparr>, 42)"
    by (simp add: cvm_run_def f cvm_enter_def g p Let_def cvm_tier_up_def vm1_def del: cvm_exec_function.simps)
  then show ?thesis by (simp add: vm1_def del: cvm_exec_function.simps)
qed

lemma demo_main_accepted: "vm_accepts (type_cache (vmodule demo_vm)) demo_main"
proof -
  have "mir_verify_cfg_reachable demo_main = 0"
    by (simp add: mir_verify_cfg_reachable_def Let_def demo_main_def block_ident_def term_succs_def)
  then have "mir_verify_function [TyPlain MIR_TYPE_I64] demo_main = 0"
    by (simp add: mir_verify_function_def)
      (simp add: demo_main_def mir_verify_block_shape_def mir_block_is_terminated_def
        mir_verify_inst_value_ids_def mir_verify_inst_types_def mir_verify_value_ids_operand_def
        mir_vid_defined_def mir_function_value_type_def mir_type_is_integer_def mir_type_kind_in_def Let_def int_binops_def)
  then show ?thesis
    by (simp add: vm_accepts_def demo_vm_def cvm_state_create_def)
      (simp add: demo_main_def mir_vid_defined_def)
qed

theorem cvm_run_verified_no_trap5_witness:
  "\<exists>vm' v. cvm_run demo_env 5 demo_vm ''main'' [] = Ok (vm', v) \<and> trap_code vm' \<noteq> 5"
proof -
  have five: "(5::nat) = Suc (Suc (Suc (Suc (Suc 0))))" by simp
  obtain vm' where r: "cvm_run demo_env 5 demo_vm ''main'' [] = Ok (vm', 42)"
    using demo_run[of 0] unfolding five by auto
  have "func_list (vmodule demo_vm) = [demo_main]" "trap_code demo_vm = 0"
    by (simp_all add: demo_vm_def cvm_state_create_def)
  then have "trap_code vm' \<noteq> 5"
    using cvm_run_verified_no_trap5[OF _ _ r] demo_main_accepted by simp
  with r show ?thesis by blast
qed

theorem cvm_run_fuel_witness:
  "cvm_run demo_env 5 demo_vm ''main'' [] \<noteq> OutOfFuel
   \<and> cvm_run demo_env 100 demo_vm ''main'' [] = cvm_run demo_env 5 demo_vm ''main'' []"
proof -
  have five: "(5::nat) = Suc (Suc (Suc (Suc (Suc 0))))" by simp
  have "cvm_run demo_env 5 demo_vm ''main'' [] \<noteq> OutOfFuel" unfolding five using demo_run[of 0] by auto
  then show ?thesis using cvm_run_fuel[of 5 100 demo_env demo_vm "''main''" "[]"] by simp
qed

theorem cvm_exec_frame_discipline_witness:
  "vm_extends demo_vm (demo_vm\<lparr>frame_depth_peak := 1, inst_executed := 4\<rparr>)"
  by (rule cvm_exec_frame_discipline[OF demo_env_ok demo_exec[of 0]])

theorem cvm_run_tiers_forward_witness:
  "\<exists>vm' v. cvm_run demo_env 5 demo_vm ''main'' [] = Ok (vm', v)
     \<and> tier_le (tier (profiles demo_vm ! 0)) (tier (profiles vm' ! 0))"
proof -
  have five: "(5::nat) = Suc (Suc (Suc (Suc (Suc 0))))" by simp
  obtain vm' where r: "cvm_run demo_env 5 demo_vm ''main'' [] = Ok (vm', 42)"
    using demo_run[of 0] unfolding five by auto
  have "0 < length (profiles demo_vm)" by (simp add: demo_vm_def)
  from cvm_run_tiers_forward[OF demo_env_ok r this] r show ?thesis by blast
qed

theorem cvm_store_load_witness:
  "mem_load64 [\<lparr>rbase = 4096, rbytes = replicate 8 0 @ le_bytes 77\<rparr>] 4104 = Some 77"
proof -
  have "mem_store64 [\<lparr>rbase = 4096, rbytes = replicate 16 0\<rparr>] 4104 77
      = Some [\<lparr>rbase = 4096, rbytes = replicate 8 0 @ le_bytes 77\<rparr>]"
    by (simp add: mem_store64_def region_at_def Let_def)
  from cvm_store_load[OF this] show ?thesis by blast
qed

end
