(* ===== verification/Opt_Sound.thy ===== *)
theory Opt_Sound
  imports Cvm_Facts Opt_Facts
begin

text \<open>
  The optimiser against the interpreter: what the peephole rewrites of \<^verbatim>\<open>mir_opt.c\<close> compute is
  compared with what \<^verbatim>\<open>cvm_engine.c\<close> computes for the instruction they replace.
\<close>

section \<open>Constant folding\<close>

lemma fold_int_agrees: "fold_int p l r = FoldValue v \<Longrightarrow> cvm_binop env p l r = v"
  using signed_eq_0_iff[of r, where ?'a = int]
  by (cases p) (auto simp: cvm_safe_div_i64_def cvm_safe_mod_i64_def Let_def split: if_splits)

lemma fold_cmp_agrees: "fold_cmp p l r = Some b \<Longrightarrow> cvm_binop env p l r = of_flag b"
  by (cases p) auto

lemma fold_not_logic:
  "fold_int p l r = FoldValue v \<Longrightarrow> p \<noteq> MIR_LOGIC_AND \<and> p \<noteq> MIR_LOGIC_OR"
  "fold_cmp p l r = Some b \<Longrightarrow> p \<noteq> MIR_LOGIC_AND \<and> p \<noteq> MIR_LOGIC_OR"
  by auto

lemma inst_at_set_op:
  assumes "b < length (blocks f)" and "k < length (insts (blocks f ! b))"
  shows "inst_at (set_op f b k p) b k = (inst_at f b k)\<lparr>iop := p\<rparr>"
  using assms by (simp add: inst_at_def set_op_def upd_block_def)

text \<open>
  C2: Folding an arithmetic or comparison instruction is invisible to the VM: at any machine state
  where the registers of the operands of this instruction that are integer constants hold those
  constants, the rewritten instruction takes the interpreter to the same state as the original one,
  wrap-around, signed division and remainder and comparisons included.
\<close>

theorem constant_fold_step_agrees:
  assumes "then_step cf_arith cf_cmp f b k = Some (f', d)"
    and "b < length (blocks f)" and "k < length (insts (blocks f ! b))"
    and regs: "\<And>v c. v \<in> set (used_operands (iop (inst_at f b k))) \<Longrightarrow> const_int_def f v = Some c \<Longrightarrow>
      cvm_reg_get vm fr v = Ok (vm, c)"
  shows "cvm_step env exec vm fr prev (iop (inst_at f' b k)) (result (inst_at f' b k)) =
    cvm_step env exec vm fr prev (iop (inst_at f b k)) (result (inst_at f b k))"
proof (cases "f' = f")
  case False
  obtain p x y l r where bin: "iop (inst_at f b k) = BINARY p x y"
    and c: "const_int_def f x = Some l" "const_int_def f y = Some r"
    using assms(1) False by (auto simp: then_step_def cf_arith_def cf_cmp_def split: option.splits MirOp.splits FoldResult.splits)
  have orig: "cvm_step env exec vm fr prev (BINARY p x y) res = set_next vm fr res (cvm_binop env p l r)"
    if "p \<noteq> MIR_LOGIC_AND \<and> p \<noteq> MIR_LOGIC_OR" for res
    using that regs[OF _ c(1)] regs[OF _ c(2)] by (simp add: bin op_binary_def)
  have "(\<exists>v. fold_int p l r = FoldValue v \<and> f' = set_op f b k (CONST_INT v)) \<or>
      (\<exists>v. fold_cmp p l r = Some v \<and> f' = set_op f b k (CONST_BOOL v))"
    using assms(1) False bin c inst_at_set_op[OF assms(2,3)]
    by (auto simp: then_step_def cf_arith_def cf_cmp_def split: option.splits MirOp.splits FoldResult.splits)
  then show ?thesis
    using inst_at_set_op[OF assms(2,3)] orig fold_int_agrees fold_cmp_agrees fold_not_logic
    by (auto simp: bin)
qed simp

section \<open>Strength reduction\<close>

lemma pow2_nat:
  assumes "0 < (m :: nat)" and "m AND (m - 1) = 0"
  shows "m = 2 ^ log2_int m"
  using assms
proof (induction m rule: log2_int.induct)
  case (1 m)
  show ?case
  proof (cases "1 < m")
    case True
    define q where "q = m div 2"
    have q: "0 < q" using True by (simp add: q_def)
    have "even m"
    proof (rule ccontr)
      assume o: "odd m"
      then obtain t where "m = 2 * t + 1" by (elim oddE)
      then have "(m - 1) div 2 = q" "even (m - 1)" by (simp_all add: q_def)
      then have "m AND (m - 1) = 2 * q" by (subst and_rec) (simp add: q_def)
      with 1 q show False by simp
    qed
    then have m: "m = 2 * q" by (simp add: q_def)
    then have "(m - 1) div 2 = q - 1" using q by simp
    then have "m AND (m - 1) = 2 * (q AND (q - 1))" using m by (subst and_rec) simp
    with "1.prems" have "q AND (q - 1) = 0" by simp
    with "1.IH"[OF True] q have "q = 2 ^ log2_int q" by (simp add: q_def)
    then show ?thesis using True m by (subst log2_int.simps) (simp add: q_def[symmetric])
  next
    case False
    with "1.prems" show ?thesis by (subst log2_int.simps) simp
  qed
qed

lemma power_of_two_word:
  assumes "is_power_of_two c"
  shows "unat c = 2 ^ log2_int (unat c)" and "c = 2 ^ log2_int (unat c)" and "log2_int (unat c) < 63"
proof -
  have pos: "0 < sint c" and z: "c AND (c - 1) = 0" using assms by (auto simp: is_power_of_two_def)
  have c0: "c \<noteq> 0" using pos by auto
  have u: "unat (c - 1) = unat c - 1" using unat_minus_one[OF c0] .
  have n: "unat c = nat (sint c)" using pos by (intro unat_sint_nonneg) simp
  have z': "unat c AND (unat c - 1) = 0"
    using arg_cong[OF z, of unat] by (simp only: unsigned_and_eq u unsigned_0)
  have "0 < unat c" using n pos by simp
  from pow2_nat[OF this z'] show e: "unat c = 2 ^ log2_int (unat c)" .
  have "(of_nat (unat c) :: u64) = of_nat (2 ^ log2_int (unat c))" using e by (rule arg_cong)
  then show "c = 2 ^ log2_int (unat c)" by (simp only: of_nat_unat of_nat_power of_nat_numeral ucast_id)
  have "nat (sint c) < nat (2 ^ 63)" using sint_range64(2)[of c] pos by (intro nat_mono_iff[THEN iffD2]) simp_all
  then have "unat c < 2 ^ 63" using n by simp
  then have "(2::nat) ^ log2_int (unat c) < 2 ^ 63" using e by metis
  then show "log2_int (unat c) < 63" by (rule power_less_imp_less_exp[rotated]) simp
qed

lemma shift_count: "n < 64 \<Longrightarrow> unat ((of_nat n :: u64) AND 63) = n"
proof -
  assume n: "n < 64"
  have "(of_nat n :: u64) AND 63 = take_bit 6 (of_nat n)" by (simp add: take_bit_eq_mask mask_eq_exp_minus_1)
  also have "\<dots> = of_nat (take_bit 6 n)" by (simp add: of_nat_take_bit)
  also have "take_bit 6 n = n" using n by (simp add: take_bit_nat_eq_self)
  finally show ?thesis using n by (simp add: unsigned_of_nat take_bit_nat_eq_self)
qed

lemma and_pow2_mask: "x AND ((2 :: u64) ^ n - 1) = take_bit n x"
  by (simp add: take_bit_eq_mask mask_eq_exp_minus_1)

lemma mod_pow2_nonneg:
  assumes "is_power_of_two c" and "0 \<le> sint x"
  shows "x AND (c - 1) = cvm_safe_mod_i64 x c"
proof -
  define n where "n = log2_int (unat c)"
  have uc: "unat c = 2 ^ n" and c: "c = 2 ^ n" and n: "n < 63"
    using power_of_two_word[OF assms(1)] unfolding n_def by blast+
  have pos: "0 < sint c" using assms(1) by (simp add: is_power_of_two_def)
  have sc: "sint c = 2 ^ n"
    using unat_sint_nonneg[of c] pos uc by (metis int_nat_eq less_imp_le of_nat_numeral of_nat_power)
  have sx: "sint x = uint x" using unat_sint_nonneg[OF assms(2)] assms(2) by (metis int_nat_eq uint_nat)
  have "cvm_safe_mod_i64 x c = word_of_int (uint x mod 2 ^ n)"
    using assms(2) pos by (simp add: cvm_safe_mod_i64_def Let_def sc sx smod_int_alt_def)
  also have "\<dots> = take_bit n x"
    by (simp only: take_bit_eq_mod[symmetric] unsigned_take_bit_eq[symmetric] word_of_int_uint)
  also have "\<dots> = x AND (c - 1)" by (simp add: c and_pow2_mask)
  finally show ?thesis by simp
qed

text \<open>
  The multiplication rewrite of strength reduction is exact on all 64-bit values: shifting by the
  computed logarithm gives the wrapped product by that power of two; the remainder rewrite is exact
  for every non-negative dividend.
\<close>

theorem strength_reduction_agrees:
  assumes "is_power_of_two c"
  shows "cvm_binop env MIR_SHL x (of_nat (log2_int (unat c))) = cvm_binop env MIR_MUL x c
    \<and> (0 \<le> sint x \<longrightarrow> cvm_binop env MIR_BAND x (c - 1) = cvm_binop env MIR_MOD x c)"
proof -
  have "push_bit (log2_int (unat c)) x = x * c"
    using power_of_two_word(2)[OF assms] by (simp add: push_bit_eq_mult)
  then show ?thesis
    using shift_count[of "log2_int (unat c)"] power_of_two_word(3)[OF assms] mod_pow2_nonneg[OF assms] by simp
qed

text \<open>
  The remainder rewrite is not exact for negative dividends: the pass turns \<open>x % 8\<close> into
  \<open>x & 7\<close>, and for \<open>x = -7\<close> the VM computes -7 for the original instruction and 1 for the rewritten
  one.
\<close>

theorem strength_reduction_mod_negative:
  "is_power_of_two 8 \<and> cvm_binop env MIR_MOD (- 7) 8 = - 7 \<and> cvm_binop env MIR_BAND (- 7) (8 - 1) = 1"
  by (simp add: is_power_of_two_def cvm_safe_mod_i64_def Let_def smod_int_alt_def)

section \<open>Dead code\<close>

text \<open>The opcodes that only compute a value.\<close>

fun value_only :: "MirOp \<Rightarrow> bool" where
  "value_only (CONST_INT w) = True"
| "value_only (CONST_FLOAT w) = True"
| "value_only (CONST_BOOL b) = True"
| "value_only (CONST_STRING a) = True"
| "value_only (CONST_FUNC n) = True"
| "value_only CONST_NULL = True"
| "value_only (GLOBAL_ADDR n) = True"
| "value_only (BINARY p l r) = True"
| "value_only (UNARY p x t) = True"
| "value_only (ALLOCA t n) = True"
| "value_only (LOAD p) = True"
| "value_only (GET_FIELD_PTR b k x) = True"
| "value_only (GET_ELEM_PTR b k x) = True"
| "value_only (PHI es) = True"
| "value_only (TRANSFER p s) = True"
| "value_only (STRUCT_INIT fs) = True"
| "value_only (EXTRACT a k) = True"
| "value_only (INSERT a k v) = True"
| "value_only (VEC p a b c w t) = (p \<notin> {MIR_VEC_STORE, MIR_VEC_STORE_UNALIGNED})"
| "value_only UNDEF = True"
| "value_only _ = False"

definition is_suspension :: "MirOp \<Rightarrow> bool" where
  "is_suspension p \<longleftrightarrow> (\<exists>t x. p = SUSPEND t x)"

text \<open>
  What a step of the VM may do if nobody reads its result: change the register of the result (a move
  also clears its source), add a fresh memory region, or stop the run with a trap.
\<close>

definition harmless :: "CvmState \<Rightarrow> CvmFrame \<Rightarrow> MirInst \<Rightarrow> CvmCtl cres \<Rightarrow> bool" where
  "harmless vm fr i r =
     (case r of
        Ok (CtlNext vm' fr') \<Rightarrow>
          vm' = vm\<lparr>mem := mem vm', trap_code := trap_code vm'\<rparr> \<and> (\<exists>h. mem vm' = h @ mem vm)
          \<and> length (regs fr') = length (regs fr)
          \<and> (\<forall>k < length (regs fr). k \<noteq> unat (result i) \<and> (\<forall>s. iop i = TRANSFER MIR_MOVE s \<longrightarrow> k \<noteq> unat s) \<longrightarrow>
               regs fr' ! k = regs fr ! k)
      | Ok (CtlJump vm' fr' t) \<Rightarrow> False
      | Ok (CtlDone vm' fr' v) \<Rightarrow> trap_code vm' \<noteq> 0
      | Fault \<Rightarrow> True
      | OutOfFuel \<Rightarrow> False)"

lemma harmless_nextI:
  assumes "vm' = vm\<lparr>mem := mem vm', trap_code := trap_code vm'\<rparr>" "mem vm' = h @ mem vm" "length (regs fr') = length (regs fr)"
    "\<And>k. k < length (regs fr) \<Longrightarrow> k \<noteq> unat (result i) \<Longrightarrow> (\<And>s. iop i = TRANSFER MIR_MOVE s \<Longrightarrow> k \<noteq> unat s) \<Longrightarrow>
       regs fr' ! k = regs fr ! k"
  shows "harmless vm fr i (Ok (CtlNext vm' fr'))"
  unfolding harmless_def cres.case CvmCtl.case using assms by blast

lemma trap_frame:
  assumes "vm1 = vm\<lparr>mem := mem vm1, trap_code := trap_code vm1\<rparr>"
  shows "vm1\<lparr>trap_code := n\<rparr> = vm\<lparr>mem := mem (vm1\<lparr>trap_code := n\<rparr>), trap_code := trap_code (vm1\<lparr>trap_code := n\<rparr>)\<rparr>"
  by (subst assms) simp

lemma harmless_set:
  assumes vm1: "vm1 = vm\<lparr>mem := mem vm1, trap_code := trap_code vm1\<rparr>" and h: "mem vm1 = h @ mem vm" and fr1: "regs fr1 = regs fr"
  shows "harmless vm fr i (set_next vm1 fr1 (result i) v)"
proof -
  note next_now = harmless_nextI[OF vm1 h, where fr = fr and i = i] harmless_nextI[OF trap_frame[OF vm1, of 5], where fr = fr and i = i and h = h]
  consider "result i = MIR_VALUE_NONE" | "result i \<noteq> MIR_VALUE_NONE" "sint (result i) \<ge> int (length (regs fr1))"
    | "result i \<noteq> MIR_VALUE_NONE" "sint (result i) < 0" "sint (result i) < int (length (regs fr1))"
    | "result i \<noteq> MIR_VALUE_NONE" "0 \<le> sint (result i)" "sint (result i) < int (length (regs fr1))" by linarith
  then show ?thesis
  proof cases
    case 1
    then show ?thesis using next_now(1)[of fr1] fr1 by (simp add: set_next_def cvm_reg_set_def)
  next
    case 2
    then show ?thesis using next_now(2)[of fr1] fr1 h by (simp add: set_next_def cvm_reg_set_def)
  next
    case 3
    then show ?thesis by (simp add: set_next_def cvm_reg_set_def harmless_def)
  next
    case 4
    then show ?thesis
      using next_now(1)[of "fr1\<lparr>regs := (regs fr1)[unat (result i) := v]\<rparr>"] fr1 by (simp add: set_next_def cvm_reg_set_def)
  qed
qed

lemma harmless_get:
  assumes "\<And>vm1 v. vm1 = vm \<or> vm1 = vm\<lparr>trap_code := 5\<rparr> \<Longrightarrow> harmless vm fr i (k (vm1, v))"
  shows "harmless vm fr i (cbind (cvm_reg_get vm fr x) k)"
  using assms by (auto simp: cvm_reg_get_def harmless_def split: if_splits)

lemma harmless_next: "harmless vm fr i (Ok (CtlNext vm fr))"
  by (simp add: harmless_def)

lemma harmless_trap: "trap_code vm1 \<noteq> 0 \<Longrightarrow> harmless vm fr i (Ok (CtlDone vm1 fr1 v))"
  by (simp add: harmless_def)

lemma harmless_alloca: "harmless vm fr i (op_alloca env vm fr n (result i))"
proof (cases "c_calloc env vm (nat (if n > 0 then n else 1) * 8)")
  case None
  then show ?thesis by (simp add: op_alloca_def harmless_trap)
next
  case (Some r)
  obtain vm1 a where r: "r = (vm1, a)" by fastforce
  then have vm1: "vm1 = vm\<lparr>mem := mem vm1, trap_code := trap_code vm1\<rparr>" "\<exists>h. mem vm1 = h @ mem vm"
    using Some by (auto simp: c_calloc_def split: option.splits)
  then obtain h where h: "mem vm1 = h @ mem vm" by blast
  show ?thesis
  proof (cases "cvm_frame_track_alloca env vm1 fr a")
    case None
    then show ?thesis using Some r by (simp add: op_alloca_def harmless_trap)
  next
    case (Some fr1)
    then have "regs fr1 = regs fr" by (auto simp: cvm_frame_track_alloca_def Let_def split: if_splits)
    then show ?thesis
      using harmless_set[OF vm1(1) h] Some r \<open>c_calloc env vm (nat (if n > 0 then n else 1) * 8) = Some r\<close>
      by (simp add: op_alloca_def)
  qed
qed

lemma harmless_steps:
  assumes "value_only (iop i) \<or> is_suspension (iop i)"
  shows "harmless vm fr i (cvm_step env exec vm fr prev (iop i) (result i))"
proof -
  have set: "harmless vm fr i (set_next vm1 fr (result i) v)" if "vm1 = vm \<or> vm1 = vm\<lparr>trap_code := 5\<rparr>" for vm1 v
    by (rule harmless_set[where h = "[]"]) (use that in auto)
  have get2: "harmless vm fr i (cbind (cvm_reg_get vm1 fr x) k)"
    if "vm1 = vm \<or> vm1 = vm\<lparr>trap_code := 5\<rparr>" "\<And>vm2 v. vm2 = vm \<or> vm2 = vm\<lparr>trap_code := 5\<rparr> \<Longrightarrow> harmless vm fr i (k (vm2, v))" for vm1 x k
    using that by (auto simp: cvm_reg_get_def harmless_def split: if_splits)
  show ?thesis
  proof (cases "iop i")
    case (BINARY p l r)
    then show ?thesis by (auto simp: op_binary_def intro!: harmless_get get2 set)
  next
    case (UNARY p x t)
    then show ?thesis by (auto simp: op_unary_def intro!: harmless_get set)
  next
    case (ALLOCA t n)
    then show ?thesis by (simp add: harmless_alloca)
  next
    case (LOAD p)
    then show ?thesis
      by (auto simp: op_load_def intro!: harmless_get set split: option.splits) (auto simp: harmless_def)
  next
    case (GET_FIELD_PTR b k x)
    then show ?thesis by (auto simp: op_get_field_ptr_def intro!: harmless_get set) (auto simp: harmless_def)
  next
    case (GET_ELEM_PTR b k x)
    then show ?thesis by (auto simp: op_get_elem_ptr_def intro!: harmless_get get2 set)
  next
    case (PHI es)
    then show ?thesis by (auto simp: op_phi_def intro!: harmless_get set)
  next
    case (EXTRACT a k)
    then show ?thesis by (auto simp: op_extract_def intro!: harmless_get set split: option.splits) (auto simp: harmless_def)
  next
    case (TRANSFER p x)
    then show ?thesis
      by (auto simp: op_transfer_def intro!: harmless_get) (auto simp: harmless_def cvm_reg_set_def nth_list_update)
  qed (use assms in \<open>auto simp: is_suspension_def set harmless_next\<close>)
qed

text \<open>Vector stores define no value.\<close>

definition vec_stores_void :: "MirFunction \<Rightarrow> bool" where
  "vec_stores_void f \<longleftrightarrow> (\<forall>i \<in> set (all_insts f).
     case iop i of VEC p a b c w t \<Rightarrow> p \<in> {MIR_VEC_STORE, MIR_VEC_STORE_UNALIGNED} \<longrightarrow> result i = MIR_VALUE_NONE | _ \<Rightarrow> True)"

lemma deletable_value:
  assumes "deletable i" and "vec_stores_void f" and "i \<in> set (all_insts f)"
  shows "iop i = NOP \<or> value_only (iop i) \<or> is_suspension (iop i)"
  using assms by (cases "iop i") (fastforce simp: deletable_def vec_stores_void_def is_suspension_def)+

text \<open>
  C18: Dead code elimination only deletes instructions.  It keeps, in their order, all instructions
  other than no-ops, computations of a value and suspensions.  What it deletes is a no-op, or a
  computation or suspension whose result no remaining instruction reads (suspensions apart) and that
  is harmless in the VM: at any state its step changes no register but that of its result (and clears
  the source of a move), writes to no existing memory, prints nothing, never jumps or returns, unless
  it stops the run with a trap.
\<close>

theorem mir_pass_dead_code_eliminate_sound:
  assumes "handles_ok f" and "vec_stores_void f" and "mir_pass_dead_code_eliminate f = (f', n)"
  defines "kept \<equiv> \<lambda>i. \<not> (iop i = NOP \<or> value_only (iop i) \<or> is_suspension (iop i))"
  shows "subseq (all_insts f') (all_insts f) \<and> filter kept (all_insts f') = filter kept (all_insts f)
    \<and> (\<forall>i \<in> set (all_insts f). i \<in> set (all_insts f') \<or> iop i = NOP
        \<or> ((value_only (iop i) \<or> is_suspension (iop i)) \<and> (\<forall>j \<in> set (all_insts f'). \<not> reads j (result i))
            \<and> (\<forall>env exec vm fr prev. harmless vm fr i (cvm_step env exec vm fr prev (iop i) (result i)))))"
proof -
  have r: "dce_rel f f'" by (rule dead_code_eliminate_rel[OF assms(1,3)])
  then have sub: "subseq (all_insts f') (all_insts f)" by (simp add: dce_rel_def)
  have "kept i \<longleftrightarrow> \<not> deletable i \<and> kept i" if "i \<in> set (all_insts f)" for i
    using deletable_value[OF _ assms(2) that] by (auto simp: kept_def)
  then have both: "filter kept xs = filter kept (filter (\<lambda>i. \<not> deletable i) xs)" if "set xs \<subseteq> set (all_insts f)" for xs
    using that by (auto simp: filter_filter intro!: filter_cong)
  have "set (all_insts f') \<subseteq> set (all_insts f)" using list_emb_set[OF sub] by blast
  moreover have "filter (\<lambda>i. \<not> deletable i) (all_insts f') = filter (\<lambda>i. \<not> deletable i) (all_insts f)"
    using r by (simp add: dce_rel_def)
  ultimately have "filter kept (all_insts f') = filter kept (all_insts f)" using both by (metis order_refl)
  moreover have "(value_only (iop i) \<or> is_suspension (iop i)) \<and> (\<forall>j \<in> set (all_insts f'). \<not> reads j (result i))"
    if "i \<in> set (all_insts f)" "i \<notin> set (all_insts f')" "iop i \<noteq> NOP" for i
  proof -
    have "result i \<noteq> MIR_VALUE_NONE" "\<not> has_side_effects (iop i)" "count_uses f' (result i) = 0"
      using r that by (auto simp: dce_rel_def)
    then show ?thesis
      using deletable_value[OF _ assms(2) that(1)] that(3) by (auto simp: deletable_def count_uses_def filter_empty_conv reads_iff)
  qed
  ultimately show ?thesis using sub harmless_steps by blast
qed

section \<open>Witnesses\<close>

theorem strength_reduction_agrees_witness:
  "is_power_of_two 8 \<and> cvm_binop demo_env MIR_SHL 5 (of_nat (log2_int (unat (8 :: u64)))) = 40"
proof -
  have p: "is_power_of_two 8" by (simp add: is_power_of_two_def)
  from strength_reduction_agrees[OF p, of demo_env 5] p show ?thesis by simp
qed

text \<open>The folded multiplication of \<open>demo_main\<close>, at the register file the VM has there.\<close>

theorem constant_fold_step_agrees_witness:
  "\<exists>f'. then_step cf_arith cf_cmp demo_main 0 2 = Some (f', 1)
     \<and> cvm_step demo_env (cvm_exec_function demo_env 1) demo_vm \<lparr>regs = [0, 6, 7, 0], allocas = [], alloca_cap = 0\<rparr>
          None (iop (inst_at f' 0 2)) (result (inst_at f' 0 2)) =
       cvm_step demo_env (cvm_exec_function demo_env 1) demo_vm \<lparr>regs = [0, 6, 7, 0], allocas = [], alloca_cap = 0\<rparr>
          None (iop (inst_at demo_main 0 2)) (result (inst_at demo_main 0 2))"
proof -
  have "map_option snd (then_step cf_arith cf_cmp demo_main 0 2) = Some 1" by code_simp
  then obtain f' where s: "then_step cf_arith cf_cmp demo_main 0 2 = Some (f', 1)" by auto
  have i: "all_insts demo_main = [\<lparr>iop = CONST_INT 6, result = 1, itype = Some 0\<rparr>,
      \<lparr>iop = CONST_INT 7, result = 2, itype = Some 0\<rparr>,
      \<lparr>iop = BINARY MIR_MUL 1 2, result = 3, itype = Some 0\<rparr>,
      \<lparr>iop = RET 3, result = 0, itype = None\<rparr>]" by (simp add: all_insts_def demo_main_def)
  have c: "const_int_def demo_main v = (if v = 1 then Some 6 else if v = 2 then Some 7 else None)" for v
    by (simp add: const_int_def_def find_def_def i)
  have g: "cvm_reg_get demo_vm \<lparr>regs = [0, 6, 7, 0], allocas = [], alloca_cap = 0\<rparr> v = Ok (demo_vm, w)"
    if "const_int_def demo_main v = Some w" for v w
  proof -
    from that consider "v = 1" "w = 6" | "v = 2" "w = 7" unfolding c by (metis option.distinct(1) option.inject)
    then show ?thesis by cases (simp_all add: cvm_reg_get_def)
  qed
  have len: "0 < length (blocks demo_main)" "2 < length (insts (blocks demo_main ! 0))" by simp_all
  show ?thesis
    by (intro exI[of _ f'] conjI s constant_fold_step_agrees[OF s len g])
qed

text \<open>The constant that nobody uses goes, the retain and the release stay.\<close>

theorem mir_pass_dead_code_eliminate_sound_witness:
  "\<exists>f'. mir_pass_dead_code_eliminate demo_opt = (f', 1) \<and> (\<forall>j \<in> set (all_insts f'). \<not> reads j 4)"
proof -
  obtain f' n where r: "mir_pass_dead_code_eliminate demo_opt = (f', n)" by fastforce
  have c: "(case mir_pass_dead_code_eliminate demo_opt of (f', n) \<Rightarrow> n = 1 \<and> \<lparr>iop = CONST_INT 9, result = 4, itype = Some 0\<rparr> \<notin> set (all_insts f'))"
    by code_simp
  have v: "vec_stores_void demo_opt" by code_simp
  have "\<lparr>iop = CONST_INT 9, result = 4, itype = Some 0\<rparr> \<in> set (all_insts demo_opt)" by code_simp
  with mir_pass_dead_code_eliminate_sound[OF demo_opt_handles v r] c r show ?thesis by fastforce
qed

end
