(* ===== verification/Fifo.thy ===== *)
theory Fifo
  imports Casprix_Prelude
begin

text \<open>
  First-in first-out buffers.  The locale \<open>fifo\<close> is the contract of a bounded or growing buffer: what
  a put accepts is appended to the contents, what a get delivers is taken from their front.  Any
  interleaving of puts and gets is then a stream: nothing is lost, duplicated or reordered.  The
  second half holds the facts about circular arrays that its implementations share.
\<close>

section \<open>The contract\<close>

datatype 'x io = Put 'x | Get nat

fun fifo_run ::
    "('q \<Rightarrow> 'x \<Rightarrow> 'q \<times> 'a list) \<Rightarrow> ('q \<Rightarrow> nat \<Rightarrow> 'q \<times> 'a list) \<Rightarrow> 'q \<Rightarrow> 'x io list \<Rightarrow> 'q \<times> 'a list \<times> 'a list" where
  "fifo_run put get q [] = (q, [], [])"
| "fifo_run put get q (Put x # ops) =
     (let (q1, acc) = put q x; (q2, ins, outs) = fifo_run put get q1 ops in (q2, acc @ ins, outs))"
| "fifo_run put get q (Get k # ops) =
     (let (q1, ys) = get q k; (q2, ins, outs) = fifo_run put get q1 ops in (q2, ins, ys @ outs))"

locale fifo =
  fixes inv :: "'q \<Rightarrow> bool"
    and contents :: "'q \<Rightarrow> 'a list"
    and put :: "'q \<Rightarrow> 'x \<Rightarrow> 'q \<times> 'a list"
    and get :: "'q \<Rightarrow> nat \<Rightarrow> 'q \<times> 'a list"
  assumes put_law: "inv q \<Longrightarrow> put q x = (q', acc) \<Longrightarrow> inv q' \<and> contents q' = contents q @ acc"
    and get_law: "inv q \<Longrightarrow> get q k = (q', ys) \<Longrightarrow> inv q' \<and> contents q = ys @ contents q'"
begin

lemma run_stream:
  "inv q \<Longrightarrow> fifo_run put get q ops = (q', ins, outs) \<Longrightarrow>
   inv q' \<and> contents q @ ins = outs @ contents q'"
proof (induction ops arbitrary: q q' ins outs)
  case (Cons op ops)
  show ?case
  proof (cases op)
    case (Put x)
    obtain q1 acc where p: "put q x = (q1, acc)" by fastforce
    obtain q2 i o2 where r: "fifo_run put get q1 ops = (q2, i, o2)" by (metis prod_cases3)
    have "inv q1 \<and> contents q1 = contents q @ acc" by (rule put_law[OF Cons.prems(1) p])
    with Cons.IH[OF _ r] Cons.prems(2) show ?thesis by (auto simp: Put p r)
  next
    case (Get k)
    obtain q1 ys where p: "get q k = (q1, ys)" by fastforce
    obtain q2 i o2 where r: "fifo_run put get q1 ops = (q2, i, o2)" by (metis prod_cases3)
    have "inv q1 \<and> contents q = ys @ contents q1" by (rule get_law[OF Cons.prems(1) p])
    with Cons.IH[OF _ r] Cons.prems(2) show ?thesis by (auto simp: Get p r)
  qed
qed auto

end

section \<open>Windows of a circular array\<close>

text \<open>The \<open>n\<close> cells of \<open>d\<close> from position \<open>h\<close> on, wrapping around at the end.\<close>

definition cyc :: "'a list \<Rightarrow> nat \<Rightarrow> nat \<Rightarrow> 'a list" where
  "cyc d h n = map (\<lambda>i. d ! ((h + i) mod length d)) [0..<n]"

lemma length_cyc [simp]: "length (cyc d h n) = n"
  by (simp add: cyc_def)

lemma cyc_0 [simp]: "cyc d h 0 = []"
  by (simp add: cyc_def)

lemma cyc_nth: "i < n \<Longrightarrow> cyc d h n ! i = d ! ((h + i) mod length d)"
  by (simp add: cyc_def)

lemma cyc_start_mod: "cyc d (h mod length d) n = cyc d h n"
  by (simp add: cyc_def mod_add_left_eq)

lemma cyc_split:
  assumes "k \<le> n"
  shows "cyc d h n = cyc d h k @ cyc d (h + k) (n - k)"
  using assms by (auto intro!: nth_equalityI simp: cyc_nth nth_append add.assoc)

lemma cyc_linear:
  assumes "h + n \<le> length d"
  shows "cyc d h n = take n (drop h d)"
proof (rule nth_equalityI)
  fix i assume "i < length (cyc d h n)"
  then have "i < n" by simp
  with assms have "(h + i) mod length d = h + i" by simp
  with \<open>i < n\<close> assms show "cyc d h n ! i = take n (drop h d) ! i" by (simp add: cyc_nth)
qed (use assms in simp)

text \<open>Two cells of a window no longer than the array are different.\<close>

lemma mod_window_inj:
  assumes "(h + i) mod L = (h + j) mod L" and "i < L" and "j < L"
  shows "i = (j :: nat)"
proof (rule ccontr)
  assume "i \<noteq> j"
  then consider "i < j" | "j < i" by linarith
  then show False
  proof cases
    case 1
    then have "L dvd (h + j) - (h + i)" using assms(1) by (metis mod_eq_dvd_iff_nat nat_add_left_cancel_le less_imp_le)
    with 1 assms(3) show False by (auto dest: dvd_imp_le)
  next
    case 2
    then have "L dvd (h + i) - (h + j)" using assms(1) by (metis mod_eq_dvd_iff_nat nat_add_left_cancel_le less_imp_le)
    with 2 assms(2) show False by (auto dest: dvd_imp_le)
  qed
qed

text \<open>Writing behind a window appends to it.\<close>

lemma cyc_append:
  assumes len: "length d' = length d" and room: "n + length xs \<le> length d"
    and new: "\<And>j. j < length xs \<Longrightarrow> d' ! ((h + n + j) mod length d) = xs ! j"
    and old: "\<And>j. j < n \<Longrightarrow> d' ! ((h + j) mod length d) = d ! ((h + j) mod length d)"
  shows "cyc d' h (n + length xs) = cyc d h n @ xs"
proof (rule nth_equalityI)
  fix i assume "i < length (cyc d' h (n + length xs))"
  then have i: "i < n + length xs" by simp
  show "cyc d' h (n + length xs) ! i = (cyc d h n @ xs) ! i"
  proof (cases "i < n")
    case True
    with old[OF True] i show ?thesis by (simp add: cyc_nth nth_append len)
  next
    case False
    with new[of "i - n"] i show ?thesis by (simp add: cyc_nth nth_append len)
  qed
qed simp

section \<open>Block copies into an array\<close>

text \<open>\<^verbatim>\<open>memcpy(d + p, xs, n)\<close> for a copy that stays inside the array.\<close>

definition overwrite :: "'a list \<Rightarrow> nat \<Rightarrow> 'a list \<Rightarrow> 'a list" where
  "overwrite d p xs = take p d @ xs @ drop (p + length xs) d"

lemma length_overwrite [simp]: "p + length xs \<le> length d \<Longrightarrow> length (overwrite d p xs) = length d"
  by (simp add: overwrite_def)

lemma overwrite_nth:
  "p + length xs \<le> length d \<Longrightarrow> i < length d \<Longrightarrow>
   overwrite d p xs ! i = (if p \<le> i \<and> i < p + length xs then xs ! (i - p) else d ! i)"
  by (auto simp: overwrite_def nth_append min_def)

lemma overwrite_Nil [simp]: "overwrite d p [] = d"
  by (simp add: overwrite_def)

text \<open>A copy of \<open>xs\<close> to position \<open>p\<close> that wraps around, as two block copies.\<close>

lemma overwrite_wrapped:
  assumes p: "p < length d" and n: "length xs \<le> length d" and j: "j < length d"
    and first: "first = min (length xs) (length d - p)"
  shows "overwrite (overwrite d p (take first xs)) 0 (drop first xs) ! ((p + j) mod length d) =
     (if j < length xs then xs ! j else d ! ((p + j) mod length d))"
    and "length (overwrite (overwrite d p (take first xs)) 0 (drop first xs)) = length d"
proof -
  let ?L = "length d"
  have f: "first \<le> length xs" "p + first \<le> ?L" using p first by (auto simp: min_def)
  have r: "length xs - first \<le> p" using p n first by (auto simp: min_def)
  show "length (overwrite (overwrite d p (take first xs)) 0 (drop first xs)) = ?L"
    using f r p by (simp add: min_def)
  have pos: "(p + j) mod ?L = (if p + j < ?L then p + j else p + j - ?L)"
    using p j by (auto simp: mod_if)
  have in_range: "(p + j) mod ?L < ?L" using p by (intro mod_less_divisor) linarith
  have "overwrite (overwrite d p (take first xs)) 0 (drop first xs) ! ((p + j) mod ?L) =
      (if (p + j) mod ?L < length xs - first then xs ! (first + (p + j) mod ?L)
       else if p \<le> (p + j) mod ?L \<and> (p + j) mod ?L < p + first then xs ! ((p + j) mod ?L - p)
       else d ! ((p + j) mod ?L))"
    using f r p in_range by (simp add: overwrite_nth min_def)
  also have "\<dots> = (if j < length xs then xs ! j else d ! ((p + j) mod ?L))"
  proof (cases "p + j < ?L")
    case True
    then have "\<not> (p + j) mod ?L < length xs - first" using r pos by simp
    moreover have "j < first \<longleftrightarrow> j < length xs" using True first by (auto simp: min_def)
    ultimately show ?thesis using True pos by simp
  next
    case False
    have fi: "first = ?L - p \<or> length xs \<le> j" using False first by (auto simp: min_def)
    have "\<not> p \<le> (p + j) mod ?L" using False pos j p by simp
    moreover have "(p + j) mod ?L < length xs - first \<longleftrightarrow> j < length xs"
      using False pos p fi first f by (auto simp: min_def)
    moreover have "first + (p + j) mod ?L = j" if "j < length xs" using False pos fi that p by simp
    ultimately show ?thesis by simp
  qed
  finally show "overwrite (overwrite d p (take first xs)) 0 (drop first xs) ! ((p + j) mod ?L) =
     (if j < length xs then xs ! j else d ! ((p + j) mod ?L))" .
qed

end
