(* ===== verification/String_Map.thy ===== *)
theory String_Map
  imports Casprix_Prelude
begin

text \<open>
  The contract of a map from strings to 64-bit values, as its clients use it: what a lookup returns
  after any sequence of puts.  \<open>okey\<close> says which keys (and which outcome of the allocation) a put
  accepts, \<open>room m n\<close> that the map takes \<open>n\<close> more puts; a put that does not return, or that
  crashes, is \<open>None\<close>.
\<close>

fun run_puts :: "('r \<Rightarrow> 'm \<Rightarrow> string \<Rightarrow> u64 \<Rightarrow> 'm option) \<Rightarrow> ('r \<times> string \<times> u64) list \<Rightarrow> 'm \<Rightarrow> 'm option" where
  "run_puts put [] m = Some m"
| "run_puts put ((r, k, v) # ops) m = Option.bind (put r m k v) (run_puts put ops)"

text \<open>The pairs of a sequence of puts, the last one first.\<close>

definition last_puts :: "('r \<times> string \<times> u64) list \<Rightarrow> (string \<times> u64) list" where
  "last_puts ops = rev (map snd ops)"

definition found :: "u64 option \<Rightarrow> u64" where
  "found r = (case r of None \<Rightarrow> 0 | Some v \<Rightarrow> v)"

locale string_map =
  fixes inv :: "'m \<Rightarrow> bool"
    and view :: "'m \<Rightarrow> string \<rightharpoonup> u64"
    and okey :: "'r \<Rightarrow> string \<Rightarrow> bool"
    and room :: "'m \<Rightarrow> nat \<Rightarrow> bool"
    and put :: "'r \<Rightarrow> 'm \<Rightarrow> string \<Rightarrow> u64 \<Rightarrow> 'm option"
    and get :: "'m \<Rightarrow> string \<Rightarrow> u64 option"
    and has :: "'m \<Rightarrow> string \<Rightarrow> bool option"
    and size_of :: "'m \<Rightarrow> nat"
  assumes put_law: "inv m \<Longrightarrow> okey r k \<Longrightarrow> room m (Suc n) \<Longrightarrow>
      \<exists>m'. put r m k v = Some m' \<and> inv m' \<and> room m' n \<and> view m' = (view m)(k \<mapsto> v)"
    and get_law: "inv m \<Longrightarrow> get m k = Some (found (view m k))"
    and has_law: "inv m \<Longrightarrow> has m k = Some (view m k \<noteq> None)"
    and size_law: "inv m \<Longrightarrow> size_of m = card (dom (view m))"
begin

lemma run_puts_view:
  "inv m \<Longrightarrow> (\<And>r k v. (r, k, v) \<in> set ops \<Longrightarrow> okey r k) \<Longrightarrow> room m (length ops) \<Longrightarrow>
   \<exists>m'. run_puts put ops m = Some m' \<and> inv m' \<and> view m' = view m ++ map_of (last_puts ops)"
proof (induction ops arbitrary: m)
  case (Cons op ops)
  obtain r k v where op: "op = (r, k, v)" by (cases op) auto
  obtain m1 where m1: "put r m k v = Some m1" "inv m1" "room m1 (length ops)" "view m1 = (view m)(k \<mapsto> v)"
    using put_law[OF Cons.prems(1), of r k "length ops" v] Cons.prems(2,3) op by auto
  obtain m' where "run_puts put ops m1 = Some m'" "inv m'" "view m' = view m1 ++ map_of (last_puts ops)"
    using Cons.IH[OF m1(2) _ m1(3)] Cons.prems(2) by auto
  then show ?case using m1 op by (auto simp: last_puts_def map_add_def map_of_append split: option.splits)
qed (simp add: last_puts_def)

text \<open>Starting from an empty map, lookups see exactly the last value put under each key.\<close>

lemma puts_then_lookups:
  assumes "inv m" and "view m = Map.empty" and "\<And>r k v. (r, k, v) \<in> set ops \<Longrightarrow> okey r k" and "room m (length ops)"
  shows "\<exists>m'. run_puts put ops m = Some m' \<and> inv m'
    \<and> (\<forall>k. get m' k = Some (found (map_of (last_puts ops) k)))
    \<and> (\<forall>k. has m' k = Some (k \<in> (fst \<circ> snd) ` set ops))
    \<and> size_of m' = card ((fst \<circ> snd) ` set ops)"
proof -
  obtain m' where m': "run_puts put ops m = Some m'" "inv m'" "view m' = map_of (last_puts ops)"
    using run_puts_view[of m ops] assms by auto
  have "dom (map_of (last_puts ops)) = (fst \<circ> snd) ` set ops"
    by (force simp: dom_map_of_conv_image_fst last_puts_def)
  then show ?thesis
    using m' get_law[OF m'(2)] has_law[OF m'(2)] size_law[OF m'(2)] by (auto simp: domIff)
qed

end

section \<open>With removal\<close>

datatype 'r map_op = MPut 'r string u64 | MDel string

fun run_map_ops ::
    "('r \<Rightarrow> 'm \<Rightarrow> string \<Rightarrow> u64 \<Rightarrow> 'm option) \<Rightarrow> ('m \<Rightarrow> string \<Rightarrow> 'm \<times> bool) \<Rightarrow> 'r map_op list \<Rightarrow> 'm \<Rightarrow> 'm option" where
  "run_map_ops put del [] m = Some m"
| "run_map_ops put del (MPut r k v # ops) m = Option.bind (put r m k v) (run_map_ops put del ops)"
| "run_map_ops put del (MDel k # ops) m = run_map_ops put del ops (fst (del m k))"

text \<open>The same sequence on a finite map.\<close>

fun spec_map_ops :: "'r map_op list \<Rightarrow> (string \<rightharpoonup> u64) \<Rightarrow> (string \<rightharpoonup> u64)" where
  "spec_map_ops [] f = f"
| "spec_map_ops (MPut r k v # ops) f = spec_map_ops ops (f(k \<mapsto> v))"
| "spec_map_ops (MDel k # ops) f = spec_map_ops ops (f(k := None))"

fun puts_of :: "'r map_op list \<Rightarrow> nat" where
  "puts_of [] = 0"
| "puts_of (MPut r k v # ops) = Suc (puts_of ops)"
| "puts_of (MDel k # ops) = puts_of ops"

locale string_map_del = string_map +
  fixes del :: "'a \<Rightarrow> string \<Rightarrow> 'a \<times> bool"
  assumes del_law: "inv m \<Longrightarrow> inv (fst (del m k)) \<and> snd (del m k) = (view m k \<noteq> None)
      \<and> view (fst (del m k)) = (view m)(k := None)"
    and del_room: "inv m \<Longrightarrow> room m n \<Longrightarrow> room (fst (del m k)) n"
begin

lemma run_map_ops_view:
  "inv m \<Longrightarrow> (\<And>r k v. MPut r k v \<in> set ops \<Longrightarrow> okey r k) \<Longrightarrow> room m (puts_of ops) \<Longrightarrow>
   \<exists>m'. run_map_ops put del ops m = Some m' \<and> inv m' \<and> view m' = spec_map_ops ops (view m)"
proof (induction ops arbitrary: m)
  case (Cons op ops)
  show ?case
  proof (cases op)
    case (MPut r k v)
    obtain m1 where m1: "put r m k v = Some m1" "inv m1" "room m1 (puts_of ops)" "view m1 = (view m)(k \<mapsto> v)"
      using put_law[OF Cons.prems(1), of r k "puts_of ops" v] Cons.prems(2,3) MPut by auto
    have "\<exists>m'. run_map_ops put del ops m1 = Some m' \<and> inv m' \<and> view m' = spec_map_ops ops (view m1)"
      by (rule Cons.IH[OF m1(2) _ m1(3)]) (use Cons.prems(2) in auto)
    then show ?thesis using m1(1,4) MPut by auto
  next
    case (MDel k)
    have d: "inv (fst (del m k))" "view (fst (del m k)) = (view m)(k := None)" "room (fst (del m k)) (puts_of ops)"
      using del_law[OF Cons.prems(1), of k] del_room[OF Cons.prems(1), of "puts_of ops" k] Cons.prems(3) MDel by auto
    have "\<exists>m'. run_map_ops put del ops (fst (del m k)) = Some m' \<and> inv m'
        \<and> view m' = spec_map_ops ops (view (fst (del m k)))"
      by (rule Cons.IH[OF d(1) _ d(3)]) (use Cons.prems(2) in auto)
    then show ?thesis using d(2) MDel by auto
  qed
qed simp

end

end
