(* ===== verification/Coll_Queue.thy ===== *)
theory Coll_Queue
  imports Fifo
begin

text \<open>
  \<^verbatim>\<open>NuwanQueue\<close> of \<^verbatim>\<open>runtime/stdlib/collections.c\<close>: a FIFO of 64-bit values in a ring
  that doubles when it is full.  Receivers are non-null here (every operation returns at once on a
  null queue).  An allocation from the arena is an argument: \<open>None\<close> when the arena is out of
  memory, otherwise the arbitrary contents of the fresh words.  Sizes are natural numbers.
\<close>

type_synonym arena_mem = "(nat \<Rightarrow> u64) option"

definition arena_words :: "arena_mem \<Rightarrow> nat \<Rightarrow> u64 list option" where
  "arena_words al n = map_option (\<lambda>junk. map junk [0..<n]) al"

definition QUEUE_INIT_CAP :: nat where
  "QUEUE_INIT_CAP = 16"

record NuwanQueue =
  qdata :: "u64 list"
  qhead :: nat
  qtail :: nat
  qsize :: nat
  qcap :: nat

text \<open>The first argument says whether the queue record itself could be allocated.\<close>

definition nuwan_queue_new :: "bool \<Rightarrow> arena_mem \<Rightarrow> NuwanQueue option" where
  "nuwan_queue_new ok al =
     (if \<not> ok then None
      else case arena_words al QUEUE_INIT_CAP of
             None \<Rightarrow> None
           | Some d \<Rightarrow> Some \<lparr>qdata = d, qhead = 0, qtail = 0, qsize = 0, qcap = QUEUE_INIT_CAP\<rparr>)"

definition queue_grow :: "NuwanQueue \<Rightarrow> u64 list \<Rightarrow> NuwanQueue" where
  "queue_grow q nd =
     q\<lparr>qdata := foldl (\<lambda>nd i. nd[i := qdata q ! ((qhead q + i) mod qcap q)]) nd [0..<qsize q],
       qhead := 0, qtail := qsize q, qcap := qcap q * 2\<rparr>"

definition queue_append :: "NuwanQueue \<Rightarrow> u64 \<Rightarrow> NuwanQueue" where
  "queue_append q v =
     q\<lparr>qdata := (qdata q)[qtail q := v], qtail := (qtail q + 1) mod qcap q, qsize := qsize q + 1\<rparr>"

definition nuwan_queue_enqueue :: "arena_mem \<Rightarrow> NuwanQueue \<Rightarrow> u64 \<Rightarrow> NuwanQueue \<times> bool" where
  "nuwan_queue_enqueue al q v =
     (if qsize q = qcap q
      then case arena_words al (qcap q * 2) of
             None \<Rightarrow> (q, False)
           | Some nd \<Rightarrow> (queue_append (queue_grow q nd) v, True)
      else (queue_append q v, True))"

definition nuwan_queue_dequeue :: "NuwanQueue \<Rightarrow> NuwanQueue \<times> u64" where
  "nuwan_queue_dequeue q =
     (if qsize q = 0 then (q, 0)
      else (q\<lparr>qhead := (qhead q + 1) mod qcap q, qsize := qsize q - 1\<rparr>, qdata q ! qhead q))"

definition nuwan_queue_peek :: "NuwanQueue \<Rightarrow> u64" where
  "nuwan_queue_peek q = (if qsize q \<noteq> 0 then qdata q ! qhead q else 0)"

definition nuwan_queue_size :: "NuwanQueue \<Rightarrow> nat" where
  "nuwan_queue_size q = qsize q"

definition nuwan_queue_empty :: "NuwanQueue \<Rightarrow> bool" where
  "nuwan_queue_empty q \<longleftrightarrow> qsize q = 0"

definition nuwan_queue_clear :: "NuwanQueue \<Rightarrow> NuwanQueue" where
  "nuwan_queue_clear q = q\<lparr>qhead := 0, qtail := 0, qsize := 0\<rparr>"

section \<open>The ring holds a queue\<close>

definition queue_inv :: "NuwanQueue \<Rightarrow> bool" where
  "queue_inv q \<longleftrightarrow> length (qdata q) = qcap q \<and> 0 < qcap q \<and> qsize q \<le> qcap q \<and> qhead q < qcap q
     \<and> qtail q = (qhead q + qsize q) mod qcap q"

definition queue_contents :: "NuwanQueue \<Rightarrow> u64 list" where
  "queue_contents q = cyc (qdata q) (qhead q) (qsize q)"

lemma arena_words_length: "arena_words al n = Some d \<Longrightarrow> length d = n"
  by (auto simp: arena_words_def)

lemma queue_new_inv:
  "nuwan_queue_new ok al = Some q \<Longrightarrow> queue_inv q \<and> queue_contents q = []"
  by (auto simp: nuwan_queue_new_def queue_inv_def queue_contents_def QUEUE_INIT_CAP_def
      dest: arena_words_length split: if_splits option.splits)

lemma copy_loop:
  assumes "n \<le> length nd"
  shows "foldl (\<lambda>nd i. nd[i := g i]) nd [0..<n] = map g [0..<n] @ drop n nd"
  using assms
proof (induction n)
  case (Suc n)
  then have "drop n nd = nd ! n # drop (Suc n) nd" by (simp add: Cons_nth_drop_Suc)
  with Suc show ?case by (simp add: list_update_append)
qed simp

lemma queue_grow_inv:
  assumes q: "queue_inv q" and full: "qsize q = qcap q" and nd: "length nd = qcap q * 2"
  shows "queue_inv (queue_grow q nd)" and "queue_contents (queue_grow q nd) = queue_contents q"
    and "qsize (queue_grow q nd) < qcap (queue_grow q nd)"
proof -
  have d: "qdata (queue_grow q nd) = queue_contents q @ drop (qsize q) nd"
    using q full nd by (simp add: queue_grow_def copy_loop queue_contents_def cyc_def queue_inv_def)
  show "queue_inv (queue_grow q nd)"
    using q full nd by (simp add: queue_inv_def d) (simp add: queue_grow_def queue_contents_def)
  show "qsize (queue_grow q nd) < qcap (queue_grow q nd)"
    using q full by (simp add: queue_grow_def queue_inv_def)
  have "queue_contents (queue_grow q nd) = cyc (queue_contents q @ drop (qsize q) nd) 0 (qsize q)"
    by (simp add: queue_contents_def[of "queue_grow q nd"] d) (simp add: queue_grow_def)
  also have "\<dots> = queue_contents q"
    by (subst cyc_linear) (simp_all add: queue_contents_def)
  finally show "queue_contents (queue_grow q nd) = queue_contents q" .
qed

lemma queue_append_inv:
  assumes q: "queue_inv q" and room: "qsize q < qcap q"
  shows "queue_inv (queue_append q v)" and "queue_contents (queue_append q v) = queue_contents q @ [v]"
proof -
  let ?L = "qcap q"
  have l: "length (qdata q) = ?L" "0 < ?L" "qtail q = (qhead q + qsize q) mod ?L" using q by (auto simp: queue_inv_def)
  show "queue_inv (queue_append q v)"
    using q room by (simp add: queue_inv_def queue_append_def mod_Suc_eq)
  have "cyc ((qdata q)[qtail q := v]) (qhead q) (qsize q + length [v]) = cyc (qdata q) (qhead q) (qsize q) @ [v]"
  proof (rule cyc_append)
    fix j assume "j < qsize q"
    then have "(qhead q + j) mod ?L \<noteq> qtail q"
      using mod_window_inj[of "qhead q" j ?L "qsize q"] room l by auto
    then show "(qdata q)[qtail q := v] ! ((qhead q + j) mod length (qdata q)) = qdata q ! ((qhead q + j) mod length (qdata q))"
      using l by simp
  qed (use l room in simp_all)
  then show "queue_contents (queue_append q v) = queue_contents q @ [v]"
    by (simp add: queue_contents_def queue_append_def)
qed

lemma enqueue_spec:
  assumes "queue_inv q" and "nuwan_queue_enqueue al q v = (q', ok)"
  shows "queue_inv q' \<and> (ok \<longleftrightarrow> qsize q < qcap q \<or> al \<noteq> None)
    \<and> queue_contents q' = queue_contents q @ (if ok then [v] else [])"
proof (cases "qsize q = qcap q")
  case True
  show ?thesis
  proof (cases "arena_words al (qcap q * 2)")
    case None
    then show ?thesis using assms True by (simp add: nuwan_queue_enqueue_def arena_words_def)
  next
    case (Some nd)
    note g = queue_grow_inv[OF assms(1) True arena_words_length[OF Some]]
    from queue_append_inv[OF g(1,3)] g(2) assms(2) True Some show ?thesis
      by (auto simp: nuwan_queue_enqueue_def arena_words_def)
  qed
next
  case False
  then have "qsize q < qcap q" using assms(1) by (simp add: queue_inv_def)
  from queue_append_inv[OF assms(1) this] assms(2) False this show ?thesis
    by (auto simp: nuwan_queue_enqueue_def)
qed

lemma dequeue_spec:
  assumes "queue_inv q" and "nuwan_queue_dequeue q = (q', v)"
  shows "queue_inv q' \<and> (case queue_contents q of [] \<Rightarrow> q' = q \<and> v = 0 | x # xs \<Rightarrow> v = x \<and> queue_contents q' = xs)"
proof (cases "qsize q")
  case 0
  then show ?thesis using assms by (simp add: nuwan_queue_dequeue_def queue_contents_def)
next
  case (Suc n)
  have q': "q' = q\<lparr>qhead := (qhead q + 1) mod qcap q, qsize := n\<rparr>" "v = qdata q ! qhead q"
    using assms(2) Suc by (auto simp: nuwan_queue_dequeue_def)
  have l: "length (qdata q) = qcap q" "0 < qcap q" "qhead q < qcap q" using assms(1) by (auto simp: queue_inv_def)
  have "queue_inv q'" using assms(1) Suc by (auto simp: queue_inv_def q' mod_simps)
  moreover have "queue_contents q = v # queue_contents q'"
    using cyc_split[of 1 "Suc n" "qdata q" "qhead q"] l
    by (simp add: queue_contents_def q' Suc cyc_def[of _ _ "Suc 0"] cyc_start_mod[of "qdata q", unfolded l(1)])
  ultimately show ?thesis by simp
qed

lemma queue_clear_inv: "queue_inv q \<Longrightarrow> queue_inv (nuwan_queue_clear q) \<and> queue_contents (nuwan_queue_clear q) = []"
  by (simp add: queue_inv_def nuwan_queue_clear_def queue_contents_def)

lemma queue_observers:
  assumes "queue_inv q"
  shows "nuwan_queue_size q = length (queue_contents q)" "nuwan_queue_empty q \<longleftrightarrow> queue_contents q = []"
    "nuwan_queue_peek q = (case queue_contents q of [] \<Rightarrow> 0 | x # xs \<Rightarrow> x)"
proof -
  have "length (qdata q) = qcap q" "qhead q < qcap q" using assms by (auto simp: queue_inv_def)
  then show "nuwan_queue_peek q = (case queue_contents q of [] \<Rightarrow> 0 | x # xs \<Rightarrow> x)"
    by (cases "qsize q") (simp_all add: nuwan_queue_peek_def queue_contents_def cyc_def upt_conv_Cons del: upt_Suc)
  show "nuwan_queue_size q = length (queue_contents q)" "nuwan_queue_empty q \<longleftrightarrow> queue_contents q = []"
    by (simp_all add: nuwan_queue_size_def nuwan_queue_empty_def queue_contents_def flip: length_0_conv)
qed

text \<open>The queue as a \<open>fifo\<close>: a put offers one value, a get asks for at most one.\<close>

definition queue_put :: "NuwanQueue \<Rightarrow> arena_mem \<times> u64 \<Rightarrow> NuwanQueue \<times> u64 list" where
  "queue_put q x = (let (q', ok) = nuwan_queue_enqueue (fst x) q (snd x) in (q', if ok then [snd x] else []))"

definition queue_get :: "NuwanQueue \<Rightarrow> nat \<Rightarrow> NuwanQueue \<times> u64 list" where
  "queue_get q k =
     (if k = 0 \<or> nuwan_queue_empty q then (q, []) else let (q', v) = nuwan_queue_dequeue q in (q', [v]))"

interpretation nuwan_queue: fifo queue_inv queue_contents queue_put queue_get
proof unfold_locales
  fix q x q' acc assume a: "queue_inv q" "queue_put q x = (q', acc)"
  obtain q1 ok where e: "nuwan_queue_enqueue (fst x) q (snd x) = (q1, ok)" by fastforce
  from enqueue_spec[OF a(1) e] a(2) e show "queue_inv q' \<and> queue_contents q' = queue_contents q @ acc"
    by (auto simp: queue_put_def)
next
  fix q k q' ys assume a: "queue_inv q" "queue_get q k = (q', ys)"
  obtain q1 v where d: "nuwan_queue_dequeue q = (q1, v)" by fastforce
  from dequeue_spec[OF a(1) d] a d queue_observers(2)[OF a(1)]
  show "queue_inv q' \<and> queue_contents q = ys @ queue_contents q'"
    by (auto simp: queue_get_def split: if_splits list.splits)
qed

text \<open>
  C29: A \<^verbatim>\<open>NuwanQueue\<close> is a first-in first-out stream under any interleaving of enqueues and
  dequeues, through wrap-around and growth: the values that were accepted, after what the queue held
  before, are those that were delivered, in order, followed by what it still holds; a value is refused
  only when the ring is full and the arena is out of memory.
\<close>

theorem nuwan_queue_fifo:
  assumes "queue_inv q" and "fifo_run queue_put queue_get q ops = (q', ins, outs)"
  shows "queue_inv q' \<and> queue_contents q @ ins = outs @ queue_contents q'
    \<and> (\<forall>al v. snd (nuwan_queue_enqueue al q' v) \<longleftrightarrow> nuwan_queue_size q' < qcap q' \<or> al \<noteq> None)"
proof -
  have s: "queue_inv q' \<and> queue_contents q @ ins = outs @ queue_contents q'"
    by (rule nuwan_queue.run_stream[OF assms])
  moreover have "snd (nuwan_queue_enqueue al q' v) \<longleftrightarrow> nuwan_queue_size q' < qcap q' \<or> al \<noteq> None" for al v
    using enqueue_spec[of q' al v] s by (cases "nuwan_queue_enqueue al q' v") (auto simp: nuwan_queue_size_def)
  ultimately show ?thesis by blast
qed

definition demo_queue :: NuwanQueue where
  "demo_queue = \<lparr>qdata = [4, 5, 0, 3], qhead = 3, qtail = 2, qsize = 3, qcap = 4\<rparr>"

theorem nuwan_queue_fifo_witness:
  "\<exists>q'. fifo_run queue_put queue_get demo_queue
       [Put (None, 6), Put (None, 7), Put (Some (\<lambda>_. 9), 8), Get 1, Get 1] = (q', [6, 8], [3, 4])
     \<and> queue_contents q' = [5, 6, 8]"
proof -
  have inv: "queue_inv demo_queue" by (simp add: queue_inv_def demo_queue_def)
  obtain q' ins outs where r: "fifo_run queue_put queue_get demo_queue
       [Put (None, 6), Put (None, 7), Put (Some (\<lambda>_. 9), 8), Get 1, Get 1] = (q', ins, outs)"
    by (metis prod_cases3)
  have io: "snd (fifo_run queue_put queue_get demo_queue
       [Put (None, 6), Put (None, 7), Put (Some (\<lambda>_. 9), 8), Get 1, Get 1]) = ([6, 8], [3, 4])" by code_simp
  have "queue_contents demo_queue = [3, 4, 5]" by code_simp
  with nuwan_queue_fifo[OF inv r] io r show ?thesis by auto
qed

end
