(* ===== verification/Coll_List.thy ===== *)
theory Coll_List
  imports Coll_Queue "HOL-Library.Multiset"
begin

text \<open>
  \<^verbatim>\<open>NuwanList\<close>, \<^verbatim>\<open>NuwanStack\<close> and the integer kernels of
  \<^verbatim>\<open>runtime/stdlib/collections.c\<close>.  A list is an array in the arena that doubles when it is
  full; elements are 64-bit words, compared as signed numbers.  Receivers are non-null.  The array
  pointer itself can be null, because \<^verbatim>\<open>nuwan_list_new\<close> does not check its second allocation; a
  write through it is the result \<open>None\<close>.
\<close>

section \<open>Kernels\<close>

definition SWAP4 :: "nat \<Rightarrow> nat \<Rightarrow> u64 list \<Rightarrow> u64 list" where
  "SWAP4 i j a = (if sint (a ! i) > sint (a ! j) then a[i := a ! j, j := a ! i] else a)"

definition nuwan_array_sort_net4 :: "u64 list \<Rightarrow> u64 list" where
  "nuwan_array_sort_net4 a = SWAP4 1 2 (SWAP4 1 3 (SWAP4 0 2 (SWAP4 2 3 (SWAP4 0 1 a))))"

text \<open>The vector loops: four (AVX2) or two (SSE2) lane sums over full groups, and what is left.\<close>

fun sum_lanes4 :: "u64 \<times> u64 \<times> u64 \<times> u64 \<Rightarrow> u64 list \<Rightarrow> (u64 \<times> u64 \<times> u64 \<times> u64) \<times> u64 list" where
  "sum_lanes4 (s0, s1, s2, s3) (a # b # c # d # xs) = sum_lanes4 (s0 + a, s1 + b, s2 + c, s3 + d) xs"
| "sum_lanes4 acc xs = (acc, xs)"

fun sum_lanes2 :: "u64 \<times> u64 \<Rightarrow> u64 list \<Rightarrow> (u64 \<times> u64) \<times> u64 list" where
  "sum_lanes2 (s0, s1) (a # b # xs) = sum_lanes2 (s0 + a, s1 + b) xs"
| "sum_lanes2 acc xs = (acc, xs)"

text \<open>The flag is \<^verbatim>\<open>cpu_has_avx2()\<close> in a build with AVX2; SSE2 is always there on x86-64.\<close>

definition nuwan_array_sum_i64 :: "bool \<Rightarrow> u64 list \<Rightarrow> u64" where
  "nuwan_array_sum_i64 avx2 arr =
     (let (s, rest) = (if avx2 then let ((t0, t1, t2, t3), rest) = sum_lanes4 (0, 0, 0, 0) arr
                                    in (t0 + t1 + t2 + t3, rest)
                       else (0, arr));
          ((t0, t1), rest2) = sum_lanes2 (0, 0) rest
      in foldl (+) (s + (t0 + t1)) rest2)"

section \<open>NuwanList\<close>

definition LIST_INIT_CAP :: nat where
  "LIST_INIT_CAP = 16"

record NuwanList =
  ldata :: "u64 list option"
  lsize :: nat
  lcap :: nat

definition data_of :: "NuwanList \<Rightarrow> u64 list" where
  "data_of l = (case ldata l of None \<Rightarrow> [] | Some d \<Rightarrow> d)"

definition nuwan_list_new :: "bool \<Rightarrow> arena_mem \<Rightarrow> NuwanList option" where
  "nuwan_list_new ok al =
     (if \<not> ok then None
      else Some \<lparr>ldata = arena_words al LIST_INIT_CAP, lsize = 0, lcap = LIST_INIT_CAP\<rparr>)"

definition nuwan_list_reserve :: "arena_mem \<Rightarrow> NuwanList \<Rightarrow> nat \<Rightarrow> NuwanList \<times> bool" where
  "nuwan_list_reserve al l cap =
     (if cap \<le> lcap l then (l, True)
      else case arena_words al cap of
             None \<Rightarrow> (l, False)
           | Some nd \<Rightarrow>
               (l\<lparr>ldata := Some (if lsize l \<noteq> 0 then overwrite nd 0 (take (lsize l) (data_of l)) else nd),
                  lcap := cap\<rparr>, True))"

definition nuwan_list_push :: "arena_mem \<Rightarrow> NuwanList \<Rightarrow> u64 \<Rightarrow> (NuwanList \<times> bool) option" where
  "nuwan_list_push al l v =
     (let (l1, ok) = (if lsize l = lcap l then nuwan_list_reserve al l (lcap l * 2) else (l, True))
      in if \<not> ok then Some (l1, False)
         else case ldata l1 of
                None \<Rightarrow> None
              | Some d \<Rightarrow> Some (l1\<lparr>ldata := Some (d[lsize l1 := v]), lsize := lsize l1 + 1\<rparr>, True))"

definition nuwan_list_get :: "NuwanList \<Rightarrow> nat \<Rightarrow> u64" where
  "nuwan_list_get l idx = (if idx \<ge> lsize l then 0 else data_of l ! idx)"

definition nuwan_list_set :: "NuwanList \<Rightarrow> nat \<Rightarrow> u64 \<Rightarrow> NuwanList \<times> bool" where
  "nuwan_list_set l idx v =
     (if idx \<ge> lsize l then (l, False) else (l\<lparr>ldata := Some ((data_of l)[idx := v])\<rparr>, True))"

definition nuwan_list_pop :: "NuwanList \<Rightarrow> NuwanList \<times> u64" where
  "nuwan_list_pop l =
     (if lsize l = 0 then (l, 0) else (l\<lparr>lsize := lsize l - 1\<rparr>, data_of l ! (lsize l - 1)))"

definition nuwan_list_remove :: "NuwanList \<Rightarrow> nat \<Rightarrow> NuwanList \<times> bool" where
  "nuwan_list_remove l idx =
     (if idx \<ge> lsize l then (l, False)
      else (l\<lparr>ldata := Some (overwrite (data_of l) idx (take (lsize l - idx - 1) (drop (idx + 1) (data_of l)))),
              lsize := lsize l - 1\<rparr>, True))"

definition nuwan_list_insert :: "arena_mem \<Rightarrow> NuwanList \<Rightarrow> nat \<Rightarrow> u64 \<Rightarrow> (NuwanList \<times> bool) option" where
  "nuwan_list_insert al l idx v =
     (if idx > lsize l then Some (l, False)
      else case nuwan_list_push al l 0 of
             None \<Rightarrow> None
           | Some (l1, ok) \<Rightarrow>
               if \<not> ok then Some (l1, False)
               else
                 (let d = overwrite (data_of l1) (idx + 1) (take (lsize l1 - idx - 1) (drop idx (data_of l1)))
                  in Some (l1\<lparr>ldata := Some (d[idx := v])\<rparr>, True)))"

definition nuwan_list_size :: "NuwanList \<Rightarrow> nat" where
  "nuwan_list_size l = lsize l"

definition nuwan_list_empty :: "NuwanList \<Rightarrow> bool" where
  "nuwan_list_empty l \<longleftrightarrow> lsize l = 0"

definition nuwan_list_clear :: "NuwanList \<Rightarrow> NuwanList" where
  "nuwan_list_clear l = l\<lparr>lsize := 0\<rparr>"

text \<open>
  \<^verbatim>\<open>qsort\<close> with \<^verbatim>\<open>cmp_i64\<close>: the elements in signed order.  Equal elements are
  identical, so the result does not depend on the algorithm.
\<close>

definition cmp_i64 :: "u64 \<Rightarrow> u64 \<Rightarrow> int" where
  "cmp_i64 x y = (if sint x < sint y then - 1 else if sint x > sint y then 1 else 0)"

definition nuwan_list_sort :: "NuwanList \<Rightarrow> NuwanList" where
  "nuwan_list_sort l =
     (if lsize l \<noteq> 0
      then l\<lparr>ldata := Some (overwrite (data_of l) 0 (sort_key sint (take (lsize l) (data_of l))))\<rparr>
      else l)"

function bsearch :: "u64 list \<Rightarrow> u64 \<Rightarrow> nat \<Rightarrow> nat \<Rightarrow> int" where
  "bsearch d v lo hi =
     (if lo < hi then
        (let mid = lo + (hi - lo) div 2
         in if d ! mid = v then int mid
            else if sint (d ! mid) < sint v then bsearch d v (mid + 1) hi else bsearch d v lo mid)
      else - 1)"
  by pat_completeness auto
termination by (relation "measure (\<lambda>(d, v, lo, hi). hi - lo)") auto

definition nuwan_list_binary_search :: "NuwanList \<Rightarrow> u64 \<Rightarrow> int" where
  "nuwan_list_binary_search l v = (if lsize l = 0 then - 1 else bsearch (data_of l) v 0 (lsize l))"

definition nuwan_list_sum :: "bool \<Rightarrow> NuwanList \<Rightarrow> u64" where
  "nuwan_list_sum avx2 l = nuwan_array_sum_i64 avx2 (take (lsize l) (data_of l))"

section \<open>NuwanStack: the list under other names\<close>

definition nuwan_stack_push :: "arena_mem \<Rightarrow> NuwanList \<Rightarrow> u64 \<Rightarrow> (NuwanList \<times> bool) option" where
  "nuwan_stack_push al s v = nuwan_list_push al s v"

definition nuwan_stack_pop :: "NuwanList \<Rightarrow> NuwanList \<times> u64" where
  "nuwan_stack_pop s = nuwan_list_pop s"

definition nuwan_stack_peek :: "NuwanList \<Rightarrow> u64" where
  "nuwan_stack_peek s = (if lsize s \<noteq> 0 then data_of s ! (lsize s - 1) else 0)"

section \<open>The array holds a sequence\<close>

definition list_inv :: "NuwanList \<Rightarrow> bool" where
  "list_inv l \<longleftrightarrow> ldata l \<noteq> None \<and> length (data_of l) = lcap l \<and> lsize l \<le> lcap l \<and> 0 < lcap l"

definition elems :: "NuwanList \<Rightarrow> u64 list" where
  "elems l = take (lsize l) (data_of l)"

lemma length_elems: "list_inv l \<Longrightarrow> length (elems l) = lsize l"
  by (simp add: list_inv_def elems_def)

lemma list_new_spec:
  "nuwan_list_new True (Some junk) = Some l \<Longrightarrow> list_inv l \<and> elems l = []"
  by (auto simp: nuwan_list_new_def list_inv_def elems_def data_of_def arena_words_def LIST_INIT_CAP_def)

lemma reserve_spec:
  assumes "list_inv l" and "nuwan_list_reserve al l cap = (l', ok)"
  shows "list_inv l' \<and> elems l' = elems l \<and> lsize l' = lsize l \<and> (ok \<longrightarrow> cap \<le> lcap l')
    \<and> (ok \<longleftrightarrow> cap \<le> lcap l \<or> al \<noteq> None)"
proof (cases "cap \<le> lcap l")
  case True
  then show ?thesis using assms by (auto simp: nuwan_list_reserve_def)
next
  case False
  show ?thesis
  proof (cases "arena_words al cap")
    case None
    then show ?thesis using assms False by (auto simp: nuwan_list_reserve_def arena_words_def)
  next
    case (Some nd)
    then have n: "length nd = cap" by (rule arena_words_length)
    have l': "l' = l\<lparr>ldata := Some (if lsize l \<noteq> 0 then overwrite nd 0 (take (lsize l) (data_of l)) else nd), lcap := cap\<rparr>"
      "ok" using assms(2) False Some by (auto simp: nuwan_list_reserve_def)
    have "al \<noteq> None" using Some by (auto simp: arena_words_def)
    then show ?thesis
      using assms(1) False n
      by (auto simp: l' list_inv_def elems_def data_of_def overwrite_def split: option.splits)
  qed
qed

lemma push_spec:
  assumes "list_inv l"
  shows "\<exists>l' ok. nuwan_list_push al l v = Some (l', ok) \<and> list_inv l'
    \<and> elems l' = elems l @ (if ok then [v] else []) \<and> (ok \<longleftrightarrow> lsize l < lcap l \<or> al \<noteq> None)"
proof -
  define r where "r = (if lsize l = lcap l then nuwan_list_reserve al l (lcap l * 2) else (l, True))"
  obtain l1 ok where r1: "r = (l1, ok)" by fastforce
  have l1: "list_inv l1" "elems l1 = elems l" "lsize l1 = lsize l" "ok \<longleftrightarrow> lsize l < lcap l \<or> al \<noteq> None"
    "ok \<Longrightarrow> lsize l1 < lcap l1"
    using assms r1 reserve_spec[OF assms, of al "lcap l * 2" l1 ok]
    by (auto simp: r_def list_inv_def split: if_splits)
  show ?thesis
  proof (cases ok)
    case True
    obtain d where d: "ldata l1 = Some d" using l1(1) by (auto simp: list_inv_def)
    have "nuwan_list_push al l v = Some (l1\<lparr>ldata := Some (d[lsize l1 := v]), lsize := lsize l1 + 1\<rparr>, True)"
      using r1 True d by (simp add: nuwan_list_push_def flip: r_def)
    moreover have "list_inv (l1\<lparr>ldata := Some (d[lsize l1 := v]), lsize := lsize l1 + 1\<rparr>)"
      "elems (l1\<lparr>ldata := Some (d[lsize l1 := v]), lsize := lsize l1 + 1\<rparr>) = elems l1 @ [v]"
      using l1(1) l1(5)[OF True] d
      by (simp_all add: list_inv_def elems_def data_of_def take_Suc_conv_app_nth)
    ultimately show ?thesis using l1 True by auto
  next
    case False
    then have "nuwan_list_push al l v = Some (l1, False)" using r1 by (simp add: nuwan_list_push_def flip: r_def)
    with False l1 show ?thesis by auto
  qed
qed

lemma insert_spec:
  assumes l: "list_inv l" and idx: "idx \<le> lsize l"
  shows "\<exists>l' ok. nuwan_list_insert al l idx v = Some (l', ok) \<and> list_inv l'
    \<and> elems l' = (if ok then take idx (elems l) @ v # drop idx (elems l) else elems l)
    \<and> (ok \<longleftrightarrow> lsize l < lcap l \<or> al \<noteq> None)"
proof -
  obtain l1 ok where p: "nuwan_list_push al l 0 = Some (l1, ok)" "list_inv l1"
    "elems l1 = elems l @ (if ok then [0] else [])" "ok \<longleftrightarrow> lsize l < lcap l \<or> al \<noteq> None"
    using push_spec[OF l] by blast
  show ?thesis
  proof (cases ok)
    case True
    define n where "n = lsize l"
    have n1: "lsize l1 = Suc n" using length_elems[OF l] length_elems[OF p(2)] p(3) True by (simp add: n_def)
    let ?d = "data_of l1"
    have len: "length ?d = lcap l1" "Suc n \<le> lcap l1" using p(2) n1 by (auto simp: list_inv_def)
    have tk: "take (Suc n) ?d = elems l @ [0]" using p(3) True n1 by (simp add: elems_def)
    then have tn: "take n ?d = elems l" using length_elems[OF l] by (metis append_eq_conv_conj n_def take_take min.cobounded1 min_def Suc_n_not_le_n le_Suc_eq)
    define d' where "d' = (overwrite ?d (idx + 1) (take (n - idx) (drop idx ?d)))[idx := v]"
    have i: "nuwan_list_insert al l idx v = Some (l1\<lparr>ldata := Some d'\<rparr>, True)"
      using idx p(1) True n1 by (simp add: nuwan_list_insert_def d'_def n_def[symmetric])
    have dl: "length d' = lcap l1" using len idx by (simp add: d'_def n_def)
    have "take (Suc n) d' = take idx (elems l) @ v # drop idx (elems l)"
    proof (rule nth_equalityI)
      show "length (take (Suc n) d') = length (take idx (elems l) @ v # drop idx (elems l))"
        using dl len length_elems[OF l] idx by (simp add: n_def)
      fix j assume "j < length (take (Suc n) d')"
      then have j: "j < Suc n" by simp
      have en: "elems l ! m = ?d ! m" if "m < n" for m using that tn by (metis nth_take)
      have o: "overwrite ?d (idx + 1) (take (n - idx) (drop idx ?d)) ! j =
        (if idx < j then ?d ! (j - 1) else ?d ! j)"
        using j idx len by (subst overwrite_nth) (auto simp: n_def)
      show "take (Suc n) d' ! j = (take idx (elems l) @ v # drop idx (elems l)) ! j"
        using j idx len o en length_elems[OF l]
        by (auto simp: d'_def nth_append nth_list_update nth_Cons' n_def)
    qed
    then show ?thesis
      using i p(2,4) True dl n1 by (auto simp: list_inv_def elems_def data_of_def)
  next
    case False
    then have "nuwan_list_insert al l idx v = Some (l1, False)" using p idx by (simp add: nuwan_list_insert_def)
    with False p show ?thesis by auto
  qed
qed

lemma remove_spec:
  assumes l: "list_inv l" and r: "nuwan_list_remove l idx = (l', ok)"
  shows "list_inv l' \<and> (ok \<longleftrightarrow> idx < lsize l)
    \<and> elems l' = (if ok then take idx (elems l) @ drop (Suc idx) (elems l) else elems l)"
proof (cases "idx < lsize l")
  case True
  let ?d = "data_of l" and ?n = "lsize l"
  define d' where "d' = overwrite ?d idx (take (?n - idx - 1) (drop (idx + 1) ?d))"
  have l': "l' = l\<lparr>ldata := Some d', lsize := ?n - 1\<rparr>" "ok"
    using r True by (auto simp: nuwan_list_remove_def d'_def)
  have len: "length ?d = lcap l" "?n \<le> lcap l" using l by (auto simp: list_inv_def)
  have "take (?n - 1) d' = take idx ?d @ take (?n - idx - 1) (drop (idx + 1) ?d)"
    using True len by (simp add: d'_def overwrite_def)
  also have "\<dots> = take idx (elems l) @ drop (Suc idx) (elems l)"
    using True by (simp add: elems_def drop_take min_def)
  finally have e: "take (?n - 1) d' = take idx (elems l) @ drop (Suc idx) (elems l)" .
  have "length d' = lcap l" using True len by (simp add: d'_def)
  then show ?thesis using l l' True e by (auto simp: list_inv_def elems_def data_of_def)
next
  case False
  then show ?thesis using l r by (auto simp: nuwan_list_remove_def)
qed

lemma set_spec:
  assumes "list_inv l" and "nuwan_list_set l idx v = (l', ok)"
  shows "list_inv l' \<and> (ok \<longleftrightarrow> idx < lsize l) \<and> elems l' = (if ok then (elems l)[idx := v] else elems l)"
  using assms by (auto simp: nuwan_list_set_def list_inv_def elems_def data_of_def take_update_swap split: if_splits)

lemma pop_spec:
  assumes "list_inv l" and "nuwan_list_pop l = (l', v)"
  shows "list_inv l' \<and> (if elems l = [] then l' = l \<and> v = 0 else elems l' = butlast (elems l) \<and> v = last (elems l))"
proof (cases "lsize l")
  case 0
  then show ?thesis using assms by (simp add: nuwan_list_pop_def elems_def)
next
  case (Suc n)
  then have "elems l = take n (data_of l) @ [data_of l ! n]"
    using assms(1) by (simp add: elems_def list_inv_def take_Suc_conv_app_nth)
  then show ?thesis using assms Suc by (auto simp: nuwan_list_pop_def list_inv_def elems_def data_of_def)
qed

lemma get_spec: "list_inv l \<Longrightarrow> nuwan_list_get l idx = (if idx < length (elems l) then elems l ! idx else 0)"
  by (simp add: nuwan_list_get_def elems_def list_inv_def)

lemma sort_spec:
  assumes "list_inv l"
  shows "list_inv (nuwan_list_sort l) \<and> elems (nuwan_list_sort l) = sort_key sint (elems l)"
  using assms by (auto simp: nuwan_list_sort_def list_inv_def elems_def data_of_def overwrite_def)

text \<open>
  A \<^verbatim>\<open>NuwanList\<close> behaves as a sequence: on a well-formed list no operation goes out of
  bounds; insertion at any position, removal, assignment, push and pop do to the elements what their
  names say, also when the array has to grow, and fail exactly on a bad index or when the arena is
  out of memory on a full array.
\<close>

theorem nuwan_list_is_sequence:
  assumes "list_inv l" and "idx \<le> nuwan_list_size l"
  shows "(\<exists>l' ok. nuwan_list_insert al l idx v = Some (l', ok) \<and> list_inv l'
       \<and> elems l' = (if ok then take idx (elems l) @ v # drop idx (elems l) else elems l)
       \<and> (ok \<longleftrightarrow> lsize l < lcap l \<or> al \<noteq> None))
    \<and> (\<exists>l' ok. nuwan_list_push al l v = Some (l', ok) \<and> list_inv l'
       \<and> elems l' = elems l @ (if ok then [v] else []) \<and> (ok \<longleftrightarrow> lsize l < lcap l \<or> al \<noteq> None))
    \<and> (\<exists>l' ok. nuwan_list_remove l idx = (l', ok) \<and> list_inv l' \<and> (ok \<longleftrightarrow> idx < lsize l)
       \<and> elems l' = (if ok then take idx (elems l) @ drop (Suc idx) (elems l) else elems l))
    \<and> (\<exists>l' ok. nuwan_list_set l idx v = (l', ok) \<and> list_inv l' \<and> (ok \<longleftrightarrow> idx < lsize l)
       \<and> elems l' = (if ok then (elems l)[idx := v] else elems l))
    \<and> (\<exists>l' x. nuwan_list_pop l = (l', x) \<and> list_inv l'
       \<and> (if elems l = [] then l' = l \<and> x = 0 else elems l' = butlast (elems l) \<and> x = last (elems l)))
    \<and> nuwan_list_get l idx = (if idx < length (elems l) then elems l ! idx else 0)"
proof -
  have i: "idx \<le> lsize l" using assms(2) by (simp add: nuwan_list_size_def)
  obtain r1 r2 s1 s2 p1 p2 where e: "nuwan_list_remove l idx = (r1, r2)" "nuwan_list_set l idx v = (s1, s2)"
    "nuwan_list_pop l = (p1, p2)" by fastforce
  show ?thesis
    using insert_spec[OF assms(1) i, of al v] push_spec[OF assms(1), of al v] remove_spec[OF assms(1) e(1)]
      set_spec[OF assms(1) e(2)] pop_spec[OF assms(1) e(3)] get_spec[OF assms(1)] e by simp
qed

definition demo_list :: NuwanList where
  "demo_list = \<lparr>ldata = Some [10, 30, 0, 0], lsize = 2, lcap = 4\<rparr>"

theorem nuwan_list_is_sequence_witness:
  "\<exists>l'. nuwan_list_insert None demo_list 1 20 = Some (l', True) \<and> elems l' = [10, 20, 30]"
proof -
  have "list_inv demo_list" "1 \<le> nuwan_list_size demo_list"
    by (simp_all add: list_inv_def demo_list_def data_of_def nuwan_list_size_def)
  from nuwan_list_is_sequence[OF this, of None 20] show ?thesis
    by (auto simp: demo_list_def elems_def data_of_def)
qed

section \<open>Binary search\<close>

declare bsearch.simps [simp del]

lemma bsearch_spec:
  assumes sorted: "sorted (map sint (take n d))" and n: "n \<le> length d"
  shows "hi \<le> n \<Longrightarrow> (\<And>i. i < lo \<Longrightarrow> i < n \<Longrightarrow> d ! i \<noteq> v) \<Longrightarrow> (\<And>i. hi \<le> i \<Longrightarrow> i < n \<Longrightarrow> d ! i \<noteq> v) \<Longrightarrow>
    (\<exists>k < n. bsearch d v lo hi = int k \<and> d ! k = v) \<or> bsearch d v lo hi = - 1 \<and> v \<notin> set (take n d)"
proof (induction "hi - lo" arbitrary: lo hi rule: less_induct)
  case less
  have le: "sint (d ! i) \<le> sint (d ! j)" if "i \<le> j" "j < n" for i j
    using sorted_nth_mono[OF sorted that(1)] that n by simp
  show ?case
  proof (cases "lo < hi")
    case False
    then have "d ! i \<noteq> v" if "i < n" for i using less.prems(2,3)[of i] that by linarith
    then have "v \<notin> set (take n d)" using n by (auto simp: in_set_conv_nth)
    then show ?thesis using False by (simp add: bsearch.simps[of d v lo hi])
  next
    case True
    define mid where "mid = lo + (hi - lo) div 2"
    have m: "lo \<le> mid" "mid < hi" "mid < n" using True less.prems(1) by (auto simp: mid_def)
    consider "d ! mid = v" | "d ! mid \<noteq> v" "sint (d ! mid) < sint v" | "d ! mid \<noteq> v" "\<not> sint (d ! mid) < sint v"
      by blast
    then show ?thesis
    proof cases
      case 1
      then show ?thesis using True m by (auto simp: bsearch.simps[of d v lo hi] Let_def simp flip: mid_def)
    next
      case 2
      have "d ! i \<noteq> v" if "i < mid + 1" "i < n" for i using le[of i mid] 2 m that by fastforce
      with less.hyps[of hi "mid + 1"] less.prems m 2 True show ?thesis
        by (simp add: bsearch.simps[of d v lo hi] Let_def flip: mid_def)
    next
      case 3
      then have "sint v < sint (d ! mid)" by (metis linorder_neqE word_eq_iff_signed)
      then have "d ! i \<noteq> v" if "mid \<le> i" "i < n" for i using le[of mid i] that by fastforce
      with less.hyps[of mid lo] less.prems m 3 True show ?thesis
        by (simp add: bsearch.simps[of d v lo hi] Let_def flip: mid_def)
    qed
  qed
qed

text \<open>
  Binary search decides membership: on a list in signed order, such as one that
  \<^verbatim>\<open>nuwan_list_sort\<close> produced, it ends with the position of an element equal to the key, and
  with \<open>-1\<close> exactly when the key does not occur.
\<close>

theorem nuwan_list_binary_search_correct:
  assumes "list_inv l" and "l' = nuwan_list_sort l"
  shows "if v \<in> set (elems l)
    then \<exists>k < nuwan_list_size l'. nuwan_list_binary_search l' v = int k \<and> nuwan_list_get l' k = v
    else nuwan_list_binary_search l' v = - 1"
proof -
  have s: "list_inv l'" "elems l' = sort_key sint (elems l)" using sort_spec[OF assms(1)] assms(2) by simp_all
  have n: "lsize l' \<le> length (data_of l')" using s(1) by (simp add: list_inv_def)
  have "sorted (map sint (take (lsize l') (data_of l')))" using s(2) by (simp add: elems_def)
  from bsearch_spec[OF this n, of "lsize l'" 0 v]
  have "(\<exists>k < lsize l'. bsearch (data_of l') v 0 (lsize l') = int k \<and> data_of l' ! k = v)
      \<or> bsearch (data_of l') v 0 (lsize l') = - 1 \<and> v \<notin> set (elems l')"
    by (simp add: elems_def)
  moreover have "set (elems l') = set (elems l)" using s(2) by simp
  moreover have "v \<in> set (elems l')" if "k < lsize l'" "data_of l' ! k = v" for k
    using that n by (auto simp: elems_def in_set_conv_nth)
  moreover have "elems l' = []" if "lsize l' = 0" using that by (simp add: elems_def)
  ultimately show ?thesis
    by (cases "v \<in> set (elems l)")
      (auto simp: nuwan_list_binary_search_def nuwan_list_size_def nuwan_list_get_def not_le)
qed

theorem nuwan_list_binary_search_correct_witness:
  "nuwan_list_binary_search (nuwan_list_sort \<lparr>ldata = Some [5, - 3, 8], lsize = 3, lcap = 3\<rparr>) 7 = - 1
   \<and> nuwan_list_binary_search (nuwan_list_sort \<lparr>ldata = Some [5, - 3, 8], lsize = 3, lcap = 3\<rparr>) 5 = 1"
proof -
  have i: "list_inv \<lparr>ldata = Some [5, - 3, 8], lsize = 3, lcap = 3\<rparr>" by (simp add: list_inv_def data_of_def)
  have "7 \<notin> set (elems \<lparr>ldata = Some [5, - 3, 8], lsize = 3, lcap = 3\<rparr>)" by (simp add: elems_def data_of_def)
  then have "nuwan_list_binary_search (nuwan_list_sort \<lparr>ldata = Some [5, - 3, 8], lsize = 3, lcap = 3\<rparr>) 7 = - 1"
    using nuwan_list_binary_search_correct[OF i refl, of 7] by simp
  moreover have "nuwan_list_binary_search (nuwan_list_sort \<lparr>ldata = Some [5, - 3, 8], lsize = 3, lcap = 3\<rparr>) 5 = 1"
    by code_simp
  ultimately show ?thesis ..
qed

section \<open>Vector kernels\<close>

lemma sum_lanes4_sum:
  "sum_lanes4 (s0, s1, s2, s3) xs = ((t0, t1, t2, t3), rest) \<Longrightarrow>
   t0 + t1 + t2 + t3 + sum_list rest = s0 + s1 + s2 + s3 + sum_list xs"
  by (induction "(s0, s1, s2, s3)" xs arbitrary: s0 s1 s2 s3 rule: sum_lanes4.induct) (auto simp: algebra_simps)

lemma sum_lanes2_sum:
  "sum_lanes2 (s0, s1) xs = ((t0, t1), rest) \<Longrightarrow> t0 + t1 + sum_list rest = s0 + s1 + sum_list xs"
  by (induction "(s0, s1)" xs arbitrary: s0 s1 rule: sum_lanes2.induct) (auto simp: algebra_simps)

lemma foldl_add: "foldl (+) (a :: u64) xs = a + sum_list xs"
  by (induction xs arbitrary: a) (simp_all add: algebra_simps)

lemma array_sum: "nuwan_array_sum_i64 avx2 arr = sum_list arr"
proof -
  obtain t0 t1 t2 t3 r where l4: "sum_lanes4 (0, 0, 0, 0) arr = ((t0, t1, t2, t3), r)" by (metis prod_cases4 surj_pair)
  obtain u0 u1 r2 where l2: "sum_lanes2 (0, 0) (if avx2 then r else arr) = ((u0, u1), r2)" by (metis surj_pair)
  show ?thesis
    using sum_lanes4_sum[OF l4] sum_lanes2_sum[OF l2] l4 l2
    by (cases avx2) (auto simp: nuwan_array_sum_i64_def foldl_add algebra_simps)
qed

lemma sort_net4:
  "sorted (map sint (nuwan_array_sort_net4 [a, b, c, d])) \<and> mset (nuwan_array_sort_net4 [a, b, c, d]) = mset [a, b, c, d]"
  by (simp add: nuwan_array_sort_net4_def SWAP4_def numeral_3_eq_3 numeral_2_eq_2)

text \<open>
  The vectorised kernels agree with their specification: summing in four AVX2 lanes and two SSE2
  lanes with a scalar tail gives the sum of the array modulo \<open>2 ^ 64\<close> whether or not the CPU has
  AVX2, and the five-comparator network sorts any four elements in signed order.
\<close>

theorem nuwan_kernels_correct:
  "nuwan_array_sum_i64 avx2 arr = sum_list arr
   \<and> sorted (map sint (nuwan_array_sort_net4 [a, b, c, d]))
   \<and> mset (nuwan_array_sort_net4 [a, b, c, d]) = {#a, b, c, d#}"
  using array_sum sort_net4[of a b c d] by simp

end
