(* ===== verification/Coll_Pq.thy ===== *)
theory Coll_Pq
  imports Coll_Queue "HOL-Library.Multiset"
begin

text \<open>
  \<^verbatim>\<open>NuwanPQ\<close> of \<^verbatim>\<open>runtime/stdlib/collections.c\<close>: a binary min-heap of 64-bit values with
  signed priorities, in two parallel arrays that double when they are full.  Receivers are non-null
  and the arrays exist: \<^verbatim>\<open>nuwan_pq_new\<close> fails when one of them cannot be allocated.
\<close>

section \<open>The heap operations\<close>

definition PQ_INIT_CAP :: nat where
  "PQ_INIT_CAP = 16"

record NuwanPQ =
  prios :: "u64 list"
  vals :: "u64 list"
  psize :: nat
  pcap :: nat

definition nuwan_pq_new :: "bool \<Rightarrow> arena_mem \<Rightarrow> arena_mem \<Rightarrow> NuwanPQ option" where
  "nuwan_pq_new ok al1 al2 =
     (if \<not> ok then None
      else case (arena_words al1 PQ_INIT_CAP, arena_words al2 PQ_INIT_CAP) of
             (Some p, Some v) \<Rightarrow> Some \<lparr>prios = p, vals = v, psize = 0, pcap = PQ_INIT_CAP\<rparr>
           | _ \<Rightarrow> None)"

definition nuwan_pq_reserve :: "arena_mem \<Rightarrow> arena_mem \<Rightarrow> NuwanPQ \<Rightarrow> nat \<Rightarrow> NuwanPQ \<times> bool" where
  "nuwan_pq_reserve al1 al2 pq cap =
     (if cap \<le> pcap pq then (pq, True)
      else case (arena_words al1 cap, arena_words al2 cap) of
             (Some np, Some nv) \<Rightarrow>
               (pq\<lparr>prios := (if psize pq \<noteq> 0 then overwrite np 0 (take (psize pq) (prios pq)) else np),
                   vals := (if psize pq \<noteq> 0 then overwrite nv 0 (take (psize pq) (vals pq)) else nv),
                   pcap := cap\<rparr>, True)
           | _ \<Rightarrow> (pq, False))"

definition pq_swap :: "NuwanPQ \<Rightarrow> nat \<Rightarrow> nat \<Rightarrow> NuwanPQ" where
  "pq_swap pq a b =
     pq\<lparr>prios := (prios pq)[a := prios pq ! b, b := prios pq ! a],
        vals := (vals pq)[a := vals pq ! b, b := vals pq ! a]\<rparr>"

fun sift_up :: "NuwanPQ \<Rightarrow> nat \<Rightarrow> NuwanPQ" where
  "sift_up pq i =
     (if i > 0 then
        (let parent = (i - 1) div 2
         in if sint (prios pq ! parent) \<le> sint (prios pq ! i) then pq
            else sift_up (pq_swap pq parent i) parent)
      else pq)"

definition nuwan_pq_push :: "arena_mem \<Rightarrow> arena_mem \<Rightarrow> NuwanPQ \<Rightarrow> u64 \<Rightarrow> u64 \<Rightarrow> NuwanPQ \<times> bool" where
  "nuwan_pq_push al1 al2 pq priority value =
     (let (pq1, ok) = (if psize pq = pcap pq then nuwan_pq_reserve al1 al2 pq (pcap pq * 2) else (pq, True))
      in if \<not> ok then (pq1, False)
         else
           (let i = psize pq1
            in (sift_up (pq1\<lparr>psize := i + 1, prios := (prios pq1)[i := priority],
                             vals := (vals pq1)[i := value]\<rparr>) i, True)))"

definition smallest_child :: "NuwanPQ \<Rightarrow> nat \<Rightarrow> nat" where
  "smallest_child pq i =
     (let l = 2 * i + 1; r = 2 * i + 2;
          s1 = (if l < psize pq \<and> sint (prios pq ! l) < sint (prios pq ! i) then l else i)
      in if r < psize pq \<and> sint (prios pq ! r) < sint (prios pq ! s1) then r else s1)"

lemma smallest_child_cases:
  "smallest_child pq i = i \<or> i < smallest_child pq i \<and> smallest_child pq i < psize pq"
  by (auto simp: smallest_child_def Let_def)

function sift_down :: "NuwanPQ \<Rightarrow> nat \<Rightarrow> NuwanPQ" where
  "sift_down pq i =
     (let s = smallest_child pq i in if s = i then pq else sift_down (pq_swap pq i s) s)"
  by pat_completeness auto
termination
proof (relation "measure (\<lambda>(pq, i). psize pq - i)")
  fix pq i s assume "s = smallest_child pq i" "s \<noteq> i"
  then show "((pq_swap pq i s, s), (pq, i)) \<in> measure (\<lambda>(pq, i). psize pq - i)"
    using smallest_child_cases[of pq i] by (auto simp: pq_swap_def)
qed simp

definition nuwan_pq_pop :: "NuwanPQ \<Rightarrow> NuwanPQ \<times> u64" where
  "nuwan_pq_pop pq =
     (if psize pq = 0 then (pq, 0)
      else
        (let n = psize pq - 1
         in (sift_down (pq\<lparr>psize := n, prios := (prios pq)[0 := prios pq ! n],
                           vals := (vals pq)[0 := vals pq ! n]\<rparr>) 0,
             vals pq ! 0)))"

definition nuwan_pq_peek :: "NuwanPQ \<Rightarrow> u64" where
  "nuwan_pq_peek pq = (if psize pq \<noteq> 0 then vals pq ! 0 else 0)"

definition nuwan_pq_peek_priority :: "NuwanPQ \<Rightarrow> u64" where
  "nuwan_pq_peek_priority pq = (if psize pq \<noteq> 0 then prios pq ! 0 else 0)"

definition nuwan_pq_size :: "NuwanPQ \<Rightarrow> nat" where
  "nuwan_pq_size pq = psize pq"

definition nuwan_pq_empty :: "NuwanPQ \<Rightarrow> bool" where
  "nuwan_pq_empty pq \<longleftrightarrow> psize pq = 0"

declare sift_up.simps [simp del] sift_down.simps [simp del]

section \<open>The contract of a priority queue\<close>

fun drain :: "('q \<Rightarrow> nat) \<Rightarrow> ('q \<Rightarrow> 'p) \<Rightarrow> ('q \<Rightarrow> 'q \<times> 'v) \<Rightarrow> nat \<Rightarrow> 'q \<Rightarrow> ('p \<times> 'v) list" where
  "drain sz prio pop 0 q = []"
| "drain sz prio pop (Suc n) q =
     (if sz q = 0 then [] else let (q', v) = pop q in (prio q, v) # drain sz prio pop n q')"

locale priority_queue =
  fixes inv :: "'q \<Rightarrow> bool"
    and items :: "'q \<Rightarrow> ('p \<times> 'v) multiset"
    and size_of :: "'q \<Rightarrow> nat"
    and prio :: "'q \<Rightarrow> 'p"
    and pop :: "'q \<Rightarrow> 'q \<times> 'v"
    and key :: "'p \<Rightarrow> int"
  assumes size_law: "inv q \<Longrightarrow> size_of q = size (items q)"
    and pop_law: "inv q \<Longrightarrow> size_of q \<noteq> 0 \<Longrightarrow> pop q = (q', v) \<Longrightarrow>
       inv q' \<and> items q = add_mset (prio q, v) (items q')"
    and prio_law: "inv q \<Longrightarrow> (p, v) \<in># items q \<Longrightarrow> key (prio q) \<le> key p"
begin

lemma drain_sorts:
  "inv q \<Longrightarrow> size_of q \<le> n \<Longrightarrow>
   mset (drain size_of prio pop n q) = items q \<and> sorted (map (key \<circ> fst) (drain size_of prio pop n q))"
proof (induction n arbitrary: q)
  case 0
  then show ?case using size_law[of q] by simp
next
  case (Suc n)
  show ?case
  proof (cases "size_of q = 0")
    case True
    then show ?thesis using size_law[OF Suc.prems(1)] by simp
  next
    case False
    obtain q' v where p: "pop q = (q', v)" by fastforce
    note l = pop_law[OF Suc.prems(1) False p]
    have "size_of q' \<le> n" using size_law[of q] size_law[of q'] l Suc.prems by simp
    with Suc.IH[of q'] l have IH: "mset (drain size_of prio pop n q') = items q'"
      "sorted (map (key \<circ> fst) (drain size_of prio pop n q'))" by (auto simp: comp_def)
    have "key (prio q) \<le> key (fst x)" if "x \<in> set (drain size_of prio pop n q')" for x
    proof -
      have "x \<in># items q'" using that by (simp flip: IH(1))
      then have "(fst x, snd x) \<in># items q" using l by simp
      then show ?thesis by (rule prio_law[OF Suc.prems(1)])
    qed
    with IH l False p show ?thesis by (simp add: comp_def)
  qed
qed

end

section \<open>The heap invariant\<close>

definition pq_shape :: "NuwanPQ \<Rightarrow> bool" where
  "pq_shape pq \<longleftrightarrow> length (prios pq) = pcap pq \<and> length (vals pq) = pcap pq \<and> psize pq \<le> pcap pq \<and> 0 < pcap pq"

definition pkey :: "NuwanPQ \<Rightarrow> nat \<Rightarrow> int" where
  "pkey pq i = sint (prios pq ! i)"

definition heap_inv :: "NuwanPQ \<Rightarrow> bool" where
  "heap_inv pq \<longleftrightarrow> (\<forall>j. 0 < j \<and> j < psize pq \<longrightarrow> pkey pq ((j - 1) div 2) \<le> pkey pq j)"

definition pq_items :: "NuwanPQ \<Rightarrow> (u64 \<times> u64) multiset" where
  "pq_items pq = mset (zip (take (psize pq) (prios pq)) (take (psize pq) (vals pq)))"

definition pq_inv :: "NuwanPQ \<Rightarrow> bool" where
  "pq_inv pq \<longleftrightarrow> pq_shape pq \<and> heap_inv pq"

text \<open>The heap order with one place open: above \<open>i\<close> while sifting up, below it while sifting down.\<close>

definition open_up :: "NuwanPQ \<Rightarrow> nat \<Rightarrow> bool" where
  "open_up pq i \<longleftrightarrow> (\<forall>j. 0 < j \<and> j < psize pq \<and> j \<noteq> i \<longrightarrow> pkey pq ((j - 1) div 2) \<le> pkey pq j)
     \<and> (\<forall>c. 0 < i \<and> 0 < c \<and> c < psize pq \<and> (c - 1) div 2 = i \<longrightarrow> pkey pq ((i - 1) div 2) \<le> pkey pq c)"

definition open_down :: "NuwanPQ \<Rightarrow> nat \<Rightarrow> bool" where
  "open_down pq i \<longleftrightarrow> (\<forall>j. 0 < j \<and> j < psize pq \<and> (j - 1) div 2 \<noteq> i \<longrightarrow> pkey pq ((j - 1) div 2) \<le> pkey pq j)
     \<and> (\<forall>c. 0 < i \<and> 0 < c \<and> c < psize pq \<and> (c - 1) div 2 = i \<longrightarrow> pkey pq ((i - 1) div 2) \<le> pkey pq c)"

lemma pq_swap_sel [simp]:
  "psize (pq_swap pq a b) = psize pq" "pcap (pq_swap pq a b) = pcap pq" "pq_shape (pq_swap pq a b) = pq_shape pq"
  by (simp_all add: pq_swap_def pq_shape_def)

lemma pkey_swap:
  assumes "pq_shape pq" and "a < psize pq" and "b < psize pq" and "j < psize pq"
  shows "pkey (pq_swap pq a b) j = (if j = b then pkey pq a else if j = a then pkey pq b else pkey pq j)"
  using assms by (auto simp: pkey_def pq_swap_def pq_shape_def nth_list_update)

lemma items_swap:
  assumes "pq_shape pq" and "a < psize pq" and "b < psize pq"
  shows "pq_items (pq_swap pq a b) = pq_items pq"
proof -
  define z where "z = zip (take (psize pq) (prios pq)) (take (psize pq) (vals pq))"
  have l: "length z = psize pq" using assms(1) by (simp add: z_def pq_shape_def)
  have "zip (take (psize pq) ((prios pq)[a := prios pq ! b, b := prios pq ! a]))
      (take (psize pq) ((vals pq)[a := vals pq ! b, b := vals pq ! a])) = z[a := z ! b, b := z ! a]"
    using assms by (simp add: z_def take_update_swap update_zip pq_shape_def)
  then show ?thesis
    using mset_swap[of b z a] assms l by (simp add: pq_items_def pq_swap_def flip: z_def)
qed

lemma sift_up_correct:
  "pq_shape pq \<Longrightarrow> i < psize pq \<Longrightarrow> open_up pq i \<Longrightarrow>
   pq_shape (sift_up pq i) \<and> heap_inv (sift_up pq i) \<and> pq_items (sift_up pq i) = pq_items pq
   \<and> psize (sift_up pq i) = psize pq"
proof (induction pq i rule: sift_up.induct)
  case (1 pq i)
  show ?case
  proof (cases "i = 0 \<or> pkey pq ((i - 1) div 2) \<le> pkey pq i")
    case True
    then have "sift_up pq i = pq" by (subst sift_up.simps) (auto simp: pkey_def)
    moreover have "heap_inv pq" using True 1(4) by (auto simp: heap_inv_def open_up_def)
    ultimately show ?thesis using 1 by simp
  next
    case False
    define p where "p = (i - 1) div 2"
    have p: "p < i" "p < psize pq" using False 1(3) by (auto simp: p_def)
    have ilt: "i < psize pq" by (rule 1(3))
    have up: "sift_up pq i = sift_up (pq_swap pq p i) p"
      using False by (subst sift_up.simps) (simp add: pkey_def p_def Let_def)
    have gt: "pkey pq i < pkey pq p" using False by (simp add: p_def)
    have ip: "(i - 1) div 2 = p" by (simp add: p_def)
    note k = pkey_swap[OF 1(2) p(2) 1(3)]
    have old: "pkey pq ((j - 1) div 2) \<le> pkey pq j" if "0 < j" "j < psize pq" "j \<noteq> i" for j
      using 1(4) that by (simp add: open_up_def)
    have kid: "pkey pq p \<le> pkey pq c" if "0 < c" "c < psize pq" "(c - 1) div 2 = i" for c
      using 1(4) that p(1) ip by (auto simp: open_up_def)
    have "open_up (pq_swap pq p i) p"
      unfolding open_up_def pq_swap_sel
    proof (intro conjI allI impI; elim conjE)
      fix j assume j: "0 < j" "j < psize pq" "j \<noteq> p"
      have pj: "(j - 1) div 2 < psize pq" using j by linarith
      consider "j = i" | "j \<noteq> i" "(j - 1) div 2 = i" | "j \<noteq> i" "(j - 1) div 2 = p" | "j \<noteq> i" "(j - 1) div 2 \<noteq> i" "(j - 1) div 2 \<noteq> p"
        by blast
      then show "pkey (pq_swap pq p i) ((j - 1) div 2) \<le> pkey (pq_swap pq p i) j"
      proof cases
        case 1
        then show ?thesis using gt ip p ilt by (simp add: k)
      next
        case 2
        then show ?thesis using kid[OF j(1,2)] j ilt by (simp add: k)
      next
        case 3
        then show ?thesis using old[OF j(1,2)] gt j p by (simp add: k)
      next
        case 4
        then show ?thesis using old[OF j(1,2)] j pj by (simp add: k)
      qed
    next
      fix c assume c: "0 < p" "0 < c" "c < psize pq" "(c - 1) div 2 = p"
      have pp: "(p - 1) div 2 < psize pq" "(p - 1) div 2 \<noteq> i" "(p - 1) div 2 \<noteq> p" using p c(1) by linarith+
      have a: "pkey pq ((p - 1) div 2) \<le> pkey pq p" by (rule old) (use c p in auto)
      show "pkey (pq_swap pq p i) ((p - 1) div 2) \<le> pkey (pq_swap pq p i) c"
        using a old[OF c(2,3)] c pp p by (auto simp: k)
    qed
    with 1(1)[OF _ p_def] False 1(2,3) p show ?thesis
      by (simp add: up items_swap pkey_def p_def)
  qed
qed

lemma sift_down_correct:
  "pq_shape pq \<Longrightarrow> open_down pq i \<Longrightarrow> i < psize pq \<or> psize pq = 0 \<Longrightarrow>
   pq_shape (sift_down pq i) \<and> heap_inv (sift_down pq i) \<and> pq_items (sift_down pq i) = pq_items pq
   \<and> psize (sift_down pq i) = psize pq"
proof (induction pq i rule: sift_down.induct)
  case (1 pq i)
  define s where "s = smallest_child pq i"
  have kids: "(j - 1) div 2 = i \<longleftrightarrow> j = 2 * i + 1 \<or> j = 2 * i + 2" if "0 < j" for j using that by presburger
  have lr: "pkey pq s \<le> pkey pq i" "2 * i + 1 < psize pq \<Longrightarrow> pkey pq s \<le> pkey pq (2 * i + 1)"
    "2 * i + 2 < psize pq \<Longrightarrow> pkey pq s \<le> pkey pq (2 * i + 2)"
    by (auto simp: s_def smallest_child_def Let_def pkey_def)
  have min: "pkey pq s \<le> pkey pq c" if c: "0 < c" "c < psize pq" "(c - 1) div 2 = i" for c
  proof -
    consider "c = 2 * i + 1" | "c = 2 * i + 2" using kids[OF c(1)] c(3) by blast
    then show ?thesis using lr(2,3) c(2) by cases simp_all
  qed
  show ?case
  proof (cases "s = i")
    case True
    then have "sift_down pq i = pq" by (subst sift_down.simps) (simp add: s_def)
    moreover have "heap_inv pq" using 1(3) min True by (auto simp: heap_inv_def open_down_def)
    ultimately show ?thesis using 1 by simp
  next
    case False
    have si: "i < s" "s < psize pq" using smallest_child_cases[of pq i] False by (auto simp: s_def)
    have sp: "(s - 1) div 2 = i" using False by (auto simp: s_def smallest_child_def Let_def split: if_splits)
    have i: "i < psize pq" using si by simp
    have dn: "sift_down pq i = sift_down (pq_swap pq i s) s"
      using False by (subst sift_down.simps) (simp add: s_def Let_def)
    note k = pkey_swap[OF 1(2) i si(2)]
    have old: "pkey pq ((j - 1) div 2) \<le> pkey pq j" if "0 < j" "j < psize pq" "(j - 1) div 2 \<noteq> i" for j
      using 1(3) that by (simp add: open_down_def)
    have over: "pkey pq ((i - 1) div 2) \<le> pkey pq c" if "0 < i" "0 < c" "c < psize pq" "(c - 1) div 2 = i" for c
      using 1(3) that by (simp add: open_down_def)
    have "open_down (pq_swap pq i s) s"
      unfolding open_down_def pq_swap_sel
    proof (intro conjI allI impI; elim conjE)
      fix j assume j: "0 < j" "j < psize pq" "(j - 1) div 2 \<noteq> s"
      have pj: "(j - 1) div 2 < psize pq" using j by linarith
      show "pkey (pq_swap pq i s) ((j - 1) div 2) \<le> pkey (pq_swap pq i s) j"
      proof (cases "(j - 1) div 2 = i")
        case True
        then show ?thesis using lr(1) min[OF j(1,2) True] j si by (auto simp: k)
      next
        case False
        then show ?thesis using old[OF j(1,2) False] over[OF _ _ si(2) sp] j pj si sp by (auto simp: k)
      qed
    next
      fix c assume c: "0 < s" "0 < c" "c < psize pq" "(c - 1) div 2 = s"
      then have "c \<noteq> s" "c \<noteq> i" using si by auto
      moreover have "pkey pq s \<le> pkey pq c" using old[OF c(2,3)] c(4) si by auto
      ultimately show "pkey (pq_swap pq i s) ((s - 1) div 2) \<le> pkey (pq_swap pq i s) c"
        using c i si sp by (simp add: k)
    qed
    with 1(1)[OF s_def False] 1(2) i si show ?thesis by (simp add: dn items_swap)
  qed
qed

section \<open>Push and pop\<close>

lemma reserve_pq_spec:
  assumes "pq_inv pq" and "nuwan_pq_reserve al1 al2 pq cap = (pq', ok)"
  shows "pq_inv pq' \<and> pq_items pq' = pq_items pq \<and> psize pq' = psize pq \<and> (ok \<longrightarrow> cap \<le> pcap pq')
    \<and> (ok \<longleftrightarrow> cap \<le> pcap pq \<or> al1 \<noteq> None \<and> al2 \<noteq> None)"
proof (cases "cap \<le> pcap pq \<or> arena_words al1 cap = None \<or> arena_words al2 cap = None")
  case True
  then have "nuwan_pq_reserve al1 al2 pq cap = (pq, cap \<le> pcap pq)"
    by (auto simp: nuwan_pq_reserve_def split: option.splits)
  moreover have "arena_words al cap = None \<longleftrightarrow> al = None" for al by (simp add: arena_words_def)
  ultimately show ?thesis using assms True by auto
next
  case False
  then obtain np nv where a: "arena_words al1 cap = Some np" "arena_words al2 cap = Some nv" by auto
  have l: "length np = cap" "length nv = cap" using a arena_words_length by blast+
  have sh: "psize pq \<le> pcap pq" "length (prios pq) = pcap pq" "length (vals pq) = pcap pq" "0 < pcap pq"
    using assms(1) by (auto simp: pq_inv_def pq_shape_def)
  define p1 where "p1 = (if psize pq \<noteq> 0 then overwrite np 0 (take (psize pq) (prios pq)) else np)"
  define v1 where "v1 = (if psize pq \<noteq> 0 then overwrite nv 0 (take (psize pq) (vals pq)) else nv)"
  have pq': "pq' = pq\<lparr>prios := p1, vals := v1, pcap := cap\<rparr>" "ok"
    using assms(2) a False by (auto simp: nuwan_pq_reserve_def p1_def v1_def)
  have t: "take (psize pq) p1 = take (psize pq) (prios pq)" "take (psize pq) v1 = take (psize pq) (vals pq)"
    "length p1 = cap" "length v1 = cap"
    using sh l False by (auto simp: p1_def v1_def overwrite_def)
  have "pkey pq' j = pkey pq j" if "j < psize pq" for j
    using t(1) that by (metis pkey_def pq'(1) nth_take NuwanPQ.select_convs(1) NuwanPQ.surjective NuwanPQ.update_convs(1,2,4))
  moreover have "(j - 1) div 2 < psize pq" if "j < psize pq" for j using that by linarith
  ultimately have "heap_inv pq'" using assms(1) by (simp add: heap_inv_def pq_inv_def pq'(1))
  moreover have "al1 \<noteq> None" "al2 \<noteq> None" using a by (auto simp: arena_words_def)
  ultimately show ?thesis
    using t sh False by (simp add: pq_inv_def pq_shape_def pq_items_def pq')
qed

lemma push_pq_spec:
  assumes "pq_inv pq" and "nuwan_pq_push al1 al2 pq p v = (pq', ok)"
  shows "pq_inv pq' \<and> pq_items pq' = (if ok then add_mset (p, v) (pq_items pq) else pq_items pq)
    \<and> (ok \<longleftrightarrow> psize pq < pcap pq \<or> al1 \<noteq> None \<and> al2 \<noteq> None)"
proof -
  define r where "r = (if psize pq = pcap pq then nuwan_pq_reserve al1 al2 pq (pcap pq * 2) else (pq, True))"
  obtain q b where rb: "r = (q, b)" by fastforce
  have q: "pq_inv q" "pq_items q = pq_items pq" "psize q = psize pq" "b \<longleftrightarrow> psize pq < pcap pq \<or> al1 \<noteq> None \<and> al2 \<noteq> None"
    "b \<Longrightarrow> psize q < pcap q"
    using assms(1) rb reserve_pq_spec[OF assms(1), of al1 al2 "pcap pq * 2" q b]
    by (auto simp: r_def pq_inv_def pq_shape_def split: if_splits)
  show ?thesis
  proof (cases b)
    case False
    then have "pq' = q \<and> ok = False" using assms(2) rb by (simp add: nuwan_pq_push_def flip: r_def)
    then show ?thesis using q False by simp
  next
    case True
    define n where "n = psize q"
    define w where "w = q\<lparr>psize := n + 1, prios := (prios q)[n := p], vals := (vals q)[n := v]\<rparr>"
    have pq': "pq' = sift_up w n" "ok"
      using assms(2) rb True by (simp_all add: nuwan_pq_push_def Let_def w_def n_def flip: r_def)
    have sh: "pq_shape w" "n < pcap q" "length (prios q) = pcap q" "length (vals q) = pcap q"
      using q(1) q(5)[OF True] by (auto simp: w_def pq_inv_def pq_shape_def n_def)
    have kw: "pkey w j = pkey q j" if "j < n" for j using that by (simp add: pkey_def w_def)
    have "open_up w n"
      unfolding open_up_def
    proof (intro conjI allI impI; elim conjE)
      fix j assume j: "0 < j" "j < psize w" "j \<noteq> n"
      then have "j < n" "(j - 1) div 2 < n" by (auto simp: w_def)
      then show "pkey w ((j - 1) div 2) \<le> pkey w j"
        using q(1) j(1) kw by (simp add: pq_inv_def heap_inv_def n_def)
    next
      fix c assume "0 < c" "c < psize w" "(c - 1) div 2 = n"
      then show "pkey w ((n - 1) div 2) \<le> pkey w c" by (simp add: w_def)
    qed
    from sift_up_correct[OF sh(1) _ this]
    have s: "pq_shape pq'" "heap_inv pq'" "pq_items pq' = pq_items w" by (simp_all add: pq' w_def)
    have "zip (take (Suc n) ((prios q)[n := p])) (take (Suc n) ((vals q)[n := v])) =
        zip (take n (prios q)) (take n (vals q)) @ [(p, v)]"
      using sh by (simp add: take_Suc_conv_app_nth zip_append)
    then have "pq_items w = add_mset (p, v) (pq_items q)"
      by (simp add: pq_items_def w_def flip: n_def)
    then show ?thesis using s q True pq'(2) by (simp add: pq_inv_def)
  qed
qed

lemma heap_root_min:
  assumes "heap_inv pq" and "j < psize pq"
  shows "pkey pq 0 \<le> pkey pq j"
  using assms(2)
proof (induction j rule: less_induct)
  case (less j)
  show ?case
  proof (cases "j = 0")
    case False
    have p: "(j - 1) div 2 < j" "(j - 1) div 2 < psize pq" using False less.prems by linarith+
    have "pkey pq ((j - 1) div 2) \<le> pkey pq j" using assms(1) False less.prems by (simp add: heap_inv_def)
    with less.IH[OF p] show ?thesis by simp
  qed simp
qed

lemma pop_pq_spec:
  assumes inv: "pq_inv pq" and ne: "psize pq \<noteq> 0" and pop: "nuwan_pq_pop pq = (pq', v)"
  shows "pq_inv pq' \<and> pq_items pq = add_mset (nuwan_pq_peek_priority pq, v) (pq_items pq')"
proof -
  obtain n where n: "psize pq = Suc n" using ne by (cases "psize pq") auto
  define w where "w = pq\<lparr>psize := n, prios := (prios pq)[0 := prios pq ! n], vals := (vals pq)[0 := vals pq ! n]\<rparr>"
  have pq': "pq' = sift_down w 0" "v = vals pq ! 0" using pop n by (auto simp: nuwan_pq_pop_def w_def Let_def)
  have sh: "pq_shape w" "length (prios pq) = pcap pq" "length (vals pq) = pcap pq" "Suc n \<le> pcap pq"
    using inv n by (auto simp: pq_inv_def pq_shape_def w_def)
  have kw: "pkey w j = pkey pq j" if "0 < j" for j using that by (simp add: pkey_def w_def)
  have "open_down w 0"
    using inv n kw by (auto simp: open_down_def pq_inv_def heap_inv_def w_def[THEN arg_cong[where f = psize]])
  from sift_down_correct[OF sh(1) this]
  have s: "pq_shape pq'" "heap_inv pq'" "pq_items pq' = pq_items w" by (auto simp: pq' w_def)
  define z where "z = zip (take (Suc n) (prios pq)) (take (Suc n) (vals pq))"
  have lz: "length z = Suc n" "z ! 0 = (prios pq ! 0, v)" "z ! n = (prios pq ! n, vals pq ! n)"
    using sh by (simp_all add: z_def pq'(2))
  have tz: "zip (take n ((prios pq)[0 := prios pq ! n])) (take n ((vals pq)[0 := vals pq ! n])) = (take n z)[0 := z ! n]"
    using sh by (simp add: lz z_def take_zip take_update_swap update_zip min_def)
  have "mset z = add_mset (z ! 0) (mset ((take n z)[0 := z ! n]))"
  proof (cases n)
    case 0
    then show ?thesis using lz(1) by (cases z) auto
  next
    case (Suc m)
    then obtain x xs where z: "z = x # xs" "length xs = Suc m" using lz(1) by (cases z) auto
    then have "xs = take m xs @ [xs ! m]" by (metis lessI take_Suc_conv_app_nth take_all_iff order_refl)
    then have "mset xs = add_mset (xs ! m) (mset (take m xs))" by (metis mset_append mset.simps add_mset_add_single union_commute)
    then show ?thesis using z Suc by simp
  qed
  then show ?thesis
    using s n lz tz by (simp add: pq_inv_def pq_items_def w_def nuwan_pq_peek_priority_def flip: z_def)
qed

interpretation nuwan_pq: priority_queue pq_inv pq_items nuwan_pq_size nuwan_pq_peek_priority nuwan_pq_pop sint
proof unfold_locales
  fix q assume "pq_inv q"
  then show "nuwan_pq_size q = size (pq_items q)"
    by (simp add: nuwan_pq_size_def pq_items_def pq_inv_def pq_shape_def)
next
  fix q q' v assume "pq_inv q" "nuwan_pq_size q \<noteq> 0" "nuwan_pq_pop q = (q', v)"
  then show "pq_inv q' \<and> pq_items q = add_mset (nuwan_pq_peek_priority q, v) (pq_items q')"
    by (intro pop_pq_spec) (simp_all add: nuwan_pq_size_def)
next
  fix q p v assume a: "pq_inv q" "(p, v) \<in># pq_items q"
  then obtain j where j: "j < psize q" "p = prios q ! j"
    by (auto simp: pq_items_def in_set_conv_nth pq_inv_def pq_shape_def)
  with heap_root_min[of q j] a(1) show "sint (nuwan_pq_peek_priority q) \<le> sint p"
    by (simp add: nuwan_pq_peek_priority_def pkey_def pq_inv_def)
qed

text \<open>
  C28: \<^verbatim>\<open>NuwanPQ\<close> is a priority queue.  A push adds its pair, and fails only when the arrays are
  full and the arena is out of memory; popping until the queue is empty delivers every pair that was
  in it exactly once, in ascending signed priority.
\<close>

theorem nuwan_pq_drains_sorted:
  assumes "pq_inv pq" and "nuwan_pq_push al1 al2 pq p v = (pq', ok)"
  shows "(ok \<longleftrightarrow> psize pq < pcap pq \<or> al1 \<noteq> None \<and> al2 \<noteq> None)
    \<and> mset (drain nuwan_pq_size nuwan_pq_peek_priority nuwan_pq_pop (nuwan_pq_size pq') pq')
        = (if ok then add_mset (p, v) (pq_items pq) else pq_items pq)
    \<and> sorted (map (sint \<circ> fst) (drain nuwan_pq_size nuwan_pq_peek_priority nuwan_pq_pop (nuwan_pq_size pq') pq'))"
  using push_pq_spec[OF assms] nuwan_pq.drain_sorts[of pq' "nuwan_pq_size pq'"] by simp

definition demo_pq :: NuwanPQ where
  "demo_pq = \<lparr>prios = [- 2, 5, 3, 0], vals = [20, 50, 30, 0], psize = 3, pcap = 4\<rparr>"

theorem nuwan_pq_drains_sorted_witness:
  "drain nuwan_pq_size nuwan_pq_peek_priority nuwan_pq_pop 4 (fst (nuwan_pq_push None None demo_pq (- 7) 70))
     = [(- 7, 70), (- 2, 20), (3, 30), (5, 50)]
   \<and> sorted (map (sint \<circ> fst)
       (drain nuwan_pq_size nuwan_pq_peek_priority nuwan_pq_pop 4 (fst (nuwan_pq_push None None demo_pq (- 7) 70))))"
proof -
  have k: "pkey demo_pq 0 \<le> pkey demo_pq 1" "pkey demo_pq 0 \<le> pkey demo_pq 2"
    by (simp_all add: pkey_def demo_pq_def)
  have "heap_inv demo_pq"
    unfolding heap_inv_def
  proof (intro allI impI)
    fix j assume "0 < j \<and> j < psize demo_pq"
    then have "j = 1 \<or> j = 2" by (auto simp: demo_pq_def)
    then show "pkey demo_pq ((j - 1) div 2) \<le> pkey demo_pq j" using k by auto
  qed
  then have "pq_inv demo_pq" by (simp add: pq_inv_def pq_shape_def demo_pq_def)
  moreover obtain pq' ok where p: "nuwan_pq_push None None demo_pq (- 7) 70 = (pq', ok)" by fastforce
  moreover have "nuwan_pq_size (fst (nuwan_pq_push None None demo_pq (- 7) 70)) = 4" by code_simp
  ultimately have "sorted (map (sint \<circ> fst) (drain nuwan_pq_size nuwan_pq_peek_priority nuwan_pq_pop 4 pq'))"
    using nuwan_pq_drains_sorted[of demo_pq None None "- 7" 70 pq' ok] by simp
  moreover have "drain nuwan_pq_size nuwan_pq_peek_priority nuwan_pq_pop 4 (fst (nuwan_pq_push None None demo_pq (- 7) 70))
     = [(- 7, 70), (- 2, 20), (3, 30), (5, 50)]" by code_simp
  ultimately show ?thesis using p by simp
qed

end
