(* ===== verification/Coll_Map.thy ===== *)
theory Coll_Map
  imports Fifo String_Map
begin

text \<open>
  \<^verbatim>\<open>NuwanMap\<close> of \<^verbatim>\<open>runtime/stdlib/collections.c\<close>: a Robin Hood hash table from strings to
  64-bit values, with linear probing and the FNV-1a hash of \<^verbatim>\<open>runtime/stdlib/string_ops.c\<close>.
  Receivers and keys are non-null and the copy of a key in the arena succeeds (the code does not check
  it).  The allocation of a slot array is an argument: \<open>None\<close> when the arena is out of memory,
  otherwise the arbitrary entries of the fresh memory.  A probe loop that would not end is the result
  \<open>None\<close>; sizes and distances are natural numbers.
\<close>

section \<open>The table\<close>

definition nuwan_string_hash :: "string \<Rightarrow> u64" where
  "nuwan_string_hash s = foldl (\<lambda>h c. (h XOR of_char c) * 1099511628211) 14695981039346656037 s"

definition MAP_INIT_CAP :: nat where "MAP_INIT_CAP = 16"
definition MAP_LOAD_NUM :: nat where "MAP_LOAD_NUM = 7"
definition MAP_LOAD_DEN :: nat where "MAP_LOAD_DEN = 8"
definition MAP_EMPTY :: u64 where "MAP_EMPTY = - 1"

record MapEntry =
  mkey :: "string option"
  mval :: u64
  mhash :: u64
  mdib :: nat

record NuwanMap =
  slots :: "MapEntry list"
  msize :: nat
  mcap :: nat

type_synonym slot_mem = "(nat \<Rightarrow> MapEntry) option"

text \<open>Allocation of \<open>n\<close> slots followed by the loop that marks them empty.\<close>

definition empty_slots :: "slot_mem \<Rightarrow> nat \<Rightarrow> MapEntry list option" where
  "empty_slots al n = map_option (\<lambda>junk. map (\<lambda>i. (junk i)\<lparr>mhash := MAP_EMPTY\<rparr>) [0..<n]) al"

definition nuwan_map_new :: "bool \<Rightarrow> slot_mem \<Rightarrow> NuwanMap option" where
  "nuwan_map_new ok al =
     (if \<not> ok then None
      else map_option (\<lambda>sl. \<lparr>slots = sl, msize = 0, mcap = MAP_INIT_CAP\<rparr>) (empty_slots al MAP_INIT_CAP))"

text \<open>The loop of \<^verbatim>\<open>map_insert_raw\<close> at slot \<open>idx\<close> with the entry in hand.\<close>

partial_function (option) insert_loop ::
    "MapEntry list \<Rightarrow> nat \<Rightarrow> string option \<Rightarrow> u64 \<Rightarrow> u64 \<Rightarrow> nat \<Rightarrow> nat \<Rightarrow> (MapEntry list \<times> bool) option" where
  "insert_loop sl cap key v h idx cdib =
     (if mhash (sl ! idx) = MAP_EMPTY
      then Some (sl[idx := \<lparr>mkey = key, mval = v, mhash = h, mdib = cdib\<rparr>], True)
      else if mhash (sl ! idx) = h \<and> mkey (sl ! idx) = key
      then Some (sl[idx := (sl ! idx)\<lparr>mval := v\<rparr>], False)
      else if mdib (sl ! idx) < cdib
      then insert_loop (sl[idx := \<lparr>mkey = key, mval = v, mhash = h, mdib = cdib\<rparr>]) cap
             (mkey (sl ! idx)) (mval (sl ! idx)) (mhash (sl ! idx)) ((idx + 1) mod cap) (mdib (sl ! idx) + 1)
      else insert_loop sl cap key v h ((idx + 1) mod cap) (cdib + 1))"

definition map_insert_raw ::
    "MapEntry list \<Rightarrow> nat \<Rightarrow> string option \<Rightarrow> u64 \<Rightarrow> u64 \<Rightarrow> (MapEntry list \<times> bool) option" where
  "map_insert_raw sl cap key v h = insert_loop sl cap key v h (unat h mod cap) 0"

text \<open>The loop that moves the live entries into a new array.\<close>

fun reinsert :: "MapEntry list \<Rightarrow> nat \<Rightarrow> MapEntry list \<Rightarrow> MapEntry list option" where
  "reinsert ns nc [] = Some ns"
| "reinsert ns nc (e # es) =
     (if mhash e \<noteq> MAP_EMPTY
      then Option.bind (map_insert_raw ns nc (mkey e) (mval e) (mhash e)) (\<lambda>(ns', _). reinsert ns' nc es)
      else reinsert ns nc es)"

definition map_grow :: "slot_mem \<Rightarrow> NuwanMap \<Rightarrow> NuwanMap option" where
  "map_grow al m =
     (let nc = mcap m * 2
      in case empty_slots al nc of
           None \<Rightarrow> Some m
         | Some ns \<Rightarrow> map_option (\<lambda>sl. m\<lparr>slots := sl, mcap := nc\<rparr>) (reinsert ns nc (slots m)))"

text \<open>The loop that doubles \<^verbatim>\<open>target_cap\<close>, which starts at \<^verbatim>\<open>MAP_INIT_CAP\<close>.\<close>

function target_cap :: "nat \<Rightarrow> nat \<Rightarrow> nat" where
  "target_cap expected t =
     (if 0 < t \<and> expected * MAP_LOAD_DEN \<ge> t * MAP_LOAD_NUM then target_cap expected (t * 2) else t)"
  by pat_completeness auto
termination by (relation "measure (\<lambda>(e, t). e * MAP_LOAD_DEN + 1 - t * MAP_LOAD_NUM)")
    (auto simp: MAP_LOAD_NUM_def MAP_LOAD_DEN_def)

definition nuwan_map_reserve :: "slot_mem \<Rightarrow> NuwanMap \<Rightarrow> nat \<Rightarrow> NuwanMap option" where
  "nuwan_map_reserve al m expected =
     (let t = target_cap expected MAP_INIT_CAP
      in if t > mcap m
         then (case empty_slots al t of
                 None \<Rightarrow> Some m
               | Some ns \<Rightarrow> map_option (\<lambda>sl. m\<lparr>slots := sl, mcap := t\<rparr>) (reinsert ns t (slots m)))
         else Some m)"

definition nuwan_map_put :: "slot_mem \<Rightarrow> NuwanMap \<Rightarrow> string \<Rightarrow> u64 \<Rightarrow> NuwanMap option" where
  "nuwan_map_put al m key v =
     Option.bind (if msize m * MAP_LOAD_DEN \<ge> mcap m * MAP_LOAD_NUM then map_grow al m else Some m) (\<lambda>m1.
       map_option (\<lambda>(sl, new). m1\<lparr>slots := sl, msize := (if new then msize m1 + 1 else msize m1)\<rparr>)
         (map_insert_raw (slots m1) (mcap m1) (Some key) v (nuwan_string_hash key)))"

text \<open>
  The probe loop that \<^verbatim>\<open>nuwan_map_get\<close>, \<^verbatim>\<open>nuwan_map_has\<close> and \<^verbatim>\<open>nuwan_map_remove\<close>
  share: the slot of the key, or none.
\<close>

partial_function (option) probe_loop :: "MapEntry list \<Rightarrow> nat \<Rightarrow> string \<Rightarrow> u64 \<Rightarrow> nat \<Rightarrow> nat option option" where
  "probe_loop sl cap key h idx =
     (if mhash (sl ! idx) = MAP_EMPTY then Some None
      else if mhash (sl ! idx) = h \<and> mkey (sl ! idx) = Some key then Some (Some idx)
      else probe_loop sl cap key h ((idx + 1) mod cap))"

definition map_probe :: "NuwanMap \<Rightarrow> string \<Rightarrow> nat option option" where
  "map_probe m key =
     (let h = nuwan_string_hash key in probe_loop (slots m) (mcap m) key h (unat h mod mcap m))"

definition nuwan_map_get :: "NuwanMap \<Rightarrow> string \<Rightarrow> u64 option" where
  "nuwan_map_get m key =
     map_option (\<lambda>r. case r of None \<Rightarrow> 0 | Some idx \<Rightarrow> mval (slots m ! idx)) (map_probe m key)"

definition nuwan_map_has :: "NuwanMap \<Rightarrow> string \<Rightarrow> bool option" where
  "nuwan_map_has m key = map_option (\<lambda>r. r \<noteq> None) (map_probe m key)"

definition nuwan_map_remove :: "NuwanMap \<Rightarrow> string \<Rightarrow> (NuwanMap \<times> bool) option" where
  "nuwan_map_remove m key =
     map_option (\<lambda>r. case r of
        None \<Rightarrow> (m, False)
      | Some idx \<Rightarrow>
          (m\<lparr>slots := (slots m)[idx := (slots m ! idx)\<lparr>mhash := MAP_EMPTY, mkey := None\<rparr>],
             msize := msize m - 1\<rparr>, True)) (map_probe m key)"

definition nuwan_map_size :: "NuwanMap \<Rightarrow> nat" where
  "nuwan_map_size m = msize m"

definition nuwan_map_empty :: "NuwanMap \<Rightarrow> bool" where
  "nuwan_map_empty m \<longleftrightarrow> msize m = 0"

definition nuwan_map_clear :: "NuwanMap \<Rightarrow> NuwanMap" where
  "nuwan_map_clear m =
     m\<lparr>slots := map (\<lambda>e. e\<lparr>mhash := MAP_EMPTY, mkey := None\<rparr>) (slots m), msize := 0\<rparr>"

section \<open>The Robin Hood invariant\<close>

definition live :: "MapEntry \<Rightarrow> bool" where
  "live e \<longleftrightarrow> mhash e \<noteq> MAP_EMPTY"

definition ppos :: "nat \<Rightarrow> u64 \<Rightarrow> nat \<Rightarrow> nat" where
  "ppos cap h j = (unat h + j) mod cap"

text \<open>
  The probe path of an entry at distance \<open>d\<close> from its home slot: every slot it passed is live and no
  closer to its own home.
\<close>

definition path_ok :: "MapEntry list \<Rightarrow> nat \<Rightarrow> u64 \<Rightarrow> nat \<Rightarrow> bool" where
  "path_ok sl cap h d \<longleftrightarrow> (\<forall>j < d. live (sl ! ppos cap h j) \<and> j \<le> mdib (sl ! ppos cap h j))"

definition entry_ok :: "MapEntry list \<Rightarrow> nat \<Rightarrow> nat \<Rightarrow> bool" where
  "entry_ok sl cap p \<longleftrightarrow> mdib (sl ! p) < cap \<and> p = ppos cap (mhash (sl ! p)) (mdib (sl ! p))
     \<and> path_ok sl cap (mhash (sl ! p)) (mdib (sl ! p))
     \<and> (\<exists>k. mkey (sl ! p) = Some k \<and> mhash (sl ! p) = nuwan_string_hash k)"

definition rh_inv :: "MapEntry list \<Rightarrow> nat \<Rightarrow> bool" where
  "rh_inv sl cap \<longleftrightarrow> length sl = cap \<and> 0 < cap
     \<and> (\<forall>p < cap. live (sl ! p) \<longrightarrow> entry_ok sl cap p)
     \<and> (\<forall>p < cap. \<forall>q < cap. live (sl ! p) \<and> live (sl ! q) \<and> mkey (sl ! p) = mkey (sl ! q) \<longrightarrow> p = q)"

definition holds :: "MapEntry list \<Rightarrow> string \<Rightarrow> u64 \<Rightarrow> bool" where
  "holds sl k v \<longleftrightarrow> (\<exists>p < length sl. live (sl ! p) \<and> mkey (sl ! p) = Some k \<and> mval (sl ! p) = v)"

definition absent :: "MapEntry list \<Rightarrow> string \<Rightarrow> bool" where
  "absent sl k \<longleftrightarrow> (\<forall>p < length sl. live (sl ! p) \<longrightarrow> mkey (sl ! p) \<noteq> Some k)"

definition live_count :: "MapEntry list \<Rightarrow> nat" where
  "live_count sl = length (filter live sl)"

lemma ppos_less [simp]: "0 < cap \<Longrightarrow> ppos cap h j < cap"
  by (simp add: ppos_def)

lemma ppos_Suc: "(ppos cap h j + 1) mod cap = ppos cap h (Suc j)"
  by (simp add: ppos_def mod_Suc_eq)

lemma ppos_surj:
  assumes "p < cap"
  shows "\<exists>j < cap. ppos cap h j = p"
proof -
  define j where "j = (p + (cap - unat h mod cap)) mod cap"
  have pos: "0 < cap" using assms by linarith
  have hm: "unat h mod cap < cap" using pos by simp
  have "(unat h + j) mod cap = (unat h mod cap + (p + (cap - unat h mod cap))) mod cap"
    by (simp add: j_def mod_simps)
  also have "unat h mod cap + (p + (cap - unat h mod cap)) = p + cap" using hm by simp
  finally have "ppos cap h j = p" using assms by (simp add: ppos_def)
  moreover have "j < cap" using pos by (simp add: j_def)
  ultimately show ?thesis by blast
qed

lemma path_short:
  assumes "path_ok sl cap h c" and "p < cap" and "\<not> live (sl ! p)"
  shows "c < cap"
proof (rule ccontr)
  assume "\<not> c < cap"
  obtain j where "j < cap" "ppos cap h j = p" using ppos_surj[OF assms(2)] by blast
  with assms \<open>\<not> c < cap\<close> show False by (auto simp: path_ok_def)
qed

text \<open>Replacing a slot by a live entry that is no closer to its home keeps every probe path.\<close>

lemma path_update:
  assumes "path_ok sl cap h d" and "live e" and "idx < length sl"
    and "\<not> live (sl ! idx) \<or> mdib (sl ! idx) \<le> mdib e"
  shows "path_ok (sl[idx := e]) cap h d"
  unfolding path_ok_def
proof (intro allI impI)
  fix j assume j: "j < d"
  show "live (sl[idx := e] ! ppos cap h j) \<and> j \<le> mdib (sl[idx := e] ! ppos cap h j)"
    using assms j by (cases "ppos cap h j = idx") (auto simp: path_ok_def)
qed

lemma rh_insert_entry:
  assumes inv: "rh_inv sl cap" and idx: "idx < cap" and e: "live e"
    and old: "\<not> live (sl ! idx) \<or> mdib (sl ! idx) \<le> mdib e"
    and pos: "idx = ppos cap (mhash e) (mdib e)" and d: "mdib e < cap"
    and path: "path_ok sl cap (mhash e) (mdib e)"
    and key: "mkey e = Some k" "mhash e = nuwan_string_hash k" "absent sl k"
  shows "rh_inv (sl[idx := e]) cap"
proof -
  have len: "length sl = cap" "0 < cap" and ent: "\<And>p. p < cap \<Longrightarrow> live (sl ! p) \<Longrightarrow> entry_ok sl cap p"
    and dist: "\<And>p q. p < cap \<Longrightarrow> q < cap \<Longrightarrow> live (sl ! p) \<Longrightarrow> live (sl ! q) \<Longrightarrow> mkey (sl ! p) = mkey (sl ! q) \<Longrightarrow> p = q"
    using inv by (auto simp: rh_inv_def)
  note pu = path_update[OF _ e _ old, of _ _ ]
  have "entry_ok (sl[idx := e]) cap p" if "p < cap" "live (sl[idx := e] ! p)" for p
  proof (cases "p = idx")
    case True
    then show ?thesis
      using pos d key(1,2) pu[OF path] len idx by (simp add: entry_ok_def)
  next
    case False
    then have "entry_ok sl cap p" using ent that by simp
    then show ?thesis using False pu len idx by (auto simp: entry_ok_def)
  qed
  moreover have "p = q" if "p < cap" "q < cap" "live (sl[idx := e] ! p)" "live (sl[idx := e] ! q)"
      "mkey (sl[idx := e] ! p) = mkey (sl[idx := e] ! q)" for p q
    using that dist[of p q] key(1,3) len idx
    by (cases "p = idx"; cases "q = idx") (auto simp: absent_def)
  ultimately show ?thesis using len by (auto simp: rh_inv_def)
qed

lemma holds_update_new:
  assumes "idx < length sl" and "live e" and "mkey e = Some k" and "mval e = v" and "\<not> live (sl ! idx)"
  shows "holds (sl[idx := e]) k' v' \<longleftrightarrow> holds sl k' v' \<or> k' = k \<and> v' = v"
  using assms unfolding holds_def
  by (auto simp: nth_list_update)

lemma holds_unique:
  assumes "rh_inv sl cap" and "p < cap" and "live (sl ! p)" and "mkey (sl ! p) = Some k"
  shows "holds sl k v \<longleftrightarrow> v = mval (sl ! p)"
proof
  assume "holds sl k v"
  then obtain q where "q < cap" "live (sl ! q)" "mkey (sl ! q) = Some k" "mval (sl ! q) = v"
    using assms(1) by (auto simp: holds_def rh_inv_def)
  moreover from this have "q = p" using assms by (auto simp: rh_inv_def)
  ultimately show "v = mval (sl ! p)" by simp
next
  assume "v = mval (sl ! p)"
  then show "holds sl k v" using assms unfolding holds_def rh_inv_def by blast
qed

text \<open>Displacing an entry: the table holds the new pair instead of the displaced one.\<close>

lemma holds_update_swap:
  assumes "rh_inv sl cap" and "idx < cap" and "live e" and "mkey e = Some k" and "live (sl ! idx)"
    and "mkey (sl ! idx) = Some k0" and "absent sl k"
  shows "holds (sl[idx := e]) k' v' \<longleftrightarrow> k' = k \<and> v' = mval e \<or> k' \<noteq> k0 \<and> holds sl k' v'"
    and "absent (sl[idx := e]) k0"
proof -
  have len: "length sl = cap"
    and dist: "\<And>p. p < cap \<Longrightarrow> live (sl ! p) \<Longrightarrow> mkey (sl ! p) = Some k0 \<Longrightarrow> p = idx"
    using assms by (auto simp: rh_inv_def)
  have ne: "k \<noteq> k0" using assms len by (auto simp: absent_def)
  show "absent (sl[idx := e]) k0"
    using dist ne assms(2,4) len by (auto simp: absent_def nth_list_update)
  show "holds (sl[idx := e]) k' v' \<longleftrightarrow> k' = k \<and> v' = mval e \<or> k' \<noteq> k0 \<and> holds sl k' v'" (is "?L \<longleftrightarrow> ?R")
  proof
    assume ?L
    then obtain p where p: "p < cap" "live (sl[idx := e] ! p)" "mkey (sl[idx := e] ! p) = Some k'" "mval (sl[idx := e] ! p) = v'"
      using len by (auto simp: holds_def)
    then show ?R using dist assms(2,4) len by (cases "p = idx") (auto simp: holds_def)
  next
    assume ?R
    then show ?L
    proof
      assume "k' = k \<and> v' = mval e"
      then show ?L using assms(2,3,4) len by (auto simp: holds_def intro!: exI[of _ idx])
    next
      assume r: "k' \<noteq> k0 \<and> holds sl k' v'"
      then obtain p where p: "p < cap" "live (sl ! p)" "mkey (sl ! p) = Some k'" "mval (sl ! p) = v'"
        using len by (auto simp: holds_def)
      then have "p \<noteq> idx" using r assms(6) by auto
      with p show ?L using len by (auto simp: holds_def intro!: exI[of _ p])
    qed
  qed
qed

lemma live_count_split:
  assumes "idx < length sl"
  shows "live_count sl = live_count (take idx sl) + (if live (sl ! idx) then 1 else 0) + live_count (drop (Suc idx) sl)"
  by (subst id_take_nth_drop[OF assms]) (simp add: live_count_def)

lemma live_count_update:
  assumes "idx < length sl"
  shows "live_count (sl[idx := e]) + (if live (sl ! idx) then 1 else 0) = live_count sl + (if live e then 1 else 0)"
  using live_count_split[of idx sl] live_count_split[of idx "sl[idx := e]"] assms by simp

section \<open>Insertion\<close>

text \<open>Putting the entry in hand into an empty slot.\<close>

lemma insert_free:
  assumes inv: "rh_inv sl cap" and idx: "idx = ppos cap h c" and path: "path_ok sl cap h c"
    and h: "h = nuwan_string_hash k" "h \<noteq> MAP_EMPTY" and new: "absent sl k" and free: "\<not> live (sl ! idx)"
  shows "\<exists>sl'. insert_loop sl cap (Some k) v h idx c = Some (sl', True) \<and> rh_inv sl' cap
     \<and> (\<forall>k' v'. holds sl' k' v' \<longleftrightarrow> holds sl k' v' \<or> k' = k \<and> v' = v)
     \<and> live_count sl' = Suc (live_count sl)"
proof -
  have cap: "0 < cap" "length sl = cap" using inv by (auto simp: rh_inv_def)
  then have lt: "idx < cap" by (simp add: idx)
  define e where "e = \<lparr>mkey = Some k, mval = v, mhash = h, mdib = c\<rparr>"
  have e: "live e" "mkey e = Some k" "mval e = v" "mhash e = h" "mdib e = c" using h(2) by (simp_all add: e_def live_def)
  have "c < cap" by (rule path_short[OF path lt free])
  then have r: "rh_inv (sl[idx := e]) cap"
    using rh_insert_entry[OF inv lt e(1) _ _ _ _ e(2) _ new] free idx path h(1) e(4,5) by simp
  have l: "insert_loop sl cap (Some k) v h idx c = Some (sl[idx := e], True)"
    using free by (subst insert_loop.simps) (simp add: live_def e_def)
  have "live_count (sl[idx := e]) = Suc (live_count sl)"
    using live_count_update[of idx sl e] cap lt e(1) free by simp
  then show ?thesis using l r holds_update_new[OF _ e(1,2,3) free] cap lt by auto
qed

text \<open>
  The entry in hand has walked from its home slot along a good path, its key is not in the table, and
  an empty slot lies \<open>n\<close> steps ahead.
\<close>

lemma insert_absent:
  "rh_inv sl cap \<Longrightarrow> idx = ppos cap h c \<Longrightarrow> path_ok sl cap h c \<Longrightarrow> h = nuwan_string_hash k \<Longrightarrow> h \<noteq> MAP_EMPTY \<Longrightarrow>
   absent sl k \<Longrightarrow> \<not> live (sl ! ((idx + n) mod cap)) \<Longrightarrow>
   \<exists>sl'. insert_loop sl cap (Some k) v h idx c = Some (sl', True) \<and> rh_inv sl' cap
     \<and> (\<forall>k' v'. holds sl' k' v' \<longleftrightarrow> holds sl k' v' \<or> k' = k \<and> v' = v)
     \<and> live_count sl' = Suc (live_count sl)"
proof (induction n arbitrary: sl idx h c k v)
  case (0 sl idx h c k v)
  then have "\<not> live (sl ! idx)" by (simp add: rh_inv_def)
  then show ?case by (rule insert_free[OF 0(1-6)])
next
  case (Suc n sl idx h c k v)
  have cap: "0 < cap" "length sl = cap" using Suc(2) by (auto simp: rh_inv_def)
  then have idx: "idx < cap" using Suc(3) by simp
  define e where "e = \<lparr>mkey = Some k, mval = v, mhash = h, mdib = c\<rparr>"
  have e: "live e" "mkey e = Some k" "mval e = v" "mhash e = h" "mdib e = c" using Suc(6) by (simp_all add: e_def live_def)
  show ?case
  proof (cases "live (sl ! idx)")
    case False
    then show ?thesis by (rule insert_free[OF Suc(2-7)])
  next
    case True
    let ?t = "sl ! idx" and ?idx = "(idx + 1) mod cap"
    have ne: "mkey ?t \<noteq> Some k" using Suc(7) True cap idx by (simp add: absent_def)
    have nxt: "?idx = ppos cap h (Suc c)" using Suc(3) ppos_Suc by simp
    have far: "(?idx + n) mod cap = (idx + Suc n) mod cap" by (simp add: mod_simps)
    show ?thesis
    proof (cases "mdib ?t < c")
      case False
      have l: "insert_loop sl cap (Some k) v h idx c = insert_loop sl cap (Some k) v h ?idx (Suc c)"
        using True ne False by (subst insert_loop.simps) (simp add: live_def)
      have "path_ok sl cap h (Suc c)"
        using Suc(3,4) True False by (auto simp: path_ok_def less_Suc_eq)
      from Suc.IH[OF Suc(2) nxt this Suc(5,6,7)] Suc(8) far l show ?thesis by simp
    next
      case d: True
      have t: "entry_ok sl cap idx" using Suc(2) idx True by (simp add: rh_inv_def)
      then obtain k0 where k0: "mkey ?t = Some k0" "mhash ?t = nuwan_string_hash k0" by (auto simp: entry_ok_def)
      obtain q where "q < cap" "\<not> live (sl ! q)" using Suc(8) cap(1) by (metis mod_less_divisor)
      then have c: "c < cap" using path_short[OF Suc(4)] by blast
      define sl2 where "sl2 = sl[idx := e]"
      have r2: "rh_inv sl2 cap"
        unfolding sl2_def
        using rh_insert_entry[OF Suc(2) idx e(1) _ _ _ _ e(2) _ Suc(7)] Suc(3,4,5) d e(4,5) c by simp
      have pt: "path_ok sl2 cap (mhash ?t) (mdib ?t)"
        unfolding sl2_def by (rule path_update[OF _ e(1)]) (use t d e(5) cap idx in \<open>auto simp: entry_ok_def\<close>)
      have home: "ppos cap (mhash ?t) (mdib ?t) = idx" using t by (simp add: entry_ok_def)
      have p2: "path_ok sl2 cap (mhash ?t) (Suc (mdib ?t))"
        using pt home d e(1,5) cap idx by (auto simp: path_ok_def less_Suc_eq sl2_def)
      have l: "insert_loop sl cap (Some k) v h idx c =
          insert_loop sl2 cap (Some k0) (mval ?t) (mhash ?t) ?idx (Suc (mdib ?t))"
        using True ne d k0 by (subst insert_loop.simps) (simp add: live_def sl2_def e_def)
      have nxt2: "?idx = ppos cap (mhash ?t) (Suc (mdib ?t))" using ppos_Suc[of cap "mhash ?t" "mdib ?t"] home by simp
      note sw = holds_update_swap[OF Suc(2) idx e(1,2) True k0(1) Suc(7)]
      have "(idx + Suc n) mod cap \<noteq> idx"
      proof
        assume a: "(idx + Suc n) mod cap = idx"
        from Suc(8)[unfolded a] True show False by contradiction
      qed
      then have "sl2 ! ((idx + Suc n) mod cap) = sl ! ((idx + Suc n) mod cap)"
        unfolding sl2_def by (intro nth_list_update_neq) simp
      with Suc(8) have "\<not> live (sl2 ! ((?idx + n) mod cap))" unfolding far by simp
      from Suc.IH[OF r2 nxt2 p2 k0(2) _ sw(2)[folded sl2_def] this, of "mval ?t"]
      obtain sl' where sl': "insert_loop sl2 cap (Some k0) (mval ?t) (mhash ?t) ?idx (Suc (mdib ?t)) = Some (sl', True)"
        "rh_inv sl' cap" "\<And>k' v'. holds sl' k' v' \<longleftrightarrow> holds sl2 k' v' \<or> k' = k0 \<and> v' = mval ?t"
        "live_count sl' = Suc (live_count sl2)"
        using True[unfolded live_def] by blast
      have "holds sl' k' v' \<longleftrightarrow> holds sl k' v' \<or> k' = k \<and> v' = v" for k' v'
        using sl'(3)[of k' v'] sw(1)[folded sl2_def, of k' v'] e(3) holds_unique[OF Suc(2) idx True k0(1), of v'] by auto
      moreover have "live_count sl2 = live_count sl"
        using live_count_update[of idx sl e] cap idx e(1) True by (simp add: sl2_def)
      ultimately show ?thesis using l sl'(1,2,4) by (intro exI[of _ sl']) simp
    qed
  qed
qed

lemma insert_present:
  assumes inv: "rh_inv sl cap" and p: "p < cap" "live (sl ! p)" "mkey (sl ! p) = Some k"
    and c: "c \<le> mdib (sl ! p)"
  shows "insert_loop sl cap (Some k) v (nuwan_string_hash k) (ppos cap (nuwan_string_hash k) c) c =
    Some (sl[p := (sl ! p)\<lparr>mval := v\<rparr>], False)"
  using c
proof (induction "mdib (sl ! p) - c" arbitrary: c)
  case 0
  have t: "entry_ok sl cap p" using inv p by (simp add: rh_inv_def)
  then have h: "mhash (sl ! p) = nuwan_string_hash k" using p(3) by (auto simp: entry_ok_def)
  have "ppos cap (nuwan_string_hash k) c = p" using t h 0 by (simp add: entry_ok_def)
  then show ?case using p h by (subst insert_loop.simps) (simp add: live_def)
next
  case (Suc n)
  have t: "entry_ok sl cap p" using inv p by (simp add: rh_inv_def)
  then have h: "mhash (sl ! p) = nuwan_string_hash k" using p(3) by (auto simp: entry_ok_def)
  define q where "q = ppos cap (nuwan_string_hash k) c"
  have cd: "c < mdib (sl ! p)" using Suc by simp
  then have q: "live (sl ! q)" "c \<le> mdib (sl ! q)" using t h by (auto simp: entry_ok_def path_ok_def q_def)
  have "mkey (sl ! q) \<noteq> Some k"
  proof
    assume k: "mkey (sl ! q) = Some k"
    have "q < cap" using inv by (simp add: q_def rh_inv_def)
    then have "q = p" using inv p q k by (auto simp: rh_inv_def)
    moreover have "(unat (nuwan_string_hash k) + c) mod cap \<noteq> (unat (nuwan_string_hash k) + mdib (sl ! p)) mod cap"
      using mod_window_inj[of "unat (nuwan_string_hash k)" c cap "mdib (sl ! p)"] cd t by (auto simp: entry_ok_def)
    ultimately show False using t h by (simp add: q_def entry_ok_def ppos_def)
  qed
  then have "insert_loop sl cap (Some k) v (nuwan_string_hash k) q c =
      insert_loop sl cap (Some k) v (nuwan_string_hash k) ((q + 1) mod cap) (Suc c)"
    using q by (subst insert_loop.simps) (simp add: live_def)
  moreover have "(q + 1) mod cap = ppos cap (nuwan_string_hash k) (Suc c)" unfolding q_def by (rule ppos_Suc)
  ultimately show ?case using Suc(1)[of "Suc c"] Suc(2) cd by (simp add: q_def)
qed

lemma update_value_inv:
  fixes v :: u64
  assumes inv: "rh_inv sl cap" and p: "p < cap" "live (sl ! p)" "mkey (sl ! p) = Some k"
  defines "sl' \<equiv> sl[p := (sl ! p)\<lparr>mval := v\<rparr>]"
  shows "rh_inv sl' cap" and "holds sl' k' v' \<longleftrightarrow> k' = k \<and> v' = v \<or> k' \<noteq> k \<and> holds sl k' v'"
    and "live_count sl' = live_count sl"
proof -
  have len: "length sl = cap" using inv by (simp add: rh_inv_def)
  have s: "mhash (sl' ! q) = mhash (sl ! q)" "mdib (sl' ! q) = mdib (sl ! q)" "mkey (sl' ! q) = mkey (sl ! q)" for q
    using p(1) len by (cases "q = p"; simp add: sl'_def)+
  have "entry_ok sl' cap q = entry_ok sl cap q" for q by (simp add: entry_ok_def path_ok_def live_def s)
  moreover have "length sl' = length sl" by (simp add: sl'_def)
  ultimately show "rh_inv sl' cap" using inv by (simp add: rh_inv_def live_def s)
  show "live_count sl' = live_count sl"
    using live_count_update[of p sl "(sl ! p)\<lparr>mval := v\<rparr>"] p len by (simp add: sl'_def live_def)
  have u: "q = p" if "q < cap" "live (sl ! q)" "mkey (sl ! q) = Some k" for q
    using inv p that by (auto simp: rh_inv_def)
  have v: "mval (sl' ! q) = (if q = p then v else mval (sl ! q))" for q using p(1) len by (simp add: sl'_def)
  have l: "live (sl' ! q) = live (sl ! q)" for q by (simp add: live_def s)
  have len': "length sl' = cap" using len by (simp add: sl'_def)
  show "holds sl' k' v' \<longleftrightarrow> k' = k \<and> v' = v \<or> k' \<noteq> k \<and> holds sl k' v'"
    proof
    assume "holds sl' k' v'"
    then obtain q where q: "q < cap" "live (sl ! q)" "mkey (sl ! q) = Some k'" "(if q = p then v else mval (sl ! q)) = v'"
      by (auto simp: holds_def s v l len')
    then show "k' = k \<and> v' = v \<or> k' \<noteq> k \<and> holds sl k' v'"
    proof (cases "q = p")
      case True
      then show ?thesis using q(3,4) p(3) by simp
    next
      case False
      then have "k' \<noteq> k" using u[of q] q(1-3) by auto
      with False q len show ?thesis by (auto simp: holds_def)
    qed
  next
    assume r: "k' = k \<and> v' = v \<or> k' \<noteq> k \<and> holds sl k' v'"
    show "holds sl' k' v'"
    proof (cases "k' = k")
      case True
      then show ?thesis using r p by (auto simp: holds_def s v l len' intro!: exI[of _ p])
    next
      case False
      then obtain q where q: "q < cap" "live (sl ! q)" "mkey (sl ! q) = Some k'" "mval (sl ! q) = v'"
        using r len by (auto simp: holds_def)
      then have "q \<noteq> p" using False p(3) by auto
      then show ?thesis using q by (auto simp: holds_def s v l len' intro!: exI[of _ q])
    qed
  qed
qed

section \<open>Probing\<close>

lemma probe_present:
  assumes inv: "rh_inv sl cap" and p: "p < cap" "live (sl ! p)" "mkey (sl ! p) = Some k"
    and c: "c \<le> mdib (sl ! p)"
  shows "probe_loop sl cap k (nuwan_string_hash k) (ppos cap (nuwan_string_hash k) c) = Some (Some p)"
  using c
proof (induction "mdib (sl ! p) - c" arbitrary: c)
  case 0
  have t: "entry_ok sl cap p" using inv p by (simp add: rh_inv_def)
  then have h: "mhash (sl ! p) = nuwan_string_hash k" using p(3) by (auto simp: entry_ok_def)
  have "ppos cap (nuwan_string_hash k) c = p" using t h 0 by (simp add: entry_ok_def)
  then show ?case using p h by (subst probe_loop.simps) (simp add: live_def)
next
  case (Suc n)
  define q where "q = ppos cap (nuwan_string_hash k) c"
  have t: "entry_ok sl cap p" using inv p by (simp add: rh_inv_def)
  then have h: "mhash (sl ! p) = nuwan_string_hash k" using p(3) by (auto simp: entry_ok_def)
  have cd: "c < mdib (sl ! p)" using Suc by simp
  then have q: "live (sl ! q)" using t h by (auto simp: entry_ok_def path_ok_def q_def)
  show ?case
  proof (cases "mkey (sl ! q) = Some k")
    case True
    have "q < cap" using inv by (simp add: q_def rh_inv_def)
    then have "q = p" using inv p q True by (auto simp: rh_inv_def)
    then show ?thesis using p h q_def[symmetric] by (subst probe_loop.simps) (simp add: live_def)
  next
    case False
    then have "probe_loop sl cap k (nuwan_string_hash k) q = probe_loop sl cap k (nuwan_string_hash k) ((q + 1) mod cap)"
      using q by (subst probe_loop.simps) (simp add: live_def)
    moreover have "(q + 1) mod cap = ppos cap (nuwan_string_hash k) (Suc c)" unfolding q_def by (rule ppos_Suc)
    ultimately show ?thesis using Suc(1)[of "Suc c"] Suc(2) cd by (simp add: q_def)
  qed
qed

lemma probe_absent:
  "absent sl k \<Longrightarrow> length sl = cap \<Longrightarrow> idx < cap \<Longrightarrow> \<not> live (sl ! ((idx + n) mod cap)) \<Longrightarrow>
   probe_loop sl cap k h idx = Some None"
proof (induction n arbitrary: idx)
  case 0
  then show ?case by (subst probe_loop.simps) (simp add: live_def)
next
  case (Suc n)
  show ?case
  proof (cases "live (sl ! idx)")
    case True
    have "probe_loop sl cap k h idx = probe_loop sl cap k h ((idx + 1) mod cap)"
      using True Suc.prems(1,2,3) by (subst probe_loop.simps) (simp add: live_def absent_def)
    moreover have "((idx + 1) mod cap + n) mod cap = (idx + Suc n) mod cap" by (simp add: mod_simps)
    moreover have "(idx + 1) mod cap < cap" using Suc.prems(3) by simp
    ultimately show ?thesis using Suc.IH[of "(idx + 1) mod cap"] Suc.prems(1,2,4) by simp
  qed (subst probe_loop.simps, simp add: live_def)
qed

lemma live_count_all: "(\<And>p. p < length sl \<Longrightarrow> live (sl ! p)) \<Longrightarrow> live_count sl = length sl"
  unfolding live_count_def by (simp add: filter_id_conv all_set_conv_all_nth)

lemma free_slot_ahead:
  assumes "live_count sl < length sl" and "idx < length sl"
  shows "\<exists>n. \<not> live (sl ! ((idx + n) mod length sl))"
proof -
  obtain p where p: "p < length sl" "\<not> live (sl ! p)" using live_count_all[of sl] assms(1) by force
  have "(idx + (p + (length sl - idx))) mod length sl = p" using p assms(2) by simp
  with p show ?thesis by metis
qed

section \<open>The table as a finite map\<close>

text \<open>What a lookup returns: the value of the entry with this key.\<close>

definition map_of_slots :: "MapEntry list \<Rightarrow> string \<rightharpoonup> u64" where
  "map_of_slots sl k = map_option (\<lambda>e. mval e) (find (\<lambda>e. live e \<and> mkey e = Some k) sl)"

lemma map_of_slots_holds:
  assumes "rh_inv sl cap"
  shows "map_of_slots sl k = Some v \<longleftrightarrow> holds sl k v"
proof -
  show ?thesis
  proof (cases "find (\<lambda>e. live e \<and> mkey e = Some k) sl")
    case None
    then have "\<not> holds sl k v" unfolding find_None_iff holds_def by (metis nth_mem)
    with None show ?thesis by (simp add: map_of_slots_def)
  next
    case (Some e)
    then obtain p where p: "p < length sl" "live (sl ! p)" "mkey (sl ! p) = Some k" "e = sl ! p"
      by (auto simp: find_Some_iff)
    have "holds sl k v \<longleftrightarrow> v = mval (sl ! p)"
      using holds_unique[OF assms _ p(2,3)] p(1) assms by (simp add: rh_inv_def)
    with Some p(4) show ?thesis by (auto simp: map_of_slots_def)
  qed
qed

lemma absent_iff: "absent sl k \<longleftrightarrow> map_of_slots sl k = None"
  unfolding absent_def map_of_slots_def by (simp add: find_None_iff) (metis in_set_conv_nth)

lemma map_of_slots_eqI:
  assumes "rh_inv sl cap" and "rh_inv sl' cap'" and "\<And>k v. holds sl' k v \<longleftrightarrow> (f k = Some v)"
  shows "map_of_slots sl' = f"
  using map_of_slots_holds[OF assms(2)] assms(3) by (metis (no_types, opaque_lifting) not_Some_eq ext)

text \<open>Insertion of a pair: the table with room has the updated map, and one more entry for a new key.\<close>

lemma map_insert_raw_spec:
  assumes inv: "rh_inv sl cap" and room: "live_count sl < cap" and h: "nuwan_string_hash k \<noteq> MAP_EMPTY"
  shows "\<exists>sl' new. map_insert_raw sl cap (Some k) v (nuwan_string_hash k) = Some (sl', new) \<and> rh_inv sl' cap
    \<and> map_of_slots sl' = (map_of_slots sl)(k \<mapsto> v) \<and> new = (map_of_slots sl k = None)
    \<and> live_count sl' = live_count sl + (if new then 1 else 0)"
proof (cases "absent sl k")
  case True
  let ?idx = "unat (nuwan_string_hash k) mod cap"
  have len: "length sl = cap" "0 < cap" using inv by (auto simp: rh_inv_def)
  then obtain n where n: "\<not> live (sl ! ((?idx + n) mod cap))" using free_slot_ahead[of sl ?idx] room by auto
  have "?idx = ppos cap (nuwan_string_hash k) 0" by (simp add: ppos_def)
  moreover have "path_ok sl cap (nuwan_string_hash k) 0" by (simp add: path_ok_def)
  ultimately obtain sl' where s: "insert_loop sl cap (Some k) v (nuwan_string_hash k) ?idx 0 = Some (sl', True)"
    "rh_inv sl' cap" "\<And>k' v'. holds sl' k' v' \<longleftrightarrow> holds sl k' v' \<or> k' = k \<and> v' = v"
    "live_count sl' = Suc (live_count sl)"
    using insert_absent[OF inv _ _ refl h True n] by metis
  have "map_of_slots sl' = (map_of_slots sl)(k \<mapsto> v)"
    by (rule map_of_slots_eqI[OF inv s(2)])
      (use True in \<open>auto simp: s(3) map_of_slots_holds[OF inv, symmetric] absent_iff\<close>)
  then show ?thesis using s True by (intro exI[of _ sl'] exI[of _ True]) (simp add: map_insert_raw_def absent_iff)
next
  case False
  have len: "length sl = cap" using inv by (simp add: rh_inv_def)
  obtain p where p: "p < cap" "live (sl ! p)" "mkey (sl ! p) = Some k" using False len by (auto simp: absent_def)
  have s: "map_insert_raw sl cap (Some k) v (nuwan_string_hash k) = Some (sl[p := (sl ! p)\<lparr>mval := v\<rparr>], False)"
    using insert_present[OF inv p, of 0] by (simp add: map_insert_raw_def ppos_def)
  note u = update_value_inv[OF inv p, of v]
  have "map_of_slots (sl[p := (sl ! p)\<lparr>mval := v\<rparr>]) = (map_of_slots sl)(k \<mapsto> v)"
    by (rule map_of_slots_eqI[OF inv u(1)]) (auto simp: u(2) map_of_slots_holds[OF inv, symmetric])
  then show ?thesis using s u False by (simp add: absent_iff)
qed

lemma map_probe_spec:
  assumes inv: "rh_inv sl cap" and room: "live_count sl < cap"
  shows "\<exists>r. probe_loop sl cap k (nuwan_string_hash k) (unat (nuwan_string_hash k) mod cap) = Some r
    \<and> map_option (\<lambda>i. mval (sl ! i)) r = map_of_slots sl k"
proof (cases "absent sl k")
  case True
  let ?idx = "unat (nuwan_string_hash k) mod cap"
  have len: "length sl = cap" "0 < cap" using inv by (auto simp: rh_inv_def)
  then obtain n where n: "\<not> live (sl ! ((?idx + n) mod cap))" using free_slot_ahead[of sl ?idx] room by auto
  then show ?thesis using probe_absent[OF True len(1) _ n] len True by (simp add: absent_iff)
next
  case False
  have len: "length sl = cap" using inv by (simp add: rh_inv_def)
  obtain p where p: "p < cap" "live (sl ! p)" "mkey (sl ! p) = Some k" using False len by (auto simp: absent_def)
  then have "map_of_slots sl k = Some (mval (sl ! p))"
    unfolding map_of_slots_holds[OF inv] using len by (auto simp: holds_def)
  then show ?thesis using probe_present[OF inv p, of 0] by (simp add: ppos_def)
qed

section \<open>Growth\<close>

definition keyed :: "MapEntry list \<Rightarrow> bool" where
  "keyed es \<longleftrightarrow> (\<forall>e \<in> set es. live e \<longrightarrow> (\<exists>k. mkey e = Some k \<and> mhash e = nuwan_string_hash k))
     \<and> distinct (map mkey (filter live es))"

lemma distinct_live_keys:
  "(\<And>p q. p < length es \<Longrightarrow> q < length es \<Longrightarrow> live (es ! p) \<Longrightarrow> live (es ! q) \<Longrightarrow> mkey (es ! p) = mkey (es ! q) \<Longrightarrow> p = q) \<Longrightarrow>
   distinct (map mkey (filter live es))"
proof (induction es)
  case (Cons e es)
  have "distinct (map mkey (filter live es))"
    by (rule Cons.IH) (use Cons.prems[of "Suc _" "Suc _"] in auto)
  moreover have False if l: "live e" "live x" "mkey e = mkey x" and x: "x \<in> set es" for x
  proof -
    obtain i where "i < length es" "es ! i = x" using x by (auto simp: in_set_conv_nth)
    then show False using Cons.prems[of 0 "Suc i"] l by simp
  qed
  ultimately show ?case by auto
qed simp

lemma rh_inv_keyed:
  assumes "rh_inv sl cap"
  shows "keyed sl"
proof -
  have "distinct (map mkey (filter live sl))"
    by (rule distinct_live_keys) (use assms in \<open>auto simp: rh_inv_def\<close>)
  moreover have "\<exists>k. mkey e = Some k \<and> mhash e = nuwan_string_hash k" if "e \<in> set sl" "live e" for e
    using that assms by (auto simp: in_set_conv_nth rh_inv_def entry_ok_def)
  ultimately show ?thesis by (simp add: keyed_def)
qed

lemma map_of_slots_Cons:
  "map_of_slots (e # es) k = (if live e \<and> mkey e = Some k then Some (mval e) else map_of_slots es k)"
  by (simp add: map_of_slots_def)

lemma map_of_slots_None: "map_of_slots es k = None \<longleftrightarrow> Some k \<notin> set (map mkey (filter live es))"
  by (induction es) (auto simp: map_of_slots_Cons, simp add: map_of_slots_def)

lemma reinsert_spec:
  "rh_inv ns nc \<Longrightarrow> keyed es \<Longrightarrow> live_count ns + live_count es \<le> nc \<Longrightarrow>
   (\<And>k. map_of_slots es k \<noteq> None \<Longrightarrow> map_of_slots ns k = None) \<Longrightarrow>
   \<exists>ns'. reinsert ns nc es = Some ns' \<and> rh_inv ns' nc \<and> map_of_slots ns' = map_of_slots ns ++ map_of_slots es
     \<and> live_count ns' = live_count ns + live_count es"
proof (induction es arbitrary: ns)
  case Nil
  have "map_of_slots [] = Map.empty" by (simp add: map_of_slots_def fun_eq_iff)
  with Nil show ?case by (simp add: live_count_def)
next
  case (Cons e es)
  have key: "keyed es" using Cons.prems(2) by (auto simp: keyed_def split: if_splits)
  show ?case
  proof (cases "live e")
    case False
    then have same: "map_of_slots (e # es) = map_of_slots es" "live_count (e # es) = live_count es"
      by (simp_all add: map_of_slots_Cons live_count_def fun_eq_iff)
    show ?thesis
      using Cons.IH[OF Cons.prems(1) key] Cons.prems(3,4) False by (simp add: same live_def)
  next
    case True
    obtain k where k: "mkey e = Some k" "mhash e = nuwan_string_hash k" using Cons.prems(2) True by (auto simp: keyed_def)
    have cnt: "live_count (e # es) = Suc (live_count es)" using True by (simp add: live_count_def)
    have new: "map_of_slots ns k = None" using Cons.prems(4)[of k] True k by (simp add: map_of_slots_Cons)
    have nk: "map_of_slots es k = None"
      using Cons.prems(2) True k by (auto simp: map_of_slots_None keyed_def)
    obtain ns1 where n1: "map_insert_raw ns nc (mkey e) (mval e) (mhash e) = Some (ns1, True)" "rh_inv ns1 nc"
      "map_of_slots ns1 = (map_of_slots ns)(k \<mapsto> mval e)" "live_count ns1 = Suc (live_count ns)"
      using map_insert_raw_spec[OF Cons.prems(1), of k "mval e"] Cons.prems(3) cnt True k new
      by (auto simp: live_def)
    have "\<exists>ns'. reinsert ns1 nc es = Some ns' \<and> rh_inv ns' nc \<and> map_of_slots ns' = map_of_slots ns1 ++ map_of_slots es
        \<and> live_count ns' = live_count ns1 + live_count es"
    proof (rule Cons.IH[OF n1(2) key])
      show "live_count ns1 + live_count es \<le> nc" using Cons.prems(3) n1(4) cnt by simp
      show "map_of_slots ns1 k' = None" if "map_of_slots es k' \<noteq> None" for k'
        using that nk Cons.prems(4)[of k'] by (auto simp: n1(3) map_of_slots_Cons)
    qed
    moreover have "(map_of_slots ns)(k \<mapsto> mval e) ++ map_of_slots es = map_of_slots ns ++ map_of_slots (e # es)"
      using nk True k by (auto simp: fun_eq_iff map_add_def map_of_slots_Cons split: option.splits)
    ultimately show ?thesis using n1 cnt True by (auto simp: live_def)
  qed
qed

lemma empty_slots_spec:
  assumes "empty_slots al n = Some sl" and "0 < n"
  shows "rh_inv sl n" and "map_of_slots sl = Map.empty" and "live_count sl = 0"
proof -
  have dead: "\<not> live e" if "e \<in> set sl" for e using assms that by (auto simp: empty_slots_def live_def)
  have len: "length sl = n" using assms by (auto simp: empty_slots_def)
  with dead nth_mem[of _ sl] show "rh_inv sl n" using assms(2) by (auto simp: rh_inv_def)
  show "map_of_slots sl = Map.empty" using dead by (auto simp: fun_eq_iff map_of_slots_None)
  show "live_count sl = 0" using dead by (auto simp: live_count_def filter_empty_conv)
qed

text \<open>Moving a table into a larger array of empty slots.\<close>

lemma rehash_spec:
  assumes "rh_inv sl cap" and "empty_slots al nc = Some ns" and "live_count sl \<le> nc" and "0 < nc"
  shows "\<exists>ns'. reinsert ns nc sl = Some ns' \<and> rh_inv ns' nc \<and> map_of_slots ns' = map_of_slots sl
    \<and> live_count ns' = live_count sl"
  using reinsert_spec[OF empty_slots_spec(1)[OF assms(2,4)] rh_inv_keyed[OF assms(1)]]
    empty_slots_spec(2,3)[OF assms(2,4)] assms(3) by auto

section \<open>The operations keep the invariant and refine a finite map\<close>

definition map_inv :: "NuwanMap \<Rightarrow> bool" where
  "map_inv m \<longleftrightarrow> rh_inv (slots m) (mcap m) \<and> msize m = live_count (slots m)
     \<and> MAP_INIT_CAP \<le> mcap m \<and> msize m < mcap m"

definition map_view :: "NuwanMap \<Rightarrow> string \<rightharpoonup> u64" where
  "map_view m = map_of_slots (slots m)"

lemma nuwan_map_new_spec:
  assumes "nuwan_map_new ok al = Some m"
  shows "map_inv m" and "map_view m = Map.empty"
proof -
  obtain sl where sl: "empty_slots al MAP_INIT_CAP = Some sl" "m = \<lparr>slots = sl, msize = 0, mcap = MAP_INIT_CAP\<rparr>"
    using assms by (auto simp: nuwan_map_new_def split: if_splits)
  have "0 < MAP_INIT_CAP" by (simp add: MAP_INIT_CAP_def)
  from empty_slots_spec[OF sl(1) this] show "map_inv m" "map_view m = Map.empty"
    by (simp_all add: map_inv_def map_view_def sl(2) MAP_INIT_CAP_def)
qed

lemma map_grow_spec:
  assumes "map_inv m" and "al \<noteq> None"
  shows "\<exists>m'. map_grow al m = Some m' \<and> map_inv m' \<and> map_view m' = map_view m \<and> msize m' = msize m
    \<and> mcap m' = 2 * mcap m"
proof -
  obtain ns where ns: "empty_slots al (mcap m * 2) = Some ns" using assms(2) by (auto simp: empty_slots_def)
  have m: "rh_inv (slots m) (mcap m)" "live_count (slots m) \<le> mcap m * 2" "0 < mcap m * 2"
    using assms(1) by (auto simp: map_inv_def MAP_INIT_CAP_def)
  from rehash_spec[OF m(1) ns m(2,3)] show ?thesis
    using assms(1) ns by (auto simp: map_grow_def map_inv_def map_view_def)
qed

lemma nuwan_map_reserve_spec:
  assumes "map_inv m"
  shows "\<exists>m'. nuwan_map_reserve al m n = Some m' \<and> map_inv m' \<and> map_view m' = map_view m \<and> msize m' = msize m"
proof -
  define t where "t = target_cap n MAP_INIT_CAP"
  have r: "nuwan_map_reserve al m n = (if t > mcap m
      then (case empty_slots al t of None \<Rightarrow> Some m | Some ns \<Rightarrow> map_option (\<lambda>sl. m\<lparr>slots := sl, mcap := t\<rparr>) (reinsert ns t (slots m)))
      else Some m)"
    by (simp only: nuwan_map_reserve_def t_def Let_def)
  show ?thesis
  proof (cases "t > mcap m \<and> empty_slots al t \<noteq> None")
    case True
    then obtain ns where ns: "empty_slots al t = Some ns" by auto
    have m: "rh_inv (slots m) (mcap m)" "live_count (slots m) \<le> t" "0 < t"
      using assms True by (auto simp: map_inv_def)
    from rehash_spec[OF m(1) ns m(2,3)] show ?thesis
      using assms True unfolding r ns by (auto simp: map_inv_def map_view_def)
  next
    case False
    then have "nuwan_map_reserve al m n = Some m" unfolding r by auto
    with assms show ?thesis by simp
  qed
qed

lemma nuwan_map_put_spec:
  assumes inv: "map_inv m" and al: "al \<noteq> None" and h: "nuwan_string_hash k \<noteq> MAP_EMPTY"
  shows "\<exists>m'. nuwan_map_put al m k v = Some m' \<and> map_inv m' \<and> map_view m' = (map_view m)(k \<mapsto> v)"
proof -
  define g where "g = (if msize m * MAP_LOAD_DEN \<ge> mcap m * MAP_LOAD_NUM then map_grow al m else Some m)"
  obtain m1 where m1: "g = Some m1" "map_inv m1" "map_view m1 = map_view m" "Suc (msize m1) < mcap m1"
  proof (cases "msize m * MAP_LOAD_DEN \<ge> mcap m * MAP_LOAD_NUM")
    case True
    then show ?thesis using map_grow_spec[OF inv al] inv that by (auto simp: g_def map_inv_def MAP_INIT_CAP_def)
  next
    case False
    then show ?thesis using inv that by (simp add: g_def map_inv_def MAP_INIT_CAP_def MAP_LOAD_NUM_def MAP_LOAD_DEN_def)
  qed
  have r: "rh_inv (slots m1) (mcap m1)" "live_count (slots m1) < mcap m1" using m1(2) by (auto simp: map_inv_def)
  obtain sl new where s: "map_insert_raw (slots m1) (mcap m1) (Some k) v (nuwan_string_hash k) = Some (sl, new)"
    "rh_inv sl (mcap m1)" "map_of_slots sl = (map_of_slots (slots m1))(k \<mapsto> v)"
    "live_count sl = live_count (slots m1) + (if new then 1 else 0)"
    using map_insert_raw_spec[OF r h, of v] by blast
  then show ?thesis
    using m1 unfolding nuwan_map_put_def g_def[symmetric] by (auto simp: map_inv_def map_view_def)
qed

lemma map_probe_view:
  assumes "map_inv m"
  shows "\<exists>r. map_probe m k = Some r \<and> map_option (\<lambda>i. mval (slots m ! i)) r = map_view m k"
  using map_probe_spec[of "slots m" "mcap m" k] assms
  by (simp add: map_probe_def map_inv_def map_view_def Let_def)

lemma live_count_card:
  assumes "rh_inv sl cap"
  shows "live_count sl = card (dom (map_of_slots sl))"
proof -
  have key: "keyed sl" by (rule rh_inv_keyed[OF assms])
  have "Some ` dom (map_of_slots sl) = set (map mkey (filter live sl))"
  proof
    show "Some ` dom (map_of_slots sl) \<subseteq> set (map mkey (filter live sl))"
    proof
      fix x assume "x \<in> Some ` dom (map_of_slots sl)"
      then show "x \<in> set (map mkey (filter live sl))" using map_of_slots_None[of sl] by (metis domIff imageE)
    qed
    show "set (map mkey (filter live sl)) \<subseteq> Some ` dom (map_of_slots sl)"
    proof
      fix x assume x: "x \<in> set (map mkey (filter live sl))"
      then obtain k where "x = Some k" using key by (auto simp: keyed_def)
      with x map_of_slots_None[of sl k] show "x \<in> Some ` dom (map_of_slots sl)" by blast
    qed
  qed
  then have "card (dom (map_of_slots sl)) = card (set (map mkey (filter live sl)))"
    by (metis card_image inj_Some)
  then show ?thesis using key by (simp add: keyed_def distinct_card live_count_def flip: set_map)
qed

interpretation nuwan: string_map map_inv map_view "\<lambda>al k. al \<noteq> None \<and> nuwan_string_hash k \<noteq> MAP_EMPTY"
  "\<lambda>m n. True" nuwan_map_put nuwan_map_get nuwan_map_has nuwan_map_size
proof unfold_locales
  fix m :: NuwanMap and k
  assume inv: "map_inv m"
  obtain r where r: "map_probe m k = Some r" "map_option (\<lambda>i. mval (slots m ! i)) r = map_view m k"
    using map_probe_view[OF inv] by blast
  then show "nuwan_map_get m k = Some (found (map_view m k))"
    by (auto simp: nuwan_map_get_def found_def split: option.splits)
  show "nuwan_map_has m k = Some (map_view m k \<noteq> None)"
    using r by (cases r) (simp_all add: nuwan_map_has_def, metis option.distinct(1))
  show "nuwan_map_size m = card (dom (map_view m))"
    using inv live_count_card[of "slots m" "mcap m"] by (simp add: nuwan_map_size_def map_inv_def map_view_def)
qed (use nuwan_map_put_spec in auto)

section \<open>What the clients see\<close>

text \<open>C22: From a new map, any sequence of puts whose allocations succeed (and whose keys do not hash to
  the empty marker) returns, whatever growth and displacement it causes; afterwards a lookup of any key
  returns the last value put under it, or 0 when there is none, membership is exactly the keys put, and
  the size is their number.\<close>

theorem nuwan_map_refines_map:
  assumes "nuwan_map_new True al = Some m"
    and "\<And>r k v. (r, k, v) \<in> set ops \<Longrightarrow> r \<noteq> None \<and> nuwan_string_hash k \<noteq> MAP_EMPTY"
  shows "\<exists>m'. run_puts nuwan_map_put ops m = Some m' \<and> map_inv m'
    \<and> (\<forall>k. nuwan_map_get m' k = Some (found (map_of (last_puts ops) k)))
    \<and> (\<forall>k. nuwan_map_has m' k = Some (k \<in> (fst \<circ> snd) ` set ops))
    \<and> nuwan_map_size m' = card ((fst \<circ> snd) ` set ops)"
  using nuwan.puts_then_lookups[of m ops] nuwan_map_new_spec[OF assms(1)] assms(2) by blast

definition junk_entry :: MapEntry where
  "junk_entry = \<lparr>mkey = None, mval = 0, mhash = 0, mdib = 0\<rparr>"

definition sample_map :: NuwanMap where
  "sample_map = \<lparr>slots = replicate 16 (junk_entry\<lparr>mhash := MAP_EMPTY\<rparr>), msize = 0, mcap = 16\<rparr>"

lemma sample_map_new: "nuwan_map_new True (Some (\<lambda>_. junk_entry)) = Some sample_map"
  by (simp add: nuwan_map_new_def empty_slots_def sample_map_def MAP_INIT_CAP_def map_replicate_const)

lemma sample_hashes:
  "nuwan_string_hash ''A'' = 0xaf63fc4c860222ec" "nuwan_string_hash ''Q'' = 0xaf640c4c86023e1c"
  by (simp_all add: nuwan_string_hash_def of_char_def)

definition sample_puts :: "(slot_mem \<times> string \<times> u64) list" where
  "sample_puts = map (\<lambda>p. (Some (\<lambda>_. junk_entry), p)) [(''A'', 1), (''Q'', 2), (''A'', 3)]"

theorem nuwan_map_refines_map_witness:
  "\<exists>m'. run_puts nuwan_map_put sample_puts sample_map = Some m'
    \<and> nuwan_map_get m' ''A'' = Some 3 \<and> nuwan_map_get m' ''Q'' = Some 2 \<and> nuwan_map_size m' = 2"
proof -
  have ops: "r \<noteq> None \<and> nuwan_string_hash k \<noteq> MAP_EMPTY" if "(r, k, v) \<in> set sample_puts" for r k v
    using that by (auto simp: sample_puts_def sample_hashes MAP_EMPTY_def)
  obtain m' where m': "run_puts nuwan_map_put sample_puts sample_map = Some m'"
    "\<And>k. nuwan_map_get m' k = Some (found (map_of (last_puts sample_puts) k))"
    "nuwan_map_size m' = card ((fst \<circ> snd) ` set sample_puts)"
    using nuwan_map_refines_map[OF sample_map_new, of sample_puts] ops by blast
  have "nuwan_map_get m' ''A'' = Some 3" "nuwan_map_get m' ''Q'' = Some 2" "nuwan_map_size m' = 2"
    unfolding m'(2,3) by (simp_all add: last_puts_def found_def sample_puts_def insert_commute)
  with m'(1) show ?thesis by blast
qed

text \<open>Both keys have home slot 12 of the 16.\<close>

definition probe_entry :: "string \<Rightarrow> u64 \<Rightarrow> nat \<Rightarrow> MapEntry" where
  "probe_entry k v d = \<lparr>mkey = Some k, mval = v, mhash = nuwan_string_hash k, mdib = d\<rparr>"

lemma sample_homes:
  "unat (nuwan_string_hash ''A'') mod 16 = 12" "unat (nuwan_string_hash ''Q'') mod 16 = 12"
  "nuwan_string_hash ''A'' \<noteq> MAP_EMPTY" "nuwan_string_hash ''Q'' \<noteq> MAP_EMPTY"
  "nuwan_string_hash ''A'' \<noteq> nuwan_string_hash ''Q''"
  by (simp_all add: sample_hashes MAP_EMPTY_def)

lemma filter_two_of_16:
  "\<not> P z \<Longrightarrow> filter P ((replicate 16 z)[12 := a, 13 := b]) = filter P [a, b]"
  by (simp add: numeral_eq_Suc)

lemma two_puts:
  "run_puts nuwan_map_put [(al1, ''A'', 1), (al2, ''Q'', 2)] sample_map =
   Some (sample_map\<lparr>slots := (slots sample_map)[12 := probe_entry ''A'' 1 0, 13 := probe_entry ''Q'' 2 1], msize := 2\<rparr>)"
  by (simp add: nuwan_map_put_def map_insert_raw_def sample_map_def MAP_LOAD_NUM_def MAP_LOAD_DEN_def
      insert_loop.simps sample_homes sample_homes(3,4,5)[symmetric] probe_entry_def)

text \<open>Removal breaks later lookups.  \<^verbatim>\<open>nuwan_map_remove\<close> marks the slot empty without moving the
  following entries back and without a tombstone, while lookups stop at the first empty slot: with two
  keys of the same home slot, removing the first makes the second invisible, although its entry is still
  in the table and counted in its size; putting it again stores it twice.\<close>

theorem nuwan_map_remove_hides_keys:
  "\<exists>m1 m2 m3. run_puts nuwan_map_put [(al1, ''A'', 1), (al2, ''Q'', 2)] sample_map = Some m1
    \<and> nuwan_map_has m1 ''Q'' = Some True
    \<and> nuwan_map_remove m1 ''A'' = Some (m2, True)
    \<and> nuwan_map_has m2 ''Q'' = Some False \<and> nuwan_map_size m2 = 1
    \<and> nuwan_map_put al3 m2 ''Q'' 5 = Some m3 \<and> nuwan_map_size m3 = 2
    \<and> map mkey (filter live (slots m3)) = [Some ''Q'', Some ''Q'']"
proof -
  let ?a = "probe_entry ''A'' 1 0" and ?q = "probe_entry ''Q'' 2 1" and ?q' = "probe_entry ''Q'' 5 0"
  define m where "m a b n = sample_map\<lparr>slots := (slots sample_map)[12 := a, 13 := b], msize := n\<rparr>" for a b n
  let ?hole = "?a\<lparr>mhash := MAP_EMPTY, mkey := None\<rparr>"
  note eval = m_def sample_map_def map_probe_def probe_loop.simps sample_homes sample_homes(3,4,5)[symmetric]
    probe_entry_def
  have "run_puts nuwan_map_put [(al1, ''A'', 1), (al2, ''Q'', 2)] sample_map = Some (m ?a ?q 2)"
    by (simp only: two_puts m_def)
  moreover have "nuwan_map_has (m ?a ?q 2) ''Q'' = Some True" by (simp add: nuwan_map_has_def eval)
  moreover have "nuwan_map_remove (m ?a ?q 2) ''A'' = Some (m ?hole ?q 1, True)"
    by (simp add: nuwan_map_remove_def eval list_update_swap)
  moreover have "nuwan_map_has (m ?hole ?q 1) ''Q'' = Some False" by (simp add: nuwan_map_has_def eval)
  moreover have "nuwan_map_put al3 (m ?hole ?q 1) ''Q'' 5 = Some (m ?q' ?q 2)"
    by (simp add: nuwan_map_put_def map_insert_raw_def MAP_LOAD_NUM_def MAP_LOAD_DEN_def
        insert_loop.simps eval list_update_swap)
  moreover have "map mkey (filter live (slots (m ?q' ?q 2))) = [Some ''Q'', Some ''Q'']"
    by (simp add: m_def sample_map_def filter_two_of_16 live_def probe_entry_def sample_homes)
  moreover have "nuwan_map_size (m ?hole ?q 1) = 1" "nuwan_map_size (m ?q' ?q 2) = 2"
    by (simp_all add: nuwan_map_size_def m_def)
  ultimately show ?thesis
    by (intro exI[of _ "m ?a ?q 2"] exI[of _ "m ?hole ?q 1"] exI[of _ "m ?q' ?q 2"]) simp
qed

end
