(* ===== verification/Coll_Swiss.thy ===== *)
theory Coll_Swiss
  imports Coll_Map
begin

unbundle bit_operations_syntax

text \<open>
  \<^verbatim>\<open>NuwanSwissMap\<close> of \<^verbatim>\<open>runtime/stdlib/collections.c\<close>: the Swiss table, a hash map whose probes
  scan sixteen one-byte tags at a time.  The sixteen-lane compare is the portable loop of
  \<^verbatim>\<open>swiss_match_byte\<close>; \<^verbatim>\<open>size_t\<close> counters are natural numbers, the index \<^verbatim>\<open>(size_t)-1\<close> is
  \<open>None\<close>.  Whether each allocation succeeds is an argument; dereferencing a null arena is the result
  \<open>None\<close> of an operation.
\<close>

section \<open>Lanes\<close>

definition SWISS_GROUP_SIZE :: nat where "SWISS_GROUP_SIZE = 16"
definition SWISS_INIT_CAP :: nat where "SWISS_INIT_CAP = 16"
definition SWISS_CTRL_EMPTY :: u8 where "SWISS_CTRL_EMPTY = 0x80"
definition SWISS_CTRL_DELETED :: u8 where "SWISS_CTRL_DELETED = 0xFE"

text \<open>The loop over the lanes that sets bit \<open>i\<close> of the mask when lane \<open>i\<close> passes the test.\<close>

definition lane_mask :: "(nat \<Rightarrow> bool) \<Rightarrow> nat \<Rightarrow> u32" where
  "lane_mask p n = foldl (\<lambda>msk i. if p i then msk OR push_bit i 1 else msk) 0 [0..<n]"

definition swiss_match_byte :: "u8 list \<Rightarrow> u8 \<Rightarrow> u32" where
  "swiss_match_byte ctrl16 needle = lane_mask (\<lambda>i. ctrl16 ! i = needle) 16"

definition swiss_match_empty :: "u8 list \<Rightarrow> u32" where
  "swiss_match_empty ctrl16 = swiss_match_byte ctrl16 SWISS_CTRL_EMPTY"

definition swiss_match_empty_or_deleted :: "u8 list \<Rightarrow> u32" where
  "swiss_match_empty_or_deleted ctrl16 = lane_mask (\<lambda>i. ctrl16 ! i AND 0x80 \<noteq> 0) 16"

text \<open>\<^verbatim>\<open>__builtin_ctz\<close>: the number of zero bits below the lowest set bit.\<close>

definition swiss_ctz16 :: "u32 \<Rightarrow> nat" where
  "swiss_ctz16 msk = length (takeWhile (\<lambda>i. \<not> bit msk i) [0..<32])"

lemma bit_lane_mask:
  assumes "n \<le> 32"
  shows "bit (lane_mask p n) i \<longleftrightarrow> i < n \<and> p i"
  using assms
proof (induction n)
  case (Suc n)
  have "lane_mask p (Suc n) = (if p n then lane_mask p n OR push_bit n 1 else lane_mask p n)"
    by (simp add: lane_mask_def)
  with Suc show ?case by (auto simp: bit_simps less_Suc_eq)
qed (simp add: lane_mask_def)

lemma lane_mask_zero: "n \<le> 32 \<Longrightarrow> lane_mask p n = 0 \<longleftrightarrow> (\<forall>i < n. \<not> p i)"
  using bit_lane_mask[of n p] by (auto simp: bit_eq_iff)

lemma ctz_lowest:
  assumes "msk \<noteq> 0"
  shows "bit msk (swiss_ctz16 msk)" and "\<And>i. i < swiss_ctz16 msk \<Longrightarrow> \<not> bit msk i" and "swiss_ctz16 msk < 32"
proof -
  let ?t = "takeWhile (\<lambda>i. \<not> bit msk i) [0..<32]"
  obtain j where j: "bit msk j" using assms by (auto simp: bit_eq_iff)
  then have "j < 32" using bit_imp_le_length[of msk j] by simp
  with j have "?t \<noteq> [0..<32]" using takeWhile_eq_all_conv[of "\<lambda>i. \<not> bit msk i" "[0..<32]"] by auto
  then have lt: "length ?t < length [0..<32]"
    by (metis length_takeWhile_le le_neq_implies_less takeWhile_eq_take take_all_iff order_refl)
  then show "swiss_ctz16 msk < 32" by (simp add: swiss_ctz16_def)
  show "bit msk (swiss_ctz16 msk)"
    using nth_length_takeWhile[OF lt] lt by (simp add: swiss_ctz16_def)
  show "\<not> bit msk i" if "i < swiss_ctz16 msk" for i
  proof -
    have "?t ! i \<in> set ?t" using that by (simp add: swiss_ctz16_def)
    then have "\<not> bit msk (?t ! i)" by (auto dest: set_takeWhileD)
    moreover have "?t ! i = i" using that lt by (simp add: swiss_ctz16_def takeWhile_nth)
    ultimately show ?thesis by simp
  qed
qed

text \<open>\<^verbatim>\<open>match &= match - 1\<close> clears exactly the lowest set bit.\<close>

lemma bit_and_pred_nat:
  assumes "m \<noteq> 0" and "odd (m div 2 ^ k)" and "\<And>j. j < k \<Longrightarrow> even (m div 2 ^ j)"
  shows "odd ((m - 1) div 2 ^ i) \<and> odd (m div 2 ^ i) \<longleftrightarrow> odd ((m :: nat) div 2 ^ i) \<and> i \<noteq> k"
proof -
  obtain q where q: "m div 2 ^ k = 2 * q + 1" using assms(2) by (auto elim: oddE)
  have "m mod 2 ^ k = 0" using assms(3)
  proof (induction k)
    case (Suc k)
    then have "m mod 2 ^ k = 0" "even (m div 2 ^ k)" by auto
    then show ?case by (auto simp: mod_eq_0_iff_dvd dvd_def elim!: evenE)
  qed simp
  then have m: "m = 2 ^ k * (2 * q + 1)" using q by (metis div_mult_mod_eq add.right_neutral mult.commute)
  obtain x where x: "(2 :: nat) ^ k = Suc x" by (metis not0_implies_Suc power_not_zero zero_neq_numeral)
  consider "i < k" | "i = k" | d where "i = k + 1 + d" by (metis less_imp_Suc_add linorder_neqE_nat Suc_eq_plus1 add_Suc)
  then show ?thesis
  proof cases
    case 1 then show ?thesis using assms(3)[of i] by simp
  next
    case 2
    have "(m - 1) div 2 ^ k = 2 * q" by (rule div_nat_eqI) (use m x in \<open>simp_all add: algebra_simps\<close>)
    then show ?thesis using 2 by simp
  next
    case 3
    have a: "(m - 1) div 2 ^ Suc k = q" by (rule div_nat_eqI) (use m x in \<open>simp_all add: algebra_simps\<close>)
    have "m = 2 ^ Suc k * q + 2 ^ k" using m by (simp add: algebra_simps)
    then have b: "m div 2 ^ Suc k = q" by simp
    have "(2 :: nat) ^ i = 2 ^ Suc k * 2 ^ d" using 3 by (simp add: power_add)
    then have "(m - 1) div 2 ^ i = m div 2 ^ i" using a b by (metis div_mult2_eq)
    then show ?thesis using 3 by auto
  qed
qed

lemma bit_unat: "bit (w :: u32) i \<longleftrightarrow> odd (unat w div 2 ^ i)"
  by (simp add: bit_unsigned_iff bit_imp_le_length flip: bit_iff_odd)

lemma bit_and_pred:
  assumes "msk \<noteq> (0 :: u32)"
  shows "bit (msk AND (msk - 1)) i \<longleftrightarrow> bit msk i \<and> i \<noteq> swiss_ctz16 msk"
proof -
  have "unat (msk - 1) = unat msk - 1" using assms by (simp add: unat_minus_one)
  moreover have "unat msk \<noteq> 0" using assms by (simp add: unat_eq_zero)
  ultimately show ?thesis
    using bit_and_pred_nat[of "unat msk" "swiss_ctz16 msk" i] ctz_lowest[OF assms]
    unfolding bit_and_iff by (auto simp: bit_unat)
qed

lemma and_pred_less:
  assumes "msk \<noteq> (0 :: u32)"
  shows "unat (msk AND (msk - 1)) < unat msk"
proof -
  have "msk AND (msk - 1) \<le> msk - 1" by (metis and.commute word_and_le1)
  moreover have "msk - 1 < msk" using assms by (metis word_less_1 word_le_sub1 word_less_sub1 word_gt_0 le_less measure_unat word_less_nat_alt)
  ultimately show ?thesis by (simp add: word_le_nat_alt word_less_nat_alt)
qed

section \<open>The table\<close>

record SwissEntry =
  ehash :: u64
  ekey :: "string option"
  eval :: u64

record NuwanSwissMap =
  sarena :: bool
  ctrl :: "u8 list"
  sslots :: "SwissEntry list"
  scap :: nat
  ssize :: nat
  tombstones :: nat
  growth_left :: nat
  last_probe_len :: nat

text \<open>The outcomes of the allocations of an operation: the two arrays of a rehash, and the key copy.\<close>

record SwissAlloc =
  al_ctrl :: bool
  al_slots :: bool
  al_key :: bool

definition swiss_hash :: "string \<Rightarrow> u64" where
  "swiss_hash key = nuwan_string_hash key"

definition swiss_h2 :: "u64 \<Rightarrow> u8" where
  "swiss_h2 h = ucast (h AND 0x7F)"

definition swiss_h1 :: "u64 \<Rightarrow> nat" where
  "swiss_h1 h = unat (drop_bit 7 h)"

definition swiss_max_load :: "nat \<Rightarrow> nat" where
  "swiss_max_load cap = cap - cap div 8"

text \<open>The doubling loop of \<^verbatim>\<open>swiss_normalise_cap\<close>.\<close>

function double_to :: "nat \<Rightarrow> nat \<Rightarrow> nat" where
  "double_to hint cap = (if 0 < cap \<and> cap < hint then double_to hint (cap * 2) else cap)"
  by pat_completeness auto
termination by (relation "measure (\<lambda>(h, c). h - c)") auto

definition swiss_normalise_cap :: "nat \<Rightarrow> nat" where
  "swiss_normalise_cap hint = double_to hint SWISS_INIT_CAP"

text \<open>
  \<^verbatim>\<open>swiss_alloc_arrays\<close>: \<open>None\<close> when the arena is null (both allocators dereference it), otherwise the
  table and whether both allocations succeeded.
\<close>

definition empty_entry :: SwissEntry where
  "empty_entry = \<lparr>ehash = 0, ekey = None, eval = 0\<rparr>"

definition swiss_alloc_arrays :: "SwissAlloc \<Rightarrow> NuwanSwissMap \<Rightarrow> nat \<Rightarrow> (NuwanSwissMap \<times> bool) option" where
  "swiss_alloc_arrays al m cap =
     (if \<not> sarena m then None
      else if \<not> al_ctrl al \<or> \<not> al_slots al then Some (m, False)
      else Some (m\<lparr>ctrl := replicate cap SWISS_CTRL_EMPTY, sslots := replicate cap empty_entry, scap := cap,
                   ssize := 0, tombstones := 0, growth_left := swiss_max_load cap\<rparr>, True))"

section \<open>Probing\<close>

record SwissProbe =
  index :: "nat option"
  pfound :: bool
  probe_len :: nat

definition group_of :: "u8 list \<Rightarrow> nat \<Rightarrow> u8 list" where
  "group_of ctl g = take SWISS_GROUP_SIZE (drop (g * SWISS_GROUP_SIZE) ctl)"

text \<open>The loop over the candidate lanes of a group.\<close>

function scan_lanes :: "SwissEntry list \<Rightarrow> nat \<Rightarrow> string \<Rightarrow> u64 \<Rightarrow> u32 \<Rightarrow> nat option" where
  "scan_lanes sl g key hash match =
     (if match = 0 then None
      else let idx = g * SWISS_GROUP_SIZE + swiss_ctz16 match; e = sl ! idx
           in if ehash e = hash \<and> ekey e = Some key then Some idx
              else scan_lanes sl g key hash (match AND (match - 1)))"
  by pat_completeness auto
termination by (relation "measure (\<lambda>(sl, g, key, hash, match). unat match)") (auto intro: and_pred_less)

text \<open>The loops over the groups; \<open>n\<close> is the number of probes left.\<close>

fun find_for_insert_loop ::
    "NuwanSwissMap \<Rightarrow> string \<Rightarrow> u64 \<Rightarrow> nat \<Rightarrow> nat \<Rightarrow> nat \<Rightarrow> nat option \<Rightarrow> nat \<Rightarrow> SwissProbe" where
  "find_for_insert_loop m key hash 0 g step first_candidate len =
     \<lparr>index = first_candidate, pfound = False, probe_len = len\<rparr>"
| "find_for_insert_loop m key hash (Suc n) g step first_candidate len =
     (let gmask = scap m div SWISS_GROUP_SIZE - 1; group = group_of (ctrl m) g
      in case scan_lanes (sslots m) g key hash (swiss_match_byte group (swiss_h2 hash)) of
           Some idx \<Rightarrow> \<lparr>index = Some idx, pfound = True, probe_len = len + 1\<rparr>
         | None \<Rightarrow>
             (let cand = swiss_match_empty_or_deleted group;
                  fc = (if first_candidate = None \<and> cand \<noteq> 0
                        then Some (g * SWISS_GROUP_SIZE + swiss_ctz16 cand) else first_candidate)
              in if swiss_match_empty group \<noteq> 0
                 then \<lparr>index = (if fc = None then Some (g * SWISS_GROUP_SIZE + swiss_ctz16 (swiss_match_empty group)) else fc),
                       pfound = False, probe_len = len + 1\<rparr>
                 else find_for_insert_loop m key hash n ((g + (step + 1)) AND gmask) (step + 1) fc (len + 1)))"

definition swiss_find_for_insert :: "NuwanSwissMap \<Rightarrow> string \<Rightarrow> u64 \<Rightarrow> SwissProbe" where
  "swiss_find_for_insert m key hash =
     (if scap m = 0 then \<lparr>index = Some 0, pfound = False, probe_len = 0\<rparr>
      else let num_groups = scap m div SWISS_GROUP_SIZE
           in find_for_insert_loop m key hash num_groups (swiss_h1 hash AND (num_groups - 1)) 0 None 0)"

fun find_loop :: "NuwanSwissMap \<Rightarrow> string \<Rightarrow> u64 \<Rightarrow> nat \<Rightarrow> nat \<Rightarrow> nat \<Rightarrow> nat \<Rightarrow> SwissProbe" where
  "find_loop m key hash 0 g step len = \<lparr>index = Some 0, pfound = False, probe_len = len\<rparr>"
| "find_loop m key hash (Suc n) g step len =
     (let gmask = scap m div SWISS_GROUP_SIZE - 1; group = group_of (ctrl m) g
      in case scan_lanes (sslots m) g key hash (swiss_match_byte group (swiss_h2 hash)) of
           Some idx \<Rightarrow> \<lparr>index = Some idx, pfound = True, probe_len = len + 1\<rparr>
         | None \<Rightarrow>
             (if swiss_match_empty group \<noteq> 0 then \<lparr>index = Some 0, pfound = False, probe_len = len + 1\<rparr>
              else find_loop m key hash n ((g + (step + 1)) AND gmask) (step + 1) (len + 1)))"

definition swiss_find :: "NuwanSwissMap \<Rightarrow> string \<Rightarrow> u64 \<Rightarrow> SwissProbe" where
  "swiss_find m key hash =
     (if scap m = 0 then \<lparr>index = Some 0, pfound = False, probe_len = 0\<rparr>
      else let num_groups = scap m div SWISS_GROUP_SIZE
           in find_loop m key hash num_groups (swiss_h1 hash AND (num_groups - 1)) 0 0)"

section \<open>Rehashing\<close>

text \<open>The loop that finds a free slot of the new table for an entry.\<close>

partial_function (option) place_loop :: "NuwanSwissMap \<Rightarrow> SwissEntry \<Rightarrow> nat \<Rightarrow> nat \<Rightarrow> NuwanSwissMap option" where
  "place_loop tmp src g step =
     (let cand = swiss_match_empty_or_deleted (group_of (ctrl tmp) g)
      in if cand \<noteq> 0
         then (let idx = g * SWISS_GROUP_SIZE + swiss_ctz16 cand
               in Some (tmp\<lparr>ctrl := (ctrl tmp)[idx := swiss_h2 (ehash src)], sslots := (sslots tmp)[idx := src],
                            ssize := ssize tmp + 1, growth_left := growth_left tmp - 1\<rparr>))
         else place_loop tmp src ((g + (step + 1)) AND (scap tmp div SWISS_GROUP_SIZE - 1)) (step + 1))"

fun transfer :: "NuwanSwissMap \<Rightarrow> (u8 \<times> SwissEntry) list \<Rightarrow> NuwanSwissMap option" where
  "transfer tmp [] = Some tmp"
| "transfer tmp ((c, src) # rest) =
     (if c AND 0x80 \<noteq> 0 then transfer tmp rest
      else Option.bind (place_loop tmp src (swiss_h1 (ehash src) AND (scap tmp div SWISS_GROUP_SIZE - 1)) 0)
             (\<lambda>tmp'. transfer tmp' rest))"

text \<open>\<^verbatim>\<open>NuwanSwissMap tmp = {0}\<close>: every field zero, the arena null.\<close>

definition zero_swiss :: NuwanSwissMap where
  "zero_swiss = \<lparr>sarena = False, ctrl = [], sslots = [], scap = 0, ssize = 0, tombstones = 0,
     growth_left = 0, last_probe_len = 0\<rparr>"

definition swiss_rehash :: "SwissAlloc \<Rightarrow> NuwanSwissMap \<Rightarrow> nat \<Rightarrow> (NuwanSwissMap \<times> bool) option" where
  "swiss_rehash al m new_cap =
     Option.bind (swiss_alloc_arrays al zero_swiss new_cap) (\<lambda>(tmp0, ok).
       if \<not> ok then Some (m, False)
       else Option.bind (transfer tmp0 (zip (ctrl m) (sslots m))) (\<lambda>tmp.
         Some (m\<lparr>ctrl := ctrl tmp, sslots := sslots tmp, scap := scap tmp, ssize := ssize tmp, tombstones := 0,
                 growth_left := swiss_max_load (scap tmp) - ssize tmp\<rparr>, True)))"

definition swiss_rehash_or_grow :: "SwissAlloc \<Rightarrow> NuwanSwissMap \<Rightarrow> (NuwanSwissMap \<times> bool) option" where
  "swiss_rehash_or_grow al m =
     (let max_load = swiss_max_load (scap m)
      in if ssize m + tombstones m > max_load \<and> int (tombstones m) > (int max_load - int (ssize m)) mod 2 ^ 64
         then swiss_rehash al m (scap m)
         else swiss_rehash al m (if scap m \<noteq> 0 then scap m * 2 else SWISS_INIT_CAP))"

section \<open>The public operations\<close>

definition nuwan_swiss_new :: "bool \<Rightarrow> SwissAlloc \<Rightarrow> NuwanSwissMap option" where
  "nuwan_swiss_new ok al =
     (if \<not> ok then None
      else case swiss_alloc_arrays al (zero_swiss\<lparr>sarena := True\<rparr>) SWISS_INIT_CAP of
             Some (m, True) \<Rightarrow> Some m | _ \<Rightarrow> None)"

definition nuwan_swiss_reserve :: "SwissAlloc \<Rightarrow> NuwanSwissMap \<Rightarrow> nat \<Rightarrow> NuwanSwissMap option" where
  "nuwan_swiss_reserve al m expected =
     (let need = (expected * 8 + 6) div 7;
          new_cap = swiss_normalise_cap (if need > SWISS_INIT_CAP then need else SWISS_INIT_CAP)
      in if new_cap > scap m then map_option fst (swiss_rehash al m new_cap) else Some m)"

text \<open>The part of \<^verbatim>\<open>nuwan_swiss_put\<close> that writes a new entry at \<open>i\<close>.\<close>

definition swiss_store :: "SwissAlloc \<Rightarrow> NuwanSwissMap \<Rightarrow> nat \<Rightarrow> string \<Rightarrow> u64 \<Rightarrow> u64 \<Rightarrow> NuwanSwissMap \<times> bool" where
  "swiss_store al m i key hash v =
     (if \<not> al_key al then (m, False)
      else let prev = ctrl m ! i;
               m1 = m\<lparr>ctrl := (ctrl m)[i := swiss_h2 hash],
                      sslots := (sslots m)[i := \<lparr>ehash = hash, ekey = Some key, eval = v\<rparr>], ssize := ssize m + 1\<rparr>
           in if prev = SWISS_CTRL_EMPTY then (m1\<lparr>growth_left := growth_left m1 - 1\<rparr>, True)
              else (m1\<lparr>tombstones := tombstones m1 - 1\<rparr>, True))"

definition nuwan_swiss_put ::
    "SwissAlloc \<Rightarrow> NuwanSwissMap \<Rightarrow> string \<Rightarrow> u64 \<Rightarrow> (NuwanSwissMap \<times> bool) option" where
  "nuwan_swiss_put al m key v =
     Option.bind (if growth_left m = 0 then swiss_rehash_or_grow al m else Some (m, True)) (\<lambda>(m1, ok).
       if \<not> ok then Some (m1, False)
       else let hash = swiss_hash key; p = swiss_find_for_insert m1 key hash;
                m2 = m1\<lparr>last_probe_len := probe_len p\<rparr>
            in case index p of
                 Some i \<Rightarrow>
                   if pfound p then Some (m2\<lparr>sslots := (sslots m2)[i := (sslots m2 ! i)\<lparr>eval := v\<rparr>]\<rparr>, True)
                   else Some (swiss_store al m2 i key hash v)
               | None \<Rightarrow>
                   Option.bind (swiss_rehash_or_grow al m2) (\<lambda>(m3, ok).
                     if \<not> ok then Some (m3, False)
                     else let p' = swiss_find_for_insert m3 key hash; m4 = m3\<lparr>last_probe_len := probe_len p'\<rparr>
                          in case index p' of
                               None \<Rightarrow> Some (m4, False)
                             | Some i \<Rightarrow> Some (swiss_store al m4 i key hash v)))"

definition nuwan_swiss_get_opt :: "NuwanSwissMap \<Rightarrow> string \<Rightarrow> NuwanSwissMap \<times> u64 option" where
  "nuwan_swiss_get_opt m key =
     (let p = swiss_find m key (swiss_hash key)
      in (m\<lparr>last_probe_len := probe_len p\<rparr>,
          if pfound p then Some (eval (sslots m ! the (index p))) else None))"

definition nuwan_swiss_get :: "NuwanSwissMap \<Rightarrow> string \<Rightarrow> NuwanSwissMap \<times> u64" where
  "nuwan_swiss_get m key =
     (let (m', r) = nuwan_swiss_get_opt m key in (m', case r of None \<Rightarrow> 0 | Some v \<Rightarrow> v))"

definition nuwan_swiss_has :: "NuwanSwissMap \<Rightarrow> string \<Rightarrow> NuwanSwissMap \<times> bool" where
  "nuwan_swiss_has m key = (let (m', r) = nuwan_swiss_get_opt m key in (m', r \<noteq> None))"

definition nuwan_swiss_remove :: "NuwanSwissMap \<Rightarrow> string \<Rightarrow> NuwanSwissMap \<times> bool" where
  "nuwan_swiss_remove m key =
     (let p = swiss_find m key (swiss_hash key); m1 = m\<lparr>last_probe_len := probe_len p\<rparr>
      in if \<not> pfound p then (m1, False)
         else let idx = the (index p);
                  m2 = m1\<lparr>sslots := (sslots m1)[idx := empty_entry], ssize := ssize m1 - 1\<rparr>
              in if swiss_match_empty (group_of (ctrl m2) (idx div SWISS_GROUP_SIZE)) \<noteq> 0
                 then (m2\<lparr>ctrl := (ctrl m2)[idx := SWISS_CTRL_EMPTY], growth_left := growth_left m2 + 1\<rparr>, True)
                 else (m2\<lparr>ctrl := (ctrl m2)[idx := SWISS_CTRL_DELETED], tombstones := tombstones m2 + 1\<rparr>, True))"

definition nuwan_swiss_size :: "NuwanSwissMap \<Rightarrow> nat" where
  "nuwan_swiss_size m = ssize m"

definition nuwan_swiss_capacity :: "NuwanSwissMap \<Rightarrow> nat" where
  "nuwan_swiss_capacity m = scap m"

definition nuwan_swiss_clear :: "NuwanSwissMap \<Rightarrow> NuwanSwissMap" where
  "nuwan_swiss_clear m =
     m\<lparr>ctrl := replicate (scap m) SWISS_CTRL_EMPTY, sslots := replicate (scap m) empty_entry, ssize := 0,
       tombstones := 0, growth_left := swiss_max_load (scap m)\<rparr>"

declare scan_lanes.simps [simp del] double_to.simps [simp del]

section \<open>The invariant\<close>

text \<open>
  A rehash allocates from the arena of the zeroed temporary table, which is null: no table ever has more
  than its first sixteen slots.
\<close>

lemma swiss_rehash_crashes: "swiss_rehash al m n = None"
  by (simp add: swiss_rehash_def swiss_alloc_arrays_def zero_swiss_def)

lemma swiss_rehash_or_grow_crashes: "swiss_rehash_or_grow al m = None"
  by (simp add: swiss_rehash_or_grow_def swiss_rehash_crashes Let_def)

definition full_at :: "NuwanSwissMap \<Rightarrow> nat \<Rightarrow> bool" where
  "full_at m i \<longleftrightarrow> ctrl m ! i \<noteq> SWISS_CTRL_EMPTY"

definition full_slots :: "NuwanSwissMap \<Rightarrow> nat set" where
  "full_slots m = {i. i < 16 \<and> full_at m i}"

definition slot_ok :: "NuwanSwissMap \<Rightarrow> nat \<Rightarrow> bool" where
  "slot_ok m i \<longleftrightarrow> (\<exists>k. ekey (sslots m ! i) = Some k \<and> ehash (sslots m ! i) = swiss_hash k
     \<and> ctrl m ! i = swiss_h2 (swiss_hash k))"

definition swiss_inv :: "NuwanSwissMap \<Rightarrow> bool" where
  "swiss_inv m \<longleftrightarrow> sarena m \<and> scap m = 16 \<and> length (ctrl m) = 16 \<and> length (sslots m) = 16
     \<and> tombstones m = 0 \<and> ssize m = card (full_slots m) \<and> ssize m + growth_left m = 14
     \<and> (\<forall>i \<in> full_slots m. slot_ok m i)
     \<and> inj_on (\<lambda>i. ekey (sslots m ! i)) (full_slots m)"

definition swiss_view :: "NuwanSwissMap \<Rightarrow> string \<rightharpoonup> u64" where
  "swiss_view m k = map_option (\<lambda>i. eval (sslots m ! i))
     (find (\<lambda>i. full_at m i \<and> ekey (sslots m ! i) = Some k) [0..<16])"

lemma h2_full: "swiss_h2 h \<noteq> SWISS_CTRL_EMPTY" "swiss_h2 h AND 0x80 = 0"
proof -
  have "\<not> bit (swiss_h2 h) 7" by (simp add: swiss_h2_def bit_simps)
  moreover have "bit SWISS_CTRL_EMPTY 7" by (simp add: SWISS_CTRL_EMPTY_def)
  ultimately show "swiss_h2 h \<noteq> SWISS_CTRL_EMPTY" by metis
  show "swiss_h2 h AND 0x80 = 0" by (rule bit_word_eqI) (auto simp: swiss_h2_def bit_simps numeral_eq_Suc less_Suc_eq)
qed

lemma finite_full_slots [simp]: "finite (full_slots m)"
  by (simp add: full_slots_def)

lemma swiss_view_full:
  assumes "swiss_inv m" and "i \<in> full_slots m" and "ekey (sslots m ! i) = Some k"
  shows "swiss_view m k = Some (eval (sslots m ! i))"
proof (cases "find (\<lambda>i. full_at m i \<and> ekey (sslots m ! i) = Some k) [0..<16]")
  case None
  then show ?thesis using assms by (auto simp: find_None_iff full_slots_def)
next
  case (Some j)
  then have "j \<in> full_slots m" "ekey (sslots m ! j) = Some k"
    by (auto simp: find_Some_iff full_slots_def)
  moreover have "inj_on (\<lambda>i. ekey (sslots m ! i)) (full_slots m)" using assms(1) by (simp add: swiss_inv_def)
  ultimately have "j = i" using assms(2,3) by (metis inj_onD)
  with Some show ?thesis by (simp add: swiss_view_def)
qed

lemma swiss_view_None:
  "swiss_view m k = None \<longleftrightarrow> (\<forall>i \<in> full_slots m. ekey (sslots m ! i) \<noteq> Some k)"
  by (auto simp: swiss_view_def find_None_iff full_slots_def)

section \<open>The probe of a one-group table\<close>

lemma scan_lanes_Some:
  "scan_lanes sl g key hash match = Some idx \<Longrightarrow>
   \<exists>b. bit match b \<and> idx = g * SWISS_GROUP_SIZE + b \<and> ehash (sl ! idx) = hash \<and> ekey (sl ! idx) = Some key"
proof (induction sl g key hash match rule: scan_lanes.induct)
  case (1 sl g key hash match)
  have nz: "match \<noteq> 0" using 1(2) by (subst (asm) scan_lanes.simps) (auto split: if_splits)
  let ?idx = "g * SWISS_GROUP_SIZE + swiss_ctz16 match"
  show ?case
  proof (cases "ehash (sl ! ?idx) = hash \<and> ekey (sl ! ?idx) = Some key")
    case True
    then have "idx = ?idx" using 1(2) nz by (subst (asm) scan_lanes.simps) (simp add: Let_def)
    then show ?thesis using True ctz_lowest(1)[OF nz] by blast
  next
    case False
    then have "scan_lanes sl g key hash (match AND (match - 1)) = Some idx"
      using 1(2) nz by (subst (asm) scan_lanes.simps) (auto simp: Let_def split: if_splits)
    then show ?thesis using 1(1)[OF nz refl refl False] bit_and_pred[OF nz] by blast
  qed
qed

lemma scan_lanes_None:
  "scan_lanes sl g key hash match = None \<Longrightarrow> bit match b \<Longrightarrow>
   \<not> (ehash (sl ! (g * SWISS_GROUP_SIZE + b)) = hash \<and> ekey (sl ! (g * SWISS_GROUP_SIZE + b)) = Some key)"
proof (induction sl g key hash match rule: scan_lanes.induct)
  case (1 sl g key hash match)
  have nz: "match \<noteq> 0" using 1(3) by auto
  let ?idx = "g * SWISS_GROUP_SIZE + swiss_ctz16 match"
  have no: "\<not> (ehash (sl ! ?idx) = hash \<and> ekey (sl ! ?idx) = Some key)"
    using 1(2) nz by (subst (asm) scan_lanes.simps) (auto simp: Let_def split: if_splits)
  show ?case
  proof (cases "b = swiss_ctz16 match")
    case False
    have "scan_lanes sl g key hash (match AND (match - 1)) = None"
      using 1(2) nz no by (subst (asm) scan_lanes.simps) (auto simp: Let_def split: if_splits)
    then show ?thesis using 1(1)[OF nz refl refl no] bit_and_pred[OF nz] 1(3) False by blast
  qed (use no in simp)
qed

lemma empty_count:
  assumes "swiss_inv m"
  shows "\<exists>i < 16. \<not> full_at m i"
proof (rule ccontr)
  assume "\<not> ?thesis"
  then have "full_slots m = {..<16}" by (auto simp: full_slots_def)
  then have "card (full_slots m) = 16" by simp
  then show False using assms by (auto simp: swiss_inv_def)
qed

lemma group_of_0: "length ctl = 16 \<Longrightarrow> group_of ctl 0 = ctl"
  by (simp add: group_of_def SWISS_GROUP_SIZE_def)

lemma match_empty_nonzero: "swiss_inv m \<Longrightarrow> swiss_match_empty (ctrl m) \<noteq> 0"
  using empty_count[of m] by (auto simp: swiss_match_empty_def swiss_match_byte_def lane_mask_zero full_at_def)

text \<open>What the scan of the only group finds.\<close>

lemma scan_group:
  assumes "swiss_inv m"
  shows "scan_lanes (sslots m) 0 k (swiss_hash k) (swiss_match_byte (ctrl m) (swiss_h2 (swiss_hash k))) = Some i \<Longrightarrow>
      i \<in> full_slots m \<and> ekey (sslots m ! i) = Some k"
    and "scan_lanes (sslots m) 0 k (swiss_hash k) (swiss_match_byte (ctrl m) (swiss_h2 (swiss_hash k))) = None \<Longrightarrow>
      swiss_view m k = None"
proof -
  have bits: "bit (swiss_match_byte (ctrl m) c) b \<longleftrightarrow> b < 16 \<and> ctrl m ! b = c" for c b
    by (simp add: swiss_match_byte_def bit_lane_mask)
  {
    assume "scan_lanes (sslots m) 0 k (swiss_hash k) (swiss_match_byte (ctrl m) (swiss_h2 (swiss_hash k))) = Some i"
    from scan_lanes_Some[OF this] show "i \<in> full_slots m \<and> ekey (sslots m ! i) = Some k"
      using h2_full(1) by (auto simp: bits full_slots_def full_at_def)
  next
    assume n: "scan_lanes (sslots m) 0 k (swiss_hash k) (swiss_match_byte (ctrl m) (swiss_h2 (swiss_hash k))) = None"
    show "swiss_view m k = None"
      unfolding swiss_view_None
    proof (intro ballI notI)
      fix i assume i: "i \<in> full_slots m" "ekey (sslots m ! i) = Some k"
      then have "slot_ok m i" using assms by (simp add: swiss_inv_def)
      then have "ehash (sslots m ! i) = swiss_hash k" "ctrl m ! i = swiss_h2 (swiss_hash k)"
        using i(2) by (auto simp: slot_ok_def)
      then show False using scan_lanes_None[OF n, of i] i by (auto simp: bits full_slots_def)
    qed
  }
qed

lemma swiss_find_cases:
  assumes "swiss_inv m"
  obtains i where "swiss_find m k (swiss_hash k) = \<lparr>index = Some i, pfound = True, probe_len = 1\<rparr>"
      "i \<in> full_slots m" "ekey (sslots m ! i) = Some k"
  | "swiss_find m k (swiss_hash k) = \<lparr>index = Some 0, pfound = False, probe_len = 1\<rparr>" "swiss_view m k = None"
proof -
  have m: "scap m = 16" "length (ctrl m) = 16" using assms by (auto simp: swiss_inv_def)
  let ?scan = "scan_lanes (sslots m) 0 k (swiss_hash k) (swiss_match_byte (ctrl m) (swiss_h2 (swiss_hash k)))"
  have f: "swiss_find m k (swiss_hash k) = (case ?scan of
      Some i \<Rightarrow> \<lparr>index = Some i, pfound = True, probe_len = 1\<rparr> | None \<Rightarrow> \<lparr>index = Some 0, pfound = False, probe_len = 1\<rparr>)"
    using m match_empty_nonzero[OF assms]
    by (simp add: swiss_find_def SWISS_GROUP_SIZE_def[symmetric] group_of_0[OF m(2)] Let_def split: option.split)
      (simp add: SWISS_GROUP_SIZE_def)
  show ?thesis
    using that scan_group[OF assms] f by (cases ?scan) auto
qed

lemma swiss_find_for_insert_cases:
  assumes "swiss_inv m"
  obtains i where "swiss_find_for_insert m k (swiss_hash k) = \<lparr>index = Some i, pfound = True, probe_len = 1\<rparr>"
      "i \<in> full_slots m" "ekey (sslots m ! i) = Some k"
  | i where "swiss_find_for_insert m k (swiss_hash k) = \<lparr>index = Some i, pfound = False, probe_len = 1\<rparr>"
      "i < 16" "\<not> full_at m i" "swiss_view m k = None"
proof -
  have m: "scap m = 16" "length (ctrl m) = 16" using assms by (auto simp: swiss_inv_def)
  let ?scan = "scan_lanes (sslots m) 0 k (swiss_hash k) (swiss_match_byte (ctrl m) (swiss_h2 (swiss_hash k)))"
  let ?cand = "swiss_match_empty_or_deleted (ctrl m)"
  have lanes: "ctrl m ! i AND 0x80 \<noteq> 0 \<longleftrightarrow> \<not> full_at m i" if "i < 16" for i
  proof (cases "full_at m i")
    case True
    then have "slot_ok m i" using assms that by (auto simp: swiss_inv_def full_slots_def)
    then show ?thesis using True h2_full(2) by (auto simp: slot_ok_def)
  qed (simp add: full_at_def SWISS_CTRL_EMPTY_def)
  have nz: "?cand \<noteq> 0"
    using empty_count[OF assms] lanes by (auto simp: swiss_match_empty_or_deleted_def lane_mask_zero)
  have c: "swiss_ctz16 ?cand < 16" "\<not> full_at m (swiss_ctz16 ?cand)"
    using ctz_lowest(1)[OF nz] lanes by (auto simp: swiss_match_empty_or_deleted_def bit_lane_mask)
  have f: "swiss_find_for_insert m k (swiss_hash k) = (case ?scan of
      Some i \<Rightarrow> \<lparr>index = Some i, pfound = True, probe_len = 1\<rparr>
    | None \<Rightarrow> \<lparr>index = Some (swiss_ctz16 ?cand), pfound = False, probe_len = 1\<rparr>)"
    using m match_empty_nonzero[OF assms] nz
    by (simp add: swiss_find_for_insert_def SWISS_GROUP_SIZE_def[symmetric] group_of_0[OF m(2)] Let_def split: option.split)
      (simp add: SWISS_GROUP_SIZE_def)
  show ?thesis
    using that scan_group[OF assms] f c by (cases ?scan) auto
qed

section \<open>The operations\<close>

text \<open>Writing a new key into an empty slot.\<close>

lemma store_inv:
  fixes v :: u64
  assumes inv: "swiss_inv m" and i: "i < 16" "\<not> full_at m i" and new: "swiss_view m k = None"
    and room: "0 < growth_left m"
  defines "m' \<equiv> m\<lparr>ctrl := (ctrl m)[i := swiss_h2 (swiss_hash k)],
      sslots := (sslots m)[i := \<lparr>ehash = swiss_hash k, ekey = Some k, eval = v\<rparr>], ssize := ssize m + 1,
      growth_left := growth_left m - 1\<rparr>"
  shows "swiss_inv m'" and "swiss_view m' = (swiss_view m)(k \<mapsto> v)"
proof -
  have len: "length (ctrl m) = 16" "length (sslots m) = 16" using inv by (auto simp: swiss_inv_def)
  have fs: "full_slots m' = insert i (full_slots m)"
    using len i(1) h2_full(1) by (auto simp: m'_def full_slots_def full_at_def nth_list_update)
  have ni: "i \<notin> full_slots m" using i by (simp add: full_slots_def)
  have old: "ctrl m' ! j = ctrl m ! j" "sslots m' ! j = sslots m ! j" if "j \<in> full_slots m" for j
  proof -
    have "i \<noteq> j" using that ni by auto
    then show "ctrl m' ! j = ctrl m ! j" "sslots m' ! j = sslots m ! j" by (simp_all add: m'_def)
  qed
  have at: "ctrl m' ! i = swiss_h2 (swiss_hash k)" "sslots m' ! i = \<lparr>ehash = swiss_hash k, ekey = Some k, eval = v\<rparr>"
    using len i(1) by (simp_all add: m'_def)
  have "slot_ok m' j" if "j \<in> full_slots m'" for j
    using that inv old[of j] at fs by (cases "j = i") (auto simp: slot_ok_def swiss_inv_def)
  moreover have "inj_on (\<lambda>j. ekey (sslots m' ! j)) (full_slots m')"
  proof -
    have "inj_on (\<lambda>j. ekey (sslots m' ! j)) (full_slots m)"
      using inv by (simp add: swiss_inv_def old cong: inj_on_cong)
    moreover have "Some k \<noteq> ekey (sslots m' ! j)" if "j \<in> full_slots m" for j
      using that new by (auto simp: swiss_view_None old)
    ultimately show ?thesis using ni at by (auto simp: fs)
  qed
  moreover have "card (full_slots m') = Suc (card (full_slots m))" using ni by (simp add: fs)
  ultimately show inv': "swiss_inv m'" using inv room by (auto simp: swiss_inv_def m'_def)
  show "swiss_view m' = (swiss_view m)(k \<mapsto> v)"
  proof
    fix k'
    show "swiss_view m' k' = ((swiss_view m)(k \<mapsto> v)) k'"
    proof (cases "k' = k")
      case True
      then show ?thesis using swiss_view_full[OF inv', of i k] at fs by simp
    next
      case False
      show ?thesis
      proof (cases "swiss_view m k'")
        case None
        then have "swiss_view m' k' = None" using False at by (auto simp: swiss_view_None fs old)
        with None False show ?thesis by simp
      next
        case (Some w)
        then obtain j where j: "j \<in> full_slots m" "ekey (sslots m ! j) = Some k'"
          using swiss_view_None[of m k'] by auto
        then show ?thesis
          using swiss_view_full[OF inv j] swiss_view_full[OF inv', of j k'] old[OF j(1)] fs False by simp
      qed
    qed
  qed
qed

lemma update_inv:
  fixes v :: u64
  assumes inv: "swiss_inv m" and i: "i \<in> full_slots m" "ekey (sslots m ! i) = Some k"
  defines "m' \<equiv> m\<lparr>sslots := (sslots m)[i := (sslots m ! i)\<lparr>eval := v\<rparr>]\<rparr>"
  shows "swiss_inv m'" and "swiss_view m' = (swiss_view m)(k \<mapsto> v)"
proof -
  have len: "length (sslots m) = 16" "i < 16" using inv i by (auto simp: swiss_inv_def full_slots_def)
  have same: "ekey (sslots m' ! j) = ekey (sslots m ! j)" "ehash (sslots m' ! j) = ehash (sslots m ! j)"
      "ctrl m' = ctrl m" for j
    using len by (cases "j = i"; simp add: m'_def)+
  have fs: "full_slots m' = full_slots m" by (simp add: full_slots_def full_at_def same)
  have "slot_ok m' j = slot_ok m j" for j by (simp add: slot_ok_def same)
  then show inv': "swiss_inv m'" using inv fs by (simp add: swiss_inv_def same) (simp add: m'_def)
  show "swiss_view m' = (swiss_view m)(k \<mapsto> v)"
  proof
    fix k'
    show "swiss_view m' k' = ((swiss_view m)(k \<mapsto> v)) k'"
    proof (cases "swiss_view m k'")
      case None
      then have "k' \<noteq> k" "swiss_view m' k' = None" using i by (auto simp: swiss_view_None fs same)
      with None show ?thesis by simp
    next
      case (Some w)
      then obtain j where j: "j \<in> full_slots m" "ekey (sslots m ! j) = Some k'"
        using swiss_view_None[of m k'] by auto
      then have "swiss_view m' k' = Some (eval (sslots m' ! j))" "swiss_view m k' = Some (eval (sslots m ! j))"
        using swiss_view_full[OF inv j] swiss_view_full[OF inv', of j k'] by (simp_all add: fs same)
      moreover have "j = i \<longleftrightarrow> k' = k" using i j inv by (auto simp: swiss_inv_def inj_on_def)
      ultimately show ?thesis using len by (auto simp: m'_def)
    qed
  qed
qed

text \<open>Emptying the slot of a key.\<close>

lemma remove_inv:
  assumes inv: "swiss_inv m" and i: "i \<in> full_slots m" "ekey (sslots m ! i) = Some k"
  defines "m' \<equiv> m\<lparr>sslots := (sslots m)[i := empty_entry], ssize := ssize m - 1,
      ctrl := (ctrl m)[i := SWISS_CTRL_EMPTY], growth_left := growth_left m + 1\<rparr>"
  shows "swiss_inv m'" and "swiss_view m' = (swiss_view m)(k := None)"
proof -
  have len: "length (sslots m) = 16" "length (ctrl m) = 16" "i < 16"
    using inv i by (auto simp: swiss_inv_def full_slots_def)
  have fs: "full_slots m' = full_slots m - {i}"
    using len by (auto simp: m'_def full_slots_def full_at_def nth_list_update)
  have old: "ctrl m' ! j = ctrl m ! j" "sslots m' ! j = sslots m ! j" if "j \<noteq> i" for j
    using that by (auto simp: m'_def)
  have "slot_ok m' j" if "j \<in> full_slots m'" for j
    using that inv old[of j] fs by (auto simp: slot_ok_def swiss_inv_def)
  moreover have "inj_on (\<lambda>j. ekey (sslots m' ! j)) (full_slots m')"
    using inv unfolding fs inj_on_def swiss_inv_def by (auto simp: old)
  moreover have "card (full_slots m') = card (full_slots m) - 1" "0 < card (full_slots m)"
    using i by (auto simp: fs card_gt_0_iff)
  ultimately show inv': "swiss_inv m'" using inv len by (auto simp: swiss_inv_def m'_def)
  show "swiss_view m' = (swiss_view m)(k := None)"
  proof
    fix k'
    show "swiss_view m' k' = ((swiss_view m)(k := None)) k'"
    proof (cases "swiss_view m k'")
      case None
      then have "swiss_view m' k' = None" by (auto simp: swiss_view_None fs old)
      with None show ?thesis by simp
    next
      case (Some w)
      then obtain j where j: "j \<in> full_slots m" "ekey (sslots m ! j) = Some k'"
        using swiss_view_None[of m k'] by auto
      have ji: "j = i \<longleftrightarrow> k' = k" using i j inv by (auto simp: swiss_inv_def inj_on_def)
      show ?thesis
      proof (cases "k' = k")
        case True
        have "ekey (sslots m ! x) \<noteq> Some k" if "x \<in> full_slots m" "x \<noteq> i" for x
          using that i inv by (auto simp: swiss_inv_def inj_on_def)
        then have "swiss_view m' k = None" by (auto simp: swiss_view_None fs old)
        with True show ?thesis by simp
      next
        case False
        then show ?thesis
          using swiss_view_full[OF inv j] swiss_view_full[OF inv', of j k'] j ji old[of j] by (simp add: fs)
      qed
    qed
  qed
qed

lemma probe_len_frame [simp]:
  "swiss_inv (m\<lparr>last_probe_len := n\<rparr>) = swiss_inv m" "swiss_view (m\<lparr>last_probe_len := n\<rparr>) = swiss_view m"
  "full_slots (m\<lparr>last_probe_len := n\<rparr>) = full_slots m" "full_at (m\<lparr>last_probe_len := n\<rparr>) i = full_at m i"
  by (simp_all add: swiss_inv_def swiss_view_def full_slots_def full_at_def slot_ok_def fun_eq_iff)

lemma nuwan_swiss_put_spec:
  assumes inv: "swiss_inv m" and room: "0 < growth_left m" and key: "al_key al"
  shows "\<exists>m'. nuwan_swiss_put al m k v = Some (m', True) \<and> swiss_inv m' \<and> swiss_view m' = (swiss_view m)(k \<mapsto> v)
    \<and> growth_left m \<le> Suc (growth_left m')"
proof -
  let ?m = "m\<lparr>last_probe_len := 1\<rparr>"
  have inv1: "swiss_inv ?m" using inv by simp
  show ?thesis
  proof (cases rule: swiss_find_for_insert_cases[OF inv, of k])
    case (1 i)
    then have i: "i \<in> full_slots ?m" "ekey (sslots ?m ! i) = Some k" by simp_all
    show ?thesis using update_inv[OF inv1 i, of v] 1(1) room by (simp add: nuwan_swiss_put_def Let_def)
  next
    case (2 i)
    then have i: "i < 16" "\<not> full_at ?m i" "swiss_view ?m k = None" "0 < growth_left ?m" using room by simp_all
    have "ctrl m ! i = SWISS_CTRL_EMPTY" using 2 by (simp add: full_at_def)
    then show ?thesis
      using store_inv[OF inv1 i, of v] 2(1) room key by (simp add: nuwan_swiss_put_def swiss_store_def Let_def)
  qed
qed

lemma nuwan_swiss_get_opt_spec:
  assumes "swiss_inv m"
  shows "nuwan_swiss_get_opt m k = (m\<lparr>last_probe_len := 1\<rparr>, swiss_view m k)"
  by (cases rule: swiss_find_cases[OF assms, of k])
    (simp_all add: nuwan_swiss_get_opt_def Let_def swiss_view_full[OF assms])

lemma nuwan_swiss_remove_spec:
  assumes inv: "swiss_inv m"
  shows "swiss_inv (fst (nuwan_swiss_remove m k)) \<and> snd (nuwan_swiss_remove m k) = (swiss_view m k \<noteq> None)
    \<and> swiss_view (fst (nuwan_swiss_remove m k)) = (swiss_view m)(k := None)
    \<and> growth_left m \<le> growth_left (fst (nuwan_swiss_remove m k))"
proof (cases rule: swiss_find_cases[OF inv, of k])
  case (1 i)
  let ?m = "m\<lparr>last_probe_len := 1\<rparr>"
  have i: "swiss_inv ?m" "i \<in> full_slots ?m" "ekey (sslots ?m ! i) = Some k" using inv 1 by simp_all
  have "i < 16" "length (ctrl m) = 16" using 1(2) inv by (auto simp: full_slots_def swiss_inv_def)
  then have g: "group_of (ctrl m) (i div SWISS_GROUP_SIZE) = ctrl m"
    using group_of_0[of "ctrl m"] by (simp add: SWISS_GROUP_SIZE_def)
  have "swiss_view m k \<noteq> None" using swiss_view_full[OF inv 1(2,3)] by simp
  then show ?thesis
    using remove_inv[OF i] 1(1) g match_empty_nonzero[OF inv] by (simp add: nuwan_swiss_remove_def Let_def)
next
  case 2
  then show ?thesis using inv by (simp add: nuwan_swiss_remove_def Let_def fun_upd_idem)
qed

lemma swiss_size_view:
  assumes inv: "swiss_inv m"
  shows "ssize m = card (dom (swiss_view m))"
proof -
  have "Some ` dom (swiss_view m) = (\<lambda>i. ekey (sslots m ! i)) ` full_slots m" (is "?A = ?B")
  proof
    show "?A \<subseteq> ?B"
    proof
      fix x assume "x \<in> ?A"
      then obtain k where k: "x = Some k" "swiss_view m k \<noteq> None" by auto
      then obtain i where "i \<in> full_slots m" "ekey (sslots m ! i) = Some k" using swiss_view_None[of m k] by auto
      then show "x \<in> ?B" using k by (auto intro: rev_image_eqI)
    qed
    show "?B \<subseteq> ?A"
    proof
      fix x assume "x \<in> ?B"
      then obtain i where i: "i \<in> full_slots m" "x = ekey (sslots m ! i)" by auto
      then obtain k where "ekey (sslots m ! i) = Some k" using inv by (auto simp: swiss_inv_def slot_ok_def)
      then show "x \<in> ?A" using swiss_view_full[OF inv i(1)] i(2) by auto
    qed
  qed
  moreover have "card ?B = card (full_slots m)" using inv by (simp add: swiss_inv_def card_image)
  moreover have "card ?A = card (dom (swiss_view m))" by (simp add: card_image)
  ultimately show ?thesis using inv by (simp add: swiss_inv_def)
qed

text \<open>The put that its clients call, whose Boolean result is dropped.\<close>

definition swiss_put :: "SwissAlloc \<Rightarrow> NuwanSwissMap \<Rightarrow> string \<Rightarrow> u64 \<Rightarrow> NuwanSwissMap option" where
  "swiss_put al m k v = map_option fst (nuwan_swiss_put al m k v)"

interpretation swiss: string_map_del swiss_inv swiss_view "\<lambda>al k. al_key al" "\<lambda>m n. n \<le> growth_left m"
  swiss_put "\<lambda>m k. Some (snd (nuwan_swiss_get m k))" "\<lambda>m k. Some (snd (nuwan_swiss_has m k))"
  nuwan_swiss_size nuwan_swiss_remove
proof unfold_locales
  fix m k n v and al :: SwissAlloc
  assume "swiss_inv m" "al_key al" "Suc n \<le> growth_left m"
  then show "\<exists>m'. swiss_put al m k v = Some m' \<and> swiss_inv m' \<and> n \<le> growth_left m'
      \<and> swiss_view m' = (swiss_view m)(k \<mapsto> v)"
    using nuwan_swiss_put_spec[of m al k v] by (auto simp: swiss_put_def)
next
  fix m k n
  assume inv: "swiss_inv m"
  show "Some (snd (nuwan_swiss_get m k)) = Some (found (swiss_view m k))"
    by (simp add: nuwan_swiss_get_def nuwan_swiss_get_opt_spec[OF inv] found_def)
  show "Some (snd (nuwan_swiss_has m k)) = Some (swiss_view m k \<noteq> None)"
    by (simp add: nuwan_swiss_has_def nuwan_swiss_get_opt_spec[OF inv])
  show "nuwan_swiss_size m = card (dom (swiss_view m))"
    by (simp add: nuwan_swiss_size_def swiss_size_view[OF inv])
  show "swiss_inv (fst (nuwan_swiss_remove m k)) \<and> snd (nuwan_swiss_remove m k) = (swiss_view m k \<noteq> None)
      \<and> swiss_view (fst (nuwan_swiss_remove m k)) = (swiss_view m)(k := None)"
    using nuwan_swiss_remove_spec[OF inv, of k] by blast
  show "n \<le> growth_left m \<Longrightarrow> n \<le> growth_left (fst (nuwan_swiss_remove m k))"
    using nuwan_swiss_remove_spec[OF inv, of k] by linarith
qed

lemma nuwan_swiss_new_spec:
  assumes "nuwan_swiss_new ok al = Some m"
  shows "swiss_inv m" and "swiss_view m = Map.empty" and "growth_left m = 14"
proof -
  have m: "m = zero_swiss\<lparr>sarena := True, ctrl := replicate 16 SWISS_CTRL_EMPTY, sslots := replicate 16 empty_entry,
      scap := 16, growth_left := 14\<rparr>"
    using assms by (auto simp: nuwan_swiss_new_def swiss_alloc_arrays_def zero_swiss_def SWISS_INIT_CAP_def
        swiss_max_load_def split: if_splits)
  have fs: "full_slots m = {}" by (auto simp: full_slots_def full_at_def m)
  show "swiss_inv m" by (simp add: swiss_inv_def fs) (simp add: m zero_swiss_def)
  show "swiss_view m = Map.empty" using swiss_view_None[of m] fs by (auto simp: fun_eq_iff)
  show "growth_left m = 14" by (simp add: m)
qed

section \<open>What the clients see\<close>

text \<open>C23: From a new Swiss table, any sequence of puts and removes with at most fourteen puts returns,
  and it has the effect of the same sequence on a finite map: lookups, membership and size agree with it
  for every key, whatever tags collide and whichever slots are reused.\<close>

theorem nuwan_swiss_refines_map:
  assumes "nuwan_swiss_new ok al = Some m" and "puts_of ops \<le> 14" and "\<And>r k v. MPut r k v \<in> set ops \<Longrightarrow> al_key r"
  shows "\<exists>m'. run_map_ops swiss_put nuwan_swiss_remove ops m = Some m' \<and> swiss_inv m'
    \<and> (\<forall>k. snd (nuwan_swiss_get m' k) = found (spec_map_ops ops Map.empty k))
    \<and> (\<forall>k. snd (nuwan_swiss_has m' k) = (spec_map_ops ops Map.empty k \<noteq> None))
    \<and> nuwan_swiss_size m' = card (dom (spec_map_ops ops Map.empty))"
proof -
  note n = nuwan_swiss_new_spec[OF assms(1)]
  obtain m' where m': "run_map_ops swiss_put nuwan_swiss_remove ops m = Some m'" "swiss_inv m'"
      "swiss_view m' = spec_map_ops ops Map.empty"
    using swiss.run_map_ops_view[OF n(1), of ops] assms(2,3) n(2,3) by auto
  then show ?thesis
    using swiss.get_law[OF m'(2)] swiss.has_law[OF m'(2)] swiss.size_law[OF m'(2)] by auto
qed

definition all_ok :: SwissAlloc where
  "all_ok = \<lparr>al_ctrl = True, al_slots = True, al_key = True\<rparr>"

definition sample_swiss :: NuwanSwissMap where
  "sample_swiss = \<lparr>sarena = True, ctrl = replicate 16 SWISS_CTRL_EMPTY, sslots = replicate 16 empty_entry, scap = 16,
     ssize = 0, tombstones = 0, growth_left = 14, last_probe_len = 0\<rparr>"

lemma sample_swiss_new: "nuwan_swiss_new True all_ok = Some sample_swiss"
  by (simp add: nuwan_swiss_new_def swiss_alloc_arrays_def zero_swiss_def SWISS_INIT_CAP_def swiss_max_load_def
      sample_swiss_def all_ok_def)

theorem nuwan_swiss_refines_map_witness:
  "\<exists>m'. run_map_ops swiss_put nuwan_swiss_remove
      [MPut all_ok ''A'' 1, MPut all_ok ''Q'' 2, MDel ''A'', MPut all_ok ''B'' 3] sample_swiss = Some m'
    \<and> snd (nuwan_swiss_get m' ''Q'') = 2 \<and> \<not> snd (nuwan_swiss_has m' ''A'') \<and> snd (nuwan_swiss_get m' ''B'') = 3"
proof -
  let ?ops = "[MPut all_ok ''A'' 1, MPut all_ok ''Q'' 2, MDel ''A'', MPut all_ok ''B'' 3]"
  have "puts_of ?ops \<le> 14" by simp
  moreover have "al_key r" if "MPut r k v \<in> set ?ops" for r k v using that by (auto simp: all_ok_def)
  ultimately obtain m' where "run_map_ops swiss_put nuwan_swiss_remove ?ops sample_swiss = Some m'"
    "\<And>k. snd (nuwan_swiss_get m' k) = found (spec_map_ops ?ops Map.empty k)"
    "\<And>k. snd (nuwan_swiss_has m' k) = (spec_map_ops ?ops Map.empty k \<noteq> None)"
    using nuwan_swiss_refines_map[OF sample_swiss_new, of ?ops] by blast
  then show ?thesis by (simp add: found_def)
qed

text \<open>A table with fourteen keys takes no further put: the call dereferences a null arena, whichever
  key it is given, even one already in the table.  With fewer keys a put never crashes.  The documented
  growth never happens.\<close>

theorem nuwan_swiss_put_crashes_iff_full:
  assumes "swiss_inv m"
  shows "nuwan_swiss_put al m k v = None \<longleftrightarrow> nuwan_swiss_size m = 14"
proof (cases "growth_left m = 0")
  case True
  then show ?thesis
    using assms by (simp add: nuwan_swiss_put_def swiss_rehash_or_grow_crashes nuwan_swiss_size_def swiss_inv_def)
next
  case False
  moreover have "nuwan_swiss_put al m k v \<noteq> None"
    by (cases rule: swiss_find_for_insert_cases[OF assms, of k]) (use False in \<open>simp_all add: nuwan_swiss_put_def Let_def\<close>)
  ultimately show ?thesis using assms by (auto simp: nuwan_swiss_size_def swiss_inv_def)
qed

definition fourteen_puts :: "SwissAlloc map_op list" where
  "fourteen_puts = map (\<lambda>c. MPut all_ok [c] 7) ''abcdefghijklmn''"

theorem nuwan_swiss_put_crashes_iff_full_witness:
  "\<exists>m. run_map_ops swiss_put nuwan_swiss_remove fourteen_puts sample_swiss = Some m
    \<and> snd (nuwan_swiss_has m ''a'') \<and> nuwan_swiss_put all_ok m ''a'' 8 = None"
proof -
  note n = nuwan_swiss_new_spec[OF sample_swiss_new]
  have "al_key r" if "MPut r k v \<in> set fourteen_puts" for r k v using that by (auto simp: fourteen_puts_def all_ok_def)
  moreover have "puts_of fourteen_puts \<le> 14" by (simp add: fourteen_puts_def)
  ultimately obtain m where m: "run_map_ops swiss_put nuwan_swiss_remove fourteen_puts sample_swiss = Some m" "swiss_inv m"
      "swiss_view m = spec_map_ops fourteen_puts Map.empty"
    using swiss.run_map_ops_view[OF n(1), of fourteen_puts] n(2,3) by auto
  have "nuwan_swiss_size m = 14"
    unfolding nuwan_swiss_size_def swiss_size_view[OF m(2)] m(3) by (simp add: fourteen_puts_def)
  then have "nuwan_swiss_put all_ok m ''a'' 8 = None"
    by (simp add: nuwan_swiss_put_crashes_iff_full[OF m(2)])
  moreover have "snd (nuwan_swiss_has m ''a'')"
    using swiss.has_law[OF m(2), of "''a''"] m(3) by (simp add: fourteen_puts_def)
  ultimately show ?thesis using m(1) by blast
qed

end
