(* ===== verification/Net_Ringbuf.thy ===== *)
theory Net_Ringbuf
  imports Fifo
begin

text \<open>
  The single-producer single-consumer byte ring of \<^verbatim>\<open>runtime/net/ringbuf.c\<close>.  The indices are
  free-running 64-bit counters: they wrap at \<open>2 ^ 64\<close>, and the position in the buffer is the
  counter masked with the power-of-two capacity.  Pointers are non-null; a call is one atomic step
  (each index has one writer).
\<close>

record CxRingBuffer =
  rbuf :: "u8 list"
  capacity :: u64
  rmask :: u64
  write_idx :: u64
  read_idx :: u64

definition cx_is_pow2 :: "u64 \<Rightarrow> bool" where
  "cx_is_pow2 v \<longleftrightarrow> v \<noteq> 0 \<and> v AND (v - 1) = 0"

text \<open>
  The two flags say whether the arena had room for the record and for the buffer; the arena hands
  out zeroed memory.
\<close>

definition cx_ringbuf_create :: "bool \<Rightarrow> bool \<Rightarrow> u64 \<Rightarrow> CxRingBuffer option" where
  "cx_ringbuf_create ok1 ok2 cap =
     (if \<not> cx_is_pow2 cap then None
      else if \<not> ok1 then None
      else if \<not> ok2 then None
      else Some \<lparr>rbuf = replicate (unat cap) 0, capacity = cap, rmask = cap - 1, write_idx = 0, read_idx = 0\<rparr>)"

definition cx_ringbuf_available_read :: "CxRingBuffer \<Rightarrow> u64" where
  "cx_ringbuf_available_read rb = write_idx rb - read_idx rb"

definition cx_ringbuf_available_write :: "CxRingBuffer \<Rightarrow> u64" where
  "cx_ringbuf_available_write rb = capacity rb - cx_ringbuf_available_read rb"

text \<open>\<open>None\<close> stands for the failed assertion.\<close>

definition cx_ringbuf_write :: "CxRingBuffer \<Rightarrow> u8 list \<Rightarrow> (CxRingBuffer \<times> nat) option" where
  "cx_ringbuf_write rb data =
     (if data = [] then Some (rb, 0)
      else
        (let w = write_idx rb; used = w - read_idx rb
         in if \<not> used \<le> capacity rb then None
            else
              (let free_space = unat (capacity rb - used);
                   n = (if length data < free_space then length data else free_space);
                   write_pos = unat (w AND rmask rb);
                   to_end = unat (capacity rb) - write_pos;
                   first = (if n > to_end then to_end else n);
                   buf1 = overwrite (rbuf rb) write_pos (take first data);
                   buf2 = (if n > first then overwrite buf1 0 (take (n - first) (drop first data)) else buf1)
               in Some (rb\<lparr>rbuf := buf2, write_idx := w + of_nat n\<rparr>, n))))"

definition cx_ringbuf_read :: "CxRingBuffer \<Rightarrow> nat \<Rightarrow> CxRingBuffer \<times> u8 list" where
  "cx_ringbuf_read rb len =
     (if len = 0 then (rb, [])
      else
        (let r = read_idx rb; used = write_idx rb - r
         in if used = 0 then (rb, [])
            else
              (let n = (if len < unat used then len else unat used);
                   read_pos = unat (r AND rmask rb);
                   to_end = unat (capacity rb) - read_pos;
                   first = (if n > to_end then to_end else n);
                   out = take first (drop read_pos (rbuf rb))
                         @ (if n > first then take (n - first) (rbuf rb) else [])
               in (rb\<lparr>read_idx := r + of_nat n\<rparr>, out))))"

section \<open>The ring holds a byte stream\<close>

definition ring_inv :: "CxRingBuffer \<Rightarrow> bool" where
  "ring_inv rb \<longleftrightarrow> cx_is_pow2 (capacity rb) \<and> length (rbuf rb) = unat (capacity rb)
     \<and> rmask rb = capacity rb - 1 \<and> cx_ringbuf_available_read rb \<le> capacity rb"

definition ring_contents :: "CxRingBuffer \<Rightarrow> u8 list" where
  "ring_contents rb = cyc (rbuf rb) (unat (read_idx rb)) (unat (cx_ringbuf_available_read rb))"

text \<open>What the invariant gives in terms of natural numbers.\<close>

lemma ring_facts:
  assumes "ring_inv rb"
  obtains k where "k < 64" "unat (capacity rb) = 2 ^ k" "length (rbuf rb) = 2 ^ k"
    "\<And>x. unat (x AND rmask rb) = unat x mod 2 ^ k"
    "unat (write_idx rb - read_idx rb) \<le> 2 ^ k"
    "unat (write_idx rb) mod 2 ^ k = (unat (read_idx rb) + unat (write_idx rb - read_idx rb)) mod 2 ^ k"
proof -
  obtain k where k: "k < 64" "capacity rb = 2 ^ k" "unat (capacity rb) = 2 ^ k"
    using assms word_and_pred_zero[of "capacity rb"] by (auto simp: ring_inv_def cx_is_pow2_def)
  have "unat (write_idx rb - read_idx rb) \<le> unat (capacity rb)"
    using assms by (simp add: ring_inv_def cx_ringbuf_available_read_def word_le_nat_alt)
  moreover have "unat (write_idx rb) mod 2 ^ k = (unat (read_idx rb) + unat (write_idx rb - read_idx rb)) mod 2 ^ k"
    using unat_add_mod[of k "read_idx rb" "unat (write_idx rb - read_idx rb)"] k(1) by simp
  ultimately show ?thesis
    using that[of k] assms k by (simp add: ring_inv_def unat_and_mask)
qed

lemma ring_create_inv:
  "cx_ringbuf_create ok1 ok2 cap = Some rb \<Longrightarrow> ring_inv rb \<and> ring_contents rb = []"
  by (auto simp: cx_ringbuf_create_def ring_inv_def ring_contents_def cx_ringbuf_available_read_def split: if_splits)

lemma ring_write_spec:
  assumes inv: "ring_inv rb"
  shows "\<exists>rb' n. cx_ringbuf_write rb data = Some (rb', n) \<and> ring_inv rb'
     \<and> n = min (length data) (unat (cx_ringbuf_available_write rb))
     \<and> ring_contents rb' = ring_contents rb @ take n data"
proof (cases "data = []")
  case True
  then show ?thesis using inv by (simp add: cx_ringbuf_write_def)
next
  case False
  obtain k where k: "k < 64" "unat (capacity rb) = 2 ^ k" "length (rbuf rb) = 2 ^ k"
    "\<And>x. unat (x AND rmask rb) = unat x mod 2 ^ k" "unat (write_idx rb - read_idx rb) \<le> 2 ^ k"
    "unat (write_idx rb) mod 2 ^ k = (unat (read_idx rb) + unat (write_idx rb - read_idx rb)) mod 2 ^ k"
    using inv by (rule ring_facts) blast
  let ?L = "(2 :: nat) ^ k" and ?w = "write_idx rb" and ?r = "read_idx rb"
  define used where "used = unat (?w - ?r)"
  define n where "n = min (length data) (?L - used)"
  define wp where "wp = unat ?w mod ?L"
  define first where "first = min n (?L - wp)"
  define xs where "xs = take n data"
  have ul: "used \<le> ?L" and wpL: "wp < ?L" using k(5) by (simp_all add: used_def wp_def)
  have ok: "?w - ?r \<le> capacity rb" using inv by (simp add: ring_inv_def cx_ringbuf_available_read_def)
  have fr: "unat (capacity rb - (?w - ?r)) = ?L - used"
    using ok k(2) by (simp add: unat_sub used_def)
  have lx: "length xs = n" by (simp add: xs_def n_def)
  define buf where "buf = overwrite (overwrite (rbuf rb) wp (take first xs)) 0 (drop first xs)"
  have nn: "(if length data < ?L - used then length data else ?L - used) = n" by (simp add: n_def min_def)
  have b1: "overwrite (overwrite (rbuf rb) wp (take (?L - wp) data)) 0 (take (n - (?L - wp)) (drop (?L - wp) data)) = buf"
    if "?L - wp < n" using that by (simp add: buf_def first_def xs_def min_def take_drop)
  have b2: "overwrite (rbuf rb) wp (take n data) = buf" if "\<not> ?L - wp < n"
    using that by (simp add: buf_def first_def xs_def min_def)
  have w: "cx_ringbuf_write rb data = Some (rb\<lparr>rbuf := buf, write_idx := ?w + of_nat n\<rparr>, n)"
    using False ok
    by (simp add: cx_ringbuf_write_def Let_def fr k(2,4) nn b1 b2 flip: wp_def)
  have wr: "buf ! ((wp + j) mod ?L) = (if j < n then xs ! j else rbuf rb ! ((wp + j) mod ?L))" if "j < ?L" for j
    using overwrite_wrapped(1)[of wp "rbuf rb" xs j first] wpL that lx k(3)
    by (simp add: buf_def first_def n_def)
  have bl: "length buf = ?L"
    using overwrite_wrapped(2)[of wp "rbuf rb" xs 0 first] wpL lx k(3) by (simp add: buf_def first_def n_def)
  let ?rb = "rb\<lparr>rbuf := buf, write_idx := ?w + of_nat n\<rparr>"
  have nw: "n + used \<le> ?L" using ul by (auto simp: n_def)
  have "(2 :: nat) ^ k \<le> 2 ^ 63" using k(1) by (intro power_increasing) simp_all
  then have small: "?L < 2 ^ 64" by simp
  have av: "unat (?w + of_nat n - ?r) = used + n"
  proof -
    have e: "?w + of_nat n - ?r = (?w - ?r) + of_nat n" by simp
    have "unat ((?w - ?r) + of_nat n) = unat ((?w - ?r) + of_nat n) mod 2 ^ 64"
      using unat_less64 by (rule mod_less[symmetric])
    also have "\<dots> = (used + n) mod 2 ^ 64" unfolding used_def by (rule unat_add_mod) simp
    finally show ?thesis using nw small by (simp only: e) simp
  qed
  have "ring_inv ?rb"
    using inv bl av nw k(2)
    by (simp add: ring_inv_def cx_ringbuf_available_read_def word_le_nat_alt)
  moreover have "ring_contents ?rb = ring_contents rb @ xs"
  proof -
    have wpe: "wp = (unat ?r + used) mod ?L" using k(6) by (simp add: wp_def used_def)
    have new: "buf ! ((unat ?r + used + j) mod ?L) = xs ! j" if "j < n" for j
    proof -
      have "j < ?L" using that nw by simp
      from wr[OF this] that show ?thesis by (simp add: wpe mod_add_left_eq)
    qed
    have old: "buf ! ((unat ?r + j) mod ?L) = rbuf rb ! ((unat ?r + j) mod ?L)" if "j < used" for j
    proof -
      define i where "i = ?L - used + j"
      have "(wp + i) mod ?L = (unat ?r + used + (?L - used + j)) mod ?L" by (simp add: wpe i_def mod_add_left_eq)
      also have "unat ?r + used + (?L - used + j) = unat ?r + j + ?L" using ul by simp
      finally have e: "(wp + i) mod ?L = (unat ?r + j) mod ?L" by simp
      have "i < ?L" "\<not> i < n" using that ul nw by (auto simp: i_def)
      with wr[of i] show ?thesis by (simp add: e)
    qed
    have "cyc buf (unat ?r) (used + length xs) = cyc (rbuf rb) (unat ?r) used @ xs"
      by (rule cyc_append) (use bl k(3) nw lx new old in simp_all)
    then show ?thesis
      by (simp add: ring_contents_def cx_ringbuf_available_read_def av lx flip: used_def)
  qed
  moreover have "n = min (length data) (unat (cx_ringbuf_available_write rb))"
    by (simp add: n_def cx_ringbuf_available_write_def cx_ringbuf_available_read_def fr)
  ultimately show ?thesis using w by (auto simp: xs_def)
qed

lemma ring_read_spec:
  assumes inv: "ring_inv rb" and rd: "cx_ringbuf_read rb len = (rb', out)"
  shows "ring_inv rb' \<and> ring_contents rb = out @ ring_contents rb'
    \<and> length out = min len (unat (cx_ringbuf_available_read rb))"
proof (cases "len = 0 \<or> write_idx rb - read_idx rb = 0")
  case True
  then have "cx_ringbuf_read rb len = (rb, [])" by (cases "len = 0") (simp_all add: cx_ringbuf_read_def Let_def)
  moreover have "min len (unat (write_idx rb - read_idx rb)) = 0" using True by auto
  ultimately show ?thesis using inv rd by (simp add: cx_ringbuf_available_read_def)
next
  case False
  obtain k where k: "k < 64" "unat (capacity rb) = 2 ^ k" "length (rbuf rb) = 2 ^ k"
    "\<And>x. unat (x AND rmask rb) = unat x mod 2 ^ k" "unat (write_idx rb - read_idx rb) \<le> 2 ^ k"
    using inv by (rule ring_facts) blast
  let ?L = "(2 :: nat) ^ k" and ?w = "write_idx rb" and ?r = "read_idx rb"
  define used where "used = unat (?w - ?r)"
  define n where "n = min len used"
  define rp where "rp = unat ?r mod ?L"
  define first where "first = min n (?L - rp)"
  have rpL: "rp < ?L" and nL: "n \<le> used" "used \<le> ?L" using k(5) by (simp_all add: rp_def n_def used_def)
  have nn: "(if len < unat (?w - ?r) then len else unat (?w - ?r)) = n"
    "(if n > ?L - unat ?r mod ?L then ?L - unat ?r mod ?L else n) = first"
    by (simp_all add: n_def first_def min_def used_def rp_def)
  have rd': "rb' = rb\<lparr>read_idx := ?r + of_nat n\<rparr>"
    "out = take first (drop rp (rbuf rb)) @ (if n > first then take (n - first) (rbuf rb) else [])"
    using rd[unfolded cx_ringbuf_read_def Let_def k(2) k(4) nn] False by (simp_all add: rp_def)
  have out: "out = cyc (rbuf rb) (unat ?r) n"
  proof -
    have "cyc (rbuf rb) (unat ?r) n = cyc (rbuf rb) rp n" by (simp add: rp_def flip: k(3)) (simp add: cyc_start_mod)
    also have "\<dots> = cyc (rbuf rb) rp first @ cyc (rbuf rb) (rp + first) (n - first)"
      by (rule cyc_split) (simp add: first_def)
    also have "cyc (rbuf rb) rp first = take first (drop rp (rbuf rb))"
      by (rule cyc_linear) (use rpL k(3) in \<open>simp add: first_def\<close>)
    also have "cyc (rbuf rb) (rp + first) (n - first) = (if n > first then take (n - first) (rbuf rb) else [])"
    proof (cases "n > first")
      case True
      then have "rp + first = length (rbuf rb)" using rpL k(3) by (simp add: first_def min_def split: if_splits)
      then have "cyc (rbuf rb) (rp + first) (n - first) = cyc (rbuf rb) 0 (n - first)"
        using cyc_start_mod[of "rbuf rb" "rp + first" "n - first"] by simp
      also have "\<dots> = take (n - first) (rbuf rb)"
        using cyc_linear[of 0 "n - first" "rbuf rb"] nL k(3) by simp
      finally show ?thesis using True by simp
    qed simp
    finally show ?thesis by (simp add: rd'(2))
  qed
  have av: "unat (?w - (?r + of_nat n)) = used - n"
  proof -
    have "of_nat n \<le> ?w - ?r"
      using nL unat_less64[of "?w - ?r"]
      by (simp add: word_le_nat_alt unsigned_of_nat take_bit_nat_eq_self used_def)
    moreover have "unat (of_nat n :: u64) = n"
      using nL unat_less64[of "?w - ?r"] by (simp add: unsigned_of_nat take_bit_nat_eq_self used_def)
    ultimately have "unat (?w - ?r - of_nat n) = used - n" by (simp add: unat_sub used_def)
    then show ?thesis by (simp add: algebra_simps)
  qed
  have "ring_inv rb'"
    using inv av nL k(2) by (simp add: ring_inv_def rd'(1) cx_ringbuf_available_read_def word_le_nat_alt)
  moreover have "ring_contents rb = out @ ring_contents rb'"
  proof -
    have "cyc (rbuf rb) (unat (?r + of_nat n)) (used - n) = cyc (rbuf rb) (unat ?r + n) (used - n)"
      using cyc_start_mod[of "rbuf rb" "unat (?r + of_nat n)"] cyc_start_mod[of "rbuf rb" "unat ?r + n"]
        unat_add_mod[of k ?r n] k(1,3) by (metis less_imp_le)
    then show ?thesis
      using cyc_split[OF nL(1), of "rbuf rb" "unat ?r"]
      by (simp add: ring_contents_def out rd'(1) cx_ringbuf_available_read_def av flip: used_def)
  qed
  ultimately show ?thesis by (simp add: out n_def used_def cx_ringbuf_available_read_def)
qed

text \<open>The ring as a \<open>fifo\<close>.\<close>

definition ring_put :: "CxRingBuffer \<Rightarrow> u8 list \<Rightarrow> CxRingBuffer \<times> u8 list" where
  "ring_put rb data = (case cx_ringbuf_write rb data of None \<Rightarrow> (rb, []) | Some (rb', n) \<Rightarrow> (rb', take n data))"

interpretation ring: fifo ring_inv ring_contents ring_put cx_ringbuf_read
proof unfold_locales
  fix rb data rb' acc assume a: "ring_inv rb" "ring_put rb data = (rb', acc)"
  from ring_write_spec[OF a(1), of data] a(2)
  show "ring_inv rb' \<and> ring_contents rb' = ring_contents rb @ acc" by (auto simp: ring_put_def)
next
  fix rb k rb' ys assume "ring_inv rb" "cx_ringbuf_read rb k = (rb', ys)"
  from ring_read_spec[OF this] show "ring_inv rb' \<and> ring_contents rb = ys @ ring_contents rb'" by blast
qed

text \<open>
  C24: The network ring buffer is a lossless byte stream.  From any state with consistent counters,
  also where the 64-bit counters wrap around, every sequence of writes and reads delivers exactly the
  bytes that were accepted, in order, and keeps the rest; the overflow assertion never fails, and a
  write accepts as much as there is free space.
\<close>

theorem cx_ringbuf_stream:
  assumes "ring_inv rb" and "fifo_run ring_put cx_ringbuf_read rb ops = (rb', ins, outs)"
  shows "ring_inv rb' \<and> ring_contents rb @ ins = outs @ ring_contents rb'
    \<and> (\<forall>data. \<exists>rb''. cx_ringbuf_write rb' data =
          Some (rb'', min (length data) (unat (cx_ringbuf_available_write rb'))))"
  using ring.run_stream[OF assms] ring_write_spec[of rb'] by fast

definition demo_ring :: CxRingBuffer where
  "demo_ring = \<lparr>rbuf = [1, 2, 3, 4], capacity = 4, rmask = 3, write_idx = 1, read_idx = - 1\<rparr>"

theorem cx_ringbuf_stream_witness:
  "\<exists>rb'. fifo_run ring_put cx_ringbuf_read demo_ring [Put [7, 8, 9], Get 3] = (rb', [7, 8], [4, 1, 7])
     \<and> ring_contents rb' = [8]"
proof -
  have inv: "ring_inv demo_ring" by code_simp
  obtain rb' ins outs where r: "fifo_run ring_put cx_ringbuf_read demo_ring [Put [7, 8, 9], Get 3] = (rb', ins, outs)"
    by (metis prod_cases3)
  have "cx_ringbuf_write demo_ring [7, 8, 9] =
      Some (demo_ring\<lparr>rbuf := [1, 7, 8, 4], write_idx := 3\<rparr>, 2)"
    by (simp add: cx_ringbuf_write_def demo_ring_def overwrite_def)
  moreover have "cx_ringbuf_read (demo_ring\<lparr>rbuf := [1, 7, 8, 4], write_idx := 3\<rparr>) 3 =
      (demo_ring\<lparr>rbuf := [1, 7, 8, 4], write_idx := 3, read_idx := 2\<rparr>, [4, 1, 7])"
    by (simp add: cx_ringbuf_read_def demo_ring_def)
  ultimately have io: "ins = [7, 8]" "outs = [4, 1, 7]" using r by (auto simp: ring_put_def)
  have "unat (- 1 :: u64) = 2 ^ 64 - 1" by (simp add: unsigned_minus_1_eq_mask mask_eq_exp_minus_1)
  then have "ring_contents demo_ring = [4, 1]"
    by (simp add: ring_contents_def demo_ring_def cyc_def cx_ringbuf_available_read_def upt_rec)
  with cx_ringbuf_stream[OF inv r] io r show ?thesis by auto
qed

end
