(* ===== verification/Mir_Consteval.thy ===== *)
theory Mir_Consteval
  imports Cvm
begin

text \<open>
  The constant evaluator of \<^verbatim>\<open>src/compiler/ir/mir_consteval.c\<close>: an interpreter over value slots
  that all calls share.  Double-precision arithmetic is that of the environment \<open>CvmEnv\<close>; reallocation
  succeeds (the code does not check it).  \<open>Fault\<close> stands for a slot outside the array, a read through
  a pointer that a reallocation made stale, the division overflow trap, a shift by a count outside
  0..63 and a \<^verbatim>\<open>NULL\<close> the code dereferences; signed overflow wraps.  Recursion is bounded by fuel:
  one unit per instruction, block end and call.
\<close>

section \<open>Values and state\<close>

definition MIR_CONSTEVAL_MAX_STEPS :: nat where "MIR_CONSTEVAL_MAX_STEPS = 100000"

datatype MirConstValue = CInt u64 | CFloat u64 | CBool bool | CString u64 | CNull | CVoid

record MirConstEval =
  cmodule :: MirModule
  cslots :: "MirConstValue list"
  csteps :: nat
  max_steps :: nat
  error_msg :: "string option"
  call_depth :: int
  max_call_depth :: int

text \<open>Zeroed memory is the integer 0.\<close>

definition mir_consteval_init :: "MirModule \<Rightarrow> MirConstEval" where
  "mir_consteval_init m =
     \<lparr>cmodule = m, cslots = replicate 256 (CInt 0), csteps = 0, max_steps = MIR_CONSTEVAL_MAX_STEPS,
      error_msg = None, call_depth = 0, max_call_depth = 32\<rparr>"

section \<open>Eligibility\<close>

fun eligible_insts ::
    "MirModule \<Rightarrow> (MirFunction \<Rightarrow> bool cres) \<Rightarrow> MirInst list \<Rightarrow> bool cres" where
  "eligible_insts m check [] = Ok True"
| "eligible_insts m check (i # is) =
     (case iop i of
        OBJ_ALLOC n k \<Rightarrow> Ok False
      | REFOP p x \<Rightarrow> if p = MIR_ARC_RETAIN \<or> p = MIR_ARC_RELEASE then Ok False else eligible_insts m check is
      | CALL_INDIRECT n as c \<Rightarrow> Ok False
      | CALL_VIRTUAL s k as \<Rightarrow> Ok False
      | CALL name as c \<Rightarrow>
          (case name of
             None \<Rightarrow> if func_list m = [] then Ok False else Fault
           | Some n \<Rightarrow>
               (case mir_module_find_function m n of
                  None \<Rightarrow> Ok False
                | Some callee \<Rightarrow>
                    if is_constexpr callee then eligible_insts m check is
                    else cbind (check callee) (\<lambda>b. if b then eligible_insts m check is else Ok False)))
      | _ \<Rightarrow> eligible_insts m check is)"

fun mir_consteval_eligible :: "nat \<Rightarrow> MirModule \<Rightarrow> MirFunction \<Rightarrow> bool cres" where
  "mir_consteval_eligible 0 m f = OutOfFuel"
| "mir_consteval_eligible (Suc n) m f =
     (if is_extern f then Ok False
      else eligible_insts m (mir_consteval_eligible n m) (concat (map (\<lambda>b. insts (blocks f ! b)) (block_list f))))"

section \<open>Slots\<close>

definition ensure_slot :: "MirConstEval \<Rightarrow> MirValueId \<Rightarrow> MirConstEval" where
  "ensure_slot ce vid =
     (let cap = int (length (cslots ce))
      in if sint vid \<ge> cap
         then (let new_cap = (if sint vid \<ge> cap * 2 then sint vid + 64 else cap * 2)
               in ce\<lparr>cslots := cslots ce @ replicate (nat (new_cap - cap)) (CInt 0)\<rparr>)
         else ce)"

definition get_slot :: "MirConstEval \<Rightarrow> MirValueId \<Rightarrow> (MirConstEval \<times> MirConstValue) cres" where
  "get_slot ce vid =
     (let ce1 = ensure_slot ce vid in if sint vid < 0 then Fault else Ok (ce1, cslots ce1 ! unat vid))"

definition set_slot :: "MirConstEval \<Rightarrow> MirValueId \<Rightarrow> MirConstValue \<Rightarrow> MirConstEval cres" where
  "set_slot ce vid v =
     (let ce1 = ensure_slot ce vid
      in if sint vid < 0 then Fault else Ok (ce1\<lparr>cslots := (cslots ce1)[unat vid := v]\<rparr>))"

text \<open>
  Two operands: the pointer to the first is kept while the second is fetched, so it is stale when that
  fetch reallocates the array.
\<close>

definition get_slots ::
    "MirConstEval \<Rightarrow> MirValueId \<Rightarrow> MirValueId \<Rightarrow> (MirConstEval \<times> MirConstValue \<times> MirConstValue) cres" where
  "get_slots ce l r =
     cbind (get_slot ce l) (\<lambda>(ce1, x).
       cbind (get_slot ce1 r) (\<lambda>(ce2, y).
         if length (cslots ce2) \<noteq> length (cslots ce1) then Fault else Ok (ce2, x, y)))"

section \<open>One instruction\<close>

text \<open>Integer operations: an error message, a value, or \<open>None\<close> where C leaves no value.\<close>

fun const_int_op :: "MirBinOp \<Rightarrow> u64 \<Rightarrow> u64 \<Rightarrow> (string + u64) option" where
  "const_int_op MIR_ADD x y = Some (Inr (x + y))"
| "const_int_op MIR_SUB x y = Some (Inr (x - y))"
| "const_int_op MIR_MUL x y = Some (Inr (x * y))"
| "const_int_op MIR_DIV x y =
     (if y = 0 then Some (Inl ''consteval: division by zero'')
      else if sint x = - (2 ^ 63) \<and> sint y = - 1 then None
      else Some (Inr (word_of_int (sint x sdiv sint y))))"
| "const_int_op MIR_MOD x y =
     (if y = 0 then Some (Inl ''consteval: modulo by zero'')
      else if sint x = - (2 ^ 63) \<and> sint y = - 1 then None
      else Some (Inr (word_of_int (sint x smod sint y))))"
| "const_int_op MIR_BAND x y = Some (Inr (x AND y))"
| "const_int_op MIR_BOR x y = Some (Inr (x OR y))"
| "const_int_op MIR_BXOR x y = Some (Inr (x XOR y))"
| "const_int_op MIR_SHL x y = (if y < 64 then Some (Inr (push_bit (unat y) x)) else None)"
| "const_int_op MIR_SHR x y = (if y < 64 then Some (Inr (signed_drop_bit (unat y) x)) else None)"
| "const_int_op _ x y = None"

fun const_cmp_op :: "MirBinOp \<Rightarrow> u64 \<Rightarrow> u64 \<Rightarrow> bool" where
  "const_cmp_op MIR_CMP_EQ x y = (x = y)"
| "const_cmp_op MIR_CMP_NE x y = (x \<noteq> y)"
| "const_cmp_op MIR_CMP_LT x y = (sint x < sint y)"
| "const_cmp_op MIR_CMP_LE x y = (sint x \<le> sint y)"
| "const_cmp_op MIR_CMP_GT x y = (sint x > sint y)"
| "const_cmp_op MIR_CMP_GE x y = (sint x \<ge> sint y)"
| "const_cmp_op _ x y = False"

datatype const_kind = ArithC | FloatC | CmpC | BitC | NoneC

fun const_class :: "MirBinOp \<Rightarrow> const_kind" where
  "const_class MIR_ADD = ArithC" | "const_class MIR_SUB = ArithC" | "const_class MIR_MUL = ArithC"
| "const_class MIR_DIV = ArithC" | "const_class MIR_MOD = ArithC"
| "const_class MIR_FADD = FloatC" | "const_class MIR_FSUB = FloatC" | "const_class MIR_FMUL = FloatC"
| "const_class MIR_FDIV = FloatC"
| "const_class MIR_CMP_EQ = CmpC" | "const_class MIR_CMP_NE = CmpC" | "const_class MIR_CMP_LT = CmpC"
| "const_class MIR_CMP_LE = CmpC" | "const_class MIR_CMP_GT = CmpC" | "const_class MIR_CMP_GE = CmpC"
| "const_class MIR_BAND = BitC" | "const_class MIR_BOR = BitC" | "const_class MIR_BXOR = BitC"
| "const_class MIR_SHL = BitC" | "const_class MIR_SHR = BitC"
| "const_class _ = NoneC"

definition ce_fail :: "MirConstEval \<Rightarrow> string \<Rightarrow> (MirConstEval \<times> bool) cres" where
  "ce_fail ce msg = Ok (ce\<lparr>error_msg := Some msg\<rparr>, False)"

definition ce_put :: "MirConstEval \<Rightarrow> MirValueId \<Rightarrow> MirConstValue \<Rightarrow> (MirConstEval \<times> bool) cres" where
  "ce_put ce r v = cbind (set_slot ce r v) (\<lambda>ce1. Ok (ce1, True))"

definition const_binary ::
    "CvmEnv \<Rightarrow> MirConstEval \<Rightarrow> MirBinOp \<Rightarrow> MirValueId \<Rightarrow> MirValueId \<Rightarrow> MirValueId \<Rightarrow> (MirConstEval \<times> bool) cres" where
  "const_binary env ce p l rr r =
     (if const_class p = NoneC then ce_fail ce ''consteval: unsupported instruction''
      else cbind (get_slots ce l rr) (\<lambda>(ce1, vl, vr).
        case (const_class p, vl, vr) of
          (FloatC, CFloat x, CFloat y) \<Rightarrow> ce_put ce1 r (CFloat (e_fbin env p x y))
        | (FloatC, _, _) \<Rightarrow> ce_fail ce1 ''consteval: float arithmetic on non-float''
        | (CmpC, CInt x, CInt y) \<Rightarrow> ce_put ce1 r (CBool (const_cmp_op p x y))
        | (CmpC, _, _) \<Rightarrow> ce_fail ce1 ''consteval: comparison on non-integer''
        | (k, CInt x, CInt y) \<Rightarrow>
            (case const_int_op p x y of
               None \<Rightarrow> Fault
             | Some (Inl e) \<Rightarrow> ce_fail ce1 e
             | Some (Inr z) \<Rightarrow> ce_put ce1 r (CInt z))
        | (ArithC, _, _) \<Rightarrow> ce_fail ce1 ''consteval: integer arithmetic on non-integer''
        | _ \<Rightarrow> ce_fail ce1 ''consteval: bitwise on non-integer''))"

definition const_unary ::
    "CvmEnv \<Rightarrow> MirConstEval \<Rightarrow> MirUnOp \<Rightarrow> MirValueId \<Rightarrow> MirValueId \<Rightarrow> (MirConstEval \<times> bool) cres" where
  "const_unary env ce p x r =
     (if p = MIR_BNOT \<or> p = MIR_BITCAST then ce_fail ce ''consteval: unsupported instruction''
      else cbind (get_slot ce x) (\<lambda>(ce1, v).
        case p of
          MIR_NEG \<Rightarrow> (case v of CInt w \<Rightarrow> ce_put ce1 r (CInt (- w)) | _ \<Rightarrow> ce_fail ce1 ''consteval: neg on non-integer'')
        | MIR_FNEG \<Rightarrow> (case v of CFloat w \<Rightarrow> ce_put ce1 r (CFloat (w XOR 0x8000000000000000))
                             | _ \<Rightarrow> ce_fail ce1 ''consteval: fneg on non-float'')
        | MIR_LOGIC_NOT \<Rightarrow> (case v of CBool b \<Rightarrow> ce_put ce1 r (CBool (\<not> b)) | _ \<Rightarrow> ce_fail ce1 ''consteval: not on non-bool'')
        | MIR_SITOFP \<Rightarrow> (case v of CInt w \<Rightarrow> ce_put ce1 r (CFloat (e_sitofp env w))
                               | _ \<Rightarrow> ce_fail ce1 ''consteval: sitofp on non-integer'')
        | MIR_FPTOSI \<Rightarrow> (case v of CFloat w \<Rightarrow> ce_put ce1 r (CInt (e_fptosi env w))
                               | _ \<Rightarrow> ce_fail ce1 ''consteval: fptosi on non-float'')
        | _ \<Rightarrow> ce_put ce1 r v))"

fun const_op :: "CvmEnv \<Rightarrow> MirConstEval \<Rightarrow> MirOp \<Rightarrow> MirValueId \<Rightarrow> (MirConstEval \<times> bool) cres" where
  "const_op env ce (CONST_INT w) r = ce_put ce r (CInt w)"
| "const_op env ce (CONST_FLOAT w) r = ce_put ce r (CFloat w)"
| "const_op env ce (CONST_BOOL b) r = ce_put ce r (CBool b)"
| "const_op env ce (CONST_STRING a) r = ce_put ce r (CString a)"
| "const_op env ce (CONST_FUNC s) r =
     ce_fail ce ''consteval: function addresses are not supported as compile-time values''"
| "const_op env ce CONST_NULL r = ce_put ce r CNull"
| "const_op env ce (BINARY p l rr) r = const_binary env ce p l rr r"
| "const_op env ce (UNARY p x t) r = const_unary env ce p x r"
| "const_op env ce (ALLOCA t n) r = ce_put ce r (CInt 0)"
| "const_op env ce (LOAD p) r = cbind (get_slot ce p) (\<lambda>(ce1, v). ce_put ce1 r v)"
| "const_op env ce (STORE p x) r = cbind (get_slot ce x) (\<lambda>(ce1, v). ce_put ce1 p v)"
| "const_op env ce (TRANSFER p s) r =
     (if p = MIR_COPY \<or> p = MIR_MOVE then cbind (get_slot ce s) (\<lambda>(ce1, v). ce_put ce1 r v)
      else ce_fail ce ''consteval: unsupported instruction'')"
| "const_op env ce NOP r = Ok (ce, True)"
| "const_op env ce (DEBUGLOC l c) r = Ok (ce, True)"
| "const_op env ce _ r = ce_fail ce ''consteval: unsupported instruction''"

definition mir_consteval_step :: "CvmEnv \<Rightarrow> MirConstEval \<Rightarrow> MirInst \<Rightarrow> (MirConstEval \<times> bool) cres" where
  "mir_consteval_step env ce i =
     (let ce1 = ce\<lparr>csteps := csteps ce + 1\<rparr>
      in if csteps ce1 > max_steps ce1
         then ce_fail ce1 ''consteval: step limit exceeded (possible infinite loop)''
         else const_op env ce1 (iop i) (result i))"

section \<open>Functions\<close>

fun set_params :: "MirConstEval \<Rightarrow> MirParam list \<Rightarrow> MirConstValue list \<Rightarrow> MirConstEval cres" where
  "set_params ce (p # ps) (a # as) = cbind (set_slot ce (value_id p) a) (\<lambda>ce1. set_params ce1 ps as)"
| "set_params ce _ _ = Ok ce"

fun get_args :: "MirConstEval \<Rightarrow> MirValueId list \<Rightarrow> (MirConstEval \<times> MirConstValue list) cres" where
  "get_args ce [] = Ok (ce, [])"
| "get_args ce (x # xs) =
     cbind (get_slot ce x) (\<lambda>(ce1, v). cbind (get_args ce1 xs) (\<lambda>(ce2, vs). Ok (ce2, v # vs)))"

type_synonym const_run = "(MirConstEval \<times> MirConstValue option) cres"

definition run_fail :: "MirConstEval \<Rightarrow> string \<Rightarrow> const_run" where
  "run_fail ce msg = Ok (ce\<lparr>error_msg := Some msg\<rparr>, None)"

text \<open>The test of the block loop: a null block ends it with an error.\<close>

definition const_goto ::
    "MirFunction \<Rightarrow> (MirConstEval \<Rightarrow> MirInst list \<Rightarrow> const_run) \<Rightarrow> MirConstEval \<Rightarrow> MirBlockP \<Rightarrow> const_run" where
  "const_goto f go ce tgt =
     (case tgt of
        None \<Rightarrow> run_fail ce ''consteval: reached null block''
      | Some b \<Rightarrow> if b < length (blocks f) then go ce (insts (blocks f ! b)) else Fault)"

text \<open>The nested call of an instruction; \<open>k\<close> is the rest of the block.\<close>

definition const_nested ::
    "(MirConstEval \<Rightarrow> MirFunction \<Rightarrow> MirConstValue list \<Rightarrow> const_run) \<Rightarrow> MirConstEval \<Rightarrow> string option \<Rightarrow>
     MirValueId list \<Rightarrow> MirValueId \<Rightarrow> (MirConstEval \<Rightarrow> const_run) \<Rightarrow> const_run" where
  "const_nested call ce name arg_ids r k =
     (case name of
        None \<Rightarrow> if func_list (cmodule ce) = [] then run_fail ce ''consteval: unknown function in call'' else Fault
      | Some n \<Rightarrow>
          (case mir_module_find_function (cmodule ce) n of
             None \<Rightarrow> run_fail ce ''consteval: unknown function in call''
           | Some callee \<Rightarrow>
               cbind (get_args ce (take 16 arg_ids)) (\<lambda>(ce1, as).
                 cbind (call ce1 callee as) (\<lambda>(ce2, res).
                   case res of
                     None \<Rightarrow> Ok (ce2, None)
                   | Some v \<Rightarrow> if r \<noteq> MIR_VALUE_NONE then cbind (set_slot ce2 r v) k else k ce2))))"

fun const_loop ::
    "CvmEnv \<Rightarrow> (MirConstEval \<Rightarrow> MirFunction \<Rightarrow> MirConstValue list \<Rightarrow> const_run) \<Rightarrow> MirFunction \<Rightarrow> nat \<Rightarrow>
     MirConstEval \<Rightarrow> MirInst list \<Rightarrow> const_run" where
  "const_loop env call f 0 ce is = OutOfFuel"
| "const_loop env call f (Suc n) ce [] = run_fail ce ''consteval: block without terminator''"
| "const_loop env call f (Suc n) ce (i # rest) =
     (case iop i of
        BR t \<Rightarrow> const_goto f (const_loop env call f n) ce t
      | CONDBR c t e \<Rightarrow>
          cbind (get_slot ce c) (\<lambda>(ce1, v).
            case v of
              CBool b \<Rightarrow> const_goto f (const_loop env call f n) ce1 (if b then t else e)
            | _ \<Rightarrow> run_fail ce1 ''consteval: condbr on non-bool'')
      | RET x \<Rightarrow> cbind (get_slot ce x) (\<lambda>(ce1, v). Ok (ce1, Some v))
      | RET_VOID \<Rightarrow> Ok (ce, Some CVoid)
      | CALL name as c \<Rightarrow> const_nested call ce name as (result i) (\<lambda>ce1. const_loop env call f n ce1 rest)
      | _ \<Rightarrow>
          cbind (mir_consteval_step env ce i) (\<lambda>(ce1, ok).
            if ok then const_loop env call f n ce1 rest else Ok (ce1, None)))"

fun mir_consteval_call ::
    "CvmEnv \<Rightarrow> nat \<Rightarrow> MirConstEval \<Rightarrow> MirFunction \<Rightarrow> MirConstValue list \<Rightarrow> const_run" where
  "mir_consteval_call env 0 ce f as = OutOfFuel"
| "mir_consteval_call env (Suc n) ce f as =
     (if is_extern f then run_fail ce ''consteval: cannot evaluate extern function''
      else if call_depth ce \<ge> max_call_depth ce then run_fail ce ''consteval: maximum call depth exceeded''
      else cbind (set_params (ce\<lparr>call_depth := call_depth ce + 1\<rparr>) (params f) as) (\<lambda>ce1.
             cbind (const_goto f (const_loop env (mir_consteval_call env n) f n) ce1 (entry_block f)) (\<lambda>(ce2, r).
               Ok (ce2\<lparr>call_depth := call_depth ce2 - 1\<rparr>, r))))"

end
