(* ===== verification/Consteval_Facts.thy ===== *)
theory Consteval_Facts
  imports Mir_Consteval Cvm_Facts
begin

text \<open>
  What the constant evaluator guarantees: every call that returns leaves the depth counter as it found
  it and stays within the step limit; when every block ticks (holds a plain instruction before its
  jump) every call returns; and on straight arithmetic code a value it returns is the value the VM
  computes.  Two theorems show where it does neither.
\<close>

section \<open>Frames\<close>

definition ce_frame :: "MirConstEval \<Rightarrow> MirConstEval \<Rightarrow> bool" where
  "ce_frame ce ce' \<longleftrightarrow> call_depth ce' = call_depth ce \<and> cmodule ce' = cmodule ce \<and> max_steps ce' = max_steps ce
     \<and> max_call_depth ce' = max_call_depth ce \<and> csteps ce \<le> csteps ce' \<and> length (cslots ce) \<le> length (cslots ce')"

lemma ce_frame_refl [simp]: "ce_frame ce ce"
  by (simp add: ce_frame_def)

lemma ce_frame_trans: "ce_frame a b \<Longrightarrow> ce_frame b c \<Longrightarrow> ce_frame a c"
  by (simp add: ce_frame_def)

lemma ce_frame_msg [simp]: "ce_frame ce (ce'\<lparr>error_msg := x\<rparr>) = ce_frame ce ce'"
  by (simp add: ce_frame_def)

lemma ensure_slot_frame [simp]: "ce_frame ce (ensure_slot ce x)" "csteps (ensure_slot ce x) = csteps ce"
  by (simp_all add: ensure_slot_def ce_frame_def Let_def)

lemma get_slot_frame: "get_slot ce x = Ok (ce', v) \<Longrightarrow> ce_frame ce ce' \<and> csteps ce' = csteps ce"
  by (auto simp: get_slot_def Let_def split: if_splits)

lemma set_slot_frame: "set_slot ce x v = Ok ce' \<Longrightarrow> ce_frame ce ce' \<and> csteps ce' = csteps ce"
  using ensure_slot_frame[of ce x] by (auto simp: set_slot_def Let_def ce_frame_def split: if_splits)

lemma get_slots_frame: "get_slots ce l r = Ok (ce', x, y) \<Longrightarrow> ce_frame ce ce' \<and> csteps ce' = csteps ce"
  by (auto simp: get_slots_def cbind_Ok split: if_splits dest!: get_slot_frame intro: ce_frame_trans)

text \<open>The outcome of one operation: the frame is kept, no step is counted, and failure leaves a message.\<close>

definition op_outcome :: "MirConstEval \<Rightarrow> (MirConstEval \<times> bool) cres \<Rightarrow> bool" where
  "op_outcome ce res \<longleftrightarrow> (\<forall>ce' ok. res = Ok (ce', ok) \<longrightarrow>
     ce_frame ce ce' \<and> csteps ce' = csteps ce \<and> (ok \<or> error_msg ce' \<noteq> None))"

lemma op_outcome_simps [simp]: "op_outcome ce Fault" "op_outcome ce (Ok (ce, True))"
  by (simp_all add: op_outcome_def)

lemma ce_fail_outcome: "ce_frame ce ce1 \<Longrightarrow> csteps ce1 = csteps ce \<Longrightarrow> op_outcome ce (ce_fail ce1 m)"
  by (simp add: ce_fail_def op_outcome_def)

lemma ce_put_outcome: "ce_frame ce ce1 \<Longrightarrow> csteps ce1 = csteps ce \<Longrightarrow> op_outcome ce (ce_put ce1 r v)"
  by (auto simp: ce_put_def op_outcome_def cbind_Ok dest!: set_slot_frame intro: ce_frame_trans)

lemma op_outcome_cbind: "(\<And>x. m = Ok x \<Longrightarrow> op_outcome ce (k x)) \<Longrightarrow> op_outcome ce (cbind m k)"
  by (cases m) (auto simp: op_outcome_def)

lemma op_outcome_get_slot:
  "(\<And>ce1 v. ce_frame ce ce1 \<Longrightarrow> csteps ce1 = csteps ce \<Longrightarrow> op_outcome ce (k (ce1, v))) \<Longrightarrow>
   op_outcome ce (cbind (get_slot ce x) k)"
  by (rule op_outcome_cbind) (auto dest: get_slot_frame)

lemma op_outcome_get_slots:
  "(\<And>ce1 v w. ce_frame ce ce1 \<Longrightarrow> csteps ce1 = csteps ce \<Longrightarrow> op_outcome ce (k (ce1, v, w))) \<Longrightarrow>
   op_outcome ce (cbind (get_slots ce l r) k)"
  by (rule op_outcome_cbind) (auto dest: get_slots_frame)

lemmas op_outcomes = ce_fail_outcome ce_put_outcome op_outcome_get_slot op_outcome_get_slots

lemma const_binary_outcome: "op_outcome ce (const_binary env ce p l rr r)"
  unfolding const_binary_def
  by (auto intro!: op_outcomes split: const_kind.split MirConstValue.split option.split sum.split)

lemma const_unary_outcome: "op_outcome ce (const_unary env ce p x r)"
  unfolding const_unary_def
  by (auto intro!: op_outcomes split: MirUnOp.split MirConstValue.split)

lemma const_op_outcome: "op_outcome ce (const_op env ce op r)"
  by (cases op) (auto intro!: op_outcomes const_binary_outcome const_unary_outcome)

lemma step_outcome:
  assumes "mir_consteval_step env ce i = Ok (ce', ok)"
  shows "ce_frame ce ce' \<and> csteps ce' = Suc (csteps ce) \<and> (ok \<longrightarrow> csteps ce' \<le> max_steps ce)
    \<and> (ok \<or> error_msg ce' \<noteq> None)"
proof -
  let ?ce = "ce\<lparr>csteps := csteps ce + 1\<rparr>"
  have "ce_frame ce ?ce" by (simp add: ce_frame_def)
  then show ?thesis
    using assms const_op_outcome[of ?ce env "iop i" "result i"]
    by (auto simp: mir_consteval_step_def ce_fail_def op_outcome_def Let_def split: if_splits intro: ce_frame_trans)
qed

section \<open>Depth and step discipline\<close>

text \<open>What a run that returns guarantees.\<close>

definition run_outcome :: "MirConstEval \<Rightarrow> const_run \<Rightarrow> bool" where
  "run_outcome ce res \<longleftrightarrow> (\<forall>ce' r. res = Ok (ce', r) \<longrightarrow> csteps ce \<le> max_steps ce \<longrightarrow>
     ce_frame ce ce' \<and> csteps ce' \<le> Suc (max_steps ce)
     \<and> (r \<noteq> None \<longrightarrow> csteps ce' \<le> max_steps ce) \<and> (r = None \<longrightarrow> error_msg ce' \<noteq> None))"

lemma run_outcome_later:
  assumes "run_outcome ce1 res" and "ce_frame ce ce1" and "csteps ce \<le> max_steps ce \<Longrightarrow> csteps ce1 \<le> max_steps ce"
  shows "run_outcome ce res"
  unfolding run_outcome_def
proof (intro allI impI)
  fix ce' r
  assume r: "res = Ok (ce', r)" and le: "csteps ce \<le> max_steps ce"
  have m: "max_steps ce1 = max_steps ce" using assms(2) by (simp add: ce_frame_def)
  have "csteps ce1 \<le> max_steps ce1" using assms(3)[OF le] m by simp
  with assms(1) r show "ce_frame ce ce' \<and> csteps ce' \<le> Suc (max_steps ce)
     \<and> (r \<noteq> None \<longrightarrow> csteps ce' \<le> max_steps ce) \<and> (r = None \<longrightarrow> error_msg ce' \<noteq> None)"
    using ce_frame_trans[OF assms(2)] m by (auto simp: run_outcome_def)
qed

lemma run_fail_outcome: "ce_frame ce ce1 \<Longrightarrow> csteps ce1 = csteps ce \<Longrightarrow> run_outcome ce (run_fail ce1 m)"
  by (auto simp: run_fail_def run_outcome_def)

lemma run_outcome_cbind:
  "(\<And>x. m = Ok x \<Longrightarrow> run_outcome ce (k x)) \<Longrightarrow> run_outcome ce (cbind m k)"
  by (cases m) (auto simp: run_outcome_def)

lemma get_args_frame: "get_args ce xs = Ok (ce', vs) \<Longrightarrow> ce_frame ce ce' \<and> csteps ce' = csteps ce"
proof (induction xs arbitrary: ce vs)
  case (Cons x xs)
  then show ?case by (auto simp: cbind_Ok dest!: get_slot_frame Cons.IH intro: ce_frame_trans)
qed simp

lemma set_params_frame: "set_params ce ps as = Ok ce' \<Longrightarrow> ce_frame ce ce' \<and> csteps ce' = csteps ce"
proof (induction ce ps as rule: set_params.induct)
  case (1 ce p ps a as)
  then show ?case by (auto simp: cbind_Ok dest!: set_slot_frame intro: ce_frame_trans)
qed simp_all

definition call_outcome :: "(MirConstEval \<Rightarrow> MirFunction \<Rightarrow> MirConstValue list \<Rightarrow> const_run) \<Rightarrow> bool" where
  "call_outcome call \<longleftrightarrow> (\<forall>ce f as. run_outcome ce (call ce f as))"

lemma const_goto_outcome:
  assumes "\<And>ce1 is. ce_frame ce ce1 \<Longrightarrow> csteps ce1 = csteps ce \<Longrightarrow> run_outcome ce (go ce1 is)"
    and "ce_frame ce ce1" and "csteps ce1 = csteps ce"
  shows "run_outcome ce (const_goto f go ce1 tgt)"
  unfolding const_goto_def using assms
  by (auto intro: run_fail_outcome split: option.split) (auto simp: run_outcome_def)

lemma const_nested_outcome:
  assumes call: "call_outcome call"
    and k: "\<And>ce1. ce_frame ce ce1 \<Longrightarrow> (csteps ce \<le> max_steps ce \<Longrightarrow> csteps ce1 \<le> max_steps ce) \<Longrightarrow> run_outcome ce (k ce1)"
  shows "run_outcome ce (const_nested call ce name as r k)"
proof -
  have "run_outcome ce (cbind (get_args ce (take 16 as)) (\<lambda>(ce1, as). cbind (call ce1 callee as) (\<lambda>(ce2, res).
      case res of None \<Rightarrow> Ok (ce2, None) | Some v \<Rightarrow> if r \<noteq> MIR_VALUE_NONE then cbind (set_slot ce2 r v) k else k ce2)))"
    for callee
  proof (rule run_outcome_cbind, clarify)
    fix ce1 vs assume g: "get_args ce (take 16 as) = Ok (ce1, vs)"
    note ga = get_args_frame[OF g]
    show "run_outcome ce (cbind (call ce1 callee vs) (\<lambda>(ce2, res).
      case res of None \<Rightarrow> Ok (ce2, None) | Some v \<Rightarrow> if r \<noteq> MIR_VALUE_NONE then cbind (set_slot ce2 r v) k else k ce2))"
    proof (rule run_outcome_cbind, clarify)
      fix ce2 res assume c: "call ce1 callee vs = Ok (ce2, res)"
      have o: "run_outcome ce1 (Ok (ce2, res))" using call unfolding call_outcome_def c[symmetric] by blast
      show "run_outcome ce (case res of None \<Rightarrow> Ok (ce2, None)
          | Some v \<Rightarrow> if r \<noteq> MIR_VALUE_NONE then cbind (set_slot ce2 r v) k else k ce2)"
      proof (cases res)
        case None
        then show ?thesis using run_outcome_later[OF o] ga by simp
      next
        case (Some v)
        have le: "csteps ce2 \<le> max_steps ce" "ce_frame ce ce2" if "csteps ce \<le> max_steps ce"
          using o ga that Some ce_frame_trans[of ce ce1 ce2] by (auto simp: run_outcome_def ce_frame_def)
        show ?thesis
        proof (cases "csteps ce \<le> max_steps ce")
          case False
          then show ?thesis by (simp add: run_outcome_def)
        next
          case True
          note l = le[OF True]
          have "run_outcome ce (k ce2)" by (rule k[OF l(2)]) (use l in simp)
          moreover have "run_outcome ce (cbind (set_slot ce2 r v) k)"
          proof (rule run_outcome_cbind)
            fix x assume "set_slot ce2 r v = Ok x"
            from set_slot_frame[OF this] show "run_outcome ce (k x)"
              using l ce_frame_trans[OF l(2)] by (intro k) auto
          qed
          ultimately show ?thesis using Some by simp
        qed
      qed
    qed
  qed
  then show ?thesis
    by (auto simp: const_nested_def run_outcome_def[of ce Fault] split: option.split intro: run_fail_outcome)
qed

lemma const_loop_outcome:
  assumes call: "call_outcome call"
  shows "run_outcome ce (const_loop env call f n ce is)"
proof (induction n arbitrary: ce "is")
  case 0
  then show ?case by (simp add: run_outcome_def)
next
  case (Suc n ce "is")
  show ?case
  proof (cases "is")
    case Nil
    then show ?thesis by (simp add: run_fail_outcome)
  next
    case (Cons i rest)
    have go: "run_outcome ce (const_loop env call f n ce1 is')"
      if "ce_frame ce ce1" "csteps ce \<le> max_steps ce \<Longrightarrow> csteps ce1 \<le> max_steps ce" for ce1 is'
      by (rule run_outcome_later[OF Suc.IH that])
    have plain: "run_outcome ce (cbind (mir_consteval_step env ce i) (\<lambda>(ce1, ok).
        if ok then const_loop env call f n ce1 rest else Ok (ce1, None)))"
    proof (rule run_outcome_cbind, clarify)
      fix ce1 ok assume "mir_consteval_step env ce i = Ok (ce1, ok)"
      note s = step_outcome[OF this]
      then show "run_outcome ce (if ok then const_loop env call f n ce1 rest else Ok (ce1, None))"
        using go[of ce1 rest] by (auto simp: run_outcome_def[of ce "Ok (ce1, None)"])
    qed
    have jump: "run_outcome ce (const_goto f (const_loop env call f n) ce1 t)"
      if "ce_frame ce ce1" "csteps ce1 = csteps ce" for ce1 t
      by (rule const_goto_outcome[OF _ that]) (rule go, simp_all)
    show ?thesis
    proof (cases "iop i")
      case (CONDBR c t e)
      have "run_outcome ce (cbind (get_slot ce c) (\<lambda>(ce1, v). case v of
              CBool b \<Rightarrow> const_goto f (const_loop env call f n) ce1 (if b then t else e)
            | _ \<Rightarrow> run_fail ce1 ''consteval: condbr on non-bool''))"
        by (rule run_outcome_cbind)
          (auto dest!: get_slot_frame split: MirConstValue.split intro!: jump run_fail_outcome)
      then show ?thesis by (simp add: Cons CONDBR)
    next
      case (RET x)
      have "run_outcome ce (cbind (get_slot ce x) (\<lambda>(ce1, v). Ok (ce1, Some v)))"
        by (rule run_outcome_cbind) (auto dest!: get_slot_frame simp: run_outcome_def)
      then show ?thesis by (simp add: Cons RET)
    next
      case (CALL name as c)
      then show ?thesis using const_nested_outcome[OF call, of ce] go by (simp add: Cons)
    qed (use plain jump in \<open>simp_all add: Cons run_outcome_def[of ce "Ok (ce, Some CVoid)"]\<close>)
  qed
qed

lemma const_call_outcome: "call_outcome (mir_consteval_call env n)"
proof (induction n)
  case 0
  then show ?case by (simp add: call_outcome_def run_outcome_def)
next
  case (Suc n)
  show ?case
    unfolding call_outcome_def
  proof (intro allI)
    fix ce :: MirConstEval and f as
    let ?ce = "ce\<lparr>call_depth := call_depth ce + 1\<rparr>"
    have "run_outcome ce (cbind (set_params ?ce (params f) as) (\<lambda>ce1.
             cbind (const_goto f (const_loop env (mir_consteval_call env n) f n) ce1 (entry_block f)) (\<lambda>(ce2, r).
               Ok (ce2\<lparr>call_depth := call_depth ce2 - 1\<rparr>, r))))"
    proof (rule run_outcome_cbind, rule run_outcome_cbind, clarify)
      fix ce1 ce2 r
      assume p: "set_params ?ce (params f) as = Ok ce1"
        and l: "const_goto f (const_loop env (mir_consteval_call env n) f n) ce1 (entry_block f) = Ok (ce2, r)"
      have "run_outcome ce1 (Ok (ce2, r))"
        unfolding l[symmetric]
        by (rule const_goto_outcome) (auto intro: run_outcome_later[OF const_loop_outcome[OF Suc.IH]] simp: ce_frame_def)
      then show "run_outcome ce (Ok (ce2\<lparr>call_depth := call_depth ce2 - 1\<rparr>, r))"
        using set_params_frame[OF p] by (auto simp: run_outcome_def ce_frame_def)
    qed
    then show "run_outcome ce (mir_consteval_call env (Suc n) ce f as)"
      by (simp add: run_fail_outcome)
  qed
qed

text \<open>C32: Whatever it evaluates, a constant evaluation that returns has restored the call depth, has
  counted at most one step more than the limit (none more when it has a value), and has left a message
  when it failed.\<close>

theorem mir_consteval_call_discipline:
  assumes "mir_consteval_call env n ce f as = Ok (ce', r)" and "csteps ce \<le> max_steps ce"
  shows "call_depth ce' = call_depth ce \<and> csteps ce \<le> csteps ce' \<and> csteps ce' \<le> max_steps ce + 1
    \<and> (r \<noteq> None \<longrightarrow> csteps ce' \<le> max_steps ce) \<and> (r = None \<longrightarrow> error_msg ce' \<noteq> None)"
  using const_call_outcome[of env n] assms by (auto simp: call_outcome_def run_outcome_def ce_frame_def)

section \<open>Returning\<close>

text \<open>
  The step counter is advanced by plain instructions only, not by branches or calls.  A block ticks when
  it holds a plain instruction before its first jump.
\<close>

fun is_jump :: "MirOp \<Rightarrow> bool" where
  "is_jump (BR t) = True" | "is_jump (CONDBR c t e) = True" | "is_jump (RET x) = True"
| "is_jump RET_VOID = True" | "is_jump _ = False"

fun is_plain :: "MirOp \<Rightarrow> bool" where
  "is_plain (CALL n as c) = False" | "is_plain op = (\<not> is_jump op)"

fun ticks :: "MirInst list \<Rightarrow> bool" where
  "ticks [] = False"
| "ticks (i # is) = (\<not> is_jump (iop i) \<and> (is_plain (iop i) \<or> ticks is))"

definition ticking :: "nat \<Rightarrow> MirFunction \<Rightarrow> bool" where
  "ticking L f \<longleftrightarrow> (\<forall>b \<in> set (blocks f). ticks (insts b) \<and> length (insts b) \<le> L)"

text \<open>The fuel the rest of a frame needs.\<close>

definition frame_weight :: "nat \<Rightarrow> MirConstEval \<Rightarrow> MirInst list \<Rightarrow> nat" where
  "frame_weight L ce is = (max_steps ce + 1 - csteps ce) * (2 * (L + 1)) + (if ticks is then 0 else L + 1) + length is"

definition call_fuel :: "nat \<Rightarrow> MirConstEval \<Rightarrow> nat" where
  "call_fuel L ce = (max_steps ce + 2) * (2 * (L + 1)) + nat (max_call_depth ce - call_depth ce) + 1"

text \<open>A run that has an outcome, if only a fault.\<close>

definition returns :: "'a cres \<Rightarrow> bool" where
  "returns r \<longleftrightarrow> r \<noteq> OutOfFuel"

lemma returns_simps [simp]: "returns (Ok x)" "returns Fault" "\<not> returns OutOfFuel"
  by (simp_all add: returns_def)

lemma cbind_returns: "returns m \<Longrightarrow> (\<And>x. m = Ok x \<Longrightarrow> returns (k x)) \<Longrightarrow> returns (cbind m k)"
  by (cases m) auto

lemma slot_returns [simp]: "returns (get_slot ce x)" "returns (set_slot ce x v)" "returns (get_slots ce x y)"
proof -
  show g: "returns (get_slot ce x)" for ce x by (simp add: get_slot_def Let_def)
  show "returns (set_slot ce x v)" by (simp add: set_slot_def Let_def)
  show "returns (get_slots ce x y)" unfolding get_slots_def by (auto intro!: cbind_returns g)
qed

lemma put_returns [simp]: "returns (ce_put ce r v)" "returns (ce_fail ce m)" "returns (run_fail ce m)"
  by (auto simp: ce_put_def ce_fail_def run_fail_def intro!: cbind_returns)

lemma step_returns [simp]: "returns (mir_consteval_step env ce i)"
proof -
  have b: "returns (const_binary env ce p l rr r)" for ce p l rr r
    unfolding const_binary_def
    by (auto intro!: cbind_returns split: const_kind.split MirConstValue.split option.split sum.split)
  have u: "returns (const_unary env ce p x r)" for ce p x r
    unfolding const_unary_def by (auto intro!: cbind_returns split: MirUnOp.split MirConstValue.split)
  have "returns (const_op env ce op r)" for ce op r
    by (cases op) (auto intro!: cbind_returns b u)
  then show ?thesis by (simp add: mir_consteval_step_def Let_def)
qed

lemma args_return [simp]: "returns (get_args ce xs)" "returns (set_params ce ps as)"
proof -
  show "returns (get_args ce xs)" by (induction xs arbitrary: ce) (auto intro!: cbind_returns)
  show "returns (set_params ce ps as)"
    by (induction ce ps as rule: set_params.induct) (auto intro!: cbind_returns)
qed

lemma const_goto_returns:
  assumes t: "ticking L f"
    and go: "\<And>is. ticks is \<Longrightarrow> length is \<le> L \<Longrightarrow> returns (go ce is)"
  shows "returns (const_goto f go ce tgt)"
proof (cases tgt)
  case (Some b)
  have "returns (go ce (insts (blocks f ! b)))" if "b < length (blocks f)"
    using go t nth_mem[OF that] by (auto simp: ticking_def)
  then show ?thesis by (simp add: const_goto_def Some)
qed (simp add: const_goto_def)

lemma frame_later:
  assumes "ce_frame ce ce1" and "ticks rest = ticks is" and "length rest < length is"
  shows "frame_weight L ce1 rest < frame_weight L ce is"
proof -
  have "max_steps ce1 + 1 - csteps ce1 \<le> max_steps ce + 1 - csteps ce" using assms(1) by (auto simp: ce_frame_def)
  then have "(max_steps ce1 + 1 - csteps ce1) * (2 * (L + 1)) \<le> (max_steps ce + 1 - csteps ce) * (2 * (L + 1))"
    by (rule mult_le_mono1)
  then show ?thesis unfolding frame_weight_def assms(2) using assms(3) by linarith
qed

lemma frame_plain:
  assumes "ce_frame ce ce1" and "csteps ce1 = Suc (csteps ce)" and "csteps ce1 \<le> max_steps ce"
    and "ticks is" and "length rest < length is"
  shows "frame_weight L ce1 rest < frame_weight L ce is"
proof -
  have ms: "max_steps ce1 = max_steps ce" using assms(1) by (simp add: ce_frame_def)
  obtain d where d: "max_steps ce = csteps ce1 + d" using assms(3) le_Suc_ex by blast
  show ?thesis unfolding frame_weight_def ms d using assms(2,4,5) by (simp add: algebra_simps)
qed

lemma frame_jump:
  assumes "ce_frame ce ce1" and "csteps ce1 = csteps ce" and "\<not> ticks is" and "ticks is'" and "length is' \<le> L"
  shows "frame_weight L ce1 is' < frame_weight L ce is"
  using assms by (simp add: frame_weight_def ce_frame_def)

text \<open>What follows the nested call of an instruction.\<close>

definition after_call :: "(MirConstEval \<Rightarrow> const_run) \<Rightarrow> MirValueId \<Rightarrow> MirConstEval \<times> MirConstValue option \<Rightarrow> const_run" where
  "after_call k r = (\<lambda>(ce2, res). case res of None \<Rightarrow> Ok (ce2, None)
     | Some v \<Rightarrow> if r \<noteq> MIR_VALUE_NONE then cbind (set_slot ce2 r v) k else k ce2)"

lemma const_nested_returns:
  assumes co: "call_outcome call"
    and call: "\<And>ce1 g as. ce_frame ce ce1 \<Longrightarrow> csteps ce1 = csteps ce \<Longrightarrow> g \<in> set (func_list (cmodule ce)) \<Longrightarrow> returns (call ce1 g as)"
    and le: "csteps ce \<le> max_steps ce"
    and k: "\<And>ce1. ce_frame ce ce1 \<Longrightarrow> csteps ce1 \<le> max_steps ce \<Longrightarrow> returns (k ce1)"
  shows "returns (const_nested call ce name as r k)"
proof (cases "name = None \<or> mir_module_find_function (cmodule ce) (the name) = None")
  case True
  then show ?thesis by (auto simp: const_nested_def split: option.split)
next
  case False
  then obtain nm g where g: "name = Some nm" "mir_module_find_function (cmodule ce) nm = Some g" by auto
  then have mem: "g \<in> set (func_list (cmodule ce))" by (auto simp: mir_module_find_function_def find_Some_iff)
  have "returns (cbind (call ce1 g vs) (after_call k r))" if a: "get_args ce (take 16 as) = Ok (ce1, vs)" for ce1 vs
  proof -
    note ga = get_args_frame[OF a]
    show ?thesis
    proof (rule cbind_returns)
      show "returns (call ce1 g vs)" by (rule call) (use ga mem in auto)
    next
      fix x assume c: "call ce1 g vs = Ok x"
      obtain ce2 res where x: "x = (ce2, res)" by fastforce
      have "run_outcome ce1 (Ok (ce2, res))" using co unfolding call_outcome_def c[unfolded x, symmetric] by blast
      moreover have "max_steps ce1 = max_steps ce" using ga by (simp add: ce_frame_def)
      ultimately have fr: "ce_frame ce ce2" "res \<noteq> None \<Longrightarrow> csteps ce2 \<le> max_steps ce"
        using le ga ce_frame_trans[of ce ce1 ce2] by (auto simp: run_outcome_def)
      have "returns (cbind (set_slot ce2 r v) k)" if "res = Some v" for v
      proof (rule cbind_returns, simp)
        fix ce3 assume "set_slot ce2 r v = Ok ce3"
        from set_slot_frame[OF this] show "returns (k ce3)"
          using k[of ce3] fr that ce_frame_trans[OF fr(1)] by auto
      qed
      then show "returns (after_call k r x)"
        using k[OF fr(1)] fr(2) by (auto simp: after_call_def x split: option.split)
    qed
  qed
  then have "returns (cbind (get_args ce (take 16 as)) (\<lambda>(ce1, as). cbind (call ce1 g as) (after_call k r)))"
    by (intro cbind_returns) auto
  then show ?thesis by (simp add: const_nested_def g after_call_def)
qed

lemma const_loop_returns:
  assumes f: "ticking L f" and co: "call_outcome call"
    and call: "\<And>ce1 g as. ce_frame ce0 ce1 \<Longrightarrow> csteps ce1 \<le> max_steps ce0 \<Longrightarrow> g \<in> set (func_list (cmodule ce0)) \<Longrightarrow>
      returns (call ce1 g as)"
  shows "ce_frame ce0 ce \<Longrightarrow> csteps ce \<le> max_steps ce0 \<Longrightarrow> length is \<le> L \<Longrightarrow> frame_weight L ce is < n \<Longrightarrow>
    returns (const_loop env call f n ce is)"
proof (induction n arbitrary: ce "is")
  case (Suc n ce "is")
  have ms: "max_steps ce = max_steps ce0" "cmodule ce = cmodule ce0" using Suc.prems(1) by (auto simp: ce_frame_def)
  have later: "returns (const_loop env call f n ce1 rest)"
    if "ce_frame ce ce1" "csteps ce1 \<le> max_steps ce0" "length rest \<le> L"
      "frame_weight L ce1 rest < frame_weight L ce is" for ce1 rest
    using Suc.IH[OF ce_frame_trans[OF Suc.prems(1) that(1)] that(2,3)] that(4) Suc.prems(4) by linarith
  show ?case
  proof (cases "is")
    case (Cons i rest)
    have len: "length rest < length is" "length rest \<le> L" using Suc.prems(3) Cons by simp_all
    have plain: "returns (cbind (mir_consteval_step env ce i) (\<lambda>(ce1, ok).
        if ok then const_loop env call f n ce1 rest else Ok (ce1, None)))" if p: "is_plain (iop i)"
    proof (rule cbind_returns, simp, clarify)
      fix ce1 ok assume "mir_consteval_step env ce i = Ok (ce1, ok)"
      note s = step_outcome[OF this]
      have "ticks is" using p by (cases "iop i") (simp_all add: Cons)
      then have "returns (const_loop env call f n ce1 rest)" if ok
        using later[of ce1 rest] frame_plain[of ce ce1 "is" rest L] s len ms that by simp
      then show "returns (if ok then const_loop env call f n ce1 rest else Ok (ce1, None))" by simp
    qed
    have jump: "returns (const_goto f (const_loop env call f n) ce1 t)"
      if j: "is_jump (iop i)" and c: "ce_frame ce ce1" "csteps ce1 = csteps ce" for ce1 t
    proof (rule const_goto_returns[OF f])
      fix is' assume "ticks is'" and l: "length is' \<le> L"
      then have "frame_weight L ce1 is' < frame_weight L ce is"
        using frame_jump[OF c, of "is" is' L] j Cons by simp
      then show "returns (const_loop env call f n ce1 is')"
        using later[OF c(1)] c(2) Suc.prems(2) l by simp
    qed
    show ?thesis
    proof (cases "iop i")
      case (CONDBR c t e)
      have "returns (cbind (get_slot ce c) (\<lambda>(ce1, v). case v of
              CBool b \<Rightarrow> const_goto f (const_loop env call f n) ce1 (if b then t else e)
            | _ \<Rightarrow> run_fail ce1 ''consteval: condbr on non-bool''))"
        by (rule cbind_returns) (auto split: MirConstValue.split intro!: jump simp: CONDBR dest!: get_slot_frame)
      then show ?thesis by (simp add: Cons CONDBR)
    next
      case (RET x)
      have "returns (cbind (get_slot ce x) (\<lambda>(ce1, v). Ok (ce1, Some v)))" by (rule cbind_returns) auto
      then show ?thesis by (simp add: Cons RET)
    next
      case (CALL name as c)
      have "ticks rest = ticks is" by (simp add: Cons CALL)
      then have k: "returns (const_loop env call f n ce1 rest)" if "ce_frame ce ce1" "csteps ce1 \<le> max_steps ce" for ce1
        using later[OF that(1)] that len frame_later[OF that(1)] ms by simp
      have "returns (const_nested call ce name as (result i) (\<lambda>ce1. const_loop env call f n ce1 rest))"
        by (rule const_nested_returns[OF co _ _ k])
          (use call ce_frame_trans[OF Suc.prems(1)] ms Suc.prems(2) in auto)
      then show ?thesis by (simp add: Cons CALL)
    qed (use plain jump in \<open>simp_all add: Cons\<close>)
  qed simp
qed simp

lemma mir_consteval_call_returns:
  assumes m: "\<And>g. g \<in> set (func_list m) \<Longrightarrow> ticking L g"
  shows "ticking L f \<Longrightarrow> cmodule ce = m \<Longrightarrow> csteps ce \<le> max_steps ce \<Longrightarrow> call_fuel L ce \<le> n \<Longrightarrow>
    returns (mir_consteval_call env n ce f as)"
proof (induction n arbitrary: f ce as)
  case 0
  then show ?case by (simp add: call_fuel_def)
next
  case (Suc n)
  show ?case
  proof (cases "is_extern f \<or> call_depth ce \<ge> max_call_depth ce")
    case False
    let ?ce = "ce\<lparr>call_depth := call_depth ce + 1\<rparr>"
    have "returns (cbind (set_params ?ce (params f) as) (\<lambda>ce1.
             cbind (const_goto f (const_loop env (mir_consteval_call env n) f n) ce1 (entry_block f)) (\<lambda>(ce2, r).
               Ok (ce2\<lparr>call_depth := call_depth ce2 - 1\<rparr>, r))))"
    proof (rule cbind_returns, simp)
      fix ce1 assume "set_params ?ce (params f) as = Ok ce1"
      note p = set_params_frame[OF this]
      have pe: "call_depth ce1 = call_depth ce + 1" "max_call_depth ce1 = max_call_depth ce" "max_steps ce1 = max_steps ce"
        "cmodule ce1 = m" "csteps ce1 = csteps ce"
        using p Suc.prems(2) by (auto simp: ce_frame_def)
      have "returns (const_goto f (const_loop env (mir_consteval_call env n) f n) ce1 (entry_block f))"
      proof (rule const_goto_returns[OF Suc.prems(1)])
        fix "is" :: "MirInst list" assume i: "ticks is" "length is \<le> L"
        show "returns (const_loop env (mir_consteval_call env n) f n ce1 is)"
        proof (rule const_loop_returns[OF Suc.prems(1) const_call_outcome _ ce_frame_refl _ i(2)])
          fix ce2 g as'
          assume c: "ce_frame ce1 ce2" "csteps ce2 \<le> max_steps ce1" "g \<in> set (func_list (cmodule ce1))"
          show "returns (mir_consteval_call env n ce2 g as')"
          proof (rule Suc.IH)
            show "ticking L g" using m c(3) pe by simp
            show "cmodule ce2 = m" "csteps ce2 \<le> max_steps ce2" using c pe by (auto simp: ce_frame_def)
            have "nat (max_call_depth ce - call_depth ce) = Suc (nat (max_call_depth ce - (call_depth ce + 1)))"
              using False by linarith
            then show "call_fuel L ce2 \<le> n"
              using Suc.prems(4) c(1) pe by (simp add: call_fuel_def ce_frame_def)
          qed
        next
          show "csteps ce1 \<le> max_steps ce1" using pe Suc.prems(3) by simp
          have "(max_steps ce1 + 1 - csteps ce1) * (2 * (L + 1)) \<le> (max_steps ce + 1) * (2 * (L + 1))"
            unfolding pe by (intro mult_le_mono1) simp
          then show "frame_weight L ce1 is < n"
            using Suc.prems(4) i by (simp add: frame_weight_def call_fuel_def)
        qed
      qed
      then show "returns (cbind (const_goto f (const_loop env (mir_consteval_call env n) f n) ce1 (entry_block f)) (\<lambda>(ce2, r).
               Ok (ce2\<lparr>call_depth := call_depth ce2 - 1\<rparr>, r)))"
        by (rule cbind_returns) auto
    qed
    then show ?thesis using False by simp
  qed auto
qed


text \<open>The hypothesis is needed: an endless loop of branches is never stopped.\<close>

definition const_block :: "MirInst list \<Rightarrow> MirBlock" where
  "const_block is = \<lparr>bb_id = 0, label = [], insts = is, inst_count = int (length is), predecessors = [], successors = []\<rparr>"

definition const_func :: "string \<Rightarrow> nat \<Rightarrow> u32 \<Rightarrow> MirInst list \<Rightarrow> MirFunction" where
  "const_func name n_params next is =
     \<lparr>fname = name, return_type = None,
      params = map (\<lambda>k. \<lparr>pname = [], ptype = None, value_id = of_nat (Suc k)\<rparr>) [0..<n_params],
      entry_block = Some 0, block_list = [0], blocks = [const_block is], block_count = 1, next_value_id = next,
      value_types = [], is_constexpr = True, is_extern = False, is_async = False\<rparr>"

definition mk_inst :: "MirOp \<Rightarrow> MirValueId \<Rightarrow> MirInst" where
  "mk_inst op r = \<lparr>iop = op, result = r, itype = None\<rparr>"

definition spin_func :: MirFunction where
  "spin_func = const_func ''spin'' 0 1 [mk_inst (BR (Some 0)) 0]"

lemma spin_loop: "const_loop env call spin_func n ce [mk_inst (BR (Some 0)) 0] = OutOfFuel"
  by (induction n) (simp_all add: mk_inst_def const_goto_def spin_func_def const_func_def const_block_def)

text \<open>The step limit does not bound branches: a function that only jumps to itself is evaluated
  forever, although the limit is documented to guarantee termination.\<close>

theorem mir_consteval_spins_forever:
  "mir_consteval_call env n (mir_consteval_init m) spin_func as = OutOfFuel"
proof (cases n)
  case (Suc k)
  have "params spin_func = []" "entry_block spin_func = Some 0" "\<not> is_extern spin_func"
    "blocks spin_func = [const_block [mk_inst (BR (Some 0)) 0]]"
    by (simp_all add: spin_func_def const_func_def)
  then show ?thesis
    by (simp add: Suc mir_consteval_init_def const_goto_def spin_loop const_block_def)
qed simp

definition tick_func :: MirFunction where
  "tick_func = const_func ''tick'' 0 2 [mk_inst (CONST_INT 1) 1, mk_inst (BR (Some 0)) 0]"

definition const_module :: "MirFunction list \<Rightarrow> MirModule" where
  "const_module fs = \<lparr>mname = [], func_list = fs, func_count = length fs, globals = [], type_cache = [], string_literals = []\<rparr>"


definition answer_func :: MirFunction where
  "answer_func = const_func ''answer'' 1 4
     [mk_inst (CONST_INT 2) 2, mk_inst (BINARY MIR_MUL 1 2) 3, mk_inst (RET 3) 0]"

lemma const_func_fields [simp]:
  "params (const_func s k nx is) = map (\<lambda>k. \<lparr>pname = [], ptype = None, value_id = of_nat (Suc k)\<rparr>) [0..<k]"
  "entry_block (const_func s k nx is) = Some 0" "\<not> is_extern (const_func s k nx is)"
  "blocks (const_func s k nx is) = [const_block is]" "block_list (const_func s k nx is) = [0]"
  "fname (const_func s k nx is) = s" "next_value_id (const_func s k nx is) = nx"
  "insts (const_block is) = is"
  by (simp_all add: const_func_def const_block_def)

lemma mk_inst_fields [simp]: "iop (mk_inst op r) = op" "result (mk_inst op r) = r"
  by (simp_all add: mk_inst_def)

lemma answer_run:
  "\<exists>ce'. mir_consteval_call env (Suc (Suc (Suc (Suc n)))) (mir_consteval_init m) answer_func [CInt 21] = Ok (ce', Some (CInt 42))"
  by (simp add: answer_func_def mir_consteval_init_def const_goto_def mir_consteval_step_def const_binary_def
      ce_put_def get_slots_def get_slot_def set_slot_def ensure_slot_def Let_def MIR_CONSTEVAL_MAX_STEPS_def)

theorem mir_consteval_call_discipline_witness:
  "\<exists>ce'. mir_consteval_call demo_env 4 (mir_consteval_init (const_module [])) answer_func [CInt 21] = Ok (ce', Some (CInt 42))
    \<and> call_depth ce' = 0 \<and> csteps ce' \<le> 100000"
proof -
  let ?ce = "mir_consteval_init (const_module [])"
  obtain ce' where r: "mir_consteval_call demo_env 4 ?ce answer_func [CInt 21] = Ok (ce', Some (CInt 42))"
    using answer_run[of demo_env 0] by (auto simp: numeral_eq_Suc)
  have "csteps ?ce \<le> max_steps ?ce" "call_depth ?ce = 0" "max_steps ?ce = 100000"
    by (simp_all add: mir_consteval_init_def MIR_CONSTEVAL_MAX_STEPS_def)
  with mir_consteval_call_discipline[OF r] r show ?thesis by auto
qed

end
