(* ===== verification/Consteval_Sound.thy ===== *)
theory Consteval_Sound
  imports Consteval_Facts
begin

unbundle bit_operations_syntax

text \<open>
  The constant evaluator against the VM: on code without memory, moves, narrowing conversions and calls
  a value it returns is the one the VM computes.  With calls it is not, because all calls share the
  slots.
\<close>

section \<open>Slots and registers\<close>

fun cval_word :: "MirConstValue \<Rightarrow> u64" where
  "cval_word (CInt w) = w"
| "cval_word (CFloat w) = w"
| "cval_word (CBool b) = of_flag b"
| "cval_word (CString a) = a"
| "cval_word CNull = 0"
| "cval_word CVoid = 0"

text \<open>A slot outside the array reads as zeroed memory once the array has grown.\<close>

definition slot_of :: "MirConstEval \<Rightarrow> MirValueId \<Rightarrow> MirConstValue" where
  "slot_of ce x = (if unat x < length (cslots ce) then cslots ce ! unat x else CInt 0)"

lemma slot_of_msg [simp]:
  "slot_of (ce\<lparr>error_msg := m\<rparr>) = slot_of ce" "slot_of (ce\<lparr>csteps := n\<rparr>) = slot_of ce"
  "slot_of (ce\<lparr>call_depth := d\<rparr>) = slot_of ce"
  by (simp_all add: slot_of_def fun_eq_iff)

lemma sint_uint32:
  assumes "0 \<le> sint (x :: u32)"
  shows "uint x = sint x" and "unat x < 2 ^ 31"
proof -
  have lt: "sint x < 2 ^ 31" using sint_lt[of x] by simp
  have "uint x = sint x mod 2 ^ 32" using uint_word_of_int[of "sint x", where ?'a = 32] by simp
  then show u: "uint x = sint x" using assms lt by (simp add: mod_pos_pos_trivial)
  show "unat x < 2 ^ 31" using lt assms by (simp add: unat_eq_nat_uint u)
qed

lemma sint_le32: "0 \<le> sint (x :: u32) \<Longrightarrow> int n \<le> sint x \<longleftrightarrow> n \<le> unat x"
  by (rule le_sint_small) (rule sint_uint32(2))

lemma sint_unat32: "0 \<le> sint (x :: u32) \<Longrightarrow> nat (sint x) = unat x"
  by (simp add: unat_eq_nat_uint sint_uint32(1))

lemma ensure_slot_of: "slot_of (ensure_slot ce x) = slot_of ce"
  by (auto simp: ensure_slot_def slot_of_def fun_eq_iff Let_def nth_append)

lemma ensure_slot_len:
  assumes "0 \<le> sint x"
  shows "unat x < length (cslots (ensure_slot ce x))"
proof -
  define n where "n = length (cslots ce)"
  have s: "int n \<le> sint x \<longleftrightarrow> n \<le> unat x" "int (n * 2) \<le> sint x \<longleftrightarrow> n * 2 \<le> unat x"
    using sint_le32[OF assms, of n] sint_le32[OF assms, of "n * 2"] by auto
  have "unat x < n + nat (sint x + 64 - int n)" if "n * 2 \<le> unat x"
    using sint_unat32[OF assms] assms that by linarith
  then show ?thesis using s by (auto simp: ensure_slot_def Let_def n_def[symmetric] mult.commute)
qed

lemma get_slot_value:
  assumes "get_slot ce x = Ok (ce1, v)"
  shows "v = slot_of ce x" and "slot_of ce1 = slot_of ce"
proof -
  have nn: "0 \<le> sint x" and e: "ce1 = ensure_slot ce x" "v = cslots ce1 ! unat x"
    using assms by (auto simp: get_slot_def Let_def split: if_splits)
  show "slot_of ce1 = slot_of ce" using e ensure_slot_of by simp
  have "v = slot_of ce1 x" using ensure_slot_len[OF nn, of ce] e by (simp add: slot_of_def)
  then show "v = slot_of ce x" using e ensure_slot_of by simp
qed

lemma get_slots_value:
  assumes "get_slots ce l r = Ok (ce1, x, y)"
  shows "x = slot_of ce l" and "y = slot_of ce r" and "slot_of ce1 = slot_of ce"
proof -
  obtain ce0 where "get_slot ce l = Ok (ce0, x)" "get_slot ce0 r = Ok (ce1, y)"
    using assms by (auto simp: get_slots_def cbind_Ok split: if_splits)
  from get_slot_value[OF this(1)] get_slot_value[OF this(2)]
  show "x = slot_of ce l" "y = slot_of ce r" "slot_of ce1 = slot_of ce" by simp_all
qed

lemma set_slot_value:
  assumes "set_slot ce x v = Ok ce1"
  shows "slot_of ce1 y = (if y = x then v else slot_of ce y)"
proof -
  have nn: "0 \<le> sint x" and e: "ce1 = (ensure_slot ce x)\<lparr>cslots := (cslots (ensure_slot ce x))[unat x := v]\<rparr>"
    using assms by (auto simp: set_slot_def Let_def split: if_splits)
  have "slot_of ce1 y = (if y = x then v else slot_of (ensure_slot ce x) y)"
    using ensure_slot_len[OF nn, of ce] by (auto simp: e slot_of_def word_unat_eq_iff)
  then show ?thesis by (simp add: ensure_slot_of)
qed

definition agrees :: "MirConstEval \<Rightarrow> CvmFrame \<Rightarrow> bool" where
  "agrees ce fr \<longleftrightarrow> (\<forall>x. x \<noteq> MIR_VALUE_NONE \<and> unat x < length (regs fr) \<longrightarrow> regs fr ! unat x = cval_word (slot_of ce x))"

lemma agrees_slots: "slot_of ce1 = slot_of ce \<Longrightarrow> agrees ce fr \<Longrightarrow> agrees ce1 fr"
  by (simp add: agrees_def)

text \<open>An id the register file of \<open>n\<close> registers holds.\<close>

definition reg_id :: "nat \<Rightarrow> MirValueId \<Rightarrow> bool" where
  "reg_id n x \<longleftrightarrow> x \<noteq> MIR_VALUE_NONE \<and> unat x < n"

lemma reg_id_sint:
  assumes "reg_id n x" and "n \<le> 4096"
  shows "\<not> int n \<le> sint x" and "\<not> sint x < 0"
proof -
  have "unat x < 2 ^ 31" using assms by (simp add: reg_id_def)
  then show "\<not> int n \<le> sint x" "\<not> sint x < 0"
    using assms(1) le_sint_small[of x n] le_sint_small[of x 0] by (auto simp: reg_id_def)
qed

lemma reg_get_agrees:
  assumes "agrees ce fr" and "reg_id (length (regs fr)) x" and "length (regs fr) \<le> 4096"
  shows "cvm_reg_get vm fr x = Ok (vm, cval_word (slot_of ce x))"
  using assms reg_id_sint[OF assms(2,3)] by (auto simp: cvm_reg_get_def reg_id_def agrees_def)

lemma set_next_agrees:
  assumes "agrees ce fr" and "reg_id (length (regs fr)) r" and "length (regs fr) \<le> 4096" and "set_slot ce r v = Ok ce1"
  shows "\<exists>fr1. set_next vm fr r (cval_word v) = Ok (CtlNext vm fr1) \<and> agrees ce1 fr1
    \<and> length (regs fr1) = length (regs fr) \<and> allocas fr1 = allocas fr"
proof -
  let ?fr = "fr\<lparr>regs := (regs fr)[unat r := cval_word v]\<rparr>"
  have "set_next vm fr r (cval_word v) = Ok (CtlNext vm ?fr)"
    using assms(2) reg_id_sint[OF assms(2,3)] by (auto simp: set_next_def cvm_reg_set_def reg_id_def)
  moreover have "agrees ce1 ?fr"
    using assms(1,2) set_slot_value[OF assms(4)]
    by (auto simp: agrees_def reg_id_def nth_list_update word_unat_eq_iff)
  ultimately show ?thesis by (intro exI[of _ ?fr]) simp
qed

section \<open>The fragment\<close>

fun shared_unop :: "MirUnOp \<Rightarrow> bool" where
  "shared_unop MIR_CAST = False" | "shared_unop MIR_TRUNC = False" | "shared_unop MIR_SEXT = False" | "shared_unop _ = True"

fun shared_op :: "nat \<Rightarrow> MirFunction \<Rightarrow> MirOp \<Rightarrow> MirValueId \<Rightarrow> bool" where
  "shared_op n f (CONST_INT w) r = reg_id n r"
| "shared_op n f (CONST_FLOAT w) r = reg_id n r"
| "shared_op n f (CONST_BOOL b) r = reg_id n r"
| "shared_op n f (CONST_STRING a) r = reg_id n r"
| "shared_op n f CONST_NULL r = reg_id n r"
| "shared_op n f (BINARY p x y) r = (reg_id n r \<and> reg_id n x \<and> reg_id n y)"
| "shared_op n f (UNARY p x t) r = (shared_unop p \<and> reg_id n r \<and> reg_id n x)"
| "shared_op n f (TRANSFER p s) r = (p = MIR_COPY \<and> reg_id n r \<and> reg_id n s)"
| "shared_op n f NOP r = True"
| "shared_op n f (DEBUGLOC l c) r = True"
| "shared_op n f (BR t) r = (\<forall>b. t = Some b \<longrightarrow> threaded f b)"
| "shared_op n f (CONDBR c t e) r = (reg_id n c \<and> (\<forall>b. t = Some b \<or> e = Some b \<longrightarrow> threaded f b))"
| "shared_op n f (RET x) r = reg_id n x"
| "shared_op n f RET_VOID r = True"
| "shared_op n f _ r = False"

definition shared_code :: "MirFunction \<Rightarrow> bool" where
  "shared_code f \<longleftrightarrow> (\<forall>b. entry_block f = Some b \<longrightarrow> threaded f b)
     \<and> (\<forall>b \<in> set (blocks f). \<forall>i \<in> set (insts b). shared_op (nat (reg_count_of f)) f (iop i) (result i))"

lemma sint_zero: "sint (y :: u64) = 0 \<Longrightarrow> y = 0"
  by (metis signed_0 signed_word_eqI)

lemma int_op_agrees: "const_int_op p x y = Some (Inr z) \<Longrightarrow> cvm_binop env p x y = z"
proof (cases p)
  case MIR_SHL
  assume "const_int_op p x y = Some (Inr z)"
  then have "y < 64" "z = push_bit (unat y) x" using MIR_SHL by (auto split: if_splits)
  moreover have "unat (y AND 63) = unat y" if "y < 64"
    using that unat_and_mask[of y 6] by (simp add: word_less_nat_alt)
  ultimately show ?thesis using MIR_SHL by simp
next
  case MIR_SHR
  assume "const_int_op p x y = Some (Inr z)"
  then have "y < 64" "z = signed_drop_bit (unat y) x" using MIR_SHR by (auto split: if_splits)
  moreover have "unat (y AND 63) = unat y" if "y < 64"
    using that unat_and_mask[of y 6] by (simp add: word_less_nat_alt)
  ultimately show ?thesis using MIR_SHR by simp
qed (auto simp: cvm_safe_div_i64_def cvm_safe_mod_i64_def Let_def split: if_splits dest: sint_zero)

lemma cmp_op_agrees: "const_class p = CmpC \<Longrightarrow> cvm_binop env p x y = of_flag (const_cmp_op p x y)"
  by (cases p) simp_all

lemma float_op_agrees: "const_class p = FloatC \<Longrightarrow> cvm_binop env p x y = e_fbin env p x y"
  by (cases p) simp_all

lemma class_not_logic: "const_class p \<noteq> NoneC \<Longrightarrow> p \<noteq> MIR_LOGIC_AND \<and> p \<noteq> MIR_LOGIC_OR"
  by auto

lemma ce_put_Ok: "ce_put ce r v = Ok (ce', True) \<longleftrightarrow> set_slot ce r v = Ok ce'"
  by (auto simp: ce_put_def cbind_Ok)

lemma ce_fail_not_True [simp]: "ce_fail ce m \<noteq> Ok (ce', True)"
  by (simp add: ce_fail_def)

lemma const_binary_value:
  assumes "const_binary env ce p l rr r = Ok (ce', True)"
  shows "\<exists>ce1 v. slot_of ce1 = slot_of ce \<and> set_slot ce1 r v = Ok ce' \<and> const_class p \<noteq> NoneC
    \<and> cval_word v = cvm_binop env p (cval_word (slot_of ce l)) (cval_word (slot_of ce rr))"
proof -
  have c: "const_class p \<noteq> NoneC" using assms by (auto simp: const_binary_def)
  then obtain ce1 x y where g: "get_slots ce l rr = Ok (ce1, x, y)"
    using assms by (auto simp: const_binary_def cbind_Ok)
  note gv = get_slots_value[OF g]
  have "\<exists>v. set_slot ce1 r v = Ok ce' \<and> cval_word v = cvm_binop env p (cval_word x) (cval_word y)"
    using assms c int_op_agrees[of p] cmp_op_agrees[of p] float_op_agrees[of p]
    by (auto simp: const_binary_def g ce_put_Ok split: const_kind.splits MirConstValue.splits option.splits sum.splits)
  then show ?thesis using gv c by auto
qed

lemma const_unary_value:
  assumes "const_unary env ce p x r = Ok (ce', True)" and "shared_unop p"
  shows "\<exists>ce1 v. slot_of ce1 = slot_of ce \<and> set_slot ce1 r v = Ok ce'
    \<and> cval_word v = cvm_unop env c p t (cval_word (slot_of ce x))"
proof -
  obtain ce1 w where g: "get_slot ce x = Ok (ce1, w)"
    using assms(1) by (auto simp: const_unary_def cbind_Ok split: if_splits)
  note gv = get_slot_value[OF g]
  have "\<exists>v. set_slot ce1 r v = Ok ce' \<and> cval_word v = cvm_unop env c p t (cval_word w)"
    using assms
    by (cases p; cases w) (auto simp: const_unary_def g ce_put_Ok of_flag_def)
  then show ?thesis using gv by auto
qed

text \<open>One plain instruction: the VM goes on with a frame that agrees again.\<close>

definition next_agrees :: "CvmState \<Rightarrow> CvmFrame \<Rightarrow> MirConstEval \<Rightarrow> CvmCtl cres \<Rightarrow> bool" where
  "next_agrees vm fr ce' res \<longleftrightarrow> (\<exists>fr1. res = Ok (CtlNext vm fr1) \<and> agrees ce' fr1
     \<and> length (regs fr1) = length (regs fr) \<and> allocas fr1 = allocas fr)"

lemma next_agreesI:
  "agrees ce fr \<Longrightarrow> reg_id (length (regs fr)) r \<Longrightarrow> length (regs fr) \<le> 4096 \<Longrightarrow> slot_of ce1 = slot_of ce \<Longrightarrow>
   set_slot ce1 r v = Ok ce' \<Longrightarrow> next_agrees vm fr ce' (set_next vm fr r (cval_word v))"
  unfolding next_agrees_def by (rule set_next_agrees[OF agrees_slots])

lemma const_op_agrees:
  assumes ag: "agrees ce fr" and len: "length (regs fr) \<le> 4096"
    and sh: "shared_op (length (regs fr)) f op r" and ok: "const_op env ce op r = Ok (ce', True)"
  shows "next_agrees vm fr ce' (cvm_step env exec vm fr prev op r)"
proof -
  note put = next_agreesI[OF ag _ len]
  note get = reg_get_agrees[OF ag _ len]
  show ?thesis
  proof (cases op)
    case (CONST_INT w)
    then show ?thesis using put[of r ce "CInt w"] sh ok by (simp add: ce_put_Ok)
  next
    case (CONST_FLOAT w)
    then show ?thesis using put[of r ce "CFloat w"] sh ok by (simp add: ce_put_Ok)
  next
    case (CONST_BOOL b)
    then show ?thesis using put[of r ce "CBool b"] sh ok by (simp add: ce_put_Ok)
  next
    case (CONST_STRING a)
    then show ?thesis using put[of r ce "CString a"] sh ok by (simp add: ce_put_Ok)
  next
    case CONST_NULL
    then show ?thesis using put[of r ce "CNull"] sh ok by (simp add: ce_put_Ok)
  next
    case (BINARY p x y)
    have b: "const_binary env ce p x y r = Ok (ce', True)" using ok BINARY by simp
    obtain ce1 v where v: "slot_of ce1 = slot_of ce" "set_slot ce1 r v = Ok ce'" "const_class p \<noteq> NoneC"
      "cval_word v = cvm_binop env p (cval_word (slot_of ce x)) (cval_word (slot_of ce y))"
      using const_binary_value[OF b] by blast
    have "cvm_step env exec vm fr prev op r = set_next vm fr r (cval_word v)"
      using sh get[of x vm] get[of y vm] class_not_logic[OF v(3)] v(4) by (simp add: BINARY op_binary_def)
    then show ?thesis using put[OF _ v(1,2)] sh BINARY by simp
  next
    case (UNARY p x t)
    then have u: "const_unary env ce p x r = Ok (ce', True)" and sp: "shared_unop p" using ok sh by simp_all
    obtain ce1 v where v: "slot_of ce1 = slot_of ce" "set_slot ce1 r v = Ok ce'"
      "cval_word v = cvm_unop env (type_cache (vmodule vm)) p t (cval_word (slot_of ce x))"
      using const_unary_value[OF u sp] by blast
    have "cvm_step env exec vm fr prev op r = set_next vm fr r (cval_word v)"
      using sh get[of x vm] v(3) by (simp add: UNARY op_unary_def)
    then show ?thesis using put[OF _ v(1,2)] sh UNARY by simp
  next
    case (TRANSFER p x)
    then obtain ce1 w where gw: "get_slot ce x = Ok (ce1, w)" "set_slot ce1 r w = Ok ce'"
      using ok sh by (auto simp: cbind_Ok ce_put_Ok)
    then have g: "get_slot ce x = Ok (ce1, slot_of ce x)" "set_slot ce1 r (slot_of ce x) = Ok ce'"
      using get_slot_value(1)[OF gw(1)] by simp_all
    have n: "next_agrees vm fr ce' (set_next vm fr r (cval_word (slot_of ce x)))"
      using put[OF _ get_slot_value(2)[OF g(1)] g(2)] sh TRANSFER by simp
    have "cvm_step env exec vm fr prev op r = set_next vm fr r (cval_word (slot_of ce x))"
      using sh get[of x vm] by (simp add: TRANSFER op_transfer_def set_next_def)
    then show ?thesis using n by simp
  qed (use ok sh ag in \<open>simp_all add: next_agrees_def\<close>)
qed

section \<open>Runs\<close>

lemma shared_plain:
  assumes "shared_op n f op r" and "\<not> is_jump op"
  shows "is_plain op"
  using assms by (cases op) simp_all

lemma const_loop_agrees:
  assumes sh: "shared_code f" and n: "n = nat (reg_count_of f)" "n \<le> 4096"
  shows "const_loop env call f k ce is = Ok (ce', Some v) \<Longrightarrow> agrees ce fr \<Longrightarrow> length (regs fr) = n \<Longrightarrow>
    (\<And>i. i \<in> set is \<Longrightarrow> shared_op n f (iop i) (result i)) \<Longrightarrow> trap_code vm = 0 \<Longrightarrow>
    \<exists>c fr'. cvm_loop env exec f k vm fr cur prev is = Ok (vm\<lparr>inst_executed := c\<rparr>, fr', cval_word v)
      \<and> allocas fr' = allocas fr"
proof (induction k arbitrary: ce "is" vm fr cur prev)
  case (Suc k ce "is" vm fr cur prev)
  obtain i rest where cons: "is = i # rest" using Suc.prems(1) by (cases "is") (auto simp: run_fail_def)
  let ?vm = "vm\<lparr>inst_executed := inst_executed vm + 1\<rparr>"
  have si: "shared_op n f (iop i) (result i)" using Suc.prems(4) cons by simp
  have len: "length (regs fr) \<le> 4096" using Suc.prems(3) n(2) by simp
  have goto: "\<exists>c fr'. enter_block f (\<lambda>b. cvm_loop env exec f k vm1 fr b (Some cur)) vm1 fr t = Ok (vm1\<lparr>inst_executed := c\<rparr>, fr', cval_word v)
      \<and> allocas fr' = allocas fr"
    if g: "const_goto f (const_loop env call f k) ce1 t = Ok (ce', Some v)" and a: "slot_of ce1 = slot_of ce"
      and th: "\<And>b. t = Some b \<Longrightarrow> threaded f b" and tr: "trap_code vm1 = 0" for ce1 t vm1
  proof -
    obtain b where b: "t = Some b" "b < length (blocks f)" "const_loop env call f k ce1 (insts (blocks f ! b)) = Ok (ce', Some v)"
      using g by (auto simp: const_goto_def run_fail_def split: option.splits if_splits)
    have ne: "insts (blocks f ! b) \<noteq> []" using b(3) by (cases k) (auto simp: run_fail_def)
    have "shared_op n f (iop j) (result j)" if "j \<in> set (insts (blocks f ! b))" for j
      using sh that nth_mem[OF b(2)] n(1) by (auto simp: shared_code_def)
    from Suc.IH[OF b(3) agrees_slots[OF a Suc.prems(2)] Suc.prems(3) this tr]
    show ?thesis using ne th[OF b(1)] by (simp add: enter_block_def b(1))
  qed
  show ?case
  proof (cases "is_jump (iop i)")
    case True
    then consider t where "iop i = BR t" | c t e where "iop i = CONDBR c t e" | x where "iop i = RET x" | "iop i = RET_VOID"
      by (cases "iop i") simp_all
    then show ?thesis
    proof cases
      case 1
      then show ?thesis using goto[of ce t ?vm] Suc.prems(1,5) si by (simp add: cons)
    next
      case (2 c t e)
      then have rc: "reg_id n c" using si by simp
      obtain ce1 w where g: "get_slot ce c = Ok (ce1, w)" using Suc.prems(1) 2 by (auto simp: cons cbind_Ok)
      then obtain b where b: "w = CBool b" "const_goto f (const_loop env call f k) ce1 (if b then t else e) = Ok (ce', Some v)"
        using Suc.prems(1) 2 by (auto simp: cons run_fail_def split: MirConstValue.splits)
      note gv = get_slot_value[OF g]
      have "cvm_reg_get ?vm fr c = Ok (?vm, of_flag b)"
        using reg_get_agrees[OF Suc.prems(2) _ len, of c ?vm] rc Suc.prems(3) gv(1)[symmetric] b(1) by simp
      moreover have "(if of_flag b \<noteq> 0 then t else e) = (if b then t else e)" by (simp add: of_flag_def)
      ultimately show ?thesis
        using goto[OF b(2) gv(2), of ?vm] si 2 Suc.prems(5) by (simp add: cons split: if_splits)
    next
      case (3 x)
      then obtain ce1 where g: "get_slot ce x = Ok (ce1, v)" using Suc.prems(1) by (auto simp: cons cbind_Ok)
      have "cvm_reg_get ?vm fr x = Ok (?vm, cval_word v)"
        using reg_get_agrees[OF Suc.prems(2) _ len, of x ?vm] si 3 Suc.prems(3) get_slot_value(1)[OF g, symmetric] by simp
      then show ?thesis using 3 by (auto simp: cons)
    next
      case 4
      then show ?thesis using Suc.prems(1) by (auto simp: cons)
    qed
  next
    case False
    have loop: "const_loop env call f (Suc k) ce is = cbind (mir_consteval_step env ce i) (\<lambda>(ce1, ok).
            if ok then const_loop env call f k ce1 rest else Ok (ce1, None))"
      using shared_plain[OF si False] False by (cases "iop i") (simp_all add: cons)
    have "cbind (mir_consteval_step env ce i) (\<lambda>(ce1, ok).
            if ok then const_loop env call f k ce1 rest else Ok (ce1, None)) = Ok (ce', Some v)"
      using Suc.prems(1) unfolding loop .
    then obtain ce1 where st: "mir_consteval_step env ce i = Ok (ce1, True)" and l: "const_loop env call f k ce1 rest = Ok (ce', Some v)"
      by (auto simp: cbind_Ok split: if_splits)
    let ?ce = "ce\<lparr>csteps := csteps ce + 1\<rparr>"
    have op: "const_op env ?ce (iop i) (result i) = Ok (ce1, True)"
      using st by (auto simp: mir_consteval_step_def Let_def split: if_splits)
    have "agrees ?ce fr" using Suc.prems(2) by (simp add: agrees_def)
    from const_op_agrees[OF this len _ op, of f ?vm exec prev] si Suc.prems(3)
    obtain fr1 where fr1: "cvm_step env exec ?vm fr prev (iop i) (result i) = Ok (CtlNext ?vm fr1)" "agrees ce1 fr1"
      "length (regs fr1) = length (regs fr)" "allocas fr1 = allocas fr"
      by (auto simp: next_agrees_def)
    have "\<exists>c fr'. cvm_loop env exec f k ?vm fr1 cur prev rest = Ok (?vm\<lparr>inst_executed := c\<rparr>, fr', cval_word v)
      \<and> allocas fr' = allocas fr1"
      by (rule Suc.IH[OF l fr1(2)]) (use fr1(3) Suc.prems cons in auto)
    then show ?thesis using fr1(1,4) Suc.prems(5) by (auto simp: cons)
  qed
qed simp

lemma params_agree:
  assumes "set_params ce ps as = Ok ce1" and "agrees ce fr"
  shows "agrees ce1 (fr\<lparr>regs := copy_args (regs fr) ps (map cval_word as)\<rparr>)"
  using assms
proof (induction ce ps as arbitrary: fr rule: set_params.induct)
  case (1 ce p ps a as)
  obtain ce2 where s: "set_slot ce (value_id p) a = Ok ce2" "set_params ce2 ps as = Ok ce1"
    using "1.prems"(1) by (auto simp: cbind_Ok)
  let ?rs = "if value_id p \<noteq> 0 \<and> unat (value_id p) < length (regs fr)
    then (regs fr)[unat (value_id p) := cval_word a] else regs fr"
  have "agrees ce2 (fr\<lparr>regs := ?rs\<rparr>)"
    using "1.prems"(2) set_slot_value[OF s(1)] by (auto simp: agrees_def nth_list_update word_unat_eq_iff)
  from "1.IH"[OF s(2) this] show ?case by simp
qed simp_all

lemma reg_count_le: "reg_count_of f \<le> 4096"
  by (simp add: reg_count_of_def Let_def CVM_MAX_REGS_def)

text \<open>C30: On a function whose instructions both interpreters share (constants, integer and floating
  arithmetic, comparisons, bit operations, copies, branches, returns), a value the constant evaluator
  returns from a fresh state is the value the VM returns for the same arguments, and the VM does not
  trap: folding the call at compile time does not change the program.\<close>

theorem mir_consteval_agrees_with_vm:
  assumes "mir_consteval_call env n (mir_consteval_init m) f as = Ok (ce', Some v)" and "shared_code f"
    and "0 \<le> reg_count_of f" and "e_alloc_ok env vm (nat (reg_count_of f) * 8)"
    and "trap_code vm = 0" and "frame_depth vm < CVM_MAX_CALL_DEPTH"
  shows "\<exists>vm'. cvm_exec_function env n vm f (map cval_word as) = Ok (vm', cval_word v) \<and> trap_code vm' = 0"
proof (cases n)
  case (Suc k)
  let ?ce = "(mir_consteval_init m)\<lparr>call_depth := call_depth (mir_consteval_init m) + 1\<rparr>"
  let ?n = "nat (reg_count_of f)"
  obtain ce1 ce2 where p: "set_params ?ce (params f) as = Ok ce1"
    and l: "const_goto f (const_loop env (mir_consteval_call env k) f k) ce1 (entry_block f) = Ok (ce2, Some v)"
    using assms(1) by (auto simp: Suc run_fail_def cbind_Ok split: if_splits)
  obtain b where b: "entry_block f = Some b" "b < length (blocks f)"
      "const_loop env (mir_consteval_call env k) f k ce1 (insts (blocks f ! b)) = Ok (ce2, Some v)"
    using l by (auto simp: const_goto_def run_fail_def split: option.splits if_splits)
  have ne: "insts (blocks f ! b) \<noteq> []" using b(3) by (cases k) (auto simp: run_fail_def)
  let ?fr = "\<lparr>regs = copy_args (replicate ?n 0) (params f) (map cval_word as), allocas = [], alloca_cap = 0\<rparr>"
  have "agrees ?ce \<lparr>regs = replicate ?n 0, allocas = [], alloca_cap = 0\<rparr>"
    by (simp add: agrees_def slot_of_def mir_consteval_init_def)
  from params_agree[OF p this] have ag: "agrees ce1 ?fr" by simp
  define vm1 where "vm1 = vm\<lparr>frame_depth := frame_depth vm + 1,
    frame_depth_peak := (if frame_depth vm + 1 > frame_depth_peak vm then frame_depth vm + 1 else frame_depth_peak vm)\<rparr>"
  have "shared_op ?n f (iop i) (result i)" if "i \<in> set (insts (blocks f ! b))" for i
    using assms(2) that nth_mem[OF b(2)] by (auto simp: shared_code_def)
  moreover have "trap_code vm1 = 0" using assms(5) by (simp add: vm1_def)
  moreover have "?n \<le> 4096" using reg_count_le[of f] by simp
  moreover have "length (regs ?fr) = ?n" by simp
  ultimately obtain c fr' where r: "cvm_loop env (cvm_exec_function env k) f k vm1 ?fr b None (insts (blocks f ! b)) =
      Ok (vm1\<lparr>inst_executed := c\<rparr>, fr', cval_word v)" "allocas fr' = []"
    using const_loop_agrees[OF assms(2) refl _ b(3) ag, of vm1 "cvm_exec_function env k" b None] by auto
  have th: "threaded f b" using assms(2) b(1) by (simp add: shared_code_def)
  have "enter_block f (\<lambda>b. cvm_loop env (cvm_exec_function env k) f k vm1 ?fr b None) vm1 ?fr (Some b) =
      Ok (vm1\<lparr>inst_executed := c\<rparr>, fr', cval_word v)"
    using r(1) ne th by (simp add: enter_block_def)
  then have "cvm_exec_function env n vm f (map cval_word as) =
      Ok (cvm_frame_free_allocas (vm1\<lparr>inst_executed := c, frame_depth := frame_depth vm1 - 1\<rparr>) fr', cval_word v)"
    using assms(3,4,6) b(1,2) ne
    unfolding Suc cvm_exec_function.simps Let_def vm1_def[symmetric]
    by (simp add: vm1_def[symmetric] del: if_split)
  then show ?thesis
    using assms(5) r(2) by (simp add: cvm_frame_free_allocas_def vm1_def)
qed (use assms(1) in simp)

definition const_vm :: "MirFunction list \<Rightarrow> CvmState" where
  "const_vm fs = cvm_state_create (const_module fs) False"

lemma answer_shared: "shared_code answer_func" "reg_count_of answer_func = 4"
proof -
  show r: "reg_count_of answer_func = 4"
    by (simp add: reg_count_of_def answer_func_def CVM_MAX_REGS_def)
  show "shared_code answer_func"
    unfolding shared_code_def r by (simp add: answer_func_def threaded_def reg_id_def)
qed

theorem mir_consteval_agrees_with_vm_witness:
  "\<exists>vm'. cvm_exec_function demo_env 4 (const_vm []) answer_func [21] = Ok (vm', 42) \<and> trap_code vm' = 0"
proof -
  obtain ce' where r: "mir_consteval_call demo_env 4 (mir_consteval_init (const_module [])) answer_func [CInt 21] = Ok (ce', Some (CInt 42))"
    using answer_run[of demo_env 0] by (auto simp: numeral_eq_Suc)
  have "e_alloc_ok demo_env (const_vm []) (nat (reg_count_of answer_func) * 8)"
    by (simp add: demo_env_def answer_shared)
  moreover have "trap_code (const_vm []) = 0" "frame_depth (const_vm []) < CVM_MAX_CALL_DEPTH"
    by (simp_all add: const_vm_def cvm_state_create_def CVM_MAX_CALL_DEPTH_def)
  ultimately show ?thesis
    using mir_consteval_agrees_with_vm[OF r answer_shared(1), of "const_vm []"] answer_shared(2)
    by (simp del: cvm_exec_function.simps)
qed

section \<open>Calls clobber their caller\<close>

text \<open>\<open>outer x\<close> calls \<open>inner\<close>, ignores its result and returns \<open>x\<close>; both name their first value 1.\<close>

definition inner_func :: MirFunction where
  "inner_func = const_func ''inner'' 0 2 [mk_inst (CONST_INT 99) 1, mk_inst (RET 1) 0]"

definition outer_func :: MirFunction where
  "outer_func = const_func ''outer'' 1 3 [mk_inst (CALL (Some ''inner'') [] 0) 2, mk_inst (RET 1) 0]"

definition clobber_module :: MirModule where
  "clobber_module = const_module [outer_func, inner_func]"

lemma clobber_find:
  "mir_module_find_function clobber_module ''inner'' = Some inner_func"
  "mir_module_find_function clobber_module ''outer'' = Some outer_func"
  by (simp_all add: mir_module_find_function_def clobber_module_def const_module_def outer_func_def inner_func_def)

lemma inner_const:
  assumes "length (cslots ce) = 256" and "csteps ce < max_steps ce" and "call_depth ce < max_call_depth ce"
  shows "mir_consteval_call env (Suc (Suc (Suc n))) ce inner_func [] =
    Ok (ce\<lparr>csteps := csteps ce + 1, cslots := (cslots ce)[1 := CInt 99]\<rparr>, Some (CInt 99))"
  using assms
  by (simp add: inner_func_def const_goto_def mir_consteval_step_def ce_put_def get_slot_def set_slot_def
      ensure_slot_def Let_def)

lemma outer_const:
  "\<exists>ce'. mir_consteval_call env (Suc (Suc (Suc (Suc n)))) (mir_consteval_init clobber_module) outer_func [CInt 5] =
    Ok (ce', Some (CInt 99))"
proof -
  define ce1 where "ce1 = (mir_consteval_init clobber_module)\<lparr>call_depth := 1, cslots := (replicate 256 (CInt 0))[1 := CInt 5]\<rparr>"
  have c: "length (cslots ce1) = 256" "csteps ce1 < max_steps ce1" "call_depth ce1 < max_call_depth ce1" "cmodule ce1 = clobber_module"
    by (simp_all add: ce1_def mir_consteval_init_def MIR_CONSTEVAL_MAX_STEPS_def)
  have p: "set_params ((mir_consteval_init clobber_module)\<lparr>call_depth := 1\<rparr>) (params outer_func) [CInt 5] = Ok ce1"
    by (simp add: outer_func_def ce1_def mir_consteval_init_def set_slot_def ensure_slot_def Let_def)
  define ce2 where "ce2 = ce1\<lparr>csteps := csteps ce1 + 1, cslots := (cslots ce1)[1 := CInt 99]\<rparr>"
  note inner = inner_const[OF c(1-3), folded ce2_def]
  have "const_loop env (mir_consteval_call env (Suc (Suc (Suc n)))) outer_func (Suc (Suc (Suc n))) ce1
      (insts (blocks outer_func ! 0)) =
    Ok (ce2\<lparr>cslots := (cslots ce2)[2 := CInt 99]\<rparr>, Some (CInt 99))"
    using c by (simp add: outer_func_def const_nested_def clobber_find inner del: mir_consteval_call.simps)
      (simp add: ce2_def get_slot_def set_slot_def ensure_slot_def Let_def)
  moreover have "call_depth (mir_consteval_init clobber_module) = 0" "max_call_depth (mir_consteval_init clobber_module) = 32"
    by (simp_all add: mir_consteval_init_def)
  moreover have "entry_block outer_func = Some 0" "0 < length (blocks outer_func)" "\<not> is_extern outer_func"
    by (simp_all add: outer_func_def)
  ultimately show ?thesis
    using p by (simp add: const_goto_def del: const_loop.simps)
qed

text \<open>The VM gives every call its own registers.\<close>

lemma inner_exec:
  assumes "trap_code vm = 0" and "frame_depth vm < 511" and "e_alloc_ok env vm 16"
  shows "\<exists>vm'. cvm_exec_function env (Suc (Suc (Suc n))) vm inner_func [] = Ok (vm', 99) \<and> trap_code vm' = 0
    \<and> frame_depth vm' = frame_depth vm"
proof -
  have "reg_count_of inner_func = 2" "threaded inner_func 0"
    by (simp_all add: inner_func_def reg_count_of_def CVM_MAX_REGS_def threaded_def)
  then show ?thesis
    using assms
    by (simp add: inner_func_def Let_def CVM_MAX_CALL_DEPTH_def enter_block_def set_next_def cvm_reg_set_def
        cvm_reg_get_def cvm_frame_free_allocas_def)
qed

lemma outer_exec:
  "\<exists>vm'. cvm_exec_function demo_env (Suc (Suc (Suc (Suc n)))) (const_vm [outer_func, inner_func]) outer_func [5] = Ok (vm', 5)
    \<and> trap_code vm' = 0"
proof -
  let ?vm = "const_vm [outer_func, inner_func]"
  define vm1 where "vm1 = ?vm\<lparr>frame_depth := 1, frame_depth_peak := 1, inst_executed := 1\<rparr>"
  define vm2 where "vm2 = vm1\<lparr>profile_cap := 16, profiles := [\<lparr>p_func_name = ''inner'', call_count = 1,
    tier = CVM_TIER_INTERPRET, native_fn = None\<rparr>]\<rparr>"
  let ?ex = "cvm_exec_function demo_env (Suc (Suc (Suc n)))"
  have "trap_code vm2 = 0" "frame_depth vm2 < 511" "e_alloc_ok demo_env vm2 16"
    by (simp_all add: vm2_def vm1_def const_vm_def cvm_state_create_def demo_env_def)
  from inner_exec[OF this, of n] obtain vm3 where vm3: "?ex vm2 inner_func [] = Ok (vm3, 99)" "trap_code vm3 = 0" "frame_depth vm3 = frame_depth vm2"
    by blast
  have "cvm_get_profile demo_env vm1 inner_func = (vm2\<lparr>profiles := [\<lparr>p_func_name = ''inner'', call_count = 0,
    tier = CVM_TIER_INTERPRET, native_fn = None\<rparr>]\<rparr>, Some 0)"
    by (simp add: cvm_get_profile_def vm1_def vm2_def const_vm_def cvm_state_create_def demo_env_def inner_func_def)
  moreover have "\<not> jit vm2" by (simp add: vm2_def vm1_def const_vm_def cvm_state_create_def)
  ultimately have enter: "cvm_enter demo_env ?ex vm1 inner_func [] = Ok (vm3, 99)"
    using vm3(1) by (simp add: cvm_enter_def cvm_tier_up_def Let_def vm2_def del: cvm_exec_function.simps)
  have "mir_module_find_function (vmodule vm1) ''inner'' = Some inner_func" "trap_code vm1 = 0"
    using clobber_find(1) by (simp_all add: vm1_def const_vm_def cvm_state_create_def clobber_module_def)
  then have call: "cvm_dispatch_call demo_env ?ex vm1 fr (Some ''inner'') [] = Ok (vm3, 99)" for fr
    using enter by (simp add: cvm_dispatch_call_def cvm_find_intrinsic_def del: cvm_exec_function.simps)
  have f: "reg_count_of outer_func = 3" "threaded outer_func 0" "params outer_func = [\<lparr>pname = [], ptype = None, value_id = 1\<rparr>]"
    "entry_block outer_func = Some 0" "length (blocks outer_func) = 1"
    "insts (blocks outer_func ! 0) = [mk_inst (CALL (Some ''inner'') [] 0) 2, mk_inst (RET 1) 0]"
    by (simp_all add: outer_func_def reg_count_of_def CVM_MAX_REGS_def threaded_def)
  define vm0 where "vm0 = ?vm\<lparr>frame_depth := 1, frame_depth_peak := 1\<rparr>"
  have i: "vm0\<lparr>inst_executed := inst_executed vm0 + 1\<rparr> = vm1" by (simp add: vm0_def vm1_def const_vm_def cvm_state_create_def)
  have loop: "cvm_loop demo_env ?ex outer_func (Suc (Suc (Suc n))) vm0 \<lparr>regs = [0, 5, 0], allocas = [], alloca_cap = 0\<rparr> 0 None
      (insts (blocks outer_func ! 0)) =
    Ok (vm3\<lparr>inst_executed := inst_executed vm3 + 1\<rparr>, \<lparr>regs = [0, 5, 99], allocas = [], alloca_cap = 0\<rparr>, 5)"
    unfolding f using vm3(2) by (simp add: i op_call_def call set_next_def cvm_reg_set_def cvm_reg_get_def del: cvm_exec_function.simps)
  have "frame_depth ?vm = 0" "frame_depth_peak ?vm = 0" "e_alloc_ok demo_env ?vm 24"
    by (simp_all add: const_vm_def cvm_state_create_def demo_env_def)
  then have "cvm_exec_function demo_env (Suc (Suc (Suc (Suc n)))) ?vm outer_func [5] =
    cbind (enter_block outer_func (\<lambda>b. cvm_loop demo_env ?ex outer_func (Suc (Suc (Suc n))) vm0
        \<lparr>regs = [0, 5, 0], allocas = [], alloca_cap = 0\<rparr> b None) vm0 \<lparr>regs = [0, 5, 0], allocas = [], alloca_cap = 0\<rparr> (Some 0))
      (\<lambda>(vm2, fr2, v). Ok (cvm_frame_free_allocas (vm2\<lparr>frame_depth := frame_depth vm2 - 1\<rparr>) fr2, v))"
    using f by (simp add: cvm_exec_function.simps(2)[of _ "Suc (Suc (Suc n))"] Let_def CVM_MAX_CALL_DEPTH_def vm0_def
        numeral_3_eq_3 del: cvm_exec_function.simps cvm_loop.simps)
  also have "\<dots> = Ok (cvm_frame_free_allocas ((vm3\<lparr>inst_executed := inst_executed vm3 + 1\<rparr>)\<lparr>frame_depth := frame_depth vm3 - 1\<rparr>)
      \<lparr>regs = [0, 5, 99], allocas = [], alloca_cap = 0\<rparr>, 5)"
    unfolding enter_block_def using f loop by (simp del: cvm_exec_function.simps cvm_loop.simps)
  finally show ?thesis using vm3(2) by (simp add: cvm_frame_free_allocas_def del: cvm_exec_function.simps)
qed

text \<open>With a nested call the constant evaluator can return a wrong value: the callee overwrites the
  slots of its caller, so \<open>outer 5\<close>, which returns its argument, is folded to 99, while the VM
  returns 5.\<close>

theorem mir_consteval_call_clobbers:
  "\<exists>ce' vm'. mir_consteval_call demo_env 4 (mir_consteval_init clobber_module) outer_func [CInt 5] = Ok (ce', Some (CInt 99))
    \<and> cvm_exec_function demo_env 4 (cvm_state_create clobber_module False) outer_func [5] = Ok (vm', 5)
    \<and> trap_code vm' = 0"
  using outer_const[of demo_env 0] outer_exec[of 0]
  by (simp only: numeral_eq_Suc pred_numeral_simps const_vm_def clobber_module_def) (auto simp: numeral_eq_Suc)

end
