(* ===== verification/Mir_Borrow.thy ===== *)
theory Mir_Borrow
  imports Mir_Verify "HOL-Library.While_Combinator"
begin

text \<open>
  The borrow checker of \<^verbatim>\<open>compiler/ir/mir_borrow.c\<close>, and \<^verbatim>\<open>mir_verify_module\<close> of \<^verbatim>\<open>mir.c\<close>,
  which runs it after the verifier.  Two worklist analyses (values moved on some path, values live)
  feed one pass over the instructions.  Boolean arrays over value ids are lists of length
  \<open>num_vals\<close>; arrays over blocks are indexed by block id.  Value ids stay below 2^31, as the
  casts to \<^verbatim>\<open>int\<close> in the code need; source positions and the \<^verbatim>\<open>liveness\<close> table, which the
  code allocates and never fills, are not kept.
\<close>

section \<open>Data\<close>

datatype MirBorrowKind = MIR_BK_SHARED | MIR_BK_MUTABLE

record MirBorrow =
  borrow_id :: MirValueId
  source_id :: MirValueId
  borrow_kind :: MirBorrowKind

datatype MirBerr =
    MIR_BERR_USE_AFTER_MOVE | MIR_BERR_DOUBLE_MOVE | MIR_BERR_BORROW_CONFLICT | MIR_BERR_MUT_ALIAS
  | MIR_BERR_BORROW_OUTLIVES | MIR_BERR_MISSING_DROP | MIR_BERR_DOUBLE_DROP

record MirBorrowError =
  err_kind :: MirBerr
  err_message :: string
  err_value :: MirValueId
  err_conflicting :: MirValueId

record MirBorrowChecker =
  borrows :: "MirBorrow list"
  errors :: "MirBorrowError list"
  moved :: "bool list"

definition MIR_MAX_BORROWS :: nat where "MIR_MAX_BORROWS = 512"
definition MIR_MAX_ERRORS :: nat where "MIR_MAX_ERRORS = 64"

definition mir_borrow_init :: MirBorrowChecker where
  "mir_borrow_init = \<lparr>borrows = [], errors = [], moved = replicate 256 False\<rparr>"

definition mir_borrow_reset :: "MirBorrowChecker \<Rightarrow> MirBorrowChecker" where
  "mir_borrow_reset bc = bc\<lparr>borrows := [], moved := replicate (length (moved bc)) False\<rparr>"

definition emit_error :: "MirBorrowChecker \<Rightarrow> MirBerr \<Rightarrow> string \<Rightarrow> MirValueId \<Rightarrow> MirValueId \<Rightarrow> MirBorrowChecker" where
  "emit_error bc k msg v conflict =
     (if length (errors bc) \<ge> MIR_MAX_ERRORS then bc
      else bc\<lparr>errors := errors bc @ [\<lparr>err_kind = k, err_message = msg, err_value = v, err_conflicting = conflict\<rparr>]\<rparr>)"

section \<open>The moved set\<close>

definition ensure_moved :: "MirBorrowChecker \<Rightarrow> MirValueId \<Rightarrow> MirBorrowChecker" where
  "ensure_moved bc v =
     (let cap = length (moved bc)
      in if unat v \<ge> cap
         then let new_cap = (if unat v \<ge> cap * 2 then unat v + 64 else cap * 2)
              in bc\<lparr>moved := moved bc @ replicate (new_cap - cap) False\<rparr>
         else bc)"

definition mark_moved :: "MirBorrowChecker \<Rightarrow> MirValueId \<Rightarrow> MirBorrowChecker" where
  "mark_moved bc v = (let bc1 = ensure_moved bc v in bc1\<lparr>moved := (moved bc1)[unat v := True]\<rparr>)"

definition is_moved :: "MirBorrowChecker \<Rightarrow> MirValueId \<Rightarrow> bool" where
  "is_moved bc v \<longleftrightarrow> unat v < length (moved bc) \<and> moved bc ! unat v"

definition track_borrow :: "MirBorrowChecker \<Rightarrow> MirInst \<Rightarrow> MirValueId \<Rightarrow> MirBorrowKind \<Rightarrow> MirBorrowChecker" where
  "track_borrow bc i src k =
     (if length (borrows bc) \<ge> MIR_MAX_BORROWS then bc
      else bc\<lparr>borrows := borrows bc @ [\<lparr>borrow_id = result i, source_id = src, borrow_kind = k\<rparr>]\<rparr>)"

section \<open>Uses\<close>

text \<open>The operands the three switches of the file go through, in their order.\<close>

fun operands_of :: "MirOp \<Rightarrow> MirValueId list" where
  "operands_of (BINARY p l r) = [l, r]"
| "operands_of (UNARY p x t) = [x]"
| "operands_of (LOAD p) = [p]"
| "operands_of (STORE p v) = [p, v]"
| "operands_of (GET_FIELD_PTR b i x) = [b, x]"
| "operands_of (GET_ELEM_PTR b i x) = [b, x]"
| "operands_of (CONDBR c t f) = [c]"
| "operands_of (RET v) = [v]"
| "operands_of (SWITCH d cs df) = [d]"
| "operands_of (CALL n as c) = as"
| "operands_of (CALL_INDIRECT n as c) = c # as"
| "operands_of (CALL_VIRTUAL s k as) = s # as"
| "operands_of (PHI es) = map snd es"
| "operands_of (TRANSFER p s) = [s]"
| "operands_of (REFOP p x) = [x]"
| "operands_of (STRUCT_INIT fs) = fs"
| "operands_of (EXTRACT a i) = [a]"
| "operands_of (INSERT a i v) = [a, v]"
| "operands_of (SUSPEND r v) = [v]"
| "operands_of (VEC p a b c w t) = [a, b, c]"
| "operands_of _ = []"

definition inst_uses_value :: "MirInst \<Rightarrow> MirValueId \<Rightarrow> bool" where
  "inst_uses_value i v \<longleftrightarrow> v \<in> set (operands_of (iop i))"

text \<open>The instruction is given by the instructions after it in its block.\<close>

definition is_live_after :: "MirInst list \<Rightarrow> MirValueId \<Rightarrow> bool list \<Rightarrow> nat \<Rightarrow> bool" where
  "is_live_after rest v live_out_bb num_vals =
     (if v = MIR_VALUE_NONE \<or> unat v \<ge> num_vals then False
      else (\<exists>i \<in> set rest. inst_uses_value i v) \<or> live_out_bb ! unat v)"

definition record_use :: "nat \<Rightarrow> bool list \<Rightarrow> MirValueId \<Rightarrow> bool list \<Rightarrow> bool list" where
  "record_use num_vals def_bb v use_bb =
     (if v \<noteq> MIR_VALUE_NONE \<and> unat v < num_vals \<and> \<not> def_bb ! unat v then use_bb[unat v := True] else use_bb)"

definition mark_uses :: "nat \<Rightarrow> MirInst \<Rightarrow> bool list \<Rightarrow> bool list \<Rightarrow> bool list" where
  "mark_uses num_vals i def_bb use_bb = fold (record_use num_vals def_bb) (operands_of (iop i)) use_bb"

section \<open>Moved operands\<close>

definition borrow_operand_moved :: "MirBorrowChecker \<Rightarrow> MirValueId \<times> string \<Rightarrow> MirBorrowChecker" where
  "borrow_operand_moved bc = (\<lambda>(v, ctx).
     if v = MIR_VALUE_NONE then bc
     else if is_moved bc v then emit_error bc MIR_BERR_USE_AFTER_MOVE ctx v MIR_VALUE_NONE else bc)"

fun operand_contexts :: "MirOp \<Rightarrow> (MirValueId \<times> string) list" where
  "operand_contexts (BINARY p l r) = [(l, ''value used after move (lhs)''), (r, ''value used after move (rhs)'')]"
| "operand_contexts (UNARY p x t) = [(x, ''value used after move (operand)'')]"
| "operand_contexts (LOAD p) = [(p, ''value used after move (load ptr)'')]"
| "operand_contexts (STORE p v) = [(p, ''value used after move (store ptr)''), (v, ''value used after move (store val)'')]"
| "operand_contexts (GET_FIELD_PTR b i x) = [(b, ''value used after move (gep base)''), (x, ''value used after move (gep index)'')]"
| "operand_contexts (GET_ELEM_PTR b i x) = [(b, ''value used after move (gep base)''), (x, ''value used after move (gep index)'')]"
| "operand_contexts (CONDBR c t f) = [(c, ''value used after move (cond)'')]"
| "operand_contexts (RET v) = [(v, ''value used after move (ret)'')]"
| "operand_contexts (SWITCH d cs df) = [(d, ''value used after move (switch)'')]"
| "operand_contexts (CALL n as c) = map (\<lambda>a. (a, ''call argument used after move'')) as"
| "operand_contexts (CALL_INDIRECT n as c) =
     (c, ''call target used after move'') # map (\<lambda>a. (a, ''call argument used after move'')) as"
| "operand_contexts (CALL_VIRTUAL s k as) =
     (s, ''vcall self used after move'') # map (\<lambda>a. (a, ''vcall arg used after move'')) as"
| "operand_contexts (PHI es) = map (\<lambda>e. (snd e, ''phi operand used after move'')) es"
| "operand_contexts (TRANSFER p s) = (if p = MIR_MOVE then [] else [(s, ''transfer source used after move'')])"
| "operand_contexts (REFOP p x) = [(x, ''ref op ptr used after move'')]"
| "operand_contexts (STRUCT_INIT fs) = map (\<lambda>a. (a, ''struct field used after move'')) fs"
| "operand_contexts (EXTRACT a i) = [(a, ''extract agg used after move'')]"
| "operand_contexts (INSERT a i v) = [(a, ''insert agg used after move''), (v, ''insert val used after move'')]"
| "operand_contexts (SUSPEND r v) = [(v, ''suspend future used after move'')]"
| "operand_contexts (VEC p a b c w t) =
     [(a, ''vec operand a used after move''), (b, ''vec operand b used after move''), (c, ''vec operand c used after move'')]"
| "operand_contexts _ = []"

definition borrow_check_inst_operands :: "MirBorrowChecker \<Rightarrow> MirInst \<Rightarrow> MirBorrowChecker" where
  "borrow_check_inst_operands bc i = foldl borrow_operand_moved bc (operand_contexts (iop i))"

section \<open>Borrow conflicts\<close>

text \<open>One round of the loop of \<^verbatim>\<open>check_borrow_conflicts\<close>.\<close>

definition conflict_step ::
  "MirValueId \<Rightarrow> MirBorrowKind \<Rightarrow> MirInst \<Rightarrow> MirInst list \<Rightarrow> bool list \<Rightarrow> nat \<Rightarrow> MirBorrowChecker \<Rightarrow> MirBorrow \<Rightarrow> MirBorrowChecker" where
  "conflict_step source new_kind i rest live_out_bb num_vals bc existing =
     (if borrow_id existing = result i then bc
      else let active = (borrow_id existing = result i \<or> inst_uses_value i (borrow_id existing)
                         \<or> is_live_after rest (borrow_id existing) live_out_bb num_vals)
           in if \<not> active then bc
              else if source_id existing \<noteq> source then bc
              else if new_kind = MIR_BK_MUTABLE
              then if borrow_kind existing = MIR_BK_MUTABLE
                   then emit_error bc MIR_BERR_MUT_ALIAS ''cannot create second mutable borrow'' (result i) (borrow_id existing)
                   else emit_error bc MIR_BERR_BORROW_CONFLICT ''cannot create mutable borrow while shared borrows exist''
                          (result i) (borrow_id existing)
              else if borrow_kind existing = MIR_BK_MUTABLE
                   then emit_error bc MIR_BERR_BORROW_CONFLICT ''cannot create shared borrow while mutable borrow exists''
                          (result i) (borrow_id existing)
                   else bc)"

definition check_borrow_conflicts ::
  "MirBorrowChecker \<Rightarrow> MirValueId \<Rightarrow> MirBorrowKind \<Rightarrow> MirInst \<Rightarrow> MirInst list \<Rightarrow> bool list \<Rightarrow> nat \<Rightarrow> MirBorrowChecker" where
  "check_borrow_conflicts bc source new_kind i rest live_out_bb num_vals =
     foldl (conflict_step source new_kind i rest live_out_bb num_vals) bc (borrows bc)"

section \<open>The worklist\<close>

text \<open>
  The two analyses are the same loop over a first-in first-out worklist, guarded by
  \<^verbatim>\<open>in_worklist\<close>: take a block, join the sets of its \<open>src\<close> blocks, apply the transfer function
  \<open>tr\<close>, and push the blocks that depend on it when its set changed.  A block is in the worklist at
  most once, so the circular buffer of the code, with one place per block id, never overruns.
\<close>

record Flow =
  queue :: "bref list"
  in_worklist :: "bool list"
  joined :: "bool list list"
  sets :: "bool list list"

definition join_sets :: "nat \<Rightarrow> (bref \<Rightarrow> nat) \<Rightarrow> bool list list \<Rightarrow> bref list \<Rightarrow> bool list" where
  "join_sets n ident S ps = foldl (\<lambda>acc p. map2 (\<or>) acc (S ! ident p)) (replicate n False) ps"

fun push_wl :: "(bref \<Rightarrow> nat) \<Rightarrow> bref list \<Rightarrow> bref list \<Rightarrow> bool list \<Rightarrow> bref list \<times> bool list" where
  "push_wl ident [] q inw = (q, inw)"
| "push_wl ident (b # bs) q inw =
     (if \<not> inw ! ident b then push_wl ident bs (q @ [b]) (inw[ident b := True]) else push_wl ident bs q inw)"

definition flow_step ::
  "nat \<Rightarrow> (bref \<Rightarrow> nat) \<Rightarrow> (bref \<Rightarrow> bref list) \<Rightarrow> (bref \<Rightarrow> bref list) \<Rightarrow> (bref \<Rightarrow> bool list \<Rightarrow> bool list) \<Rightarrow> Flow \<Rightarrow> Flow" where
  "flow_step n ident src dep tr st =
     (case queue st of
        [] \<Rightarrow> st
      | b # q \<Rightarrow>
          let inw = (in_worklist st)[ident b := False];
              inp = join_sets n ident (sets st) (src b);
              new = tr b inp;
              (q', inw') = (if sets st ! ident b \<noteq> new then push_wl ident (dep b) q inw else (q, inw))
          in \<lparr>queue = q', in_worklist = inw', joined = (joined st)[ident b := inp], sets = (sets st)[ident b := new]\<rparr>)"

definition flow_init :: "nat \<Rightarrow> nat \<Rightarrow> (bref \<Rightarrow> nat) \<Rightarrow> bref list \<Rightarrow> Flow" where
  "flow_init n m ident bl =
     (case push_wl ident bl [] (replicate m False) of (q, inw) \<Rightarrow>
        \<lparr>queue = q, in_worklist = inw, joined = replicate m (replicate n False), sets = replicate m (replicate n False)\<rparr>)"

definition flow_solve ::
  "nat \<Rightarrow> nat \<Rightarrow> (bref \<Rightarrow> nat) \<Rightarrow> bref list \<Rightarrow> (bref \<Rightarrow> bref list) \<Rightarrow> (bref \<Rightarrow> bref list) \<Rightarrow> (bref \<Rightarrow> bool list \<Rightarrow> bool list) \<Rightarrow> Flow option" where
  "flow_solve n m ident bl src dep tr = while_option (\<lambda>st. queue st \<noteq> []) (flow_step n ident src dep tr) (flow_init n m ident bl)"

section \<open>The two analyses\<close>

definition num_vals :: "MirFunction \<Rightarrow> nat" where
  "num_vals f = unat (next_value_id f)"

definition num_block_ids :: "MirFunction \<Rightarrow> nat" where
  "num_block_ids f = fold (\<lambda>b m. max m (block_ident f b)) (block_list f) 0 + 1"

definition inst_moves :: "nat \<Rightarrow> MirInst \<Rightarrow> bool list \<Rightarrow> bool list" where
  "inst_moves n i s =
     (case iop i of
        TRANSFER MIR_MOVE src \<Rightarrow> if src \<noteq> MIR_VALUE_NONE \<and> unat src < n then s[unat src := True] else s
      | _ \<Rightarrow> s)"

definition move_transfer :: "MirFunction \<Rightarrow> bref \<Rightarrow> bool list \<Rightarrow> bool list" where
  "move_transfer f b s = fold (inst_moves (num_vals f)) (insts (blocks f ! b)) s"

definition solve_moves :: "MirFunction \<Rightarrow> Flow option" where
  "solve_moves f = flow_solve (num_vals f) (num_block_ids f) (block_ident f) (block_list f)
     (\<lambda>b. predecessors (blocks f ! b)) (\<lambda>b. successors (blocks f ! b)) (move_transfer f)"

fun def_use :: "nat \<Rightarrow> MirInst list \<Rightarrow> bool list \<times> bool list \<Rightarrow> bool list \<times> bool list" where
  "def_use n [] du = du"
| "def_use n (i # is) (d, u) =
     def_use n is (if result i \<noteq> MIR_VALUE_NONE \<and> unat (result i) < n then d[unat (result i) := True] else d, mark_uses n i d u)"

definition local_sets :: "MirFunction \<Rightarrow> (bool list \<times> bool list) list" where
  "local_sets f = fold (\<lambda>b DU. DU[block_ident f b := def_use (num_vals f) (insts (blocks f ! b)) (DU ! block_ident f b)])
     (block_list f) (replicate (num_block_ids f) (replicate (num_vals f) False, replicate (num_vals f) False))"

definition live_transfer :: "nat \<Rightarrow> bool list \<times> bool list \<Rightarrow> bool list \<Rightarrow> bool list" where
  "live_transfer n du out = (case du of (d, u) \<Rightarrow> map (\<lambda>v. (out ! v \<and> \<not> d ! v) \<or> u ! v) [0..<n])"

definition solve_liveness :: "MirFunction \<Rightarrow> Flow option" where
  "solve_liveness f =
     (let DU = local_sets f
      in flow_solve (num_vals f) (num_block_ids f) (block_ident f) (block_list f)
           (\<lambda>b. successors (blocks f ! b)) (\<lambda>b. predecessors (blocks f ! b))
           (\<lambda>b. live_transfer (num_vals f) (DU ! block_ident f b)))"

section \<open>Checking a function\<close>

definition populate :: "MirInst \<Rightarrow> MirBorrowChecker \<Rightarrow> MirBorrowChecker" where
  "populate i bc =
     (case iop i of
        TRANSFER MIR_BORROW src \<Rightarrow> track_borrow bc i src MIR_BK_SHARED
      | TRANSFER MIR_BORROW_MUT src \<Rightarrow> track_borrow bc i src MIR_BK_MUTABLE
      | _ \<Rightarrow> bc)"

definition track_move :: "nat \<Rightarrow> MirBorrowChecker \<Rightarrow> MirValueId \<Rightarrow> MirBorrowChecker" where
  "track_move n bc src =
     (if src \<noteq> MIR_VALUE_NONE \<and> unat src < n
      then let bc1 = (if is_moved bc src then emit_error bc MIR_BERR_DOUBLE_MOVE ''value moved more than once'' src MIR_VALUE_NONE
                      else bc)
           in mark_moved bc1 src
      else bc)"

definition report_inst :: "nat \<Rightarrow> bool list \<Rightarrow> MirBorrowChecker \<Rightarrow> MirInst \<Rightarrow> MirInst list \<Rightarrow> MirBorrowChecker" where
  "report_inst n live_out_bb bc i rest =
     (let bc1 = borrow_check_inst_operands bc i
      in case iop i of
           TRANSFER MIR_MOVE src \<Rightarrow> track_move n bc1 src
         | TRANSFER MIR_BORROW src \<Rightarrow> check_borrow_conflicts bc1 src MIR_BK_SHARED i rest live_out_bb n
         | TRANSFER MIR_BORROW_MUT src \<Rightarrow> check_borrow_conflicts bc1 src MIR_BK_MUTABLE i rest live_out_bb n
         | _ \<Rightarrow> bc1)"

fun report_insts :: "nat \<Rightarrow> bool list \<Rightarrow> MirBorrowChecker \<Rightarrow> MirInst list \<Rightarrow> MirBorrowChecker" where
  "report_insts n lo bc [] = bc"
| "report_insts n lo bc (i # is) = report_insts n lo (report_inst n lo bc i is) is"

definition report_block :: "MirFunction \<Rightarrow> Flow \<Rightarrow> Flow \<Rightarrow> bref \<Rightarrow> MirBorrowChecker \<Rightarrow> MirBorrowChecker" where
  "report_block f mv lv b bc =
     report_insts (num_vals f) (joined lv ! block_ident f b)
       (bc\<lparr>moved := join_sets (num_vals f) (block_ident f) (sets mv) (predecessors (blocks f ! b))\<rparr>)
       (insts (blocks f ! b))"

text \<open>
  The result counts the errors added.  \<open>None\<close> would be a worklist that never empties.
\<close>

definition mir_borrow_check_function :: "MirBorrowChecker \<Rightarrow> MirFunction \<Rightarrow> (MirBorrowChecker \<times> nat) option" where
  "mir_borrow_check_function bc f =
     (if is_extern f then Some (bc, 0)
      else if block_list f = [] then Some (bc, 0)
      else let bc1 = mir_borrow_reset bc
           in case (solve_moves f, solve_liveness f) of
                (Some mv, Some lv) \<Rightarrow>
                  let bc2 = fold (\<lambda>b. fold populate (insts (blocks f ! b))) (block_list f) bc1;
                      bc3 = fold (report_block f mv lv) (block_list f) bc2
                  in Some (bc3\<lparr>moved := moved bc2\<rparr>, length (errors bc3) - length (errors bc))
              | _ \<Rightarrow> None)"

fun mir_borrow_check_functions :: "MirBorrowChecker \<Rightarrow> MirFunction list \<Rightarrow> (MirBorrowChecker \<times> nat) option" where
  "mir_borrow_check_functions bc [] = Some (bc, 0)"
| "mir_borrow_check_functions bc (f # fs) =
     (case mir_borrow_check_function bc f of
        None \<Rightarrow> None
      | Some (bc1, k) \<Rightarrow> (case mir_borrow_check_functions bc1 fs of None \<Rightarrow> None | Some (bc2, l) \<Rightarrow> Some (bc2, k + l)))"

definition mir_borrow_check_module :: "MirBorrowChecker \<Rightarrow> MirModule \<Rightarrow> (MirBorrowChecker \<times> nat) option" where
  "mir_borrow_check_module bc m = mir_borrow_check_functions bc (func_list m)"

definition mir_verify_module :: "MirModule \<Rightarrow> nat option" where
  "mir_verify_module m =
     (case mir_borrow_check_module mir_borrow_init m of
        None \<Rightarrow> None
      | Some (bc, berr) \<Rightarrow> Some (sum_list (map (mir_verify_function (type_cache m)) (func_list m)) + berr))"

end
