(* ===== verification/Borrow_Flow.thy ===== *)
theory Borrow_Flow
  imports Mir_Borrow
begin

text \<open>
  The worklist solver of the borrow checker (\<^verbatim>\<open>compiler/ir/mir_borrow.c\<close>), seen through the contract
  its two analyses keep: monotone transfer functions over a graph whose two edge directions agree.
  Under that contract the loop ends, its result solves the dataflow equations, and every bit of it is
  justified.
\<close>

section \<open>Bit sets\<close>

definition bits_le :: "bool list \<Rightarrow> bool list \<Rightarrow> bool" where
  "bits_le x y \<longleftrightarrow> length x = length y \<and> (\<forall>v < length x. x ! v \<longrightarrow> y ! v)"

lemma bits_le_refl [simp]: "bits_le x x"
  by (simp add: bits_le_def)

lemma bits_le_trans [trans]: "bits_le x y \<Longrightarrow> bits_le y z \<Longrightarrow> bits_le x z"
  by (auto simp: bits_le_def)

lemma bits_le_count:
  assumes "bits_le x y"
  shows "length (filter Not y) \<le> length (filter Not x)" and "x \<noteq> y \<Longrightarrow> length (filter Not y) < length (filter Not x)"
proof -
  have l: "length x = length y" using assms by (simp add: bits_le_def)
  have "length (filter Not y) \<le> length (filter Not x) \<and> (x \<noteq> y \<longrightarrow> length (filter Not y) < length (filter Not x))"
    using l assms
  proof (induction x y rule: list_induct2)
    case (Cons a x b y)
    have "bits_le x y" "a \<longrightarrow> b" using Cons.prems by (force simp: bits_le_def)+
    with Cons.IH show ?case by auto
  qed simp
  then show "length (filter Not y) \<le> length (filter Not x)" "x \<noteq> y \<Longrightarrow> length (filter Not y) < length (filter Not x)" by auto
qed

lemma falses_update:
  assumes "k < length S"
  shows "length (filter Not (concat S)) + length (filter Not x) = length (filter Not (concat (S[k := x]))) + length (filter Not (S ! k))"
  using assms
proof (induction S arbitrary: k)
  case (Cons s S)
  then show ?case by (cases k) auto
qed simp

lemma join_sets_snoc: "join_sets n ident S (ps @ [p]) = map2 (\<or>) (join_sets n ident S ps) (S ! ident p)"
  by (simp add: join_sets_def)

lemma join_sets_bit:
  assumes "\<forall>p \<in> set ps. length (S ! ident p) = n"
  shows "length (join_sets n ident S ps) = n"
    and "v < n \<Longrightarrow> join_sets n ident S ps ! v \<longleftrightarrow> (\<exists>p \<in> set ps. S ! ident p ! v)"
proof -
  have "length (join_sets n ident S ps) = n \<and> (\<forall>v < n. join_sets n ident S ps ! v \<longleftrightarrow> (\<exists>p \<in> set ps. S ! ident p ! v))"
    using assms
  proof (induction ps rule: rev_induct)
    case Nil
    then show ?case by (simp add: join_sets_def)
  next
    case (snoc p ps)
    then show ?case by (auto simp: join_sets_snoc)
  qed
  then show "length (join_sets n ident S ps) = n" "v < n \<Longrightarrow> join_sets n ident S ps ! v \<longleftrightarrow> (\<exists>p \<in> set ps. S ! ident p ! v)"
    by blast+
qed

lemma join_sets_cong: "(\<And>p. p \<in> set ps \<Longrightarrow> S ! ident p = T ! ident p) \<Longrightarrow> join_sets n ident S ps = join_sets n ident T ps"
  unfolding join_sets_def by (intro foldl_cong) auto

section \<open>The contract and the solver\<close>

locale dataflow =
  fixes ok :: bool and n m :: nat and ident :: "bref \<Rightarrow> nat" and bl :: "bref list"
    and src dep :: "bref \<Rightarrow> bref list" and tr :: "bref \<Rightarrow> bool list \<Rightarrow> bool list"
  assumes ids: "ok \<Longrightarrow> distinct bl \<and> inj_on ident (set bl) \<and> (\<forall>b \<in> set bl. ident b < m)"
    and closed: "ok \<Longrightarrow> b \<in> set bl \<Longrightarrow> set (src b) \<subseteq> set bl \<and> set (dep b) \<subseteq> set bl"
    and dual: "ok \<Longrightarrow> c \<in> set bl \<Longrightarrow> b \<in> set (src c) \<Longrightarrow> c \<in> set (dep b)"
    and len: "ok \<Longrightarrow> b \<in> set bl \<Longrightarrow> length x = n \<Longrightarrow> length (tr b x) = n"
    and mono: "ok \<Longrightarrow> b \<in> set bl \<Longrightarrow> length x = n \<Longrightarrow> bits_le x y \<Longrightarrow> bits_le (tr b x) (tr b y)"
begin

abbreviation join where "join S b \<equiv> join_sets n ident S (src b)"

definition marks :: "bref list \<Rightarrow> bool list \<Rightarrow> bool" where
  "marks q inw \<longleftrightarrow> length inw = m \<and> distinct q \<and> set q \<subseteq> set bl \<and> (\<forall>b \<in> set bl. inw ! ident b \<longleftrightarrow> b \<in> set q)"

lemma push_marks:
  assumes ok "marks q inw" "set bs \<subseteq> set bl" "push_wl ident bs q inw = (q', inw')"
  shows "marks q' inw' \<and> set q' = set q \<union> set bs"
  using assms(2-)
proof (induction bs arbitrary: q inw)
  case (Cons b bs)
  have i: "inj_on ident (set bl)" "ident b < m" "b \<in> set bl" using ids[OF assms(1)] Cons.prems(2) by auto
  show ?case
  proof (cases "inw ! ident b")
    case True
    then have "b \<in> set q" using Cons.prems(1) i(3) by (simp add: marks_def)
    then show ?thesis using Cons.IH[of q inw] Cons.prems True by (auto simp: insert_absorb)
  next
    case False
    have "marks (q @ [b]) (inw[ident b := True])"
      using Cons.prems(1) False i by (auto simp: marks_def nth_list_update inj_on_eq_iff)
    then show ?thesis using Cons.IH[of "q @ [b]" "inw[ident b := True]"] Cons.prems False by auto
  qed
qed simp

definition shaped :: "bool list list \<Rightarrow> bool" where
  "shaped S \<longleftrightarrow> length S = m \<and> (\<forall>k < m. length (S ! k) = n)"

definition inv :: "Flow \<Rightarrow> bool" where
  "inv st \<longleftrightarrow> marks (queue st) (in_worklist st) \<and> shaped (sets st) \<and> length (joined st) = m
     \<and> (\<forall>b \<in> set bl. bits_le (sets st ! ident b) (tr b (join (sets st) b)))
     \<and> (\<forall>b \<in> set bl - set (queue st). sets st ! ident b = tr b (join (sets st) b) \<and> joined st ! ident b = join (sets st) b)"

lemma join_shaped:
  assumes ok "shaped S" "b \<in> set bl"
  shows "length (join S b) = n" and "v < n \<Longrightarrow> join S b ! v \<longleftrightarrow> (\<exists>p \<in> set (src b). S ! ident p ! v)"
proof -
  have "\<forall>p \<in> set (src b). length (S ! ident p) = n"
    using assms closed[OF assms(1,3)] ids[OF assms(1)] by (auto simp: shaped_def)
  from join_sets_bit[OF this] show "length (join S b) = n" "v < n \<Longrightarrow> join S b ! v \<longleftrightarrow> (\<exists>p \<in> set (src b). S ! ident p ! v)"
    by blast+
qed

lemma join_mono:
  assumes ok "shaped S" "shaped T" "b \<in> set bl" and le: "\<And>p. p \<in> set bl \<Longrightarrow> bits_le (S ! ident p) (T ! ident p)"
  shows "bits_le (join S b) (join T b)"
proof -
  have "join T b ! v" if v: "v < n" and j: "join S b ! v" for v
  proof -
    obtain p where p: "p \<in> set (src b)" "S ! ident p ! v" using j join_shaped(2)[OF assms(1,2,4) v] by blast
    then have pb: "p \<in> set bl" using closed[OF assms(1,4)] by blast
    then have "length (S ! ident p) = n" using assms(2) ids[OF assms(1)] by (simp add: shaped_def)
    then have "T ! ident p ! v" using le[OF pb] p(2) v by (simp add: bits_le_def)
    then show ?thesis using join_shaped(2)[OF assms(1,3,4) v] p(1) by blast
  qed
  then show ?thesis using join_shaped(1)[OF assms(1,2,4)] join_shaped(1)[OF assms(1,3,4)] by (simp add: bits_le_def)
qed

text \<open>What one round does to the sets.\<close>

lemma step_sets:
  assumes o: ok and inv: "inv st" and q: "queue st = b # q"
  defines "new \<equiv> tr b (join (sets st) b)"
  shows "b \<in> set bl" and "sets (flow_step n ident src dep tr st) = (sets st)[ident b := new]" and "shaped ((sets st)[ident b := new])"
    and "bits_le (sets st ! ident b) new"
    and "c \<in> set bl \<Longrightarrow> bits_le (sets st ! ident c) ((sets st)[ident b := new] ! ident c)"
proof -
  show b: "b \<in> set bl" using inv q by (simp add: inv_def marks_def)
  then have ib: "ident b < m" using ids[OF o] by blast
  have sh: "shaped (sets st)" using inv by (simp add: inv_def)
  show "sets (flow_step n ident src dep tr st) = (sets st)[ident b := new]"
    by (simp add: flow_step_def q Let_def split_beta new_def)
  have "length new = n" unfolding new_def by (rule len[OF o b join_shaped(1)[OF o sh b]])
  then show "shaped ((sets st)[ident b := new])" using sh ib by (auto simp: shaped_def nth_list_update)
  show le: "bits_le (sets st ! ident b) new" using inv b by (simp add: inv_def new_def)
  then show "bits_le (sets st ! ident c) ((sets st)[ident b := new] ! ident c)" if "c \<in> set bl" for c
    using sh ib by (cases "ident c = ident b") (simp_all add: shaped_def)
qed

lemma step_inv:
  assumes o: ok and inv: "inv st" and ne: "queue st \<noteq> []"
  shows "inv (flow_step n ident src dep tr st)"
proof -
  obtain b q where q: "queue st = b # q" using ne by (cases "queue st") auto
  define S where "S = sets st"
  define new where "new = tr b (join S b)"
  define S' where "S' = S[ident b := new]"
  define inw where "inw = (in_worklist st)[ident b := False]"
  note ss = step_sets[OF o inv q, folded S_def, folded new_def, folded S'_def]
  have b: "b \<in> set bl" and ib: "ident b < m" using ss(1) ids[OF o] by auto
  have sh: "shaped S" using inv by (simp add: inv_def S_def)
  have mk: "marks q inw"
    using inv q b ib ids[OF o] by (auto simp: inv_def marks_def inw_def nth_list_update inj_on_eq_iff)
  define p where "p = (if S ! ident b \<noteq> new then push_wl ident (dep b) q inw else (q, inw))"
  have st': "flow_step n ident src dep tr st = \<lparr>queue = fst p, in_worklist = snd p, joined = (joined st)[ident b := join S b], sets = S'\<rparr>"
    by (simp add: flow_step_def q Let_def split_beta p_def S_def new_def S'_def inw_def)
  have p: "marks (fst p) (snd p)" "set (fst p) = set q \<union> (if S ! ident b \<noteq> new then set (dep b) else {})"
    using push_marks[OF o mk, of "dep b" "fst p" "snd p"] closed[OF o b] mk by (auto simp: p_def)
  have jm: "bits_le (join S c) (join S' c)" if "c \<in> set bl" for c
    using join_mono[OF o sh ss(3) that] ss(5) by blast
  have grow: "bits_le (S' ! ident c) (tr c (join S' c))" if c: "c \<in> set bl" for c
  proof (cases "c = b")
    case True
    have "S' ! ident b = new" using sh ib by (simp add: S'_def shaped_def)
    then show ?thesis using True mono[OF o b join_shaped(1)[OF o sh b] jm[OF b]] by (simp add: new_def)
  next
    case False
    then have "ident c \<noteq> ident b" using c b ids[OF o] by (auto simp: inj_on_eq_iff)
    then have "S' ! ident c = S ! ident c" by (simp add: S'_def)
    moreover have "bits_le (S ! ident c) (tr c (join S c))" using inv c by (simp add: inv_def S_def)
    ultimately show ?thesis using mono[OF o c join_shaped(1)[OF o sh c] jm[OF c]] bits_le_trans by metis
  qed
  have settled: "S' ! ident c = tr c (join S' c) \<and> (joined st)[ident b := join S b] ! ident c = join S' c"
    if c: "c \<in> set bl" and nq: "c \<notin> set (fst p)" for c
  proof -
    have same: "join S' c = join S c"
    proof (cases "S ! ident b = new")
      case True
      then show ?thesis by (metis S'_def list_update_id)
    next
      case False
      then have "b \<notin> set (src c)" using dual[OF o c] nq p(2) by auto
      then have "ident p \<noteq> ident b" if "p \<in> set (src c)" for p
        using that closed[OF o c] ids[OF o] b by (metis inj_onD subsetD)
      then show ?thesis unfolding S'_def by (intro join_sets_cong) (metis nth_list_update_neq)
    qed
    show ?thesis
    proof (cases "c = b")
      case True
      then show ?thesis using same sh ib inv by (simp add: S'_def shaped_def new_def inv_def)
    next
      case False
      then have "ident c \<noteq> ident b" using c b ids[OF o] by (auto simp: inj_on_eq_iff)
      moreover have "c \<in> set bl - set (queue st)" using c nq p(2) q False by auto
      ultimately show ?thesis using inv same by (simp add: inv_def S_def S'_def)
    qed
  qed
  show ?thesis unfolding st' inv_def using p(1) ss(3) inv grow settled by (simp add: inv_def)
qed

text \<open>Each round either grows a set or shortens the worklist.\<close>

definition weight :: "Flow \<Rightarrow> nat" where
  "weight st = length (filter Not (concat (sets st))) * (m + 1) + length (queue st)"

lemma queue_short:
  assumes ok "marks q inw"
  shows "length q \<le> m"
proof -
  have "inj_on ident (set q)" "ident ` set q \<subseteq> {..<m}" "distinct q"
    using assms(2) ids[OF assms(1)] by (auto simp: marks_def intro: inj_on_subset)
  then show ?thesis by (metis card_image card_lessThan card_mono distinct_card finite_lessThan)
qed

lemma step_weight:
  assumes o: ok and inv: "inv st" and ne: "queue st \<noteq> []"
  shows "weight (flow_step n ident src dep tr st) < weight st"
proof -
  obtain b q where q: "queue st = b # q" using ne by (cases "queue st") auto
  let ?st = "flow_step n ident src dep tr st" and ?new = "tr b (join (sets st) b)"
  note ss = step_sets[OF o inv q]
  have ib: "ident b < length (sets st)" using inv ss(1) ids[OF o] by (auto simp: inv_def shaped_def)
  have c: "length (filter Not (concat (sets st))) + length (filter Not ?new)
      = length (filter Not (concat (sets ?st))) + length (filter Not (sets st ! ident b))"
    unfolding ss(2) by (rule falses_update[OF ib])
  show ?thesis
  proof (cases "sets st ! ident b = ?new")
    case True
    then have "sets ?st = sets st" unfolding ss(2) by (metis list_update_id)
    moreover have "queue ?st = q" using True by (simp add: flow_step_def q Let_def)
    ultimately have "queue ?st = q" "sets ?st = sets st" by blast+
    then show ?thesis by (simp add: weight_def q)
  next
    case False
    have "length (filter Not (concat (sets ?st))) < length (filter Not (concat (sets st)))"
      using c bits_le_count(2)[OF ss(4) False] by linarith
    moreover have "length (queue ?st) \<le> m" using queue_short[OF o] step_inv[OF o inv ne] by (auto simp: inv_def)
    moreover have "x * (m + 1) + y < z * (m + 1)" if "x < z" "y \<le> m" for x y z :: nat
    proof -
      have "Suc x * (m + 1) \<le> z * (m + 1)" using that(1) by (intro mult_le_mono1) simp
      then show ?thesis using that(2) by simp
    qed
    ultimately have "length (filter Not (concat (sets ?st))) * (m + 1) + length (queue ?st)
        < length (filter Not (concat (sets st))) * (m + 1)" by blast
    then show ?thesis by (simp add: weight_def)
  qed
qed

lemma inv_init:
  assumes o: ok
  shows "inv (flow_init n m ident bl)"
proof -
  let ?S = "replicate m (replicate n False)" and ?p = "push_wl ident bl [] (replicate m False)"
  have ib: "ident b < m" if "b \<in> set bl" for b using ids[OF o] that by blast
  have "marks [] (replicate m False)" using ib by (simp add: marks_def)
  from push_marks[OF o this subset_refl, of "fst ?p" "snd ?p"]
  have mk: "marks (fst ?p) (snd ?p)" "set (fst ?p) = set bl" by simp_all
  have sh: "shaped ?S" by (simp add: shaped_def)
  have "bits_le (?S ! ident b) (tr b (join ?S b))" if b: "b \<in> set bl" for b
    using ib[OF b] len[OF o b join_shaped(1)[OF o sh b]] by (simp add: bits_le_def)
  then show ?thesis using mk sh by (simp add: inv_def flow_init_def split_beta)
qed

definition solution :: "Flow \<Rightarrow> bool" where
  "solution st \<longleftrightarrow> shaped (sets st)
     \<and> (\<forall>b \<in> set bl. sets st ! ident b = tr b (join (sets st) b) \<and> joined st ! ident b = join (sets st) b)"

lemma solve_ends:
  assumes o: ok
  shows "\<exists>st. flow_solve n m ident bl src dep tr = Some st \<and> solution st"
proof -
  have "\<exists>st. flow_solve n m ident bl src dep tr = Some st"
    unfolding flow_solve_def
    by (rule measure_while_option_Some[where P = inv and f = weight]) (simp_all add: step_inv step_weight inv_init o)
  then obtain st where st: "flow_solve n m ident bl src dep tr = Some st" by blast
  have "inv st"
    by (rule while_option_rule[OF _ st[unfolded flow_solve_def]]) (simp_all add: step_inv inv_init o)
  moreover have "queue st = []" using while_option_stop[OF st[unfolded flow_solve_def]] by simp
  ultimately show ?thesis using st by (auto simp: inv_def solution_def)
qed

text \<open>Every bit of the result is justified: it has any property the transfer functions propagate.\<close>

lemma solve_induct:
  assumes o: ok and st: "flow_solve n m ident bl src dep tr = Some st"
    and Q: "\<And>b x v. b \<in> set bl \<Longrightarrow> length x = n \<Longrightarrow> (\<And>w. w < n \<Longrightarrow> x ! w \<Longrightarrow> \<exists>p \<in> set (src b). Q p w) \<Longrightarrow>
      v < n \<Longrightarrow> tr b x ! v \<Longrightarrow> Q b v"
    and b: "b \<in> set bl" "v < n" "sets st ! ident b ! v"
  shows "Q b v"
proof -
  let ?P = "\<lambda>st. inv st \<and> (\<forall>b \<in> set bl. \<forall>v < n. sets st ! ident b ! v \<longrightarrow> Q b v)"
  have "?P (flow_step n ident src dep tr st)" if P: "?P st" and ne: "queue st \<noteq> []" for st
  proof -
    obtain b q where q: "queue st = b # q" using ne by (cases "queue st") auto
    have sh: "shaped (sets st)" and inv: "inv st" using P by (simp_all add: inv_def)
    note ss = step_sets[OF o inv q]
    have "Q c v" if c: "c \<in> set bl" and v: "v < n" and t: "sets (flow_step n ident src dep tr st) ! ident c ! v" for c v
    proof (cases "c = b")
      case True
      have "ident b < length (sets st)" using sh ids[OF o] ss(1) by (simp add: shaped_def)
      then have "tr b (join (sets st) b) ! v" using t True by (simp add: ss(2))
      moreover have "\<exists>p \<in> set (src b). Q p w" if "w < n" "join (sets st) b ! w" for w
        using join_shaped(2)[OF o sh ss(1) that(1)] that P closed[OF o ss(1)] by blast
      ultimately show ?thesis using Q[OF ss(1) join_shaped(1)[OF o sh ss(1)] _ v] True by blast
    next
      case False
      then have "ident c \<noteq> ident b" using c ss(1) ids[OF o] by (auto simp: inj_on_eq_iff)
      then show ?thesis using t P c v by (simp add: ss(2))
    qed
    then show ?thesis using step_inv[OF o inv ne] by blast
  qed
  moreover have "?P (flow_init n m ident bl)"
    using inv_init[OF o] ids[OF o] by (auto simp: flow_init_def split_beta)
  ultimately have "?P st" by (intro while_option_rule[OF _ st[unfolded flow_solve_def], where P = ?P]) blast+
  then show ?thesis using b by blast
qed

end

end
