(* ===== verification/Borrow_Facts.thy ===== *)
theory Borrow_Facts
  imports Borrow_Flow
begin

text \<open>
  What the borrow checker (\<^verbatim>\<open>compiler/ir/mir_borrow.c\<close>) decides.  Both analyses are exact with
  respect to the control-flow graph, so the checker reports nothing exactly when no path leads from a
  move to a use of the moved value and no borrow is made while a conflicting one is live.
\<close>

section \<open>Graphs and transfer functions\<close>

definition cfg_ok :: "MirFunction \<Rightarrow> bool" where
  "cfg_ok f \<longleftrightarrow> distinct (block_list f) \<and> inj_on (block_ident f) (set (block_list f))
     \<and> (\<forall>b \<in> set (block_list f). set (predecessors (blocks f ! b)) \<subseteq> set (block_list f)
          \<and> set (successors (blocks f ! b)) \<subseteq> set (block_list f)
          \<and> (\<forall>a \<in> set (block_list f). a \<in> set (predecessors (blocks f ! b)) \<longleftrightarrow> b \<in> set (successors (blocks f ! a))))"

lemma fold_max_ge: "k \<le> fold (\<lambda>b m. max m (g b)) bl k" for k :: nat
proof (induction bl arbitrary: k)
  case (Cons b bl)
  show ?case using Cons[of "max k (g b)"] by simp
qed simp

lemma fold_max_mem: "b \<in> set bl \<Longrightarrow> g b \<le> fold (\<lambda>b m. max m (g b)) bl k" for k :: nat
proof (induction bl arbitrary: k)
  case (Cons c bl)
  then show ?case using fold_max_ge[of "max k (g c)" g bl] by auto
qed simp

lemma block_ident_bound: "b \<in> set (block_list f) \<Longrightarrow> block_ident f b < num_block_ids f"
  using fold_max_mem[of b "block_list f" "block_ident f" 0] by (simp add: num_block_ids_def)

definition moves_value :: "MirInst \<Rightarrow> MirValueId \<Rightarrow> bool" where
  "moves_value i v \<longleftrightarrow> iop i = TRANSFER MIR_MOVE v \<and> v \<noteq> MIR_VALUE_NONE"

lemma length_inst_moves [simp]: "length (inst_moves n i s) = length s"
  by (simp add: inst_moves_def split: MirOp.splits MirTransferOp.splits)

lemma inst_moves_bit:
  assumes "length s = n" and "unat v < n"
  shows "inst_moves n i s ! unat v \<longleftrightarrow> s ! unat v \<or> moves_value i v"
  using assms by (auto simp: inst_moves_def moves_value_def nth_list_update word_unat_eq_iff split: MirOp.splits MirTransferOp.splits)

lemma fold_moves_length [simp]: "length (fold (inst_moves n) is s) = length s"
  by (induction "is" arbitrary: s) simp_all

lemma fold_moves_bit:
  assumes "length s = n" and "unat v < n"
  shows "fold (inst_moves n) is s ! unat v \<longleftrightarrow> s ! unat v \<or> (\<exists>i \<in> set is. moves_value i v)"
  using assms by (induction "is" arbitrary: s) (auto simp: inst_moves_bit)

text \<open>The local sets: a value is exposed in a block when it is used there before any definition.\<close>

fun exposed :: "MirInst list \<Rightarrow> MirValueId \<Rightarrow> bool" where
  "exposed [] v \<longleftrightarrow> False"
| "exposed (i # is) v \<longleftrightarrow> v \<in> set (operands_of (iop i)) \<or> (result i \<noteq> v \<and> exposed is v)"

lemma fold_record_use:
  assumes "length d = n" "length u = n"
  shows "length (fold (record_use n d) vs u) = n"
    and "unat v < n \<Longrightarrow> v \<noteq> MIR_VALUE_NONE \<Longrightarrow> fold (record_use n d) vs u ! unat v \<longleftrightarrow> u ! unat v \<or> (\<not> d ! unat v \<and> v \<in> set vs)"
proof -
  have r: "length (record_use n d x u) = length u" for x u by (simp add: record_use_def)
  show "length (fold (record_use n d) vs u) = n" using assms(2) by (induction vs arbitrary: u) (simp_all add: r)
  show "fold (record_use n d) vs u ! unat v \<longleftrightarrow> u ! unat v \<or> (\<not> d ! unat v \<and> v \<in> set vs)" if "unat v < n" "v \<noteq> MIR_VALUE_NONE"
    using assms(2)
  proof (induction vs arbitrary: u)
    case (Cons x vs)
    then show ?case using that
      by (auto simp: r record_use_def nth_list_update word_unat_eq_iff)
  qed simp
qed

lemma def_use_bits:
  assumes "length d = n" "length u = n" and v: "unat v < n" "v \<noteq> MIR_VALUE_NONE"
  shows "(fst (def_use n is (d, u)) ! unat v \<longleftrightarrow> d ! unat v \<or> (\<exists>i \<in> set is. result i = v))
    \<and> (snd (def_use n is (d, u)) ! unat v \<longleftrightarrow> u ! unat v \<or> (\<not> d ! unat v \<and> exposed is v))"
  using assms(1,2)
proof (induction "is" arbitrary: d u)
  case (Cons i "is")
  let ?d = "if result i \<noteq> MIR_VALUE_NONE \<and> unat (result i) < n then d[unat (result i) := True] else d"
  have d: "length ?d = n" "?d ! unat v \<longleftrightarrow> d ! unat v \<or> result i = v"
    using Cons.prems(1) v by (auto simp: nth_list_update word_unat_eq_iff)
  have u: "length (mark_uses n i d u) = n"
    "mark_uses n i d u ! unat v \<longleftrightarrow> u ! unat v \<or> (\<not> d ! unat v \<and> v \<in> set (operands_of (iop i)))"
    using fold_record_use(1)[OF Cons.prems] fold_record_use(2)[OF Cons.prems v] by (simp_all add: mark_uses_def)
  show ?case using Cons.IH[OF d(1) u(1)] unfolding def_use.simps d(2) u(2) by auto
qed simp

lemma local_sets_nth:
  assumes "cfg_ok f" and "b \<in> set (block_list f)"
  shows "local_sets f ! block_ident f b =
    def_use (num_vals f) (insts (blocks f ! b)) (replicate (num_vals f) False, replicate (num_vals f) False)"
proof -
  let ?g = "\<lambda>b. def_use (num_vals f) (insts (blocks f ! b))" and ?z = "(replicate (num_vals f) False, replicate (num_vals f) False)"
  have "fold (\<lambda>b DU. DU[block_ident f b := ?g b (DU ! block_ident f b)]) bl DU ! block_ident f b =
      (if b \<in> set bl then ?g b (DU ! block_ident f b) else DU ! block_ident f b)"
    if "distinct bl" "inj_on (block_ident f) (insert b (set bl))" "\<forall>c \<in> insert b (set bl). block_ident f c < length DU" for bl DU
    using that
  proof (induction bl arbitrary: DU)
    case (Cons c bl)
    have ib: "block_ident f c = block_ident f b \<longleftrightarrow> c = b" using Cons.prems(2) by (auto simp: inj_on_def)
    have "inj_on (block_ident f) (insert b (set bl))" using Cons.prems(2) by (rule inj_on_subset) auto
    from Cons.IH[OF _ this, of "DU[block_ident f c := ?g c (DU ! block_ident f c)]"] show ?case
      using Cons.prems ib by (auto simp: nth_list_update)
  qed simp
  from this[of "block_list f" "replicate (num_block_ids f) ?z"] assms block_ident_bound
  show ?thesis by (simp add: local_sets_def cfg_ok_def insert_absorb)
qed

lemma live_transfer_bit: "unat v < n \<Longrightarrow> live_transfer n du out ! unat v \<longleftrightarrow> (out ! unat v \<and> \<not> fst du ! unat v) \<or> snd du ! unat v"
  by (simp add: live_transfer_def split_beta)

text \<open>Every index of a set is a value id.\<close>

lemma index_value_id:
  assumes "w < num_vals f"
  shows "w = unat (of_nat w :: MirValueId)"
proof -
  have "w < 2 ^ 32" using assms unsigned_less[where w = "next_value_id f" and ?'a = nat] by (simp add: num_vals_def)
  then show ?thesis by (simp add: unat_of_nat)
qed

lemma move_transfer_mono:
  assumes "length x = num_vals f" and "bits_le x y"
  shows "bits_le (move_transfer f b x) (move_transfer f b y)"
proof -
  have y: "length y = num_vals f" using assms by (simp add: bits_le_def)
  have "move_transfer f b y ! w" if "w < num_vals f" "move_transfer f b x ! w" for w
  proof -
    define v :: MirValueId where "v = of_nat w"
    have w: "w = unat v" unfolding v_def by (rule index_value_id[OF that(1)])
    note b = fold_moves_bit[of _ "num_vals f" v, folded w, OF _ that(1)]
    have "x ! w \<longrightarrow> y ! w" using assms that(1) by (simp add: bits_le_def)
    then show ?thesis using that(2) b[OF assms(1)] b[OF y] unfolding move_transfer_def by blast
  qed
  then show ?thesis using assms(1) y by (simp add: bits_le_def move_transfer_def fold_moves_length)
qed

interpretation move_flow: dataflow "cfg_ok f" "num_vals f" "num_block_ids f" "block_ident f" "block_list f"
  "\<lambda>b. predecessors (blocks f ! b)" "\<lambda>b. successors (blocks f ! b)" "move_transfer f" for f
proof
  fix b and x :: "bool list" assume "length x = num_vals f" then show "length (move_transfer f b x) = num_vals f" by (simp add: move_transfer_def)
qed (auto simp: cfg_ok_def block_ident_bound intro: move_transfer_mono)

interpretation live_flow: dataflow "cfg_ok f" "num_vals f" "num_block_ids f" "block_ident f" "block_list f"
  "\<lambda>b. successors (blocks f ! b)" "\<lambda>b. predecessors (blocks f ! b)"
  "\<lambda>b. live_transfer (num_vals f) (local_sets f ! block_ident f b)" for f
  by unfold_locales
    (auto simp: cfg_ok_def block_ident_bound bits_le_def live_transfer_def split_beta)

section \<open>Paths\<close>

text \<open>A point \<open>(b, k)\<close> lies before instruction \<open>k\<close> of block \<open>b\<close>, the last one after all of them.\<close>

inductive pt_step :: "MirFunction \<Rightarrow> bref \<times> nat \<Rightarrow> bref \<times> nat \<Rightarrow> bool" for f where
  pt_next: "k < length (insts (blocks f ! b)) \<Longrightarrow> pt_step f (b, k) (b, Suc k)"
| pt_edge: "s \<in> set (successors (blocks f ! b)) \<Longrightarrow> pt_step f (b, length (insts (blocks f ! b))) (s, 0)"

lemma pt_forward: "j \<le> k \<Longrightarrow> k \<le> length (insts (blocks f ! b)) \<Longrightarrow> (pt_step f)\<^sup>*\<^sup>* (b, j) (b, k)"
proof (induction k)
  case (Suc k)
  show ?case
  proof (cases "j = Suc k")
    case False
    then have "(pt_step f)\<^sup>*\<^sup>* (b, j) (b, k)" using Suc by simp
    moreover have "pt_step f (b, k) (b, Suc k)" using Suc.prems(2) by (intro pt_next) simp
    ultimately show ?thesis by (rule rtranclp.rtrancl_into_rtrancl)
  qed simp
qed simp

text \<open>The value is moved on some path that ends at the point.\<close>

definition moved_before :: "MirFunction \<Rightarrow> bref \<times> nat \<Rightarrow> MirValueId \<Rightarrow> bool" where
  "moved_before f pt v \<longleftrightarrow> (\<exists>a \<in> set (block_list f). \<exists>j < length (insts (blocks f ! a)).
     moves_value (insts (blocks f ! a) ! j) v \<and> (pt_step f)\<^sup>*\<^sup>* (a, Suc j) pt)"

definition use_after_move :: "MirFunction \<Rightarrow> bool" where
  "use_after_move f \<longleftrightarrow> (\<exists>b \<in> set (block_list f). \<exists>k < length (insts (blocks f ! b)). \<exists>v.
     unat v < num_vals f \<and> inst_uses_value (insts (blocks f ! b) ! k) v \<and> moved_before f (b, k) v)"

text \<open>The checker's moved set at a point, from the solved sets.\<close>

definition moved_set :: "MirFunction \<Rightarrow> Flow \<Rightarrow> bref \<Rightarrow> nat \<Rightarrow> bool list" where
  "moved_set f mv b k = fold (inst_moves (num_vals f)) (take k (insts (blocks f ! b)))
     (join_sets (num_vals f) (block_ident f) (sets mv) (predecessors (blocks f ! b)))"

lemma solve_moves_flow:
  assumes "cfg_ok f"
  obtains mv where "solve_moves f = Some mv" and "move_flow.solution f mv"
  using move_flow.solve_ends[OF assms] unfolding solve_moves_def by blast

lemma moved_set_bit:
  assumes "cfg_ok f" and "move_flow.solution f mv" and b: "b \<in> set (block_list f)" and v: "unat v < num_vals f"
  shows "length (moved_set f mv b k) = num_vals f"
    and "moved_set f mv b k ! unat v \<longleftrightarrow> (\<exists>p \<in> set (predecessors (blocks f ! b)).
           moved_set f mv p (length (insts (blocks f ! p))) ! unat v) \<or> (\<exists>i \<in> set (take k (insts (blocks f ! b))). moves_value i v)"
proof -
  have sh: "move_flow.shaped f (sets mv)"
    and eq: "\<And>c. c \<in> set (block_list f) \<Longrightarrow> sets mv ! block_ident f c = moved_set f mv c (length (insts (blocks f ! c)))"
    using assms(2) by (simp_all add: move_flow.solution_def moved_set_def move_transfer_def)
  note j = move_flow.join_shaped[OF assms(1) sh b]
  show "length (moved_set f mv b k) = num_vals f" by (simp add: moved_set_def j(1))
  have "set (predecessors (blocks f ! b)) \<subseteq> set (block_list f)" using assms(1) b by (simp add: cfg_ok_def)
  then show "moved_set f mv b k ! unat v \<longleftrightarrow> (\<exists>p \<in> set (predecessors (blocks f ! b)).
           moved_set f mv p (length (insts (blocks f ! p))) ! unat v) \<or> (\<exists>i \<in> set (take k (insts (blocks f ! b))). moves_value i v)"
    unfolding moved_set_def[of f mv b] fold_moves_bit[OF j(1) v] j(2)[OF v] using eq by (metis subsetD)
qed

text \<open>The forward analysis is exact: it contains a value at a point iff some path moves it before.\<close>

lemma moved_set_complete:
  assumes ok: "cfg_ok f" and sol: "move_flow.solution f mv" and a: "a \<in> set (block_list f)" "j < length (insts (blocks f ! a))"
    and m: "moves_value (insts (blocks f ! a) ! j) v" and v: "unat v < num_vals f"
    and path: "(pt_step f)\<^sup>*\<^sup>* (a, Suc j) (b, k)"
  shows "b \<in> set (block_list f) \<and> k \<le> length (insts (blocks f ! b)) \<and> moved_set f mv b k ! unat v"
  using path
proof (induction "(b, k)" arbitrary: b k rule: rtranclp_induct)
  case base
  have "insts (blocks f ! a) ! j \<in> set (take (Suc j) (insts (blocks f ! a)))" using a(2) by (simp add: take_Suc_conv_app_nth)
  then show ?case using a m moved_set_bit(2)[OF ok sol a(1) v] by auto
next
  case (step y)
  obtain c l where y: "y = (c, l)" by fastforce
  from step.hyps(2)[unfolded y] step.hyps(3)[OF y] show ?case
  proof cases
    case pt_next
    then show ?thesis using step.hyps(3)[OF y] moved_set_bit(2)[OF ok sol _ v, of c] by (auto simp: take_Suc_conv_app_nth)
  next
    case pt_edge
    have c: "c \<in> set (block_list f)" "moved_set f mv c l ! unat v" using step.hyps(3)[OF y] by auto
    have e: "b \<in> set (successors (blocks f ! c))" using pt_edge by auto
    have "b \<in> set (block_list f)" using ok c(1) e unfolding cfg_ok_def by blast
    moreover from this have "c \<in> set (predecessors (blocks f ! b))" using ok c(1) e unfolding cfg_ok_def by blast
    ultimately show ?thesis using moved_set_bit(2)[OF ok sol _ v, of b 0] c pt_edge by auto
  qed
qed

lemma moved_set_sound:
  assumes ok: "cfg_ok f" and sm: "solve_moves f = Some mv" and b: "b \<in> set (block_list f)"
    and k: "k \<le> length (insts (blocks f ! b))" and v: "unat v < num_vals f" and bit: "moved_set f mv b k ! unat v"
  shows "moved_before f (b, k) v"
proof -
  have sol: "move_flow.solution f mv" using solve_moves_flow[OF ok] sm by auto
  have here: "moved_before f (c, l) x" if "c \<in> set (block_list f)" "l \<le> length (insts (blocks f ! c))"
    "i \<in> set (take l (insts (blocks f ! c)))" "moves_value i x" for c l i x
  proof -
    note t = that
    obtain j where "j < l" "j < length (insts (blocks f ! c))" "i = insts (blocks f ! c) ! j"
      using t(3) by (auto simp: in_set_conv_nth)
    then show ?thesis unfolding moved_before_def using t pt_forward[of "Suc j" l f c]
      by (intro bexI[of _ c] exI[of _ j]) auto
  qed
  have cross: "moved_before f (c, l) x" if "p \<in> set (predecessors (blocks f ! c))" "c \<in> set (block_list f)"
    "moved_before f (p, length (insts (blocks f ! p))) x" "l \<le> length (insts (blocks f ! c))" for p c l x
  proof -
    have "c \<in> set (successors (blocks f ! p))" using ok that(1,2) unfolding cfg_ok_def by blast
    then have "(pt_step f)\<^sup>*\<^sup>* (p, length (insts (blocks f ! p))) (c, l)"
      using pt_forward[of 0 l f c] that(4) by (meson converse_rtranclp_into_rtranclp pt_edge le0)
    then show ?thesis using that(3) unfolding moved_before_def by (meson rtranclp_trans)
  qed
  have out: "moved_before f (c, length (insts (blocks f ! c))) (of_nat w)"
    if "c \<in> set (block_list f)" "w < num_vals f" "sets mv ! block_ident f c ! w" for c w
  proof (rule move_flow.solve_induct[OF ok sm[unfolded solve_moves_def], where Q = "\<lambda>c w. moved_before f (c, length (insts (blocks f ! c))) (of_nat w)"])
    fix c x w
    assume c: "c \<in> set (block_list f)" and x: "length x = num_vals f" and w: "w < num_vals f" "move_transfer f c x ! w"
      and ih: "\<And>w. w < num_vals f \<Longrightarrow> x ! w \<Longrightarrow> \<exists>p \<in> set (predecessors (blocks f ! c)).
        moved_before f (p, length (insts (blocks f ! p))) (of_nat w)"
    have wv: "w = unat (of_nat w :: MirValueId)" by (rule index_value_id[OF w(1)])
    have "x ! w \<or> (\<exists>i \<in> set (insts (blocks f ! c)). moves_value i (of_nat w))"
      using w fold_moves_bit[OF x, of "of_nat w", folded wv] by (simp add: move_transfer_def)
    then show "moved_before f (c, length (insts (blocks f ! c))) (of_nat w)"
      using ih[OF w(1)] cross[OF _ c] here[OF c] by auto
  qed (use that in auto)
  consider p where "p \<in> set (predecessors (blocks f ! b))" "moved_set f mv p (length (insts (blocks f ! p))) ! unat v"
    | i where "i \<in> set (take k (insts (blocks f ! b)))" "moves_value i v"
    using bit moved_set_bit(2)[OF ok sol b v] by blast
  then show ?thesis
  proof cases
    case 1
    then have p: "p \<in> set (block_list f)" using ok b by (auto simp: cfg_ok_def)
    have "sets mv ! block_ident f p ! unat v" using 1(2) sol p by (simp add: move_flow.solution_def moved_set_def move_transfer_def)
    from out[OF p v this] show ?thesis using cross[OF 1(1) b _ k] by simp
  qed (use here[OF b k] in blast)
qed

section \<open>Liveness\<close>

text \<open>Live at the start of a block: used there or later before any definition.\<close>

inductive live_at_entry :: "MirFunction \<Rightarrow> MirValueId \<Rightarrow> bref \<Rightarrow> bool" for f v where
  live_here: "exposed (insts (blocks f ! b)) v \<Longrightarrow> live_at_entry f v b"
| live_through: "s \<in> set (successors (blocks f ! b)) \<Longrightarrow> live_at_entry f v s \<Longrightarrow>
    \<forall>i \<in> set (insts (blocks f ! b)). result i \<noteq> v \<Longrightarrow> live_at_entry f v b"

definition live_at_exit :: "MirFunction \<Rightarrow> MirValueId \<Rightarrow> bref \<Rightarrow> bool" where
  "live_at_exit f v b \<longleftrightarrow> (\<exists>s \<in> set (successors (blocks f ! b)). live_at_entry f v s)"

lemma live_sets_step:
  assumes "cfg_ok f" and b: "b \<in> set (block_list f)" and v: "unat v < num_vals f" "v \<noteq> MIR_VALUE_NONE"
  shows "live_transfer (num_vals f) (local_sets f ! block_ident f b) x ! unat v \<longleftrightarrow>
    (x ! unat v \<and> \<not> (\<exists>i \<in> set (insts (blocks f ! b)). result i = v)) \<or> exposed (insts (blocks f ! b)) v"
  unfolding live_transfer_bit[OF v(1)] local_sets_nth[OF assms(1) b]
  using def_use_bits[of "replicate (num_vals f) False" "num_vals f" "replicate (num_vals f) False" v] v by simp

lemma live_out_exact:
  assumes ok: "cfg_ok f" and sl: "solve_liveness f = Some lv" and b: "b \<in> set (block_list f)"
    and v: "unat v < num_vals f" "v \<noteq> MIR_VALUE_NONE"
  shows "joined lv ! block_ident f b ! unat v \<longleftrightarrow> live_at_exit f v b"
proof -
  have sl': "flow_solve (num_vals f) (num_block_ids f) (block_ident f) (block_list f)
      (\<lambda>b. successors (blocks f ! b)) (\<lambda>b. predecessors (blocks f ! b))
      (\<lambda>b. live_transfer (num_vals f) (local_sets f ! block_ident f b)) = Some lv"
    using sl by (simp add: solve_liveness_def Let_def)
  then have sol: "live_flow.solution f lv" using live_flow.solve_ends[OF ok] by auto
  then have sh: "live_flow.shaped f (sets lv)" by (simp add: live_flow.solution_def)
  have succ: "set (successors (blocks f ! c)) \<subseteq> set (block_list f)" if "c \<in> set (block_list f)" for c
    using ok that by (simp add: cfg_ok_def)
  have jn: "joined lv ! block_ident f c ! unat v \<longleftrightarrow> (\<exists>s \<in> set (successors (blocks f ! c)). sets lv ! block_ident f s ! unat v)"
    if "c \<in> set (block_list f)" for c
    using live_flow.join_shaped(2)[OF ok sh that v(1)] sol that by (simp add: live_flow.solution_def)
  have eq: "sets lv ! block_ident f c ! unat v \<longleftrightarrow> (joined lv ! block_ident f c ! unat v
      \<and> \<not> (\<exists>i \<in> set (insts (blocks f ! c)). result i = v)) \<or> exposed (insts (blocks f ! c)) v" if "c \<in> set (block_list f)" for c
    using sol that live_sets_step[OF ok that v] by (simp add: live_flow.solution_def)
  have complete: "live_at_entry f v c \<Longrightarrow> c \<in> set (block_list f) \<Longrightarrow> sets lv ! block_ident f c ! unat v" for c
    by (induction rule: live_at_entry.induct) (use eq jn succ in blast)+
  have sound: "live_at_entry f v c" if c: "c \<in> set (block_list f)" "sets lv ! block_ident f c ! unat v" for c
  proof -
    have "w = unat v \<longrightarrow> live_at_entry f v c" if "c \<in> set (block_list f)" "w < num_vals f" "sets lv ! block_ident f c ! w" for c w
    proof (rule live_flow.solve_induct[OF ok sl', where Q = "\<lambda>c w. w = unat v \<longrightarrow> live_at_entry f v c"])
      fix c x w
      assume c: "c \<in> set (block_list f)" and "live_transfer (num_vals f) (local_sets f ! block_ident f c) x ! w"
        and "\<And>w. w < num_vals f \<Longrightarrow> x ! w \<Longrightarrow> \<exists>s \<in> set (successors (blocks f ! c)). w = unat v \<longrightarrow> live_at_entry f v s"
      then show "w = unat v \<longrightarrow> live_at_entry f v c"
        using live_sets_step[OF ok c v, of x] v(1) by (blast intro: live_at_entry.intros)
    qed (use that in auto)
    then show ?thesis using c v(1) by blast
  qed
  show ?thesis unfolding jn[OF b] live_at_exit_def using complete sound succ[OF b] by blast
qed

section \<open>Borrows\<close>

fun borrow_of :: "MirInst \<Rightarrow> (MirValueId \<times> MirBorrowKind) option" where
  "borrow_of i = (case iop i of TRANSFER MIR_BORROW s \<Rightarrow> Some (s, MIR_BK_SHARED)
     | TRANSFER MIR_BORROW_MUT s \<Rightarrow> Some (s, MIR_BK_MUTABLE) | _ \<Rightarrow> None)"

definition all_insts_of :: "MirFunction \<Rightarrow> MirInst list" where
  "all_insts_of f = concat (map (\<lambda>b. insts (blocks f ! b)) (block_list f))"

definition borrow_insts :: "MirFunction \<Rightarrow> MirInst list" where
  "borrow_insts f = filter (\<lambda>i. borrow_of i \<noteq> None) (all_insts_of f)"

text \<open>
  A borrow of a value while another borrow of it is used by the instruction, used later in the block
  or live at its end, and one of the two is mutable.
\<close>

definition borrow_conflict_at :: "MirFunction \<Rightarrow> bref \<Rightarrow> nat \<Rightarrow> bool" where
  "borrow_conflict_at f b k \<longleftrightarrow>
     (let i = insts (blocks f ! b) ! k
      in \<exists>s kd. borrow_of i = Some (s, kd) \<and>
         (\<exists>e \<in> set (borrow_insts f). \<exists>ke. borrow_of e = Some (s, ke) \<and> result e \<noteq> result i \<and> (kd = MIR_BK_MUTABLE \<or> ke = MIR_BK_MUTABLE)
            \<and> (inst_uses_value i (result e) \<or>
               (result e \<noteq> MIR_VALUE_NONE \<and> unat (result e) < num_vals f \<and>
                 ((\<exists>x \<in> set (drop (Suc k) (insts (blocks f ! b))). inst_uses_value x (result e)) \<or> live_at_exit f (result e) b)))))"

definition borrow_conflict :: "MirFunction \<Rightarrow> bool" where
  "borrow_conflict f \<longleftrightarrow> (\<exists>b \<in> set (block_list f). \<exists>k < length (insts (blocks f ! b)). borrow_conflict_at f b k)"

lemma populate_borrows:
  "populate i bc = (case borrow_of i of Some (s, kd) \<Rightarrow> track_borrow bc i s kd | None \<Rightarrow> bc)"
  by (simp add: populate_def split: MirOp.splits MirTransferOp.splits)

lemma populate_all:
  assumes "length (borrows bc) + length (filter (\<lambda>i. borrow_of i \<noteq> None) is) \<le> MIR_MAX_BORROWS"
  shows "borrows (fold populate is bc) = borrows bc @ map (\<lambda>i. \<lparr>borrow_id = result i, source_id = fst (the (borrow_of i)),
      borrow_kind = snd (the (borrow_of i))\<rparr>) (filter (\<lambda>i. borrow_of i \<noteq> None) is)
    \<and> errors (fold populate is bc) = errors bc \<and> moved (fold populate is bc) = moved bc"
  using assms
proof (induction "is" arbitrary: bc)
  case (Cons i "is")
  show ?case
  proof (cases "borrow_of i")
    case None
    then show ?thesis using Cons.IH[of bc] Cons.prems by (simp add: populate_borrows del: borrow_of.simps)
  next
    case (Some p)
    then show ?thesis using Cons.IH[of "populate i bc"] Cons.prems
      by (cases p) (simp add: populate_borrows track_borrow_def del: borrow_of.simps)
  qed
qed simp

section \<open>When no error is added\<close>

abbreviation err_count :: "MirBorrowChecker \<Rightarrow> nat" where
  "err_count bc \<equiv> length (errors bc)"

lemma emit_error_sel [simp]:
  "moved (emit_error bc k msg v c) = moved bc" "borrows (emit_error bc k msg v c) = borrows bc"
  "err_count bc \<le> err_count (emit_error bc k msg v c)"
  "err_count bc < MIR_MAX_ERRORS \<Longrightarrow> err_count (emit_error bc k msg v c) = Suc (err_count bc)"
  by (simp_all add: emit_error_def)

lemma foldl_quiet:
  assumes keep: "\<And>bc x. moved (g bc x) = moved bc \<and> borrows (g bc x) = borrows bc \<and> err_count bc \<le> err_count (g bc x)"
    and one: "\<And>bc x. err_count bc < MIR_MAX_ERRORS \<Longrightarrow> err_count (g bc x) = err_count bc \<longleftrightarrow> P (moved bc) (borrows bc) x"
  shows "moved (foldl g bc xs) = moved bc \<and> borrows (foldl g bc xs) = borrows bc \<and> err_count bc \<le> err_count (foldl g bc xs)
    \<and> (err_count bc < MIR_MAX_ERRORS \<longrightarrow> (err_count (foldl g bc xs) = err_count bc \<longleftrightarrow> (\<forall>x \<in> set xs. P (moved bc) (borrows bc) x)))"
proof (induction xs arbitrary: bc)
  case (Cons x xs)
  note k = keep[of bc x] and ih = Cons.IH[of "g bc x"]
  show ?case
  proof (cases "err_count (g bc x) = err_count bc")
    case True
    then show ?thesis using k ih one[of bc x] by auto
  next
    case False
    then have "err_count bc < err_count (g bc x)" using k by simp
    then show ?thesis using k ih one[of bc x] False by auto
  qed
qed simp

definition value_moved :: "bool list \<Rightarrow> MirValueId \<Rightarrow> bool" where
  "value_moved mvd v \<longleftrightarrow> v \<noteq> MIR_VALUE_NONE \<and> unat v < length mvd \<and> mvd ! unat v"

lemma operands_quiet:
  "moved (borrow_check_inst_operands bc i) = moved bc \<and> borrows (borrow_check_inst_operands bc i) = borrows bc
    \<and> err_count bc \<le> err_count (borrow_check_inst_operands bc i)
    \<and> (err_count bc < MIR_MAX_ERRORS \<longrightarrow> (err_count (borrow_check_inst_operands bc i) = err_count bc \<longleftrightarrow>
         (\<forall>x \<in> set (operand_contexts (iop i)). \<not> value_moved (moved bc) (fst x))))"
  unfolding borrow_check_inst_operands_def
  by (rule foldl_quiet) (auto simp: borrow_operand_moved_def split_beta value_moved_def is_moved_def)

lemma context_operands: "fst ` set (operand_contexts p) = (if \<exists>s. p = TRANSFER MIR_MOVE s then {} else set (operands_of p))"
  by (cases p) (auto simp: image_image)

definition conflicts :: "MirValueId \<Rightarrow> MirBorrowKind \<Rightarrow> MirInst \<Rightarrow> MirInst list \<Rightarrow> bool list \<Rightarrow> nat \<Rightarrow> MirBorrow \<Rightarrow> bool" where
  "conflicts s kd i rest lo n e \<longleftrightarrow> borrow_id e \<noteq> result i \<and> (inst_uses_value i (borrow_id e) \<or> is_live_after rest (borrow_id e) lo n)
     \<and> source_id e = s \<and> (kd = MIR_BK_MUTABLE \<or> borrow_kind e = MIR_BK_MUTABLE)"

lemma conflicts_quiet:
  "moved (check_borrow_conflicts bc s kd i rest lo n) = moved bc \<and> borrows (check_borrow_conflicts bc s kd i rest lo n) = borrows bc
    \<and> err_count bc \<le> err_count (check_borrow_conflicts bc s kd i rest lo n)
    \<and> (err_count bc < MIR_MAX_ERRORS \<longrightarrow> (err_count (check_borrow_conflicts bc s kd i rest lo n) = err_count bc \<longleftrightarrow>
         (\<forall>e \<in> set (borrows bc). \<not> conflicts s kd i rest lo n e)))"
  unfolding check_borrow_conflicts_def
  by (rule foldl_quiet) (auto simp: conflict_step_def Let_def conflicts_def split: if_splits)

definition inst_clean :: "nat \<Rightarrow> bool list \<Rightarrow> bool list \<Rightarrow> MirBorrow list \<Rightarrow> MirInst \<Rightarrow> MirInst list \<Rightarrow> bool" where
  "inst_clean n lo mvd bs i rest \<longleftrightarrow> (\<forall>v. inst_uses_value i v \<longrightarrow> \<not> value_moved mvd v)
     \<and> (\<forall>s kd. borrow_of i = Some (s, kd) \<longrightarrow> (\<forall>e \<in> set bs. \<not> conflicts s kd i rest lo n e))"

lemma track_move_quiet:
  assumes "length (moved bc) = n"
  shows "borrows (track_move n bc s) = borrows bc \<and> err_count bc \<le> err_count (track_move n bc s)
    \<and> moved (track_move n bc s) = (if s \<noteq> MIR_VALUE_NONE \<and> unat s < n then (moved bc)[unat s := True] else moved bc)
    \<and> (err_count bc < MIR_MAX_ERRORS \<longrightarrow> (err_count (track_move n bc s) = err_count bc \<longleftrightarrow> \<not> value_moved (moved bc) s))"
  using assms by (auto simp: track_move_def mark_moved_def ensure_moved_def Let_def value_moved_def is_moved_def)

lemma report_inst_quiet:
  assumes n: "length (moved bc) = n"
  shows "borrows (report_inst n lo bc i rest) = borrows bc \<and> err_count bc \<le> err_count (report_inst n lo bc i rest)
    \<and> moved (report_inst n lo bc i rest) = inst_moves n i (moved bc)
    \<and> (err_count bc < MIR_MAX_ERRORS \<longrightarrow> (err_count (report_inst n lo bc i rest) = err_count bc \<longleftrightarrow>
         inst_clean n lo (moved bc) (borrows bc) i rest))"
proof -
  let ?b = "borrow_check_inst_operands bc i"
  note q = operands_quiet[of bc i]
  have n': "length (moved ?b) = n" using n q by simp
  have ops: "(\<forall>x \<in> set (operand_contexts (iop i)). \<not> value_moved (moved bc) (fst x)) \<longleftrightarrow>
      (\<forall>v \<in> fst ` set (operand_contexts (iop i)). \<not> value_moved (moved bc) v)" by simp
  consider s where "iop i = TRANSFER MIR_MOVE s" | s kd where "borrow_of i = Some (s, kd)"
    | "\<nexists>s. iop i = TRANSFER MIR_MOVE s" "borrow_of i = None"
    by (cases "borrow_of i") auto
  then show ?thesis
  proof cases
    case 1
    then have "report_inst n lo bc i rest = track_move n ?b s" by (simp add: report_inst_def)
    moreover have "?b = bc" using 1 by (simp add: borrow_check_inst_operands_def)
    ultimately show ?thesis using track_move_quiet[OF n, of s] 1
      by (auto simp: inst_clean_def inst_uses_value_def inst_moves_def)
  next
    case 2
    then have v: "report_inst n lo bc i rest = check_borrow_conflicts ?b s kd i rest lo n"
      by (auto simp: report_inst_def split: MirOp.splits MirTransferOp.splits)
    have nm: "\<nexists>s. iop i = TRANSFER MIR_MOVE s" and mv: "inst_moves n i (moved bc) = moved bc"
      using 2 by (auto simp: inst_moves_def split: MirOp.splits MirTransferOp.splits)
    then have "inst_clean n lo (moved bc) (borrows bc) i rest \<longleftrightarrow>
        (\<forall>v \<in> fst ` set (operand_contexts (iop i)). \<not> value_moved (moved bc) v) \<and> (\<forall>e \<in> set (borrows bc). \<not> conflicts s kd i rest lo n e)"
      using 2 unfolding inst_clean_def inst_uses_value_def context_operands by (simp add: Ball_def del: borrow_of.simps)
    then show ?thesis using conflicts_quiet[of ?b s kd i rest lo n] q unfolding v mv ops
      by (auto simp del: ball_simps)
  next
    case 3
    then have v: "report_inst n lo bc i rest = ?b" and mv: "inst_moves n i (moved bc) = moved bc"
      by (auto simp: report_inst_def inst_moves_def split: MirOp.splits MirTransferOp.splits)
    have "inst_clean n lo (moved bc) (borrows bc) i rest \<longleftrightarrow>
        (\<forall>v \<in> fst ` set (operand_contexts (iop i)). \<not> value_moved (moved bc) v)"
      using 3 unfolding inst_clean_def inst_uses_value_def context_operands by (simp add: Ball_def del: borrow_of.simps)
    then show ?thesis using q unfolding v mv ops by auto
  qed
qed

lemma report_insts_quiet:
  assumes "length (moved bc) = n"
  shows "borrows (report_insts n lo bc is) = borrows bc \<and> err_count bc \<le> err_count (report_insts n lo bc is)
    \<and> (err_count bc < MIR_MAX_ERRORS \<longrightarrow> (err_count (report_insts n lo bc is) = err_count bc \<longleftrightarrow>
         (\<forall>k < length is. inst_clean n lo (fold (inst_moves n) (take k is) (moved bc)) (borrows bc) (is ! k) (drop (Suc k) is))))"
  using assms
proof (induction "is" arbitrary: bc)
  case (Cons i "is")
  let ?b = "report_inst n lo bc i is"
  note q = report_inst_quiet[OF Cons.prems, of lo i "is"]
  have "length (moved ?b) = n" using q Cons.prems by simp
  note ih = Cons.IH[OF this]
  have all: "(\<forall>k < length (i # is). P k) \<longleftrightarrow> P 0 \<and> (\<forall>k < length is. P (Suc k))" for P
    by (auto simp: less_Suc_eq_0_disj)
  show ?case unfolding all using q ih by auto
qed simp

lemma validate_blocks_quiet:
  assumes "\<And>b. b \<in> set bl \<Longrightarrow> length (moved_set f mv b 0) = num_vals f"
  shows "borrows (fold (report_block f mv lv) bl bc) = borrows bc \<and> err_count bc \<le> err_count (fold (report_block f mv lv) bl bc)
    \<and> (err_count bc < MIR_MAX_ERRORS \<longrightarrow> (err_count (fold (report_block f mv lv) bl bc) = err_count bc \<longleftrightarrow>
         (\<forall>b \<in> set bl. \<forall>k < length (insts (blocks f ! b)). inst_clean (num_vals f) (joined lv ! block_ident f b)
            (moved_set f mv b k) (borrows bc) (insts (blocks f ! b) ! k) (drop (Suc k) (insts (blocks f ! b))))))"
  using assms
proof (induction bl arbitrary: bc)
  case (Cons b bl)
  let ?b = "report_block f mv lv b bc"
  let ?s = "bc\<lparr>moved := join_sets (num_vals f) (block_ident f) (sets mv) (predecessors (blocks f ! b))\<rparr>"
  have "length (moved ?s) = num_vals f" using Cons.prems[of b] by (simp add: moved_set_def)
  note q = report_insts_quiet[OF this, of "joined lv ! block_ident f b" "insts (blocks f ! b)", folded report_block_def]
  have "borrows ?b = borrows bc \<and> err_count bc \<le> err_count ?b
    \<and> (err_count bc < MIR_MAX_ERRORS \<longrightarrow> (err_count ?b = err_count bc \<longleftrightarrow>
         (\<forall>k < length (insts (blocks f ! b)). inst_clean (num_vals f) (joined lv ! block_ident f b)
            (moved_set f mv b k) (borrows bc) (insts (blocks f ! b) ! k) (drop (Suc k) (insts (blocks f ! b))))))"
    using q by (simp add: moved_set_def)
  moreover note Cons.IH[of ?b] Cons.prems
  ultimately show ?case by auto
qed simp

text \<open>The borrows the check compares against.\<close>

lemma populated_borrows:
  assumes "length (borrow_insts f) \<le> MIR_MAX_BORROWS" and "borrows bc = []"
  shows "set (borrows (fold (\<lambda>b. fold populate (insts (blocks f ! b))) (block_list f) bc)) =
      {\<lparr>borrow_id = result e, source_id = s, borrow_kind = ke\<rparr> | e s ke. e \<in> set (borrow_insts f) \<and> borrow_of e = Some (s, ke)}"
    and "errors (fold (\<lambda>b. fold populate (insts (blocks f ! b))) (block_list f) bc) = errors bc"
proof -
  have "fold (\<lambda>b. fold populate (insts (blocks f ! b))) bl bc = fold populate (concat (map (\<lambda>b. insts (blocks f ! b)) bl)) bc" for bl
    by (induction bl arbitrary: bc) simp_all
  then have eq: "fold (\<lambda>b. fold populate (insts (blocks f ! b))) (block_list f) bc = fold populate (all_insts_of f) bc"
    by (simp add: all_insts_of_def)
  have "length (borrows bc) + length (filter (\<lambda>i. borrow_of i \<noteq> None) (all_insts_of f)) \<le> MIR_MAX_BORROWS"
    using assms by (simp only: borrow_insts_def) simp
  from populate_all[OF this] have p: "borrows (fold populate (all_insts_of f) bc) =
      map (\<lambda>i. \<lparr>borrow_id = result i, source_id = fst (the (borrow_of i)), borrow_kind = snd (the (borrow_of i))\<rparr>) (borrow_insts f)"
    "errors (fold populate (all_insts_of f) bc) = errors bc" unfolding borrow_insts_def assms(2) by simp_all
  have some: "\<exists>s ke. borrow_of e = Some (s, ke)" if "e \<in> set (borrow_insts f)" for e
    using that unfolding borrow_insts_def by (auto simp del: borrow_of.simps)
  show "errors (fold (\<lambda>b. fold populate (insts (blocks f ! b))) (block_list f) bc) = errors bc" unfolding eq by (rule p(2))
  show "set (borrows (fold (\<lambda>b. fold populate (insts (blocks f ! b))) (block_list f) bc)) =
      {\<lparr>borrow_id = result e, source_id = s, borrow_kind = ke\<rparr> | e s ke. e \<in> set (borrow_insts f) \<and> borrow_of e = Some (s, ke)}"
    unfolding eq p set_map using some by (force simp del: borrow_of.simps)
qed

lemma inst_clean_exact:
  assumes ok: "cfg_ok f" and mv: "solve_moves f = Some mv" and lv: "solve_liveness f = Some lv"
    and b: "b \<in> set (block_list f)" and k: "k < length (insts (blocks f ! b))"
    and bs: "set bs = {\<lparr>borrow_id = result e, source_id = s, borrow_kind = ke\<rparr> | e s ke. e \<in> set (borrow_insts f) \<and> borrow_of e = Some (s, ke)}"
  defines "i \<equiv> insts (blocks f ! b) ! k"
  shows "inst_clean (num_vals f) (joined lv ! block_ident f b) (moved_set f mv b k) bs i (drop (Suc k) (insts (blocks f ! b)))
    \<longleftrightarrow> \<not> (\<exists>v. unat v < num_vals f \<and> inst_uses_value i v \<and> moved_before f (b, k) v) \<and> \<not> borrow_conflict_at f b k"
proof -
  have sol: "move_flow.solution f mv" using solve_moves_flow[OF ok] mv by auto
  let ?rest = "drop (Suc k) (insts (blocks f ! b))"
  have nz: "v \<noteq> MIR_VALUE_NONE" if "moved_before f (b, k) v" for v using that by (auto simp: moved_before_def moves_value_def)
  have vm: "value_moved (moved_set f mv b k) v \<longleftrightarrow> unat v < num_vals f \<and> moved_before f (b, k) v" for v
  proof (cases "unat v < num_vals f")
    case True
    have "moved_set f mv b k ! unat v" if "moved_before f (b, k) v"
      using that moved_set_complete[OF ok sol _ _ _ True] by (auto simp: moved_before_def)
    then show ?thesis using moved_set_sound[OF ok mv b less_imp_le[OF k] True] nz True moved_set_bit(1)[OF ok sol b True]
      by (auto simp: value_moved_def)
  next
    case False
    then have "length (moved_set f mv b k) = num_vals f"
      using move_flow.join_shaped(1)[OF ok _ b] sol by (simp add: moved_set_def move_flow.solution_def)
    then show ?thesis using False by (simp add: value_moved_def)
  qed
  have live: "is_live_after ?rest v (joined lv ! block_ident f b) (num_vals f) \<longleftrightarrow>
      v \<noteq> MIR_VALUE_NONE \<and> unat v < num_vals f \<and> ((\<exists>x \<in> set ?rest. inst_uses_value x v) \<or> live_at_exit f v b)" for v
    using live_out_exact[OF ok lv b, of v] by (auto simp: is_live_after_def)
  have "borrow_conflict_at f b k \<longleftrightarrow> (\<exists>s kd. borrow_of i = Some (s, kd) \<and>
      (\<exists>e \<in> set bs. conflicts s kd i ?rest (joined lv ! block_ident f b) (num_vals f) e))"
    unfolding borrow_conflict_at_def Let_def i_def[symmetric] conflicts_def live bs by (fastforce simp del: borrow_of.simps)
  then show ?thesis unfolding inst_clean_def vm by blast
qed

section \<open>What the checker decides\<close>

lemma check_exact:
  assumes ok: "cfg_ok f" and f: "\<not> is_extern f" "block_list f \<noteq> []"
    and room: "err_count bc < MIR_MAX_ERRORS" and few: "length (borrow_insts f) \<le> MIR_MAX_BORROWS"
  shows "\<exists>bc' k. mir_borrow_check_function bc f = Some (bc', k) \<and> (k = 0 \<longleftrightarrow> \<not> use_after_move f \<and> \<not> borrow_conflict f)
    \<and> err_count bc' = err_count bc + k"
proof -
  obtain mv where mv: "solve_moves f = Some mv" and sol: "move_flow.solution f mv" by (rule solve_moves_flow[OF ok])
  obtain lv where lv: "solve_liveness f = Some lv"
    using live_flow.solve_ends[OF ok] unfolding solve_liveness_def Let_def by blast
  let ?bc1 = "mir_borrow_reset bc"
  define bc2 where "bc2 = fold (\<lambda>b. fold populate (insts (blocks f ! b))) (block_list f) ?bc1"
  define bc3 where "bc3 = fold (report_block f mv lv) (block_list f) bc2"
  have r: "borrows ?bc1 = []" "errors ?bc1 = errors bc" by (simp_all add: mir_borrow_reset_def)
  have bs: "set (borrows bc2) = {\<lparr>borrow_id = result e, source_id = s, borrow_kind = ke\<rparr> | e s ke.
      e \<in> set (borrow_insts f) \<and> borrow_of e = Some (s, ke)}"
    and e2: "errors bc2 = errors bc"
    using populated_borrows[OF few r(1)] r(2) unfolding bc2_def by simp_all
  have len: "length (moved_set f mv b 0) = num_vals f" if "b \<in> set (block_list f)" for b
    using move_flow.join_shaped(1)[OF ok _ that] sol by (simp add: moved_set_def move_flow.solution_def)
  note q = validate_blocks_quiet[OF len, of "block_list f" lv bc2, folded bc3_def]
  have "err_count bc3 = err_count bc \<longleftrightarrow> \<not> use_after_move f \<and> \<not> borrow_conflict f"
    using q room inst_clean_exact[OF ok mv lv _ _ bs] unfolding e2 use_after_move_def borrow_conflict_def by blast
  moreover have "mir_borrow_check_function bc f = Some (bc3\<lparr>moved := moved bc2\<rparr>, err_count bc3 - err_count bc)"
    using f by (simp add: mir_borrow_check_function_def mv lv bc2_def bc3_def Let_def)
  moreover have "err_count bc \<le> err_count bc3" using q e2 by simp
  ultimately show ?thesis by auto
qed

text \<open>
  C13: The borrow checker always ends, and it is exact: on a function with a consistent control-flow
  graph and at most 512 borrows, with room left in the error buffer, it reports nothing if and only if
  no path leads from a move to a use (or second move) of the moved value, and no borrow is made while
  a borrow of the same value that conflicts with it is still used or live.
\<close>

theorem mir_borrow_check_exact:
  assumes ok: "cfg_ok f" and f: "\<not> is_extern f" "block_list f \<noteq> []"
    and room: "err_count bc < MIR_MAX_ERRORS" and few: "length (borrow_insts f) \<le> MIR_MAX_BORROWS"
  shows "\<exists>bc' k. mir_borrow_check_function bc f = Some (bc', k) \<and> (k = 0 \<longleftrightarrow> \<not> use_after_move f \<and> \<not> borrow_conflict f)
    \<and> err_count bc' = err_count bc + k"
  by (rule check_exact[OF assms])

definition function_ok :: "MirFunction \<Rightarrow> bool" where
  "function_ok f \<longleftrightarrow> is_extern f \<or> block_list f = [] \<or> (cfg_ok f \<and> length (borrow_insts f) \<le> MIR_MAX_BORROWS)"

definition function_clean :: "MirFunction \<Rightarrow> bool" where
  "function_clean f \<longleftrightarrow> is_extern f \<or> block_list f = [] \<or> (\<not> use_after_move f \<and> \<not> borrow_conflict f)"

lemma check_function_some:
  assumes "function_ok f"
  shows "\<exists>r. mir_borrow_check_function bc f = Some r"
proof (cases "is_extern f \<or> block_list f = []")
  case False
  then have ok: "cfg_ok f" using assms by (simp add: function_ok_def)
  obtain mv where "solve_moves f = Some mv" by (rule solve_moves_flow[OF ok])
  moreover obtain lv where "solve_liveness f = Some lv"
    using live_flow.solve_ends[OF ok] unfolding solve_liveness_def Let_def by blast
  ultimately show ?thesis using False by (simp add: mir_borrow_check_function_def Let_def)
qed (auto simp: mir_borrow_check_function_def)

lemma check_function_clean:
  assumes "function_ok f" and "errors bc = []"
  shows "\<exists>bc' k. mir_borrow_check_function bc f = Some (bc', k) \<and> (k = 0 \<longleftrightarrow> function_clean f) \<and> (k = 0 \<longrightarrow> errors bc' = [])"
proof (cases "is_extern f \<or> block_list f = []")
  case False
  then obtain bc' k where r: "mir_borrow_check_function bc f = Some (bc', k)" "k = 0 \<longleftrightarrow> \<not> use_after_move f \<and> \<not> borrow_conflict f"
    "err_count bc' = err_count bc + k"
    using check_exact[of f bc] assms by (auto simp: function_ok_def MIR_MAX_ERRORS_def)
  then show ?thesis using False assms(2) by (intro exI[of _ bc'] exI[of _ k]) (auto simp: function_clean_def)
qed (use assms in \<open>auto simp: mir_borrow_check_function_def function_clean_def\<close>)

lemma check_functions_clean:
  assumes "\<forall>f \<in> set fs. function_ok f"
  shows "\<exists>bc' k. mir_borrow_check_functions bc fs = Some (bc', k) \<and> (errors bc = [] \<longrightarrow> (k = 0 \<longleftrightarrow> (\<forall>f \<in> set fs. function_clean f)))"
  using assms
proof (induction fs arbitrary: bc)
  case (Cons f fs)
  obtain bc1 k where f: "mir_borrow_check_function bc f = Some (bc1, k)" using check_function_some[of f bc] Cons.prems by auto
  obtain bc2 l where fs: "mir_borrow_check_functions bc1 fs = Some (bc2, l)"
    "errors bc1 = [] \<Longrightarrow> (l = 0 \<longleftrightarrow> (\<forall>f \<in> set fs. function_clean f))" using Cons.IH[of bc1] Cons.prems by auto
  have "errors bc = [] \<Longrightarrow> (k = 0 \<longleftrightarrow> function_clean f) \<and> (k = 0 \<longrightarrow> errors bc1 = [])"
    using check_function_clean[of f bc] Cons.prems f by auto
  then show ?case using f fs by auto
qed simp

lemma module_exact:
  assumes "\<forall>f \<in> set (func_list m). function_ok f"
  shows "\<exists>k. mir_verify_module m = Some k
    \<and> (k = 0 \<longleftrightarrow> (\<forall>f \<in> set (func_list m). mir_verify_function (type_cache m) f = 0 \<and> function_clean f))"
proof -
  obtain bc k where "mir_borrow_check_functions mir_borrow_init (func_list m) = Some (bc, k)"
    "k = 0 \<longleftrightarrow> (\<forall>f \<in> set (func_list m). function_clean f)"
    using check_functions_clean[OF assms, of mir_borrow_init] by (auto simp: mir_borrow_init_def)
  then show ?thesis by (auto simp: mir_verify_module_def mir_borrow_check_module_def)
qed

text \<open>
  Module verification always gives an answer, and it accepts exactly the modules in which every
  function passes the verifier and no defined function uses a value after a move on some path or makes
  a borrow that conflicts with a live one.
\<close>

theorem mir_verify_module_exact:
  assumes "\<forall>f \<in> set (func_list m). function_ok f"
  shows "\<exists>k. mir_verify_module m = Some k
    \<and> (k = 0 \<longleftrightarrow> (\<forall>f \<in> set (func_list m). mir_verify_function (type_cache m) f = 0 \<and> function_clean f))"
  by (rule module_exact[OF assms])

section \<open>Examples\<close>

text \<open>A function with one value borrowed, read through the borrow, then moved and returned.\<close>

definition one_block :: "MirInst list \<Rightarrow> MirFunction" where
  "one_block is = \<lparr>fname = ''f'', return_type = None, params = [], entry_block = Some 0, block_list = [0],
     blocks = [\<lparr>bb_id = 0, label = ''entry'', insts = is, inst_count = int (length is), predecessors = [], successors = []\<rparr>],
     block_count = 1, next_value_id = 6, value_types = replicate 6 (Some 0), is_constexpr = False, is_extern = False, is_async = False\<rparr>"

definition mi :: "MirOp \<Rightarrow> MirValueId \<Rightarrow> MirInst" where
  "mi op r = \<lparr>iop = op, result = r, itype = None\<rparr>"

definition borrow_demo :: MirFunction where
  "borrow_demo = one_block [mi (OBJ_ALLOC None 8) 1, mi (TRANSFER MIR_BORROW_MUT 1) 2, mi (LOAD 2) 3, mi (TRANSFER MIR_MOVE 1) 4, mi (RET 4) 0]"

definition as_module :: "MirFunction \<Rightarrow> MirModule" where
  "as_module f = \<lparr>mname = ''m'', func_list = [f], func_count = 1, globals = [], type_cache = [TyPlain MIR_TYPE_I64], string_literals = []\<rparr>"

lemma borrow_demo_verified: "mir_verify_module (as_module borrow_demo) = Some 0"
  by code_simp

lemma borrow_demo_function_ok: "cfg_ok borrow_demo" "length (borrow_insts borrow_demo) \<le> MIR_MAX_BORROWS"
    "\<not> is_extern borrow_demo" "block_list borrow_demo \<noteq> []"
  by (simp_all add: cfg_ok_def borrow_demo_def one_block_def borrow_insts_def all_insts_of_def mi_def MIR_MAX_BORROWS_def)

theorem mir_borrow_check_exact_witness: "\<not> use_after_move borrow_demo \<and> \<not> borrow_conflict borrow_demo"
proof -
  have "map_option snd (mir_borrow_check_function mir_borrow_init borrow_demo) = Some 0" by code_simp
  moreover have "err_count mir_borrow_init < MIR_MAX_ERRORS" by (simp add: mir_borrow_init_def MIR_MAX_ERRORS_def)
  ultimately show ?thesis
    using mir_borrow_check_exact[OF borrow_demo_function_ok(1,3,4) _ borrow_demo_function_ok(2), of mir_borrow_init] by auto
qed

theorem mir_verify_module_exact_witness:
  "mir_verify_module (as_module borrow_demo) = Some 0 \<and> function_clean borrow_demo"
  using mir_verify_module_exact[of "as_module borrow_demo"] borrow_demo_verified borrow_demo_function_ok
  by (simp add: as_module_def function_ok_def)

text \<open>
  The checker has no notion of a fresh value: a loop body that allocates an object and moves it is
  rejected as a double move, because the move of the previous iteration reaches the next one.
\<close>

definition loop_demo :: MirFunction where
  "loop_demo = (one_block [])\<lparr>block_list := [0, 1, 2], block_count := 3,
     blocks := [\<lparr>bb_id = 0, label = ''entry'', insts = [mi (CONST_BOOL True) 1, mi (BR (Some 1)) 0], inst_count = 2,
                  predecessors = [], successors = [1]\<rparr>,
                \<lparr>bb_id = 1, label = ''body'', insts = [mi (OBJ_ALLOC None 8) 2, mi (TRANSFER MIR_MOVE 2) 3,
                  mi (CONDBR 1 (Some 1) (Some 2)) 0], inst_count = 3, predecessors = [0, 1], successors = [1, 2]\<rparr>,
                \<lparr>bb_id = 2, label = ''exit'', insts = [mi RET_VOID 0], inst_count = 1, predecessors = [1], successors = []\<rparr>]\<rparr>"

theorem fresh_value_in_loop_rejected:
  "mir_verify_function [TyPlain MIR_TYPE_I64] loop_demo = 0
   \<and> map_option (\<lambda>r. map err_kind (errors (fst r))) (mir_borrow_check_function mir_borrow_init loop_demo) = Some [MIR_BERR_DOUBLE_MOVE]"
  by code_simp

text \<open>
  Rules 4 and 5 of the header are not enforced: a borrow used after its source was moved away, and a
  value dropped twice, are accepted.
\<close>

definition dangling_demo :: MirFunction where
  "dangling_demo = one_block [mi (OBJ_ALLOC None 8) 1, mi (TRANSFER MIR_BORROW 1) 2, mi (TRANSFER MIR_MOVE 1) 3, mi (LOAD 2) 4, mi (RET 4) 0]"

definition double_drop_demo :: MirFunction where
  "double_drop_demo = one_block [mi (OBJ_ALLOC None 8) 1, mi (REFOP MIR_DROP 1) 0, mi (REFOP MIR_DROP 1) 0, mi RET_VOID 0]"

theorem dangling_borrow_accepted:
  "mir_verify_module (as_module dangling_demo) = Some 0 \<and> mir_verify_module (as_module double_drop_demo) = Some 0"
  by code_simp

end
