(* ===== verification/Data_Layout.thy ===== *)
theory Data_Layout
  imports Casprix_Prelude "HOL-Library.Multiset"
begin

unbundle bit_operations_syntax

text \<open>
  The struct layout optimiser of \<^verbatim>\<open>compiler/layout/data_layout.c\<close>: field reordering, offsets and the
  SOA hint.  \<^verbatim>\<open>size_t\<close> is a 64-bit word, the two arrays of the context are lists whose lengths are the
  counters \<^verbatim>\<open>num_fields\<close> and \<^verbatim>\<open>num_structs\<close>.
\<close>

section \<open>Data\<close>

record DLField =
  fld_name :: "string option"
  fsize :: u64
  alignment :: u64
  original_idx :: u64
  optimized_off :: u64
  access_count :: u32
  is_pointer :: bool
  is_hot :: bool

record DLStructLayout =
  sname :: "string option"
  sfields :: "DLField list"
  original_size :: u64
  optimized_size :: u64
  original_align :: u64
  optimized_align :: u64
  padding_saved :: u64
  soa_candidate :: bool

record DLContext =
  structs :: "DLStructLayout list"
  total_padding_saved :: u64
  enable_hot_cold_split :: bool
  enable_soa_hints :: bool

section \<open>Sizes and offsets\<close>

definition align_up :: "u64 \<Rightarrow> u64 \<Rightarrow> u64" where
  "align_up val align = (val + align - 1) AND NOT (align - 1)"

fun naive_loop :: "DLField list \<Rightarrow> u64 \<Rightarrow> u64 \<Rightarrow> u64 \<times> u64" where
  "naive_loop [] off ma = (off, ma)"
| "naive_loop (f # fs) off ma =
     naive_loop fs (align_up off (alignment f) + fsize f) (if alignment f > ma then alignment f else ma)"

definition compute_naive_size :: "DLField list \<Rightarrow> u64 \<times> u64" where
  "compute_naive_size fs = (case naive_loop fs 0 1 of (off, ma) \<Rightarrow> (align_up off ma, ma))"

fun offsets_loop :: "DLField list \<Rightarrow> u64 \<Rightarrow> u64 \<Rightarrow> DLField list \<times> u64 \<times> u64" where
  "offsets_loop [] off ma = ([], off, ma)"
| "offsets_loop (f # fs) off ma =
     (let off1 = align_up off (alignment f);
          (fs', r) = offsets_loop fs (off1 + fsize f) (if alignment f > ma then alignment f else ma)
      in (f\<lparr>optimized_off := off1\<rparr> # fs', r))"

definition compute_offsets :: "DLField list \<Rightarrow> DLField list \<times> u64 \<times> u64" where
  "compute_offsets fs = (case offsets_loop fs 0 1 of (fs', off, ma) \<Rightarrow> (fs', align_up off ma, ma))"

section \<open>Comparators and the sort\<close>

definition field_cmp_align_hot :: "DLField \<Rightarrow> DLField \<Rightarrow> int" where
  "field_cmp_align_hot fa fb =
     (if alignment fa \<noteq> alignment fb then (if alignment fa > alignment fb then - 1 else 1)
      else if is_hot fa \<noteq> is_hot fb then (if is_hot fa then - 1 else 1)
      else if original_idx fa < original_idx fb then - 1 else 1)"

definition field_cmp_align_only :: "DLField \<Rightarrow> DLField \<Rightarrow> int" where
  "field_cmp_align_only fa fb =
     (if alignment fa \<noteq> alignment fb then (if alignment fa > alignment fb then - 1 else 1)
      else if original_idx fa < original_idx fb then - 1 else 1)"

text \<open>
  The C library's \<^verbatim>\<open>qsort\<close> leaves the array sorted; which sorted permutation it picks only matters for
  elements that compare equal, and \<open>qsort_unique\<close> below shows that there are none.
\<close>

fun qsort_insert :: "('a \<Rightarrow> 'a \<Rightarrow> int) \<Rightarrow> 'a \<Rightarrow> 'a list \<Rightarrow> 'a list" where
  "qsort_insert cmp x [] = [x]"
| "qsort_insert cmp x (y # ys) = (if cmp x y < 0 then x # y # ys else y # qsort_insert cmp x ys)"

definition qsort :: "('a \<Rightarrow> 'a \<Rightarrow> int) \<Rightarrow> 'a list \<Rightarrow> 'a list" where
  "qsort cmp xs = foldr (qsort_insert cmp) xs []"

section \<open>The SOA heuristic\<close>

fun soa_loop :: "DLField list \<Rightarrow> u64 \<times> u64 \<times> u64 \<times> u64 \<Rightarrow> u64 \<times> u64 \<times> u64 \<times> u64" where
  "soa_loop [] r = r"
| "soa_loop (f # fs) (hot, cold, hot_size, cold_size) =
     soa_loop fs (if is_hot f then (hot + 1, cold, hot_size + fsize f, cold_size)
                  else (hot, cold + 1, hot_size, cold_size + fsize f))"

definition check_soa_candidate :: "DLStructLayout \<Rightarrow> bool" where
  "check_soa_candidate s =
     (if length (sfields s) < 3 then False
      else case soa_loop (sfields s) (0, 0, 0, 0) of (hot, cold, hot_size, cold_size) \<Rightarrow>
        if hot = 0 \<or> cold = 0 then False else hot_size * 2 < optimized_size s)"

section \<open>Operations\<close>

definition DL_MAX_FIELDS :: nat where "DL_MAX_FIELDS = 128"
definition DL_MAX_STRUCTS :: nat where "DL_MAX_STRUCTS = 256"

definition dl_context_init :: DLContext where
  "dl_context_init = \<lparr>structs = [], total_padding_saved = 0, enable_hot_cold_split = True, enable_soa_hints = True\<rparr>"

definition dl_register_struct :: "DLContext \<Rightarrow> string option \<Rightarrow> int \<times> DLContext" where
  "dl_register_struct ctx name =
     (if length (structs ctx) \<ge> DL_MAX_STRUCTS then (- 1, ctx)
      else (int (length (structs ctx)),
            ctx\<lparr>structs := structs ctx @ [\<lparr>sname = name, sfields = [], original_size = 0, optimized_size = 0,
              original_align = 0, optimized_align = 0, padding_saved = 0, soa_candidate = False\<rparr>]\<rparr>))"

definition valid_idx :: "DLContext \<Rightarrow> int \<Rightarrow> bool" where
  "valid_idx ctx i \<longleftrightarrow> 0 \<le> i \<and> nat i < length (structs ctx)"

definition dl_add_field :: "DLContext \<Rightarrow> int \<Rightarrow> string option \<Rightarrow> u64 \<Rightarrow> u64 \<Rightarrow> bool \<Rightarrow> bool \<times> DLContext" where
  "dl_add_field ctx i name sz align ptr =
     (if \<not> valid_idx ctx i then (False, ctx)
      else let s = structs ctx ! nat i
           in if length (sfields s) \<ge> DL_MAX_FIELDS then (False, ctx)
              else let f = \<lparr>fld_name = name, fsize = sz, alignment = (if align > 0 then align else 1),
                            original_idx = of_nat (length (sfields s)), optimized_off = 0, access_count = 0,
                            is_pointer = ptr, is_hot = False\<rparr>
                   in (True, ctx\<lparr>structs := (structs ctx)[nat i := s\<lparr>sfields := sfields s @ [f]\<rparr>]\<rparr>))"

definition dl_set_access_count :: "DLContext \<Rightarrow> int \<Rightarrow> nat \<Rightarrow> u32 \<Rightarrow> DLContext" where
  "dl_set_access_count ctx i field_idx cnt =
     (if \<not> valid_idx ctx i then ctx
      else let s = structs ctx ! nat i
           in if field_idx \<ge> length (sfields s) then ctx
              else ctx\<lparr>structs := (structs ctx)[nat i := s\<lparr>sfields := (sfields s)
                     [field_idx := (sfields s ! field_idx)\<lparr>access_count := cnt, is_hot := (cnt > 0)\<rparr>]\<rparr>]\<rparr>)"

definition optimize_struct :: "bool \<Rightarrow> bool \<Rightarrow> DLStructLayout \<Rightarrow> DLStructLayout" where
  "optimize_struct hot_split soa s =
     (let (osz, oal) = compute_naive_size (sfields s);
          sorted = qsort (if hot_split then field_cmp_align_hot else field_cmp_align_only) (sfields s);
          (fs', nsz, nal) = compute_offsets sorted;
          s1 = s\<lparr>original_size := osz, original_align := oal, sfields := fs', optimized_size := nsz, optimized_align := nal,
                 padding_saved := (if osz > nsz then osz - nsz else 0)\<rparr>
      in if soa then s1\<lparr>soa_candidate := check_soa_candidate s1\<rparr> else s1)"

text \<open>The loop over the structs; an empty struct is skipped, and adds nothing to the total.\<close>

fun optimize_loop :: "bool \<Rightarrow> bool \<Rightarrow> DLStructLayout list \<Rightarrow> u64 \<Rightarrow> DLStructLayout list \<times> u64" where
  "optimize_loop hs soa [] tot = ([], tot)"
| "optimize_loop hs soa (s # ss) tot =
     (if sfields s = [] then (case optimize_loop hs soa ss tot of (ss', t) \<Rightarrow> (s # ss', t))
      else let s' = optimize_struct hs soa s
           in case optimize_loop hs soa ss
                     (if original_size s' > optimized_size s' then tot + padding_saved s' else tot) of
                (ss', t) \<Rightarrow> (s' # ss', t))"

definition dl_optimize_all :: "DLContext \<Rightarrow> DLContext" where
  "dl_optimize_all ctx =
     (case optimize_loop (enable_hot_cold_split ctx) (enable_soa_hints ctx) (structs ctx) 0 of
        (ss, t) \<Rightarrow> ctx\<lparr>structs := ss, total_padding_saved := t\<rparr>)"

definition dl_get_layout :: "DLContext \<Rightarrow> int \<Rightarrow> DLStructLayout option" where
  "dl_get_layout ctx i = (if valid_idx ctx i then Some (structs ctx ! nat i) else None)"

section \<open>Alignment arithmetic\<close>

definition pow2 :: "u64 \<Rightarrow> bool" where
  "pow2 a \<longleftrightarrow> a \<noteq> 0 \<and> a AND (a - 1) = 0"

definition up :: "nat \<Rightarrow> nat \<Rightarrow> nat" where
  "up v a = (v + a - 1) div a * a"

lemma up_props:
  assumes "0 < a"
  shows "v \<le> up v a" and "up v a < v + a" and "a dvd up v a"
proof -
  have "(v + a - 1) div a * a + (v + a - 1) mod a = v + a - 1" by (rule div_mult_mod_eq)
  moreover have "(v + a - 1) mod a < a" using assms by simp
  ultimately show "v \<le> up v a" "up v a < v + a" using assms unfolding up_def by linarith+
  show "a dvd up v a" by (simp add: up_def)
qed

lemma up_dvd:
  assumes "0 < a" and "a dvd v"
  shows "up v a = v"
proof -
  obtain k where "v = a * k" using assms(2) by (rule dvdE)
  then have k: "v = k * a" by (simp add: mult.commute)
  have "v + a - 1 = (a - 1) + k * a" using assms(1) k by simp
  then have "(v + a - 1) div a = k" using assms(1) by (simp only: div_mult_self1) simp
  then show ?thesis by (simp add: up_def k)
qed

lemma up_mono: "v \<le> p \<Longrightarrow> up v a \<le> up p a"
  unfolding up_def by (intro mult_right_mono div_le_mono) simp_all

lemma unat_align_up:
  assumes "pow2 a" and "unat v + unat a \<le> 2 ^ 64"
  shows "unat (align_up v a) = up (unat v) (unat a)"
proof -
  obtain k where k: "k < 64" "a = 2 ^ k" "unat a = 2 ^ k" using assms(1) word_and_pred_zero unfolding pow2_def by blast
  define w where "w = v + a - 1"
  have a0: "0 < unat a" using k(3) by simp
  have uw: "unat w = unat v + unat a - 1"
  proof -
    have "w = v + (a - 1)" by (simp add: w_def)
    moreover have "unat (a - 1) = unat a - 1" using assms(1) by (simp add: unat_minus_one pow2_def)
    ultimately show ?thesis using assms(2) a0 by (simp add: unat_word_ariths)
  qed
  have "w = (w AND NOT (a - 1)) + (w AND (a - 1))"
    by (subst disjunctive_add_eq_or) (auto intro!: bit_eqI simp: bit_simps)
  then have "w AND NOT (a - 1) = w - (w AND (a - 1))" by (metis add_diff_cancel_right')
  moreover have um: "unat (w AND (a - 1)) = unat w mod unat a" using unat_and_mask[of w k] k by simp
  moreover have "w AND (a - 1) \<le> w" unfolding word_le_nat_alt um by simp
  ultimately have "unat (w AND NOT (a - 1)) = unat w - unat w mod unat a" by (simp add: unat_sub)
  then show ?thesis unfolding align_up_def w_def[symmetric] up_def uw by (simp add: minus_mod_eq_div_mult)
qed

section \<open>The placement of a field list\<close>

text \<open>
  The reference placement over natural numbers: where a list of fields ends when it starts at offset
  \<open>v\<close>, and the offset of each field.
\<close>

fun ends :: "nat \<Rightarrow> DLField list \<Rightarrow> nat" where
  "ends v [] = v"
| "ends v (f # fs) = ends (up v (unat (alignment f)) + unat (fsize f)) fs"

fun offs :: "nat \<Rightarrow> DLField list \<Rightarrow> nat list" where
  "offs v [] = []"
| "offs v (f # fs) = up v (unat (alignment f)) # offs (up v (unat (alignment f)) + unat (fsize f)) fs"

definition weight :: "DLField list \<Rightarrow> nat" where
  "weight fs = (\<Sum>f\<leftarrow>fs. unat (fsize f) + unat (alignment f))"

definition total_size :: "DLField list \<Rightarrow> nat" where
  "total_size fs = (\<Sum>f\<leftarrow>fs. unat (fsize f))"

definition max_align :: "DLField list \<Rightarrow> nat" where
  "max_align fs = Max (insert 1 ((unat \<circ> alignment) ` set fs))"

text \<open>Alignments are powers of two and the struct fits well inside the address space.\<close>

definition well_sized :: "DLField list \<Rightarrow> bool" where
  "well_sized fs \<longleftrightarrow> (\<forall>f \<in> set fs. pow2 (alignment f)) \<and> weight fs < 2 ^ 63"

lemma pow2_pos: "pow2 a \<Longrightarrow> 0 < unat a"
  by (simp add: pow2_def unat_gt_0)

lemma weight_simps [simp]:
  "weight [] = 0" "weight (f # fs) = unat (fsize f) + unat (alignment f) + weight fs"
  by (simp_all add: weight_def)

lemma total_size_simps [simp]: "total_size [] = 0" "total_size (f # fs) = unat (fsize f) + total_size fs"
  by (simp_all add: total_size_def)

lemma ends_bounds:
  "\<forall>f \<in> set fs. 0 < unat (alignment f) \<Longrightarrow> v + total_size fs \<le> ends v fs \<and> ends v fs \<le> v + weight fs"
proof (induction fs arbitrary: v)
  case (Cons f fs)
  then show ?case using up_props(1,2)[of "unat (alignment f)" v] Cons.IH[of "up v (unat (alignment f)) + unat (fsize f)"]
    by fastforce
qed simp

lemma max_align_weight: "fs \<noteq> [] \<Longrightarrow> \<forall>f \<in> set fs. 0 < unat (alignment f) \<Longrightarrow> max_align fs \<le> weight fs"
proof -
  assume "fs \<noteq> []" and pos: "\<forall>f \<in> set fs. 0 < unat (alignment f)"
  have le: "unat (alignment f) \<le> weight fs" if "f \<in> set fs" for f
    using that by (induction fs) auto
  moreover have "1 \<le> weight fs" using \<open>fs \<noteq> []\<close> pos by (cases fs) auto
  ultimately show ?thesis by (auto simp: max_align_def)
qed

lemma Max_insert_max: "finite S \<Longrightarrow> Max (insert (max m a) S) = max m (Max (insert a S))" for m :: nat
  by (cases "S = {}") (simp_all add: max.assoc)

lemma foldl_max_align:
  "foldl (\<lambda>m f. max m (unat (alignment f))) m fs = Max (insert m ((unat \<circ> alignment) ` set fs))"
proof (induction fs arbitrary: m)
  case (Cons f fs)
  have "Max (insert (max m (unat (alignment f))) ((unat \<circ> alignment) ` set fs)) =
      Max (insert m (insert (unat (alignment f)) ((unat \<circ> alignment) ` set fs)))"
    by (simp add: Max_insert_max)
  with Cons show ?case by simp
qed simp

text \<open>The code's loops, read as natural numbers; one step of either loop.\<close>

lemma place_step:
  assumes "pow2 (alignment f)" and "unat off + weight (f # fs) < 2 ^ 64"
  shows "unat (align_up off (alignment f)) = up (unat off) (unat (alignment f))"
    and "unat (align_up off (alignment f) + fsize f) = up (unat off) (unat (alignment f)) + unat (fsize f)"
    and "unat (align_up off (alignment f) + fsize f) + weight fs < 2 ^ 64"
proof -
  have w: "unat off + unat (alignment f) + unat (fsize f) + weight fs < 2 ^ 64" using assms(2) by simp
  show u: "unat (align_up off (alignment f)) = up (unat off) (unat (alignment f))" using unat_align_up[OF assms(1)] w by simp
  have "up (unat off) (unat (alignment f)) < unat off + unat (alignment f)" using up_props(2)[OF pow2_pos[OF assms(1)]] .
  then show s: "unat (align_up off (alignment f) + fsize f) = up (unat off) (unat (alignment f)) + unat (fsize f)"
    and "unat (align_up off (alignment f) + fsize f) + weight fs < 2 ^ 64" using w u by (simp_all add: unat_word_ariths)
qed

lemma naive_loop_nat:
  assumes "\<forall>f \<in> set fs. pow2 (alignment f)" and "unat off + weight fs < 2 ^ 64"
  shows "unat (fst (naive_loop fs off ma)) = ends (unat off) fs
    \<and> unat (snd (naive_loop fs off ma)) = foldl (\<lambda>m f. max m (unat (alignment f))) (unat ma) fs"
  using assms
proof (induction fs off ma rule: naive_loop.induct)
  case (2 f fs off ma)
  have p: "pow2 (alignment f)" using 2 by simp
  note st = place_step[OF p 2(3)]
  have m: "unat (if alignment f > ma then alignment f else ma) = max (unat ma) (unat (alignment f))"
    by (auto simp: word_less_nat_alt max_def)
  show ?case using 2(1)[OF _ st(3)] 2(2) unfolding st(2) m by simp
qed simp

lemma offsets_loop_naive: "snd (offsets_loop fs off ma) = naive_loop fs off ma"
  by (induction fs off ma rule: naive_loop.induct) (simp_all add: Let_def split_beta)

lemma offsets_loop_nat:
  assumes "\<forall>f \<in> set fs. pow2 (alignment f)" and "unat off + weight fs < 2 ^ 64"
  shows "map (unat \<circ> optimized_off) (fst (offsets_loop fs off ma)) = offs (unat off) fs"
  using assms
proof (induction fs off ma rule: naive_loop.induct)
  case (2 f fs off ma)
  have p: "pow2 (alignment f)" using 2 by simp
  note st = place_step[OF p 2(3)]
  show ?case using 2(1)[OF _ st(3)] 2(2) unfolding st(2) by (simp add: Let_def split_beta st(1))
qed simp

lemma offsets_loop_fields:
  "map (\<lambda>f. f\<lparr>optimized_off := 0\<rparr>) (fst (offsets_loop fs off ma)) = map (\<lambda>f. f\<lparr>optimized_off := 0\<rparr>) fs"
  by (induction fs off ma rule: naive_loop.induct) (simp_all add: Let_def split_beta)

text \<open>The sizes the two loops return.\<close>

lemma naive_size_nat:
  assumes "well_sized fs" and "fs \<noteq> []"
  shows "unat (fst (compute_naive_size fs)) = up (ends 0 fs) (max_align fs)"
    and "unat (snd (compute_naive_size fs)) = max_align fs" and "pow2 (snd (compute_naive_size fs))"
proof -
  have p: "\<forall>f \<in> set fs. pow2 (alignment f)" and w: "weight fs < 2 ^ 63" using assms(1) by (auto simp: well_sized_def)
  have pos: "\<forall>f \<in> set fs. 0 < unat (alignment f)" using p pow2_pos by blast
  have nl: "unat (fst (naive_loop fs 0 1)) = ends 0 fs" "unat (snd (naive_loop fs 0 1)) = max_align fs"
    using naive_loop_nat[OF p, of 0 1] w unfolding foldl_max_align max_align_def by simp_all
  have "snd (naive_loop fs off ma) \<in> insert ma (alignment ` set fs)" for off ma
    by (induction fs off ma rule: naive_loop.induct) auto
  from this[of 0 1] show pw: "pow2 (snd (compute_naive_size fs))"
    using p unfolding compute_naive_size_def by (auto simp: split_beta pow2_def)
  have "ends 0 fs \<le> weight fs" using ends_bounds[OF pos, of 0] by simp
  moreover have "max_align fs \<le> weight fs" using max_align_weight[OF assms(2) pos] .
  ultimately have "unat (fst (naive_loop fs 0 1)) + unat (snd (naive_loop fs 0 1)) \<le> 2 ^ 64" using w unfolding nl by simp
  from unat_align_up[OF _ this] pw show "unat (fst (compute_naive_size fs)) = up (ends 0 fs) (max_align fs)"
    "unat (snd (compute_naive_size fs)) = max_align fs"
    by (simp_all add: compute_naive_size_def split_beta nl)
qed

lemma compute_offsets_naive: "snd (compute_offsets fs) = compute_naive_size fs"
  using offsets_loop_naive[of fs 0 1] by (auto simp: compute_offsets_def compute_naive_size_def split_beta)

section \<open>What the sort is given\<close>

text \<open>
  The contract between the C library's sort and a comparator: a strict order that never leaves two
  elements with different identities unordered.
\<close>

locale comparator =
  fixes cmp :: "'a \<Rightarrow> 'a \<Rightarrow> int" and ident :: "'a \<Rightarrow> 'b"
  assumes irrefl: "\<not> cmp x x < 0"
    and trans: "cmp x y < 0 \<Longrightarrow> cmp y z < 0 \<Longrightarrow> cmp x z < 0"
    and total: "ident x \<noteq> ident y \<Longrightarrow> cmp x y < 0 \<or> cmp y x < 0"
begin

lemma mset_insert: "mset (qsort_insert cmp x ys) = add_mset x (mset ys)"
  by (induction ys) auto

lemma mset_qsort: "mset (qsort cmp xs) = mset xs"
  by (induction xs) (simp_all add: qsort_def mset_insert)

lemma insert_sorted:
  assumes "sorted_wrt (\<lambda>x y. cmp x y < 0) ys" and "\<forall>y \<in> set ys. ident y \<noteq> ident x"
  shows "sorted_wrt (\<lambda>x y. cmp x y < 0) (qsort_insert cmp x ys)"
  using assms
proof (induction ys)
  case (Cons y ys)
  have "set (qsort_insert cmp x ys) = insert x (set ys)" using arg_cong[OF mset_insert, of set_mset] by simp
  then show ?case using Cons total[of x y] by (auto intro: trans)
qed simp

lemma qsort_sorted:
  assumes "distinct (map ident xs)"
  shows "sorted_wrt (\<lambda>x y. cmp x y < 0) (qsort cmp xs)"
  using assms
proof (induction xs)
  case (Cons x xs)
  have "set (qsort cmp xs) = set xs" using arg_cong[OF mset_qsort, of set_mset] by simp
  moreover have "ident x \<notin> ident ` set xs" using Cons.prems by simp
  ultimately have "\<forall>y \<in> set (qsort cmp xs). ident y \<noteq> ident x" by (metis image_eqI)
  with Cons show ?case using insert_sorted by (simp add: qsort_def)
qed (simp add: qsort_def)

lemma sorted_unique:
  assumes "sorted_wrt (\<lambda>x y. cmp x y < 0) xs" and "sorted_wrt (\<lambda>x y. cmp x y < 0) ys" and "mset xs = mset ys"
  shows "xs = ys"
  using assms
proof (induction xs arbitrary: ys)
  case (Cons x xs)
  then obtain y zs where ys: "ys = y # zs" by (cases ys) auto
  have sets: "insert x (set xs) = insert y (set zs)" using arg_cong[OF Cons.prems(3), of set_mset] ys by simp
  have "x = y"
  proof (rule ccontr)
    assume "x \<noteq> y"
    then have "x \<in> set zs" "y \<in> set xs" using sets by auto
    then have "cmp x y < 0" "cmp y x < 0" using Cons.prems(1,2) ys by auto
    then show False using trans irrefl by blast
  qed
  then show ?case using Cons ys by auto
qed simp

lemma qsort_unique:
  assumes "distinct (map ident xs)" and "sorted_wrt (\<lambda>x y. cmp x y < 0) ys" and "mset ys = mset xs"
  shows "ys = qsort cmp xs"
  using sorted_unique[OF assms(2) qsort_sorted[OF assms(1)]] assms(3) mset_qsort by simp

end

interpretation hot_order: comparator field_cmp_align_hot original_idx
  by unfold_locales (auto simp: field_cmp_align_hot_def split: if_splits)

interpretation align_order: comparator field_cmp_align_only original_idx
  by unfold_locales (auto simp: field_cmp_align_only_def split: if_splits)

section \<open>Packed and arbitrary placements\<close>

lemma length_offs [simp]: "length (offs v fs) = length fs"
  by (induction fs arbitrary: v) simp_all

lemma offs_props:
  assumes "\<forall>f \<in> set fs. 0 < unat (alignment f)" and "j < length fs"
  shows "unat (alignment (fs ! j)) dvd offs v fs ! j \<and> v \<le> offs v fs ! j
    \<and> offs v fs ! j + unat (fsize (fs ! j)) \<le> ends v fs"
  using assms
proof (induction fs arbitrary: v j)
  case (Cons f fs)
  let ?v = "up v (unat (alignment f)) + unat (fsize f)"
  have u: "v \<le> up v (unat (alignment f))" "unat (alignment f) dvd up v (unat (alignment f))"
    using up_props(1,3)[of "unat (alignment f)" v] Cons.prems(1) by simp_all
  have e: "?v \<le> ends ?v fs" using ends_bounds[of fs ?v] Cons.prems(1) by simp
  show ?case
  proof (cases j)
    case 0
    then show ?thesis using u e by simp
  next
    case (Suc i)
    then show ?thesis using Cons.IH[of i ?v] Cons.prems u by simp
  qed
qed simp

lemma offs_apart:
  assumes "\<forall>f \<in> set fs. 0 < unat (alignment f)" and "j < k" and "k < length fs"
  shows "offs v fs ! j + unat (fsize (fs ! j)) \<le> offs v fs ! k"
  using assms
proof (induction fs arbitrary: v j k)
  case (Cons f fs)
  let ?v = "up v (unat (alignment f)) + unat (fsize f)"
  obtain k' where k: "k = Suc k'" using Cons.prems(2) by (cases k) auto
  have "?v \<le> offs ?v fs ! k'" using offs_props[of fs k' ?v] Cons.prems k by simp
  then show ?case using Cons.IH[of _ k' ?v] Cons.prems k by (cases j) simp_all
qed simp

text \<open>A power of two divides every larger one.\<close>

lemma pow2_dvd:
  assumes "pow2 a" and "pow2 b" and "a \<le> b"
  shows "unat a dvd unat b"
proof -
  obtain k where k: "unat a = 2 ^ k" using assms(1) word_and_pred_zero[of a] unfolding pow2_def by blast
  obtain l where l: "unat b = 2 ^ l" using assms(2) word_and_pred_zero[of b] unfolding pow2_def by blast
  have "(2 :: nat) ^ k \<le> 2 ^ l" using assms(3) unfolding word_le_nat_alt k l .
  then have "k \<le> l" by (rule power_le_imp_le_exp[rotated]) simp
  then show ?thesis unfolding k l by (rule le_imp_power_dvd)
qed

text \<open>With alignments descending and sizes multiples of them, no byte is lost between fields.\<close>

lemma ends_packed:
  assumes "\<forall>f \<in> set fs. pow2 (alignment f) \<and> unat (alignment f) dvd unat (fsize f) \<and> unat (alignment f) dvd v"
    and "sorted_wrt (\<lambda>f g. alignment g \<le> alignment f) fs"
  shows "ends v fs = v + total_size fs"
  using assms
proof (induction fs arbitrary: v)
  case (Cons f fs)
  then have "up v (unat (alignment f)) = v" using up_dvd pow2_pos by simp
  moreover have "unat (alignment g) dvd v + unat (fsize f)" if "g \<in> set fs" for g
    using Cons.prems that pow2_dvd[of "alignment g" "alignment f"] by (meson dvd_add dvd_trans list.set_intros sorted_wrt.simps(2))
  ultimately show ?case using Cons.IH[of "v + unat (fsize f)"] Cons.prems by simp
qed simp

lemma sum_list_mset: "mset xs = mset ys \<Longrightarrow> sum_list (map g xs) = sum_list (map g ys)" for g :: "'a \<Rightarrow> nat"
  using arg_cong[of "mset xs" "mset ys" "\<lambda>m. sum_mset (image_mset g m)"] unfolding mset_map[symmetric] sum_mset_sum_list by blast

lemma total_size_mset: "mset fs = mset gs \<Longrightarrow> total_size fs = total_size gs"
  unfolding total_size_def by (rule sum_list_mset)

lemma weight_mset: "mset fs = mset gs \<Longrightarrow> weight fs = weight gs"
  unfolding weight_def by (rule sum_list_mset)

lemma well_sized_mset: "mset fs = mset gs \<Longrightarrow> well_sized fs = well_sized gs"
  by (auto simp: well_sized_def weight_mset[of fs gs] dest: mset_eq_setD)

lemma max_align_mset: "mset fs = mset gs \<Longrightarrow> max_align fs = max_align gs"
  by (auto simp: max_align_def dest: mset_eq_setD)

section \<open>One struct\<close>

abbreviation field_cmp :: "bool \<Rightarrow> DLField \<Rightarrow> DLField \<Rightarrow> int" where
  "field_cmp hs \<equiv> (if hs then field_cmp_align_hot else field_cmp_align_only)"

interpretation field_order: comparator "field_cmp hs" original_idx for hs
  by (cases hs) (simp_all add: hot_order.comparator_axioms align_order.comparator_axioms)

lemma field_cmp_desc: "field_cmp hs f g < 0 \<Longrightarrow> alignment g \<le> alignment f"
  by (auto simp: field_cmp_align_hot_def field_cmp_align_only_def split: if_splits)

abbreviation strip :: "DLField \<Rightarrow> DLField" where
  "strip f \<equiv> f\<lparr>optimized_off := 0\<rparr>"

lemma optimize_struct_fields:
  "sfields (optimize_struct hs soa s) = fst (compute_offsets (qsort (field_cmp hs) (sfields s)))"
  "optimized_size (optimize_struct hs soa s) = fst (compute_naive_size (qsort (field_cmp hs) (sfields s)))"
  "optimized_align (optimize_struct hs soa s) = snd (compute_naive_size (qsort (field_cmp hs) (sfields s)))"
  "original_size (optimize_struct hs soa s) = fst (compute_naive_size (sfields s))"
  "original_align (optimize_struct hs soa s) = snd (compute_naive_size (sfields s))"
  "padding_saved (optimize_struct hs soa s) = (let o1 = original_size (optimize_struct hs soa s);
     o2 = optimized_size (optimize_struct hs soa s) in if o1 > o2 then o1 - o2 else 0)"
  by (simp_all add: optimize_struct_def Let_def split_beta flip: compute_offsets_naive)

text \<open>What one optimised struct satisfies.\<close>

definition layout_ok :: "DLStructLayout \<Rightarrow> bool" where
  "layout_ok s \<longleftrightarrow>
     (\<forall>j < length (sfields s). let f = sfields s ! j in
        unat (alignment f) dvd unat (optimized_off f)
        \<and> unat (optimized_off f) + unat (fsize f) \<le> unat (optimized_size s)
        \<and> unat (alignment f) dvd unat (optimized_align s))
     \<and> (\<forall>k < length (sfields s). \<forall>j < k.
          unat (optimized_off (sfields s ! j)) + unat (fsize (sfields s ! j)) \<le> unat (optimized_off (sfields s ! k)))
     \<and> unat (optimized_align s) dvd unat (optimized_size s)"

lemma compute_offsets_ok:
  assumes ws: "well_sized gs" and ne: "gs \<noteq> []"
    and fs: "sfields s = fst (compute_offsets gs)" "optimized_size s = fst (compute_naive_size gs)"
      "optimized_align s = snd (compute_naive_size gs)"
  shows "layout_ok s"
proof -
  have p: "\<forall>f \<in> set gs. pow2 (alignment f)" and w: "weight gs < 2 ^ 63" using ws by (auto simp: well_sized_def)
  have pos: "\<forall>f \<in> set gs. 0 < unat (alignment f)" using p pow2_pos by blast
  note sz = naive_size_nat[OF ws ne]
  let ?fs = "fst (offsets_loop gs 0 1)"
  have fs0: "sfields s = ?fs" using fs(1) by (simp add: compute_offsets_def split_beta)
  have st: "map strip ?fs = map strip gs" by (rule offsets_loop_fields)
  then have len: "length ?fs = length gs" by (metis length_map)
  have same: "alignment (?fs ! j) = alignment (gs ! j)" "fsize (?fs ! j) = fsize (gs ! j)" if "j < length gs" for j
    using arg_cong[OF st, of "\<lambda>l. alignment (l ! j)"] arg_cong[OF st, of "\<lambda>l. fsize (l ! j)"] that len by simp_all
  have "map (unat \<circ> optimized_off) ?fs = offs 0 gs" using offsets_loop_nat[OF p, of 0 1] w by simp
  then have off: "unat (optimized_off (?fs ! j)) = offs 0 gs ! j" if "j < length gs" for j
    using that len by (metis comp_apply nth_map)
  have mx: "0 < max_align gs" "unat (alignment f) \<le> max_align gs" if "f \<in> set gs" for f
    using that pos by (auto simp: max_align_def Max_gr_iff)
  have ad: "unat (alignment (gs ! j)) dvd max_align gs" if "j < length gs" for j
    using pow2_dvd[of "alignment (gs ! j)" "snd (compute_naive_size gs)"] p sz(2,3) mx(2)[of "gs ! j"] that
    by (simp add: word_le_nat_alt)
  have up: "ends 0 gs \<le> up (ends 0 gs) (max_align gs)" "max_align gs dvd up (ends 0 gs) (max_align gs)"
    using up_props(1,3) mx(1)[OF hd_in_set[OF ne]] by blast+
  show ?thesis
    unfolding layout_ok_def fs0 fs(2,3) len Let_def sz(1,2)
  proof (intro conjI allI impI up(2))
    fix j assume j: "j < length gs"
    show "unat (alignment (?fs ! j)) dvd unat (optimized_off (?fs ! j))"
      "unat (optimized_off (?fs ! j)) + unat (fsize (?fs ! j)) \<le> up (ends 0 gs) (max_align gs)"
      "unat (alignment (?fs ! j)) dvd max_align gs"
      using offs_props[OF pos j, of 0] up(1) ad[OF j] unfolding off[OF j] same[OF j] by auto
  next
    fix k j assume "k < length gs" "j < k"
    then show "unat (optimized_off (?fs ! j)) + unat (fsize (?fs ! j)) \<le> unat (optimized_off (?fs ! k))"
      using offs_apart[OF pos, of j k 0] by (simp add: off same)
  qed
qed

text \<open>The loop over the structs treats each on its own.\<close>

lemma optimize_loop_map:
  "fst (optimize_loop hs soa ss tot) = map (\<lambda>s. if sfields s = [] then s else optimize_struct hs soa s) ss"
  by (induction hs soa ss tot rule: optimize_loop.induct) (simp_all add: Let_def split_beta)

lemma optimize_all_structs:
  "structs (dl_optimize_all ctx) =
     map (\<lambda>s. if sfields s = [] then s else optimize_struct (enable_hot_cold_split ctx) (enable_soa_hints ctx) s) (structs ctx)"
  using optimize_loop_map by (simp add: dl_optimize_all_def split_beta)

section \<open>Reachable contexts\<close>

inductive dl_reach :: "DLContext \<Rightarrow> bool" where
  dl_init: "dl_reach dl_context_init"
| dl_register: "dl_reach ctx \<Longrightarrow> dl_reach (snd (dl_register_struct ctx name))"
| dl_field: "dl_reach ctx \<Longrightarrow> dl_reach (snd (dl_add_field ctx i name sz al ptr))"
| dl_access: "dl_reach ctx \<Longrightarrow> dl_reach (dl_set_access_count ctx i k c)"
| dl_flags: "dl_reach ctx \<Longrightarrow> dl_reach (ctx\<lparr>enable_hot_cold_split := hs, enable_soa_hints := soa\<rparr>)"
| dl_optimize: "dl_reach ctx \<Longrightarrow> dl_reach (dl_optimize_all ctx)"

definition struct_inv :: "DLStructLayout \<Rightarrow> bool" where
  "struct_inv s \<longleftrightarrow> length (sfields s) \<le> DL_MAX_FIELDS \<and> 0 \<notin> alignment ` set (sfields s)
     \<and> mset (map original_idx (sfields s)) = mset (map of_nat [0..<length (sfields s)])"

definition dl_inv :: "DLContext \<Rightarrow> bool" where
  "dl_inv ctx \<longleftrightarrow> length (structs ctx) \<le> DL_MAX_STRUCTS \<and> (\<forall>s \<in> set (structs ctx). struct_inv s)"

lemma strip_proj:
  assumes "map strip fs = map strip gs"
  shows "map original_idx fs = map original_idx gs" and "map alignment fs = map alignment gs"
    and "map fsize fs = map fsize gs" and "map is_hot fs = map is_hot gs" and "length fs = length gs"
proof -
  have "map (g \<circ> strip) fs = map (g \<circ> strip) gs" for g :: "DLField \<Rightarrow> 'b"
    using arg_cong[OF assms, of "map g"] by simp
  from this[of original_idx] this[of alignment] this[of fsize] this[of is_hot]
  show "map original_idx fs = map original_idx gs" "map alignment fs = map alignment gs"
    "map fsize fs = map fsize gs" "map is_hot fs = map is_hot gs" by (simp_all add: comp_def)
  show "length fs = length gs" using assms by (metis length_map)
qed

lemma optimized_strip:
  "map strip (sfields (optimize_struct hs soa s)) = map strip (qsort (field_cmp hs) (sfields s))"
  using offsets_loop_fields[of _ 0 1] by (simp add: optimize_struct_fields compute_offsets_def split_beta)

lemma optimize_struct_inv:
  assumes "struct_inv s"
  shows "struct_inv (optimize_struct hs soa s)"
proof -
  let ?q = "qsort (field_cmp hs) (sfields s)" and ?o = "sfields (optimize_struct hs soa s)"
  note pr = strip_proj[OF optimized_strip[of hs soa s]]
  have m: "mset ?q = mset (sfields s)" by (rule field_order.mset_qsort)
  then have l: "length ?q = length (sfields s)" by (rule mset_eq_length)
  have "mset (map original_idx ?o) = mset (map original_idx (sfields s))" unfolding pr(1) using m by simp
  moreover have "alignment ` set ?o = alignment ` set (sfields s)"
    using arg_cong[OF pr(2), of set] mset_eq_setD[OF m] by simp
  ultimately show ?thesis using assms pr(5) l unfolding struct_inv_def by (simp only: simp_thms)
qed

lemma append_struct_inv:
  assumes "struct_inv s" and "length (sfields s) < DL_MAX_FIELDS" and "alignment f \<noteq> 0"
    and "original_idx f = of_nat (length (sfields s))"
  shows "struct_inv (s\<lparr>sfields := sfields s @ [f]\<rparr>)"
  using assms by (auto simp: struct_inv_def simp del: mset_upt)

lemma update_struct_inv:
  assumes "struct_inv s" and "k < length (sfields s)" and "alignment f = alignment (sfields s ! k)"
    and "original_idx f = original_idx (sfields s ! k)"
  shows "struct_inv (s\<lparr>sfields := (sfields s)[k := f]\<rparr>)"
proof -
  have "map alignment ((sfields s)[k := f]) = map alignment (sfields s)"
    "map original_idx ((sfields s)[k := f]) = map original_idx (sfields s)"
    using assms by (simp_all add: map_update list_update_same_conv)
  note al = this
  have "alignment ` set ((sfields s)[k := f]) = alignment ` set (sfields s)" using arg_cong[OF al(1), of set] by simp
  then show ?thesis using assms(1) al(2) unfolding struct_inv_def by simp
qed

lemma update_dl_inv: "dl_inv ctx \<Longrightarrow> struct_inv s \<Longrightarrow> dl_inv (ctx\<lparr>structs := (structs ctx)[i := s]\<rparr>)"
  by (auto simp: dl_inv_def dest!: subsetD[OF set_update_subset_insert])

lemma dl_reach_inv: "dl_reach ctx \<Longrightarrow> dl_inv ctx"
proof (induction rule: dl_reach.induct)
  case (dl_register ctx name)
  then show ?case by (auto simp: dl_register_struct_def dl_inv_def struct_inv_def)
next
  case (dl_field ctx i name sz al ptr)
  then have "struct_inv (structs ctx ! nat i)" if "valid_idx ctx i" using that by (simp add: dl_inv_def valid_idx_def)
  then show ?case using dl_field
    by (simp add: dl_add_field_def Let_def update_dl_inv append_struct_inv)
next
  case (dl_access ctx i k c)
  then have "struct_inv (structs ctx ! nat i)" if "valid_idx ctx i" using that by (simp add: dl_inv_def valid_idx_def)
  then show ?case using dl_access
    by (simp add: dl_set_access_count_def Let_def update_dl_inv update_struct_inv)
next
  case (dl_optimize ctx)
  then show ?case by (auto simp: dl_inv_def optimize_all_structs intro: optimize_struct_inv)
qed (simp_all add: dl_inv_def dl_context_init_def)

lemma struct_inv_distinct:
  assumes "struct_inv s"
  shows "distinct (map original_idx (sfields s))"
proof -
  have n: "length (sfields s) \<le> 128" using assms by (simp add: struct_inv_def DL_MAX_FIELDS_def)
  have "inj_on (of_nat :: nat \<Rightarrow> u64) {..<2 ^ 64}" 
    by (rule inj_onI) (simp add: word_unat_eq_iff unat_of_nat)
  moreover have "set [0..<length (sfields s)] \<subseteq> {..<2 ^ 64}" using n by auto
  ultimately have "distinct (map (of_nat :: nat \<Rightarrow> u64) [0..<length (sfields s)])"
    by (simp add: distinct_map inj_on_subset)
  then show ?thesis using assms unfolding struct_inv_def by (metis mset_eq_imp_distinct_iff)
qed

lemma reach_struct:
  assumes "dl_reach ctx" and "i < length (structs ctx)"
  shows "distinct (map original_idx (sfields (structs ctx ! i)))"
  using struct_inv_distinct dl_reach_inv[OF assms(1)] assms(2) by (simp add: dl_inv_def)

lemma sorted_strip:
  assumes "map strip fs = map strip gs" and "sorted_wrt (\<lambda>f g. field_cmp hs f g < 0) gs"
  shows "sorted_wrt (\<lambda>f g. field_cmp hs f g < 0) fs"
proof -
  have "field_cmp hs (strip f) (strip g) = field_cmp hs f g" for f g
    by (simp add: field_cmp_align_hot_def field_cmp_align_only_def)
  then have "sorted_wrt (\<lambda>f g. field_cmp hs f g < 0) l = sorted_wrt (\<lambda>f g. field_cmp hs f g < 0) (map strip l)" for l
    by (simp add: sorted_wrt_map)
  then show ?thesis using assms by metis
qed

text \<open>A context with one struct of the given sizes and alignments.\<close>

definition add_fields :: "(u64 \<times> u64) list \<Rightarrow> DLContext" where
  "add_fields l = foldl (\<lambda>c (sz, al). snd (dl_add_field c 0 None sz al False)) (snd (dl_register_struct dl_context_init None)) l"

definition new_field :: "u64 \<Rightarrow> u64 \<Rightarrow> u64 \<Rightarrow> DLField" where
  "new_field idx sz al = \<lparr>fld_name = None, fsize = sz, alignment = al, original_idx = idx, optimized_off = 0,
     access_count = 0, is_pointer = False, is_hot = False\<rparr>"

lemma new_field_sel [simp]: "fsize (new_field i sz al) = sz" "alignment (new_field i sz al) = al"
  by (simp_all add: new_field_def)

lemma example_fields:
  "sfields (structs (add_fields [(1, 1), (8, 8), (4, 4)]) ! 0) = [new_field 0 1 1, new_field 1 8 8, new_field 2 4 4]"
  "length (structs (add_fields [(1, 1), (8, 8), (4, 4)])) = 1"
  "well_sized [new_field 0 1 1, new_field 1 8 8, new_field 2 4 4]"
  by (code_simp, code_simp) (simp add: well_sized_def pow2_def new_field_def)

lemma reach_add_fields: "dl_reach (add_fields l)"
proof -
  have "dl_reach c \<Longrightarrow> dl_reach (foldl (\<lambda>c (sz, al). snd (dl_add_field c 0 None sz al False)) c l)" for c
    by (induction l arbitrary: c) (auto simp: split_beta intro: dl_reach.intros)
  then show ?thesis by (simp add: add_fields_def dl_reach.intros)
qed

text \<open>
  C25: After the optimiser has run on any context built with the interface, every non-empty struct whose
  alignments are powers of two and whose size stays below 2^63 keeps exactly its fields; each is
  aligned and inside the struct, no two overlap, the size is a multiple of the struct's alignment,
  which every field's alignment divides; and the order is by descending alignment, hot fields first
  within an alignment when the split is on, then source order.
\<close>

theorem dl_layout_sound:
  assumes "dl_reach ctx" and "i < length (structs ctx)" and "sfields (structs ctx ! i) \<noteq> []"
    and "well_sized (sfields (structs ctx ! i))"
  shows "layout_ok (structs (dl_optimize_all ctx) ! i)
    \<and> mset (map strip (sfields (structs (dl_optimize_all ctx) ! i))) = mset (map strip (sfields (structs ctx ! i)))
    \<and> sorted_wrt (\<lambda>f g. field_cmp (enable_hot_cold_split ctx) f g < 0) (sfields (structs (dl_optimize_all ctx) ! i))"
proof -
  let ?s = "structs ctx ! i" and ?hs = "enable_hot_cold_split ctx"
  let ?q = "qsort (field_cmp ?hs) (sfields ?s)"
  have o: "structs (dl_optimize_all ctx) ! i = optimize_struct ?hs (enable_soa_hints ctx) ?s"
    using assms(2,3) by (simp add: optimize_all_structs)
  have m: "mset ?q = mset (sfields ?s)" by (rule field_order.mset_qsort)
  then have ws: "well_sized ?q" "?q \<noteq> []" using assms(3,4) well_sized_mset[OF m] by auto
  have "layout_ok (optimize_struct ?hs (enable_soa_hints ctx) ?s)"
    by (rule compute_offsets_ok[OF ws]) (simp_all add: optimize_struct_fields)
  moreover note optimized_strip[of ?hs "enable_soa_hints ctx" ?s]
  moreover have "mset (map strip ?q) = mset (map strip (sfields ?s))" using m by simp
  moreover have "sorted_wrt (\<lambda>f g. field_cmp ?hs f g < 0) ?q"
    by (rule field_order.qsort_sorted[OF reach_struct[OF assms(1,2)]])
  ultimately show ?thesis unfolding o using sorted_strip by metis
qed

theorem dl_layout_sound_witness:
  "map (optimized_off) (sfields (structs (dl_optimize_all (add_fields [(1, 1), (8, 8), (4, 4)])) ! 0)) = [0, 8, 12]
    \<and> layout_ok (structs (dl_optimize_all (add_fields [(1, 1), (8, 8), (4, 4)])) ! 0)"
proof
  show "map (optimized_off) (sfields (structs (dl_optimize_all (add_fields [(1, 1), (8, 8), (4, 4)])) ! 0)) = [0, 8, 12]"
    by code_simp
  show "layout_ok (structs (dl_optimize_all (add_fields [(1, 1), (8, 8), (4, 4)])) ! 0)"
    by (rule dl_layout_sound[THEN conjunct1, OF reach_add_fields]) (simp_all add: example_fields)
qed

text \<open>
  C26: The optimised layout is minimal: when every size is a multiple of its power-of-two alignment, no
  order of the same fields gives a smaller struct, and the padding reported as saved is the exact
  difference to the declared order.
\<close>

theorem dl_layout_minimal:
  assumes "dl_reach ctx" and "i < length (structs ctx)" and "sfields (structs ctx ! i) \<noteq> []"
    and ws: "well_sized (sfields (structs ctx ! i))"
    and mult: "\<forall>f \<in> set (sfields (structs ctx ! i)). unat (alignment f) dvd unat (fsize f)"
  shows "(\<forall>gs. mset gs = mset (sfields (structs ctx ! i)) \<longrightarrow>
      optimized_size (structs (dl_optimize_all ctx) ! i) \<le> fst (compute_naive_size gs))
    \<and> unat (padding_saved (structs (dl_optimize_all ctx) ! i)) + unat (optimized_size (structs (dl_optimize_all ctx) ! i))
      = unat (fst (compute_naive_size (sfields (structs ctx ! i))))"
proof -
  let ?s = "structs ctx ! i" and ?hs = "enable_hot_cold_split ctx"
  let ?q = "qsort (field_cmp ?hs) (sfields ?s)"
  let ?o = "optimize_struct ?hs (enable_soa_hints ctx) ?s"
  have o: "structs (dl_optimize_all ctx) ! i = ?o"
    using assms(2,3) by (simp add: optimize_all_structs)
  have m: "mset ?q = mset (sfields ?s)" by (rule field_order.mset_qsort)
  then have wq: "well_sized ?q" "?q \<noteq> []" using assms(3) ws well_sized_mset[OF m] by auto
  have srt: "sorted_wrt (\<lambda>f g. alignment g \<le> alignment f) ?q"
    by (rule sorted_wrt_mono_rel[OF _ field_order.qsort_sorted[OF reach_struct[OF assms(1,2)]]]) (rule field_cmp_desc)
  have "ends 0 ?q = 0 + total_size ?q"
    by (rule ends_packed[OF _ srt]) (use wq(1) mult mset_eq_setD[OF m] in \<open>auto simp: well_sized_def\<close>)
  then have sz: "unat (optimized_size ?o) = up (total_size (sfields ?s)) (max_align (sfields ?s))"
    unfolding optimize_struct_fields naive_size_nat[OF wq] by (simp add: total_size_mset[OF m] max_align_mset[OF m])
  have le: "optimized_size (structs (dl_optimize_all ctx) ! i) \<le> fst (compute_naive_size gs)"
    if g: "mset gs = mset (sfields ?s)" for gs
  proof -
    have wg: "well_sized gs" "gs \<noteq> []" using g assms(3) ws well_sized_mset[OF g] by auto
    have "total_size gs \<le> ends 0 gs" using ends_bounds[of gs 0] wg(1) pow2_pos by (simp add: well_sized_def)
    then show ?thesis
      unfolding o word_le_nat_alt sz naive_size_nat[OF wg] total_size_mset[OF g, symmetric] max_align_mset[OF g]
      by (rule up_mono)
  qed
  from le[OF refl] have "unat (padding_saved (structs (dl_optimize_all ctx) ! i)) + unat (optimized_size (structs (dl_optimize_all ctx) ! i))
      = unat (fst (compute_naive_size (sfields ?s)))"
    unfolding o optimize_struct_fields(6)[of ?hs "enable_soa_hints ctx" ?s] optimize_struct_fields(4)
    by (auto simp: Let_def unat_sub word_le_nat_alt word_less_nat_alt)
  with le show ?thesis by blast
qed

theorem dl_layout_minimal_witness:
  "unat (padding_saved (structs (dl_optimize_all (add_fields [(1, 1), (8, 8), (4, 4)])) ! 0))
    + unat (optimized_size (structs (dl_optimize_all (add_fields [(1, 1), (8, 8), (4, 4)])) ! 0))
    = unat (fst (compute_naive_size (sfields (structs (add_fields [(1, 1), (8, 8), (4, 4)]) ! 0))))"
  by (rule dl_layout_minimal[THEN conjunct2, OF reach_add_fields]) (simp_all add: example_fields)

section \<open>Running the optimiser twice\<close>

lemma naive_loop_cong: "map strip fs = map strip gs \<Longrightarrow> naive_loop fs off ma = naive_loop gs off ma"
proof (induction fs off ma arbitrary: gs rule: naive_loop.induct)
  case (2 f fs off ma)
  then obtain g gs' where g: "gs = g # gs'" "strip f = strip g" by (cases gs) auto
  have "alignment f = alignment g" "fsize f = fsize g"
    using arg_cong[OF g(2), of alignment] arg_cong[OF g(2), of fsize] by simp_all
  then show ?case using 2 g by simp
qed simp

lemma offsets_loop_cong:
  "map strip fs = map strip gs \<Longrightarrow> fst (offsets_loop fs off ma) = fst (offsets_loop gs off ma)"
proof (induction fs off ma arbitrary: gs rule: naive_loop.induct)
  case (2 f fs off ma)
  then obtain g gs' where g: "gs = g # gs'" "strip f = strip g" by (cases gs) auto
  have "alignment f = alignment g" "fsize f = fsize g"
    using arg_cong[OF g(2), of alignment] arg_cong[OF g(2), of fsize] by simp_all
  moreover have "f\<lparr>optimized_off := v\<rparr> = g\<lparr>optimized_off := v\<rparr>" for v
    using arg_cong[OF g(2), of "\<lambda>h. h\<lparr>optimized_off := v\<rparr>"] by simp
  ultimately show ?case using 2 g by (simp add: Let_def split_beta)
qed simp

lemma optimize_struct_twice:
  fixes hs soa :: bool
  assumes "distinct (map original_idx (sfields s))"
  defines "t \<equiv> optimize_struct hs soa s"
  shows "sfields (optimize_struct hs soa t) = sfields t" and "optimized_size (optimize_struct hs soa t) = optimized_size t"
    and "original_size (optimize_struct hs soa t) = optimized_size t"
proof -
  let ?q = "qsort (field_cmp hs) (sfields s)"
  have st: "map strip (sfields t) = map strip ?q" unfolding t_def by (rule optimized_strip)
  have srt: "sorted_wrt (\<lambda>f g. field_cmp hs f g < 0) (sfields t)"
    by (rule sorted_strip[OF st field_order.qsort_sorted[OF assms(1)]])
  have "mset (map original_idx (sfields t)) = mset (map original_idx (sfields s))"
    unfolding strip_proj(1)[OF st] by (simp add: field_order.mset_qsort)
  then have "distinct (map original_idx (sfields t))" using assms(1) by (metis mset_eq_imp_distinct_iff)
  then have q: "qsort (field_cmp hs) (sfields t) = sfields t" using field_order.qsort_unique[OF _ srt refl] by metis
  show "sfields (optimize_struct hs soa t) = sfields t"
    using offsets_loop_cong[OF st, of 0 1] unfolding optimize_struct_fields(1)[of hs soa t] q
    by (simp add: t_def optimize_struct_fields compute_offsets_def split_beta)
  show "optimized_size (optimize_struct hs soa t) = optimized_size t"
    and "original_size (optimize_struct hs soa t) = optimized_size t"
    using naive_loop_cong[OF st, of 0 1] unfolding optimize_struct_fields(2,4)[of hs soa t] q
    by (simp_all add: t_def optimize_struct_fields compute_naive_size_def)
qed

lemma optimize_loop_total:
  assumes "\<forall>s \<in> set ss. sfields s \<noteq> [] \<longrightarrow> original_size (optimize_struct hs soa s) \<le> optimized_size (optimize_struct hs soa s)"
  shows "snd (optimize_loop hs soa ss tot) = tot"
  using assms by (induction hs soa ss tot rule: optimize_loop.induct) (auto simp: Let_def split_beta)

text \<open>
  A second run is stable on the layout and forgets the report: fields, order, offsets and size of
  every struct stay as the first run left them, but the original size becomes the optimised one and
  the total of saved padding is reset to zero.
\<close>

theorem dl_optimize_twice:
  assumes "dl_reach ctx"
  shows "map sfields (structs (dl_optimize_all (dl_optimize_all ctx))) = map sfields (structs (dl_optimize_all ctx))
    \<and> map optimized_size (structs (dl_optimize_all (dl_optimize_all ctx))) = map optimized_size (structs (dl_optimize_all ctx))
    \<and> (\<forall>s \<in> set (structs (dl_optimize_all (dl_optimize_all ctx))). sfields s \<noteq> [] \<longrightarrow> original_size s = optimized_size s)
    \<and> total_padding_saved (dl_optimize_all (dl_optimize_all ctx)) = 0"
proof -
  let ?o = "optimize_struct (enable_hot_cold_split ctx) (enable_soa_hints ctx)"
  define g where "g = (\<lambda>s. if sfields s = [] then s else ?o s)"
  have fl: "enable_hot_cold_split (dl_optimize_all ctx) = enable_hot_cold_split ctx"
    "enable_soa_hints (dl_optimize_all ctx) = enable_soa_hints ctx" by (simp_all add: dl_optimize_all_def split_beta)
  have s1: "structs (dl_optimize_all ctx) = map g (structs ctx)" by (simp add: optimize_all_structs g_def)
  have s2: "structs (dl_optimize_all (dl_optimize_all ctx)) = map (g \<circ> g) (structs ctx)"
    by (simp add: optimize_all_structs fl g_def comp_def)
  have ne: "sfields (?o s) \<noteq> []" if "sfields s \<noteq> []" for s
    using strip_proj(5)[OF optimized_strip, of "enable_hot_cold_split ctx" "enable_soa_hints ctx" s]
      mset_eq_length[OF field_order.mset_qsort[of "enable_hot_cold_split ctx" "sfields s"]] that by auto
  have tw: "sfields (g (g s)) = sfields (g s) \<and> optimized_size (g (g s)) = optimized_size (g s)
      \<and> (sfields (g (g s)) \<noteq> [] \<longrightarrow> original_size (g (g s)) = optimized_size (g (g s)))" if "s \<in> set (structs ctx)" for s
  proof -
    have "distinct (map original_idx (sfields s))"
      using that reach_struct[OF assms] by (auto simp: in_set_conv_nth)
    from optimize_struct_twice[OF this, of "enable_hot_cold_split ctx" "enable_soa_hints ctx"] ne[of s] show ?thesis
      by (cases "sfields s = []") (simp_all add: g_def)
  qed
  have "snd (optimize_loop (enable_hot_cold_split ctx) (enable_soa_hints ctx) (map g (structs ctx)) 0) = 0"
  proof (rule optimize_loop_total, intro ballI impI)
    fix t assume "t \<in> set (map g (structs ctx))" and tn: "sfields t \<noteq> []"
    then obtain s where s: "s \<in> set (structs ctx)" "t = g s" by auto
    then show "original_size (?o t) \<le> optimized_size (?o t)" using tw[OF s(1)] tn by (simp add: g_def split: if_splits)
  qed
  then have "total_padding_saved (dl_optimize_all (dl_optimize_all ctx)) = 0"
    unfolding dl_optimize_all_def[of "dl_optimize_all ctx"] fl s1 by (simp add: split_beta)
  then show ?thesis using tw unfolding s1 s2 by simp
qed

theorem dl_optimize_twice_witness:
  "total_padding_saved (dl_optimize_all (add_fields [(1, 1), (8, 8), (4, 4)])) = 8
    \<and> total_padding_saved (dl_optimize_all (dl_optimize_all (add_fields [(1, 1), (8, 8), (4, 4)]))) = 0"
proof
  show "total_padding_saved (dl_optimize_all (add_fields [(1, 1), (8, 8), (4, 4)])) = 8" by code_simp
  show "total_padding_saved (dl_optimize_all (dl_optimize_all (add_fields [(1, 1), (8, 8), (4, 4)]))) = 0"
    using dl_optimize_twice[OF reach_add_fields] by blast
qed

text \<open>
  Reordering can cost memory: for fields whose alignment exceeds their size, here sizes 1, 1 and 8
  with alignments 8, 1 and 8, the struct grows from 16 to 24 bytes and the report shows no loss.
\<close>

theorem dl_overaligned_grows:
  "map (\<lambda>s. (original_size s, optimized_size s, padding_saved s, map optimized_off (sfields s)))
     (structs (dl_optimize_all (add_fields [(1, 8), (1, 1), (8, 8)]))) = [(16, 24, 0, [0, 8, 16])]"
  by code_simp

end
