(* ===== verification/Ws_Framing.thy ===== *)
theory Ws_Framing
  imports Casprix_Prelude
begin

unbundle bit_operations_syntax

text \<open>
  The WebSocket frame codec of \<^verbatim>\<open>runtime/net/websocket_framing.c\<close>.  Buffers are byte lists and all
  pointers are non-null; a decoded payload, which the code leaves as a pointer into the input, is the
  tail of the input from there on.  Lengths are 64-bit words, with the wrap-around of the code's sums.
\<close>

section \<open>Frames\<close>

record CpxWSFrame =
  fin :: bool
  opcode :: u32
  masked :: bool
  payload_len :: u64
  mask_key :: "u8 list"
  payload :: "u8 list"

definition zero_frame :: CpxWSFrame where
  "zero_frame = \<lparr>fin = False, opcode = 0, masked = False, payload_len = 0, mask_key = [0, 0, 0, 0], payload = []\<rparr>"

definition write_u16_be :: "16 word \<Rightarrow> u8 list" where
  "write_u16_be v = [ucast (drop_bit 8 v), ucast (v AND 0xFF)]"

definition write_u64_be :: "u64 \<Rightarrow> u8 list" where
  "write_u64_be v = map (\<lambda>i. ucast (drop_bit (i * 8) v AND 0xFF)) (rev [0..<8])"

definition mask_bytes :: "u8 list \<Rightarrow> u8 list \<Rightarrow> u8 list" where
  "mask_bytes key bs = map (\<lambda>i. bs ! i XOR key ! (i mod 4)) [0..<length bs]"

text \<open>The second header byte and the extended length after it.\<close>

definition length_head :: "bool \<Rightarrow> u64 \<Rightarrow> u8 list" where
  "length_head m plen =
     (let mbit = (if m then 0x80 else 0)
      in if plen \<le> 125 then [mbit OR ucast plen]
         else if plen \<le> 65535 then (mbit OR 126) # write_u16_be (ucast plen)
         else (mbit OR 127) # write_u64_be plen)"

text \<open>The result code and the bytes written to the output buffer.\<close>

definition cpx_ws_encode_frame :: "CpxWSFrame \<Rightarrow> u64 \<Rightarrow> int \<times> u8 list" where
  "cpx_ws_encode_frame fr out_size =
     (let plen = payload_len fr;
          hlen0 = (if plen \<le> 125 then 2 else if plen \<le> 65535 then 4 else 10);
          hlen = (if masked fr then hlen0 + 4 else hlen0);
          need = hlen + plen
      in if need > out_size then (- 2, [])
         else let b0 = ucast ((if fin fr then 0x80 else 0) OR (opcode fr AND 0x0F));
                  head = length_head (masked fr) plen;
                  body = (if masked fr then take 4 (mask_key fr) @ mask_bytes (mask_key fr) (take (unat plen) (payload fr))
                          else take (unat plen) (payload fr))
              in (0, b0 # head @ body))"

text \<open>
  The extended length, if any: \<open>None\<close> when the input is too short, else the length and the position
  after it.
\<close>

definition read_length :: "u8 list \<Rightarrow> (u64 \<times> u64) option" where
  "read_length bs =
     (let len = ucast (bs ! 1 AND 0x7F) :: u64
      in if len = 126
         then if length bs < 4 then None
              else Some (push_bit 8 (ucast (bs ! 2)) OR ucast (bs ! 3), 4)
         else if len = 127
         then if length bs < 10 then None
              else Some (foldl (\<lambda>l i. push_bit 8 l OR ucast (bs ! (2 + i))) 0 [0..<8], 10)
         else Some (len, 2))"

definition cpx_ws_decode_frame :: "u8 list \<Rightarrow> int \<times> CpxWSFrame \<times> u64 option" where
  "cpx_ws_decode_frame bs =
     (if length bs < 2 then (- 1, zero_frame, None)
      else let f1 = zero_frame\<lparr>fin := (bs ! 0 AND 0x80 \<noteq> 0), opcode := ucast (bs ! 0 AND 0x0F)\<rparr>;
               m = (bs ! 1 AND 0x80 \<noteq> 0)
           in case read_length bs of
                None \<Rightarrow> (- 1, f1, None)
              | Some (len, pos) \<Rightarrow>
                  let f2 = f1\<lparr>masked := m, payload_len := len\<rparr>
                  in if m \<and> of_nat (length bs) < pos + 4 then (- 1, f2, None)
                     else let f3 = (if m then f2\<lparr>mask_key := take 4 (drop (unat pos) bs)\<rparr> else f2);
                              pos1 = (if m then pos + 4 else pos)
                          in if of_nat (length bs) < pos1 + len then (- 1, f3, None)
                             else (0, f3\<lparr>payload := drop (unat pos1) bs\<rparr>, Some (pos1 + len)))"

section \<open>The header bytes\<close>

lemma bit_below:
  assumes "unat (w :: 'a :: len word) < 2 ^ k" and "bit w n"
  shows "n < k"
proof (rule ccontr)
  assume "\<not> n < k"
  have "odd (unat w div 2 ^ n)" using assms(2) by (simp add: bit_unsigned_iff bit_imp_le_length flip: bit_iff_odd)
  then have "2 ^ n \<le> unat w" by (metis div_less even_zero linorder_not_less)
  moreover have "(2 :: nat) ^ k \<le> 2 ^ n" using \<open>\<not> n < k\<close> by simp
  ultimately show False using assms(1) by simp
qed

lemma byte_masks:
  "(0x7F :: 8 word) = mask 7" "(0x0F :: 8 word) = mask 4" "(0x0F :: 32 word) = mask 4" "(0xFF :: 64 word) = mask 8"
  "(0xFF :: 16 word) = mask 8"
  by (simp_all add: mask_eq_exp_minus_1)

text \<open>The simplifier reads the bits of a word numeral off the integer.\<close>

lemma bit_80: "bit (0x80 :: int) n \<longleftrightarrow> n = 7"
proof -
  have "(0x80 :: int) = 2 ^ 7" by simp
  then show ?thesis by (simp only: bit_exp_iff) auto
qed

lemma nonzero_bit: "(w :: 'a :: len word) \<noteq> 0 \<longleftrightarrow> (\<exists>n < LENGTH('a). bit w n)"
  using bit_word_eqI[of w 0] by auto

lemma low7:
  assumes "unat (w :: u8) < 128"
  shows "((if m then 0x80 else 0) OR w) AND 0x7F = w" and "((if m then 0x80 else 0) OR w) AND 0x80 \<noteq> 0 \<longleftrightarrow> m"
proof -
  have w: "n < 7" if "bit w n" for n using bit_below[of w 7 n] assms that by simp
  show "((if m then 0x80 else 0) OR w) AND 0x7F = w"
    unfolding byte_masks by (rule bit_word_eqI) (auto simp: bit_simps bit_80 dest: w)
  show "((if m then 0x80 else 0) OR w) AND 0x80 \<noteq> 0 \<longleftrightarrow> m"
    unfolding byte_masks nonzero_bit by (auto simp: bit_simps bit_80 dest: w intro!: exI[of _ 7])
qed

lemma first_byte:
  fixes f :: bool
  assumes "unat (op :: u32) < 16"
  defines "b \<equiv> (ucast ((if f then 0x80 else 0) OR (op AND 0x0F)) :: u8)"
  shows "(b AND 0x80 \<noteq> 0) = f" and "ucast (b AND 0x0F) = op"
proof -
  have w: "n < 4" if "bit op n" for n using bit_below[of op 4 n] assms(1) that by simp
  show "ucast (b AND 0x0F) = op"
    unfolding b_def byte_masks by (rule bit_word_eqI) (auto simp: bit_simps bit_80 dest: w)
  show "(b AND 0x80 \<noteq> 0) = f"
    unfolding b_def byte_masks nonzero_bit by (auto simp: bit_simps bit_80 dest: w intro!: exI[of _ 7])
qed

lemma u16_round:
  assumes "unat (v :: u64) < 2 ^ 16"
  shows "push_bit 8 (ucast (write_u16_be (ucast v) ! 0)) OR ucast (write_u16_be (ucast v) ! 1) = v" (is "?w = v")
proof (rule bit_word_eqI)
  fix n :: nat assume n: "n < LENGTH(64)"
  have w: "n < 16" if "bit v n" using bit_below[OF assms that] .
  show "bit ?w n = bit v n"
    unfolding write_u16_be_def byte_masks using w n by (cases "8 \<le> n") (auto simp: bit_simps)
qed

lemma write_u64_be_le: "write_u64_be v = rev (le_bytes v)"
proof -
  have "(ucast (drop_bit (i * 8) v AND 0xFF) :: u8) = ucast (drop_bit (8 * i) v)" for i
    unfolding byte_masks by (rule bit_word_eqI) (auto simp: bit_simps mult.commute)
  then show ?thesis unfolding write_u64_be_def le_bytes_def rev_map by simp
qed

lemma u64_round: "foldl (\<lambda>l b. push_bit 8 l OR ucast b) 0 (write_u64_be v) = v"
proof -
  have "foldl (\<lambda>l b. push_bit 8 l OR ucast b) 0 (write_u64_be v) = le_word (le_bytes v)"
    unfolding write_u64_be_le foldl_conv_foldr rev_rev_ident le_word_def by (simp add: or.commute)
  then show ?thesis by simp
qed

lemma le_bytes_8: "length (write_u64_be v) = 8"
  by (simp add: write_u64_be_def)

lemma u64_read: "foldl (\<lambda>l i. push_bit 8 l OR ucast ((b # c # write_u64_be v @ xs) ! (2 + i))) 0 [0..<8] = v"
proof -
  have "map (\<lambda>i. (b # c # write_u64_be v @ xs) ! (2 + i)) [0..<8] = write_u64_be v"
    by (rule nth_equalityI) (simp_all add: le_bytes_8 nth_append)
  then have "foldl (\<lambda>l b. push_bit 8 l OR ucast b) 0 (map (\<lambda>i. (b # c # write_u64_be v @ xs) ! (2 + i)) [0..<8]) = v"
    by (simp only: u64_round)
  then show ?thesis by (simp only: foldl_map)
qed

lemma small_lengths:
  shows "unat (v :: u64) \<le> 125 \<Longrightarrow> unat (ucast v :: u8) < 126" and "ucast (ucast v :: u8) = v \<longleftrightarrow> unat v < 256"
proof -
  show "unat (ucast v :: u8) < 126" if "unat v \<le> 125" using that by (simp add: unsigned_ucast_eq take_bit_eq_mod)
  have "unat (ucast (ucast v :: u8) :: u64) = unat v mod 256"
    by (simp add: unsigned_ucast_eq take_bit_eq_mod unat_mod_distrib)
  moreover have "n mod 256 = n \<longleftrightarrow> n < 256" for n :: nat using mod_less_divisor[of 256 n] by (auto simp del: mod_less_divisor)
  ultimately show "ucast (ucast v :: u8) = v \<longleftrightarrow> unat v < 256" by (simp only: word_unat_eq_iff)
qed

lemma length_head_bit:
  obtains c ext where "length_head m v = c # ext" and "(c AND 0x80 \<noteq> 0) = m"
    and "length ext = (if v \<le> 125 then 0 else if v \<le> 65535 then 2 else 8)"
proof (cases "v \<le> 125")
  case True
  then have "unat v \<le> 125" by (simp add: word_le_nat_alt)
  then show thesis using that[of "(if m then 0x80 else 0) OR ucast v" "[]"] low7(2)[of "ucast v" m] small_lengths(1)[of v] True
    by (simp add: length_head_def Let_def)
next
  case False
  then show thesis
    using that[of "(if m then 0x80 else 0) OR 126" "write_u16_be (ucast v)"] low7(2)[of 126 m]
      that[of "(if m then 0x80 else 0) OR 127" "write_u64_be v"] low7(2)[of 127 m]
    by (cases "v \<le> 65535") (auto simp: length_head_def Let_def le_bytes_8 write_u16_be_def)
qed

lemma read_length_head: "read_length (b # length_head m v @ xs) = Some (v, of_nat (1 + length (length_head m v)))"
proof -
  consider "v \<le> 125" | "\<not> v \<le> 125" "v \<le> 65535" | "\<not> v \<le> 125" "\<not> v \<le> 65535" by blast
  then show ?thesis
  proof cases
    case 1
    then have u: "unat v \<le> 125" by (simp add: word_le_nat_alt)
    then have "ucast (ucast v :: u8) = v" "v \<noteq> 126" "v \<noteq> 127" using small_lengths(2)[of v] by auto
    then show ?thesis using 1 low7(1)[of "ucast v" m] small_lengths(1)[OF u]
      by (simp add: length_head_def read_length_def)
  next
    case 2
    then have "unat v < 2 ^ 16" by (simp add: word_le_nat_alt)
    then show ?thesis using 2 low7(1)[of 126 m] u16_round[of v]
      by (simp add: length_head_def read_length_def write_u16_be_def)
  next
    case 3
    then show ?thesis using low7(1)[of 127 m] u64_read[of b "(if m then 0x80 else 0) OR 127" v xs]
      by (simp add: length_head_def read_length_def le_bytes_8)
  qed
qed

section \<open>Decoding what was encoded\<close>

lemma header_incomplete:
  assumes "k < 1 + length (length_head m v)"
  shows "fst (cpx_ws_decode_frame (take k (b # length_head m v))) = - 1"
proof (cases "k < 2")
  case False
  then have big: "\<not> v \<le> 125" using assms by (auto simp: length_head_def Let_def)
  have "read_length (take k (b # length_head m v)) = None"
  proof (cases "v \<le> 65535")
    case True
    with big False assms low7(1)[of 126 m] show ?thesis
      by (auto simp: read_length_def length_head_def write_u16_be_def nth_Cons' take_Cons')
  next
    case F: False
    with big False assms low7(1)[of 127 m] show ?thesis
      by (auto simp: read_length_def length_head_def le_bytes_8 nth_Cons' take_Cons')
  qed
  then show ?thesis by (simp add: cpx_ws_decode_frame_def Let_def)
qed (simp add: cpx_ws_decode_frame_def)

lemma u64_add: "unat (p :: u64) + unat q < 2 ^ 64 \<Longrightarrow> unat (p + q) = unat p + unat q"
  by (simp add: unat_word_ariths)

lemma u64_past:
  assumes "a < 2 ^ 64" and "unat (p :: u64) + unat q < 2 ^ 64"
  shows "of_nat a < p + q \<longleftrightarrow> a < unat p + unat q"
  unfolding word_less_nat_alt u64_add[OF assms(2)] using assms(1) by (simp add: unat_of_nat)

lemma length_head_le: "length (length_head m v) \<le> 9"
  by (rule length_head_bit[of m v]) (simp split: if_splits)

text \<open>The decoder on a frame header, with its sums read as natural numbers while they do not wrap.\<close>

lemma decode_header:
  assumes "length bs < 2 ^ 64" and "h + unat v < 2 ^ 64" and "bs = b # length_head m v @ xs"
    and h: "h = 1 + length (length_head m v) + (if m then 4 else 0)"
  shows "length bs < h + unat v \<Longrightarrow> fst (cpx_ws_decode_frame bs) = - 1"
    and "h + unat v \<le> length bs \<Longrightarrow> cpx_ws_decode_frame bs =
      (0, \<lparr>fin = (b AND 0x80 \<noteq> 0), opcode = ucast (b AND 0x0F), masked = m, payload_len = v,
           mask_key = (if m then take 4 xs else [0, 0, 0, 0]), payload = drop h bs\<rparr>, Some (of_nat (h + unat v)))"
proof -
  let ?k = "1 + length (length_head m v)"
  have k: "?k \<le> 10" using length_head_le[of m v] by simp
  define p where "p = (of_nat ?k :: u64)"
  define q where "q = (if m then p + 4 else p)"
  have up: "unat p = ?k" unfolding p_def unat_of_nat using k by (subst mod_less) simp_all
  then have uq: "unat q = h" using k h u64_add[of p 4] by (simp add: q_def)
  obtain c ext where ce: "length_head m v = c # ext" and cm: "(c AND 0x80 \<noteq> 0) = m" by (rule length_head_bit)
  have r: "read_length bs = Some (v, p)" using read_length_head[of b m v xs] assms(3) by (simp add: p_def)
  have two: "\<not> length bs < 2" "bs ! 0 = b" "bs ! 1 = c" using assms(3) ce by auto
  have l4: "of_nat (length bs) < p + 4 \<longleftrightarrow> length bs < ?k + 4" using u64_past[of "length bs" p 4] assms(1) k up by simp
  have lq: "of_nat (length bs) < q + v \<longleftrightarrow> length bs < h + unat v"
    using u64_past[of "length bs" q v] assms(1,2) unfolding uq by blast
  have pq: "q + v = of_nat (h + unat v)" by (simp flip: uq)
  have dk: "drop ?k bs = xs" using assms(3) by simp
  have d: "cpx_ws_decode_frame bs =
    (let f2 = \<lparr>fin = (b AND 0x80 \<noteq> 0), opcode = ucast (b AND 0x0F), masked = m, payload_len = v, mask_key = [0, 0, 0, 0],
                payload = []\<rparr>
     in if m \<and> length bs < ?k + 4 then (- 1, f2, None)
        else let f3 = (if m then f2\<lparr>mask_key := take 4 (drop (unat p) bs)\<rparr> else f2)
             in if length bs < h + unat v then (- 1, f3, None)
                else (0, f3\<lparr>payload := drop (unat q) bs\<rparr>, Some (q + v)))"
    unfolding cpx_ws_decode_frame_def r option.case prod.case two cm Let_def q_def[symmetric] l4 lq using two(1)
    by (cases m) (simp_all add: zero_frame_def)
  show "fst (cpx_ws_decode_frame bs) = - 1" if "length bs < h + unat v" using that unfolding d by (simp add: Let_def)
  show "cpx_ws_decode_frame bs =
      (0, \<lparr>fin = (b AND 0x80 \<noteq> 0), opcode = ucast (b AND 0x0F), masked = m, payload_len = v,
           mask_key = (if m then take 4 xs else [0, 0, 0, 0]), payload = drop h bs\<rparr>, Some (of_nat (h + unat v)))"
    if "h + unat v \<le> length bs"
    using that h unfolding d uq up pq dk by (auto simp: Let_def)
qed

lemma mask_bytes_twice: "mask_bytes key (mask_bytes key bs) = bs"
  by (rule nth_equalityI) (simp_all add: mask_bytes_def word_bw_assocs flip: xor.assoc)

text \<open>What the encoder writes when it succeeds.\<close>

lemma encoded:
  assumes "cpx_ws_encode_frame fr out_size = (0, out)" and "length (mask_key fr) = 4"
  obtains b where "b = ucast ((if fin fr then 0x80 else 0) OR (opcode fr AND 0x0F))"
    and "out = b # length_head (masked fr) (payload_len fr) @ (if masked fr then mask_key fr else [])
      @ (let body = take (unat (payload_len fr)) (payload fr) in if masked fr then mask_bytes (mask_key fr) body else body)"
  using assms by (auto simp: cpx_ws_encode_frame_def Let_def split: if_splits)

text \<open>
  C27: The WebSocket codec round-trips: when a frame fits the output buffer, decoding the bytes written,
  whatever follows them, gives back the final flag, the opcode, the mask flag and key and the length,
  consumes exactly those bytes, and the payload at the returned position, unmasked by the reader, is
  the frame's payload.
\<close>

theorem ws_roundtrip:
  assumes enc: "cpx_ws_encode_frame fr out_size = (0, out)"
    and ok: "unat (opcode fr) < 16" "length (mask_key fr) = 4" "unat (payload_len fr) \<le> length (payload fr)"
    and len: "length (out @ rest) < 2 ^ 64"
  shows "\<exists>g. cpx_ws_decode_frame (out @ rest) = (0, g, Some (of_nat (length out)))
    \<and> fin g = fin fr \<and> opcode g = opcode fr \<and> masked g = masked fr \<and> payload_len g = payload_len fr
    \<and> mask_key g = (if masked fr then mask_key fr else [0, 0, 0, 0])
    \<and> (let body = take (unat (payload_len g)) (payload g)
       in (if masked g then mask_bytes (mask_key g) body else body) = take (unat (payload_len fr)) (payload fr))"
proof -
  obtain b where b: "b = ucast ((if fin fr then 0x80 else 0) OR (opcode fr AND 0x0F))"
    and out: "out = b # length_head (masked fr) (payload_len fr) @ (if masked fr then mask_key fr else [])
      @ (let body = take (unat (payload_len fr)) (payload fr) in if masked fr then mask_bytes (mask_key fr) body else body)"
    by (rule encoded[OF enc ok(2)])
  let ?h = "1 + length (length_head (masked fr) (payload_len fr)) + (if masked fr then 4 else 0)"
  let ?body = "take (unat (payload_len fr)) (payload fr)"
  let ?wire = "if masked fr then mask_bytes (mask_key fr) ?body else ?body"
  have lw: "length ?wire = unat (payload_len fr)" using ok(3) by (simp add: mask_bytes_def)
  have lo: "length out = ?h + unat (payload_len fr)" using lw ok(2) unfolding out Let_def by simp
  have bs: "out @ rest = b # length_head (masked fr) (payload_len fr) @ ((if masked fr then mask_key fr else []) @ ?wire @ rest)"
    by (simp add: out Let_def)
  have dr: "drop ?h (out @ rest) = ?wire @ rest" using ok(2) unfolding bs by (cases "masked fr") (simp_all flip: drop_drop add: add.commute[of 5] eval_nat_numeral)
  have hv: "?h + unat (payload_len fr) < 2 ^ 64" using lo len by simp
  from decode_header(2)[OF len hv bs refl] lo
  have "cpx_ws_decode_frame (out @ rest) = (0, \<lparr>fin = (b AND 0x80 \<noteq> 0), opcode = ucast (b AND 0x0F), masked = masked fr,
      payload_len = payload_len fr, mask_key = (if masked fr then mask_key fr else [0, 0, 0, 0]),
      payload = ?wire @ rest\<rparr>, Some (of_nat (length out)))"
    using ok(2) unfolding dr by simp
  then show ?thesis using first_byte[OF ok(1), of "fin fr"] lw by (simp add: b mask_bytes_twice split: if_splits)
qed

theorem ws_roundtrip_witness:
  "\<exists>g. cpx_ws_decode_frame ([0x81, 0x82, 1, 2, 3, 4, 73, 107] @ [7]) = (0, g, Some (of_nat (length [0x81, 0x82, 1, 2, 3, 4, 73, 107 :: u8])))
    \<and> mask_key g = [1, 2, 3, 4] \<and> mask_bytes (mask_key g) (take 2 (payload g)) = [72, 105]"
proof -
  let ?f = "\<lparr>fin = True, opcode = 1, masked = True, payload_len = 2, mask_key = [1, 2, 3, 4], payload = [72, 105]\<rparr>"
  have "cpx_ws_encode_frame ?f 100 = (0, [0x81, 0x82, 1, 2, 3, 4, 73, 107])" by code_simp
  from ws_roundtrip[OF this, of "[7]"] show ?thesis by (auto simp: Let_def)
qed

text \<open>
  Framing is self-delimiting: no proper prefix of an encoded frame is accepted, the decoder answers
  that it needs more input.
\<close>

theorem ws_prefix_incomplete:
  assumes enc: "cpx_ws_encode_frame fr out_size = (0, out)"
    and ok: "length (mask_key fr) = 4" "unat (payload_len fr) \<le> length (payload fr)"
    and len: "length out < 2 ^ 64" and k: "k < length out"
  shows "fst (cpx_ws_decode_frame (take k out)) = - 1"
proof -
  obtain b where out: "out = b # length_head (masked fr) (payload_len fr) @ (if masked fr then mask_key fr else [])
      @ (let body = take (unat (payload_len fr)) (payload fr) in if masked fr then mask_bytes (mask_key fr) body else body)"
    by (rule encoded[OF enc ok(1)])
  let ?hd = "length_head (masked fr) (payload_len fr)"
  let ?h = "1 + length ?hd + (if masked fr then 4 else 0)"
  have lo: "length out = ?h + unat (payload_len fr)"
    using ok unfolding out Let_def by (simp add: mask_bytes_def)
  show ?thesis
  proof (cases "k < 1 + length ?hd")
    case True
    obtain ys where "out = (b # ?hd) @ ys" using out by simp
    then have "take k out = take k (b # ?hd)" using True by (simp only: take_append) simp
    then show ?thesis using header_incomplete[OF True, of b] by simp
  next
    case False
    then obtain xs where "take k out = b # ?hd @ xs" unfolding out by (cases k) auto
    moreover have "length (take k out) < ?h + unat (payload_len fr)" using k lo by simp
    ultimately show ?thesis using decode_header(1)[of "take k out" ?h, OF _ _ _ refl] len k lo by simp
  qed
qed

theorem ws_prefix_incomplete_witness: "fst (cpx_ws_decode_frame (take 7 [0x81, 0x82, 1, 2, 3, 4, 73, 107])) = - 1"
proof -
  let ?f = "\<lparr>fin = True, opcode = 1, masked = True, payload_len = 2, mask_key = [1, 2, 3, 4], payload = [72, 105]\<rparr>"
  have "cpx_ws_encode_frame ?f 100 = (0, [0x81, 0x82, 1, 2, 3, 4, 73, 107])" by code_simp
  from ws_prefix_incomplete[OF this, of 7] show ?thesis by simp
qed

text \<open>
  A 64-bit length close to the top wraps the bound check: the ten header bytes of a frame
  announcing 2^64 - 1 payload bytes are accepted whatever follows, with that length, and nine bytes
  reported as consumed.
\<close>

theorem ws_huge_length_accepted:
  assumes "length rest + 10 < 2 ^ 64"
  shows "cpx_ws_decode_frame ([0x82, 0x7F] @ replicate 8 0xFF @ rest) =
     (0, \<lparr>fin = True, opcode = 2, masked = False, payload_len = - 1, mask_key = [0, 0, 0, 0], payload = rest\<rparr>, Some 9)"
proof -
  have h: "length_head False (- 1) = 0x7F # replicate 8 0xFF" by code_simp
  have r: "read_length (0x82 # 0x7F # replicate 8 0xFF @ rest) = Some (- 1, 10)"
    using read_length_head[of "0x82" False "- 1" rest] unfolding h by simp
  have "\<not> (of_nat (length (0x82 # 0x7F # replicate 8 (0xFF :: u8) @ rest)) :: u64) < 10 + - 1"
    using assms by (simp add: word_less_nat_alt unat_of_nat unat_word_ariths)
  then show ?thesis unfolding cpx_ws_decode_frame_def by (simp add: r zero_frame_def)
qed

theorem ws_huge_length_accepted_witness: "snd (snd (cpx_ws_decode_frame ([0x82, 0x7F] @ replicate 8 0xFF @ [1, 2]))) = Some 9"
  using ws_huge_length_accepted[of "[1, 2]"] by simp

end
