(* ===== verification/Pkg_Version.thy ===== *)
theory Pkg_Version
  imports Fast_Format
begin

text \<open>
  Versions in the package manager: \<^verbatim>\<open>pkg/core/semver.c\<close> and the version part of
  \<^verbatim>\<open>pkg/core/registry.c\<close>.  Version numbers are integers (an overflowing \<^verbatim>\<open>%d\<close> is undefined in C), a
  nullable \<^verbatim>\<open>char*\<close> is an option, strings hold no zero byte.
\<close>

section \<open>The C library\<close>

fun strcmp :: "string \<Rightarrow> string \<Rightarrow> int" where
  "strcmp [] [] = 0"
| "strcmp [] (b # bs) = - of_char b"
| "strcmp (a # as) [] = of_char a"
| "strcmp (a # as) (b # bs) = (if a = b then strcmp as bs else of_char a - of_char b)"

definition isspace :: "char \<Rightarrow> bool" where
  "isspace c \<longleftrightarrow> c \<in> {CHR '' '', CHR 0x09, CHR 0x0A, CHR 0x0B, CHR 0x0C, CHR 0x0D}"

definition isdigit :: "char \<Rightarrow> bool" where
  "isdigit c \<longleftrightarrow> 48 \<le> (of_char c :: nat) \<and> (of_char c :: nat) \<le> 57"

text \<open>\<^verbatim>\<open>%d\<close>: white space, an optional sign, at least one digit.\<close>

definition scan_d :: "string \<Rightarrow> (int \<times> string) option" where
  "scan_d s =
     (let s1 = dropWhile isspace s;
          (sg, s2) = (case s1 of c # cs \<Rightarrow> if c = CHR ''-'' then (- 1, cs) else if c = CHR ''+'' then (1, cs) else (1, s1) | [] \<Rightarrow> (1, s1));
          ds = takeWhile isdigit s2
      in if ds = [] then None else Some (sg * int (dec_value ds), dropWhile isdigit s2))"

definition scan_dot :: "string \<Rightarrow> string option" where
  "scan_dot s = (case s of c # cs \<Rightarrow> if c = CHR ''.'' then Some cs else None | [] \<Rightarrow> None)"

text \<open>
  \<^verbatim>\<open>sscanf(s, "%d.%d.%d", ...)\<close>: the conversions that succeed, in order.
\<close>

fun scan_dots :: "nat \<Rightarrow> string \<Rightarrow> int list" where
  "scan_dots 0 s = []"
| "scan_dots (Suc n) s =
     (case scan_d s of
        None \<Rightarrow> []
      | Some (v, s1) \<Rightarrow> v # (case scan_dot s1 of None \<Rightarrow> [] | Some s2 \<Rightarrow> scan_dots n s2))"

definition strchr :: "string \<Rightarrow> char \<Rightarrow> nat option" where
  "strchr s c = (let n = length (takeWhile (\<lambda>x. x \<noteq> c) s) in if n < length s then Some n else None)"

definition starts_with :: "string \<Rightarrow> string \<Rightarrow> bool" where
  "starts_with p s \<longleftrightarrow> take (length p) s = p"

section \<open>semver.c\<close>

record SemVer =
  major :: int
  minor :: int
  patch :: int
  prerelease :: "string option"
  build :: "string option"

text \<open>
  Parsing returns nothing, a version, or does not return properly: with a \<^verbatim>\<open>+\<close> before the first \<^verbatim>\<open>-\<close>
  the prerelease length is negative, and \<^verbatim>\<open>strncpy\<close> takes it as a huge size.
\<close>

datatype ParseResult = NoVersion | Parsed SemVer | BufferOverrun

definition nth_or :: "int list \<Rightarrow> nat \<Rightarrow> int \<Rightarrow> int" where
  "nth_or xs i d = (if i < length xs then xs ! i else d)"

definition semver_parse :: "string \<Rightarrow> ParseResult" where
  "semver_parse version_str =
     (let s = (case version_str of c # cs \<Rightarrow> if c = CHR ''v'' \<or> c = CHR ''V'' then cs else version_str | [] \<Rightarrow> version_str);
          ns = scan_dots 3 s
      in if ns = [] then NoVersion
         else let dash = strchr s (CHR ''-''); plus = strchr s (CHR ''+'');
                  end = (case plus of Some p \<Rightarrow> p | None \<Rightarrow> length s);
                  bld = map_option (\<lambda>p. drop (p + 1) s) plus
              in case dash of
                   None \<Rightarrow> Parsed \<lparr>major = nth_or ns 0 0, minor = nth_or ns 1 0, patch = nth_or ns 2 0, prerelease = None, build = bld\<rparr>
                 | Some d \<Rightarrow>
                     if end < d + 1 then BufferOverrun
                     else Parsed \<lparr>major = nth_or ns 0 0, minor = nth_or ns 1 0, patch = nth_or ns 2 0,
                            prerelease = Some (take (end - d - 1) (drop (d + 1) s)), build = bld\<rparr>)"

text \<open>\<^verbatim>\<open>snprintf\<close> into a buffer of 256 bytes, three times; what does not fit is cut.\<close>

definition semver_to_string :: "SemVer \<Rightarrow> string" where
  "semver_to_string ver =
     take 255 (int_text (major ver) @ ''.'' @ int_text (minor ver) @ ''.'' @ int_text (patch ver)
       @ (case prerelease ver of None \<Rightarrow> '''' | Some p \<Rightarrow> ''-'' @ p)
       @ (case build ver of None \<Rightarrow> '''' | Some b \<Rightarrow> ''+'' @ b))"

definition semver_compare :: "SemVer option \<Rightarrow> SemVer option \<Rightarrow> int" where
  "semver_compare a b =
     (case (a, b) of
        (Some a, Some b) \<Rightarrow>
          if major a \<noteq> major b then major a - major b
          else if minor a \<noteq> minor b then minor a - minor b
          else if patch a \<noteq> patch b then patch a - patch b
          else (case (prerelease a, prerelease b) of
                  (None, None) \<Rightarrow> 0
                | (None, Some q) \<Rightarrow> 1
                | (Some p, None) \<Rightarrow> - 1
                | (Some p, Some q) \<Rightarrow> strcmp p q)
      | _ \<Rightarrow> 0)"

definition semver_equals :: "SemVer option \<Rightarrow> SemVer option \<Rightarrow> bool" where
  "semver_equals a b \<longleftrightarrow> semver_compare a b = 0"

definition satisfies_caret :: "SemVer \<Rightarrow> SemVer \<Rightarrow> bool" where
  "satisfies_caret ver base =
     (if major ver \<noteq> major base then False
      else if major base > 0 then semver_compare (Some ver) (Some base) \<ge> 0 \<and> major ver = major base
      else if minor base > 0 then semver_compare (Some ver) (Some base) \<ge> 0 \<and> major ver = 0 \<and> minor ver = minor base
      else semver_equals (Some ver) (Some base))"

definition satisfies_tilde :: "SemVer \<Rightarrow> SemVer \<Rightarrow> bool" where
  "satisfies_tilde ver base =
     (if major ver \<noteq> major base then False
      else if minor ver \<noteq> minor base then False
      else semver_compare (Some ver) (Some base) \<ge> 0)"

text \<open>
  The outcome of a constraint: a truth value, or \<open>None\<close> when the code dereferences a null base or
  overruns a buffer.  \<open>with_base\<close> parses the base and hands it on, null or not.
\<close>

definition with_base :: "string \<Rightarrow> (SemVer option \<Rightarrow> bool option) \<Rightarrow> bool option" where
  "with_base s k = (case semver_parse s of NoVersion \<Rightarrow> k None | Parsed b \<Rightarrow> k (Some b) | BufferOverrun \<Rightarrow> None)"

definition need_base :: "(SemVer \<Rightarrow> bool) \<Rightarrow> SemVer option \<Rightarrow> bool option" where
  "need_base p b = map_option p b"

definition satisfies_wildcard :: "SemVer \<Rightarrow> string \<Rightarrow> bool option" where
  "satisfies_wildcard version c =
     (let buf = map (\<lambda>x. if x = CHR ''x'' \<or> x = CHR ''X'' then CHR ''0'' else x) (take 63 c)
      in with_base buf (\<lambda>base.
           case strchr c (CHR ''x'') of
             None \<Rightarrow> None
           | Some k \<Rightarrow>
               if k < 2 then Some True
               else if k < 4 then need_base (\<lambda>b. major version = major b) base
               else need_base (\<lambda>b. major version = major b \<and> minor version = minor b) base))"

definition semver_satisfies :: "SemVer \<Rightarrow> string \<Rightarrow> bool option" where
  "semver_satisfies version constraint =
     (if constraint = ''*'' then Some True
      else let c = dropWhile isspace constraint
           in if starts_with ''^'' c then with_base (drop 1 c) (need_base (satisfies_caret version))
              else if starts_with ''~'' c then with_base (drop 1 c) (need_base (satisfies_tilde version))
              else if starts_with ''>='' c then with_base (drop 2 c) (\<lambda>b. Some (semver_compare (Some version) b \<ge> 0))
              else if starts_with ''>'' c then with_base (drop 1 c) (\<lambda>b. Some (semver_compare (Some version) b > 0))
              else if starts_with ''<='' c then with_base (drop 2 c) (\<lambda>b. Some (semver_compare (Some version) b \<le> 0))
              else if starts_with ''<'' c then with_base (drop 1 c) (\<lambda>b. Some (semver_compare (Some version) b < 0))
              else if CHR ''x'' \<in> set c \<or> CHR ''X'' \<in> set c then satisfies_wildcard version c
              else with_base c (\<lambda>b. Some (semver_equals (Some version) b)))"

function max_satisfying :: "SemVer list \<Rightarrow> string \<Rightarrow> nat \<Rightarrow> nat option \<Rightarrow> nat option option" where
  "max_satisfying versions constraint i best =
     (if i \<ge> length versions then Some best
      else case semver_satisfies (versions ! i) constraint of
             None \<Rightarrow> None
           | Some ok \<Rightarrow>
               max_satisfying versions constraint (Suc i)
                 (if \<not> ok then best
                  else case best of
                         None \<Rightarrow> Some i
                       | Some j \<Rightarrow> if semver_compare (Some (versions ! i)) (Some (versions ! j)) > 0 then Some i else best))"
  by pat_completeness auto
termination by (relation "measure (\<lambda>(vs, c, i, b). length vs - i)") auto
declare max_satisfying.simps [simp del]

section \<open>The order of versions\<close>

definition cstring :: "string \<Rightarrow> bool" where
  "cstring s \<longleftrightarrow> CHR 0x00 \<notin> set s"

lemma of_char_zero: "(of_char c :: int) = 0 \<longleftrightarrow> c = CHR 0x00"
proof
  assume "(of_char c :: int) = 0"
  moreover have "int (of_char c) = of_char c" by (rule of_nat_of_char)
  ultimately have "int (of_char c) = 0" by metis
  then have "(of_char c :: nat) = of_char (CHR 0x00)" by simp
  then show "c = CHR 0x00" by (simp only: of_char_eq_iff)
qed simp

lemma of_char_pos: "c \<noteq> CHR 0x00 \<Longrightarrow> 0 < (of_char c :: int)" "0 \<le> (of_char c :: int)"
proof -
  show n: "0 \<le> (of_char c :: int)" by (metis of_nat_0_le_iff of_nat_of_char)
  then show "c \<noteq> CHR 0x00 \<Longrightarrow> 0 < (of_char c :: int)" using of_char_zero[of c] by linarith
qed

lemma strcmp_swap: "strcmp b a = - strcmp a b"
  by (induction a b rule: strcmp.induct) auto

lemma strcmp_refl [simp]: "strcmp a a = 0"
  by (induction a) auto

lemma strcmp_zero: "cstring a \<Longrightarrow> cstring b \<Longrightarrow> strcmp a b = 0 \<longleftrightarrow> a = b"
  by (induction a b rule: strcmp.induct) (auto simp: cstring_def of_char_zero)

lemma strcmp_trans:
  "cstring a \<Longrightarrow> cstring b \<Longrightarrow> cstring c \<Longrightarrow> strcmp a b \<le> 0 \<Longrightarrow> strcmp b c \<le> 0 \<Longrightarrow> strcmp a c \<le> 0"
proof (induction a b arbitrary: c rule: strcmp.induct)
  case (2 b bs)
  then show ?case using of_char_pos(2) by (cases c) auto
next
  case (3 a as)
  then show ?case using of_char_pos(1)[of a] by (auto simp: cstring_def)
next
  case (4 a as b bs)
  note p = 4
  show ?case
  proof (cases c)
    case Nil
    then show ?thesis using p of_char_pos(1)[of b] by (auto simp: cstring_def)
  next
    case (Cons x xs)
    have eq: "(of_char a :: int) = of_char b \<longleftrightarrow> a = b" "(of_char b :: int) = of_char x \<longleftrightarrow> b = x" by simp_all
    show ?thesis using p Cons eq by (auto simp: cstring_def split: if_splits)
  qed
qed (auto simp: cstring_def)

text \<open>What the users of a version comparison rely on: a total preorder on proper versions.\<close>

locale version_order =
  fixes cmp :: "'v \<Rightarrow> 'v \<Rightarrow> int" and ok :: "'v \<Rightarrow> bool"
  assumes swap: "cmp b a = - cmp a b"
    and trans: "ok a \<Longrightarrow> ok b \<Longrightarrow> ok c \<Longrightarrow> cmp a b \<le> 0 \<Longrightarrow> cmp b c \<le> 0 \<Longrightarrow> cmp a c \<le> 0"
begin

lemma refl: "cmp a a = 0"
  using swap[of a a] by simp

lemma trans_less: "ok a \<Longrightarrow> ok b \<Longrightarrow> ok c \<Longrightarrow> cmp a b \<le> 0 \<Longrightarrow> cmp b c < 0 \<Longrightarrow> cmp a c < 0"
  using trans[of a b c] trans[of c a b] swap[of a c] swap[of c b] by fastforce

text \<open>The best candidate so far: the first among the greatest that satisfy the predicate.\<close>

definition best :: "'v list \<Rightarrow> ('v \<Rightarrow> bool) \<Rightarrow> nat \<Rightarrow> nat option \<Rightarrow> bool" where
  "best vs P i b \<longleftrightarrow> (case b of
     None \<Rightarrow> (\<forall>k < i. \<not> P (vs ! k))
   | Some j \<Rightarrow> j < i \<and> P (vs ! j) \<and> (\<forall>k < i. P (vs ! k) \<longrightarrow> cmp (vs ! k) (vs ! j) \<le> 0)
       \<and> (\<forall>k < j. P (vs ! k) \<longrightarrow> cmp (vs ! k) (vs ! j) < 0))"

lemma best_step:
  assumes "best vs P i b" and "\<forall>v \<in> set vs. ok v" and "i < length vs"
  shows "best vs P (Suc i) (if \<not> P (vs ! i) then b else case b of None \<Rightarrow> Some i
    | Some j \<Rightarrow> if cmp (vs ! i) (vs ! j) > 0 then Some i else b)"
proof (cases b)
  case None
  then show ?thesis using assms(1) by (auto simp: best_def less_Suc_eq refl)
next
  case (Some j)
  have b: "j < i" "P (vs ! j)" "\<forall>k < i. P (vs ! k) \<longrightarrow> cmp (vs ! k) (vs ! j) \<le> 0" "\<forall>k < j. P (vs ! k) \<longrightarrow> cmp (vs ! k) (vs ! j) < 0"
    using assms(1) Some by (simp_all add: best_def)
  have oks: "ok (vs ! k)" if "k \<le> i" for k using assms(2,3) that by simp
  have "cmp (vs ! k) (vs ! i) < 0" if "cmp (vs ! i) (vs ! j) > 0" "k < i" "P (vs ! k)" for k
    using trans_less[of "vs ! k" "vs ! j" "vs ! i"] oks b(1,3) that swap[of "vs ! j" "vs ! i"] by simp
  then show ?thesis using Some b by (auto simp: best_def less_Suc_eq refl less_imp_le)
qed

end

definition semver_ok :: "SemVer \<Rightarrow> bool" where
  "semver_ok v \<longleftrightarrow> (case prerelease v of None \<Rightarrow> True | Some p \<Rightarrow> cstring p)"

definition pre_le :: "string option \<Rightarrow> string option \<Rightarrow> bool" where
  "pre_le p q \<longleftrightarrow> (case (p, q) of (None, None) \<Rightarrow> True | (None, Some _) \<Rightarrow> False | (Some _, None) \<Rightarrow> True
     | (Some x, Some y) \<Rightarrow> strcmp x y \<le> 0)"

lemma pre_le_trans:
  assumes "\<forall>x. p = Some x \<longrightarrow> cstring x" "\<forall>x. q = Some x \<longrightarrow> cstring x" "\<forall>x. r = Some x \<longrightarrow> cstring x"
    and "pre_le p q" "pre_le q r"
  shows "pre_le p r"
  using assms strcmp_trans[of "the p" "the q" "the r"]
  by (cases p; cases q; cases r) (simp_all add: pre_le_def)

lemma diff_step: "(if x \<noteq> y then x - y else r) \<le> 0 \<longleftrightarrow> x < y \<or> (x = y \<and> r \<le> 0)" for x y r :: int
  by auto

lemma lex_trans: "x < y \<or> (x = y \<and> p) \<Longrightarrow> y < z \<or> (y = z \<and> q) \<Longrightarrow> (p \<Longrightarrow> q \<Longrightarrow> r) \<Longrightarrow> x < z \<or> (x = z \<and> r)" for x y z :: int
  by auto

lemma semver_le:
  "semver_compare (Some a) (Some b) \<le> 0 \<longleftrightarrow> major a < major b \<or> (major a = major b \<and>
     (minor a < minor b \<or> (minor a = minor b \<and> (patch a < patch b \<or> (patch a = patch b \<and> pre_le (prerelease a) (prerelease b))))))"
proof -
  have "(case (prerelease a, prerelease b) of (None, None) \<Rightarrow> 0 | (None, Some q) \<Rightarrow> 1 | (Some p, None) \<Rightarrow> - 1 | (Some p, Some q) \<Rightarrow> strcmp p q) \<le> 0
      \<longleftrightarrow> pre_le (prerelease a) (prerelease b)"
    by (simp add: pre_le_def split: option.split)
  then show ?thesis by (simp only: semver_compare_def option.case prod.case diff_step)
qed

interpretation semver: version_order "\<lambda>a b. semver_compare (Some a) (Some b)" semver_ok
proof
  fix a b c :: SemVer
  show "semver_compare (Some b) (Some a) = - semver_compare (Some a) (Some b)"
    using strcmp_swap[of "the (prerelease b)" "the (prerelease a)"]
    by (auto simp: semver_compare_def split: option.splits)
  assume ok: "semver_ok a" "semver_ok b" "semver_ok c"
    and le: "semver_compare (Some a) (Some b) \<le> 0" "semver_compare (Some b) (Some c) \<le> 0"
  have "pre_le (prerelease a) (prerelease c)" if "pre_le (prerelease a) (prerelease b)" "pre_le (prerelease b) (prerelease c)"
    by (rule pre_le_trans[OF _ _ _ that]) (use ok in \<open>auto simp: semver_ok_def\<close>)
  note pre = this
  show "semver_compare (Some a) (Some c) \<le> 0"
    unfolding semver_le
    by (rule lex_trans[OF le[unfolded semver_le]], erule (1) lex_trans, erule (1) lex_trans, erule (1) pre)
qed

section \<open>Printing and parsing\<close>

lemma isdigit_digit: "k < 10 \<Longrightarrow> isdigit (digit k)"
  by (simp add: isdigit_def of_char_digit)

lemma dec_digits_isdigit: "c \<in> set (dec_digits n) \<Longrightarrow> isdigit c"
proof (induction n rule: dec_digits.induct)
  case (1 n)
  then show ?case by (subst (asm) (2) dec_digits.simps) (auto split: if_splits simp: isdigit_digit)
qed

lemma isdigit_not: "isdigit c \<Longrightarrow> \<not> isspace c \<and> c \<notin> {CHR ''-'', CHR ''+'', CHR ''.'', CHR ''v'', CHR ''V''}"
  by (auto simp: isdigit_def isspace_def)

lemma scan_d_digits:
  assumes "\<forall>c cs. rest = c # cs \<longrightarrow> \<not> isdigit c"
  shows "scan_d (dec_digits n @ rest) = Some (int n, rest)"
proof -
  obtain c cs where d: "dec_digits n = c # cs" using dec_digits_hd[of n] by auto
  then have c: "isdigit c" using dec_digits_isdigit[of c n] by simp
  have tw: "takeWhile isdigit (dec_digits n @ rest) = dec_digits n" "dropWhile isdigit (dec_digits n @ rest) = rest"
    using assms dec_digits_isdigit by (cases rest; simp add: takeWhile_append2 dropWhile_append2)+
  have "dropWhile isspace (dec_digits n @ rest) = dec_digits n @ rest" using d isdigit_not[OF c] by simp
  moreover have "(case dec_digits n @ rest of c # cs \<Rightarrow> if c = CHR ''-'' then (- 1, cs) else if c = CHR ''+'' then (1, cs)
      else (1, dec_digits n @ rest) | [] \<Rightarrow> (1, dec_digits n @ rest)) = (1 :: int, dec_digits n @ rest)"
    using d isdigit_not[OF c] by simp
  moreover have "dec_digits n \<noteq> []" using d by simp
  ultimately show ?thesis unfolding scan_d_def by (simp only: Let_def tw prod.case if_False dec_value_digits) simp
qed

lemma strchr_append:
  "c \<notin> set xs \<Longrightarrow> strchr (xs @ c # ys) c = Some (length xs)" "c \<notin> set xs \<Longrightarrow> strchr xs c = None"
proof -
  assume "c \<notin> set xs"
  then have a: "\<forall>x \<in> set xs. x \<noteq> c" by auto
  then have "takeWhile (\<lambda>x. x \<noteq> c) (xs @ c # ys) = xs" by (simp add: takeWhile_append2)
  then show "strchr (xs @ c # ys) c = Some (length xs)" by (simp add: strchr_def Let_def)
  show "strchr xs c = None" using a by (simp add: strchr_def Let_def takeWhile_eq_all_conv[THEN iffD2])
qed

text \<open>A version that can be written down unambiguously.\<close>

definition printable :: "SemVer \<Rightarrow> bool" where
  "printable v \<longleftrightarrow> 0 \<le> major v \<and> 0 \<le> minor v \<and> 0 \<le> patch v
     \<and> (case prerelease v of None \<Rightarrow> (case build v of None \<Rightarrow> True | Some b \<Rightarrow> CHR ''-'' \<notin> set b) | Some p \<Rightarrow> CHR ''+'' \<notin> set p)
     \<and> length (int_text (major v) @ ''.'' @ int_text (minor v) @ ''.'' @ int_text (patch v)
         @ (case prerelease v of None \<Rightarrow> [] | Some p \<Rightarrow> ''-'' @ p) @ (case build v of None \<Rightarrow> [] | Some b \<Rightarrow> ''+'' @ b)) \<le> 255"

text \<open>
  Versions round-trip through their text: a version with non-negative numbers, no plus sign in the
  prerelease and, without a prerelease, no dash in the build data, is parsed back exactly from what
  printing gives, as long as the text fits the 256-byte buffer.
\<close>

theorem semver_roundtrip:
  assumes "printable v"
  shows "semver_parse (semver_to_string v) = Parsed v"
proof -
  define pre where "pre = (case prerelease v of None \<Rightarrow> [] | Some p \<Rightarrow> ''-'' @ p)"
  define bld where "bld = (case build v of None \<Rightarrow> [] | Some b \<Rightarrow> ''+'' @ b)"
  define a where "a = dec_digits (nat (major v))"
  define b where "b = dec_digits (nat (minor v))"
  define c where "c = dec_digits (nat (patch v))"
  define num where "num = a @ ''.'' @ b @ ''.'' @ c"
  have pos: "0 \<le> major v" "0 \<le> minor v" "0 \<le> patch v" using assms by (simp_all add: printable_def)
  have it: "int_text (major v) = a" "int_text (minor v) = b" "int_text (patch v) = c"
    using pos by (simp_all add: int_text_def a_def b_def c_def)
  have "length (a @ ''.'' @ b @ ''.'' @ c @ pre @ bld) \<le> 255" using assms unfolding printable_def it pre_def bld_def by blast
  then have str: "semver_to_string v = num @ pre @ bld"
    unfolding semver_to_string_def it pre_def[symmetric] bld_def[symmetric] num_def by simp
  have dg: "isdigit x" if "x \<in> set a \<union> set b \<union> set c" for x
    using that dec_digits_isdigit unfolding a_def b_def c_def by auto
  have nums: "CHR ''-'' \<notin> set num" "CHR ''+'' \<notin> set num"
    using dg isdigit_not unfolding num_def by fastforce+
  obtain x xs where ax: "a = x # xs" using dec_digits_hd[of "nat (major v)"] unfolding a_def by auto
  then have vx: "x \<noteq> CHR ''v''" "x \<noteq> CHR ''V''" using isdigit_not[OF dg[of x]] by auto
  have hd: "(case num @ pre @ bld of c # cs \<Rightarrow> if c = CHR ''v'' \<or> c = CHR ''V'' then cs else num @ pre @ bld | [] \<Rightarrow> num @ pre @ bld)
      = num @ pre @ bld" using ax vx by (simp add: num_def)
  have tail: "\<forall>x xs. pre @ bld = x # xs \<longrightarrow> \<not> isdigit x"
    by (auto simp: pre_def bld_def isdigit_def split: option.splits)
  have "scan_dots 3 (num @ pre @ bld) = [major v, minor v, patch v]"
    using pos tail unfolding num_def a_def b_def c_def numeral_3_eq_3
    by (simp add: scan_d_digits isdigit_def scan_dot_def split: option.splits list.splits)
  moreover have "strchr (num @ pre @ bld) (CHR ''-'') = (case prerelease v of None \<Rightarrow> None | Some p \<Rightarrow> Some (length num))"
    using strchr_append[of "CHR ''-''" num] strchr_append(2)[of "CHR ''-''" "num @ bld"] nums assms
    by (auto simp: pre_def bld_def printable_def split: option.splits)
  moreover have "strchr (num @ pre @ bld) (CHR ''+'') = (case build v of None \<Rightarrow> None | Some b \<Rightarrow> Some (length (num @ pre)))"
  proof -
    have "CHR ''+'' \<notin> set (num @ pre)" if "prerelease v \<noteq> None \<or> pre = []" using nums assms by (auto simp: pre_def printable_def split: option.splits)
    then have "CHR ''+'' \<notin> set (num @ pre)" by (cases "prerelease v") (auto simp: pre_def)
    then show ?thesis using strchr_append[of "CHR ''+''" "num @ pre"] by (auto simp: bld_def split: option.splits)
  qed
  ultimately show ?thesis unfolding str semver_parse_def Let_def hd
    by (cases "prerelease v"; cases "build v") (simp_all add: pre_def bld_def nth_or_def)
qed

theorem semver_roundtrip_witness:
  "semver_parse (semver_to_string \<lparr>major = 1, minor = 20, patch = 3, prerelease = Some ''rc-1'', build = Some ''b5''\<rparr>)
    = Parsed \<lparr>major = 1, minor = 20, patch = 3, prerelease = Some ''rc-1'', build = Some ''b5''\<rparr>"
  by (rule semver_roundtrip) (simp add: printable_def int_text_def dec_digits.simps)

text \<open>Without the guards the parser is not safe: build data with a dash overruns the buffer.\<close>

lemma semver_parse_overruns: "semver_parse ''1.0.0+b-1'' = BufferOverrun"
  by code_simp

section \<open>Constraints\<close>

text \<open>The first version a caret or tilde constraint excludes.\<close>

definition stable :: "SemVer \<Rightarrow> bool" where
  "stable v \<longleftrightarrow> 0 \<le> major v \<and> 0 \<le> minor v \<and> 0 \<le> patch v \<and> prerelease v = None"

definition release :: "int \<Rightarrow> int \<Rightarrow> int \<Rightarrow> SemVer" where
  "release x y z = \<lparr>major = x, minor = y, patch = z, prerelease = None, build = None\<rparr>"

definition caret_limit :: "SemVer \<Rightarrow> SemVer" where
  "caret_limit b = (if major b > 0 then release (major b + 1) 0 0
     else if minor b > 0 then release 0 (minor b + 1) 0 else release 0 0 (patch b + 1))"

text \<open>
  Constraints mean the ranges the documentation gives: for stable versions a caret constraint holds
  exactly from the base up to the next release that changes the leftmost non-zero number, and a tilde
  constraint from the base up to the next minor release.
\<close>

theorem semver_ranges:
  assumes "stable v" and "stable b"
  shows "(satisfies_caret v b \<longleftrightarrow> semver_compare (Some v) (Some b) \<ge> 0 \<and> semver_compare (Some v) (Some (caret_limit b)) < 0)
    \<and> (satisfies_tilde v b \<longleftrightarrow>
         semver_compare (Some v) (Some b) \<ge> 0 \<and> semver_compare (Some v) (Some (release (major b) (minor b + 1) 0)) < 0)"
  using assms
  by (auto simp: stable_def satisfies_caret_def satisfies_tilde_def semver_equals_def semver_compare_def caret_limit_def release_def)

theorem semver_ranges_witness:
  "satisfies_caret (release 1 9 0) (release 1 2 3) \<and> \<not> satisfies_caret (release 0 3 0) (release 0 2 3)
    \<and> satisfies_tilde (release 1 2 9) (release 1 2 3)"
  using semver_ranges[of "release 1 9 0" "release 1 2 3"] semver_ranges[of "release 0 3 0" "release 0 2 3"]
    semver_ranges[of "release 1 2 9" "release 1 2 3"]
  by (simp add: stable_def release_def caret_limit_def semver_compare_def)

definition semver_max_satisfying :: "SemVer list \<Rightarrow> string \<Rightarrow> nat option option" where
  "semver_max_satisfying versions constraint = max_satisfying versions constraint 0 None"

lemma max_satisfying_best:
  assumes "\<forall>v \<in> set vs. semver_ok v \<and> semver_satisfies v c \<noteq> None"
    and "semver.best vs (\<lambda>v. semver_satisfies v c = Some True) i b" and "i \<le> length vs"
  shows "\<exists>r. max_satisfying vs c i b = Some r \<and> semver.best vs (\<lambda>v. semver_satisfies v c = Some True) (length vs) r"
  using assms(2,3)
proof (induction "length vs - i" arbitrary: i b)
  case 0
  then have "i = length vs" by simp
  then show ?case using 0 by (subst max_satisfying.simps) simp
next
  case (Suc n)
  then have i: "i < length vs" by simp
  then obtain ok where ok: "semver_satisfies (vs ! i) c = Some ok" using assms(1) by fastforce
  let ?b = "if \<not> ok then b else case b of None \<Rightarrow> Some i
    | Some j \<Rightarrow> if semver_compare (Some (vs ! i)) (Some (vs ! j)) > 0 then Some i else b"
  have "semver.best vs (\<lambda>v. semver_satisfies v c = Some True) (Suc i) ?b"
    using semver.best_step[OF Suc.prems(1) _ i] assms(1) ok by simp
  then have "\<exists>r. max_satisfying vs c (Suc i) ?b = Some r \<and> semver.best vs (\<lambda>v. semver_satisfies v c = Some True) (length vs) r"
    using Suc.hyps(1)[of "Suc i" ?b] Suc.hyps(2) i by simp
  then show ?case using ok i by (subst max_satisfying.simps) simp
qed

text \<open>
  Version selection is right: when no candidate makes the constraint evaluation crash, the result
  is the first of the greatest versions that satisfy the constraint, and nothing exactly when none
  does.
\<close>

theorem semver_max_satisfying_best:
  assumes "\<forall>v \<in> set vs. semver_ok v \<and> semver_satisfies v c \<noteq> None"
  shows "case semver_max_satisfying vs c of
      None \<Rightarrow> False
    | Some None \<Rightarrow> \<forall>v \<in> set vs. semver_satisfies v c = Some False
    | Some (Some j) \<Rightarrow> j < length vs \<and> semver_satisfies (vs ! j) c = Some True
        \<and> (\<forall>k < length vs. semver_satisfies (vs ! k) c = Some True \<longrightarrow> semver_compare (Some (vs ! k)) (Some (vs ! j)) \<le> 0)
        \<and> (\<forall>k < j. semver_satisfies (vs ! k) c = Some True \<longrightarrow> semver_compare (Some (vs ! k)) (Some (vs ! j)) < 0)"
proof -
  have "semver.best vs (\<lambda>v. semver_satisfies v c = Some True) 0 None" by (simp add: semver.best_def)
  from max_satisfying_best[OF assms this] obtain r where r: "semver_max_satisfying vs c = Some r"
    "semver.best vs (\<lambda>v. semver_satisfies v c = Some True) (length vs) r" by (auto simp: semver_max_satisfying_def)
  show ?thesis
  proof (cases r)
    case None
    then have "semver_satisfies v c \<noteq> Some True" if "v \<in> set vs" for v
      using r(2) that by (auto simp: semver.best_def in_set_conv_nth)
    then have "semver_satisfies v c = Some False" if "v \<in> set vs" for v
      using that assms by (cases "semver_satisfies v c") auto
    then show ?thesis using r(1) None by simp
  qed (use r in \<open>simp add: semver.best_def\<close>)
qed

theorem semver_max_satisfying_best_witness:
  "semver_max_satisfying [release 1 2 0, release 2 0 0, release 1 5 1] ''^1.2.0'' = Some (Some 2)"
proof -
  have a: "\<forall>v \<in> set [release 1 2 0, release 2 0 0, release 1 5 1]. semver_ok v \<and> semver_satisfies v ''^1.2.0'' \<noteq> None" by code_simp
  have s: "map (\<lambda>v. semver_satisfies v ''^1.2.0'') [release 1 2 0, release 2 0 0, release 1 5 1] = [Some True, Some False, Some True]"
    "\<not> semver_compare (Some (release 1 5 1)) (Some (release 1 2 0)) \<le> 0" by code_simp+
  show ?thesis using semver_max_satisfying_best[OF a] s
    by (auto split: option.splits simp: less_Suc_eq nth_Cons' All_less_Suc)
qed

text \<open>Constraints the evaluation does not survive, and one it reads as satisfied by everything.\<close>

lemma semver_bad_constraints:
  "semver_satisfies v ''^next'' = None" "semver_satisfies v ''1.2.X'' = None" "semver_satisfies v ''>=next'' = Some True"
proof -
  have p: "semver_parse ''next'' = NoVersion" by code_simp
  show "semver_satisfies v ''^next'' = None" "semver_satisfies v ''>=next'' = Some True"
    using p by (simp_all add: semver_satisfies_def starts_with_def isspace_def with_base_def need_base_def semver_compare_def)
  have "semver_parse ''1.2.0'' = Parsed (release 1 2 0)" "strchr ''1.2.X'' (CHR ''x'') = None" by code_simp+
  then show "semver_satisfies v ''1.2.X'' = None"
    by (simp add: semver_satisfies_def starts_with_def isspace_def with_base_def satisfies_wildcard_def)
qed

end
