(* ===== verification/Pkg_Resolver.thy ===== *)
theory Pkg_Resolver
  imports Pkg_Version
begin

text \<open>
  The package registry and the dependency resolver: \<^verbatim>\<open>pkg/core/registry.c\<close> and
  \<^verbatim>\<open>pkg/core/resolver.c\<close>.  The cache file of the registry is never read by the code, so a registry
  is its list of packages; what is printed is not kept.
\<close>

section \<open>registry.c\<close>

record PkgVersion =
  pv_major :: int
  pv_minor :: int
  pv_patch :: int
  pv_prerelease :: "string option"

record PkgDependency =
  dep_name :: string
  dep_spec :: string

record PkgInfo =
  pkg_name :: string
  pkg_version :: PkgVersion
  pkg_description :: string
  pkg_dependencies :: "PkgDependency list"

definition parse_version :: "string \<Rightarrow> PkgVersion" where
  "parse_version str =
     (let ns = scan_dots 3 str
      in \<lparr>pv_major = nth_or ns 0 0, pv_minor = nth_or ns 1 0, pv_patch = nth_or ns 2 0,
          pv_prerelease = map_option (\<lambda>d. drop (d + 1) str) (strchr str (CHR ''-''))\<rparr>)"

definition pkg_version_compare :: "PkgVersion \<Rightarrow> PkgVersion \<Rightarrow> int" where
  "pkg_version_compare a b =
     (if pv_major a \<noteq> pv_major b then (if pv_major a < pv_major b then - 1 else 1)
      else if pv_minor a \<noteq> pv_minor b then (if pv_minor a < pv_minor b then - 1 else 1)
      else if pv_patch a \<noteq> pv_patch b then (if pv_patch a < pv_patch b then - 1 else 1)
      else case (pv_prerelease a, pv_prerelease b) of
             (Some p, None) \<Rightarrow> - 1
           | (None, Some q) \<Rightarrow> 1
           | (Some p, Some q) \<Rightarrow> strcmp p q
           | (None, None) \<Rightarrow> 0)"

definition pkg_version_satisfies :: "PkgVersion \<Rightarrow> string \<Rightarrow> bool" where
  "pkg_version_satisfies version spec =
     (if spec = [] then True
      else if starts_with ''^'' spec
      then let required = parse_version (drop 1 spec)
           in if pv_major version \<noteq> pv_major required then False
              else if pv_minor version < pv_minor required then False
              else if pv_minor version = pv_minor required \<and> pv_patch version < pv_patch required then False
              else True
      else if starts_with ''~'' spec
      then let required = parse_version (drop 1 spec)
           in if pv_major version \<noteq> pv_major required then False
              else if pv_minor version \<noteq> pv_minor required then False
              else if pv_patch version < pv_patch required then False
              else True
      else if starts_with ''>='' spec then pkg_version_compare version (parse_version (drop 2 spec)) \<ge> 0
      else if starts_with ''<='' spec then pkg_version_compare version (parse_version (drop 2 spec)) \<le> 0
      else pkg_version_compare version (parse_version spec) = 0)"

fun strstr :: "string \<Rightarrow> string \<Rightarrow> bool" where
  "strstr s q = (starts_with q s \<or> (case s of [] \<Rightarrow> False | c # cs \<Rightarrow> strstr cs q))"

definition pkg_registry_search :: "PkgInfo list \<Rightarrow> string \<Rightarrow> PkgInfo list" where
  "pkg_registry_search packages query = filter (\<lambda>p. strstr (pkg_name p) query \<or> strstr (pkg_description p) query) packages"

definition pkg_registry_info :: "PkgInfo list \<Rightarrow> string \<Rightarrow> string option \<Rightarrow> PkgInfo option" where
  "pkg_registry_info packages name version =
     find (\<lambda>p. pkg_name p = name \<and> (case version of None \<Rightarrow> True | Some v \<Rightarrow> pkg_version_satisfies (pkg_version p) v)) packages"

section \<open>resolver.c\<close>

record ResolvedPkg =
  res_name :: string
  res_version :: PkgVersion
  res_dependencies :: "PkgDependency list"

definition is_resolved :: "ResolvedPkg list \<Rightarrow> string \<Rightarrow> bool" where
  "is_resolved resolved name \<longleftrightarrow> (\<exists>r \<in> set resolved. res_name r = name)"

definition to_resolved :: "PkgInfo \<Rightarrow> ResolvedPkg" where
  "to_resolved info = \<lparr>res_name = pkg_name info, res_version = pkg_version info, res_dependencies = pkg_dependencies info\<rparr>"

text \<open>
  The recursion, over the registry's lookup function; the loop over the dependencies is
  \<open>resolve_all\<close>.
\<close>

function resolve_recursive :: "(string \<Rightarrow> string option \<Rightarrow> PkgInfo option) \<Rightarrow> ResolvedPkg list \<Rightarrow> string \<Rightarrow> string option \<Rightarrow> nat \<Rightarrow> bool \<times> ResolvedPkg list"
  and resolve_all :: "(string \<Rightarrow> string option \<Rightarrow> PkgInfo option) \<Rightarrow> ResolvedPkg list \<Rightarrow> PkgDependency list \<Rightarrow> nat \<Rightarrow> bool \<times> ResolvedPkg list" where
  "resolve_recursive lookup resolved package version depth =
     (if depth > 100 then (False, resolved)
      else if is_resolved resolved package then (True, resolved)
      else case lookup package version of
             None \<Rightarrow> (False, resolved)
           | Some info \<Rightarrow>
               (case resolve_all lookup resolved (pkg_dependencies info) (depth + 1) of
                  (False, r) \<Rightarrow> (False, r)
                | (True, r) \<Rightarrow> (True, r @ [to_resolved info])))"
| "resolve_all lookup resolved [] depth = (True, resolved)"
| "resolve_all lookup resolved (d # ds) depth =
     (case resolve_recursive lookup resolved (dep_name d) (Some (dep_spec d)) depth of
        (False, r) \<Rightarrow> (False, r)
      | (True, r) \<Rightarrow> resolve_all lookup r ds depth)"
  by pat_completeness auto
termination
  by (relation "measures [\<lambda>x. case x of Inl (l, r, p, v, d) \<Rightarrow> 102 - d | Inr (l, r, ds, d) \<Rightarrow> 102 - d,
      \<lambda>x. case x of Inl _ \<Rightarrow> 0 | Inr (l, r, ds, d) \<Rightarrow> Suc (length ds)]") auto

declare resolve_recursive.simps [simp del] resolve_all.simps [simp del]

definition pkg_resolver_resolve :: "PkgInfo list \<Rightarrow> ResolvedPkg list \<Rightarrow> string \<Rightarrow> string option \<Rightarrow> bool \<times> ResolvedPkg list" where
  "pkg_resolver_resolve packages resolved package version = resolve_recursive (pkg_registry_info packages) resolved package version 0"

fun pkg_resolver_check_conflicts :: "ResolvedPkg list \<Rightarrow> bool" where
  "pkg_resolver_check_conflicts [] = True"
| "pkg_resolver_check_conflicts (a # rest) =
     (if \<exists>b \<in> set rest. res_name a = res_name b \<and> pkg_version_compare (res_version a) (res_version b) \<noteq> 0 then False
      else pkg_resolver_check_conflicts rest)"

section \<open>The order of versions\<close>

definition version_ok :: "PkgVersion \<Rightarrow> bool" where
  "version_ok v \<longleftrightarrow> (case pv_prerelease v of None \<Rightarrow> True | Some p \<Rightarrow> cstring p)"

lemma sign_step: "(if x \<noteq> y then (if x < y then - 1 else 1) else r) \<le> 0 \<longleftrightarrow> x < y \<or> (x = y \<and> r \<le> 0)" for x y r :: int
  by auto

lemma pkg_version_le:
  "pkg_version_compare a b \<le> 0 \<longleftrightarrow> pv_major a < pv_major b \<or> (pv_major a = pv_major b \<and>
     (pv_minor a < pv_minor b \<or> (pv_minor a = pv_minor b \<and> (pv_patch a < pv_patch b \<or> (pv_patch a = pv_patch b
       \<and> pre_le (pv_prerelease a) (pv_prerelease b))))))"
proof -
  have "(case (pv_prerelease a, pv_prerelease b) of (Some p, None) \<Rightarrow> - 1 | (None, Some q) \<Rightarrow> 1
      | (Some p, Some q) \<Rightarrow> strcmp p q | (None, None) \<Rightarrow> 0) \<le> 0 \<longleftrightarrow> pre_le (pv_prerelease a) (pv_prerelease b)"
    by (simp add: pre_le_def split: option.split)
  then show ?thesis by (simp only: pkg_version_compare_def sign_step)
qed

interpretation pkg_version: version_order pkg_version_compare version_ok
proof
  fix a b c :: PkgVersion
  show "pkg_version_compare b a = - pkg_version_compare a b"
    using strcmp_swap[of "the (pv_prerelease b)" "the (pv_prerelease a)"]
    by (auto simp: pkg_version_compare_def split: option.splits)
  assume ok: "version_ok a" "version_ok b" "version_ok c"
    and le: "pkg_version_compare a b \<le> 0" "pkg_version_compare b c \<le> 0"
  have pre: "pre_le (pv_prerelease a) (pv_prerelease c)" if "pre_le (pv_prerelease a) (pv_prerelease b)" "pre_le (pv_prerelease b) (pv_prerelease c)"
    by (rule pre_le_trans[OF _ _ _ that]) (use ok in \<open>auto simp: version_ok_def\<close>)
  show "pkg_version_compare a c \<le> 0"
    unfolding pkg_version_le
    by (rule lex_trans[OF le[unfolded pkg_version_le]], erule (1) lex_trans, erule (1) lex_trans, erule (1) pre)
qed

section \<open>What the resolver needs of the registry\<close>

text \<open>Every entry's dependencies stand before it.\<close>

definition install_order :: "ResolvedPkg list \<Rightarrow> bool" where
  "install_order rs \<longleftrightarrow> (\<forall>i < length rs. \<forall>d \<in> set (res_dependencies (rs ! i)). \<exists>j < i. res_name (rs ! j) = dep_name d)"

lemma install_order_snoc:
  assumes "install_order rs" and "\<forall>d \<in> set (res_dependencies r). is_resolved rs (dep_name d)"
  shows "install_order (rs @ [r])"
  unfolding install_order_def
proof (intro allI impI ballI)
  fix i d assume i: "i < length (rs @ [r])" and d: "d \<in> set (res_dependencies ((rs @ [r]) ! i))"
  show "\<exists>j < i. res_name ((rs @ [r]) ! j) = dep_name d"
  proof (cases "i < length rs")
    case True
    then obtain j where "j < i" "res_name (rs ! j) = dep_name d" using assms(1) d by (auto simp: install_order_def nth_append)
    then show ?thesis using True by (intro exI[of _ j]) (simp add: nth_append)
  next
    case False
    then have "i = length rs" using i by simp
    moreover from this have "is_resolved rs (dep_name d)" using assms(2) d by simp
    then obtain j where "j < length rs" "res_name (rs ! j) = dep_name d"
      unfolding is_resolved_def by (metis in_set_conv_nth)
    ultimately show ?thesis by (intro exI[of _ j]) (simp add: nth_append)
  qed
qed

text \<open>The branches of the recursion.\<close>

lemma resolve_recursive_branches:
  "depth > 100 \<Longrightarrow> resolve_recursive l rs n v depth = (False, rs)"
  "\<not> depth > 100 \<Longrightarrow> is_resolved rs n \<Longrightarrow> resolve_recursive l rs n v depth = (True, rs)"
  "\<not> depth > 100 \<Longrightarrow> \<not> is_resolved rs n \<Longrightarrow> l n v = None \<Longrightarrow> resolve_recursive l rs n v depth = (False, rs)"
  "\<not> depth > 100 \<Longrightarrow> \<not> is_resolved rs n \<Longrightarrow> l n v = Some info \<Longrightarrow>
     resolve_all l rs (pkg_dependencies info) (depth + 1) = (ok, r) \<Longrightarrow>
     resolve_recursive l rs n v depth = (ok, if ok then r @ [to_resolved info] else r)"
  by (subst resolve_recursive.simps, simp)+

lemma resolve_all_branches:
  "resolve_recursive l rs (dep_name d) (Some (dep_spec d)) depth = (False, r) \<Longrightarrow> resolve_all l rs (d # ds) depth = (False, r)"
  "resolve_recursive l rs (dep_name d) (Some (dep_spec d)) depth = (True, r) \<Longrightarrow> resolve_all l rs (d # ds) depth = resolve_all l r ds depth"
  by (simp_all add: resolve_all.simps)

locale package_source =
  fixes lookup :: "string \<Rightarrow> string option \<Rightarrow> PkgInfo option" and packages :: "PkgInfo set"
  assumes lookup_name: "lookup n v = Some p \<Longrightarrow> pkg_name p = n \<and> p \<in> packages"
begin

definition extends :: "ResolvedPkg list \<Rightarrow> ResolvedPkg list \<Rightarrow> bool" where
  "extends rs rs' \<longleftrightarrow> (\<exists>ys. rs' = rs @ ys) \<and> (install_order rs \<longrightarrow> install_order rs')
     \<and> (set rs \<subseteq> to_resolved ` packages \<longrightarrow> set rs' \<subseteq> to_resolved ` packages)"

lemma extends_refl: "extends rs rs"
  by (simp add: extends_def)

lemma extends_trans: "extends a b \<Longrightarrow> extends b c \<Longrightarrow> extends a c"
  by (auto simp: extends_def)

lemma extends_resolved: "extends rs rs' \<Longrightarrow> is_resolved rs n \<Longrightarrow> is_resolved rs' n"
  by (auto simp: extends_def is_resolved_def)

lemma resolve_sound:
  shows "l = lookup \<Longrightarrow> resolve_recursive l rs n v depth = (ok, r) \<Longrightarrow> extends rs r \<and> (ok \<longrightarrow> is_resolved r n)"
    and "l = lookup \<Longrightarrow> resolve_all l rs ds depth = (ok, r) \<Longrightarrow>
      extends rs r \<and> (ok \<longrightarrow> (\<forall>d \<in> set ds. is_resolved r (dep_name d)))"
proof (induction l rs n v depth and l rs ds depth arbitrary: ok r and ok r rule: resolve_recursive_resolve_all.induct)
  case (1 l rs n v depth)
  consider "depth > 100" | "\<not> depth > 100" "is_resolved rs n" | "\<not> depth > 100" "\<not> is_resolved rs n" "l n v = None"
    | info where "\<not> depth > 100" "\<not> is_resolved rs n" "l n v = Some info"
    by (cases "l n v") auto
  then show ?case
  proof cases
    case 4
    obtain ok1 r1 where a: "resolve_all l rs (pkg_dependencies info) (depth + 1) = (ok1, r1)" by fastforce
    note ih = "1.IH"[OF 4 "1.prems"(1) a]
    have nm: "pkg_name info = n" "info \<in> packages" using lookup_name 4(3) 1(2) by auto
    have res: "ok = ok1" "r = (if ok1 then r1 @ [to_resolved info] else r1)"
      using "1.prems"(2) resolve_recursive_branches(4)[OF 4 a] by (simp_all split: if_splits)
    show ?thesis
    proof (cases ok1)
      case True
      have "install_order (r1 @ [to_resolved info])" if "install_order r1"
        using install_order_snoc[OF that] ih True by (simp add: to_resolved_def)
      then have "extends r1 (r1 @ [to_resolved info])" using nm(2) by (simp add: extends_def)
      moreover have "is_resolved (r1 @ [to_resolved info]) n" using nm by (simp add: is_resolved_def to_resolved_def)
      ultimately show ?thesis using res True ih extends_trans by simp blast
    qed (use res ih in simp)
  qed (use "1.prems"(2) in \<open>simp_all add: resolve_recursive_branches extends_refl\<close>)
next
  case (2 l rs depth)
  then show ?case by (simp add: resolve_all.simps extends_refl)
next
  case (3 l rs d ds depth)
  obtain ok1 r1 where a: "resolve_recursive l rs (dep_name d) (Some (dep_spec d)) depth = (ok1, r1)" by fastforce
  note ih = "3.IH"(1)[OF "3.prems"(1) a]
  show ?case
  proof (cases ok1)
    case True
    then have "resolve_all l r1 ds depth = (ok, r)" using "3.prems"(2) a by (simp add: resolve_all_branches)
    from "3.IH"(2)[OF a[symmetric] _ "3.prems"(1) this] True
    have ih2: "extends r1 r \<and> (ok \<longrightarrow> (\<forall>d \<in> set ds. is_resolved r (dep_name d)))" by simp
    moreover have "extends rs r1" "is_resolved r1 (dep_name d)" using ih True by simp_all
    ultimately show ?thesis using extends_trans[of rs r1 r] extends_resolved[of r1 r "dep_name d"] by simp
  next
    case False
    then show ?thesis using "3.prems"(2) a ih by (simp add: resolve_all_branches)
  qed
qed

text \<open>Dependencies of bounded depth, each with a matching package, are always resolved.\<close>

lemma resolve_complete:
  assumes deps: "\<And>p d. p \<in> packages \<Longrightarrow> d \<in> set (pkg_dependencies p) \<Longrightarrow>
      \<exists>q. lookup (dep_name d) (Some (dep_spec d)) = Some q \<and> rank q < rank p"
  shows "l = lookup \<Longrightarrow> lookup n v = Some p \<Longrightarrow> depth + rank p \<le> (100 :: nat) \<Longrightarrow> fst (resolve_recursive l rs n v depth)"
    and "l = lookup \<Longrightarrow> \<forall>d \<in> set ds. \<exists>q. lookup (dep_name d) (Some (dep_spec d)) = Some q \<and> depth + rank q \<le> 100 \<Longrightarrow>
      fst (resolve_all l rs ds depth)"
proof (induction l rs n v depth and l rs ds depth arbitrary: p and rule: resolve_recursive_resolve_all.induct)
  case (1 l rs n v depth)
  have d: "\<not> depth > 100" and lk: "l n v = Some p" using "1.prems" by simp_all
  show ?case
  proof (cases "is_resolved rs n")
    case False
    obtain ok1 r1 where a: "resolve_all l rs (pkg_dependencies p) (depth + 1) = (ok1, r1)" by fastforce
    have "p \<in> packages" using lookup_name "1.prems"(2) by blast
    then have "\<forall>d \<in> set (pkg_dependencies p). \<exists>q. lookup (dep_name d) (Some (dep_spec d)) = Some q \<and> depth + 1 + rank q \<le> 100"
      using deps "1.prems"(3) by fastforce
    with "1.IH"[OF d False lk "1.prems"(1)] a have "ok1" by simp
    then show ?thesis using resolve_recursive_branches(4)[OF d False lk a] by simp
  qed (simp add: resolve_recursive_branches(2)[OF d])
next
  case (2 l rs depth)
  then show ?case by (simp add: resolve_all.simps)
next
  case (3 l rs d ds depth)
  obtain q where q: "lookup (dep_name d) (Some (dep_spec d)) = Some q" "depth + rank q \<le> 100" using "3.prems"(2) by auto
  obtain ok1 r1 where a: "resolve_recursive l rs (dep_name d) (Some (dep_spec d)) depth = (ok1, r1)" by fastforce
  have ok1 using "3.IH"(1)[OF "3.prems"(1) q] a by simp
  then show ?case using "3.IH"(2)[OF a[symmetric] _ "3.prems"(1)] "3.prems"(2) a by (simp add: resolve_all_branches)
qed

text \<open>Names that can only be resolved through each other never are.\<close>

lemma resolve_cycle:
  assumes cyc: "\<And>p. p \<in> packages \<Longrightarrow> pkg_name p \<in> N \<Longrightarrow> \<exists>d \<in> set (pkg_dependencies p). dep_name d \<in> N"
  shows "l = lookup \<Longrightarrow> resolve_recursive l rs n v depth = (ok, r) \<Longrightarrow> \<forall>x \<in> N. \<not> is_resolved rs x \<Longrightarrow>
      (\<forall>x \<in> N. \<not> is_resolved r x) \<and> (n \<in> N \<longrightarrow> \<not> ok)"
    and "l = lookup \<Longrightarrow> resolve_all l rs ds depth = (ok, r) \<Longrightarrow> \<forall>x \<in> N. \<not> is_resolved rs x \<Longrightarrow>
      (\<forall>x \<in> N. \<not> is_resolved r x) \<and> ((\<exists>d \<in> set ds. dep_name d \<in> N) \<longrightarrow> \<not> ok)"
proof (induction l rs n v depth and l rs ds depth arbitrary: ok r and ok r rule: resolve_recursive_resolve_all.induct)
  case (1 l rs n v depth)
  consider "depth > 100" | "\<not> depth > 100" "is_resolved rs n" | "\<not> depth > 100" "\<not> is_resolved rs n" "l n v = None"
    | info where "\<not> depth > 100" "\<not> is_resolved rs n" "l n v = Some info"
    by (cases "l n v") auto
  then show ?case
  proof cases
    case 4
    obtain ok1 r1 where a: "resolve_all l rs (pkg_dependencies info) (depth + 1) = (ok1, r1)" by fastforce
    note ih = "1.IH"[OF 4 "1.prems"(1) a "1.prems"(3)]
    have nm: "pkg_name info = n" "info \<in> packages" using lookup_name 4(3) 1(2) by auto
    have res: "ok = ok1" "r = (if ok1 then r1 @ [to_resolved info] else r1)"
      using "1.prems"(2) resolve_recursive_branches(4)[OF 4 a] by (simp_all split: if_splits)
    show ?thesis
    proof (cases "n \<in> N")
      case True
      then have "\<not> ok1" using ih cyc[OF nm(2)] nm(1) by blast
      then show ?thesis using ih res by simp
    next
      case False
      then show ?thesis using ih res nm by (auto simp: is_resolved_def to_resolved_def)
    qed
  next
    case 2
    then have "n \<notin> N" "ok" "r = rs" using "1.prems"(2,3) resolve_recursive_branches(2)[OF 2] by auto
    then show ?thesis using "1.prems"(3) by simp
  qed (use "1.prems"(2,3) in \<open>simp_all add: resolve_recursive_branches\<close>)
next
  case (2 l rs depth)
  then show ?case by (simp add: resolve_all.simps)
next
  case (3 l rs d ds depth)
  obtain ok1 r1 where a: "resolve_recursive l rs (dep_name d) (Some (dep_spec d)) depth = (ok1, r1)" by fastforce
  note ih = "3.IH"(1)[OF "3.prems"(1) a "3.prems"(3)]
  show ?case
  proof (cases ok1)
    case True
    then have "resolve_all l r1 ds depth = (ok, r)" using "3.prems"(2) a by (simp add: resolve_all_branches)
    from "3.IH"(2)[OF a[symmetric] _ "3.prems"(1) this] True ih
    show ?thesis by auto
  next
    case False
    then show ?thesis using "3.prems"(2) a ih by (simp add: resolve_all_branches)
  qed
qed

end

interpretation registry: package_source "pkg_registry_info ps" "set ps" for ps
  by unfold_locales (auto simp: pkg_registry_info_def find_Some_iff)

text \<open>Small registries.\<close>

definition version_100 :: PkgVersion where
  "version_100 = \<lparr>pv_major = 1, pv_minor = 0, pv_patch = 0, pv_prerelease = None\<rparr>"

definition package_of :: "string \<Rightarrow> (string \<times> string) list \<Rightarrow> PkgInfo" where
  "package_of name deps = \<lparr>pkg_name = name, pkg_version = version_100, pkg_description = [],
     pkg_dependencies = map (\<lambda>(n, s). \<lparr>dep_name = n, dep_spec = s\<rparr>) deps\<rparr>"

definition app_packages :: "PkgInfo list" where
  "app_packages = [package_of ''app'' [(''lib'', ''^1.0.0'')], package_of ''lib'' []]"

definition cyclic_packages :: "PkgInfo list" where
  "cyclic_packages = [package_of ''a'' [(''b'', [])], package_of ''b'' [(''a'', [])]]"

text \<open>
  Both requirements of a diamond are taken as met by the first version resolved: the second is never
  compared with it, and the conflict check, which looks for two entries of one name, finds nothing.
\<close>

definition diamond_packages :: "PkgInfo list" where
  "diamond_packages = [package_of ''app'' [(''x'', []), (''y'', [])], package_of ''x'' [(''z'', ''^1.0.0'')],
     package_of ''y'' [(''z'', ''^2.0.0'')], package_of ''z'' []]"

lemma pkg_resolver_diamond_conflict:
  "pkg_resolver_resolve diamond_packages [] ''app'' None
     = (True, map to_resolved [package_of ''z'' [], package_of ''x'' [(''z'', ''^1.0.0'')],
         package_of ''y'' [(''z'', ''^2.0.0'')], package_of ''app'' [(''x'', []), (''y'', [])]])"
  "\<not> pkg_version_satisfies version_100 ''^2.0.0''"
  "pkg_resolver_check_conflicts (snd (pkg_resolver_resolve diamond_packages [] ''app'' None))"
  by code_simp+

text \<open>
  C33: What the resolver returns is an installation order: when resolving succeeds, the root package is
  in the list, every entry is a package of the registry, and all dependencies of every entry stand
  before it.
\<close>

theorem pkg_resolver_install_order:
  assumes "pkg_resolver_resolve ps [] name version = (True, rs)"
  shows "install_order rs \<and> is_resolved rs name \<and> set rs \<subseteq> to_resolved ` set ps"
  using registry.resolve_sound(1)[OF refl assms[unfolded pkg_resolver_resolve_def]]
  by (simp add: registry.extends_def install_order_def)

theorem pkg_resolver_install_order_witness:
  "install_order (map to_resolved [package_of ''lib'' [], package_of ''app'' [(''lib'', ''^1.0.0'')]])"
proof -
  have "pkg_resolver_resolve app_packages [] ''app'' (Some ''~1.0.0'')
      = (True, map to_resolved [package_of ''lib'' [], package_of ''app'' [(''lib'', ''^1.0.0'')]])"
    by code_simp
  from pkg_resolver_install_order[OF this] show ?thesis by simp
qed

text \<open>
  C34: The resolver is complete: if every dependency of every package has a matching package of smaller
  rank, so that there are no cycles, and the root's rank is at most 100, resolving it succeeds,
  whatever has been resolved before.
\<close>

theorem pkg_resolver_complete:
  assumes "\<And>p d. p \<in> set ps \<Longrightarrow> d \<in> set (pkg_dependencies p) \<Longrightarrow>
      \<exists>q. pkg_registry_info ps (dep_name d) (Some (dep_spec d)) = Some q \<and> rank q < (rank p :: nat)"
    and "pkg_registry_info ps name version = Some p" and "rank p \<le> 100"
  shows "fst (pkg_resolver_resolve ps rs name version)"
  unfolding pkg_resolver_resolve_def using registry.resolve_complete(1)[of ps rank, OF assms(1) refl assms(2), of 0] assms(3) by simp

theorem pkg_resolver_complete_witness:
  "fst (pkg_resolver_resolve app_packages [] ''app'' None)"
proof (rule pkg_resolver_complete[where rank = "\<lambda>p. length (pkg_dependencies p)" and p = "package_of ''app'' [(''lib'', ''^1.0.0'')]"])
  fix p d assume "p \<in> set app_packages" "d \<in> set (pkg_dependencies p)"
  then have p: "p = package_of ''app'' [(''lib'', ''^1.0.0'')]" and d: "d = \<lparr>dep_name = ''lib'', dep_spec = ''^1.0.0''\<rparr>"
    by (auto simp: app_packages_def package_of_def)
  have "pkg_registry_info app_packages ''lib'' (Some ''^1.0.0'') = Some (package_of ''lib'' [])" by code_simp
  then show "\<exists>q. pkg_registry_info app_packages (dep_name d) (Some (dep_spec d)) = Some q
      \<and> length (pkg_dependencies q) < length (pkg_dependencies p)"
    by (simp add: p d package_of_def)
qed code_simp+



end
