(* ===== verification/Sym_Table.thy ===== *)
theory Sym_Table
  imports Casprix_Prelude
begin

text \<open>
  The symbol table of semantic analysis: \<^verbatim>\<open>src/compiler/sema/symtable.c\<close>, symbols and scopes.  The
  symbols lie in one array, innermost last; a scope is a number.  The objects that class and trait
  symbols point to are kept in lists of the table, a pointer is an index, and leaving a scope frees
  none of them.  Pointers into the syntax tree and to ownership data are not kept.
\<close>

section \<open>Data\<close>

datatype SymbolKind = SYMBOL_VARIABLE | SYMBOL_FUNCTION | SYMBOL_PARAMETER | SYMBOL_CLASS | SYMBOL_TRAIT

datatype DataType =
    TYPE_I8 | TYPE_I16 | TYPE_I32 | TYPE_I64 | TYPE_I128
  | TYPE_U8 | TYPE_U16 | TYPE_U32 | TYPE_U64 | TYPE_U128
  | TYPE_F16 | TYPE_F32 | TYPE_F64 | TYPE_BF16
  | TYPE_BOOL | TYPE_CHAR | TYPE_STRING | TYPE_STRBUF | TYPE_VOID
  | TYPE_STRUCT | TYPE_ENUM | TYPE_UNION | TYPE_CLASS
  | TYPE_ARRAY | TYPE_STATIC_ARRAY | TYPE_SLICE
  | TYPE_PTR | TYPE_RAWPTR | TYPE_REF
  | TYPE_VEC | TYPE_MAT | TYPE_TENSOR
  | TYPE_FUNC | TYPE_DYN | TYPE_GENERIC | TYPE_FUTURE | TYPE_ERROR

datatype AccessModifier = ACCESS_PUBLIC | ACCESS_PRIVATE | ACCESS_PROTECTED

record FieldSymbol =
  fld_name :: string
  fld_type :: DataType
  fld_class :: "string option"
  fld_offset :: int
  fld_const :: bool
  fld_mutable :: bool
  fld_static :: bool
  fld_access :: AccessModifier

record MethodSymbol =
  mth_name :: string
  mth_return :: DataType
  mth_params :: "DataType list"
  mth_ctor :: bool
  mth_static :: bool
  mth_abstract :: bool
  vtable_index :: int
  mth_access :: AccessModifier

record ClassSymbol =
  cls_name :: string
  parent_class :: "string option"
  parent :: "nat option"
  cls_abstract :: bool
  cls_fields :: "FieldSymbol list"
  cls_methods :: "MethodSymbol list"
  instance_size :: int

record TraitMethodSymbol =
  tm_name :: string
  tm_return :: DataType
  tm_return_class :: "string option"
  tm_params :: "DataType list"
  tm_default :: bool

record TraitSymbol =
  tr_name :: string
  tr_methods :: "TraitMethodSymbol list"

record Symbol =
  sym_name :: string
  sym_kind :: SymbolKind
  sym_type :: DataType
  scope_depth :: int
  is_initialized :: bool
  is_mutable :: bool
  sym_const :: bool
  sym_params :: "DataType list"
  sym_return :: DataType
  sym_extern :: bool
  sym_async :: bool
  is_closure_value :: bool
  closure_capture_types :: "DataType list"
  closure_lambda_id :: int
  is_heap_allocated :: bool
  class_info :: "nat option"
  trait_info :: "nat option"

record SymbolTable =
  symbols :: "Symbol list"
  table_capacity :: nat
  class_heap :: "ClassSymbol list"
  trait_heap :: "TraitSymbol list"

section \<open>Symbols\<close>

definition init_symbol_table :: SymbolTable where
  "init_symbol_table = \<lparr>symbols = [], table_capacity = 16, class_heap = [], trait_heap = []\<rparr>"

text \<open>The search for a declaration of the same scope, from the last symbol on.\<close>

fun redeclared :: "Symbol list \<Rightarrow> string \<Rightarrow> int \<Rightarrow> bool" where
  "redeclared [] name depth = False"
| "redeclared (s # ss) name depth =
     (if scope_depth s < depth then False
      else if sym_name s = name then True
      else redeclared ss name depth)"

definition new_symbol :: "string \<Rightarrow> SymbolKind \<Rightarrow> DataType \<Rightarrow> int \<Rightarrow> Symbol" where
  "new_symbol name kind type depth =
     \<lparr>sym_name = name, sym_kind = kind, sym_type = type, scope_depth = depth, is_initialized = False,
      is_mutable = True, sym_const = False, sym_params = [], sym_return = TYPE_ERROR, sym_extern = False,
      sym_async = False, is_closure_value = False, closure_capture_types = [], closure_lambda_id = - 1,
      is_heap_allocated = False, class_info = None, trait_info = None\<rparr>"

definition grow_capacity :: "nat \<Rightarrow> nat" where
  "grow_capacity c = (if c < 8 then 8 else c * 2)"

definition add_symbol :: "SymbolTable \<Rightarrow> string \<Rightarrow> SymbolKind \<Rightarrow> DataType \<Rightarrow> int \<Rightarrow> bool \<times> SymbolTable" where
  "add_symbol table name kind type depth =
     (if redeclared (rev (symbols table)) name depth then (False, table)
      else (True, table\<lparr>table_capacity := (if length (symbols table) \<ge> table_capacity table
                         then grow_capacity (table_capacity table) else table_capacity table),
                       symbols := symbols table @ [new_symbol name kind type depth]\<rparr>))"

definition update_last :: "(Symbol \<Rightarrow> Symbol) \<Rightarrow> SymbolTable \<Rightarrow> SymbolTable" where
  "update_last f table = table\<lparr>symbols := (symbols table)[length (symbols table) - 1 := f (last (symbols table))]\<rparr>"

definition add_function :: "SymbolTable \<Rightarrow> string \<Rightarrow> DataType \<Rightarrow> DataType list \<Rightarrow> int \<Rightarrow> bool \<times> SymbolTable" where
  "add_function table name return_type params depth =
     (case add_symbol table name SYMBOL_FUNCTION return_type depth of
        (False, t) \<Rightarrow> (False, t)
      | (True, t) \<Rightarrow> (True, update_last (\<lambda>s. s\<lparr>sym_return := return_type, sym_params := params\<rparr>) t))"

definition add_extern_function :: "SymbolTable \<Rightarrow> string \<Rightarrow> DataType \<Rightarrow> DataType list \<Rightarrow> int \<Rightarrow> bool \<times> SymbolTable" where
  "add_extern_function table name return_type params depth =
     (case add_function table name return_type params depth of
        (False, t) \<Rightarrow> (False, t)
      | (True, t) \<Rightarrow> (True, update_last (\<lambda>s. s\<lparr>sym_extern := True\<rparr>) t))"

definition lookup_symbol :: "SymbolTable \<Rightarrow> string \<Rightarrow> Symbol option" where
  "lookup_symbol table name = find (\<lambda>s. sym_name s = name) (rev (symbols table))"

definition enter_scope :: "SymbolTable \<Rightarrow> int \<Rightarrow> SymbolTable \<times> int" where
  "enter_scope table depth = (table, depth + 1)"

text \<open>Symbols are popped as long as the last one has the number of the scope.\<close>

definition exit_scope :: "SymbolTable \<Rightarrow> int \<Rightarrow> SymbolTable \<times> int" where
  "exit_scope table depth =
     (table\<lparr>symbols := rev (dropWhile (\<lambda>s. scope_depth s = depth) (rev (symbols table)))\<rparr>, depth - 1)"

text \<open>
  The scopes of a \<^verbatim>\<open>for\<close>-\<^verbatim>\<open>in\<close> loop and of a \<^verbatim>\<open>catch\<close> clause in \<^verbatim>\<open>semantic.c\<close>: both use a local
  counter that starts at zero, not the analyser's scope number.  What the body does to the table is a
  parameter.
\<close>

definition analyze_for_in_scope :: "(SymbolTable \<Rightarrow> SymbolTable) \<Rightarrow> string \<Rightarrow> SymbolTable \<Rightarrow> SymbolTable" where
  "analyze_for_in_scope body var_name table =
     (let (t1, scope) = enter_scope table 0;
          t2 = snd (add_symbol t1 var_name SYMBOL_VARIABLE TYPE_I64 scope);
          t3 = body t2
      in fst (exit_scope t3 scope))"

definition analyze_catch_scope :: "(SymbolTable \<Rightarrow> SymbolTable) \<Rightarrow> string option \<Rightarrow> SymbolTable \<Rightarrow> SymbolTable" where
  "analyze_catch_scope body exception_var table =
     (let (t1, scope) = enter_scope table 0;
          t2 = (case exception_var of None \<Rightarrow> t1 | Some v \<Rightarrow> snd (add_symbol t1 v SYMBOL_VARIABLE TYPE_I64 scope));
          t3 = body t2
      in fst (exit_scope t3 scope))"

section \<open>What semantic analysis relies on: a stack of scopes\<close>

datatype 'd scope_op = Declare string 'd | EnterScope | ExitScope

text \<open>The specification: a stack of finite maps, innermost first.  Leaving the last scope is not allowed.\<close>

fun scope_spec :: "(string \<Rightarrow> 'd \<Rightarrow> nat \<Rightarrow> 'v) \<Rightarrow> 'd scope_op list \<Rightarrow> (string \<Rightarrow> 'v option) list \<Rightarrow> (bool list \<times> (string \<Rightarrow> 'v option) list) option" where
  "scope_spec mk [] st = Some ([], st)"
| "scope_spec mk (Declare n d # ops) (m # st) =
     (if m n = None then map_option (apfst ((#) True)) (scope_spec mk ops (m(n \<mapsto> mk n d (length st)) # st))
      else map_option (apfst ((#) False)) (scope_spec mk ops (m # st)))"
| "scope_spec mk (EnterScope # ops) st = scope_spec mk ops (Map.empty # st)"
| "scope_spec mk (ExitScope # ops) (m # m' # st) = scope_spec mk ops (m' # st)"
| "scope_spec mk _ _ = None"

fun stack_lookup :: "(string \<Rightarrow> 'v option) list \<Rightarrow> string \<Rightarrow> 'v option" where
  "stack_lookup [] n = None"
| "stack_lookup (m # st) n = (case m n of Some v \<Rightarrow> Some v | None \<Rightarrow> stack_lookup st n)"

text \<open>Operations that leave every scope they enter, and no other.\<close>

fun balanced :: "nat \<Rightarrow> 'd scope_op list \<Rightarrow> bool" where
  "balanced k [] = (k = 0)"
| "balanced k (Declare n d # ops) = balanced k ops"
| "balanced k (EnterScope # ops) = balanced (Suc k) ops"
| "balanced k (ExitScope # ops) = (k > 0 \<and> balanced (k - 1) ops)"

fun scope_run :: "('s \<Rightarrow> string \<Rightarrow> 'd \<Rightarrow> bool \<times> 's) \<Rightarrow> ('s \<Rightarrow> 's) \<Rightarrow> ('s \<Rightarrow> 's) \<Rightarrow> 'd scope_op list \<Rightarrow> 's \<Rightarrow> bool list \<times> 's" where
  "scope_run decl enter leave [] s = ([], s)"
| "scope_run decl enter leave (Declare n d # ops) s =
     (case decl s n d of (b, s1) \<Rightarrow> apfst ((#) b) (scope_run decl enter leave ops s1))"
| "scope_run decl enter leave (EnterScope # ops) s = scope_run decl enter leave ops (enter s)"
| "scope_run decl enter leave (ExitScope # ops) s = scope_run decl enter leave ops (leave s)"

lemma scope_spec_balanced:
  "balanced k ops \<Longrightarrow> length st = Suc k \<Longrightarrow> \<exists>outs m. scope_spec mk ops (st @ outer) = Some (outs, m # outer)"
proof (induction ops arbitrary: k st)
  case Nil
  then show ?case by (cases st) auto
next
  case (Cons op ops)
  obtain m st' where st: "st = m # st'" using Cons.prems(2) by (cases st) auto
  show ?case
  proof (cases op)
    case (Declare n d)
    then show ?thesis
      using Cons.IH[of k "m(n \<mapsto> mk n d (length (st' @ outer))) # st'"] Cons.IH[of k st] Cons.prems st
      by (cases "m n") auto
  next
    case EnterScope
    then show ?thesis using Cons.IH[of "Suc k" "Map.empty # st"] Cons.prems by simp
  next
    case ExitScope
    then obtain k' m' st'' where "k = Suc k'" "st' = m' # st''" using Cons.prems st by (cases k; cases st') auto
    then show ?thesis using Cons.IH[of k' st'] Cons.prems st ExitScope by simp
  qed
qed

locale scope_stack =
  fixes inv :: "'s \<Rightarrow> bool"
    and scopes :: "'s \<Rightarrow> (string \<Rightarrow> 'v option) list"
    and decl :: "'s \<Rightarrow> string \<Rightarrow> 'd \<Rightarrow> bool \<times> 's"
    and enter :: "'s \<Rightarrow> 's"
    and leave :: "'s \<Rightarrow> 's"
    and look :: "'s \<Rightarrow> string \<Rightarrow> 'v option"
    and mk :: "string \<Rightarrow> 'd \<Rightarrow> nat \<Rightarrow> 'v"
  assumes decl_law: "inv s \<Longrightarrow> scopes s = m # st \<Longrightarrow> decl s n d = (b, s') \<Longrightarrow>
      inv s' \<and> (if m n = None then b \<and> scopes s' = m(n \<mapsto> mk n d (length st)) # st else \<not> b \<and> s' = s)"
    and enter_law: "inv s \<Longrightarrow> inv (enter s) \<and> scopes (enter s) = Map.empty # scopes s"
    and leave_law: "inv s \<Longrightarrow> scopes s = m # m' # st \<Longrightarrow> inv (leave s) \<and> scopes (leave s) = m' # st"
    and look_law: "inv s \<Longrightarrow> look s n = stack_lookup (scopes s) n"
begin

lemma run_refines:
  "inv s \<Longrightarrow> scope_spec mk ops (scopes s) = Some (outs, st) \<Longrightarrow>
     \<exists>s'. scope_run decl enter leave ops s = (outs, s') \<and> inv s' \<and> scopes s' = st \<and> (\<forall>n. look s' n = stack_lookup st n)"
proof (induction ops arbitrary: s outs)
  case Nil
  then show ?case using look_law by auto
next
  case (Cons op ops)
  show ?case
  proof (cases op)
    case (Declare n d)
    then obtain m st0 where sc: "scopes s = m # st0" using Cons.prems(2) by (cases "scopes s") auto
    obtain b s1 where d: "decl s n d = (b, s1)" by fastforce
    show ?thesis
    proof (cases "m n = None")
      case True
      then have s1: "inv s1" "b" "scopes s1 = m(n \<mapsto> mk n d (length st0)) # st0"
        using decl_law[OF Cons.prems(1) sc d] by auto
      then obtain outs' where "scope_spec mk ops (scopes s1) = Some (outs', st)" "outs = True # outs'"
        using Cons.prems(2) True by (auto simp: Declare sc)
      then show ?thesis using Cons.IH[OF s1(1)] s1(2) by (fastforce simp: Declare d)
    next
      case False
      then have s1: "inv s1" "\<not> b" "s1 = s" using decl_law[OF Cons.prems(1) sc d] by auto
      then obtain outs' where "scope_spec mk ops (scopes s1) = Some (outs', st)" "outs = False # outs'"
        using Cons.prems(2) False by (auto simp: Declare sc)
      then show ?thesis using Cons.IH[OF s1(1)] s1(2) by (fastforce simp: Declare d)
    qed
  next
    case EnterScope
    then show ?thesis using Cons.IH[of "enter s"] Cons.prems enter_law[OF Cons.prems(1)] by simp
  next
    case ExitScope
    then obtain m m' st0 where sc: "scopes s = m # m' # st0"
      using Cons.prems(2) by (cases "scopes s" rule: list.exhaust; cases "tl (scopes s)" rule: list.exhaust) auto
    then show ?thesis using Cons.IH[of "leave s"] Cons.prems leave_law[OF Cons.prems(1) sc] ExitScope by simp
  qed
qed

text \<open>A block, whatever it declares, leaves the meaning of all names as it found it.\<close>

lemma block_restores:
  assumes "inv s" and ne: "scopes s \<noteq> []" and "balanced 0 ops" and "scope_run decl enter leave (EnterScope # ops @ [ExitScope]) s = (outs, s')"
  shows "inv s' \<and> scopes s' = scopes s \<and> look s' = look s"
proof -
  have split: "scope_run decl enter leave (xs @ ys) a = (let (o1, b) = scope_run decl enter leave xs a; (o2, c) = scope_run decl enter leave ys b in (o1 @ o2, c))" for xs ys a
  proof (induction xs arbitrary: a)
    case (Cons x xs)
    then show ?case by (cases x) (auto split: prod.splits)
  qed simp
  obtain o1 m where "scope_spec mk ops ([Map.empty] @ scopes s) = Some (o1, m # scopes s)"
    using scope_spec_balanced[OF assms(3), where st = "[Map.empty]" and mk = mk and outer = "scopes s"] by auto
  then obtain s1 where s1: "scope_run decl enter leave ops (enter s) = (o1, s1)" "inv s1" "scopes s1 = m # scopes s"
    using run_refines[of "enter s" ops o1 "m # scopes s"] enter_law[OF assms(1)] by auto
  moreover from this obtain m' st where "scopes s = m' # st" using ne by (cases "scopes s") auto
  ultimately have "inv (leave s1) \<and> scopes (leave s1) = scopes s" using leave_law by simp
  moreover have "s' = leave s1" using assms(4) s1(1) by (auto simp: split)
  ultimately show ?thesis using look_law assms(1) by auto
qed

end

section \<open>The symbol table is a stack of scopes\<close>

datatype SymbolDecl =
    DeclSymbol SymbolKind DataType
  | DeclFunction DataType "DataType list"
  | DeclExtern DataType "DataType list"

fun declare_symbol :: "SymbolTable \<times> int \<Rightarrow> string \<Rightarrow> SymbolDecl \<Rightarrow> bool \<times> SymbolTable \<times> int" where
  "declare_symbol (t, depth) n (DeclSymbol k ty) = (case add_symbol t n k ty depth of (b, t') \<Rightarrow> (b, t', depth))"
| "declare_symbol (t, depth) n (DeclFunction r ps) = (case add_function t n r ps depth of (b, t') \<Rightarrow> (b, t', depth))"
| "declare_symbol (t, depth) n (DeclExtern r ps) = (case add_extern_function t n r ps depth of (b, t') \<Rightarrow> (b, t', depth))"

text \<open>The symbol a declaration stands for.\<close>

fun declared :: "string \<Rightarrow> SymbolDecl \<Rightarrow> nat \<Rightarrow> Symbol" where
  "declared n (DeclSymbol k ty) depth = new_symbol n k ty (int depth)"
| "declared n (DeclFunction r ps) depth = (new_symbol n SYMBOL_FUNCTION r (int depth))\<lparr>sym_return := r, sym_params := ps\<rparr>"
| "declared n (DeclExtern r ps) depth = (new_symbol n SYMBOL_FUNCTION r (int depth))\<lparr>sym_return := r, sym_params := ps, sym_extern := True\<rparr>"

definition scope_map :: "Symbol list \<Rightarrow> nat \<Rightarrow> string \<Rightarrow> Symbol option" where
  "scope_map ss k n = find (\<lambda>s. sym_name s = n \<and> scope_depth s = int k) ss"

definition table_scopes :: "SymbolTable \<times> int \<Rightarrow> (string \<Rightarrow> Symbol option) list" where
  "table_scopes s = map (scope_map (symbols (fst s))) (rev [0..<Suc (nat (snd s))])"

definition symbols_ok :: "nat \<Rightarrow> Symbol list \<Rightarrow> bool" where
  "symbols_ok K ss \<longleftrightarrow> sorted (map scope_depth ss) \<and> (\<forall>s \<in> set ss. 0 \<le> scope_depth s \<and> scope_depth s < int K)
     \<and> distinct (map (\<lambda>s. (scope_depth s, sym_name s)) ss)"

definition table_inv :: "SymbolTable \<times> int \<Rightarrow> bool" where
  "table_inv s \<longleftrightarrow> 0 \<le> snd s \<and> symbols_ok (Suc (nat (snd s))) (symbols (fst s))"

lemma find_append: "find P (xs @ ys) = (case find P xs of Some x \<Rightarrow> Some x | None \<Rightarrow> find P ys)"
  by (induction xs) auto

lemma find_rev_unique:
  "(\<And>x y. x \<in> set xs \<Longrightarrow> y \<in> set xs \<Longrightarrow> P x \<Longrightarrow> P y \<Longrightarrow> x = y) \<Longrightarrow> find P (rev xs) = find P xs"
proof (induction xs)
  case (Cons a xs)
  have "find P (rev xs) = find P xs" using Cons.IH Cons.prems by simp
  moreover have "x = a" if "find P xs = Some x" "P a" for x
    using that Cons.prems[of x a] by (auto simp: find_Some_iff)
  ultimately show ?case by (simp add: find_append split: option.split)
qed simp

lemma redeclared_sorted:
  "sorted (rev (map scope_depth xs)) \<Longrightarrow> redeclared xs n d \<longleftrightarrow> (\<exists>s \<in> set xs. d \<le> scope_depth s \<and> sym_name s = n)"
proof (induction xs)
  case (Cons x xs)
  have "\<forall>s \<in> set xs. scope_depth s \<le> scope_depth x" using Cons.prems by (simp add: sorted_append)
  moreover have "redeclared xs n d \<longleftrightarrow> (\<exists>s \<in> set xs. d \<le> scope_depth s \<and> sym_name s = n)"
    using Cons by (simp add: sorted_append)
  ultimately show ?case by (auto dest: order_trans)
qed simp

lemma dropWhile_sorted:
  "sorted (rev (map scope_depth xs)) \<Longrightarrow> \<forall>s \<in> set xs. scope_depth s \<le> d \<Longrightarrow>
     dropWhile (\<lambda>s. scope_depth s = d) xs = filter (\<lambda>s. scope_depth s < d) xs"
proof (induction xs)
  case (Cons x xs)
  show ?case
  proof (cases "scope_depth x = d")
    case False
    then have "scope_depth x < d" using Cons.prems(2) by simp
    moreover have "\<forall>s \<in> set xs. scope_depth s \<le> scope_depth x" using Cons.prems(1) by (simp add: sorted_append)
    ultimately have "scope_depth s < d" if "s \<in> set (x # xs)" for s using that by fastforce
    then have "filter (\<lambda>s. scope_depth s < d) (x # xs) = x # xs" by (simp add: filter_id_conv)
    then show ?thesis using False by simp
  qed (use Cons in \<open>simp add: sorted_append\<close>)
qed simp

lemma symbols_split:
  "symbols_ok (Suc K) ss \<Longrightarrow> ss = filter (\<lambda>s. scope_depth s < int K) ss @ filter (\<lambda>s. scope_depth s = int K) ss"
proof (induction ss)
  case (Cons x ss)
  then have ok: "symbols_ok (Suc K) ss" by (simp add: symbols_ok_def)
  show ?case
  proof (cases "scope_depth x < int K")
    case True
    then have "filter (\<lambda>s. scope_depth s < int K) (x # ss) @ filter (\<lambda>s. scope_depth s = int K) (x # ss)
        = x # (filter (\<lambda>s. scope_depth s < int K) ss @ filter (\<lambda>s. scope_depth s = int K) ss)" by simp
    then show ?thesis using Cons.IH[OF ok] by metis
  next
    case False
    moreover have "scope_depth x \<le> scope_depth s" "scope_depth s < int K + 1" if "s \<in> set (x # ss)" for s
      using Cons.prems that by (auto simp: symbols_ok_def)
    ultimately have "scope_depth s = int K" if "s \<in> set (x # ss)" for s using that by (meson not_less order_trans zless_add1_eq order_antisym)
    then have "filter (\<lambda>s. scope_depth s < int K) (x # ss) = []" "filter (\<lambda>s. scope_depth s = int K) (x # ss) = x # ss"
      by (simp_all add: filter_empty_conv filter_id_conv)
    then show ?thesis by simp
  qed
qed simp

lemma symbols_ok_filter: "symbols_ok K ss \<Longrightarrow> symbols_ok k (filter (\<lambda>s. scope_depth s < int k) ss)"
  unfolding symbols_ok_def by (auto simp: sorted_filter distinct_map inj_on_def)

lemma scope_map_filter: "k < K \<Longrightarrow> scope_map (filter (\<lambda>s. scope_depth s < int K) ss) k = scope_map ss k"
proof
  fix n assume "k < K"
  then show "scope_map (filter (\<lambda>s. scope_depth s < int K) ss) k n = scope_map ss k n"
    unfolding scope_map_def by (induction ss) auto
qed

lemma lookup_stack:
  "symbols_ok K ss \<Longrightarrow> find (\<lambda>s. sym_name s = n) (rev ss) = stack_lookup (map (scope_map ss) (rev [0..<K])) n"
proof (induction K arbitrary: ss)
  case 0
  then have "ss = []" by (cases ss) (auto simp: symbols_ok_def)
  then show ?case by simp
next
  case (Suc K)
  define lo where "lo = filter (\<lambda>s. scope_depth s < int K) ss"
  define hi where "hi = filter (\<lambda>s. scope_depth s = int K) ss"
  have ss: "ss = lo @ hi" using symbols_split[OF Suc.prems] by (simp add: lo_def hi_def)
  have "x = y" if "x \<in> set hi" "y \<in> set hi" "sym_name x = n" "sym_name y = n" for x y
    using that Suc.prems unfolding symbols_ok_def hi_def distinct_map inj_on_def by auto
  then have "find (\<lambda>s. sym_name s = n) (rev hi) = find (\<lambda>s. sym_name s = n) hi" by (rule find_rev_unique)
  also have "\<dots> = scope_map ss K n" unfolding scope_map_def hi_def by (induction ss) auto
  finally have hi: "find (\<lambda>s. sym_name s = n) (rev hi) = scope_map ss K n" .
  have "symbols_ok K lo" unfolding lo_def by (rule symbols_ok_filter[OF Suc.prems])
  moreover have "map (scope_map lo) (rev [0..<K]) = map (scope_map ss) (rev [0..<K])"
    unfolding lo_def by (simp add: scope_map_filter)
  ultimately have "find (\<lambda>s. sym_name s = n) (rev lo) = stack_lookup (map (scope_map ss) (rev [0..<K])) n"
    using Suc.IH by metis
  then show ?case using hi by (simp add: ss[THEN arg_cong, of rev] find_append split: option.split)
qed

lemma declare_symbol_cases:
  "declare_symbol (t, int K) n d = (b, t') \<Longrightarrow>
     (if redeclared (rev (symbols t)) n (int K) then \<not> b \<and> t' = (t, int K)
      else b \<and> snd t' = int K \<and> symbols (fst t') = symbols t @ [declared n d K])"
  by (cases d) (auto simp: add_extern_function_def add_function_def add_symbol_def update_last_def split: if_splits)

lemma declared_simps [simp]: "sym_name (declared n d K) = n" "scope_depth (declared n d K) = int K"
  by (cases d; simp add: new_symbol_def)+

lemma scope_map_None: "scope_map ss k n = None \<longleftrightarrow> (\<forall>s \<in> set ss. \<not> (sym_name s = n \<and> scope_depth s = int k))"
  by (auto simp: scope_map_def find_None_iff)

lemma scope_map_snoc:
  "k \<noteq> K \<Longrightarrow> scope_map (ss @ [declared n d K]) k = scope_map ss k"
  "scope_map ss K n = None \<Longrightarrow> scope_map (ss @ [declared n d K]) K = (scope_map ss K)(n \<mapsto> declared n d K)"
  by (auto simp: scope_map_def find_append fun_eq_iff split: option.split)

lemma redeclared_scope:
  assumes "symbols_ok (Suc K) ss"
  shows "redeclared (rev ss) n (int K) \<longleftrightarrow> scope_map ss K n \<noteq> None"
proof -
  have "redeclared (rev ss) n (int K) \<longleftrightarrow> (\<exists>s \<in> set ss. int K \<le> scope_depth s \<and> sym_name s = n)"
    using redeclared_sorted[of "rev ss"] assms by (simp add: symbols_ok_def rev_map)
  also have "\<dots> \<longleftrightarrow> (\<exists>s \<in> set ss. sym_name s = n \<and> scope_depth s = int K)"
  proof -
    have "int K \<le> scope_depth s \<longleftrightarrow> scope_depth s = int K" if "s \<in> set ss" for s
      using assms that unfolding symbols_ok_def by force
    then show ?thesis by blast
  qed
  finally show ?thesis by (auto simp: scope_map_None)
qed

lemma exit_scope_symbols:
  assumes "symbols_ok (Suc K) (symbols t)"
  shows "symbols (fst (exit_scope t (int K))) = filter (\<lambda>s. scope_depth s < int K) (symbols t)"
proof -
  have "dropWhile (\<lambda>s. scope_depth s = int K) (rev (symbols t)) = filter (\<lambda>s. scope_depth s < int K) (rev (symbols t))"
    by (rule dropWhile_sorted) (use assms in \<open>auto simp: symbols_ok_def rev_map\<close>)
  then show ?thesis by (simp add: exit_scope_def rev_filter[symmetric])
qed

lemma table_inv_iff: "table_inv s \<longleftrightarrow> (\<exists>t K. s = (t, int K) \<and> symbols_ok (Suc K) (symbols t))"
proof
  assume "table_inv s"
  then show "\<exists>t K. s = (t, int K) \<and> symbols_ok (Suc K) (symbols t)"
    by (intro exI[of _ "fst s"] exI[of _ "nat (snd s)"]) (auto simp: table_inv_def prod_eq_iff)
qed (auto simp: table_inv_def)

lemma table_scopes_int: "table_scopes (t, int K) = scope_map (symbols t) K # map (scope_map (symbols t)) (rev [0..<K])"
  by (simp add: table_scopes_def)

interpretation symtab: scope_stack table_inv table_scopes declare_symbol
  "\<lambda>(t, depth). enter_scope t depth" "\<lambda>(t, depth). exit_scope t depth" "\<lambda>(t, depth). lookup_symbol t" declared
proof
  fix s m st n d b s'
  assume inv: "table_inv s" and sc: "table_scopes s = m # st" and d: "declare_symbol s n d = (b, s')"
  obtain t K where s: "s = (t, int K)" and ok: "symbols_ok (Suc K) (symbols t)" using inv by (auto simp: table_inv_iff)
  have m: "m = scope_map (symbols t) K" "st = map (scope_map (symbols t)) (rev [0..<K])" "length st = K"
    using sc unfolding s table_scopes_int by auto
  show "table_inv s' \<and> (if m n = None then b \<and> table_scopes s' = m(n \<mapsto> declared n d (length st)) # st else \<not> b \<and> s' = s)"
  proof (cases "m n = None")
    case False
    then have "redeclared (rev (symbols t)) n (int K)" using redeclared_scope[OF ok] m by auto
    then show ?thesis using declare_symbol_cases[OF d[unfolded s]] False inv s by simp
  next
    case True
    then have "\<not> redeclared (rev (symbols t)) n (int K)" using redeclared_scope[OF ok] m by auto
    then obtain t' where s': "b" "s' = (t', int K)" "symbols t' = symbols t @ [declared n d K]"
      using declare_symbol_cases[OF d[unfolded s]] by (cases s') auto
    have "symbols_ok (Suc K) (symbols t')"
      using ok True unfolding s'(3) m(1) symbols_ok_def scope_map_None by (auto simp: sorted_append)
    then have "table_inv s'" using s'(2) by (auto simp: table_inv_iff)
    moreover have "table_scopes s' = m(n \<mapsto> declared n d K) # st"
      using True unfolding s'(2) table_scopes_int s'(3) m by (simp add: scope_map_snoc)
    ultimately show ?thesis using s'(1) True m(3) by simp
  qed
next
  fix s assume "table_inv s"
  then obtain t K where s: "s = (t, int K)" and ok: "symbols_ok (Suc K) (symbols t)" by (auto simp: table_inv_iff)
  have e: "(case s of (t, depth) \<Rightarrow> enter_scope t depth) = (t, int (Suc K))" by (simp add: s enter_scope_def)
  have "symbols_ok (Suc (Suc K)) (symbols t)" using ok by (auto simp: symbols_ok_def)
  then have "table_inv (t, int (Suc K))" unfolding table_inv_iff by blast
  moreover have "scope_map (symbols t) (Suc K) = Map.empty"
    using ok by (force simp: scope_map_None fun_eq_iff symbols_ok_def)
  ultimately show "table_inv (case s of (t, depth) \<Rightarrow> enter_scope t depth)
      \<and> table_scopes (case s of (t, depth) \<Rightarrow> enter_scope t depth) = Map.empty # table_scopes s"
    unfolding e by (simp only: s table_scopes_int) auto
next
  fix s m m' st
  assume inv: "table_inv s" and sc: "table_scopes s = m # m' # st"
  obtain t K where s: "s = (t, int K)" and ok: "symbols_ok (Suc K) (symbols t)" using inv by (auto simp: table_inv_iff)
  obtain k where k: "K = Suc k" using sc[unfolded s table_scopes_int] by (cases K) auto
  obtain t' where e: "exit_scope t (int K) = (t', int k)" by (auto simp: exit_scope_def k)
  have t': "symbols t' = filter (\<lambda>s. scope_depth s < int K) (symbols t)" using exit_scope_symbols[OF ok] e by simp
  have "symbols_ok K (symbols t')" unfolding t' by (rule symbols_ok_filter[OF ok])
  moreover have "table_scopes (t', int k) = m' # st"
    using sc scope_map_filter[of _ K "symbols t"] unfolding s table_scopes_int t' by (auto simp: k)
  ultimately show "table_inv (case s of (t, depth) \<Rightarrow> exit_scope t depth) \<and> table_scopes (case s of (t, depth) \<Rightarrow> exit_scope t depth) = m' # st"
    using e k by (auto simp: s table_inv_iff)
next
  fix s n assume "table_inv s"
  then obtain t K where s: "s = (t, int K)" and ok: "symbols_ok (Suc K) (symbols t)" by (auto simp: table_inv_iff)
  show "(case s of (t, depth) \<Rightarrow> lookup_symbol t) n = stack_lookup (table_scopes s) n"
    using lookup_stack[OF ok] by (simp add: s lookup_symbol_def table_scopes_def)
qed

text \<open>The operations as semantic analysis runs them.\<close>

abbreviation symtab_run :: "SymbolDecl scope_op list \<Rightarrow> SymbolTable \<times> int \<Rightarrow> bool list \<times> SymbolTable \<times> int" where
  "symtab_run \<equiv> scope_run declare_symbol (\<lambda>(t, depth). enter_scope t depth) (\<lambda>(t, depth). exit_scope t depth)"

text \<open>
  C36: The symbol table is a stack of scopes.  Any sequence of declarations of variables, functions and
  extern functions, scope entries and exits that never leaves the global scope answers as a stack of
  finite maps does: a declaration is refused exactly when its name is in the innermost map, leaving a
  scope removes the innermost map, and a lookup finds the innermost declaration.
\<close>

theorem symtab_refines_scopes:
  assumes "scope_spec declared ops [Map.empty] = Some (outs, st)"
  shows "\<exists>t depth. symtab_run ops (init_symbol_table, 0) = (outs, (t, depth)) \<and> depth = int (length st) - 1
    \<and> (\<forall>n. lookup_symbol t n = stack_lookup st n)"
proof -
  have "table_inv (init_symbol_table, 0)" "table_scopes (init_symbol_table, 0) = [Map.empty]"
    by (simp_all add: table_inv_def table_scopes_def init_symbol_table_def symbols_ok_def scope_map_def fun_eq_iff)
  then obtain s' where s': "symtab_run ops (init_symbol_table, 0) = (outs, s')" "table_inv s'" "table_scopes s' = st"
      "\<forall>n. (case s' of (t, depth) \<Rightarrow> lookup_symbol t) n = stack_lookup st n"
    using symtab.run_refines[of "(init_symbol_table, 0)" ops outs st] assms by auto
  obtain t K where s: "s' = (t, int K)" using s'(2) by (auto simp: table_inv_iff)
  moreover have "length st = Suc K" using s'(3) by (auto simp: s table_scopes_def)
  ultimately show ?thesis using s' by auto
qed

theorem symtab_refines_scopes_witness:
  "\<exists>t. symtab_run [Declare ''x'' (DeclSymbol SYMBOL_VARIABLE TYPE_I32), EnterScope, Declare ''x'' (DeclSymbol SYMBOL_VARIABLE TYPE_F64),
       Declare ''x'' (DeclFunction TYPE_VOID []), ExitScope] (init_symbol_table, 0) = ([True, True, False], (t, 0))
     \<and> map_option sym_type (lookup_symbol t ''x'') = Some TYPE_I32"
proof -
  let ?ops = "[Declare ''x'' (DeclSymbol SYMBOL_VARIABLE TYPE_I32), EnterScope, Declare ''x'' (DeclSymbol SYMBOL_VARIABLE TYPE_F64),
       Declare ''x'' (DeclFunction TYPE_VOID []), ExitScope]"
  have "scope_spec declared ?ops [Map.empty] = Some ([True, True, False], [[''x'' \<mapsto> new_symbol ''x'' SYMBOL_VARIABLE TYPE_I32 0]])"
    by simp
  from symtab_refines_scopes[OF this] show ?thesis by (auto simp: new_symbol_def)
qed

text \<open>A block that enters and leaves its own scopes leaves every lookup as it was.\<close>

lemma symtab_block_restores:
  assumes "table_inv (t, depth)" and "balanced 0 ops"
    and "symtab_run (EnterScope # ops @ [ExitScope]) (t, depth) = (outs, (t', depth'))"
  shows "table_inv (t', depth') \<and> lookup_symbol t' = lookup_symbol t"
  using symtab.block_restores[OF assms(1) _ assms(2,3)] by (simp add: table_scopes_def)

section \<open>Loops and handlers that count scopes on their own\<close>

lemma add_symbol_symbols:
  "symbols (snd (add_symbol t n k ty d)) = symbols t \<or> symbols (snd (add_symbol t n k ty d)) = symbols t @ [new_symbol n k ty d]"
  by (simp add: add_symbol_def)

lemma pop_own_scope:
  "dropWhile (\<lambda>s. scope_depth s = 1) (rev (symbols (snd (add_symbol t n k ty 1)))) = dropWhile (\<lambda>s. scope_depth s = 1) (rev (symbols t))"
  using add_symbol_symbols[of t n k ty 1] by (auto simp: new_symbol_def)

lemma own_scope_pops:
  assumes "\<And>t'. symbols (body t') = symbols t'"
  shows "symbols (analyze_for_in_scope body v t) = rev (dropWhile (\<lambda>s. scope_depth s = 1) (rev (symbols t)))"
    and "symbols (analyze_catch_scope body x t) = rev (dropWhile (\<lambda>s. scope_depth s = 1) (rev (symbols t)))"
  by (simp_all add: analyze_for_in_scope_def analyze_catch_scope_def enter_scope_def exit_scope_def assms pop_own_scope Let_def
      split: option.split)

text \<open>
  C39: A \<^verbatim>\<open>for\<close>-\<^verbatim>\<open>in\<close> loop or a \<^verbatim>\<open>catch\<close> clause that comes before any local declaration of a function
  drops the function's parameters: leaving its own scope number 1 pops every symbol of the parameter
  scope, also with a body that changes nothing, and afterwards a parameter that hides no global is
  undeclared.
\<close>

theorem for_in_drops_parameters:
  assumes "symbols_ok 2 (symbols t)" and "\<And>t'. symbols (body t') = symbols t'"
  shows "symbols (analyze_for_in_scope body v t) = filter (\<lambda>s. scope_depth s = 0) (symbols t)
    \<and> symbols (analyze_catch_scope body x t) = filter (\<lambda>s. scope_depth s = 0) (symbols t)
    \<and> (\<forall>p. scope_map (symbols t) 0 p = None \<longrightarrow> lookup_symbol (analyze_for_in_scope body v t) p = None)"
proof -
  have "dropWhile (\<lambda>s. scope_depth s = 1) (rev (symbols t)) = filter (\<lambda>s. scope_depth s < 1) (rev (symbols t))"
    by (rule dropWhile_sorted) (use assms(1) in \<open>auto simp: symbols_ok_def rev_map\<close>)
  also have "\<dots> = filter (\<lambda>s. scope_depth s = 0) (rev (symbols t))"
    by (rule filter_cong) (use assms(1) in \<open>auto simp: symbols_ok_def\<close>)
  finally have d: "dropWhile (\<lambda>s. scope_depth s = 1) (rev (symbols t)) = filter (\<lambda>s. scope_depth s = 0) (rev (symbols t))" .
  have "symbols (analyze_for_in_scope body v t) = filter (\<lambda>s. scope_depth s = 0) (symbols t)"
    "symbols (analyze_catch_scope body x t) = filter (\<lambda>s. scope_depth s = 0) (symbols t)"
    unfolding own_scope_pops[of body, OF assms(2)] d by (simp_all add: rev_filter)
  then show ?thesis by (auto simp: lookup_symbol_def find_None_iff scope_map_None)
qed

theorem for_in_drops_parameters_witness:
  "let t = fst (snd (symtab_run [Declare ''f'' (DeclFunction TYPE_I32 [TYPE_I32]), EnterScope,
       Declare ''n'' (DeclSymbol SYMBOL_PARAMETER TYPE_I32), EnterScope] (init_symbol_table, 0)))
   in map_option sym_type (lookup_symbol t ''n'') = Some TYPE_I32
     \<and> lookup_symbol (analyze_for_in_scope (\<lambda>t'. t') ''i'' t) ''n'' = None"
proof -
  define t where "t = fst (snd (symtab_run [Declare ''f'' (DeclFunction TYPE_I32 [TYPE_I32]), EnterScope,
       Declare ''n'' (DeclSymbol SYMBOL_PARAMETER TYPE_I32), EnterScope] (init_symbol_table, 0)))"
  have s: "symbols t = [(new_symbol ''f'' SYMBOL_FUNCTION TYPE_I32 0)\<lparr>sym_return := TYPE_I32, sym_params := [TYPE_I32]\<rparr>,
      new_symbol ''n'' SYMBOL_PARAMETER TYPE_I32 1]"
    unfolding t_def by code_simp
  have "symbols_ok 2 (symbols t)" by (simp add: s symbols_ok_def new_symbol_def)
  from for_in_drops_parameters[OF this, of "\<lambda>t'. t'" "''i''" None]
  have "lookup_symbol (analyze_for_in_scope (\<lambda>t'. t') ''i'' t) ''n'' = None" by (simp add: s scope_map_def new_symbol_def)
  then show ?thesis unfolding t_def[symmetric] by (simp add: lookup_symbol_def s new_symbol_def)
qed

end
