(* ===== verification/Sym_Class.thy ===== *)
theory Sym_Class
  imports Sym_Table
begin

text \<open>
  Classes and traits in the symbol table (\<^verbatim>\<open>symtable.c\<close>) and their declaration in the first pass of
  semantic analysis (\<^verbatim>\<open>preregister_class\<close> of \<^verbatim>\<open>semantic.c\<close>).  A class pointer is an index of the
  class heap.  A class exists before its children, so a parent's index is smaller; the recursions
  towards the parents test that, and \<open>classes_ok\<close> shows that the test never fails.
\<close>

section \<open>Classes\<close>

definition lookup_class :: "SymbolTable \<Rightarrow> string \<Rightarrow> nat option" where
  "lookup_class table name =
     (case find (\<lambda>s. sym_kind s = SYMBOL_CLASS \<and> sym_name s = name) (rev (symbols table)) of
        Some s \<Rightarrow> class_info s
      | None \<Rightarrow> None)"

definition add_class :: "SymbolTable \<Rightarrow> string \<Rightarrow> string option \<Rightarrow> int \<Rightarrow> bool \<times> SymbolTable" where
  "add_class table name parent_name depth =
     (if redeclared (rev (symbols table)) name depth then (False, table)
      else case add_symbol table name SYMBOL_CLASS TYPE_CLASS depth of
        (False, t) \<Rightarrow> (False, t)
      | (True, t) \<Rightarrow>
          (let cls = \<lparr>cls_name = name, parent_class = None, parent = None, cls_abstract = False,
                      cls_fields = [], cls_methods = [], instance_size = 8\<rparr>;
               attach = (\<lambda>c. update_last (\<lambda>s. s\<lparr>class_info := Some (length (class_heap t))\<rparr>) (t\<lparr>class_heap := class_heap t @ [c]\<rparr>))
           in case parent_name of
                None \<Rightarrow> (True, attach cls)
              | Some pn \<Rightarrow>
                  (case lookup_class t pn of
                     None \<Rightarrow> (False, t\<lparr>symbols := butlast (symbols t)\<rparr>)
                   | Some p \<Rightarrow> (True, attach (cls\<lparr>parent := Some p, parent_class := Some pn, instance_size := instance_size (class_heap t ! p)\<rparr>)))))"

function find_field :: "ClassSymbol list \<Rightarrow> nat \<Rightarrow> string \<Rightarrow> (nat \<times> nat) option" where
  "find_field h i name =
     (case find_index (\<lambda>f. fld_name f = name) (cls_fields (h ! i)) of
        Some j \<Rightarrow> Some (i, j)
      | None \<Rightarrow> (case parent (h ! i) of None \<Rightarrow> None | Some p \<Rightarrow> if p < i then find_field h p name else None))"
  by pat_completeness auto
termination by (relation "measure (\<lambda>(h, i, name). i)") auto
declare find_field.simps [simp del]

function find_method :: "ClassSymbol list \<Rightarrow> nat \<Rightarrow> string \<Rightarrow> (nat \<times> nat) option" where
  "find_method h i name =
     (case find_index (\<lambda>m. mth_name m = name) (cls_methods (h ! i)) of
        Some j \<Rightarrow> Some (i, j)
      | None \<Rightarrow> (case parent (h ! i) of None \<Rightarrow> None | Some p \<Rightarrow> if p < i then find_method h p name else None))"
  by pat_completeness auto
termination by (relation "measure (\<lambda>(h, i, name). i)") auto
declare find_method.simps [simp del]

text \<open>The loop of \<^verbatim>\<open>is_subclass_of\<close>, from the parent upwards.\<close>

function ancestor_of :: "ClassSymbol list \<Rightarrow> nat \<Rightarrow> nat \<Rightarrow> bool" where
  "ancestor_of h i target =
     (case parent (h ! i) of
        None \<Rightarrow> False
      | Some p \<Rightarrow> if p = target then True else if p < i then ancestor_of h p target else False)"
  by pat_completeness auto
termination by (relation "measure (\<lambda>(h, i, t). i)") auto
declare ancestor_of.simps [simp del]

definition is_subclass_of :: "ClassSymbol list \<Rightarrow> nat option \<Rightarrow> nat option \<Rightarrow> bool" where
  "is_subclass_of h child par =
     (case (child, par) of (Some c, Some p) \<Rightarrow> ancestor_of h c p | _ \<Rightarrow> False)"

definition add_field_to_class ::
    "ClassSymbol list \<Rightarrow> nat \<Rightarrow> string \<Rightarrow> DataType \<Rightarrow> string option \<Rightarrow> bool \<Rightarrow> AccessModifier \<Rightarrow> bool \<Rightarrow> bool \<Rightarrow> bool \<times> ClassSymbol list" where
  "add_field_to_class h i name type class_name static access const mut =
     (let c = h ! i in
      if \<exists>f \<in> set (cls_fields c). fld_name f = name then (False, h)
      else if \<not> static \<and> (case parent c of None \<Rightarrow> False | Some p \<Rightarrow> find_field h p name \<noteq> None) then (False, h)
      else
        let f = \<lparr>fld_name = name, fld_type = type, fld_class = class_name,
                 fld_offset = (if static then - 1 else instance_size c),
                 fld_const = const, fld_mutable = mut, fld_static = static, fld_access = access\<rparr>
        in (True, h[i := c\<lparr>cls_fields := cls_fields c @ [f],
                           instance_size := (if static then instance_size c else instance_size c + 8)\<rparr>]))"

definition method_max :: "int \<Rightarrow> MethodSymbol list \<Rightarrow> int" where
  "method_max m ms = foldl (\<lambda>a x. if vtable_index x > a then vtable_index x else a) m ms"

function hierarchy_max :: "ClassSymbol list \<Rightarrow> nat \<Rightarrow> int \<Rightarrow> int" where
  "hierarchy_max h i m =
     (let m1 = method_max m (cls_methods (h ! i))
      in case parent (h ! i) of None \<Rightarrow> m1 | Some p \<Rightarrow> if p < i then hierarchy_max h p m1 else m1)"
  by pat_completeness auto
termination by (relation "measure (\<lambda>(h, i, m). i)") auto
declare hierarchy_max.simps [simp del]

text \<open>
  The check against a method of the parents: \<open>None\<close> on a mismatch, else the slot to share, with
  \<open>- 1\<close> for none.
\<close>

definition override_slot :: "ClassSymbol list \<Rightarrow> nat \<Rightarrow> string \<Rightarrow> DataType \<Rightarrow> DataType list \<Rightarrow> bool \<Rightarrow> bool \<Rightarrow> int option" where
  "override_slot h i name ret params ctor static =
     (if ctor \<or> static then Some (- 1)
      else case parent (h ! i) of
        None \<Rightarrow> Some (- 1)
      | Some p \<Rightarrow>
          (case find_method h p name of
             None \<Rightarrow> Some (- 1)
           | Some (k, j) \<Rightarrow>
               let pm = cls_methods (h ! k) ! j
               in if mth_return pm \<noteq> ret \<or> length (mth_params pm) \<noteq> length params then None
                  else if mth_params pm \<noteq> params then None
                  else Some (vtable_index pm)))"

definition fresh_slot :: "ClassSymbol list \<Rightarrow> nat \<Rightarrow> int" where
  "fresh_slot h i =
     (let m = method_max (- 1) (cls_methods (h ! i))
      in (case parent (h ! i) of None \<Rightarrow> m | Some p \<Rightarrow> hierarchy_max h p m) + 1)"

definition add_method_to_class ::
    "ClassSymbol list \<Rightarrow> nat \<Rightarrow> string \<Rightarrow> DataType \<Rightarrow> DataType list \<Rightarrow> bool \<Rightarrow> bool \<Rightarrow> AccessModifier \<Rightarrow> bool \<times> ClassSymbol list" where
  "add_method_to_class h i name ret params ctor static access =
     (if \<exists>m \<in> set (cls_methods (h ! i)). mth_name m = name \<and> \<not> (ctor \<and> mth_ctor m) then (False, h)
      else case override_slot h i name ret params ctor static of
        None \<Rightarrow> (False, h)
      | Some v \<Rightarrow>
          let slot = (if \<not> ctor \<and> \<not> static \<and> v = - 1 then fresh_slot h i else v);
              m = \<lparr>mth_name = name, mth_return = ret, mth_params = params, mth_ctor = ctor, mth_static = static,
                   mth_abstract = False, vtable_index = slot, mth_access = access\<rparr>
          in (True, h[i := (h ! i)\<lparr>cls_methods := cls_methods (h ! i) @ [m]\<rparr>]))"

section \<open>Traits\<close>

definition add_trait :: "SymbolTable \<Rightarrow> string \<Rightarrow> int \<Rightarrow> bool \<times> SymbolTable" where
  "add_trait table name depth =
     (if redeclared (rev (symbols table)) name depth then (False, table)
      else case add_symbol table name SYMBOL_TRAIT TYPE_VOID depth of
        (False, t) \<Rightarrow> (False, t)
      | (True, t) \<Rightarrow>
          (True, update_last (\<lambda>s. s\<lparr>trait_info := Some (length (trait_heap t))\<rparr>)
                   (t\<lparr>trait_heap := trait_heap t @ [\<lparr>tr_name = name, tr_methods = []\<rparr>]\<rparr>)))"

definition lookup_trait :: "SymbolTable \<Rightarrow> string \<Rightarrow> nat option" where
  "lookup_trait table name =
     (case find (\<lambda>s. sym_kind s = SYMBOL_TRAIT \<and> sym_name s = name) (rev (symbols table)) of
        Some s \<Rightarrow> trait_info s
      | None \<Rightarrow> None)"

definition add_method_to_trait :: "TraitSymbol \<Rightarrow> string \<Rightarrow> DataType \<Rightarrow> string option \<Rightarrow> DataType list \<Rightarrow> bool \<Rightarrow> bool \<times> TraitSymbol" where
  "add_method_to_trait tr name ret return_class_name params has_default =
     (if \<exists>m \<in> set (tr_methods tr). tm_name m = name then (False, tr)
      else (True, tr\<lparr>tr_methods := tr_methods tr @ [\<lparr>tm_name = name, tm_return = ret, tm_return_class = return_class_name,
                                                    tm_params = params, tm_default = has_default\<rparr>]\<rparr>))"

definition find_trait_method :: "TraitSymbol \<Rightarrow> string \<Rightarrow> nat option" where
  "find_trait_method tr name = find_index (\<lambda>m. tm_name m = name) (tr_methods tr)"

section \<open>Declaring a class\<close>

record FieldDecl =
  fd_name :: string
  fd_type :: DataType
  fd_class :: "string option"
  fd_const :: bool
  fd_mutable :: bool
  fd_static :: bool
  fd_access :: AccessModifier

record MethodDecl =
  md_name :: string
  md_params :: "DataType list"
  md_return :: DataType
  md_ctor :: bool
  md_static :: bool
  md_abstract :: bool
  md_access :: AccessModifier

record ClassStmt =
  cs_name :: string
  cs_parent :: "string option"
  cs_abstract :: bool
  cs_fields :: "FieldDecl list"
  cs_methods :: "MethodDecl list"

definition set_method_abstract :: "ClassSymbol list \<Rightarrow> nat \<times> nat \<Rightarrow> ClassSymbol list" where
  "set_method_abstract h kj =
     (case kj of (k, j) \<Rightarrow> h[k := (h ! k)\<lparr>cls_methods := (cls_methods (h ! k))[j := (cls_methods (h ! k) ! j)\<lparr>mth_abstract := True\<rparr>]\<rparr>])"

definition declare_field :: "nat \<Rightarrow> ClassSymbol list \<Rightarrow> FieldDecl \<Rightarrow> ClassSymbol list" where
  "declare_field i h f = snd (add_field_to_class h i (fd_name f) (fd_type f) (fd_class f) (fd_static f) (fd_access f) (fd_const f) (fd_mutable f))"

definition declare_method :: "nat \<Rightarrow> ClassSymbol list \<Rightarrow> MethodDecl \<Rightarrow> ClassSymbol list" where
  "declare_method i h m =
     (let h1 = snd (add_method_to_class h i (md_name m) (md_return m) (md_params m) (md_ctor m) (md_static m) (md_access m))
      in if md_abstract m
         then let h2 = (case find_method h1 i (md_name m) of None \<Rightarrow> h1 | Some kj \<Rightarrow> set_method_abstract h1 kj)
              in h2[i := (h2 ! i)\<lparr>cls_abstract := True\<rparr>]
         else h1)"

definition preregister_class :: "int \<Rightarrow> SymbolTable \<Rightarrow> ClassStmt \<Rightarrow> SymbolTable" where
  "preregister_class depth table c =
     (case add_class table (cs_name c) (cs_parent c) depth of
        (False, t) \<Rightarrow> t
      | (True, t) \<Rightarrow>
          (case lookup_class t (cs_name c) of
             None \<Rightarrow> t
           | Some i \<Rightarrow>
               let h1 = foldl (declare_field i) (class_heap t) (cs_fields c);
                   h2 = (if cs_abstract c then h1[i := (h1 ! i)\<lparr>cls_abstract := True\<rparr>] else h1);
                   h3 = foldl (declare_method i) h2 (cs_methods c)
               in t\<lparr>class_heap := h3\<rparr>))"

end
