(* ===== verification/Class_Facts.thy ===== *)
theory Class_Facts
  imports Sym_Class
begin

text \<open>
  Correctness of class declarations: objects are laid out without overlap and as an extension of the
  parent's layout, virtual methods have slots of their own along a hierarchy, and an override shares
  the slot of the method it overrides.
\<close>

section \<open>What is visible along a hierarchy\<close>

text \<open>The instance fields of an object, root class first.\<close>

function object_layout :: "ClassSymbol list \<Rightarrow> nat \<Rightarrow> FieldSymbol list" where
  "object_layout h i =
     (case parent (h ! i) of None \<Rightarrow> [] | Some p \<Rightarrow> if p < i then object_layout h p else [])
     @ filter (\<lambda>f. \<not> fld_static f) (cls_fields (h ! i))"
  by pat_completeness auto
termination by (relation "measure (\<lambda>(h, i). i)") auto
declare object_layout.simps [simp del]

function visible_methods :: "ClassSymbol list \<Rightarrow> nat \<Rightarrow> MethodSymbol list" where
  "visible_methods h i =
     cls_methods (h ! i)
     @ (case parent (h ! i) of None \<Rightarrow> [] | Some p \<Rightarrow> if p < i then visible_methods h p else [])"
  by pat_completeness auto
termination by (relation "measure (\<lambda>(h, i). i)") auto
declare visible_methods.simps [simp del]

text \<open>The method a call finds.\<close>

definition method_of :: "ClassSymbol list \<Rightarrow> nat \<Rightarrow> string \<Rightarrow> MethodSymbol option" where
  "method_of h i name = map_option (\<lambda>(k, j). cls_methods (h ! k) ! j) (find_method h i name)"

definition parent_method :: "ClassSymbol list \<Rightarrow> nat \<Rightarrow> string \<Rightarrow> MethodSymbol option" where
  "parent_method h i name = (case parent (h ! i) of None \<Rightarrow> None | Some p \<Rightarrow> method_of h p name)"

definition slots_ok :: "MethodSymbol list \<Rightarrow> bool" where
  "slots_ok ms \<longleftrightarrow> (\<forall>m \<in> set ms. \<forall>m' \<in> set ms. 0 \<le> vtable_index m \<and> vtable_index m = vtable_index m' \<longrightarrow> mth_name m = mth_name m')"

definition method_ok :: "MethodSymbol \<Rightarrow> bool" where
  "method_ok m \<longleftrightarrow> - 1 \<le> vtable_index m \<and> (vtable_index m = - 1 \<longleftrightarrow> mth_ctor m \<or> mth_static m)"

definition overrides_ok :: "ClassSymbol list \<Rightarrow> nat \<Rightarrow> bool" where
  "overrides_ok h i \<longleftrightarrow> (\<forall>m \<in> set (cls_methods (h ! i)). \<forall>pm. 0 \<le> vtable_index m \<and> parent_method h i (mth_name m) = Some pm
     \<and> 0 \<le> vtable_index pm \<longrightarrow> vtable_index m = vtable_index pm \<and> mth_return m = mth_return pm \<and> mth_params m = mth_params pm)"

definition layout_ok :: "ClassSymbol list \<Rightarrow> nat \<Rightarrow> bool" where
  "layout_ok h i \<longleftrightarrow> map fld_offset (object_layout h i) = map (\<lambda>k. 8 + 8 * int k) [0..<length (object_layout h i)]
     \<and> instance_size (h ! i) = 8 + 8 * int (length (object_layout h i)) \<and> distinct (map fld_name (object_layout h i))"

definition class_ok :: "ClassSymbol list \<Rightarrow> nat \<Rightarrow> bool" where
  "class_ok h i \<longleftrightarrow> (\<forall>p. parent (h ! i) = Some p \<longrightarrow> p < i) \<and> layout_ok h i
     \<and> (\<forall>m \<in> set (cls_methods (h ! i)). method_ok m) \<and> slots_ok (visible_methods h i) \<and> overrides_ok h i"

definition classes_ok :: "ClassSymbol list \<Rightarrow> bool" where
  "classes_ok h \<longleftrightarrow> (\<forall>i < length h. class_ok h i)"

text \<open>All of it depends on the class and the classes before it only.\<close>

definition agree :: "nat \<Rightarrow> ClassSymbol list \<Rightarrow> ClassSymbol list \<Rightarrow> bool" where
  "agree i h h' \<longleftrightarrow> (\<forall>k \<le> i. h' ! k = h ! k)"

lemma agree_less: "agree i h h' \<Longrightarrow> p < i \<Longrightarrow> agree p h h'"
  by (simp add: agree_def)

lemma agree_at: "agree i h h' \<Longrightarrow> h' ! i = h ! i"
  by (simp add: agree_def)

lemma agree_append [simp]: "i < length h \<Longrightarrow> agree i h (h @ xs)"
  by (simp add: agree_def nth_append)

lemma agree_update [simp]: "i < j \<Longrightarrow> agree i h (h[j := c])"
  by (simp add: agree_def)

lemma find_field_local: "agree i h h' \<Longrightarrow> find_field h' i n = find_field h i n"
proof (induction i rule: less_induct)
  case (less i)
  then show ?case
    by (subst (1 2) find_field.simps) (auto simp: agree_at dest: agree_less split: option.split)
qed

lemma find_method_local: "agree i h h' \<Longrightarrow> find_method h' i n = find_method h i n"
proof (induction i rule: less_induct)
  case (less i)
  then show ?case
    by (subst (1 2) find_method.simps) (auto simp: agree_at dest: agree_less split: option.split)
qed

lemma hierarchy_max_local: "agree i h h' \<Longrightarrow> hierarchy_max h' i m = hierarchy_max h i m"
proof (induction i arbitrary: m rule: less_induct)
  case (less i)
  then show ?case
    by (subst (1 2) hierarchy_max.simps) (auto simp: agree_at Let_def dest: agree_less split: option.split)
qed

lemma object_layout_local: "agree i h h' \<Longrightarrow> object_layout h' i = object_layout h i"
proof (induction i rule: less_induct)
  case (less i)
  then show ?case
    by (subst (1 2) object_layout.simps) (auto simp: agree_at dest: agree_less split: option.split)
qed

lemma visible_methods_local: "agree i h h' \<Longrightarrow> visible_methods h' i = visible_methods h i"
proof (induction i rule: less_induct)
  case (less i)
  then show ?case
    by (subst (1 2) visible_methods.simps) (auto simp: agree_at dest: agree_less split: option.split)
qed

lemma find_method_le: "find_method h i n = Some (k, j) \<Longrightarrow> k \<le> i \<and> j < length (cls_methods (h ! k)) \<and> mth_name (cls_methods (h ! k) ! j) = n
    \<and> cls_methods (h ! k) ! j \<in> set (visible_methods h i)"
proof (induction i rule: less_induct)
  case (less i)
  show ?case
  proof (cases "find_index (\<lambda>m. mth_name m = n) (cls_methods (h ! i))")
    case None
    then obtain p where p: "parent (h ! i) = Some p" "p < i" "find_method h p n = Some (k, j)"
      using less.prems by (subst (asm) find_method.simps) (auto split: option.splits if_splits)
    then show ?thesis using less.IH[OF p(2,3)] by (subst visible_methods.simps) simp
  next
    case (Some l)
    then have "k = i" "j = l" using less.prems by (simp_all add: find_method.simps)
    then show ?thesis using find_index_Some[OF Some] by (subst visible_methods.simps) simp
  qed
qed

lemma method_of_local: "agree i h h' \<Longrightarrow> method_of h' i n = method_of h i n"
proof -
  assume a: "agree i h h'"
  have "h' ! k = h ! k" if "find_method h i n = Some (k, j)" for k j
    using find_method_le[OF that] a by (simp add: agree_def)
  then show ?thesis unfolding method_of_def find_method_local[OF a] by (cases "find_method h i n") auto
qed

lemma method_of_visible: "method_of h i n = Some m \<Longrightarrow> m \<in> set (visible_methods h i) \<and> mth_name m = n"
  using find_method_le[of h i n] by (auto simp: method_of_def)

lemma class_ok_local:
  assumes "agree i h h'"
  shows "class_ok h' i \<longleftrightarrow> class_ok h i"
proof (cases "\<forall>p. parent (h ! i) = Some p \<longrightarrow> p < i")
  case True
  have "parent_method h' i n = parent_method h i n" for n
    using True assms by (auto simp: parent_method_def agree_at[OF assms] agree_less[OF assms] method_of_local split: option.split)
  then show ?thesis
    by (simp add: class_ok_def layout_ok_def overrides_ok_def agree_at[OF assms] object_layout_local[OF assms] visible_methods_local[OF assms])
qed (auto simp: class_ok_def agree_at[OF assms])

lemma classes_ok_snoc: "classes_ok (h @ [c]) \<longleftrightarrow> classes_ok h \<and> class_ok (h @ [c]) (length h)"
proof -
  have "class_ok (h @ [c]) i \<longleftrightarrow> class_ok h i" if "i < length h" for i
    by (rule class_ok_local) (simp add: that)
  then show ?thesis by (auto simp: classes_ok_def less_Suc_eq)
qed

lemma classes_ok_update_last:
  assumes "classes_ok h" and "Suc i = length h" and "class_ok (h[i := c]) i"
  shows "classes_ok (h[i := c])"
proof -
  have "class_ok (h[i := c]) j" if "j < Suc i" for j
  proof (cases "j = i")
    case False
    then have "class_ok (h[i := c]) j \<longleftrightarrow> class_ok h j" using that by (intro class_ok_local) simp
    then show ?thesis using assms(1,2) that by (simp add: classes_ok_def)
  qed (use assms(3) in simp)
  then show ?thesis by (simp add: classes_ok_def assms(2)[symmetric])
qed

text \<open>On a well-formed heap the recursions are the ones of the code.\<close>

lemma find_field_code:
  "class_ok h i \<Longrightarrow> find_field h i n = (case find_index (\<lambda>f. fld_name f = n) (cls_fields (h ! i)) of
     Some j \<Rightarrow> Some (i, j) | None \<Rightarrow> (case parent (h ! i) of None \<Rightarrow> None | Some p \<Rightarrow> find_field h p n))"
  by (subst find_field.simps) (auto simp: class_ok_def split: option.split)

lemma find_method_code:
  "class_ok h i \<Longrightarrow> find_method h i n = (case find_index (\<lambda>m. mth_name m = n) (cls_methods (h ! i)) of
     Some j \<Rightarrow> Some (i, j) | None \<Rightarrow> (case parent (h ! i) of None \<Rightarrow> None | Some p \<Rightarrow> find_method h p n))"
  by (subst find_method.simps) (auto simp: class_ok_def split: option.split)

section \<open>Every operation keeps classes well formed\<close>

text \<open>The fields and methods above a class.\<close>

definition parent_layout :: "ClassSymbol list \<Rightarrow> nat \<Rightarrow> FieldSymbol list" where
  "parent_layout h i = (case parent (h ! i) of None \<Rightarrow> [] | Some p \<Rightarrow> object_layout h p)"

definition parent_methods :: "ClassSymbol list \<Rightarrow> nat \<Rightarrow> MethodSymbol list" where
  "parent_methods h i = (case parent (h ! i) of None \<Rightarrow> [] | Some p \<Rightarrow> visible_methods h p)"

lemma layout_split:
  "(\<And>p. parent (h ! i) = Some p \<Longrightarrow> p < i) \<Longrightarrow> object_layout h i = parent_layout h i @ filter (\<lambda>f. \<not> fld_static f) (cls_fields (h ! i))"
  by (subst object_layout.simps) (auto simp: parent_layout_def split: option.split)

lemma methods_split:
  "(\<And>p. parent (h ! i) = Some p \<Longrightarrow> p < i) \<Longrightarrow> visible_methods h i = cls_methods (h ! i) @ parent_methods h i"
  by (subst visible_methods.simps) (auto simp: parent_methods_def split: option.split)

lemma class_ok_parent: "class_ok h i \<Longrightarrow> parent (h ! i) = Some p \<Longrightarrow> p < i"
  by (simp add: class_ok_def)

lemma find_field_None: "find_field h i n = None \<Longrightarrow> f \<in> set (object_layout h i) \<Longrightarrow> fld_name f \<noteq> n"
proof (induction i rule: less_induct)
  case (less i)
  have own: "find_index (\<lambda>f. fld_name f = n) (cls_fields (h ! i)) = None"
    and up: "\<And>p. parent (h ! i) = Some p \<Longrightarrow> p < i \<Longrightarrow> find_field h p n = None"
    using less.prems(1) by (subst (asm) find_field.simps, simp split: option.splits)+
  show ?case
  proof (cases "\<exists>p. parent (h ! i) = Some p \<and> p < i")
    case True
    then obtain p where p: "parent (h ! i) = Some p" "p < i" by blast
    then have "f \<in> set (object_layout h p) \<or> f \<in> set (cls_fields (h ! i))"
      using less.prems(2) by (subst (asm) object_layout.simps) auto
    then show ?thesis using less.IH[OF p(2) up[OF p]] own by (auto simp: find_index_None)
  next
    case False
    then have "f \<in> set (cls_fields (h ! i))"
      using less.prems(2) by (subst (asm) object_layout.simps) (auto split: option.splits)
    then show ?thesis using own by (auto simp: find_index_None)
  qed
qed

text \<open>What an update of one class leaves.\<close>

lemma parent_parts_update:
  assumes "\<And>p. parent (h ! i) = Some p \<Longrightarrow> p < i" and "i < length h" and "parent c = parent (h ! i)"
  shows "parent_layout (h[i := c]) i = parent_layout h i" "parent_methods (h[i := c]) i = parent_methods h i"
    "parent_method (h[i := c]) i n = parent_method h i n"
proof -
  have "agree p h (h[i := c])" if "parent (h ! i) = Some p" for p using assms(1)[OF that] by simp
  then show "parent_layout (h[i := c]) i = parent_layout h i" "parent_methods (h[i := c]) i = parent_methods h i"
    "parent_method (h[i := c]) i n = parent_method h i n"
    using assms(2,3) by (auto simp: parent_layout_def parent_methods_def parent_method_def
        object_layout_local visible_methods_local method_of_local split: option.split)
qed

lemma layout_step:
  assumes "length os = length ys" and "os = map (\<lambda>k. 8 + 8 * int k) [0..<length ys]"
  shows "os @ [8 + 8 * int (length ys)] = map (\<lambda>k. 8 + 8 * int k) [0..<Suc (length ys)]"
  using assms by simp

lemma add_field_ok:
  assumes ok: "classes_ok h" and last: "Suc i = length h"
  shows "classes_ok (snd (add_field_to_class h i name type cn static access const mut))"
proof -
  have len: "i < length h" using last by simp
  then have ci: "class_ok h i" using ok by (simp add: classes_ok_def)
  note par = class_ok_parent[OF ci]
  define c where "c = h ! i"
  let ?f = "\<lparr>fld_name = name, fld_type = type, fld_class = cn, fld_offset = (if static then - 1 else instance_size c),
     fld_const = const, fld_mutable = mut, fld_static = static, fld_access = access\<rparr>"
  define d where "d = c\<lparr>cls_fields := cls_fields c @ [?f], instance_size := (if static then instance_size c else instance_size c + 8)\<rparr>"
  have d: "parent d = parent (h ! i)" "cls_methods d = cls_methods (h ! i)" "cls_fields d = cls_fields c @ [?f]"
    "instance_size d = (if static then instance_size c else instance_size c + 8)" by (simp_all add: d_def c_def)
  show ?thesis
  proof (cases "fst (add_field_to_class h i name type cn static access const mut)")
    case False
    then have "snd (add_field_to_class h i name type cn static access const mut) = h"
      by (auto simp: add_field_to_class_def Let_def split: if_splits)
    then show ?thesis using ok by simp
  next
    case True
    then have res: "snd (add_field_to_class h i name type cn static access const mut) = h[i := d]"
      and fresh: "\<forall>f \<in> set (cls_fields c). fld_name f \<noteq> name"
      by (auto simp: add_field_to_class_def Let_def c_def d_def split: if_splits option.splits)
    have above: "find_field h p name = None" if "\<not> static" "parent c = Some p" for p
      using True that by (cases "find_field h p name") (auto simp: add_field_to_class_def Let_def c_def split: if_splits)
    note up = parent_parts_update[of h i d, OF par len d(1)]
    have L: "object_layout h i = parent_layout h i @ filter (\<lambda>f. \<not> fld_static f) (cls_fields c)"
      unfolding c_def by (rule layout_split[OF par])
    have L': "object_layout (h[i := d]) i = object_layout h i @ (if static then [] else [?f])"
    proof -
      have "object_layout (h[i := d]) i = parent_layout (h[i := d]) i @ filter (\<lambda>f. \<not> fld_static f) (cls_fields d)"
        using layout_split[of "h[i := d]" i] par d(1) len by simp
      then show ?thesis by (simp add: L up(1) d(3))
    qed
    have "fld_name f \<noteq> name" if "f \<in> set (object_layout h i)" "\<not> static" for f
    proof (cases "parent (h ! i)")
      case None
      then show ?thesis using that(1) fresh by (auto simp: L parent_layout_def)
    next
      case (Some p)
      then have "f \<in> set (object_layout h p) \<or> f \<in> set (cls_fields c)" using that(1) by (auto simp: L parent_layout_def)
      then show ?thesis using fresh find_field_None[OF above[OF that(2)], of p f] Some by (auto simp: c_def)
    qed
    then have "layout_ok (h[i := d]) i"
      using ci len unfolding class_ok_def layout_ok_def L' by (auto simp: d c_def)
    moreover have "visible_methods (h[i := d]) i = visible_methods h i"
    proof -
      have "visible_methods (h[i := d]) i = cls_methods d @ parent_methods (h[i := d]) i"
        using methods_split[of "h[i := d]" i] par d(1) len by simp
      then show ?thesis using methods_split[of h i] par by (simp add: up(2) d(2))
    qed
    moreover have "overrides_ok (h[i := d]) i \<longleftrightarrow> overrides_ok h i"
    proof -
      have "parent_method (h[i := d]) i n = parent_method h i n" for n by (rule up(3))
      then show ?thesis using len by (simp add: overrides_ok_def d)
    qed
    ultimately have "class_ok (h[i := d]) i" using ci len by (simp add: class_ok_def d)
    then show ?thesis unfolding res by (rule classes_ok_update_last[OF ok last])
  qed
qed

text \<open>Slots.\<close>

lemma method_max_ge: "m \<le> method_max m ms" "x \<in> set ms \<Longrightarrow> vtable_index x \<le> method_max m ms"
proof -
  show a: "m \<le> method_max m ms" for m ms
  proof (induction ms arbitrary: m)
    case (Cons y ms)
    have "m \<le> (if vtable_index y > m then vtable_index y else m)" by simp
    also have "\<dots> \<le> method_max (if vtable_index y > m then vtable_index y else m) ms" by (rule Cons.IH)
    finally show ?case by (simp add: method_max_def)
  qed (simp add: method_max_def)
  show "x \<in> set ms \<Longrightarrow> vtable_index x \<le> method_max m ms"
  proof (induction ms arbitrary: m)
    case (Cons y ms)
    show ?case
    proof (cases "x = y")
      case True
      have "vtable_index y \<le> (if vtable_index y > m then vtable_index y else m)" by simp
      also have "\<dots> \<le> method_max (if vtable_index y > m then vtable_index y else m) ms" by (rule a)
      finally show ?thesis by (simp add: True method_max_def)
    next
      case False
      then show ?thesis using Cons.IH[of "if vtable_index y > m then vtable_index y else m"] Cons.prems by (simp add: method_max_def)
    qed
  qed simp
qed

lemma hierarchy_max_ge: "m \<le> hierarchy_max h i m \<and> (\<forall>x \<in> set (visible_methods h i). vtable_index x \<le> hierarchy_max h i m)"
proof (induction i arbitrary: m rule: less_induct)
  case (less i)
  define m1 where "m1 = method_max m (cls_methods (h ! i))"
  have m1: "m \<le> m1" "\<forall>x \<in> set (cls_methods (h ! i)). vtable_index x \<le> m1" using method_max_ge by (simp_all add: m1_def)
  show ?case
  proof (cases "\<exists>p. parent (h ! i) = Some p \<and> p < i")
    case True
    then obtain p where p: "parent (h ! i) = Some p" "p < i" by blast
    have "hierarchy_max h i m = hierarchy_max h p m1" using p by (subst hierarchy_max.simps) (simp add: m1_def)
    moreover have "visible_methods h i = cls_methods (h ! i) @ visible_methods h p" using p by (subst visible_methods.simps) simp
    ultimately show ?thesis using less.IH[OF p(2), of m1] m1 by fastforce
  next
    case False
    have "hierarchy_max h i m = m1" using False by (subst hierarchy_max.simps) (auto simp: m1_def Let_def split: option.split)
    moreover have "visible_methods h i = cls_methods (h ! i)" using False by (subst visible_methods.simps) (auto split: option.split)
    ultimately show ?thesis using m1 by simp
  qed
qed

lemma fresh_slot_above: "x \<in> set (cls_methods (h ! i) @ parent_methods h i) \<Longrightarrow> vtable_index x < fresh_slot h i" "0 \<le> fresh_slot h i"
proof -
  let ?m = "method_max (- 1) (cls_methods (h ! i))"
  have m: "- 1 \<le> ?m" "\<And>x. x \<in> set (cls_methods (h ! i)) \<Longrightarrow> vtable_index x \<le> ?m" using method_max_ge by auto
  have "?m \<le> fresh_slot h i - 1 \<and> (\<forall>x \<in> set (parent_methods h i). vtable_index x \<le> fresh_slot h i - 1)"
    using hierarchy_max_ge[of ?m h] by (cases "parent (h ! i)") (simp_all add: fresh_slot_def parent_methods_def)
  with m show "0 \<le> fresh_slot h i" "x \<in> set (cls_methods (h ! i) @ parent_methods h i) \<Longrightarrow> vtable_index x < fresh_slot h i"
    by fastforce+
qed

lemma visible_methods_ok: "classes_ok h \<Longrightarrow> i < length h \<Longrightarrow> m \<in> set (visible_methods h i) \<Longrightarrow> method_ok m"
proof (induction i rule: less_induct)
  case (less i)
  have ci: "class_ok h i" using less.prems by (simp add: classes_ok_def)
  show ?case
  proof (cases "m \<in> set (cls_methods (h ! i))")
    case True
    then show ?thesis using ci by (simp add: class_ok_def)
  next
    case False
    have "visible_methods h i = cls_methods (h ! i) @ parent_methods h i"
      by (rule methods_split) (rule class_ok_parent[OF ci])
    then obtain p where p: "parent (h ! i) = Some p" "m \<in> set (visible_methods h p)"
      using less.prems(3) False by (cases "parent (h ! i)") (auto simp: parent_methods_def)
    have "p < i" by (rule class_ok_parent[OF ci p(1)])
    then show ?thesis using less.IH p(2) less.prems by simp
  qed
qed

lemma slots_okD:
  "slots_ok ms \<Longrightarrow> m \<in> set ms \<Longrightarrow> m' \<in> set ms \<Longrightarrow> 0 \<le> vtable_index m \<Longrightarrow> vtable_index m = vtable_index m' \<Longrightarrow> mth_name m = mth_name m'"
  unfolding slots_ok_def by blast

lemma slots_ok_insert:
  assumes "slots_ok ms" and "set ms' \<subseteq> insert m (set ms)"
    and same: "\<And>x. x \<in> set ms \<Longrightarrow> vtable_index x = vtable_index m \<Longrightarrow> 0 \<le> vtable_index m \<Longrightarrow> mth_name x = mth_name m"
  shows "slots_ok ms'"
  unfolding slots_ok_def
proof (intro ballI impI)
  fix x y assume xy: "x \<in> set ms'" "y \<in> set ms'" and v: "0 \<le> vtable_index x \<and> vtable_index x = vtable_index y"
  consider "x = y" | "x = m" "y \<in> set ms" | "y = m" "x \<in> set ms" | "x \<in> set ms" "y \<in> set ms"
    using xy assms(2) by blast
  then show "mth_name x = mth_name y"
  proof cases
    case 2
    then show ?thesis using same[of y] v by metis
  next
    case 3
    then show ?thesis using same[of x] v by metis
  next
    case 4
    then show ?thesis using slots_okD[OF assms(1)] v by blast
  qed simp
qed

lemma override_slot_parent:
  "override_slot h i name ret params ctor static =
     (if ctor \<or> static then Some (- 1)
      else case parent_method h i name of None \<Rightarrow> Some (- 1)
        | Some pm \<Rightarrow> if mth_return pm \<noteq> ret \<or> mth_params pm \<noteq> params then None else Some (vtable_index pm))"
proof (cases "parent (h ! i)")
  case (Some p)
  show ?thesis
  proof (cases "find_method h p name")
    case None
    then show ?thesis by (simp add: \<open>parent (h ! i) = Some p\<close> override_slot_def parent_method_def method_of_def)
  next
    case (Some kj)
    obtain k j where kj: "find_method h p name = Some (k, j)" using Some by (cases kj) simp
    show ?thesis
    proof (cases "mth_params (cls_methods (h ! k) ! j) = params")
      case True
      then show ?thesis by (simp add: \<open>parent (h ! i) = Some p\<close> kj override_slot_def parent_method_def method_of_def)
    next
      case False
      then show ?thesis by (simp add: \<open>parent (h ! i) = Some p\<close> kj override_slot_def parent_method_def method_of_def Let_def)
    qed
  qed
qed (simp add: override_slot_def parent_method_def)

lemma override_slot_cases:
  assumes "override_slot h i name ret params ctor static = Some v" and "v \<noteq> - 1"
  obtains pm where "\<not> ctor" "\<not> static" "parent_method h i name = Some pm" "v = vtable_index pm"
  using assms by (cases "parent_method h i name") (auto simp: override_slot_parent split: if_splits)

lemma parent_method_in: "parent_method h i n = Some pm \<Longrightarrow> pm \<in> set (parent_methods h i) \<and> mth_name pm = n"
  using method_of_visible by (fastforce simp: parent_method_def parent_methods_def split: option.splits)

lemma add_method_ok:
  assumes ok: "classes_ok h" and last: "Suc i = length h"
  shows "classes_ok (snd (add_method_to_class h i name ret params ctor static access))"
proof (cases "fst (add_method_to_class h i name ret params ctor static access)")
  case False
  then have "snd (add_method_to_class h i name ret params ctor static access) = h"
    by (auto simp: add_method_to_class_def Let_def split: if_splits option.splits)
  then show ?thesis using ok by simp
next
  case True
  have len: "i < length h" using last by simp
  then have ci: "class_ok h i" using ok by (simp add: classes_ok_def)
  note par = class_ok_parent[OF ci]
  obtain v where v: "override_slot h i name ret params ctor static = Some v"
    using True by (auto simp: add_method_to_class_def Let_def split: if_splits option.splits)
  define slot where "slot = (if \<not> ctor \<and> \<not> static \<and> v = - 1 then fresh_slot h i else v)"
  define m where "m = \<lparr>mth_name = name, mth_return = ret, mth_params = params, mth_ctor = ctor, mth_static = static,
      mth_abstract = False, vtable_index = slot, mth_access = access\<rparr>"
  define c where "c = (h ! i)\<lparr>cls_methods := cls_methods (h ! i) @ [m]\<rparr>"
  have res: "snd (add_method_to_class h i name ret params ctor static access) = h[i := c]"
    using True v by (auto simp: add_method_to_class_def Let_def c_def m_def slot_def split: if_splits)
  have p: "parent c = parent (h ! i)" and cm: "cls_methods c = cls_methods (h ! i) @ [m]" by (simp_all add: c_def)
  note up = parent_parts_update[of h i c, OF par len p]
  have V: "visible_methods h i = cls_methods (h ! i) @ parent_methods h i" by (rule methods_split[OF par])
  have V': "visible_methods (h[i := c]) i = cls_methods (h ! i) @ m # parent_methods h i"
  proof -
    have "visible_methods (h[i := c]) i = cls_methods c @ parent_methods (h[i := c]) i"
      using methods_split[of "h[i := c]" i] par p len by simp
    then show ?thesis by (simp add: up(2) cm)
  qed
  have all_ok: "method_ok x" if "x \<in> set (visible_methods h i)" for x using visible_methods_ok[OF ok len that] .
  have neg: "v = - 1" if "ctor \<or> static" using v that by (auto simp: override_slot_def)
  have slot: "method_ok m"
  proof (cases "ctor \<or> static \<or> v = - 1")
    case True
    then show ?thesis using neg fresh_slot_above(2)[of h i] by (auto simp: method_ok_def m_def slot_def)
  next
    case False
    then obtain pm where "parent_method h i name = Some pm" "v = vtable_index pm" using override_slot_cases[OF v] by blast
    then have "method_ok pm" using parent_method_in[of h i name pm] all_ok by (simp add: V)
    then show ?thesis using False \<open>v = vtable_index pm\<close> by (auto simp: method_ok_def m_def slot_def)
  qed
  have same: "mth_name x = name" if x: "x \<in> set (visible_methods h i)" "vtable_index x = slot" "0 \<le> slot" for x
  proof (cases "\<not> ctor \<and> \<not> static \<and> v = - 1")
    case True
    then show ?thesis using x fresh_slot_above(1)[of x h i] by (simp add: slot_def V)
  next
    case False
    then have "slot = v" "v \<noteq> - 1" using x(3) by (auto simp: slot_def)
    obtain pm where "parent_method h i name = Some pm" "v = vtable_index pm" by (rule override_slot_cases[OF v \<open>v \<noteq> - 1\<close>])
    moreover from this have "pm \<in> set (visible_methods h i)" "mth_name pm = name" using parent_method_in[of h i name pm] by (simp_all add: V)
    moreover have "slots_ok (visible_methods h i)" using ci by (simp add: class_ok_def)
    ultimately show ?thesis using slots_okD[of "visible_methods h i" x pm, OF _ x(1)] x(2,3) \<open>slot = v\<close> by metis
  qed
  have slots: "slots_ok (visible_methods h i)" using ci by (simp add: class_ok_def)
  have mn: "mth_name m = name" "vtable_index m = slot" by (simp_all add: m_def)
  have "slots_ok (visible_methods (h[i := c]) i)"
    by (rule slots_ok_insert[OF slots, where m = m]) (use same mn in \<open>auto simp: V V'\<close>)
  moreover have "overrides_ok (h[i := c]) i"
    unfolding overrides_ok_def
  proof (intro ballI allI impI)
    fix x pm
    assume x: "x \<in> set (cls_methods (h[i := c] ! i))"
      and "0 \<le> vtable_index x \<and> parent_method (h[i := c]) i (mth_name x) = Some pm \<and> 0 \<le> vtable_index pm"
    then have pm: "0 \<le> vtable_index x \<and> parent_method h i (mth_name x) = Some pm \<and> 0 \<le> vtable_index pm"
      using up(3)[of "mth_name x"] by simp
    show "vtable_index x = vtable_index pm \<and> mth_return x = mth_return pm \<and> mth_params x = mth_params pm"
    proof (cases "x = m")
      case True
      have "\<not> ctor \<and> \<not> static" using pm True slot by (auto simp: method_ok_def m_def)
      then have "v = vtable_index pm \<and> mth_return pm = ret \<and> mth_params pm = params"
        using v pm True by (auto simp: m_def override_slot_parent split: if_splits)
      then show ?thesis using pm True by (auto simp: m_def slot_def)
    next
      case False
      then have "x \<in> set (cls_methods (h ! i))" using x len by (simp add: c_def)
      then show ?thesis using ci pm by (simp add: class_ok_def overrides_ok_def)
    qed
  qed
  moreover have "layout_ok (h[i := c]) i"
  proof -
    have "object_layout (h[i := c]) i = parent_layout (h[i := c]) i @ filter (\<lambda>f. \<not> fld_static f) (cls_fields (h ! i))"
      using layout_split[of "h[i := c]" i] par p len by (simp add: c_def)
    then have "object_layout (h[i := c]) i = object_layout h i" using layout_split[of h i] par by (simp add: up(1))
    then show ?thesis using ci len by (simp add: class_ok_def layout_ok_def c_def)
  qed
  ultimately have "class_ok (h[i := c]) i" using ci slot len p by (auto simp: class_ok_def c_def)
  then show ?thesis unfolding res by (rule classes_ok_update_last[OF ok last])
qed

section \<open>Abstract flags do not matter\<close>

definition unabs :: "MethodSymbol \<Rightarrow> MethodSymbol" where
  "unabs m = m\<lparr>mth_abstract := False\<rparr>"

definition erase :: "ClassSymbol \<Rightarrow> ClassSymbol" where
  "erase c = c\<lparr>cls_abstract := False, cls_methods := map unabs (cls_methods c)\<rparr>"

lemma unabs_simps [simp]:
  "mth_name (unabs m) = mth_name m" "vtable_index (unabs m) = vtable_index m" "method_ok (unabs m) = method_ok m"
  "mth_return (unabs m) = mth_return m" "mth_params (unabs m) = mth_params m" "unabs (m\<lparr>mth_abstract := b\<rparr>) = unabs m"
  by (simp_all add: unabs_def method_ok_def)

lemma erase_simps [simp]:
  "parent (erase c) = parent c" "cls_fields (erase c) = cls_fields c" "instance_size (erase c) = instance_size c"
  "cls_methods (erase c) = map unabs (cls_methods c)" "erase (c\<lparr>cls_abstract := b\<rparr>) = erase c"
  by (simp_all add: erase_def)

lemma find_index_map: "find_index p (map f xs) = find_index (\<lambda>x. p (f x)) xs"
  by (induction xs) auto

lemma find_method_erase: "i < length h \<Longrightarrow> find_method (map erase h) i n = find_method h i n"
proof (induction i rule: less_induct)
  case (less i)
  show ?case
    using less.prems less.IH by (subst (1 2) find_method.simps) (auto simp: find_index_map split: option.split)
qed

lemma object_layout_erase: "i < length h \<Longrightarrow> object_layout (map erase h) i = object_layout h i"
proof (induction i rule: less_induct)
  case (less i)
  show ?case
    using less.prems less.IH by (subst (1 2) object_layout.simps) (auto split: option.split)
qed

lemma visible_methods_erase: "i < length h \<Longrightarrow> visible_methods (map erase h) i = map unabs (visible_methods h i)"
proof (induction i rule: less_induct)
  case (less i)
  show ?case
    using less.prems less.IH by (subst (1 2) visible_methods.simps) (auto split: option.split)
qed

lemma method_of_erase: "i < length h \<Longrightarrow> method_of (map erase h) i n = map_option unabs (method_of h i n)"
  using find_method_le[of h i n] by (cases "find_method h i n") (auto simp: method_of_def find_method_erase)

lemma slots_ok_erase: "slots_ok (map unabs ms) = slots_ok ms"
  by (simp add: slots_ok_def)

lemma class_ok_erase:
  assumes "i < length h"
  shows "class_ok (map erase h) i = class_ok h i"
proof (cases "\<forall>p. parent (h ! i) = Some p \<longrightarrow> p < i")
  case True
  have "parent_method (map erase h) i n = map_option unabs (parent_method h i n)" for n
    using True assms by (cases "parent (h ! i)") (simp_all add: parent_method_def method_of_erase)
  then have "overrides_ok (map erase h) i = overrides_ok h i"
    using assms by (auto simp: overrides_ok_def)
  then show ?thesis
    using assms by (simp add: class_ok_def layout_ok_def object_layout_erase visible_methods_erase slots_ok_erase)
qed (use assms in \<open>auto simp: class_ok_def\<close>)

lemma classes_ok_erase: "classes_ok (map erase h) = classes_ok h"
  by (simp add: classes_ok_def class_ok_erase)

lemma classes_ok_same: "map erase h' = map erase h \<Longrightarrow> classes_ok h \<Longrightarrow> classes_ok h'"
  using classes_ok_erase[of h] classes_ok_erase[of h'] by simp

lemma map_update_same: "f c = f (xs ! k) \<Longrightarrow> map f (xs[k := c]) = map f xs"
proof (rule nth_equalityI)
  fix i assume "f c = f (xs ! k)" "i < length (map f (xs[k := c]))"
  then show "map f (xs[k := c]) ! i = map f xs ! i" by (cases "k = i") simp_all
qed simp

lemmas update_erase = map_update_same[of erase]

lemma set_method_abstract_erase:
  "j < length (cls_methods (h ! k)) \<Longrightarrow> map erase (set_method_abstract h (k, j)) = map erase h"
  unfolding set_method_abstract_def prod.case
  by (rule update_erase) (simp add: erase_def map_update_same[of unabs])

section \<open>Declarations\<close>

lemma add_field_length: "length (snd (add_field_to_class h i name type cn static access const mut)) = length h"
  by (simp add: add_field_to_class_def Let_def)

lemma add_method_length: "length (snd (add_method_to_class h i name ret params ctor static access)) = length h"
  by (simp add: add_method_to_class_def Let_def split: option.split)

lemma declare_fields_ok:
  "classes_ok h \<Longrightarrow> Suc i = length h \<Longrightarrow> classes_ok (foldl (declare_field i) h fs) \<and> length (foldl (declare_field i) h fs) = length h"
proof (induction fs arbitrary: h)
  case (Cons f fs)
  have "classes_ok (declare_field i h f)" "length (declare_field i h f) = length h"
    unfolding declare_field_def by (rule add_field_ok[OF Cons.prems], rule add_field_length)
  then show ?case using Cons.IH Cons.prems by simp
qed simp

lemma declare_method_ok:
  assumes "classes_ok h" and "Suc i = length h"
  shows "classes_ok (declare_method i h m) \<and> length (declare_method i h m) = length h"
proof -
  define h1 where "h1 = snd (add_method_to_class h i (md_name m) (md_return m) (md_params m) (md_ctor m) (md_static m) (md_access m))"
  have h1: "classes_ok h1" "length h1 = length h"
    unfolding h1_def by (rule add_method_ok[OF assms], rule add_method_length)
  define h2 where "h2 = (case find_method h1 i (md_name m) of None \<Rightarrow> h1 | Some kj \<Rightarrow> set_method_abstract h1 kj)"
  have "map erase h2 = map erase h1"
    using find_method_le[of h1 i "md_name m"] by (cases "find_method h1 i (md_name m)") (auto simp: h2_def set_method_abstract_erase)
  then have "map erase (h2[i := (h2 ! i)\<lparr>cls_abstract := True\<rparr>]) = map erase h1" by (simp add: update_erase)
  moreover from this have "length (h2[i := (h2 ! i)\<lparr>cls_abstract := True\<rparr>]) = length h1" by (metis length_map)
  ultimately show ?thesis
    using h1 classes_ok_same[of "h2[i := (h2 ! i)\<lparr>cls_abstract := True\<rparr>]" h1]
    by (simp add: declare_method_def h1_def[symmetric] h2_def[symmetric])
qed

lemma declare_methods_ok:
  "classes_ok h \<Longrightarrow> Suc i = length h \<Longrightarrow> classes_ok (foldl (declare_method i) h ms) \<and> length (foldl (declare_method i) h ms) = length h"
proof (induction ms arbitrary: h)
  case (Cons m ms)
  then show ?case using declare_method_ok[OF Cons.prems, of m] by simp
qed simp

text \<open>The class pointers of the symbols are valid.\<close>

definition classes_inv :: "SymbolTable \<Rightarrow> bool" where
  "classes_inv t \<longleftrightarrow> classes_ok (class_heap t)
     \<and> (\<forall>s \<in> set (symbols t). \<forall>i. class_info s = Some i \<longrightarrow> i < length (class_heap t))"

lemma new_class_ok:
  assumes "classes_ok h" and "parent c = None \<and> instance_size c = 8 \<or> (\<exists>p < length h. parent c = Some p \<and> instance_size c = instance_size (h ! p))"
    and "cls_fields c = []" "cls_methods c = []"
  shows "classes_ok (h @ [c])"
proof -
  have "class_ok (h @ [c]) (length h)"
  proof (cases "parent c")
    case None
    then show ?thesis using assms(2-4)
      by (simp add: class_ok_def layout_ok_def object_layout.simps[of "h @ [c]" "length h"]
          visible_methods.simps[of "h @ [c]" "length h"] slots_ok_def overrides_ok_def)
  next
    case (Some p)
    then have p: "p < length h" "instance_size c = instance_size (h ! p)" using assms(2) by auto
    have cp: "class_ok h p" using assms(1) p(1) by (simp add: classes_ok_def)
    have a: "agree p h (h @ [c])" by (rule agree_append[OF p(1)])
    have "object_layout (h @ [c]) (length h) = object_layout h p" "visible_methods (h @ [c]) (length h) = visible_methods h p"
      using Some p(1) assms(3,4) object_layout_local[OF a] visible_methods_local[OF a]
      by (simp_all add: object_layout.simps[of "h @ [c]" "length h"] visible_methods.simps[of "h @ [c]" "length h"])
    then show ?thesis using Some p assms(4) cp by (simp add: class_ok_def layout_ok_def overrides_ok_def)
  qed
  then show ?thesis using assms(1) by (simp add: classes_ok_snoc)
qed

lemma lookup_class_less: "classes_inv t \<Longrightarrow> lookup_class t n = Some i \<Longrightarrow> i < length (class_heap t)"
proof (cases "find (\<lambda>s. sym_kind s = SYMBOL_CLASS \<and> sym_name s = n) (rev (symbols t))")
  case (Some s)
  assume "classes_inv t" "lookup_class t n = Some i"
  moreover from Some have "s \<in> set (symbols t)" by (metis find_Some_iff nth_mem set_rev)
  ultimately show ?thesis using Some by (auto simp: classes_inv_def lookup_class_def)
qed (simp add: lookup_class_def)

lemma add_symbol_fresh:
  "add_symbol t n k ty d = (b, t') \<Longrightarrow> class_heap t' = class_heap t \<and> trait_heap t' = trait_heap t
     \<and> symbols t' = (if b then symbols t @ [new_symbol n k ty d] else symbols t)"
  by (auto simp: add_symbol_def split: if_splits)

lemma update_last_snoc: "symbols t = ss @ [s] \<Longrightarrow> symbols (update_last f t) = ss @ [f s]"
  by (simp add: update_last_def)

lemma update_last_heaps [simp]: "class_heap (update_last f t) = class_heap t" "trait_heap (update_last f t) = trait_heap t"
  by (simp_all add: update_last_def)

lemma lookup_class_last:
  "symbols t = ss @ [s] \<Longrightarrow> sym_kind s = SYMBOL_CLASS \<Longrightarrow> sym_name s = n \<Longrightarrow> lookup_class t n = class_info s"
  by (simp add: lookup_class_def)

lemma add_class_ok:
  assumes inv: "classes_inv t" and add: "add_class t name pn depth = (b, t')"
  shows "classes_inv t' \<and> (b \<longrightarrow> lookup_class t' name = Some (length (class_heap t)) \<and> length (class_heap t') = Suc (length (class_heap t)))"
proof (cases "redeclared (rev (symbols t)) name depth")
  case True
  then show ?thesis using add inv by (simp add: add_class_def)
next
  case False
  define s where "s = new_symbol name SYMBOL_CLASS TYPE_CLASS depth"
  obtain t1 where t1: "add_symbol t name SYMBOL_CLASS TYPE_CLASS depth = (True, t1)" "symbols t1 = symbols t @ [s]"
      "class_heap t1 = class_heap t"
    using False by (simp add: add_symbol_def s_def)
  have s: "sym_kind s = SYMBOL_CLASS" "sym_name s = name" "class_info s = None" by (simp_all add: s_def new_symbol_def)
  have inv1: "classes_inv t1" using inv s(3) unfolding classes_inv_def t1(2,3) by auto
  define cls where "cls = \<lparr>cls_name = name, parent_class = None, parent = None, cls_abstract = False,
      cls_fields = [], cls_methods = [], instance_size = 8\<rparr>"
  define attach where "attach = (\<lambda>c. update_last (\<lambda>s. s\<lparr>class_info := Some (length (class_heap t1))\<rparr>) (t1\<lparr>class_heap := class_heap t1 @ [c]\<rparr>))"
  have attach: "class_heap (attach c) = class_heap t @ [c]" "symbols (attach c) = symbols t @ [s\<lparr>class_info := Some (length (class_heap t))\<rparr>]" for c
    using update_last_snoc[of "t1\<lparr>class_heap := class_heap t1 @ [c]\<rparr>" "symbols t" s] t1 by (simp_all add: attach_def)
  have good: "classes_inv (attach c) \<and> lookup_class (attach c) name = Some (length (class_heap t))
      \<and> length (class_heap (attach c)) = Suc (length (class_heap t))" if "classes_ok (class_heap t @ [c])" for c
    using that inv s lookup_class_last[OF attach(2)] by (auto simp: classes_inv_def attach less_Suc_eq)
  have heap: "classes_ok (class_heap t)" using inv by (simp add: classes_inv_def)
  show ?thesis
  proof (cases pn)
    case None
    have "(b, t') = (True, attach cls)" using add False t1(1) None by (simp add: add_class_def cls_def attach_def Let_def)
    moreover have "classes_ok (class_heap t @ [cls])" by (rule new_class_ok[OF heap]) (simp_all add: cls_def)
    ultimately show ?thesis using good by simp
  next
    case (Some q)
    show ?thesis
    proof (cases "lookup_class t1 q")
      case None
      have "(b, t') = (False, t1\<lparr>symbols := symbols t\<rparr>)" using add False t1 None Some by (simp add: add_class_def Let_def)
      then show ?thesis using inv t1(3) by (simp add: classes_inv_def)
    next
      case (Some p)
      have p: "p < length (class_heap t)" using lookup_class_less[OF inv1 Some] t1(3) by simp
      define c where "c = cls\<lparr>parent := Some p, parent_class := Some q, instance_size := instance_size (class_heap t ! p)\<rparr>"
      have "(b, t') = (True, attach c)"
        using add False t1 \<open>pn = Some q\<close> Some by (simp add: add_class_def cls_def c_def attach_def Let_def)
      moreover have "classes_ok (class_heap t @ [c])" by (rule new_class_ok[OF heap]) (use p in \<open>auto simp: c_def cls_def\<close>)
      ultimately show ?thesis using good by simp
    qed
  qed
qed

lemma preregister_class_ok: "classes_inv t \<Longrightarrow> classes_inv (preregister_class depth t c)"
proof -
  assume inv: "classes_inv t"
  obtain b t1 where a: "add_class t (cs_name c) (cs_parent c) depth = (b, t1)" by fastforce
  note add = add_class_ok[OF inv a]
  show ?thesis
  proof (cases b)
    case False
    then show ?thesis using add a by (simp add: preregister_class_def)
  next
    case True
    define i where "i = length (class_heap t)"
    have i: "lookup_class t1 (cs_name c) = Some i" "Suc i = length (class_heap t1)" "classes_inv t1" using add True by (simp_all add: i_def)
    define h1 where "h1 = foldl (declare_field i) (class_heap t1) (cs_fields c)"
    have h1: "classes_ok h1" "length h1 = length (class_heap t1)"
      using declare_fields_ok[of "class_heap t1" i] i by (simp_all add: h1_def classes_inv_def)
    define h2 where "h2 = (if cs_abstract c then h1[i := (h1 ! i)\<lparr>cls_abstract := True\<rparr>] else h1)"
    have "classes_ok h2" "length h2 = length h1"
      using classes_ok_same[OF _ h1(1), of h2] by (simp_all add: h2_def update_erase)
    then have "classes_ok (foldl (declare_method i) h2 (cs_methods c)) \<and> length (foldl (declare_method i) h2 (cs_methods c)) = length (class_heap t1)"
      using declare_methods_ok[of h2 i] h1(2) i(2) by simp
    moreover have "preregister_class depth t c = t1\<lparr>class_heap := foldl (declare_method i) h2 (cs_methods c)\<rparr>"
      using a True i(1) by (simp add: preregister_class_def h1_def h2_def Let_def)
    ultimately show ?thesis using i(3) by (simp add: classes_inv_def)
  qed
qed

section \<open>Any run of semantic analysis\<close>

datatype table_op = OpDeclare string SymbolDecl | OpEnter | OpExit | OpClass ClassStmt | OpTrait string

fun table_step :: "SymbolTable \<times> int \<Rightarrow> table_op \<Rightarrow> SymbolTable \<times> int" where
  "table_step s (OpDeclare n d) = snd (declare_symbol s n d)"
| "table_step (t, depth) OpEnter = enter_scope t depth"
| "table_step (t, depth) OpExit = exit_scope t depth"
| "table_step (t, depth) (OpClass c) = (preregister_class depth t c, depth)"
| "table_step (t, depth) (OpTrait n) = (snd (add_trait t n depth), depth)"

abbreviation table_run :: "table_op list \<Rightarrow> SymbolTable" where
  "table_run ops \<equiv> fst (foldl table_step (init_symbol_table, 0) ops)"

lemma classes_inv_symbols:
  "classes_inv t \<Longrightarrow> class_heap t' = class_heap t \<Longrightarrow> (\<And>s. s \<in> set (symbols t') \<Longrightarrow> s \<in> set (symbols t) \<or> class_info s = None) \<Longrightarrow> classes_inv t'"
  unfolding classes_inv_def by fastforce

lemma declared_class_info [simp]: "class_info (declared n d k) = None"
  by (cases d) (simp_all add: new_symbol_def)

lemma declare_symbol_inv:
  assumes "classes_inv t" and "declare_symbol (t, depth) n d = (b, t', depth')"
  shows "classes_inv t'"
proof (rule classes_inv_symbols[OF assms(1)])
  show "class_heap t' = class_heap t"
    using assms(2) by (cases d) (auto simp: add_extern_function_def add_function_def add_symbol_def update_last_def split: if_splits)
  fix s assume "s \<in> set (symbols t')"
  then show "s \<in> set (symbols t) \<or> class_info s = None"
    using assms(2) by (cases d) (auto simp: add_extern_function_def add_function_def add_symbol_def update_last_def new_symbol_def split: if_splits)
qed

lemma add_trait_inv: "classes_inv t \<Longrightarrow> classes_inv (snd (add_trait t n depth))"
  by (cases "redeclared (rev (symbols t)) n depth"; erule classes_inv_symbols)
    (auto simp: add_trait_def add_symbol_def update_last_def new_symbol_def)

lemma exit_scope_inv: "classes_inv t \<Longrightarrow> classes_inv (fst (exit_scope t depth))"
  by (erule classes_inv_symbols) (auto simp: exit_scope_def dest: set_dropWhileD)

lemma table_run_inv: "classes_inv (table_run ops)"
proof -
  have "classes_inv (fst s) \<Longrightarrow> classes_inv (fst (foldl table_step s ops))" for s
  proof (induction ops arbitrary: s)
    case (Cons op ops)
    obtain t depth where s: "s = (t, depth)" by (cases s)
    have "classes_inv (fst (table_step s op))"
    proof (cases op)
      case (OpDeclare n d)
      obtain b t' depth' where "declare_symbol (t, depth) n d = (b, t', depth')" by (metis prod_cases3)
      then show ?thesis using declare_symbol_inv[of t depth n d] Cons.prems by (simp add: s OpDeclare)
    qed (use Cons.prems in \<open>simp_all add: s enter_scope_def exit_scope_inv preregister_class_ok add_trait_inv\<close>)
    then show ?case using Cons.IH by simp
  qed simp
  then show ?thesis by (simp add: classes_inv_def init_symbol_table_def classes_ok_def)
qed

lemma table_run_class: "i < length (class_heap (table_run ops)) \<Longrightarrow> class_ok (class_heap (table_run ops)) i"
  using table_run_inv by (simp add: classes_inv_def classes_ok_def)

definition class_of :: "string \<Rightarrow> string option \<Rightarrow> string list \<Rightarrow> (string \<times> bool \<times> DataType) list \<Rightarrow> ClassStmt" where
  "class_of name par fs ms = \<lparr>cs_name = name, cs_parent = par, cs_abstract = False,
     cs_fields = map (\<lambda>f. \<lparr>fd_name = f, fd_type = TYPE_I32, fd_class = None, fd_const = False, fd_mutable = True,
       fd_static = False, fd_access = ACCESS_PUBLIC\<rparr>) fs,
     cs_methods = map (\<lambda>(m, st, r). \<lparr>md_name = m, md_params = [], md_return = r, md_ctor = False, md_static = st,
       md_abstract = False, md_access = ACCESS_PUBLIC\<rparr>) ms\<rparr>"

text \<open>
  C37: Objects have one layout along a hierarchy.  After any run of declarations, scopes and class
  declarations, the instance fields of every class, its parents' first, lie at the offsets 8, 16, 24 and
  so on behind the method table pointer and fill the instance size, no two have one name, and the
  layout of a class is the layout of its parent followed by its own fields.
\<close>

theorem class_layout_extends_parent:
  assumes "i < length (class_heap (table_run ops))"
  shows "map fld_offset (object_layout (class_heap (table_run ops)) i)
      = map (\<lambda>k. 8 + 8 * int k) [0..<length (object_layout (class_heap (table_run ops)) i)]
    \<and> instance_size (class_heap (table_run ops) ! i) = 8 + 8 * int (length (object_layout (class_heap (table_run ops)) i))
    \<and> distinct (map fld_name (object_layout (class_heap (table_run ops)) i))
    \<and> (\<forall>p. parent (class_heap (table_run ops) ! i) = Some p \<longrightarrow>
        p < i \<and> object_layout (class_heap (table_run ops)) i
          = object_layout (class_heap (table_run ops)) p @ filter (\<lambda>f. \<not> fld_static f) (cls_fields (class_heap (table_run ops) ! i)))"
proof -
  define h where "h = class_heap (table_run ops)"
  have ok: "class_ok h i" using table_run_class[OF assms] by (simp add: h_def)
  have L: "object_layout h i = parent_layout h i @ filter (\<lambda>f. \<not> fld_static f) (cls_fields (h ! i))"
    by (rule layout_split) (rule class_ok_parent[OF ok])
  have "\<forall>p. parent (h ! i) = Some p \<longrightarrow>
      p < i \<and> object_layout h i = object_layout h p @ filter (\<lambda>f. \<not> fld_static f) (cls_fields (h ! i))"
    unfolding L using class_ok_parent[OF ok] by (simp add: parent_layout_def)
  then show ?thesis using ok unfolding h_def[symmetric] class_ok_def layout_ok_def by blast
qed

theorem class_layout_extends_parent_witness:
  "let h = class_heap (table_run [OpClass (class_of ''A'' None [''x'', ''y''] []), OpClass (class_of ''B'' (Some ''A'') [''x'', ''z''] [])])
   in map fld_name (object_layout h 1) = [''x'', ''y'', ''z''] \<and> map fld_offset (object_layout h 1) = [8, 16, 24]"
proof -
  let ?h = "class_heap (table_run [OpClass (class_of ''A'' None [''x'', ''y''] []), OpClass (class_of ''B'' (Some ''A'') [''x'', ''z''] [])])"
  have h: "length ?h = 2" "map fld_name (object_layout ?h 1) = [''x'', ''y'', ''z'']" by code_simp+
  from arg_cong[OF h(2), of length] have len: "length (object_layout ?h 1) = 3" by (simp only: length_map) simp
  from class_layout_extends_parent[of 1 "[OpClass (class_of ''A'' None [''x'', ''y''] []), OpClass (class_of ''B'' (Some ''A'') [''x'', ''z''] [])]"]
  have "map fld_offset (object_layout ?h 1) = map (\<lambda>k. 8 + 8 * int k) [0..<3]" unfolding len h(1) by simp
  then show ?thesis using h(2) by (simp add: Let_def upt_rec)
qed

text \<open>
  C38: Virtual dispatch is sound.  After any such run, along the hierarchy of every class two virtual
  methods share a slot of the method table only when they have one name; and when a call finds a
  virtual method in a class and its parent finds one of that name too, both have one slot and one
  signature, so a call through the parent's type runs the override.
\<close>

theorem class_vtable_sound:
  assumes "i < length (class_heap (table_run ops))"
  shows "slots_ok (visible_methods (class_heap (table_run ops)) i)
    \<and> (\<forall>p n m pm. parent (class_heap (table_run ops) ! i) = Some p \<and> method_of (class_heap (table_run ops)) i n = Some m
        \<and> method_of (class_heap (table_run ops)) p n = Some pm \<and> 0 \<le> vtable_index m \<and> 0 \<le> vtable_index pm \<longrightarrow>
        vtable_index m = vtable_index pm \<and> mth_return m = mth_return pm \<and> mth_params m = mth_params pm)"
proof -
  define h where "h = class_heap (table_run ops)"
  have ok: "class_ok h i" using table_run_class[OF assms] by (simp add: h_def)
  have "vtable_index m = vtable_index pm \<and> mth_return m = mth_return pm \<and> mth_params m = mth_params pm"
    if "parent (h ! i) = Some p" "method_of h i n = Some m" "method_of h p n = Some pm" "0 \<le> vtable_index m" "0 \<le> vtable_index pm" for p n m pm
  proof (cases "find_index (\<lambda>m. mth_name m = n) (cls_methods (h ! i))")
    case None
    then have "method_of h i n = method_of h p n" using that(1) by (simp add: method_of_def find_method_code[OF ok])
    then show ?thesis using that(2,3) by simp
  next
    case (Some j)
    then have "m \<in> set (cls_methods (h ! i))" "mth_name m = n"
      using that(2) find_index_Some[OF Some] by (auto simp: method_of_def find_method_code[OF ok])
    moreover have "parent_method h i n = Some pm" using that(1,3) by (simp add: parent_method_def)
    ultimately show ?thesis using ok that(4,5) by (simp add: class_ok_def overrides_ok_def)
  qed
  then show ?thesis using ok unfolding h_def[symmetric] class_ok_def by blast
qed

theorem class_vtable_sound_witness:
  "let h = class_heap (table_run [OpClass (class_of ''A'' None [] [(''f'', False, TYPE_I32), (''g'', False, TYPE_BOOL)]),
       OpClass (class_of ''B'' (Some ''A'') [] [(''h'', False, TYPE_VOID), (''g'', False, TYPE_BOOL)])])
   in map_option vtable_index (method_of h 1 ''g'') = map_option vtable_index (method_of h 0 ''g'') \<and> slots_ok (visible_methods h 1)"
proof -
  let ?ops = "[OpClass (class_of ''A'' None [] [(''f'', False, TYPE_I32), (''g'', False, TYPE_BOOL)]),
       OpClass (class_of ''B'' (Some ''A'') [] [(''h'', False, TYPE_VOID), (''g'', False, TYPE_BOOL)])]"
  have h: "length (class_heap (table_run ?ops)) = 2" "parent (class_heap (table_run ?ops) ! 1) = Some 0"
    "map_option vtable_index (method_of (class_heap (table_run ?ops)) 1 ''g'') \<noteq> None"
    "map_option (\<lambda>m. vtable_index m \<ge> 0) (method_of (class_heap (table_run ?ops)) 1 ''g'') = Some True"
    "map_option (\<lambda>m. vtable_index m \<ge> 0) (method_of (class_heap (table_run ?ops)) 0 ''g'') = Some True"
    by code_simp+
  then obtain m pm where "method_of (class_heap (table_run ?ops)) 1 ''g'' = Some m" "method_of (class_heap (table_run ?ops)) 0 ''g'' = Some pm"
      "0 \<le> vtable_index m" "0 \<le> vtable_index pm" by auto
  then show ?thesis using class_vtable_sound[of 1 ?ops] h(1,2) unfolding Let_def by fastforce
qed

section \<open>Corner cases\<close>

text \<open>
  A static method of a class in between cuts the override relation: the method of the grandchild gets a
  slot of its own, so a call through the grandparent's type misses it.
\<close>

lemma static_method_cuts_override:
  "let h = class_heap (table_run [OpClass (class_of ''A'' None [] [(''f'', False, TYPE_I32)]),
       OpClass (class_of ''B'' (Some ''A'') [] [(''f'', True, TYPE_I32)]), OpClass (class_of ''C'' (Some ''B'') [] [(''f'', False, TYPE_I32)])])
   in map_option vtable_index (method_of h 0 ''f'') = Some 0 \<and> map_option vtable_index (method_of h 2 ''f'') = Some 1"
  by code_simp

text \<open>
  An abstract redeclaration with another signature is refused, but then the parent's method, which the
  lookup finds, is marked abstract.
\<close>

lemma refused_abstract_marks_parent:
  "let c = class_of ''B'' (Some ''A'') [] [(''f'', False, TYPE_BOOL)];
       h = class_heap (table_run [OpClass (class_of ''A'' None [] [(''f'', False, TYPE_I32)]),
         OpClass (c\<lparr>cs_methods := map (\<lambda>m. m\<lparr>md_abstract := True\<rparr>) (cs_methods c)\<rparr>)])
   in cls_methods (h ! 1) = [] \<and> map mth_abstract (cls_methods (h ! 0)) = [True] \<and> \<not> cls_abstract (h ! 0)"
  by code_simp

text \<open>A class cannot extend an outer class of its own name: the lookup finds the new, still empty symbol.\<close>

lemma extend_same_name_refused:
  "let s = foldl table_step (init_symbol_table, 0) [OpClass (class_of ''A'' None [] []), OpEnter]
   in fst (add_class (fst s) ''A'' (Some ''A'') (snd s)) = False \<and> fst (add_class (fst s) ''B'' (Some ''A'') (snd s)) = True"
  by code_simp

text \<open>The walk up the hierarchy is the closure of the parent relation.\<close>

lemma ancestor_of_closure:
  "classes_ok h \<Longrightarrow> i < length h \<Longrightarrow> ancestor_of h i t \<longleftrightarrow> (i, t) \<in> {(a, b). a < length h \<and> parent (h ! a) = Some b}\<^sup>+"
proof (induction i rule: less_induct)
  case (less i)
  let ?R = "{(a, b). a < length h \<and> parent (h ! a) = Some b}"
  show ?case
  proof (cases "parent (h ! i)")
    case None
    then have "(i, t) \<notin> ?R\<^sup>+" by (auto dest: tranclD)
    then show ?thesis using None by (simp add: ancestor_of.simps)
  next
    case (Some p)
    have p: "p < i" using class_ok_parent[OF _ Some] less.prems by (simp add: classes_ok_def)
    have "(i, t) \<in> ?R\<^sup>+ \<longleftrightarrow> p = t \<or> (p, t) \<in> ?R\<^sup>+"
      using Some less.prems(2) by (subst trancl_unfold_left) (auto simp: rtrancl_eq_or_trancl)
    then show ?thesis using less.IH[OF p] less.prems p Some by (subst ancestor_of.simps) simp
  qed
qed

end
