(* ===== verification/Mir_Dom.thy ===== *)
theory Mir_Dom
  imports Mir_Verify
begin

text \<open>
  Dominators and dominance frontiers: the first part of \<^verbatim>\<open>src/compiler/ir/mir_mem2reg.c\<close>.  The fields
  \<^verbatim>\<open>idom\<close>, \<^verbatim>\<open>dom_children\<close> and \<^verbatim>\<open>dom_frontier\<close> of the blocks are kept as functions of the block.  An
  array indexed by block id is the list of the ids marked, or a function of the id; a block with an id
  of \<open>MAX_BLOCKS\<close> or more, for which the code writes out of bounds, is never visited.
\<close>

section \<open>Reverse post-order\<close>

definition MAX_BLOCKS :: nat where
  "MAX_BLOCKS = 4096"

text \<open>
  \<^verbatim>\<open>dfs_post_order\<close> for each block of a list; the loop over the successors is the recursive call
  on their list.
\<close>

function dfs_post_order :: "(bref \<Rightarrow> nat) \<Rightarrow> (bref \<Rightarrow> bref list) \<Rightarrow> bref list \<Rightarrow> nat list \<Rightarrow> bref list \<Rightarrow> nat list \<times> bref list" where
  "dfs_post_order ident succ [] visited order = (visited, order)"
| "dfs_post_order ident succ (bb # rest) visited order =
     (if ident bb \<ge> MAX_BLOCKS \<or> ident bb \<in> set visited then dfs_post_order ident succ rest visited order
      else let (v1, o1) = dfs_post_order ident succ (succ bb) (ident bb # visited) order
           in dfs_post_order ident succ rest v1 (o1 @ [bb]))"
  by pat_completeness auto

lemma dfs_visited_grows:
  "dfs_post_order_dom (ident, succ, bs, vis, ord) \<Longrightarrow> set vis \<subseteq> set (fst (dfs_post_order ident succ bs vis ord))"
proof (induction ident succ bs vis ord rule: dfs_post_order.pinduct)
  case (2 ident succ bb rest visited order)
  show ?case
  proof (cases "ident bb \<ge> MAX_BLOCKS \<or> ident bb \<in> set visited")
    case True
    then show ?thesis using 2 by (simp add: dfs_post_order.psimps)
  next
    case False
    obtain v1 o1 where d: "dfs_post_order ident succ (succ bb) (ident bb # visited) order = (v1, o1)" by fastforce
    have "set (ident bb # visited) \<subseteq> set v1" using "2.IH"(2)[OF False] d by simp
    moreover have "set v1 \<subseteq> set (fst (dfs_post_order ident succ rest v1 (o1 @ [bb])))"
      using "2.IH"(3)[OF False] d by simp
    ultimately show ?thesis using 2(1) False d by (auto simp: dfs_post_order.psimps)
  qed
qed (simp add: dfs_post_order.psimps)

lemma diff_psubset: "x < n \<Longrightarrow> x \<notin> V \<Longrightarrow> insert x V \<subseteq> W \<Longrightarrow> {..<n} - W \<subset> {..<n} - V" for x n :: nat
  by (rule psubsetI) blast+

lemma psubset_step: "A \<subset> B \<Longrightarrow> finite B \<Longrightarrow> ((A, m), (B, n)) \<in> finite_psubset <*lex*> less_than"
  "m < n \<Longrightarrow> ((A, m), (A, n)) \<in> finite_psubset <*lex*> less_than"
  by (simp_all add: finite_psubset_def)

termination dfs_post_order
proof (relation "inv_image (finite_psubset <*lex*> less_than)
    (\<lambda>(ident, succ, bs, vis, ord). ({..<MAX_BLOCKS} - set vis, length bs))")
  show "wf (inv_image (finite_psubset <*lex*> less_than) (\<lambda>(ident, succ, bs, vis, ord). ({..<MAX_BLOCKS} - set vis, length bs)))"
    by (rule wf_inv_image[OF wf_lex_prod[OF wf_finite_psubset wf_less_than]])
next
  fix ident :: "bref \<Rightarrow> nat" and succ :: "bref \<Rightarrow> bref list" and bb :: bref and rest order :: "bref list" and visited :: "nat list"
  show "((ident, succ, rest, visited, order), ident, succ, bb # rest, visited, order)
      \<in> inv_image (finite_psubset <*lex*> less_than) (\<lambda>(ident, succ, bs, vis, ord). ({..<MAX_BLOCKS} - set vis, length bs))"
    unfolding in_inv_image prod.case by (rule psubset_step(2)) simp
  assume new: "\<not> (MAX_BLOCKS \<le> ident bb \<or> ident bb \<in> set visited)"
  then have b: "ident bb < MAX_BLOCKS" "ident bb \<notin> set visited" by auto
  have "{..<MAX_BLOCKS} - set (ident bb # visited) \<subset> {..<MAX_BLOCKS} - set visited"
    by (rule diff_psubset[OF b]) simp
  then show "((ident, succ, succ bb, ident bb # visited, order), ident, succ, bb # rest, visited, order)
      \<in> inv_image (finite_psubset <*lex*> less_than) (\<lambda>(ident, succ, bs, vis, ord). ({..<MAX_BLOCKS} - set vis, length bs))"
    unfolding in_inv_image prod.case by (rule psubset_step(1)) simp
  fix v v1 o1
  assume v: "v = dfs_post_order ident succ (succ bb) (ident bb # visited) order" "(v1, o1) = v"
    and dom: "dfs_post_order_dom (ident, succ, succ bb, ident bb # visited, order)"
  have v1: "v1 = fst (dfs_post_order ident succ (succ bb) (ident bb # visited) order)" by (metis v fst_conv)
  have "set (ident bb # visited) \<subseteq> set v1" unfolding v1 by (rule dfs_visited_grows[OF dom])
  then have "{..<MAX_BLOCKS} - set v1 \<subset> {..<MAX_BLOCKS} - set visited" by (intro diff_psubset[OF b]) simp
  then show "((ident, succ, rest, v1, o1 @ [bb]), ident, succ, bb # rest, visited, order)
      \<in> inv_image (finite_psubset <*lex*> less_than) (\<lambda>(ident, succ, bs, vis, ord). ({..<MAX_BLOCKS} - set vis, length bs))"
    unfolding in_inv_image prod.case by (rule psubset_step(1)) simp
qed

declare dfs_post_order.simps [simp del]

definition compute_rpo :: "(bref \<Rightarrow> nat) \<Rightarrow> (bref \<Rightarrow> bref list) \<Rightarrow> bref \<Rightarrow> bref list" where
  "compute_rpo ident succ entry = rev (snd (dfs_post_order ident succ [entry] [] []))"

section \<open>The dominator tree\<close>

text \<open>\<^verbatim>\<open>rpo_map.data[id]\<close>\<close>

definition rpo_map :: "(bref \<Rightarrow> nat) \<Rightarrow> bref list \<Rightarrow> bref \<Rightarrow> int" where
  "rpo_map ident rpo b = (case find_index (\<lambda>x. ident x = ident b) rpo of Some i \<Rightarrow> int i | None \<Rightarrow> - 1)"

text \<open>
  The two inner loops step one pointer at a time; the outer test comes out the same when it is made
  after every step.  \<open>None\<close> is a null dereference or a loop that never ends.
\<close>

partial_function (option) intersect :: "(bref \<Rightarrow> int) \<Rightarrow> (bref \<Rightarrow> bref option) \<Rightarrow> bref \<Rightarrow> bref \<Rightarrow> bref option" where
  "intersect rmap idom b1 b2 =
     (if b1 = b2 then Some b1
      else if rmap b1 > rmap b2 then (case idom b1 of None \<Rightarrow> None | Some p \<Rightarrow> intersect rmap idom p b2)
      else if rmap b2 > rmap b1 then (case idom b2 of None \<Rightarrow> None | Some p \<Rightarrow> intersect rmap idom b1 p)
      else intersect rmap idom b1 b2)"

text \<open>The loop over the remaining predecessors.\<close>

fun intersect_preds :: "(bref \<Rightarrow> int) \<Rightarrow> (bref \<Rightarrow> bref option) \<Rightarrow> bref list \<Rightarrow> bref \<Rightarrow> bref option" where
  "intersect_preds rmap idom [] new_idom = Some new_idom"
| "intersect_preds rmap idom (p # ps) new_idom =
     (if p = new_idom then intersect_preds rmap idom ps new_idom
      else if idom p \<noteq> None
      then (case intersect rmap idom p new_idom of None \<Rightarrow> None | Some n \<Rightarrow> intersect_preds rmap idom ps n)
      else intersect_preds rmap idom ps new_idom)"

definition dom_step ::
    "(bref \<Rightarrow> int) \<Rightarrow> (bref \<Rightarrow> bref list) \<Rightarrow> bref \<Rightarrow> (bref \<Rightarrow> bref option) \<times> bool \<Rightarrow> ((bref \<Rightarrow> bref option) \<times> bool) option" where
  "dom_step rmap pred bb st =
     (case st of (idom, changed) \<Rightarrow>
        (case find (\<lambda>p. idom p \<noteq> None) (pred bb) of
           None \<Rightarrow> Some (idom, changed)
         | Some n0 \<Rightarrow>
             (case intersect_preds rmap idom (pred bb) n0 of
                None \<Rightarrow> None
              | Some n \<Rightarrow> if idom bb \<noteq> Some n then Some (idom(bb := Some n), True) else Some (idom, changed))))"

fun dom_pass ::
    "(bref \<Rightarrow> int) \<Rightarrow> (bref \<Rightarrow> bref list) \<Rightarrow> bref list \<Rightarrow> (bref \<Rightarrow> bref option) \<times> bool \<Rightarrow> ((bref \<Rightarrow> bref option) \<times> bool) option" where
  "dom_pass rmap pred [] st = Some st"
| "dom_pass rmap pred (bb # bs) st = (case dom_step rmap pred bb st of None \<Rightarrow> None | Some st1 \<Rightarrow> dom_pass rmap pred bs st1)"

partial_function (option) dom_iterate ::
    "(bref \<Rightarrow> int) \<Rightarrow> (bref \<Rightarrow> bref list) \<Rightarrow> bref list \<Rightarrow> (bref \<Rightarrow> bref option) \<Rightarrow> (bref \<Rightarrow> bref option) option" where
  "dom_iterate rmap pred bs idom =
     (case dom_pass rmap pred bs (idom, False) of
        None \<Rightarrow> None
      | Some (idom1, changed) \<Rightarrow> if changed then dom_iterate rmap pred bs idom1 else Some idom1)"

definition compute_idom ::
    "(bref \<Rightarrow> nat) \<Rightarrow> (bref \<Rightarrow> bref list) \<Rightarrow> (bref \<Rightarrow> bref list) \<Rightarrow> bref \<Rightarrow> (bref \<Rightarrow> bref option) \<Rightarrow> (bref \<Rightarrow> bref option) option" where
  "compute_idom ident succ pred entry idom0 =
     (let rpo = compute_rpo ident succ entry
      in if rpo = [] then Some idom0
         else let idom1 = (\<lambda>b. if b \<in> set rpo then None else idom0 b)(hd rpo := Some (hd rpo))
              in dom_iterate (rpo_map ident rpo) pred (tl rpo) idom1)"

text \<open>The children, in reverse post-order.\<close>

definition dom_children :: "bref list \<Rightarrow> (bref \<Rightarrow> bref option) \<Rightarrow> bref \<Rightarrow> bref list" where
  "dom_children rpo idom parent = filter (\<lambda>bb. idom bb = Some parent \<and> parent \<noteq> bb) (tl rpo)"

section \<open>Dominance frontiers\<close>

partial_function (option) df_runner ::
    "(bref \<Rightarrow> bref option) \<Rightarrow> bref \<Rightarrow> bref \<Rightarrow> (bref \<Rightarrow> bref list) \<Rightarrow> (bref \<Rightarrow> bref list) option" where
  "df_runner idom bb runner df =
     (if Some runner = idom bb then Some df
      else let df1 = (if bb \<in> set (df runner) then df else df(runner := df runner @ [bb]))
           in case idom runner of None \<Rightarrow> Some df1 | Some r \<Rightarrow> df_runner idom bb r df1)"

fun df_preds :: "(bref \<Rightarrow> bref option) \<Rightarrow> bref \<Rightarrow> bref list \<Rightarrow> (bref \<Rightarrow> bref list) \<Rightarrow> (bref \<Rightarrow> bref list) option" where
  "df_preds idom bb [] df = Some df"
| "df_preds idom bb (p # ps) df = (case df_runner idom bb p df of None \<Rightarrow> None | Some df1 \<Rightarrow> df_preds idom bb ps df1)"

fun df_blocks :: "(bref \<Rightarrow> bref list) \<Rightarrow> (bref \<Rightarrow> bref option) \<Rightarrow> bref list \<Rightarrow> (bref \<Rightarrow> bref list) \<Rightarrow> (bref \<Rightarrow> bref list) option" where
  "df_blocks pred idom [] df = Some df"
| "df_blocks pred idom (bb # bs) df =
     (if length (pred bb) < 2 then df_blocks pred idom bs df
      else case df_preds idom bb (pred bb) df of None \<Rightarrow> None | Some df1 \<Rightarrow> df_blocks pred idom bs df1)"

declare intersect.simps [code] dom_iterate.simps [code] df_runner.simps [code]

section \<open>On a function\<close>

record DomInfo =
  idom_of :: "bref \<Rightarrow> bref option"
  dom_children_of :: "bref \<Rightarrow> bref list"
  dom_frontier_of :: "bref \<Rightarrow> bref list"

definition mir_compute_dominators :: "MirFunction \<Rightarrow> DomInfo \<Rightarrow> DomInfo option" where
  "mir_compute_dominators f d =
     (case entry_block f of
        None \<Rightarrow> Some d
      | Some e \<Rightarrow>
          let succ = (\<lambda>b. successors (blocks f ! b));
              rpo = compute_rpo (block_ident f) succ e
          in case compute_idom (block_ident f) succ (\<lambda>b. predecessors (blocks f ! b)) e (idom_of d) of
               None \<Rightarrow> None
             | Some idom \<Rightarrow>
                 Some (d\<lparr>idom_of := idom,
                         dom_children_of := (\<lambda>b. if b \<in> set rpo then dom_children rpo idom b else dom_children_of d b)\<rparr>))"

definition mir_compute_dom_frontiers :: "MirFunction \<Rightarrow> DomInfo \<Rightarrow> DomInfo option" where
  "mir_compute_dom_frontiers f d =
     (case df_blocks (\<lambda>b. predecessors (blocks f ! b)) (idom_of d) (block_list f)
             (\<lambda>b. if b \<in> set (block_list f) then [] else dom_frontier_of d b) of
        None \<Rightarrow> None
      | Some df \<Rightarrow> Some (d\<lparr>dom_frontier_of := df\<rparr>))"

end
