(* ===== verification/Dom_Facts.thy ===== *)
theory Dom_Facts
  imports Mir_Dom
begin

text \<open>
  Correctness of the dominator computation: the iteration of Cooper, Harvey and Kennedy ends, and the
  tree it leaves is the tree of immediate dominators.
\<close>

section \<open>Paths and dominance\<close>

inductive cfg_path :: "(bref \<Rightarrow> bref list) \<Rightarrow> bref \<Rightarrow> bref list \<Rightarrow> bref \<Rightarrow> bool" for succ e where
  start: "cfg_path succ e [e] e"
| step: "cfg_path succ e xs a \<Longrightarrow> b \<in> set (succ a) \<Longrightarrow> cfg_path succ e (xs @ [b]) b"

definition reaches :: "(bref \<Rightarrow> bref list) \<Rightarrow> bref \<Rightarrow> bref \<Rightarrow> bool" where
  "reaches succ e b \<longleftrightarrow> (\<exists>xs. cfg_path succ e xs b)"

definition dominates :: "(bref \<Rightarrow> bref list) \<Rightarrow> bref \<Rightarrow> bref \<Rightarrow> bref \<Rightarrow> bool" where
  "dominates succ e a b \<longleftrightarrow> (\<forall>xs. cfg_path succ e xs b \<longrightarrow> a \<in> set xs)"

lemma path_last: "cfg_path succ e xs b \<Longrightarrow> b \<in> set xs"
  by (induction rule: cfg_path.induct) auto

lemma path_start: "cfg_path succ e xs b \<Longrightarrow> e \<in> set xs"
  by (induction rule: cfg_path.induct) auto

lemma reaches_start: "reaches succ e e"
  by (auto simp: reaches_def intro: cfg_path.start)

lemma reaches_step: "reaches succ e a \<Longrightarrow> b \<in> set (succ a) \<Longrightarrow> reaches succ e b"
  by (auto simp: reaches_def intro: cfg_path.step)

lemma path_reaches: "cfg_path succ e xs b \<Longrightarrow> x \<in> set xs \<Longrightarrow> reaches succ e x"
  by (induction rule: cfg_path.induct) (auto intro: cfg_path.intros simp: reaches_def)

lemma reaches_succ_rel: "reaches succ e b \<longleftrightarrow> (e, b) \<in> (succ_rel succ)\<^sup>*"
proof
  show "(e, b) \<in> (succ_rel succ)\<^sup>*" if b: "reaches succ e b"
  proof -
    obtain xs where "cfg_path succ e xs b" using b unfolding reaches_def by blast
    then show ?thesis by (induction rule: cfg_path.induct) (auto simp: succ_rel_def intro: rtrancl_into_rtrancl)
  qed
  show "reaches succ e b" if "(e, b) \<in> (succ_rel succ)\<^sup>*"
    using that by (induction rule: rtrancl_induct) (auto simp: succ_rel_def intro: reaches_start reaches_step)
qed

lemma dominates_refl: "dominates succ e b b"
  using path_last by (auto simp: dominates_def)

lemma dominates_start: "dominates succ e a e \<Longrightarrow> a = e"
  by (auto simp: dominates_def dest: spec[of _ "[e]"] intro: cfg_path.start)

lemma entry_dominates: "dominates succ e e b"
  using path_start by (auto simp: dominates_def)

lemma dominates_pred: "dominates succ e d b \<Longrightarrow> d \<noteq> b \<Longrightarrow> b \<in> set (succ p) \<Longrightarrow> dominates succ e d p"
  unfolding dominates_def using cfg_path.step by fastforce

lemma dominates_trans: "dominates succ e a b \<Longrightarrow> dominates succ e b c \<Longrightarrow> dominates succ e a c"
proof -
  have prefix: "\<exists>ys. cfg_path succ e ys x \<and> set ys \<subseteq> set xs" if "cfg_path succ e xs y" "x \<in> set xs" for xs x y
    using that
  proof (induction rule: cfg_path.induct)
    case (step xs a b)
    then show ?case by (cases "x = b") (auto intro: cfg_path.step)
  qed (auto intro: cfg_path.start)
  assume "dominates succ e a b" "dominates succ e b c"
  then show ?thesis unfolding dominates_def using prefix by blast
qed

section \<open>The reverse post-order\<close>

definition graph_ok :: "(bref \<Rightarrow> nat) \<Rightarrow> (bref \<Rightarrow> bref list) \<Rightarrow> (bref \<Rightarrow> bref list) \<Rightarrow> bref \<Rightarrow> bool" where
  "graph_ok ident succ pred e \<longleftrightarrow>
     inj_on ident {b. reaches succ e b} \<and> (\<forall>b. reaches succ e b \<longrightarrow> ident b < MAX_BLOCKS)
     \<and> (\<forall>a b. reaches succ e a \<longrightarrow> reaches succ e b \<longrightarrow> (a \<in> set (pred b) \<longleftrightarrow> b \<in> set (succ a)))"

text \<open>What one call adds to the order: each block once, its successors marked, its tree parent after it.\<close>

definition dfs_adds ::
    "(bref \<Rightarrow> nat) \<Rightarrow> (bref \<Rightarrow> bref list) \<Rightarrow> bref set \<Rightarrow> bref list \<Rightarrow> nat list \<Rightarrow> nat list \<Rightarrow> bref list \<Rightarrow> bool" where
  "dfs_adds ident succ R bs vis vis' new \<longleftrightarrow>
     distinct new \<and> set new \<subseteq> R \<and> (\<forall>b \<in> R. ident b \<in> set vis' \<longleftrightarrow> ident b \<in> set vis \<or> b \<in> set new)
     \<and> (\<forall>b \<in> set new. ident b \<notin> set vis) \<and> (\<forall>b \<in> set bs. ident b \<in> set vis')
     \<and> (\<forall>a \<in> set new. \<forall>b \<in> set (succ a). ident b \<in> set vis')
     \<and> (\<forall>x \<in> set new. x \<in> set bs \<or> (\<exists>ys zs p. new = ys @ zs \<and> x \<in> set ys \<and> p \<in> set zs \<and> x \<in> set (succ p)))"

lemma dfs_addsI:
  assumes "distinct new" "set new \<subseteq> R"
    "\<And>b. b \<in> R \<Longrightarrow> ident b \<in> set vis' \<longleftrightarrow> ident b \<in> set vis \<or> b \<in> set new"
    "\<And>b. b \<in> set new \<Longrightarrow> ident b \<notin> set vis" "\<And>b. b \<in> set bs \<Longrightarrow> ident b \<in> set vis'"
    "\<And>a b. a \<in> set new \<Longrightarrow> b \<in> set (succ a) \<Longrightarrow> ident b \<in> set vis'"
    "\<And>x. x \<in> set new \<Longrightarrow> x \<in> set bs \<or> (\<exists>ys zs p. new = ys @ zs \<and> x \<in> set ys \<and> p \<in> set zs \<and> x \<in> set (succ p))"
  shows "dfs_adds ident succ R bs vis vis' new"
  using assms unfolding dfs_adds_def by blast

lemma dfs_addsD:
  assumes "dfs_adds ident succ R bs vis vis' new"
  shows "distinct new" "set new \<subseteq> R"
    "\<And>b. b \<in> R \<Longrightarrow> ident b \<in> set vis' \<longleftrightarrow> ident b \<in> set vis \<or> b \<in> set new"
    "\<And>b. b \<in> set new \<Longrightarrow> ident b \<notin> set vis" "\<And>b. b \<in> set bs \<Longrightarrow> ident b \<in> set vis'"
    "\<And>a b. a \<in> set new \<Longrightarrow> b \<in> set (succ a) \<Longrightarrow> ident b \<in> set vis'"
    "\<And>x. x \<in> set new \<Longrightarrow> x \<in> set bs \<or> (\<exists>ys zs p. new = ys @ zs \<and> x \<in> set ys \<and> p \<in> set zs \<and> x \<in> set (succ p))"
  using assms unfolding dfs_adds_def by blast+

lemma dfs_adds_seq:
  assumes inj: "inj_on ident R" and bb: "bb \<in> R" "ident bb \<notin> set vis" and cl: "\<And>a. a \<in> R \<Longrightarrow> set (succ a) \<subseteq> R" "set rest \<subseteq> R"
    and 1: "dfs_adds ident succ R (succ bb) (ident bb # vis) v1 n1"
    and 2: "dfs_adds ident succ R rest v1 v2 n2"
  shows "dfs_adds ident succ R (bb # rest) vis v2 (n1 @ bb # n2)"
proof (rule dfs_addsI)
  note d1 = dfs_addsD[OF 1] and d2 = dfs_addsD[OF 2]
  have seen: "ident b \<in> set v1 \<longleftrightarrow> ident b \<in> set vis \<or> b = bb \<or> b \<in> set n1" if "b \<in> R" for b
    using d1(3)[OF that] that bb(1) inj_onD[OF inj] by auto
  have mono: "ident b \<in> set v1 \<Longrightarrow> ident b \<in> set v2" if "b \<in> R" for b using d2(3)[OF that] by simp
  have new1: "ident b \<notin> set vis \<and> b \<noteq> bb" if "b \<in> set n1" for b using d1(4)[OF that] by auto
  have new2: "ident b \<notin> set vis \<and> b \<noteq> bb \<and> b \<notin> set n1" if "b \<in> set n2" for b
    using d2(4)[OF that] seen[of b] d2(2) that by blast
  show "distinct (n1 @ bb # n2)" using d1(1) d2(1) new1 new2 by auto
  show "set (n1 @ bb # n2) \<subseteq> R" using d1(2) d2(2) bb by simp
  show "ident b \<in> set v2 \<longleftrightarrow> ident b \<in> set vis \<or> b \<in> set (n1 @ bb # n2)" if "b \<in> R" for b
    using d2(3)[OF that] seen[OF that] by auto
  show "ident b \<notin> set vis" if "b \<in> set (n1 @ bb # n2)" for b using that new1 new2 bb by auto
  show "ident b \<in> set v2" if "b \<in> set (bb # rest)" for b using that d2(5) mono[OF bb(1)] seen[OF bb(1)] by auto
  show "ident b \<in> set v2" if a: "a \<in> set (n1 @ bb # n2)" and b: "b \<in> set (succ a)" for a b
  proof -
    have "b \<in> R" using a b cl(1) d1(2) d2(2) bb(1) by auto
    then show ?thesis using a b d1(5,6) d2(6) mono by auto
  qed
  show "x \<in> set (bb # rest) \<or> (\<exists>ys zs p. n1 @ bb # n2 = ys @ zs \<and> x \<in> set ys \<and> p \<in> set zs \<and> x \<in> set (succ p))"
    if x: "x \<in> set (n1 @ bb # n2)" for x
  proof -
    consider "x = bb" | "x \<in> set n1" "x \<in> set (succ bb)" | ys zs p where "n1 = ys @ zs" "x \<in> set ys" "p \<in> set zs" "x \<in> set (succ p)"
      | "x \<in> set rest" | ys zs p where "n2 = ys @ zs" "x \<in> set ys" "p \<in> set zs" "x \<in> set (succ p)"
      using x d1(7)[of x] d2(7)[of x] by auto
    then show ?thesis
    proof cases
      case 2
      then have "n1 @ bb # n2 = n1 @ (bb # n2) \<and> x \<in> set n1 \<and> bb \<in> set (bb # n2) \<and> x \<in> set (succ bb)" by simp
      then show ?thesis by blast
    next
      case 3
      then have "n1 @ bb # n2 = ys @ (zs @ bb # n2) \<and> x \<in> set ys \<and> p \<in> set (zs @ bb # n2) \<and> x \<in> set (succ p)" by simp
      then show ?thesis by blast
    next
      case 5
      then have "n1 @ bb # n2 = (n1 @ bb # ys) @ zs \<and> x \<in> set (n1 @ bb # ys) \<and> p \<in> set zs \<and> x \<in> set (succ p)" by simp
      then show ?thesis by blast
    qed auto
  qed
qed

lemma dfs_post_order_adds:
  assumes "inj_on ident R" "\<And>a. a \<in> R \<Longrightarrow> set (succ a) \<subseteq> R" "\<And>b. b \<in> R \<Longrightarrow> ident b < MAX_BLOCKS"
    and "set bs \<subseteq> R"
  shows "\<exists>new. snd (dfs_post_order ident succ bs vis ord) = ord @ new
           \<and> dfs_adds ident succ R bs vis (fst (dfs_post_order ident succ bs vis ord)) new"
  using assms
proof (induction ident succ bs vis ord rule: dfs_post_order.induct)
  case (1 ident succ visited order)
  then show ?case by (auto simp: dfs_post_order.simps dfs_adds_def)
next
  case (2 ident succ bb rest visited order)
  have R: "bb \<in> R" "set rest \<subseteq> R" "set (succ bb) \<subseteq> R" "ident bb < MAX_BLOCKS" using 2 by auto
  show ?case
  proof (cases "ident bb \<in> set visited")
    case True
    then have eq: "dfs_post_order ident succ (bb # rest) visited order = dfs_post_order ident succ rest visited order"
      by (simp add: dfs_post_order.simps)
    have "ident bb \<ge> MAX_BLOCKS \<or> ident bb \<in> set visited" using True by simp
    from "2.IH"(1)[OF this "2.prems"(1-3) R(2)] obtain new
      where n: "snd (dfs_post_order ident succ rest visited order) = order @ new"
        "dfs_adds ident succ R rest visited (fst (dfs_post_order ident succ rest visited order)) new" by auto
    have "dfs_adds ident succ R (bb # rest) visited (fst (dfs_post_order ident succ rest visited order)) new"
      using n(2) True R(1) by (auto simp: dfs_adds_def)
    then show ?thesis using eq n(1) by auto
  next
    case False
    then have new: "\<not> (ident bb \<ge> MAX_BLOCKS \<or> ident bb \<in> set visited)" using R(4) by simp
    obtain v1 o1 where d1: "dfs_post_order ident succ (succ bb) (ident bb # visited) order = (v1, o1)" by fastforce
    obtain v2 o2 where d2: "dfs_post_order ident succ rest v1 (o1 @ [bb]) = (v2, o2)" by fastforce
    have eq: "dfs_post_order ident succ (bb # rest) visited order = (v2, o2)"
      using new d1 d2 by (simp add: dfs_post_order.simps)
    from "2.IH"(2)[OF new "2.prems"(1-3) R(3)] d1 obtain n1
      where n1: "o1 = order @ n1" "dfs_adds ident succ R (succ bb) (ident bb # visited) v1 n1" by auto
    from "2.IH"(3)[OF new d1[symmetric] refl "2.prems"(1-3) R(2)] d2 obtain n2
      where n2: "o2 = (o1 @ [bb]) @ n2" "dfs_adds ident succ R rest v1 v2 n2" by auto
    have "dfs_adds ident succ R (bb # rest) visited v2 (n1 @ bb # n2)"
      by (rule dfs_adds_seq[OF "2.prems"(1) R(1) False "2.prems"(2) R(2) n1(2) n2(2)])
    moreover have "o2 = order @ (n1 @ bb # n2)" using n1(1) n2(1) by simp
    ultimately show ?thesis unfolding eq fst_conv snd_conv by blast
  qed
qed

text \<open>What the iteration needs of the order: the numbers increase along it, and every block but the
  entry has a predecessor with a smaller one.\<close>

definition rpo_order ::
    "(bref \<Rightarrow> int) \<Rightarrow> (bref \<Rightarrow> bref list) \<Rightarrow> (bref \<Rightarrow> bref list) \<Rightarrow> bref \<Rightarrow> bref list \<Rightarrow> bool" where
  "rpo_order N succ pred e bs \<longleftrightarrow>
     set (e # bs) = {b. reaches succ e b} \<and> sorted_wrt (\<lambda>a b. N a < N b) (e # bs)
     \<and> (\<forall>b. reaches succ e b \<longrightarrow> 0 \<le> N b)
     \<and> (\<forall>a b. reaches succ e a \<longrightarrow> reaches succ e b \<longrightarrow> (a \<in> set (pred b) \<longleftrightarrow> b \<in> set (succ a)))
     \<and> (\<forall>b \<in> set bs. \<exists>p. reaches succ e p \<and> b \<in> set (succ p) \<and> N p < N b)"

lemma rpo_split:
  assumes "graph_ok ident succ pred e"
  shows "\<exists>bs. compute_rpo ident succ e = e # bs \<and> distinct (e # bs) \<and> set (e # bs) = {b. reaches succ e b}
     \<and> (\<forall>x \<in> set bs. \<exists>ys zs p. e # bs = ys @ zs \<and> p \<in> set ys \<and> x \<in> set zs \<and> x \<in> set (succ p))"
proof -
  let ?R = "{b. reaches succ e b}"
  obtain new where n: "snd (dfs_post_order ident succ [e] [] []) = new"
      "dfs_adds ident succ ?R [e] [] (fst (dfs_post_order ident succ [e] [] [])) new"
    using dfs_post_order_adds[of ident ?R succ "[e]" "[]" "[]"] assms
    by (auto simp: graph_ok_def reaches_start intro: reaches_step)
  note d = dfs_addsD[OF n(2)]
  have e: "e \<in> set new" using d(3)[of e] d(5)[of e] by (simp add: reaches_start)
  have "b \<in> set new" if "reaches succ e b" for b
    using that unfolding reaches_succ_rel
  proof (induction rule: rtrancl_induct)
    case (step a b)
    then have b: "b \<in> set (succ a)" by (simp add: succ_rel_def)
    moreover have "reaches succ e b" using reaches_step[of succ e a b] b step(3) d(2) by blast
    ultimately show ?case using d(6)[OF step(3) b] d(3)[of b] by simp
  qed (rule e)
  then have set: "set new = ?R" using d(2) by auto
  obtain l ns where l: "new = ns @ [l]" using e by (cases new rule: rev_cases) auto
  have "l = e"
  proof (rule ccontr)
    assume "l \<noteq> e"
    with d(7)[of l] l obtain ys zs p where "new = ys @ zs" "l \<in> set ys" "p \<in> set zs" by auto
    then show False using d(1) l by (cases zs rule: rev_cases) auto
  qed
  then have rpo: "compute_rpo ident succ e = e # rev ns" using n(1) l by (simp add: compute_rpo_def)
  have "\<exists>ys zs p. e # rev ns = ys @ zs \<and> p \<in> set ys \<and> x \<in> set zs \<and> x \<in> set (succ p)" if x: "x \<in> set (rev ns)" for x
  proof -
    have "x \<noteq> e" using x d(1) l \<open>l = e\<close> by auto
    with d(7)[of x] x l obtain ys zs p where y: "new = ys @ zs" "x \<in> set ys" "p \<in> set zs" "x \<in> set (succ p)" by auto
    have "e # rev ns = rev new" using l \<open>l = e\<close> by simp
    also have "\<dots> = rev zs @ rev ys" unfolding y(1) by simp
    finally have "e # rev ns = rev zs @ rev ys \<and> p \<in> set (rev zs) \<and> x \<in> set (rev ys) \<and> x \<in> set (succ p)"
      using y(2-4) by simp
    then show ?thesis by blast
  qed
  then show ?thesis using rpo d(1) set l \<open>l = e\<close> by auto
qed

lemma find_index_nth:
  "distinct (map f xs) \<Longrightarrow> i < length xs \<Longrightarrow> find_index (\<lambda>x. f x = f (xs ! i)) xs = Some i"
proof (induction xs arbitrary: i)
  case (Cons a xs)
  then show ?case by (cases i) (auto simp: nth_mem)
qed simp

lemma rpo_map_nth:
  assumes "inj_on ident (set rpo)" "distinct rpo" "i < length rpo"
  shows "rpo_map ident rpo (rpo ! i) = int i"
  using find_index_nth[of ident rpo i] assms by (simp add: rpo_map_def distinct_map)

lemma compute_rpo_order:
  assumes g: "graph_ok ident succ pred e"
  shows "\<exists>bs. compute_rpo ident succ e = e # bs \<and> rpo_order (rpo_map ident (e # bs)) succ pred e bs"
proof -
  obtain bs where bs: "compute_rpo ident succ e = e # bs" "distinct (e # bs)" "set (e # bs) = {b. reaches succ e b}"
    and tree: "\<And>x. x \<in> set bs \<Longrightarrow> \<exists>ys zs p. e # bs = ys @ zs \<and> p \<in> set ys \<and> x \<in> set zs \<and> x \<in> set (succ p)"
    using rpo_split[OF g] by blast
  let ?N = "rpo_map ident (e # bs)"
  have inj: "inj_on ident (set (e # bs))" using g unfolding graph_ok_def bs(3) by blast
  note N = rpo_map_nth[OF inj bs(2)]
  have sorted: "sorted_wrt (\<lambda>a b. ?N a < ?N b) (e # bs)"
    unfolding sorted_wrt_iff_nth_less using N by (metis of_nat_less_iff order.strict_trans)
  have "0 \<le> ?N b" if "reaches succ e b" for b
  proof -
    have "b \<in> set (e # bs)" using that bs(3) by blast
    then show ?thesis unfolding in_set_conv_nth using N by force
  qed
  moreover have "\<exists>p. reaches succ e p \<and> x \<in> set (succ p) \<and> ?N p < ?N x" if x: "x \<in> set bs" for x
  proof -
    obtain ys zs p where y: "e # bs = ys @ zs" "p \<in> set ys" "x \<in> set zs" "x \<in> set (succ p)" using tree[OF x] by blast
    then have "p \<in> set (e # bs)" unfolding y(1) by simp
    then have "reaches succ e p" using bs(3) by blast
    moreover have "?N p < ?N x" using sorted y(2,3) unfolding y(1) sorted_wrt_append by blast
    ultimately show ?thesis using y(4) by blast
  qed
  moreover have "\<forall>a b. reaches succ e a \<longrightarrow> reaches succ e b \<longrightarrow> (a \<in> set (pred b) \<longleftrightarrow> b \<in> set (succ a))"
    using g unfolding graph_ok_def by blast
  ultimately show ?thesis unfolding rpo_order_def using bs(1,3) sorted by blast
qed

section \<open>What the iteration keeps\<close>

lemma rpo_orderD:
  assumes "rpo_order N succ pred e bs"
  shows "set (e # bs) = {b. reaches succ e b}" "sorted_wrt (\<lambda>a b. N a < N b) (e # bs)"
    "\<And>b. reaches succ e b \<Longrightarrow> 0 \<le> N b"
    "\<And>a b. reaches succ e a \<Longrightarrow> reaches succ e b \<Longrightarrow> a \<in> set (pred b) \<longleftrightarrow> b \<in> set (succ a)"
    "\<And>b. b \<in> set bs \<Longrightarrow> \<exists>p. reaches succ e p \<and> b \<in> set (succ p) \<and> N p < N b"
  using assms unfolding rpo_order_def by blast+

lemma rpo_order_mem: "rpo_order N succ pred e bs \<Longrightarrow> reaches succ e b \<longleftrightarrow> b = e \<or> b \<in> set bs"
  using rpo_orderD(1) by fastforce

lemma rpo_order_entry: "rpo_order N succ pred e bs \<Longrightarrow> b \<in> set bs \<Longrightarrow> N e < N b \<and> b \<noteq> e"
  using rpo_orderD(2) by fastforce

lemma rpo_order_inj:
  assumes "rpo_order N succ pred e bs" "reaches succ e a" "reaches succ e b" "N a = N b"
  shows "a = b"
proof -
  have "a \<in> set (e # bs)" "b \<in> set (e # bs)" using rpo_orderD(1)[OF assms(1)] assms(2,3) by blast+
  then obtain i j where i: "i < length (e # bs)" "(e # bs) ! i = a" and j: "j < length (e # bs)" "(e # bs) ! j = b"
    unfolding in_set_conv_nth by blast
  show ?thesis
    using sorted_wrt_nth_less[OF rpo_orderD(2)[OF assms(1)], of i j] sorted_wrt_nth_less[OF rpo_orderD(2)[OF assms(1)], of j i]
      i j assms(4) by (cases i j rule: linorder_cases) auto
qed

lemma dominates_le:
  assumes o: "rpo_order N succ pred e bs" and b: "reaches succ e b" and d: "dominates succ e a b"
  shows "N a \<le> N b"
  using b d
proof (induction "nat (N b)" arbitrary: b rule: less_induct)
  case less
  show ?case
  proof (cases "a = b \<or> b = e")
    case True
    then show ?thesis using dominates_start[of succ e a] less.prems(2) by auto
  next
    case False
    then have "b \<in> set bs" using rpo_order_mem[OF o] less.prems(1) by blast
    then obtain p where p: "reaches succ e p" "b \<in> set (succ p)" "N p < N b" using rpo_orderD(5)[OF o] by blast
    moreover have "dominates succ e a p" using dominates_pred[OF less.prems(2) _ p(2)] False by blast
    moreover have "0 \<le> N p" using rpo_orderD(3)[OF o p(1)] .
    ultimately show ?thesis using less.hyps[of p] by fastforce
  qed
qed

definition up :: "(bref \<Rightarrow> bref option) \<Rightarrow> (bref \<times> bref) set" where
  "up idom = {(a, n). idom a = Some n}"

abbreviation chain :: "(bref \<Rightarrow> bref option) \<Rightarrow> bref \<Rightarrow> bref set" where
  "chain idom b \<equiv> (up idom)\<^sup>* `` {b}"

lemma chain_unfold: "chain idom b = insert b (case idom b of None \<Rightarrow> {} | Some n \<Rightarrow> chain idom n)"
  by (auto simp: up_def elim: converse_rtranclE intro: converse_rtrancl_into_rtrancl split: option.split)

lemma chain_refl: "b \<in> chain idom b"
  by simp

lemma chain_trans: "n \<in> chain idom b \<Longrightarrow> chain idom n \<subseteq> chain idom b"
  by (auto intro: rtrancl_trans)

definition dom_state ::
    "(bref \<Rightarrow> int) \<Rightarrow> (bref \<Rightarrow> bref list) \<Rightarrow> bref \<Rightarrow> (bref \<Rightarrow> bref option) \<Rightarrow> bool" where
  "dom_state N succ e idom \<longleftrightarrow>
     idom e = Some e \<and> (\<forall>b. \<not> reaches succ e b \<longrightarrow> idom b = None)
     \<and> (\<forall>b n. idom b = Some n \<longrightarrow> b \<noteq> e \<longrightarrow>
          N n < N b \<and> idom n \<noteq> None \<and> (\<forall>d. dominates succ e d b \<longrightarrow> d \<noteq> b \<longrightarrow> dominates succ e d n))"

lemma dom_stateD:
  assumes "dom_state N succ e idom"
  shows "idom e = Some e" "idom b \<noteq> None \<Longrightarrow> reaches succ e b"
    "idom b = Some n \<Longrightarrow> b \<noteq> e \<Longrightarrow> N n < N b"
    "idom b = Some n \<Longrightarrow> idom n \<noteq> None"
    "idom b = Some n \<Longrightarrow> b \<noteq> e \<Longrightarrow> dominates succ e d b \<Longrightarrow> d \<noteq> b \<Longrightarrow> dominates succ e d n"
proof -
  show "idom e = Some e" by (rule assms[unfolded dom_state_def, THEN conjunct1])
  show "reaches succ e b" if "idom b \<noteq> None"
    using assms[unfolded dom_state_def, THEN conjunct2, THEN conjunct1, rule_format, of b] that by argo
  note all = assms[unfolded dom_state_def, THEN conjunct2, THEN conjunct2, rule_format]
  have n: "N n < N b \<and> idom n \<noteq> None \<and> (\<forall>d. dominates succ e d b \<longrightarrow> d \<noteq> b \<longrightarrow> dominates succ e d n)"
    if "idom b = Some n" "b \<noteq> e" by (rule all[OF that])
  show "N n < N b" if "idom b = Some n" "b \<noteq> e" using n[OF that] by (rule conjunct1)
  show "dominates succ e d n" if "idom b = Some n" "b \<noteq> e" "dominates succ e d b" "d \<noteq> b"
    by (rule n[OF that(1,2), THEN conjunct2, THEN conjunct2, rule_format, OF that(3,4)])
  show "idom n \<noteq> None" if b: "idom b = Some n"
  proof (cases "b = e")
    case True
    then show ?thesis using b \<open>idom e = Some e\<close> by simp
  next
    case False
    show ?thesis using n[OF b False] by (rule conjunct2[THEN conjunct1])
  qed
qed

lemma chain_entry: "dom_state N succ e idom \<Longrightarrow> chain idom e = {e}"
proof -
  assume "dom_state N succ e idom"
  then have "idom e = Some e" by (rule dom_stateD)
  note e = this
  have "x = e" if "(e, x) \<in> (up idom)\<^sup>*" for x
    using that by (induction rule: rtrancl_induct) (auto simp: up_def e)
  then show ?thesis by auto
qed

lemma chain_props:
  assumes s: "dom_state N succ e idom" and x: "x \<in> chain idom b" and b: "idom b \<noteq> None"
  shows "idom x \<noteq> None \<and> N x \<le> N b"
proof -
  have "(b, x) \<in> (up idom)\<^sup>*" using x by simp
  then show ?thesis
  proof (induction rule: rtrancl_induct)
    case (step y z)
    then have "idom y = Some z" by (simp add: up_def)
    then show ?case using dom_stateD(1,3,4)[OF s] step.IH by (cases "y = e") fastforce+
  qed (use b in simp)
qed

lemma chain_has_dominators:
  assumes o: "rpo_order N succ pred e bs" and s: "dom_state N succ e idom"
    and b: "idom b \<noteq> None" and d: "dominates succ e d b"
  shows "d \<in> chain idom b"
  using b d
proof (induction "nat (N b)" arbitrary: b rule: less_induct)
  case less
  obtain n where n: "idom b = Some n" using less.prems(1) by blast
  show ?case
  proof (cases "d = b \<or> b = e")
    case True
    then show ?thesis using dominates_start[of succ e d] less.prems(2) by auto
  next
    case False
    have "N n < N b" using dom_stateD(3)[OF s n] False by blast
    moreover have "idom n \<noteq> None" using dom_stateD(4)[OF s n] .
    moreover have "dominates succ e d n" using dom_stateD(5)[OF s n] less.prems(2) False by blast
    moreover have "0 \<le> N n" using rpo_orderD(3)[OF o] dom_stateD(2)[OF s] calculation(2) by blast
    ultimately have "d \<in> chain idom n" using less.hyps[of n] by fastforce
    then show ?thesis using n chain_unfold[of idom b] by simp
  qed
qed

section \<open>Intersection\<close>

lemma intersect_ok:
  assumes o: "rpo_order N succ pred e bs" and s: "dom_state N succ e idom"
    and b: "idom b1 \<noteq> None" "idom b2 \<noteq> None"
  shows "\<exists>n. intersect N idom b1 b2 = Some n \<and> n \<in> chain idom b1 \<and> n \<in> chain idom b2
           \<and> (\<forall>d. dominates succ e d b1 \<longrightarrow> dominates succ e d b2 \<longrightarrow> dominates succ e d n)"
  using b
proof (induction "nat (N b1) + nat (N b2)" arbitrary: b1 b2 rule: less_induct)
  case less
  have r: "reaches succ e b1" "reaches succ e b2" using dom_stateD(2)[OF s] less.prems by blast+
  have entry: "N e \<le> N x" if "reaches succ e x" for x
    using that rpo_order_mem[OF o] rpo_order_entry[OF o] by fastforce
  have up_step: "\<exists>q. idom x = Some q \<and> N q < N x \<and> idom q \<noteq> None \<and> nat (N q) < nat (N x) \<and> chain idom q \<subseteq> chain idom x
      \<and> (\<forall>d. dominates succ e d x \<longrightarrow> dominates succ e d y \<longrightarrow> dominates succ e d q)"
    if x: "idom x \<noteq> None" "N y < N x" "reaches succ e y" for x y
  proof -
    obtain q where q: "idom x = Some q" using x(1) by blast
    have "x \<noteq> e" using entry[OF x(3)] x(2) by auto
    then have q2: "N q < N x" using dom_stateD(3)[OF s q] by blast
    have q3: "idom q \<noteq> None" using dom_stateD(4)[OF s q] .
    have "0 \<le> N q" using rpo_orderD(3)[OF o] dom_stateD(2)[OF s q3] by blast
    moreover have "chain idom q \<subseteq> chain idom x" using chain_unfold[of idom x] q by auto
    moreover have "dominates succ e d q" if d: "dominates succ e d x" "dominates succ e d y" for d
    proof -
      have "d \<noteq> x" using dominates_le[OF o x(3) d(2)] x(2) by auto
      then show ?thesis using dom_stateD(5)[OF s q \<open>x \<noteq> e\<close> d(1)] by blast
    qed
    ultimately show ?thesis using q q2 q3 by auto
  qed
  consider "b1 = b2" | "b1 \<noteq> b2" "N b2 < N b1" | "b1 \<noteq> b2" "N b1 < N b2"
    using rpo_order_inj[OF o r] by linarith
  then show ?case
  proof cases
    case 1
    then show ?thesis by (auto simp: intersect.simps)
  next
    case 2
    obtain q where q: "idom b1 = Some q" "idom q \<noteq> None" "nat (N q) < nat (N b1)" "chain idom q \<subseteq> chain idom b1"
        "\<And>d. dominates succ e d b1 \<Longrightarrow> dominates succ e d b2 \<Longrightarrow> dominates succ e d q"
      using up_step[OF less.prems(1) 2(2) r(2)] by blast
    have "intersect N idom b1 b2 = intersect N idom q b2" using 2 q(1) by (simp add: intersect.simps[of N idom b1 b2])
    then show ?thesis using less.hyps[of q b2] q less.prems(2) by auto
  next
    case 3
    obtain q where q: "idom b2 = Some q" "idom q \<noteq> None" "nat (N q) < nat (N b2)" "chain idom q \<subseteq> chain idom b2"
        "\<And>d. dominates succ e d b2 \<Longrightarrow> dominates succ e d b1 \<Longrightarrow> dominates succ e d q"
      using up_step[OF less.prems(2) 3(2) r(1)] by blast
    have "intersect N idom b1 b2 = intersect N idom b1 q" using 3 q(1) by (simp add: intersect.simps[of N idom b1 b2])
    then show ?thesis using less.hyps[of b1 q] q less.prems(1) by auto
  qed
qed

lemma intersect_preds_ok:
  assumes o: "rpo_order N succ pred e bs" and s: "dom_state N succ e idom" and n: "idom n0 \<noteq> None"
  shows "\<exists>n. intersect_preds N idom ps n0 = Some n \<and> n \<in> chain idom n0
           \<and> (\<forall>p \<in> set ps. idom p \<noteq> None \<longrightarrow> n \<in> chain idom p)
           \<and> (\<forall>d. dominates succ e d n0 \<longrightarrow> (\<forall>p \<in> set ps. idom p \<noteq> None \<longrightarrow> dominates succ e d p) \<longrightarrow> dominates succ e d n)"
  using n
proof (induction ps arbitrary: n0)
  case (Cons p ps)
  show ?case
  proof (cases "p = n0 \<or> idom p = None")
    case True
    then show ?thesis using Cons.IH[OF Cons.prems] by auto
  next
    case False
    then obtain m where m: "intersect N idom p n0 = Some m" "m \<in> chain idom p" "m \<in> chain idom n0"
        "\<And>d. dominates succ e d p \<Longrightarrow> dominates succ e d n0 \<Longrightarrow> dominates succ e d m"
      using intersect_ok[OF o s, of p n0] Cons.prems by blast
    have "idom m \<noteq> None" using chain_props[OF s m(3) Cons.prems] by blast
    from Cons.IH[OF this] obtain n where n: "intersect_preds N idom ps m = Some n" "n \<in> chain idom m"
        "\<And>q. q \<in> set ps \<Longrightarrow> idom q \<noteq> None \<Longrightarrow> n \<in> chain idom q"
        "\<And>d. dominates succ e d m \<Longrightarrow> (\<forall>p \<in> set ps. idom p \<noteq> None \<longrightarrow> dominates succ e d p) \<Longrightarrow> dominates succ e d n"
      by blast
    have "intersect_preds N idom (p # ps) n0 = Some n" using False m(1) n(1) by simp
    moreover have "n \<in> chain idom p" "n \<in> chain idom n0"
      using n(2) chain_trans[OF m(2)] chain_trans[OF m(3)] by blast+
    moreover have "dominates succ e d n"
      if d: "dominates succ e d n0" "\<forall>q \<in> set (p # ps). idom q \<noteq> None \<longrightarrow> dominates succ e d q" for d
    proof (rule n(4))
      have "dominates succ e d p" using d(2) False by simp
      then show "dominates succ e d m" using m(4) d(1) by blast
      show "\<forall>q \<in> set ps. idom q \<noteq> None \<longrightarrow> dominates succ e d q" using d(2) by simp
    qed
    ultimately show ?thesis using n(3) by (intro exI[of _ n]) auto
  qed
qed auto

section \<open>One block, one pass\<close>

lemma dom_step_ok:
  assumes o: "rpo_order N succ pred e bs" and s: "dom_state N succ e idom" and bb: "bb \<in> set bs"
    and low: "\<And>x. reaches succ e x \<Longrightarrow> N x < N bb \<Longrightarrow> idom x \<noteq> None"
  shows "\<exists>n. dom_step N pred bb (idom, c) = Some (idom(bb := Some n), c \<or> idom bb \<noteq> Some n)
           \<and> (\<forall>p \<in> set (pred bb). idom p \<noteq> None \<longrightarrow> n \<in> chain idom p)
           \<and> N n < N bb \<and> idom n \<noteq> None
           \<and> (\<forall>d. dominates succ e d bb \<longrightarrow> d \<noteq> bb \<longrightarrow> dominates succ e d n)"
proof -
  have rb: "reaches succ e bb" using rpo_order_mem[OF o] bb by blast
  obtain t where t: "reaches succ e t" "bb \<in> set (succ t)" "N t < N bb" using rpo_orderD(5)[OF o bb] by blast
  have tp: "t \<in> set (pred bb)" "idom t \<noteq> None" using rpo_orderD(4)[OF o t(1) rb] t low by blast+
  then obtain n0 where f: "find (\<lambda>p. idom p \<noteq> None) (pred bb) = Some n0"
    by (cases "find (\<lambda>p. idom p \<noteq> None) (pred bb)") (auto simp: find_None_iff)
  then have n0: "n0 \<in> set (pred bb)" "idom n0 \<noteq> None" by (auto simp: find_Some_iff in_set_conv_nth)
  obtain n where n: "intersect_preds N idom (pred bb) n0 = Some n" "n \<in> chain idom n0"
      "\<And>p. p \<in> set (pred bb) \<Longrightarrow> idom p \<noteq> None \<Longrightarrow> n \<in> chain idom p"
      "\<And>d. dominates succ e d n0 \<Longrightarrow> (\<forall>p \<in> set (pred bb). idom p \<noteq> None \<longrightarrow> dominates succ e d p) \<Longrightarrow> dominates succ e d n"
    using intersect_preds_ok[OF o s n0(2)] by blast
  have "dom_step N pred bb (idom, c) = Some (idom(bb := Some n), c \<or> idom bb \<noteq> Some n)"
    using f n(1) by (cases "idom bb = Some n") (simp_all add: dom_step_def fun_upd_idem)
  moreover have "idom n \<noteq> None" "N n \<le> N t" using chain_props[OF s n(3)[OF tp] tp(2)] by simp_all
  moreover have "dominates succ e d n" if d: "dominates succ e d bb" "d \<noteq> bb" for d
  proof (rule n(4))
    have dp: "dominates succ e d p" if "p \<in> set (pred bb)" "idom p \<noteq> None" for p
    proof -
      have "reaches succ e p" using dom_stateD(2)[OF s that(2)] .
      then have "bb \<in> set (succ p)" using rpo_orderD(4)[OF o _ rb] that(1) by blast
      then show ?thesis using dominates_pred[OF d(1) d(2)] by blast
    qed
    then show "dominates succ e d n0" using n0 by blast
    show "\<forall>p \<in> set (pred bb). idom p \<noteq> None \<longrightarrow> dominates succ e d p" using dp by blast
  qed
  ultimately show ?thesis using n(3) t(3) by (intro exI[of _ n]) auto
qed

lemma dom_state_upd:
  assumes o: "rpo_order N succ pred e bs" and s: "dom_state N succ e idom" and bb: "bb \<in> set bs"
    and n: "N n < N bb" "idom n \<noteq> None" "\<And>d. dominates succ e d bb \<Longrightarrow> d \<noteq> bb \<Longrightarrow> dominates succ e d n"
  shows "dom_state N succ e (idom(bb := Some n))"
  unfolding dom_state_def
proof (intro conjI allI impI)
  have ne: "bb \<noteq> e" using rpo_order_entry[OF o bb] by blast
  show "(idom(bb := Some n)) e = Some e" using ne dom_stateD(1)[OF s] by simp
  show "(idom(bb := Some n)) b = None" if "\<not> reaches succ e b" for b
    using that dom_stateD(2)[OF s, of b] rpo_order_mem[OF o, of bb] bb by (cases "idom b") auto
  fix b m assume b: "(idom(bb := Some n)) b = Some m" "b \<noteq> e"
  show "N m < N b" using b n(1) dom_stateD(3)[OF s, of b m] by (cases "b = bb") auto
  show "(idom(bb := Some n)) m \<noteq> None" using b n(2) dom_stateD(4)[OF s, of b m] by (cases "b = bb") auto
  fix d assume d: "dominates succ e d b" "d \<noteq> b"
  show "dominates succ e d m" using b d n(3) dom_stateD(5)[OF s, of b m d] by (cases "b = bb") auto
qed

section \<open>Paths by their number of retreating edges\<close>

text \<open>
  After \<open>k\<close> passes the chain of a block lies on every path to it with fewer than \<open>k\<close> retreating edges.
  A path without repetition has fewer of them than there are blocks, so the chains become exact.
\<close>

inductive back_path :: "(bref \<Rightarrow> int) \<Rightarrow> (bref \<Rightarrow> bref list) \<Rightarrow> bref \<Rightarrow> nat \<Rightarrow> bref list \<Rightarrow> bref \<Rightarrow> bool" for N succ e where
  start: "back_path N succ e 0 [e] e"
| forward: "back_path N succ e k xs a \<Longrightarrow> b \<in> set (succ a) \<Longrightarrow> N a < N b \<Longrightarrow> back_path N succ e k (xs @ [b]) b"
| retreat: "back_path N succ e k xs a \<Longrightarrow> b \<in> set (succ a) \<Longrightarrow> \<not> N a < N b \<Longrightarrow> back_path N succ e (Suc k) (xs @ [b]) b"

lemma back_path_path: "back_path N succ e k xs b \<Longrightarrow> cfg_path succ e xs b"
  by (induction rule: back_path.induct) (auto intro: cfg_path.intros)

lemma path_back_path: "cfg_path succ e xs b \<Longrightarrow> \<exists>k < length xs. back_path N succ e k xs b"
proof (induction rule: cfg_path.induct)
  case (step xs a b)
  then obtain k where "k < length xs" "back_path N succ e k xs a" by blast
  then show ?case using step.hyps(2) by (cases "N a < N b") (auto intro: back_path.intros less_SucI)
qed (auto intro: back_path.start)

lemma back_path_prefix:
  "back_path N succ e k xs b \<Longrightarrow> x \<in> set xs \<Longrightarrow> \<exists>j ys. j \<le> k \<and> back_path N succ e j ys x \<and> set ys \<subseteq> set xs"
proof (induction rule: back_path.induct)
  case start
  then show ?case by (auto intro: back_path.start)
next
  case (forward k xs a b)
  show ?case
  proof (cases "x = b")
    case True
    then show ?thesis using back_path.forward[OF forward.hyps] by blast
  next
    case False
    then show ?thesis using forward.IH forward.prems by fastforce
  qed
next
  case (retreat k xs a b)
  show ?case
  proof (cases "x = b")
    case True
    then show ?thesis using back_path.retreat[OF retreat.hyps] by blast
  next
    case False
    then obtain j ys where "j \<le> k" "back_path N succ e j ys x" "set ys \<subseteq> set xs" using retreat.IH retreat.prems by auto
    then show ?thesis by (intro exI[of _ j] exI[of _ ys]) auto
  qed
qed

lemma path_prefix: "cfg_path succ e xs b \<Longrightarrow> x \<in> set xs \<Longrightarrow> \<exists>ys. cfg_path succ e ys x \<and> set ys \<subseteq> set xs"
  using back_path_prefix back_path_path path_back_path by metis

lemma simple_path: "cfg_path succ e xs b \<Longrightarrow> \<exists>ys. cfg_path succ e ys b \<and> set ys \<subseteq> set xs \<and> distinct ys"
proof (induction rule: cfg_path.induct)
  case start
  then show ?case by (intro exI[of _ "[e]"]) (auto intro: cfg_path.start)
next
  case (step xs a b)
  then obtain ys where ys: "cfg_path succ e ys a" "set ys \<subseteq> set xs" "distinct ys" by blast
  have cut: "distinct zs \<Longrightarrow> cfg_path succ e zs c \<Longrightarrow> b \<in> set zs \<Longrightarrow> \<exists>us. cfg_path succ e us b \<and> set us \<subseteq> set zs \<and> distinct us" for zs c
  proof (induction zs arbitrary: c rule: rev_induct)
    case (snoc z zs)
    show ?case
    proof (cases "b = c")
      case True
      then show ?thesis using snoc.prems by blast
    next
      case False
      from snoc.prems(2) False snoc.prems(3) show ?thesis
      proof (cases rule: cfg_path.cases)
        case (step us a')
        then have "b \<in> set zs" using snoc.prems(3) False by auto
        then show ?thesis using snoc.IH[of a'] step snoc.prems(1) by auto
      qed auto
    qed
  qed simp
  show ?case
  proof (cases "b \<in> set ys")
    case True
    then show ?thesis using cut[OF ys(3,1) True] ys(2) by auto
  next
    case False
    then show ?thesis using ys step.hyps(2) by (intro exI[of _ "ys @ [b]"]) (auto intro: cfg_path.step)
  qed
qed

definition level ::
    "(bref \<Rightarrow> int) \<Rightarrow> (bref \<Rightarrow> bref list) \<Rightarrow> bref \<Rightarrow> (bref \<Rightarrow> bref option) \<Rightarrow> nat \<Rightarrow> bref \<Rightarrow> bool" where
  "level N succ e idom k x \<longleftrightarrow> (\<forall>j xs. j < k \<longrightarrow> back_path N succ e j xs x \<longrightarrow> chain idom x \<subseteq> set xs)"

lemma level_entry: "dom_state N succ e idom \<Longrightarrow> level N succ e idom k e"
  unfolding level_def chain_entry using path_start back_path_path by blast

lemma chain_upd:
  "chain (idom(bb := v)) x \<subseteq> chain idom x \<union> (if bb \<in> chain idom x then chain (idom(bb := v)) bb else {})"
proof
  fix y assume "y \<in> chain (idom(bb := v)) x"
  then have "(x, y) \<in> (up (idom(bb := v)))\<^sup>*" by simp
  then show "y \<in> chain idom x \<union> (if bb \<in> chain idom x then chain (idom(bb := v)) bb else {})"
  proof (induction rule: rtrancl_induct)
    case (step y z)
    then have *: "(y, z) \<in> up idom \<or> y = bb" by (auto simp: up_def split: if_splits)
    show ?case
    proof (cases "y \<in> chain idom x")
      case True
      show ?thesis
      proof (cases "y = bb")
        case True
        then have "z \<in> chain (idom(bb := v)) bb" using step.hyps(2) by blast
        then show ?thesis using \<open>y \<in> chain idom x\<close> True by simp
      next
        case False
        then have "(x, z) \<in> (up idom)\<^sup>*" using * True by (auto intro: rtrancl_into_rtrancl)
        then show ?thesis by simp
      qed
    next
      case False
      then have y: "bb \<in> chain idom x" "(bb, y) \<in> (up (idom(bb := v)))\<^sup>*" using step.IH by (auto split: if_splits)
      then show ?thesis using step.hyps(2) by (auto intro: rtrancl_into_rtrancl)
    qed
  qed simp
qed

lemma chain_new:
  assumes s: "dom_state N succ e idom" and n: "N n < N bb" "idom n \<noteq> None"
  shows "chain (idom(bb := Some n)) bb \<subseteq> insert bb (chain idom n)"
proof -
  have "bb \<notin> chain idom n" using chain_props[OF s _ n(2), of bb] n(1) by fastforce
  then have "chain (idom(bb := Some n)) n \<subseteq> chain idom n" using chain_upd[of idom bb "Some n" n] by simp
  then show ?thesis unfolding chain_unfold[of "idom(bb := Some n)" bb] by auto
qed

lemma level_raise:
  assumes s: "dom_state N succ e idom" and bb: "bb \<noteq> e"
    and n: "N n < N bb" "idom n \<noteq> None" "\<And>p. bb \<in> set (succ p) \<Longrightarrow> idom p \<noteq> None \<Longrightarrow> n \<in> chain idom p"
    and low: "\<And>x. reaches succ e x \<Longrightarrow> N x < N bb \<Longrightarrow> idom x \<noteq> None \<and> level N succ e idom (Suc k) x"
    and all: "\<And>x. reaches succ e x \<Longrightarrow> 0 < k \<Longrightarrow> idom x \<noteq> None \<and> level N succ e idom k x"
  shows "level N succ e (idom(bb := Some n)) (Suc k) bb"
  unfolding level_def
proof (intro allI impI)
  fix j xs assume j: "j < Suc k" and p: "back_path N succ e j xs bb"
  have via: "chain (idom(bb := Some n)) bb \<subseteq> set (ys @ [bb])"
    if "chain idom a \<subseteq> set ys" "n \<in> chain idom a" for a ys
    using chain_new[OF s n(1,2)] chain_trans[OF that(2)] that(1) by auto
  from p show "chain (idom(bb := Some n)) bb \<subseteq> set xs"
  proof (cases rule: back_path.cases)
    case start
    then show ?thesis using bb by simp
  next
    case (forward ys a)
    have "reaches succ e a" using back_path_path[OF forward(2)] by (auto simp: reaches_def)
    then have "idom a \<noteq> None \<and> level N succ e idom (Suc k) a" using low forward(4) by blast
    then show ?thesis unfolding forward(1) using via[of a ys] n(3)[OF forward(3)] j forward(2) by (auto simp: level_def)
  next
    case (retreat i ys a)
    have "reaches succ e a" using back_path_path[OF retreat(3)] by (auto simp: reaches_def)
    then have "idom a \<noteq> None \<and> level N succ e idom k a" using all j retreat(1) by simp
    then show ?thesis unfolding retreat(2) using via[of a ys] n(3)[OF retreat(4)] j retreat(1,3) by (auto simp: level_def)
  qed
qed

lemma level_keep:
  assumes b: "level N succ e (idom(bb := v)) k bb" and x: "level N succ e idom m x" and m: "m \<le> k"
  shows "level N succ e (idom(bb := v)) m x"
  unfolding level_def
proof (intro allI impI)
  fix j xs assume j: "j < m" and p: "back_path N succ e j xs x"
  have c: "chain idom x \<subseteq> set xs" using x j p by (simp add: level_def)
  have "chain (idom(bb := v)) bb \<subseteq> set xs" if "bb \<in> chain idom x"
  proof -
    have "bb \<in> set xs" using that c by blast
    then obtain i ys where "i \<le> j" "back_path N succ e i ys bb" "set ys \<subseteq> set xs" using back_path_prefix[OF p] by blast
    moreover have "i < k" using calculation(1) j m by simp
    ultimately show ?thesis using b unfolding level_def by blast
  qed
  then show "chain (idom(bb := v)) x \<subseteq> set xs" using chain_upd[of idom bb v x] c by (auto split: if_splits)
qed

definition pass_state ::
    "(bref \<Rightarrow> int) \<Rightarrow> (bref \<Rightarrow> bref list) \<Rightarrow> bref \<Rightarrow> bref set \<Rightarrow> nat \<Rightarrow> (bref \<Rightarrow> bref option) \<Rightarrow> bool" where
  "pass_state N succ e done k idom \<longleftrightarrow>
     dom_state N succ e idom
     \<and> (\<forall>x. reaches succ e x \<longrightarrow> 0 < k \<longrightarrow> idom x \<noteq> None \<and> level N succ e idom k x)
     \<and> (\<forall>x \<in> done. idom x \<noteq> None \<and> level N succ e idom (Suc k) x)"

lemma pass_step:
  assumes o: "rpo_order N succ pred e bs" and bs: "bs = pre @ bb # rest"
    and st: "pass_state N succ e (insert e (set pre)) k idom"
  shows "\<exists>n. dom_step N pred bb (idom, c) = Some (idom(bb := Some n), c \<or> idom bb \<noteq> Some n)
           \<and> (\<forall>p. bb \<in> set (succ p) \<longrightarrow> idom p \<noteq> None \<longrightarrow> n \<in> chain idom p)
           \<and> pass_state N succ e (insert e (set (pre @ [bb]))) k (idom(bb := Some n))"
proof -
  have s: "dom_state N succ e idom"
    and all: "\<And>x. reaches succ e x \<Longrightarrow> 0 < k \<Longrightarrow> idom x \<noteq> None \<and> level N succ e idom k x"
    and dn: "\<And>x. x \<in> insert e (set pre) \<Longrightarrow> idom x \<noteq> None \<and> level N succ e idom (Suc k) x"
    using st unfolding pass_state_def by blast+
  have bb: "bb \<in> set bs" "bb \<noteq> e" using bs rpo_order_entry[OF o, of bb] by auto
  have low: "x \<in> insert e (set pre)" if "reaches succ e x" "N x < N bb" for x
  proof -
    have "x = e \<or> x \<in> set pre \<or> x = bb \<or> x \<in> set rest" using rpo_order_mem[OF o] that(1) bs by auto
    moreover have "\<not> N x < N bb" if "x \<in> set rest"
      using rpo_orderD(2)[OF o] that unfolding bs by (auto simp: sorted_wrt_append)
    ultimately show ?thesis using that(2) by auto
  qed
  obtain n where n: "dom_step N pred bb (idom, c) = Some (idom(bb := Some n), c \<or> idom bb \<noteq> Some n)"
      "\<And>p. p \<in> set (pred bb) \<Longrightarrow> idom p \<noteq> None \<Longrightarrow> n \<in> chain idom p" "N n < N bb" "idom n \<noteq> None"
      "\<And>d. dominates succ e d bb \<Longrightarrow> d \<noteq> bb \<Longrightarrow> dominates succ e d n"
    using dom_step_ok[OF o s bb(1)] low dn by meson
  have s': "dom_state N succ e (idom(bb := Some n))" by (rule dom_state_upd[OF o s bb(1) n(3-5)])
  have np: "n \<in> chain idom p" if "bb \<in> set (succ p)" "idom p \<noteq> None" for p
    using n(2) rpo_orderD(4)[OF o dom_stateD(2)[OF s that(2)], of bb] rpo_order_mem[OF o, of bb] bb that by blast
  have raise: "level N succ e (idom(bb := Some n)) (Suc k) bb"
    by (rule level_raise[OF s bb(2) n(3,4) np dn[OF low] all])
  have "level N succ e (idom(bb := Some n)) k x" if "reaches succ e x" "0 < k" for x
    using level_keep[OF raise, of k x] all[OF that] by simp
  moreover have "level N succ e (idom(bb := Some n)) (Suc k) x" if "x \<in> insert e (set pre)" for x
    using level_keep[OF raise, of "Suc k" x] dn[OF that] by simp
  ultimately have "pass_state N succ e (insert e (set (pre @ [bb]))) k (idom(bb := Some n))"
    unfolding pass_state_def using s' raise all dn by auto
  then show ?thesis using n(1) np by blast
qed

lemma dom_pass_run:
  assumes o: "rpo_order N succ pred e bs"
  shows "bs = pre @ rest \<Longrightarrow> pass_state N succ e (insert e (set pre)) k idom \<Longrightarrow>
    \<exists>idom' c'. dom_pass N pred rest (idom, c) = Some (idom', c') \<and> pass_state N succ e (insert e (set bs)) k idom'
       \<and> (\<not> c' \<longrightarrow> idom' = idom)"
proof (induction rest arbitrary: pre idom c)
  case (Cons bb rest)
  obtain n where n: "dom_step N pred bb (idom, c) = Some (idom(bb := Some n), c \<or> idom bb \<noteq> Some n)"
      "pass_state N succ e (insert e (set (pre @ [bb]))) k (idom(bb := Some n))"
    using pass_step[OF o Cons.prems] by blast
  have "bs = (pre @ [bb]) @ rest" using Cons.prems(1) by simp
  from Cons.IH[OF this n(2), of "c \<or> idom bb \<noteq> Some n"] obtain idom' c'
    where r: "dom_pass N pred rest (idom(bb := Some n), c \<or> idom bb \<noteq> Some n) = Some (idom', c')"
      "pass_state N succ e (insert e (set bs)) k idom'" "\<not> c' \<longrightarrow> idom' = idom(bb := Some n)" by blast
  have keep: "c' = True" if "dom_pass N pred xs (i, True) = Some (i', c')" for xs i i' c'
    using that
  proof (induction xs arbitrary: i)
    case (Cons b xs)
    then show ?case by (auto simp: dom_step_def split: option.splits if_splits)
  qed simp
  have "\<not> c' \<longrightarrow> idom' = idom"
  proof
    assume c': "\<not> c'"
    then have "idom bb = Some n" using keep r(1) by (cases "idom bb = Some n") auto
    then show "idom' = idom" using r(3) c' by (simp add: fun_upd_idem)
  qed
  then show ?case using n(1) r(1,2) by simp
qed simp

lemma pass_state_next:
  assumes o: "rpo_order N succ pred e bs" and s: "pass_state N succ e (insert e (set bs)) k idom"
  shows "pass_state N succ e {} (Suc k) idom"
proof -
  have "x \<in> insert e (set bs)" if "reaches succ e x" for x using rpo_order_mem[OF o] that by auto
  then show ?thesis using s unfolding pass_state_def by auto
qed

lemma pass_state_start:
  "pass_state N succ e {} k idom \<Longrightarrow> pass_state N succ e (insert e (set [])) k idom"
  using level_entry dom_stateD(1) unfolding pass_state_def by fastforce

lemma pass_ok:
  assumes o: "rpo_order N succ pred e bs" and s: "pass_state N succ e {} k idom"
  shows "\<exists>idom' c'. dom_pass N pred bs (idom, False) = Some (idom', c') \<and> pass_state N succ e {} (Suc k) idom'
           \<and> (\<not> c' \<longrightarrow> idom' = idom)"
  using dom_pass_run[OF o _ pass_state_start[OF s], of bs False] pass_state_next[OF o] by auto

section \<open>The result\<close>

text \<open>\<open>n\<close> is the immediate dominator of \<open>b\<close>: its strict dominators are \<open>n\<close> and the dominators of \<open>n\<close>.\<close>

definition is_idom :: "(bref \<Rightarrow> bref list) \<Rightarrow> bref \<Rightarrow> bref \<Rightarrow> bref \<Rightarrow> bool" where
  "is_idom succ e n b \<longleftrightarrow>
     n \<noteq> b \<and> dominates succ e n b \<and> (\<forall>d. dominates succ e d b \<longrightarrow> d \<noteq> b \<longrightarrow> dominates succ e d n)"

definition exact_tree :: "(bref \<Rightarrow> bref list) \<Rightarrow> bref \<Rightarrow> (bref \<Rightarrow> bref option) \<Rightarrow> bool" where
  "exact_tree succ e idom \<longleftrightarrow>
     idom e = Some e \<and> (\<forall>b. \<not> reaches succ e b \<longrightarrow> idom b = None)
     \<and> (\<forall>b. reaches succ e b \<longrightarrow> b \<noteq> e \<longrightarrow> (\<exists>n. idom b = Some n \<and> is_idom succ e n b))"

text \<open>Enough passes make the chains exact.\<close>

lemma level_exact:
  assumes o: "rpo_order N succ pred e bs" and s: "pass_state N succ e {} k idom" and k: "length bs < k"
    and x: "reaches succ e x"
  shows "d \<in> chain idom x \<longleftrightarrow> dominates succ e d x"
proof
  have st: "dom_state N succ e idom" and lv: "idom x \<noteq> None" "level N succ e idom k x"
    using s x k unfolding pass_state_def by auto
  show "dominates succ e d x \<Longrightarrow> d \<in> chain idom x" by (rule chain_has_dominators[OF o st lv(1)])
  show "dominates succ e d x" if d: "d \<in> chain idom x"
    unfolding dominates_def
  proof (intro allI impI)
    fix xs assume "cfg_path succ e xs x"
    then obtain ys where ys: "cfg_path succ e ys x" "set ys \<subseteq> set xs" "distinct ys" using simple_path by blast
    obtain j where j: "j < length ys" "back_path N succ e j ys x" using path_back_path[OF ys(1)] by blast
    have "set ys \<subseteq> set (e # bs)" using path_reaches[OF ys(1)] rpo_orderD(1)[OF o] by blast
    then have "length ys \<le> length (e # bs)"
      using distinct_card[OF ys(3)] card_mono[of "set (e # bs)" "set ys"] card_length[of "e # bs"] by simp
    then have "j < k" using j(1) k by simp
    then show "d \<in> set xs" using lv(2) j(2) ys(2) d unfolding level_def by blast
  qed
qed

lemma exact_chain_tree:
  assumes o: "rpo_order N succ pred e bs" and st: "dom_state N succ e idom"
    and pr: "\<And>x. reaches succ e x \<Longrightarrow> idom x \<noteq> None"
    and ch: "\<And>x d. reaches succ e x \<Longrightarrow> d \<in> chain idom x \<longleftrightarrow> dominates succ e d x"
  shows "exact_tree succ e idom"
  unfolding exact_tree_def
proof (intro conjI allI impI)
  show "idom e = Some e" by (rule dom_stateD(1)[OF st])
  show "idom b = None" if "\<not> reaches succ e b" for b using dom_stateD(2)[OF st, of b] that by blast
  show "\<exists>n. idom b = Some n \<and> is_idom succ e n b" if b: "reaches succ e b" "b \<noteq> e" for b
  proof -
    obtain n where n: "idom b = Some n" using pr[OF b(1)] by blast
    have "n \<in> chain idom b" unfolding chain_unfold[of idom b] using n by simp
    then have "dominates succ e n b" using ch[OF b(1)] by blast
    moreover have "n \<noteq> b" using dom_stateD(3)[OF st n b(2)] by auto
    ultimately show ?thesis using n dom_stateD(5)[OF st n b(2)] by (auto simp: is_idom_def)
  qed
qed

lemma dominates_antisym:
  "rpo_order N succ pred e bs \<Longrightarrow> dominates succ e a b \<Longrightarrow> dominates succ e b a \<Longrightarrow> reaches succ e a \<Longrightarrow> reaches succ e b \<Longrightarrow> a = b"
  using dominates_le rpo_order_inj by (meson order_antisym)

lemma dominates_reaches: "dominates succ e a b \<Longrightarrow> reaches succ e b \<Longrightarrow> reaches succ e a"
  using path_reaches unfolding dominates_def reaches_def by meson

lemma dominates_via_preds:
  assumes "b \<noteq> e" "\<And>p. reaches succ e p \<Longrightarrow> b \<in> set (succ p) \<Longrightarrow> dominates succ e d p"
  shows "dominates succ e d b"
  unfolding dominates_def
proof (intro allI impI)
  fix xs assume "cfg_path succ e xs b"
  then show "d \<in> set xs"
  proof (cases rule: cfg_path.cases)
    case (step ys a)
    then have "dominates succ e d a" using assms(2)[of a] by (auto simp: reaches_def)
    then show ?thesis using step by (auto simp: dominates_def)
  qed (use assms(1) in simp)
qed

lemma stable_step:
  assumes o: "rpo_order N succ pred e bs" and s: "pass_state N succ e {} k idom" and k: "length bs < k" and bb: "bb \<in> set bs"
  shows "dom_step N pred bb (idom, c) = Some (idom, c)"
proof -
  have st: "dom_state N succ e idom" and all: "\<And>x. reaches succ e x \<Longrightarrow> idom x \<noteq> None"
    using s k unfolding pass_state_def by auto
  have rb: "reaches succ e bb" "bb \<noteq> e" using rpo_order_mem[OF o] rpo_order_entry[OF o bb] bb by blast+
  obtain n where n: "dom_step N pred bb (idom, c) = Some (idom(bb := Some n), c \<or> idom bb \<noteq> Some n)"
      "\<And>p. p \<in> set (pred bb) \<Longrightarrow> idom p \<noteq> None \<Longrightarrow> n \<in> chain idom p" "N n < N bb" "idom n \<noteq> None"
      "\<And>d. dominates succ e d bb \<Longrightarrow> d \<noteq> bb \<Longrightarrow> dominates succ e d n"
    using dom_step_ok[OF o st bb all] by blast
  have "dominates succ e n bb"
  proof (rule dominates_via_preds[OF rb(2)])
    fix p assume p: "reaches succ e p" "bb \<in> set (succ p)"
    then have "p \<in> set (pred bb)" using rpo_orderD(4)[OF o _ rb(1)] by blast
    then show "dominates succ e n p" using n(2) all[OF p(1)] level_exact[OF o s k p(1)] by blast
  qed
  moreover obtain m where m: "idom bb = Some m" using all[OF rb(1)] by blast
  moreover have "n \<noteq> bb" using n(3) by auto
  ultimately have nm: "dominates succ e n m" using dom_stateD(5)[OF st m rb(2)] by blast
  have "m \<in> chain idom bb" unfolding chain_unfold[of idom bb] using m by simp
  then have "dominates succ e m bb" using level_exact[OF o s k rb(1)] by blast
  moreover have "m \<noteq> bb" using dom_stateD(3)[OF st m rb(2)] by auto
  ultimately have mn: "dominates succ e m n" using n(5) by blast
  have "reaches succ e m" using dom_stateD(2,4)[OF st] m by blast
  then have "n = m" using dominates_antisym[OF o nm mn] dom_stateD(2)[OF st n(4)] by blast
  then show ?thesis using n(1) m by (simp add: fun_upd_idem)
qed

lemma stable_pass:
  assumes o: "rpo_order N succ pred e bs" and s: "pass_state N succ e {} k idom" and k: "length bs < k"
  shows "set xs \<subseteq> set bs \<Longrightarrow> dom_pass N pred xs (idom, c) = Some (idom, c)"
  using stable_step[OF o s k] by (induction xs) auto

text \<open>The loop ends, after at most one pass per block and one more.\<close>

lemma dom_iterate_exact:
  assumes o: "rpo_order N succ pred e bs"
  shows "pass_state N succ e {} k idom \<Longrightarrow> \<exists>r. dom_iterate N pred bs idom = Some r \<and> exact_tree succ e r"
proof (induction "Suc (length bs) - k" arbitrary: k idom rule: less_induct)
  case less
  obtain idom' c' where p: "dom_pass N pred bs (idom, False) = Some (idom', c')" "pass_state N succ e {} (Suc k) idom'"
      "\<not> c' \<Longrightarrow> idom' = idom"
    using pass_ok[OF o less.prems] by blast
  show ?case
  proof (cases c')
    case True
    have "\<not> length bs < k" using stable_pass[OF o less.prems _ subset_refl, of False] p(1) True by auto
    then have "Suc (length bs) - Suc k < Suc (length bs) - k" by simp
    from less.hyps[OF this p(2)] show ?thesis using p(1) True by (simp add: dom_iterate.simps[of N pred bs idom])
  next
    case False
    then have p': "dom_pass N pred bs (idom, False) = Some (idom, False)" using p(1,3) by simp
    have climb: "pass_state N succ e {} (k + j) idom" for j
    proof (induction j)
      case (Suc j)
      show ?case using pass_ok[OF o Suc] p' by auto
    qed (simp add: less.prems)
    have s: "pass_state N succ e {} (Suc (length bs) + k) idom" using climb[of "Suc (length bs)"] by (simp add: add.commute)
    have "exact_tree succ e idom"
    proof (rule exact_chain_tree[OF o])
      show "dom_state N succ e idom" "\<And>x. reaches succ e x \<Longrightarrow> idom x \<noteq> None" using s unfolding pass_state_def by auto
      show "\<And>x d. reaches succ e x \<Longrightarrow> d \<in> chain idom x \<longleftrightarrow> dominates succ e d x" by (rule level_exact[OF o s]) auto
    qed
    then show ?thesis using p' by (simp add: dom_iterate.simps[of N pred bs idom])
  qed
qed

lemma compute_idom_exact:
  assumes g: "graph_ok ident succ pred e" and i: "\<And>b. \<not> reaches succ e b \<Longrightarrow> idom0 b = None"
  shows "\<exists>r. compute_idom ident succ pred e idom0 = Some r \<and> exact_tree succ e r"
proof -
  obtain bs where bs: "compute_rpo ident succ e = e # bs" "rpo_order (rpo_map ident (e # bs)) succ pred e bs"
    using compute_rpo_order[OF g] by blast
  let ?i = "(\<lambda>b. if b \<in> set (e # bs) then None else idom0 b)(e := Some e)"
  have off: "b \<notin> set (e # bs) \<Longrightarrow> \<not> reaches succ e b" for b using rpo_orderD(1)[OF bs(2)] by blast
  have ii: "?i b = (if b = e then Some e else None)" for b using i off by simp
  have "dom_state (rpo_map ident (e # bs)) succ e ?i"
    using reaches_start unfolding dom_state_def ii by auto
  then have "pass_state (rpo_map ident (e # bs)) succ e {} 0 ?i" by (simp add: pass_state_def)
  from dom_iterate_exact[OF bs(2) this] show ?thesis by (simp add: compute_idom_def bs(1) Let_def)
qed

section \<open>The tree and the dominators\<close>

lemma exact_treeD:
  assumes "exact_tree succ e idom"
  shows "idom e = Some e" "\<not> reaches succ e b \<Longrightarrow> idom b = None" "reaches succ e b \<Longrightarrow> idom b \<noteq> None"
    "idom b = Some n \<Longrightarrow> b \<noteq> e \<Longrightarrow> is_idom succ e n b"
proof -
  have a: "idom e = Some e" "\<And>b. \<not> reaches succ e b \<Longrightarrow> idom b = None"
    "\<And>b. reaches succ e b \<Longrightarrow> b \<noteq> e \<Longrightarrow> \<exists>n. idom b = Some n \<and> is_idom succ e n b"
    using assms unfolding exact_tree_def by blast+
  show "idom e = Some e" "\<not> reaches succ e b \<Longrightarrow> idom b = None" by (fact a)+
  show "reaches succ e b \<Longrightarrow> idom b \<noteq> None" using a(1,3) by (cases "b = e") auto
  show "is_idom succ e n b" if "idom b = Some n" "b \<noteq> e"
    using a(2)[of b] a(3)[of b] that by auto
qed

lemma exact_tree_reaches: "exact_tree succ e idom \<Longrightarrow> idom b = Some n \<Longrightarrow> reaches succ e b \<and> reaches succ e n"
proof -
  assume t: "exact_tree succ e idom" and n: "idom b = Some n"
  have b: "reaches succ e b" using exact_treeD(2)[OF t, of b] n by auto
  moreover have "reaches succ e n"
  proof (cases "b = e")
    case True
    then show ?thesis using exact_treeD(1)[OF t] n b by simp
  next
    case False
    then show ?thesis using exact_treeD(4)[OF t n] dominates_reaches b unfolding is_idom_def by blast
  qed
  ultimately show ?thesis by blast
qed

lemma exact_tree_state:
  assumes o: "rpo_order N succ pred e bs" and t: "exact_tree succ e idom"
  shows "dom_state N succ e idom"
  unfolding dom_state_def
proof (intro conjI allI impI)
  show "idom e = Some e" by (rule exact_treeD(1)[OF t])
  show "idom b = None" if "\<not> reaches succ e b" for b by (rule exact_treeD(2)[OF t that])
  fix b n assume n: "idom b = Some n" "b \<noteq> e"
  note i = exact_treeD(4)[OF t n, unfolded is_idom_def] and r = exact_tree_reaches[OF t n(1)]
  have "N n \<le> N b" using dominates_le[OF o] i r by blast
  moreover have "N n \<noteq> N b" using rpo_order_inj[OF o, of n b] i r by blast
  ultimately show "N n < N b" by simp
  show "idom n \<noteq> None" using exact_treeD(3)[OF t] r by blast
  show "dominates succ e d n" if "dominates succ e d b" "d \<noteq> b" for d using i that by blast
qed

lemma exact_chain:
  assumes o: "rpo_order N succ pred e bs" and t: "exact_tree succ e idom" and b: "reaches succ e b"
  shows "d \<in> chain idom b \<longleftrightarrow> dominates succ e d b"
proof
  show "dominates succ e d b \<Longrightarrow> d \<in> chain idom b"
    by (rule chain_has_dominators[OF o exact_tree_state[OF o t] exact_treeD(3)[OF t b]])
  assume "d \<in> chain idom b"
  then have "(b, d) \<in> (up idom)\<^sup>*" by simp
  then show "dominates succ e d b"
  proof (induction rule: rtrancl_induct)
    case (step y z)
    then have yz: "idom y = Some z" by (simp add: up_def)
    have "dominates succ e z y"
    proof (cases "y = e")
      case True
      then show ?thesis using yz exact_treeD(1)[OF t] by (auto simp: dominates_refl)
    next
      case False
      then show ?thesis using exact_treeD(4)[OF t yz] by (auto simp: is_idom_def)
    qed
    then show ?case using step.IH by (rule dominates_trans)
  qed (rule dominates_refl)
qed

section \<open>The frontiers\<close>

definition frontier :: "(bref \<Rightarrow> bref list) \<Rightarrow> bref \<Rightarrow> bref \<Rightarrow> bref \<Rightarrow> bool" where
  "frontier succ e x y \<longleftrightarrow>
     (\<exists>p. reaches succ e p \<and> y \<in> set (succ p) \<and> dominates succ e x p) \<and> \<not> (x \<noteq> y \<and> dominates succ e x y)"

lemma df_runner_ok:
  assumes s: "dom_state N succ e idom" and o: "rpo_order N succ pred e bs" and m: "idom y = Some m"
  shows "idom p \<noteq> None \<Longrightarrow> m \<in> chain idom p \<Longrightarrow>
    \<exists>df'. df_runner idom y p df = Some df'
      \<and> (\<forall>r. set (df' r) = set (df r) \<union> (if r \<in> chain idom p \<and> r \<notin> chain idom m then {y} else {}))"
proof (induction "nat (N p)" arbitrary: p df rule: less_induct)
  case less
  show ?case
  proof (cases "p = m")
    case True
    then show ?thesis using m by (auto simp: df_runner.simps)
  next
    case False
    obtain q where q: "idom p = Some q" using less.prems(1) by blast
    have "p \<noteq> e" using less.prems(2) False chain_entry[OF s] by (cases "p = e") auto
    then have lt: "N q < N p" using dom_stateD(3)[OF s q] by blast
    have qn: "idom q \<noteq> None" using dom_stateD(4)[OF s q] .
    have "0 \<le> N q" by (rule rpo_orderD(3)[OF o dom_stateD(2)[OF s qn]])
    then have nlt: "nat (N q) < nat (N p)" using lt by simp
    have cp: "chain idom p = insert p (chain idom q)" using chain_unfold[of idom p] q by simp
    have mq: "m \<in> chain idom q" using less.prems(2) False unfolding cp by fast
    have "p \<notin> chain idom m"
    proof
      assume "p \<in> chain idom m"
      then have "N p \<le> N m" using chain_props[OF s] dom_stateD(4)[OF s m] by blast
      moreover have "N m \<le> N q" using chain_props[OF s mq qn] by blast
      ultimately show False using lt by simp
    qed
    let ?df = "if y \<in> set (df p) then df else df(p := df p @ [y])"
    have set1: "set (?df r) = set (df r) \<union> (if r = p then {y} else {})" for r by auto
    obtain df' where df': "df_runner idom y q ?df = Some df'"
        "\<And>r. set (df' r) = set (?df r) \<union> (if r \<in> chain idom q \<and> r \<notin> chain idom m then {y} else {})"
      using less.hyps[OF nlt qn mq, of ?df] by blast
    have "df_runner idom y p df = Some df'"
      using df'(1) q m False by (simp add: df_runner.simps[of idom y p df] Let_def)
    moreover have "set (df' r) = set (df r) \<union> (if r \<in> chain idom p \<and> r \<notin> chain idom m then {y} else {})" for r
      unfolding df'(2) set1 cp using \<open>p \<notin> chain idom m\<close> by auto
    ultimately show ?thesis by blast
  qed
qed

text \<open>The part of an unreachable predecessor or block: only its own frontier grows.\<close>

lemma df_runner_unreachable:
  "idom p = None \<Longrightarrow> idom y \<noteq> Some p \<Longrightarrow>
     \<exists>df'. df_runner idom y p df = Some df' \<and> (\<forall>r. set (df' r) = set (df r) \<union> (if r = p then {y} else {}))"
  by (auto simp: df_runner.simps Let_def)

text \<open>What one block adds to the frontier of a reachable one.\<close>

definition df_adds :: "(bref \<Rightarrow> bref list) \<Rightarrow> bref \<Rightarrow> (bref \<Rightarrow> bref option) \<Rightarrow> bref list \<Rightarrow> bref \<Rightarrow> bref \<Rightarrow> bool" where
  "df_adds succ e idom ps y r \<longleftrightarrow>
     reaches succ e y \<and> (\<exists>p \<in> set ps. reaches succ e p \<and> dominates succ e r p) \<and> \<not> dominates succ e r (the (idom y))"

lemma df_preds_ok:
  assumes o: "rpo_order N succ pred e bs" and t: "exact_tree succ e idom"
    and edge: "\<And>p. p \<in> set ps \<Longrightarrow> y \<in> set (succ p)"
  shows "\<exists>df'. df_preds idom y ps df = Some df'
      \<and> (\<forall>r. reaches succ e r \<longrightarrow> set (df' r) = set (df r) \<union> (if df_adds succ e idom ps y r then {y} else {}))"
  using edge
proof (induction ps arbitrary: df)
  case (Cons p ps)
  note s = exact_tree_state[OF o t]
  have "\<exists>df1. df_runner idom y p df = Some df1
      \<and> (\<forall>r. reaches succ e r \<longrightarrow> set (df1 r) = set (df r) \<union> (if df_adds succ e idom [p] y r then {y} else {}))"
  proof (cases "reaches succ e p")
    case True
    have y: "reaches succ e y" using reaches_step[OF True] Cons.prems by simp
    then obtain m where m: "idom y = Some m" using exact_treeD(3)[OF t] by blast
    have rm: "reaches succ e m" using exact_tree_reaches[OF t m] by blast
    have "dominates succ e m p"
    proof (cases "y = e")
      case True
      then show ?thesis using m exact_treeD(1)[OF t] entry_dominates by auto
    next
      case False
      then show ?thesis
        using exact_treeD(4)[OF t m False] dominates_pred[of succ e m y p] Cons.prems by (simp add: is_idom_def)
    qed
    then have "m \<in> chain idom p" using exact_chain[OF o t True] by blast
    from df_runner_ok[OF s o m exact_treeD(3)[OF t True] this] obtain df1 where d: "df_runner idom y p df = Some df1"
        "\<And>r. set (df1 r) = set (df r) \<union> (if r \<in> chain idom p \<and> r \<notin> chain idom m then {y} else {})" by blast
    have "set (df1 r) = set (df r) \<union> (if df_adds succ e idom [p] y r then {y} else {})" for r
      unfolding d(2) exact_chain[OF o t True] exact_chain[OF o t rm] using y True m by (simp add: df_adds_def)
    then show ?thesis using d(1) by blast
  next
    case False
    have n: "idom p = None" by (rule exact_treeD(2)[OF t False])
    moreover have "idom y \<noteq> Some p" using exact_tree_reaches[OF t] False by blast
    ultimately obtain df1 where "df_runner idom y p df = Some df1" "\<forall>r. set (df1 r) = set (df r) \<union> (if r = p then {y} else {})"
      using df_runner_unreachable by blast
    then show ?thesis using False by (auto simp: df_adds_def)
  qed
  then obtain df1 where 1: "df_runner idom y p df = Some df1"
    "\<And>r. reaches succ e r \<Longrightarrow> set (df1 r) = set (df r) \<union> (if df_adds succ e idom [p] y r then {y} else {})" by blast
  from Cons.IH[of df1] Cons.prems obtain df' where 2: "df_preds idom y ps df1 = Some df'"
    "\<And>r. reaches succ e r \<Longrightarrow> set (df' r) = set (df1 r) \<union> (if df_adds succ e idom ps y r then {y} else {})" by auto
  have "set (df' r) = set (df r) \<union> (if df_adds succ e idom (p # ps) y r then {y} else {})" if "reaches succ e r" for r
    unfolding 2(2)[OF that] 1(2)[OF that] by (auto simp: df_adds_def)
  then show ?case using 1(1) 2(1) by auto
qed (simp add: df_adds_def)

lemma df_blocks_ok:
  assumes o: "rpo_order N succ pred e bs" and t: "exact_tree succ e idom"
    and edge: "\<And>y p. y \<in> set ys \<Longrightarrow> p \<in> set (pred y) \<Longrightarrow> y \<in> set (succ p)"
  shows "\<exists>df'. df_blocks pred idom ys df = Some df'
      \<and> (\<forall>r. reaches succ e r \<longrightarrow>
          set (df' r) = set (df r) \<union> {y \<in> set ys. 2 \<le> length (pred y) \<and> df_adds succ e idom (pred y) y r})"
  using edge
proof (induction ys arbitrary: df)
  case (Cons y ys)
  show ?case
  proof (cases "length (pred y) < 2")
    case True
    then show ?thesis using Cons.IH[of df] Cons.prems by auto
  next
    case False
    obtain df1 where 1: "df_preds idom y (pred y) df = Some df1"
      "\<And>r. reaches succ e r \<Longrightarrow> set (df1 r) = set (df r) \<union> (if df_adds succ e idom (pred y) y r then {y} else {})"
      using df_preds_ok[OF o t, of "pred y" y df] Cons.prems by auto
    from Cons.IH[of df1] Cons.prems obtain df' where 2: "df_blocks pred idom ys df1 = Some df'"
      "\<And>r. reaches succ e r \<Longrightarrow> set (df' r) = set (df1 r) \<union> {y \<in> set ys. 2 \<le> length (pred y) \<and> df_adds succ e idom (pred y) y r}"
      by auto
    have "set (df' r) = set (df r) \<union> {z \<in> set (y # ys). 2 \<le> length (pred z) \<and> df_adds succ e idom (pred z) z r}"
      if "reaches succ e r" for r
      unfolding 2(2)[OF that] 1(2)[OF that] using False by auto
    then show ?thesis using 1(1) 2(1) False by auto
  qed
qed simp

lemma frontier_two_preds:
  assumes y: "y \<noteq> e" "reaches succ e y" and f: "frontier succ e x y"
    and edge: "\<And>p. reaches succ e p \<Longrightarrow> y \<in> set (succ p) \<Longrightarrow> p \<in> set (pred y)"
  shows "2 \<le> length (pred y)"
proof (rule ccontr)
  assume "\<not> 2 \<le> length (pred y)"
  then have one: "p = q" if "p \<in> set (pred y)" "q \<in> set (pred y)" for p q
    using that by (cases "pred y" rule: remdups_adj.cases) auto
  obtain p where p: "reaches succ e p" "y \<in> set (succ p)" "dominates succ e x p" and no: "\<not> (x \<noteq> y \<and> dominates succ e x y)"
    using f unfolding frontier_def by blast
  have only: "q = p" if "reaches succ e q" "y \<in> set (succ q)" for q using one edge that p(1,2) by blast
  have "dominates succ e x y" by (rule dominates_via_preds[OF y(1)]) (use only p(3) in blast)
  then have "x = y" using no by blast
  obtain xs where xs: "cfg_path succ e xs y" using y(2) unfolding reaches_def by blast
  have "y \<notin> set ys" if "cfg_path succ e ys z" for ys z
    using that
  proof (induction rule: cfg_path.induct)
    case (step ys a b)
    have "b \<noteq> y"
    proof
      assume "b = y"
      then have "a = p" using only[of a] step.hyps by (auto simp: reaches_def)
      then show False using p(3) step.IH step.hyps(1) \<open>x = y\<close> by (auto simp: dominates_def)
    qed
    then show ?case using step.IH by simp
  qed (use y(1) in simp)
  then show False using path_last[OF xs] xs by blast
qed

text \<open>
  Frontiers are exact, but for the entry: it is never in its own frontier, and in no frontier at all when
  it has fewer than two predecessors.
\<close>

lemma df_blocks_exact:
  assumes g: "graph_ok ident succ pred e" and t: "exact_tree succ e idom"
    and edge: "\<And>y p. y \<in> set ys \<Longrightarrow> p \<in> set (pred y) \<Longrightarrow> y \<in> set (succ p)"
    and all: "\<And>y. reaches succ e y \<Longrightarrow> y \<in> set ys"
    and empty: "\<And>x. reaches succ e x \<Longrightarrow> df0 x = []"
  shows "\<exists>df. df_blocks pred idom ys df0 = Some df
      \<and> (\<forall>x y. reaches succ e x \<longrightarrow> (y \<in> set (df x) \<longleftrightarrow> frontier succ e x y \<and> (y = e \<longrightarrow> x \<noteq> e \<and> 2 \<le> length (pred e))))"
proof -
  obtain bs where o: "rpo_order (rpo_map ident (e # bs)) succ pred e bs" using compute_rpo_order[OF g] by blast
  obtain df where df: "df_blocks pred idom ys df0 = Some df"
    "\<And>r. reaches succ e r \<Longrightarrow> set (df r) = set (df0 r) \<union> {y \<in> set ys. 2 \<le> length (pred y) \<and> df_adds succ e idom (pred y) y r}"
    using df_blocks_ok[OF o t edge] by blast
  have pe: "p \<in> set (pred y) \<longleftrightarrow> y \<in> set (succ p)" if "reaches succ e p" "reaches succ e y" for p y
    using rpo_orderD(4)[OF o that] .
  have "y \<in> set (df x) \<longleftrightarrow> frontier succ e x y \<and> (y = e \<longrightarrow> x \<noteq> e \<and> 2 \<le> length (pred e))" if x: "reaches succ e x" for x y
  proof (cases "reaches succ e y")
    case False
    then have "\<not> frontier succ e x y" unfolding frontier_def using reaches_step by blast
    then show ?thesis using df(2)[OF x] empty[OF x] False by (simp add: df_adds_def)
  next
    case True
    have mem: "y \<in> set (df x) \<longleftrightarrow> 2 \<le> length (pred y)
        \<and> (\<exists>p. reaches succ e p \<and> y \<in> set (succ p) \<and> dominates succ e x p) \<and> \<not> dominates succ e x (the (idom y))"
      using df(2)[OF x] empty[OF x] True all[OF True] pe[OF _ True] by (auto simp: df_adds_def)
    show ?thesis
    proof (cases "y = e")
      case True
      have "\<not> dominates succ e x (the (idom e)) \<longleftrightarrow> x \<noteq> e"
        using exact_treeD(1)[OF t] dominates_start[of succ e x] dominates_refl by auto
      then show ?thesis using mem True dominates_start[of succ e x] by (auto simp: frontier_def)
    next
      case False
      obtain m where m: "idom y = Some m" using exact_treeD(3)[OF t True] by blast
      note i = exact_treeD(4)[OF t m False, unfolded is_idom_def]
      have my: "\<not> dominates succ e y m"
        using dominates_antisym[OF o, of y m] i True exact_tree_reaches[OF t m] by blast
      have "dominates succ e x m \<longleftrightarrow> x \<noteq> y \<and> dominates succ e x y"
        using i my dominates_trans[of succ e x m y] by blast
      moreover have "frontier succ e x y \<Longrightarrow> 2 \<le> length (pred y)"
        by (rule frontier_two_preds[OF False True]) (use pe[OF _ True] in blast)+
      ultimately show ?thesis using mem m False by (auto simp: frontier_def)
    qed
  qed
  then show ?thesis using df(1) by blast
qed

end
