(* ===== verification/Dom_Cfg.thy ===== *)
theory Dom_Cfg
  imports Dom_Facts Builder_Facts
begin

text \<open>
  The dominator computation on the functions of the compiler: what it leaves in the blocks of a
  function with a consistent control-flow graph, as the builder makes them.
\<close>

abbreviation cfg_succs :: "MirFunction \<Rightarrow> bref \<Rightarrow> bref list" where
  "cfg_succs f b \<equiv> successors (blocks f ! b)"

abbreviation cfg_preds :: "MirFunction \<Rightarrow> bref \<Rightarrow> bref list" where
  "cfg_preds f b \<equiv> predecessors (blocks f ! b)"

definition cfg_wf :: "MirFunction \<Rightarrow> bref \<Rightarrow> bool" where
  "cfg_wf f e \<longleftrightarrow>
     entry_block f = Some e \<and> e \<in> set (block_list f) \<and> distinct (map (block_ident f) (block_list f))
     \<and> (\<forall>b \<in> set (block_list f). block_ident f b < MAX_BLOCKS
          \<and> set (cfg_succs f b) \<subseteq> set (block_list f) \<and> set (cfg_preds f b) \<subseteq> set (block_list f)
          \<and> (\<forall>a \<in> set (block_list f). a \<in> set (cfg_preds f b) \<longleftrightarrow> b \<in> set (cfg_succs f a)))"

lemma cfg_wf_reaches: "cfg_wf f e \<Longrightarrow> reaches (cfg_succs f) e b \<Longrightarrow> b \<in> set (block_list f)"
proof -
  assume w: "cfg_wf f e" and "reaches (cfg_succs f) e b"
  then obtain xs where "cfg_path (cfg_succs f) e xs b" unfolding reaches_def by blast
  then show ?thesis using w by (induction rule: cfg_path.induct) (auto simp: cfg_wf_def)
qed

lemma cfg_wf_graph_ok:
  assumes w: "cfg_wf f e"
  shows "graph_ok (block_ident f) (cfg_succs f) (cfg_preds f) e"
proof -
  note r = cfg_wf_reaches[OF w]
  have "inj_on (block_ident f) (set (block_list f))" using w by (simp add: cfg_wf_def distinct_map)
  then have "inj_on (block_ident f) {b. reaches (cfg_succs f) e b}" by (rule inj_on_subset) (use r in blast)
  then show ?thesis using w r unfolding graph_ok_def cfg_wf_def by auto
qed

lemma built_cfg_wf:
  assumes b: "built m name ret ps b" and n: "blocks (bfunc b) \<noteq> []" "length (blocks (bfunc b)) \<le> MAX_BLOCKS"
  shows "cfg_wf (bfunc b) 0"
proof -
  let ?f = "bfunc b"
  have c: "cfg_exact ?f" using built_invs(2)[OF b] by (simp add: cfg_inv_def)
  have "map (block_ident ?f) (block_list ?f) = [0..<length (blocks ?f)]"
    using c by (intro nth_equalityI) (auto simp: cfg_exact_def block_ident_def)
  moreover have "code_targets ?f a \<subseteq> {..<length (blocks ?f)}" if "a < length (blocks ?f)" for a
    using c that by (simp add: cfg_exact_def)
  ultimately show ?thesis using c n by (auto simp: cfg_wf_def cfg_exact_def block_ident_def subset_iff)
qed

text \<open>The fields as \<^verbatim>\<open>mir_function_add_block\<close> leaves them.\<close>

definition dom_init :: DomInfo where
  "dom_init = \<lparr>idom_of = (\<lambda>b. None), dom_children_of = (\<lambda>b. []), dom_frontier_of = (\<lambda>b. [])\<rparr>"

lemma compute_dominators_ok:
  assumes w: "cfg_wf f e" and i: "\<And>b. \<not> reaches (cfg_succs f) e b \<Longrightarrow> idom_of d0 b = None"
  shows "\<exists>d. mir_compute_dominators f d0 = Some d \<and> exact_tree (cfg_succs f) e (idom_of d)
     \<and> (\<forall>p c. reaches (cfg_succs f) e p \<longrightarrow>
          (c \<in> set (dom_children_of d p) \<longleftrightarrow> reaches (cfg_succs f) e c \<and> c \<noteq> e \<and> is_idom (cfg_succs f) e p c))
     \<and> (\<forall>p. reaches (cfg_succs f) e p \<longrightarrow> distinct (dom_children_of d p))
     \<and> dom_frontier_of d = dom_frontier_of d0"
proof -
  let ?s = "cfg_succs f"
  note g = cfg_wf_graph_ok[OF w]
  obtain r where r: "compute_idom (block_ident f) ?s (cfg_preds f) e (idom_of d0) = Some r" "exact_tree ?s e r"
    using compute_idom_exact[OF g, of "idom_of d0"] i by blast
  obtain bs where bs: "compute_rpo (block_ident f) ?s e = e # bs" "distinct (e # bs)" "set (e # bs) = {b. reaches ?s e b}"
    using rpo_split[OF g] by blast
  have mem: "reaches ?s e c \<longleftrightarrow> c = e \<or> c \<in> set bs" for c using bs(3) by auto
  have kids: "c \<in> set (dom_children (e # bs) r p) \<longleftrightarrow> reaches ?s e c \<and> c \<noteq> e \<and> is_idom ?s e p c"
    for p c
  proof -
    have "r c = Some p \<longleftrightarrow> is_idom ?s e p c" if c: "c \<in> set bs"
    proof -
      have "c \<noteq> e" "reaches ?s e c" using c bs(2) mem by auto
      then obtain n where n: "r c = Some n" "is_idom ?s e n c" using r(2) unfolding exact_tree_def by blast
      have "n = p" if "is_idom ?s e p c"
      proof -
        obtain N where o: "rpo_order N ?s (cfg_preds f) e bs" using compute_rpo_order[OF g] bs(1) by auto
        have "dominates ?s e n p" "dominates ?s e p n" using that n(2) unfolding is_idom_def by blast+
        moreover have "reaches ?s e n" "reaches ?s e p"
          using dominates_reaches[OF _ \<open>reaches ?s e c\<close>] that n(2) unfolding is_idom_def by blast+
        ultimately show ?thesis using dominates_antisym[OF o] by blast
      qed
      then show ?thesis using n by auto
    qed
    then show ?thesis using bs(2) mem[of c] by (auto simp: dom_children_def is_idom_def)
  qed
  let ?d = "d0\<lparr>idom_of := r, dom_children_of := \<lambda>b. if b \<in> set (e # bs) then dom_children (e # bs) r b else dom_children_of d0 b\<rparr>"
  have "mir_compute_dominators f d0 = Some ?d"
    using w r(1) bs(1) by (simp add: mir_compute_dominators_def cfg_wf_def Let_def cong: if_cong)
  moreover have "distinct (dom_children (e # bs) r p)" for p using bs(2) by (simp add: dom_children_def)
  ultimately show ?thesis using r(2) kids mem by auto
qed



text \<open>A loop with a branch in its body, used by the witnesses: 0 to 1, 1 to 2 and 3, 2 and 3 to 4, 4 to 1 and 5.\<close>

definition loop_block :: "nat \<Rightarrow> bref list \<Rightarrow> bref list \<Rightarrow> MirBlock" where
  "loop_block i ps ss = \<lparr>bb_id = i, label = '''', insts = [], inst_count = 0, predecessors = ps, successors = ss\<rparr>"

definition loop_function :: MirFunction where
  "loop_function = demo_function\<lparr>entry_block := Some 0, block_list := [0, 1, 2, 3, 4, 5], block_count := 6,
     blocks := [loop_block 0 [] [1], loop_block 1 [0, 4] [2, 3], loop_block 2 [1] [4], loop_block 3 [1] [4],
                loop_block 4 [2, 3] [1, 5], loop_block 5 [4] []]\<rparr>"

lemma loop_cfg_wf: "cfg_wf loop_function 0"
  by code_simp

lemma loop_reaches: "b < 6 \<Longrightarrow> reaches (cfg_succs loop_function) 0 b"
proof -
  let ?s = "cfg_succs loop_function"
  have e: "cfg_succs loop_function 0 = [1]" "cfg_succs loop_function 1 = [2, 3]" "cfg_succs loop_function 2 = [4]"
    "cfg_succs loop_function 4 = [1, 5]" by code_simp+
  have 0: "reaches ?s 0 0" by (rule reaches_start)
  have 1: "reaches ?s 0 1" using reaches_step[OF 0, of 1] e by simp
  have 2: "reaches ?s 0 2" "reaches ?s 0 3" using reaches_step[OF 1, of 2] reaches_step[OF 1, of 3] e by simp_all
  have 4: "reaches ?s 0 4" using reaches_step[OF 2(1), of 4] e by simp
  have 5: "reaches ?s 0 5" using reaches_step[OF 4, of 5] e by simp
  assume "b < 6"
  then have "b = 0 \<or> b = 1 \<or> b = 2 \<or> b = 3 \<or> b = 4 \<or> b = 5" by auto
  then show ?thesis using 0 1 2 4 5 by auto
qed

lemma loop_idom: "map_option (\<lambda>d. idom_of d 4) (mir_compute_dominators loop_function dom_init) = Some (Some 1)"
  by code_simp


section \<open>Frontiers\<close>

lemma frontier_fields_ok:
  assumes w: "cfg_wf f e" and d: "mir_compute_dominators f dom_init = Some d"
  shows "\<exists>d'. mir_compute_dom_frontiers f d = Some d' \<and> idom_of d' = idom_of d \<and> dom_children_of d' = dom_children_of d
     \<and> (\<forall>x y. reaches (cfg_succs f) e x \<longrightarrow>
          (y \<in> set (dom_frontier_of d' x) \<longleftrightarrow>
             frontier (cfg_succs f) e x y \<and> (y = e \<longrightarrow> x \<noteq> e \<and> 2 \<le> length (cfg_preds f e))))"
proof -
  have "idom_of dom_init b = None" for b by (simp add: dom_init_def)
  then have t: "exact_tree (cfg_succs f) e (idom_of d)" using compute_dominators_ok[OF w] d by fastforce
  have "y \<in> set (cfg_succs f p)" if "y \<in> set (block_list f)" "p \<in> set (cfg_preds f y)" for y p
    using w that by (auto simp: cfg_wf_def)
  from df_blocks_exact[OF cfg_wf_graph_ok[OF w] t this cfg_wf_reaches[OF w],
      of "\<lambda>b. if b \<in> set (block_list f) then [] else dom_frontier_of d b"]
  obtain df where "df_blocks (cfg_preds f) (idom_of d) (block_list f)
        (\<lambda>b. if b \<in> set (block_list f) then [] else dom_frontier_of d b) = Some df"
    "\<And>x y. reaches (cfg_succs f) e x \<Longrightarrow> y \<in> set (df x) \<longleftrightarrow>
         frontier (cfg_succs f) e x y \<and> (y = e \<longrightarrow> x \<noteq> e \<and> 2 \<le> length (cfg_preds f e))"
    using cfg_wf_reaches[OF w] by auto
  then show ?thesis by (simp add: mir_compute_dom_frontiers_def)
qed

text \<open>
  C8: On the dominator tree the frontier computation ends, and the frontier of a reachable block \<open>x\<close> is the
  set of the blocks that have a predecessor dominated by \<open>x\<close> and are not strictly dominated by \<open>x\<close>
  themselves.  The entry is the exception: without a second predecessor it is in no frontier, and it
  is never in its own.
\<close>

theorem frontiers_exact:
  assumes w: "cfg_wf f e" and d: "mir_compute_dominators f dom_init = Some d"
  shows "\<exists>d'. mir_compute_dom_frontiers f d = Some d' \<and> idom_of d' = idom_of d \<and> dom_children_of d' = dom_children_of d
     \<and> (\<forall>x y. reaches (cfg_succs f) e x \<longrightarrow>
          (y \<in> set (dom_frontier_of d' x) \<longleftrightarrow>
             frontier (cfg_succs f) e x y \<and> (y = e \<longrightarrow> x \<noteq> e \<and> 2 \<le> length (cfg_preds f e))))"
  by (rule frontier_fields_ok[OF w d])

lemma frontier_fields:
  assumes "cfg_wf f e" "mir_compute_dominators f dom_init = Some d" "mir_compute_dom_frontiers f d = Some d1"
    and "reaches (cfg_succs f) e x"
  shows "y \<in> set (dom_frontier_of d1 x) \<longleftrightarrow>
     frontier (cfg_succs f) e x y \<and> (y = e \<longrightarrow> x \<noteq> e \<and> 2 \<le> length (cfg_preds f e))"
  using frontier_fields_ok[OF assms(1,2)] assms(3,4) by auto

lemma loop_frontiers:
  "map_option (\<lambda>d. map (dom_frontier_of d) [0..<6])
     (Option.bind (mir_compute_dominators loop_function dom_init) (mir_compute_dom_frontiers loop_function))
   = Some [[], [1], [4], [4], [1], []]"
  by code_simp

theorem frontiers_exact_witness:
  "cfg_wf loop_function 0 \<and> mir_compute_dominators loop_function dom_init \<noteq> None
   \<and> frontier (cfg_succs loop_function) 0 4 1 \<and> \<not> frontier (cfg_succs loop_function) 0 4 4"
proof -
  obtain d where d: "mir_compute_dominators loop_function dom_init = Some d"
    using compute_dominators_ok[OF loop_cfg_wf, of dom_init] by (auto simp: dom_init_def)
  from frontiers_exact[OF loop_cfg_wf d] obtain d' where d': "mir_compute_dom_frontiers loop_function d = Some d'"
    "\<And>y. y \<in> set (dom_frontier_of d' 4) \<longleftrightarrow> frontier (cfg_succs loop_function) 0 4 y
        \<and> (y = 0 \<longrightarrow> (4::bref) \<noteq> 0 \<and> 2 \<le> length (cfg_preds loop_function 0))"
    using loop_reaches[of 4] by auto
  have "map (dom_frontier_of d') [0..<6] = [[], [1], [4], [4], [1], []]" using loop_frontiers d d'(1) by simp
  then have "map (dom_frontier_of d') [0..<6] ! 4 = [1]" by simp
  then have "dom_frontier_of d' 4 = [1]" by simp
  then show ?thesis using d d'(2)[of 1] d'(2)[of 4] loop_cfg_wf by simp
qed

end
