(* ===== verification/Mir_Validate.thy ===== *)
theory Mir_Validate
  imports Dom_Cfg
begin

text \<open>
  The SSA validator \<^verbatim>\<open>mir_validate_function\<close> of \<^verbatim>\<open>src/compiler/ir/mir_printer.c\<close>: block ids, edge
  lists, block shape, phi edges, single definitions, and that definitions dominate their uses.  Each
  check returns the number of errors it counts; the messages are not modelled.  The arrays indexed by
  value id are functions of the id; an id of \<open>2 ^ 31\<close> or more, negative as an \<^verbatim>\<open>int\<close>, passes the
  bounds test and is looked up outside the arrays in the code.
\<close>

section \<open>Shape of a block\<close>

fun is_terminator_opcode :: "MirOp \<Rightarrow> bool" where
  "is_terminator_opcode (BR t) = True"
| "is_terminator_opcode (CONDBR c t f) = True"
| "is_terminator_opcode (SWITCH d cs df) = True"
| "is_terminator_opcode (RET v) = True"
| "is_terminator_opcode RET_VOID = True"
| "is_terminator_opcode UNREACHABLE = True"
| "is_terminator_opcode _ = False"

definition block_has_predecessor :: "MirFunction \<Rightarrow> bref \<Rightarrow> bref \<Rightarrow> bool" where
  "block_has_predecessor f block pred \<longleftrightarrow> pred \<in> set (predecessors (blocks f ! block))"

definition block_has_successor :: "MirFunction \<Rightarrow> bref \<Rightarrow> bref \<Rightarrow> bool" where
  "block_has_successor f block succ \<longleftrightarrow> succ \<in> set (successors (blocks f ! block))"

text \<open>The walk up the tree; \<open>None\<close> is a walk that never ends.\<close>

partial_function (option) block_dominates :: "(bref \<Rightarrow> bref option) \<Rightarrow> bref \<Rightarrow> bref option \<Rightarrow> bool option" where
  "block_dominates idom def_bb cursor =
     (case cursor of
        None \<Rightarrow> Some False
      | Some c \<Rightarrow>
          if c = def_bb then Some True
          else if idom c = Some c then Some False
          else block_dominates idom def_bb (idom c))"

declare block_dominates.simps [code]

text \<open>The loop over the instructions: phis first, nothing after a terminator.\<close>

fun validate_insts :: "bool \<Rightarrow> MirInst list \<Rightarrow> nat" where
  "validate_insts past_phis [] = 0"
| "validate_insts past_phis (i # rest) =
     (if is_phi (iop i) \<and> past_phis then 1 else 0)
     + (if is_terminator_opcode (iop i) \<and> rest \<noteq> [] then 1 else 0)
     + validate_insts (past_phis \<or> \<not> is_phi (iop i)) rest"

text \<open>The edges of one phi.\<close>

fun validate_edges :: "MirFunction \<Rightarrow> bref \<Rightarrow> (MirBlockP \<times> MirValueId) list \<Rightarrow> nat" where
  "validate_edges f block [] = 0"
| "validate_edges f block ((p, v) # rest) =
     (case p of
        None \<Rightarrow> 1
      | Some pred \<Rightarrow>
          if \<not> block_has_predecessor f block pred then 1
          else length (filter (\<lambda>e. fst e = Some pred) rest))
     + validate_edges f block rest"

fun validate_phis :: "MirFunction \<Rightarrow> bref \<Rightarrow> MirInst list \<Rightarrow> nat" where
  "validate_phis f block [] = 0"
| "validate_phis f block (i # rest) =
     (case iop i of
        PHI es \<Rightarrow> (if length es \<noteq> length (predecessors (blocks f ! block)) then 1 else 0)
                    + validate_edges f block es + validate_phis f block rest
      | _ \<Rightarrow> 0)"

definition validate_block :: "MirFunction \<Rightarrow> bref \<Rightarrow> nat" where
  "validate_block f block =
     (let is = insts (blocks f ! block)
      in (if mir_block_is_terminated (blocks f ! block) then 0 else 1)
         + validate_insts False is
         + (if length (filter (\<lambda>i. is_terminator_opcode (iop i)) is) > 1 then 1 else 0)
         + validate_phis f block is)"

section \<open>Blocks and edges\<close>

text \<open>The loop that fills \<^verbatim>\<open>block_by_id\<close>; the ids it has seen are the list.\<close>

fun validate_blocks :: "MirFunction \<Rightarrow> nat list \<Rightarrow> bref list \<Rightarrow> nat" where
  "validate_blocks f seen [] = 0"
| "validate_blocks f seen (bb # rest) =
     (if block_ident f bb \<ge> block_count f then 1 + validate_blocks f seen rest
      else if block_ident f bb \<in> set seen then 1 + validate_blocks f seen rest
      else length (filter (\<lambda>p. \<not> block_has_successor f p bb) (predecessors (blocks f ! bb)))
         + length (filter (\<lambda>s. \<not> block_has_predecessor f s bb) (successors (blocks f ! bb)))
         + validate_block f bb
         + validate_blocks f (block_ident f bb # seen) rest)"

section \<open>Definitions\<close>

text \<open>\<^verbatim>\<open>def_count\<close>, \<^verbatim>\<open>value_block\<close> and \<^verbatim>\<open>value_order\<close>.\<close>

record DefTable =
  def_count :: "MirValueId \<Rightarrow> nat"
  value_block :: "MirValueId \<Rightarrow> bref option"
  value_order :: "MirValueId \<Rightarrow> int"

definition no_defs :: DefTable where
  "no_defs = \<lparr>def_count = (\<lambda>v. 0), value_block = (\<lambda>v. None), value_order = (\<lambda>v. 0)\<rparr>"

definition add_def :: "DefTable \<Rightarrow> MirValueId \<Rightarrow> bref \<Rightarrow> int \<Rightarrow> DefTable" where
  "add_def t v b k =
     t\<lparr>def_count := (def_count t)(v := def_count t v + 1), value_block := (value_block t)(v := Some b),
       value_order := (value_order t)(v := k)\<rparr>"

fun param_defs :: "int \<Rightarrow> bref \<Rightarrow> MirParam list \<Rightarrow> DefTable \<times> nat \<Rightarrow> DefTable \<times> nat" where
  "param_defs limit e [] r = r"
| "param_defs limit e (p # ps) (t, errors) =
     (if value_id p = MIR_VALUE_NONE \<or> sint (value_id p) \<ge> limit then param_defs limit e ps (t, errors + 1)
      else param_defs limit e ps (add_def t (value_id p) e (- 1), errors))"

text \<open>\<open>order\<close> is incremented before an instruction is looked at.\<close>

fun inst_defs :: "MirFunction \<Rightarrow> int \<Rightarrow> bref \<Rightarrow> MirInst list \<Rightarrow> int \<Rightarrow> DefTable \<times> nat \<Rightarrow> DefTable \<times> nat" where
  "inst_defs f limit bb [] order r = r"
| "inst_defs f limit bb (i # rest) order (t, errors) =
     (if result i = MIR_VALUE_NONE then inst_defs f limit bb rest (order + 1) (t, errors)
      else if sint (result i) \<ge> limit then inst_defs f limit bb rest (order + 1) (t, errors + 1)
      else inst_defs f limit bb rest (order + 1)
             (add_def t (result i) bb (order + 1),
              errors + (if sint (result i) \<ge> int (length (value_types f)) then 1 else 0)))"

fun block_defs :: "MirFunction \<Rightarrow> int \<Rightarrow> bref list \<Rightarrow> int \<Rightarrow> DefTable \<times> nat \<Rightarrow> DefTable \<times> nat" where
  "block_defs f limit [] order r = r"
| "block_defs f limit (bb # rest) order r =
     block_defs f limit rest (order + int (length (insts (blocks f ! bb))))
       (inst_defs f limit bb (insts (blocks f ! bb)) order r)"

definition duplicate_defs :: "int \<Rightarrow> DefTable \<Rightarrow> nat" where
  "duplicate_defs limit t = length (filter (\<lambda>i. def_count t (of_int i) > 1) [1..limit - 1])"

section \<open>Uses\<close>

text \<open>The operands the switch collects; the buffer holds 16, and the arguments of a call that do not
  fit are left out.\<close>

fun validate_operands :: "MirOp \<Rightarrow> MirValueId list" where
  "validate_operands (BINARY p l r) = [l, r]"
| "validate_operands (UNARY p x t) = [x]"
| "validate_operands (LOAD p) = [p]"
| "validate_operands (STORE p v) = [p, v]"
| "validate_operands (GET_FIELD_PTR b i x) = [b]"
| "validate_operands (GET_ELEM_PTR b i x) = [b, x]"
| "validate_operands (CONDBR c t f) = [c]"
| "validate_operands (SWITCH d cs df) = [d]"
| "validate_operands (RET v) = [v]"
| "validate_operands (CALL n as c) = take 16 as"
| "validate_operands (CALL_INDIRECT n as c) = take 16 (c # as)"
| "validate_operands (CALL_VIRTUAL s k as) = take 16 (s # as)"
| "validate_operands (TRANSFER p s) = [s]"
| "validate_operands (REFOP p x) = [x]"
| "validate_operands (STRUCT_INIT fs) = take 16 fs"
| "validate_operands (EXTRACT a i) = [a]"
| "validate_operands (INSERT a i v) = [a, v]"
| "validate_operands _ = []"

text \<open>A count of errors, or \<open>None\<close> when a walk up the tree does not end.\<close>

definition err :: "bool option \<Rightarrow> nat option" where
  "err r = map_option (\<lambda>ok. if ok then 0 else 1) r"

definition validate_use :: "int \<Rightarrow> DefTable \<Rightarrow> (bref \<Rightarrow> bref option) \<Rightarrow> bref \<Rightarrow> int \<Rightarrow> MirValueId \<Rightarrow> nat option" where
  "validate_use limit t idom bb order v =
     (if v = MIR_VALUE_NONE then Some 0
      else if sint v \<ge> limit \<or> def_count t v = 0 then Some 1
      else case value_block t v of
             None \<Rightarrow> Some 1
           | Some b \<Rightarrow> if b = bb then Some (if value_order t v \<ge> order then 1 else 0)
                        else err (block_dominates idom b (Some bb)))"

definition validate_incoming :: "int \<Rightarrow> DefTable \<Rightarrow> (bref \<Rightarrow> bref option) \<Rightarrow> MirBlockP \<times> MirValueId \<Rightarrow> nat option" where
  "validate_incoming limit t idom edge =
     (case edge of (pred, v) \<Rightarrow>
        (if v = MIR_VALUE_NONE then Some 0
         else if sint v \<ge> limit \<or> def_count t v = 0 then Some 1
         else case value_block t v of
                None \<Rightarrow> Some 1
              | Some b \<Rightarrow> err (block_dominates idom b pred)))"

fun add_errors :: "nat option list \<Rightarrow> nat option" where
  "add_errors [] = Some 0"
| "add_errors (r # rs) = (case r of None \<Rightarrow> None | Some n \<Rightarrow> map_option ((+) n) (add_errors rs))"

definition validate_inst :: "int \<Rightarrow> DefTable \<Rightarrow> (bref \<Rightarrow> bref option) \<Rightarrow> bref \<Rightarrow> int \<Rightarrow> MirOp \<Rightarrow> nat option" where
  "validate_inst limit t idom bb order opc =
     (case opc of
        PHI es \<Rightarrow> add_errors (map (validate_incoming limit t idom) es)
      | _ \<Rightarrow> add_errors (map (validate_use limit t idom bb order) (validate_operands opc)))"

fun validate_uses :: "int \<Rightarrow> DefTable \<Rightarrow> (bref \<Rightarrow> bref option) \<Rightarrow> bref \<Rightarrow> MirInst list \<Rightarrow> int \<Rightarrow> nat option" where
  "validate_uses limit t idom bb [] order = Some 0"
| "validate_uses limit t idom bb (i # rest) order =
     (case validate_inst limit t idom bb (order + 1) (iop i) of
        None \<Rightarrow> None
      | Some n \<Rightarrow> map_option ((+) n) (validate_uses limit t idom bb rest (order + 1)))"

fun validate_block_uses :: "int \<Rightarrow> DefTable \<Rightarrow> (bref \<Rightarrow> bref option) \<Rightarrow> MirFunction \<Rightarrow> bref list \<Rightarrow> int \<Rightarrow> nat option" where
  "validate_block_uses limit t idom f [] order = Some 0"
| "validate_block_uses limit t idom f (bb # rest) order =
     (case validate_uses limit t idom bb (insts (blocks f ! bb)) order of
        None \<Rightarrow> None
      | Some n \<Rightarrow> map_option ((+) n)
          (validate_block_uses limit t idom f rest (order + int (length (insts (blocks f ! bb))))))"

section \<open>The function\<close>

text \<open>The verdict and the dominator fields, which the call refreshes; \<open>None\<close> is a call that does not return.\<close>

definition mir_validate_function :: "MirFunction \<Rightarrow> DomInfo \<Rightarrow> (bool \<times> DomInfo) option" where
  "mir_validate_function f d =
     (case entry_block f of
        None \<Rightarrow> Some (False, d)
      | Some e \<Rightarrow>
          if block_count f = 0 then Some (False, d)
          else
            let limit0 = sint (next_value_id f);
                limit = (if limit0 < 1 then 1 else limit0);
                errors0 = (if limit0 < 1 then 1 else 0) + (if predecessors (blocks f ! e) \<noteq> [] then 1 else 0)
                          + validate_blocks f [] (block_list f);
                (t, errors1) = block_defs f limit (block_list f) 0 (param_defs limit e (params f) (no_defs, 0));
                errors2 = duplicate_defs limit t
            in case mir_compute_dominators f d of
                 None \<Rightarrow> None
               | Some d1 \<Rightarrow>
                   (case validate_block_uses limit t (idom_of d1) f (block_list f) 0 of
                      None \<Rightarrow> None
                    | Some errors3 \<Rightarrow> Some (errors0 + errors1 + errors2 + errors3 = 0, d1)))"

fun mir_validate_functions :: "(MirFunction \<times> DomInfo) list \<Rightarrow> (bool \<times> DomInfo list) option" where
  "mir_validate_functions [] = Some (True, [])"
| "mir_validate_functions ((f, d) # rest) =
     (case (if is_extern f then Some (True, d) else mir_validate_function f d) of
        None \<Rightarrow> None
      | Some (ok, d1) \<Rightarrow> map_option (\<lambda>(ok', ds). (ok \<and> ok', d1 # ds)) (mir_validate_functions rest))"

end
