(* ===== verification/Validate_Facts.thy ===== *)
theory Validate_Facts
  imports Mir_Validate
begin

text \<open>
  What the SSA validator guarantees: on every path from the entry, a value is defined before it is used,
  it has one definition, and a phi has one edge for each predecessor.
\<close>

section \<open>Error counts\<close>

lemma add_errors_zero: "add_errors rs = Some 0 \<Longrightarrow> r \<in> set rs \<Longrightarrow> r = Some 0"
  by (induction rs) (auto split: option.splits)

lemma add_errors_returns: "None \<notin> set rs \<Longrightarrow> add_errors rs \<noteq> None"
proof (induction rs)
  case (Cons r rs)
  then show ?case by (cases r) auto
qed simp

lemma err_zero: "err r = Some 0 \<longleftrightarrow> r = Some True"
  by (auto simp: err_def split: if_splits)

section \<open>The walk up the tree\<close>

lemma block_dominates_exact:
  assumes o: "rpo_order N succ pred e bs" and t: "exact_tree succ e idom"
  shows "reaches succ e c \<Longrightarrow> block_dominates idom a (Some c) = Some (dominates succ e a c)"
proof (induction "nat (N c)" arbitrary: c rule: less_induct)
  case less
  note s = exact_tree_state[OF o t]
  obtain n where n: "idom c = Some n" using exact_treeD(3)[OF t less.prems] by blast
  show ?case
  proof (cases "c = a \<or> c = e")
    case True
    then show ?thesis using exact_treeD(1)[OF t] dominates_start[of succ e a]
      by (auto simp: block_dominates.simps dominates_refl)
  next
    case False
    have lt: "N n < N c" using dom_stateD(3)[OF s n] False by blast
    have rn: "reaches succ e n" using exact_tree_reaches[OF t n] by blast
    then have "nat (N n) < nat (N c)" using lt rpo_orderD(3)[OF o rn] by simp
    from less.hyps[OF this rn] have 1: "block_dominates idom a (Some n) = Some (dominates succ e a n)" .
    have "n \<noteq> c" using lt by auto
    then have "block_dominates idom a (Some c) = block_dominates idom a (Some n)"
      using n False by (simp add: block_dominates.simps[of idom a "Some c"])
    moreover have "dominates succ e a n \<longleftrightarrow> dominates succ e a c"
      using exact_treeD(4)[OF t n] False dominates_trans[of succ e a n c] unfolding is_idom_def by blast
    ultimately show ?thesis using 1 by simp
  qed
qed

lemma block_dominates_returns:
  assumes o: "rpo_order N succ pred e bs" and t: "exact_tree succ e idom"
  shows "block_dominates idom a c \<noteq> None"
proof (cases c)
  case None
  then show ?thesis by (simp add: block_dominates.simps)
next
  case (Some b)
  show ?thesis
  proof (cases "reaches succ e b")
    case True
    then show ?thesis using block_dominates_exact[OF o t] Some by simp
  next
    case False
    have i: "idom b = None" by (rule exact_treeD(2)[OF t False])
    have n: "block_dominates idom a None = Some False" by (simp add: block_dominates.simps)
    have "block_dominates idom a (Some b) = Some (b = a)"
      unfolding block_dominates.simps[of idom a "Some b"] using i n by simp
    then show ?thesis using Some by simp
  qed
qed

section \<open>The table of definitions\<close>

fun block_starts :: "MirFunction \<Rightarrow> bref list \<Rightarrow> int \<Rightarrow> (bref \<times> int) list" where
  "block_starts f [] order = []"
| "block_starts f (b # bs) order = (b, order) # block_starts f bs (order + int (length (insts (blocks f ! b))))"

lemma block_starts_fst: "map fst (block_starts f bs order) = bs"
  by (induction bs arbitrary: order) auto

definition table_ok :: "(MirValueId \<Rightarrow> bref \<Rightarrow> int \<Rightarrow> bool) \<Rightarrow> DefTable \<Rightarrow> bool" where
  "table_ok P t \<longleftrightarrow> (\<forall>v. def_count t v \<noteq> 0 \<longrightarrow> (\<exists>b. value_block t v = Some b \<and> P v b (value_order t v)))"

lemma table_ok_add: "table_ok P t \<Longrightarrow> P v b k \<Longrightarrow> table_ok P (add_def t v b k)"
  by (auto simp: table_ok_def add_def_def)

lemma param_defs_ok:
  "table_ok P (fst r) \<Longrightarrow> (\<And>p. p \<in> set ps \<Longrightarrow> P (value_id p) e (- 1)) \<Longrightarrow> table_ok P (fst (param_defs limit e ps r))"
  by (induction limit e ps r rule: param_defs.induct) (auto intro: table_ok_add)

lemma inst_defs_ok:
  "table_ok P (fst r) \<Longrightarrow> (\<And>j. j < length is \<Longrightarrow> P (result (is ! j)) bb (order + int j + 1)) \<Longrightarrow>
   table_ok P (fst (inst_defs f limit bb is order r))"
proof (induction f limit bb "is" order r rule: inst_defs.induct)
  case (2 f limit bb i rest order t errors)
  have rest: "P (result (rest ! j)) bb (order + 1 + int j + 1)" if "j < length rest" for j
    using "2.prems"(2)[of "Suc j"] that by (simp add: add.commute add.left_commute)
  have "P (result i) bb (order + 1)" using "2.prems"(2)[of 0] by simp
  then have "table_ok P (add_def t (result i) bb (order + 1))" using "2.prems"(1) by (simp add: table_ok_add)
  then show ?case using 2 rest by simp
qed simp

lemma block_defs_ok:
  "table_ok P (fst r) \<Longrightarrow>
   (\<And>b o' j. (b, o') \<in> set (block_starts f bs order) \<Longrightarrow> j < length (insts (blocks f ! b)) \<Longrightarrow>
      P (result (insts (blocks f ! b) ! j)) b (o' + int j + 1)) \<Longrightarrow>
   table_ok P (fst (block_defs f limit bs order r))"
proof (induction bs arbitrary: order r)
  case (Cons b bs)
  have "table_ok P (fst (inst_defs f limit b (insts (blocks f ! b)) order r))"
    by (rule inst_defs_ok) (use Cons.prems in auto)
  then show ?case using Cons.IH Cons.prems(2) by simp
qed simp

section \<open>The loops over the uses\<close>

lemma validate_uses_zero:
  "validate_uses limit t idom bb is order = Some 0 \<Longrightarrow> k < length is \<Longrightarrow>
   validate_inst limit t idom bb (order + int k + 1) (iop (is ! k)) = Some 0"
proof (induction "is" arbitrary: order k)
  case (Cons i rest)
  then have "validate_inst limit t idom bb (order + 1) (iop i) = Some 0" "validate_uses limit t idom bb rest (order + 1) = Some 0"
    by (auto split: option.splits)
  then show ?case using Cons.IH[of "order + 1" "k - 1"] Cons.prems(2) by (cases k) (auto simp: add.commute add.left_commute)
qed simp

lemma validate_block_uses_zero:
  "validate_block_uses limit t idom f bs order = Some 0 \<Longrightarrow> (b, o') \<in> set (block_starts f bs order) \<Longrightarrow>
   validate_uses limit t idom b (insts (blocks f ! b)) o' = Some 0"
  by (induction bs arbitrary: order) (auto split: option.splits)

lemma validate_uses_returns:
  "(\<And>k opc. validate_inst limit t idom bb k opc \<noteq> None) \<Longrightarrow> validate_uses limit t idom bb is order \<noteq> None"
proof (induction "is" arbitrary: order)
  case (Cons i rest)
  then obtain n where "validate_inst limit t idom bb (order + 1) (iop i) = Some n" by blast
  then show ?case using Cons.IH[OF Cons.prems, of "order + 1"] by simp
qed simp

lemma validate_block_uses_returns:
  "(\<And>bb k opc. validate_inst limit t idom bb k opc \<noteq> None) \<Longrightarrow> validate_block_uses limit t idom f bs order \<noteq> None"
proof (induction bs arbitrary: order)
  case (Cons b bs)
  then obtain n where "validate_uses limit t idom b (insts (blocks f ! b)) order = Some n"
    using validate_uses_returns[of limit t idom b] by blast
  then show ?case using Cons.IH[OF Cons.prems] by simp
qed simp

section \<open>Blocks and edges\<close>

lemma validate_blocks_zero:
  "validate_blocks f seen bs = 0 \<Longrightarrow>
     distinct (map (block_ident f) bs) \<and> (\<forall>b \<in> set bs. block_ident f b \<notin> set seen)
     \<and> (\<forall>b \<in> set bs. block_ident f b < block_count f \<and> validate_block f b = 0
          \<and> (\<forall>p \<in> set (predecessors (blocks f ! b)). block_has_successor f p b)
          \<and> (\<forall>s \<in> set (successors (blocks f ! b)). block_has_predecessor f s b))"
proof (induction bs arbitrary: seen)
  case (Cons b bs)
  have b: "block_ident f b < block_count f" "block_ident f b \<notin> set seen" "validate_block f b = 0"
      "\<forall>p \<in> set (predecessors (blocks f ! b)). block_has_successor f p b"
      "\<forall>s \<in> set (successors (blocks f ! b)). block_has_predecessor f s b"
      "validate_blocks f (block_ident f b # seen) bs = 0"
    using Cons.prems by (auto simp: filter_empty_conv split: if_splits)
  note ih = Cons.IH[OF b(6)]
  have "\<forall>x \<in> set bs. block_ident f x \<noteq> block_ident f b \<and> block_ident f x \<notin> set seen" using ih by auto
  then show ?case using ih b(1-5) by force
qed simp

lemma insts_phi_zero:
  "validate_insts past is = 0 \<Longrightarrow> j < length is \<Longrightarrow> is_phi (iop (is ! j)) \<Longrightarrow> \<not> past \<and> (\<forall>i < j. is_phi (iop (is ! i)))"
proof (induction "is" arbitrary: past j)
  case (Cons i rest)
  show ?case
  proof (cases j)
    case (Suc m)
    have "\<not> (past \<or> \<not> is_phi (iop i)) \<and> (\<forall>l < m. is_phi (iop (rest ! l)))"
      by (rule Cons.IH) (use Cons.prems Suc in auto)
    then show ?thesis using Suc by (auto simp: less_Suc_eq_0_disj)
  qed (use Cons.prems in \<open>auto split: if_splits\<close>)
qed simp

lemma validate_phis_zero:
  "validate_phis f b is = 0 \<Longrightarrow> j < length is \<Longrightarrow> \<forall>i < j. is_phi (iop (is ! i)) \<Longrightarrow> iop (is ! j) = PHI es \<Longrightarrow>
   length es = length (cfg_preds f b) \<and> validate_edges f b es = 0"
proof (induction "is" arbitrary: j)
  case (Cons i rest)
  show ?case
  proof (cases j)
    case (Suc m)
    have "is_phi (iop i)" using Cons.prems(3) Suc by force
    then have "validate_phis f b rest = 0" using Cons.prems(1) by (cases "iop i") auto
    moreover have "\<forall>l < m. is_phi (iop (rest ! l))" using Cons.prems(3) Suc by force
    ultimately show ?thesis using Cons.IH[of m] Cons.prems(2,4) Suc by simp
  qed (use Cons.prems in \<open>auto split: if_splits\<close>)
qed simp

lemma validate_edges_zero:
  "validate_edges f b es = 0 \<Longrightarrow> distinct (map fst es) \<and> set (map fst es) \<subseteq> Some ` set (cfg_preds f b)"
proof (induction es)
  case (Cons edge es)
  obtain p v where e: "edge = (p, v)" by fastforce
  have "validate_edges f b es = 0" using Cons.prems e by simp
  moreover obtain q where "p = Some q" using Cons.prems e by (cases p) auto
  moreover have "q \<in> set (cfg_preds f b)" "Some q \<notin> set (map fst es)"
    using Cons.prems e calculation(2) by (auto simp: block_has_predecessor_def filter_empty_conv split: if_splits)
  ultimately show ?case using Cons.IH e by simp
qed simp

section \<open>Acceptance\<close>

text \<open>The handles: a block's edges lead to blocks of the function.\<close>

definition edges_closed :: "MirFunction \<Rightarrow> bool" where
  "edges_closed f \<longleftrightarrow> (\<forall>e. entry_block f = Some e \<longrightarrow> e \<in> set (block_list f)) \<and> block_count f \<le> MAX_BLOCKS
     \<and> (\<forall>b \<in> set (block_list f). set (cfg_succs f b) \<subseteq> set (block_list f) \<and> set (cfg_preds f b) \<subseteq> set (block_list f))"

lemma validate_cfg_wf:
  assumes v: "validate_blocks f [] (block_list f) = 0" and c: "edges_closed f" and e: "entry_block f = Some e"
  shows "cfg_wf f e"
proof -
  note z = validate_blocks_zero[OF v]
  have "a \<in> set (cfg_preds f b) \<longleftrightarrow> b \<in> set (cfg_succs f a)" if "a \<in> set (block_list f)" "b \<in> set (block_list f)" for a b
    using z that unfolding block_has_successor_def block_has_predecessor_def by blast
  moreover have "block_ident f b < MAX_BLOCKS" if "b \<in> set (block_list f)" for b
    using z c that unfolding edges_closed_def by fastforce
  ultimately show ?thesis using z c e unfolding cfg_wf_def edges_closed_def by blast
qed

lemma accepted:
  assumes ok: "mir_validate_function f d0 = Some (True, d)"
  obtains e limit t where "entry_block f = Some e" "cfg_preds f e = []" "validate_blocks f [] (block_list f) = 0"
    "limit = sint (next_value_id f)"
    "block_defs f limit (block_list f) 0 (param_defs limit e (params f) (no_defs, 0)) = (t, 0)"
    "duplicate_defs limit t = 0"
    "mir_compute_dominators f d0 = Some d" "validate_block_uses limit t (idom_of d) f (block_list f) 0 = Some 0"
proof -
  obtain e where e: "entry_block f = Some e" using ok by (auto simp: mir_validate_function_def split: option.splits)
  define limit where "limit = (if sint (next_value_id f) < 1 then 1 else sint (next_value_id f))"
  obtain t n where t: "block_defs f limit (block_list f) 0 (param_defs limit e (params f) (no_defs, 0)) = (t, n)" by fastforce
  have *: "(case mir_compute_dominators f d0 of None \<Rightarrow> None
      | Some d1 \<Rightarrow> (case validate_block_uses limit t (idom_of d1) f (block_list f) 0 of
                      None \<Rightarrow> None
                    | Some errors3 \<Rightarrow> Some ((if sint (next_value_id f) < 1 then 1 else 0) + (if cfg_preds f e \<noteq> [] then 1 else 0)
                          + validate_blocks f [] (block_list f) + n + duplicate_defs limit t + errors3 = 0, d1)))
      = Some (True, d)"
    using ok e t unfolding mir_validate_function_def Let_def limit_def[symmetric]
    by (cases "block_count f = 0") simp_all
  obtain d1 where d1: "mir_compute_dominators f d0 = Some d1" using * by (auto split: option.splits)
  obtain k where k: "validate_block_uses limit t (idom_of d1) f (block_list f) 0 = Some k"
    using * d1 by (auto split: option.splits)
  have "d1 = d" "(if sint (next_value_id f) < 1 then 1 else 0) + (if cfg_preds f e \<noteq> [] then 1 else 0)
          + validate_blocks f [] (block_list f) + n + duplicate_defs limit t + k = 0"
    using * unfolding d1 option.case k by simp_all
  then show thesis using that[OF e _ _ _ _ _ _ , of limit t] t d1 k by (auto simp: limit_def split: if_splits)
qed

text \<open>Where the table says a value is defined.\<close>

definition defined_at :: "MirFunction \<Rightarrow> bref \<Rightarrow> MirValueId \<Rightarrow> bref \<Rightarrow> int \<Rightarrow> bool" where
  "defined_at f e v b k \<longleftrightarrow>
     (b = e \<and> v \<in> value_id ` set (params f))
     \<or> (\<exists>o' j. (b, o') \<in> set (block_starts f (block_list f) 0) \<and> j < length (insts (blocks f ! b))
          \<and> result (insts (blocks f ! b) ! j) = v \<and> k = o' + int j + 1)"

lemma table_defined_at:
  assumes "block_defs f limit (block_list f) 0 (param_defs limit e (params f) (no_defs, 0)) = (t, n)"
  shows "table_ok (defined_at f e) t"
proof -
  have "table_ok (defined_at f e) (fst (no_defs, 0 :: nat))" by (simp add: table_ok_def no_defs_def)
  then have "table_ok (defined_at f e) (fst (param_defs limit e (params f) (no_defs, 0)))"
    by (rule param_defs_ok) (simp add: defined_at_def)
  then have "table_ok (defined_at f e) (fst (block_defs f limit (block_list f) 0 (param_defs limit e (params f) (no_defs, 0))))"
    by (rule block_defs_ok) (auto simp: defined_at_def)
  then show ?thesis using assms by simp
qed

text \<open>A value is defined in a block: by a parameter in the entry, or by one of the first \<open>n\<close> instructions.\<close>

definition sets_value :: "MirFunction \<Rightarrow> bref \<Rightarrow> bref \<Rightarrow> nat \<Rightarrow> MirValueId \<Rightarrow> bool" where
  "sets_value f e b n v \<longleftrightarrow> (b = e \<and> v \<in> value_id ` set (params f)) \<or> v \<in> result ` set (take n (insts (blocks f ! b)))"

lemma sets_value_all: "defined_at f e v b k \<Longrightarrow> sets_value f e b (length (insts (blocks f ! b))) v"
  by (auto simp: defined_at_def sets_value_def)

lemma sets_value_before:
  assumes d: "defined_at f e v b k" and s: "(b, o') \<in> set (block_starts f (block_list f) 0)" "distinct (block_list f)"
    and k: "k < o' + int n + 1" and n: "n < length (insts (blocks f ! b))"
  shows "sets_value f e b n v"
proof (cases "b = e \<and> v \<in> value_id ` set (params f)")
  case False
  then obtain o'' j where j: "(b, o'') \<in> set (block_starts f (block_list f) 0)" "j < length (insts (blocks f ! b))"
      "result (insts (blocks f ! b) ! j) = v" "k = o'' + int j + 1"
    using d unfolding defined_at_def by blast
  have "distinct (map fst (block_starts f (block_list f) 0))" using s(2) by (simp add: block_starts_fst)
  then have "o'' = o'" using j(1) s(1) by (metis eq_key_imp_eq_value)
  then have "j < n" using j(4) k by simp
  then have "take n (insts (blocks f ! b)) ! j = insts (blocks f ! b) ! j" "j < length (take n (insts (blocks f ! b)))"
    using n by auto
  then have "v \<in> result ` set (take n (insts (blocks f ! b)))" using j(3) nth_mem by (metis imageI)
  then show ?thesis by (simp add: sets_value_def)
qed (simp add: sets_value_def)

lemma block_starts_mem: "b \<in> set bs \<Longrightarrow> \<exists>o'. (b, o') \<in> set (block_starts f bs order)"
  by (induction bs arbitrary: order) auto

section \<open>The guarantees\<close>

definition fresh_tree :: "MirFunction \<Rightarrow> DomInfo \<Rightarrow> bool" where
  "fresh_tree f d \<longleftrightarrow> (\<forall>e b. entry_block f = Some e \<longrightarrow> \<not> reaches (cfg_succs f) e b \<longrightarrow> idom_of d b = None)"

lemma fresh_tree_init: "fresh_tree f dom_init"
  by (simp add: fresh_tree_def dom_init_def)

lemma accepted_facts:
  assumes ok: "mir_validate_function f d0 = Some (True, d)" and c: "edges_closed f" and fr: "fresh_tree f d0"
    and e: "entry_block f = Some e"
  obtains limit t where "validate_blocks f [] (block_list f) = 0" "cfg_wf f e" "table_ok (defined_at f e) t"
    "validate_block_uses limit t (idom_of d) f (block_list f) 0 = Some 0"
    "\<And>a b. reaches (cfg_succs f) e b \<Longrightarrow> block_dominates (idom_of d) a (Some b) = Some (dominates (cfg_succs f) e a b)"
proof -
  obtain e' limit t where a: "entry_block f = Some e'" "validate_blocks f [] (block_list f) = 0"
      "block_defs f limit (block_list f) 0 (param_defs limit e' (params f) (no_defs, 0)) = (t, 0)"
      "mir_compute_dominators f d0 = Some d" "validate_block_uses limit t (idom_of d) f (block_list f) 0 = Some 0"
    by (rule accepted[OF ok])
  have e': "e' = e" using a(1) e by simp
  have w: "cfg_wf f e" by (rule validate_cfg_wf[OF a(2) c e])
  have "idom_of d0 b = None" if "\<not> reaches (cfg_succs f) e b" for b using fr e that by (simp add: fresh_tree_def)
  then have t: "exact_tree (cfg_succs f) e (idom_of d)" using compute_dominators_ok[OF w, of d0] a(4) by force
  obtain bs where o: "rpo_order (rpo_map (block_ident f) (e # bs)) (cfg_succs f) (cfg_preds f) e bs"
    using compute_rpo_order[OF cfg_wf_graph_ok[OF w]] by blast
  show thesis
    by (rule that[OF a(2) w table_defined_at a(5) block_dominates_exact[OF o t]]) (use a(3) e' in simp)
qed

text \<open>
  C11: When the validator accepts a function, every use is preceded by its definition on every execution:
  along any path from the entry to a block, each operand of an instruction that the validator
  checks is a parameter, the result of an earlier instruction of the block, or the result of an
  instruction of another block on the path.
\<close>

theorem validated_defs_before_uses:
  assumes ok: "mir_validate_function f d0 = Some (True, d)" and c: "edges_closed f" and fr: "fresh_tree f d0"
    and e: "entry_block f = Some e" and p: "cfg_path (cfg_succs f) e xs b"
    and k: "k < length (insts (blocks f ! b))" and v: "v \<in> set (validate_operands (iop (insts (blocks f ! b) ! k)))"
    and nz: "v \<noteq> MIR_VALUE_NONE"
  shows "sets_value f e b k v \<or> (\<exists>c \<in> set xs. c \<noteq> b \<and> sets_value f e c (length (insts (blocks f ! c))) v)"
proof -
  obtain limit t where w: "cfg_wf f e" and t: "table_ok (defined_at f e) t"
    and u: "validate_block_uses limit t (idom_of d) f (block_list f) 0 = Some 0"
    and dom: "\<And>a b. reaches (cfg_succs f) e b \<Longrightarrow> block_dominates (idom_of d) a (Some b) = Some (dominates (cfg_succs f) e a b)"
    by (rule accepted_facts[OF ok c fr e]) (rule that; assumption)
  have rb: "reaches (cfg_succs f) e b" using p by (auto simp: reaches_def)
  have "b \<in> set (block_list f)" by (rule cfg_wf_reaches[OF w rb])
  then obtain o' where s: "(b, o') \<in> set (block_starts f (block_list f) 0)"
    using block_starts_mem by blast
  have dl: "distinct (block_list f)" using w by (auto simp: cfg_wf_def distinct_map)
  have not_phi: "\<not> is_phi (iop (insts (blocks f ! b) ! k))" using v by (cases "iop (insts (blocks f ! b) ! k)") auto
  have "validate_inst limit t (idom_of d) b (o' + int k + 1) (iop (insts (blocks f ! b) ! k)) = Some 0"
    by (rule validate_uses_zero[OF validate_block_uses_zero[OF u s] k])
  then have "add_errors (map (validate_use limit t (idom_of d) b (o' + int k + 1))
      (validate_operands (iop (insts (blocks f ! b) ! k)))) = Some 0"
    using not_phi by (cases "iop (insts (blocks f ! b) ! k)") (auto simp: validate_inst_def)
  then have use: "validate_use limit t (idom_of d) b (o' + int k + 1) v = Some 0"
    using add_errors_zero v by fastforce
  then have "def_count t v \<noteq> 0" using nz by (auto simp: validate_use_def split: if_splits)
  then obtain c where c: "value_block t v = Some c" "defined_at f e v c (value_order t v)"
    using t by (auto simp: table_ok_def)
  show ?thesis
  proof (cases "c = b")
    case True
    then have "value_order t v < o' + int k + 1"
      using use nz c(1) \<open>def_count t v \<noteq> 0\<close> by (auto simp: validate_use_def split: if_splits)
    then show ?thesis using sets_value_before[OF _ s dl _ k] c(2) True by blast
  next
    case False
    then have "block_dominates (idom_of d) c (Some b) = Some True"
      using use nz c(1) \<open>def_count t v \<noteq> 0\<close> by (auto simp: validate_use_def err_zero split: if_splits)
    then have "dominates (cfg_succs f) e c b" using dom[OF rb] by simp
    then have "c \<in> set xs" using p by (simp add: dominates_def)
    then show ?thesis using sets_value_all[OF c(2)] False by blast
  qed
qed

text \<open>
  C12: In a function the validator accepts, a phi at the head of a block has exactly one edge for each
  predecessor, and the value of an edge is defined on every path to the predecessor it comes from.
\<close>

theorem validated_phi_edges:
  assumes ok: "mir_validate_function f d0 = Some (True, d)" and c: "edges_closed f" and fr: "fresh_tree f d0"
    and e: "entry_block f = Some e" and b: "b \<in> set (block_list f)"
    and k: "k < length (insts (blocks f ! b))" and phi: "iop (insts (blocks f ! b) ! k) = PHI es"
  shows "distinct (map fst es) \<and> set (map fst es) = Some ` set (cfg_preds f b) \<and> distinct (cfg_preds f b)
     \<and> (\<forall>p v xs. (Some p, v) \<in> set es \<longrightarrow> v \<noteq> MIR_VALUE_NONE \<longrightarrow> cfg_path (cfg_succs f) e xs p \<longrightarrow>
          (\<exists>c \<in> set xs. sets_value f e c (length (insts (blocks f ! c))) v))"
proof -
  obtain limit t where vb0: "validate_blocks f [] (block_list f) = 0" and t: "table_ok (defined_at f e) t"
    and u: "validate_block_uses limit t (idom_of d) f (block_list f) 0 = Some 0"
    and dom: "\<And>a b. reaches (cfg_succs f) e b \<Longrightarrow> block_dominates (idom_of d) a (Some b) = Some (dominates (cfg_succs f) e a b)"
    by (rule accepted_facts[OF ok c fr e]) (rule that; assumption)
  have vb: "validate_block f b = 0" using validate_blocks_zero[OF vb0] b by blast
  have es: "length es = length (cfg_preds f b)" "validate_edges f b es = 0"
    using validate_phis_zero[of f b "insts (blocks f ! b)" k es] insts_phi_zero[of False "insts (blocks f ! b)" k] vb k phi
    by (auto simp: validate_block_def Let_def)
  note ed = validate_edges_zero[OF es(2)]
  have "card (set (map fst es)) = length (cfg_preds f b)" using distinct_card[of "map fst es"] ed es(1) by simp
  moreover have "card (Some ` set (cfg_preds f b)) = card (set (cfg_preds f b))" by (simp add: card_image)
  ultimately have "set (map fst es) = Some ` set (cfg_preds f b)" "card (set (cfg_preds f b)) = length (cfg_preds f b)"
    using ed card_seteq[of "Some ` set (cfg_preds f b)" "set (map fst es)"] card_length[of "cfg_preds f b"]
      card_mono[of "Some ` set (cfg_preds f b)" "set (map fst es)"] by auto
  moreover have "\<exists>c \<in> set xs. sets_value f e c (length (insts (blocks f ! c))) v"
    if m: "(Some p, v) \<in> set es" and nz: "v \<noteq> MIR_VALUE_NONE" and p: "cfg_path (cfg_succs f) e xs p" for p v xs
  proof -
    obtain o' where s: "(b, o') \<in> set (block_starts f (block_list f) 0)"
      using block_starts_mem b by blast
    have "validate_inst limit t (idom_of d) b (o' + int k + 1) (PHI es) = Some 0"
      using validate_uses_zero[OF validate_block_uses_zero[OF u s] k] phi by simp
    then have "add_errors (map (validate_incoming limit t (idom_of d)) es) = Some 0" by (simp add: validate_inst_def)
    then have inc: "validate_incoming limit t (idom_of d) (Some p, v) = Some 0" using add_errors_zero m by fastforce
    then have dc: "def_count t v \<noteq> 0" using nz by (auto simp: validate_incoming_def split: if_splits)
    then obtain c where c: "value_block t v = Some c" "defined_at f e v c (value_order t v)"
      using t by (auto simp: table_ok_def)
    then have "block_dominates (idom_of d) c (Some p) = Some True"
      using inc nz dc by (auto simp: validate_incoming_def err_zero split: if_splits)
    moreover have "reaches (cfg_succs f) e p" using p by (auto simp: reaches_def)
    ultimately have "dominates (cfg_succs f) e c p" using dom by simp
    then show ?thesis using p sets_value_all[OF c(2)] by (auto simp: dominates_def)
  qed
  ultimately show ?thesis using ed card_distinct[of "cfg_preds f b"] by blast
qed

text \<open>The validator returns on every function with a consistent control-flow graph.\<close>

theorem validate_returns:
  assumes w: "cfg_wf f e"
  shows "mir_validate_function f dom_init \<noteq> None"
proof -
  obtain d where d: "mir_compute_dominators f dom_init = Some d" "exact_tree (cfg_succs f) e (idom_of d)"
    using compute_dominators_ok[OF w, of dom_init] by (auto simp: dom_init_def)
  obtain bs where o: "rpo_order (rpo_map (block_ident f) (e # bs)) (cfg_succs f) (cfg_preds f) e bs"
    using compute_rpo_order[OF cfg_wf_graph_ok[OF w]] by blast
  note r = block_dominates_returns[OF o d(2)]
  have "validate_use limit t (idom_of d) bb k v \<noteq> None" for limit t bb k v
    using r by (auto simp: validate_use_def err_def split: option.splits)
  then have n1: "None \<notin> set (map (validate_use limit t (idom_of d) bb k) vs)" for limit t bb k vs by (metis (no_types) imageE list.set_map)
  have "validate_incoming limit t (idom_of d) q \<noteq> None" for limit t q
    using r by (auto simp: validate_incoming_def err_def split: option.splits prod.splits)
  then have n2: "None \<notin> set (map (validate_incoming limit t (idom_of d)) qs)" for limit t qs by (metis (no_types) imageE list.set_map)
  have "validate_inst limit t (idom_of d) bb k opc \<noteq> None" for limit t bb k opc
    by (cases opc) (simp_all only: validate_inst_def MirOp.case add_errors_returns[OF n1] add_errors_returns[OF n2] simp_thms not_False_eq_True)
  note u = validate_block_uses_returns[OF this]
  obtain t n where t: "block_defs f (if sint (next_value_id f) < 1 then 1 else sint (next_value_id f)) (block_list f) 0
      (param_defs (if sint (next_value_id f) < 1 then 1 else sint (next_value_id f)) e (params f) (no_defs, 0)) = (t, n)" by fastforce
  obtain m where "validate_block_uses (if sint (next_value_id f) < 1 then 1 else sint (next_value_id f)) t (idom_of d) f (block_list f) 0 = Some m"
    using u by blast
  moreover have "entry_block f = Some e" using w by (simp add: cfg_wf_def)
  ultimately show ?thesis
    unfolding mir_validate_function_def Let_def using d(1) t by (cases "block_count f = 0") simp_all
qed

section \<open>An accepted loop\<close>

text \<open>Counts from the constant 0 up to the parameter \<open>%1\<close>.\<close>

definition ssa_function :: MirFunction where
  "ssa_function = demo_function\<lparr>params := [\<lparr>pname = ''n'', ptype = Some 0, value_id = 1\<rparr>],
     entry_block := Some 0, block_list := [0, 1, 2, 3], block_count := 4, next_value_id := 6, value_types := replicate 8 (Some 0),
     blocks :=
       [(loop_block 0 [] [1])\<lparr>insts := [\<lparr>iop = CONST_INT 0, result = 2, itype = Some 0\<rparr>,
                                      \<lparr>iop = BR (Some 1), result = 0, itype = None\<rparr>]\<rparr>,
        (loop_block 1 [0, 2] [2, 3])\<lparr>insts := [\<lparr>iop = PHI [(Some 0, 2), (Some 2, 4)], result = 3, itype = Some 0\<rparr>,
                                      \<lparr>iop = BINARY MIR_CMP_LT 3 1, result = 5, itype = Some 0\<rparr>,
                                      \<lparr>iop = CONDBR 5 (Some 2) (Some 3), result = 0, itype = None\<rparr>]\<rparr>,
        (loop_block 2 [1] [1])\<lparr>insts := [\<lparr>iop = BINARY MIR_ADD 3 2, result = 4, itype = Some 0\<rparr>,
                                      \<lparr>iop = BR (Some 1), result = 0, itype = None\<rparr>]\<rparr>,
        (loop_block 3 [1] [])\<lparr>insts := [\<lparr>iop = RET 3, result = 0, itype = None\<rparr>]\<rparr>]\<rparr>"

lemma ssa_accepted: "map_option fst (mir_validate_function ssa_function dom_init) = Some True"
  by code_simp

lemma ssa_cfg: "cfg_wf ssa_function 0"
  by code_simp

lemma ssa_fields:
  "entry_block ssa_function = Some 0" "block_list ssa_function = [0, 1, 2, 3]" "block_count ssa_function = 4"
  "cfg_succs ssa_function 0 = [1]" "cfg_succs ssa_function (Suc 0) = [2, 3]" "cfg_succs ssa_function 2 = [1]"
  "insts (blocks ssa_function ! 2) = [\<lparr>iop = BINARY MIR_ADD 3 2, result = 4, itype = Some 0\<rparr>,
     \<lparr>iop = BR (Some 1), result = 0, itype = None\<rparr>]"
  "iop (insts (blocks ssa_function ! 1) ! 0) = PHI [(Some 0, 2), (Some 2, 4)]"
  "length (insts (blocks ssa_function ! 1)) = 3"
  by (simp_all add: ssa_function_def loop_block_def demo_function_def)

lemma ssa_closed: "edges_closed ssa_function"
  using ssa_cfg unfolding edges_closed_def cfg_wf_def by (simp add: ssa_fields(1,3) MAX_BLOCKS_def)

lemma ssa_path: "cfg_path (cfg_succs ssa_function) 0 [0, 1, 2] 2"
proof -
  have e: "1 \<in> set (cfg_succs ssa_function 0)" "2 \<in> set (cfg_succs ssa_function 1)"
    by (simp_all add: ssa_fields)
  have "cfg_path (cfg_succs ssa_function) 0 ([0] @ [1]) 1"
    by (rule cfg_path.step[where succ = "cfg_succs ssa_function", OF cfg_path.start e(1)])
  then have "cfg_path (cfg_succs ssa_function) 0 (([0] @ [1]) @ [2]) 2"
    by (rule cfg_path.step[where succ = "cfg_succs ssa_function", OF _ e(2)])
  then show ?thesis by simp
qed

lemma ssa_dom: "\<exists>d. mir_validate_function ssa_function dom_init = Some (True, d)"
  using ssa_accepted by fastforce

theorem validated_defs_before_uses_witness:
  "edges_closed ssa_function \<and> cfg_path (cfg_succs ssa_function) 0 [0, 1, 2] 2
   \<and> (sets_value ssa_function 0 2 0 3
      \<or> (\<exists>c \<in> set [0, 1, 2]. c \<noteq> 2 \<and> sets_value ssa_function 0 c (length (insts (blocks ssa_function ! c))) 3))"
proof -
  obtain d where d: "mir_validate_function ssa_function dom_init = Some (True, d)" using ssa_dom by blast
  show ?thesis
    using validated_defs_before_uses[OF d ssa_closed fresh_tree_init ssa_fields(1) ssa_path, of 0 3] ssa_closed ssa_path
    by (simp add: ssa_fields(7))
qed

theorem validated_phi_edges_witness:
  "set (map fst [(Some (0::bref), 2::MirValueId), (Some 2, 4)]) = Some ` set (cfg_preds ssa_function 1)
   \<and> (\<exists>c \<in> set [0, 1, 2]. sets_value ssa_function 0 c (length (insts (blocks ssa_function ! c))) 4)"
proof -
  obtain d where d: "mir_validate_function ssa_function dom_init = Some (True, d)" using ssa_dom by blast
  have k: "0 < length (insts (blocks ssa_function ! 1))" "1 \<in> set (block_list ssa_function)"
    unfolding ssa_fields(2,9) by simp_all
  note r = validated_phi_edges[OF d ssa_closed fresh_tree_init ssa_fields(1) k(2,1) ssa_fields(8)]
  have "(Some 2, 4) \<in> set [(Some (0::bref), 2::MirValueId), (Some 2, 4)]" "(4::MirValueId) \<noteq> MIR_VALUE_NONE" by simp_all
  then show ?thesis using r ssa_path by blast
qed

theorem validate_returns_witness: "cfg_wf ssa_function 0 \<and> mir_validate_function ssa_function dom_init \<noteq> None"
  using validate_returns[OF ssa_cfg] ssa_cfg by blast

end
