(* ===== verification/Mir_Mem2reg.thy ===== *)
theory Mir_Mem2reg
  imports Mir_Validate Mir_Opt
begin

text \<open>
  Promotion of stack slots to values: the second part of \<^verbatim>\<open>src/compiler/ir/mir_mem2reg.c\<close>.  A
  pointer to a phi instruction is the value id of its result, an array indexed by block id a function
  of the id.
\<close>

section \<open>Which slots can be promoted\<close>

definition MAX_ALLOCAS :: nat where
  "MAX_ALLOCAS = 1024"

text \<open>
  The uses for which the scan gives up.  A store through the pointer is looked at first: it is not an
  escape, whatever it stores.  An opcode the inner switch does not list, here \<^verbatim>\<open>MIR_SWITCH\<close>, always is.
\<close>

fun use_escapes :: "MirValueId \<Rightarrow> MirOp \<Rightarrow> bool" where
  "use_escapes ptr (LOAD p) = False"
| "use_escapes ptr (STORE p v) = (p \<noteq> ptr \<and> v = ptr)"
| "use_escapes ptr (CALL n as c) = (ptr \<in> set as)"
| "use_escapes ptr (CALL_INDIRECT n as c) = (ptr \<in> set as \<or> c = ptr)"
| "use_escapes ptr (CALL_VIRTUAL s k as) = (ptr \<in> set as \<or> s = ptr)"
| "use_escapes ptr (GET_FIELD_PTR b i x) = (b = ptr)"
| "use_escapes ptr (GET_ELEM_PTR b i x) = (b = ptr)"
| "use_escapes ptr (STRUCT_INIT fs) = (ptr \<in> set fs)"
| "use_escapes ptr (INSERT a i v) = (v = ptr \<or> a = ptr)"
| "use_escapes ptr (EXTRACT a i) = (a = ptr)"
| "use_escapes ptr (VEC p a b c w t) = (a = ptr \<or> b = ptr \<or> c = ptr)"
| "use_escapes ptr (SUSPEND b x) = True"
| "use_escapes ptr (BINARY p l r) = (l = ptr \<or> r = ptr)"
| "use_escapes ptr (UNARY p x t) = (x = ptr)"
| "use_escapes ptr (CONDBR c t f) = (c = ptr)"
| "use_escapes ptr (RET v) = (v = ptr)"
| "use_escapes ptr (TRANSFER p s) = (s = ptr)"
| "use_escapes ptr (REFOP p x) = (x = ptr)"
| "use_escapes ptr (SWITCH d cs df) = True"
| "use_escapes ptr _ = False"

record PromotableAlloca =
  alloca_val :: MirValueId
  alloc_type :: MirTypeP
  def_blocks :: "bref list"

text \<open>The scan over all instructions but the alloca itself, collecting the blocks that store.\<close>

fun scan_uses :: "MirFunction \<Rightarrow> MirValueId \<Rightarrow> bref \<times> nat \<Rightarrow> (bref \<times> nat) list \<Rightarrow> bref list \<Rightarrow> bref list option" where
  "scan_uses f ptr self [] defs = Some defs"
| "scan_uses f ptr self ((b, k) # ps) defs =
     (if (b, k) = self then scan_uses f ptr self ps defs
      else if use_escapes ptr (iop (inst_at f b k)) then None
      else (case iop (inst_at f b k) of
              STORE p v \<Rightarrow> scan_uses f ptr self ps (if p = ptr \<and> b \<notin> set defs then defs @ [b] else defs)
            | _ \<Rightarrow> scan_uses f ptr self ps defs))"

definition scalar_kind :: "MirTypeKind \<Rightarrow> bool" where
  "scalar_kind k \<longleftrightarrow> k \<noteq> MIR_TYPE_STRUCT \<and> k \<noteq> MIR_TYPE_ARRAY \<and> k \<noteq> MIR_TYPE_AGGREGATE \<and> k \<noteq> MIR_TYPE_SLICE"

definition is_promotable :: "MirType list \<Rightarrow> MirFunction \<Rightarrow> bref \<times> nat \<Rightarrow> PromotableAlloca option" where
  "is_promotable c f pos =
     (case pos of (b, k) \<Rightarrow>
        (case iop (inst_at f b k) of
           ALLOCA ty n \<Rightarrow>
             if n \<noteq> 1 then None
             else (case ty of
                     None \<Rightarrow> None
                   | Some t \<Rightarrow>
                       if \<not> scalar_kind (ty_kind (c ! t)) then None
                       else map_option (\<lambda>defs. \<lparr>alloca_val = result (inst_at f b k), alloc_type = ty, def_blocks = defs\<rparr>)
                              (scan_uses f (result (inst_at f b k)) pos (positions f) []))
         | _ \<Rightarrow> None))"

fun find_promotable :: "MirType list \<Rightarrow> MirFunction \<Rightarrow> (bref \<times> nat) list \<Rightarrow> PromotableAlloca list \<Rightarrow> PromotableAlloca list" where
  "find_promotable c f [] acc = acc"
| "find_promotable c f (pos # ps) acc =
     (if length acc \<ge> MAX_ALLOCAS then find_promotable c f ps acc
      else case is_promotable c f pos of
             None \<Rightarrow> find_promotable c f ps acc
           | Some p \<Rightarrow> find_promotable c f ps (acc @ [p]))"

section \<open>Placing phis\<close>

definition insert_phi :: "MirFunction \<Rightarrow> bref \<Rightarrow> MirTypeP \<Rightarrow> MirFunction \<times> MirValueId" where
  "insert_phi f bb ty =
     (let (f1, v) = mir_function_new_value f ty
      in (upd_block f1 bb (\<lambda>blk.
            let n = length (takeWhile (\<lambda>i. is_phi (iop i)) (insts blk))
            in blk\<lparr>insts := take n (insts blk) @ \<lparr>iop = PHI [], result = v, itype = ty\<rparr> # drop n (insts blk),
                   inst_count := inst_count blk + 1\<rparr>), v))"

text \<open>
  \<^verbatim>\<open>has_phi\<close> and \<^verbatim>\<open>in_worklist\<close> are the ids that are set; the top of the worklist is its head.
\<close>

record IdfState =
  idf_func :: MirFunction
  phi_map :: "nat \<Rightarrow> MirValueId option"
  has_phi :: "nat list"
  in_worklist :: "nat list"
  worklist :: "bref list"
  idf_count :: nat

definition place_phi :: "MirTypeP \<Rightarrow> bref \<Rightarrow> IdfState \<Rightarrow> IdfState" where
  "place_phi ty dfb s =
     (let i = block_ident (idf_func s) dfb
      in if i \<in> set (has_phi s) then s
         else let (f1, v) = insert_phi (idf_func s) dfb ty
              in s\<lparr>idf_func := f1, phi_map := (phi_map s)(i := Some v), has_phi := i # has_phi s,
                   in_worklist := (if i \<in> set (in_worklist s) then in_worklist s else i # in_worklist s),
                   worklist := (if i \<in> set (in_worklist s) then worklist s else dfb # worklist s),
                   idf_count := idf_count s + 1\<rparr>)"

partial_function (option) idf_loop :: "(bref \<Rightarrow> bref list) \<Rightarrow> MirTypeP \<Rightarrow> IdfState \<Rightarrow> IdfState option" where
  "idf_loop df ty s =
     (case worklist s of
        [] \<Rightarrow> Some s
      | bb # wl \<Rightarrow> idf_loop df ty (foldl (\<lambda>s dfb. place_phi ty dfb s) (s\<lparr>worklist := wl\<rparr>) (df bb)))"

declare idf_loop.simps [code]

definition seed_worklist :: "MirFunction \<Rightarrow> bref list \<Rightarrow> IdfState" where
  "seed_worklist f defs =
     foldl (\<lambda>s db. if block_ident f db \<in> set (in_worklist s) then s
                   else s\<lparr>worklist := db # worklist s, in_worklist := block_ident f db # in_worklist s\<rparr>)
       \<lparr>idf_func = f, phi_map = (\<lambda>i. None), has_phi = [], in_worklist = [], worklist = [], idf_count = 0\<rparr> defs"

section \<open>Renaming\<close>

text \<open>The top of a value stack is the head of the list.\<close>

record AllocaRenameCtx =
  ctx_alloca :: MirValueId
  stack :: "MirValueId list"
  phi_for_block :: "nat \<Rightarrow> MirValueId option"
  phi_map_cap :: nat

definition vs_push :: "AllocaRenameCtx \<Rightarrow> MirValueId \<Rightarrow> AllocaRenameCtx" where
  "vs_push c v = c\<lparr>stack := v # stack c\<rparr>"

definition vs_top :: "AllocaRenameCtx \<Rightarrow> MirValueId" where
  "vs_top c = (case stack c of [] \<Rightarrow> MIR_VALUE_NONE | v # vs \<Rightarrow> v)"

record MirMem2RegStats =
  allocas_promoted :: nat
  loads_eliminated :: nat
  stores_eliminated :: nat
  phis_inserted :: nat

record RenameState =
  ren_func :: MirFunction
  ren_ctxs :: "AllocaRenameCtx list"
  ren_stats :: MirMem2RegStats

definition phi_of :: "AllocaRenameCtx \<Rightarrow> nat \<Rightarrow> MirValueId option" where
  "phi_of c i = (if i < phi_map_cap c then phi_for_block c i else None)"

definition push_phi :: "nat \<Rightarrow> AllocaRenameCtx \<Rightarrow> AllocaRenameCtx" where
  "push_phi i c = (case phi_of c i of None \<Rightarrow> c | Some v \<Rightarrow> vs_push c v)"

text \<open>The switch of the replacement loop: the callee of a direct call, the index of a field access and the
  operand of a suspension are left alone.\<close>

fun rename_in_op :: "MirValueId \<Rightarrow> MirValueId \<Rightarrow> MirOp \<Rightarrow> MirOp" where
  "rename_in_op o' n (BINARY p l r) = BINARY p (subst_id o' n l) (subst_id o' n r)"
| "rename_in_op o' n (UNARY p x t) = UNARY p (subst_id o' n x) t"
| "rename_in_op o' n (LOAD p) = LOAD (subst_id o' n p)"
| "rename_in_op o' n (STORE p v) = STORE (subst_id o' n p) (subst_id o' n v)"
| "rename_in_op o' n (CONDBR c t f) = CONDBR (subst_id o' n c) t f"
| "rename_in_op o' n (RET v) = RET (subst_id o' n v)"
| "rename_in_op o' n (CALL nm as c) = CALL nm (map (subst_id o' n) as) c"
| "rename_in_op o' n (CALL_INDIRECT nm as c) = CALL_INDIRECT nm (map (subst_id o' n) as) (subst_id o' n c)"
| "rename_in_op o' n (CALL_VIRTUAL s k as) = CALL_VIRTUAL (subst_id o' n s) k (map (subst_id o' n) as)"
| "rename_in_op o' n (TRANSFER p s) = TRANSFER p (subst_id o' n s)"
| "rename_in_op o' n (REFOP p x) = REFOP p (subst_id o' n x)"
| "rename_in_op o' n (PHI es) = PHI (map (\<lambda>(b, v). (b, subst_id o' n v)) es)"
| "rename_in_op o' n (SWITCH d cs df) = SWITCH (subst_id o' n d) cs df"
| "rename_in_op o' n (STRUCT_INIT fs) = STRUCT_INIT (map (subst_id o' n) fs)"
| "rename_in_op o' n (EXTRACT a i) = EXTRACT (subst_id o' n a) i"
| "rename_in_op o' n (INSERT a i v) = INSERT (subst_id o' n a) i (subst_id o' n v)"
| "rename_in_op o' n (GET_FIELD_PTR b i x) = GET_FIELD_PTR (subst_id o' n b) i x"
| "rename_in_op o' n (GET_ELEM_PTR b i x) = GET_ELEM_PTR (subst_id o' n b) i (subst_id o' n x)"
| "rename_in_op o' n (VEC p a b c w t) = VEC p (subst_id o' n a) (subst_id o' n b) (subst_id o' n c) w t"
| "rename_in_op o' n p = p"

definition rename_uses :: "MirFunction \<Rightarrow> MirValueId \<Rightarrow> MirValueId \<Rightarrow> MirFunction" where
  "rename_uses f old new =
     foldl (\<lambda>g b. upd_block g b (map_insts (\<lambda>i. i\<lparr>iop := rename_in_op old new (iop i)\<rparr>))) f (block_list f)"

definition ctx_index :: "AllocaRenameCtx list \<Rightarrow> MirValueId \<Rightarrow> nat option" where
  "ctx_index cs p = find_index (\<lambda>c. ctx_alloca c = p) cs"

text \<open>One load or store.  The load itself, which the replacement skips, is unlinked right after it.\<close>

definition rename_load :: "bref \<Rightarrow> nat \<Rightarrow> nat \<Rightarrow> RenameState \<Rightarrow> RenameState" where
  "rename_load b k a s =
     s\<lparr>ren_func := upd_block (rename_uses (ren_func s) (result (inst_at (ren_func s) b k)) (vs_top (ren_ctxs s ! a))) b
                     (\<lambda>blk. remove_inst blk k),
       ren_stats := (ren_stats s)\<lparr>loads_eliminated := loads_eliminated (ren_stats s) + 1\<rparr>\<rparr>"

definition rename_store :: "bref \<Rightarrow> nat \<Rightarrow> nat \<Rightarrow> MirValueId \<Rightarrow> RenameState \<Rightarrow> RenameState" where
  "rename_store b k a v s =
     s\<lparr>ren_func := upd_block (ren_func s) b (\<lambda>blk. remove_inst blk k),
       ren_ctxs := (ren_ctxs s)[a := vs_push (ren_ctxs s ! a) v],
       ren_stats := (ren_stats s)\<lparr>stores_eliminated := stores_eliminated (ren_stats s) + 1\<rparr>\<rparr>"

text \<open>\<open>n\<close> instructions are left, the next one at \<open>k\<close>.\<close>

fun rename_insts :: "bref \<Rightarrow> nat \<Rightarrow> nat \<Rightarrow> RenameState \<Rightarrow> RenameState" where
  "rename_insts b k 0 s = s"
| "rename_insts b k (Suc n) s =
     (case iop (inst_at (ren_func s) b k) of
        LOAD p \<Rightarrow> (case ctx_index (ren_ctxs s) p of
                     None \<Rightarrow> rename_insts b (Suc k) n s
                   | Some a \<Rightarrow> rename_insts b k n (rename_load b k a s))
      | STORE p v \<Rightarrow> (case ctx_index (ren_ctxs s) p of
                     None \<Rightarrow> rename_insts b (Suc k) n s
                   | Some a \<Rightarrow> rename_insts b k n (rename_store b k a v s))
      | _ \<Rightarrow> rename_insts b (Suc k) n s)"

definition add_incoming :: "bref \<Rightarrow> bref \<Rightarrow> MirFunction \<Rightarrow> AllocaRenameCtx \<Rightarrow> MirFunction" where
  "add_incoming bb succ f c =
     (case phi_of c (block_ident f succ) of
        None \<Rightarrow> f
      | Some v \<Rightarrow> upd_block f succ (map_insts (\<lambda>i. if result i = v
                     then (case mir_phi_add_edge i bb (vs_top c) of None \<Rightarrow> i | Some j \<Rightarrow> j) else i)))"

definition fill_incoming :: "bref \<Rightarrow> RenameState \<Rightarrow> RenameState" where
  "fill_incoming bb s =
     s\<lparr>ren_func := foldl (\<lambda>f succ. foldl (add_incoming bb succ) f (ren_ctxs s)) (ren_func s)
                     (successors (blocks (ren_func s) ! bb))\<rparr>"

text \<open>The part of \<^verbatim>\<open>rename_block\<close> before its recursion, and the restoring of the stack depths.\<close>

definition visit_block :: "bref \<Rightarrow> RenameState \<Rightarrow> RenameState" where
  "visit_block bb s =
     (let s1 = s\<lparr>ren_ctxs := map (push_phi (block_ident (ren_func s) bb)) (ren_ctxs s)\<rparr>
      in fill_incoming bb (rename_insts bb 0 (length (insts (blocks (ren_func s1) ! bb))) s1))"

definition restore_stacks :: "nat list \<Rightarrow> RenameState \<Rightarrow> RenameState" where
  "restore_stacks saved_tops s =
     s\<lparr>ren_ctxs := map (\<lambda>(n, c). c\<lparr>stack := drop (length (stack c) - n) (stack c)\<rparr>) (zip saved_tops (ren_ctxs s))\<rparr>"

text \<open>\<^verbatim>\<open>rename_block\<close> on each block of a list; the recursion over the dominator tree may not end on
  other fields than the dominator computation leaves.\<close>

partial_function (option) rename_blocks :: "(bref \<Rightarrow> bref list) \<Rightarrow> bref list \<Rightarrow> RenameState \<Rightarrow> RenameState option" where
  "rename_blocks kids bs s =
     (case bs of
        [] \<Rightarrow> Some s
      | bb # rest \<Rightarrow>
          Option.bind (rename_blocks kids (kids bb) (visit_block bb s))
            (\<lambda>s1. rename_blocks kids rest (restore_stacks (map (\<lambda>c. length (stack c)) (ren_ctxs s)) s1)))"

declare rename_blocks.simps [code]

section \<open>The pass\<close>

definition build_ctx ::
    "(bref \<Rightarrow> bref list) \<Rightarrow> MirFunction \<times> AllocaRenameCtx list \<times> nat \<Rightarrow> PromotableAlloca \<Rightarrow>
     (MirFunction \<times> AllocaRenameCtx list \<times> nat) option" where
  "build_ctx df r p =
     (case r of (f, cs, n) \<Rightarrow>
        (case idf_loop df (alloc_type p) (seed_worklist f (def_blocks p)) of
           None \<Rightarrow> None
         | Some s \<Rightarrow>
             Some (idf_func s,
                   cs @ [\<lparr>ctx_alloca = alloca_val p, stack = [], phi_for_block = phi_map s, phi_map_cap = block_count f\<rparr>],
                   n + idf_count s)))"

fun build_ctxs ::
    "(bref \<Rightarrow> bref list) \<Rightarrow> PromotableAlloca list \<Rightarrow> MirFunction \<times> AllocaRenameCtx list \<times> nat \<Rightarrow>
     (MirFunction \<times> AllocaRenameCtx list \<times> nat) option" where
  "build_ctxs df [] r = Some r"
| "build_ctxs df (p # ps) r = (case build_ctx df r p of None \<Rightarrow> None | Some r1 \<Rightarrow> build_ctxs df ps r1)"

definition push_undef :: "bref \<Rightarrow> MirTypeP \<Rightarrow> AllocaRenameCtx \<Rightarrow> MirFunction \<Rightarrow> MirFunction \<times> AllocaRenameCtx" where
  "push_undef e ty c f =
     (let (f1, v) = mir_function_new_value f ty
      in (upd_block f1 e (\<lambda>blk. blk\<lparr>insts := \<lparr>iop = UNDEF, result = v, itype = ty\<rparr> # insts blk,
                                    inst_count := inst_count blk + 1\<rparr>),
          vs_push c v))"

fun push_undefs :: "bref \<Rightarrow> PromotableAlloca list \<Rightarrow> AllocaRenameCtx list \<Rightarrow> MirFunction \<Rightarrow> MirFunction \<times> AllocaRenameCtx list" where
  "push_undefs e (p # ps) (c # cs) f =
     (let (f1, c1) = push_undef e (alloc_type p) c f; (f2, cs1) = push_undefs e ps cs f1 in (f2, c1 # cs1))"
| "push_undefs e ps cs f = (f, cs)"

definition delete_alloca :: "MirFunction \<times> MirMem2RegStats \<Rightarrow> MirValueId \<Rightarrow> MirFunction \<times> MirMem2RegStats" where
  "delete_alloca r v =
     (case r of (f, st) \<Rightarrow>
        (case find (\<lambda>(b, k). (case iop (inst_at f b k) of ALLOCA t n \<Rightarrow> True | _ \<Rightarrow> False) \<and> result (inst_at f b k) = v)
                (positions f) of
           None \<Rightarrow> (f, st)
         | Some (b, k) \<Rightarrow> (upd_block f b (\<lambda>blk. remove_inst blk k), st\<lparr>allocas_promoted := allocas_promoted st + 1\<rparr>)))"

text \<open>The steps 3 to 5, on the dominator tree and its frontiers.\<close>

definition promote ::
    "MirFunction \<Rightarrow> bref \<Rightarrow> DomInfo \<Rightarrow> PromotableAlloca list \<Rightarrow> MirMem2RegStats \<Rightarrow> (MirFunction \<times> MirMem2RegStats) option" where
  "promote f e d ps st =
     (case build_ctxs (dom_frontier_of d) ps (f, [], 0) of
        None \<Rightarrow> None
      | Some (f1, cs, n) \<Rightarrow>
          let (f2, cs1) = push_undefs e ps cs f1
          in map_option (\<lambda>s. foldl delete_alloca (ren_func s, ren_stats s) (map alloca_val ps))
               (rename_blocks (dom_children_of d) [e]
                  \<lparr>ren_func = f2, ren_ctxs = cs1, ren_stats = st\<lparr>phis_inserted := phis_inserted st + n\<rparr>\<rparr>))"

text \<open>The number of promoted slots, the function, the dominator fields and the statistics.\<close>

definition mir_mem2reg ::
    "MirType list \<Rightarrow> MirFunction \<Rightarrow> DomInfo \<Rightarrow> MirMem2RegStats \<Rightarrow> (nat \<times> MirFunction \<times> DomInfo \<times> MirMem2RegStats) option" where
  "mir_mem2reg c f d st =
     (case entry_block f of
        None \<Rightarrow> Some (0, f, d, st)
      | Some e \<Rightarrow>
          (case mir_validate_function f d of
             None \<Rightarrow> None
           | Some (ok, d0) \<Rightarrow>
               let ps = find_promotable c f (positions f) []
               in if ps = [] then Some (0, f, d0, st)
                  else (case Option.bind (mir_compute_dominators f d0) (mir_compute_dom_frontiers f) of
                          None \<Rightarrow> None
                        | Some d1 \<Rightarrow>
                            (case promote f e d1 ps st of
                               None \<Rightarrow> None
                             | Some (f1, st1) \<Rightarrow>
                                 map_option (\<lambda>(ok', d2). (length ps, f1, d2, st1)) (mir_validate_function f1 d1)))))"

fun mir_mem2reg_module ::
    "MirType list \<Rightarrow> (MirFunction \<times> DomInfo) list \<Rightarrow> MirMem2RegStats \<Rightarrow> ((MirFunction \<times> DomInfo) list \<times> MirMem2RegStats) option" where
  "mir_mem2reg_module c [] st = Some ([], st)"
| "mir_mem2reg_module c ((f, d) # fs) st =
     (if is_extern f then map_option (\<lambda>(gs, st1). ((f, d) # gs, st1)) (mir_mem2reg_module c fs st)
      else case mir_mem2reg c f d st of
             None \<Rightarrow> None
           | Some (n, f1, d1, st1) \<Rightarrow> map_option (\<lambda>(gs, st2). ((f1, d1) # gs, st2)) (mir_mem2reg_module c fs st1))"

end
