(* ===== verification/Phi_Facts.thy ===== *)
theory Phi_Facts
  imports Mir_Mem2reg
begin

text \<open>
  Where the phis of a promoted slot are placed, and why that is enough: read through the phis along the
  path executed, the definition the dominator tree gives for the slot is the last store.
\<close>

section \<open>The worklist computes the iterated dominance frontier\<close>

inductive iterated_frontier :: "(bref \<Rightarrow> bref list) \<Rightarrow> bref set \<Rightarrow> bref \<Rightarrow> bool" for df defs where
  of_def: "x \<in> defs \<Longrightarrow> y \<in> set (df x) \<Longrightarrow> iterated_frontier df defs y"
| of_phi: "iterated_frontier df defs x \<Longrightarrow> y \<in> set (df x) \<Longrightarrow> iterated_frontier df defs y"

text \<open>What the pass never changes.\<close>

definition same_cfg :: "MirFunction \<Rightarrow> MirFunction \<Rightarrow> bool" where
  "same_cfg f g \<longleftrightarrow> block_ident g = block_ident f \<and> cfg_succs g = cfg_succs f \<and> cfg_preds g = cfg_preds f
     \<and> block_list g = block_list f \<and> entry_block g = entry_block f \<and> block_count g = block_count f
     \<and> length (blocks g) = length (blocks f)"

lemma same_cfg_refl [simp]: "same_cfg f f"
  by (simp add: same_cfg_def)

lemma same_cfg_trans: "same_cfg f g \<Longrightarrow> same_cfg g h \<Longrightarrow> same_cfg f h"
  by (simp add: same_cfg_def)

lemma same_cfg_upd:
  assumes "\<And>x. bb_id (u x) = bb_id x \<and> successors (u x) = successors x \<and> predecessors (u x) = predecessors x"
  shows "same_cfg f (upd_block f b u)"
proof -
  have "bb_id (blocks (upd_block f b u) ! x) = bb_id (blocks f ! x)
      \<and> successors (blocks (upd_block f b u) ! x) = successors (blocks f ! x)
      \<and> predecessors (blocks (upd_block f b u) ! x) = predecessors (blocks f ! x)" for x
    using assms[of "blocks f ! b"]
    by (cases "b < length (blocks f)"; cases "x = b") (simp_all add: upd_block_def list_update_beyond)
  then show ?thesis by (simp add: same_cfg_def block_ident_def fun_eq_iff)
qed

lemma new_value_same_cfg: "mir_function_new_value f ty = (f1, v) \<Longrightarrow> same_cfg f f1"
  by (auto simp: mir_function_new_value_def Let_def same_cfg_def block_ident_def fun_eq_iff)

lemma insert_phi_same_cfg: "insert_phi f bb ty = (f1, v) \<Longrightarrow> same_cfg f f1"
proof -
  obtain f0 v0 where n: "mir_function_new_value f ty = (f0, v0)" by fastforce
  assume "insert_phi f bb ty = (f1, v)"
  then have "f1 = fst (insert_phi f bb ty)" by simp
  also have "same_cfg f0 \<dots>" unfolding insert_phi_def n Let_def prod.case fst_conv by (rule same_cfg_upd) simp
  finally show ?thesis using same_cfg_trans[OF new_value_same_cfg[OF n]] by blast
qed

text \<open>
  The invariant, for an identification \<open>ident\<close> that is injective on the blocks \<open>U\<close>: the marked blocks are the
  definitions and the blocks with a phi; the frontiers of those no longer waiting, but for \<open>busy\<close>, have phis.
\<close>

definition idf_inv ::
    "(bref \<Rightarrow> nat) \<Rightarrow> bref set \<Rightarrow> (bref \<Rightarrow> bref list) \<Rightarrow> bref set \<Rightarrow> bref set \<Rightarrow> IdfState \<Rightarrow> bool" where
  "idf_inv ident U df defs busy s \<longleftrightarrow>
     block_ident (idf_func s) = ident \<and> (\<forall>b \<in> set (worklist s). b \<in> U \<and> ident b \<in> set (in_worklist s))
     \<and> (\<forall>b \<in> U. ident b \<in> set (in_worklist s) \<longleftrightarrow> b \<in> defs \<or> ident b \<in> set (has_phi s))
     \<and> (\<forall>b \<in> U. ident b \<in> set (has_phi s) \<longrightarrow> iterated_frontier df defs b)
     \<and> (\<forall>b \<in> U. ident b \<in> set (in_worklist s) \<longrightarrow> b \<notin> set (worklist s) \<longrightarrow> b \<notin> busy \<longrightarrow>
          (\<forall>y \<in> set (df b). ident y \<in> set (has_phi s)))
     \<and> (\<forall>i. phi_map s i \<noteq> None \<longleftrightarrow> i \<in> set (has_phi s))"

definition idf_left :: "(bref \<Rightarrow> nat) \<Rightarrow> bref set \<Rightarrow> IdfState \<Rightarrow> nat" where
  "idf_left ident U s = 2 * card {b \<in> U. ident b \<notin> set (in_worklist s)} + length (worklist s)"

lemma idf_invD:
  assumes "idf_inv ident U df defs busy s"
  shows "block_ident (idf_func s) = ident"
    "b \<in> set (worklist s) \<Longrightarrow> b \<in> U \<and> ident b \<in> set (in_worklist s)"
    "b \<in> U \<Longrightarrow> ident b \<in> set (in_worklist s) \<longleftrightarrow> b \<in> defs \<or> ident b \<in> set (has_phi s)"
    "b \<in> U \<Longrightarrow> ident b \<in> set (has_phi s) \<Longrightarrow> iterated_frontier df defs b"
    "b \<in> U \<Longrightarrow> ident b \<in> set (in_worklist s) \<Longrightarrow> b \<notin> set (worklist s) \<Longrightarrow> b \<notin> busy \<Longrightarrow> z \<in> set (df b) \<Longrightarrow>
       ident z \<in> set (has_phi s)"
    "phi_map s k \<noteq> None \<longleftrightarrow> k \<in> set (has_phi s)"
  using assms unfolding idf_inv_def by (blast, blast, blast, blast, blast, fast)

lemma idf_invI:
  assumes "block_ident (idf_func s) = ident"
    "\<And>b. b \<in> set (worklist s) \<Longrightarrow> b \<in> U \<and> ident b \<in> set (in_worklist s)"
    "\<And>b. b \<in> U \<Longrightarrow> ident b \<in> set (in_worklist s) \<longleftrightarrow> b \<in> defs \<or> ident b \<in> set (has_phi s)"
    "\<And>b. b \<in> U \<Longrightarrow> ident b \<in> set (has_phi s) \<Longrightarrow> iterated_frontier df defs b"
    "\<And>b z. b \<in> U \<Longrightarrow> ident b \<in> set (in_worklist s) \<Longrightarrow> b \<notin> set (worklist s) \<Longrightarrow> b \<notin> busy \<Longrightarrow> z \<in> set (df b) \<Longrightarrow>
       ident z \<in> set (has_phi s)"
    "\<And>k. phi_map s k \<noteq> None \<longleftrightarrow> k \<in> set (has_phi s)"
  shows "idf_inv ident U df defs busy s"
  using assms unfolding idf_inv_def by simp

lemma place_phi_inv:
  assumes i: "idf_inv ident U df defs busy s" and fin: "finite U" and inj: "inj_on ident U"
    and y: "y \<in> U" "iterated_frontier df defs y"
  shows "idf_inv ident U df defs busy (place_phi ty y s)
     \<and> ident y \<in> set (has_phi (place_phi ty y s)) \<and> set (has_phi s) \<subseteq> set (has_phi (place_phi ty y s))
     \<and> idf_left ident U (place_phi ty y s) \<le> idf_left ident U s"
proof (cases "ident y \<in> set (has_phi s)")
  case True
  then have "place_phi ty y s = s" using idf_invD(1)[OF i] by (simp add: place_phi_def Let_def)
  then show ?thesis using i True by simp
next
  case False
  note D = idf_invD[OF i]
  obtain f1 v where p: "insert_phi (idf_func s) y ty = (f1, v)" by fastforce
  define s' where "s' = s\<lparr>idf_func := f1, phi_map := (phi_map s)(ident y := Some v), has_phi := ident y # has_phi s,
                   in_worklist := (if ident y \<in> set (in_worklist s) then in_worklist s else ident y # in_worklist s),
                   worklist := (if ident y \<in> set (in_worklist s) then worklist s else y # worklist s),
                   idf_count := idf_count s + 1\<rparr>"
  have s': "place_phi ty y s = s'" using False p by (simp add: place_phi_def D(1) s'_def Let_def)
  have f: "idf_func s' = f1" "phi_map s' = (phi_map s)(ident y := Some v)" "set (has_phi s') = insert (ident y) (set (has_phi s))"
      "set (in_worklist s') = insert (ident y) (set (in_worklist s))"
      "set (worklist s') = (if ident y \<in> set (in_worklist s) then set (worklist s) else insert y (set (worklist s)))"
      "length (worklist s') = length (worklist s) + (if ident y \<in> set (in_worklist s) then 0 else 1)"
    by (auto simp: s'_def)
  have same: "b = y" if "b \<in> U" "ident b = ident y" for b using inj that y(1) by (auto dest: inj_onD)
  have "idf_inv ident U df defs busy s'"
  proof (rule idf_invI)
    show "block_ident (idf_func s') = ident" using insert_phi_same_cfg[OF p] D(1) by (simp add: f same_cfg_def)
    show "b \<in> U \<and> ident b \<in> set (in_worklist s')" if "b \<in> set (worklist s')" for b
      using D(2)[of b] y(1) that unfolding f by (cases "b = y") (auto split: if_splits)
    show "ident b \<in> set (in_worklist s') \<longleftrightarrow> b \<in> defs \<or> ident b \<in> set (has_phi s')" if "b \<in> U" for b
      using D(3)[OF that] unfolding f by blast
    show "iterated_frontier df defs b" if "b \<in> U" "ident b \<in> set (has_phi s')" for b
      using D(4)[OF that(1)] same[OF that(1)] that(2) y(2) unfolding f by blast
    show "phi_map s' k \<noteq> None \<longleftrightarrow> k \<in> set (has_phi s')" for k
      using D(6)[of k] unfolding f by (cases "k = ident y") simp_all
    fix b z assume b: "b \<in> U" "ident b \<in> set (in_worklist s')" "b \<notin> set (worklist s')" "b \<notin> busy" "z \<in> set (df b)"
    have "ident b \<in> set (in_worklist s)" "b \<notin> set (worklist s)"
      using b(2,3) same[OF b(1)] unfolding f by (auto split: if_splits)
    then show "ident z \<in> set (has_phi s')" using D(5)[OF b(1) _ _ b(4,5)] unfolding f by blast
  qed
  moreover have "idf_left ident U s' \<le> idf_left ident U s"
  proof (cases "ident y \<in> set (in_worklist s)")
    case True
    then show ?thesis by (simp add: idf_left_def f insert_absorb)
  next
    case False
    have "{b \<in> U. ident b \<notin> set (in_worklist s)} = insert y {b \<in> U. ident b \<notin> set (in_worklist s')}"
      using False y(1) same unfolding f by auto
    moreover have "y \<notin> {b \<in> U. ident b \<notin> set (in_worklist s')}" unfolding f by simp
    ultimately have "card {b \<in> U. ident b \<notin> set (in_worklist s)} = Suc (card {b \<in> U. ident b \<notin> set (in_worklist s')})"
      using fin by simp
    then show ?thesis using False by (simp add: idf_left_def f(6))
  qed
  ultimately show ?thesis unfolding s' f by auto
qed

lemma place_phis_inv:
  assumes fin: "finite U" and inj: "inj_on ident U"
  shows "idf_inv ident U df defs busy s \<Longrightarrow> (\<And>y. y \<in> set ys \<Longrightarrow> y \<in> U \<and> iterated_frontier df defs y) \<Longrightarrow>
     let s' = foldl (\<lambda>s dfb. place_phi ty dfb s) s ys
     in idf_inv ident U df defs busy s' \<and> (\<forall>y \<in> set ys. ident y \<in> set (has_phi s'))
        \<and> set (has_phi s) \<subseteq> set (has_phi s') \<and> idf_left ident U s' \<le> idf_left ident U s"
proof (induction ys arbitrary: s)
  case (Cons y ys)
  have y: "y \<in> U" "iterated_frontier df defs y" using Cons.prems(2) by simp_all
  note p = place_phi_inv[OF Cons.prems(1) fin inj y, of ty]
  have "\<And>z. z \<in> set ys \<Longrightarrow> z \<in> U \<and> iterated_frontier df defs z" using Cons.prems(2) by simp
  note ih = Cons.IH[OF p[THEN conjunct1] this, unfolded Let_def]
  show ?case unfolding Let_def foldl_Cons using p ih by auto
qed simp

lemma idf_loop_ok:
  assumes fin: "finite U" and inj: "inj_on ident U" and df: "\<And>b. b \<in> U \<Longrightarrow> set (df b) \<subseteq> U" and d: "defs \<subseteq> U"
  shows "idf_inv ident U df defs {} s \<Longrightarrow> \<exists>s'. idf_loop df ty s = Some s' \<and> worklist s' = [] \<and> idf_inv ident U df defs {} s'"
proof (induction "idf_left ident U s" arbitrary: s rule: less_induct)
  case less
  show ?case
  proof (cases "worklist s")
    case Nil
    then show ?thesis using less.prems by (auto simp: idf_loop.simps)
  next
    case (Cons b wl)
    let ?s = "s\<lparr>worklist := wl\<rparr>"
    let ?t = "foldl (\<lambda>s dfb. place_phi ty dfb s) ?s (df b)"
    note D = idf_invD[OF less.prems]
    have b: "b \<in> U" "ident b \<in> set (in_worklist s)" using D(2)[of b] Cons by simp_all
    have busy: "idf_inv ident U df defs {b} ?s"
    proof (rule idf_invI)
      show "block_ident (idf_func ?s) = ident" using D(1) by simp
      show "c \<in> U \<and> ident c \<in> set (in_worklist ?s)" if "c \<in> set (worklist ?s)" for c using D(2)[of c] Cons that by simp
      show "ident c \<in> set (in_worklist ?s) \<longleftrightarrow> c \<in> defs \<or> ident c \<in> set (has_phi ?s)" if "c \<in> U" for c using D(3)[OF that] by simp
      show "iterated_frontier df defs c" if "c \<in> U" "ident c \<in> set (has_phi ?s)" for c using D(4)[OF that(1)] that(2) by simp
      show "ident z \<in> set (has_phi ?s)"
        if "c \<in> U" "ident c \<in> set (in_worklist ?s)" "c \<notin> set (worklist ?s)" "c \<notin> {b}" "z \<in> set (df c)" for c z
        using D(5)[OF that(1), of z] that(2-5) Cons by simp
      show "phi_map ?s k \<noteq> None \<longleftrightarrow> k \<in> set (has_phi ?s)" for k using D(6)[of k] by simp
    qed
    have nb: "iterated_frontier df defs y" if y: "y \<in> set (df b)" for y
    proof -
      have "b \<in> defs \<or> iterated_frontier df defs b" using D(3,4)[OF b(1)] b(2) by blast
      then show ?thesis using y by (auto intro: iterated_frontier.intros)
    qed
    have t: "idf_inv ident U df defs {b} ?t" "\<forall>y \<in> set (df b). ident y \<in> set (has_phi ?t)"
      "idf_left ident U ?t \<le> idf_left ident U ?s"
      using place_phis_inv[OF fin inj busy, of "df b" ty] nb df[OF b(1)] unfolding Let_def by blast+
    have "idf_inv ident U df defs {} ?t"
    proof (rule idf_invI)
      show "ident z \<in> set (has_phi ?t)"
        if "c \<in> U" "ident c \<in> set (in_worklist ?t)" "c \<notin> set (worklist ?t)" "z \<in> set (df c)" for c z
        using idf_invD(5)[OF t(1) that(1-3), of z] t(2) that(4) by blast
    qed (fact idf_invD(1)[OF t(1)] idf_invD(2)[OF t(1)] idf_invD(3)[OF t(1)] idf_invD(4)[OF t(1)] idf_invD(6)[OF t(1)])+
    moreover have "idf_left ident U ?s < idf_left ident U s" using Cons by (simp add: idf_left_def)
    ultimately obtain s' where "idf_loop df ty ?t = Some s'" "worklist s' = []" "idf_inv ident U df defs {} s'"
      using less.hyps[of ?t] t(3) by auto
    then show ?thesis using Cons by (simp add: idf_loop.simps[of df ty s])
  qed
qed

lemma seed_worklist_inv:
  assumes inj: "inj_on (block_ident f) U"
  shows "set defs \<subseteq> U \<Longrightarrow> idf_inv (block_ident f) U df (set defs) {} (seed_worklist f defs)"
proof -
  define g where "g s db = (if block_ident f db \<in> set (in_worklist s) then s
                   else s\<lparr>worklist := db # worklist s, in_worklist := block_ident f db # in_worklist s\<rparr>)" for s :: IdfState and db
  define J where "J ds s \<longleftrightarrow> idf_func s = f \<and> has_phi s = [] \<and> phi_map s = (\<lambda>i. None) \<and> set (worklist s) \<subseteq> ds
     \<and> (\<forall>b \<in> U. block_ident f b \<in> set (in_worklist s) \<longleftrightarrow> b \<in> ds) \<and> ds \<subseteq> set (worklist s)" for ds and s :: IdfState
  have step: "J (insert x ds) (g s x)" if "J ds s" "x \<in> U" for x ds s
    using that inj by (auto simp: J_def g_def inj_on_eq_iff dest: inj_onD)
  have run: "set xs \<subseteq> U \<Longrightarrow> J ds s \<Longrightarrow> J (set xs \<union> ds) (foldl g s xs)" for xs ds s
  proof (induction xs arbitrary: s ds)
    case (Cons x xs)
    have "J (insert x ds) (g s x)" by (rule step) (use Cons.prems in auto)
    then have "J (set xs \<union> insert x ds) (foldl g (g s x) xs)" using Cons.IH[of "insert x ds" "g s x"] Cons.prems(1) by simp
    then show ?case by simp
  qed simp
  assume d: "set defs \<subseteq> U"
  have "foldl g \<lparr>idf_func = f, phi_map = (\<lambda>i. None), has_phi = [], in_worklist = [], worklist = [], idf_count = 0\<rparr> defs
      = seed_worklist f defs" unfolding seed_worklist_def g_def by simp
  moreover have "J {} \<lparr>idf_func = f, phi_map = (\<lambda>i. None), has_phi = [], in_worklist = [], worklist = [], idf_count = 0\<rparr>"
    by (simp add: J_def)
  ultimately have "J (set defs \<union> {}) (seed_worklist f defs)" using run[OF d] by metis
  then have j: "J (set defs) (seed_worklist f defs)" by simp
  show ?thesis by (rule idf_invI) (use j d in \<open>auto simp: J_def\<close>)
qed

lemma idf_placement:
  assumes inj: "inj_on (block_ident f) (set (block_list f))" and d: "set defs \<subseteq> set (block_list f)"
    and df: "\<And>b. b \<in> set (block_list f) \<Longrightarrow> set (df b) \<subseteq> set (block_list f)"
  shows "\<exists>s. idf_loop df ty (seed_worklist f defs) = Some s
     \<and> (\<forall>b \<in> set (block_list f). phi_map s (block_ident f b) \<noteq> None \<longleftrightarrow> iterated_frontier df (set defs) b)
     \<and> block_ident (idf_func s) = block_ident f"
proof -
  obtain s where s: "idf_loop df ty (seed_worklist f defs) = Some s" "worklist s = []"
      "idf_inv (block_ident f) (set (block_list f)) df (set defs) {} s"
    using idf_loop_ok[where df = df, OF finite_set inj df d seed_worklist_inv[OF inj d]] by blast
  have mark: "block_ident f b \<in> set (in_worklist s) \<longleftrightarrow> b \<in> set defs \<or> block_ident f b \<in> set (has_phi s)"
    "block_ident f b \<in> set (has_phi s) \<Longrightarrow> iterated_frontier df (set defs) b"
    "block_ident f b \<in> set (in_worklist s) \<Longrightarrow> y \<in> set (df b) \<Longrightarrow> block_ident f y \<in> set (has_phi s)"
    if "b \<in> set (block_list f)" for b y
    using idf_invD(3,4)[OF s(3) that] idf_invD(5)[OF s(3) that, of y] s(2) by auto
  have "b \<in> set (block_list f) \<and> block_ident f b \<in> set (has_phi s)" if "iterated_frontier df (set defs) b" for b
    using that
  proof (induction rule: iterated_frontier.induct)
    case (of_def x y)
    then show ?case using d df mark(1,3)[of x] by blast
  next
    case (of_phi x y)
    then show ?case using df mark(1,3)[of x] by blast
  qed
  moreover have "phi_map s i \<noteq> None \<longleftrightarrow> i \<in> set (has_phi s)" for i by (rule idf_invD(6)[OF s(3)])
  ultimately have "\<forall>b \<in> set (block_list f). phi_map s (block_ident f b) \<noteq> None \<longleftrightarrow> iterated_frontier df (set defs) b"
    using mark(2) by blast
  moreover have "block_ident (idf_func s) = block_ident f" using s(3) by (simp add: idf_inv_def)
  ultimately show ?thesis using s(1) by blast
qed

section \<open>What the placement inserts\<close>

text \<open>A block with a new phi: behind the phis it has, before everything else.\<close>

definition with_phi :: "MirValueId option \<Rightarrow> MirTypeP \<Rightarrow> MirInst list \<Rightarrow> MirInst list" where
  "with_phi v ty is =
     (case v of
        None \<Rightarrow> is
      | Some w \<Rightarrow> takeWhile (\<lambda>i. is_phi (iop i)) is @ \<lparr>iop = PHI [], result = w, itype = ty\<rparr> # dropWhile (\<lambda>i. is_phi (iop i)) is)"

definition phis_added :: "MirFunction \<Rightarrow> MirTypeP \<Rightarrow> IdfState \<Rightarrow> bool" where
  "phis_added f ty s \<longleftrightarrow> same_cfg f (idf_func s) \<and> (\<forall>i. phi_map s i \<noteq> None \<longleftrightarrow> i \<in> set (has_phi s))
     \<and> set (worklist s) \<subseteq> set (block_list f)
     \<and> (\<forall>b. insts (blocks (idf_func s) ! b) =
          with_phi (if b \<in> set (block_list f) then phi_map s (block_ident f b) else None) ty (insts (blocks f ! b)))"

lemma insert_phi_insts:
  assumes "insert_phi f y ty = (f1, v)" and "y < length (blocks f)"
  shows "insts (blocks f1 ! b) = (if b = y then with_phi (Some v) ty (insts (blocks f ! y)) else insts (blocks f ! b))"
proof -
  have "drop (length (takeWhile P xs)) xs = dropWhile P xs" "take (length (takeWhile P xs)) xs = takeWhile P xs"
    for P and xs :: "MirInst list"
    by (simp_all add: dropWhile_eq_drop[symmetric] takeWhile_eq_take[symmetric])
  then show ?thesis
    using assms by (auto simp: insert_phi_def mir_function_new_value_def Let_def upd_block_def with_phi_def)
qed

lemma place_phi_added:
  assumes s: "phis_added f ty s" and y: "y \<in> set (block_list f)" "y < length (blocks f)"
    and inj: "inj_on (block_ident f) (set (block_list f))"
  shows "phis_added f ty (place_phi ty y s)"
proof (cases "block_ident f y \<in> set (has_phi s)")
  case True
  have "block_ident (idf_func s) = block_ident f" using s by (simp add: phis_added_def same_cfg_def)
  then show ?thesis using s True by (simp add: place_phi_def Let_def)
next
  case False
  have sc: "same_cfg f (idf_func s)" and id: "block_ident (idf_func s) = block_ident f"
    using s by (simp_all add: phis_added_def same_cfg_def)
  obtain f1 v where p: "insert_phi (idf_func s) y ty = (f1, v)" by fastforce
  have len: "y < length (blocks (idf_func s))" using sc y(2) by (simp add: same_cfg_def)
  have none: "phi_map s (block_ident f y) = None" using s False by (auto simp: phis_added_def)
  then have "insts (blocks (idf_func s) ! y) = insts (blocks f ! y)" using s y(1) by (simp add: phis_added_def with_phi_def)
  moreover have "block_ident f b \<noteq> block_ident f y" if "b \<noteq> y" "b \<in> set (block_list f)" for b
    using inj_onD[OF inj _ that(2) y(1)] that(1) by blast
  ultimately show ?thesis
    using s False same_cfg_trans[OF sc insert_phi_same_cfg[OF p]] insert_phi_insts[OF p len] y(1)
    by (auto simp: phis_added_def place_phi_def id p Let_def)
qed

lemma idf_loop_added:
  assumes df: "\<And>b. b \<in> set (block_list f) \<Longrightarrow> set (df b) \<subseteq> set (block_list f)"
    and inj: "inj_on (block_ident f) (set (block_list f))"
    and len: "\<And>b. b \<in> set (block_list f) \<Longrightarrow> b < length (blocks f)"
  shows "idf_loop df ty s = Some s' \<Longrightarrow> phis_added f ty s \<Longrightarrow> phis_added f ty s'"
proof -
  have fold: "phis_added f ty u \<Longrightarrow> set ys \<subseteq> set (block_list f) \<Longrightarrow> phis_added f ty (foldl (\<lambda>s dfb. place_phi ty dfb s) u ys)" for u ys
    by (induction ys arbitrary: u) (auto intro: place_phi_added[OF _ _ len inj])
  have run: "d = df \<longrightarrow> t = ty \<longrightarrow> phis_added f ty s \<longrightarrow> phis_added f ty s'" if "idf_loop d t s = Some s'" for d t s s'
    using that
  proof (rule idf_loop.raw_induct[where P = "\<lambda>d t s s'. d = df \<longrightarrow> t = ty \<longrightarrow> phis_added f ty s \<longrightarrow> phis_added f ty s'", rotated], intro impI)
    fix run :: "(bref \<Rightarrow> bref list) \<Rightarrow> MirTypeP \<Rightarrow> IdfState \<Rightarrow> IdfState option" and d t s s'
    assume ih: "\<And>d t s s'. run d t s = Some s' \<Longrightarrow> d = df \<longrightarrow> t = ty \<longrightarrow> phis_added f ty s \<longrightarrow> phis_added f ty s'"
      and body: "(case worklist s of [] \<Rightarrow> Some s
          | bb # wl \<Rightarrow> run d t (foldl (\<lambda>s dfb. place_phi t dfb s) (s\<lparr>worklist := wl\<rparr>) (d bb))) = Some s'"
      and d: "d = df" "t = ty" and ok: "phis_added f ty s"
    show "phis_added f ty s'"
    proof (cases "worklist s")
      case (Cons b wl)
      then have "b \<in> set (block_list f)" "phis_added f ty (s\<lparr>worklist := wl\<rparr>)" using ok by (auto simp: phis_added_def)
      then show ?thesis using ih body Cons d fold df by (metis list.simps(5))
    qed (use body ok in simp)
  qed
  show "idf_loop df ty s = Some s' \<Longrightarrow> phis_added f ty s \<Longrightarrow> phis_added f ty s'" using run by blast
qed

section \<open>Walks\<close>

lemma cfg_path_iff:
  "cfg_path succ e xs b \<longleftrightarrow> xs \<noteq> [] \<and> hd xs = e \<and> last xs = b \<and> successively (\<lambda>a c. c \<in> set (succ a)) xs"
proof
  show "cfg_path succ e xs b \<Longrightarrow> xs \<noteq> [] \<and> hd xs = e \<and> last xs = b \<and> successively (\<lambda>a c. c \<in> set (succ a)) xs"
    by (induction rule: cfg_path.induct) (auto simp: successively_append_iff hd_append)
  show "xs \<noteq> [] \<and> hd xs = e \<and> last xs = b \<and> successively (\<lambda>a c. c \<in> set (succ a)) xs \<Longrightarrow> cfg_path succ e xs b"
  proof (induction xs arbitrary: b rule: rev_induct)
    case (snoc x xs)
    show ?case
    proof (cases "xs = []")
      case True
      then show ?thesis using snoc.prems by (auto intro: cfg_path.start)
    next
      case False
      then have "cfg_path succ e xs (last xs)" using snoc by (auto simp: successively_append_iff hd_append)
      moreover have "x \<in> set (succ (last xs))" "x = b" using snoc.prems False by (auto simp: successively_append_iff)
      ultimately show ?thesis using cfg_path.step by blast
    qed
  qed simp
qed

lemma path_cut: "cfg_path succ e (us @ m # vs) b \<Longrightarrow> cfg_path succ e (us @ [m]) m"
  by (auto simp: cfg_path_iff successively_append_iff hd_append split: if_splits)

lemma path_splice:
  assumes "cfg_path succ e ys z" "cfg_path succ e (us @ z # vs @ [b]) b"
  shows "cfg_path succ e (ys @ vs @ [b]) b"
proof -
  have "successively (\<lambda>a c. c \<in> set (succ a)) (z # (vs @ [b]))"
    using assms(2) by (auto simp: cfg_path_iff successively_append_iff)
  then have "successively (\<lambda>a c. c \<in> set (succ a)) (vs @ [b])" "hd (vs @ [b]) \<in> set (succ z)"
    by (cases vs; simp)+
  then show ?thesis using assms(1) by (auto simp: cfg_path_iff successively_append_iff hd_append)
qed

text \<open>A walk out of the blocks a block dominates passes through its frontier.\<close>

lemma frontier_on_walk:
  assumes "successively (\<lambda>a c. c \<in> set (succ a)) (p # ws)" "reaches succ e p" "dominates succ e z p" "ws \<noteq> []"
    and "\<not> (z \<noteq> last ws \<and> dominates succ e z (last ws))"
  shows "\<exists>w \<in> set ws. frontier succ e z w"
  using assms
proof (induction ws arbitrary: p)
  case (Cons w ws)
  have w: "w \<in> set (succ p)" "successively (\<lambda>a c. c \<in> set (succ a)) (w # ws)" using Cons.prems(1) by simp_all
  show ?case
  proof (cases "z \<noteq> w \<and> dominates succ e z w")
    case True
    then have "ws \<noteq> []" using Cons.prems(5) by auto
    moreover have "reaches succ e w" by (rule reaches_step[OF Cons.prems(2) w(1)])
    ultimately show ?thesis using Cons.IH[OF w(2)] True Cons.prems(5) by auto
  next
    case False
    then have "frontier succ e z w" using w(1) Cons.prems(2,3) unfolding frontier_def by blast
    then show ?thesis by simp
  qed
qed simp

text \<open>
  Between the last visit of its immediate dominator and a block without a phi, a path meets no
  definition: \<open>M\<close> are the blocks that store or have a phi, and their frontiers have phis.
\<close>

lemma no_def_between:
  assumes o: "rpo_order N succ pred e bs" and p: "cfg_path succ e (us @ m # vs @ [b]) b" and i: "is_idom succ e m b"
    and m: "m \<notin> set vs" and cl: "\<And>x y. x \<in> M \<Longrightarrow> reaches succ e x \<Longrightarrow> frontier succ e x y \<Longrightarrow> y \<in> P"
    and P: "P \<subseteq> M" "b \<notin> P"
  shows "set vs \<inter> M = {}"
proof (rule ccontr)
  assume "set vs \<inter> M \<noteq> {}"
  then obtain vs1 z vs2 where z: "vs = vs1 @ z # vs2" "z \<in> M" "\<forall>x \<in> set vs2. x \<notin> M"
    using split_list_last_prop[of vs "\<lambda>x. x \<in> M"] by blast
  have pz: "cfg_path succ e ((us @ m # vs1) @ z # vs2 @ [b]) b" using p z(1) by simp
  have rz: "reaches succ e z" by (rule path_reaches[OF pz]) simp
  have rm: "reaches succ e m" by (rule path_reaches[OF p]) simp
  have "\<not> (z \<noteq> b \<and> dominates succ e z b)"
  proof
    assume "z \<noteq> b \<and> dominates succ e z b"
    then have "dominates succ e z m" using i by (simp add: is_idom_def)
    moreover have "z \<noteq> m" using m z(1) by auto
    ultimately have "\<not> dominates succ e m z" using dominates_antisym[OF o _ _ rz rm] by blast
    then obtain ys where ys: "cfg_path succ e ys z" "m \<notin> set ys" by (auto simp: dominates_def)
    have "cfg_path succ e (ys @ vs2 @ [b]) b" by (rule path_splice[OF ys(1) pz])
    moreover have "m \<notin> set (ys @ vs2 @ [b])" using ys(2) m z(1) i by (auto simp: is_idom_def)
    ultimately show False using i by (auto simp: is_idom_def dominates_def)
  qed
  moreover have "successively (\<lambda>a c. c \<in> set (succ a)) (z # (vs2 @ [b]))"
    using pz unfolding cfg_path_iff successively_append_iff by simp
  ultimately obtain w where w: "w \<in> set (vs2 @ [b])" "frontier succ e z w"
    using frontier_on_walk[of succ z "vs2 @ [b]" e z] rz dominates_refl[of succ e z] by auto
  have "w \<in> P" by (rule cl[OF z(2) rz w(2)])
  then show False using w(1) z(3) P by auto
qed

section \<open>Reaching definitions\<close>

text \<open>
  Which definition of the slot the dominator tree gives at the end of a block, and which store, if any, it
  stands for after a path: a phi stands for what reached the block the path entered it from.
\<close>

datatype def_site = At_store bref | At_phi bref | Undefined

inductive reaching_def :: "(bref \<Rightarrow> bref option) \<Rightarrow> bref \<Rightarrow> bref set \<Rightarrow> bref set \<Rightarrow> bref \<Rightarrow> def_site \<Rightarrow> bool"
    for idom e stores phis where
  own_store: "b \<in> stores \<Longrightarrow> reaching_def idom e stores phis b (At_store b)"
| own_phi: "b \<notin> stores \<Longrightarrow> b \<in> phis \<Longrightarrow> reaching_def idom e stores phis b (At_phi b)"
| at_entry: "e \<notin> stores \<Longrightarrow> e \<notin> phis \<Longrightarrow> reaching_def idom e stores phis e Undefined"
| from_parent: "b \<noteq> e \<Longrightarrow> b \<notin> stores \<Longrightarrow> b \<notin> phis \<Longrightarrow> idom b = Some m \<Longrightarrow> reaching_def idom e stores phis m s \<Longrightarrow>
    reaching_def idom e stores phis b s"

inductive denotes ::
    "(bref \<Rightarrow> bref option) \<Rightarrow> bref \<Rightarrow> bref set \<Rightarrow> bref set \<Rightarrow> bref list \<Rightarrow> def_site \<Rightarrow> bref option \<Rightarrow> bool"
    for idom e stores phis where
  of_store: "denotes idom e stores phis xs (At_store c) (Some c)"
| of_undefined: "denotes idom e stores phis xs Undefined None"
| of_phi: "c \<notin> set zs \<Longrightarrow> reaching_def idom e stores phis p s \<Longrightarrow> denotes idom e stores phis (ys @ [p]) s r \<Longrightarrow>
    denotes idom e stores phis (ys @ p # c # zs) (At_phi c) r"

inductive_cases denotes_phiE: "denotes idom e stores phis xs (At_phi c) r"
inductive_cases denotes_storeE: "denotes idom e stores phis xs (At_store c) r"
inductive_cases denotes_undefinedE: "denotes idom e stores phis xs Undefined r"

lemma reaching_def_unique:
  "reaching_def idom e stores phis b s \<Longrightarrow> reaching_def idom e stores phis b s' \<Longrightarrow> s' = s"
proof (induction arbitrary: s' rule: reaching_def.induct)
  case (from_parent b m s)
  from from_parent.prems from_parent.hyps show ?case
    by (cases rule: reaching_def.cases) (auto intro: from_parent.IH)
qed (auto elim: reaching_def.cases)

lemma denotes_unique:
  "denotes idom e stores phis xs s r \<Longrightarrow> denotes idom e stores phis xs s r' \<Longrightarrow> r' = r"
proof (induction arbitrary: r' rule: denotes.induct)
  case (of_phi c zs p s ys r)
  from of_phi.prems obtain zs' p' s2 ys' where q: "ys @ p # c # zs = ys' @ p' # c # zs'" "c \<notin> set zs'"
      "reaching_def idom e stores phis p' s2" "denotes idom e stores phis (ys' @ [p']) s2 r'"
    by (cases rule: denotes_phiE) auto
  have cut: "takeWhile (\<lambda>x. x \<noteq> c) (rev (vs @ q' # c # ws)) = rev ws" if "c \<notin> set ws" for vs q' ws
    unfolding rev_append rev.simps append_assoc by (subst takeWhile_append2) (use that in auto)
  have "rev zs' = rev zs" using cut[OF q(2), of ys' p'] cut[OF of_phi.hyps(1), of ys p] q(1) by metis
  then have "ys = ys' \<and> p = p'" using q(1) by simp
  then have "s2 = s" using reaching_def_unique[OF of_phi.hyps(2)] q(3) by blast
  then show ?case using of_phi.IH[of r'] q(4) \<open>ys = ys' \<and> p = p'\<close> by blast
qed (auto elim: denotes_storeE denotes_undefinedE)

lemma reaching_def_phi: "reaching_def idom e stores phis b (At_phi c) \<Longrightarrow> c \<in> phis"
proof -
  have "s = At_phi c \<Longrightarrow> c \<in> phis" if "reaching_def idom e stores phis b s" for s
    using that by (induction rule: reaching_def.induct) auto
  then show "reaching_def idom e stores phis b (At_phi c) \<Longrightarrow> c \<in> phis" by blast
qed

lemma denotes_extend:
  assumes "reaching_def idom e stores phis b s" "set vs \<inter> phis = {}" "denotes idom e stores phis xs s r"
  shows "denotes idom e stores phis (xs @ vs) s r"
proof (cases s)
  case (At_phi c)
  from assms(3)[unfolded At_phi] obtain zs p s2 ys where q: "xs = ys @ p # c # zs" "c \<notin> set zs"
      "reaching_def idom e stores phis p s2" "denotes idom e stores phis (ys @ [p]) s2 r"
    by (cases rule: denotes_phiE) auto
  have "c \<in> phis" using reaching_def_phi assms(1) unfolding At_phi by fast
  then have "c \<notin> set (zs @ vs)" using q(2) assms(2) by auto
  from denotes.of_phi[OF this q(3,4)] show ?thesis unfolding At_phi q(1) by simp
qed (use assms(3) in \<open>auto elim!: denotes_storeE denotes_undefinedE intro: denotes.intros\<close>)

lemma reaching_def_total:
  assumes o: "rpo_order N succ pred e bs" and t: "exact_tree succ e idom"
  shows "reaches succ e b \<Longrightarrow> \<exists>s. reaching_def idom e stores phis b s"
proof (induction "nat (N b)" arbitrary: b rule: less_induct)
  case less
  show ?case
  proof (cases "b \<in> stores \<or> b \<in> phis \<or> b = e")
    case True
    then show ?thesis by (cases "b \<in> stores"; cases "b \<in> phis") (auto intro: reaching_def.intros)
  next
    case False
    obtain m where m: "idom b = Some m" using exact_treeD(3)[OF t less.prems] by blast
    have rm: "reaches succ e m" using exact_tree_reaches[OF t m] by blast
    have "N m < N b" using dom_stateD(3)[OF exact_tree_state[OF o t] m] False by blast
    then have "nat (N m) < nat (N b)" using rpo_orderD(3)[OF o rm] by simp
    from less.hyps[OF this rm] show ?thesis using False m reaching_def.from_parent by metis
  qed
qed

definition last_store :: "bref set \<Rightarrow> bref list \<Rightarrow> bref option" where
  "last_store stores xs = find (\<lambda>x. x \<in> stores) (rev xs)"

lemma last_store_snoc: "last_store stores (xs @ [b]) = (if b \<in> stores then Some b else last_store stores xs)"
  by (simp add: last_store_def)

lemma last_store_skip: "set vs \<inter> stores = {} \<Longrightarrow> last_store stores (xs @ vs) = last_store stores xs"
  by (induction vs rule: rev_induct) (auto simp: last_store_snoc simp flip: append_assoc)

text \<open>The theorem on any graph with the exact tree and phis closed under frontiers.\<close>

lemma reaching_denotes:
  assumes o: "rpo_order N succ pred e bs" and t: "exact_tree succ e idom"
    and cl: "\<And>x y. x \<in> stores \<union> phis \<Longrightarrow> reaches succ e x \<Longrightarrow> frontier succ e x y \<Longrightarrow> y \<in> phis"
    and en: "e \<notin> phis" "\<And>a. reaches succ e a \<Longrightarrow> e \<notin> set (succ a)"
  shows "cfg_path succ e xs b \<Longrightarrow> reaching_def idom e stores phis b s \<Longrightarrow>
    denotes idom e stores phis xs s (last_store stores xs)"
proof (induction "length xs" arbitrary: xs b s rule: less_induct)
  case less
  have rb: "reaches succ e b" using less.prems(1) by (auto simp: reaches_def)
  consider "b \<in> stores" | "b \<notin> stores" "b \<in> phis" | "b \<notin> stores" "b \<notin> phis" "b = e" | "b \<notin> stores" "b \<notin> phis" "b \<noteq> e"
    by blast
  then show ?case
  proof cases
    case 1
    then have "s = At_store b" using reaching_def_unique[OF reaching_def.own_store less.prems(2)] by blast
    moreover obtain ys where "xs = ys @ [b]"
      using less.prems(1) unfolding cfg_path_iff by (metis append_butlast_last_id)
    ultimately show ?thesis using 1 by (auto simp: last_store_snoc intro: denotes.intros)
  next
    case 2
    have s: "s = At_phi b" using 2 reaching_def_unique[OF reaching_def.own_phi less.prems(2)] by blast
    from less.prems(1) 2 en(1) obtain ys a where ys: "xs = ys @ [b]" "cfg_path succ e ys a"
      by (cases rule: cfg_path.cases) auto
    then obtain us where us: "ys = us @ [a]" unfolding cfg_path_iff by (metis append_butlast_last_id)
    have "reaches succ e a" using ys(2) by (auto simp: reaches_def)
    then obtain s' where s': "reaching_def idom e stores phis a s'" using reaching_def_total[OF o t] by blast
    have d: "denotes idom e stores phis (us @ [a]) s' (last_store stores ys)"
      using less.hyps[OF _ ys(2) s'] ys(1) us by simp
    have "denotes idom e stores phis (us @ a # b # []) (At_phi b) (last_store stores ys)"
      by (rule denotes.of_phi[OF _ s' d]) simp
    then show ?thesis using s ys(1) us 2(1) last_store_snoc[of stores ys b] by simp
  next
    case 3
    have "s = Undefined" using 3 reaching_def_unique[OF reaching_def.at_entry less.prems(2)[unfolded 3(3)]] by blast
    moreover have "xs = [e]"
      using less.prems(1) unfolding 3(3)
    proof (cases rule: cfg_path.cases)
      case (step ys a)
      then show ?thesis using en(2)[of a] by (auto simp: reaches_def)
    qed simp
    ultimately show ?thesis using 3 by (auto simp: last_store_def intro: denotes.intros)
  next
    case 4
    obtain m where m: "idom b = Some m" "reaching_def idom e stores phis m s"
      using less.prems(2) 4 by (cases rule: reaching_def.cases) auto
    have i: "is_idom succ e m b" by (rule exact_treeD(4)[OF t m(1) 4(3)])
    obtain ys where ys: "xs = ys @ [b]" using less.prems(1) unfolding cfg_path_iff by (metis append_butlast_last_id)
    have "m \<in> set xs" using i less.prems(1) by (auto simp: is_idom_def dominates_def)
    then have "m \<in> set ys" using ys i by (auto simp: is_idom_def)
    then obtain us vs where u: "ys = us @ m # vs" "m \<notin> set vs" using split_list_last by metis
    have p: "cfg_path succ e (us @ m # vs @ [b]) b" using less.prems(1) ys u(1) by simp
    have none: "set vs \<inter> (stores \<union> phis) = {}"
      by (rule no_def_between[OF o p i u(2) cl]) (use 4 in auto)
    have "denotes idom e stores phis (us @ [m]) s (last_store stores (us @ [m]))"
      by (rule less.hyps[OF _ path_cut[OF p] m(2)]) (simp add: ys u(1))
    from denotes_extend[OF m(2) _ this, of "vs @ [b]"]
    have "denotes idom e stores phis ((us @ [m]) @ vs @ [b]) s (last_store stores (us @ [m]))" using none 4 by auto
    moreover have "last_store stores ((us @ [m]) @ vs @ [b]) = last_store stores (us @ [m])"
      by (rule last_store_skip) (use none 4 in auto)
    ultimately show ?thesis using ys u(1) by simp
  qed
qed

section \<open>On a function\<close>

lemma df_runner_adds:
  "df_runner idom y p df = Some df' \<Longrightarrow> set (df' r) \<subseteq> insert y (set (df r))"
proof -
  assume "df_runner idom y p df = Some df'"
  then show ?thesis
  proof (rule df_runner.raw_induct[where P = "\<lambda>idom y p df df'. set (df' r) \<subseteq> insert y (set (df r))", rotated])
    fix run :: "(bref \<Rightarrow> bref option) \<Rightarrow> bref \<Rightarrow> bref \<Rightarrow> (bref \<Rightarrow> bref list) \<Rightarrow> (bref \<Rightarrow> bref list) option" and idom y p df df'
    assume ih: "\<And>idom y p df df'. run idom y p df = Some df' \<Longrightarrow> set (df' r) \<subseteq> insert y (set (df r))"
      and body: "(if Some p = idom y then Some df
        else let df1 = (if y \<in> set (df p) then df else df(p := df p @ [y]))
             in case idom p of None \<Rightarrow> Some df1 | Some q \<Rightarrow> run idom y q df1) = Some df'"
    define df1 where "df1 = (if y \<in> set (df p) then df else df(p := df p @ [y]))"
    have a: "set (df1 r) \<subseteq> insert y (set (df r))" by (auto simp: df1_def)
    have b: "Some p = idom y \<and> df' = df \<or> (idom p = None \<and> df' = df1) \<or> (\<exists>q. run idom y q df1 = Some df')"
      using body unfolding df1_def[symmetric] Let_def by (auto split: if_splits option.splits)
    then show "set (df' r) \<subseteq> insert y (set (df r))" using ih a by blast
  qed
qed

lemma df_preds_adds: "df_preds idom y ps df = Some df' \<Longrightarrow> set (df' r) \<subseteq> insert y (set (df r))"
proof (induction ps arbitrary: df)
  case (Cons p ps)
  then obtain df1 where "df_runner idom y p df = Some df1" "df_preds idom y ps df1 = Some df'" by (auto split: option.splits)
  then show ?case using Cons.IH[of df1] df_runner_adds[of idom y p df df1 r] by blast
qed auto

lemma df_blocks_adds: "df_blocks pred idom ys df = Some df' \<Longrightarrow> set (df' r) \<subseteq> {y \<in> set ys. 2 \<le> length (pred y)} \<union> set (df r)"
proof (induction ys arbitrary: df)
  case (Cons y ys)
  show ?case
  proof (cases "length (pred y) < 2")
    case True
    then show ?thesis using Cons by auto
  next
    case False
    then obtain df1 where "df_preds idom y (pred y) df = Some df1" "df_blocks pred idom ys df1 = Some df'"
      using Cons.prems by (auto split: option.splits)
    then show ?thesis using Cons.IH[of df1] df_preds_adds[of idom y "pred y" df df1 r] False by auto
  qed
qed auto

lemma frontiers_in_function:
  assumes "mir_compute_dom_frontiers f d = Some d1" "b \<in> set (block_list f)"
  shows "set (dom_frontier_of d1 b) \<subseteq> {y \<in> set (block_list f). 2 \<le> length (cfg_preds f y)}"
proof -
  obtain df where "df_blocks (cfg_preds f) (idom_of d) (block_list f)
      (\<lambda>b. if b \<in> set (block_list f) then [] else dom_frontier_of d b) = Some df" "d1 = d\<lparr>dom_frontier_of := df\<rparr>"
    using assms(1) by (auto simp: mir_compute_dom_frontiers_def split: option.splits)
  then show ?thesis using df_blocks_adds[of "cfg_preds f" "idom_of d" "block_list f" _ df b] assms(2) by fastforce
qed

lemmas frontiers_in_blocks = frontiers_in_function[THEN subset_trans, OF _ _ Collect_restrict]

lemma iterated_frontier_source:
  "iterated_frontier df defs y \<Longrightarrow> \<exists>x. (x \<in> defs \<or> iterated_frontier df defs x) \<and> y \<in> set (df x)"
  by (induction rule: iterated_frontier.induct) blast+

text \<open>The blocks that have a phi for the slot.\<close>

definition phi_blocks :: "MirFunction \<Rightarrow> IdfState \<Rightarrow> bref set" where
  "phi_blocks f s = {b \<in> set (block_list f). phi_map s (block_ident f b) \<noteq> None}"

lemma no_back_edge:
  assumes w: "cfg_wf f e" and en: "cfg_preds f e = []" and a: "reaches (cfg_succs f) e a"
  shows "e \<notin> set (cfg_succs f a)"
  using w en cfg_wf_reaches[OF w a] by (auto simp: cfg_wf_def)

lemma frontier_listed:
  assumes w: "cfg_wf f e" and en: "cfg_preds f e = []"
    and d: "mir_compute_dominators f dom_init = Some d" "mir_compute_dom_frontiers f d = Some d1"
    and x: "reaches (cfg_succs f) e x"
  shows "y \<in> set (dom_frontier_of d1 x) \<longleftrightarrow> frontier (cfg_succs f) e x y"
proof -
  have "frontier (cfg_succs f) e x y \<Longrightarrow> y \<noteq> e" using no_back_edge[OF w en] unfolding frontier_def by blast
  then show ?thesis using frontier_fields[OF w d] x by blast
qed

text \<open>The placement ends, and the blocks that get a phi are those reached by repeated frontiers.\<close>

lemma placed_blocks:
  assumes w: "cfg_wf f e" and en: "cfg_preds f e = []"
    and d: "mir_compute_dominators f dom_init = Some d" "mir_compute_dom_frontiers f d = Some d1"
    and defs: "\<And>x. x \<in> set defs \<Longrightarrow> reaches (cfg_succs f) e x"
  shows "\<exists>s. idf_loop (dom_frontier_of d1) ty (seed_worklist f defs) = Some s
     \<and> phi_blocks f s = {y. \<exists>x \<in> set defs. (x, y) \<in> {(x, y). frontier (cfg_succs f) e x y}\<^sup>+}"
proof -
  let ?F = "{(x, y). frontier (cfg_succs f) e x y}"
  have inj: "inj_on (block_ident f) (set (block_list f))" using w by (simp add: cfg_wf_def distinct_map)
  have sub: "set defs \<subseteq> set (block_list f)" using defs cfg_wf_reaches[OF w] by blast
  obtain s where s: "idf_loop (dom_frontier_of d1) ty (seed_worklist f defs) = Some s"
      "\<And>b. b \<in> set (block_list f) \<Longrightarrow> phi_map s (block_ident f b) \<noteq> None \<longleftrightarrow> iterated_frontier (dom_frontier_of d1) (set defs) b"
    using idf_placement[where df = "dom_frontier_of d1", OF inj sub frontiers_in_blocks[OF d(2)], of ty] by blast
  have target: "reaches (cfg_succs f) e y" if "frontier (cfg_succs f) e x y" for x y
    using that reaches_step unfolding frontier_def by blast
  have to: "(\<exists>x \<in> set defs. (x, y) \<in> ?F\<^sup>+) \<and> reaches (cfg_succs f) e y"
    if "iterated_frontier (dom_frontier_of d1) (set defs) y" for y
    using that
  proof (induction rule: iterated_frontier.induct)
    case (of_def x y)
    then have "frontier (cfg_succs f) e x y" using frontier_listed[OF w en d defs] by blast
    then show ?case using of_def(1) target by blast
  next
    case (of_phi x y)
    then have "frontier (cfg_succs f) e x y" using frontier_listed[OF w en d] by blast
    then show ?case using of_phi.IH target by (auto intro: trancl_into_trancl)
  qed
  have "iterated_frontier (dom_frontier_of d1) (set defs) y" if "x \<in> set defs" "(x, y) \<in> ?F\<^sup>+" for x y
    using that(2)
  proof (induction rule: trancl_induct)
    case (base y)
    then show ?case using frontier_listed[OF w en d defs[OF that(1)]] that(1) by (auto intro: iterated_frontier.of_def)
  next
    case (step y z)
    then show ?case using frontier_listed[OF w en d, of y z] to[OF step.IH] by (auto intro: iterated_frontier.of_phi)
  qed
  moreover have "y \<in> phi_blocks f s \<longleftrightarrow> y \<in> set (block_list f) \<and> iterated_frontier (dom_frontier_of d1) (set defs) y" for y
    using s(2) by (auto simp: phi_blocks_def)
  ultimately have "y \<in> phi_blocks f s \<longleftrightarrow> (\<exists>x \<in> set defs. (x, y) \<in> ?F\<^sup>+)" for y
    using to cfg_wf_reaches[OF w] by blast
  then have "phi_blocks f s = {y. \<exists>x \<in> set defs. (x, y) \<in> ?F\<^sup>+}" by blast
  then show ?thesis using s(1) by blast
qed

text \<open>
  The phis placed for a slot are enough.  Whatever path an execution takes from the entry to a block, the
  definition the dominator tree gives for the slot at the end of the block, read through the phis along
  that path, is the last block on the path that stores to the slot, or undefined when none does.
\<close>

theorem promoted_reads_last_store:
  assumes w: "cfg_wf f e" and en: "cfg_preds f e = []"
    and d: "mir_compute_dominators f dom_init = Some d" "mir_compute_dom_frontiers f d = Some d1"
    and defs: "set defs \<subseteq> set (block_list f)"
    and s: "idf_loop (dom_frontier_of d1) ty (seed_worklist f defs) = Some s"
    and p: "cfg_path (cfg_succs f) e xs b"
  shows "\<exists>site. reaching_def (idom_of d1) e (set defs) (phi_blocks f s) b site
     \<and> (\<forall>r. denotes (idom_of d1) e (set defs) (phi_blocks f s) xs site r \<longleftrightarrow> r = last_store (set defs) xs)"
proof -
  let ?s = "cfg_succs f"
  have inj: "inj_on (block_ident f) (set (block_list f))" using w by (simp add: cfg_wf_def distinct_map)
  have ph: "y \<in> phi_blocks f s \<longleftrightarrow> y \<in> set (block_list f) \<and> iterated_frontier (dom_frontier_of d1) (set defs) y" for y
    using idf_placement[where df = "dom_frontier_of d1", OF inj defs frontiers_in_blocks[OF d(2)], of ty] s by (auto simp: phi_blocks_def)
  obtain bs where o: "rpo_order (rpo_map (block_ident f) (e # bs)) ?s (cfg_preds f) e bs"
    using compute_rpo_order[OF cfg_wf_graph_ok[OF w]] by blast
  have t: "exact_tree ?s e (idom_of d)" using compute_dominators_ok[OF w, of dom_init] d(1) by (auto simp: dom_init_def)
  have id: "idom_of d1 = idom_of d" using d(2) by (auto simp: mir_compute_dom_frontiers_def split: option.splits)
  note ent = no_back_edge[OF w en]
  have cl: "y \<in> phi_blocks f s" if x: "x \<in> set defs \<union> phi_blocks f s" "reaches ?s e x" "frontier ?s e x y" for x y
  proof -
    obtain q where q: "reaches ?s e q" "y \<in> set (?s q)" using x(3) unfolding frontier_def by blast
    then have "y \<in> set (block_list f)" using cfg_wf_reaches[OF w reaches_step[OF q]] by blast
    moreover have "y \<in> set (dom_frontier_of d1 x)" using frontier_listed[OF w en d x(2)] x(3) by blast
    ultimately show ?thesis using x(1) ph[of x] ph[of y] by (auto intro: iterated_frontier.intros)
  qed
  have "e \<notin> phi_blocks f s"
  proof
    assume "e \<in> phi_blocks f s"
    then obtain x where "x \<in> set defs \<or> iterated_frontier (dom_frontier_of d1) (set defs) x" "e \<in> set (dom_frontier_of d1 x)"
      using iterated_frontier_source[of "dom_frontier_of d1" "set defs" e] ph by blast
    moreover have "x \<in> set (block_list f)" if "iterated_frontier (dom_frontier_of d1) (set defs) x" for x
      using that
    proof (induction rule: iterated_frontier.induct)
      case (of_def x y)
      then show ?case using defs frontiers_in_blocks[OF d(2), of x] by blast
    next
      case (of_phi x y)
      then show ?case using frontiers_in_blocks[OF d(2), of x] by blast
    qed
    ultimately have "x \<in> set (block_list f)" using defs by blast
    then show False using frontiers_in_function[OF d(2), of x] \<open>e \<in> set (dom_frontier_of d1 x)\<close> en by auto
  qed
  have rb: "reaches ?s e b" using p by (auto simp: reaches_def)
  obtain site where site: "reaching_def (idom_of d1) e (set defs) (phi_blocks f s) b site"
    using reaching_def_total[OF o t rb, of "set defs" "phi_blocks f s"] id by auto
  have "denotes (idom_of d1) e (set defs) (phi_blocks f s) xs site (last_store (set defs) xs)"
    using reaching_denotes[OF o t cl \<open>e \<notin> phi_blocks f s\<close> ent p] site id by simp
  then show ?thesis using site denotes_unique by blast
qed

section \<open>The loop of the witnesses\<close>

lemma loop_tree:
  "\<exists>d d1. mir_compute_dominators loop_function dom_init = Some d \<and> mir_compute_dom_frontiers loop_function d = Some d1
     \<and> map (idom_of d1) [0..<6] = [Some 0, Some 0, Some 1, Some 1, Some 1, Some 4]"
proof -
  have "map_option (\<lambda>d. map (idom_of d) [0..<6])
     (Option.bind (mir_compute_dominators loop_function dom_init) (mir_compute_dom_frontiers loop_function))
   = Some [Some 0, Some 0, Some 1, Some 1, Some 1, Some 4]" by code_simp
  then show ?thesis by (auto simp: bind_eq_Some_conv)
qed

lemma loop_entry: "cfg_preds loop_function 0 = []"
  by code_simp

lemma loop_path: "cfg_path (cfg_succs loop_function) 0 [0, 1, 2, 4, 1, 3, 4, 5] 5"
  unfolding cfg_path_iff by code_simp

text \<open>The block 2 stores; on the way to 5 through 2 and then 3, the phis lead back to that store.\<close>

theorem promoted_reads_last_store_witness:
  "\<exists>d d1 s site. mir_compute_dominators loop_function dom_init = Some d \<and> mir_compute_dom_frontiers loop_function d = Some d1
     \<and> idf_loop (dom_frontier_of d1) (Some 0) (seed_worklist loop_function [2]) = Some s
     \<and> denotes (idom_of d1) 0 {2} (phi_blocks loop_function s) [0, 1, 2, 4, 1, 3, 4, 5] site (Some 2)"
proof -
  obtain d d1 where d: "mir_compute_dominators loop_function dom_init = Some d" "mir_compute_dom_frontiers loop_function d = Some d1"
    using loop_tree by blast
  have inj: "inj_on (block_ident loop_function) (set (block_list loop_function))" using loop_cfg_wf by (simp add: cfg_wf_def distinct_map)
  have sub: "set [2] \<subseteq> set (block_list loop_function)" using cfg_wf_reaches[OF loop_cfg_wf loop_reaches[of 2]] by simp
  obtain s where s: "idf_loop (dom_frontier_of d1) (Some 0) (seed_worklist loop_function [2]) = Some s"
    using idf_placement[where df = "dom_frontier_of d1", OF inj sub frontiers_in_blocks[OF d(2)], of "Some 0"] by blast
  have "last_store (set [2]) [0, 1, 2, 4, 1, 3, 4, 5] = Some 2" by (simp add: last_store_def)
  then show ?thesis
    using promoted_reads_last_store[OF loop_cfg_wf loop_entry d sub s loop_path] d s by auto
qed

end
