(* ===== verification/Rename_Facts.thy ===== *)
theory Rename_Facts
  imports Phi_Facts "HOL-Library.Multiset"
begin

text \<open>
  What renaming does: along the dominator tree it meets every reachable block once, leaves the value
  stacks as it found them, removes every load and store of a promoted slot, and gives each phi one
  edge for each reachable predecessor.
\<close>

section \<open>Properties kept by rewriting blocks\<close>

lemma blocks_upd: "blocks (upd_block f b u) ! x = (if x = b \<and> b < length (blocks f) then u (blocks f ! b) else blocks f ! x)"
  by (auto simp: upd_block_def nth_list_update list_update_beyond not_less)

lemma foldl_upd_keeps:
  assumes "\<And>x. Q x \<Longrightarrow> Q (u x)"
  shows "Q (blocks f ! b) \<Longrightarrow> Q (blocks (foldl (\<lambda>g b. upd_block g b u) f bs) ! b)"
proof (induction bs arbitrary: f)
  case (Cons a bs)
  have "Q (blocks (upd_block f a u) ! b)" using Cons.prems assms by (auto simp: blocks_upd)
  then show ?case using Cons.IH by simp
qed simp

lemma foldl_upd_same_cfg:
  assumes "\<And>x. bb_id (u x) = bb_id x \<and> successors (u x) = successors x \<and> predecessors (u x) = predecessors x"
  shows "same_cfg f (foldl (\<lambda>g b. upd_block g b u) f bs)"
proof (induction bs arbitrary: f)
  case (Cons b bs)
  show ?case using same_cfg_trans[OF same_cfg_upd[of u f b, OF assms] Cons.IH[of "upd_block f b u"]] by simp
qed simp

section \<open>Uses of the slots\<close>

fun slot_use :: "MirValueId set \<Rightarrow> MirOp \<Rightarrow> bool" where
  "slot_use A (LOAD p) = (p \<in> A)"
| "slot_use A (STORE p v) = (p \<in> A)"
| "slot_use A _ = False"

definition slot_free :: "MirValueId set \<Rightarrow> MirBlock \<Rightarrow> bool" where
  "slot_free A blk \<longleftrightarrow> (\<forall>i \<in> set (insts blk). \<not> slot_use A (iop i))"

text \<open>No store puts the address of a slot into memory.\<close>

fun stores_no_slot :: "MirValueId set \<Rightarrow> MirOp \<Rightarrow> bool" where
  "stores_no_slot A (STORE p v) = (v \<notin> A)"
| "stores_no_slot A _ = True"

definition block_ok :: "MirValueId set \<Rightarrow> MirBlock \<Rightarrow> bool" where
  "block_ok A blk \<longleftrightarrow> (\<forall>i \<in> set (insts blk). stores_no_slot A (iop i))"

lemma rename_slot_use: "n \<notin> A \<Longrightarrow> slot_use A (rename_in_op o' n p) \<Longrightarrow> slot_use A p"
  by (cases p) (auto simp: subst_id_def split: if_splits)

lemma rename_stores_no_slot: "n \<notin> A \<Longrightarrow> stores_no_slot A p \<Longrightarrow> stores_no_slot A (rename_in_op o' n p)"
  by (cases p) (auto simp: subst_id_def)

lemma rename_is_phi [simp]: "is_phi (rename_in_op o' n p) = is_phi p"
  by (cases p) auto

text \<open>The blocks a phi has edges from.\<close>

definition edge_sources :: "MirOp \<Rightarrow> MirBlockP list" where
  "edge_sources p = (case p of PHI es \<Rightarrow> map fst es | _ \<Rightarrow> [])"

lemma edge_sources_simps [simp]:
  "edge_sources (PHI es) = map fst es" "\<not> is_phi p \<Longrightarrow> edge_sources p = []"
  by (cases p; simp add: edge_sources_def)+

lemma rename_edge_sources [simp]: "edge_sources (rename_in_op o' n p) = edge_sources p"
  by (cases p) (auto simp: edge_sources_def)

definition phis_named :: "MirValueId \<Rightarrow> MirBlock \<Rightarrow> MirInst list" where
  "phis_named v blk = filter (\<lambda>i. result i = v \<and> is_phi (iop i)) (insts blk)"

definition sources :: "MirValueId \<Rightarrow> MirBlock \<Rightarrow> MirBlockP multiset" where
  "sources v blk = mset (concat (map (edge_sources \<circ> iop) (phis_named v blk)))"

text \<open>The slots a block allocates.\<close>

fun is_alloca :: "MirOp \<Rightarrow> bool" where
  "is_alloca (ALLOCA t n) = True"
| "is_alloca _ = False"

definition allocated :: "MirBlock \<Rightarrow> MirValueId list" where
  "allocated blk = map result (filter (\<lambda>i. is_alloca (iop i)) (insts blk))"

lemma rename_is_alloca [simp]: "is_alloca (rename_in_op o' n p) = is_alloca p"
  by (cases p) auto

text \<open>Replacing a value keeps all of it.\<close>

definition ren_block :: "MirValueId \<Rightarrow> MirValueId \<Rightarrow> MirBlock \<Rightarrow> MirBlock" where
  "ren_block old new = map_insts (\<lambda>i. i\<lparr>iop := rename_in_op old new (iop i)\<rparr>)"

lemma ren_block_props:
  "length (insts (ren_block old new x)) = length (insts x)"
  "n < length (insts x) \<Longrightarrow> insts (ren_block old new x) ! n = (insts x ! n)\<lparr>iop := rename_in_op old new (iop (insts x ! n))\<rparr>"
  "bb_id (ren_block old new x) = bb_id x \<and> successors (ren_block old new x) = successors x
     \<and> predecessors (ren_block old new x) = predecessors x"
  "new \<notin> A \<Longrightarrow> slot_free A x \<Longrightarrow> slot_free A (ren_block old new x)"
  "new \<notin> A \<Longrightarrow> block_ok A x \<Longrightarrow> block_ok A (ren_block old new x)"
  "length (phis_named v (ren_block old new x)) = length (phis_named v x)"
  "sources v (ren_block old new x) = sources v x"
  "allocated (ren_block old new x) = allocated x"
proof -
  show "new \<notin> A \<Longrightarrow> slot_free A x \<Longrightarrow> slot_free A (ren_block old new x)"
    using rename_slot_use by (fastforce simp: slot_free_def ren_block_def map_insts_def)
  show "new \<notin> A \<Longrightarrow> block_ok A x \<Longrightarrow> block_ok A (ren_block old new x)"
    using rename_stores_no_slot by (fastforce simp: block_ok_def ren_block_def map_insts_def)
  have p: "phis_named v (ren_block old new x) = map (\<lambda>i. i\<lparr>iop := rename_in_op old new (iop i)\<rparr>) (phis_named v x)"
    by (simp add: phis_named_def ren_block_def map_insts_def filter_map comp_def)
  show "length (phis_named v (ren_block old new x)) = length (phis_named v x)" by (simp add: p)
  show "sources v (ren_block old new x) = sources v x" by (simp add: sources_def p comp_def)
qed (simp_all add: ren_block_def map_insts_def allocated_def filter_map comp_def)

lemma rename_uses_foldl: "rename_uses f old new = foldl (\<lambda>g b. upd_block g b (ren_block old new)) f (block_list f)"
  by (simp add: rename_uses_def ren_block_def)

lemma rename_uses_keeps:
  "same_cfg f (rename_uses f old new)"
  "length (insts (blocks (rename_uses f old new) ! b)) = length (insts (blocks f ! b))"
  "new \<notin> A \<Longrightarrow> slot_free A (blocks f ! b) \<Longrightarrow> slot_free A (blocks (rename_uses f old new) ! b)"
  "new \<notin> A \<Longrightarrow> block_ok A (blocks f ! b) \<Longrightarrow> block_ok A (blocks (rename_uses f old new) ! b)"
  "length (phis_named v (blocks (rename_uses f old new) ! b)) = length (phis_named v (blocks f ! b))"
  "sources v (blocks (rename_uses f old new) ! b) = sources v (blocks f ! b)"
  "allocated (blocks (rename_uses f old new) ! b) = allocated (blocks f ! b)"
  unfolding rename_uses_foldl
  by (rule foldl_upd_same_cfg, simp add: ren_block_props)
    (rule foldl_upd_keeps, use ren_block_props in \<open>simp; fail\<close>, simp)+

text \<open>A prefix of a block without uses of the slots stays without.\<close>

definition prefix_free :: "MirValueId set \<Rightarrow> nat \<Rightarrow> MirBlock \<Rightarrow> bool" where
  "prefix_free A k blk \<longleftrightarrow> (\<forall>i < k. i < length (insts blk) \<longrightarrow> \<not> slot_use A (iop (insts blk ! i)))"

lemma prefix_free_rename:
  assumes "new \<notin> A"
  shows "prefix_free A k (blocks f ! b) \<Longrightarrow> prefix_free A k (blocks (rename_uses f old new) ! b)"
  unfolding rename_uses_foldl
  by (rule foldl_upd_keeps) (use rename_slot_use[OF assms] ren_block_props(1,2) in \<open>auto simp: prefix_free_def\<close>)

lemma slot_free_prefix: "prefix_free A (length (insts blk)) blk \<longleftrightarrow> slot_free A blk"
  unfolding prefix_free_def slot_free_def all_set_conv_all_nth by blast

text \<open>Removing an instruction that is no phi.\<close>

lemma remove_inst_props:
  assumes "k < length (insts x)"
  shows "length (insts (remove_inst x k)) = length (insts x) - 1"
    "bb_id (remove_inst x k) = bb_id x \<and> successors (remove_inst x k) = successors x \<and> predecessors (remove_inst x k) = predecessors x"
    "prefix_free A k x \<Longrightarrow> prefix_free A k (remove_inst x k)"
    "block_ok A x \<Longrightarrow> block_ok A (remove_inst x k)"
    "slot_free A x \<Longrightarrow> slot_free A (remove_inst x k)"
    "\<not> is_phi (iop (insts x ! k)) \<Longrightarrow> phis_named v (remove_inst x k) = phis_named v x"
    "\<not> is_phi (iop (insts x ! k)) \<Longrightarrow> sources v (remove_inst x k) = sources v x"
    "\<not> is_alloca (iop (insts x ! k)) \<Longrightarrow> allocated (remove_inst x k) = allocated x"
proof -
  show "length (insts (remove_inst x k)) = length (insts x) - 1"
    "bb_id (remove_inst x k) = bb_id x \<and> successors (remove_inst x k) = successors x \<and> predecessors (remove_inst x k) = predecessors x"
    "prefix_free A k x \<Longrightarrow> prefix_free A k (remove_inst x k)"
    using assms by (auto simp: remove_inst_def prefix_free_def nth_append)
  have sub: "set (insts (remove_inst x k)) \<subseteq> set (insts x)"
    using set_take_subset[of k "insts x"] set_drop_subset[of "Suc k" "insts x"] by (auto simp: remove_inst_def)
  show "block_ok A x \<Longrightarrow> block_ok A (remove_inst x k)" "slot_free A x \<Longrightarrow> slot_free A (remove_inst x k)"
    using sub by (auto simp: block_ok_def slot_free_def)
  have f: "filter q (insts x) = filter q (take k (insts x)) @ filter q (insts x ! k # drop (Suc k) (insts x))" for q
    using id_take_nth_drop[OF assms] by (metis filter_append)
  show p: "phis_named v (remove_inst x k) = phis_named v x" if "\<not> is_phi (iop (insts x ! k))"
    using that by (simp add: phis_named_def remove_inst_def f)
  show "allocated (remove_inst x k) = allocated x" if "\<not> is_alloca (iop (insts x ! k))"
    using that by (simp add: allocated_def remove_inst_def f)
  show "sources v (remove_inst x k) = sources v x" if "\<not> is_phi (iop (insts x ! k))"
    by (simp add: sources_def p[OF that])
qed

section \<open>The state of the renaming\<close>

definition static_ctxs :: "RenameState \<Rightarrow> AllocaRenameCtx list" where
  "static_ctxs s = map (\<lambda>c. c\<lparr>stack := []\<rparr>) (ren_ctxs s)"

abbreviation slots :: "AllocaRenameCtx list \<Rightarrow> MirValueId set" where
  "slots C \<equiv> ctx_alloca ` set C"

lemma phi_of_stack [simp]: "phi_of (c\<lparr>stack := vs\<rparr>) i = phi_of c i"
  by (simp add: phi_of_def)

text \<open>
  The invariant: the graph and the contexts are those of the start, no value that could be filled in is
  the address of a slot, and each slot has one phi instruction in each block it has a phi in.
\<close>

definition ren_inv :: "MirFunction \<Rightarrow> AllocaRenameCtx list \<Rightarrow> RenameState \<Rightarrow> bool" where
  "ren_inv f C s \<longleftrightarrow> same_cfg f (ren_func s) \<and> static_ctxs s = C
     \<and> (\<forall>c \<in> set (ren_ctxs s). set (stack c) \<inter> slots C = {})
     \<and> (\<forall>b \<in> set (block_list f). block_ok (slots C) (blocks (ren_func s) ! b))
     \<and> (\<forall>c \<in> set C. \<forall>y \<in> set (block_list f). \<forall>v. phi_of c (block_ident f y) = Some v \<longrightarrow>
          length (phis_named v (blocks (ren_func s) ! y)) = 1)"

text \<open>What a step keeps besides: slot-free blocks, the edges of the phis, and the lower part of the stacks.\<close>

definition ctx_ext :: "AllocaRenameCtx list \<Rightarrow> AllocaRenameCtx list \<Rightarrow> bool" where
  "ctx_ext cs cs' \<longleftrightarrow> length cs' = length cs \<and> (\<forall>i < length cs. \<exists>vs. cs' ! i = (cs ! i)\<lparr>stack := vs @ stack (cs ! i)\<rparr>)"

definition ren_step :: "MirValueId set \<Rightarrow> RenameState \<Rightarrow> RenameState \<Rightarrow> bool" where
  "ren_step A s s' \<longleftrightarrow>
     (\<forall>x. slot_free A (blocks (ren_func s) ! x) \<longrightarrow> slot_free A (blocks (ren_func s') ! x))
     \<and> (\<forall>v x. sources v (blocks (ren_func s') ! x) = sources v (blocks (ren_func s) ! x))
     \<and> (\<forall>x. allocated (blocks (ren_func s') ! x) = allocated (blocks (ren_func s) ! x))
     \<and> ctx_ext (ren_ctxs s) (ren_ctxs s')"

lemma ctx_ext_refl: "ctx_ext cs cs"
proof -
  have "cs ! i = (cs ! i)\<lparr>stack := [] @ stack (cs ! i)\<rparr>" for i by simp
  then show ?thesis unfolding ctx_ext_def by blast
qed

lemma ctx_ext_trans:
  assumes "ctx_ext xs ys" "ctx_ext ys zs"
  shows "ctx_ext xs zs"
  unfolding ctx_ext_def
proof (intro conjI allI impI)
  show "length zs = length xs" using assms by (simp add: ctx_ext_def)
  fix i assume i: "i < length xs"
  obtain us where us: "ys ! i = (xs ! i)\<lparr>stack := us @ stack (xs ! i)\<rparr>" using assms(1) i unfolding ctx_ext_def by blast
  have "i < length ys" using assms(1) i by (simp add: ctx_ext_def)
  then obtain vs where vs: "zs ! i = (ys ! i)\<lparr>stack := vs @ stack (ys ! i)\<rparr>" using assms(2) unfolding ctx_ext_def by blast
  have "zs ! i = (xs ! i)\<lparr>stack := (vs @ us) @ stack (xs ! i)\<rparr>" unfolding vs us by simp
  then show "\<exists>vs. zs ! i = (xs ! i)\<lparr>stack := vs @ stack (xs ! i)\<rparr>" by blast
qed

lemma ctx_ext_slots: "ctx_ext cs cs' \<Longrightarrow> map (\<lambda>c. c\<lparr>stack := []\<rparr>) cs' = map (\<lambda>c. c\<lparr>stack := []\<rparr>) cs"
proof (rule nth_equalityI)
  fix i assume e: "ctx_ext cs cs'" and "i < length (map (\<lambda>c. c\<lparr>stack := []\<rparr>) cs')"
  then have i: "i < length cs" "i < length cs'" by (simp_all add: ctx_ext_def)
  then obtain vs where "cs' ! i = (cs ! i)\<lparr>stack := vs @ stack (cs ! i)\<rparr>" using e unfolding ctx_ext_def by blast
  then show "map (\<lambda>c. c\<lparr>stack := []\<rparr>) cs' ! i = map (\<lambda>c. c\<lparr>stack := []\<rparr>) cs ! i" using i by simp
qed (simp add: ctx_ext_def)

lemma static_slots: "static_ctxs s = C \<Longrightarrow> slots C = ctx_alloca ` set (ren_ctxs s)"
  by (force simp: static_ctxs_def image_image)

lemma ren_step_refl: "ren_step A s s"
  by (simp add: ren_step_def ctx_ext_refl)

lemma ren_stepD:
  assumes "ren_step A s s'"
  shows "slot_free A (blocks (ren_func s) ! x) \<Longrightarrow> slot_free A (blocks (ren_func s') ! x)"
    "sources v (blocks (ren_func s') ! x) = sources v (blocks (ren_func s) ! x)"
    "ctx_ext (ren_ctxs s) (ren_ctxs s')"
    "allocated (blocks (ren_func s') ! x) = allocated (blocks (ren_func s) ! x)"
  using assms unfolding ren_step_def by blast+

lemma ren_step_trans:
  assumes "ren_step A s t" "ren_step A t u"
  shows "ren_step A s u"
  unfolding ren_step_def
proof (intro conjI allI impI)
  show "slot_free A (blocks (ren_func u) ! x)" if "slot_free A (blocks (ren_func s) ! x)" for x
    by (rule ren_stepD(1)[OF assms(2) ren_stepD(1)[OF assms(1) that]])
  show "sources v (blocks (ren_func u) ! x) = sources v (blocks (ren_func s) ! x)" for v x
    using ren_stepD(2)[OF assms(1)] ren_stepD(2)[OF assms(2)] by simp
  show "allocated (blocks (ren_func u) ! x) = allocated (blocks (ren_func s) ! x)" for x
    using ren_stepD(4)[OF assms(1)] ren_stepD(4)[OF assms(2)] by simp
  show "ctx_ext (ren_ctxs s) (ren_ctxs u)" by (rule ctx_ext_trans[OF ren_stepD(3)[OF assms(1)] ren_stepD(3)[OF assms(2)]])
qed

lemma ctx_indexD:
  assumes "ctx_index (ren_ctxs s) p = Some a" "static_ctxs s = C"
  shows "a < length (ren_ctxs s)" "ctx_alloca (ren_ctxs s ! a) = p" "p \<in> slots C"
proof -
  show a: "a < length (ren_ctxs s)" "ctx_alloca (ren_ctxs s ! a) = p"
    using find_index_Some assms(1) unfolding ctx_index_def by blast+
  then show "p \<in> slots C" using static_slots[OF assms(2)] nth_mem by auto
qed

lemma ctx_index_None:
  assumes "ctx_index (ren_ctxs s) p = None" "static_ctxs s = C"
  shows "p \<notin> slots C"
  using assms(1) unfolding static_slots[OF assms(2)] by (auto simp: ctx_index_def find_index_None)

lemma ren_invD:
  assumes "ren_inv f C s"
  shows "same_cfg f (ren_func s)" "static_ctxs s = C" "c \<in> set (ren_ctxs s) \<Longrightarrow> set (stack c) \<inter> slots C = {}"
    "b \<in> set (block_list f) \<Longrightarrow> block_ok (slots C) (blocks (ren_func s) ! b)"
    "c' \<in> set C \<Longrightarrow> y \<in> set (block_list f) \<Longrightarrow> phi_of c' (block_ident f y) = Some v \<Longrightarrow>
       length (phis_named v (blocks (ren_func s) ! y)) = 1"
  using assms unfolding ren_inv_def by blast+

lemma vs_top_no_slot:
  assumes "ren_inv f C s" "a < length (ren_ctxs s)" "MIR_VALUE_NONE \<notin> slots C"
  shows "vs_top (ren_ctxs s ! a) \<notin> slots C"
proof (cases "stack (ren_ctxs s ! a)")
  case (Cons v vs)
  then show ?thesis using ren_invD(3)[OF assms(1) nth_mem[OF assms(2)]] by (auto simp: vs_top_def)
qed (use assms(3) in \<open>simp add: vs_top_def\<close>)

section \<open>Loads and stores\<close>

lemma rename_load_ok:
  assumes i: "ren_inv f C s" and z: "MIR_VALUE_NONE \<notin> slots C" and b: "b < length (blocks f)" "k < length (insts (blocks (ren_func s) ! b))"
    and ld: "iop (inst_at (ren_func s) b k) = LOAD p" and a: "a < length (ren_ctxs s)"
    and pf: "prefix_free (slots C) k (blocks (ren_func s) ! b)"
  shows "ren_inv f C (rename_load b k a s) \<and> ren_step (slots C) s (rename_load b k a s)
     \<and> length (insts (blocks (ren_func (rename_load b k a s)) ! b)) = length (insts (blocks (ren_func s) ! b)) - 1
     \<and> prefix_free (slots C) k (blocks (ren_func (rename_load b k a s)) ! b)"
proof -
  define g where "g = rename_uses (ren_func s) (result (inst_at (ren_func s) b k)) (vs_top (ren_ctxs s ! a))"
  have top: "vs_top (ren_ctxs s ! a) \<notin> slots C" by (rule vs_top_no_slot[OF i a z])
  note keep = rename_uses_keeps[where f = "ren_func s" and old = "result (inst_at (ren_func s) b k)"
      and new = "vs_top (ren_ctxs s ! a)", folded g_def]
  note pre = prefix_free_rename[OF top pf, where old = "result (inst_at (ren_func s) b k)", folded g_def]
  have "k < length (insts (blocks g ! b)) \<and> \<not> is_phi (iop (insts (blocks g ! b) ! k)) \<and> \<not> is_alloca (iop (insts (blocks g ! b) ! k))"
    unfolding g_def rename_uses_foldl
    by (rule foldl_upd_keeps) (use b ld in \<open>auto simp: ren_block_props inst_at_def\<close>)
  then have gk: "k < length (insts (blocks g ! b))" "\<not> is_phi (iop (insts (blocks g ! b) ! k))"
    "\<not> is_alloca (iop (insts (blocks g ! b) ! k))" by blast+
  have bg: "b < length (blocks g)" using keep(1) ren_invD(1)[OF i] b(1) by (simp add: same_cfg_def)
  have blk: "blocks (ren_func (rename_load b k a s)) ! x = (if x = b then remove_inst (blocks g ! b) k else blocks g ! x)" for x
    using bg by (simp add: rename_load_def g_def[symmetric] blocks_upd)
  note rm = remove_inst_props[OF gk(1)]
  have "same_cfg f (ren_func (rename_load b k a s))"
  proof (rule same_cfg_trans[OF same_cfg_trans[OF ren_invD(1)[OF i] keep(1)]])
    show "same_cfg g (ren_func (rename_load b k a s))"
      unfolding rename_load_def g_def[symmetric] by simp (rule same_cfg_upd, simp add: remove_inst_def)
  qed
  moreover have "block_ok (slots C) (blocks (ren_func (rename_load b k a s)) ! x)" if "x \<in> set (block_list f)" for x
    using keep(4)[OF top ren_invD(4)[OF i that]] rm(4) by (auto simp: blk)
  moreover have "length (phis_named v (blocks (ren_func (rename_load b k a s)) ! y)) = length (phis_named v (blocks (ren_func s) ! y))" for y v
    using keep(5)[of v y] rm(6)[OF gk(2)] by (auto simp: blk)
  ultimately have "ren_inv f C (rename_load b k a s)"
    using ren_invD(2,3,5)[OF i] unfolding ren_inv_def by (auto simp: rename_load_def static_ctxs_def)
  moreover have "ren_step (slots C) s (rename_load b k a s)"
    unfolding ren_step_def blk using keep(3)[OF top] keep(6,7) rm(5) rm(7)[OF gk(2)] rm(8)[OF gk(3)] ctx_ext_refl
    by (auto simp: rename_load_def)
  ultimately show ?thesis using rm(1,3) pre keep(2)[of b] by (simp add: blk)
qed

lemma rename_store_ok:
  assumes i: "ren_inv f C s" and b: "b < length (blocks f)" "b \<in> set (block_list f)" "k < length (insts (blocks (ren_func s) ! b))"
    and st: "iop (inst_at (ren_func s) b k) = STORE p v" and a: "a < length (ren_ctxs s)"
    and pf: "prefix_free (slots C) k (blocks (ren_func s) ! b)"
  shows "ren_inv f C (rename_store b k a v s) \<and> ren_step (slots C) s (rename_store b k a v s)
     \<and> length (insts (blocks (ren_func (rename_store b k a v s)) ! b)) = length (insts (blocks (ren_func s) ! b)) - 1
     \<and> prefix_free (slots C) k (blocks (ren_func (rename_store b k a v s)) ! b)"
proof -
  have np: "\<not> is_phi (iop (insts (blocks (ren_func s) ! b) ! k))" "\<not> is_alloca (iop (insts (blocks (ren_func s) ! b) ! k))"
    using st by (simp_all add: inst_at_def)
  have bg: "b < length (blocks (ren_func s))" using ren_invD(1)[OF i] b(1) by (simp add: same_cfg_def)
  have blk: "blocks (ren_func (rename_store b k a v s)) ! x
      = (if x = b then remove_inst (blocks (ren_func s) ! b) k else blocks (ren_func s) ! x)" for x
    using bg by (simp add: rename_store_def blocks_upd)
  note rm = remove_inst_props[OF b(3)]
  have "stores_no_slot (slots C) (iop (insts (blocks (ren_func s) ! b) ! k))"
    using ren_invD(4)[OF i b(2)] nth_mem[OF b(3)] unfolding block_ok_def by blast
  then have v: "v \<notin> slots C" using st by (simp add: inst_at_def)
  have "same_cfg f (ren_func (rename_store b k a v s))"
    by (rule same_cfg_trans[OF ren_invD(1)[OF i]]) (simp add: rename_store_def, rule same_cfg_upd, simp add: remove_inst_def)
  moreover have "static_ctxs (rename_store b k a v s) = C"
    using ren_invD(2)[OF i] a
    by (intro nth_equalityI) (auto simp: static_ctxs_def rename_store_def vs_push_def nth_list_update)
  moreover have "set (stack c) \<inter> slots C = {}" if "c \<in> set (ren_ctxs (rename_store b k a v s))" for c
  proof -
    have "c \<in> set (ren_ctxs s) \<or> c = vs_push (ren_ctxs s ! a) v"
      using that set_update_subset_insert by (fastforce simp: rename_store_def)
    then show ?thesis using ren_invD(3)[OF i] ren_invD(3)[OF i nth_mem[OF a]] v unfolding vs_push_def by fastforce
  qed
  moreover have "block_ok (slots C) (blocks (ren_func (rename_store b k a v s)) ! x)" if "x \<in> set (block_list f)" for x
    using ren_invD(4)[OF i that] rm(4) by (auto simp: blk)
  moreover have "length (phis_named w (blocks (ren_func (rename_store b k a v s)) ! y)) = length (phis_named w (blocks (ren_func s) ! y))" for y w
    using rm(6)[OF np(1)] by (auto simp: blk)
  ultimately have "ren_inv f C (rename_store b k a v s)" using ren_invD(5)[OF i] unfolding ren_inv_def by simp
  moreover have "ctx_ext (ren_ctxs s) (ren_ctxs (rename_store b k a v s))"
    using a unfolding rename_store_def ctx_ext_def
    by (auto simp: nth_list_update vs_push_def intro: exI[of _ "[v]"] exI[of _ "[]"])
  then have "ren_step (slots C) s (rename_store b k a v s)" unfolding ren_step_def blk using rm(5) rm(7)[OF np(1)] rm(8)[OF np(2)] by simp
  ultimately show ?thesis using rm(1,3) pf by (simp add: blk)
qed

lemma rename_insts_ok:
  assumes z: "MIR_VALUE_NONE \<notin> slots C" and b: "b < length (blocks f)" "b \<in> set (block_list f)"
  shows "ren_inv f C s \<Longrightarrow> length (insts (blocks (ren_func s) ! b)) = k + n \<Longrightarrow> prefix_free (slots C) k (blocks (ren_func s) ! b) \<Longrightarrow>
    ren_inv f C (rename_insts b k n s) \<and> ren_step (slots C) s (rename_insts b k n s)
    \<and> slot_free (slots C) (blocks (ren_func (rename_insts b k n s)) ! b)"
proof (induction n arbitrary: k s)
  case 0
  then show ?case using slot_free_prefix[of "slots C" "blocks (ren_func s) ! b"] ren_step_refl by simp
next
  case (Suc n)
  let ?op = "iop (inst_at (ren_func s) b k)"
  have k: "k < length (insts (blocks (ren_func s) ! b))" using Suc.prems(2) by simp
  have skip: "rename_insts b k (Suc n) s = rename_insts b (Suc k) n s \<Longrightarrow> \<not> slot_use (slots C) ?op \<Longrightarrow> ?case"
    using Suc.IH[of s "Suc k"] Suc.prems by (auto simp: prefix_free_def inst_at_def less_Suc_eq)
  consider (load) p where "?op = LOAD p" | (store) p v where "?op = STORE p v"
    | (other) "\<And>p. ?op \<noteq> LOAD p" "\<And>p v. ?op \<noteq> STORE p v" by metis
  then show ?case
  proof cases
    case load
    show ?thesis
    proof (cases "ctx_index (ren_ctxs s) p")
      case None
      then show ?thesis using skip load ctx_index_None[OF None ren_invD(2)[OF Suc.prems(1)]] by simp
    next
      case (Some a)
      note r = rename_load_ok[OF Suc.prems(1) z b(1) k load ctx_indexD(1)[OF Some ren_invD(2)[OF Suc.prems(1)]] Suc.prems(3)]
      have "rename_insts b k (Suc n) s = rename_insts b k n (rename_load b k a s)" using load Some by simp
      then show ?thesis using Suc.IH[of "rename_load b k a s" k] r Suc.prems(2) ren_step_trans by auto
    qed
  next
    case store
    show ?thesis
    proof (cases "ctx_index (ren_ctxs s) p")
      case None
      then show ?thesis using skip store ctx_index_None[OF None ren_invD(2)[OF Suc.prems(1)]] by simp
    next
      case (Some a)
      note r = rename_store_ok[OF Suc.prems(1) b k store ctx_indexD(1)[OF Some ren_invD(2)[OF Suc.prems(1)]] Suc.prems(3)]
      have "rename_insts b k (Suc n) s = rename_insts b k n (rename_store b k a v s)" using store Some by simp
      then show ?thesis using Suc.IH[of "rename_store b k a v s" k] r Suc.prems(2) ren_step_trans by auto
    qed
  next
    case other
    then have "rename_insts b k (Suc n) s = rename_insts b (Suc k) n s" "\<not> slot_use (slots C) ?op" by (cases ?op; simp)+
    then show ?thesis by (rule skip)
  qed
qed

section \<open>The edges of the phis\<close>

text \<open>The edge one block gives to the phi of one slot in one successor.\<close>

definition edge_block :: "bref \<Rightarrow> MirValueId \<Rightarrow> MirValueId \<Rightarrow> MirBlock \<Rightarrow> MirBlock" where
  "edge_block bb v val = map_insts (\<lambda>i. if result i = v
     then (case mir_phi_add_edge i bb val of None \<Rightarrow> i | Some j \<Rightarrow> j) else i)"

lemma edge_inst:
  "mir_phi_add_edge i bb val = (case iop i of PHI es \<Rightarrow> Some (i\<lparr>iop := PHI (es @ [(Some bb, val)])\<rparr>) | _ \<Rightarrow> None)"
  by (simp add: mir_phi_add_edge_def)

lemma edge_block_props:
  "bb_id (edge_block bb v val x) = bb_id x \<and> successors (edge_block bb v val x) = successors x
     \<and> predecessors (edge_block bb v val x) = predecessors x"
  "slot_free A x \<Longrightarrow> slot_free A (edge_block bb v val x)"
  "block_ok A x \<Longrightarrow> block_ok A (edge_block bb v val x)"
  "length (phis_named w (edge_block bb v val x)) = length (phis_named w x)"
  "length (phis_named v x) = 1 \<Longrightarrow> sources v (edge_block bb v val x) = add_mset (Some bb) (sources v x)"
  "w \<noteq> v \<Longrightarrow> sources w (edge_block bb v val x) = sources w x"
  "allocated (edge_block bb v val x) = allocated x"
proof -
  let ?e = "\<lambda>i. if result i = v then (case mir_phi_add_edge i bb val of None \<Rightarrow> i | Some j \<Rightarrow> j) else i"
  have ins: "insts (edge_block bb v val x) = map ?e (insts x)" by (simp add: edge_block_def map_insts_def)
  have e: "result (?e i) = result i" "is_phi (iop (?e i)) = is_phi (iop i)" "slot_use A (iop (?e i)) = slot_use A (iop i)"
    "stores_no_slot A (iop (?e i)) = stores_no_slot A (iop i)" "is_alloca (iop (?e i)) = is_alloca (iop i)" for i A
    by (cases "iop i"; simp add: edge_inst)+
  have named: "phis_named w (edge_block bb v val x) = map ?e (phis_named w x)" for w
    using e(1,2) by (simp add: phis_named_def ins filter_map comp_def)
  show "allocated (edge_block bb v val x) = allocated x"
    using e(1,5) by (simp add: allocated_def ins filter_map comp_def)
  show "slot_free A x \<Longrightarrow> slot_free A (edge_block bb v val x)" unfolding slot_free_def ins set_map ball_simps e(3) .
  show "block_ok A x \<Longrightarrow> block_ok A (edge_block bb v val x)" unfolding block_ok_def ins set_map ball_simps e(4) .
  show "length (phis_named w (edge_block bb v val x)) = length (phis_named w x)" by (simp add: named)
  show "sources v (edge_block bb v val x) = add_mset (Some bb) (sources v x)" if one: "length (phis_named v x) = 1"
  proof -
    obtain i where i: "phis_named v x = [i]" using one by (cases "phis_named v x") auto
    then have "i \<in> set (phis_named v x)" by simp
    then have "result i = v" "is_phi (iop i)" by (simp_all add: phis_named_def)
    then show ?thesis unfolding sources_def named i by (cases "iop i") (auto simp: edge_inst)
  qed
  show "sources w (edge_block bb v val x) = sources w x" if "w \<noteq> v"
  proof -
    have "map ?e (phis_named w x) = phis_named w x" using that by (intro map_idI) (auto simp: phis_named_def)
    then show ?thesis by (simp only: sources_def named)
  qed
qed (simp add: edge_block_def map_insts_def)

lemma add_incoming_eq:
  "add_incoming bb y g c = (case phi_of c (block_ident g y) of None \<Rightarrow> g | Some v \<Rightarrow> upd_block g y (edge_block bb v (vs_top c)))"
  by (simp add: add_incoming_def edge_block_def[abs_def] split: option.split)

text \<open>What the edges leave alone.\<close>

definition edge_step :: "MirValueId set \<Rightarrow> MirFunction \<Rightarrow> MirFunction \<Rightarrow> bool" where
  "edge_step A g h \<longleftrightarrow> same_cfg g h
     \<and> (\<forall>x. slot_free A (blocks g ! x) \<longrightarrow> slot_free A (blocks h ! x))
     \<and> (\<forall>x. block_ok A (blocks g ! x) \<longrightarrow> block_ok A (blocks h ! x))
     \<and> (\<forall>x v. length (phis_named v (blocks h ! x)) = length (phis_named v (blocks g ! x)))
     \<and> (\<forall>x. allocated (blocks h ! x) = allocated (blocks g ! x))"

lemma edge_step_refl: "edge_step A g g"
  by (simp add: edge_step_def)

lemma edge_step_trans: "edge_step A g h \<Longrightarrow> edge_step A h k \<Longrightarrow> edge_step A g k"
  unfolding edge_step_def using same_cfg_trans by auto

lemma add_incoming_step: "edge_step A g (add_incoming bb y g c)"
proof (cases "phi_of c (block_ident g y)")
  case (Some v)
  have "same_cfg g (upd_block g y (edge_block bb v (vs_top c)))" by (rule same_cfg_upd) (rule edge_block_props(1))
  then show ?thesis using Some edge_block_props(2-4,7) by (auto simp: add_incoming_eq edge_step_def blocks_upd)
qed (simp add: add_incoming_eq edge_step_refl)

lemma add_incomings_step: "edge_step A g (foldl (add_incoming bb y) g cs)"
  by (induction cs arbitrary: g) (auto intro: edge_step_refl edge_step_trans[OF add_incoming_step])

lemma fill_step: "edge_step A g (foldl (\<lambda>g y. foldl (add_incoming bb y) g cs) g ys)"
  by (induction ys arbitrary: g) (auto intro: edge_step_refl edge_step_trans[OF add_incomings_step])

text \<open>Different slots have different phis in a block.\<close>

definition phis_distinct :: "MirFunction \<Rightarrow> AllocaRenameCtx list \<Rightarrow> bool" where
  "phis_distinct f C \<longleftrightarrow> (\<forall>y \<in> set (block_list f). \<forall>z \<in> set (block_list f). \<forall>i < length C. \<forall>j < length C. \<forall>v.
     phi_of (C ! i) (block_ident f y) = Some v \<longrightarrow> phi_of (C ! j) (block_ident f z) = Some v \<longrightarrow> i = j \<and> y = z)"

lemma add_incoming_sources:
  assumes y: "y < length (blocks g)"
  shows "\<not> (phi_of c (block_ident g y) = Some v \<and> x = y) \<Longrightarrow> sources v (blocks (add_incoming bb y g c) ! x) = sources v (blocks g ! x)"
    "phi_of c (block_ident g y) = Some v \<Longrightarrow> length (phis_named v (blocks g ! y)) = 1 \<Longrightarrow>
       sources v (blocks (add_incoming bb y g c) ! y) = add_mset (Some bb) (sources v (blocks g ! y))"
  using y edge_block_props(5,6) by (auto simp: add_incoming_eq blocks_upd split: option.split)

lemma foldl_none:
  assumes y: "y < length (blocks g)"
    and no: "\<And>c. c \<in> set cs \<Longrightarrow> \<not> (phi_of c (block_ident g y) = Some v \<and> x = y)"
  shows "sources v (blocks (foldl (add_incoming bb y) g cs) ! x) = sources v (blocks g ! x)"
  using y no
proof (induction cs arbitrary: g)
  case (Cons c cs)
  have s: "same_cfg g (add_incoming bb y g c)" using add_incoming_step[of "{}"] by (simp add: edge_step_def)
  have "sources v (blocks (foldl (add_incoming bb y) (add_incoming bb y g c) cs) ! x) = sources v (blocks (add_incoming bb y g c) ! x)"
    by (rule Cons.IH) (use Cons.prems s in \<open>auto simp: same_cfg_def\<close>)
  then show ?case using add_incoming_sources(1)[OF Cons.prems(1)] Cons.prems(2)[of c] by simp
qed simp

lemma add_incomings_sources:
  assumes y: "y < length (blocks g)" and a: "a < length cs" "phi_of (cs ! a) (block_ident g y) = Some v"
    and uniq: "\<And>i. i < length cs \<Longrightarrow> phi_of (cs ! i) (block_ident g y) = Some v \<Longrightarrow> i = a"
    and one: "length (phis_named v (blocks g ! y)) = 1"
  shows "sources v (blocks (foldl (add_incoming bb y) g cs) ! x)
     = (if x = y then add_mset (Some bb) (sources v (blocks g ! x)) else sources v (blocks g ! x))"
proof -
  let ?g1 = "foldl (add_incoming bb y) g (take a cs)"
  let ?g2 = "add_incoming bb y ?g1 (cs ! a)"
  have cs: "cs = take a cs @ cs ! a # drop (Suc a) cs" using a(1) by (simp add: id_take_nth_drop)
  then have eq: "foldl (add_incoming bb y) g cs = foldl (add_incoming bb y) ?g2 (drop (Suc a) cs)"
    by (metis foldl_Cons foldl_append)
  have s1: "edge_step {} g ?g1" by (rule add_incomings_step)
  have s2: "edge_step {} g ?g2" by (rule edge_step_trans[OF s1 add_incoming_step])
  have before: "sources v (blocks ?g1 ! z) = sources v (blocks g ! z)" for z
  proof (rule foldl_none[OF y])
    fix c assume "c \<in> set (take a cs)"
    then obtain i where "i < a" "c = cs ! i" "i < length cs" using a(1) by (auto simp: in_set_conv_nth)
    then show "\<not> (phi_of c (block_ident g y) = Some v \<and> z = y)" using uniq by blast
  qed
  have "sources v (blocks (foldl (add_incoming bb y) ?g2 (drop (Suc a) cs)) ! x) = sources v (blocks ?g2 ! x)"
  proof (rule foldl_none)
    show "y < length (blocks ?g2)" using y s2 by (simp add: edge_step_def same_cfg_def)
    fix c assume "c \<in> set (drop (Suc a) cs)"
    then obtain i where "i < length cs - Suc a" "c = cs ! (Suc a + i)" by (auto simp: in_set_conv_nth)
    moreover have "Suc a + i < length cs" using calculation(1) by simp
    ultimately have "phi_of c (block_ident g y) \<noteq> Some v" using uniq[of "Suc a + i"] by auto
    then show "\<not> (phi_of c (block_ident ?g2 y) = Some v \<and> x = y)" using s2 by (simp add: edge_step_def same_cfg_def)
  qed
  moreover have "sources v (blocks ?g2 ! x)
      = (if x = y then add_mset (Some bb) (sources v (blocks g ! x)) else sources v (blocks g ! x))"
  proof -
    have g1: "y < length (blocks ?g1)" "phi_of (cs ! a) (block_ident ?g1 y) = Some v" "length (phis_named v (blocks ?g1 ! y)) = 1"
      using y a(2) one s1 by (simp_all add: edge_step_def same_cfg_def)
    show ?thesis
      using add_incoming_sources(1)[OF g1(1), of "cs ! a" v x bb] add_incoming_sources(2)[OF g1] before by auto
  qed
  ultimately show ?thesis unfolding eq by simp
qed

lemma fill_sources:
  assumes a: "a < length cs" and x: "phi_of (cs ! a) (block_ident g x) = Some v" "length (phis_named v (blocks g ! x)) = 1"
    and only: "\<And>y i. y \<in> set ys \<Longrightarrow> i < length cs \<Longrightarrow> phi_of (cs ! i) (block_ident g y) = Some v \<Longrightarrow> i = a \<and> y = x"
    and ys: "distinct ys" "set ys \<subseteq> {..<length (blocks g)}"
  shows "sources v (blocks (foldl (\<lambda>g y. foldl (add_incoming bb y) g cs) g ys) ! x)
     = (if x \<in> set ys then add_mset (Some bb) (sources v (blocks g ! x)) else sources v (blocks g ! x))"
  using x only ys
proof (induction ys arbitrary: g)
  case (Cons y ys)
  let ?g = "foldl (add_incoming bb y) g cs"
  have y: "y < length (blocks g)" using Cons.prems(5) by simp
  have "edge_step {} g ?g" by (rule add_incomings_step)
  then have id: "block_ident ?g = block_ident g" "length (blocks ?g) = length (blocks g)"
    "length (phis_named v (blocks ?g ! z)) = length (phis_named v (blocks g ! z))" for z
    by (simp_all add: edge_step_def same_cfg_def)
  have o1: "i < length cs \<Longrightarrow> phi_of (cs ! i) (block_ident g y) = Some v \<Longrightarrow> i = a \<and> y = x" for i
    using Cons.prems(3)[of y i] by simp
  have "sources v (blocks ?g ! x)
      = (if x = y then add_mset (Some bb) (sources v (blocks g ! x)) else sources v (blocks g ! x))"
  proof (cases "x = y")
    case True
    show ?thesis unfolding True
      by (rule add_incomings_sources[OF y a]) (use Cons.prems(1,2) o1 True in auto)
  next
    case False
    have "sources v (blocks ?g ! x) = sources v (blocks g ! x)" by (rule foldl_none[OF y]) (use False in simp)
    then show ?thesis using False by simp
  qed
  moreover have "sources v (blocks (foldl (\<lambda>g y. foldl (add_incoming bb y) g cs) ?g ys) ! x)
     = (if x \<in> set ys then add_mset (Some bb) (sources v (blocks ?g ! x)) else sources v (blocks ?g ! x))"
  proof (rule Cons.IH)
    show "i = a \<and> z = x" if "z \<in> set ys" "i < length cs" "phi_of (cs ! i) (block_ident ?g z) = Some v" for z i
      using Cons.prems(3)[of z i] that by (simp add: id)
  qed (use Cons.prems(1,2,4,5) in \<open>simp_all add: id\<close>)
  ultimately show ?case using Cons.prems(4) by auto
qed simp

section \<open>One block\<close>

text \<open>What is asked of the function and of the contexts.\<close>

definition rename_ready :: "MirFunction \<Rightarrow> AllocaRenameCtx list \<Rightarrow> bool" where
  "rename_ready f C \<longleftrightarrow> MIR_VALUE_NONE \<notin> slots C \<and> phis_distinct f C
     \<and> (\<forall>b \<in> set (block_list f). b < length (blocks f) \<and> distinct (cfg_succs f b) \<and> set (cfg_succs f b) \<subseteq> set (block_list f))
     \<and> (\<forall>c \<in> set C. \<forall>y \<in> set (block_list f). \<forall>v. phi_of c (block_ident f y) = Some v \<longrightarrow> v \<notin> slots C)"

lemma push_phi_ext: "ctx_ext cs (map (push_phi i) cs)"
  unfolding ctx_ext_def
proof (intro conjI allI impI)
  fix k assume "k < length cs"
  then have "map (push_phi i) cs ! k = (cs ! k)\<lparr>stack := (case phi_of (cs ! k) i of None \<Rightarrow> [] | Some v \<Rightarrow> [v]) @ stack (cs ! k)\<rparr>"
    by (simp add: push_phi_def vs_push_def split: option.split)
  then show "\<exists>vs. map (push_phi i) cs ! k = (cs ! k)\<lparr>stack := vs @ stack (cs ! k)\<rparr>" by blast
qed simp

lemma push_phis_inv:
  assumes r: "rename_ready f C" and i: "ren_inv f C s" and b: "b \<in> set (block_list f)"
  shows "ren_inv f C (s\<lparr>ren_ctxs := map (push_phi (block_ident (ren_func s) b)) (ren_ctxs s)\<rparr>)"
proof -
  have id: "block_ident (ren_func s) = block_ident f" using ren_invD(1)[OF i] by (simp add: same_cfg_def)
  have "set (stack c) \<inter> slots C = {}" if c: "c \<in> set (map (push_phi (block_ident f b)) (ren_ctxs s))" for c
  proof -
    obtain c0 where c0: "c0 \<in> set (ren_ctxs s)" "c = push_phi (block_ident f b) c0" using c by auto
    show ?thesis
    proof (cases "phi_of c0 (block_ident f b)")
      case None
      then show ?thesis using c0 ren_invD(3)[OF i c0(1)] by (simp add: push_phi_def)
    next
      case (Some v)
      have "c0\<lparr>stack := []\<rparr> \<in> set C" using ren_invD(2)[OF i] c0(1) by (auto simp: static_ctxs_def)
      moreover have "phi_of (c0\<lparr>stack := []\<rparr>) (block_ident f b) = Some v" using Some by simp
      ultimately have "v \<notin> slots C" using r b unfolding rename_ready_def by blast
      then show ?thesis using Some c0 ren_invD(3)[OF i c0(1)] by (simp add: push_phi_def vs_push_def)
    qed
  qed
  moreover have "static_ctxs (s\<lparr>ren_ctxs := map (push_phi (block_ident f b)) (ren_ctxs s)\<rparr>) = C"
    using ctx_ext_slots[OF push_phi_ext, of "block_ident f b" "ren_ctxs s"] ren_invD(2)[OF i]
    by (simp add: static_ctxs_def del: map_map)
  ultimately show ?thesis unfolding id using ren_invD(1,4,5)[OF i] unfolding ren_inv_def by simp
qed

lemma visit_block_ok:
  assumes r: "rename_ready f C" and i: "ren_inv f C s" and b: "b \<in> set (block_list f)"
  shows "ren_inv f C (visit_block b s) \<and> ctx_ext (ren_ctxs s) (ren_ctxs (visit_block b s))
     \<and> slot_free (slots C) (blocks (ren_func (visit_block b s)) ! b)
     \<and> (\<forall>x. slot_free (slots C) (blocks (ren_func s) ! x) \<longrightarrow> slot_free (slots C) (blocks (ren_func (visit_block b s)) ! x))
     \<and> (\<forall>x. allocated (blocks (ren_func (visit_block b s)) ! x) = allocated (blocks (ren_func s) ! x))
     \<and> (\<forall>a < length C. \<forall>x \<in> set (block_list f). \<forall>v. phi_of (C ! a) (block_ident f x) = Some v \<longrightarrow>
          sources v (blocks (ren_func (visit_block b s)) ! x)
          = (if x \<in> set (cfg_succs f b) then add_mset (Some b) (sources v (blocks (ren_func s) ! x))
             else sources v (blocks (ren_func s) ! x)))"
proof -
  define s1 where "s1 = s\<lparr>ren_ctxs := map (push_phi (block_ident (ren_func s) b)) (ren_ctxs s)\<rparr>"
  define s2 where "s2 = rename_insts b 0 (length (insts (blocks (ren_func s1) ! b))) s1"
  have e: "visit_block b s = fill_incoming b s2" by (simp add: visit_block_def s1_def s2_def Let_def)
  have i1: "ren_inv f C s1" unfolding s1_def by (rule push_phis_inv[OF r i b])
  have rd: "MIR_VALUE_NONE \<notin> slots C" "b < length (blocks f)" "distinct (cfg_succs f b)" "set (cfg_succs f b) \<subseteq> set (block_list f)"
    using r b unfolding rename_ready_def by blast+
  have r2: "ren_inv f C s2 \<and> ren_step (slots C) s1 s2 \<and> slot_free (slots C) (blocks (ren_func s2) ! b)"
    unfolding s2_def by (rule rename_insts_ok[OF rd(1,2) b i1]) (simp_all add: prefix_free_def)
  note st = r2[THEN conjunct2, THEN conjunct1]
  have sc: "same_cfg f (ren_func s2)" using r2 ren_invD(1) by blast
  have su: "successors (blocks (ren_func s2) ! b) = cfg_succs f b" using sc by (simp add: same_cfg_def fun_eq_iff)
  define h where "h = foldl (\<lambda>g y. foldl (add_incoming b y) g (ren_ctxs s2)) (ren_func s2) (cfg_succs f b)"
  have e': "visit_block b s = s2\<lparr>ren_func := h\<rparr>" unfolding e fill_incoming_def su h_def ..
  have es: "edge_step A (ren_func s2) h" for A unfolding h_def by (rule fill_step)
  have "ren_inv f C (visit_block b s)"
  proof -
    note D = ren_invD[OF r2[THEN conjunct1]]
    have "same_cfg f h" using same_cfg_trans[OF D(1)] es unfolding edge_step_def by blast
    moreover have "block_ok (slots C) (blocks h ! x)" if "x \<in> set (block_list f)" for x
      using D(4)[OF that] es unfolding edge_step_def by blast
    moreover have "length (phis_named v (blocks h ! x)) = length (phis_named v (blocks (ren_func s2) ! x))" for v x
      using es[of "{}"] unfolding edge_step_def by blast
    moreover have "static_ctxs (s2\<lparr>ren_func := h\<rparr>) = C" using D(2) by (simp add: static_ctxs_def)
    ultimately show ?thesis using D(3,5) unfolding ren_inv_def e' by simp
  qed
  moreover have "ctx_ext (ren_ctxs s) (ren_ctxs (visit_block b s))"
    using ctx_ext_trans[OF push_phi_ext, of "block_ident (ren_func s) b" "ren_ctxs s"] ren_stepD(3)[OF st] by (simp add: e' s1_def)
  moreover have "slot_free (slots C) (blocks (ren_func (visit_block b s)) ! x)"
    if "slot_free (slots C) (blocks (ren_func s) ! x) \<or> x = b" for x
  proof -
    have "slot_free (slots C) (blocks (ren_func s2) ! x)" using that r2 ren_stepD(1)[OF st, of x] by (auto simp: s1_def)
    then show ?thesis using es unfolding edge_step_def by (simp add: e')
  qed
  moreover have "allocated (blocks (ren_func (visit_block b s)) ! x) = allocated (blocks (ren_func s) ! x)" for x
    using es[of "{}"] ren_stepD(4)[OF st, of x] unfolding edge_step_def by (simp add: e' s1_def)
  moreover have "sources v (blocks (ren_func (visit_block b s)) ! x)
      = (if x \<in> set (cfg_succs f b) then add_mset (Some b) (sources v (blocks (ren_func s) ! x))
         else sources v (blocks (ren_func s) ! x))"
    if a: "a < length C" and x: "x \<in> set (block_list f)" and v: "phi_of (C ! a) (block_ident f x) = Some v" for a x v
  proof -
    have cs: "length (ren_ctxs s2) = length C" "\<And>k i. k < length C \<Longrightarrow> phi_of (ren_ctxs s2 ! k) i = phi_of (C ! k) i"
      using r2 ren_invD(2)[of f C s2] by (auto simp: static_ctxs_def)
    have id: "block_ident (ren_func s2) = block_ident f" "length (blocks (ren_func s2)) = length (blocks f)"
      using sc by (simp_all add: same_cfg_def)
    have "sources v (blocks h ! x) = (if x \<in> set (cfg_succs f b) then add_mset (Some b) (sources v (blocks (ren_func s2) ! x))
        else sources v (blocks (ren_func s2) ! x))"
      unfolding h_def
    proof (rule fill_sources)
      show "a < length (ren_ctxs s2)" "phi_of (ren_ctxs s2 ! a) (block_ident (ren_func s2) x) = Some v"
        using a v cs id by simp_all
      show "length (phis_named v (blocks (ren_func s2) ! x)) = 1"
        using ren_invD(5)[OF r2[THEN conjunct1] nth_mem[OF a] x v] .
      show "distinct (cfg_succs f b)" "set (cfg_succs f b) \<subseteq> {..<length (blocks (ren_func s2))}"
        using rd r unfolding rename_ready_def id(2) by auto
      show "k = a \<and> y = x" if "y \<in> set (cfg_succs f b)" "k < length (ren_ctxs s2)"
          "phi_of (ren_ctxs s2 ! k) (block_ident (ren_func s2) y) = Some v" for y k
      proof -
        have "phi_of (C ! k) (block_ident f y) = Some v" "k < length C" "y \<in> set (block_list f)"
          using that cs id rd(4) by auto
        then show ?thesis using r a x v unfolding rename_ready_def phis_distinct_def by blast
      qed
    qed
    then show ?thesis using ren_stepD(2)[OF st, of v x] by (simp add: e' s1_def)
  qed
  ultimately show ?thesis by blast
qed

lemma restore_ok:
  assumes e: "ctx_ext (ren_ctxs s) (ren_ctxs s')" and i: "ren_inv f C s" "ren_inv f C s'"
  shows "ren_ctxs (restore_stacks (map (\<lambda>c. length (stack c)) (ren_ctxs s)) s') = ren_ctxs s"
    "ren_func (restore_stacks (map (\<lambda>c. length (stack c)) (ren_ctxs s)) s') = ren_func s'"
    "ren_inv f C (restore_stacks (map (\<lambda>c. length (stack c)) (ren_ctxs s)) s')"
proof -
  show 1: "ren_ctxs (restore_stacks (map (\<lambda>c. length (stack c)) (ren_ctxs s)) s') = ren_ctxs s"
  proof (rule nth_equalityI)
    show "length (ren_ctxs (restore_stacks (map (\<lambda>c. length (stack c)) (ren_ctxs s)) s')) = length (ren_ctxs s)"
      using e by (simp add: restore_stacks_def ctx_ext_def)
    fix k assume "k < length (ren_ctxs (restore_stacks (map (\<lambda>c. length (stack c)) (ren_ctxs s)) s'))"
    then have k: "k < length (ren_ctxs s)" "k < length (ren_ctxs s')" using e by (auto simp: restore_stacks_def ctx_ext_def)
    then obtain vs where "ren_ctxs s' ! k = (ren_ctxs s ! k)\<lparr>stack := vs @ stack (ren_ctxs s ! k)\<rparr>"
      using e unfolding ctx_ext_def by blast
    then show "ren_ctxs (restore_stacks (map (\<lambda>c. length (stack c)) (ren_ctxs s)) s') ! k = ren_ctxs s ! k"
      using k by (simp add: restore_stacks_def)
  qed
  show 2: "ren_func (restore_stacks (map (\<lambda>c. length (stack c)) (ren_ctxs s)) s') = ren_func s'"
    by (simp add: restore_stacks_def)
  show "ren_inv f C (restore_stacks (map (\<lambda>c. length (stack c)) (ren_ctxs s)) s')"
    using ren_invD(2,3)[OF i(1)] ren_invD(1,4,5)[OF i(2)] unfolding ren_inv_def 1 2 by (simp add: static_ctxs_def 1)
qed

section \<open>The dominator tree\<close>

definition subtree :: "(bref \<Rightarrow> bref list) \<Rightarrow> bref \<Rightarrow> bref \<Rightarrow> bref set" where
  "subtree succ e b = {x. reaches succ e x \<and> dominates succ e b x}"

lemma dominators_linear:
  assumes o: "rpo_order N succ pred e bs" and t: "exact_tree succ e idom"
  shows "reaches succ e x \<Longrightarrow> dominates succ e a x \<Longrightarrow> dominates succ e b x \<Longrightarrow> dominates succ e a b \<or> dominates succ e b a"
proof (induction "nat (N x)" arbitrary: x rule: less_induct)
  case less
  show ?case
  proof (cases "a = x \<or> b = x \<or> x = e")
    case True
    then show ?thesis using less.prems dominates_start[of succ e a] dominates_start[of succ e b] by auto
  next
    case False
    obtain m where m: "idom x = Some m" using exact_treeD(3)[OF t less.prems(1)] by blast
    have rm: "reaches succ e m" using exact_tree_reaches[OF t m] by blast
    have "N m < N x" using dom_stateD(3)[OF exact_tree_state[OF o t] m] False by blast
    then have lt: "nat (N m) < nat (N x)" using rpo_orderD(3)[OF o rm] by simp
    have "dominates succ e a m" "dominates succ e b m"
      using exact_treeD(4)[OF t m] False less.prems(2,3) unfolding is_idom_def by blast+
    then show ?thesis by (rule less.hyps[OF lt rm])
  qed
qed

text \<open>The children as the dominator computation leaves them.\<close>

definition tree_children :: "(bref \<Rightarrow> bref list) \<Rightarrow> bref \<Rightarrow> (bref \<Rightarrow> bref list) \<Rightarrow> bool" where
  "tree_children succ e kids \<longleftrightarrow> (\<forall>p. reaches succ e p \<longrightarrow> distinct (kids p)
     \<and> (\<forall>c. c \<in> set (kids p) \<longleftrightarrow> reaches succ e c \<and> c \<noteq> e \<and> is_idom succ e p c))"

lemma child_below:
  assumes o: "rpo_order N succ pred e bs" and t: "exact_tree succ e idom" and k: "tree_children succ e kids"
    and b: "reaches succ e b"
  shows "x \<in> subtree succ e b \<Longrightarrow> x \<noteq> b \<Longrightarrow> \<exists>c \<in> set (kids b). x \<in> subtree succ e c"
proof (induction "nat (N x)" arbitrary: x rule: less_induct)
  case less
  have x: "reaches succ e x" "dominates succ e b x" using less.prems(1) by (simp_all add: subtree_def)
  have xe: "x \<noteq> e" using x(2) less.prems(2) dominates_start by blast
  obtain m where m: "idom x = Some m" using exact_treeD(3)[OF t x(1)] by blast
  have i: "is_idom succ e m x" by (rule exact_treeD(4)[OF t m xe])
  show ?case
  proof (cases "m = b")
    case True
    then have "x \<in> set (kids b)" using k b x(1) xe i unfolding tree_children_def by blast
    then show ?thesis using x(1) dominates_refl by (auto simp: subtree_def)
  next
    case False
    have rm: "reaches succ e m" using exact_tree_reaches[OF t m] by blast
    have "N m < N x" using dom_stateD(3)[OF exact_tree_state[OF o t] m] xe by blast
    then have lt: "nat (N m) < nat (N x)" using rpo_orderD(3)[OF o rm] by simp
    have "dominates succ e b m" using i x(2) less.prems(2) unfolding is_idom_def by blast
    then obtain c where c: "c \<in> set (kids b)" "m \<in> subtree succ e c" using less.hyps[OF lt] rm False by (auto simp: subtree_def)
    have "dominates succ e m x" using i by (simp add: is_idom_def)
    then have "dominates succ e c x" using c(2) dominates_trans[of succ e c m x] by (simp add: subtree_def)
    then show ?thesis using x(1) c(1) by (auto simp: subtree_def)
  qed
qed

lemma subtree_split:
  assumes o: "rpo_order N succ pred e bs" and t: "exact_tree succ e idom" and k: "tree_children succ e kids"
    and b: "reaches succ e b"
  shows "subtree succ e b = insert b (\<Union>c \<in> set (kids b). subtree succ e c)"
    and "c \<in> set (kids b) \<Longrightarrow> b \<notin> subtree succ e c"
    and "c \<in> set (kids b) \<Longrightarrow> c' \<in> set (kids b) \<Longrightarrow> c \<noteq> c' \<Longrightarrow> subtree succ e c \<inter> subtree succ e c' = {}"
proof -
  have kid: "reaches succ e c \<and> is_idom succ e b c" if "c \<in> set (kids b)" for c
    using k b that unfolding tree_children_def by blast
  have "subtree succ e c \<subseteq> subtree succ e b" if "c \<in> set (kids b)" for c
    using kid[OF that] dominates_trans by (auto simp: subtree_def is_idom_def)
  moreover have "b \<in> subtree succ e b" using b dominates_refl by (auto simp: subtree_def)
  ultimately show "subtree succ e b = insert b (\<Union>c \<in> set (kids b). subtree succ e c)"
    using child_below[OF o t k b] by blast
  show nb: "b \<notin> subtree succ e c" if "c \<in> set (kids b)" for c
  proof
    assume "b \<in> subtree succ e c"
    then have "c = b" using dominates_antisym[OF o, of c b] kid[OF that] b by (auto simp: subtree_def is_idom_def)
    then show False using kid[OF that] by (simp add: is_idom_def)
  qed
  have no: "\<not> dominates succ e c c'" if "c \<in> set (kids b)" "c' \<in> set (kids b)" "c \<noteq> c'" for c c'
  proof
    assume "dominates succ e c c'"
    then have "dominates succ e c b" using kid[OF that(2)] that(3) unfolding is_idom_def by blast
    then show False using nb[OF that(1)] b by (simp add: subtree_def)
  qed
  show "subtree succ e c \<inter> subtree succ e c' = {}" if "c \<in> set (kids b)" "c' \<in> set (kids b)" "c \<noteq> c'"
    using dominators_linear[OF o t, of _ c c'] no[OF that] no[OF that(2,1)] that(3) by (auto simp: subtree_def)
qed

section \<open>The whole renaming\<close>

lemma rename_blocks_Cons:
  "rename_blocks kids (b # rest) s = Option.bind (rename_blocks kids [b] s) (rename_blocks kids rest)"
proof -
  have n: "rename_blocks kids [] s = Some s" for s by (simp add: rename_blocks.simps)
  show ?thesis
    by (simp add: rename_blocks.simps[of kids "b # rest"] rename_blocks.simps[of kids "[b]"] n)
qed

text \<open>What renaming a set \<open>D\<close> of blocks does.\<close>

definition renamed :: "MirFunction \<Rightarrow> AllocaRenameCtx list \<Rightarrow> bref set \<Rightarrow> RenameState \<Rightarrow> RenameState \<Rightarrow> bool" where
  "renamed f C D s s' \<longleftrightarrow> ren_inv f C s'
     \<and> (\<forall>x. slot_free (slots C) (blocks (ren_func s) ! x) \<or> x \<in> D \<longrightarrow> slot_free (slots C) (blocks (ren_func s') ! x))
     \<and> (\<forall>x. allocated (blocks (ren_func s') ! x) = allocated (blocks (ren_func s) ! x))
     \<and> (\<forall>a < length C. \<forall>x \<in> set (block_list f). \<forall>v. phi_of (C ! a) (block_ident f x) = Some v \<longrightarrow>
          sources v (blocks (ren_func s') ! x)
          = sources v (blocks (ren_func s) ! x) + image_mset Some (mset_set {p \<in> D. x \<in> set (cfg_succs f p)}))"

lemma renamed_refl: "ren_inv f C s \<Longrightarrow> renamed f C {} s s"
  by (simp add: renamed_def)

lemma renamed_trans:
  assumes "renamed f C D s t" "renamed f C E t u" "D \<inter> E = {}" "finite D" "finite E"
  shows "renamed f C (D \<union> E) s u"
  unfolding renamed_def
proof (intro conjI allI impI ballI)
  show "ren_inv f C u" using assms(2) by (simp add: renamed_def)
  show "slot_free (slots C) (blocks (ren_func u) ! x)"
    if "slot_free (slots C) (blocks (ren_func s) ! x) \<or> x \<in> D \<union> E" for x
    using assms(1,2) that unfolding renamed_def by blast
  show "allocated (blocks (ren_func u) ! x) = allocated (blocks (ren_func s) ! x)" for x
    using assms(1,2) unfolding renamed_def by simp
  fix a x v assume h: "a < length C" "x \<in> set (block_list f)" "phi_of (C ! a) (block_ident f x) = Some v"
  have "{p \<in> D \<union> E. x \<in> set (cfg_succs f p)} = {p \<in> D. x \<in> set (cfg_succs f p)} \<union> {p \<in> E. x \<in> set (cfg_succs f p)}" by blast
  then have "mset_set {p \<in> D \<union> E. x \<in> set (cfg_succs f p)}
      = mset_set {p \<in> D. x \<in> set (cfg_succs f p)} + mset_set {p \<in> E. x \<in> set (cfg_succs f p)}"
    using mset_set_Union[of "{p \<in> D. x \<in> set (cfg_succs f p)}" "{p \<in> E. x \<in> set (cfg_succs f p)}"] assms(3-5) by auto
  then show "sources v (blocks (ren_func u) ! x)
      = sources v (blocks (ren_func s) ! x) + image_mset Some (mset_set {p \<in> D \<union> E. x \<in> set (cfg_succs f p)})"
    using assms(1,2) h unfolding renamed_def by simp
qed

lemma rename_list:
  assumes one: "\<And>c s. c \<in> set ks \<Longrightarrow> ren_inv f C s \<Longrightarrow>
      \<exists>s'. rename_blocks kids [c] s = Some s' \<and> ren_ctxs s' = ren_ctxs s \<and> renamed f C (S c) s s'"
    and fin: "\<And>c. c \<in> set ks \<Longrightarrow> finite (S c)"
    and dis: "\<And>c c'. c \<in> set ks \<Longrightarrow> c' \<in> set ks \<Longrightarrow> c \<noteq> c' \<Longrightarrow> S c \<inter> S c' = {}" and d: "distinct ks"
  shows "ren_inv f C s \<Longrightarrow>
    \<exists>s'. rename_blocks kids ks s = Some s' \<and> ren_ctxs s' = ren_ctxs s \<and> renamed f C (\<Union>c \<in> set ks. S c) s s'"
  using assms
proof (induction ks arbitrary: s)
  case Nil
  then show ?case using renamed_refl by (simp add: rename_blocks.simps)
next
  case (Cons c ks)
  have c: "c \<in> set (c # ks)" by simp
  obtain s1 where s1: "rename_blocks kids [c] s = Some s1" "ren_ctxs s1 = ren_ctxs s" "renamed f C (S c) s s1"
    using Cons.prems(2)[OF c Cons.prems(1)] by blast
  have i1: "ren_inv f C s1" using s1(3) by (simp add: renamed_def)
  obtain s2 where s2: "rename_blocks kids ks s1 = Some s2" "ren_ctxs s2 = ren_ctxs s1" "renamed f C (\<Union>c \<in> set ks. S c) s1 s2"
    using Cons.IH[OF i1] Cons.prems by (auto simp: )
  have "S c \<inter> (\<Union>c \<in> set ks. S c) = {}" using Cons.prems(4)[OF c] Cons.prems(5) by fastforce
  then have "renamed f C (S c \<union> (\<Union>c \<in> set ks. S c)) s s2"
    by (rule renamed_trans[OF s1(3) s2(3)]) (use Cons.prems(3) in auto)
  moreover have "rename_blocks kids (c # ks) s = Some s2"
    unfolding rename_blocks_Cons[of kids c ks] using s1(1) s2(1) by simp
  ultimately show ?case using s1(2) s2(2) by auto
qed

lemma rename_subtree:
  assumes r: "rename_ready f C" and w: "cfg_wf f e" and t: "exact_tree (cfg_succs f) e idom" and k: "tree_children (cfg_succs f) e kids"
  shows "reaches (cfg_succs f) e b \<Longrightarrow> ren_inv f C s \<Longrightarrow>
    \<exists>s'. rename_blocks kids [b] s = Some s' \<and> ren_ctxs s' = ren_ctxs s \<and> renamed f C (subtree (cfg_succs f) e b) s s'"
proof (induction "card (subtree (cfg_succs f) e b)" arbitrary: b s rule: less_induct)
  case less
  let ?S = "subtree (cfg_succs f) e"
  obtain bs where o: "rpo_order (rpo_map (block_ident f) (e # bs)) (cfg_succs f) (cfg_preds f) e bs"
    using compute_rpo_order[OF cfg_wf_graph_ok[OF w]] by blast
  have bl: "b \<in> set (block_list f)" by (rule cfg_wf_reaches[OF w less.prems(1)])
  have fin: "finite (?S c)" for c
    by (rule finite_subset[of _ "set (block_list f)"]) (use cfg_wf_reaches[OF w] in \<open>auto simp: subtree_def\<close>)
  note split = subtree_split[OF o t k less.prems(1)]
  note en = visit_block_ok[OF r less.prems(2) bl]
  have i1: "ren_inv f C (visit_block b s)" using en by blast
  have kid: "\<exists>s'. rename_blocks kids [c] u = Some s' \<and> ren_ctxs s' = ren_ctxs u \<and> renamed f C (?S c) u s'"
    if c: "c \<in> set (kids b)" and u: "ren_inv f C u" for c u
  proof (rule less.hyps[OF _ _ u])
    have "?S c \<subseteq> ?S b" "b \<in> ?S b" using split(1) c by blast+
    then have "?S c \<subset> ?S b" using split(2)[OF c] by blast
    then show "card (?S c) < card (?S b)" by (rule psubset_card_mono[OF fin])
    show "reaches (cfg_succs f) e c" using k c less.prems(1) unfolding tree_children_def by blast
  qed
  have "distinct (kids b)" using k less.prems(1) unfolding tree_children_def by blast
  from rename_list[OF kid fin split(3) this i1] obtain s1
    where s1: "rename_blocks kids (kids b) (visit_block b s) = Some s1" "ren_ctxs s1 = ren_ctxs (visit_block b s)"
      "renamed f C (\<Union>c \<in> set (kids b). ?S c) (visit_block b s) s1" by blast
  have own: "renamed f C {b} s (visit_block b s)"
    unfolding renamed_def
  proof (intro conjI allI impI ballI)
    show "slot_free (slots C) (blocks (ren_func (visit_block b s)) ! x)"
      if "slot_free (slots C) (blocks (ren_func s) ! x) \<or> x \<in> {b}" for x using en that by blast
    show "allocated (blocks (ren_func (visit_block b s)) ! x) = allocated (blocks (ren_func s) ! x)" for x using en by blast
    fix a x v assume h: "a < length C" "x \<in> set (block_list f)" "phi_of (C ! a) (block_ident f x) = Some v"
    have "{p \<in> {b}. x \<in> set (cfg_succs f p)} = (if x \<in> set (cfg_succs f b) then {b} else {})" by auto
    then show "sources v (blocks (ren_func (visit_block b s)) ! x)
        = sources v (blocks (ren_func s) ! x) + image_mset Some (mset_set {p \<in> {b}. x \<in> set (cfg_succs f p)})"
      using en h by simp
  qed (rule i1)
  have "{b} \<inter> (\<Union>c \<in> set (kids b). ?S c) = {}" using split(2) by blast
  from renamed_trans[OF own s1(3) this] have ren: "renamed f C (?S b) s s1" using split(1) fin by simp
  let ?r = "restore_stacks (map (\<lambda>c. length (stack c)) (ren_ctxs s)) s1"
  have is1: "ren_inv f C s1" using s1(3) by (simp add: renamed_def)
  have "ctx_ext (ren_ctxs s) (ren_ctxs s1)" using en s1(2) by simp
  note res = restore_ok[OF this less.prems(2) is1]
  have "rename_blocks kids [b] s = Some ?r"
    using s1(1) by (simp add: rename_blocks.simps[of kids "[b]"] rename_blocks.simps[of kids "[]"])
  moreover have "renamed f C (?S b) s ?r" using ren res(2,3) unfolding renamed_def by simp
  ultimately show ?case using res(1) by blast
qed

end
