(* ===== verification/Mem2reg_Facts.thy ===== *)
theory Mem2reg_Facts
  imports Rename_Facts
begin

text \<open>
  The promotion as a whole: after it, no reachable block loads from, stores to or allocates a promoted
  slot, and every phi it made has one edge for each reachable predecessor.
\<close>

section \<open>What inserting an instruction changes\<close>

lemma insert_phi_eq:
  assumes "insert_phi f bb ty = (f1, v)"
  shows "v = next_value_id f" "next_value_id f1 = next_value_id f + 1"
    "x \<noteq> bb \<Longrightarrow> blocks f1 ! x = blocks f ! x"
    "bb < length (blocks f) \<Longrightarrow> \<exists>us vs. insts (blocks f ! bb) = us @ vs
       \<and> insts (blocks f1 ! bb) = us @ \<lparr>iop = PHI [], result = v, itype = ty\<rparr> # vs"
proof -
  have split: "\<exists>us vs. xs = us @ vs \<and> take n xs @ a # drop n xs = us @ a # vs" for xs :: "MirInst list" and n a
    by (intro exI[of _ "take n xs"] exI[of _ "drop n xs"]) simp
  show "v = next_value_id f" "next_value_id f1 = next_value_id f + 1" "x \<noteq> bb \<Longrightarrow> blocks f1 ! x = blocks f ! x"
    using assms by (auto simp: insert_phi_def mir_function_new_value_def Let_def upd_block_def)
  show "bb < length (blocks f) \<Longrightarrow> \<exists>us vs. insts (blocks f ! bb) = us @ vs
       \<and> insts (blocks f1 ! bb) = us @ \<lparr>iop = PHI [], result = v, itype = ty\<rparr> # vs"
    using assms split by (auto simp: insert_phi_def mir_function_new_value_def Let_def upd_block_def)
qed

text \<open>The slots of the contexts made so far; \<open>M\<close> are their phi maps, \<open>n0\<close> the first new id.\<close>

definition results_below :: "MirFunction \<Rightarrow> bool" where
  "results_below f \<longleftrightarrow> (\<forall>b \<in> set (block_list f). b < length (blocks f)
     \<and> (\<forall>i \<in> set (insts (blocks f ! b)). unat (result i) < unat (next_value_id f)))"

definition phi_inv :: "MirFunction \<Rightarrow> (nat \<Rightarrow> MirValueId option) list \<Rightarrow> MirFunction \<Rightarrow> bool" where
  "phi_inv f0 M f \<longleftrightarrow> same_cfg f0 f \<and> results_below f \<and> unat (next_value_id f0) \<le> unat (next_value_id f)
     \<and> (\<forall>k < length M. \<forall>y \<in> set (block_list f0). \<forall>v. (M ! k) (block_ident f0 y) = Some v \<longrightarrow>
          unat (next_value_id f0) \<le> unat v \<and> unat v < unat (next_value_id f) \<and> length (phis_named v (blocks f ! y)) = 1
          \<and> sources v (blocks f ! y) = {#})
     \<and> (\<forall>k < length M. \<forall>l < length M. \<forall>y \<in> set (block_list f0). \<forall>z \<in> set (block_list f0). \<forall>v.
          (M ! k) (block_ident f0 y) = Some v \<longrightarrow> (M ! l) (block_ident f0 z) = Some v \<longrightarrow> k = l \<and> y = z)"

lemma phi_invD:
  assumes "phi_inv f0 M f"
  shows "same_cfg f0 f" "results_below f" "unat (next_value_id f0) \<le> unat (next_value_id f)"
    "k < length M \<Longrightarrow> y \<in> set (block_list f0) \<Longrightarrow> (M ! k) (block_ident f0 y) = Some v \<Longrightarrow>
       unat (next_value_id f0) \<le> unat v \<and> unat v < unat (next_value_id f) \<and> length (phis_named v (blocks f ! y)) = 1
       \<and> sources v (blocks f ! y) = {#}"
    "k < length M \<Longrightarrow> l < length M \<Longrightarrow> y \<in> set (block_list f0) \<Longrightarrow> z \<in> set (block_list f0) \<Longrightarrow>
       (M ! k) (block_ident f0 y) = Some v \<Longrightarrow> (M ! l) (block_ident f0 z) = Some v \<Longrightarrow> k = l \<and> y = z"
  using assms unfolding phi_inv_def by blast+

lemma unat_next: "unat (n :: MirValueId) < 2 ^ 31 \<Longrightarrow> unat (n + 1) = unat n + 1"
  using unat_Suc32[of n] by simp

text \<open>What else the insertions keep.\<close>

definition frame_ok :: "MirFunction \<Rightarrow> MirFunction \<Rightarrow> bool" where
  "frame_ok f g \<longleftrightarrow> (\<forall>x. allocated (blocks g ! x) = allocated (blocks f ! x))
     \<and> (\<forall>A x. block_ok A (blocks f ! x) \<longrightarrow> block_ok A (blocks g ! x))"

lemma frame_ok_refl: "frame_ok f f"
  by (simp add: frame_ok_def)

lemma frame_ok_trans: "frame_ok f g \<Longrightarrow> frame_ok g h \<Longrightarrow> frame_ok f h"
  by (simp add: frame_ok_def)

lemma insert_phi_inv:
  assumes p: "insert_phi f y ty = (f1, v)" and i: "phi_inv f0 (M @ [m]) f" and y: "y \<in> set (block_list f0)"
    and m: "m (block_ident f0 y) = None" and n: "unat (next_value_id f) < 2 ^ 31" and inj: "inj_on (block_ident f0) (set (block_list f0))"
  shows "phi_inv f0 (M @ [m(block_ident f0 y := Some v)]) f1" "frame_ok f f1"
proof -
  note D = phi_invD[OF i]
  note e = insert_phi_eq[OF p]
  have yl: "y < length (blocks f)" "y \<in> set (block_list f)" using D(1,2) y by (auto simp: results_below_def same_cfg_def)
  obtain us vs where uv: "insts (blocks f ! y) = us @ vs"
      "insts (blocks f1 ! y) = us @ \<lparr>iop = PHI [], result = v, itype = ty\<rparr> # vs"
    using e(4)[OF yl(1)] by blast
  have next1: "unat (next_value_id f1) = unat (next_value_id f) + 1" "unat v = unat (next_value_id f)"
    using e(1,2) unat_next[OF n] by simp_all
  have sc: "same_cfg f f1" by (rule insert_phi_same_cfg[OF p])
  have old: "phis_named w (blocks f1 ! x) = phis_named w (blocks f ! x)" if "w \<noteq> v \<or> x \<noteq> y" for w x
    using that uv e(3)[of x] by (cases "x = y") (auto simp: phis_named_def)
  have none: "phis_named v (blocks f ! y) = []"
  proof -
    have "unat (result j) < unat v" if "j \<in> set (insts (blocks f ! y))" for j
      using D(2) yl(2) that next1(2) by (simp add: results_below_def)
    then show ?thesis by (auto simp: phis_named_def filter_empty_conv)
  qed
  then have new: "phis_named v (blocks f1 ! y) = [\<lparr>iop = PHI [], result = v, itype = ty\<rparr>]"
    using uv by (auto simp: phis_named_def)
  show "frame_ok f f1"
    unfolding frame_ok_def
  proof (intro conjI allI impI)
    show "allocated (blocks f1 ! x) = allocated (blocks f ! x)" for x
      using uv e(3)[of x] by (cases "x = y") (auto simp: allocated_def)
    show "block_ok A (blocks f1 ! x)" if "block_ok A (blocks f ! x)" for A x
      using that uv e(3)[of x] by (cases "x = y") (auto simp: block_ok_def)
  qed
  have rb: "results_below f1"
    unfolding results_below_def
  proof (intro ballI conjI)
    fix b assume "b \<in> set (block_list f1)"
    then have b: "b \<in> set (block_list f)" using sc by (simp add: same_cfg_def)
    then show "b < length (blocks f1)" using D(2) sc by (auto simp: results_below_def same_cfg_def)
    fix j assume "j \<in> set (insts (blocks f1 ! b))"
    then have "j \<in> set (insts (blocks f ! b)) \<or> result j = v" using uv e(3)[of b] by (cases "b = y") auto
    then show "unat (result j) < unat (next_value_id f1)" using D(2) b next1 by (fastforce simp: results_below_def)
  qed
  let ?M = "M @ [m]" and ?N = "M @ [m(block_ident f0 y := Some v)]"
  have read: "(?M ! k) (block_ident f0 z) = Some w \<and> unat w < unat v \<or> k = length M \<and> z = y \<and> w = v"
    if "k < length ?N" "z \<in> set (block_list f0)" "(?N ! k) (block_ident f0 z) = Some w" for k z w
  proof (cases "k = length M \<and> z = y")
    case True
    then show ?thesis using that(3) by simp
  next
    case False
    then have "(?M ! k) (block_ident f0 z) = Some w"
    proof (cases "k = length M")
      case True
      then have "block_ident f0 z \<noteq> block_ident f0 y" using False inj_onD[OF inj _ that(2) y] by blast
      then show ?thesis using that(3) True by simp
    qed (use that in \<open>auto simp: nth_append\<close>)
    moreover have "unat w < unat v" using D(4)[of k z w] that calculation next1(2) by simp
    ultimately show ?thesis by blast
  qed
  show "phi_inv f0 ?N f1"
    unfolding phi_inv_def
  proof (intro conjI allI ballI impI)
    show "same_cfg f0 f1" by (rule same_cfg_trans[OF D(1) sc])
    show "results_below f1" by (rule rb)
    show "unat (next_value_id f0) \<le> unat (next_value_id f1)" using D(3) next1 by simp
    fix k z w assume h: "k < length ?N" "z \<in> set (block_list f0)" "(?N ! k) (block_ident f0 z) = Some w"
    note r = read[OF h]
    have kM: "k < length ?M" using h(1) by simp
    show "unat (next_value_id f0) \<le> unat w" "unat w < unat (next_value_id f1)"
      using r D(4)[OF kM h(2), of w] D(3) next1 by auto
    show "length (phis_named w (blocks f1 ! z)) = 1" "sources w (blocks f1 ! z) = {#}"
      using r D(4)[OF kM h(2), of w] old[of w z] new by (cases "w = v"; simp add: sources_def)+
    fix l u assume g: "l < length ?N" "u \<in> set (block_list f0)" "(?N ! l) (block_ident f0 u) = Some w"
    have lM: "l < length ?M" using g(1) by simp
    show "k = l" "z = u" using r read[OF g] D(5)[OF kM lM h(2) g(2), of w] by auto
  qed
qed

section \<open>One slot\<close>

definition idf_state_ok ::
    "MirFunction \<Rightarrow> (nat \<Rightarrow> MirValueId option) list \<Rightarrow> MirFunction \<Rightarrow> IdfState \<Rightarrow> bool" where
  "idf_state_ok f0 M g s \<longleftrightarrow> phi_inv f0 (M @ [phi_map s]) (idf_func s) \<and> frame_ok g (idf_func s)
     \<and> set (worklist s) \<subseteq> set (block_list f0) \<and> distinct (has_phi s)
     \<and> set (has_phi s) \<subseteq> block_ident f0 ` set (block_list f0)
     \<and> (\<forall>i. i \<notin> set (has_phi s) \<longrightarrow> phi_map s i = None)
     \<and> unat (next_value_id (idf_func s)) = unat (next_value_id g) + length (has_phi s)"

lemma place_phi_state:
  assumes s: "idf_state_ok f0 M g s" and y: "y \<in> set (block_list f0)" and inj: "inj_on (block_ident f0) (set (block_list f0))"
    and n: "unat (next_value_id g) + length (block_list f0) < 2 ^ 31"
  shows "idf_state_ok f0 M g (place_phi ty y s)"
proof (cases "block_ident f0 y \<in> set (has_phi s)")
  case True
  have "block_ident (idf_func s) = block_ident f0" using s by (simp add: idf_state_ok_def phi_inv_def same_cfg_def)
  then show ?thesis using True s by (simp add: place_phi_def Let_def)
next
  case False
  have p: "phi_inv f0 (M @ [phi_map s]) (idf_func s)" "frame_ok g (idf_func s)" "set (worklist s) \<subseteq> set (block_list f0)"
    "distinct (has_phi s)" "set (has_phi s) \<subseteq> block_ident f0 ` set (block_list f0)"
    "\<And>i. i \<notin> set (has_phi s) \<Longrightarrow> phi_map s i = None"
    "unat (next_value_id (idf_func s)) = unat (next_value_id g) + length (has_phi s)"
    using s unfolding idf_state_ok_def by blast+
  have id: "block_ident (idf_func s) = block_ident f0" using p(1) by (simp add: phi_inv_def same_cfg_def)
  obtain f1 v where ins: "insert_phi (idf_func s) y ty = (f1, v)" by fastforce
  have "length (has_phi s) = card (set (has_phi s))" using distinct_card[OF p(4)] by simp
  also have "\<dots> \<le> card (block_ident f0 ` set (block_list f0))" by (rule card_mono[OF _ p(5)]) simp
  also have "\<dots> \<le> length (block_list f0)" using card_image_le[of "set (block_list f0)" "block_ident f0"] card_length[of "block_list f0"] by simp
  finally have lt: "unat (next_value_id (idf_func s)) < 2 ^ 31" using p(7) n by simp
  note r = insert_phi_inv[OF ins p(1) y p(6)[OF False] lt inj]
  have "unat (next_value_id f1) = unat (next_value_id (idf_func s)) + 1" using insert_phi_eq(2)[OF ins] unat_next[OF lt] by simp
  then show ?thesis
    using r p(3-7) y False frame_ok_trans[OF p(2) r(2)] ins by (auto simp: idf_state_ok_def place_phi_def id Let_def)
qed

lemma idf_loop_state:
  assumes df: "\<And>b. b \<in> set (block_list f0) \<Longrightarrow> set (df b) \<subseteq> set (block_list f0)"
    and inj: "inj_on (block_ident f0) (set (block_list f0))"
    and n: "unat (next_value_id g) + length (block_list f0) < 2 ^ 31"
  shows "idf_loop df ty s = Some s' \<Longrightarrow> idf_state_ok f0 M g s \<Longrightarrow> idf_state_ok f0 M g s'"
proof -
  have run: "d = df \<longrightarrow> idf_state_ok f0 M g s \<longrightarrow> idf_state_ok f0 M g s'" if "idf_loop d ty s = Some s'" for d ty s s'
    using that
  proof (rule idf_loop.raw_induct[where P = "\<lambda>d ty s s'. d = df \<longrightarrow> idf_state_ok f0 M g s \<longrightarrow> idf_state_ok f0 M g s'", rotated], intro impI)
    fix run :: "(bref \<Rightarrow> bref list) \<Rightarrow> MirTypeP \<Rightarrow> IdfState \<Rightarrow> IdfState option" and d ty s s'
    assume ih: "\<And>d ty s s'. run d ty s = Some s' \<Longrightarrow> d = df \<longrightarrow> idf_state_ok f0 M g s \<longrightarrow> idf_state_ok f0 M g s'"
      and body: "(case worklist s of [] \<Rightarrow> Some s
          | bb # wl \<Rightarrow> run d ty (foldl (\<lambda>s dfb. place_phi ty dfb s) (s\<lparr>worklist := wl\<rparr>) (d bb))) = Some s'"
      and d: "d = df" and ok: "idf_state_ok f0 M g s"
    show "idf_state_ok f0 M g s'"
    proof (cases "worklist s")
      case Nil
      then show ?thesis using body ok by simp
    next
      case (Cons b wl)
      have b: "b \<in> set (block_list f0)" and "idf_state_ok f0 M g (s\<lparr>worklist := wl\<rparr>)"
        using ok Cons by (auto simp: idf_state_ok_def)
      have fold: "idf_state_ok f0 M g u \<Longrightarrow> set ys \<subseteq> set (block_list f0) \<Longrightarrow> idf_state_ok f0 M g (foldl (\<lambda>s dfb. place_phi ty dfb s) u ys)" for u ys
        by (induction ys arbitrary: u) (auto intro: place_phi_state[OF _ _ inj n])
      show ?thesis
        using ih[of d ty "foldl (\<lambda>s dfb. place_phi ty dfb s) (s\<lparr>worklist := wl\<rparr>) (d b)" s'] body Cons d
          fold[OF \<open>idf_state_ok f0 M g (s\<lparr>worklist := wl\<rparr>)\<close> df[OF b]] by simp
    qed
  qed
  show "idf_loop df ty s = Some s' \<Longrightarrow> idf_state_ok f0 M g s \<Longrightarrow> idf_state_ok f0 M g s'" using run by blast
qed

lemma seed_fields:
  "idf_func (seed_worklist f defs) = f" "has_phi (seed_worklist f defs) = []" "phi_map (seed_worklist f defs) = (\<lambda>i. None)"
  "set (worklist (seed_worklist f defs)) \<subseteq> set defs"
proof -
  define g where "g s db = (if block_ident f db \<in> set (in_worklist s) then s
                   else s\<lparr>worklist := db # worklist s, in_worklist := block_ident f db # in_worklist s\<rparr>)" for s :: IdfState and db
  have run: "idf_func (foldl g s xs) = idf_func s \<and> has_phi (foldl g s xs) = has_phi s \<and> phi_map (foldl g s xs) = phi_map s
      \<and> set (worklist (foldl g s xs)) \<subseteq> set (worklist s) \<union> set xs" for s xs
  proof (induction xs arbitrary: s)
    case (Cons x xs)
    show ?case using Cons.IH[of "g s x"] by (auto simp: g_def split: if_splits)
  qed simp
  have "seed_worklist f defs = foldl g \<lparr>idf_func = f, phi_map = (\<lambda>i. None), has_phi = [], in_worklist = [], worklist = [], idf_count = 0\<rparr> defs"
    unfolding seed_worklist_def g_def by simp
  then show "idf_func (seed_worklist f defs) = f" "has_phi (seed_worklist f defs) = []" "phi_map (seed_worklist f defs) = (\<lambda>i. None)"
    "set (worklist (seed_worklist f defs)) \<subseteq> set defs"
    using run[of "\<lparr>idf_func = f, phi_map = (\<lambda>i. None), has_phi = [], in_worklist = [], worklist = [], idf_count = 0\<rparr>" defs] by auto
qed

lemma phi_inv_none: "phi_inv f0 M g \<Longrightarrow> phi_inv f0 (M @ [\<lambda>i. None]) g"
  unfolding phi_inv_def by (auto simp: nth_append less_Suc_eq split: if_splits)

lemma build_ctx_ok:
  assumes i: "phi_inv f0 (map phi_for_block cs) f" and d: "set (def_blocks p) \<subseteq> set (block_list f0)"
    and df: "\<And>b. b \<in> set (block_list f0) \<Longrightarrow> set (df b) \<subseteq> set (block_list f0)"
    and inj: "inj_on (block_ident f0) (set (block_list f0))"
    and n: "unat (next_value_id f) + length (block_list f0) < 2 ^ 31"
  shows "\<exists>f' c m. build_ctx df (f, cs, k) p = Some (f', cs @ [c], m) \<and> phi_inv f0 (map phi_for_block (cs @ [c])) f'
     \<and> frame_ok f f' \<and> ctx_alloca c = alloca_val p \<and> stack c = []
     \<and> unat (next_value_id f') \<le> unat (next_value_id f) + length (block_list f0)"
proof -
  have sc: "block_list f = block_list f0" "block_ident f = block_ident f0" using phi_invD(1)[OF i] by (simp_all add: same_cfg_def)
  obtain s where s: "idf_loop df (alloc_type p) (seed_worklist f (def_blocks p)) = Some s"
    using idf_placement[where f = f and df = df, unfolded sc, OF inj d df] by blast
  have "idf_state_ok f0 (map phi_for_block cs) f (seed_worklist f (def_blocks p))"
    using phi_inv_none[OF i] seed_fields[of f "def_blocks p"] d by (auto simp: idf_state_ok_def frame_ok_refl)
  from idf_loop_state[OF df inj n s this] have ok: "idf_state_ok f0 (map phi_for_block cs) f s" .
  then have p: "phi_inv f0 (map phi_for_block cs @ [phi_map s]) (idf_func s)" "frame_ok f (idf_func s)"
    "distinct (has_phi s)" "set (has_phi s) \<subseteq> block_ident f0 ` set (block_list f0)"
    "unat (next_value_id (idf_func s)) = unat (next_value_id f) + length (has_phi s)"
    unfolding idf_state_ok_def by blast+
  have "length (has_phi s) = card (set (has_phi s))" using distinct_card[OF p(3)] by simp
  also have "\<dots> \<le> card (block_ident f0 ` set (block_list f0))" by (rule card_mono[OF _ p(4)]) simp
  also have "\<dots> \<le> length (block_list f0)" using card_image_le[of "set (block_list f0)" "block_ident f0"] card_length[of "block_list f0"] by simp
  finally show ?thesis using s p(1,2,5) by (simp add: build_ctx_def)
qed

lemma build_ctxs_ok:
  assumes df: "\<And>b. b \<in> set (block_list f0) \<Longrightarrow> set (df b) \<subseteq> set (block_list f0)"
    and inj: "inj_on (block_ident f0) (set (block_list f0))"
  shows "phi_inv f0 (map phi_for_block cs) f \<Longrightarrow> (\<And>p. p \<in> set ps \<Longrightarrow> set (def_blocks p) \<subseteq> set (block_list f0)) \<Longrightarrow>
    (\<And>c. c \<in> set cs \<Longrightarrow> stack c = []) \<Longrightarrow> unat (next_value_id f) + length ps * length (block_list f0) < 2 ^ 31 \<Longrightarrow>
    \<exists>f' cs' m. build_ctxs df ps (f, cs, k) = Some (f', cs', m) \<and> phi_inv f0 (map phi_for_block cs') f' \<and> frame_ok f f'
      \<and> map ctx_alloca cs' = map ctx_alloca cs @ map alloca_val ps \<and> (\<forall>c \<in> set cs'. stack c = [])
      \<and> unat (next_value_id f') \<le> unat (next_value_id f) + length ps * length (block_list f0)"
proof (induction ps arbitrary: f cs k)
  case Nil
  then show ?case by (simp add: frame_ok_refl)
next
  case (Cons p ps)
  have n: "unat (next_value_id f) + length (block_list f0) < 2 ^ 31" using Cons.prems(4) by simp
  have d: "set (def_blocks p) \<subseteq> set (block_list f0)" using Cons.prems(2) by simp
  obtain f1 c m where 1: "build_ctx df (f, cs, k) p = Some (f1, cs @ [c], m)" "phi_inv f0 (map phi_for_block (cs @ [c])) f1"
     "frame_ok f f1" "ctx_alloca c = alloca_val p" "stack c = []"
     "unat (next_value_id f1) \<le> unat (next_value_id f) + length (block_list f0)"
    using build_ctx_ok[where df = df and k = k, OF Cons.prems(1) d df inj n] by blast
  have "\<exists>f' cs' m'. build_ctxs df ps (f1, cs @ [c], m) = Some (f', cs', m') \<and> phi_inv f0 (map phi_for_block cs') f' \<and> frame_ok f1 f'
      \<and> map ctx_alloca cs' = map ctx_alloca (cs @ [c]) @ map alloca_val ps \<and> (\<forall>c \<in> set cs'. stack c = [])
      \<and> unat (next_value_id f') \<le> unat (next_value_id f1) + length ps * length (block_list f0)"
    by (rule Cons.IH[OF 1(2)]) (use Cons.prems(2-4) 1(5,6) in auto)
  then obtain f' cs' m' where 2: "build_ctxs df ps (f1, cs @ [c], m) = Some (f', cs', m')" "phi_inv f0 (map phi_for_block cs') f'"
      "frame_ok f1 f'" "map ctx_alloca cs' = map ctx_alloca (cs @ [c]) @ map alloca_val ps" "\<forall>c \<in> set cs'. stack c = []"
      "unat (next_value_id f') \<le> unat (next_value_id f1) + length ps * length (block_list f0)" by blast
  then show ?case using 1 frame_ok_trans[OF 1(3) 2(3)] by simp
qed

section \<open>Undefined values at the entry\<close>

lemma push_undef_ok:
  assumes i: "phi_inv f0 M f" and e: "e \<in> set (block_list f0)" and n: "unat (next_value_id f) < 2 ^ 31"
    and p: "push_undef e ty c f = (f1, c1)"
  shows "phi_inv f0 M f1 \<and> frame_ok f f1 \<and> (\<exists>u. c1 = c\<lparr>stack := u # stack c\<rparr> \<and> unat (next_value_id f0) \<le> unat u)
     \<and> unat (next_value_id f1) = unat (next_value_id f) + 1"
proof -
  note D = phi_invD[OF i]
  obtain g v where v: "mir_function_new_value f ty = (g, v)" by fastforce
  then have g: "next_value_id g = next_value_id f + 1" "v = next_value_id f" "blocks g = blocks f" "same_cfg f g"
    using new_value_same_cfg[OF v] by (auto simp: mir_function_new_value_def Let_def)
  let ?u = "\<lambda>blk. blk\<lparr>insts := \<lparr>iop = UNDEF, result = v, itype = ty\<rparr> # insts blk, inst_count := inst_count blk + 1\<rparr>"
  have f1: "f1 = upd_block g e ?u" "c1 = vs_push c v" using p v by (auto simp: push_undef_def Let_def)
  have el: "e < length (blocks f)" using D(1,2) e by (auto simp: results_below_def same_cfg_def)
  have blk: "blocks f1 ! x = (if x = e then ?u (blocks f ! x) else blocks f ! x)" for x
    using el by (simp add: f1 blocks_upd g(3))
  have nx: "unat (next_value_id f1) = unat (next_value_id f) + 1" using unat_next[OF n] g(1) by (simp add: f1 upd_block_def)
  have sc: "same_cfg f f1" unfolding f1(1) by (rule same_cfg_trans[OF g(4) same_cfg_upd]) simp
  have ph: "phis_named w (blocks f1 ! x) = phis_named w (blocks f ! x)" for w x by (auto simp: blk phis_named_def)
  have rb: "results_below f1"
    unfolding results_below_def
  proof (intro ballI conjI)
    fix b assume "b \<in> set (block_list f1)"
    then have b: "b \<in> set (block_list f)" using sc by (simp add: same_cfg_def)
    then show "b < length (blocks f1)" using D(2) sc by (auto simp: results_below_def same_cfg_def)
    fix j assume "j \<in> set (insts (blocks f1 ! b))"
    then have "j \<in> set (insts (blocks f ! b)) \<or> result j = v" by (auto simp: blk split: if_splits)
    then show "unat (result j) < unat (next_value_id f1)" using D(2) b nx g(2) by (fastforce simp: results_below_def)
  qed
  have "phi_inv f0 M f1"
    unfolding phi_inv_def
  proof (intro conjI allI ballI impI)
    show "same_cfg f0 f1" by (rule same_cfg_trans[OF D(1) sc])
    show "results_below f1" by (rule rb)
    show "unat (next_value_id f0) \<le> unat (next_value_id f1)" using D(3) nx by simp
    fix k y w assume h: "k < length M" "y \<in> set (block_list f0)" "(M ! k) (block_ident f0 y) = Some w"
    show "unat (next_value_id f0) \<le> unat w" "unat w < unat (next_value_id f1)" "length (phis_named w (blocks f1 ! y)) = 1"
      "sources w (blocks f1 ! y) = {#}"
      using D(4)[OF h] nx ph by (simp_all add: sources_def)
    fix l z assume "l < length M" "z \<in> set (block_list f0)" "(M ! l) (block_ident f0 z) = Some w"
    then show "k = l" "y = z" using D(5)[OF h(1) _ h(2) _ h(3)] by blast+
  qed
  moreover have "frame_ok f f1" unfolding frame_ok_def by (auto simp: blk allocated_def block_ok_def)
  ultimately show ?thesis using nx D(3) f1(2) g(2) by (auto simp: vs_push_def)
qed

lemma push_undefs_ok:
  shows "e \<in> set (block_list f0) \<Longrightarrow> phi_inv f0 M f \<Longrightarrow> length ps = length cs \<Longrightarrow> unat (next_value_id f) + length ps < 2 ^ 31 \<Longrightarrow>
    push_undefs e ps cs f = (f1, cs1) \<Longrightarrow>
    phi_inv f0 M f1 \<and> frame_ok f f1 \<and> length cs1 = length cs
    \<and> (\<forall>k < length cs. \<exists>u. cs1 ! k = (cs ! k)\<lparr>stack := u # stack (cs ! k)\<rparr> \<and> unat (next_value_id f0) \<le> unat u)"
proof (induction e ps cs f arbitrary: f1 cs1 rule: push_undefs.induct)
  case (1 e p ps c cs f)
  obtain g c' where g: "push_undef e (alloc_type p) c f = (g, c')" by fastforce
  obtain h cs' where h: "push_undefs e ps cs g = (h, cs')" by fastforce
  have r: "f1 = h" "cs1 = c' # cs'" using "1.prems"(5) g h by (auto simp: Let_def)
  have n: "unat (next_value_id f) < 2 ^ 31" using "1.prems"(4) by simp
  have u: "phi_inv f0 M g" "frame_ok f g" "\<exists>v. c' = c\<lparr>stack := v # stack c\<rparr> \<and> unat (next_value_id f0) \<le> unat v"
    "unat (next_value_id g) = unat (next_value_id f) + 1"
    using push_undef_ok[OF "1.prems"(2,1) n g] by blast+
  have "phi_inv f0 M h \<and> frame_ok g h \<and> length cs' = length cs
    \<and> (\<forall>k < length cs. \<exists>u. cs' ! k = (cs ! k)\<lparr>stack := u # stack (cs ! k)\<rparr> \<and> unat (next_value_id f0) \<le> unat u)"
    by (rule "1.IH"[OF g[symmetric] refl "1.prems"(1) u(1) _ _ h]) (use "1.prems" u(4) in auto)
  then show ?case
    unfolding r using u(3) frame_ok_trans[OF u(2)] by (auto simp: nth_Cons split: nat.split)
qed (auto simp: frame_ok_refl)

section \<open>What the scan guarantees\<close>

lemma positions_mem: "(b, k) \<in> set (positions f) \<longleftrightarrow> b \<in> set (block_list f) \<and> k < length (insts (blocks f ! b))"
  by (fastforce simp: positions_def)

lemma scan_uses_step:
  assumes "scan_uses f ptr self (pos # ps) defs = Some defs'"
  shows "\<exists>ds. scan_uses f ptr self ps ds = Some defs' \<and> set ds \<subseteq> insert (fst pos) (set defs)"
    "pos \<noteq> self \<Longrightarrow> \<not> use_escapes ptr (iop (inst_at f (fst pos) (snd pos)))"
proof -
  obtain b k where pos: "pos = (b, k)" by fastforce
  show "pos \<noteq> self \<Longrightarrow> \<not> use_escapes ptr (iop (inst_at f (fst pos) (snd pos)))"
    using assms pos by (auto split: if_splits)
  show "\<exists>ds. scan_uses f ptr self ps ds = Some defs' \<and> set ds \<subseteq> insert (fst pos) (set defs)"
  proof (cases "(b, k) = self \<or> (\<forall>p v. iop (inst_at f b k) \<noteq> STORE p v)")
    case True
    then have "scan_uses f ptr self ps defs = Some defs'"
      using assms unfolding pos by (cases "iop (inst_at f b k)") (auto split: if_splits)
    then show ?thesis by blast
  next
    case False
    then obtain p v where "(b, k) \<noteq> self" "iop (inst_at f b k) = STORE p v" by blast
    then have "scan_uses f ptr self ps (if p = ptr \<and> b \<notin> set defs then defs @ [b] else defs) = Some defs'"
      using assms unfolding pos by (cases "p = ptr \<and> b \<notin> set defs") (auto split: if_split_asm)
    then show ?thesis using pos by (intro exI[of _ "if p = ptr \<and> b \<notin> set defs then defs @ [b] else defs"]) auto
  qed
qed

lemma scan_uses_facts:
  "scan_uses f ptr self ps defs = Some defs' \<Longrightarrow> set defs' \<subseteq> set defs \<union> fst ` set ps
     \<and> (\<forall>pos \<in> set ps. pos \<noteq> self \<longrightarrow> \<not> use_escapes ptr (iop (inst_at f (fst pos) (snd pos))))"
proof (induction ps arbitrary: defs)
  case (Cons pos ps)
  obtain ds where "scan_uses f ptr self ps ds = Some defs'" "set ds \<subseteq> insert (fst pos) (set defs)"
    using scan_uses_step(1)[OF Cons.prems] by blast
  then show ?case using Cons.IH[of ds] scan_uses_step(2)[OF Cons.prems] by simp blast
qed simp

lemma is_promotable_facts:
  assumes "is_promotable c f (b, k) = Some p"
  shows "is_alloca (iop (inst_at f b k))" "alloca_val p = result (inst_at f b k)"
    "set (def_blocks p) \<subseteq> fst ` set (positions f)"
    "pos \<in> set (positions f) \<Longrightarrow> pos \<noteq> (b, k) \<Longrightarrow> \<not> use_escapes (alloca_val p) (iop (inst_at f (fst pos) (snd pos)))"
proof -
  obtain ty n defs where i: "iop (inst_at f b k) = ALLOCA ty n" "alloca_val p = result (inst_at f b k)" "def_blocks p = defs"
    and s: "scan_uses f (result (inst_at f b k)) (b, k) (positions f) [] = Some defs"
    using assms by (auto simp: is_promotable_def split: MirOp.splits if_splits option.splits)
  show "is_alloca (iop (inst_at f b k))" "alloca_val p = result (inst_at f b k)" using i by simp_all
  show "set (def_blocks p) \<subseteq> fst ` set (positions f)" using scan_uses_facts[OF s] i(3) by simp
  show "pos \<in> set (positions f) \<Longrightarrow> pos \<noteq> (b, k) \<Longrightarrow> \<not> use_escapes (alloca_val p) (iop (inst_at f (fst pos) (snd pos)))"
    using scan_uses_facts[OF s] i(2) by simp
qed

lemma find_promotable_from:
  "p \<in> set (find_promotable c f xs acc) \<Longrightarrow> p \<in> set acc \<or> (\<exists>pos \<in> set xs. is_promotable c f pos = Some p)"
  by (induction c f xs acc rule: find_promotable.induct) (auto split: if_splits option.splits)

text \<open>The scan takes a store of the slot's own address through the slot for a plain store.\<close>

definition no_self_store :: "MirFunction \<Rightarrow> bool" where
  "no_self_store f \<longleftrightarrow> (\<forall>b \<in> set (block_list f). \<forall>i \<in> set (insts (blocks f ! b)).
     (case iop i of STORE p v \<Rightarrow> p \<noteq> v | _ \<Rightarrow> True))"

lemma promotable_block_ok:
  assumes ns: "no_self_store f" and b: "b \<in> set (block_list f)"
  shows "block_ok (alloca_val ` set (find_promotable c f (positions f) [])) (blocks f ! b)"
proof -
  have "v \<notin> alloca_val ` set (find_promotable c f (positions f) [])"
    if k: "k < length (insts (blocks f ! b))" "iop (insts (blocks f ! b) ! k) = STORE q v" for k q v
  proof
    assume "v \<in> alloca_val ` set (find_promotable c f (positions f) [])"
    then obtain p where p: "p \<in> set (find_promotable c f (positions f) [])" "v = alloca_val p" by blast
    from find_promotable_from[OF this(1)] obtain a j where a: "is_promotable c f (a, j) = Some p" by auto
    have at: "inst_at f b k = insts (blocks f ! b) ! k" by (simp add: inst_at_def)
    have "(b, k) \<noteq> (a, j)" using is_promotable_facts(1)[OF a] k(2) at by auto
    then have "\<not> use_escapes v (STORE q v)"
      using is_promotable_facts(4)[OF a, of "(b, k)"] b k p(2) at by (simp add: positions_mem)
    moreover have "q \<noteq> v" using ns b nth_mem[OF k(1)] k(2) by (force simp: no_self_store_def)
    ultimately show False by simp
  qed
  then have "stores_no_slot (alloca_val ` set (find_promotable c f (positions f) [])) (iop (insts (blocks f ! b) ! k))"
    if "k < length (insts (blocks f ! b))" for k
    using that by (cases "iop (insts (blocks f ! b) ! k)") auto
  then show ?thesis by (auto simp: block_ok_def in_set_conv_nth)
qed

section \<open>Deleting the slots\<close>

definition allocs :: "MirFunction \<Rightarrow> MirValueId list" where
  "allocs f = concat (map (\<lambda>b. allocated (blocks f ! b)) (block_list f))"

lemma allocs_mem:
  "v \<in> set (allocs f) \<longleftrightarrow> (\<exists>pos \<in> set (positions f). is_alloca (iop (inst_at f (fst pos) (snd pos)))
     \<and> result (inst_at f (fst pos) (snd pos)) = v)"
proof -
  have "v \<in> set (allocated blk) \<longleftrightarrow> (\<exists>k < length (insts blk). is_alloca (iop (insts blk ! k)) \<and> result (insts blk ! k) = v)" for blk
    by (auto simp: allocated_def in_set_conv_nth image_iff)
  note mem = this
  have q: "(\<exists>pos \<in> set (positions f). Q (fst pos) (snd pos))
      \<longleftrightarrow> (\<exists>b \<in> set (block_list f). \<exists>k < length (insts (blocks f ! b)). Q b k)" for Q
  proof
    assume "\<exists>pos \<in> set (positions f). Q (fst pos) (snd pos)"
    then obtain b k where "(b, k) \<in> set (positions f)" "Q b k" by auto
    then show "\<exists>b \<in> set (block_list f). \<exists>k < length (insts (blocks f ! b)). Q b k" unfolding positions_mem by blast
  next
    assume "\<exists>b \<in> set (block_list f). \<exists>k < length (insts (blocks f ! b)). Q b k"
    then obtain b k where "(b, k) \<in> set (positions f)" "Q b k" unfolding positions_mem by blast
    then show "\<exists>pos \<in> set (positions f). Q (fst pos) (snd pos)" by (intro bexI[of _ "(b, k)"]) simp_all
  qed
  show ?thesis
    unfolding inst_at_def q[where Q = "\<lambda>b k. is_alloca (iop (insts (blocks f ! b) ! k)) \<and> result (insts (blocks f ! b) ! k) = v"]
    by (simp add: allocs_def mem)
qed

lemma promotable_allocs: "p \<in> set (find_promotable c f (positions f) []) \<Longrightarrow> alloca_val p \<in> set (allocs f)"
proof -
  assume "p \<in> set (find_promotable c f (positions f) [])"
  from find_promotable_from[OF this] obtain b k where p: "(b, k) \<in> set (positions f)" "is_promotable c f (b, k) = Some p" by auto
  show "alloca_val p \<in> set (allocs f)"
    unfolding allocs_mem using is_promotable_facts(1,2)[OF p(2)] by (intro bexI[OF _ p(1)]) simp
qed

lemma allocated_remove:
  assumes "k < length (insts blk)" "is_alloca (iop (insts blk ! k))"
  shows "mset (allocated blk) = add_mset (result (insts blk ! k)) (mset (allocated (remove_inst blk k)))"
proof -
  have "filter q (insts blk) = filter q (take k (insts blk)) @ filter q (insts blk ! k # drop (Suc k) (insts blk))" for q
    using id_take_nth_drop[OF assms(1)] by (metis filter_append)
  then show ?thesis using assms(2) by (simp add: allocated_def remove_inst_def)
qed

lemma allocs_upd:
  assumes d: "distinct (block_list f)" and b: "b \<in> set (block_list f)" "b < length (blocks f)"
    and u: "mset (allocated (blocks f ! b)) = add_mset v (mset (allocated (u (blocks f ! b))))"
  shows "mset (allocs f) = add_mset v (mset (allocs (upd_block f b u)))"
proof -
  obtain us vs where s: "block_list f = us @ b # vs" "b \<notin> set us" "b \<notin> set vs"
    using split_list[OF b(1)] d by auto
  have e: "map (\<lambda>x. allocated (blocks (upd_block f b u) ! x)) us = map (\<lambda>x. allocated (blocks f ! x)) us"
    "map (\<lambda>x. allocated (blocks (upd_block f b u) ! x)) vs = map (\<lambda>x. allocated (blocks f ! x)) vs"
    using s by (auto simp: blocks_upd)
  note e
  moreover have "block_list (upd_block f b u) = block_list f" by (simp add: upd_block_def)
  moreover have "blocks (upd_block f b u) ! b = u (blocks f ! b)" using b(2) by (simp add: blocks_upd)
  ultimately show ?thesis using u by (simp add: allocs_def s(1) del: map_eq_conv)
qed

text \<open>What is left alone by the deletions.\<close>

definition keeps_code :: "MirFunction \<Rightarrow> MirFunction \<Rightarrow> bool" where
  "keeps_code f g \<longleftrightarrow> same_cfg f g \<and> (\<forall>A x. slot_free A (blocks f ! x) \<longrightarrow> slot_free A (blocks g ! x))
     \<and> (\<forall>v x. phis_named v (blocks g ! x) = phis_named v (blocks f ! x))"

lemma delete_alloca_ok:
  assumes d: "distinct (block_list f)" and l: "\<And>b. b \<in> set (block_list f) \<Longrightarrow> b < length (blocks f)"
    and g: "delete_alloca (f, st) v = (g, st')"
  shows "keeps_code f g" "mset (allocs g) = mset (allocs f) - {#v#}"
proof -
  have opc: "(case q of ALLOCA t n \<Rightarrow> True | _ \<Rightarrow> False) = is_alloca q" for q by (cases q) auto
  let ?P = "\<lambda>(b, k). is_alloca (iop (inst_at f b k)) \<and> result (inst_at f b k) = v"
  note def = delete_alloca_def[unfolded opc]
  have "keeps_code f g \<and> mset (allocs g) = mset (allocs f) - {#v#}"
  proof (cases "find ?P (positions f)")
    case None
    then have "v \<notin> set (allocs f)" unfolding allocs_mem find_None_iff by auto
    then show ?thesis using g None by (simp add: def keeps_code_def)
  next
    case (Some pos)
    obtain b k where pos: "pos = (b, k)" by fastforce
    have p: "(b, k) \<in> set (positions f)" "is_alloca (iop (inst_at f b k))" "result (inst_at f b k) = v"
      using Some pos nth_mem unfolding find_Some_iff by fastforce+
    then have b: "b \<in> set (block_list f)" "k < length (insts (blocks f ! b))" "b < length (blocks f)"
      using l by (auto simp: positions_mem)
    have gf: "g = upd_block f b (\<lambda>blk. remove_inst blk k)" using g Some pos by (simp add: def)
    have np: "\<not> is_phi (iop (insts (blocks f ! b) ! k))"
      using p(2) by (cases "iop (insts (blocks f ! b) ! k)") (auto simp: inst_at_def)
    have "same_cfg f g" unfolding gf by (rule same_cfg_upd) (simp add: remove_inst_def)
    then have "keeps_code f g"
      using remove_inst_props(5,6)[OF b(2)] np by (auto simp: keeps_code_def gf blocks_upd)
    moreover have "mset (allocated (blocks f ! b)) = add_mset v (mset (allocated (remove_inst (blocks f ! b) k)))"
      using allocated_remove[OF b(2)] p(2,3) by (simp add: inst_at_def)
    then have "mset (allocs f) = add_mset v (mset (allocs g))"
      using allocs_upd[OF d b(1,3), of v "\<lambda>blk. remove_inst blk k"] by (simp add: gf)
    ultimately show ?thesis by simp
  qed
  then show "keeps_code f g" "mset (allocs g) = mset (allocs f) - {#v#}" by blast+
qed

lemma keeps_code_trans: "keeps_code f g \<Longrightarrow> keeps_code g h \<Longrightarrow> keeps_code f h"
  unfolding keeps_code_def using same_cfg_trans by metis

lemma delete_allocas_ok:
  "distinct (block_list f) \<Longrightarrow> (\<And>b. b \<in> set (block_list f) \<Longrightarrow> b < length (blocks f)) \<Longrightarrow>
   foldl delete_alloca (f, st) vs = (g, st') \<Longrightarrow> keeps_code f g \<and> mset (allocs g) = mset (allocs f) - mset vs"
proof (induction vs arbitrary: f st)
  case Nil
  then show ?case by (simp add: keeps_code_def)
next
  case (Cons v vs)
  obtain h st1 where h: "delete_alloca (f, st) v = (h, st1)" by fastforce
  note one = delete_alloca_ok[OF Cons.prems(1,2) h]
  have c: "block_list h = block_list f" "length (blocks h) = length (blocks f)"
    using one(1) by (simp_all add: keeps_code_def same_cfg_def)
  have "keeps_code h g \<and> mset (allocs g) = mset (allocs h) - mset vs"
    by (rule Cons.IH) (use Cons.prems h c in auto)
  then show ?case using keeps_code_trans[OF one(1)] one(2) by simp
qed

lemma deleted_gone:
  assumes "distinct xs" "mset ys = mset xs - mset vs" "v \<in> set vs"
  shows "v \<notin> set ys"
proof -
  have "count (mset xs) v \<le> 1" using assms(1) by (auto simp: distinct_count_atmost_1)
  moreover have "0 < count (mset vs) v" using assms(3) by (simp only: count_greater_zero_iff set_mset_mset)
  ultimately have "count (mset ys) v = 0" unfolding assms(2) count_diff by linarith
  then show ?thesis by (simp add: count_eq_zero_iff)
qed

section \<open>The renaming starts in its invariant\<close>

lemma static_stack: "length cs1 = length cs \<Longrightarrow> (\<And>c. c \<in> set cs \<Longrightarrow> stack c = []) \<Longrightarrow>
    (\<And>k. k < length cs \<Longrightarrow> \<exists>u. cs1 ! k = (cs ! k)\<lparr>stack := u # stack (cs ! k)\<rparr>) \<Longrightarrow> map (\<lambda>c. c\<lparr>stack := []\<rparr>) cs1 = cs"
proof (rule nth_equalityI)
  fix k assume h: "\<And>c. c \<in> set cs \<Longrightarrow> stack c = []" "\<And>k. k < length cs \<Longrightarrow> \<exists>u. cs1 ! k = (cs ! k)\<lparr>stack := u # stack (cs ! k)\<rparr>"
    "k < length (map (\<lambda>c. c\<lparr>stack := []\<rparr>) cs1)" "length cs1 = length cs"
  then obtain u where "cs1 ! k = (cs ! k)\<lparr>stack := u # stack (cs ! k)\<rparr>" by auto
  then show "map (\<lambda>c. c\<lparr>stack := []\<rparr>) cs1 ! k = cs ! k" using h(1)[of "cs ! k"] h(3,4) by simp
qed simp

lemma phi_of_map: "phi_of c i = Some v \<Longrightarrow> phi_for_block c i = Some v"
  by (simp add: phi_of_def split: if_splits)

lemma promote_ready:
  assumes w: "cfg_wf f e" and r: "results_below f" and ns: "no_self_store f" and nz: "MIR_VALUE_NONE \<notin> set (allocs f)"
    and sd: "\<And>b. b \<in> set (block_list f) \<Longrightarrow> distinct (cfg_succs f b)"
    and ps: "ps = find_promotable c f (positions f) []"
    and i: "phi_inv f (map phi_for_block cs) f2" "frame_ok f f2"
    and cs: "map ctx_alloca cs = map alloca_val ps" "\<And>c. c \<in> set cs \<Longrightarrow> stack c = []"
    and cs1: "length cs1 = length cs"
      "\<And>k. k < length cs \<Longrightarrow> \<exists>u. cs1 ! k = (cs ! k)\<lparr>stack := u # stack (cs ! k)\<rparr> \<and> unat (next_value_id f) \<le> unat u"
  shows "slots cs = alloca_val ` set ps" "rename_ready f cs" "ren_inv f cs \<lparr>ren_func = f2, ren_ctxs = cs1, ren_stats = st\<rparr>"
proof -
  let ?A = "alloca_val ` set ps"
  show sl: "slots cs = ?A" by (metis cs(1) set_map)
  have sub: "?A \<subseteq> set (allocs f)" using promotable_allocs ps by blast
  have old: "unat a < unat (next_value_id f)" if a: "a \<in> ?A" for a
  proof -
    obtain b where b: "b \<in> set (block_list f)" "a \<in> set (allocated (blocks f ! b))"
      using subsetD[OF sub a] by (auto simp: allocs_def)
    then obtain j where "j \<in> set (insts (blocks f ! b))" "result j = a" by (auto simp: allocated_def)
    then show ?thesis using r b(1) by (auto simp: results_below_def)
  qed
  then have new: "a \<notin> ?A" if "unat (next_value_id f) \<le> unat a" for a using that by fastforce
  note D = phi_invD[OF i(1)]
  have phi: "k < length cs \<Longrightarrow> y \<in> set (block_list f) \<Longrightarrow> phi_of (cs ! k) (block_ident f y) = Some v \<Longrightarrow>
      (map phi_for_block cs ! k) (block_ident f y) = Some v" for k y v
    using phi_of_map by simp
  show "rename_ready f cs"
    unfolding rename_ready_def sl
  proof (intro conjI ballI allI impI)
    show "MIR_VALUE_NONE \<notin> ?A" using sub nz by blast
    show "phis_distinct f cs" unfolding phis_distinct_def using D(5) phi by (metis length_map)
    fix b assume b: "b \<in> set (block_list f)"
    show "b < length (blocks f)" using r b by (simp add: results_below_def)
    show "distinct (cfg_succs f b)" by (rule sd[OF b])
    show "set (cfg_succs f b) \<subseteq> set (block_list f)" using w b by (simp add: cfg_wf_def)
  next
    fix c y v assume h: "c \<in> set cs" "y \<in> set (block_list f)" "phi_of c (block_ident f y) = Some v"
    obtain k where "k < length cs" "c = cs ! k" using h(1) by (auto simp: in_set_conv_nth)
    then show "v \<notin> ?A" using D(4)[of k y v] phi h new by simp
  qed
  show "ren_inv f cs \<lparr>ren_func = f2, ren_ctxs = cs1, ren_stats = st\<rparr>"
    unfolding ren_inv_def sl RenameState.simps
  proof (intro conjI ballI allI impI)
    show "same_cfg f f2" by (rule D(1))
    show "static_ctxs \<lparr>ren_func = f2, ren_ctxs = cs1, ren_stats = st\<rparr> = cs"
      unfolding static_ctxs_def RenameState.simps by (rule static_stack[OF cs1(1) cs(2)]) (use cs1(2) in blast)+
    show "set (stack x) \<inter> ?A = {}" if x: "x \<in> set cs1" for x
    proof -
      obtain k where k: "k < length cs" "x = cs1 ! k" using x cs1(1) by (auto simp: in_set_conv_nth)
      obtain u where u: "cs1 ! k = (cs ! k)\<lparr>stack := u # stack (cs ! k)\<rparr>" "unat (next_value_id f) \<le> unat u" using cs1(2)[OF k(1)] by blast
      then show ?thesis using k cs(2)[OF nth_mem[OF k(1)]] new by simp
    qed
    show "block_ok ?A (blocks f2 ! b)" if "b \<in> set (block_list f)" for b
      using i(2) promotable_block_ok[OF ns that] ps by (simp add: frame_ok_def)
    fix c y v assume h: "c \<in> set cs" "y \<in> set (block_list f)" "phi_of c (block_ident f y) = Some v"
    obtain k where "k < length cs" "c = cs ! k" using h(1) by (auto simp: in_set_conv_nth)
    then show "length (phis_named v (blocks f2 ! y)) = 1" using D(4)[of k y v] phi h by simp
  qed
qed

section \<open>The pass\<close>

lemma phi_inv_start: "results_below f \<Longrightarrow> phi_inv f (map phi_for_block []) f"
  by (simp add: phi_inv_def)



lemma found_def_blocks:
  "p \<in> set (find_promotable c f (positions f) []) \<Longrightarrow> set (def_blocks p) \<subseteq> set (block_list f)"
proof -
  assume "p \<in> set (find_promotable c f (positions f) [])"
  from find_promotable_from[OF this] obtain b k where "is_promotable c f (b, k) = Some p" by auto
  from is_promotable_facts(3)[OF this] show ?thesis by (force simp: positions_def)
qed

text \<open>What the pass needs of the function: it is in range, no edge is doubled, slots are distinct and
  have ids of their own, and none is stored through itself.\<close>

definition promotable_code :: "MirFunction \<Rightarrow> bool" where
  "promotable_code f \<longleftrightarrow> results_below f \<and> no_self_store f \<and> MIR_VALUE_NONE \<notin> set (allocs f) \<and> distinct (allocs f)
     \<and> (\<forall>b \<in> set (block_list f). distinct (cfg_succs f b))"

lemma promotable_codeD:
  assumes "promotable_code f"
  shows "results_below f" "no_self_store f" "MIR_VALUE_NONE \<notin> set (allocs f)" "distinct (allocs f)"
    "b \<in> set (block_list f) \<Longrightarrow> distinct (cfg_succs f b)"
  using assms unfolding promotable_code_def by blast+

lemma promote_contexts:
  assumes w: "cfg_wf f e" and pc: "promotable_code f" and d1: "mir_compute_dom_frontiers f d = Some d1"
    and ps: "ps = find_promotable c f (positions f) []"
    and n: "unat (next_value_id f) + length ps * (length (block_list f) + 1) < 2 ^ 31"
  obtains f1 cs m f2 cs1 where "build_ctxs (dom_frontier_of d1) ps (f, [], 0) = Some (f1, cs, m)" "push_undefs e ps cs f1 = (f2, cs1)"
     "map ctx_alloca cs = map alloca_val ps" "slots cs = alloca_val ` set ps"
     "phi_inv f (map phi_for_block cs) f2" "frame_ok f f2"
     "rename_ready f cs" "\<forall>st. ren_inv f cs \<lparr>ren_func = f2, ren_ctxs = cs1, ren_stats = st\<rparr>"
proof -
  note P = promotable_codeD[OF pc]
  have e: "e \<in> set (block_list f)" and inj: "inj_on (block_ident f) (set (block_list f))"
    using w by (auto simp: cfg_wf_def distinct_map)
  have n1: "unat (next_value_id f) + length ps * length (block_list f) < 2 ^ 31" using n by (simp add: algebra_simps)
  have df: "set (dom_frontier_of d1 b) \<subseteq> set (block_list f)" if "b \<in> set (block_list f)" for b
    by (rule frontiers_in_blocks[OF d1 that])
  have "\<exists>f1 cs m. build_ctxs (dom_frontier_of d1) ps (f, [], 0) = Some (f1, cs, m) \<and> phi_inv f (map phi_for_block cs) f1 \<and> frame_ok f f1
      \<and> map ctx_alloca cs = map ctx_alloca [] @ map alloca_val ps \<and> (\<forall>c \<in> set cs. stack c = [])
      \<and> unat (next_value_id f1) \<le> unat (next_value_id f) + length ps * length (block_list f)"
    using build_ctxs_ok[where df = "dom_frontier_of d1" and cs = "[]" and f = f and ps = ps and k = 0, OF df inj phi_inv_start[OF P(1)]]
      found_def_blocks ps n1 by simp
  then obtain f1 cs m where b: "build_ctxs (dom_frontier_of d1) ps (f, [], 0) = Some (f1, cs, m)" "phi_inv f (map phi_for_block cs) f1"
      "frame_ok f f1" "map ctx_alloca cs = map alloca_val ps" "\<And>c. c \<in> set cs \<Longrightarrow> stack c = []"
      "unat (next_value_id f1) \<le> unat (next_value_id f) + length ps * length (block_list f)" by auto
  have len: "length ps = length cs" using b(4) map_eq_imp_length_eq by metis
  obtain f2 cs1 where u: "push_undefs e ps cs f1 = (f2, cs1)" by fastforce
  have "unat (next_value_id f1) + length ps < 2 ^ 31" using b(6) n by (simp add: algebra_simps)
  note pu = push_undefs_ok[OF e b(2) len this u]
  have fr2: "frame_ok f f2" using frame_ok_trans[OF b(3)] pu by blast
  have pi2: "phi_inv f (map phi_for_block cs) f2" and l1: "length cs1 = length cs"
    and k1: "\<And>k. k < length cs \<Longrightarrow> \<exists>u. cs1 ! k = (cs ! k)\<lparr>stack := u # stack (cs ! k)\<rparr> \<and> unat (next_value_id f) \<le> unat u"
    using pu by blast+
  note rd = promote_ready[OF w P(1-3,5) ps pi2 fr2 b(4,5) l1 k1]
  show thesis by (rule that[OF b(1) u b(4) rd(1) pi2 fr2 rd(2) allI[OF rd(3)]])
qed

lemma promote_renamed:
  assumes w: "cfg_wf f e"
    and d: "mir_compute_dominators f dom_init = Some d" "mir_compute_dom_frontiers f d = Some d1"
    and r: "rename_ready f cs" "ren_inv f cs s0"
  shows "\<exists>s. rename_blocks (dom_children_of d1) [e] s0 = Some s \<and> renamed f cs {x. reaches (cfg_succs f) e x} s0 s"
proof -
  obtain d' where d': "mir_compute_dominators f dom_init = Some d'" "exact_tree (cfg_succs f) e (idom_of d')"
      "tree_children (cfg_succs f) e (dom_children_of d')"
    using compute_dominators_ok[OF w, of dom_init] unfolding tree_children_def by (auto simp: dom_init_def)
  have "dom_children_of d1 = dom_children_of d" using frontier_fields_ok[OF w d(1)] d(2) by auto
  then have kids: "tree_children (cfg_succs f) e (dom_children_of d1)" and t: "exact_tree (cfg_succs f) e (idom_of d)"
    using d' d(1) by auto
  have "subtree (cfg_succs f) e e = {x. reaches (cfg_succs f) e x}" using entry_dominates by (auto simp: subtree_def)
  then show ?thesis using rename_subtree[OF r(1) w t kids reaches_start r(2)] by auto
qed

text \<open>
  C10: The promotion of a function is complete.  Given the dominator tree and the frontiers, it ends; the
  control-flow graph is unchanged; no reachable block loads from or stores to a promoted slot any
  more and no block allocates one; and each phi placed for a slot is there once, with exactly one
  edge for each reachable predecessor of its block.
\<close>

theorem promotion_complete:
  assumes w: "cfg_wf f e" and pc: "promotable_code f"
    and d: "mir_compute_dominators f dom_init = Some d" "mir_compute_dom_frontiers f d = Some d1"
    and ps: "ps = find_promotable c f (positions f) []"
    and n: "unat (next_value_id f) + length ps * (length (block_list f) + 1) < 2 ^ 31"
  shows "\<exists>f1 cs m f' st'. build_ctxs (dom_frontier_of d1) ps (f, [], 0) = Some (f1, cs, m)
     \<and> map ctx_alloca cs = map alloca_val ps \<and> promote f e d1 ps st = Some (f', st') \<and> same_cfg f f'
     \<and> (\<forall>b. reaches (cfg_succs f) e b \<longrightarrow> slot_free (alloca_val ` set ps) (blocks f' ! b))
     \<and> (\<forall>p \<in> set ps. alloca_val p \<notin> set (allocs f'))
     \<and> (\<forall>x \<in> set cs. \<forall>y \<in> set (block_list f). \<forall>v. phi_of x (block_ident f y) = Some v \<longrightarrow>
          length (phis_named v (blocks f' ! y)) = 1
          \<and> sources v (blocks f' ! y) = image_mset Some (mset_set {p. reaches (cfg_succs f) e p \<and> y \<in> set (cfg_succs f p)}))"
proof -
  let ?A = "alloca_val ` set ps" and ?R = "{x. reaches (cfg_succs f) e x}"
  obtain f1 cs m f2 cs1 where b: "build_ctxs (dom_frontier_of d1) ps (f, [], 0) = Some (f1, cs, m)"
      "push_undefs e ps cs f1 = (f2, cs1)" "map ctx_alloca cs = map alloca_val ps" "slots cs = ?A"
      "phi_inv f (map phi_for_block cs) f2" "frame_ok f f2" "rename_ready f cs"
      "\<forall>st. ren_inv f cs \<lparr>ren_func = f2, ren_ctxs = cs1, ren_stats = st\<rparr>"
    by (rule promote_contexts[OF w pc d(2) ps n]) (rule that)
  let ?s = "\<lparr>ren_func = f2, ren_ctxs = cs1, ren_stats = st\<lparr>phis_inserted := phis_inserted st + m\<rparr>\<rparr>"
  obtain s where s: "rename_blocks (dom_children_of d1) [e] ?s = Some s" "renamed f cs ?R ?s s"
    using promote_renamed[OF w d b(7) spec[OF b(8)]] by blast
  have "ren_inv f cs s" using s(2) by (simp add: renamed_def)
  note I = ren_invD[OF this]
  obtain f' st' where del: "foldl delete_alloca (ren_func s, ren_stats s) (map alloca_val ps) = (f', st')" by fastforce
  have sc: "block_list (ren_func s) = block_list f" "length (blocks (ren_func s)) = length (blocks f)"
    using I(1) by (simp_all add: same_cfg_def)
  have kc: "keeps_code (ren_func s) f' \<and> mset (allocs f') = mset (allocs (ren_func s)) - mset (map alloca_val ps)"
    by (rule delete_allocas_ok[OF _ _ del]) (use w promotable_codeD(1)[OF pc] sc in \<open>auto simp: results_below_def cfg_wf_def distinct_map\<close>)
  have "allocated (blocks (ren_func s) ! x) = allocated (blocks f ! x)" for x
    using s(2) b(6) by (simp add: renamed_def frame_ok_def)
  then have al: "allocs (ren_func s) = allocs f" by (simp add: allocs_def sc)
  have "slot_free ?A (blocks f' ! x)" if "reaches (cfg_succs f) e x" for x
    using s(2) that kc b(4) by (auto simp: renamed_def keeps_code_def)
  moreover have "alloca_val p \<notin> set (allocs f')" if "p \<in> set ps" for p
    by (rule deleted_gone[where vs = "map alloca_val ps", OF promotable_codeD(4)[OF pc]]) (use kc al that in auto)
  moreover have "length (phis_named v (blocks f' ! y)) = 1
      \<and> sources v (blocks f' ! y) = image_mset Some (mset_set {p. reaches (cfg_succs f) e p \<and> y \<in> set (cfg_succs f p)})"
    if h: "x \<in> set cs" "y \<in> set (block_list f)" "phi_of x (block_ident f y) = Some v" for x y v
  proof -
    obtain k where k: "k < length cs" "x = cs ! k" using h(1) by (auto simp: in_set_conv_nth)
    have "sources v (blocks f2 ! y) = {#}" using phi_invD(4)[OF b(5), of k y v] phi_of_map h k by simp
    then have "sources v (blocks (ren_func s) ! y)
        = image_mset Some (mset_set {p. reaches (cfg_succs f) e p \<and> y \<in> set (cfg_succs f p)})"
      using s(2) h k unfolding renamed_def by simp
    moreover have "phis_named v (blocks f' ! y) = phis_named v (blocks (ren_func s) ! y)" using kc by (simp add: keeps_code_def)
    ultimately show ?thesis using I(5)[OF h] by (simp add: sources_def)
  qed
  moreover have "same_cfg f f'" using same_cfg_trans[OF I(1)] kc by (simp add: keeps_code_def)
  moreover have "promote f e d1 ps st = Some (f', st')" using b(1,2) s(1) del by (simp add: promote_def)
  ultimately show ?thesis using b(1,3) by blast
qed

section \<open>A counting loop\<close>

text \<open>The slot 1 counts up while it differs from 0; it is read in the loop and after it.\<close>

definition slot_function :: MirFunction where
  "slot_function = demo_function\<lparr>entry_block := Some 0, block_list := [0, 1, 2, 3], block_count := 4,
     next_value_id := 8, value_types := replicate 64 (Some 0),
     blocks :=
       [(loop_block 0 [] [1])\<lparr>insts := [\<lparr>iop = ALLOCA (Some 0) 1, result = 1, itype = Some 0\<rparr>,
                                      \<lparr>iop = CONST_INT 1, result = 2, itype = Some 0\<rparr>,
                                      \<lparr>iop = STORE 1 2, result = 0, itype = None\<rparr>,
                                      \<lparr>iop = BR (Some 1), result = 0, itype = None\<rparr>]\<rparr>,
        (loop_block 1 [0, 2] [2, 3])\<lparr>insts := [\<lparr>iop = LOAD 1, result = 3, itype = Some 0\<rparr>,
                                      \<lparr>iop = CONDBR 3 (Some 2) (Some 3), result = 0, itype = None\<rparr>]\<rparr>,
        (loop_block 2 [1] [1])\<lparr>insts := [\<lparr>iop = LOAD 1, result = 4, itype = Some 0\<rparr>,
                                      \<lparr>iop = BINARY MIR_ADD 4 2, result = 5, itype = Some 0\<rparr>,
                                      \<lparr>iop = STORE 1 5, result = 0, itype = None\<rparr>,
                                      \<lparr>iop = BR (Some 1), result = 0, itype = None\<rparr>]\<rparr>,
        (loop_block 3 [1] [])\<lparr>insts := [\<lparr>iop = LOAD 1, result = 6, itype = Some 0\<rparr>,
                                      \<lparr>iop = RET 6, result = 0, itype = None\<rparr>]\<rparr>]\<rparr>"

lemma slot_cfg: "cfg_wf slot_function 0"
  by code_simp

lemma slot_code: "promotable_code slot_function"
  unfolding promotable_code_def results_below_def by code_simp

lemma slot_found: "find_promotable [TyPlain MIR_TYPE_I64] slot_function (positions slot_function) []
    = [\<lparr>alloca_val = 1, alloc_type = Some 0, def_blocks = [0, 2]\<rparr>]"
  by code_simp

lemma slot_small: "unat (next_value_id slot_function) + length [\<lparr>alloca_val = 1, alloc_type = Some 0, def_blocks = [0, 2]\<rparr>]
    * (length (block_list slot_function) + 1) < 2 ^ 31"
  by (simp add: slot_function_def)

lemma slot_succs: "cfg_succs slot_function 0 = [1]" "cfg_succs slot_function 1 = [2, 3]" "cfg_succs slot_function 2 = [1]"
  "cfg_succs slot_function 3 = []"
  by code_simp+

theorem promotion_complete_witness:
  "\<exists>d d1 f' st'. mir_compute_dominators slot_function dom_init = Some d \<and> mir_compute_dom_frontiers slot_function d = Some d1
     \<and> promote slot_function 0 d1 [\<lparr>alloca_val = 1, alloc_type = Some 0, def_blocks = [0, 2]\<rparr>]
         \<lparr>allocas_promoted = 0, loads_eliminated = 0, stores_eliminated = 0, phis_inserted = 0\<rparr> = Some (f', st')
     \<and> slot_free {1} (blocks f' ! 2) \<and> 1 \<notin> set (allocs f')"
proof -
  obtain d where d: "mir_compute_dominators slot_function dom_init = Some d"
    using compute_dominators_ok[OF slot_cfg, of dom_init] by (auto simp: dom_init_def)
  obtain d1 where d1: "mir_compute_dom_frontiers slot_function d = Some d1" using frontier_fields_ok[OF slot_cfg d] by blast
  have 1: "reaches (cfg_succs slot_function) 0 1" by (rule reaches_step[OF reaches_start]) (simp add: slot_succs)
  have 2: "reaches (cfg_succs slot_function) 0 2" by (rule reaches_step[OF 1]) (simp add: slot_succs[simplified])
  show ?thesis
    using promotion_complete[OF slot_cfg slot_code d d1 slot_found[symmetric] slot_small,
        of "\<lparr>allocas_promoted = 0, loads_eliminated = 0, stores_eliminated = 0, phis_inserted = 0\<rparr>"] d d1 2 by auto
qed

end
