(* ===== verification/Spec2Isabelle.thy ===== *)
theory Spec2Isabelle
  imports Casprix_Prelude Mir Mir_Cfg Mir_Verify Mir_Builder Builder_Facts Mir_Opt Opt_Facts Opt_Sound
    Fifo String_Map Coll_Queue Coll_List Coll_Pq Coll_Map Coll_Swiss Net_Ringbuf
    Fast_Format Cvm Cvm_Facts Mir_Consteval Consteval_Facts Consteval_Sound
    Mir_Borrow Borrow_Flow Borrow_Facts Data_Layout Ws_Framing Pkg_Version Pkg_Resolver Sym_Table Sym_Class Class_Facts
    Mir_Dom Dom_Facts Dom_Cfg Mir_Validate Validate_Facts Mir_Mem2reg Phi_Facts Rename_Facts Mem2reg_Facts
begin

text \<open>
  Casprix: the mid-level IR, its verifier and optimiser, and the virtual machine that runs it.
\<close>

section \<open>From the builder to the optimiser and the VM\<close>

lemma cfg_exact_edges_wf:
  assumes "cfg_exact f"
  shows "edges_wf f"
proof -
  have bl: "set (block_list f) = {..<length (blocks f)}" using assms by (auto simp: cfg_exact_def)
  have "block_ident f a = a" if "a < length (blocks f)" for a
    using assms that by (simp add: cfg_exact_def block_ident_def)
  then have "inj_on (block_ident f) (set (block_list f))" by (auto simp: inj_on_def bl)
  moreover have "handles_ok f" using assms by (auto simp: handles_ok_def cfg_exact_def)
  ultimately show ?thesis
    using assms unfolding edges_wf_def bl by (auto simp: cfg_exact_def succs_of_def)
qed

lemma succs_of_code:
  assumes "cfg_exact f" and ne: "blocks f \<noteq> []"
  shows "(0, b) \<in> (succ_rel (succs_of f))\<^sup>* \<longleftrightarrow> (0, b) \<in> {(x, y). x < length (blocks f) \<and> y \<in> code_targets f x}\<^sup>*"
proof -
  let ?n = "length (blocks f)" and ?C = "{(x, y). x < length (blocks f) \<and> y \<in> code_targets f x}"
  have eq: "set (succs_of f a) = code_targets f a" "code_targets f a \<subseteq> {..<?n}" if "a < ?n" for a
    using assms that by (simp_all add: cfg_exact_def succs_of_def)
  have "(0, c) \<in> ?C\<^sup>* \<and> c < ?n" if "(0, c) \<in> (succ_rel (succs_of f))\<^sup>*" for c
    using that
  proof induction
    case base
    show ?case using ne by simp
  next
    case (step y z)
    then have "(y, z) \<in> ?C" "z < ?n" using eq[of y] by (auto simp: succ_rel_def)
    with step.IH show ?case by (meson rtrancl.rtrancl_into_rtrancl)
  qed
  moreover have "?C \<subseteq> succ_rel (succs_of f)" using eq(1) by (auto simp: succ_rel_def)
  ultimately show ?thesis using rtrancl_mono by blast
qed

text \<open>
  On a function made with the builder, removing unreachable blocks keeps exactly the blocks that
  the branches in the code can reach from the entry block, in their order and numbered without gaps.
\<close>

theorem built_function_unreachable_removed:
  assumes b: "built m name ret ps b" and f: "f = bfunc b" "\<not> is_extern f" "1 < length (blocks f)"
  shows "block_list (mir_remove_unreachable_blocks f) =
      filter (\<lambda>x. (0, x) \<in> {(x, y). x < length (blocks f) \<and> y \<in> code_targets f x}\<^sup>*) [0..<length (blocks f)]
    \<and> block_count (mir_remove_unreachable_blocks f) = length (block_list (mir_remove_unreachable_blocks f))"
proof -
  have c: "cfg_exact f" using built_invs(2)[OF b] f(1) by (simp add: cfg_inv_def)
  have ne: "blocks f \<noteq> []" using f(3) by auto
  have e: "entry_block f = Some 0" "0 \<in> set (block_list f)" "1 < length (block_list f)"
    "block_list f = [0..<length (blocks f)]"
    using c f(3) ne by (auto simp: cfg_exact_def)
  from remove_unreachable_exact[OF cfg_exact_edges_wf[OF c] e(1,2) f(2) e(3)]
  show ?thesis unfolding e(4) succs_of_code[OF c ne] by blast
qed

theorem built_function_unreachable_removed_witness:
  "block_count (mir_remove_unreachable_blocks (bfunc demo_b6)) = 2"
proof -
  have "\<not> is_extern (bfunc demo_b6)" "1 < length (blocks (bfunc demo_b6))" by code_simp+
  from built_function_unreachable_removed[OF demo_built refl this]
  have "block_count (mir_remove_unreachable_blocks (bfunc demo_b6)) =
      length (block_list (mir_remove_unreachable_blocks (bfunc demo_b6)))" by blast
  also have "\<dots> = 2" by code_simp
  finally show ?thesis .
qed

text \<open>
  C5: From construction to execution: when every function of a module was made with the builder and
  passes the verifier, and none needs more than 4096 registers, no run of the VM on the module ends
  with the register-index trap 5.
\<close>

theorem built_module_never_traps_registers:
  assumes fs: "\<And>f. f \<in> set (func_list (vmodule vm)) \<Longrightarrow>
      \<exists>m name ret ps b. built m name ret ps b \<and> f = bfunc b \<and> \<not> is_extern f
        \<and> mir_verify_function (type_cache (vmodule vm)) f = 0 \<and> unat (next_value_id f) \<le> 4096"
    and "trap_code vm \<noteq> 5" and run: "cvm_run env n vm entry as = Ok (vm', v)"
  shows "trap_code vm' \<noteq> 5"
proof -
  have "vm_accepts (type_cache (vmodule vm)) f" if f: "f \<in> set (func_list (vmodule vm))" for f
  proof -
    obtain m name ret ps b where b: "built m name ret ps b" "f = bfunc b" "\<not> is_extern f"
      "mir_verify_function (type_cache (vmodule vm)) f = 0" "unat (next_value_id f) \<le> 4096"
      using fs[OF f] by blast
    have "ids_verified f" "cfg_exact f" using built_invs[OF b(1)] b(2) by (simp_all add: cfg_inv_def)
    moreover from this have "0 < next_value_id f"
      by (simp add: ids_verified_def values_wf_def word_less_nat_alt)
    ultimately show ?thesis using b by (auto simp: vm_accepts_def ids_verified_def inst_ok_def cfg_exact_def)
  qed
  then have "module_ids_ok vm" using vm_accepts_ids_ok by (auto simp: module_ids_ok_def)
  with reg_file.run[OF run] assms(2) show ?thesis by (simp add: reg_safe_def)
qed

definition demo_built_vm :: CvmState where
  "demo_built_vm =
     (cvm_state_create ((bmodule demo_b6)\<lparr>func_list := [bfunc demo_b6], func_count := 1\<rparr>) False)
     \<lparr>profiles := [\<lparr>p_func_name = ''f'', call_count = 4, tier = CVM_TIER_JIT_DENIED, native_fn = None\<rparr>],
      profile_cap := 16\<rparr>"

lemma demo_b6_fields [simp]:
  "params (bfunc demo_b6) = [\<lparr>pname = ''x'', ptype = Some 0, value_id = 1\<rparr>]"
  "entry_block (bfunc demo_b6) = Some 0" "fname (bfunc demo_b6) = ''f''"
  "insts (blocks (bfunc demo_b6) ! 0) =
     [\<lparr>iop = BINARY MIR_ADD 1 1, result = 2, itype = Some 0\<rparr>, \<lparr>iop = BR (Some 1), result = 0, itype = Some 1\<rparr>]"
  "insts (blocks (bfunc demo_b6) ! Suc 0) = [\<lparr>iop = RET 2, result = 0, itype = Some 1\<rparr>]"
  "length (blocks (bfunc demo_b6)) = 2" "threaded (bfunc demo_b6) 0" "threaded (bfunc demo_b6) (Suc 0)"
  "reg_count_of (bfunc demo_b6) = 3" "next_value_id (bfunc demo_b6) = 3" "\<not> is_extern (bfunc demo_b6)"
  by code_simp+

lemma demo_built_run: "\<exists>vm'. cvm_run demo_env 5 demo_built_vm ''f'' [21] = Ok (vm', 42)"
proof -
  have five: "(5::nat) = Suc (Suc (Suc (Suc (Suc 0))))" by simp
  define vm1 where "vm1 = demo_built_vm\<lparr>profiles := [\<lparr>p_func_name = ''f'', call_count = 5,
    tier = CVM_TIER_JIT_DENIED, native_fn = None\<rparr>]\<rparr>"
  have f: "mir_module_find_function (vmodule demo_built_vm) ''f'' = Some (bfunc demo_b6)"
    by (simp add: demo_built_vm_def cvm_state_create_def mir_module_find_function_def)
  have g: "cvm_get_profile demo_env demo_built_vm (bfunc demo_b6) = (demo_built_vm, Some 0)"
    by (simp add: cvm_get_profile_def demo_built_vm_def cvm_state_create_def)
  have p: "profiles demo_built_vm = [\<lparr>p_func_name = ''f'', call_count = 4, tier = CVM_TIER_JIT_DENIED, native_fn = None\<rparr>]"
    by (simp add: demo_built_vm_def)
  have fields: "e_alloc_ok demo_env vm1 24" "frame_depth vm1 = 0" "frame_depth_peak vm1 = 0"
    "inst_executed vm1 = 0" "trap_code vm1 = 0" "mem vm1 = []"
    by (simp_all add: vm1_def demo_env_def demo_built_vm_def cvm_state_create_def)
  have "\<exists>vm'. cvm_exec_function demo_env (Suc (Suc (Suc (Suc (Suc 0))))) vm1 (bfunc demo_b6) [21] = Ok (vm', 42)"
    using fields
    by (simp add: Let_def CVM_MAX_CALL_DEPTH_def enter_block_def set_next_def cvm_reg_set_def
        cvm_reg_get_def op_binary_def cvm_frame_free_allocas_def numeral_3_eq_3)
  then show ?thesis unfolding five
    by (simp add: cvm_run_def f cvm_enter_def g p Let_def cvm_tier_up_def vm1_def del: cvm_exec_function.simps)
qed

theorem built_module_never_traps_registers_witness:
  "\<exists>vm'. cvm_run demo_env 5 demo_built_vm ''f'' [21] = Ok (vm', 42) \<and> trap_code vm' \<noteq> 5"
proof -
  obtain vm' where r: "cvm_run demo_env 5 demo_built_vm ''f'' [21] = Ok (vm', 42)" using demo_built_run by blast
  have fs: "func_list (vmodule demo_built_vm) = [bfunc demo_b6]" "trap_code demo_built_vm = 0"
    by (simp_all add: demo_built_vm_def cvm_state_create_def)
  have v: "mir_verify_function (type_cache (vmodule demo_built_vm)) (bfunc demo_b6) = 0" by code_simp
  have "trap_code vm' \<noteq> 5"
    by (rule built_module_never_traps_registers[OF _ _ r]) (use demo_built v in \<open>auto simp: fs intro!: exI\<close>)
  with r show ?thesis by blast
qed

section \<open>From the builder to the borrow checker\<close>

lemma cfg_exact_cfg_ok:
  assumes "cfg_exact f"
  shows "cfg_ok f"
proof -
  have bl: "block_list f = [0..<length (blocks f)]" using assms by (simp add: cfg_exact_def)
  have "block_ident f a = a" if "a < length (blocks f)" for a
    using assms that by (simp add: cfg_exact_def block_ident_def)
  then have "inj_on (block_ident f) (set (block_list f))" by (auto simp: inj_on_def bl)
  moreover have e: "code_targets f a \<subseteq> {..<length (blocks f)}" "set (successors (blocks f ! a)) = code_targets f a"
    "set (predecessors (blocks f ! a)) = {b. b < length (blocks f) \<and> a \<in> code_targets f b}" if "a < length (blocks f)" for a
    using assms that by (simp_all add: cfg_exact_def)
  ultimately show ?thesis unfolding cfg_ok_def bl by (auto simp: e dest: subsetD[OF e(1)])
qed

text \<open>
  C6: From construction to the borrow checker: when every function of a module was made with the
  builder, with at most 512 borrows, and module verification reports nothing, then in every defined
  function no path along the branches in the code leads from a move to a use of the moved value, and
  no borrow is made while a conflicting one is live.
\<close>

theorem built_module_moves_safe:
  assumes fs: "\<And>f. f \<in> set (func_list m) \<Longrightarrow> (\<exists>m0 name ret ps b. built m0 name ret ps b \<and> f = bfunc b)
      \<and> length (borrow_insts f) \<le> MIR_MAX_BORROWS"
    and ok: "mir_verify_module m = Some 0" and f: "f \<in> set (func_list m)" "\<not> is_extern f" "blocks f \<noteq> []"
  shows "\<not> use_after_move f \<and> \<not> borrow_conflict f
    \<and> (\<forall>a < length (blocks f). set (successors (blocks f ! a)) = code_targets f a)"
proof -
  have ce: "cfg_exact g" if "g \<in> set (func_list m)" for g
    using fs[OF that] built_invs(2) by (auto simp: cfg_inv_def)
  then have "\<forall>g \<in> set (func_list m). function_ok g"
    using fs cfg_exact_cfg_ok by (auto simp: function_ok_def)
  from module_exact[OF this] ok f(1) have "function_clean f" by auto
  moreover have "block_list f \<noteq> []" using ce[OF f(1)] f(3) by (simp add: cfg_exact_def)
  ultimately show ?thesis using f(2) ce[OF f(1)] by (auto simp: function_clean_def cfg_exact_def)
qed

text \<open>
  A function that allocates an object, borrows it mutably, reads through the borrow, moves the object
  and returns it.
\<close>

definition own_module :: MirModule where
  "own_module = fst (mir_intern_primitive (mir_module_create ''m'') MIR_TYPE_I64)"

definition own_b0 :: MirBuilder where
  "own_b0 = (case mir_module_add_function own_module ''f'' (Some 0) [] of (m, f) \<Rightarrow> mir_builder_init m f)"

definition own_b1 :: MirBuilder where
  "own_b1 = own_b0\<lparr>bfunc := fst (mir_function_add_block (bfunc own_b0) ''entry'')\<rparr>"

definition own_b2 :: MirBuilder where
  "own_b2 = mir_builder_set_block own_b1 (Some 0)"

definition own_b3 :: MirBuilder where
  "own_b3 = fst (the (mir_build_obj_alloc own_b2 ''Box'' 8))"

definition own_b4 :: MirBuilder where
  "own_b4 = fst (the (mir_build_borrow_mut own_b3 1))"

definition own_b5 :: MirBuilder where
  "own_b5 = fst (the (mir_build_load own_b4 2 (Some 0)))"

definition own_b6 :: MirBuilder where
  "own_b6 = fst (the (mir_build_move own_b5 1))"

definition own_b7 :: MirBuilder where
  "own_b7 = the (mir_build_ret own_b6 4)"

lemma own_next:
  "next_value_id (bfunc own_b2) = 1" "next_value_id (bfunc own_b3) = 2" "next_value_id (bfunc own_b4) = 3"
  "next_value_id (bfunc own_b5) = 4" "next_value_id (bfunc own_b6) = 5"
  by code_simp+

lemma own_ids: "ids_left (bfunc own_b2)" "ids_left (bfunc own_b3)" "ids_left (bfunc own_b4)" "ids_left (bfunc own_b5)" "ids_left (bfunc own_b6)"
  by (simp_all add: ids_left_def own_next)

lemma own_values:
  "operand_ok (bfunc own_b3) 1" "operand_ok (bfunc own_b4) 2" "operand_ok (bfunc own_b5) 1" "operand_ok (bfunc own_b6) 4"
  "length (blocks (bfunc own_b1)) = 1"
  by code_simp+

lemma own_emits:
  "mir_build_obj_alloc own_b2 ''Box'' 8 \<noteq> None" "mir_build_borrow_mut own_b3 1 \<noteq> None" "mir_build_load own_b4 2 (Some 0) \<noteq> None"
  "mir_build_move own_b5 1 \<noteq> None" "mir_build_ret own_b6 4 \<noteq> None"
  by code_simp+

lemma own_built: "built own_module ''f'' (Some 0) [] own_b7"
proof -
  have 0: "builder_step operand_ok own_b0 own_b1"
    unfolding own_b1_def by (rule b_add_block[of _ "''entry''" _ "snd (mir_function_add_block (bfunc own_b0) ''entry'')"]) simp
  have 1: "builder_step operand_ok own_b1 own_b2" unfolding own_b2_def by (rule b_set_block) (simp add: own_values)
  obtain b v where "mir_build_obj_alloc own_b2 ''Box'' 8 = Some (b, v)" using own_emits(1) by (metis option.exhaust surj_pair)
  then have 2: "builder_step operand_ok own_b2 own_b3"
    using b_obj_alloc[where ok = operand_ok, OF own_ids(1)] by (simp add: own_b3_def)
  obtain b v where "mir_build_borrow_mut own_b3 1 = Some (b, v)" using own_emits(2) by (metis option.exhaust surj_pair)
  then have 3: "builder_step operand_ok own_b3 own_b4"
    using b_borrow_mut[where ok = operand_ok, OF own_ids(2) own_values(1)] by (simp add: own_b4_def)
  obtain b v where "mir_build_load own_b4 2 (Some 0) = Some (b, v)" using own_emits(3) by (metis option.exhaust surj_pair)
  then have 4: "builder_step operand_ok own_b4 own_b5"
    using b_load[where ok = operand_ok, OF own_ids(3) own_values(2)] by (simp add: own_b5_def)
  obtain b v where "mir_build_move own_b5 1 = Some (b, v)" using own_emits(4) by (metis option.exhaust surj_pair)
  then have 5: "builder_step operand_ok own_b5 own_b6"
    using b_move[where ok = operand_ok, OF own_ids(4) own_values(3)] by (simp add: own_b6_def)
  obtain b where "mir_build_ret own_b6 4 = Some b" using own_emits(5) by (metis option.exhaust)
  then have 6: "builder_step operand_ok own_b6 own_b7"
    using b_ret[where ok = operand_ok, OF own_ids(5) own_values(4)] by (simp add: own_b7_def)
  have "(builder_step operand_ok)\<^sup>*\<^sup>* own_b0 own_b7"
    by (rule seven_steps[where R = "builder_step operand_ok", OF 0 1 2 3 4 5 6])
  then show ?thesis by (simp add: built_def own_b0_def split_beta)
qed

theorem built_module_moves_safe_witness:
  "mir_verify_module ((bmodule own_b7)\<lparr>func_list := [bfunc own_b7], func_count := 1\<rparr>) = Some 0
   \<and> TRANSFER MIR_MOVE 1 \<in> iop ` set (insts (blocks (bfunc own_b7) ! 0)) \<and> length (borrow_insts (bfunc own_b7)) = 1
   \<and> \<not> use_after_move (bfunc own_b7) \<and> \<not> borrow_conflict (bfunc own_b7)"
proof -
  let ?m = "(bmodule own_b7)\<lparr>func_list := [bfunc own_b7], func_count := 1\<rparr>"
  have v: "mir_verify_module ?m = Some 0" by code_simp
  have one: "length (borrow_insts (bfunc own_b7)) = 1" by code_simp
  then have few: "length (borrow_insts (bfunc own_b7)) \<le> MIR_MAX_BORROWS" by (simp add: MIR_MAX_BORROWS_def)
  have ne: "blocks (bfunc own_b7) \<noteq> []" "\<not> is_extern (bfunc own_b7)" by code_simp+
  have "TRANSFER MIR_MOVE 1 \<in> iop ` set (insts (blocks (bfunc own_b7) ! 0))" by code_simp
  moreover have "\<exists>m0 name ret ps b. built m0 name ret ps b \<and> bfunc own_b7 = bfunc b" using own_built by blast
  then have "\<not> use_after_move (bfunc own_b7) \<and> \<not> borrow_conflict (bfunc own_b7)"
    using built_module_moves_safe[OF _ v, of "bfunc own_b7"] own_built few ne by auto
  ultimately show ?thesis using v one by blast
qed

end
